(* ===== verification/Prelude.thy ===== *)
theory Prelude
  imports Main "HOL-Library.Multiset" "HOL-Library.List_Lexorder" "HOL-Library.Char_ord"
begin

text \<open>
  Shared vocabulary of the development: C++ exceptions as values, the sum type as the result of
  an operation that may throw, sequencing over it, \<open>std::size_t\<close> and \<open>std::int64_t\<close> limits, and
  the generic list lemmas the components use.
\<close>

section \<open>Exceptions and results\<close>

text \<open>
  One constructor per exception class of the source; the string is the message it is built with.
  \<open>Undefined_behaviour\<close> is no exception: it marks the places where the C++ code would overflow
  a signed integer or index past the end of a vector, so that its absence can be proved.
\<close>

datatype exn =
    Invalid_argument string
  | Out_of_range string
  | Overflow_error string
  | Logic_error string
  | Runtime_error string
  | Kv_capacity_error string
  | Bad_alloc
  | Bad_variant_access
  | Undefined_behaviour string

text \<open>The message a handler reads with \<open>what()\<close>.\<close>

fun what :: "exn \<Rightarrow> string" where
  "what (Invalid_argument m) = m"
| "what (Out_of_range m) = m"
| "what (Overflow_error m) = m"
| "what (Logic_error m) = m"
| "what (Runtime_error m) = m"
| "what (Kv_capacity_error m) = m"
| "what Bad_alloc = ''std::bad_alloc''"
| "what Bad_variant_access = ''std::bad_variant_access''"
| "what (Undefined_behaviour m) = m"

type_synonym 'a result = "exn + 'a"

definition bindE :: "'e + 'a \<Rightarrow> ('a \<Rightarrow> 'e + 'b) \<Rightarrow> 'e + 'b" where
  "bindE m f = (case m of Inl e \<Rightarrow> Inl e | Inr x \<Rightarrow> f x)"

lemma bindE_Inl [simp]: "bindE (Inl e) f = Inl e"
  by (simp add: bindE_def)

lemma bindE_Inr [simp]: "bindE (Inr x) f = f x"
  by (simp add: bindE_def)

lemma bindE_eq_Inr [simp]: "bindE m f = Inr y \<longleftrightarrow> (\<exists>x. m = Inr x \<and> f x = Inr y)"
  by (cases m) auto

lemma bindE_eq_Inl: "bindE m f = Inl e \<longleftrightarrow> m = Inl e \<or> (\<exists>x. m = Inr x \<and> f x = Inl e)"
  by (cases m) auto

lemma bindE_cong [fundef_cong]:
  assumes "m = n" and "\<And>x. n = Inr x \<Longrightarrow> f x = g x"
  shows "bindE m f = bindE n g"
  using assms by (cases n) auto

definition is_ok :: "'e + 'a \<Rightarrow> bool" where
  "is_ok m = (case m of Inl _ \<Rightarrow> False | Inr _ \<Rightarrow> True)"

lemma is_ok_simps [simp]: "is_ok (Inr x)" "\<not> is_ok (Inl e)"
  by (simp_all add: is_ok_def)

lemma is_ok_iff: "is_ok m \<longleftrightarrow> (\<exists>x. m = Inr x)"
  by (cases m) auto

text \<open>A \<open>for\<close> loop over a sequence whose body may throw, and one that collects results.\<close>

fun foldE :: "('a \<Rightarrow> 's \<Rightarrow> 'e + 's) \<Rightarrow> 'a list \<Rightarrow> 's \<Rightarrow> 'e + 's" where
  "foldE f [] s = Inr s"
| "foldE f (x # xs) s = bindE (f x s) (foldE f xs)"

fun mapE :: "('a \<Rightarrow> 'e + 'b) \<Rightarrow> 'a list \<Rightarrow> 'e + 'b list" where
  "mapE f [] = Inr []"
| "mapE f (x # xs) = bindE (f x) (\<lambda>y. bindE (mapE f xs) (\<lambda>ys. Inr (y # ys)))"

lemma foldE_append: "foldE f (xs @ ys) s = bindE (foldE f xs s) (foldE f ys)"
proof (induction xs arbitrary: s)
  case Nil
  then show ?case by simp
next
  case (Cons x xs)
  then show ?case by (cases "f x s") auto
qed

lemma foldE_invariant:
  assumes step: "\<And>x s s'. x \<in> set xs \<Longrightarrow> P s \<Longrightarrow> f x s = Inr s' \<Longrightarrow> P s'"
    and "P s" and "foldE f xs s = Inr s'"
  shows "P s'"
  using assms
proof (induction xs arbitrary: s)
  case Nil
  then show ?case by simp
next
  case (Cons x xs)
  from Cons.prems(3) obtain t where t: "f x s = Inr t" "foldE f xs t = Inr s'" by auto
  have "P t" using Cons.prems(1)[of x s t] Cons.prems(2) t(1) by simp
  then show ?case using Cons.IH[of t] Cons.prems(1) t(2) by (meson list.set_intros(2))
qed

lemma foldE_total:
  assumes "\<And>x s. x \<in> set xs \<Longrightarrow> P s \<Longrightarrow> \<exists>s'. f x s = Inr s' \<and> P s'" and "P s"
  shows "\<exists>s'. foldE f xs s = Inr s' \<and> P s'"
  using assms
proof (induction xs arbitrary: s)
  case Nil
  then show ?case by simp
next
  case (Cons x xs)
  obtain t where t: "f x s = Inr t" "P t" using Cons.prems(1)[of x s] Cons.prems(2) by auto
  then show ?case using Cons.IH[of t] Cons.prems(1) by auto
qed

lemma mapE_length: "mapE f xs = Inr ys \<Longrightarrow> length ys = length xs"
  by (induction xs arbitrary: ys) auto

lemma mapE_nth: "mapE f xs = Inr ys \<Longrightarrow> i < length xs \<Longrightarrow> f (xs ! i) = Inr (ys ! i)"
proof (induction xs arbitrary: ys i)
  case Nil
  then show ?case by simp
next
  case (Cons x xs)
  then obtain y ys' where ys: "f x = Inr y" "mapE f xs = Inr ys'" "ys = y # ys'" by auto
  then show ?case using Cons by (cases i) auto
qed

text \<open>
  An operation on a state that keeps its side effects when it throws: the exception and the state
  it leaves behind. \<open>bindS\<close> is the C++ statement sequence.
\<close>

type_synonym ('s, 'a) eff = "'s \<Rightarrow> 'a result \<times> 's"

definition bindS :: "('s, 'a) eff \<Rightarrow> ('a \<Rightarrow> ('s, 'b) eff) \<Rightarrow> ('s, 'b) eff" where
  "bindS m f s = (case m s of (Inl e, s') \<Rightarrow> (Inl e, s') | (Inr x, s') \<Rightarrow> f x s')"

definition returnS :: "'a \<Rightarrow> ('s, 'a) eff" where
  "returnS x s = (Inr x, s)"

definition throwS :: "exn \<Rightarrow> ('s, 'a) eff" where
  "throwS e s = (Inl e, s)"

text \<open>A check that reads the state, and a state change that cannot fail.\<close>

definition checkS :: "('s \<Rightarrow> 'a result) \<Rightarrow> ('s, 'a) eff" where
  "checkS f s = (f s, s)"

definition modifyS :: "('s \<Rightarrow> 's) \<Rightarrow> ('s, unit) eff" where
  "modifyS f s = (Inr (), f s)"

lemma bindS_simps [simp]:
  "bindS (returnS x) f s = f x s"
  "bindS (throwS e) f s = (Inl e, s)"
  "bindS (modifyS g) h s = h () (g s)"
  by (simp_all add: bindS_def returnS_def throwS_def modifyS_def)

lemma eff_simps [simp]:
  "returnS x s = (Inr x, s)" "throwS e s = (Inl e, s)" "modifyS g s = (Inr (), g s)"
  by (simp_all add: returnS_def throwS_def modifyS_def)

lemma bindS_checkS: "bindS (checkS c) f s = (case c s of Inl e \<Rightarrow> (Inl e, s) | Inr x \<Rightarrow> f x s)"
  by (simp add: bindS_def checkS_def split: sum.splits)

lemma bindS_Inl: "m s = (Inl e, s') \<Longrightarrow> bindS m f s = (Inl e, s')"
  by (simp add: bindS_def)

lemma bindS_Inr: "m s = (Inr x, s') \<Longrightarrow> bindS m f s = f x s'"
  by (simp add: bindS_def)

lemma bindS_eq_Inr: "bindS m f s = (Inr y, t) \<longleftrightarrow> (\<exists>x s'. m s = (Inr x, s') \<and> f x s' = (Inr y, t))"
  by (auto simp: bindS_def split: prod.splits sum.splits)

text \<open>
  \<open>std::map\<close> as an association list with strictly ascending keys: iteration is in key order.
  \<open>map_of\<close> is \<open>find\<close>.
\<close>

type_synonym ('k, 'v) amap = "('k \<times> 'v) list"

fun put :: "'k :: linorder \<Rightarrow> 'v \<Rightarrow> ('k, 'v) amap \<Rightarrow> ('k, 'v) amap" where
  "put k v [] = [(k, v)]"
| "put k v ((k', v') # xs) =
     (if k < k' then (k, v) # (k', v') # xs
      else if k = k' then (k, v) # xs
      else (k', v') # put k v xs)"

definition erase :: "'k \<Rightarrow> ('k, 'v) amap \<Rightarrow> ('k, 'v) amap" where
  "erase k xs = filter (\<lambda>kv. fst kv \<noteq> k) xs"

abbreviation amap_ok :: "('k :: linorder, 'v) amap \<Rightarrow> bool" where
  "amap_ok xs \<equiv> sorted_wrt (<) (map fst xs)"

lemma fst_put: "fst ` set (put k v xs) = insert k (fst ` set xs)"
  by (induction k v xs rule: put.induct) (simp_all add: insert_commute)

lemma ball_put: "(\<forall>x \<in> set (put k v xs). P (fst x)) \<longleftrightarrow> P k \<and> (\<forall>x \<in> set xs. P (fst x))"
  using fst_put[of k v xs] by (metis (no_types, lifting) image_iff insert_iff)

lemma put_ok [simp]: "amap_ok xs \<Longrightarrow> amap_ok (put k v xs)"
proof (induction xs)
  case (Cons x xs)
  obtain a b where x: "x = (a, b)" by (cases x)
  show ?case using Cons x ball_put[of k v xs "\<lambda>y. a < y"] by auto
qed simp

lemma map_of_put [simp]: "amap_ok xs \<Longrightarrow> map_of (put k v xs) = (map_of xs)(k \<mapsto> v)"
proof (induction xs)
  case (Cons x xs)
  then show ?case by (cases x) (auto simp: fun_eq_iff)
qed auto

lemma erase_ok [simp]: "amap_ok xs \<Longrightarrow> amap_ok (erase k xs)"
  by (induction xs) (auto simp: erase_def)

lemma map_of_erase [simp]: "map_of (erase k xs) = (map_of xs)(k := None)"
  by (induction xs) (auto simp: erase_def fun_eq_iff)

lemma amap_distinct: "amap_ok xs \<Longrightarrow> distinct (map fst xs)"
  by (simp add: strict_sorted_iff)

lemma amap_mem: "amap_ok xs \<Longrightarrow> (k, v) \<in> set xs \<longleftrightarrow> map_of xs k = Some v"
  by (simp add: amap_distinct)

text \<open>A sum over the entries of a map, and how one update changes it.\<close>

lemma sum_put:
  fixes f :: "'k :: linorder \<times> 'v \<Rightarrow> 'a :: comm_monoid_add"
  assumes "amap_ok xs"
  shows "map_of xs k = None \<Longrightarrow> sum_list (map f (put k v xs)) = f (k, v) + sum_list (map f xs)"
    and "map_of xs k = Some w \<Longrightarrow>
      f (k, w) + sum_list (map f (put k v xs)) = f (k, v) + sum_list (map f xs)"
  using assms
proof (induction xs)
  case (Cons x xs)
  {
    case 1
    then show ?case using Cons.IH(1) by (cases x) (auto simp: add.left_commute split: if_splits)
  next
    case 2
    obtain k' v' where x: "x = (k', v')" by (cases x)
    show ?case
    proof (cases "k = k'")
      case True
      then show ?thesis using 2 x by (simp add: add.left_commute)
    next
      case False
      then have m: "map_of xs k = Some w" using 2 x by auto
      then have "k \<in> fst ` set xs" by (metis map_of_SomeD fst_conv image_eqI)
      then have "k' < k" using 2 x by auto
      then have p: "put k v (x # xs) = x # put k v xs" using x by auto
      have "f (k, w) + sum_list (map f (put k v xs)) = f (k, v) + sum_list (map f xs)"
        using Cons.IH(2)[OF m] 2 by simp
      then show ?thesis unfolding p by (simp add: add.left_commute[of _ "f x"])
    qed
  }
qed auto

lemma sum_erase:
  fixes f :: "'k :: linorder \<times> 'v \<Rightarrow> 'a :: comm_monoid_add"
  shows "amap_ok xs \<Longrightarrow> map_of xs k = Some w \<Longrightarrow>
    f (k, w) + sum_list (map f (erase k xs)) = sum_list (map f xs)"
proof (induction xs)
  case (Cons x xs)
  obtain k' v' where x: "x = (k', v')" by (cases x)
  show ?case
  proof (cases "k = k'")
    case True
    have "erase k xs = xs" unfolding erase_def using Cons.prems(1) True x
      by (intro filter_True) auto
    then show ?thesis using Cons.prems True x by (simp add: erase_def)
  next
    case False
    have "f (k, w) + sum_list (map f (erase k xs)) = sum_list (map f xs)"
      using Cons False x by simp
    moreover have "erase k (x # xs) = x # erase k xs" using False x by (simp add: erase_def)
    ultimately show ?thesis by (simp add: add.left_commute[of _ "f x"])
  qed
qed simp

section \<open>Integer limits\<close>

text \<open>
  \<open>std::size_t\<close> is 64 bits wide on the supported targets. Sizes are \<open>nat\<close>; every overflow
  check of the source is written out against these limits, and an arithmetic step the source
  leaves unchecked is reduced with \<open>wrap64\<close>.
\<close>

definition size_max :: nat where
  "size_max = 2 ^ 64 - 1"

definition int64_max :: int where
  "int64_max = 2 ^ 63 - 1"

definition int64_min :: int where
  "int64_min = - (2 ^ 63)"

definition int32_max :: int where
  "int32_max = 2 ^ 31 - 1"

definition wrap64 :: "nat \<Rightarrow> nat" where
  "wrap64 n = n mod 2 ^ 64"

lemma wrap64_id [simp]: "n \<le> size_max \<Longrightarrow> wrap64 n = n"
  by (simp add: wrap64_def size_max_def)

lemma wrap64_le: "wrap64 n \<le> size_max"
proof -
  have "n mod 2 ^ 64 < (2 ^ 64 :: nat)" by simp
  then show ?thesis unfolding wrap64_def size_max_def by linarith
qed

text \<open>\<open>--x\<close> on an unsigned 64-bit counter wraps at zero.\<close>

definition dec64 :: "nat \<Rightarrow> nat" where
  "dec64 n = (if n = 0 then size_max else n - 1)"

lemma dec64_pos [simp]: "0 < n \<Longrightarrow> dec64 n = n - 1"
  by (simp add: dec64_def)

lemma dec64_Suc [simp]: "dec64 (Suc n) = n"
  by (simp add: dec64_def)

text \<open>C++ integer division and remainder truncate towards zero.\<close>

definition ceil_div :: "nat \<Rightarrow> nat \<Rightarrow> nat" where
  "ceil_div a b = a div b + (if a mod b \<noteq> 0 then 1 else 0)"

lemma ceil_div_le:
  assumes "0 < b"
  shows "a \<le> ceil_div a b * b"
proof -
  have a: "a div b * b + a mod b = a" by (rule div_mult_mod_eq)
  have r: "a mod b \<le> b" using assms by (simp add: less_imp_le)
  show ?thesis
  proof (cases "a mod b = 0")
    case True
    then show ?thesis using a by (simp add: ceil_div_def)
  next
    case False
    have "a \<le> a div b * b + b" using a r by linarith
    then show ?thesis using False by (simp add: ceil_div_def)
  qed
qed

lemma ceil_div_0 [simp]: "ceil_div 0 b = 0"
  by (simp add: ceil_div_def)

lemma ceil_div_mono:
  assumes "0 < b" and "a \<le> a'"
  shows "ceil_div a b \<le> ceil_div a' b"
proof (cases "a div b = a' div b")
  case True
  then have "a' - a = a' mod b - a mod b" using assms(2)
    by (metis diff_diff_cancel minus_mult_div_eq_mod mod_less_eq_dividend diff_commute
        add_diff_cancel_left div_mult_mod_eq)
  moreover have "a mod b \<le> a' mod b"
    by (metis True assms(2) div_mult_mod_eq nat_add_left_cancel_le)
  ultimately show ?thesis using True by (auto simp: ceil_div_def)
next
  case False
  moreover have "a div b \<le> a' div b" using assms(2) by (rule div_le_mono)
  ultimately show ?thesis by (auto simp: ceil_div_def)
qed

lemma ceil_div_gt: "0 < b \<Longrightarrow> i < a \<Longrightarrow> i div b < ceil_div a b"
proof -
  assume b: "0 < b" and i: "i < a"
  have "a \<le> ceil_div a b * b" using b by (rule ceil_div_le)
  then have "i < ceil_div a b * b" using i by linarith
  then show ?thesis using b by (simp add: less_mult_imp_div_less)
qed

lemma ceil_div_alt:
  assumes "0 < b"
  shows "ceil_div a b = (a + b - 1) div b"
proof -
  have a: "a = a div b * b + a mod b" by simp
  show ?thesis
  proof (cases "a mod b = 0")
    case True
    have "a + b - 1 = (b - 1) + a div b * b" using True a assms by linarith
    then have "(a + b - 1) div b = a div b + (b - 1) div b"
      using assms by (metis add.commute div_mult_self3 less_numeral_extra(3))
    also have "\<dots> = a div b" using assms by simp
    finally show ?thesis using True assms by (simp add: ceil_div_def)
  next
    case False
    have "(a div b + 1) * b = a div b * b + b" by (simp add: add_mult_distrib)
    then have "a + b - 1 = (a mod b - 1) + (a div b + 1) * b"
      using a False assms by linarith
    then have "(a + b - 1) div b = (a div b + 1) + (a mod b - 1) div b"
      using assms by (metis add.commute div_mult_self3 less_numeral_extra(3))
    moreover have "a mod b - 1 < b" using assms by (meson less_imp_diff_less mod_less_divisor)
    ultimately show ?thesis using False by (simp add: ceil_div_def)
  qed
qed

section \<open>Lists\<close>

lemma count_mset_nth_update:
  "b < length xs \<Longrightarrow> (xs[b := v]) ! c = (if c = b then v else xs ! c)"
  by (auto simp: nth_list_update)

lemma mset_take_drop: "mset (take n xs) + mset (drop n xs) = mset xs"
  by (metis append_take_drop_id mset_append)

text \<open>Longest common prefix of two sequences.\<close>

fun lcp :: "'a list \<Rightarrow> 'a list \<Rightarrow> nat" where
  "lcp (x # xs) (y # ys) = (if x = y then Suc (lcp xs ys) else 0)"
| "lcp _ _ = 0"

lemma lcp_Nil [simp]: "lcp [] ys = 0" "lcp xs [] = 0"
  by (cases xs; simp)+

lemma lcp_le1: "lcp xs ys \<le> length xs"
  by (induction xs ys rule: lcp.induct) auto

lemma lcp_le2: "lcp xs ys \<le> length ys"
  by (induction xs ys rule: lcp.induct) auto

lemma lcp_take: "take (lcp xs ys) xs = take (lcp xs ys) ys"
  by (induction xs ys rule: lcp.induct) auto

lemma lcp_maximal: "take n xs = take n ys \<Longrightarrow> n \<le> length xs \<Longrightarrow> n \<le> length ys \<Longrightarrow> n \<le> lcp xs ys"
proof (induction xs ys arbitrary: n rule: lcp.induct)
  case (1 x xs y ys)
  then show ?case by (cases n) auto
qed auto

lemma lcp_sym: "lcp xs ys = lcp ys xs"
  by (induction xs ys rule: lcp.induct) auto

lemma lcp_eq_length: "lcp xs ys = length xs \<Longrightarrow> take (length xs) ys = xs"
  by (metis lcp_take order_refl take_all)

end
