(* ===== verification/Scheduler.thy ===== *)
theory Scheduler
  imports Prelude
begin

text \<open>
  The continuous-batching scheduler of \<^verbatim>\<open>miniprefix/src/scheduler/scheduler.cpp\<close>: how many waiting
  requests an iteration admits, the order in which it serves the active ones, and the token budget
  it hands out.
\<close>

section \<open>Definitions\<close>

datatype schedule_phase = Prefill | Decode

record scheduler_config =
  sc_max_batch_size :: int
  sc_token_budget :: int
  sc_prefill_chunk :: int

definition mk_scheduler :: "scheduler_config \<Rightarrow> scheduler_config result" where
  "mk_scheduler c =
     (if sc_max_batch_size c < 1 \<or> sc_token_budget c < 1 \<or> sc_prefill_chunk c < 1
      then Inl (Invalid_argument ''invalid scheduler configuration'') else Inr c)"

definition admission_count :: "scheduler_config \<Rightarrow> nat \<Rightarrow> nat \<Rightarrow> nat" where
  "admission_count c active waiting =
     (let capacity = nat (sc_max_batch_size c) in
      if active \<ge> capacity then 0 else min waiting (capacity - active))"

text \<open>A plan: the stable candidate order, what is left of the budget, and the chunk size.\<close>

record schedule_plan =
  sp_order :: "(nat \<times> schedule_phase) list"
  sp_remaining :: nat
  sp_chunk :: nat

definition mk_plan :: "schedule_phase list \<Rightarrow> scheduler_config \<Rightarrow> schedule_plan" where
  "mk_plan phases c =
     \<lparr>sp_order = concat (map (\<lambda>phase. map (\<lambda>i. (i, phase)) (filter (\<lambda>i. phases ! i = phase) [0..<length phases]))
        [Decode, Prefill]),
      sp_remaining = nat (sc_token_budget c), sp_chunk = nat (sc_prefill_chunk c)\<rparr>"

definition has_budget :: "schedule_plan \<Rightarrow> bool" where
  "has_budget p \<longleftrightarrow> sp_remaining p \<noteq> 0"

definition take_input :: "schedule_phase \<Rightarrow> nat \<Rightarrow> schedule_plan \<Rightarrow> (nat \<times> schedule_plan) result" where
  "take_input phase unprefilled p =
     (if sp_remaining p = 0 then Inr (0, p)
      else if phase = Prefill \<and> unprefilled = 0
      then Inl (Invalid_argument ''prefill requires an uncached suffix'')
      else let n = (case phase of Decode \<Rightarrow> 1
                    | Prefill \<Rightarrow> min (min unprefilled (sp_chunk p)) (sp_remaining p))
        in Inr (n, p\<lparr>sp_remaining := sp_remaining p - n\<rparr>))"

section \<open>Lemmas\<close>

lemma admission_count_bound:
  "active \<le> nat (sc_max_batch_size c) \<Longrightarrow>
   active + admission_count c active waiting \<le> nat (sc_max_batch_size c) \<and>
   admission_count c active waiting \<le> waiting"
  by (auto simp: admission_count_def Let_def)

lemma take_input_Inr:
  assumes "take_input ph u p = Inr (n, p')"
  shows "sp_remaining p' + n = sp_remaining p" "sp_order p' = sp_order p" "sp_chunk p' = sp_chunk p"
    "has_budget p \<Longrightarrow> ph = Decode \<Longrightarrow> n = 1"
    "ph = Prefill \<Longrightarrow> n \<le> u \<and> n \<le> max (sp_chunk p) 0"
    "has_budget p \<Longrightarrow> ph = Prefill \<Longrightarrow> 0 < sp_chunk p \<Longrightarrow> 0 < n"
  using assms by (auto simp: take_input_def has_budget_def Let_def split: if_splits schedule_phase.splits)

lemma take_input_error: "take_input ph u p = Inl e \<longleftrightarrow>
   has_budget p \<and> ph = Prefill \<and> u = 0 \<and> e = Invalid_argument ''prefill requires an uncached suffix''"
  by (auto simp: take_input_def has_budget_def Let_def)

lemma plan_order:
  "sp_order (mk_plan phases c) =
     map (\<lambda>i. (i, Decode)) (filter (\<lambda>i. phases ! i = Decode) [0..<length phases]) @
     map (\<lambda>i. (i, Prefill)) (filter (\<lambda>i. phases ! i = Prefill) [0..<length phases])"
  by (simp add: mk_plan_def)

lemma plan_mem: "(i, ph) \<in> set (sp_order (mk_plan phases c)) \<longleftrightarrow> i < length phases \<and> phases ! i = ph"
  by (cases ph) (auto simp: plan_order)

text \<open>
  C18: the plan of an iteration is fair and stable. Every active request appears exactly once with
  its own phase, all decoding requests come before all prefilling ones, and within a phase requests
  keep their order of admission.
\<close>

theorem plan_is_stable_partition:
  "distinct (map fst (sp_order (mk_plan phases c))) \<and>
   mset (sp_order (mk_plan phases c)) = mset (zip [0..<length phases] phases) \<and>
   (\<exists>k. (\<forall>w \<in> set (take k (sp_order (mk_plan phases c))). snd w = Decode) \<and>
      (\<forall>w \<in> set (drop k (sp_order (mk_plan phases c))). snd w = Prefill) \<and>
      sorted (map fst (take k (sp_order (mk_plan phases c)))) \<and>
      sorted (map fst (drop k (sp_order (mk_plan phases c)))))"
proof -
  let ?o = "sp_order (mk_plan phases c)" and ?n = "[0..<length phases]"
  let ?d = "filter (\<lambda>i. phases ! i = Decode) ?n" and ?p = "filter (\<lambda>i. phases ! i = Prefill) ?n"
  have f: "map fst ?o = ?d @ ?p" by (simp add: plan_order comp_def)
  have d: "distinct (map fst ?o)" by (auto simp: f)
  moreover have "mset ?o = mset (zip ?n phases)"
  proof -
    have "distinct ?o" using d by (simp add: distinct_map)
    moreover have "distinct (zip ?n phases)" by (simp add: distinct_zipI1)
    moreover have "set ?o = set (zip ?n phases)" by (force simp: plan_mem set_zip)
    ultimately show ?thesis by (simp add: set_eq_iff_mset_eq_distinct)
  qed
  moreover have "take (length ?d) ?o = map (\<lambda>i. (i, Decode)) ?d" "drop (length ?d) ?o = map (\<lambda>i. (i, Prefill)) ?p"
    by (simp_all add: plan_order)
  then have "(\<forall>w \<in> set (take (length ?d) ?o). snd w = Decode) \<and> (\<forall>w \<in> set (drop (length ?d) ?o). snd w = Prefill) \<and>
     sorted (map fst (take (length ?d) ?o)) \<and> sorted (map fst (drop (length ?d) ?o))"
    by (simp add: comp_def sorted_filter[of id, simplified])
  ultimately show ?thesis by blast
qed

theorem plan_is_stable_partition_witness:
  "distinct (map fst (sp_order (mk_plan [Prefill, Decode]
     \<lparr>sc_max_batch_size = 2, sc_token_budget = 4, sc_prefill_chunk = 2\<rparr>)))"
  by (rule plan_is_stable_partition[THEN conjunct1])

end
