(* ===== verification/Block_Pool.thy ===== *)
theory Block_Pool
  imports Prelude
begin

text \<open>
  \<open>KvBlockPool\<close> of \<^verbatim>\<open>miniprefix/src/kv/paged_kv.cpp\<close> with the value types of
  \<^verbatim>\<open>miniprefix/include/miniprefix/paged_kv.h\<close>: the physical page allocator of MiniPrefix, with a
  reference count per page. The invariant \<open>pool_ok M p\<close> says that the reference counts of \<open>p\<close>
  are the multiset \<open>M\<close> of leases that its clients hold; the locale \<open>page_leases\<close> is the part of
  it that the prefix cache and the KV manager use.
\<close>

section \<open>State\<close>

datatype kv_admission = Ready | Wait | Impossible

record kv_config =
  block_tokens :: int
  max_blocks :: int
  prefix_cache_blocks :: int

text \<open>
  A sequence: committed token count, page table in order, committed tokens. \<open>used\<close> and the page
  numbers are C++ \<open>int\<close>s that are never negative.
\<close>

record paged_sequence =
  seq_used :: nat
  seq_blocks :: "nat list"
  seq_tokens :: "int list"

definition empty_sequence :: paged_sequence where
  "empty_sequence = \<lparr>seq_used = 0, seq_blocks = [], seq_tokens = []\<rparr>"

text \<open>
  The free list is a C++ vector used as a stack; its back is the head of \<open>pool_free\<close>.
\<close>

record block_pool =
  pool_config :: kv_config
  pool_block_elements :: nat
  pool_live :: nat
  pool_peak :: nat
  pool_free :: "nat list"
  pool_refs :: "nat list"

abbreviation page_tokens :: "block_pool \<Rightarrow> nat" where
  "page_tokens p \<equiv> nat (block_tokens (pool_config p))"

abbreviation page_count :: "block_pool \<Rightarrow> nat" where
  "page_count p \<equiv> nat (max_blocks (pool_config p))"

abbreviation cache_capacity :: "block_pool \<Rightarrow> nat" where
  "cache_capacity p \<equiv> nat (prefix_cache_blocks (pool_config p))"

section \<open>Operations\<close>

fun size_product :: "nat \<Rightarrow> nat \<Rightarrow> nat list \<Rightarrow> nat result" where
  "size_product limit acc [] = Inr acc"
| "size_product limit acc (factor # fs) =
     (if acc > limit div factor then Inl (Invalid_argument ''paged KV size overflow'')
      else size_product limit (acc * factor) fs)"

definition mk_pool :: "kv_config \<Rightarrow> int \<Rightarrow> int \<Rightarrow> block_pool result" where
  "mk_pool c layers width =
     (if block_tokens c < 1 \<or> max_blocks c < 1 \<or> layers < 1 \<or> width < 1 \<or>
         prefix_cache_blocks c < 0 \<or> prefix_cache_blocks c > max_blocks c
      then Inl (Invalid_argument ''invalid paged KV configuration'')
      else bindE (size_product (size_max div 4 div 2) (nat layers)
                    [nat (block_tokens c), nat width, nat (max_blocks c)])
        (\<lambda>size. Inr \<lparr>pool_config = c, pool_block_elements = size div nat (max_blocks c),
           pool_live = 0, pool_peak = 0, pool_free = [0..<nat (max_blocks c)],
           pool_refs = replicate (nat (max_blocks c)) 0\<rparr>))"

definition block_bytes :: "block_pool \<Rightarrow> nat" where
  "block_bytes p = wrap64 (pool_block_elements p * 4 * 2)"

definition pool_reserved_bytes :: "block_pool \<Rightarrow> nat" where
  "pool_reserved_bytes p = wrap64 (block_bytes p * page_count p)"

definition free_blocks :: "block_pool \<Rightarrow> nat" where
  "free_blocks p = length (pool_free p)"

definition references :: "nat \<Rightarrow> block_pool \<Rightarrow> nat result" where
  "references block p =
     (if block < length (pool_refs p) then Inr (pool_refs p ! block)
      else Inl (Out_of_range ''vector::at''))"

definition pool_allocate :: "block_pool \<Rightarrow> (nat \<times> block_pool) result" where
  "pool_allocate p =
     (case pool_free p of
        [] \<Rightarrow> Inl (Kv_capacity_error ''paged KV block pool exhausted'')
      | block # rest \<Rightarrow>
          Inr (block, p\<lparr>pool_free := rest, pool_refs := (pool_refs p)[block := 1],
                 pool_live := pool_live p + 1,
                 pool_peak := max (pool_peak p) (pool_live p + 1)\<rparr>))"

definition retain :: "nat \<Rightarrow> block_pool \<Rightarrow> block_pool result" where
  "retain block p =
     bindE (references block p) (\<lambda>r. Inr (p\<lparr>pool_refs := (pool_refs p)[block := r + 1]\<rparr>))"

text \<open>\<open>--references_[block]\<close> wraps at zero, so a double release does not free the page again.\<close>

definition unref :: "nat \<Rightarrow> block_pool \<Rightarrow> block_pool" where
  "unref block p =
     (let r = dec64 (pool_refs p ! block); q = p\<lparr>pool_refs := (pool_refs p)[block := r]\<rparr> in
      if r = 0 then q\<lparr>pool_free := block # pool_free q, pool_live := dec64 (pool_live q)\<rparr>
      else q)"

text \<open>The body of the loop of \<open>reserve\<close>, \<open>n\<close> times: pages come off the back of the free list.\<close>

fun reserve_loop :: "nat \<Rightarrow> paged_sequence \<Rightarrow> block_pool \<Rightarrow> paged_sequence \<times> block_pool" where
  "reserve_loop 0 s p = (s, p)"
| "reserve_loop (Suc n) s p =
     reserve_loop n (s\<lparr>seq_blocks := seq_blocks s @ [hd (pool_free p)]\<rparr>)
       (p\<lparr>pool_free := tl (pool_free p), pool_refs := (pool_refs p)[hd (pool_free p) := 1],
          pool_live := pool_live p + 1\<rparr>)"

definition pool_reserve ::
    "paged_sequence \<Rightarrow> nat \<Rightarrow> block_pool \<Rightarrow> (paged_sequence \<times> block_pool) result" where
  "pool_reserve s end_pos p =
     (if end_pos < seq_used s
      then Inl (Invalid_argument ''paged KV cannot truncate through reserve'')
      else let count = ceil_div end_pos (page_tokens p) in
        if count \<le> length (seq_blocks s) then Inr (s, p)
        else if count - length (seq_blocks s) > length (pool_free p)
        then Inl (Kv_capacity_error ''paged KV block pool exhausted'')
        else let (s', p') = reserve_loop (count - length (seq_blocks s)) s p in
          Inr (s', p'\<lparr>pool_peak := max (pool_peak p') (pool_live p')\<rparr>))"

function pool_rollback ::
    "paged_sequence \<Rightarrow> nat \<Rightarrow> block_pool \<Rightarrow> paged_sequence \<times> block_pool" where
  "pool_rollback s original p =
     (if length (seq_blocks s) > original
      then pool_rollback (s\<lparr>seq_blocks := butlast (seq_blocks s)\<rparr>) original
             (unref (last (seq_blocks s)) p)
      else (s, p))"
  by pat_completeness auto
termination
  by (relation "measure (\<lambda>(s, original, p). length (seq_blocks s))") auto

declare pool_rollback.simps [simp del]

definition pool_release :: "paged_sequence \<Rightarrow> block_pool \<Rightarrow> paged_sequence \<times> block_pool" where
  "pool_release s p =
     (let (s', p') = pool_rollback s 0 p in (s'\<lparr>seq_used := 0, seq_tokens := []\<rparr>, p'))"

text \<open>Element offset of one token's K (or V) row; the \<open>size_t\<close> arithmetic is unchecked.\<close>

definition pool_offset ::
    "paged_sequence \<Rightarrow> nat \<Rightarrow> nat \<Rightarrow> nat \<Rightarrow> nat \<Rightarrow> block_pool \<Rightarrow> nat result" where
  "pool_offset s layer token layers width p =
     (let i = token div page_tokens p in
      if i < length (seq_blocks s)
      then Inr (wrap64 (((seq_blocks s ! i * layers + layer) * page_tokens p
                          + token mod page_tokens p) * width))
      else Inl (Out_of_range ''vector::at''))"

section \<open>Invariant\<close>

text \<open>
  \<open>M\<close> holds one copy of a page number per lease on it (a sequence's page table entry, a cache
  entry, a transaction's saved tail page).
\<close>

definition pool_ok :: "nat multiset \<Rightarrow> block_pool \<Rightarrow> bool" where
  "pool_ok M p \<longleftrightarrow>
     0 < block_tokens (pool_config p) \<and>
     0 \<le> prefix_cache_blocks (pool_config p) \<and>
     prefix_cache_blocks (pool_config p) \<le> max_blocks (pool_config p) \<and>
     length (pool_refs p) = page_count p \<and>
     (\<forall>b < page_count p. pool_refs p ! b = count M b) \<and>
     set_mset M \<subseteq> {..<page_count p} \<and>
     distinct (pool_free p) \<and>
     set (pool_free p) = {b. b < page_count p \<and> b \<notin># M} \<and>
     pool_live p + length (pool_free p) = page_count p \<and>
     pool_live p \<le> pool_peak p \<and> pool_peak p \<le> page_count p"

lemma pool_okD:
  assumes "pool_ok M p"
  shows "length (pool_refs p) = page_count p"
    and "b < page_count p \<Longrightarrow> pool_refs p ! b = count M b"
    and "b \<in># M \<Longrightarrow> b < page_count p"
    and "distinct (pool_free p)"
    and "b \<in> set (pool_free p) \<longleftrightarrow> b < page_count p \<and> b \<notin># M"
    and "0 < page_tokens p"
    and "pool_live p + length (pool_free p) = page_count p"
    and "pool_live p \<le> pool_peak p" "pool_peak p \<le> page_count p"
  using assms by (auto simp: pool_ok_def)

lemma pool_ok_references: "pool_ok M p \<Longrightarrow> b \<in># M \<Longrightarrow> references b p = Inr (count M b)"
  by (auto simp: references_def pool_ok_def)

lemma pool_ok_live: "pool_ok M p \<Longrightarrow> pool_live p = card (set_mset M)"
proof -
  assume ok: "pool_ok M p"
  have "set_mset M = {..<page_count p} - set (pool_free p)"
    using pool_okD(3,5)[OF ok] by auto
  moreover have "set (pool_free p) \<subseteq> {..<page_count p}" using pool_okD(5)[OF ok] by auto
  ultimately have "card (set_mset M) = page_count p - card (set (pool_free p))"
    by (simp add: card_Diff_subset)
  also have "\<dots> = page_count p - length (pool_free p)"
    using pool_okD(4)[OF ok] by (simp add: distinct_card)
  finally show ?thesis using pool_okD(7)[OF ok] by simp
qed

text \<open>A page outside the free list can be leased once more, and the last lease frees the page.\<close>

lemma retain_ok: "pool_ok M p \<Longrightarrow> b \<in># M \<Longrightarrow> \<exists>p'. retain b p = Inr p' \<and> pool_ok (add_mset b M) p'"
  by (auto simp: retain_def references_def pool_ok_def nth_list_update)

lemma retain_config: "retain b p = Inr p' \<Longrightarrow> pool_config p' = pool_config p"
  by (auto simp: retain_def)

lemma unref_config [simp]: "pool_config (unref b p) = pool_config p"
  by (simp add: unref_def Let_def)

lemma unref_ok:
  assumes ok: "pool_ok (add_mset b M) p"
  shows "pool_ok M (unref b p)"
proof (cases "b \<in># M")
  case True
  have r: "pool_refs p ! b = Suc (count M b)"
    using pool_okD(2,3)[OF ok, of b] by simp
  obtain k where k: "count M b = Suc k" using True by (meson count_eq_zero_iff not0_implies_Suc)
  then have "unref b p = p\<lparr>pool_refs := (pool_refs p)[b := count M b]\<rparr>"
    by (simp add: unref_def Let_def r)
  then show ?thesis using ok True by (auto simp: pool_ok_def nth_list_update)
next
  case False
  have r: "pool_refs p ! b = 1"
    using pool_okD(2,3)[OF ok, of b] False by (simp add: not_in_iff)
  have "set (pool_free p) \<subseteq> {..<page_count p} - {b}" using pool_okD(5)[OF ok] by auto
  then have "card (set (pool_free p)) \<le> card ({..<page_count p} - {b})"
    by (intro card_mono) auto
  moreover have "card ({..<page_count p} - {b}) < page_count p"
    using pool_okD(3)[OF ok, of b] by (simp add: card_Diff_singleton)
  ultimately have "length (pool_free p) < page_count p"
    using pool_okD(4)[OF ok] by (simp add: distinct_card)
  then have l: "0 < pool_live p" using pool_okD(7)[OF ok] by linarith
  have u: "unref b p = p\<lparr>pool_refs := (pool_refs p)[b := 0], pool_free := b # pool_free p,
      pool_live := pool_live p - 1\<rparr>"
    using l by (simp add: unref_def Let_def r)
  show ?thesis unfolding u using ok False l
    by (auto simp: pool_ok_def nth_list_update not_in_iff)
qed

lemma pool_allocate_ok:
  assumes ok: "pool_ok M p" and a: "pool_allocate p = Inr (b, p')"
  shows "pool_ok (add_mset b M) p'" "b \<notin># M" "pool_config p' = pool_config p"
    "pool_free p = b # pool_free p'"
proof -
  obtain rest where f: "pool_free p = b # rest"
    and p': "p' = p\<lparr>pool_free := rest, pool_refs := (pool_refs p)[b := 1],
      pool_live := pool_live p + 1, pool_peak := max (pool_peak p) (pool_live p + 1)\<rparr>"
    using a by (auto simp: pool_allocate_def split: list.splits)
  show c: "b \<notin># M" using pool_okD(5)[OF ok, of b] f by simp
  show "pool_ok (add_mset b M) p'" unfolding p' using ok f c
    by (auto simp: pool_ok_def nth_list_update not_in_iff)
  show "pool_config p' = pool_config p" "pool_free p = b # pool_free p'"
    by (simp_all add: p' f)
qed

section \<open>The lease interface\<close>

text \<open>
  What a client of the pool relies on: retaining a page it already leases succeeds and adds one
  lease, and giving a lease back removes exactly one. The lemmas of the locale lift this to the
  loops over page tables in the prefix cache and the KV manager.
\<close>

locale page_leases =
  fixes ok :: "nat multiset \<Rightarrow> 'p \<Rightarrow> bool"
    and lease :: "nat \<Rightarrow> 'p \<Rightarrow> 'p result"
    and give_back :: "nat \<Rightarrow> 'p \<Rightarrow> 'p"
    and conf :: "'p \<Rightarrow> 'c"
  assumes lease_ok: "ok M p \<Longrightarrow> b \<in># M \<Longrightarrow> \<exists>p'. lease b p = Inr p' \<and> ok (add_mset b M) p'"
    and give_back_ok: "ok (add_mset b M) p \<Longrightarrow> ok M (give_back b p)"
    and lease_conf: "lease b p = Inr p' \<Longrightarrow> conf p' = conf p"
    and give_back_conf: "conf (give_back b p) = conf p"
begin

lemma lease_all:
  assumes "ok M p" and "set bs \<subseteq> set_mset M"
  shows "\<exists>p'. foldE lease bs p = Inr p' \<and> ok (M + mset bs) p' \<and> conf p' = conf p"
  using assms
proof (induction bs arbitrary: M p)
  case Nil
  then show ?case by simp
next
  case (Cons b bs)
  obtain q where q: "lease b p = Inr q" "ok (add_mset b M) q"
    using lease_ok[of M p b] Cons.prems by auto
  have "set bs \<subseteq> set_mset (add_mset b M)" using Cons.prems(2) by auto
  from Cons.IH[OF q(2) this] show ?case using q(1) lease_conf[OF q(1)] by auto
qed

lemma give_back_all:
  "ok (M + mset bs) p \<Longrightarrow> ok M (fold give_back bs p)"
proof (induction bs arbitrary: p)
  case Nil
  then show ?case by simp
next
  case (Cons b bs)
  then have "ok (M + mset bs) (give_back b p)" by (intro give_back_ok) simp
  then show ?case using Cons.IH by simp
qed

lemma give_back_all_conf: "conf (fold give_back bs p) = conf p"
  by (induction bs arbitrary: p) (simp_all add: give_back_conf)

end

interpretation pl: page_leases pool_ok retain unref pool_config
  by unfold_locales (auto simp: retain_ok unref_ok retain_config)

section \<open>Reserve, rollback, release\<close>

lemma pool_rollback_eq:
  "pool_rollback s n p =
     (s\<lparr>seq_blocks := take n (seq_blocks s)\<rparr>, fold unref (rev (drop n (seq_blocks s))) p)"
proof (induction s n p rule: pool_rollback.induct)
  case (1 s n p)
  show ?case
  proof (cases "length (seq_blocks s) > n")
    case True
    then have b: "seq_blocks s = butlast (seq_blocks s) @ [last (seq_blocks s)]"
      by (metis append_butlast_last_id gr_implies_not_zero length_0_conv)
    have t: "take n (butlast (seq_blocks s)) = take n (seq_blocks s)"
      using True by (simp add: take_butlast)
    have "drop n (seq_blocks s) = drop n (butlast (seq_blocks s)) @ [last (seq_blocks s)]"
      using True by (subst b) (simp del: append_butlast_last_id)
    then show ?thesis using 1[OF True] True t by (simp add: pool_rollback.simps[of s n p])
  next
    case False
    then show ?thesis by (simp add: pool_rollback.simps[of s n p])
  qed
qed

lemma pool_rollback_ok:
  assumes "pool_ok (M + mset (drop n (seq_blocks s))) p" and "pool_rollback s n p = (s', p')"
  shows "pool_ok M p'" "seq_blocks s' = take n (seq_blocks s)" "seq_used s' = seq_used s"
    "seq_tokens s' = seq_tokens s" "pool_config p' = pool_config p"
  using assms pl.give_back_all[of M "rev (drop n (seq_blocks s))" p]
  by (auto simp: pool_rollback_eq pl.give_back_all_conf)

lemma pool_release_ok:
  assumes "pool_ok (M + mset (seq_blocks s)) p" and "pool_release s p = (s', p')"
  shows "pool_ok M p'" "s' = empty_sequence" "pool_config p' = pool_config p"
  using assms pl.give_back_all[of M "rev (seq_blocks s)" p]
  by (auto simp: pool_release_def pool_rollback_eq pl.give_back_all_conf empty_sequence_def)

lemma reserve_loop_ok:
  assumes "n \<le> length (pool_free p)" and "pool_ok M (p\<lparr>pool_peak := page_count p\<rparr>)"
    and "reserve_loop n s p = (s', p')"
  shows "s' = s\<lparr>seq_blocks := seq_blocks s @ take n (pool_free p)\<rparr> \<and>
    pool_ok (M + mset (take n (pool_free p))) (p'\<lparr>pool_peak := page_count p\<rparr>) \<and>
    pool_config p' = pool_config p \<and> pool_peak p' = pool_peak p \<and>
    pool_free p' = drop n (pool_free p)"
  using assms
proof (induction n arbitrary: s p M)
  case 0
  then show ?case by simp
next
  case (Suc n)
  obtain b rest where f: "pool_free p = b # rest" using Suc.prems(1) by (cases "pool_free p") auto
  let ?p = "p\<lparr>pool_free := rest, pool_refs := (pool_refs p)[b := 1], pool_live := pool_live p + 1\<rparr>"
  have "pool_allocate (p\<lparr>pool_peak := page_count p\<rparr>) =
      Inr (b, ?p\<lparr>pool_peak := max (page_count p) (pool_live p + 1)\<rparr>)"
    by (simp add: pool_allocate_def f)
  from pool_allocate_ok(1)[OF Suc.prems(2) this]
  have a: "pool_ok (add_mset b M) (?p\<lparr>pool_peak := max (page_count p) (pool_live p + 1)\<rparr>)" .
  have "pool_live p + 1 \<le> page_count p" using Suc.prems(2) f by (auto simp: pool_ok_def)
  then have "pool_ok (add_mset b M) (?p\<lparr>pool_peak := page_count ?p\<rparr>)" using a
    by (simp add: max_def)
  from Suc.IH[OF _ this, of "s\<lparr>seq_blocks := seq_blocks s @ [b]\<rparr>"] Suc.prems(1,3)
  show ?case by (simp add: f)
qed

lemma pool_reserve_cases:
  assumes ok: "pool_ok M p"
  shows "pool_reserve s e p =
    (let need = ceil_div e (page_tokens p) - length (seq_blocks s) in
     if e < seq_used s then Inl (Invalid_argument ''paged KV cannot truncate through reserve'')
     else if need > length (pool_free p)
     then Inl (Kv_capacity_error ''paged KV block pool exhausted'')
     else if need = 0 then Inr (s, p)
     else pool_reserve s e p)"
  by (auto simp: pool_reserve_def Let_def)

lemma pool_reserve_ok:
  assumes ok: "pool_ok M p" and r: "pool_reserve s e p = Inr (s', p')"
  defines "fresh \<equiv> take (ceil_div e (page_tokens p) - length (seq_blocks s)) (pool_free p)"
  shows "s' = s\<lparr>seq_blocks := seq_blocks s @ fresh\<rparr>" "pool_ok (M + mset fresh) p'"
    "pool_config p' = pool_config p" "set fresh \<inter> set_mset M = {}" "distinct fresh"
    "length (seq_blocks s') = max (length (seq_blocks s)) (ceil_div e (page_tokens p))"
    "pool_free p' = drop (length fresh) (pool_free p)"
proof -
  let ?n = "ceil_div e (page_tokens p) - length (seq_blocks s)"
  show d: "distinct fresh" using pool_okD(4)[OF ok] by (simp add: fresh_def)
  show "set fresh \<inter> set_mset M = {}"
    using pool_okD(5)[OF ok] by (auto simp: fresh_def dest!: in_set_takeD)
  have n: "?n \<le> length (pool_free p)" using r
    by (auto simp: pool_reserve_def Let_def split: if_splits)
  have "s' = s\<lparr>seq_blocks := seq_blocks s @ fresh\<rparr> \<and> pool_ok (M + mset fresh) p' \<and>
      pool_config p' = pool_config p \<and> pool_free p' = drop ?n (pool_free p)"
  proof (cases "?n = 0")
    case True
    then have "s' = s" "p' = p" using r by (auto simp: pool_reserve_def Let_def split: if_splits)
    then show ?thesis using True ok by (simp add: fresh_def)
  next
    case False
    obtain t q where l: "reserve_loop ?n s p = (t, q)" by fastforce
    have st: "s' = t" "p' = q\<lparr>pool_peak := max (pool_peak q) (pool_live q)\<rparr>"
      using r False l by (auto simp: pool_reserve_def Let_def split: if_splits)
    have "pool_ok M (p\<lparr>pool_peak := page_count p\<rparr>)" using ok by (auto simp: pool_ok_def)
    from reserve_loop_ok[OF n this l]
    have q: "t = s\<lparr>seq_blocks := seq_blocks s @ fresh\<rparr>"
      "pool_ok (M + mset fresh) (q\<lparr>pool_peak := page_count p\<rparr>)"
      "pool_config q = pool_config p" "pool_peak q = pool_peak p"
      "pool_free q = drop ?n (pool_free p)"
      by (simp_all add: fresh_def)
    have "pool_ok (M + mset fresh) p'" unfolding st
      using q(2-4) pool_okD(9)[OF ok] by (auto simp: pool_ok_def)
    then show ?thesis using q st by simp
  qed
  then show "s' = s\<lparr>seq_blocks := seq_blocks s @ fresh\<rparr>" "pool_ok (M + mset fresh) p'"
    "pool_config p' = pool_config p" "pool_free p' = drop (length fresh) (pool_free p)"
    using n by (auto simp: fresh_def)
  then show "length (seq_blocks s') = max (length (seq_blocks s)) (ceil_div e (page_tokens p))"
    using n by (auto simp: fresh_def)
qed

lemma pool_reserve_succeeds:
  assumes "seq_used s \<le> e"
    and "ceil_div e (page_tokens p) - length (seq_blocks s) \<le> length (pool_free p)"
  shows "\<exists>s' p'. pool_reserve s e p = Inr (s', p')"
  using assms by (auto simp: pool_reserve_def Let_def split: prod.splits)

section \<open>Construction and layout\<close>

lemma size_product_ok:
  "size_product limit acc fs = Inr r \<Longrightarrow> acc \<le> limit \<Longrightarrow> \<forall>f \<in> set fs. 0 < f \<Longrightarrow>
   r = acc * prod_list fs \<and> r \<le> limit"
proof (induction fs arbitrary: acc)
  case Nil
  then show ?case by simp
next
  case (Cons f fs)
  from Cons.prems have le: "acc \<le> limit div f" and r: "size_product limit (acc * f) fs = Inr r"
    by (auto split: if_splits)
  have "acc * f \<le> limit" using le Cons.prems(3)
    by (metis div_times_less_eq_dividend le_trans mult_le_mono1)
  with Cons.IH[OF r] Cons.prems(3) show ?case by (simp add: ac_simps)
qed

lemma mk_pool_ok:
  assumes "mk_pool c layers width = Inr p" and "nat layers \<le> size_max div 4 div 2"
  shows "pool_ok {#} p" "pool_config p = c" "0 < layers" "0 < width"
    "pool_block_elements p = nat layers * nat (block_tokens c) * nat width"
    "pool_block_elements p * nat (max_blocks c) \<le> size_max div 4 div 2"
proof -
  let ?mb = "nat (max_blocks c)" and ?bt = "nat (block_tokens c)" and ?L = "size_max div 4 div 2"
  from assms(1) obtain size where
    c: "1 \<le> block_tokens c" "1 \<le> max_blocks c" "1 \<le> layers" "1 \<le> width"
      "0 \<le> prefix_cache_blocks c" "prefix_cache_blocks c \<le> max_blocks c" and
    size: "size_product ?L (nat layers) [?bt, nat width, ?mb] = Inr size" and
    p: "p = \<lparr>pool_config = c, pool_block_elements = size div ?mb,
           pool_live = 0, pool_peak = 0, pool_free = [0..<?mb], pool_refs = replicate ?mb 0\<rparr>"
    by (auto simp: mk_pool_def split: if_splits)
  have s: "size = nat layers * ?bt * nat width * ?mb" "size \<le> ?L"
    using size_product_ok[OF size assms(2)] c by (auto simp: ac_simps)
  show "pool_block_elements p = nat layers * ?bt * nat width" using c by (simp add: p s)
  then show "pool_block_elements p * ?mb \<le> ?L" using s by simp
  show "pool_ok {#} p" using c by (auto simp: pool_ok_def p)
  show "pool_config p = c" "0 < layers" "0 < width" using c by (simp_all add: p)
qed

text \<open>
  The layout \<open>[physical block, layer, slot, element]\<close>: rows of distinct (block, layer, slot)
  triples never overlap and lie inside the payload the pool was sized for.
\<close>

definition row_offset :: "nat \<Rightarrow> nat \<Rightarrow> nat \<Rightarrow> nat \<Rightarrow> nat \<Rightarrow> nat \<Rightarrow> nat" where
  "row_offset layers bt width b l slot = ((b * layers + l) * bt + slot) * width"

lemma row_offset_bound:
  assumes "b < n" "l < layers" "slot < bt"
  shows "row_offset layers bt width b l slot + width \<le> layers * bt * width * n"
proof -
  have "(b + 1) * layers \<le> n * layers" using assms(1) by (intro mult_le_mono1) simp
  then have "(b * layers + l) + 1 \<le> n * layers" using assms(2) by (simp add: algebra_simps)
  then have "((b * layers + l) + 1) * bt \<le> n * layers * bt" by (rule mult_le_mono1)
  then have "(b * layers + l) * bt + slot + 1 \<le> n * layers * bt" using assms(3)
    by (simp only: add_mult_distrib mult_1)
  then have "((b * layers + l) * bt + slot + 1) * width \<le> n * layers * bt * width"
    by (rule mult_le_mono1)
  then have "((b * layers + l) * bt + slot) * width + width \<le> n * layers * bt * width"
    by (simp only: add_mult_distrib[of _ 1 width] mult_1)
  moreover have "n * layers * bt * width = layers * bt * width * n" by (simp only: ac_simps)
  ultimately show ?thesis unfolding row_offset_def by metis
qed

lemma digits_unique:
  fixes a b :: nat
  assumes "x < n" "y < n" "a * n + x = b * n + y"
  shows "a = b \<and> x = y"
proof -
  have "(a * n + x) div n = a" "(b * n + y) div n = b" using assms(1,2) by simp_all
  then have "a = b" using assms(3) by metis
  then show ?thesis using assms(3) by simp
qed

lemma row_offset_disjoint:
  assumes "l < layers" "l' < layers" "slot < bt" "slot' < bt" "i < width" "i' < width"
    and "row_offset layers bt width b l slot + i = row_offset layers bt width b' l' slot' + i'"
  shows "b = b' \<and> l = l' \<and> slot = slot' \<and> i = i'"
proof -
  have 1: "(b * layers + l) * bt + slot = (b' * layers + l') * bt + slot' \<and> i = i'"
    using digits_unique[OF assms(5,6)] assms(7) unfolding row_offset_def by blast
  then have 2: "b * layers + l = b' * layers + l' \<and> slot = slot'"
    using digits_unique[OF assms(3,4)] by blast
  then have "b = b' \<and> l = l'" using digits_unique[OF assms(1,2)] by blast
  then show ?thesis using 1 2 by blast
qed

lemma pool_offset_eq:
  assumes mk: "mk_pool c layers width = Inr p0" and lim: "nat layers \<le> size_max div 4 div 2"
    and conf: "pool_config p = c" and ok: "pool_ok M p" and sub: "set (seq_blocks s) \<subseteq> set_mset M"
    and l: "l < nat layers" and t: "t < length (seq_blocks s) * page_tokens p"
  shows "pool_offset s l t (nat layers) (nat width) p =
    Inr (row_offset (nat layers) (page_tokens p) (nat width)
      (seq_blocks s ! (t div page_tokens p)) l (t mod page_tokens p))"
proof -
  note mp = mk_pool_ok[OF mk lim]
  let ?bt = "page_tokens p" and ?i = "t div page_tokens p"
  have bt: "0 < ?bt" using pool_okD(6)[OF ok] .
  have i: "?i < length (seq_blocks s)" using t by (simp add: less_mult_imp_div_less)
  then have "seq_blocks s ! ?i < page_count p" using sub pool_okD(3)[OF ok] by force
  then have "row_offset (nat layers) ?bt (nat width) (seq_blocks s ! ?i) l (t mod ?bt) + nat width
      \<le> nat layers * ?bt * nat width * page_count p"
    using l bt by (intro row_offset_bound) auto
  also have "\<dots> \<le> size_max"
    using mp(5,6) conf by (metis div_le_dividend le_trans)
  finally have "row_offset (nat layers) ?bt (nat width) (seq_blocks s ! ?i) l (t mod ?bt) \<le> size_max"
    by simp
  then show ?thesis using i by (simp add: pool_offset_def row_offset_def Let_def)
qed

section \<open>Properties\<close>

definition demo_config :: kv_config where
  "demo_config = \<lparr>block_tokens = 2, max_blocks = 3, prefix_cache_blocks = 2\<rparr>"

definition demo_pool :: block_pool where
  "demo_pool = \<lparr>pool_config = demo_config, pool_block_elements = 24, pool_live = 0, pool_peak = 0,
     pool_free = [0, 1, 2], pool_refs = [0, 0, 0]\<rparr>"

lemma demo_mk_pool: "mk_pool demo_config 3 4 = Inr demo_pool"
proof -
  have "replicate 3 (0::nat) = [0, 0, 0]" by (simp add: numeral_3_eq_3)
  then show ?thesis
    by (simp add: mk_pool_def demo_config_def demo_pool_def size_max_def upt_rec)
qed

lemma demo_pool_ok: "pool_ok {#} demo_pool"
  using mk_pool_ok(1)[OF demo_mk_pool] by (simp add: size_max_def)

text \<open>
  C17: \<open>KvBlockPool::reserve\<close> is all or nothing. It refuses to shrink a sequence, it throws the
  capacity error exactly when the missing pages outnumber the free ones, and otherwise it appends
  exactly the missing pages, all of them distinct, unleased before and leased once afterwards.
\<close>

theorem reserve_all_or_nothing:
  assumes "pool_ok M p"
  shows "let need = ceil_div e (page_tokens p) - length (seq_blocks s);
             fresh = take need (pool_free p) in
     if e < seq_used s
     then pool_reserve s e p = Inl (Invalid_argument ''paged KV cannot truncate through reserve'')
     else if free_blocks p < need
     then pool_reserve s e p = Inl (Kv_capacity_error ''paged KV block pool exhausted'')
     else \<exists>p'. pool_reserve s e p = Inr (s\<lparr>seq_blocks := seq_blocks s @ fresh\<rparr>, p') \<and>
            length fresh = need \<and> distinct fresh \<and> set fresh \<inter> set_mset M = {} \<and>
            pool_ok (M + mset fresh) p' \<and> free_blocks p' + need = free_blocks p"
proof -
  let ?need = "ceil_div e (page_tokens p) - length (seq_blocks s)"
  show ?thesis
  proof (cases "e < seq_used s \<or> free_blocks p < ?need")
    case True
    then show ?thesis by (auto simp: pool_reserve_def free_blocks_def Let_def)
  next
    case False
    then obtain s' p' where r: "pool_reserve s e p = Inr (s', p')"
      using pool_reserve_succeeds[of s e p] by (auto simp: free_blocks_def)
    note ok = pool_reserve_ok[OF assms r]
    show ?thesis using False r ok by (auto simp: Let_def free_blocks_def)
  qed
qed

theorem reserve_all_or_nothing_witness:
  "\<exists>p'. pool_reserve empty_sequence 3 demo_pool = Inr (empty_sequence\<lparr>seq_blocks := [0, 1]\<rparr>, p')"
proof -
  have "ceil_div 3 2 = 2" by (simp add: ceil_div_def)
  then show ?thesis
    using reserve_all_or_nothing[OF demo_pool_ok, of 3 empty_sequence]
    by (auto simp: demo_pool_def demo_config_def empty_sequence_def free_blocks_def)
qed

end
