(* ===== verification/Prefix_Cache.thy ===== *)
theory Prefix_Cache
  imports Block_Pool
begin

text \<open>
  \<open>ExactPrefixCache\<close> of \<^verbatim>\<open>miniprefix/src/kv/prefix_cache.cpp\<close>: a trie whose edges are the exact
  tokens of one KV page, an LRU order over the nodes that hold a page lease, and the hint of the
  last published path. A node is named by its path from the root, the list of its edges; the
  parent pointer is \<open>butlast\<close>, the depth is \<open>length\<close>, the edge is \<open>last\<close>. The sorted list of
  paths is the depth-first order of the trie, because the children of a node are kept in the
  lexicographic order of their edges. The intrusive LRU list is the list of leased nodes, oldest
  first. The two spare nodes of the
  source recycle allocations and have no observable effect.
\<close>

section \<open>State\<close>

type_synonym page = "int list"
type_synonym path = "page list"

record prefix_cache =
  pc_nodes :: "path list"
  pc_block :: "path \<rightharpoonup> nat"
  pc_lru :: "path list"
  pc_leases :: "nat list"
  pc_cached :: nat
  pc_node_count :: nat
  pc_key_tokens :: nat
  pc_publication :: "path list"
  pc_hits :: nat
  pc_misses :: nat
  pc_reused :: nat
  pc_evictions :: nat

definition mk_prefix_cache :: "block_pool \<Rightarrow> prefix_cache" where
  "mk_prefix_cache p =
     \<lparr>pc_nodes = [], pc_block = Map.empty, pc_lru = [], pc_leases = replicate (page_count p) 0,
      pc_cached = 0, pc_node_count = 0, pc_key_tokens = 0, pc_publication = [],
      pc_hits = 0, pc_misses = 0, pc_reused = 0, pc_evictions = 0\<rparr>"

text \<open>The \<open>children\<close> map of a node, and the keys of its \<open>available\<close> map, in key order.\<close>

definition children :: "prefix_cache \<Rightarrow> path \<Rightarrow> path list" where
  "children c n = filter (\<lambda>q. q \<noteq> [] \<and> butlast q = n) (pc_nodes c)"

definition available :: "prefix_cache \<Rightarrow> path \<Rightarrow> page list" where
  "available c n = map last (filter (\<lambda>q. pc_block c q \<noteq> None) (children c n))"

section \<open>LRU list, pruning, eviction\<close>

definition lru_unlink :: "path \<Rightarrow> prefix_cache \<Rightarrow> prefix_cache" where
  "lru_unlink n c = c\<lparr>pc_lru := remove1 n (pc_lru c)\<rparr>"

definition lru_append :: "path \<Rightarrow> prefix_cache \<Rightarrow> prefix_cache" where
  "lru_append n c = c\<lparr>pc_lru := pc_lru c @ [n]\<rparr>"

definition touch :: "path \<Rightarrow> prefix_cache \<Rightarrow> prefix_cache" where
  "touch n c = lru_append n (lru_unlink n c)"

definition erase_leaf :: "path \<Rightarrow> prefix_cache \<Rightarrow> prefix_cache" where
  "erase_leaf n c =
     c\<lparr>pc_key_tokens := pc_key_tokens c - length (last n),
       pc_publication :=
         (if length n \<le> length (pc_publication c) \<and> pc_publication c ! (length n - 1) = n
          then take (length n - 1) (pc_publication c) else pc_publication c),
       pc_nodes := remove1 n (pc_nodes c),
       pc_node_count := pc_node_count c - 1\<rparr>"

function prune :: "path \<Rightarrow> path option \<Rightarrow> prefix_cache \<Rightarrow> prefix_cache" where
  "prune n protected_node c =
     (if n \<noteq> [] \<and> Some n \<noteq> protected_node \<and> pc_block c n = None \<and> children c n = []
      then prune (butlast n) protected_node (erase_leaf n c)
      else c)"
  by pat_completeness auto
termination
  by (relation "measure (\<lambda>(n, _, _). length n)") auto

declare prune.simps [simp del]

definition drop_node ::
    "path \<Rightarrow> path option \<Rightarrow> prefix_cache \<Rightarrow> block_pool \<Rightarrow> prefix_cache \<times> block_pool" where
  "drop_node n protected_node c p =
     (let b = the (pc_block c n);
          c1 = lru_unlink n (c\<lparr>pc_leases := (pc_leases c)[b := dec64 (pc_leases c ! b)]\<rparr>);
          c2 = c1\<lparr>pc_block := (pc_block c1)(n := None), pc_cached := pc_cached c1 - 1\<rparr>
      in (prune n protected_node c2, unref b p))"

definition evict_one :: "prefix_cache \<Rightarrow> block_pool \<Rightarrow> bool \<times> prefix_cache \<times> block_pool" where
  "evict_one c p =
     (case pc_lru c of
        [] \<Rightarrow> (False, c, p)
      | oldest # _ \<Rightarrow>
          let (c', p') = drop_node oldest None c p in
          (True, c'\<lparr>pc_evictions := pc_evictions c' + 1\<rparr>, p'))"

text \<open>
  \<open>clear\<close> walks the trie in depth-first order; the successor of a node is computed before the node
  is dropped, and pruning removes only that node and ancestors already visited.
\<close>

fun clear_walk :: "path list \<Rightarrow> prefix_cache \<Rightarrow> block_pool \<Rightarrow> prefix_cache \<times> block_pool" where
  "clear_walk [] c p = (c, p)"
| "clear_walk (n # ns) c p =
     (if pc_block c n \<noteq> None
      then let (c', p') = drop_node n None c p in clear_walk ns c' p'
      else clear_walk ns c p)"

definition cache_clear :: "prefix_cache \<Rightarrow> block_pool \<Rightarrow> prefix_cache \<times> block_pool" where
  "cache_clear c p =
     (let (c', p') = clear_walk (pc_nodes c) c p in (c'\<lparr>pc_publication := []\<rparr>, p'))"

definition cache_only_blocks :: "prefix_cache \<Rightarrow> block_pool \<Rightarrow> nat" where
  "cache_only_blocks c p =
     length (filter (\<lambda>b. pc_leases c ! b \<noteq> 0 \<and> references b p = Inr (pc_leases c ! b))
       [0..<length (pc_leases c)])"

section \<open>Lookup\<close>

text \<open>
  The lambda \<open>consider\<close> keeps a neighbour only if it matches strictly more tokens; the neighbour
  at \<open>lower_bound(query)\<close> is looked at first, then the one before it.
\<close>

definition consider_edge :: "page \<Rightarrow> page \<Rightarrow> page option \<times> nat \<Rightarrow> page option \<times> nat" where
  "consider_edge query edge bm =
     (if lcp edge query > snd bm then (Some edge, lcp edge query) else bm)"

definition neighbours :: "page list \<Rightarrow> page \<Rightarrow> page option \<times> nat" where
  "neighbours edges query =
     (let below = takeWhile (\<lambda>e. e < query) edges; above = dropWhile (\<lambda>e. e < query) edges;
          bm1 = (case above of [] \<Rightarrow> (None, 0) | e # _ \<Rightarrow> consider_edge query e (None, 0))
      in if below = [] then bm1 else consider_edge query (last below) bm1)"

function reuse_loop ::
    "nat \<Rightarrow> int list \<Rightarrow> nat \<Rightarrow> nat \<Rightarrow> path \<Rightarrow> nat list \<Rightarrow> prefix_cache \<Rightarrow>
       nat \<times> nat list \<times> prefix_cache" where
  "reuse_loop bt prompt limit cnt parent pages c =
     (if cnt < limit then
        let len = min bt (limit - cnt);
            query = take len (drop cnt prompt);
            (best, matched) = neighbours (available c parent) query;
            node = parent @ [the best];
            pages' = pages @ [the (pc_block c node)];
            c' = touch node c
        in if matched = 0 then (cnt, pages, c)
           else if matched \<noteq> bt then (cnt + matched, pages', c')
           else reuse_loop bt prompt limit (cnt + matched) node pages' c'
      else (cnt, pages, c))"
  by pat_completeness auto
termination
  by (relation "measure (\<lambda>(bt, prompt, limit, cnt, parent, pages, c). limit - cnt)") auto

declare reuse_loop.simps [simp del]

definition cache_reuse ::
    "paged_sequence \<Rightarrow> int list \<Rightarrow> prefix_cache \<Rightarrow> block_pool \<Rightarrow>
       (nat \<times> paged_sequence \<times> prefix_cache \<times> block_pool) result" where
  "cache_reuse s prompt c p =
     (if seq_used s \<noteq> 0 \<or> seq_blocks s \<noteq> [] \<or> seq_tokens s \<noteq> []
      then Inl (Invalid_argument ''prefix reuse requires an empty sequence'')
      else if cache_capacity p = 0 then Inr (0, s, c, p)
      else
        let limit = length prompt - 1;
            (count, pages, c') = reuse_loop (page_tokens p) prompt limit 0 [] [] c
        in bindE (foldE retain pages p) (\<lambda>p'.
          Inr (count, s\<lparr>seq_blocks := pages, seq_tokens := take count prompt, seq_used := count\<rparr>,
            (if count \<noteq> 0 then c'\<lparr>pc_hits := pc_hits c' + 1, pc_reused := pc_reused c' + count\<rparr>
             else c'\<lparr>pc_misses := pc_misses c' + 1\<rparr>), p')))"

section \<open>Publication\<close>

text \<open>One page of the loop: hint or search, then touch an existing lease or take a new one.\<close>

definition hinted :: "nat \<Rightarrow> path \<Rightarrow> prefix_cache \<Rightarrow> bool" where
  "hinted i node c \<longleftrightarrow> i < length (pc_publication c) \<and> pc_publication c ! i = node"

definition add_node :: "path \<Rightarrow> prefix_cache \<Rightarrow> prefix_cache" where
  "add_node node c =
     (if node \<in> set (pc_nodes c) then c
      else c\<lparr>pc_nodes := insort node (pc_nodes c), pc_node_count := pc_node_count c + 1,
             pc_key_tokens := pc_key_tokens c + length (last node)\<rparr>)"

definition select_node :: "nat \<Rightarrow> path \<Rightarrow> prefix_cache \<Rightarrow> prefix_cache" where
  "select_node i node c =
     (if hinted i node c then c
      else add_node node (c\<lparr>pc_publication := take i (pc_publication c)\<rparr>))"

definition lease_node ::
    "path \<Rightarrow> nat \<Rightarrow> prefix_cache \<Rightarrow> block_pool \<Rightarrow> (prefix_cache \<times> block_pool) result" where
  "lease_node node b c p =
     bindE (retain b p) (\<lambda>p1.
       let (c2, p2) =
             (if pc_cached c = cache_capacity p
              then let (c1, p1') = drop_node (hd (pc_lru c)) (Some node) c p1
                   in (c1\<lparr>pc_evictions := pc_evictions c1 + 1\<rparr>, p1')
              else (c, p1))
       in Inr ((lru_append node
                 (c2\<lparr>pc_leases := (pc_leases c2)[b := pc_leases c2 ! b + 1],
                     pc_block := (pc_block c2)(node \<mapsto> b)\<rparr>))
                 \<lparr>pc_cached := pc_cached c2 + 1\<rparr>, p2))"

definition publish_page ::
    "paged_sequence \<Rightarrow> nat \<Rightarrow> path \<times> prefix_cache \<times> block_pool \<Rightarrow>
       (path \<times> prefix_cache \<times> block_pool) result" where
  "publish_page s i st =
     (let (parent, c, p) = st;
          bt = page_tokens p;
          len = min bt (seq_used s - i * bt);
          node = parent @ [take len (drop (i * bt) (seq_tokens s))];
          c1 = select_node i node c
      in bindE (if pc_block c1 node \<noteq> None then Inr (touch node c1, p)
                else lease_node node (seq_blocks s ! i) c1 p)
           (\<lambda>(c2, p2).
              Inr (node,
                c2\<lparr>pc_publication := (if length (pc_publication c2) = i
                      then pc_publication c2 @ [node] else pc_publication c2)\<rparr>, p2)))"

definition cache_publish ::
    "paged_sequence \<Rightarrow> prefix_cache \<Rightarrow> block_pool \<Rightarrow> (prefix_cache \<times> block_pool) result" where
  "cache_publish s c p =
     (if length (seq_tokens s) \<noteq> seq_used s
      then Inl (Logic_error ''invalid committed KV token history'')
      else
        let bt = page_tokens p;
            count = min (length (seq_blocks s)) (min ((seq_used s + bt - 1) div bt) (cache_capacity p))
        in bindE (foldE (publish_page s) [0..<count] ([], c, p)) (\<lambda>(_, c', p').
             Inr (c'\<lparr>pc_publication := take count (pc_publication c')\<rparr>, p')))"

end
