(* ===== verification/Prefix_Lookup.thy ===== *)
theory Prefix_Lookup
  imports Prefix_Cache
begin

text \<open>
  The lookup of the prefix cache: the two lexicographic neighbours of a query contain a longest
  common prefix among all available edges, and \<open>reuse\<close> therefore finds the longest cached prefix
  of a prompt.
\<close>

section \<open>Lexicographic neighbours\<close>

lemma lcp_between:
  fixes x y z :: "int list"
  assumes "x \<le> y" and "y \<le> z"
  shows "lcp x z \<le> lcp y z" and "lcp x z \<le> lcp x y"
proof -
  have "lcp x z \<le> lcp y z \<and> lcp x z \<le> lcp x y" using assms
  proof (induction x z arbitrary: y rule: lcp.induct)
    case (1 a xs b zs)
    then obtain c ys where y: "y = c # ys" by (cases y) auto
    show ?case
    proof (cases "a = b")
      case True
      then have "c = a" "xs \<le> ys" "ys \<le> zs" using "1.prems" y by auto
      then show ?thesis using "1.IH"[OF True, of ys] True y by simp
    next
      case False
      then show ?thesis by simp
    qed
  qed auto
  then show "lcp x z \<le> lcp y z" and "lcp x z \<le> lcp x y" by auto
qed

lemma consider_edge_simps:
  "snd (consider_edge q e bm) = max (lcp e q) (snd bm)"
  "fst (consider_edge q e bm) = (if lcp e q > snd bm then Some e else fst bm)"
  by (auto simp: consider_edge_def)

lemma sorted_le_last: "sorted xs \<Longrightarrow> x \<in> set xs \<Longrightarrow> x \<le> last xs"
  by (induction xs) auto

lemma neighbours_max:
  assumes srt: "sorted edges" and n: "neighbours edges q = (best, m)" and e: "e \<in> set edges"
  shows "lcp e q \<le> m"
proof -
  let ?below = "takeWhile (\<lambda>e. e < q) edges" and ?above = "dropWhile (\<lambda>e. e < q) edges"
  have split: "edges = ?below @ ?above" by simp
  have snd_m: "m = snd (neighbours edges q)" using n by simp
  have m: "m = max (if ?below = [] then 0 else lcp (last ?below) q)
                   (case ?above of [] \<Rightarrow> 0 | x # _ \<Rightarrow> lcp x q)"
    unfolding snd_m neighbours_def Let_def
    by (cases ?above) (simp_all add: consider_edge_simps del: takeWhile_eq_all_conv dropWhile_eq_Nil_conv)
  have srt': "sorted ?below" "sorted ?above" using srt
    by (simp_all add: sorted_takeWhile sorted_dropWhile)
  from e split have "e \<in> set ?below \<or> e \<in> set ?above" by (metis UnE set_append)
  then show ?thesis
  proof
    assume b: "e \<in> set ?below"
    then have ne: "?below \<noteq> []" by auto
    have "e \<le> last ?below" using srt'(1) b by (rule sorted_le_last)
    moreover have "last ?below < q" using ne set_takeWhileD[of "last ?below"]
      by (metis last_in_set)
    ultimately have "lcp e q \<le> lcp (last ?below) q" by (intro lcp_between(1)) auto
    then show ?thesis using m ne by simp
  next
    assume a: "e \<in> set ?above"
    then obtain x xs where ab: "?above = x # xs" by (cases ?above) auto
    have "x \<le> e" using srt'(2) a ab by auto
    moreover have "q \<le> x" using ab by (metis dropWhile_eq_Cons_conv linorder_not_less)
    ultimately have "lcp q e \<le> lcp q x" by (intro lcp_between(2)) auto
    then show ?thesis using m ab by (simp add: lcp_sym max_def)
  qed
qed

lemma neighbours_best:
  assumes n: "neighbours edges q = (best, m)" and "0 < m"
  shows "\<exists>e \<in> set edges. best = Some e \<and> lcp e q = m"
proof -
  let ?below = "takeWhile (\<lambda>e. e < q) edges" and ?above = "dropWhile (\<lambda>e. e < q) edges"
  have a: "x \<in> set edges" if "?above = x # xs" for x xs
    using that by (metis in_set_conv_decomp_first list.set_intros(1) set_dropWhileD)
  have b: "last ?below \<in> set edges" if "?below \<noteq> []"
    using that by (metis last_in_set set_takeWhileD)
  show ?thesis using n assms(2) a b
    by (auto simp: neighbours_def Let_def consider_edge_def split: list.splits if_splits)
qed

section \<open>Available paths\<close>

text \<open>A path can be followed by lookups when every node on it holds a lease.\<close>

definition avail_path :: "prefix_cache \<Rightarrow> path \<Rightarrow> bool" where
  "avail_path c n \<longleftrightarrow> (\<forall>i. 0 < i \<and> i \<le> length n \<longrightarrow> pc_block c (take i n) \<noteq> None)"

lemma avail_path_Nil [simp]: "avail_path c []"
  by (simp add: avail_path_def)

lemma avail_path_snoc [simp]:
  "avail_path c (n @ [e]) \<longleftrightarrow> avail_path c n \<and> pc_block c (n @ [e]) \<noteq> None"
proof
  assume a: "avail_path c (n @ [e])"
  have "pc_block c (take i n) \<noteq> None" if "0 < i" "i \<le> length n" for i
    using a that unfolding avail_path_def by (auto dest!: spec[of _ i])
  moreover have "pc_block c (n @ [e]) \<noteq> None"
    using a unfolding avail_path_def by (auto dest!: spec[of _ "Suc (length n)"])
  ultimately show "avail_path c n \<and> pc_block c (n @ [e]) \<noteq> None" by (auto simp: avail_path_def)
next
  assume a: "avail_path c n \<and> pc_block c (n @ [e]) \<noteq> None"
  show "avail_path c (n @ [e])" unfolding avail_path_def
  proof (intro allI impI)
    fix i assume i: "0 < i \<and> i \<le> length (n @ [e])"
    show "pc_block c (take i (n @ [e])) \<noteq> None"
    proof (cases "i \<le> length n")
      case True
      then show ?thesis using a i by (auto simp: avail_path_def)
    next
      case False
      then have "i = Suc (length n)" using i by simp
      then show ?thesis using a by simp
    qed
  qed
qed

lemma avail_path_append: "avail_path c (n @ m) \<Longrightarrow> avail_path c n"
  by (induction m rule: rev_induct) (auto simp flip: append_assoc)

text \<open>
  What lookup needs of the trie: sorted node paths, leases only on nodes, non-empty edges of at
  most one page, and full pages on all inner edges.
\<close>

definition trie_shape :: "nat \<Rightarrow> prefix_cache \<Rightarrow> bool" where
  "trie_shape bt c \<longleftrightarrow>
     sorted_wrt (<) (pc_nodes c) \<and> [] \<notin> set (pc_nodes c) \<and>
     dom (pc_block c) \<subseteq> set (pc_nodes c) \<and>
     (\<forall>n \<in> set (pc_nodes c). last n \<noteq> [] \<and> length (last n) \<le> bt \<and>
        (\<forall>e \<in> set (butlast n). length e = bt))"

lemma path_less_snoc: "n @ [e] \<le> n @ [e'] \<longleftrightarrow> e \<le> (e' :: page)"
  by (induction n) auto

lemma sorted_available:
  assumes "trie_shape bt c"
  shows "sorted (available c n)"
proof -
  let ?f = "\<lambda>q. q \<noteq> [] \<and> butlast q = n" and ?g = "\<lambda>q. pc_block c q \<noteq> None"
  have s: "sorted (filter ?g (filter ?f (pc_nodes c)))"
    using strict_sorted_imp_sorted[of "pc_nodes c"] assms
    by (auto simp: trie_shape_def intro!: sorted_wrt_filter)
  have "sorted (map last qs)" if "sorted qs" "\<forall>q \<in> set qs. q \<noteq> [] \<and> butlast q = n" for qs :: "path list"
    using that
  proof (induction qs)
    case Nil
    then show ?case by simp
  next
    case (Cons q qs)
    have "last q \<le> last r" if r: "r \<in> set qs" for r
    proof -
      have "q = n @ [last q]" "r = n @ [last r]" using Cons.prems(2) r
        by (metis append_butlast_last_id list.set_intros)+
      moreover have "q \<le> r" using Cons.prems(1) r by simp
      ultimately show ?thesis by (metis path_less_snoc)
    qed
    then show ?case using Cons by auto
  qed
  from this[OF s] show ?thesis by (auto simp: available_def children_def)
qed

lemma available_iff:
  assumes "trie_shape bt c"
  shows "e \<in> set (available c n) \<longleftrightarrow> pc_block c (n @ [e]) \<noteq> None"
proof
  assume "e \<in> set (available c n)"
  then obtain q where "q \<in> set (pc_nodes c)" "q \<noteq> []" "butlast q = n" "pc_block c q \<noteq> None" "last q = e"
    by (auto simp: available_def children_def)
  then show "pc_block c (n @ [e]) \<noteq> None" by (metis append_butlast_last_id)
next
  assume a: "pc_block c (n @ [e]) \<noteq> None"
  then have "n @ [e] \<in> set (pc_nodes c)" using assms by (auto simp: trie_shape_def)
  then have "n @ [e] \<in> set (filter (\<lambda>q. pc_block c q \<noteq> None) (children c n))"
    using a by (simp add: children_def)
  then show "e \<in> set (available c n)" unfolding available_def
    by (metis image_eqI last_snoc set_map)
qed

lemma leased_edge:
  assumes "trie_shape bt c" and "pc_block c (n @ [e]) \<noteq> None"
  shows "e \<noteq> []" "length e \<le> bt" "\<forall>x \<in> set n. length x = bt"
proof -
  have "n @ [e] \<in> set (pc_nodes c)" using assms by (auto simp: trie_shape_def)
  then show "e \<noteq> []" "length e \<le> bt" "\<forall>x \<in> set n. length x = bt"
    using assms(1) by (force simp: trie_shape_def)+
qed

lemma touch_simps [simp]:
  "pc_block (touch n c) = pc_block c" "pc_nodes (touch n c) = pc_nodes c"
  "available (touch n c) = available c" "trie_shape bt (touch n c) = trie_shape bt c"
  "avail_path (touch n c) = avail_path c"
  by (auto simp: touch_def lru_append_def lru_unlink_def available_def children_def
      trie_shape_def avail_path_def fun_eq_iff)

section \<open>The lookup loop\<close>

lemma lcp_append_prefix: "lcp (xs @ ys) (xs @ zs) = length xs + lcp ys zs"
  by (induction xs) auto

lemma lcp_take_right: "lcp xs (take n ys) = min (lcp xs ys) n"
proof (induction xs ys arbitrary: n rule: lcp.induct)
  case (1 x xs y ys)
  then show ?case by (cases n) auto
qed auto

lemma lcp_append_le: "lcp (xs @ ys) zs \<le> length xs \<or> lcp xs zs = length xs"
  by (induction xs zs rule: lcp.induct) auto

lemma lcp_append_eq: "lcp xs zs < length xs \<Longrightarrow> lcp (xs @ ys) zs = lcp xs zs"
  by (induction xs zs rule: lcp.induct) auto

text \<open>
  One round: with \<open>parent\<close> fully matched, the chosen edge matches at least as many of the remaining
  tokens as any available edge.
\<close>

lemma round_max:
  assumes shape: "trie_shape bt c" and cnt: "cnt < limit" "limit \<le> length prompt"
    and n: "neighbours (available c parent) (take (min bt (limit - cnt)) (drop cnt prompt)) = (best, m)"
    and e: "pc_block c (parent @ [e]) \<noteq> None"
  shows "lcp e (drop cnt (take limit prompt)) \<le> m"
proof -
  let ?q = "take (min bt (limit - cnt)) (drop cnt prompt)"
  have le: "lcp e ?q \<le> m"
    using neighbours_max[OF sorted_available[OF shape] n] available_iff[OF shape] e by blast
  have q: "?q = take bt (drop cnt (take limit prompt))" by (simp add: drop_take)
  have "lcp e (drop cnt (take limit prompt)) \<le> bt"
    using leased_edge(2)[OF shape e] lcp_le1[of e "drop cnt (take limit prompt)"] by linarith
  then show ?thesis using le unfolding q lcp_take_right by simp
qed

lemma round_best:
  assumes shape: "trie_shape bt c" and m: "0 < m"
    and n: "neighbours (available c parent) (take (min bt (limit - cnt)) (drop cnt prompt)) = (best, m)"
  shows "pc_block c (parent @ [the best]) \<noteq> None"
    "m \<le> length (the best)" "m \<le> bt" "m \<le> limit - cnt"
    "take m (the best) = take m (drop cnt prompt)"
    "m = bt \<Longrightarrow> length (the best) = bt"
proof -
  let ?q = "take (min bt (limit - cnt)) (drop cnt prompt)"
  obtain e where e: "e \<in> set (available c parent)" "best = Some e" "lcp e ?q = m"
    using neighbours_best[OF n m] by auto
  show lease: "pc_block c (parent @ [the best]) \<noteq> None" using e available_iff[OF shape] by simp
  show len: "m \<le> length (the best)" using e lcp_le1[of e ?q] by simp
  have q: "m \<le> length ?q" using e lcp_le2[of e ?q] by simp
  then show "m \<le> bt" "m \<le> limit - cnt" by auto
  have mlen: "m \<le> min bt (limit - cnt)" using q by simp
  have "take m (the best) = take m ?q" using e lcp_take[of e ?q] by simp
  also have "\<dots> = take m (drop cnt prompt)" by (simp only: take_take min.absorb1[OF mlen])
  finally show "take m (the best) = take m (drop cnt prompt)" .
  show "length (the best) = bt" if "m = bt"
    using len that leased_edge(2)[OF shape lease] by simp
qed

text \<open>
  The result of the loop: an available path whose last edge may match in part, ending the longest
  match over all available paths that extend the start.
\<close>

lemma reuse_loop_longest:
  assumes "trie_shape bt c" "0 < bt" "limit \<le> length prompt" "cnt \<le> limit"
    and "concat parent = take cnt prompt"
    and "reuse_loop bt prompt limit cnt parent pages c = (r, pages', c')"
    and "avail_path c (parent @ m)"
  shows "cnt \<le> r \<and> r \<le> limit \<and> cnt + lcp (concat m) (drop cnt (take limit prompt)) \<le> r"
  using assms
proof (induction bt prompt limit cnt parent pages c arbitrary: m rule: reuse_loop.induct)
  case (1 bt prompt limit cnt parent pages c)
  show ?case
  proof (cases "cnt < limit")
    case False
    then have "r = cnt" using "1.prems"(6) by (subst (asm) reuse_loop.simps) simp
    then show ?thesis using False "1.prems"(4) by simp
  next
    case True
    let ?len = "min bt (limit - cnt)" and ?T = "drop cnt (take limit prompt)"
    let ?q = "take ?len (drop cnt prompt)"
    obtain best k where nb: "neighbours (available c parent) ?q = (best, k)" by fastforce
    note shape = "1.prems"(1)
    note rmax = round_max[OF shape True "1.prems"(3) nb]
    let ?node = "parent @ [the best]"
    have step: "reuse_loop bt prompt limit cnt parent pages c =
      (if k = 0 then (cnt, pages, c)
       else if k \<noteq> bt then (cnt + k, pages @ [the (pc_block c ?node)], touch ?node c)
       else reuse_loop bt prompt limit (cnt + k) ?node (pages @ [the (pc_block c ?node)])
              (touch ?node c))"
      using True nb by (subst reuse_loop.simps) (simp add: Let_def)
    have first: "cnt + lcp (concat m) ?T \<le> cnt + k \<or>
        (\<exists>rest. m = the best # rest \<and> k = bt)"
    proof (cases m)
      case Nil
      then show ?thesis by simp
    next
      case (Cons e rest)
      have "avail_path c (parent @ [e])"
        using "1.prems"(7) Cons avail_path_append[of c "parent @ [e]" rest] by simp
      then have le: "pc_block c (parent @ [e]) \<noteq> None" by simp
      have ek: "lcp e ?T \<le> k" using rmax[OF le] .
      show ?thesis
      proof (cases "lcp e ?T < length e")
        case True
        then have "lcp (concat m) ?T = lcp e ?T" by (simp add: Cons lcp_append_eq)
        then show ?thesis using ek by simp
      next
        case False
        then have full: "lcp e ?T = length e" using lcp_le1[of e ?T] by simp
        show ?thesis
        proof (cases rest)
          case Nil
          then have "lcp (concat m) ?T = lcp e ?T" by (simp add: Cons)
          then show ?thesis using ek by simp
        next
          case (Cons e2 rest2)
          have "avail_path c ((parent @ [e]) @ [e2])"
            using "1.prems"(7) \<open>m = e # rest\<close> Cons
              avail_path_append[of c "(parent @ [e]) @ [e2]" rest2] by simp
          then have "pc_block c ((parent @ [e]) @ [e2]) \<noteq> None"
            by (simp del: append_assoc)
          from leased_edge(3)[OF shape this] have lb: "length e = bt" by simp
          then have "bt \<le> k" using full ek by simp
          moreover have "0 < k" using calculation "1.prems"(2) by simp
          note rb = round_best[OF shape this nb]
          ultimately have kb: "k = bt" using rb(3) by simp
          have "take bt e = take bt ?T" using lcp_take[of e ?T] full lb by simp
          moreover have "take bt (the best) = take bt (drop cnt prompt)" using rb(5) kb by simp
          moreover have "take bt ?T = take bt (drop cnt prompt)"
            using rb(4) kb by (simp add: drop_take)
          ultimately have "the best = e" using rb(6)[OF kb] lb by simp
          then show ?thesis using kb \<open>m = e # rest\<close> by blast
        qed
      qed
    qed
    show ?thesis
    proof (cases "k = 0")
      case True
      then show ?thesis using "1.prems"(2,4,6) first step by auto
    next
      case False
      then have k: "0 < k" by simp
      note rb = round_best[OF shape k nb]
      show ?thesis
      proof (cases "k = bt")
        case False
        then have "r = cnt + k" using "1.prems"(6) step k by simp
        then show ?thesis using first False rb(4) True by auto
      next
        case kbt: True
        have tk: "concat ?node = take (cnt + k) prompt"
          using "1.prems"(5) rb(5,6) kbt by (simp add: take_add)
        have rl: "reuse_loop bt prompt limit (cnt + k) ?node (pages @ [the (pc_block c ?node)])
            (touch ?node c) = (r, pages', c')" using "1.prems"(6) step k kbt by simp
        have av: "avail_path c ?node"
          using rb(1) "1.prems"(7) avail_path_append[of c parent m] by simp
        have IH: "cnt + k \<le> r \<and> r \<le> limit \<and>
            cnt + k + lcp (concat m') (drop (cnt + k) (take limit prompt)) \<le> r"
          if "avail_path c (?node @ m')" for m'
          using "1.IH"[OF True refl refl nb[symmetric] refl refl refl refl _ _ _ _ _ _ tk rl, of m']
            "1.prems"(1-3) k kbt rb(4) True that by simp
        from IH[of "[]"] av have base: "cnt + k \<le> r" "r \<le> limit" by auto
        from first show ?thesis
        proof (elim disjE exE conjE)
          fix rest assume m: "m = the best # rest"
          have "avail_path c (?node @ rest)" using "1.prems"(7) m by simp
          from IH[OF this] have "cnt + k + lcp (concat rest) (drop (cnt + k) (take limit prompt)) \<le> r"
            by simp
          moreover have "?T = the best @ drop (cnt + k) (take limit prompt)"
            using rb(4,5,6) kbt
            by (smt (verit) add.commute append_take_drop_id drop_drop min.absorb1 take_all
                take_drop take_take le_add_diff_inverse2 nat_le_linear True less_imp_le)
          ultimately show ?thesis using m base lcp_append_prefix[of "the best"] rb(6) kbt by simp
        qed (use base in auto)
      qed
    qed
  qed
qed

text \<open>
  What the loop returns: the pages of the nodes on one available path, whose tokens begin with the
  matched part of the prompt; only the LRU order of the cache changes.
\<close>

definition path_pages :: "prefix_cache \<Rightarrow> path \<Rightarrow> nat list \<Rightarrow> bool" where
  "path_pages c n pages \<longleftrightarrow> length pages = length n \<and>
     (\<forall>i < length n. pc_block c (take (Suc i) n) = Some (pages ! i))"

lemma path_pages_Nil [simp]: "path_pages c [] []"
  by (simp add: path_pages_def)

lemma path_pages_snoc:
  "path_pages c n pages \<Longrightarrow> pc_block c (n @ [e]) = Some b \<Longrightarrow> path_pages c (n @ [e]) (pages @ [b])"
  by (auto simp: path_pages_def nth_append less_Suc_eq)

lemma path_pages_avail: "path_pages c n pages \<Longrightarrow> avail_path c n"
  unfolding path_pages_def avail_path_def
proof (intro allI impI)
  fix i
  assume p: "length pages = length n \<and> (\<forall>i < length n. pc_block c (take (Suc i) n) = Some (pages ! i))"
    and i: "0 < i \<and> i \<le> length n"
  then obtain j where "i = Suc j" "j < length n" by (cases i) auto
  then show "pc_block c (take i n) \<noteq> None" using p by auto
qed

definition same_but_lru :: "prefix_cache \<Rightarrow> prefix_cache \<Rightarrow> bool" where
  "same_but_lru c c' \<longleftrightarrow> mset (pc_lru c') = mset (pc_lru c) \<and> c' = c\<lparr>pc_lru := pc_lru c'\<rparr>"

lemma same_but_lru_refl [simp]: "same_but_lru c c"
  by (simp add: same_but_lru_def)

lemma same_but_lru_touch: "n \<in> set (pc_lru c) \<Longrightarrow> same_but_lru c (touch n c)"
  by (simp add: same_but_lru_def touch_def lru_append_def lru_unlink_def)

lemma same_but_lru_trans:
  assumes "same_but_lru c d" "same_but_lru d e"
  shows "same_but_lru c e"
proof -
  from assms(2) have "e = d\<lparr>pc_lru := pc_lru e\<rparr>" by (simp add: same_but_lru_def)
  also have "\<dots> = c\<lparr>pc_lru := pc_lru e\<rparr>" using assms(1) unfolding same_but_lru_def
    by (metis prefix_cache.update_convs(3) prefix_cache.surjective)
  finally show ?thesis using assms by (simp add: same_but_lru_def)
qed

lemma reuse_loop_pages:
  assumes "trie_shape bt c" "0 < bt" "limit \<le> length prompt" "cnt \<le> limit"
    and "concat parent = take cnt prompt" "cnt = bt * length parent" "\<forall>e \<in> set parent. length e = bt"
    and "path_pages c parent pages" "dom (pc_block c) \<subseteq> set (pc_lru c)"
    and "reuse_loop bt prompt limit cnt parent pages c = (r, pages', c')"
  shows "\<exists>n. path_pages c n pages' \<and> r \<le> limit \<and> r \<le> length (concat n) \<and>
    take r (concat n) = take r prompt \<and> length n = ceil_div r bt \<and>
    (\<forall>e \<in> set (butlast n). length e = bt) \<and> same_but_lru c c'"
  using assms
proof (induction bt prompt limit cnt parent pages c rule: reuse_loop.induct)
  case (1 bt prompt limit cnt parent pages c)
  let ?Q = "\<lambda>n pages r c'. path_pages c n pages \<and> r \<le> limit \<and> r \<le> length (concat n) \<and>
    take r (concat n) = take r prompt \<and> length n = ceil_div r bt \<and>
    (\<forall>e \<in> set (butlast n). length e = bt) \<and> same_but_lru c c'"
  have stop: "?Q parent pages cnt c"
    using "1.prems"(2-8) by (auto simp: ceil_div_def dest: in_set_butlastD)
  show ?case
  proof (cases "cnt < limit")
    case False
    then have "reuse_loop bt prompt limit cnt parent pages c = (cnt, pages, c)"
      by (subst reuse_loop.simps) simp
    then show ?thesis using stop "1.prems"(10) by auto
  next
    case True
    let ?q = "take (min bt (limit - cnt)) (drop cnt prompt)"
    obtain best k where nb: "neighbours (available c parent) ?q = (best, k)" by fastforce
    let ?node = "parent @ [the best]" and ?c = "touch (parent @ [the best]) c"
    let ?pages = "pages @ [the (pc_block c ?node)]"
    have step: "reuse_loop bt prompt limit cnt parent pages c =
      (if k = 0 then (cnt, pages, c) else if k \<noteq> bt then (cnt + k, ?pages, ?c)
       else reuse_loop bt prompt limit (cnt + k) ?node ?pages ?c)"
      using True nb by (subst reuse_loop.simps) (simp add: Let_def)
    show ?thesis
    proof (cases "k = 0")
      case True
      then show ?thesis using stop step "1.prems"(10) by auto
    next
      case False
      then have k: "0 < k" by simp
      note rb = round_best[OF "1.prems"(1) k nb]
      obtain b where b: "pc_block c ?node = Some b" using rb(1) by auto
      have pp: "path_pages c ?node ?pages" using path_pages_snoc[OF "1.prems"(8) b] b by simp
      have touched: "same_but_lru c ?c" using b "1.prems"(9)
        by (intro same_but_lru_touch) auto
      have lru: "dom (pc_block ?c) \<subseteq> set (pc_lru ?c)" using touched "1.prems"(9)
        by (metis mset_eq_setD same_but_lru_def touch_simps(1))
      have tk: "take (cnt + k) (concat ?node) = take (cnt + k) prompt"
        using rb(5) "1.prems"(3,4,5) by (simp add: take_add)
      show ?thesis
      proof (cases "k = bt")
        case False
        have len: "length (concat parent) = cnt" using "1.prems"(3,4,5) by simp
        have cd: "ceil_div (cnt + k) bt = Suc (length parent)"
          using False k rb(3) "1.prems"(2,6) by (simp add: ceil_div_def)
        have "?Q ?node ?pages (cnt + k) ?c"
          using pp rb(2,4) tk touched True cd "1.prems"(7) len by auto
        then show ?thesis using step False k "1.prems"(10) by auto
      next
        case kbt: True
        have full: "concat ?node = take (cnt + k) prompt"
          using tk rb(6)[OF kbt] rb(4) kbt "1.prems"(3,4,5) by simp
        have rl: "reuse_loop bt prompt limit (cnt + k) ?node ?pages ?c = (r, pages', c')"
          using "1.prems"(10) step k kbt by simp
        have pp': "path_pages ?c ?node ?pages" using pp by (simp add: path_pages_def)
        have "\<exists>n. path_pages ?c n pages' \<and> r \<le> limit \<and> r \<le> length (concat n) \<and>
            take r (concat n) = take r prompt \<and> length n = ceil_div r bt \<and>
            (\<forall>e \<in> set (butlast n). length e = bt) \<and> same_but_lru ?c c'"
          using "1.IH"[OF True refl refl nb[symmetric] refl refl refl refl _ _ _ _ _ _ full _ _ pp' lru rl]
            "1.prems"(1-3,6,7) k kbt rb(4,6) True by simp
        then show ?thesis using same_but_lru_trans[OF touched]
          by (auto simp: path_pages_def)
      qed
    qed
  qed
qed

end
