(* ===== verification/Prefix_Inv.thy ===== *)
theory Prefix_Inv
  imports Prefix_Lookup
begin

text \<open>
  The invariant of the prefix cache and its preservation by eviction, clearing, lookup and
  publication, together with the page leases it holds in the pool.
\<close>

section \<open>The invariant\<close>

definition cache_leases :: "prefix_cache \<Rightarrow> nat multiset" where
  "cache_leases c = mset (map (\<lambda>n. the (pc_block c n)) (pc_lru c))"

text \<open>The publication hint is a path of existing nodes, without gaps.\<close>

definition hint_ok :: "prefix_cache \<Rightarrow> bool" where
  "hint_ok c \<longleftrightarrow> (\<forall>i < length (pc_publication c).
     pc_publication c ! i \<in> set (pc_nodes c) \<and> length (pc_publication c ! i) = Suc i)"

text \<open>\<open>E\<close> are the nodes excused from the rule that every leaf holds a lease.\<close>

definition cache_ok :: "nat \<Rightarrow> nat \<Rightarrow> path set \<Rightarrow> prefix_cache \<Rightarrow> bool" where
  "cache_ok bt cap E c \<longleftrightarrow>
     trie_shape bt c \<and>
     (\<forall>n \<in> set (pc_nodes c). butlast n \<noteq> [] \<longrightarrow> butlast n \<in> set (pc_nodes c)) \<and>
     (\<forall>n \<in> set (pc_nodes c). pc_block c n = None \<and> children c n = [] \<longrightarrow> n \<in> E) \<and>
     distinct (pc_lru c) \<and> set (pc_lru c) = dom (pc_block c) \<and>
     pc_cached c = length (pc_lru c) \<and> pc_cached c \<le> cap \<and>
     pc_node_count c = length (pc_nodes c) \<and>
     pc_key_tokens c = sum_list (map (length \<circ> last) (pc_nodes c)) \<and>
     (\<forall>b < length (pc_leases c). pc_leases c ! b = count (cache_leases c) b) \<and>
     hint_ok c"

lemma cache_okD:
  assumes "cache_ok bt cap E c"
  shows "trie_shape bt c" "distinct (pc_lru c)" "set (pc_lru c) = dom (pc_block c)"
    "pc_cached c = length (pc_lru c)" "pc_cached c \<le> cap" "hint_ok c"
    "n \<in> set (pc_nodes c) \<Longrightarrow> butlast n \<noteq> [] \<Longrightarrow> butlast n \<in> set (pc_nodes c)"
    "n \<in> set (pc_nodes c) \<Longrightarrow> pc_block c n = None \<Longrightarrow> children c n = [] \<Longrightarrow> n \<in> E"
    "sorted_wrt (<) (pc_nodes c)" "distinct (pc_nodes c)" "[] \<notin> set (pc_nodes c)"
    "pc_block c n = Some b \<Longrightarrow> n \<in> set (pc_nodes c)"
  using assms by (auto simp: cache_ok_def trie_shape_def strict_sorted_iff)

lemma mk_prefix_cache_ok: "cache_ok bt cap {} (mk_prefix_cache p)"
  by (auto simp: cache_ok_def trie_shape_def mk_prefix_cache_def cache_leases_def hint_ok_def)

lemma cache_leases_mk [simp]: "cache_leases (mk_prefix_cache p) = {#}"
  by (simp add: cache_leases_def mk_prefix_cache_def)

lemma cache_leases_mem: "pc_block c n = Some b \<Longrightarrow> set (pc_lru c) = dom (pc_block c) \<Longrightarrow>
  b \<in># cache_leases c"
  by (force simp: cache_leases_def)

lemma cache_ok_mono: "cache_ok bt cap E c \<Longrightarrow> E \<subseteq> E' \<Longrightarrow> cache_ok bt cap E' c"
  by (auto simp: cache_ok_def)

section \<open>Pruning\<close>

lemma erase_leaf_simps [simp]:
  "pc_block (erase_leaf n c) = pc_block c" "pc_lru (erase_leaf n c) = pc_lru c"
  "pc_leases (erase_leaf n c) = pc_leases c" "pc_cached (erase_leaf n c) = pc_cached c"
  "pc_nodes (erase_leaf n c) = remove1 n (pc_nodes c)"
  "pc_hits (erase_leaf n c) = pc_hits c" "pc_misses (erase_leaf n c) = pc_misses c"
  "pc_reused (erase_leaf n c) = pc_reused c" "pc_evictions (erase_leaf n c) = pc_evictions c"
  by (simp_all add: erase_leaf_def)

lemma remove1_sorted_wrt: "sorted_wrt (<) xs \<Longrightarrow> sorted_wrt (<) (remove1 x (xs :: path list))"
  by (auto simp: strict_sorted_iff sorted_remove1)

lemma sum_remove1: "x \<in> set xs \<Longrightarrow> sum_list (map f (remove1 x xs)) = sum_list (map f xs) - (f x :: nat)"
  using sum_list_map_remove1[of x xs f] by simp

lemma erase_leaf_publication:
  assumes "hint_ok c"
  shows "\<exists>k. pc_publication (erase_leaf n c) = take k (pc_publication c)"
    "n \<notin> set (pc_publication (erase_leaf n c))"
proof -
  let ?pub = "pc_publication c"
  show "\<exists>k. pc_publication (erase_leaf n c) = take k ?pub"
    by (simp add: erase_leaf_def) (metis order_refl take_all)
  have idx: "i = length n - 1" if "i < length ?pub" "?pub ! i = n" for i
    using assms that by (auto simp: hint_ok_def)
  show "n \<notin> set (pc_publication (erase_leaf n c))"
  proof
    assume "n \<in> set (pc_publication (erase_leaf n c))"
    then obtain i where i: "i < length (pc_publication (erase_leaf n c))"
      "pc_publication (erase_leaf n c) ! i = n" by (auto simp: in_set_conv_nth)
    then have i': "i < length ?pub" "?pub ! i = n"
      by (auto simp: erase_leaf_def split: if_splits)
    then have e: "i = length n - 1" using idx by blast
    have "length n \<le> length ?pub" using i' e assms by (auto simp: hint_ok_def)
    then have "pc_publication (erase_leaf n c) = take (length n - 1) ?pub"
      using i'(2) e by (simp add: erase_leaf_def)
    then show False using i(1) e by simp
  qed
qed

lemma hint_ok_take: "hint_ok c \<Longrightarrow> hint_ok (c\<lparr>pc_publication := take k (pc_publication c)\<rparr>)"
  by (simp add: hint_ok_def)

lemma erase_leaf_hint_ok:
  assumes "hint_ok c"
  shows "hint_ok (erase_leaf n c)"
  unfolding hint_ok_def
proof (intro allI impI)
  fix i assume i: "i < length (pc_publication (erase_leaf n c))"
  obtain k where k: "pc_publication (erase_leaf n c) = take k (pc_publication c)"
    using erase_leaf_publication(1)[OF assms] by blast
  have "pc_publication (erase_leaf n c) ! i \<noteq> n"
    using erase_leaf_publication(2)[OF assms] i by (metis nth_mem)
  moreover have "pc_publication (erase_leaf n c) ! i \<in> set (pc_nodes c)"
    "length (pc_publication (erase_leaf n c) ! i) = Suc i"
    using assms i k by (auto simp: hint_ok_def)
  ultimately show "pc_publication (erase_leaf n c) ! i \<in> set (pc_nodes (erase_leaf n c)) \<and>
      length (pc_publication (erase_leaf n c) ! i) = Suc i"
    by (simp add: in_set_remove1)
qed

lemma erase_leaf_ok:
  assumes ok: "cache_ok bt cap (insert n E) c" and n: "n \<in> set (pc_nodes c)"
    and leaf: "pc_block c n = None" "children c n = []"
  shows "cache_ok bt cap (insert (butlast n) E) (erase_leaf n c)"
proof -
  note D = cache_okD[OF ok]
  have set: "set (remove1 n (pc_nodes c)) = set (pc_nodes c) - {n}"
    using D(10) by (rule set_remove1_eq)
  have ch: "children (erase_leaf n c) m = children c m" if "m \<noteq> butlast n" for m
    using that by (simp add: children_def filter_remove1)
  have "trie_shape bt (erase_leaf n c)"
    using D(1) leaf(1) remove1_sorted_wrt[OF D(9)] unfolding trie_shape_def erase_leaf_simps set
    by auto
  moreover have "butlast m \<in> set (pc_nodes (erase_leaf n c))"
    if "m \<in> set (pc_nodes (erase_leaf n c))" "butlast m \<noteq> []" for m
  proof -
    have m: "m \<in> set (pc_nodes c)" using that set by simp
    have "butlast m \<noteq> n"
    proof
      assume "butlast m = n"
      then have "m \<in> set (children c n)" using m D(11) by (auto simp: children_def)
      then show False using leaf(2) by simp
    qed
    then show ?thesis using D(7)[OF m that(2)] set by simp
  qed
  moreover have "m \<in> insert (butlast n) E"
    if "m \<in> set (pc_nodes (erase_leaf n c))" "pc_block c m = None"
      "children (erase_leaf n c) m = []" for m
  proof (cases "m = butlast n")
    case False
    have "m \<in> set (pc_nodes c)" "m \<noteq> n" using that(1) set by simp_all
    moreover have "children c m = []" using that(3) ch[OF False] by simp
    ultimately show ?thesis using D(8)[of m] that(2) by simp
  qed simp
  moreover have "pc_node_count (erase_leaf n c) = length (pc_nodes (erase_leaf n c))"
    using ok n by (simp add: erase_leaf_def cache_ok_def length_remove1)
  moreover have "pc_key_tokens (erase_leaf n c) =
      sum_list (map (length \<circ> last) (pc_nodes (erase_leaf n c)))"
    using ok n by (simp add: erase_leaf_def cache_ok_def sum_remove1)
  moreover have "cache_leases (erase_leaf n c) = cache_leases c" by (simp add: cache_leases_def)
  ultimately show ?thesis using ok erase_leaf_hint_ok[OF D(6)]
    by (auto simp: cache_ok_def)
qed

text \<open>Fields that pruning leaves alone, and how it shrinks the others.\<close>

lemma prune_frame:
  "pc_block (prune n pr c) = pc_block c \<and> pc_lru (prune n pr c) = pc_lru c \<and>
   pc_leases (prune n pr c) = pc_leases c \<and> pc_cached (prune n pr c) = pc_cached c \<and>
   pc_hits (prune n pr c) = pc_hits c \<and> pc_misses (prune n pr c) = pc_misses c \<and>
   pc_reused (prune n pr c) = pc_reused c \<and> pc_evictions (prune n pr c) = pc_evictions c \<and>
   set (pc_nodes (prune n pr c)) \<subseteq> set (pc_nodes c) \<and>
   (\<forall>m. pr = Some m \<and> m \<in> set (pc_nodes c) \<longrightarrow> m \<in> set (pc_nodes (prune n pr c))) \<and>
   (\<exists>k. pc_publication (prune n pr c) = take k (pc_publication c))"
proof (induction n pr c rule: prune.induct)
  case (1 n pr c)
  show ?case
  proof (cases "n \<noteq> [] \<and> Some n \<noteq> pr \<and> pc_block c n = None \<and> children c n = []")
    case True
    then have p: "prune n pr c = prune (butlast n) pr (erase_leaf n c)"
      by (simp add: prune.simps[of n pr c])
    have sub: "set (remove1 n (pc_nodes c)) \<subseteq> set (pc_nodes c)" by (rule set_remove1_subset)
    have keep: "m \<in> set (remove1 n (pc_nodes c))" if "m \<in> set (pc_nodes c)" "pr = Some m" for m
      using that True by (auto simp: in_set_remove1)
    obtain k where k: "pc_publication (erase_leaf n c) = take k (pc_publication c)"
      by (simp add: erase_leaf_def) (metis order_refl take_all)
    have "\<exists>k'. pc_publication (prune (butlast n) pr (erase_leaf n c)) = take k' (pc_publication c)"
      using "1.IH"[OF True] k by (metis take_take)
    then show ?thesis unfolding p using "1.IH"[OF True] sub keep by auto
  next
    case False
    then have "prune n pr c = c" by (subst prune.simps) auto
    then show ?thesis by (auto intro: exI[of _ "length (pc_publication c)"])
  qed
qed

lemma prune_simps [simp]:
  "pc_block (prune n pr c) = pc_block c" "pc_lru (prune n pr c) = pc_lru c"
  "pc_leases (prune n pr c) = pc_leases c" "pc_cached (prune n pr c) = pc_cached c"
  "pc_hits (prune n pr c) = pc_hits c" "pc_misses (prune n pr c) = pc_misses c"
  "pc_reused (prune n pr c) = pc_reused c" "pc_evictions (prune n pr c) = pc_evictions c"
  "cache_leases (prune n pr c) = cache_leases c"
  using prune_frame[of n pr c] by (simp_all add: cache_leases_def)

lemma prune_ok:
  assumes "cache_ok bt cap (insert n E) c" and "n = [] \<or> n \<in> set (pc_nodes c)"
    and "\<forall>m. pr = Some m \<longrightarrow> m \<in> E"
  shows "cache_ok bt cap E (prune n pr c)"
  using assms
proof (induction n pr c rule: prune.induct)
  case (1 n pr c)
  show ?case
  proof (cases "n \<noteq> [] \<and> Some n \<noteq> pr \<and> pc_block c n = None \<and> children c n = []")
    case True
    then have n: "n \<in> set (pc_nodes c)" using "1.prems"(2) by simp
    have ok: "cache_ok bt cap (insert (butlast n) E) (erase_leaf n c)"
      using erase_leaf_ok[OF "1.prems"(1) n] True by simp
    have "butlast n = [] \<or> butlast n \<in> set (pc_nodes (erase_leaf n c))"
    proof (cases "butlast n = []")
      case False
      then have "butlast n \<in> set (pc_nodes c)" using cache_okD(7)[OF "1.prems"(1) n] by simp
      moreover have "butlast n \<noteq> n" using True
        by (metis append_butlast_last_id append_self_conv list.distinct(1))
      ultimately show ?thesis by (simp add: in_set_remove1)
    qed simp
    then have "cache_ok bt cap E (prune (butlast n) pr (erase_leaf n c))"
      using "1.IH"[OF True ok] "1.prems"(3) by simp
    then show ?thesis using True by (simp add: prune.simps[of n pr c])
  next
    case False
    then have p: "prune n pr c = c" by (subst prune.simps) auto
    have "n \<in> E \<or> \<not> (n \<in> set (pc_nodes c) \<and> pc_block c n = None \<and> children c n = [])"
      using False "1.prems"(3) cache_okD(11)[OF "1.prems"(1)] by auto
    then show ?thesis unfolding p using "1.prems"(1) by (auto simp: cache_ok_def)
  qed
qed

section \<open>Dropping a lease, eviction\<close>

text \<open>The frame of an operation that only removes leases and unreachable nodes.\<close>

definition shrinks :: "prefix_cache \<Rightarrow> prefix_cache \<Rightarrow> bool" where
  "shrinks c c' \<longleftrightarrow>
     set (pc_nodes c') \<subseteq> set (pc_nodes c) \<and> pc_block c' \<subseteq>\<^sub>m pc_block c \<and>
     (\<exists>k. pc_publication c' = take k (pc_publication c)) \<and>
     length (pc_leases c') = length (pc_leases c) \<and>
     pc_hits c' = pc_hits c \<and> pc_misses c' = pc_misses c \<and> pc_reused c' = pc_reused c"

lemma shrinks_refl [simp]: "shrinks c c"
  by (auto simp: shrinks_def intro: exI[of _ "length (pc_publication c)"])

lemma shrinks_trans: "shrinks c d \<Longrightarrow> shrinks d e \<Longrightarrow> shrinks c e"
  unfolding shrinks_def by (auto intro: map_le_trans)

lemma drop_node_props:
  assumes ok: "cache_ok bt cap E c" and n: "pc_block c n = Some b"
    and pr: "\<forall>m. pr = Some m \<longrightarrow> m \<in> E" and r: "drop_node n pr c p = (c', p')"
  shows "cache_ok bt cap E c'" "pc_block c' = (pc_block c)(n := None)"
    "pc_lru c' = remove1 n (pc_lru c)" "p' = unref b p"
    "cache_leases c = add_mset b (cache_leases c')" "Suc (pc_cached c') = pc_cached c"
    "shrinks c c'" "pr = Some m \<Longrightarrow> m \<in> set (pc_nodes c) \<Longrightarrow> m \<in> set (pc_nodes c')"
    "pc_evictions c' = pc_evictions c"
proof -
  note D = cache_okD[OF ok]
  define d where "d = c\<lparr>pc_leases := (pc_leases c)[b := dec64 (pc_leases c ! b)],
    pc_lru := remove1 n (pc_lru c), pc_block := (pc_block c)(n := None),
    pc_cached := pc_cached c - 1\<rparr>"
  have c': "c' = prune n pr d" "p' = unref b p"
    using r n by (simp_all add: drop_node_def d_def Let_def lru_unlink_def)
  have nl: "n \<in> set (pc_lru c)" using D(3) n by auto
  have ndom: "the (((pc_block c)(n := None)) m) = the (pc_block c m)" if "m \<in> set (remove1 n (pc_lru c))" for m
    using that D(2) by auto
  have map_eq: "map (\<lambda>m. the (((pc_block c)(n := None)) m)) (remove1 n (pc_lru c)) =
      map (\<lambda>m. the (pc_block c m)) (remove1 n (pc_lru c))"
    using ndom by (intro map_cong) auto
  have lru: "mset (pc_lru c) = add_mset n (mset (remove1 n (pc_lru c)))" using nl by simp
  have "cache_leases d = image_mset (\<lambda>m. the (pc_block c m)) (mset (remove1 n (pc_lru c)))"
  proof -
    have "pc_block d = (pc_block c)(n := None)" "pc_lru d = remove1 n (pc_lru c)"
      by (simp_all add: d_def)
    then show ?thesis by (simp only: cache_leases_def map_eq mset_map)
  qed
  moreover have "cache_leases c = image_mset (\<lambda>m. the (pc_block c m)) (mset (pc_lru c))"
    by (simp add: cache_leases_def)
  ultimately have leases: "cache_leases c = add_mset b (cache_leases d)"
    unfolding lru using n by simp
  have len: "length (pc_lru c) = Suc (length (remove1 n (pc_lru c)))"
    using nl by (simp add: length_remove1) (metis Suc_pred length_pos_if_in_set)
  have ch: "children d m = children c m" for m by (simp add: children_def d_def)
  have cnt: "\<forall>x < length (pc_leases d). pc_leases d ! x = count (cache_leases d) x"
  proof (intro allI impI)
    fix x assume "x < length (pc_leases d)"
    then have x: "x < length (pc_leases c)" by (simp add: d_def)
    then have "pc_leases c ! x = count (cache_leases c) x" using ok by (simp add: cache_ok_def)
    then have "pc_leases c ! x = count (cache_leases d) x + (if x = b then 1 else 0)"
      by (simp add: leases)
    moreover have "pc_leases d = (pc_leases c)[b := dec64 (pc_leases c ! b)]" by (simp add: d_def)
    ultimately show "pc_leases d ! x = count (cache_leases d) x"
      using x by (cases "x = b") simp_all
  qed
  have shape: "trie_shape bt d" using D(1) by (auto simp: trie_shape_def d_def)
  have "set (remove1 n (pc_lru c)) = dom (pc_block d)"
    using D(2,3) by (auto simp: d_def)
  moreover have "\<forall>m \<in> set (pc_nodes d). pc_block d m = None \<and> children d m = [] \<longrightarrow> m \<in> insert n E"
    using D(8) ch by (auto simp: d_def)
  moreover have "hint_ok d" using D(6) by (simp add: hint_ok_def d_def)
  moreover have "pc_cached d = length (pc_lru d)" "pc_cached d \<le> cap" "distinct (pc_lru d)"
    using D(2,4,5) len by (simp_all add: d_def)
  moreover have "pc_node_count d = length (pc_nodes d)"
    "pc_key_tokens d = sum_list (map (length \<circ> last) (pc_nodes d))"
    using ok by (simp_all add: cache_ok_def d_def)
  moreover have "\<forall>m \<in> set (pc_nodes d). butlast m \<noteq> [] \<longrightarrow> butlast m \<in> set (pc_nodes d)"
    using D(7) by (simp add: d_def)
  ultimately have dok: "cache_ok bt cap (insert n E) d" using shape cnt
    by (simp add: cache_ok_def d_def)
  have "n \<in> set (pc_nodes d)" using D(12)[OF n] by (simp add: d_def)
  then show "cache_ok bt cap E c'" unfolding c' by (intro prune_ok[OF dok _ pr]) simp
  show "pc_block c' = (pc_block c)(n := None)" "pc_lru c' = remove1 n (pc_lru c)"
    "p' = unref b p" "cache_leases c = add_mset b (cache_leases c')"
    "pc_evictions c' = pc_evictions c"
    using leases by (simp_all add: c') (simp_all add: d_def)
  show "Suc (pc_cached c') = pc_cached c" using len D(4) by (simp add: c') (simp add: d_def)
  note fr = prune_frame[of n pr d]
  show "shrinks c c'" unfolding shrinks_def c' using fr
    by (auto simp: d_def map_le_def)
  show "m \<in> set (pc_nodes c')" if "pr = Some m" "m \<in> set (pc_nodes c)"
    using fr that by (auto simp: c' d_def)
qed

lemma drop_node_pool:
  assumes "cache_ok bt cap E c" "pc_block c n = Some b" "\<forall>m. pr = Some m \<longrightarrow> m \<in> E"
    and "drop_node n pr c p = (c', p')" and "pool_ok (M + cache_leases c) p"
  shows "pool_ok (M + cache_leases c') p'"
  using pl.give_back_ok[of b "M + cache_leases c'" p] assms(5)
    drop_node_props(4,5)[OF assms(1-4)] by simp

lemma cache_ok_stats [simp]:
  "cache_ok bt cap E (c\<lparr>pc_evictions := k\<rparr>) = cache_ok bt cap E c"
  "cache_ok bt cap E (c\<lparr>pc_hits := k\<rparr>) = cache_ok bt cap E c"
  "cache_ok bt cap E (c\<lparr>pc_misses := k\<rparr>) = cache_ok bt cap E c"
  "cache_ok bt cap E (c\<lparr>pc_reused := k\<rparr>) = cache_ok bt cap E c"
  "cache_leases (c\<lparr>pc_evictions := k\<rparr>) = cache_leases c"
  "cache_leases (c\<lparr>pc_hits := k\<rparr>) = cache_leases c"
  "cache_leases (c\<lparr>pc_misses := k\<rparr>) = cache_leases c"
  "cache_leases (c\<lparr>pc_reused := k\<rparr>) = cache_leases c"
  "cache_leases (c\<lparr>pc_publication := l\<rparr>) = cache_leases c"
  by (simp_all add: cache_ok_def trie_shape_def cache_leases_def hint_ok_def children_def)

lemma evict_one_ok:
  assumes ok: "cache_ok bt cap {} c" and p: "pool_ok (M + cache_leases c) p"
    and e: "evict_one c p = (ev, c', p')"
  shows "cache_ok bt cap {} c'" "pool_ok (M + cache_leases c') p'"
    "ev \<longleftrightarrow> pc_lru c \<noteq> []" "\<not> ev \<Longrightarrow> c' = c \<and> p' = p"
    "ev \<Longrightarrow> pc_lru c' = tl (pc_lru c) \<and> pc_evictions c' = pc_evictions c + 1"
    "shrinks c c'" "pool_config p' = pool_config p"
proof -
  have "cache_ok bt cap {} c' \<and> pool_ok (M + cache_leases c') p' \<and> (ev \<longleftrightarrow> pc_lru c \<noteq> []) \<and>
    (\<not> ev \<longrightarrow> c' = c \<and> p' = p) \<and>
    (ev \<longrightarrow> pc_lru c' = tl (pc_lru c) \<and> pc_evictions c' = pc_evictions c + 1) \<and>
    shrinks c c' \<and> pool_config p' = pool_config p"
  proof (cases "pc_lru c")
    case Nil
    then show ?thesis using assms by (auto simp: evict_one_def)
  next
    case (Cons n ns)
    then obtain b where b: "pc_block c n = Some b" using cache_okD(3)[OF ok] by auto
    obtain d q where d: "drop_node n None c p = (d, q)" by fastforce
    note dp = drop_node_props[OF ok b _ d, simplified] and dpool = drop_node_pool[OF ok b _ d p, simplified]
    have e': "ev" "c' = d\<lparr>pc_evictions := pc_evictions d + 1\<rparr>" "p' = q"
      using e Cons d by (auto simp: evict_one_def)
    have "shrinks c c'" using dp(7) e' by (auto simp: shrinks_def)
    then show ?thesis using dp dpool e' Cons by auto
  qed
  then show "cache_ok bt cap {} c'" "pool_ok (M + cache_leases c') p'"
    "ev \<longleftrightarrow> pc_lru c \<noteq> []" "\<not> ev \<Longrightarrow> c' = c \<and> p' = p"
    "ev \<Longrightarrow> pc_lru c' = tl (pc_lru c) \<and> pc_evictions c' = pc_evictions c + 1"
    "shrinks c c'" "pool_config p' = pool_config p" by blast+
qed

section \<open>Clearing\<close>

lemma cache_ok_no_leases:
  assumes ok: "cache_ok bt cap {} c" and none: "pc_block c = Map.empty"
  shows "pc_nodes c = []" "pc_lru c = []" "pc_cached c = 0" "cache_leases c = {#}"
    "pc_node_count c = 0" "pc_key_tokens c = 0"
proof -
  note D = cache_okD[OF ok]
  show nodes: "pc_nodes c = []"
  proof (rule ccontr)
    assume "pc_nodes c \<noteq> []"
    then obtain n where n: "n \<in> set (pc_nodes c)" by (meson last_in_set)
    obtain m where m: "m \<in> set (pc_nodes c)" "\<forall>k \<in> set (pc_nodes c). length k \<le> length m"
      using ex_has_greatest_nat[of "\<lambda>k. k \<in> set (pc_nodes c)" n length
          "Suc (Max (length ` set (pc_nodes c)))"] n
      by (metis Max_ge List.finite_set finite_imageI image_eqI le_imp_less_Suc)
    have "children c m = []"
    proof (rule ccontr)
      assume "children c m \<noteq> []"
      then obtain q where "q \<in> set (children c m)" by (meson last_in_set)
      then have q: "q \<in> set (pc_nodes c)" "q \<noteq> []" "butlast q = m" by (auto simp: children_def)
      then have "length q = Suc (length m)" by (cases q rule: rev_cases) auto
      then show False using m(2) q(1) by fastforce
    qed
    then show False using D(8)[OF m(1)] none by simp
  qed
  show lru: "pc_lru c = []" using D(3) none by simp
  show "pc_cached c = 0" using D(4) lru by simp
  show "cache_leases c = {#}" using lru by (simp add: cache_leases_def)
  show "pc_node_count c = 0" "pc_key_tokens c = 0" using ok nodes by (simp_all add: cache_ok_def)
qed

lemma clear_walk_ok:
  assumes "cache_ok bt cap {} c" and "pool_ok (M + cache_leases c) p"
    and "clear_walk ns c p = (c', p')"
  shows "cache_ok bt cap {} c' \<and> pool_ok (M + cache_leases c') p' \<and> shrinks c c' \<and>
    (\<forall>n \<in> set ns. pc_block c' n = None) \<and> pool_config p' = pool_config p \<and>
    pc_evictions c' = pc_evictions c"
  using assms
proof (induction ns arbitrary: c p)
  case Nil
  then show ?case by simp
next
  case (Cons n ns)
  show ?case
  proof (cases "pc_block c n")
    case None
    then have "clear_walk ns c p = (c', p')" using Cons.prems(3) by simp
    note IH = Cons.IH[OF Cons.prems(1,2) this]
    then have "pc_block c' \<subseteq>\<^sub>m pc_block c" by (simp add: shrinks_def)
    then have "pc_block c' n = None" using None by (metis domIff map_le_def)
    then show ?thesis using IH by simp
  next
    case (Some b)
    obtain d q where d: "drop_node n None c p = (d, q)" by fastforce
    note dp = drop_node_props[OF Cons.prems(1) Some _ d, simplified]
    have "clear_walk ns d q = (c', p')" using Cons.prems(3) Some d by simp
    note IH = Cons.IH[OF dp(1) drop_node_pool[OF Cons.prems(1) Some _ d Cons.prems(2)] this, simplified]
    have "pc_block c' \<subseteq>\<^sub>m pc_block d" using IH by (simp add: shrinks_def)
    then have "pc_block c' n = None" using dp(2) by (metis domIff fun_upd_same map_le_def)
    then show ?thesis using IH dp shrinks_trans[OF dp(7)] by auto
  qed
qed

lemma cache_clear_ok:
  assumes ok: "cache_ok bt cap {} c" and p: "pool_ok (M + cache_leases c) p"
    and r: "cache_clear c p = (c', p')"
  shows "cache_ok bt cap {} c'" "pool_ok M p'" "cache_leases c' = {#}" "pc_nodes c' = []"
    "pc_block c' = Map.empty" "pc_lru c' = []" "pc_publication c' = []" "pc_cached c' = 0"
    "pc_node_count c' = 0" "pc_key_tokens c' = 0"
    "pool_config p' = pool_config p" "length (pc_leases c') = length (pc_leases c)"
    "pc_hits c' = pc_hits c" "pc_misses c' = pc_misses c" "pc_reused c' = pc_reused c"
    "pc_evictions c' = pc_evictions c"
proof -
  obtain d q where d: "clear_walk (pc_nodes c) c p = (d, q)" by fastforce
  have e: "c' = d\<lparr>pc_publication := []\<rparr>" "p' = q" using r d by (simp_all add: cache_clear_def)
  note w = clear_walk_ok[OF ok p d]
  have "pc_block d n = None" for n
  proof (cases "pc_block d n")
    case (Some b)
    then have "n \<in> set (pc_nodes c)" using w cache_okD(12)[of bt cap "{}" d n b]
      by (auto simp: shrinks_def)
    then show ?thesis using w by auto
  qed simp
  then have none: "pc_block d = Map.empty" by auto
  note z = cache_ok_no_leases[OF conjunct1[OF w] none]
  show "cache_ok bt cap {} c'" using w unfolding e
    by (auto simp: cache_ok_def trie_shape_def hint_ok_def cache_leases_def children_def)
  show "pool_ok M p'" "cache_leases c' = {#}" "pc_nodes c' = []"
    "pc_block c' = Map.empty" "pc_lru c' = []" "pc_publication c' = []" "pc_cached c' = 0"
    "pc_node_count c' = 0" "pc_key_tokens c' = 0"
    "pool_config p' = pool_config p" "length (pc_leases c') = length (pc_leases c)"
    "pc_hits c' = pc_hits c" "pc_misses c' = pc_misses c" "pc_reused c' = pc_reused c"
    "pc_evictions c' = pc_evictions c"
    using w z none by (simp_all add: e shrinks_def)
qed

section \<open>Lookup\<close>

lemma same_but_lru_fields:
  assumes "same_but_lru c c'"
  shows "pc_nodes c' = pc_nodes c" "pc_block c' = pc_block c" "pc_cached c' = pc_cached c"
    "pc_node_count c' = pc_node_count c" "pc_key_tokens c' = pc_key_tokens c"
    "pc_leases c' = pc_leases c" "pc_publication c' = pc_publication c"
    "pc_hits c' = pc_hits c" "pc_misses c' = pc_misses c" "pc_reused c' = pc_reused c"
    "pc_evictions c' = pc_evictions c" "mset (pc_lru c') = mset (pc_lru c)"
proof -
  from assms have m: "mset (pc_lru c') = mset (pc_lru c)" and e: "c' = c\<lparr>pc_lru := pc_lru c'\<rparr>"
    by (simp_all add: same_but_lru_def)
  show "pc_nodes c' = pc_nodes c" "pc_block c' = pc_block c" "pc_cached c' = pc_cached c"
    "pc_node_count c' = pc_node_count c" "pc_key_tokens c' = pc_key_tokens c"
    "pc_leases c' = pc_leases c" "pc_publication c' = pc_publication c"
    "pc_hits c' = pc_hits c" "pc_misses c' = pc_misses c" "pc_reused c' = pc_reused c"
    "pc_evictions c' = pc_evictions c"
    by (subst e, simp)+
  show "mset (pc_lru c') = mset (pc_lru c)" by (rule m)
qed

lemma cache_ok_lru:
  assumes "cache_ok bt cap E c" and "same_but_lru c c'"
  shows "cache_ok bt cap E c'" "cache_leases c' = cache_leases c"
proof -
  note f = same_but_lru_fields[OF assms(2)]
  note m = f(12)
  show l: "cache_leases c' = cache_leases c" unfolding cache_leases_def f(2) using m
    by (simp only: mset_map)
  have "distinct (pc_lru c')" using mset_eq_imp_distinct_iff[OF m] cache_okD(2)[OF assms(1)] by simp
  moreover have "set (pc_lru c') = set (pc_lru c)" using m by (rule mset_eq_setD)
  moreover have "length (pc_lru c') = length (pc_lru c)" using m by (rule mset_eq_length)
  ultimately show "cache_ok bt cap E c'" using assms(1)
    unfolding cache_ok_def trie_shape_def hint_ok_def children_def f(1-11) l by simp
qed

lemma reuse_loop_start:
  assumes ok: "cache_ok bt cap {} c" and bt: "0 < bt"
    and r: "reuse_loop bt prompt (length prompt - 1) 0 [] [] c = (cnt, pages, c')"
  shows "\<exists>n. path_pages c n pages \<and> cnt \<le> length prompt - 1 \<and> cnt \<le> length (concat n) \<and>
    take cnt (concat n) = take cnt prompt \<and> length n = ceil_div cnt bt \<and>
    (\<forall>e \<in> set (butlast n). length e = bt) \<and> same_but_lru c c'"
  using reuse_loop_pages[OF cache_okD(1)[OF ok] bt _ _ _ _ _ _ _ r] cache_okD(3)[OF ok] by simp

lemma path_pages_leased:
  assumes "cache_ok bt cap E c" and "path_pages c n pages"
  shows "set pages \<subseteq> set_mset (cache_leases c)"
proof
  fix b assume "b \<in> set pages"
  then obtain i where "i < length n" "pc_block c (take (Suc i) n) = Some b"
    using assms(2) by (auto simp: path_pages_def in_set_conv_nth)
  then show "b \<in> set_mset (cache_leases c)"
    using cache_leases_mem cache_okD(3)[OF assms(1)] by blast
qed

text \<open>A successful lookup: which pages the sequence gets, and who leases what afterwards.\<close>

lemma cache_reuse_ok:
  assumes ok: "cache_ok (page_tokens p) cap {} c" and p: "pool_ok (M + cache_leases c) p"
    and bt: "0 < page_tokens p" and capz: "cache_capacity p \<noteq> 0"
    and s: "seq_used s = 0" "seq_blocks s = []" "seq_tokens s = []"
  shows "\<exists>cnt s' c' p' n. cache_reuse s prompt c p = Inr (cnt, s', c', p') \<and>
    path_pages c n (seq_blocks s') \<and> cnt \<le> length prompt - 1 \<and> seq_used s' = cnt \<and>
    seq_tokens s' = take cnt prompt \<and> take cnt (concat n) = take cnt prompt \<and>
    cnt \<le> length (concat n) \<and> (\<forall>e \<in> set (butlast n). length e = page_tokens p) \<and>
    length (seq_blocks s') = ceil_div cnt (page_tokens p) \<and>
    cache_ok (page_tokens p) cap {} c' \<and> cache_leases c' = cache_leases c \<and>
    pc_block c' = pc_block c \<and> pc_nodes c' = pc_nodes c \<and> pc_cached c' = pc_cached c \<and>
    length (pc_leases c') = length (pc_leases c) \<and>
    pc_evictions c' = pc_evictions c \<and>
    pool_ok (M + mset (seq_blocks s') + cache_leases c') p' \<and> pool_config p' = pool_config p"
proof -
  obtain cnt pages d where r: "reuse_loop (page_tokens p) prompt (length prompt - 1) 0 [] [] c =
      (cnt, pages, d)" by (metis prod_cases3)
  from reuse_loop_start[OF ok bt r] obtain n where n: "path_pages c n pages"
    "cnt \<le> length prompt - 1" "cnt \<le> length (concat n)" "take cnt (concat n) = take cnt prompt"
    "length n = ceil_div cnt (page_tokens p)" "\<forall>e \<in> set (butlast n). length e = page_tokens p"
    "same_but_lru c d" by blast
  have lp: "length pages = length n" using n(1) by (simp add: path_pages_def)
  have "set pages \<subseteq> set_mset (M + cache_leases c)" using path_pages_leased[OF ok n(1)] by auto
  from pl.lease_all[OF p this] obtain q where
    q: "foldE retain pages p = Inr q" "pool_ok (M + cache_leases c + mset pages) q"
      "pool_config q = pool_config p" by blast
  define c' where "c' = (if cnt \<noteq> 0 then d\<lparr>pc_hits := pc_hits d + 1, pc_reused := pc_reused d + cnt\<rparr>
    else d\<lparr>pc_misses := pc_misses d + 1\<rparr>)"
  have f: "pc_nodes d = pc_nodes c" "pc_block d = pc_block c" "pc_cached d = pc_cached c"
    "pc_leases d = pc_leases c" "pc_evictions d = pc_evictions c"
    using same_but_lru_fields[OF n(7)] by simp_all
  note l = cache_ok_lru[OF ok n(7)]
  have c'ok: "cache_ok (page_tokens p) cap {} c'" "cache_leases c' = cache_leases c"
    "pc_block c' = pc_block c" "pc_nodes c' = pc_nodes c" "pc_cached c' = pc_cached c"
    "length (pc_leases c') = length (pc_leases c)" "pc_evictions c' = pc_evictions c"
    using l f by (auto simp: c'_def)
  have "cache_reuse s prompt c p = Inr (cnt,
      s\<lparr>seq_blocks := pages, seq_tokens := take cnt prompt, seq_used := cnt\<rparr>, c', q)"
    using s capz r q(1) by (simp add: cache_reuse_def Let_def c'_def)
  moreover have "pool_ok (M + mset pages + cache_leases c') q" using q(2) c'ok(2)
    by (simp add: ac_simps)
  ultimately show ?thesis using n lp q(3) c'ok
    by (intro exI[of _ cnt] exI[of _ "s\<lparr>seq_blocks := pages, seq_tokens := take cnt prompt, seq_used := cnt\<rparr>"]
        exI[of _ c'] exI[of _ q] exI[of _ n]) simp
qed

end
