(* ===== verification/Prefix_Publish.thy ===== *)
theory Prefix_Publish
  imports Prefix_Inv
begin

text \<open>
  Publication into the prefix cache: the loop of \<open>publish\<close> keeps the cache invariant and the lease
  accounting, adds only entries of the published sequence, and leaves the whole published path
  leased and youngest in the LRU order, so that a later lookup finds it. The publication hint only
  saves searches: it never changes what is cached.
\<close>

section \<open>The path of a sequence\<close>

definition seq_page :: "nat \<Rightarrow> paged_sequence \<Rightarrow> nat \<Rightarrow> page" where
  "seq_page bt s i = take (min bt (seq_used s - i * bt)) (drop (i * bt) (seq_tokens s))"

definition seq_path :: "nat \<Rightarrow> paged_sequence \<Rightarrow> nat \<Rightarrow> path" where
  "seq_path bt s i = map (seq_page bt s) [0..<i]"

lemma seq_path_0 [simp]: "seq_path bt s 0 = []"
  by (simp add: seq_path_def)

lemma seq_path_Suc [simp]: "seq_path bt s (Suc i) = seq_path bt s i @ [seq_page bt s i]"
  by (simp add: seq_path_def)

lemma length_seq_path [simp]: "length (seq_path bt s i) = i"
  by (simp add: seq_path_def)

lemma seq_path_inj [simp]: "seq_path bt s i = seq_path bt s j \<longleftrightarrow> i = j"
  by (metis length_seq_path)

lemma take_seq_path: "k \<le> i \<Longrightarrow> take k (seq_path bt s i) = seq_path bt s k"
  by (simp add: seq_path_def take_map take_upt)

lemma length_seq_page:
  "length (seq_tokens s) = seq_used s \<Longrightarrow> length (seq_page bt s i) = min bt (seq_used s - i * bt)"
  by (simp add: seq_page_def)

lemma seq_path_full:
  assumes "length (seq_tokens s) = seq_used s" and "i * bt \<le> seq_used s" and "e \<in> set (seq_path bt s i)"
  shows "length e = bt"
proof -
  from assms(3) obtain j where j: "j < i" "e = seq_page bt s j" by (auto simp: seq_path_def)
  have "Suc j * bt \<le> i * bt" using j(1) by (intro mult_le_mono1) simp
  then have "bt \<le> seq_used s - j * bt" using assms(2) by simp
  then show ?thesis using j assms(1) by (simp add: length_seq_page)
qed

lemma concat_seq_path:
  assumes "length (seq_tokens s) = seq_used s"
  shows "concat (seq_path bt s i) = take (i * bt) (seq_tokens s)"
proof (induction i)
  case 0
  then show ?case by simp
next
  case (Suc i)
  have "seq_page bt s i = take bt (drop (i * bt) (seq_tokens s))"
    using assms by (auto simp: seq_page_def min_def)
  moreover have "take (Suc i * bt) (seq_tokens s) =
      take (i * bt) (seq_tokens s) @ take bt (drop (i * bt) (seq_tokens s))"
    by (simp only: mult_Suc add.commute[of bt] take_add)
  ultimately show ?case using Suc by simp
qed

section \<open>Selecting the node\<close>

lemma select_node_same [simp]:
  "pc_block (select_node i n c) = pc_block c" "pc_lru (select_node i n c) = pc_lru c"
  "pc_cached (select_node i n c) = pc_cached c" "pc_leases (select_node i n c) = pc_leases c"
  "cache_leases (select_node i n c) = cache_leases c"
  "pc_hits (select_node i n c) = pc_hits c" "pc_misses (select_node i n c) = pc_misses c"
  "pc_reused (select_node i n c) = pc_reused c" "pc_evictions (select_node i n c) = pc_evictions c"
  by (simp_all add: select_node_def add_node_def cache_leases_def)

lemma insort_sorted_wrt:
  "sorted_wrt (<) xs \<Longrightarrow> x \<notin> set xs \<Longrightarrow> sorted_wrt (<) (insort x (xs :: path list))"
  by (simp add: strict_sorted_iff sorted_insort distinct_insort)

lemma sum_list_insort: "sum_list (map f (insort x xs)) = f x + (sum_list (map f xs) :: nat)"
  by (induction xs) auto

lemma add_node_ok:
  assumes ok: "cache_ok bt cap {} c" and par: "butlast n = [] \<or> butlast n \<in> set (pc_nodes c)"
    and n: "n \<noteq> []" "last n \<noteq> []" "length (last n) \<le> bt" "\<forall>e \<in> set (butlast n). length e = bt"
  shows "cache_ok bt cap {n} (add_node n c)" "n \<in> set (pc_nodes (add_node n c))"
    "set (pc_nodes (add_node n c)) = insert n (set (pc_nodes c))"
proof -
  note D = cache_okD[OF ok]
  show set: "set (pc_nodes (add_node n c)) = insert n (set (pc_nodes c))"
    by (auto simp: add_node_def set_insort_key)
  then show "n \<in> set (pc_nodes (add_node n c))" by simp
  show "cache_ok bt cap {n} (add_node n c)"
  proof (cases "n \<in> set (pc_nodes c)")
    case True
    then show ?thesis using ok by (auto simp: add_node_def intro: cache_ok_mono)
  next
    case False
    define d where "d = c\<lparr>pc_nodes := insort n (pc_nodes c), pc_node_count := pc_node_count c + 1,
             pc_key_tokens := pc_key_tokens c + length (last n)\<rparr>"
    have d: "add_node n c = d" using False by (simp add: add_node_def d_def)
    have f: "pc_nodes d = insort n (pc_nodes c)" "pc_block d = pc_block c" "pc_lru d = pc_lru c"
      "pc_cached d = pc_cached c" "pc_leases d = pc_leases c" "pc_publication d = pc_publication c"
      "pc_node_count d = pc_node_count c + 1" "pc_key_tokens d = pc_key_tokens c + length (last n)"
      by (simp_all add: d_def)
    have l: "cache_leases d = cache_leases c" by (simp add: cache_leases_def f)
    have sd: "set (pc_nodes d) = insert n (set (pc_nodes c))" using set d by simp
    have "trie_shape bt d" unfolding trie_shape_def f(2) sd
      using insort_sorted_wrt[OF D(9) False] f(1) D(1) n by (auto simp: trie_shape_def)
    moreover have "\<forall>m \<in> set (pc_nodes d). pc_block d m = None \<and> children d m = [] \<longrightarrow> m \<in> {n}"
    proof (intro ballI impI)
      fix m assume m: "m \<in> set (pc_nodes d)" "pc_block d m = None \<and> children d m = []"
      have "set (children c m) \<subseteq> set (children d m)" using sd by (auto simp: children_def)
      then have "children c m = []" using m(2) by simp
      then show "m \<in> {n}" using D(8)[of m] m sd f(2) by auto
    qed
    moreover have "\<forall>m \<in> set (pc_nodes d). butlast m \<noteq> [] \<longrightarrow> butlast m \<in> set (pc_nodes d)"
      using D(7) par sd by auto
    moreover have "hint_ok d" using D(6) sd by (simp add: hint_ok_def f(6))
    moreover have "pc_node_count d = length (pc_nodes d)"
      "pc_key_tokens d = sum_list (map (length \<circ> last) (pc_nodes d))"
      using ok by (simp_all add: cache_ok_def f sum_list_insort)
    ultimately show ?thesis unfolding d using ok by (simp add: cache_ok_def f(2-5) l)
  qed
qed

lemma cache_ok_publication_take:
  "cache_ok bt cap E c \<Longrightarrow> cache_ok bt cap E (c\<lparr>pc_publication := take k (pc_publication c)\<rparr>)"
  by (simp add: cache_ok_def trie_shape_def cache_leases_def hint_ok_def children_def)

lemma select_node_ok:
  assumes ok: "cache_ok bt cap {} c" and par: "butlast n = [] \<or> butlast n \<in> set (pc_nodes c)"
    and n: "n \<noteq> []" "last n \<noteq> []" "length (last n) \<le> bt" "\<forall>e \<in> set (butlast n). length e = bt"
  shows "cache_ok bt cap {n} (select_node i n c)"
    "set (pc_nodes (select_node i n c)) = insert n (set (pc_nodes c))"
proof -
  have "cache_ok bt cap {n} (select_node i n c) \<and>
    set (pc_nodes (select_node i n c)) = insert n (set (pc_nodes c))"
  proof (cases "hinted i n c")
    case True
    then have "n \<in> set (pc_nodes c)" using cache_okD(6)[OF ok]
      by (auto simp: hinted_def hint_ok_def)
    then show ?thesis using True ok by (auto simp: select_node_def intro: cache_ok_mono)
  next
    case False
    then show ?thesis using add_node_ok[OF cache_ok_publication_take[OF ok] _ n] par
      by (auto simp: select_node_def)
  qed
  then show "cache_ok bt cap {n} (select_node i n c)"
    "set (pc_nodes (select_node i n c)) = insert n (set (pc_nodes c))" by auto
qed

lemma cache_ok_leased: "cache_ok bt cap {n} c \<Longrightarrow> pc_block c n \<noteq> None \<Longrightarrow> cache_ok bt cap {} c"
  by (auto simp: cache_ok_def)

section \<open>Taking a lease\<close>

definition add_lease :: "path \<Rightarrow> nat \<Rightarrow> prefix_cache \<Rightarrow> prefix_cache" where
  "add_lease n b c = c\<lparr>pc_lru := pc_lru c @ [n], pc_leases := (pc_leases c)[b := pc_leases c ! b + 1],
     pc_block := (pc_block c)(n \<mapsto> b), pc_cached := pc_cached c + 1\<rparr>"

lemma add_lease_ok:
  assumes ok: "cache_ok bt cap {n} c" and n: "n \<in> set (pc_nodes c)" "pc_block c n = None"
    and room: "pc_cached c < cap"
  shows "cache_ok bt cap {} (add_lease n b c)"
    "cache_leases (add_lease n b c) = add_mset b (cache_leases c)"
proof -
  note D = cache_okD[OF ok]
  have nl: "n \<notin> set (pc_lru c)" using D(3) n(2) by auto
  have f: "pc_nodes (add_lease n b c) = pc_nodes c" "pc_lru (add_lease n b c) = pc_lru c @ [n]"
    "pc_block (add_lease n b c) = (pc_block c)(n \<mapsto> b)" "pc_cached (add_lease n b c) = pc_cached c + 1"
    "pc_leases (add_lease n b c) = (pc_leases c)[b := pc_leases c ! b + 1]"
    "pc_publication (add_lease n b c) = pc_publication c"
    "pc_node_count (add_lease n b c) = pc_node_count c"
    "pc_key_tokens (add_lease n b c) = pc_key_tokens c"
    by (simp_all add: add_lease_def)
  have "map (\<lambda>m. the (((pc_block c)(n \<mapsto> b)) m)) (pc_lru c) = map (\<lambda>m. the (pc_block c m)) (pc_lru c)"
    using nl by (intro map_cong) auto
  then show l: "cache_leases (add_lease n b c) = add_mset b (cache_leases c)"
    by (simp add: cache_leases_def f del: mset_map map_eq_conv)
  have "\<forall>x < length (pc_leases (add_lease n b c)).
      pc_leases (add_lease n b c) ! x = count (cache_leases (add_lease n b c)) x"
  proof (intro allI impI)
    fix x assume "x < length (pc_leases (add_lease n b c))"
    then have x: "x < length (pc_leases c)" by (simp add: f)
    then have "pc_leases c ! x = count (cache_leases c) x" using ok by (simp add: cache_ok_def)
    then show "pc_leases (add_lease n b c) ! x = count (cache_leases (add_lease n b c)) x"
      unfolding f l using x by (cases "x = b") simp_all
  qed
  moreover have "trie_shape bt (add_lease n b c)" using D(1) n(1)
    by (simp add: trie_shape_def f)
  moreover have "\<forall>m \<in> set (pc_nodes c). ((pc_block c)(n \<mapsto> b)) m = None \<and>
      children (add_lease n b c) m = [] \<longrightarrow> m \<in> {}"
    using D(8) by (auto simp: children_def f)
  moreover have "hint_ok (add_lease n b c)" using D(6) by (simp add: hint_ok_def f)
  moreover have "distinct (pc_lru c @ [n])" "set (pc_lru c @ [n]) = dom ((pc_block c)(n \<mapsto> b))"
    using D(2,3) nl by auto
  moreover have "pc_node_count c = length (pc_nodes c)"
    "pc_key_tokens c = sum_list (map (length \<circ> last) (pc_nodes c))"
    using ok by (simp_all add: cache_ok_def)
  ultimately show "cache_ok bt cap {} (add_lease n b c)"
    using D(4,7) room by (simp add: cache_ok_def f)
qed

lemma lease_node_ok:
  assumes ok: "cache_ok bt cap {n} c" and n: "n \<in> set (pc_nodes c)" "pc_block c n = None"
    and cap: "cap = cache_capacity p" "0 < cap" and p: "pool_ok (M + cache_leases c) p"
    and b: "b \<in># M" and pre: "pc_lru c = rest @ pre" "length pre < cap"
  shows "\<exists>c' p' rest'. lease_node n b c p = Inr (c', p') \<and> cache_ok bt cap {} c' \<and>
    pool_ok (M + cache_leases c') p' \<and> pool_config p' = pool_config p \<and>
    pc_lru c' = rest' @ pre @ [n] \<and> pc_block c' n = Some b \<and>
    pc_block c' \<subseteq>\<^sub>m (pc_block c)(n \<mapsto> b) \<and> n \<in> set (pc_nodes c') \<and>
    set (pc_nodes c') \<subseteq> set (pc_nodes c) \<and> length (pc_leases c') = length (pc_leases c) \<and>
    pc_hits c' = pc_hits c \<and> pc_misses c' = pc_misses c \<and> pc_reused c' = pc_reused c"
proof -
  have "b \<in># M + cache_leases c" using b by simp
  from retain_ok[OF p this] obtain p1 where p1: "retain b p = Inr p1"
    "pool_ok (add_mset b (M + cache_leases c)) p1" by blast
  have conf: "pool_config p1 = pool_config p" using retain_config[OF p1(1)] .
  have pool1: "pool_ok (add_mset b M + cache_leases c) p1" using p1(2) by simp
  have fin: "\<exists>c' p' rest'. Inr (add_lease n b d, q) = (Inr (c', p') :: (prefix_cache \<times> block_pool) result) \<and> cache_ok bt cap {} c' \<and>
    pool_ok (M + cache_leases c') p' \<and> pool_config p' = pool_config p \<and>
    pc_lru c' = rest' @ pre @ [n] \<and> pc_block c' n = Some b \<and>
    pc_block c' \<subseteq>\<^sub>m (pc_block c)(n \<mapsto> b) \<and> n \<in> set (pc_nodes c') \<and>
    set (pc_nodes c') \<subseteq> set (pc_nodes c) \<and> length (pc_leases c') = length (pc_leases c) \<and>
    pc_hits c' = pc_hits c \<and> pc_misses c' = pc_misses c \<and> pc_reused c' = pc_reused c"
    if d: "cache_ok bt cap {n} d" "n \<in> set (pc_nodes d)" "pc_block d \<subseteq>\<^sub>m pc_block c" "pc_cached d < cap"
      "pool_ok (add_mset b M + cache_leases d) q" "pool_config q = pool_config p"
      "pc_lru d = rest' @ pre" "set (pc_nodes d) \<subseteq> set (pc_nodes c)"
      "length (pc_leases d) = length (pc_leases c)" "pc_hits d = pc_hits c"
      "pc_misses d = pc_misses c" "pc_reused d = pc_reused c" for d q rest'
  proof -
    have nn: "pc_block d n = None" using d(3) n(2) by (metis domIff map_le_def)
    note al = add_lease_ok[OF d(1,2) nn d(4), of b]
    have "pc_block (add_lease n b d) \<subseteq>\<^sub>m (pc_block c)(n \<mapsto> b)"
      using d(3) by (auto simp: add_lease_def map_le_def)
    moreover have "pool_ok (M + cache_leases (add_lease n b d)) q" using d(5) al(2) by simp
    ultimately show ?thesis using al(1) d
      by (intro exI[of _ "add_lease n b d"] exI[of _ q] exI[of _ rest']) (simp add: add_lease_def)
  qed
  show ?thesis
  proof (cases "pc_cached c = cap")
    case False
    then have "pc_cached c < cap" using cache_okD(5)[OF ok] by simp
    moreover have "lease_node n b c p = Inr (add_lease n b c, p1)"
      using False p1(1) cap(1) by (simp add: lease_node_def lru_append_def add_lease_def)
    ultimately show ?thesis using fin[OF ok n(1) _ _ pool1 conf pre(1)] by simp
  next
    case True
    then have "rest \<noteq> []" using pre cache_okD(4)[OF ok] by auto
    then obtain h rest2 where h: "rest = h # rest2" by (cases rest) auto
    then obtain x where x: "pc_block c h = Some x" using cache_okD(3)[OF ok] pre(1) by auto
    obtain d q where d: "drop_node h (Some n) c p1 = (d, q)" by fastforce
    have prot: "\<forall>m. Some n = Some m \<longrightarrow> m \<in> {n}" by simp
    note dp = drop_node_props[OF ok x prot d] and dq = drop_node_pool[OF ok x prot d pool1]
    define e where "e = d\<lparr>pc_evictions := pc_evictions d + 1\<rparr>"
    have "lease_node n b c p = Inr (add_lease n b e, q)"
      using True p1(1) cap(1) d pre(1) h
      by (simp add: lease_node_def lru_append_def add_lease_def e_def)
    moreover have "cache_ok bt cap {n} e" "n \<in> set (pc_nodes e)" "pc_block e \<subseteq>\<^sub>m pc_block c"
      "pc_cached e < cap" "pool_ok (add_mset b M + cache_leases e) q" "pool_config q = pool_config p"
      "pc_lru e = rest2 @ pre" "set (pc_nodes e) \<subseteq> set (pc_nodes c)"
      "length (pc_leases e) = length (pc_leases c)" "pc_hits e = pc_hits c"
      "pc_misses e = pc_misses c" "pc_reused e = pc_reused c"
      using dp dq True h pre(1) n(1) conf by (auto simp: e_def shrinks_def)
    ultimately show ?thesis using fin[of e q rest2] by simp
  qed
qed

section \<open>One page, the whole loop\<close>

text \<open>
  Before page \<open>i\<close>: the invariant and the lease accounting hold, the first \<open>i\<close> pages of the
  sequence's path are leased and youngest in the LRU order, and the only new entries map pages of
  the path to the sequence's own physical pages.
\<close>

definition publish_inv ::
    "nat multiset \<Rightarrow> paged_sequence \<Rightarrow> prefix_cache \<Rightarrow> block_pool \<Rightarrow> nat \<Rightarrow>
       path \<times> prefix_cache \<times> block_pool \<Rightarrow> bool" where
  "publish_inv M s c0 p0 i st \<longleftrightarrow> (case st of (parent, c, p) \<Rightarrow>
     parent = seq_path (page_tokens p0) s i \<and> pool_config p = pool_config p0 \<and>
     cache_ok (page_tokens p0) (cache_capacity p0) {} c \<and> pool_ok (M + cache_leases c) p \<and>
     (parent = [] \<or> parent \<in> set (pc_nodes c)) \<and>
     (\<exists>rest. pc_lru c = rest @ map (seq_path (page_tokens p0) s) [1..<Suc i]) \<and>
     (\<forall>m x. pc_block c m = Some x \<longrightarrow> pc_block c0 m = Some x \<or>
        (\<exists>j < i. m = seq_path (page_tokens p0) s (Suc j) \<and> x = seq_blocks s ! j)) \<and>
     length (pc_leases c) = length (pc_leases c0) \<and>
     pc_hits c = pc_hits c0 \<and> pc_misses c = pc_misses c0 \<and> pc_reused c = pc_reused c0)"

lemma push_publication_ok:
  assumes "cache_ok bt cap {} c" and "n \<in> set (pc_nodes c)" "length n = Suc i"
  shows "cache_ok bt cap {} (c\<lparr>pc_publication := (if length (pc_publication c) = i
           then pc_publication c @ [n] else pc_publication c)\<rparr>)"
proof -
  have "hint_ok (c\<lparr>pc_publication := pc_publication c @ [n]\<rparr>)" if "length (pc_publication c) = i"
    using cache_okD(6)[OF assms(1)] assms(2,3) that by (auto simp: hint_ok_def nth_append)
  then show ?thesis using assms(1)
    by (auto simp: cache_ok_def trie_shape_def cache_leases_def children_def)
qed

lemma publish_page_ok:
  assumes inv: "publish_inv M s c0 p0 i st"
    and i: "i * page_tokens p0 < seq_used s" "i < cache_capacity p0" "i < length (seq_blocks s)"
    and bt: "0 < page_tokens p0" and tok: "length (seq_tokens s) = seq_used s"
    and own: "set (seq_blocks s) \<subseteq> set_mset M"
  shows "\<exists>st'. publish_page s i st = Inr st' \<and> publish_inv M s c0 p0 (Suc i) st'"
proof -
  obtain parent c p where st: "st = (parent, c, p)" by (metis prod_cases3)
  let ?bt = "page_tokens p0" and ?cap = "cache_capacity p0" and ?n = "seq_path (page_tokens p0) s (Suc i)"
  let ?pre = "map (seq_path ?bt s) [1..<Suc i]" and ?b = "seq_blocks s ! i"
  from inv st obtain rest where I: "parent = seq_path ?bt s i" "pool_config p = pool_config p0"
    "cache_ok ?bt ?cap {} c" "pool_ok (M + cache_leases c) p" "parent = [] \<or> parent \<in> set (pc_nodes c)"
    "pc_lru c = rest @ ?pre"
    "\<And>m x. pc_block c m = Some x \<Longrightarrow> pc_block c0 m = Some x \<or>
        (\<exists>j < i. m = seq_path ?bt s (Suc j) \<and> x = seq_blocks s ! j)"
    and stats: "length (pc_leases c) = length (pc_leases c0)" "pc_hits c = pc_hits c0"
      "pc_misses c = pc_misses c0" "pc_reused c = pc_reused c0"
    unfolding publish_inv_def by auto
  have node: "?n \<noteq> []" "last ?n \<noteq> []" "length (last ?n) \<le> ?bt" "\<forall>e \<in> set (butlast ?n). length e = ?bt"
    "butlast ?n = parent"
    using i(1) bt tok seq_path_full[of s i ?bt] I(1) by (auto simp flip: length_0_conv simp: length_seq_page)
  define c1 where "c1 = select_node i ?n c"
  note sel = select_node_ok[OF I(3) _ node(1-4), of i, folded c1_def]
  have s1: "cache_ok ?bt ?cap {?n} c1" "set (pc_nodes c1) = insert ?n (set (pc_nodes c))"
    using sel node(5) I(5) by auto
  have f1: "pc_block c1 = pc_block c" "pc_lru c1 = pc_lru c" "cache_leases c1 = cache_leases c"
    "pc_leases c1 = pc_leases c" "pc_hits c1 = pc_hits c" "pc_misses c1 = pc_misses c"
    "pc_reused c1 = pc_reused c" by (simp_all add: c1_def)
  have len_pre: "length ?pre < ?cap" using i(2) by (simp del: upt_Suc)
  have npre: "?n \<notin> set ?pre"
  proof
    assume "?n \<in> set ?pre"
    then obtain j where "j < Suc i" "?n = seq_path ?bt s j" by auto
    then show False by (metis length_seq_path less_irrefl)
  qed
  have pb: "take (min (page_tokens p) (seq_used s - i * page_tokens p)) (drop (i * page_tokens p) (seq_tokens s))
      = seq_page ?bt s i" by (simp add: seq_page_def I(2))
  have "\<exists>c2 p2 rest'. (if pc_block c1 ?n \<noteq> None then Inr (touch ?n c1, p)
                else lease_node ?n ?b c1 p) = Inr (c2, p2) \<and> cache_ok ?bt ?cap {} c2 \<and>
    pool_ok (M + cache_leases c2) p2 \<and> pool_config p2 = pool_config p0 \<and> ?n \<in> set (pc_nodes c2) \<and>
    pc_lru c2 = rest' @ ?pre @ [?n] \<and> pc_block c2 \<subseteq>\<^sub>m
      (if pc_block c ?n \<noteq> None then pc_block c else (pc_block c)(?n \<mapsto> ?b)) \<and>
    length (pc_leases c2) = length (pc_leases c) \<and>
    pc_hits c2 = pc_hits c \<and> pc_misses c2 = pc_misses c \<and> pc_reused c2 = pc_reused c"
  proof (cases "pc_block c ?n")
    case None
    have "?b \<in># M" using own i(3) by auto
    moreover have "?n \<in> set (pc_nodes c1)" "pc_block c1 ?n = None" "?cap = cache_capacity p" "0 < ?cap"
      "pool_ok (M + cache_leases c1) p" "pc_lru c1 = rest @ ?pre"
      using None f1 s1(2) I(2,4,6) i(2) by (simp_all del: seq_path_Suc upt_Suc)
    ultimately obtain c2 p2 rest' where L: "lease_node ?n ?b c1 p = Inr (c2, p2)"
      "cache_ok ?bt ?cap {} c2" "pool_ok (M + cache_leases c2) p2" "pool_config p2 = pool_config p"
      "pc_lru c2 = rest' @ ?pre @ [?n]" "pc_block c2 \<subseteq>\<^sub>m (pc_block c1)(?n \<mapsto> ?b)"
      "?n \<in> set (pc_nodes c2)" "length (pc_leases c2) = length (pc_leases c1)"
      "pc_hits c2 = pc_hits c1" "pc_misses c2 = pc_misses c1" "pc_reused c2 = pc_reused c1"
      using lease_node_ok[OF s1(1) _ _ _ _ _ _ _ len_pre, of p M ?b rest] by blast
    show ?thesis
      by (rule exI[of _ c2], rule exI[of _ p2], rule exI[of _ rest'])
        (use L None f1 I(2) in \<open>simp del: seq_path_Suc upt_Suc\<close>)
  next
    case (Some x)
    have ok1: "cache_ok ?bt ?cap {} c1" using cache_ok_leased[OF s1(1)] Some f1 by simp
    have mem: "?n \<in> set (pc_lru c1)" using Some f1 cache_okD(3)[OF I(3)] by auto
    note t = cache_ok_lru[OF ok1 same_but_lru_touch[OF mem]]
    note tf = same_but_lru_fields[OF same_but_lru_touch[OF mem]]
    have "?n \<in> set rest" using mem npre f1 I(6) by auto
    then have "pc_lru (touch ?n c1) = remove1 ?n rest @ ?pre @ [?n]"
      using f1 I(6) by (simp add: touch_def lru_append_def lru_unlink_def remove1_append
          del: seq_path_Suc upt_Suc)
    then show ?thesis using t tf Some f1 I(2,4) s1(2)
      by (intro exI[of _ "touch ?n c1"] exI[of _ p] exI[of _ "remove1 ?n rest"])
        (simp del: seq_path_Suc upt_Suc)
  qed
  then obtain c2 p2 rest' where R: "(if pc_block c1 ?n \<noteq> None then Inr (touch ?n c1, p)
                else lease_node ?n ?b c1 p) = Inr (c2, p2)" "cache_ok ?bt ?cap {} c2"
    "pool_ok (M + cache_leases c2) p2" "pool_config p2 = pool_config p0" "?n \<in> set (pc_nodes c2)"
    "pc_lru c2 = rest' @ ?pre @ [?n]"
    "pc_block c2 \<subseteq>\<^sub>m (if pc_block c ?n \<noteq> None then pc_block c else (pc_block c)(?n \<mapsto> ?b))"
    "length (pc_leases c2) = length (pc_leases c)"
    "pc_hits c2 = pc_hits c" "pc_misses c2 = pc_misses c" "pc_reused c2 = pc_reused c"
    by blast
  define c3 where "c3 = c2\<lparr>pc_publication := (if length (pc_publication c2) = i
      then pc_publication c2 @ [?n] else pc_publication c2)\<rparr>"
  have node_eq: "parent @ [take (min (page_tokens p) (seq_used s - i * page_tokens p))
      (drop (i * page_tokens p) (seq_tokens s))] = ?n"
    unfolding pb I(1) by simp
  have run: "publish_page s i st = Inr (?n, c3, p2)"
    unfolding st publish_page_def Let_def prod.case node_eq c1_def[symmetric] R(1) bindE_Inr c3_def
    by (rule refl)
  have c3ok: "cache_ok ?bt ?cap {} c3" unfolding c3_def
    by (rule push_publication_ok[OF R(2,5)]) simp
  have blocks: "pc_block c0 m = Some x \<or> (\<exists>j < Suc i. m = seq_path ?bt s (Suc j) \<and> x = seq_blocks s ! j)"
    if "pc_block c2 m = Some x" for m x
  proof -
    have "(if pc_block c ?n \<noteq> None then pc_block c else (pc_block c)(?n \<mapsto> ?b)) m = Some x"
      using R(7) that by (metis domI map_le_def)
    then have "pc_block c m = Some x \<or> m = ?n \<and> x = ?b" by (auto split: if_splits)
    then show ?thesis using I(7)[of m x] less_Suc_eq by blast
  qed
  have "publish_inv M s c0 p0 (Suc i) (?n, c3, p2)"
  proof -
    have "pc_lru c3 = rest' @ map (seq_path ?bt s) [1..<Suc (Suc i)]" using R(6)
      by (simp add: c3_def del: seq_path_Suc)
    moreover have "pool_ok (M + cache_leases c3) p2" using R(3) by (simp add: c3_def)
    moreover have "pc_nodes c3 = pc_nodes c2" "pc_block c3 = pc_block c2"
      "pc_leases c3 = pc_leases c2" "pc_hits c3 = pc_hits c2" "pc_misses c3 = pc_misses c2"
      "pc_reused c3 = pc_reused c2" by (simp_all add: c3_def)
    ultimately show ?thesis unfolding publish_inv_def prod.case using c3ok R(4,5,8-11) blocks stats
      by (metis (no_types, lifting))
  qed
  then show ?thesis using run by blast
qed

lemma publish_loop_ok:
  assumes "publish_inv M s c0 p0 0 st" and "n \<le> cache_capacity p0" "n \<le> length (seq_blocks s)"
    and "\<And>i. i < n \<Longrightarrow> i * page_tokens p0 < seq_used s"
    and "0 < page_tokens p0" "length (seq_tokens s) = seq_used s" "set (seq_blocks s) \<subseteq> set_mset M"
  shows "\<exists>st'. foldE (publish_page s) [0..<n] st = Inr st' \<and> publish_inv M s c0 p0 n st'"
  using assms(2-4)
proof (induction n)
  case 0
  then show ?case using assms(1) by simp
next
  case (Suc n)
  then obtain st' where "foldE (publish_page s) [0..<n] st = Inr st'" "publish_inv M s c0 p0 n st'"
    by auto
  moreover obtain st'' where "publish_page s n st' = Inr st''" "publish_inv M s c0 p0 (Suc n) st''"
    using publish_page_ok[OF calculation(2)] Suc.prems assms(5-7) by (metis Suc_le_lessD lessI)
  ultimately show ?case by (auto simp: foldE_append)
qed

lemma publish_count:
  fixes i bt used nb cap :: nat
  assumes "0 < bt" and "i < min nb (min ((used + bt - 1) div bt) cap)"
  shows "i * bt < used"
proof -
  have "i < (used + bt - 1) div bt" using assms(2) by simp
  then have "Suc i * bt \<le> used + bt - 1" using assms(1)
    by (metis Suc_leI div_times_less_eq_dividend le_trans mult_le_mono1)
  then show ?thesis using assms(1) by simp
qed

abbreviation publish_pages :: "paged_sequence \<Rightarrow> block_pool \<Rightarrow> nat" where
  "publish_pages s p \<equiv> min (length (seq_blocks s))
     (min ((seq_used s + page_tokens p - 1) div page_tokens p) (cache_capacity p))"

lemma cache_publish_ok:
  assumes ok: "cache_ok (page_tokens p) (cache_capacity p) {} c" and p: "pool_ok (M + cache_leases c) p"
    and bt: "0 < page_tokens p" and tok: "length (seq_tokens s) = seq_used s"
    and own: "set (seq_blocks s) \<subseteq> set_mset M"
  shows "\<exists>c' p'. cache_publish s c p = Inr (c', p') \<and>
    cache_ok (page_tokens p) (cache_capacity p) {} c' \<and> pool_ok (M + cache_leases c') p' \<and>
    pool_config p' = pool_config p \<and> length (pc_leases c') = length (pc_leases c) \<and>
    pc_hits c' = pc_hits c \<and> pc_misses c' = pc_misses c \<and> pc_reused c' = pc_reused c \<and>
    (\<forall>j. 0 < j \<and> j \<le> publish_pages s p \<longrightarrow> pc_block c' (seq_path (page_tokens p) s j) \<noteq> None) \<and>
    (\<forall>m x. pc_block c' m = Some x \<longrightarrow> pc_block c m = Some x \<or>
       (\<exists>j < publish_pages s p. m = seq_path (page_tokens p) s (Suc j) \<and> x = seq_blocks s ! j))"
proof -
  let ?n = "publish_pages s p" and ?bt = "page_tokens p"
  have start: "publish_inv M s c p 0 ([], c, p)" using ok p by (simp add: publish_inv_def)
  have le: "?n \<le> cache_capacity p" "?n \<le> length (seq_blocks s)" by (simp_all del: length_greater_0_conv)
  have cnt: "i * ?bt < seq_used s" if "i < ?n" for i by (rule publish_count[OF bt that])
  obtain st' where st': "foldE (publish_page s) [0..<?n] ([], c, p) = Inr st'"
    "publish_inv M s c p ?n st'"
    using publish_loop_ok[OF start le cnt bt tok own] by blast
  obtain a d q where st: "st' = (a, d, q)" by (metis prod_cases3)
  define c' where "c' = d\<lparr>pc_publication := take ?n (pc_publication d)\<rparr>"
  have run: "cache_publish s c p = Inr (c', q)"
    using st'(1) tok by (simp add: cache_publish_def Let_def st c'_def)
  from st'(2) st obtain rest where I: "pool_config q = pool_config p"
    "cache_ok ?bt (cache_capacity p) {} d" "pool_ok (M + cache_leases d) q"
    "pc_lru d = rest @ map (seq_path ?bt s) [1..<Suc ?n]"
    "\<forall>m x. pc_block d m = Some x \<longrightarrow> pc_block c m = Some x \<or>
       (\<exists>j < ?n. m = seq_path ?bt s (Suc j) \<and> x = seq_blocks s ! j)"
    "length (pc_leases d) = length (pc_leases c)" "pc_hits d = pc_hits c"
    "pc_misses d = pc_misses c" "pc_reused d = pc_reused c"
    using st'(2) unfolding st publish_inv_def prod.case by (elim conjE exE) (rule that, assumption+)
  have path: "pc_block d (seq_path ?bt s j) \<noteq> None" if "0 < j" "j \<le> ?n" for j
  proof -
    have "1 \<le> j" "j < Suc ?n" using that(1) le_imp_less_Suc[OF that(2)] by (simp_all only: One_nat_def Suc_leI)
    then have "j \<in> set [1..<Suc ?n]" by (simp only: set_upt atLeastLessThan_iff)
    then have "seq_path ?bt s j \<in> set (pc_lru d)" unfolding I(4) set_append set_map by blast
    then show ?thesis using cache_okD(3)[OF I(2)] by auto
  qed
  have c'ok: "cache_ok ?bt (cache_capacity p) {} c'" unfolding c'_def
    by (rule cache_ok_publication_take[OF I(2)])
  have f: "pc_block c' = pc_block d" "pc_leases c' = pc_leases d" "pc_hits c' = pc_hits d"
    "pc_misses c' = pc_misses d" "pc_reused c' = pc_reused d" "cache_leases c' = cache_leases d"
    by (simp_all add: c'_def)
  have path': "\<forall>j. 0 < j \<and> j \<le> ?n \<longrightarrow> pc_block d (seq_path ?bt s j) \<noteq> None" using path by blast
  show ?thesis
    by (rule exI[of _ c'], rule exI[of _ q], intro conjI)
      (fact run c'ok I(3)[folded f] I(1) I(6-9)[folded f] path'[folded f] I(5)[folded f])+
qed

section \<open>The hint is only a hint\<close>

definition same_but_hint :: "prefix_cache \<Rightarrow> prefix_cache \<Rightarrow> bool" where
  "same_but_hint c c' \<longleftrightarrow> (\<exists>l. c' = c\<lparr>pc_publication := l\<rparr>)"

lemma same_but_hint_refl [simp]: "same_but_hint c c"
  unfolding same_but_hint_def by (rule exI[of _ "pc_publication c"]) simp

lemma same_but_hint_trans: "same_but_hint a b \<Longrightarrow> same_but_hint b c \<Longrightarrow> same_but_hint a c"
  by (auto simp: same_but_hint_def)

lemma prune_hint:
  "same_but_hint c c' \<Longrightarrow> same_but_hint (prune n pr c) (prune n pr c')"
proof (induction n pr c arbitrary: c' rule: prune.induct)
  case (1 n pr c)
  from "1.prems" obtain l where c': "c' = c\<lparr>pc_publication := l\<rparr>" by (auto simp: same_but_hint_def)
  have ch: "children c' n = children c n" "pc_block c' n = pc_block c n"
    by (simp_all add: c' children_def)
  show ?case
  proof (cases "n \<noteq> [] \<and> Some n \<noteq> pr \<and> pc_block c n = None \<and> children c n = []")
    case True
    have "same_but_hint (erase_leaf n c) (erase_leaf n c')"
      unfolding same_but_hint_def c'
      by (rule exI[of _ "pc_publication (erase_leaf n c')"]) (simp add: erase_leaf_def c')
    from "1.IH"[OF True this] show ?thesis using True ch
      by (simp add: prune.simps[of n pr c] prune.simps[of n pr c'])
  next
    case False
    then have "prune n pr c = c" "prune n pr c' = c'" using ch by (auto simp: prune.simps[of n])
    then show ?thesis using "1.prems" by simp
  qed
qed

lemma drop_node_hint:
  assumes "same_but_hint c c'"
  shows "same_but_hint (fst (drop_node n pr c p)) (fst (drop_node n pr c' p)) \<and>
    snd (drop_node n pr c p) = snd (drop_node n pr c' p)"
proof -
  from assms obtain l where c': "c' = c\<lparr>pc_publication := l\<rparr>" by (auto simp: same_but_hint_def)
  show ?thesis unfolding c' drop_node_def Let_def lru_unlink_def
    by (simp, rule prune_hint, unfold same_but_hint_def, rule exI[of _ l]) simp
qed

definition same_result ::
    "(prefix_cache \<times> block_pool) result \<Rightarrow> (prefix_cache \<times> block_pool) result \<Rightarrow> bool" where
  "same_result r r' \<longleftrightarrow> (case (r, r') of
     (Inl e, Inl e') \<Rightarrow> e = e'
   | (Inr (c, p), Inr (c', p')) \<Rightarrow> same_but_hint c c' \<and> p = p'
   | _ \<Rightarrow> False)"

lemma lease_node_hint:
  assumes "same_but_hint c c'"
  shows "same_result (lease_node n b c p) (lease_node n b c' p)"
proof -
  from assms obtain l where c': "c' = c\<lparr>pc_publication := l\<rparr>" by (auto simp: same_but_hint_def)
  have upd: "same_but_hint ((lru_append n (d\<lparr>pc_leases := (pc_leases d)[b := pc_leases d ! b + 1],
       pc_block := (pc_block d)(n \<mapsto> b)\<rparr>))\<lparr>pc_cached := pc_cached d + 1\<rparr>)
     ((lru_append n (d'\<lparr>pc_leases := (pc_leases d')[b := pc_leases d' ! b + 1],
       pc_block := (pc_block d')(n \<mapsto> b)\<rparr>))\<lparr>pc_cached := pc_cached d' + 1\<rparr>)"
    if "same_but_hint d d'" for d d'
  proof -
    from that obtain k where "d' = d\<lparr>pc_publication := k\<rparr>" by (auto simp: same_but_hint_def)
    then show ?thesis unfolding same_but_hint_def lru_append_def by (intro exI[of _ k]) simp
  qed
  show ?thesis
  proof (cases "retain b p")
    case (Inl e)
    then show ?thesis by (simp add: lease_node_def same_result_def)
  next
    case (Inr q)
    obtain d r where d: "drop_node (hd (pc_lru c)) (Some n) c q = (d, r)" by fastforce
    obtain d' r' where d': "drop_node (hd (pc_lru c)) (Some n) c' q = (d', r')" by fastforce
    have dd: "same_but_hint d d'" "r = r'"
      using drop_node_hint[OF assms, of "hd (pc_lru c)" "Some n" q] d d' by auto
    have "same_but_hint (d\<lparr>pc_evictions := pc_evictions d + 1\<rparr>) (d'\<lparr>pc_evictions := pc_evictions d' + 1\<rparr>)"
    proof -
      from dd(1) obtain k where "d' = d\<lparr>pc_publication := k\<rparr>" by (auto simp: same_but_hint_def)
      then show ?thesis unfolding same_but_hint_def by (intro exI[of _ k]) simp
    qed
    note u = upd[OF this] upd[OF assms]
    have "pc_cached c' = pc_cached c" "pc_lru c' = pc_lru c" by (simp_all add: c')
    then show ?thesis using u Inr d d' dd(2)
      by (simp add: lease_node_def same_result_def split del: if_split)
        (auto split: if_splits)
  qed
qed

lemma same_but_hint_sym: "same_but_hint c c' \<Longrightarrow> same_but_hint c' c"
  unfolding same_but_hint_def by (erule exE, rule exI[of _ "pc_publication c"]) simp

lemma select_node_hint:
  assumes "hint_ok c"
  shows "same_but_hint (add_node n c) (select_node i n c)"
proof (cases "hinted i n c")
  case True
  then have "n \<in> set (pc_nodes c)" using assms by (auto simp: hinted_def hint_ok_def)
  then show ?thesis using True by (simp add: select_node_def add_node_def)
next
  case False
  then show ?thesis unfolding select_node_def add_node_def same_but_hint_def
    by (intro exI[of _ "take i (pc_publication c)"]) simp
qed

lemma add_node_hint: "same_but_hint c c' \<Longrightarrow> same_but_hint (add_node n c) (add_node n c')"
  unfolding same_but_hint_def
  by (erule exE, rename_tac l, rule_tac x = l in exI) (simp add: add_node_def)

lemma publish_page_hint:
  assumes c: "same_but_hint c c'" and h: "hint_ok c" "hint_ok c'"
    and r: "publish_page s i (a, c, p) = Inr (b, d, q)"
    and r': "publish_page s i (a, c', p) = Inr (b', d', q')"
  shows "b = b' \<and> q = q' \<and> same_but_hint d d'"
proof -
  define n where "n = a @ [take (min (page_tokens p) (seq_used s - i * page_tokens p))
      (drop (i * page_tokens p) (seq_tokens s))]"
  define e e' where "e = select_node i n c" and "e' = select_node i n c'"
  have ee: "same_but_hint e e'" unfolding e_def e'_def
    using select_node_hint[OF h(1)] select_node_hint[OF h(2)] add_node_hint[OF c]
    by (meson same_but_hint_sym same_but_hint_trans)
  define R where "R = (if pc_block e n \<noteq> None then Inr (touch n e, p) else lease_node n (seq_blocks s ! i) e p)"
  define R' where "R' = (if pc_block e' n \<noteq> None then Inr (touch n e', p) else lease_node n (seq_blocks s ! i) e' p)"
  have tt: "same_but_hint (touch n e) (touch n e')"
  proof -
    from ee obtain l where "e' = e\<lparr>pc_publication := l\<rparr>" by (auto simp: same_but_hint_def)
    then show ?thesis unfolding same_but_hint_def touch_def lru_append_def lru_unlink_def
      by (intro exI[of _ l]) simp
  qed
  have "pc_block e' = pc_block e" using ee by (auto simp: same_but_hint_def)
  then have rr: "same_result R R'" using tt lease_node_hint[OF ee]
    unfolding R_def R'_def by (cases "pc_block e n") (simp_all add: same_result_def)
  obtain c2 p2 where R: "R = Inr (c2, p2)" and o: "b = n" "q = p2"
    "d = c2\<lparr>pc_publication := (if length (pc_publication c2) = i
                      then pc_publication c2 @ [n] else pc_publication c2)\<rparr>"
    using r unfolding publish_page_def Let_def prod.case n_def[symmetric] e_def[symmetric] R_def[symmetric]
    by auto
  obtain c2' p2' where R': "R' = Inr (c2', p2')" and o': "b' = n" "q' = p2'"
    "d' = c2'\<lparr>pc_publication := (if length (pc_publication c2') = i
                      then pc_publication c2' @ [n] else pc_publication c2')\<rparr>"
    using r' unfolding publish_page_def Let_def prod.case n_def[symmetric] e'_def[symmetric] R'_def[symmetric]
    by auto
  have "same_but_hint c2 c2'" "p2 = p2'" using rr R R' by (auto simp: same_result_def)
  then show ?thesis unfolding o o'
    by (auto simp: same_but_hint_def)
qed

lemma publish_loop_hint:
  assumes c: "same_but_hint c c'"
    and inv: "publish_inv M s c p 0 ([], c, p)" "publish_inv M s c' p 0 ([], c', p)"
    and cnt: "\<And>i. i < n \<Longrightarrow> i * page_tokens p < seq_used s"
    and le: "n \<le> cache_capacity p" "n \<le> length (seq_blocks s)"
    and bt: "0 < page_tokens p" "length (seq_tokens s) = seq_used s" "set (seq_blocks s) \<subseteq> set_mset M"
  shows "\<exists>a d d' q. foldE (publish_page s) [0..<n] ([], c, p) = Inr (a, d, q) \<and>
    foldE (publish_page s) [0..<n] ([], c', p) = Inr (a, d', q) \<and> same_but_hint d d'"
  using cnt le
proof (induction n)
  case 0
  then show ?case using c by simp
next
  case (Suc n)
  then obtain a d d' q where IH: "foldE (publish_page s) [0..<n] ([], c, p) = Inr (a, d, q)"
    "foldE (publish_page s) [0..<n] ([], c', p) = Inr (a, d', q)" "same_but_hint d d'" by auto
  have n: "n \<le> cache_capacity p" "n \<le> length (seq_blocks s)" using Suc.prems by auto
  have cn: "\<And>i. i < n \<Longrightarrow> i * page_tokens p < seq_used s" using Suc.prems by simp
  have I: "publish_inv M s c p n (a, d, q)" "publish_inv M s c' p n (a, d', q)"
    using publish_loop_ok[OF inv(1) n cn bt] publish_loop_ok[OF inv(2) n cn bt] IH by simp_all
  have h: "hint_ok d" "hint_ok d'" using I cache_okD(6) unfolding publish_inv_def by auto
  have step: "n * page_tokens p < seq_used s" "n < cache_capacity p" "n < length (seq_blocks s)"
    using Suc.prems by auto
  obtain b e r where 1: "publish_page s n (a, d, q) = Inr (b, e, r)"
    using publish_page_ok[OF I(1) step bt] by (metis prod_cases3)
  obtain b' e' r' where 2: "publish_page s n (a, d', q) = Inr (b', e', r')"
    using publish_page_ok[OF I(2) step bt] by (metis prod_cases3)
  show ?case using publish_page_hint[OF IH(3) h 1 2] IH 1 2 by (simp add: foldE_append)
qed

lemma lcp_seq_path:
  assumes tok: "length (seq_tokens s) = seq_used s"
  shows "min (n * bt) (min (seq_used s) (length (seq_tokens s @ rest) - 1)) \<le>
    lcp (concat (seq_path bt s n)) (take (length (seq_tokens s @ rest) - 1) (seq_tokens s @ rest))"
    (is "?k \<le> lcp ?a (take ?l ?p)")
proof (rule lcp_maximal)
  have k: "?k \<le> n * bt" "?k \<le> seq_used s" "?k \<le> ?l" by (auto simp only: min.cobounded1 intro: min.coboundedI2)
  have "take ?k (take (n * bt) (seq_tokens s)) = take ?k (seq_tokens s)"
    by (simp only: take_take min.absorb1[OF k(1)])
  also have "\<dots> = take ?k ?p" using k(2) tok by simp
  also have "\<dots> = take ?k (take ?l ?p)" by (simp only: take_take min.absorb1[OF k(3)])
  finally show "take ?k ?a = take ?k (take ?l ?p)" by (simp only: concat_seq_path[OF tok])
  show "?k \<le> length ?a" using k tok by (simp only: concat_seq_path[OF tok] length_take)
      (rule min.boundedI[OF k(2,1)])
  have "?k \<le> length ?p" using k(3) diff_le_self by (rule le_trans)
  then show "?k \<le> length (take ?l ?p)" using k(3) by (simp only: length_take min.bounded_iff simp_thms)
qed

section \<open>A concrete cache\<close>

text \<open>Three tokens in two pages of a live sequence; the first page is also in the cache.\<close>

definition demo_seq :: paged_sequence where
  "demo_seq = \<lparr>seq_used = 3, seq_blocks = [0, 1], seq_tokens = [5, 6, 7]\<rparr>"

definition demo_leased :: block_pool where
  "demo_leased = demo_pool\<lparr>pool_live := 2, pool_peak := 2, pool_free := [2], pool_refs := [2, 1, 0]\<rparr>"

definition demo_cache :: prefix_cache where
  "demo_cache = (mk_prefix_cache demo_pool)\<lparr>pc_nodes := [[[5, 6]]], pc_block := [[[5, 6]] \<mapsto> 0],
     pc_lru := [[[5, 6]]], pc_leases := [1, 0, 0], pc_cached := 1, pc_node_count := 1,
     pc_key_tokens := 2, pc_publication := [[[5, 6]]]\<rparr>"

lemma demo_conf [simp]: "page_tokens demo_leased = 2" "cache_capacity demo_leased = 2"
  by (simp_all add: demo_leased_def demo_pool_def demo_config_def)

lemma demo_leases [simp]: "cache_leases demo_cache = {#0#}"
  by (simp add: cache_leases_def demo_cache_def)

lemma demo_leased_ok: "pool_ok ({#0, 1#} + cache_leases demo_cache) demo_leased"
proof -
  have lt3: "b < 3 \<longleftrightarrow> b = 0 \<or> b = 1 \<or> b = 2" for b :: nat by auto
  show ?thesis
    by (auto simp: pool_ok_def demo_leased_def demo_pool_def demo_config_def lt3 numeral_2_eq_2)
qed

lemma demo_cache_ok: "cache_ok 2 2 {} demo_cache"
proof -
  have lt3: "b < 3 \<longleftrightarrow> b = 0 \<or> b = 1 \<or> b = 2" for b :: nat by auto
  have l: "length (pc_leases demo_cache) = 3" by (simp add: demo_cache_def)
  have "\<forall>b < length (pc_leases demo_cache). pc_leases demo_cache ! b = count (cache_leases demo_cache) b"
    unfolding l lt3 by (auto simp: demo_cache_def cache_leases_def numeral_2_eq_2)
  moreover have "hint_ok demo_cache" by (simp add: hint_ok_def demo_cache_def)
  moreover have "trie_shape 2 demo_cache" by (simp add: trie_shape_def demo_cache_def)
  moreover have "\<forall>n \<in> set (pc_nodes demo_cache). butlast n = []" "dom (pc_block demo_cache) = {[[5, 6]]}"
    "pc_nodes demo_cache = [[[5, 6]]]" "pc_lru demo_cache = [[[5, 6]]]" "pc_cached demo_cache = 1"
    "pc_node_count demo_cache = 1" "pc_key_tokens demo_cache = 2" "pc_block demo_cache [[5, 6]] = Some 0"
    by (simp_all add: demo_cache_def)
  ultimately show ?thesis by (simp add: cache_ok_def)
qed

section \<open>The pages a published sequence gets back\<close>

lemma sum_full: "\<forall>e \<in> set xs. length e = bt \<Longrightarrow> length (concat xs) = length xs * bt"
  by (induction xs) auto

lemma sum_at_most: "\<forall>e \<in> set xs. length e \<le> bt \<Longrightarrow> length (concat xs) \<le> length xs * bt"
  by (induction xs) auto

lemma matched_path:
  assumes tok: "length (seq_tokens s) = seq_used s" and bt: "0 < bt"
    and n: "take cnt (concat n) = take cnt (seq_tokens s @ rest)" "cnt \<le> length (concat n)"
      "\<forall>e \<in> set (butlast n). length e = bt" "\<forall>e \<in> set n. length e \<le> bt"
    and j: "j * bt \<le> cnt" "j * bt \<le> seq_used s"
  shows "j \<le> length n \<and> take j n = seq_path bt s j"
proof -
  have "j * bt \<le> length n * bt" using sum_at_most[OF n(4)] n(2) j(1) by linarith
  then have jn: "j \<le> length n" using bt by simp
  have full: "\<forall>e \<in> set (take j n). length e = bt"
  proof (cases "j < length n")
    case True
    then have "take j n = take j (butlast n)" by (simp add: take_butlast)
    then show ?thesis using n(3) by (metis in_set_takeD)
  next
    case False
    then have all: "take j n = n" "j = length n" using jn by simp_all
    show ?thesis
    proof (cases "n = []")
      case False
      then have split: "n = butlast n @ [last n]" by simp
      have "length (concat (butlast n @ [last n])) = length (concat (butlast n)) + length (last n)" by simp
      then have c: "length (concat n) = (length n - 1) * bt + length (last n)" using sum_full[OF n(3)] split by simp
      have "(length n - 1 + 1) * bt \<le> length (concat n)" using j(1) n(2) all(2) False by simp
      then have "bt \<le> length (last n)" using c by simp
      then have "length (last n) = bt" using n(4) False by (simp add: le_antisym)
      then have "\<forall>e \<in> set (butlast n @ [last n]). length e = bt" using n(3) by auto
      then show ?thesis using split all(1) by simp
    qed simp
  qed
  have len: "length (concat (take j n)) = j * bt" using sum_full[OF full] jn by simp
  have "concat n = concat (take j n) @ concat (drop j n)" by (metis append_take_drop_id concat_append)
  then have "concat (take j n) = take (j * bt) (concat n)" using len by simp
  also have "\<dots> = take (j * bt) (take cnt (concat n))" by (simp only: take_take min.absorb1[OF j(1)])
  also have "\<dots> = take (j * bt) (seq_tokens s @ rest)" by (simp only: n(1) take_take min.absorb1[OF j(1)])
  also have "\<dots> = concat (seq_path bt s j)" using j(2) tok by (simp add: concat_seq_path)
  finally have eq: "concat (take j n) = concat (seq_path bt s j)" .
  have "\<forall>(x, y) \<in> set (zip (take j n) (seq_path bt s j)). length x = length y"
    using full seq_path_full[OF tok j(2)] by (auto dest: set_zip_leftD set_zip_rightD)
  then have "take j n = seq_path bt s j" using concat_eq_concat_iff[of "take j n" "seq_path bt s j"] eq jn by simp
  then show ?thesis using jn by blast
qed

section \<open>Properties\<close>

text \<open>
  C6: the prefix cache is sound and complete as a cache. Publishing a sequence whose pages it leases succeeds, keeps
  the cache invariant and the page accounting, and creates no entry except page \<open>j\<close> of the sequence's own tokens
  mapped to its own physical page \<open>j\<close>. Afterwards a lookup of any prompt that starts with the sequence's tokens
  succeeds and matches at least all published tokens, up to the last prompt token, which is always left to compute.
  The sequence it returns holds exactly the matched tokens of the prompt and the pages of a cached chain whose tokens
  begin with them, one page per started page of tokens, each leased once more; and every complete published page
  among them is the physical page the cache holds for that page of the published sequence.
\<close>

theorem publish_then_reuse:
  assumes "cache_ok (page_tokens p) (cache_capacity p) {} c" and "pool_ok (M + cache_leases c) p"
    and "length (seq_tokens s) = seq_used s" and "set (seq_blocks s) \<subseteq> set_mset M"
    and "cache_capacity p \<noteq> 0"
  shows "\<exists>c' p'. cache_publish s c p = Inr (c', p') \<and>
    cache_ok (page_tokens p) (cache_capacity p) {} c' \<and> pool_ok (M + cache_leases c') p' \<and>
    (\<forall>m x. pc_block c' m = Some x \<longrightarrow> pc_block c m = Some x \<or>
       (\<exists>j < publish_pages s p. m = seq_path (page_tokens p) s (Suc j) \<and> x = seq_blocks s ! j)) \<and>
    (\<forall>rest. let prompt = seq_tokens s @ rest in
       \<exists>cnt s' c'' p'' n. cache_reuse empty_sequence prompt c' p' = Inr (cnt, s', c'', p'') \<and>
         min (publish_pages s p * page_tokens p) (min (seq_used s) (length prompt - 1)) \<le> cnt \<and> cnt \<le> length prompt - 1 \<and>
         seq_used s' = cnt \<and> seq_tokens s' = take cnt prompt \<and> length (seq_blocks s') = ceil_div cnt (page_tokens p) \<and>
         path_pages c' n (seq_blocks s') \<and> cnt \<le> length (concat n) \<and> take cnt (concat n) = take cnt prompt \<and>
         (\<forall>j. Suc j * page_tokens p \<le> min cnt (seq_used s) \<longrightarrow>
            pc_block c' (seq_path (page_tokens p) s (Suc j)) = Some (seq_blocks s' ! j)) \<and>
         pool_ok (M + mset (seq_blocks s') + cache_leases c'') p'' \<and> pc_block c'' = pc_block c')"
proof -
  have bt: "0 < page_tokens p" using pool_okD(6)[OF assms(2)] .
  let ?bt = "page_tokens p" and ?n = "publish_pages s p"
  obtain c' p' where P: "cache_publish s c p = Inr (c', p')"
    "cache_ok ?bt (cache_capacity p) {} c'" "pool_ok (M + cache_leases c') p'"
    "pool_config p' = pool_config p"
    "\<forall>j. 0 < j \<and> j \<le> ?n \<longrightarrow> pc_block c' (seq_path ?bt s j) \<noteq> None"
    "\<forall>m x. pc_block c' m = Some x \<longrightarrow> pc_block c m = Some x \<or>
       (\<exists>j < ?n. m = seq_path ?bt s (Suc j) \<and> x = seq_blocks s ! j)"
    using cache_publish_ok[OF assms(1,2) bt assms(3,4)] by blast
  have av: "avail_path c' (seq_path ?bt s ?n)" unfolding avail_path_def
  proof (intro allI impI)
    fix i assume i: "0 < i \<and> i \<le> length (seq_path ?bt s ?n)"
    then have "i \<le> ?n" by (simp only: length_seq_path)
    then show "pc_block c' (take i (seq_path ?bt s ?n)) \<noteq> None"
      using P(5)[rule_format, of i] i by (simp only: take_seq_path simp_thms)
  qed
  have empty: "seq_used empty_sequence = 0" "seq_blocks empty_sequence = []"
    "seq_tokens empty_sequence = []" by (simp_all add: empty_sequence_def)
  have ok': "cache_ok (page_tokens p') (cache_capacity p) {} c'" and bt': "0 < page_tokens p'"
    and cap': "cache_capacity p' \<noteq> 0" and pt: "page_tokens p' = ?bt" using P(2,4) bt assms(5) by simp_all
  have "\<exists>cnt s' c'' p'' n. cache_reuse empty_sequence prompt c' p' = Inr (cnt, s', c'', p'') \<and>
         min (?n * ?bt) (min (seq_used s) (length prompt - 1)) \<le> cnt \<and> cnt \<le> length prompt - 1 \<and>
         seq_used s' = cnt \<and> seq_tokens s' = take cnt prompt \<and> length (seq_blocks s') = ceil_div cnt ?bt \<and>
         path_pages c' n (seq_blocks s') \<and> cnt \<le> length (concat n) \<and> take cnt (concat n) = take cnt prompt \<and>
         (\<forall>j. Suc j * ?bt \<le> min cnt (seq_used s) \<longrightarrow> pc_block c' (seq_path ?bt s (Suc j)) = Some (seq_blocks s' ! j)) \<and>
         pool_ok (M + mset (seq_blocks s') + cache_leases c'') p'' \<and> pc_block c'' = pc_block c'"
    if prompt: "prompt = seq_tokens s @ rest" for prompt rest
  proof -
    obtain cnt s' c'' p'' n where R: "cache_reuse empty_sequence prompt c' p' = Inr (cnt, s', c'', p'')"
      and S: "path_pages c' n (seq_blocks s')" "cnt \<le> length prompt - 1" "seq_used s' = cnt" "seq_tokens s' = take cnt prompt"
        "take cnt (concat n) = take cnt prompt" "cnt \<le> length (concat n)" "\<forall>e \<in> set (butlast n). length e = ?bt"
        "length (seq_blocks s') = ceil_div cnt ?bt" "pc_block c'' = pc_block c'"
        "pool_ok (M + mset (seq_blocks s') + cache_leases c'') p''"
      using cache_reuse_ok[OF ok' P(3) bt' cap' empty, of prompt] unfolding pt by blast
    obtain pages d where l: "reuse_loop ?bt prompt (length prompt - 1) 0 [] [] c' = (cnt, pages, d)"
      using R P(4) cap' by (auto simp: cache_reuse_def Let_def empty_sequence_def split: prod.splits)
    have "lcp (concat (seq_path ?bt s ?n)) (take (length prompt - 1) prompt) \<le> cnt"
      using reuse_loop_longest[OF cache_okD(1)[OF P(2)] bt _ _ _ l, of "seq_path ?bt s ?n"] av
      by (simp only: take0 append_Nil drop_0 concat.simps add_0 simp_thms le0 diff_le_self)
    moreover have "min (?n * ?bt) (min (seq_used s) (length prompt - 1)) \<le>
        lcp (concat (seq_path ?bt s ?n)) (take (length prompt - 1) prompt)"
      unfolding prompt by (rule lcp_seq_path[OF assms(3)])
    ultimately have least: "min (?n * ?bt) (min (seq_used s) (length prompt - 1)) \<le> cnt" by (rule le_trans[rotated])
    have short: "\<forall>e \<in> set n. length e \<le> ?bt"
    proof (cases "n = []")
      case False
      then have "pc_block c' n \<noteq> None" using path_pages_avail[OF S(1)] by (auto simp: avail_path_def dest: spec[of _ "length n"])
      then have "n \<in> set (pc_nodes c')" using cache_okD(1)[OF P(2)] by (auto simp: trie_shape_def)
      then have "length (last n) \<le> ?bt" using cache_okD(1)[OF P(2)] by (simp add: trie_shape_def)
      then have "\<forall>e \<in> set (butlast n @ [last n]). length e \<le> ?bt" using S(7) by auto
      then show ?thesis using False by simp
    qed simp
    have "pc_block c' (seq_path ?bt s (Suc j)) = Some (seq_blocks s' ! j)" if "Suc j * ?bt \<le> min cnt (seq_used s)" for j
    proof -
      have "Suc j * ?bt \<le> cnt" "Suc j * ?bt \<le> seq_used s" using that by (simp_all only: min.bounded_iff)
      from matched_path[OF assms(3) bt S(5)[unfolded prompt] S(6,7) short this]
      have m: "j < length n" "take (Suc j) n = seq_path ?bt s (Suc j)" by (simp_all only: Suc_le_eq)
      have "pc_block c' (take (Suc j) n) = Some (seq_blocks s' ! j)" using S(1) m(1) unfolding path_pages_def by blast
      then show ?thesis unfolding m(2) .
    qed
    then show ?thesis using R S least by blast
  qed
  then show ?thesis using P(1,2,3,6) unfolding Let_def by blast
qed

text \<open>The three tokens of the demonstration sequence come back with its own first page.\<close>

theorem publish_then_reuse_witness:
  "\<exists>c' p' cnt s' c'' p''. cache_publish demo_seq demo_cache demo_leased = Inr (c', p') \<and>
     cache_reuse empty_sequence [5, 6, 7, 8] c' p' = Inr (cnt, s', c'', p'') \<and> cnt = 3 \<and> seq_tokens s' = [5, 6, 7] \<and>
     length (seq_blocks s') = 2 \<and> seq_blocks s' ! 0 = 0"
proof -
  have tok: "length (seq_tokens demo_seq) = seq_used demo_seq"
    and own: "set (seq_blocks demo_seq) \<subseteq> set_mset {#0, 1#}" by (simp_all add: demo_seq_def)
  have pages: "min (length (seq_blocks demo_seq)) (min ((3 + 2 - 1) div 2) 2) = (2 :: nat)" by (simp add: demo_seq_def)
  have path: "seq_path 2 demo_seq (Suc 0) = [[5, 6]]" by (simp add: seq_page_def demo_seq_def)
  from publish_then_reuse[OF _ demo_leased_ok tok own] demo_cache_ok obtain c' p' where
    P: "cache_publish demo_seq demo_cache demo_leased = Inr (c', p')" and
    E: "\<forall>m x. pc_block c' m = Some x \<longrightarrow> pc_block demo_cache m = Some x \<or>
       (\<exists>j < publish_pages demo_seq demo_leased. m = seq_path (page_tokens demo_leased) demo_seq (Suc j) \<and> x = seq_blocks demo_seq ! j)" and
    R: "\<forall>rest. let prompt = seq_tokens demo_seq @ rest in
       \<exists>cnt s' c'' p'' n. cache_reuse empty_sequence prompt c' p' = Inr (cnt, s', c'', p'') \<and>
         min (publish_pages demo_seq demo_leased * page_tokens demo_leased) (min (seq_used demo_seq) (length prompt - 1)) \<le> cnt \<and>
         cnt \<le> length prompt - 1 \<and> seq_used s' = cnt \<and> seq_tokens s' = take cnt prompt \<and>
         length (seq_blocks s') = ceil_div cnt (page_tokens demo_leased) \<and>
         path_pages c' n (seq_blocks s') \<and> cnt \<le> length (concat n) \<and> take cnt (concat n) = take cnt prompt \<and>
         (\<forall>j. Suc j * page_tokens demo_leased \<le> min cnt (seq_used demo_seq) \<longrightarrow>
            pc_block c' (seq_path (page_tokens demo_leased) demo_seq (Suc j)) = Some (seq_blocks s' ! j)) \<and>
         pool_ok ({#0, 1#} + mset (seq_blocks s') + cache_leases c'') p'' \<and> pc_block c'' = pc_block c'"
    by (auto simp del: seq_path_Suc)
  have demo: "seq_tokens demo_seq @ [8] = [5, 6, 7, 8]" "seq_used demo_seq = 3" by (simp_all add: demo_seq_def)
  from R[rule_format, of "[8]", unfolded Let_def demo demo_conf, unfolded pages] obtain cnt s' c'' p'' n where
    Q: "cache_reuse empty_sequence [5, 6, 7, 8] c' p' = Inr (cnt, s', c'', p'')"
    "min (2 * 2) (min 3 (length [5, 6, 7, 8 :: int] - 1)) \<le> cnt" "cnt \<le> length [5, 6, 7, 8 :: int] - 1"
    "seq_tokens s' = take cnt [5, 6, 7, 8]" "length (seq_blocks s') = ceil_div cnt 2"
    "\<forall>j. Suc j * 2 \<le> min cnt 3 \<longrightarrow> pc_block c' (seq_path 2 demo_seq (Suc j)) = Some (seq_blocks s' ! j)" by (elim exE conjE) (rule that; assumption)
  have cnt: "cnt = 3" using Q(2,3) by simp
  have "pc_block c' [[5, 6]] = Some (seq_blocks s' ! 0)" using Q(6)[rule_format, of 0] unfolding path cnt by simp
  from E[rule_format, OF this] have "seq_blocks s' ! 0 = 0"
  proof
    assume "pc_block demo_cache [[5, 6]] = Some (seq_blocks s' ! 0)"
    then show ?thesis by (simp add: demo_cache_def)
  next
    assume "\<exists>j < publish_pages demo_seq demo_leased. [[5, 6]] = seq_path (page_tokens demo_leased) demo_seq (Suc j) \<and>
      seq_blocks s' ! 0 = seq_blocks demo_seq ! j"
    then obtain j where j: "[[5, 6]] = seq_path 2 demo_seq (Suc j)" "seq_blocks s' ! 0 = seq_blocks demo_seq ! j" by auto
    from arg_cong[OF j(1), of length] have "j = 0" by (simp only: length_seq_path) simp
    then show ?thesis using j(2) by (simp add: demo_seq_def)
  qed
  moreover have "length (seq_blocks s') = 2" "seq_tokens s' = [5, 6, 7]" using Q(4,5) cnt by (simp_all add: ceil_div_def)
  ultimately show ?thesis using P Q(1) cnt by blast
qed

text \<open>
  C7: lookup returns the longest cached prefix. On an empty sequence \<open>reuse\<close> always succeeds, and
  among all chains of leased pages none shares more tokens with the prompt (its last token
  excluded) than the returned count; the pages it hands out are those of one such chain, the
  committed tokens are exactly the matched tokens, each page is leased once more, and the entries
  of the cache do not change.
\<close>

theorem reuse_longest_prefix:
  assumes "cache_ok (page_tokens p) cap {} c" and "pool_ok (M + cache_leases c) p"
    and "cache_capacity p \<noteq> 0"
  shows "\<exists>cnt s' c' p' n. cache_reuse empty_sequence prompt c p = Inr (cnt, s', c', p') \<and>
    (\<forall>m. avail_path c m \<longrightarrow> lcp (concat m) (take (length prompt - 1) prompt) \<le> cnt) \<and>
    path_pages c n (seq_blocks s') \<and> cnt \<le> length (concat n) \<and>
    take cnt (concat n) = take cnt prompt \<and> cnt \<le> length prompt - 1 \<and>
    seq_used s' = cnt \<and> seq_tokens s' = take cnt prompt \<and>
    length (seq_blocks s') = ceil_div cnt (page_tokens p) \<and>
    pool_ok (M + mset (seq_blocks s') + cache_leases c') p' \<and>
    cache_ok (page_tokens p) cap {} c' \<and> pc_block c' = pc_block c"
proof -
  have bt: "0 < page_tokens p" using pool_okD(6)[OF assms(2)] .
  have empty: "seq_used empty_sequence = 0" "seq_blocks empty_sequence = []"
      "seq_tokens empty_sequence = []" by (simp_all add: empty_sequence_def)
  from cache_reuse_ok[OF assms(1,2) bt assms(3) empty, of prompt] obtain cnt s' c' p' n where
    R: "cache_reuse empty_sequence prompt c p = Inr (cnt, s', c', p')"
    "path_pages c n (seq_blocks s')" "cnt \<le> length prompt - 1" "seq_used s' = cnt"
    "seq_tokens s' = take cnt prompt" "take cnt (concat n) = take cnt prompt"
    "cnt \<le> length (concat n)" "length (seq_blocks s') = ceil_div cnt (page_tokens p)"
    "cache_ok (page_tokens p) cap {} c'" "pc_block c' = pc_block c"
    "pool_ok (M + mset (seq_blocks s') + cache_leases c') p'" by blast
  obtain pages d where l: "reuse_loop (page_tokens p) prompt (length prompt - 1) 0 [] [] c = (cnt, pages, d)"
    using R(1) assms(3) by (auto simp: cache_reuse_def Let_def empty_sequence_def split: prod.splits)
  have "lcp (concat m) (take (length prompt - 1) prompt) \<le> cnt" if "avail_path c m" for m
    using reuse_loop_longest[OF cache_okD(1)[OF assms(1)] bt _ _ _ l, of m] that by simp
  then show ?thesis using R by blast
qed

theorem reuse_longest_prefix_witness:
  "\<exists>cnt s' c' p'. cache_reuse empty_sequence [5, 6, 9] demo_cache demo_leased = Inr (cnt, s', c', p') \<and>
     cnt = 2 \<and> seq_tokens s' = [5, 6]"
proof -
  have av: "avail_path demo_cache [[5, 6]]" unfolding avail_path_def
  proof (intro allI impI)
    fix i assume "0 < i \<and> i \<le> length [[5, 6 :: int]]"
    then have "i = 1" by simp
    then show "pc_block demo_cache (take i [[5, 6]]) \<noteq> None" by (simp add: demo_cache_def)
  qed
  have ok: "cache_ok (page_tokens demo_leased) 2 {} demo_cache" using demo_cache_ok by simp
  from reuse_longest_prefix[OF ok demo_leased_ok, of "[5, 6, 9]"] obtain cnt s' c' p' where
    R: "cache_reuse empty_sequence [5, 6, 9] demo_cache demo_leased = Inr (cnt, s', c', p')"
    "\<forall>m. avail_path demo_cache m \<longrightarrow> lcp (concat m) [5, 6] \<le> cnt"
    "cnt \<le> 2" "seq_tokens s' = take cnt [5, 6, 9]"
    by (auto simp: numeral_2_eq_2)
  from R(2)[rule_format, OF av] have "2 \<le> cnt" by simp
  then have "cnt = 2" using R(3) by simp
  then show ?thesis using R by auto
qed

text \<open>
  C19: the publication hint is an optimisation only. Publishing the same sequence into two caches
  that differ in nothing but the hint of the last published path succeeds in both, with the same
  pool and with caches that again differ in nothing but the hint.
\<close>

theorem publish_hint_irrelevant:
  assumes "same_but_hint c c'"
    and "cache_ok (page_tokens p) (cache_capacity p) {} c"
    and "cache_ok (page_tokens p) (cache_capacity p) {} c'"
    and "pool_ok (M + cache_leases c) p"
    and "length (seq_tokens s) = seq_used s" and "set (seq_blocks s) \<subseteq> set_mset M"
  shows "\<exists>d d' q. cache_publish s c p = Inr (d, q) \<and> cache_publish s c' p = Inr (d', q) \<and>
    same_but_hint d d'"
proof -
  have bt: "0 < page_tokens p" using pool_okD(6)[OF assms(4)] .
  define n where "n = publish_pages s p"
  have l: "cache_leases c' = cache_leases c" using assms(1) by (auto simp: same_but_hint_def)
  have cnt: "i * page_tokens p < seq_used s" if "i < n" for i
    using publish_count[OF bt that[unfolded n_def]] .
  have le: "n \<le> cache_capacity p" "n \<le> length (seq_blocks s)" by (simp_all add: n_def)
  have inv: "publish_inv M s c p 0 ([], c, p)" "publish_inv M s c' p 0 ([], c', p)"
    using assms(2-4) l by (simp_all add: publish_inv_def)
  obtain a d d' q where R: "foldE (publish_page s) [0..<n] ([], c, p) = Inr (a, d, q)"
    "foldE (publish_page s) [0..<n] ([], c', p) = Inr (a, d', q)" "same_but_hint d d'"
    using publish_loop_hint[OF assms(1) inv cnt le bt assms(5,6)] by blast
  have "same_but_hint (d\<lparr>pc_publication := take n (pc_publication d)\<rparr>)
      (d'\<lparr>pc_publication := take n (pc_publication d')\<rparr>)"
    using R(3) by (auto simp: same_but_hint_def)
  moreover have "cache_publish s c p = Inr (d\<lparr>pc_publication := take n (pc_publication d)\<rparr>, q)"
    "cache_publish s c' p = Inr (d'\<lparr>pc_publication := take n (pc_publication d')\<rparr>, q)"
    unfolding cache_publish_def Let_def n_def[symmetric] using R(1,2) assms(5) by simp_all
  ultimately show ?thesis by blast
qed

theorem publish_hint_irrelevant_witness:
  "\<exists>d d' q. cache_publish demo_seq demo_cache demo_leased = Inr (d, q) \<and>
     cache_publish demo_seq (demo_cache\<lparr>pc_publication := []\<rparr>) demo_leased = Inr (d', q)"
proof -
  have h: "same_but_hint demo_cache (demo_cache\<lparr>pc_publication := []\<rparr>)"
    unfolding same_but_hint_def by blast
  have "cache_ok 2 2 {} (demo_cache\<lparr>pc_publication := take 0 (pc_publication demo_cache)\<rparr>)"
    by (rule cache_ok_publication_take[OF demo_cache_ok])
  then have "cache_ok 2 2 {} (demo_cache\<lparr>pc_publication := []\<rparr>)" by simp
  then show ?thesis
    using publish_hint_irrelevant[OF h _ _ demo_leased_ok, of demo_seq] demo_cache_ok
    by (auto simp: demo_seq_def)
qed

end
