(* ===== verification/KV_Manager.thy ===== *)
theory KV_Manager
  imports Prefix_Publish
begin

text \<open>
  \<open>KVManager\<close> of \<^verbatim>\<open>miniprefix/src/kv/kv_manager.cpp\<close> and \<^verbatim>\<open>miniprefix/include/miniprefix/kv_manager.h\<close>:
  sequence metadata, request reservations and the append transaction with its copy-on-write of a
  shared partial tail page, over the page pool and the prefix cache. Every operation is a state
  transformer that keeps its side effects when it throws (evictions, LRU touches, counters).
\<close>

section \<open>State\<close>

type_synonym request_id = string

record seq_state =
  st_sequence :: paged_sequence
  st_appending :: bool

record kv_manager =
  km_layers :: int
  km_width :: int
  km_context :: int
  km_vocabulary :: int
  km_pool :: block_pool
  km_prefix :: prefix_cache
  km_sequences :: "(request_id, seq_state) amap"
  km_forward_tokens :: nat
  km_append_active :: bool
  km_reservations :: "(request_id, nat) amap"
  km_lookup_calls :: nat
  km_publish_calls :: nat

text \<open>The transaction object; a finished one is \<open>None\<close> (its \<open>owner_\<close> is null).\<close>

record tail_copy =
  tc_source :: nat
  tc_destination :: nat
  tc_valid_tokens :: nat

record append_txn =
  ap_id :: request_id
  ap_tokens :: "int list"
  ap_original_blocks :: nat
  ap_copy :: "tail_copy option"
  ap_copied :: bool

record tail_copy_region =
  tr_destination :: nat
  tr_source :: nat
  tr_pitch :: nat
  tr_width :: nat
  tr_rows :: nat

type_synonym 'a kv_op = "(kv_manager, 'a) eff"

section \<open>Construction, lookup, checks\<close>

definition mk_manager :: "kv_config \<Rightarrow> int \<Rightarrow> int \<Rightarrow> int \<Rightarrow> int \<Rightarrow> kv_manager result" where
  "mk_manager config layers width context vocabulary =
     bindE (mk_pool config layers width) (\<lambda>p.
       if context < 1 \<or> vocabulary < 1
       then Inl (Invalid_argument ''invalid KV manager context/vocabulary'')
       else Inr \<lparr>km_layers = layers, km_width = width, km_context = context,
              km_vocabulary = vocabulary, km_pool = p, km_prefix = mk_prefix_cache p,
              km_sequences = [], km_forward_tokens = 0, km_append_active = False,
              km_reservations = [], km_lookup_calls = 0, km_publish_calls = 0\<rparr>)"

abbreviation km_config :: "kv_manager \<Rightarrow> kv_config" where
  "km_config m \<equiv> pool_config (km_pool m)"

abbreviation km_state :: "kv_manager \<Rightarrow> request_id \<Rightarrow> seq_state option" where
  "km_state m \<equiv> map_of (km_sequences m)"

definition max_sequence_blocks :: "kv_manager \<Rightarrow> nat" where
  "max_sequence_blocks m = ceil_div (nat (km_context m)) (page_tokens (km_pool m))"

definition km_contains :: "request_id \<Rightarrow> kv_manager \<Rightarrow> bool" where
  "km_contains i m \<longleftrightarrow> km_state m i \<noteq> None"

definition km_sequence :: "request_id \<Rightarrow> kv_manager \<Rightarrow> paged_sequence result" where
  "km_sequence i m =
     (case km_state m i of None \<Rightarrow> Inl (Out_of_range ''map::at'') | Some st \<Rightarrow> Inr (st_sequence st))"

definition km_offset :: "paged_sequence \<Rightarrow> nat \<Rightarrow> nat \<Rightarrow> kv_manager \<Rightarrow> nat result" where
  "km_offset s layer token m =
     pool_offset s layer token (nat (km_layers m)) (nat (km_width m)) (km_pool m)"

definition require_idle :: "kv_manager \<Rightarrow> unit result" where
  "require_idle m =
     (if km_append_active m then Inl (Logic_error ''KV append transaction is active'') else Inr ())"

definition idle_state :: "request_id \<Rightarrow> kv_manager \<Rightarrow> seq_state result" where
  "idle_state i m =
     bindE (require_idle m) (\<lambda>_.
       case km_state m i of
         None \<Rightarrow> Inl (Out_of_range ''map::at'')
       | Some st \<Rightarrow>
           if st_appending st then Inl (Logic_error ''sequence has an active KV append'')
           else Inr st)"

definition tokens_valid :: "int list \<Rightarrow> kv_manager \<Rightarrow> bool" where
  "tokens_valid tokens m \<longleftrightarrow> (\<forall>t \<in> set tokens. 0 \<le> t \<and> t < km_vocabulary m)"

definition validate_tokens :: "int list \<Rightarrow> kv_manager \<Rightarrow> unit result" where
  "validate_tokens tokens m =
     (if tokens_valid tokens m then Inr () else Inl (Invalid_argument ''invalid token''))"

text \<open>Writing a sequence back, with the pool it now leases from.\<close>

definition set_sequence :: "request_id \<Rightarrow> paged_sequence \<Rightarrow> kv_manager \<Rightarrow> kv_manager" where
  "set_sequence i s m =
     (case km_state m i of
        None \<Rightarrow> m
      | Some st \<Rightarrow> m\<lparr>km_sequences := put i (st\<lparr>st_sequence := s\<rparr>) (km_sequences m)\<rparr>)"

definition set_appending :: "request_id \<Rightarrow> bool \<Rightarrow> kv_manager \<Rightarrow> kv_manager" where
  "set_appending i b m =
     (case km_state m i of
        None \<Rightarrow> m
      | Some st \<Rightarrow> m\<lparr>km_sequences := put i (st\<lparr>st_appending := b\<rparr>) (km_sequences m),
                     km_append_active := b\<rparr>)"

section \<open>Reservations\<close>

definition seq_blocks_of :: "request_id \<times> seq_state \<Rightarrow> nat" where
  "seq_blocks_of kv = length (seq_blocks (st_sequence (snd kv)))"

definition committed_blocks :: "kv_manager \<Rightarrow> nat" where
  "committed_blocks m =
     sum_list (map snd (km_reservations m)) +
     sum_list (map seq_blocks_of
       (filter (\<lambda>kv. map_of (km_reservations m) (fst kv) = None) (km_sequences m)))"

definition reserve_request :: "request_id \<Rightarrow> nat \<Rightarrow> kv_admission kv_op" where
  "reserve_request i max_tokens m =
     (case require_idle m of
        Inl e \<Rightarrow> (Inl e, m)
      | Inr _ \<Rightarrow>
        if km_contains i m \<or> map_of (km_reservations m) i \<noteq> None
        then (Inl (Invalid_argument ''duplicate KV reservation''), m)
        else if max_tokens = 0 \<or> max_tokens > nat (km_context m)
        then (Inl (Invalid_argument ''invalid KV reservation context''), m)
        else
          let pages = 1 + (max_tokens - 1) div page_tokens (km_pool m);
              total = page_count (km_pool m); committed = committed_blocks m
          in if pages > total then (Inr Impossible, m)
             else if committed > total \<or> pages > total - committed then (Inr Wait, m)
             else (Inr Ready, m\<lparr>km_reservations := put i pages (km_reservations m)\<rparr>))"

definition release_reservation :: "request_id \<Rightarrow> kv_manager \<Rightarrow> kv_manager" where
  "release_reservation i m = m\<lparr>km_reservations := erase i (km_reservations m)\<rparr>"

section \<open>Sequences\<close>

definition km_create :: "request_id \<Rightarrow> unit kv_op" where
  "km_create i m =
     (case require_idle m of
        Inl e \<Rightarrow> (Inl e, m)
      | Inr _ \<Rightarrow>
        if km_contains i m then (Inl (Invalid_argument ''sequence already exists''), m)
        else (Inr (), m\<lparr>km_sequences :=
               put i \<lparr>st_sequence = empty_sequence, st_appending = False\<rparr> (km_sequences m)\<rparr>))"

definition fork_check ::
    "request_id \<Rightarrow> request_id \<Rightarrow> kv_manager \<Rightarrow> paged_sequence result" where
  "fork_check source target m =
     bindE (require_idle m) (\<lambda>_. bindE (km_sequence source m) (\<lambda>original.
     bindE (idle_state target m) (\<lambda>st.
       let d = st_sequence st; total = page_count (km_pool m); used = committed_blocks m in
       if source = target \<or> seq_used d \<noteq> 0 \<or> seq_blocks d \<noteq> [] \<or> seq_tokens d \<noteq> []
       then Inl (Invalid_argument ''fork requires a distinct empty target'')
       else case map_of (km_reservations m) target of
          Some r \<Rightarrow> if length (seq_blocks original) > r
                    then Inl (Kv_capacity_error ''fork exceeds KV reservation'') else Inr original
        | None \<Rightarrow> if used > total \<or> length (seq_blocks original) > total - used
                  then Inl (Kv_capacity_error ''fork exceeds unreserved KV capacity'')
                  else Inr original)))"

definition fork_sequence :: "request_id \<Rightarrow> request_id \<Rightarrow> unit kv_op" where
  "fork_sequence source target m =
     (case fork_check source target m of
        Inl e \<Rightarrow> (Inl e, m)
      | Inr snapshot \<Rightarrow>
        (case foldE retain (seq_blocks snapshot) (km_pool m) of
           Inl e \<Rightarrow> (Inl e, m)
         | Inr p \<Rightarrow> (Inr (), set_sequence target snapshot (m\<lparr>km_pool := p\<rparr>))))"

text \<open>Releasing the pages of a sequence that stays in the map.\<close>

definition release_pages :: "request_id \<Rightarrow> paged_sequence \<Rightarrow> kv_manager \<Rightarrow> kv_manager" where
  "release_pages i s m =
     (let (s', p') = pool_release s (km_pool m) in set_sequence i s' (m\<lparr>km_pool := p'\<rparr>))"

definition reuse_checks :: "request_id \<Rightarrow> int list \<Rightarrow> kv_manager \<Rightarrow> seq_state result" where
  "reuse_checks i prompt m =
     (if prompt = [] \<or> length prompt > nat (km_context m)
      then Inl (Invalid_argument ''invalid prefix context'')
      else if \<not> tokens_valid prompt m
      then Inl (Invalid_argument ''invalid prefix token'')
      else idle_state i m)"

definition reuse_prefix :: "request_id \<Rightarrow> int list \<Rightarrow> nat kv_op" where
  "reuse_prefix i prompt m =
     (case reuse_checks i prompt m of
        Inl e \<Rightarrow> (Inl e, m)
      | Inr st \<Rightarrow>
        let m1 = m\<lparr>km_lookup_calls := km_lookup_calls m + 1\<rparr> in
        (case cache_reuse (st_sequence st) prompt (km_prefix m) (km_pool m) of
           Inl e \<Rightarrow> (Inl e, m1)
         | Inr (cnt, s, c, p) \<Rightarrow>
           let m2 = set_sequence i s (m1\<lparr>km_prefix := c, km_pool := p\<rparr>) in
           if (case map_of (km_reservations m) i of None \<Rightarrow> False | Some r \<Rightarrow> length (seq_blocks s) > r)
           then (Inl (Kv_capacity_error ''request exceeds KV reservation''), release_pages i s m2)
           else if km_reservations m \<noteq> [] \<and> committed_blocks m2 > page_count p
           then (Inl (Kv_capacity_error ''KV capacity reserved by active requests''),
                 release_pages i s m2)
           else (Inr cnt, m2)))"

definition cache_prefix :: "request_id \<Rightarrow> unit kv_op" where
  "cache_prefix i m =
     (case idle_state i m of
        Inl e \<Rightarrow> (Inl e, m)
      | Inr st \<Rightarrow>
        let m1 = m\<lparr>km_publish_calls := km_publish_calls m + 1\<rparr> in
        (case cache_publish (st_sequence st) (km_prefix m) (km_pool m) of
           Inl e \<Rightarrow> (Inl e, m1)
         | Inr (c, p) \<Rightarrow> (Inr (), m1\<lparr>km_prefix := c, km_pool := p\<rparr>)))"

definition any_appending :: "kv_manager \<Rightarrow> bool" where
  "any_appending m \<longleftrightarrow> (\<exists>kv \<in> set (km_sequences m). st_appending (snd kv))"

definition clear_prefix_cache :: "unit kv_op" where
  "clear_prefix_cache m =
     (case require_idle m of
        Inl e \<Rightarrow> (Inl e, m)
      | Inr _ \<Rightarrow>
        if any_appending m
        then (Inl (Logic_error ''cannot clear prefix cache during KV append''), m)
        else let (c, p) = cache_clear (km_prefix m) (km_pool m) in
             (Inr (), m\<lparr>km_prefix := c, km_pool := p\<rparr>))"

section \<open>The append transaction\<close>

text \<open>The eviction loop of \<open>reserve_pages\<close>; \<open>tail\<close> is the last page of the sequence.\<close>

lemma drop_node_lru: "pc_lru (fst (drop_node n pr c p)) = remove1 n (pc_lru c)"
proof -
  have "pc_lru (prune n pr c') = pc_lru c'" for c' by (rule prune_simps)
  then show ?thesis by (simp add: drop_node_def Let_def lru_unlink_def)
qed

lemma evict_one_lru:
  assumes "evict_one c p = (True, c', p')"
  shows "length (pc_lru c') < length (pc_lru c)"
proof (cases "pc_lru c")
  case Nil
  then show ?thesis using assms by (simp add: evict_one_def)
next
  case (Cons n ns)
  obtain d q where d: "drop_node n None c p = (d, q)" by fastforce
  then have "pc_lru d = remove1 n (pc_lru c)" using drop_node_lru[of n None c p] by simp
  then show ?thesis using assms Cons d by (auto simp: evict_one_def)
qed

function evict_loop ::
    "nat \<Rightarrow> nat \<Rightarrow> bool \<Rightarrow> prefix_cache \<Rightarrow> block_pool \<Rightarrow> bool result \<times> prefix_cache \<times> block_pool" where
  "evict_loop required tail cow c p =
     (if free_blocks p < required + (if cow then 1 else 0)
      then case evict_one c p of
          (False, _) \<Rightarrow> (Inr cow, c, p)
        | (True, c', p') \<Rightarrow>
            if cow
            then case references tail p' of
                Inl e \<Rightarrow> (Inl e, c', p')
              | Inr r \<Rightarrow> evict_loop required tail (r \<noteq> 1) c' p'
            else evict_loop required tail cow c' p'
      else (Inr cow, c, p))"
  by pat_completeness auto
termination
  by (relation "measure (\<lambda>(_, _, _, c, _). length (pc_lru c))")
    (auto dest!: evict_one_lru[OF sym])

declare evict_loop.simps [simp del]

definition reservation_check ::
    "request_id \<Rightarrow> nat \<Rightarrow> nat \<Rightarrow> kv_manager \<Rightarrow> unit result" where
  "reservation_check i cnt required m =
     (if km_reservations m \<noteq> []
      then case map_of (km_reservations m) i of
          Some r \<Rightarrow> if cnt > r then Inl (Kv_capacity_error ''request exceeds KV reservation'') else Inr ()
        | None \<Rightarrow>
            let committed = committed_blocks m; total = page_count (km_pool m) in
            if committed > total \<or> required > total - committed
            then Inl (Kv_capacity_error ''KV capacity reserved by active requests'') else Inr ()
      else Inr ())"

text \<open>The result is what the two reference parameters hold afterwards: the \<open>cow\<close> flag and the sequence.\<close>

definition reserve_pages ::
    "request_id \<Rightarrow> paged_sequence \<Rightarrow> nat \<Rightarrow> bool \<Rightarrow> (bool \<times> paged_sequence) kv_op" where
  "reserve_pages i s end_pos cow m =
     (let cnt = ceil_div end_pos (page_tokens (km_pool m));
          required = (if cnt > length (seq_blocks s) then cnt - length (seq_blocks s) else 0)
      in case reservation_check i cnt required m of
           Inl e \<Rightarrow> (Inl e, m)
         | Inr _ \<Rightarrow>
           (case evict_loop required (last (seq_blocks s)) cow (km_prefix m) (km_pool m) of
              (Inl e, c, p) \<Rightarrow> (Inl e, m\<lparr>km_prefix := c, km_pool := p\<rparr>)
            | (Inr cow', c, p) \<Rightarrow>
              let m1 = m\<lparr>km_prefix := c, km_pool := p\<rparr> in
              if cow' \<and> free_blocks p < required + 1
              then (Inl (Kv_capacity_error ''paged KV block pool exhausted''), m1)
              else case pool_reserve s end_pos p of
                  Inl e \<Rightarrow> (Inl e, m1)
                | Inr (s', p') \<Rightarrow> (Inr (cow', s'), set_sequence i s' (m1\<lparr>km_pool := p'\<rparr>))))"

text \<open>\<open>context_ - sequence.used\<close> is an \<open>int\<close> converted to \<open>size_t\<close>.\<close>

definition append_checks ::
    "request_id \<Rightarrow> int list \<Rightarrow> kv_manager \<Rightarrow> (paged_sequence \<times> bool) result" where
  "append_checks i tokens m =
     bindE (idle_state i m) (\<lambda>st.
       let s = st_sequence st; valid = seq_used s mod page_tokens (km_pool m) in
       if tokens = [] \<or> length tokens > nat ((km_context m - int (seq_used s)) mod 2 ^ 64)
       then Inl (Invalid_argument ''context overflow/empty input'')
       else bindE (validate_tokens tokens m) (\<lambda>_.
         if valid = 0 then Inr (s, False)
         else bindE (references (last (seq_blocks s)) (km_pool m)) (\<lambda>r. Inr (s, r > 1))))"

definition prepare_append :: "request_id \<Rightarrow> int list \<Rightarrow> append_txn kv_op" where
  "prepare_append i tokens m =
     (case append_checks i tokens m of
        Inl e \<Rightarrow> (Inl e, m)
      | Inr (s, cow) \<Rightarrow>
        let original = length (seq_blocks s);
            txn = \<lparr>ap_id = i, ap_tokens = tokens, ap_original_blocks = original, ap_copy = None,
                   ap_copied = False\<rparr>
        in case reserve_pages i s (seq_used s + length tokens) cow m of
             (Inl e, m1) \<Rightarrow> (Inl e, m1)
           | (Inr (False, _), m1) \<Rightarrow> (Inr txn, set_appending i True m1)
           | (Inr (True, s1), m1) \<Rightarrow>
             (case pool_allocate (km_pool m1) of
                Inl e \<Rightarrow> (Inl e, m1)
              | Inr (replacement, p) \<Rightarrow>
                let copy = \<lparr>tc_source = seq_blocks s1 ! (original - 1), tc_destination = replacement,
                            tc_valid_tokens = seq_used s mod page_tokens (km_pool m)\<rparr>;
                    m2 = set_sequence i
                      (s1\<lparr>seq_blocks := (seq_blocks s1)[original - 1 := replacement]\<rparr>)
                      (m1\<lparr>km_pool := p\<rparr>)
                in (Inr (txn\<lparr>ap_copy := Some copy\<rparr>), set_appending i True m2)))"

text \<open>
  \<open>copy_shared_tail_region\<close> hands the callback the region of the partial tail in one K or V pool.
  \<open>copied\<close> tells whether the callback returned normally.
\<close>

definition tail_region :: "tail_copy \<Rightarrow> kv_manager \<Rightarrow> tail_copy_region" where
  "tail_region t m =
     (let pitch = page_tokens (km_pool m) * nat (km_width m); rows = nat (km_layers m) in
      \<lparr>tr_destination = tc_destination t * rows * pitch, tr_source = tc_source t * rows * pitch,
       tr_pitch = pitch, tr_width = tc_valid_tokens t * nat (km_width m), tr_rows = rows\<rparr>)"

definition copy_shared_tail_region :: "bool \<Rightarrow> append_txn \<Rightarrow> append_txn" where
  "copy_shared_tail_region callback_ok t =
     (if ap_copy t = None then t else t\<lparr>ap_copied := callback_ok\<rparr>)"

text \<open>The per-row calls of \<open>copy_shared_tail\<close>: destination, source, element count.\<close>

definition copy_shared_tail_rows :: "tail_copy_region \<Rightarrow> (nat \<times> nat \<times> nat) list" where
  "copy_shared_tail_rows r =
     map (\<lambda>row. (tr_destination r + row * tr_pitch r, tr_source r + row * tr_pitch r, tr_width r))
       [0..<tr_rows r]"

definition append_commit :: "append_txn \<Rightarrow> unit kv_op" where
  "append_commit t m =
     (if ap_copy t \<noteq> None \<and> \<not> ap_copied t
      then (Inl (Logic_error ''shared tail payload was not copied''), m)
      else case km_state m (ap_id t) of
          None \<Rightarrow> (Inr (), m)
        | Some st \<Rightarrow>
          let s = st_sequence st; n = length (ap_tokens t);
              m1 = set_sequence (ap_id t)
                (s\<lparr>seq_tokens := seq_tokens s @ ap_tokens t, seq_used := seq_used s + n\<rparr>)
                (m\<lparr>km_forward_tokens := km_forward_tokens m + n\<rparr>);
              m2 = (case ap_copy t of
                      None \<Rightarrow> m1
                    | Some copy \<Rightarrow> m1\<lparr>km_pool := unref (tc_source copy) (km_pool m1)\<rparr>)
          in (Inr (), set_appending (ap_id t) False m2))"

definition append_rollback :: "append_txn \<Rightarrow> kv_manager \<Rightarrow> kv_manager" where
  "append_rollback t m =
     (case km_state m (ap_id t) of
        None \<Rightarrow> m
      | Some st \<Rightarrow>
        let (s, p) = pool_rollback (st_sequence st) (ap_original_blocks t) (km_pool m);
            (s', p') = (case ap_copy t of
                          None \<Rightarrow> (s, p)
                        | Some copy \<Rightarrow>
                            (s\<lparr>seq_blocks := (seq_blocks s)[ap_original_blocks t - 1 := tc_source copy]\<rparr>,
                             unref (tc_destination copy) p))
        in set_appending (ap_id t) False (set_sequence (ap_id t) s' (m\<lparr>km_pool := p'\<rparr>)))"

section \<open>Reset, release, clear, statistics\<close>

definition reset_sequence :: "request_id \<Rightarrow> unit kv_op" where
  "reset_sequence i m =
     (case idle_state i m of
        Inl e \<Rightarrow> (Inl e, m)
      | Inr st \<Rightarrow> (Inr (), release_pages i (st_sequence st) m))"

definition km_release :: "request_id \<Rightarrow> unit kv_op" where
  "km_release i m =
     (case require_idle m of
        Inl e \<Rightarrow> (Inl e, m)
      | Inr _ \<Rightarrow>
        (case km_state m i of
           None \<Rightarrow> (Inl (Invalid_argument ''unknown sequence''), m)
         | Some st \<Rightarrow>
           if st_appending st
           then (Inl (Logic_error ''cannot release sequence during KV append''), m)
           else (Inr (), m\<lparr>km_pool := snd (pool_release (st_sequence st) (km_pool m)),
                  km_sequences := erase i (km_sequences m),
                  km_reservations := erase i (km_reservations m)\<rparr>)))"

definition km_clear :: "unit kv_op" where
  "km_clear m =
     (case require_idle m of
        Inl e \<Rightarrow> (Inl e, m)
      | Inr _ \<Rightarrow>
        if any_appending m
        then (Inl (Logic_error ''cannot clear sequences during KV append''), m)
        else
          let p = fold (\<lambda>kv p. snd (pool_release (st_sequence (snd kv)) p)) (km_sequences m) (km_pool m);
              (c, p') = cache_clear (km_prefix m) p
          in (Inr (), m\<lparr>km_sequences := [], km_prefix := c, km_pool := p', km_reservations := []\<rparr>))"

record kv_stats =
  ks_live_sequences :: nat
  ks_live_kv_bytes :: nat
  ks_peak_kv_bytes :: nat
  ks_forward_tokens :: nat
  ks_block_tokens :: nat
  ks_total_blocks :: nat
  ks_live_blocks :: nat
  ks_peak_blocks :: nat
  ks_reserved_bytes :: nat
  ks_prefix_capacity :: nat
  ks_cached_blocks :: nat
  ks_cache_only_blocks :: nat
  ks_prefix_hits :: nat
  ks_prefix_misses :: nat
  ks_prefix_reused_tokens :: nat
  ks_prefix_evictions :: nat

definition km_stats :: "kv_manager \<Rightarrow> kv_stats" where
  "km_stats m =
     (let p = km_pool m; c = km_prefix m in
      \<lparr>ks_live_sequences = length (km_sequences m),
       ks_live_kv_bytes = wrap64 (pool_live p * block_bytes p),
       ks_peak_kv_bytes = wrap64 (pool_peak p * block_bytes p),
       ks_forward_tokens = km_forward_tokens m,
       ks_block_tokens = page_tokens p, ks_total_blocks = page_count p,
       ks_live_blocks = pool_live p, ks_peak_blocks = pool_peak p,
       ks_reserved_bytes = pool_reserved_bytes p,
       ks_prefix_capacity = cache_capacity p, ks_cached_blocks = pc_cached c,
       ks_cache_only_blocks = cache_only_blocks c p,
       ks_prefix_hits = pc_hits c, ks_prefix_misses = pc_misses c,
       ks_prefix_reused_tokens = pc_reused c, ks_prefix_evictions = pc_evictions c\<rparr>)"

end
