(* ===== verification/KV_Inv.thy ===== *)
theory KV_Inv
  imports KV_Manager
begin

text \<open>
  The invariant of the KV manager and its preservation by every operation: page accounting (the
  pool's reference counts are exactly the page tables, the cache entries and the saved tail page of
  a running transaction), the shape of every sequence, the single transaction, and the reservation
  ledger. The parameter \<open>ap\<close> is the running append transaction, if any.
\<close>

section \<open>The invariant\<close>

definition seq_lease :: "request_id \<times> seq_state \<Rightarrow> nat multiset" where
  "seq_lease kv = mset (seq_blocks (st_sequence (snd kv)))"

definition seq_leases :: "kv_manager \<Rightarrow> nat multiset" where
  "seq_leases m = sum_list (map seq_lease (km_sequences m))"

definition txn_leases :: "append_txn option \<Rightarrow> nat multiset" where
  "txn_leases ap =
     (case ap of None \<Rightarrow> {#} | Some t \<Rightarrow>
       (case ap_copy t of None \<Rightarrow> {#} | Some c \<Rightarrow> {#tc_source c#}))"

abbreviation km_bt :: "kv_manager \<Rightarrow> nat" where
  "km_bt m \<equiv> page_tokens (km_pool m)"

text \<open>A sequence at rest, and the sequence of the running transaction.\<close>

definition rest_ok :: "nat \<Rightarrow> paged_sequence \<Rightarrow> bool" where
  "rest_ok bt s \<longleftrightarrow> length (seq_blocks s) = ceil_div (seq_used s) bt"

definition txn_ok :: "kv_manager \<Rightarrow> append_txn \<Rightarrow> paged_sequence \<Rightarrow> bool" where
  "txn_ok m t s \<longleftrightarrow>
     ap_original_blocks t = ceil_div (seq_used s) (km_bt m) \<and> ap_tokens t \<noteq> [] \<and>
     int (seq_used s + length (ap_tokens t)) \<le> km_context m \<and> tokens_valid (ap_tokens t) m \<and>
     length (seq_blocks s) = ceil_div (seq_used s + length (ap_tokens t)) (km_bt m) \<and>
     (\<forall>c. ap_copy t = Some c \<longrightarrow> 0 < ap_original_blocks t \<and>
        tc_valid_tokens c = seq_used s mod km_bt m \<and> 0 < tc_valid_tokens c \<and>
        seq_blocks s ! (ap_original_blocks t - 1) = tc_destination c)"

definition seq_ok :: "kv_manager \<Rightarrow> append_txn option \<Rightarrow> request_id \<Rightarrow> seq_state \<Rightarrow> bool" where
  "seq_ok m ap i st \<longleftrightarrow>
     length (seq_tokens (st_sequence st)) = seq_used (st_sequence st) \<and>
     int (seq_used (st_sequence st)) \<le> km_context m \<and>
     tokens_valid (seq_tokens (st_sequence st)) m \<and>
     (st_appending st \<longleftrightarrow> (\<exists>t. ap = Some t \<and> ap_id t = i)) \<and>
     (\<not> st_appending st \<longrightarrow> rest_ok (km_bt m) (st_sequence st)) \<and>
     (\<forall>t. ap = Some t \<and> ap_id t = i \<longrightarrow> txn_ok m t (st_sequence st))"

definition ledger_ok :: "kv_manager \<Rightarrow> bool" where
  "ledger_ok m \<longleftrightarrow>
     (\<forall>i r st. map_of (km_reservations m) i = Some r \<longrightarrow> km_state m i = Some st \<longrightarrow>
        length (seq_blocks (st_sequence st)) \<le> r) \<and>
     (km_reservations m \<noteq> [] \<longrightarrow> committed_blocks m \<le> page_count (km_pool m))"

definition kv_inv :: "append_txn option \<Rightarrow> kv_manager \<Rightarrow> bool" where
  "kv_inv ap m \<longleftrightarrow>
     amap_ok (km_sequences m) \<and> amap_ok (km_reservations m) \<and>
     cache_ok (km_bt m) (cache_capacity (km_pool m)) {} (km_prefix m) \<and>
     pool_ok (txn_leases ap + seq_leases m + cache_leases (km_prefix m)) (km_pool m) \<and>
     (\<forall>i st. km_state m i = Some st \<longrightarrow> seq_ok m ap i st) \<and>
     (km_append_active m \<longleftrightarrow> ap \<noteq> None) \<and>
     (\<forall>t. ap = Some t \<longrightarrow> km_state m (ap_id t) \<noteq> None) \<and>
     1 \<le> km_context m \<and> km_context m \<le> int32_max \<and> ledger_ok m"

lemma kv_invD:
  assumes "kv_inv ap m"
  shows "amap_ok (km_sequences m)" "amap_ok (km_reservations m)"
    "cache_ok (km_bt m) (cache_capacity (km_pool m)) {} (km_prefix m)"
    "pool_ok (txn_leases ap + seq_leases m + cache_leases (km_prefix m)) (km_pool m)"
    "km_state m i = Some st \<Longrightarrow> seq_ok m ap i st"
    "km_append_active m \<longleftrightarrow> ap \<noteq> None"
    "ap = Some t \<Longrightarrow> \<exists>st. km_state m (ap_id t) = Some st"
    "1 \<le> km_context m" "km_context m \<le> int32_max" "ledger_ok m" "0 < km_bt m"
  using assms pool_okD(6) by (auto simp: kv_inv_def)

text \<open>What \<open>kv_inv\<close> reads from the manager besides the maps: only these parameters.\<close>

lemma seq_ok_cong:
  "pool_config (km_pool m') = pool_config (km_pool m) \<Longrightarrow> km_context m' = km_context m \<Longrightarrow>
   km_vocabulary m' = km_vocabulary m \<Longrightarrow> seq_ok m' ap i st = seq_ok m ap i st"
  by (simp add: seq_ok_def txn_ok_def tokens_valid_def)

lemma seq_ok_rest:
  assumes "seq_ok m None i st"
  shows "length (seq_tokens (st_sequence st)) = seq_used (st_sequence st)"
    "int (seq_used (st_sequence st)) \<le> km_context m" "tokens_valid (seq_tokens (st_sequence st)) m"
    "\<not> st_appending st" "length (seq_blocks (st_sequence st)) = ceil_div (seq_used (st_sequence st)) (km_bt m)"
  using assms by (auto simp: seq_ok_def rest_ok_def)

lemma seq_okI:
  assumes "length (seq_tokens s) = seq_used s" "int (seq_used s) \<le> km_context m"
    "tokens_valid (seq_tokens s) m" "length (seq_blocks s) = ceil_div (seq_used s) (km_bt m)"
  shows "seq_ok m None i \<lparr>st_sequence = s, st_appending = False\<rparr>"
  using assms by (simp add: seq_ok_def rest_ok_def)

section \<open>Page tables and the ledger under map updates\<close>

lemma seq_lease_le: "km_state m i = Some st \<Longrightarrow> mset (seq_blocks (st_sequence st)) \<subseteq># seq_leases m"
proof -
  assume "km_state m i = Some st"
  then have "seq_lease (i, st) \<in> set (map seq_lease (km_sequences m))"
    by (metis image_eqI list.set_map map_of_SomeD)
  then have "seq_lease (i, st) \<subseteq># seq_leases m" unfolding seq_leases_def
    by (metis in_set_conv_decomp mset_subset_eq_add_left sum_list.Cons sum_list.append
        add.left_commute)
  then show ?thesis by (simp add: seq_lease_def)
qed

lemma seq_lease_put:
  assumes "amap_ok xs" and "map_of xs i = Some st"
  shows "mset (seq_blocks (st_sequence st)) + sum_list (map seq_lease (put i st' xs)) =
    mset (seq_blocks (st_sequence st')) + sum_list (map seq_lease xs)"
  using sum_put(2)[OF assms(1,2), of seq_lease st'] by (simp add: seq_lease_def)

lemma seq_lease_new:
  assumes "amap_ok xs" and "map_of xs i = None"
  shows "sum_list (map seq_lease (put i st' xs)) =
    mset (seq_blocks (st_sequence st')) + sum_list (map seq_lease xs)"
  using sum_put(1)[OF assms(1,2), of seq_lease st'] by (simp add: seq_lease_def)

lemma seq_lease_erase:
  assumes "amap_ok xs" and "map_of xs i = Some st"
  shows "mset (seq_blocks (st_sequence st)) + sum_list (map seq_lease (erase i xs)) =
    sum_list (map seq_lease xs)"
  using sum_erase[OF assms, of seq_lease] by (simp add: seq_lease_def)

definition unreserved_blocks :: "(request_id, nat) amap \<Rightarrow> request_id \<times> seq_state \<Rightarrow> nat" where
  "unreserved_blocks rs kv = (if map_of rs (fst kv) = None then seq_blocks_of kv else 0)"

lemma committed_alt:
  "committed_blocks m = sum_list (map snd (km_reservations m)) +
     sum_list (map (unreserved_blocks (km_reservations m)) (km_sequences m))"
proof -
  have "sum_list (map seq_blocks_of (filter (\<lambda>kv. map_of rs (fst kv) = None) xs)) =
      sum_list (map (unreserved_blocks rs) xs)" for rs xs
    by (induction xs) (auto simp: unreserved_blocks_def)
  then show ?thesis by (simp add: committed_blocks_def)
qed

definition ledger_sum :: "(request_id, nat) amap \<Rightarrow> (request_id, seq_state) amap \<Rightarrow> nat" where
  "ledger_sum rs xs = sum_list (map snd rs) + sum_list (map (unreserved_blocks rs) xs)"

lemma committed_sum: "committed_blocks m = ledger_sum (km_reservations m) (km_sequences m)"
  by (simp add: committed_alt ledger_sum_def)

lemma ledger_sum_put:
  assumes "amap_ok xs" and "map_of xs i = Some st"
  shows "(if map_of rs i = None then length (seq_blocks (st_sequence st)) else 0) +
      ledger_sum rs (put i st' xs) =
    (if map_of rs i = None then length (seq_blocks (st_sequence st')) else 0) + ledger_sum rs xs"
  using sum_put(2)[OF assms(1,2), of "unreserved_blocks rs" st']
  by (auto simp: ledger_sum_def unreserved_blocks_def seq_blocks_of_def split: if_splits)

lemma ledger_sum_new:
  assumes "amap_ok xs" and "map_of xs i = None" and "seq_blocks (st_sequence st') = []"
  shows "ledger_sum rs (put i st' xs) = ledger_sum rs xs"
  using sum_put(1)[OF assms(1,2), of "unreserved_blocks rs" st'] assms(3)
  by (auto simp: ledger_sum_def unreserved_blocks_def seq_blocks_of_def)

lemma ledger_sum_reserve:
  assumes "amap_ok rs" and "map_of rs i = None" and "map_of xs i = None"
  shows "ledger_sum (put i r rs) xs = r + ledger_sum rs xs"
proof -
  have "map (unreserved_blocks (put i r rs)) xs = map (unreserved_blocks rs) xs"
  proof (rule map_cong[OF refl])
    fix kv assume "kv \<in> set xs"
    then have "fst kv \<noteq> i" using assms(3) by (auto simp: map_of_eq_None_iff)
    then show "unreserved_blocks (put i r rs) kv = unreserved_blocks rs kv"
      by (simp add: unreserved_blocks_def assms(1))
  qed
  then show ?thesis using sum_put(1)[OF assms(1,2), of snd r]
    by (simp add: ledger_sum_def del: map_eq_conv)
qed

text \<open>Dropping a reservation, with or without its sequence, never raises the commitment.\<close>

lemma sum_list_le: "(\<And>x. x \<in> set xs \<Longrightarrow> f x \<le> (g x :: nat)) \<Longrightarrow> sum_list (map f xs) \<le> sum_list (map g xs)"
  by (induction xs) (auto intro: add_mono)

lemma ledger_sum_drop:
  assumes rs: "amap_ok rs" and xs: "amap_ok xs"
    and bound: "\<And>r st. map_of rs i = Some r \<Longrightarrow> map_of xs i = Some st \<Longrightarrow>
      length (seq_blocks (st_sequence st)) \<le> r"
  shows "ledger_sum (erase i rs) xs \<le> ledger_sum rs xs"
proof (cases "map_of rs i")
  case None
  then have "erase i rs = rs" unfolding erase_def
    by (intro filter_True) (auto simp: map_of_eq_None_iff)
  then show ?thesis by simp
next
  case (Some r)
  have r: "r + sum_list (map snd (erase i rs)) = sum_list (map snd rs)"
    using sum_erase[OF rs Some, of snd] by simp
  have other: "unreserved_blocks (erase i rs) kv = unreserved_blocks rs kv" if "fst kv \<noteq> i" for kv
    using that by (simp add: unreserved_blocks_def)
  show ?thesis
  proof (cases "map_of xs i")
    case None
    then have "map (unreserved_blocks (erase i rs)) xs = map (unreserved_blocks rs) xs"
      by (intro map_cong[OF refl] other) (auto simp: map_of_eq_None_iff)
    then show ?thesis using r by (simp add: ledger_sum_def del: map_eq_conv)
  next
    case st: (Some st)
    have e: "sum_list (map (unreserved_blocks (erase i rs)) (erase i xs)) =
        sum_list (map (unreserved_blocks rs) (erase i xs))"
      by (rule arg_cong[of _ _ sum_list], rule map_cong[OF refl]) (simp add: erase_def other[unfolded erase_def])
    have "length (seq_blocks (st_sequence st)) \<le> r" by (rule bound[OF Some st])
    then show ?thesis using r e
        sum_erase[OF xs st, of "unreserved_blocks rs"]
        sum_erase[OF xs st, of "unreserved_blocks (erase i rs)"]
      by (simp add: ledger_sum_def unreserved_blocks_def seq_blocks_of_def Some split: if_splits)
  qed
qed

lemma ledger_sum_erase:
  assumes rs: "amap_ok rs" and xs: "amap_ok xs" and st: "map_of xs i = Some st"
  shows "ledger_sum (erase i rs) (erase i xs) \<le> ledger_sum rs xs"
proof -
  have e: "sum_list (map (unreserved_blocks (erase i rs)) (erase i xs)) =
      sum_list (map (unreserved_blocks rs) (erase i xs))"
    by (rule arg_cong[of _ _ sum_list], rule map_cong[OF refl])
      (simp add: erase_def unreserved_blocks_def map_of_erase[unfolded erase_def])
  have "sum_list (map snd (erase i rs)) \<le> sum_list (map snd rs)"
  proof (cases "map_of rs i")
    case None
    then have "erase i rs = rs" unfolding erase_def
      by (intro filter_True) (auto simp: map_of_eq_None_iff)
    then show ?thesis by simp
  next
    case (Some r)
    then show ?thesis using sum_erase[OF rs Some, of snd] by simp
  qed
  then show ?thesis using e sum_erase[OF xs st, of "unreserved_blocks rs"]
    by (simp add: ledger_sum_def)
qed

end
