(* ===== verification/KV_Ops.thy ===== *)
theory KV_Ops
  imports KV_Inv
begin

text \<open>
  The operations of the KV manager outside a transaction preserve its invariant: admission,
  creation, forking, prefix reuse and publication, reset, release and clearing.
\<close>

section \<open>One sequence changes\<close>

definition same_params :: "kv_manager \<Rightarrow> kv_manager \<Rightarrow> bool" where
  "same_params m m' \<longleftrightarrow> pool_config (km_pool m') = pool_config (km_pool m) \<and>
     km_context m' = km_context m \<and> km_vocabulary m' = km_vocabulary m \<and>
     km_layers m' = km_layers m \<and> km_width m' = km_width m"

lemma same_params_refl [simp]: "same_params m m"
  by (simp add: same_params_def)

lemma same_params_trans: "same_params a b \<Longrightarrow> same_params b c \<Longrightarrow> same_params a c"
  by (simp add: same_params_def)

lemma seq_ok_params: "same_params m m' \<Longrightarrow> seq_ok m' ap i st = seq_ok m ap i st"
  by (rule seq_ok_cong) (simp_all add: same_params_def)

lemma kv_inv_change:
  assumes inv: "kv_inv ap m" and par: "same_params m m'"
    and seqs: "km_sequences m' = put i st' (km_sequences m)" "km_state m i = Some st"
    and res: "km_reservations m' = km_reservations m"
    and act: "km_append_active m' \<longleftrightarrow> ap' \<noteq> None"
    and cache: "cache_ok (km_bt m) (cache_capacity (km_pool m)) {} (km_prefix m')"
    and pool: "\<And>R. seq_leases m = mset (seq_blocks (st_sequence st)) + R \<Longrightarrow>
      pool_ok (txn_leases ap' + (mset (seq_blocks (st_sequence st')) + R) + cache_leases (km_prefix m')) (km_pool m')"
    and ok: "seq_ok m ap' i st'"
    and others: "\<And>j s. j \<noteq> i \<Longrightarrow> km_state m j = Some s \<Longrightarrow> seq_ok m ap j s \<Longrightarrow> seq_ok m ap' j s"
    and owner: "\<And>t. ap' = Some t \<Longrightarrow> ap_id t = i"
    and ledger: "\<And>r. map_of (km_reservations m) i = Some r \<Longrightarrow> length (seq_blocks (st_sequence st')) \<le> r"
      "km_reservations m \<noteq> [] \<Longrightarrow> map_of (km_reservations m) i = None \<Longrightarrow>
        ledger_sum (km_reservations m) (put i st' (km_sequences m)) \<le> page_count (km_pool m)"
  shows "kv_inv ap' m'"
proof -
  note D = kv_invD[OF inv]
  have state: "km_state m' = (km_state m)(i \<mapsto> st')" using seqs(1) D(1) by simp
  obtain R where R: "seq_leases m = mset (seq_blocks (st_sequence st)) + R"
    using seq_lease_le[OF seqs(2)] by (auto elim: mset_subset_eq_exists_conv[THEN iffD1, THEN exE])
  have "mset (seq_blocks (st_sequence st)) + seq_leases m' = mset (seq_blocks (st_sequence st')) + seq_leases m"
    unfolding seq_leases_def seqs(1) by (rule seq_lease_put[OF D(1) seqs(2)])
  then have leases: "seq_leases m' = mset (seq_blocks (st_sequence st')) + R"
    using R by (simp add: union_assoc[symmetric] union_commute[of _ "mset (seq_blocks (st_sequence st))"])
  have cfg: "pool_config (km_pool m') = pool_config (km_pool m)" using par by (simp add: same_params_def)
  have sok: "seq_ok m' ap' j s" if "km_state m' j = Some s" for j s
  proof (cases "j = i")
    case True
    then show ?thesis using that ok state seq_ok_params[OF par] by simp
  next
    case False
    then show ?thesis using that others[OF False] D(5) state seq_ok_params[OF par] by simp
  qed
  have led: "ledger_ok m'" unfolding ledger_ok_def committed_sum res cfg
  proof (intro conjI allI impI)
    fix j r s assume r: "map_of (km_reservations m) j = Some r" and s: "km_state m' j = Some s"
    show "length (seq_blocks (st_sequence s)) \<le> r"
      using r s state ledger(1) D(10) unfolding ledger_ok_def by (cases "j = i") auto
  next
    assume ne: "km_reservations m \<noteq> []"
    show "ledger_sum (km_reservations m) (km_sequences m') \<le> page_count (km_pool m)"
    proof (cases "map_of (km_reservations m) i")
      case None
      then show ?thesis using ledger(2)[OF ne] seqs(1) by simp
    next
      case (Some r)
      then have "ledger_sum (km_reservations m) (km_sequences m') = ledger_sum (km_reservations m) (km_sequences m)"
        using ledger_sum_put[OF D(1) seqs(2), of "km_reservations m" st'] seqs(1) by simp
      then show ?thesis using D(10) ne by (simp add: ledger_ok_def committed_sum)
    qed
  qed
  have "km_context m' = km_context m" using par by (simp add: same_params_def)
  moreover have "\<forall>t. ap' = Some t \<longrightarrow> km_state m' (ap_id t) \<noteq> None" using owner state by simp
  moreover have "amap_ok (km_sequences m')" using seqs(1) D(1) by simp
  ultimately show ?thesis unfolding kv_inv_def
    using D(2,8,9) res cfg cache pool[OF R] leases sok act led by (simp add: add.assoc)
qed

lemma set_sequence_fields:
  assumes "km_state m i = Some st"
  shows "km_sequences (set_sequence i s m) = put i (st\<lparr>st_sequence := s\<rparr>) (km_sequences m)"
    "km_pool (set_sequence i s m) = km_pool m" "km_prefix (set_sequence i s m) = km_prefix m"
    "km_reservations (set_sequence i s m) = km_reservations m"
    "km_append_active (set_sequence i s m) = km_append_active m"
    "km_context (set_sequence i s m) = km_context m"
    "km_vocabulary (set_sequence i s m) = km_vocabulary m"
    "km_layers (set_sequence i s m) = km_layers m" "km_width (set_sequence i s m) = km_width m"
    "km_forward_tokens (set_sequence i s m) = km_forward_tokens m"
  using assms by (simp_all add: set_sequence_def)

lemma set_appending_fields:
  assumes "km_state m i = Some st"
  shows "km_sequences (set_appending i b m) = put i (st\<lparr>st_appending := b\<rparr>) (km_sequences m)"
    "km_pool (set_appending i b m) = km_pool m" "km_prefix (set_appending i b m) = km_prefix m"
    "km_reservations (set_appending i b m) = km_reservations m"
    "km_append_active (set_appending i b m) = b"
    "km_context (set_appending i b m) = km_context m"
    "km_vocabulary (set_appending i b m) = km_vocabulary m"
    "km_layers (set_appending i b m) = km_layers m" "km_width (set_appending i b m) = km_width m"
    "km_forward_tokens (set_appending i b m) = km_forward_tokens m"
  using assms by (simp_all add: set_appending_def)

text \<open>Outside a transaction, the checks succeed exactly on existing sequences.\<close>

lemma idle_state_iff:
  assumes "kv_inv None m"
  shows "idle_state i m = (case km_state m i of None \<Rightarrow> Inl (Out_of_range ''map::at'') | Some st \<Rightarrow> Inr st)"
proof (cases "km_state m i")
  case None
  then show ?thesis using kv_invD(6)[OF assms] by (simp add: idle_state_def require_idle_def)
next
  case (Some st)
  then show ?thesis using kv_invD(6)[OF assms] seq_ok_rest(4)[OF kv_invD(5)[OF assms Some]]
    by (simp add: idle_state_def require_idle_def)
qed

lemma idle_state_active: "kv_inv (Some t) m \<Longrightarrow> idle_state i m = Inl (Logic_error ''KV append transaction is active'')"
  using kv_invD(6) by (simp add: idle_state_def require_idle_def)

lemma require_idle_iff: "kv_inv ap m \<Longrightarrow> require_idle m =
    (if ap = None then Inr () else Inl (Logic_error ''KV append transaction is active''))"
  using kv_invD(6) by (simp add: require_idle_def)

text \<open>A non-transactional update of one sequence, in the form the operations below use.\<close>

lemma kv_inv_rest:
  assumes inv: "kv_inv None m" and par: "same_params m m'" and st: "km_state m i = Some st"
    and seqs: "km_sequences m' = put i (st\<lparr>st_sequence := s\<rparr>) (km_sequences m)"
    and res: "km_reservations m' = km_reservations m" and act: "\<not> km_append_active m'"
    and cache: "cache_ok (km_bt m) (cache_capacity (km_pool m)) {} (km_prefix m')"
    and pool: "\<And>R. seq_leases m = mset (seq_blocks (st_sequence st)) + R \<Longrightarrow>
      pool_ok (mset (seq_blocks s) + R + cache_leases (km_prefix m')) (km_pool m')"
    and ok: "length (seq_tokens s) = seq_used s" "int (seq_used s) \<le> km_context m"
      "tokens_valid (seq_tokens s) m" "length (seq_blocks s) = ceil_div (seq_used s) (km_bt m)"
    and ledger: "\<And>r. map_of (km_reservations m) i = Some r \<Longrightarrow> length (seq_blocks s) \<le> r"
      "km_reservations m \<noteq> [] \<Longrightarrow> map_of (km_reservations m) i = None \<Longrightarrow>
        ledger_sum (km_reservations m) (put i (st\<lparr>st_sequence := s\<rparr>) (km_sequences m)) \<le> page_count (km_pool m)"
  shows "kv_inv None m'"
proof (rule kv_inv_change[OF inv par seqs st res _ cache])
  have "\<not> st_appending st" using seq_ok_rest(4) kv_invD(5)[OF inv st] by blast
  then show "seq_ok m None i (st\<lparr>st_sequence := s\<rparr>)" using ok by (simp add: seq_ok_def rest_ok_def)
qed (use act pool ledger in \<open>simp_all add: txn_leases_def\<close>)

section \<open>Admission\<close>

lemma reserve_request_cases:
  assumes inv: "kv_inv ap m" and r: "reserve_request i n m = (res, m')"
  shows "kv_inv ap m'" "same_params m m'" "km_sequences m' = km_sequences m" "km_pool m' = km_pool m"
    "km_prefix m' = km_prefix m"
    "res = Inr Ready \<longleftrightarrow> ap = None \<and> km_state m i = None \<and> map_of (km_reservations m) i = None \<and>
       0 < n \<and> n \<le> nat (km_context m) \<and> committed_blocks m + ceil_div n (km_bt m) \<le> page_count (km_pool m)"
    "res = Inr Ready \<Longrightarrow> km_reservations m' = put i (ceil_div n (km_bt m)) (km_reservations m)"
    "res \<noteq> Inr Ready \<Longrightarrow> m' = m"
proof -
  note D = kv_invD[OF inv]
  have pages: "1 + (n - 1) div km_bt m = ceil_div n (km_bt m)" if "0 < n"
  proof -
    have "1 + (n - 1) div km_bt m = (n - 1 + km_bt m) div km_bt m"
      using div_add_self2[of "km_bt m" "n - 1"] D(11) by simp
    also have "n - 1 + km_bt m = n + km_bt m - 1" using that by simp
    finally show ?thesis using ceil_div_alt[OF D(11)] by simp
  qed
  let ?c = "ceil_div n (km_bt m)"
  have cases: "reserve_request i n m = (if ap \<noteq> None then (Inl (Logic_error ''KV append transaction is active''), m)
      else if km_state m i \<noteq> None \<or> map_of (km_reservations m) i \<noteq> None
        then (Inl (Invalid_argument ''duplicate KV reservation''), m)
        else if n = 0 \<or> n > nat (km_context m)
        then (Inl (Invalid_argument ''invalid KV reservation context''), m)
        else if ?c > page_count (km_pool m) then (Inr Impossible, m)
        else if committed_blocks m + ?c > page_count (km_pool m) then (Inr Wait, m)
        else (Inr Ready, m\<lparr>km_reservations := put i ?c (km_reservations m)\<rparr>))"
    using D(6) pages by (auto simp: reserve_request_def require_idle_def km_contains_def Let_def)
  show iff: "res = Inr Ready \<longleftrightarrow> ap = None \<and> km_state m i = None \<and> map_of (km_reservations m) i = None \<and>
       0 < n \<and> n \<le> nat (km_context m) \<and> committed_blocks m + ?c \<le> page_count (km_pool m)"
    using r unfolding cases by (auto split: if_splits)
  show m': "res = Inr Ready \<Longrightarrow> km_reservations m' = put i ?c (km_reservations m)"
    using r unfolding cases by (auto split: if_splits)
  show same: "res \<noteq> Inr Ready \<Longrightarrow> m' = m" using r unfolding cases by (auto split: if_splits)
  show "km_sequences m' = km_sequences m" "km_pool m' = km_pool m" "km_prefix m' = km_prefix m" "same_params m m'"
    using r unfolding cases by (auto simp: same_params_def split: if_splits)
  show "kv_inv ap m'"
  proof (cases "res = Inr Ready")
    case False
    then show ?thesis using same inv by simp
  next
    case True
    have m'': "m' = m\<lparr>km_reservations := put i ?c (km_reservations m)\<rparr>"
      using r True unfolding cases by (auto split: if_splits)
    have "ledger_ok m'" unfolding ledger_ok_def committed_sum
    proof (intro conjI allI impI)
      fix j q s assume "map_of (km_reservations m') j = Some q" "km_state m' j = Some s"
      then show "length (seq_blocks (st_sequence s)) \<le> q"
        using D(2,10) iff True by (auto simp: m'' ledger_ok_def split: if_splits)
    next
      show "ledger_sum (km_reservations m') (km_sequences m') \<le> page_count (km_pool m')"
        using ledger_sum_reserve[OF D(2), of i "km_sequences m" ?c] iff True
        by (simp add: m'' committed_sum)
    qed
    moreover have "seq_ok m' ap j s = seq_ok m ap j s" for j s
      by (rule seq_ok_cong) (simp_all add: m'')
    ultimately show ?thesis using inv D(2) by (simp add: kv_inv_def seq_leases_def m'')
  qed
qed

lemma release_reservation_inv:
  assumes inv: "kv_inv ap m"
  shows "kv_inv ap (release_reservation i m)"
proof -
  note D = kv_invD[OF inv]
  let ?m = "release_reservation i m"
  have f: "km_sequences ?m = km_sequences m" "km_pool ?m = km_pool m"
    "km_reservations ?m = erase i (km_reservations m)" by (simp_all add: release_reservation_def)
  have le: "ledger_sum (erase i (km_reservations m)) (km_sequences m) \<le> ledger_sum (km_reservations m) (km_sequences m)"
    by (rule ledger_sum_drop[OF D(2,1)]) (use D(10) in \<open>auto simp: ledger_ok_def\<close>)
  have "km_reservations m \<noteq> []" if "erase i (km_reservations m) \<noteq> []" using that by (auto simp: erase_def)
  then have "ledger_ok ?m" using D(10) le unfolding ledger_ok_def committed_sum f
    by (auto split: if_splits)
  moreover have "seq_ok ?m ap j s = seq_ok m ap j s" for j s
    by (rule seq_ok_cong) (simp_all add: release_reservation_def)
  ultimately show ?thesis using inv erase_ok[OF D(2)]
    by (simp add: kv_inv_def seq_leases_def release_reservation_def)
qed

section \<open>Creating and forking\<close>

lemma km_create_inv:
  assumes inv: "kv_inv ap m" and r: "km_create i m = (res, m')"
  shows "kv_inv ap m'" "same_params m m'"
    "res = Inr () \<longleftrightarrow> ap = None \<and> km_state m i = None" "res \<noteq> Inr () \<Longrightarrow> m' = m"
proof -
  note D = kv_invD[OF inv]
  let ?st = "\<lparr>st_sequence = empty_sequence, st_appending = False\<rparr>"
  have cases: "km_create i m = (if ap \<noteq> None then (Inl (Logic_error ''KV append transaction is active''), m)
    else if km_state m i \<noteq> None then (Inl (Invalid_argument ''sequence already exists''), m)
    else (Inr (), m\<lparr>km_sequences := put i ?st (km_sequences m)\<rparr>))"
    using D(6) by (simp add: km_create_def require_idle_def km_contains_def)
  show iff: "res = Inr () \<longleftrightarrow> ap = None \<and> km_state m i = None"
    and same: "res \<noteq> Inr () \<Longrightarrow> m' = m" and "same_params m m'"
    using r unfolding cases by (auto simp: same_params_def split: if_splits)
  show "kv_inv ap m'"
  proof (cases "res = Inr ()")
    case False
    then show ?thesis using same inv by simp
  next
    case True
    then have ap: "ap = None" and new: "km_state m i = None"
      and m': "m' = m\<lparr>km_sequences := put i ?st (km_sequences m)\<rparr>"
      using iff r unfolding cases by auto
    have e: "seq_blocks empty_sequence = []" "seq_used empty_sequence = 0" "seq_tokens empty_sequence = []"
      by (simp_all add: empty_sequence_def)
    have "seq_leases m' = seq_leases m" unfolding seq_leases_def m'
      using seq_lease_new[OF D(1) new, of ?st] e by simp
    moreover have "seq_ok m' None j s" if "km_state m' j = Some s" for j s
    proof -
      have "seq_ok m' None j s = seq_ok m None j s" by (rule seq_ok_cong) (simp_all add: m')
      moreover have "seq_ok m None j s"
        using that D(1) D(5)[of j s] D(8) ap e unfolding m'
        by (auto simp: seq_ok_def rest_ok_def tokens_valid_def split: if_splits)
      ultimately show ?thesis by simp
    qed
    moreover have "ledger_ok m'" unfolding ledger_ok_def committed_sum
      using ledger_sum_new[OF D(1) new, of ?st "km_reservations m"] D(1,10) e
      by (auto simp: m' ledger_ok_def committed_sum split: if_splits)
    ultimately show ?thesis using inv put_ok[OF D(1), of i ?st] ap
      by (simp add: kv_inv_def m')
  qed
qed

end
