(* ===== verification/KV_Share.thy ===== *)
theory KV_Share
  imports KV_Ops
begin

text \<open>
  Sharing and giving back pages: forking, prefix reuse and publication, reset, release and clearing
  of the KV manager preserve its invariant.
\<close>

section \<open>Forking\<close>

lemma capped_ledger:
  assumes D: "amap_ok xs" "map_of xs i = Some st" and e: "seq_blocks (st_sequence st) = []"
    and n: "map_of rs i = None"
  shows "ledger_sum rs (put i st' xs) = length (seq_blocks (st_sequence st')) + ledger_sum rs xs"
  using ledger_sum_put[OF D, of rs st'] e n by simp

lemma fork_sequence_inv:
  assumes inv: "kv_inv ap m" and r: "fork_sequence a b m = (res, m')"
  shows "kv_inv ap m'" "same_params m m'" "res \<noteq> Inr () \<Longrightarrow> m' = m"
    "res = Inr () \<Longrightarrow> \<exists>sa sb. ap = None \<and> a \<noteq> b \<and> km_state m a = Some sa \<and> km_state m b = Some sb \<and>
       seq_blocks (st_sequence sb) = [] \<and> km_prefix m' = km_prefix m \<and> km_reservations m' = km_reservations m \<and>
       km_sequences m' = put b (sb\<lparr>st_sequence := st_sequence sa\<rparr>) (km_sequences m)"
proof -
  note D = kv_invD[OF inv]
  have "kv_inv ap m' \<and> same_params m m' \<and> (res \<noteq> Inr () \<longrightarrow> m' = m) \<and>
    (res = Inr () \<longrightarrow> (\<exists>sa sb. ap = None \<and> a \<noteq> b \<and> km_state m a = Some sa \<and> km_state m b = Some sb \<and>
       seq_blocks (st_sequence sb) = [] \<and> km_prefix m' = km_prefix m \<and> km_reservations m' = km_reservations m \<and>
       km_sequences m' = put b (sb\<lparr>st_sequence := st_sequence sa\<rparr>) (km_sequences m)))"
  proof (cases "fork_check a b m")
    case (Inl e)
    then show ?thesis using r inv by (auto simp: fork_sequence_def)
  next
    case (Inr s)
    have "require_idle m = Inr ()" using Inr by (auto simp: fork_check_def)
    then have ap: "ap = None" using require_idle_iff[OF inv] by (cases ap) auto
    note inv0 = inv[unfolded ap]
    from Inr obtain sa sb where sa: "km_state m a = Some sa" "s = st_sequence sa"
      and sb: "km_state m b = Some sb" and ne: "a \<noteq> b"
      and empty: "seq_used (st_sequence sb) = 0" "seq_blocks (st_sequence sb) = []" "seq_tokens (st_sequence sb) = []"
      and led: "case map_of (km_reservations m) b of Some r \<Rightarrow> length (seq_blocks s) \<le> r
         | None \<Rightarrow> committed_blocks m + length (seq_blocks s) \<le> page_count (km_pool m)"
      unfolding fork_check_def
      by (auto simp: idle_state_iff[OF inv0] km_sequence_def Let_def split: option.splits if_splits)
    have sub: "set (seq_blocks s) \<subseteq> set_mset (seq_leases m + cache_leases (km_prefix m))"
      using seq_lease_le[OF sa(1)] sa(2) by (auto dest: mset_subset_eqD)
    have pool0: "pool_ok (seq_leases m + cache_leases (km_prefix m)) (km_pool m)"
      using D(4) ap by (simp add: txn_leases_def)
    from pl.lease_all[OF pool0 sub] obtain p where
      p: "foldE retain (seq_blocks s) (km_pool m) = Inr p"
        "pool_ok (seq_leases m + cache_leases (km_prefix m) + mset (seq_blocks s)) p"
        "pool_config p = pool_config (km_pool m)" by blast
    have m': "m' = set_sequence b s (m\<lparr>km_pool := p\<rparr>)" "res = Inr ()"
      using r Inr p(1) by (simp_all add: fork_sequence_def)
    have sb': "km_state (m\<lparr>km_pool := p\<rparr>) b = Some sb" using sb by simp
    note f = set_sequence_fields[OF sb', of s, folded m'(1), simplified]
    have par: "same_params m m'" using f p(3) by (simp add: same_params_def)
    note sok = seq_ok_rest[OF kv_invD(5)[OF inv0 sa(1)], folded sa(2)]
    have "kv_inv None m'"
    proof (rule kv_inv_rest[OF inv0 par sb])
      show "km_sequences m' = put b (sb\<lparr>st_sequence := s\<rparr>) (km_sequences m)"
        "km_reservations m' = km_reservations m" "\<not> km_append_active m'"
        using f D(6) ap by simp_all
      show "cache_ok (km_bt m) (cache_capacity (km_pool m)) {} (km_prefix m')" using f D(3) by simp
      show "pool_ok (mset (seq_blocks s) + R + cache_leases (km_prefix m')) (km_pool m')"
        if "seq_leases m = mset (seq_blocks (st_sequence sb)) + R" for R
        using that empty p(2) f by (simp add: ac_simps)
      show "length (seq_tokens s) = seq_used s" "int (seq_used s) \<le> km_context m"
        "tokens_valid (seq_tokens s) m" "length (seq_blocks s) = ceil_div (seq_used s) (km_bt m)"
        using sok by simp_all
      show "length (seq_blocks s) \<le> q" if "map_of (km_reservations m) b = Some q" for q
        using led that by simp
      show "ledger_sum (km_reservations m) (put b (sb\<lparr>st_sequence := s\<rparr>) (km_sequences m)) \<le> page_count (km_pool m)"
        if "map_of (km_reservations m) b = None"
        using capped_ledger[OF D(1) sb empty(2) that, of "sb\<lparr>st_sequence := s\<rparr>"] led that
        by (simp add: committed_sum)
    qed
    then show ?thesis using par m'(2) ap ne sa sb empty f by simp
  qed
  then show "kv_inv ap m'" "same_params m m'" "res \<noteq> Inr () \<Longrightarrow> m' = m"
    "res = Inr () \<Longrightarrow> \<exists>sa sb. ap = None \<and> a \<noteq> b \<and> km_state m a = Some sa \<and> km_state m b = Some sb \<and>
       seq_blocks (st_sequence sb) = [] \<and> km_prefix m' = km_prefix m \<and> km_reservations m' = km_reservations m \<and>
       km_sequences m' = put b (sb\<lparr>st_sequence := st_sequence sa\<rparr>) (km_sequences m)"
    by simp_all
qed

section \<open>Releasing pages\<close>

lemma pool_release_seq:
  "fst (pool_release s p) = empty_sequence" "snd (pool_release s p) = fold unref (rev (seq_blocks s)) p"
  by (simp_all add: pool_release_def pool_rollback_eq empty_sequence_def)

lemma pool_release_pool:
  assumes "pool_ok (mset (seq_blocks s) + M) p"
  shows "pool_ok M (snd (pool_release s p))" "pool_config (snd (pool_release s p)) = pool_config p"
  using assms pl.give_back_all[of M "rev (seq_blocks s)" p] pl.give_back_all_conf
  by (simp_all add: pool_release_seq add.commute)

lemma release_pages_eq:
  "km_state m i = Some st \<Longrightarrow> release_pages i s m =
     m\<lparr>km_pool := snd (pool_release s (km_pool m)),
       km_sequences := put i (st\<lparr>st_sequence := empty_sequence\<rparr>) (km_sequences m)\<rparr>"
  using pool_release_seq(1)[of s "km_pool m"]
  by (cases "pool_release s (km_pool m)") (simp add: release_pages_def set_sequence_def)

lemma empty_fields [simp]: "seq_used empty_sequence = 0" "seq_blocks empty_sequence = []" "seq_tokens empty_sequence = []"
  by (simp_all add: empty_sequence_def)

lemma ledger_shrink:
  assumes "amap_ok xs" "map_of xs i = Some st" "length (seq_blocks (st_sequence st')) \<le> length (seq_blocks (st_sequence st))"
  shows "ledger_sum rs (put i st' xs) \<le> ledger_sum rs xs"
  using ledger_sum_put[OF assms(1,2), of rs st'] assms(3) by (simp split: if_splits)

lemma reset_sequence_inv:
  assumes inv: "kv_inv ap m" and r: "reset_sequence i m = (res, m')"
  shows "kv_inv ap m'" "same_params m m'" "res \<noteq> Inr () \<Longrightarrow> m' = m"
    "res = Inr () \<Longrightarrow> \<exists>st. ap = None \<and> km_state m i = Some st \<and> km_prefix m' = km_prefix m \<and>
       km_reservations m' = km_reservations m \<and>
       km_sequences m' = put i (st\<lparr>st_sequence := empty_sequence\<rparr>) (km_sequences m)"
proof -
  note D = kv_invD[OF inv]
  have "kv_inv ap m' \<and> same_params m m' \<and> (res \<noteq> Inr () \<longrightarrow> m' = m) \<and>
    (res = Inr () \<longrightarrow> (\<exists>st. ap = None \<and> km_state m i = Some st \<and> km_prefix m' = km_prefix m \<and>
       km_reservations m' = km_reservations m \<and>
       km_sequences m' = put i (st\<lparr>st_sequence := empty_sequence\<rparr>) (km_sequences m)))"
  proof (cases "idle_state i m")
    case (Inl e)
    then show ?thesis using r inv by (auto simp: reset_sequence_def)
  next
    case (Inr st)
    have ap: "ap = None" using Inr idle_state_active[of _ m i] inv by (cases ap) auto
    note inv0 = inv[unfolded ap]
    have st: "km_state m i = Some st" using Inr idle_state_iff[OF inv0, of i] by (cases "km_state m i") auto
    have m': "m' = m\<lparr>km_pool := snd (pool_release (st_sequence st) (km_pool m)),
        km_sequences := put i (st\<lparr>st_sequence := empty_sequence\<rparr>) (km_sequences m)\<rparr>" "res = Inr ()"
      using r Inr release_pages_eq[OF st] by (simp_all add: reset_sequence_def)
    have cfg: "pool_config (snd (pool_release (st_sequence st) (km_pool m))) = pool_config (km_pool m)"
      by (simp add: pool_release_seq pl.give_back_all_conf)
    have par: "same_params m m'" by (simp add: m' same_params_def cfg)
    have "kv_inv None m'"
    proof (rule kv_inv_rest[OF inv0 par st])
      show "pool_ok (mset (seq_blocks empty_sequence) + R + cache_leases (km_prefix m')) (km_pool m')"
        if "seq_leases m = mset (seq_blocks (st_sequence st)) + R" for R
        using pool_release_pool(1)[of "st_sequence st" "R + cache_leases (km_prefix m)" "km_pool m"] D(4) ap that
        by (simp add: m' txn_leases_def ac_simps)
      show "ledger_sum (km_reservations m) (put i (st\<lparr>st_sequence := empty_sequence\<rparr>) (km_sequences m)) \<le> page_count (km_pool m)"
        if "km_reservations m \<noteq> []"
        using ledger_shrink[OF D(1) st, of "st\<lparr>st_sequence := empty_sequence\<rparr>" "km_reservations m"] D(10) that
        by (simp add: ledger_ok_def committed_sum)
    qed (use D ap in \<open>simp_all add: m' tokens_valid_def\<close>)
    then show ?thesis using par m' ap st by simp
  qed
  then show "kv_inv ap m'" "same_params m m'" "res \<noteq> Inr () \<Longrightarrow> m' = m"
    "res = Inr () \<Longrightarrow> \<exists>st. ap = None \<and> km_state m i = Some st \<and> km_prefix m' = km_prefix m \<and>
       km_reservations m' = km_reservations m \<and>
       km_sequences m' = put i (st\<lparr>st_sequence := empty_sequence\<rparr>) (km_sequences m)"
    by simp_all
qed

lemma km_release_inv:
  assumes inv: "kv_inv ap m" and r: "km_release i m = (res, m')"
  shows "kv_inv ap m'" "same_params m m'" "res \<noteq> Inr () \<Longrightarrow> m' = m"
    "res = Inr () \<longleftrightarrow> ap = None \<and> km_state m i \<noteq> None"
    "res = Inr () \<Longrightarrow> km_prefix m' = km_prefix m \<and> km_sequences m' = erase i (km_sequences m) \<and>
       km_reservations m' = erase i (km_reservations m)"
proof -
  note D = kv_invD[OF inv]
  have "kv_inv ap m' \<and> same_params m m' \<and> (res \<noteq> Inr () \<longrightarrow> m' = m) \<and>
    (res = Inr () \<longleftrightarrow> ap = None \<and> km_state m i \<noteq> None) \<and>
    (res = Inr () \<longrightarrow> km_prefix m' = km_prefix m \<and> km_sequences m' = erase i (km_sequences m) \<and>
       km_reservations m' = erase i (km_reservations m))"
  proof (cases "ap = None \<and> km_state m i \<noteq> None")
    case False
    then show ?thesis using r inv D(6) by (auto simp: km_release_def require_idle_def split: if_splits)
  next
    case True
    then obtain st where st: "km_state m i = Some st" and ap: "ap = None" by auto
    note inv0 = inv[unfolded ap]
    have na: "\<not> st_appending st" using seq_ok_rest(4)[OF kv_invD(5)[OF inv0 st]] .
    let ?p = "snd (pool_release (st_sequence st) (km_pool m))"
    have m': "m' = m\<lparr>km_pool := ?p, km_sequences := erase i (km_sequences m),
        km_reservations := erase i (km_reservations m)\<rparr>" "res = Inr ()"
      using r st na D(6) ap by (simp_all add: km_release_def require_idle_def)
    have cfg: "pool_config ?p = pool_config (km_pool m)"
      by (simp add: pool_release_seq pl.give_back_all_conf)
    have leases: "seq_leases m = mset (seq_blocks (st_sequence st)) + seq_leases m'"
      unfolding seq_leases_def using seq_lease_erase[OF D(1) st] by (simp add: m')
    have pool: "pool_ok (seq_leases m' + cache_leases (km_prefix m)) ?p"
      using pool_release_pool(1)[of "st_sequence st" "seq_leases m' + cache_leases (km_prefix m)"] D(4) ap leases
      by (simp add: txn_leases_def ac_simps)
    have sok: "seq_ok m' None j s = seq_ok m None j s" for j s
      by (rule seq_ok_cong) (simp_all add: m' cfg)
    have "ledger_sum (erase i (km_reservations m)) (erase i (km_sequences m)) \<le>
        ledger_sum (km_reservations m) (km_sequences m)" by (rule ledger_sum_erase[OF D(2,1) st])
    moreover have "km_reservations m \<noteq> []" if "erase i (km_reservations m) \<noteq> []"
      using that by (auto simp: erase_def)
    ultimately have "ledger_ok m'" using D(10) unfolding ledger_ok_def committed_sum
      by (auto simp: m' cfg split: if_splits)
    then have "kv_inv None m'" using inv0 pool sok erase_ok[OF D(1)] erase_ok[OF D(2)]
      by (simp add: kv_inv_def m' cfg txn_leases_def)
    moreover have "same_params m m'" by (simp add: m' same_params_def cfg)
    ultimately show ?thesis using m' ap st by simp
  qed
  then show "kv_inv ap m'" "same_params m m'" "res \<noteq> Inr () \<Longrightarrow> m' = m"
    "res = Inr () \<longleftrightarrow> ap = None \<and> km_state m i \<noteq> None"
    "res = Inr () \<Longrightarrow> km_prefix m' = km_prefix m \<and> km_sequences m' = erase i (km_sequences m) \<and>
       km_reservations m' = erase i (km_reservations m)"
    by simp_all
qed

section \<open>The prefix cache\<close>

text \<open>
  \<open>cache_reuse\<close> of an idle sequence either throws before any effect, or answers a lookup whose
  pages come from one chain \<open>n\<close> of the cache.
\<close>

definition reuse_link :: "kv_manager \<Rightarrow> path \<Rightarrow> int list \<Rightarrow> nat \<Rightarrow> paged_sequence \<Rightarrow> bool" where
  "reuse_link m n prompt cnt s \<longleftrightarrow>
     path_pages (km_prefix m) n (seq_blocks s) \<and> cnt \<le> length prompt - 1 \<and> seq_used s = cnt \<and>
     seq_tokens s = take cnt prompt \<and> take cnt (concat n) = take cnt prompt \<and>
     cnt \<le> length (concat n) \<and> length (seq_blocks s) = ceil_div cnt (km_bt m) \<and>
     (\<forall>e \<in> set (butlast n). length e = km_bt m)"

lemma cache_reuse_link:
  assumes inv: "kv_inv None m" and st: "km_state m i = Some st"
  shows "(\<exists>e. cache_reuse (st_sequence st) prompt (km_prefix m) (km_pool m) = Inl e) \<or>
    (\<exists>cnt s c p n. cache_reuse (st_sequence st) prompt (km_prefix m) (km_pool m) = Inr (cnt, s, c, p) \<and>
      reuse_link m n prompt cnt s \<and> seq_blocks (st_sequence st) = [] \<and>
      cache_ok (km_bt m) (cache_capacity (km_pool m)) {} c \<and> cache_leases c = cache_leases (km_prefix m) \<and>
      pc_block c = pc_block (km_prefix m) \<and> pc_nodes c = pc_nodes (km_prefix m) \<and>
      pc_evictions c = pc_evictions (km_prefix m) \<and>
      pool_ok (mset (seq_blocks s) + seq_leases m + cache_leases c) p \<and>
      pool_config p = pool_config (km_pool m))"
proof (cases "seq_used (st_sequence st) \<noteq> 0 \<or> seq_blocks (st_sequence st) \<noteq> [] \<or> seq_tokens (st_sequence st) \<noteq> []")
  case True
  then show ?thesis by (simp add: cache_reuse_def)
next
  case empty: False
  note D = kv_invD[OF inv]
  have pool: "pool_ok (seq_leases m + cache_leases (km_prefix m)) (km_pool m)"
    using D(4) by (simp add: txn_leases_def)
  show ?thesis
  proof (cases "cache_capacity (km_pool m) = 0")
    case True
    have e: "cache_reuse (st_sequence st) prompt (km_prefix m) (km_pool m) =
        Inr (0, st_sequence st, km_prefix m, km_pool m)"
      using empty True by (simp add: cache_reuse_def)
    have "reuse_link m [] prompt 0 (st_sequence st)" using empty by (simp add: reuse_link_def)
    then show ?thesis using e D(3) pool empty
      by (intro disjI2 exI[of _ 0] exI[of _ "st_sequence st"] exI[of _ "km_prefix m"]
          exI[of _ "km_pool m"] exI[of _ "[]"]) simp
  next
    case False
    obtain cnt s c p n where R: "cache_reuse (st_sequence st) prompt (km_prefix m) (km_pool m) = Inr (cnt, s, c, p)"
      "path_pages (km_prefix m) n (seq_blocks s)" "cnt \<le> length prompt - 1" "seq_used s = cnt"
      "seq_tokens s = take cnt prompt" "take cnt (concat n) = take cnt prompt" "cnt \<le> length (concat n)"
      "\<forall>e \<in> set (butlast n). length e = km_bt m" "length (seq_blocks s) = ceil_div cnt (km_bt m)"
      "cache_ok (km_bt m) (cache_capacity (km_pool m)) {} c" "cache_leases c = cache_leases (km_prefix m)"
      "pc_block c = pc_block (km_prefix m)" "pc_nodes c = pc_nodes (km_prefix m)"
      "pc_evictions c = pc_evictions (km_prefix m)"
      "pool_ok (seq_leases m + mset (seq_blocks s) + cache_leases c) p" "pool_config p = pool_config (km_pool m)"
      using cache_reuse_ok[OF D(3) pool D(11) False, of "st_sequence st" prompt] empty by blast
    have "reuse_link m n prompt cnt s" using R by (simp add: reuse_link_def)
    then show ?thesis using R empty
      by (intro disjI2 exI[of _ cnt] exI[of _ s] exI[of _ c] exI[of _ p] exI[of _ n])
        (simp add: add.commute)
  qed
qed

lemma tokens_valid_take: "tokens_valid ts m \<Longrightarrow> tokens_valid (take n ts) m"
  by (auto simp: tokens_valid_def dest: in_set_takeD)

text \<open>
  The five outcomes of \<open>reuse_prefix\<close>: a check fails and nothing changes; the cache refuses a
  non-empty sequence and only the call counter moves; a ledger check fails and the sequence is empty
  again; or the lookup succeeds.
\<close>

definition reuse_outcome ::
    "append_txn option \<Rightarrow> kv_manager \<Rightarrow> request_id \<Rightarrow> int list \<Rightarrow> nat result \<Rightarrow> kv_manager \<Rightarrow> bool" where
  "reuse_outcome ap m i prompt res m' \<longleftrightarrow>
     kv_inv ap m' \<and> same_params m m' \<and> km_reservations m' = km_reservations m \<and>
     pc_block (km_prefix m') = pc_block (km_prefix m) \<and>
     (case res of
        Inl e \<Rightarrow> km_sequences m' = km_sequences m \<or>
          (\<exists>st. ap = None \<and> km_state m i = Some st \<and>
             km_sequences m' = put i (st\<lparr>st_sequence := empty_sequence\<rparr>) (km_sequences m))
      | Inr cnt \<Rightarrow> \<exists>st s n. ap = None \<and> km_state m i = Some st \<and> seq_blocks (st_sequence st) = [] \<and>
          prompt \<noteq> [] \<and> reuse_link m n prompt cnt s \<and>
          km_sequences m' = put i (st\<lparr>st_sequence := s\<rparr>) (km_sequences m))"

lemma reuse_prefix_inv:
  assumes inv: "kv_inv ap m" and r: "reuse_prefix i prompt m = (res, m')"
  shows "reuse_outcome ap m i prompt res m'"
proof (cases "reuse_checks i prompt m")
  case (Inl e)
  then show ?thesis using r inv by (auto simp: reuse_prefix_def reuse_outcome_def)
next
  case (Inr st)
  note D = kv_invD[OF inv]
  have pr: "prompt \<noteq> []" "length prompt \<le> nat (km_context m)" "tokens_valid prompt m"
    "idle_state i m = Inr st" using Inr by (auto simp: reuse_checks_def split: if_splits)
  have ap: "ap = None" using pr(4) idle_state_active[of _ m i] inv by (cases ap) auto
  note inv0 = inv[unfolded ap]
  have st: "km_state m i = Some st" using pr(4) idle_state_iff[OF inv0, of i] by (cases "km_state m i") auto
  let ?m1 = "m\<lparr>km_lookup_calls := km_lookup_calls m + 1\<rparr>"
  have m1inv: "kv_inv ap ?m1"
  proof -
    have "seq_ok ?m1 ap j s = seq_ok m ap j s" for j s by (rule seq_ok_cong) simp_all
    moreover have "ledger_ok ?m1" using D(10) by (simp add: ledger_ok_def committed_blocks_def)
    ultimately show ?thesis using inv by (simp add: kv_inv_def seq_leases_def)
  qed
  from cache_reuse_link[OF inv0 st, of prompt] show ?thesis
  proof (elim disjE exE conjE)
    fix e assume "cache_reuse (st_sequence st) prompt (km_prefix m) (km_pool m) = Inl e"
    then show ?thesis using r Inr m1inv
      by (auto simp: reuse_prefix_def reuse_outcome_def same_params_def)
  next
    fix cnt s c p n
    assume R: "cache_reuse (st_sequence st) prompt (km_prefix m) (km_pool m) = Inr (cnt, s, c, p)"
      and link: "reuse_link m n prompt cnt s" and empty: "seq_blocks (st_sequence st) = []"
      and c: "cache_ok (km_bt m) (cache_capacity (km_pool m)) {} c" "pc_block c = pc_block (km_prefix m)"
      and p: "pool_ok (mset (seq_blocks s) + seq_leases m + cache_leases c) p"
        "pool_config p = pool_config (km_pool m)"
    define m2 where "m2 = set_sequence i s (?m1\<lparr>km_prefix := c, km_pool := p\<rparr>)"
    have "km_state (?m1\<lparr>km_prefix := c, km_pool := p\<rparr>) i = Some st" using st by simp
    note f = set_sequence_fields[OF this, of s, folded m2_def, simplified]
    have par2: "same_params m m2" using f p(2) by (simp add: same_params_def)
    have put_put: "put i x (put i y (km_sequences m)) = put i x (km_sequences m)" for x y
    proof -
      have "put i x (put i y xs) = put i x xs" if "amap_ok xs" for xs
        using that by (induction xs) auto
      then show ?thesis using D(1) by blast
    qed
    define m3 where "m3 = release_pages i s m2"
    have st2: "km_state m2 i = Some (st\<lparr>st_sequence := s\<rparr>)" using f(1) D(1) by simp
    have m3: "m3 = m2\<lparr>km_pool := snd (pool_release s p),
        km_sequences := put i (st\<lparr>st_sequence := empty_sequence\<rparr>) (km_sequences m)\<rparr>"
      unfolding m3_def release_pages_eq[OF st2] using f(1,2) put_put by simp
    have cfg3: "pool_config (snd (pool_release s p)) = pool_config (km_pool m)"
      using p(2) by (simp add: pool_release_seq pl.give_back_all_conf)
    have inv3: "kv_inv None m3"
    proof (rule kv_inv_rest[OF inv0 _ st])
      show "pool_ok (mset (seq_blocks empty_sequence) + R + cache_leases (km_prefix m3)) (km_pool m3)"
        if "seq_leases m = mset (seq_blocks (st_sequence st)) + R" for R
        using pool_release_pool(1)[of s "R + cache_leases c" p] p(1) that empty
        by (simp add: m3 f ac_simps)
      show "ledger_sum (km_reservations m) (put i (st\<lparr>st_sequence := empty_sequence\<rparr>) (km_sequences m)) \<le> page_count (km_pool m)"
        if "km_reservations m \<noteq> []"
        using ledger_shrink[OF D(1) st, of "st\<lparr>st_sequence := empty_sequence\<rparr>" "km_reservations m"] D(10) that
        by (simp add: ledger_ok_def committed_sum)
    qed (use D c p f ap cfg3 in \<open>simp_all add: m3 same_params_def tokens_valid_def\<close>)
    have out3: "reuse_outcome ap m i prompt (Inl e) m3" for e
      unfolding reuse_outcome_def using inv3 ap st f cfg3 c by (simp add: m3 same_params_def)
    have run: "reuse_prefix i prompt m =
      (if (case map_of (km_reservations m) i of None \<Rightarrow> False | Some r \<Rightarrow> length (seq_blocks s) > r)
       then (Inl (Kv_capacity_error ''request exceeds KV reservation''), m3)
       else if km_reservations m \<noteq> [] \<and> committed_blocks m2 > page_count p
       then (Inl (Kv_capacity_error ''KV capacity reserved by active requests''), m3)
       else (Inr cnt, m2))"
      unfolding reuse_prefix_def Inr sum.case Let_def R prod.case m2_def[symmetric] m3_def[symmetric]
      by (rule refl)
    show ?thesis
    proof (cases "(case map_of (km_reservations m) i of None \<Rightarrow> False | Some r \<Rightarrow> length (seq_blocks s) > r) \<or>
        (km_reservations m \<noteq> [] \<and> committed_blocks m2 > page_count p)")
      case True
      then obtain e where "(res, m') = (Inl e, m3)" using r unfolding run by (metis (no_types, lifting))
      then show ?thesis using out3 by simp
    next
      case False
      then have res: "res = Inr cnt" "m' = m2" using r unfolding run
        by (simp_all del: option.case split: if_split_asm)
      have com: "committed_blocks m2 = ledger_sum (km_reservations m) (put i (st\<lparr>st_sequence := s\<rparr>) (km_sequences m))"
        by (simp add: committed_sum f)
      have "kv_inv None m2"
      proof (rule kv_inv_rest[OF inv0 par2 st])
        show "pool_ok (mset (seq_blocks s) + R + cache_leases (km_prefix m2)) (km_pool m2)"
          if "seq_leases m = mset (seq_blocks (st_sequence st)) + R" for R
          using p(1) that empty by (simp add: f)
        show "length (seq_blocks s) \<le> q" if "map_of (km_reservations m) i = Some q" for q
          using False that by auto
        show "ledger_sum (km_reservations m) (put i (st\<lparr>st_sequence := s\<rparr>) (km_sequences m)) \<le> page_count (km_pool m)"
          if "km_reservations m \<noteq> []" using False that com p(2) by auto
        show "tokens_valid (seq_tokens s) m" using link pr(3) by (simp add: reuse_link_def tokens_valid_take)
        show "length (seq_tokens s) = seq_used s" "length (seq_blocks s) = ceil_div (seq_used s) (km_bt m)"
          "int (seq_used s) \<le> km_context m"
          using link pr(2) D(8) by (auto simp: reuse_link_def)
      qed (use D c f ap in simp_all)
      then show ?thesis using res par2 f ap st link empty c pr(1) unfolding reuse_outcome_def by auto
    qed
  qed
qed

text \<open>A change of cache and pool that leaves every sequence alone.\<close>

lemma kv_inv_cache:
  assumes inv: "kv_inv None m" and par: "same_params m m'"
    and f: "km_sequences m' = km_sequences m" "km_reservations m' = km_reservations m"
      "\<not> km_append_active m'"
    and cache: "cache_ok (km_bt m) (cache_capacity (km_pool m)) {} (km_prefix m')"
    and pool: "pool_ok (seq_leases m + cache_leases (km_prefix m')) (km_pool m')"
  shows "kv_inv None m'"
proof -
  have "ledger_ok m'" using kv_invD(10)[OF inv] par f by (simp add: ledger_ok_def committed_sum same_params_def)
  moreover have "seq_leases m' = seq_leases m" by (simp add: seq_leases_def f)
  ultimately show ?thesis using inv par f cache pool seq_ok_params[OF par]
    by (simp add: kv_inv_def txn_leases_def same_params_def)
qed

lemma cache_prefix_inv:
  assumes inv: "kv_inv ap m" and r: "cache_prefix i m = (res, m')"
  shows "kv_inv ap m'" "same_params m m'" "km_sequences m' = km_sequences m"
    "km_reservations m' = km_reservations m"
    "res = Inr () \<longleftrightarrow> ap = None \<and> km_state m i \<noteq> None" "res \<noteq> Inr () \<Longrightarrow> m' = m"
    "res = Inr () \<Longrightarrow> \<exists>st. km_state m i = Some st \<and>
       (\<forall>n x. pc_block (km_prefix m') n = Some x \<longrightarrow> pc_block (km_prefix m) n = Some x \<or>
         (\<exists>j < publish_pages (st_sequence st) (km_pool m).
            n = seq_path (km_bt m) (st_sequence st) (Suc j) \<and> x = seq_blocks (st_sequence st) ! j))"
proof -
  note D = kv_invD[OF inv]
  have "kv_inv ap m' \<and> same_params m m' \<and> km_sequences m' = km_sequences m \<and>
    km_reservations m' = km_reservations m \<and> (res = Inr () \<longleftrightarrow> ap = None \<and> km_state m i \<noteq> None) \<and>
    (res \<noteq> Inr () \<longrightarrow> m' = m) \<and>
    (res = Inr () \<longrightarrow> (\<exists>st. km_state m i = Some st \<and>
       (\<forall>n x. pc_block (km_prefix m') n = Some x \<longrightarrow> pc_block (km_prefix m) n = Some x \<or>
         (\<exists>j < publish_pages (st_sequence st) (km_pool m).
            n = seq_path (km_bt m) (st_sequence st) (Suc j) \<and> x = seq_blocks (st_sequence st) ! j))))"
  proof (cases "ap = None \<and> km_state m i \<noteq> None")
    case False
    have "\<exists>e. idle_state i m = Inl e"
      using False idle_state_active[of _ m i] idle_state_iff[of m i] inv by (cases ap) auto
    then show ?thesis using r inv False by (auto simp: cache_prefix_def)
  next
    case True
    then obtain st where st: "km_state m i = Some st" and ap: "ap = None" by auto
    note inv0 = inv[unfolded ap]
    have idle: "idle_state i m = Inr st" using idle_state_iff[OF inv0, of i] st by simp
    have pool: "pool_ok (seq_leases m + cache_leases (km_prefix m)) (km_pool m)"
      using D(4) ap by (simp add: txn_leases_def)
    have own: "set (seq_blocks (st_sequence st)) \<subseteq> set_mset (seq_leases m)"
      using seq_lease_le[OF st] by (auto dest: mset_subset_eqD)
    from cache_publish_ok[OF D(3) pool D(11) seq_ok_rest(1)[OF kv_invD(5)[OF inv0 st]] own]
    obtain c p where R: "cache_publish (st_sequence st) (km_prefix m) (km_pool m) = Inr (c, p)"
      "cache_ok (km_bt m) (cache_capacity (km_pool m)) {} c" "pool_ok (seq_leases m + cache_leases c) p"
      "pool_config p = pool_config (km_pool m)"
      "\<forall>n x. pc_block c n = Some x \<longrightarrow> pc_block (km_prefix m) n = Some x \<or>
         (\<exists>j < publish_pages (st_sequence st) (km_pool m).
            n = seq_path (km_bt m) (st_sequence st) (Suc j) \<and> x = seq_blocks (st_sequence st) ! j)"
      by blast
    have m': "m' = m\<lparr>km_publish_calls := km_publish_calls m + 1, km_prefix := c, km_pool := p\<rparr>" "res = Inr ()"
      using r idle R(1) by (simp_all add: cache_prefix_def)
    have par: "same_params m m'" by (simp add: m' same_params_def R)
    have "kv_inv None m'" by (rule kv_inv_cache[OF inv0 par]) (use R D ap in \<open>simp_all add: m'\<close>)
    moreover have f: "km_sequences m' = km_sequences m" "km_reservations m' = km_reservations m"
      "km_prefix m' = c" by (simp_all add: m')
    ultimately show ?thesis unfolding f m'(2) using par ap st R(5) by blast
  qed
  then show "kv_inv ap m'" "same_params m m'" "km_sequences m' = km_sequences m"
    "km_reservations m' = km_reservations m"
    "res = Inr () \<longleftrightarrow> ap = None \<and> km_state m i \<noteq> None" "res \<noteq> Inr () \<Longrightarrow> m' = m"
    "res = Inr () \<Longrightarrow> \<exists>st. km_state m i = Some st \<and>
       (\<forall>n x. pc_block (km_prefix m') n = Some x \<longrightarrow> pc_block (km_prefix m) n = Some x \<or>
         (\<exists>j < publish_pages (st_sequence st) (km_pool m).
            n = seq_path (km_bt m) (st_sequence st) (Suc j) \<and> x = seq_blocks (st_sequence st) ! j))"
    by blast+
qed

lemma any_appending_None: "kv_inv None m \<Longrightarrow> \<not> any_appending m"
proof
  assume inv: "kv_inv None m" and "any_appending m"
  then obtain i st where "(i, st) \<in> set (km_sequences m)" "st_appending st"
    by (auto simp: any_appending_def)
  then show False using kv_invD(5)[OF inv] amap_mem[OF kv_invD(1)[OF inv]] seq_ok_rest(4) by metis
qed

lemma clear_prefix_cache_inv:
  assumes inv: "kv_inv ap m" and r: "clear_prefix_cache m = (res, m')"
  shows "kv_inv ap m'" "same_params m m'" "km_sequences m' = km_sequences m"
    "km_reservations m' = km_reservations m" "res = Inr () \<longleftrightarrow> ap = None" "res \<noteq> Inr () \<Longrightarrow> m' = m"
    "res = Inr () \<Longrightarrow> pc_block (km_prefix m') = Map.empty"
proof -
  note D = kv_invD[OF inv]
  have "kv_inv ap m' \<and> same_params m m' \<and> km_sequences m' = km_sequences m \<and>
    km_reservations m' = km_reservations m \<and> (res = Inr () \<longleftrightarrow> ap = None) \<and> (res \<noteq> Inr () \<longrightarrow> m' = m) \<and>
    (res = Inr () \<longrightarrow> pc_block (km_prefix m') = Map.empty)"
  proof (cases ap)
    case (Some t)
    then show ?thesis using r inv D(6) by (auto simp: clear_prefix_cache_def require_idle_def)
  next
    case None
    note inv0 = inv[unfolded None]
    have pool: "pool_ok (seq_leases m + cache_leases (km_prefix m)) (km_pool m)"
      using D(4) None by (simp add: txn_leases_def)
    obtain c p where cp: "cache_clear (km_prefix m) (km_pool m) = (c, p)" by fastforce
    note z = cache_clear_ok[OF D(3) pool cp]
    have m': "m' = m\<lparr>km_prefix := c, km_pool := p\<rparr>" "res = Inr ()"
      using r cp D(6) None any_appending_None[OF inv0]
      by (simp_all add: clear_prefix_cache_def require_idle_def)
    have par: "same_params m m'" by (simp add: m' same_params_def z)
    have "kv_inv None m'" by (rule kv_inv_cache[OF inv0 par]) (use z D None in \<open>simp_all add: m'\<close>)
    then show ?thesis using par m' None z(5) by simp
  qed
  then show "kv_inv ap m'" "same_params m m'" "km_sequences m' = km_sequences m"
    "km_reservations m' = km_reservations m" "res = Inr () \<longleftrightarrow> ap = None" "res \<noteq> Inr () \<Longrightarrow> m' = m"
    "res = Inr () \<Longrightarrow> pc_block (km_prefix m') = Map.empty"
    by blast+
qed

section \<open>Clearing everything\<close>

lemma release_all_pool:
  "pool_ok (sum_list (map seq_lease xs) + M) p \<Longrightarrow>
   pool_ok M (fold (\<lambda>kv p. snd (pool_release (st_sequence (snd kv)) p)) xs p) \<and>
   pool_config (fold (\<lambda>kv p. snd (pool_release (st_sequence (snd kv)) p)) xs p) = pool_config p"
proof (induction xs arbitrary: p)
  case (Cons x xs)
  have "pool_ok (mset (seq_blocks (st_sequence (snd x))) + (sum_list (map seq_lease xs) + M)) p"
    using Cons.prems by (simp add: seq_lease_def[of x] add.assoc)
  from pool_release_pool[OF this] Cons.IH show ?case by simp
qed simp

text \<open>
  \<open>clear\<close> gives every page back: no sequence, no cache entry, no reservation, and a pool in which
  every page is free.
\<close>

lemma km_clear_inv:
  assumes inv: "kv_inv ap m" and r: "km_clear m = (res, m')"
  shows "kv_inv ap m'" "same_params m m'" "res = Inr () \<longleftrightarrow> ap = None" "res \<noteq> Inr () \<Longrightarrow> m' = m"
    "res = Inr () \<Longrightarrow> km_sequences m' = [] \<and> km_reservations m' = [] \<and> pc_nodes (km_prefix m') = [] \<and>
       pc_block (km_prefix m') = Map.empty \<and> pool_ok {#} (km_pool m')"
proof -
  note D = kv_invD[OF inv]
  have "kv_inv ap m' \<and> same_params m m' \<and> (res = Inr () \<longleftrightarrow> ap = None) \<and> (res \<noteq> Inr () \<longrightarrow> m' = m) \<and>
    (res = Inr () \<longrightarrow> km_sequences m' = [] \<and> km_reservations m' = [] \<and> pc_nodes (km_prefix m') = [] \<and>
       pc_block (km_prefix m') = Map.empty \<and> pool_ok {#} (km_pool m'))"
  proof (cases ap)
    case (Some t)
    then show ?thesis using r inv D(6) by (auto simp: km_clear_def require_idle_def)
  next
    case None
    note inv0 = inv[unfolded None]
    let ?p = "fold (\<lambda>kv p. snd (pool_release (st_sequence (snd kv)) p)) (km_sequences m) (km_pool m)"
    have p: "pool_ok (cache_leases (km_prefix m)) ?p" "pool_config ?p = pool_config (km_pool m)"
      using release_all_pool[of "km_sequences m" "cache_leases (km_prefix m)" "km_pool m"] D(4) None
      by (simp_all add: seq_leases_def txn_leases_def)
    obtain c q where cq: "cache_clear (km_prefix m) ?p = (c, q)" by fastforce
    have pe: "pool_ok ({#} + cache_leases (km_prefix m)) ?p" using p by simp
    note z = cache_clear_ok[OF D(3) pe cq]
    have m': "m' = m\<lparr>km_sequences := [], km_prefix := c, km_pool := q, km_reservations := []\<rparr>" "res = Inr ()"
      using r cq D(6) None any_appending_None[OF inv0] by (simp_all add: km_clear_def require_idle_def)
    have cfg: "pool_config q = pool_config (km_pool m)" using z(11) p(2) by simp
    have "kv_inv None m'" using z D None
      by (simp add: kv_inv_def m' cfg seq_leases_def txn_leases_def ledger_ok_def)
    then show ?thesis using m' None z cfg by (simp add: same_params_def)
  qed
  then show "kv_inv ap m'" "same_params m m'" "res = Inr () \<longleftrightarrow> ap = None" "res \<noteq> Inr () \<Longrightarrow> m' = m"
    "res = Inr () \<Longrightarrow> km_sequences m' = [] \<and> km_reservations m' = [] \<and> pc_nodes (km_prefix m') = [] \<and>
       pc_block (km_prefix m') = Map.empty \<and> pool_ok {#} (km_pool m')"
    by blast+
qed

end
