(* ===== verification/KV_Append.thy ===== *)
theory KV_Append
  imports KV_Share
begin

text \<open>
  The append transaction of the KV manager: page reservation with LRU eviction, copy-on-write of a
  shared tail page, commit and rollback, and what each of them does to the invariant.
\<close>

section \<open>Eviction\<close>

lemma evict_one_leases:
  assumes "cache_ok bt cap {} c" and "evict_one c p = (True, c', p')"
  shows "cache_leases c' \<subseteq># cache_leases c"
proof (cases "pc_lru c")
  case Nil
  then show ?thesis using assms(2) by (simp add: evict_one_def)
next
  case (Cons n ns)
  then obtain b where b: "pc_block c n = Some b" using cache_okD(3)[OF assms(1)] by auto
  obtain d q where d: "drop_node n None c p = (d, q)" by fastforce
  have "c' = d\<lparr>pc_evictions := pc_evictions d + 1\<rparr>" using assms(2) Cons d by (auto simp: evict_one_def)
  then show ?thesis using drop_node_props(5)[OF assms(1) b _ d] by simp
qed

lemma evict_loop_ok:
  assumes "cache_ok bt cap {} c" and "pool_ok (M + cache_leases c) p"
    and "cow \<Longrightarrow> tail \<in># M \<and> count (M + cache_leases c) tail > 1"
    and "evict_loop required tail cow c p = (r, c', p')"
  shows "\<exists>cow'. r = Inr cow' \<and> cache_ok bt cap {} c' \<and> pool_ok (M + cache_leases c') p' \<and>
    shrinks c c' \<and> cache_leases c' \<subseteq># cache_leases c \<and> pool_config p' = pool_config p \<and>
    (cow' \<longrightarrow> cow \<and> count (M + cache_leases c') tail > 1) \<and>
    (cow \<and> \<not> cow' \<longrightarrow> count (M + cache_leases c') tail = 1) \<and>
    (required + (if cow' then 1 else 0) \<le> free_blocks p' \<or> pc_lru c' = [])"
  using assms
proof (induction required tail cow c p rule: evict_loop.induct)
  case (1 required tail cow c p)
  note step = evict_loop.simps[of required tail cow c p]
  show ?case
  proof (cases "free_blocks p < required + (if cow then 1 else 0)")
    case False
    then have e: "r = Inr cow" "c' = c" "p' = p" using "1.prems"(4) by (simp_all add: step)
    show ?thesis unfolding e using "1.prems"(1-3) False by (intro exI[of _ cow]) (simp add: not_less)
  next
    case True
    obtain ev d q where e: "evict_one c p = (ev, d, q)" by (metis prod_cases3)
    note ok = evict_one_ok[OF "1.prems"(1,2) e]
    show ?thesis
    proof (cases ev)
      case False
      then have "r = Inr cow" "c' = c" "p' = p" using "1.prems"(4) step True e by simp_all
      then show ?thesis using "1.prems"(1-3) ok(3) False by auto
    next
      case ev: True
      have e': "evict_one c p = (True, d, q)" using e ev by simp
      have le: "cache_leases d \<subseteq># cache_leases c" by (rule evict_one_leases[OF "1.prems"(1) e'])
      show ?thesis
      proof (cases cow)
        case False
        have run: "evict_loop required tail cow d q = (r, c', p')" using "1.prems"(4) step True e' False by simp
        have "cow \<Longrightarrow> tail \<in># M \<and> count (M + cache_leases d) tail > 1" using False by simp
        from "1.IH"(2)[OF True e'[symmetric] refl refl False ok(1,2) this run] show ?thesis
          using shrinks_trans[OF ok(6)] le ok(7) False subset_mset.order_trans by auto
      next
        case cow: True
        then have tail: "tail \<in># M" using "1.prems"(3) by simp
        have r1: "references tail q = Inr (count (M + cache_leases d) tail)"
          using pool_ok_references[OF ok(2), of tail] tail by simp
        let ?n = "count (M + cache_leases d) tail"
        have run: "evict_loop required tail (?n \<noteq> 1) d q = (r, c', p')"
          using "1.prems"(4) step True e' cow r1 by simp
        have pos: "0 < count M tail" using tail by simp
        have n1: "1 \<le> ?n" unfolding count_union using pos by linarith
        then have "?n \<noteq> 1 \<Longrightarrow> tail \<in># M \<and> count (M + cache_leases d) tail > 1" using tail by linarith
        from "1.IH"(1)[OF True e'[symmetric] refl refl cow r1 ok(1,2) this run] obtain cow' where
          I: "r = Inr cow'" "cache_ok bt cap {} c'" "pool_ok (M + cache_leases c') p'" "shrinks d c'"
            "cache_leases c' \<subseteq># cache_leases d" "pool_config p' = pool_config q"
            "cow' \<longrightarrow> ?n \<noteq> 1 \<and> count (M + cache_leases c') tail > 1"
            "?n \<noteq> 1 \<and> \<not> cow' \<longrightarrow> count (M + cache_leases c') tail = 1"
            "required + (if cow' then 1 else 0) \<le> free_blocks p' \<or> pc_lru c' = []" by blast
        have "count (M + cache_leases c') tail = 1" if "\<not> cow'"
        proof (cases "?n = 1")
          case True
          have "count (cache_leases c') tail \<le> count (cache_leases d) tail" using I(5)
            by (simp add: mset_subset_eq_count)
          then show ?thesis using True pos unfolding count_union by linarith
        next
          case False
          then show ?thesis using I(8) that by simp
        qed
        then show ?thesis using I cow shrinks_trans[OF ok(6) I(4)] ok(7)
            subset_mset.order_trans[OF I(5) le] by auto
      qed
    qed
  qed
qed

text \<open>A cache that shrank leases no more than before.\<close>

lemma shrinks_leases:
  assumes "shrinks c c'" and "cache_ok bt cap {} c" and "cache_ok bt cap' {} c'"
  shows "cache_leases c' \<subseteq># cache_leases c"
proof -
  have le: "pc_block c' \<subseteq>\<^sub>m pc_block c" using assms(1) by (simp add: shrinks_def)
  have "set (pc_lru c') \<subseteq> set (pc_lru c)"
    using map_le_implies_dom_le[OF le] cache_okD(3)[OF assms(2)] cache_okD(3)[OF assms(3)] by simp
  then have sub: "mset (pc_lru c') \<subseteq># mset (pc_lru c)"
    using cache_okD(2)[OF assms(3)] cache_okD(2)[OF assms(2)]
    by (metis mset_set_set finite_set subset_imp_msubset_mset_set)
  have "map (\<lambda>n. the (pc_block c' n)) (pc_lru c') = map (\<lambda>n. the (pc_block c n)) (pc_lru c')"
  proof (rule map_cong[OF refl])
    fix n assume "n \<in> set (pc_lru c')"
    then have "n \<in> dom (pc_block c')" using cache_okD(3)[OF assms(3)] by simp
    then show "the (pc_block c' n) = the (pc_block c n)" using le by (simp add: map_le_def)
  qed
  then have "cache_leases c' = image_mset (\<lambda>n. the (pc_block c n)) (mset (pc_lru c'))"
    by (simp only: cache_leases_def mset_map)
  then show ?thesis using image_mset_subseteq_mono[OF sub] by (simp add: cache_leases_def)
qed

section \<open>Reserving pages\<close>

text \<open>
  The frame of \<open>reserve_pages\<close>, and what a success gives: the missing pages, fresh and distinct, and
  what is known about the tail page. \<open>L\<close> are the leases that remain after the evictions.
\<close>

definition reserve_frame :: "kv_manager \<Rightarrow> kv_manager \<Rightarrow> bool" where
  "reserve_frame m m' \<longleftrightarrow> same_params m m' \<and> km_reservations m' = km_reservations m \<and>
     km_append_active m' = km_append_active m \<and> shrinks (km_prefix m) (km_prefix m') \<and>
     km_forward_tokens m' = km_forward_tokens m \<and>
     cache_ok (km_bt m) (cache_capacity (km_pool m)) {} (km_prefix m')"

definition grown ::
    "kv_manager \<Rightarrow> request_id \<Rightarrow> seq_state \<Rightarrow> nat \<Rightarrow> bool \<Rightarrow> bool \<Rightarrow> paged_sequence \<Rightarrow> nat list \<Rightarrow> kv_manager \<Rightarrow> bool" where
  "grown m i st e cow cow' s' fresh m' \<longleftrightarrow>
     (let s = st_sequence st; L = seq_leases m + cache_leases (km_prefix m'); cnt = ceil_div e (km_bt m) in
       s' = s\<lparr>seq_blocks := seq_blocks s @ fresh\<rparr> \<and>
       km_sequences m' = put i (st\<lparr>st_sequence := s'\<rparr>) (km_sequences m) \<and>
       distinct fresh \<and> set fresh \<inter> set_mset L = {} \<and> pool_ok (L + mset fresh) (km_pool m') \<and>
       length (seq_blocks s') = max (length (seq_blocks s)) cnt \<and>
       (cow' \<longrightarrow> cow \<and> count L (last (seq_blocks s)) > 1 \<and> pool_free (km_pool m') \<noteq> []) \<and>
       (cow \<and> \<not> cow' \<longrightarrow> count L (last (seq_blocks s)) = 1) \<and>
       (\<forall>q. map_of (km_reservations m) i = Some q \<longrightarrow> cnt \<le> q) \<and>
       (km_reservations m \<noteq> [] \<and> map_of (km_reservations m) i = None \<longrightarrow>
          committed_blocks m + (cnt - length (seq_blocks s)) \<le> page_count (km_pool m)))"

lemma grownD:
  assumes "grown m i st e cow cow' s' fresh m'"
  shows "s' = (st_sequence st)\<lparr>seq_blocks := seq_blocks (st_sequence st) @ fresh\<rparr>"
    "km_sequences m' = put i (st\<lparr>st_sequence := s'\<rparr>) (km_sequences m)"
    "distinct fresh" "set fresh \<inter> set_mset (seq_leases m + cache_leases (km_prefix m')) = {}"
    "pool_ok (seq_leases m + cache_leases (km_prefix m') + mset fresh) (km_pool m')"
    "length (seq_blocks s') = max (length (seq_blocks (st_sequence st))) (ceil_div e (km_bt m))"
    "cow' \<Longrightarrow> cow \<and> count (seq_leases m + cache_leases (km_prefix m')) (last (seq_blocks (st_sequence st))) > 1 \<and>
       pool_free (km_pool m') \<noteq> []"
    "cow \<and> \<not> cow' \<Longrightarrow> count (seq_leases m + cache_leases (km_prefix m')) (last (seq_blocks (st_sequence st))) = 1"
    "map_of (km_reservations m) i = Some q \<Longrightarrow> ceil_div e (km_bt m) \<le> q"
    "km_reservations m \<noteq> [] \<Longrightarrow> map_of (km_reservations m) i = None \<Longrightarrow>
       committed_blocks m + (ceil_div e (km_bt m) - length (seq_blocks (st_sequence st))) \<le> page_count (km_pool m)"
  using assms unfolding grown_def Let_def by blast+

lemma evict_for:
  assumes inv: "kv_inv None m" and st: "km_state m i = Some st"
    and cow: "cow \<Longrightarrow> seq_blocks (st_sequence st) \<noteq> [] \<and>
      count (seq_leases m + cache_leases (km_prefix m)) (last (seq_blocks (st_sequence st))) > 1"
    and ev: "evict_loop req (last (seq_blocks (st_sequence st))) cow (km_prefix m) (km_pool m) = (r1, c, p)"
  shows "\<exists>c1. r1 = Inr c1 \<and> cache_ok (km_bt m) (cache_capacity (km_pool m)) {} c \<and>
    pool_ok (seq_leases m + cache_leases c) p \<and> shrinks (km_prefix m) c \<and>
    pool_config p = pool_config (km_pool m) \<and>
    (c1 \<longrightarrow> cow \<and> count (seq_leases m + cache_leases c) (last (seq_blocks (st_sequence st))) > 1) \<and>
    (cow \<and> \<not> c1 \<longrightarrow> count (seq_leases m + cache_leases c) (last (seq_blocks (st_sequence st))) = 1) \<and>
    (req + (if c1 then 1 else 0) \<le> free_blocks p \<or> pc_lru c = [])"
proof -
  let ?s = "st_sequence st" and ?M = "seq_leases m"
  have pool: "pool_ok (?M + cache_leases (km_prefix m)) (km_pool m)"
    using kv_invD(4)[OF inv] by (simp add: txn_leases_def)
  have "cow \<Longrightarrow> last (seq_blocks ?s) \<in># ?M \<and> count (?M + cache_leases (km_prefix m)) (last (seq_blocks ?s)) > 1"
  proof -
    assume c: cow
    then have "last (seq_blocks ?s) \<in># mset (seq_blocks ?s)" using cow by simp
    then show "last (seq_blocks ?s) \<in># ?M \<and> count (?M + cache_leases (km_prefix m)) (last (seq_blocks ?s)) > 1"
      using mset_subset_eqD[OF seq_lease_le[OF st]] cow[OF c] by blast
  qed
  from evict_loop_ok[OF kv_invD(3)[OF inv] pool this ev] show ?thesis by blast
qed

lemma reserve_pages_ok:
  assumes inv: "kv_inv None m" and st: "km_state m i = Some st"
    and cow: "cow \<Longrightarrow> seq_blocks (st_sequence st) \<noteq> [] \<and>
      count (seq_leases m + cache_leases (km_prefix m)) (last (seq_blocks (st_sequence st))) > 1"
    and r: "reserve_pages i (st_sequence st) e cow m = (res, m')"
  shows "reserve_frame m m' \<and>
    (case res of Inl x \<Rightarrow> kv_inv None m' \<and> km_sequences m' = km_sequences m
     | Inr (cow', s') \<Rightarrow> \<exists>fresh. grown m i st e cow cow' s' fresh m')"
proof -
  note D = kv_invD[OF inv]
  let ?s = "st_sequence st" and ?M = "seq_leases m"
  let ?cnt = "ceil_div e (km_bt m)"
  let ?req = "?cnt - length (seq_blocks ?s)"
  have req: "(if ?cnt > length (seq_blocks ?s) then ?cnt - length (seq_blocks ?s) else 0) = ?req" by simp
  have act: "\<not> km_append_active m" using D(6) by simp
  show ?thesis
  proof (cases "reservation_check i ?cnt ?req m")
    case (Inl x)
    then have "res = Inl x" "m' = m" using r unfolding reserve_pages_def Let_def req by auto
    then show ?thesis using inv D(3) by (simp add: reserve_frame_def)
  next
    case (Inr u)
    then have led: "\<forall>q. map_of (km_reservations m) i = Some q \<longrightarrow> ?cnt \<le> q"
      "km_reservations m \<noteq> [] \<and> map_of (km_reservations m) i = None \<longrightarrow>
          committed_blocks m + ?req \<le> page_count (km_pool m)"
      by (auto simp: reservation_check_def Let_def split: if_splits option.splits)
    obtain r1 c p where ev: "evict_loop ?req (last (seq_blocks ?s)) cow (km_prefix m) (km_pool m) = (r1, c, p)"
      by (metis prod_cases3)
    from evict_for[OF inv st cow ev] obtain c1 where E: "r1 = Inr c1"
      "cache_ok (km_bt m) (cache_capacity (km_pool m)) {} c" "pool_ok (?M + cache_leases c) p"
      "shrinks (km_prefix m) c" "pool_config p = pool_config (km_pool m)"
      "c1 \<longrightarrow> cow \<and> count (?M + cache_leases c) (last (seq_blocks ?s)) > 1"
      "cow \<and> \<not> c1 \<longrightarrow> count (?M + cache_leases c) (last (seq_blocks ?s)) = 1" by blast
    let ?m1 = "m\<lparr>km_prefix := c, km_pool := p\<rparr>"
    have inv1: "kv_inv None ?m1"
      by (rule kv_inv_cache[OF inv]) (use E act in \<open>simp_all add: same_params_def\<close>)
    have frame1: "reserve_frame m ?m1" using E by (simp add: reserve_frame_def same_params_def)
    have run: "reserve_pages i ?s e cow m = (if c1 \<and> free_blocks p < ?req + 1
        then (Inl (Kv_capacity_error ''paged KV block pool exhausted''), ?m1)
        else case pool_reserve ?s e p of Inl e \<Rightarrow> (Inl e, ?m1)
          | Inr (s', p') \<Rightarrow> (Inr (c1, s'), set_sequence i s' (?m1\<lparr>km_pool := p'\<rparr>)))"
      unfolding reserve_pages_def Let_def req Inr sum.case ev prod.case E(1) by (rule refl)
    show ?thesis
    proof (cases "c1 \<and> free_blocks p < ?req + 1")
      case True
      then have e: "res = Inl (Kv_capacity_error ''paged KV block pool exhausted'')" "m' = ?m1"
        using r unfolding run if_P[OF True] by simp_all
      show ?thesis unfolding e using inv1 frame1 by simp
    next
      case room: False
      show ?thesis
      proof (cases "pool_reserve ?s e p")
        case (Inl x)
        then have e: "res = Inl x" "m' = ?m1" using r unfolding run if_not_P[OF room] Inl sum.case by simp_all
        show ?thesis unfolding e using inv1 frame1 by simp
      next
        case (Inr sp)
        obtain s' p' where sp: "sp = (s', p')" by (cases sp)
        then have R: "pool_reserve ?s e p = Inr (s', p')" using Inr by simp
        have m': "m' = set_sequence i s' (?m1\<lparr>km_pool := p'\<rparr>)" "res = Inr (c1, s')"
          using r unfolding run if_not_P[OF room] R sum.case prod.case by simp_all
        note ok = pool_reserve_ok[OF E(3) R]
        define fresh where "fresh = take (ceil_div e (page_tokens p) - length (seq_blocks ?s)) (pool_free p)"
        have st1: "km_state (?m1\<lparr>km_pool := p'\<rparr>) i = Some st" using st by simp
        note f = set_sequence_fields[OF st1, of s', folded m'(1), simplified]
        have bt: "page_tokens p = km_bt m" using E(5) by simp
        have fr: "s' = ?s\<lparr>seq_blocks := seq_blocks ?s @ fresh\<rparr>" "distinct fresh"
          "set fresh \<inter> set_mset (?M + cache_leases c) = {}" "pool_ok (?M + cache_leases c + mset fresh) p'"
          "pool_free p' = drop (length fresh) (pool_free p)" "pool_config p' = pool_config p"
          using ok unfolding fresh_def by simp_all
        have len: "length (seq_blocks s') = max (length (seq_blocks ?s)) ?cnt" using ok(6) bt by simp
        have free: "pool_free p' \<noteq> []" if c1
        proof -
          have "length fresh \<le> ?req" unfolding fresh_def bt by simp
          moreover have "?req + 1 \<le> length (pool_free p)" using room that by (simp add: free_blocks_def)
          ultimately show ?thesis using fr(5) by simp
        qed
        have "reserve_frame m m'" using f E fr(6) by (simp add: reserve_frame_def same_params_def)
        moreover have "grown m i st e cow c1 s' fresh m'"
          unfolding grown_def Let_def f using fr(1-4) len E(6,7) led free by blast
        ultimately show ?thesis unfolding m'(2) by auto
      qed
    qed
  qed
qed

section \<open>Preparing an append\<close>

lemma put_put: "amap_ok xs \<Longrightarrow> put k v (put k w xs) = put k v xs"
  by (induction xs) auto

lemma seq_state_upd [simp]:
  "st\<lparr>st_sequence := a, st_appending := b\<rparr> = \<lparr>st_sequence = a, st_appending = b\<rparr>"
  by (cases st) simp

text \<open>
  The page table of a started transaction: the old pages (the tail replaced when it was shared),
  then fresh pages. No page the transaction may write is leased by anybody else.
\<close>

definition started ::
    "kv_manager \<Rightarrow> seq_state \<Rightarrow> append_txn \<Rightarrow> nat list \<Rightarrow> kv_manager \<Rightarrow> bool" where
  "started m st t bs m' \<longleftrightarrow>
     (let s = st_sequence st; n = length (seq_blocks s); L = seq_leases m + cache_leases (km_prefix m') in
       ap_original_blocks t = n \<and> \<not> ap_copied t \<and> n \<le> length bs \<and>
       km_sequences m' = put (ap_id t) \<lparr>st_sequence = s\<lparr>seq_blocks := bs\<rparr>, st_appending = True\<rparr> (km_sequences m) \<and>
       (\<forall>j < n. bs ! j = (case ap_copy t of None \<Rightarrow> seq_blocks s ! j
          | Some c \<Rightarrow> if j = n - 1 then tc_destination c else seq_blocks s ! j)) \<and>
       (\<forall>j. n \<le> j \<and> j < length bs \<longrightarrow> bs ! j \<notin># L) \<and> distinct (drop n bs) \<and>
       (\<forall>c. ap_copy t = Some c \<longrightarrow> 0 < n \<and> tc_destination c \<notin># L \<and> tc_destination c \<notin> set (drop n bs) \<and>
          tc_source c = last (seq_blocks s) \<and> tc_valid_tokens c = seq_used s mod km_bt m \<and>
          0 < seq_used s mod km_bt m) \<and>
       (ap_copy t = None \<and> 0 < seq_used s mod km_bt m \<longrightarrow> count L (last (seq_blocks s)) = 1))"

lemma append_checks_ok:
  assumes inv: "kv_inv ap m" and c: "append_checks i tokens m = Inr (s, cow)"
  shows "\<exists>st. ap = None \<and> km_state m i = Some st \<and> s = st_sequence st \<and> tokens \<noteq> [] \<and>
    int (seq_used s + length tokens) \<le> km_context m \<and> tokens_valid tokens m \<and>
    (cow \<longleftrightarrow> 0 < seq_used s mod km_bt m \<and>
       count (seq_leases m + cache_leases (km_prefix m)) (last (seq_blocks s)) > 1) \<and>
    (0 < seq_used s mod km_bt m \<longrightarrow> seq_blocks s \<noteq> [])"
proof -
  note D = kv_invD[OF inv]
  obtain st where idle: "idle_state i m = Inr st" using c by (auto simp: append_checks_def)
  have ap: "ap = None" using idle idle_state_active[of _ m i] inv by (cases ap) auto
  note inv0 = inv[unfolded ap]
  have st: "km_state m i = Some st" using idle idle_state_iff[OF inv0, of i] by (cases "km_state m i") auto
  note ok = seq_ok_rest[OF kv_invD(5)[OF inv0 st]]
  let ?s = "st_sequence st"
  have small: "(km_context m - int (seq_used ?s)) mod 2 ^ 64 = km_context m - int (seq_used ?s)"
    using ok(2) D(8,9) by (intro mod_pos_pos_trivial) (auto simp: int32_max_def)
  have ne: "seq_blocks ?s \<noteq> []" if "0 < seq_used ?s mod km_bt m"
    using ok(5) that by (auto simp: ceil_div_def)
  have pool: "pool_ok (seq_leases m + cache_leases (km_prefix m)) (km_pool m)"
    using D(4) ap by (simp add: txn_leases_def)
  have refs: "references (last (seq_blocks ?s)) (km_pool m) =
      Inr (count (seq_leases m + cache_leases (km_prefix m)) (last (seq_blocks ?s)))"
    if "0 < seq_used ?s mod km_bt m"
  proof (rule pool_ok_references[OF pool])
    have "last (seq_blocks ?s) \<in># mset (seq_blocks ?s)" using ne[OF that] by simp
    then show "last (seq_blocks ?s) \<in># seq_leases m + cache_leases (km_prefix m)"
      using mset_subset_eqD[OF seq_lease_le[OF st]] by simp
  qed
  have c': "s = ?s" "tokens \<noteq> []" "length tokens \<le> nat (km_context m - int (seq_used ?s))" "tokens_valid tokens m"
    using c idle unfolding append_checks_def
    by (auto simp: Let_def small[simplified] validate_tokens_def not_less split: if_splits)
  have "cow \<longleftrightarrow> 0 < seq_used ?s mod km_bt m \<and>
      count (seq_leases m + cache_leases (km_prefix m)) (last (seq_blocks ?s)) > 1"
  proof (cases "seq_used ?s mod km_bt m = 0")
    case True
    then show ?thesis using c idle c'(2-4) by (simp add: append_checks_def small[simplified] Let_def validate_tokens_def)
  next
    case False
    then show ?thesis using c idle c'(2-4) refs
      by (auto simp: append_checks_def small[simplified] Let_def validate_tokens_def)
  qed
  moreover have "int (seq_used ?s + length tokens) \<le> km_context m" using c'(3) ok(2) by linarith
  ultimately show ?thesis using ap st c' ne by auto
qed

lemma seq_leases_split:
  assumes "km_state m i = Some st"
  shows "\<exists>R. seq_leases m = mset (seq_blocks (st_sequence st)) + R"
  using seq_lease_le[OF assms] by (metis mset_subset_eq_exists_conv)

text \<open>The transaction starts: the sequence's new page table is \<open>bs\<close>, the pool leases \<open>bs\<close> and the saved tail.\<close>

lemma start_inv:
  assumes inv: "kv_inv None m" and st: "km_state m i = Some st" and par: "same_params m m'"
    and res: "km_reservations m' = km_reservations m" and act: "km_append_active m'"
    and cache: "cache_ok (km_bt m) (cache_capacity (km_pool m)) {} (km_prefix m')"
    and t: "ap_id t = i" "ap_tokens t = tokens" "tokens \<noteq> []" "tokens_valid tokens m"
      "int (seq_used (st_sequence st) + length tokens) \<le> km_context m"
    and started: "started m st t bs m'"
    and pool: "\<And>R. seq_leases m = mset (seq_blocks (st_sequence st)) + R \<Longrightarrow>
      pool_ok (txn_leases (Some t) + (mset bs + R) + cache_leases (km_prefix m')) (km_pool m')"
    and len: "length bs = ceil_div (seq_used (st_sequence st) + length tokens) (km_bt m)"
    and ledger: "\<And>q. map_of (km_reservations m) i = Some q \<Longrightarrow> length bs \<le> q"
      "km_reservations m \<noteq> [] \<Longrightarrow> map_of (km_reservations m) i = None \<Longrightarrow>
        committed_blocks m + (length bs - length (seq_blocks (st_sequence st))) \<le> page_count (km_pool m)"
  shows "kv_inv (Some t) m'"
proof -
  note D = kv_invD[OF inv]
  let ?s = "st_sequence st" and ?st' = "\<lparr>st_sequence = (st_sequence st)\<lparr>seq_blocks := bs\<rparr>, st_appending = True\<rparr>"
  note ok = seq_ok_rest[OF kv_invD(5)[OF inv st]]
  have S: "ap_original_blocks t = length (seq_blocks ?s)" "length (seq_blocks ?s) \<le> length bs"
    "km_sequences m' = put i ?st' (km_sequences m)"
    using started t(1) by (simp_all add: started_def Let_def)
  have copy: "bs ! (ap_original_blocks t - 1) = tc_destination c" "0 < ap_original_blocks t"
    "tc_valid_tokens c = seq_used ?s mod km_bt m" "0 < tc_valid_tokens c" if "ap_copy t = Some c" for c
    using started that by (simp_all add: started_def Let_def)
  show ?thesis
  proof (rule kv_inv_change[OF inv par S(3) st res _ cache])
    have "txn_ok m t (?s\<lparr>seq_blocks := bs\<rparr>)"
      unfolding txn_ok_def using S(1) ok(5) t len copy by simp
    then show "seq_ok m (Some t) i ?st'" using ok t by (simp add: seq_ok_def)
    show "seq_ok m (Some t) j s" if "j \<noteq> i" "seq_ok m None j s" for j s
      using that t(1) by (auto simp: seq_ok_def)
    show "ledger_sum (km_reservations m) (put i ?st' (km_sequences m)) \<le> page_count (km_pool m)"
      if "km_reservations m \<noteq> []" "map_of (km_reservations m) i = None"
      using ledger_sum_put[OF D(1) st, of "km_reservations m" ?st'] ledger(2)[OF that] that S(2)
      by (simp add: committed_sum)
  qed (use act pool t ledger(1) in simp_all)
qed

lemma prepare_append_inv:
  assumes inv: "kv_inv ap m" and r: "prepare_append i tokens m = (res, m')"
  shows "same_params m m' \<and> km_reservations m' = km_reservations m \<and>
    shrinks (km_prefix m) (km_prefix m') \<and>
    (case res of Inl x \<Rightarrow> kv_inv ap m' \<and> km_sequences m' = km_sequences m
     | Inr t \<Rightarrow> ap = None \<and> ap_id t = i \<and> ap_tokens t = tokens \<and> kv_inv (Some t) m' \<and>
         (\<exists>st bs. km_state m i = Some st \<and> started m st t bs m'))"
proof (cases "append_checks i tokens m")
  case (Inl e)
  then show ?thesis using r inv by (auto simp: prepare_append_def)
next
  case (Inr sc)
  obtain s cow where sc: "sc = (s, cow)" by (cases sc)
  from append_checks_ok[OF inv Inr[unfolded sc]] obtain st where
    ap: "ap = None" and st: "km_state m i = Some st" "s = st_sequence st" and tk: "tokens \<noteq> []"
      "int (seq_used s + length tokens) \<le> km_context m" "tokens_valid tokens m" and
    cow: "cow \<longleftrightarrow> 0 < seq_used s mod km_bt m \<and>
       count (seq_leases m + cache_leases (km_prefix m)) (last (seq_blocks s)) > 1" and
    ne: "0 < seq_used s mod km_bt m \<longrightarrow> seq_blocks s \<noteq> []"
    by (elim exE conjE) (rule that, assumption+)
  note inv0 = inv[unfolded ap] and D = kv_invD[OF inv]
  note ok = seq_ok_rest[OF kv_invD(5)[OF inv0 st(1)], folded st(2)]
  let ?e = "seq_used s + length tokens" and ?n = "length (seq_blocks s)"
  obtain r1 m1 where rp: "reserve_pages i s ?e cow m = (r1, m1)" by fastforce
  have cowp: "cow \<Longrightarrow> seq_blocks (st_sequence st) \<noteq> [] \<and>
      count (seq_leases m + cache_leases (km_prefix m)) (last (seq_blocks (st_sequence st))) > 1"
    using cow ne st(2) by auto
  note RP = reserve_pages_ok[OF inv0 st(1) cowp rp[unfolded st(2)]]
  define txn where "txn = \<lparr>ap_id = i, ap_tokens = tokens, ap_original_blocks = ?n, ap_copy = None, ap_copied = False\<rparr>"
  have le: "?n \<le> ceil_div ?e (km_bt m)" using ok(5) ceil_div_mono[OF D(11), of "seq_used s" ?e] by simp
  show ?thesis
  proof (cases r1)
    case (Inl x)
    then have "res = Inl x" "m' = m1" using r Inr sc rp by (simp_all add: prepare_append_def Let_def)
    then show ?thesis using RP Inl ap by (simp add: reserve_frame_def)
  next
    case r1: (Inr cs)
    obtain cow' s1 where cs: "cs = (cow', s1)" by (cases cs)
    from RP r1 cs obtain fresh where F: "reserve_frame m m1" and
      G: "grown m i st ?e cow cow' s1 fresh m1" by (auto simp: st(2))
    define L where "L = seq_leases m + cache_leases (km_prefix m1)"
    note G' = grownD[OF G, folded L_def st(2)]
    have F': "same_params m m1" "km_reservations m1 = km_reservations m"
      "shrinks (km_prefix m) (km_prefix m1)"
      "cache_ok (km_bt m) (cache_capacity (km_pool m)) {} (km_prefix m1)"
      using F by (simp_all add: reserve_frame_def)
    have st1: "km_state m1 i = Some (st\<lparr>st_sequence := s1\<rparr>)" using G'(2) D(1) by simp
    have len1: "length (seq_blocks s @ fresh) = ceil_div ?e (km_bt m)" using G'(1,6) le by simp
    have lastL: "count L (last (seq_blocks s)) = 1" if "0 < seq_used s mod km_bt m" "\<not> cow'"
    proof (cases cow)
      case True
      then show ?thesis using G'(8) that by simp
    next
      case False
      then have le1: "count (seq_leases m + cache_leases (km_prefix m)) (last (seq_blocks s)) \<le> 1"
        using cow that by simp
      have "last (seq_blocks s) \<in># mset (seq_blocks s)" using ne that by simp
      then have pos: "0 < count (seq_leases m) (last (seq_blocks s))"
        using mset_subset_eqD[OF seq_lease_le[OF st(1)]] st(2) by simp
      have "cache_leases (km_prefix m1) \<subseteq># cache_leases (km_prefix m)"
        by (rule shrinks_leases[OF F'(3) D(3) F'(4)])
      then have "count (cache_leases (km_prefix m1)) (last (seq_blocks s)) \<le>
          count (cache_leases (km_prefix m)) (last (seq_blocks s))" by (rule mset_subset_eq_count)
      then show ?thesis using le1 pos unfolding L_def count_union by linarith
    qed
    have frn: "fresh ! (j - ?n) \<notin># L" if "?n \<le> j" "j < ?n + length fresh" for j
    proof -
      have "fresh ! (j - ?n) \<in> set fresh" using that by (intro nth_mem) linarith
      then show ?thesis using G'(4) by auto
    qed
    show ?thesis
    proof (cases cow')
      case False
      define m2 where "m2 = set_appending i True m1"
      note f = set_appending_fields[OF st1, of True, folded m2_def]
      have res: "res = Inr txn" "m' = m2" using r Inr sc rp r1 cs False
        by (simp_all add: prepare_append_def Let_def txn_def m2_def)
      have seqs: "km_sequences m2 = put i \<lparr>st_sequence = s\<lparr>seq_blocks := seq_blocks s @ fresh\<rparr>, st_appending = True\<rparr> (km_sequences m)"
        using f(1) G'(1,2) put_put[OF D(1)] by simp
      have start: "started m st txn (seq_blocks s @ fresh) m2"
        using G'(3) frn lastL False seqs
        by (auto simp: started_def Let_def txn_def st(2)[symmetric] f(3) L_def[symmetric] nth_append)
      have par2: "same_params m m2" using F'(1) f by (simp add: same_params_def)
      have "kv_inv (Some txn) m2"
      proof (rule start_inv[OF inv0 st(1) par2 _ _ _ _ _ tk(1,3) _ start])
        show "pool_ok (txn_leases (Some txn) + (mset (seq_blocks s @ fresh) + R) + cache_leases (km_prefix m2)) (km_pool m2)"
          if "seq_leases m = mset (seq_blocks (st_sequence st)) + R" for R
          using G'(5) that unfolding L_def f st(2) by (simp add: txn_leases_def txn_def ac_simps)
      qed (use f F' tk st(2) len1 G'(9,10) in \<open>simp_all add: txn_def\<close>)
      then show ?thesis using res ap par2 f F' start st(1) unfolding res by (auto simp: txn_def)
    next
      case True
      obtain b p where al: "pool_allocate (km_pool m1) = Inr (b, p)"
        using G'(7)[OF True] by (cases "pool_free (km_pool m1)") (auto simp: pool_allocate_def)
      note pa = pool_allocate_ok[OF G'(5) al]
      have n0: "0 < ?n" and vp: "0 < seq_used s mod km_bt m" using G'(7)[OF True] cow ne by auto
      define copy where "copy = \<lparr>tc_source = seq_blocks s1 ! (?n - 1), tc_destination = b,
          tc_valid_tokens = seq_used s mod km_bt m\<rparr>"
      have src: "tc_source copy = last (seq_blocks s)" using n0 G'(1)
        by (simp add: copy_def nth_append last_conv_nth)
      define s2 where "s2 = s1\<lparr>seq_blocks := (seq_blocks s1)[?n - 1 := b]\<rparr>"
      define m2 where "m2 = set_sequence i s2 (m1\<lparr>km_pool := p\<rparr>)"
      define m3 where "m3 = set_appending i True m2"
      have st1': "km_state (m1\<lparr>km_pool := p\<rparr>) i = Some (st\<lparr>st_sequence := s1\<rparr>)" using st1 by simp
      note f2 = set_sequence_fields[OF st1', of s2, folded m2_def, simplified]
      have ok1: "amap_ok (km_sequences m1)" using G'(2) D(1) by simp
      have st2: "km_state m2 i = Some (st\<lparr>st_sequence := s2\<rparr>)" using f2(1) ok1 by simp
      note f3 = set_appending_fields[OF st2, of True, folded m3_def]
      let ?bs = "(seq_blocks s)[?n - 1 := b] @ fresh"
      have bs: "seq_blocks s2 = ?bs" using n0 G'(1) by (simp add: s2_def list_update_append)
      have s2eq: "s2 = s\<lparr>seq_blocks := ?bs\<rparr>" using bs G'(1) by (simp add: s2_def)
      have seqs: "km_sequences m3 = put i \<lparr>st_sequence = s\<lparr>seq_blocks := ?bs\<rparr>, st_appending = True\<rparr> (km_sequences m)"
        using f3(1) f2(1) G'(2) put_put[OF D(1)] s2eq by simp
      have res: "res = Inr (txn\<lparr>ap_copy := Some copy\<rparr>)" "m' = m3"
        using r Inr sc rp r1 cs True al
        by (simp_all add: prepare_append_def Let_def txn_def copy_def m3_def m2_def s2_def)
      have fresh_b: "b \<notin># L" "b \<notin> set fresh" using pa(2) by auto
      have pre: "km_prefix m3 = km_prefix m1" using f3 f2 by simp
      have start: "started m st (txn\<lparr>ap_copy := Some copy\<rparr>) ?bs m3"
        using G'(3) frn seqs fresh_b n0 vp src pre
        by (auto simp: started_def Let_def txn_def st(2)[symmetric] L_def[symmetric] nth_append copy_def)
      have par3: "same_params m m3" using F'(1) f3 f2 pa(3) by (simp add: same_params_def)
      have upd: "mset ((seq_blocks s)[?n - 1 := b]) + {#tc_source copy#} = add_mset b (mset (seq_blocks s))"
      proof -
        obtain xs y where xy: "seq_blocks s = xs @ [y]" using n0 by (cases "seq_blocks s" rule: rev_cases) auto
        then show ?thesis using src by simp
      qed
      have "kv_inv (Some (txn\<lparr>ap_copy := Some copy\<rparr>)) m3"
      proof (rule start_inv[OF inv0 st(1) par3 _ _ _ _ _ tk(1,3) _ start])
        show "pool_ok (txn_leases (Some (txn\<lparr>ap_copy := Some copy\<rparr>)) + (mset ?bs + R) + cache_leases (km_prefix m3)) (km_pool m3)"
          if R: "seq_leases m = mset (seq_blocks (st_sequence st)) + R" for R
        proof -
          have R': "seq_leases m = mset (seq_blocks s) + R" using R st(2) by simp
          have "txn_leases (Some (txn\<lparr>ap_copy := Some copy\<rparr>)) + (mset ?bs + R) + cache_leases (km_prefix m3) =
            (mset ((seq_blocks s)[?n - 1 := b]) + {#tc_source copy#}) + mset fresh + R + cache_leases (km_prefix m1)"
            by (simp add: txn_leases_def pre)
          also have "\<dots> = add_mset b (L + mset fresh)" unfolding upd L_def R' by simp
          finally have eq: "txn_leases (Some (txn\<lparr>ap_copy := Some copy\<rparr>)) + (mset ?bs + R) + cache_leases (km_prefix m3) =
            add_mset b (L + mset fresh)" .
          have "km_pool m3 = p" using f3 f2 by simp
          then show ?thesis unfolding eq using pa(1) by simp
        qed
      qed (use f3 f2 F' tk st(2) len1 G'(9,10) in \<open>simp_all add: txn_def\<close>)
      then show ?thesis using res ap par3 f3 f2 F' start st(1) unfolding res by (auto simp: txn_def)
    qed
  qed
qed

section \<open>Commit and rollback\<close>

lemma kv_inv_copied [simp]:
  "kv_inv (Some (t\<lparr>ap_copied := b\<rparr>)) m = kv_inv (Some t) m"
proof -
  have "txn_ok m (t\<lparr>ap_copied := b\<rparr>) s = txn_ok m t s" for s by (simp add: txn_ok_def)
  then have "seq_ok m (Some (t\<lparr>ap_copied := b\<rparr>)) i st = seq_ok m (Some t) i st" for i st
    by (simp add: seq_ok_def)
  then show ?thesis by (simp add: kv_inv_def txn_leases_def)
qed

lemma txn_state:
  assumes "kv_inv (Some t) m"
  shows "\<exists>st. km_state m (ap_id t) = Some st \<and> txn_ok m t (st_sequence st) \<and> st_appending st \<and>
    length (seq_tokens (st_sequence st)) = seq_used (st_sequence st) \<and>
    tokens_valid (seq_tokens (st_sequence st)) m"
  using kv_invD(5,7)[OF assms] by (fastforce simp: seq_ok_def)

lemma seq_ok_none: "seq_ok m (Some t) j s \<Longrightarrow> j \<noteq> ap_id t \<Longrightarrow> seq_ok m None j s"
  by (auto simp: seq_ok_def)

text \<open>Ending a transaction with the final sequence \<open>s'\<close>.\<close>

lemma finish_inv:
  assumes inv: "kv_inv (Some t) m" and st: "km_state m (ap_id t) = Some st" and par: "same_params m m'"
    and seqs: "km_sequences m' = put (ap_id t) \<lparr>st_sequence = s', st_appending = False\<rparr> (km_sequences m)"
    and res: "km_reservations m' = km_reservations m" and act: "\<not> km_append_active m'"
    and pre: "km_prefix m' = km_prefix m"
    and pool: "\<And>R. seq_leases m = mset (seq_blocks (st_sequence st)) + R \<Longrightarrow>
      pool_ok (mset (seq_blocks s') + R + cache_leases (km_prefix m)) (km_pool m')"
    and ok: "length (seq_tokens s') = seq_used s'" "int (seq_used s') \<le> km_context m"
      "tokens_valid (seq_tokens s') m" "length (seq_blocks s') = ceil_div (seq_used s') (km_bt m)"
    and short: "length (seq_blocks s') \<le> length (seq_blocks (st_sequence st))"
  shows "kv_inv None m'"
proof -
  note D = kv_invD[OF inv]
  let ?st' = "\<lparr>st_sequence = s', st_appending = False\<rparr>"
  show ?thesis
  proof (rule kv_inv_change[OF inv par seqs st res])
    show "cache_ok (km_bt m) (cache_capacity (km_pool m)) {} (km_prefix m')" using D(3) pre by simp
    show "pool_ok (txn_leases None + (mset (seq_blocks (st_sequence ?st')) + R) + cache_leases (km_prefix m')) (km_pool m')"
      if "seq_leases m = mset (seq_blocks (st_sequence st)) + R" for R
      using pool[OF that] pre by (simp add: txn_leases_def)
    show "seq_ok m None (ap_id t) ?st'" using ok by (rule seq_okI)
    show "seq_ok m None j s" if "j \<noteq> ap_id t" "seq_ok m (Some t) j s" for j s
      using seq_ok_none[OF that(2,1)] .
    show "length (seq_blocks (st_sequence ?st')) \<le> q" if "map_of (km_reservations m) (ap_id t) = Some q" for q
    proof -
      have "length (seq_blocks (st_sequence st)) \<le> q" using D(10) that st by (simp add: ledger_ok_def)
      then show ?thesis using short by simp
    qed
    show "ledger_sum (km_reservations m) (put (ap_id t) ?st' (km_sequences m)) \<le> page_count (km_pool m)"
      if "km_reservations m \<noteq> []"
      using ledger_shrink[OF D(1) st, of ?st' "km_reservations m"] D(10) that short
      by (simp add: ledger_ok_def committed_sum)
  qed (use act in simp_all)
qed

lemma append_commit_inv:
  assumes inv: "kv_inv (Some t) m" and r: "append_commit t m = (res, m')"
  shows "(case res of
      Inl e \<Rightarrow> m' = m \<and> ap_copy t \<noteq> None \<and> \<not> ap_copied t
    | Inr _ \<Rightarrow> (ap_copy t \<noteq> None \<longrightarrow> ap_copied t) \<and> kv_inv None m' \<and> same_params m m' \<and>
        km_reservations m' = km_reservations m \<and> km_prefix m' = km_prefix m \<and>
        km_forward_tokens m' = km_forward_tokens m + length (ap_tokens t) \<and>
        (\<exists>st. km_state m (ap_id t) = Some st \<and>
           km_sequences m' = put (ap_id t)
             \<lparr>st_sequence = (st_sequence st)\<lparr>seq_tokens := seq_tokens (st_sequence st) @ ap_tokens t,
                seq_used := seq_used (st_sequence st) + length (ap_tokens t)\<rparr>, st_appending = False\<rparr>
             (km_sequences m)))"
proof (cases "ap_copy t \<noteq> None \<and> \<not> ap_copied t")
  case True
  then show ?thesis using r by (auto simp: append_commit_def)
next
  case False
  note D = kv_invD[OF inv]
  from txn_state[OF inv] obtain st where st: "km_state m (ap_id t) = Some st"
    "txn_ok m t (st_sequence st)" "length (seq_tokens (st_sequence st)) = seq_used (st_sequence st)"
    "tokens_valid (seq_tokens (st_sequence st)) m" by blast
  let ?s = "st_sequence st"
  define s' where "s' = ?s\<lparr>seq_tokens := seq_tokens ?s @ ap_tokens t, seq_used := seq_used ?s + length (ap_tokens t)\<rparr>"
  define m1 where "m1 = set_sequence (ap_id t) s' (m\<lparr>km_forward_tokens := km_forward_tokens m + length (ap_tokens t)\<rparr>)"
  define m2 where "m2 = (case ap_copy t of None \<Rightarrow> m1 | Some c \<Rightarrow> m1\<lparr>km_pool := unref (tc_source c) (km_pool m1)\<rparr>)"
  have m': "m' = set_appending (ap_id t) False m2" "res = Inr ()"
    using r unfolding append_commit_def if_not_P[OF False] Let_def st(1) option.case
      s'_def[symmetric] m1_def[symmetric] m2_def[symmetric] by simp_all
  have st1: "km_state (m\<lparr>km_forward_tokens := km_forward_tokens m + length (ap_tokens t)\<rparr>) (ap_id t) = Some st"
    using st(1) by simp
  note f1 = set_sequence_fields[OF st1, of s', folded m1_def, simplified]
  have f2: "km_sequences m2 = km_sequences m1" "km_prefix m2 = km_prefix m1"
    "km_reservations m2 = km_reservations m1" "km_context m2 = km_context m1"
    "km_vocabulary m2 = km_vocabulary m1" "km_layers m2 = km_layers m1" "km_width m2 = km_width m1"
    "km_forward_tokens m2 = km_forward_tokens m1" "pool_config (km_pool m2) = pool_config (km_pool m1)"
    by (simp_all add: m2_def split: option.split)
  have st2: "km_state m2 (ap_id t) = Some (st\<lparr>st_sequence := s'\<rparr>)" using f2 f1 D(1) by simp
  note f = set_appending_fields[OF st2, of False, folded m'(1)]
  have seqs: "km_sequences m' = put (ap_id t) \<lparr>st_sequence = s', st_appending = False\<rparr> (km_sequences m)"
    using f(1) f2(1) f1(1) put_put[OF D(1)] by simp
  have par: "same_params m m'" using f f2 f1 by (simp add: same_params_def)
  have "kv_inv None m'"
  proof (rule finish_inv[OF inv st(1) par seqs])
    show "pool_ok (mset (seq_blocks s') + R + cache_leases (km_prefix m)) (km_pool m')"
      if R: "seq_leases m = mset (seq_blocks ?s) + R" for R
    proof (cases "ap_copy t")
      case None
      then show ?thesis using D(4) R f f1 by (simp add: m2_def s'_def txn_leases_def)
    next
      case (Some c)
      have "pool_ok (add_mset (tc_source c) (mset (seq_blocks ?s) + R + cache_leases (km_prefix m))) (km_pool m)"
        using D(4) R Some by (simp add: txn_leases_def)
      from pl.give_back_ok[OF this] show ?thesis using Some f f1 by (simp add: m2_def s'_def)
    qed
    show "tokens_valid (seq_tokens s') m" using st(2,4) by (auto simp: s'_def txn_ok_def tokens_valid_def)
  qed (use f f2 f1 st in \<open>simp_all add: s'_def txn_ok_def\<close>)
  then show ?thesis using False m'(2) par f f2 f1 st(1) seqs by (auto simp: s'_def)
qed

lemma append_rollback_inv:
  assumes inv: "kv_inv (Some t) m"
  shows "kv_inv None (append_rollback t m) \<and> same_params m (append_rollback t m) \<and>
    km_reservations (append_rollback t m) = km_reservations m \<and>
    km_prefix (append_rollback t m) = km_prefix m \<and>
    km_forward_tokens (append_rollback t m) = km_forward_tokens m \<and>
    (\<exists>st. km_state m (ap_id t) = Some st \<and>
       km_sequences (append_rollback t m) = put (ap_id t)
         \<lparr>st_sequence = (st_sequence st)\<lparr>seq_blocks :=
            (let bs = take (ap_original_blocks t) (seq_blocks (st_sequence st)) in
             case ap_copy t of None \<Rightarrow> bs | Some c \<Rightarrow> bs[ap_original_blocks t - 1 := tc_source c])\<rparr>,
            st_appending = False\<rparr> (km_sequences m))"
proof -
  note D = kv_invD[OF inv]
  from txn_state[OF inv] obtain st where st: "km_state m (ap_id t) = Some st"
    "txn_ok m t (st_sequence st)" "length (seq_tokens (st_sequence st)) = seq_used (st_sequence st)"
    "tokens_valid (seq_tokens (st_sequence st)) m" by blast
  let ?s = "st_sequence st" and ?n = "ap_original_blocks t"
  let ?tk = "take ?n (seq_blocks ?s)"
  define bs where "bs = (case ap_copy t of None \<Rightarrow> ?tk | Some c \<Rightarrow> ?tk[?n - 1 := tc_source c])"
  define p1 where "p1 = fold unref (rev (drop ?n (seq_blocks ?s))) (km_pool m)"
  define p2 where "p2 = (case ap_copy t of None \<Rightarrow> p1 | Some c \<Rightarrow> unref (tc_destination c) p1)"
  define m1 where "m1 = set_sequence (ap_id t) (?s\<lparr>seq_blocks := bs\<rparr>) (m\<lparr>km_pool := p2\<rparr>)"
  have m': "append_rollback t m = set_appending (ap_id t) False m1"
    using st(1) by (simp add: append_rollback_def pool_rollback_eq Let_def m1_def bs_def p1_def p2_def split: option.splits)
  have st1: "km_state (m\<lparr>km_pool := p2\<rparr>) (ap_id t) = Some st" using st(1) by simp
  note f1 = set_sequence_fields[OF st1, of "?s\<lparr>seq_blocks := bs\<rparr>", folded m1_def, simplified]
  have st2: "km_state m1 (ap_id t) = Some (st\<lparr>st_sequence := ?s\<lparr>seq_blocks := bs\<rparr>\<rparr>)" using f1 D(1) by simp
  note f = set_appending_fields[OF st2, of False, folded m']
  have seqs: "km_sequences (append_rollback t m) =
      put (ap_id t) \<lparr>st_sequence = ?s\<lparr>seq_blocks := bs\<rparr>, st_appending = False\<rparr> (km_sequences m)"
    using f(1) f1(1) put_put[OF D(1)] by simp
  have cfg: "pool_config p2 = pool_config (km_pool m)"
    by (simp add: p2_def p1_def pl.give_back_all_conf split: option.split)
  have par: "same_params m (append_rollback t m)" using f f1 cfg by (simp add: same_params_def)
  have n: "?n \<le> length (seq_blocks ?s)" "?n = ceil_div (seq_used ?s) (km_bt m)"
    using st(2) ceil_div_mono[OF D(11), of "seq_used ?s" "seq_used ?s + length (ap_tokens t)"]
    by (simp_all add: txn_ok_def)
  have split: "mset (seq_blocks ?s) = mset ?tk + mset (drop ?n (seq_blocks ?s))"
    by (rule mset_take_drop[symmetric])
  have "kv_inv None (append_rollback t m)"
  proof (rule finish_inv[OF inv st(1) par seqs])
    show "pool_ok (mset (seq_blocks (?s\<lparr>seq_blocks := bs\<rparr>)) + R + cache_leases (km_prefix m)) (km_pool (append_rollback t m))"
      if R: "seq_leases m = mset (seq_blocks ?s) + R" for R
    proof -
      let ?X = "txn_leases (Some t) + mset ?tk + R + cache_leases (km_prefix m)"
      have "pool_ok (?X + mset (rev (drop ?n (seq_blocks ?s)))) (km_pool m)"
        using D(4) unfolding R split by (simp add: ac_simps)
      from pl.give_back_all[OF this] have p1: "pool_ok ?X p1" by (simp add: p1_def)
      show ?thesis
      proof (cases "ap_copy t")
        case None
        then show ?thesis using p1 f f1 by (simp add: bs_def p2_def txn_leases_def)
      next
        case (Some c)
        have d: "0 < ?n" "seq_blocks ?s ! (?n - 1) = tc_destination c"
          using st(2) Some unfolding txn_ok_def by blast+
        then have i: "?n - 1 < length ?tk" "?tk ! (?n - 1) = tc_destination c" using n by simp_all
        have "add_mset (tc_destination c) (mset (?tk[?n - 1 := tc_source c])) = add_mset (tc_source c) (mset ?tk)"
          using mset_update[OF i(1), of "tc_source c"] i nth_mem[OF i(1)] by simp
        then have "?X = add_mset (tc_destination c) (mset bs + R + cache_leases (km_prefix m))"
          using Some by (simp add: bs_def txn_leases_def)
        then have "pool_ok (mset bs + R + cache_leases (km_prefix m)) p2"
          using pl.give_back_ok p1 Some by (simp add: p2_def)
        then show ?thesis using f f1 by simp
      qed
    qed
    show "length (seq_blocks (?s\<lparr>seq_blocks := bs\<rparr>)) \<le> length (seq_blocks ?s)"
      "length (seq_blocks (?s\<lparr>seq_blocks := bs\<rparr>)) = ceil_div (seq_used (?s\<lparr>seq_blocks := bs\<rparr>)) (km_bt m)"
      using n by (simp_all add: bs_def split: option.split)
  qed (use f f1 st in \<open>simp_all add: txn_ok_def\<close>)
  then show ?thesis using par f f1 st(1) seqs by (auto simp: bs_def Let_def split: option.split)
qed

text \<open>Rollback restores the page table the sequence had when the transaction started.\<close>

lemma rollback_restores:
  assumes D: "amap_ok (km_sequences m)" and st: "km_state m (ap_id t) = Some st" "\<not> st_appending st"
    and s: "started m st t bs m'" and inv: "kv_inv (Some t) m'"
  shows "km_sequences (append_rollback t m') = km_sequences m"
proof -
  let ?s = "st_sequence st" and ?n = "length (seq_blocks (st_sequence st))"
  have S: "ap_original_blocks t = ?n" "?n \<le> length bs"
    "km_sequences m' = put (ap_id t) \<lparr>st_sequence = ?s\<lparr>seq_blocks := bs\<rparr>, st_appending = True\<rparr> (km_sequences m)"
    "\<forall>j < ?n. bs ! j = (case ap_copy t of None \<Rightarrow> seq_blocks ?s ! j
          | Some c \<Rightarrow> if j = ?n - 1 then tc_destination c else seq_blocks ?s ! j)"
    "\<forall>c. ap_copy t = Some c \<longrightarrow> 0 < ?n \<and> tc_source c = last (seq_blocks ?s)"
    using s by (simp_all add: started_def Let_def)
  have st': "km_state m' (ap_id t) = Some \<lparr>st_sequence = ?s\<lparr>seq_blocks := bs\<rparr>, st_appending = True\<rparr>"
    using S(3) D by simp
  have old: "(case ap_copy t of None \<Rightarrow> take ?n bs | Some c \<Rightarrow> (take ?n bs)[?n - 1 := tc_source c]) = seq_blocks ?s"
  proof (cases "ap_copy t")
    case None
    then show ?thesis using S(2,4) by (auto intro!: nth_equalityI)
  next
    case (Some c)
    have "(take ?n bs)[?n - 1 := tc_source c] = seq_blocks ?s"
    proof (rule nth_equalityI)
      fix j assume "j < length ((take ?n bs)[?n - 1 := tc_source c])"
      then have "j < ?n" using S(2) by simp
      then show "(take ?n bs)[?n - 1 := tc_source c] ! j = seq_blocks ?s ! j"
        using S(2,4,5) Some by (cases "j = ?n - 1") (auto simp: last_conv_nth)
    qed (use S(2) in simp)
    then show ?thesis using Some by simp
  qed
  have "km_sequences (append_rollback t m') =
      put (ap_id t) \<lparr>st_sequence = ?s, st_appending = False\<rparr> (km_sequences m')"
    using append_rollback_inv[OF inv] st' old S(1) by (simp add: Let_def split: option.splits)
  also have "\<dots> = put (ap_id t) st (km_sequences m)"
    using S(3) put_put[OF D] st(2) by (cases st) simp
  also have "\<dots> = km_sequences m"
  proof -
    have "put k v xs = xs" if "amap_ok xs" "map_of xs k = Some v" for k v and xs :: "(request_id, seq_state) amap"
      using that by (induction xs) (auto split: if_splits dest!: map_of_SomeD)
    then show ?thesis using D st(1) by blast
  qed
  finally show ?thesis .
qed

end
