(* ===== verification/KV_Guarantee.thy ===== *)
theory KV_Guarantee
  imports KV_Append
begin

text \<open>
  The promise of admission control: an append that stays inside the pages its request reserved
  always finds the physical pages it needs, because cached pages are evicted on demand and the
  commitments of all live sequences never exceed the pool.
\<close>

section \<open>Construction\<close>

lemma mk_manager_inv:
  assumes mk: "mk_manager c layers width context vocabulary = Inr m"
    and lim: "nat layers \<le> size_max div 4 div 2" "context \<le> int32_max"
  shows "kv_inv None m"
proof -
  obtain p where p: "mk_pool c layers width = Inr p"
    "m = \<lparr>km_layers = layers, km_width = width, km_context = context,
              km_vocabulary = vocabulary, km_pool = p, km_prefix = mk_prefix_cache p,
              km_sequences = [], km_forward_tokens = 0, km_append_active = False,
              km_reservations = [], km_lookup_calls = 0, km_publish_calls = 0\<rparr>"
    "1 \<le> context"
    using mk by (auto simp: mk_manager_def split: if_splits)
  show ?thesis using mk_pool_ok(1)[OF p(1) lim(1)] p(3) lim(2) mk_prefix_cache_ok
    by (simp add: p(2) kv_inv_def txn_leases_def seq_leases_def ledger_ok_def)
qed

text \<open>A manager of three pages of two tokens; request \<open>a\<close> has reserved two pages.\<close>

definition demo_manager0 :: kv_manager where
  "demo_manager0 = \<lparr>km_layers = 3, km_width = 4, km_context = 6, km_vocabulary = 10,
     km_pool = demo_pool, km_prefix = mk_prefix_cache demo_pool, km_sequences = [],
     km_forward_tokens = 0, km_append_active = False, km_reservations = [],
     km_lookup_calls = 0, km_publish_calls = 0\<rparr>"

definition demo_manager :: kv_manager where
  "demo_manager = demo_manager0\<lparr>km_reservations := [(''a'', 2)],
     km_sequences := [(''a'', \<lparr>st_sequence = empty_sequence, st_appending = False\<rparr>)]\<rparr>"

lemma demo_manager0_inv: "kv_inv None demo_manager0"
proof (rule mk_manager_inv)
  show "mk_manager demo_config 3 4 6 10 = Inr demo_manager0"
    using demo_mk_pool by (simp add: mk_manager_def demo_manager0_def)
qed (simp_all add: size_max_def int32_max_def)

lemma demo_reserve:
  "reserve_request ''a'' 3 demo_manager0 = (Inr Ready, demo_manager0\<lparr>km_reservations := [(''a'', 2)]\<rparr>)"
proof -
  have "(3 - 1) div 2 = (1 :: nat)" by simp
  then show ?thesis
    by (simp add: reserve_request_def require_idle_def km_contains_def demo_manager0_def Let_def
        committed_blocks_def demo_pool_def demo_config_def)
qed

lemma demo_manager_inv: "kv_inv None demo_manager"
proof -
  have c: "km_create ''a'' (demo_manager0\<lparr>km_reservations := [(''a'', 2)]\<rparr>) = (Inr (), demo_manager)"
    by (simp add: km_create_def require_idle_def km_contains_def demo_manager_def demo_manager0_def)
  show ?thesis using km_create_inv(1)[OF reserve_request_cases(1)[OF demo_manager0_inv demo_reserve] c] .
qed

section \<open>The ledger bounds the pages in use\<close>

lemma blocks_le_ledger:
  "amap_ok rs \<Longrightarrow> amap_ok xs \<Longrightarrow>
   (\<And>k r st. map_of rs k = Some r \<Longrightarrow> map_of xs k = Some st \<Longrightarrow> length (seq_blocks (st_sequence st)) \<le> r) \<Longrightarrow>
   sum_list (map seq_blocks_of xs) \<le> ledger_sum rs xs"
proof (induction xs arbitrary: rs)
  case Nil
  then show ?case by simp
next
  case (Cons x xs)
  obtain k st where x: "x = (k, st)" by (cases x)
  have xs: "amap_ok xs" and new: "map_of xs k = None"
    using Cons.prems(2) x by (auto simp: map_of_eq_None_iff)
  have rest: "length (seq_blocks (st_sequence s)) \<le> r"
    if "map_of rs j = Some r" "map_of xs j = Some s" for j r s
    using Cons.prems(3)[of j r s] that new x by (cases "j = k") auto
  show ?case
  proof (cases "map_of rs k")
    case None
    then have "ledger_sum rs (x # xs) = seq_blocks_of x + ledger_sum rs xs"
      by (simp add: ledger_sum_def unreserved_blocks_def x)
    then show ?thesis using Cons.IH[OF Cons.prems(1) xs rest] by simp
  next
    case (Some r)
    have le: "seq_blocks_of x \<le> r" using Cons.prems(3)[OF Some, of st] x by (simp add: seq_blocks_of_def)
    have "put k r (erase k rs) = rs"
    proof -
      have "amap_ok rs \<Longrightarrow> map_of rs k = Some r \<Longrightarrow> put k r (erase k rs) = rs" for rs :: "(request_id, nat) amap"
      proof (induction rs)
        case (Cons y ys)
        obtain a b where y: "y = (a, b)" by (cases y)
        show ?case
        proof (cases "a = k")
          case True
          have e: "erase k (y # ys) = ys" unfolding erase_def using Cons.prems(1) y True by (auto intro!: filter_True)
          show ?thesis unfolding e using Cons.prems y True by (cases ys) auto
        next
          case False
          then have k: "map_of ys k = Some r" using Cons.prems(2) y by auto
          then have "k \<in> fst ` set ys" by (metis map_of_SomeD fst_conv image_eqI)
          then have "a < k" using Cons.prems(1) y by auto
          moreover have "erase k (y # ys) = y # erase k ys" using False y by (simp add: erase_def)
          ultimately show ?thesis using Cons.IH Cons.prems(1) k y by auto
        qed
      qed simp
      then show ?thesis using Cons.prems(1) Some by blast
    qed
    moreover have "map_of (erase k rs) k = None" by simp
    ultimately have "ledger_sum rs xs = r + ledger_sum (erase k rs) xs"
      using ledger_sum_reserve[of "erase k rs" k xs r] Cons.prems(1) new by simp
    moreover have "sum_list (map seq_blocks_of xs) \<le> ledger_sum (erase k rs) xs"
      by (rule Cons.IH[OF _ xs]) (use Cons.prems(1) rest in \<open>auto split: if_splits\<close>)
    moreover have "ledger_sum rs (x # xs) = ledger_sum rs xs"
      using Some by (simp add: ledger_sum_def unreserved_blocks_def x)
    ultimately show ?thesis using le by simp
  qed
qed

lemma size_seq_leases: "size (seq_leases m) = sum_list (map seq_blocks_of (km_sequences m))"
proof -
  have "size (sum_list (map seq_lease xs)) = sum_list (map seq_blocks_of xs)" for xs
    by (induction xs) (simp_all add: seq_lease_def seq_blocks_of_def)
  then show ?thesis by (simp add: seq_leases_def)
qed

lemma ledger_room:
  assumes inv: "kv_inv ap m" and st: "km_state m i = Some st"
    and r: "map_of (km_reservations m) i = Some r" and n: "n \<le> r"
  shows "size (seq_leases m) + (n - length (seq_blocks (st_sequence st))) \<le> page_count (km_pool m)"
proof -
  note D = kv_invD[OF inv]
  let ?k = "max n (length (seq_blocks (st_sequence st)))"
  let ?st' = "st\<lparr>st_sequence := empty_sequence\<lparr>seq_blocks := replicate ?k 0\<rparr>\<rparr>"
  let ?xs = "put i ?st' (km_sequences m)"
  have bound: "length (seq_blocks (st_sequence st)) \<le> r" using D(10) r st by (simp add: ledger_ok_def)
  have "sum_list (map seq_blocks_of ?xs) \<le> ledger_sum (km_reservations m) ?xs"
  proof (rule blocks_le_ledger[OF D(2) put_ok[OF D(1)]])
    fix j q s assume "map_of (km_reservations m) j = Some q" "map_of ?xs j = Some s"
    then show "length (seq_blocks (st_sequence s)) \<le> q"
      using D(1,10) r n bound by (auto simp: ledger_ok_def split: if_splits)
  qed
  also have "ledger_sum (km_reservations m) ?xs = ledger_sum (km_reservations m) (km_sequences m)"
    using ledger_sum_put[OF D(1) st, of "km_reservations m" ?st'] r by simp
  also have "\<dots> \<le> page_count (km_pool m)"
  proof -
    have "km_reservations m \<noteq> []" using r by auto
    then show ?thesis using D(10) by (simp add: ledger_ok_def committed_sum)
  qed
  finally have "sum_list (map seq_blocks_of ?xs) \<le> page_count (km_pool m)" .
  moreover have "length (seq_blocks (st_sequence st)) + sum_list (map seq_blocks_of ?xs) =
      ?k + sum_list (map seq_blocks_of (km_sequences m))"
    using sum_put(2)[OF D(1) st, of seq_blocks_of ?st'] by (simp add: seq_blocks_of_def)
  ultimately show ?thesis unfolding size_seq_leases by linarith
qed

lemma card_set_mset_le: "card (set_mset M) \<le> size M"
  by (induction M) (simp_all add: card_insert_if)

lemma card_set_mset_less: "1 < count M x \<Longrightarrow> card (set_mset M) < size M"
proof -
  assume c: "1 < count M x"
  then obtain N where N: "M = add_mset x N" by (metis count_eq_zero_iff multi_member_split not_less0)
  then have "x \<in># N" using c by (simp add: N)
  then have "set_mset M = set_mset N" using N by auto
  then have "card (set_mset M) \<le> size N" using card_set_mset_le[of N] by simp
  then show ?thesis by (simp add: N)
qed

section \<open>No capacity error inside a reservation\<close>

lemma reserve_pages_succeeds:
  assumes inv: "kv_inv None m" and st: "km_state m i = Some st"
    and e: "seq_used (st_sequence st) \<le> e"
    and cow: "cow \<Longrightarrow> seq_blocks (st_sequence st) \<noteq> [] \<and>
      count (seq_leases m + cache_leases (km_prefix m)) (last (seq_blocks (st_sequence st))) > 1"
    and r: "map_of (km_reservations m) i = Some r" "ceil_div e (km_bt m) \<le> r"
  shows "\<exists>x m'. reserve_pages i (st_sequence st) e cow m = (Inr x, m')"
proof -
  let ?s = "st_sequence st" and ?M = "seq_leases m"
  let ?cnt = "ceil_div e (km_bt m)"
  let ?req = "?cnt - length (seq_blocks ?s)"
  have req: "(if ?cnt > length (seq_blocks ?s) then ?cnt - length (seq_blocks ?s) else 0) = ?req" by simp
  have chk: "reservation_check i ?cnt ?req m = Inr ()" using r by (auto simp: reservation_check_def)
  obtain r1 c p where ev: "evict_loop ?req (last (seq_blocks ?s)) cow (km_prefix m) (km_pool m) = (r1, c, p)"
    by (metis prod_cases3)
  obtain c1 where E: "r1 = Inr c1" "cache_ok (km_bt m) (cache_capacity (km_pool m)) {} c"
      "pool_ok (?M + cache_leases c) p" "pool_config p = pool_config (km_pool m)"
      "c1 \<longrightarrow> cow \<and> count (?M + cache_leases c) (last (seq_blocks ?s)) > 1"
      "?req + (if c1 then 1 else 0) \<le> free_blocks p \<or> pc_lru c = []"
    using evict_for[OF inv st cow ev] by blast
  have room: "?req + (if c1 then 1 else 0) \<le> free_blocks p"
  proof (cases "pc_lru c = []")
    case True
    then have no: "cache_leases c = {#}" by (simp add: cache_leases_def)
    then have pool: "pool_ok ?M p" using E(3) by simp
    have "card (set_mset ?M) + (if c1 then 1 else 0) \<le> size ?M"
      using card_set_mset_le[of ?M] card_set_mset_less[of ?M "last (seq_blocks ?s)"] E(5) no by auto
    moreover have "size ?M + ?req \<le> page_count p" using ledger_room[OF inv st r] E(4) by simp
    moreover have "card (set_mset ?M) + free_blocks p = page_count p"
      using pool_ok_live[OF pool] pool_okD(7)[OF pool] by (simp add: free_blocks_def)
    ultimately show ?thesis by linarith
  qed (use E(6) in simp)
  have bt: "page_tokens p = km_bt m" using E(4) by simp
  obtain s' p' where R: "pool_reserve ?s e p = Inr (s', p')"
    using pool_reserve_succeeds[OF e, of p] room bt by (auto simp: free_blocks_def)
  have nc: "\<not> (c1 \<and> free_blocks p < ?req + 1)" using room by auto
  show ?thesis unfolding reserve_pages_def Let_def req chk sum.case ev prod.case E(1) if_not_P[OF nc] R
    by blast
qed

text \<open>
  C4: admission keeps its promise. Whenever a request holds a reservation and an append of valid
  tokens stays within the context and within the reserved pages, \<open>prepare_append\<close> succeeds: no
  interleaving of other requests, forks and cached prefixes can make it fail for lack of pages,
  even when the shared tail page has to be copied.
\<close>

theorem reservation_guarantee:
  assumes "kv_inv None m" and "km_state m i = Some st"
    and "map_of (km_reservations m) i = Some r"
    and "tokens \<noteq> []" and "tokens_valid tokens m"
    and "int (seq_used (st_sequence st) + length tokens) \<le> km_context m"
    and "ceil_div (seq_used (st_sequence st) + length tokens) (km_bt m) \<le> r"
  shows "\<exists>t m'. prepare_append i tokens m = (Inr t, m') \<and> kv_inv (Some t) m'"
proof -
  note inv = assms(1) and D = kv_invD[OF assms(1)]
  let ?s = "st_sequence st" and ?v = "seq_used (st_sequence st) mod km_bt m"
  note ok = seq_ok_rest[OF kv_invD(5)[OF inv assms(2)]]
  have idle: "idle_state i m = Inr st" using idle_state_iff[OF inv, of i] assms(2) by simp
  have small: "(km_context m - int (seq_used ?s)) mod 2 ^ 64 = km_context m - int (seq_used ?s)"
    using ok(2) D(8,9) by (intro mod_pos_pos_trivial) (auto simp: int32_max_def)
  have ne: "seq_blocks ?s \<noteq> []" if "?v \<noteq> 0" using ok(5) that by (auto simp: ceil_div_def)
  have pool: "pool_ok (seq_leases m + cache_leases (km_prefix m)) (km_pool m)"
    using D(4) by (simp add: txn_leases_def)
  have refs: "references (last (seq_blocks ?s)) (km_pool m) =
      Inr (count (seq_leases m + cache_leases (km_prefix m)) (last (seq_blocks ?s)))" if "?v \<noteq> 0"
  proof (rule pool_ok_references[OF pool])
    have "last (seq_blocks ?s) \<in># mset (seq_blocks ?s)" using ne[OF that] by simp
    then show "last (seq_blocks ?s) \<in># seq_leases m + cache_leases (km_prefix m)"
      using mset_subset_eqD[OF seq_lease_le[OF assms(2)]] by simp
  qed
  have "length tokens \<le> nat (km_context m - int (seq_used ?s))" using assms(6) by linarith
  then have "\<exists>cow. append_checks i tokens m = Inr (?s, cow)"
    using idle assms(4,5) refs
    by (auto simp: append_checks_def Let_def small[simplified] validate_tokens_def not_less)
  then obtain cow where chk: "append_checks i tokens m = Inr (?s, cow)" ..
  have "cow \<longleftrightarrow> 0 < ?v \<and> count (seq_leases m + cache_leases (km_prefix m)) (last (seq_blocks ?s)) > 1"
    using append_checks_ok[OF inv chk] by blast
  then have cowp: "cow \<Longrightarrow> seq_blocks ?s \<noteq> [] \<and>
      count (seq_leases m + cache_leases (km_prefix m)) (last (seq_blocks ?s)) > 1" using ne by auto
  have "\<exists>x m1. reserve_pages i ?s (seq_used ?s + length tokens) cow m = (Inr x, m1)"
    by (rule reserve_pages_succeeds[OF inv assms(2) _ _ assms(3,7)]) (simp, rule cowp)
  then obtain x m1 where rp: "reserve_pages i ?s (seq_used ?s + length tokens) cow m = (Inr x, m1)"
    by blast
  obtain cow' s1 where x: "x = (cow', s1)" by (cases x)
  have G: "\<exists>fresh. grown m i st (seq_used ?s + length tokens) cow cow' s1 fresh m1"
    using reserve_pages_ok[OF inv assms(2) cowp rp] x by simp
  have "\<exists>t m'. prepare_append i tokens m = (Inr t, m')"
  proof (cases cow')
    case False
    then show ?thesis by (simp add: prepare_append_def chk rp x Let_def)
  next
    case True
    from G obtain fresh where "grown m i st (seq_used ?s + length tokens) cow cow' s1 fresh m1" ..
    from grownD(7)[OF this True] have "pool_free (km_pool m1) \<noteq> []" by blast
    then obtain b p where "pool_allocate (km_pool m1) = Inr (b, p)"
      by (cases "pool_free (km_pool m1)") (auto simp: pool_allocate_def)
    then show ?thesis using True by (simp add: prepare_append_def chk rp x Let_def)
  qed
  then obtain t m' where P: "prepare_append i tokens m = (Inr t, m')" by blast
  then show ?thesis using prepare_append_inv[OF inv P] by simp
qed

theorem reservation_guarantee_witness:
  "\<exists>t m'. prepare_append ''a'' [1, 2, 3] demo_manager = (Inr t, m')"
proof -
  have st: "km_state demo_manager ''a'' = Some \<lparr>st_sequence = empty_sequence, st_appending = False\<rparr>"
    and r: "map_of (km_reservations demo_manager) ''a'' = Some 2"
    and f: "km_context demo_manager = 6" "km_bt demo_manager = 2" "tokens_valid [1, 2, 3] demo_manager"
    by (simp_all add: demo_manager_def demo_manager0_def demo_pool_def demo_config_def tokens_valid_def)
  have "ceil_div (Suc (Suc (Suc 0))) 2 \<le> 2" by (simp add: ceil_div_def)
  then show ?thesis
    using reservation_guarantee[OF demo_manager_inv st r _ f(3)] f by auto
qed

end
