(* ===== verification/KV_Payload.thy ===== *)
theory KV_Payload
  imports KV_Guarantee
begin

text \<open>
  The K/V payload behind the page tables. A page slot holds the K/V row (all layers) of one token;
  \<open>row_step rs x\<close> is the arithmetic of the transformer, a parameter: the row of token \<open>x\<close> after the
  tokens with rows \<open>rs\<close>. The theory shows that copy-on-write, sharing and eviction never let a live
  sequence or a cache entry see a row of another history.
\<close>

section \<open>Rows of a history\<close>

type_synonym 'r row_fun = "'r list \<Rightarrow> int \<Rightarrow> 'r"
type_synonym 'r store = "nat \<Rightarrow> nat \<Rightarrow> 'r"

definition rows_of :: "'r row_fun \<Rightarrow> int list \<Rightarrow> 'r list" where
  "rows_of f h = foldl (\<lambda>rs x. rs @ [f rs x]) [] h"

lemma rows_of_Nil [simp]: "rows_of f [] = []"
  by (simp add: rows_of_def)

lemma rows_of_snoc: "rows_of f (h @ [x]) = rows_of f h @ [f (rows_of f h) x]"
  by (simp add: rows_of_def)

lemma length_rows_of [simp]: "length (rows_of f h) = length h"
  by (induction h rule: rev_induct) (simp_all add: rows_of_snoc)

lemma rows_of_take: "rows_of f (take k h) = take k (rows_of f h)"
proof (induction h rule: rev_induct)
  case (snoc x h)
  then show ?case by (cases "k \<le> length h") (simp_all add: rows_of_snoc)
qed simp

lemma rows_of_nth:
  assumes "k < length h"
  shows "rows_of f h ! k = f (rows_of f (take k h)) (h ! k)"
proof -
  have "take (Suc k) h = take k h @ [h ! k]" using assms by (rule take_Suc_conv_app_nth)
  then have "take (Suc k) (rows_of f h) = rows_of f (take k h) @ [f (rows_of f (take k h)) (h ! k)]"
    by (simp add: rows_of_snoc flip: rows_of_take)
  then have "take (Suc k) (rows_of f h) ! k = f (rows_of f (take k h)) (h ! k)"
    using assms by (simp add: nth_append)
  then show ?thesis by simp
qed

lemma rows_of_agree: "take (Suc t) h = take (Suc t) h' \<Longrightarrow> rows_of f h ! t = rows_of f h' ! t"
  by (metis lessI nth_take rows_of_take)

section \<open>Reading and writing pages\<close>

definition read_row :: "nat \<Rightarrow> nat list \<Rightarrow> 'r store \<Rightarrow> nat \<Rightarrow> 'r" where
  "read_row bt bs \<sigma> t = \<sigma> (bs ! (t div bt)) (t mod bt)"

definition read_rows :: "nat \<Rightarrow> nat list \<Rightarrow> 'r store \<Rightarrow> nat \<Rightarrow> 'r list" where
  "read_rows bt bs \<sigma> n = map (read_row bt bs \<sigma>) [0..<n]"

text \<open>The copier of a shared tail page: the valid slots of the source page.\<close>

definition copy_tail :: "tail_copy \<Rightarrow> 'r store \<Rightarrow> 'r store" where
  "copy_tail c \<sigma> = (\<lambda>p k. if p = tc_destination c \<and> k < tc_valid_tokens c then \<sigma> (tc_source c) k else \<sigma> p k)"

text \<open>Computing position \<open>p\<close> reads the rows of all earlier positions and stores one row.\<close>

definition write_row :: "'r row_fun \<Rightarrow> nat \<Rightarrow> nat list \<Rightarrow> nat \<Rightarrow> int \<Rightarrow> 'r store \<Rightarrow> 'r store" where
  "write_row f bt bs p x \<sigma> =
     \<sigma>(bs ! (p div bt) := (\<sigma> (bs ! (p div bt)))(p mod bt := f (read_rows bt bs \<sigma> p) x))"

fun write_rows :: "'r row_fun \<Rightarrow> nat \<Rightarrow> nat list \<Rightarrow> nat \<Rightarrow> int list \<Rightarrow> 'r store \<Rightarrow> 'r store" where
  "write_rows f bt bs p [] \<sigma> = \<sigma>"
| "write_rows f bt bs p (x # xs) \<sigma> = write_rows f bt bs (Suc p) xs (write_row f bt bs p x \<sigma>)"

definition holds_rows :: "'r row_fun \<Rightarrow> nat \<Rightarrow> nat list \<Rightarrow> 'r store \<Rightarrow> int list \<Rightarrow> bool" where
  "holds_rows f bt bs \<sigma> h \<longleftrightarrow> (\<forall>t < length h. read_row bt bs \<sigma> t = rows_of f h ! t)"

lemma holds_rows_read: "holds_rows f bt bs \<sigma> h \<Longrightarrow> read_rows bt bs \<sigma> (length h) = rows_of f h"
  by (rule nth_equalityI) (simp_all add: read_rows_def holds_rows_def)

lemma holds_rows_take: "holds_rows f bt bs \<sigma> h \<Longrightarrow> holds_rows f bt bs \<sigma> (take k h)"
  by (simp add: holds_rows_def rows_of_take)

lemma write_row_other:
  "(pg, k) \<noteq> (bs ! (p div bt), p mod bt) \<Longrightarrow> write_row f bt bs p x \<sigma> pg k = \<sigma> pg k"
  by (auto simp: write_row_def)

lemma write_rows_other:
  "(\<And>q. p \<le> q \<Longrightarrow> q < p + length xs \<Longrightarrow> (pg, k) \<noteq> (bs ! (q div bt), q mod bt)) \<Longrightarrow>
   write_rows f bt bs p xs \<sigma> pg k = \<sigma> pg k"
proof (induction xs arbitrary: p \<sigma>)
  case (Cons x xs)
  have "write_rows f bt bs (Suc p) xs (write_row f bt bs p x \<sigma>) pg k = write_row f bt bs p x \<sigma> pg k"
    by (rule Cons.IH) (use Cons.prems in auto)
  also have "\<dots> = \<sigma> pg k" by (rule write_row_other) (use Cons.prems[of p] in simp)
  finally show ?case by simp
qed simp

text \<open>
  If every position to be written has a slot of its own, distinct from all earlier positions, the
  writes extend the stored history by the new tokens.
\<close>

lemma write_rows_extend:
  assumes "holds_rows f bt bs \<sigma> h"
    and "\<And>q t. length h \<le> q \<Longrightarrow> q < length h + length xs \<Longrightarrow> t < q \<Longrightarrow>
      (bs ! (t div bt), t mod bt) \<noteq> (bs ! (q div bt), q mod bt)"
  shows "holds_rows f bt bs (write_rows f bt bs (length h) xs \<sigma>) (h @ xs)"
  using assms
proof (induction xs arbitrary: h \<sigma>)
  case (Cons x xs)
  let ?p = "length h" and ?\<tau> = "write_row f bt bs (length h) x \<sigma>"
  have step: "holds_rows f bt bs ?\<tau> (h @ [x])"
    unfolding holds_rows_def
  proof (intro allI impI)
    fix t assume t: "t < length (h @ [x])"
    show "read_row bt bs ?\<tau> t = rows_of f (h @ [x]) ! t"
    proof (cases "t = ?p")
      case True
      then show ?thesis using holds_rows_read[OF Cons.prems(1)]
        by (simp add: read_row_def write_row_def rows_of_snoc nth_append)
    next
      case False
      then have "t < ?p" using t by simp
      have "(bs ! (t div bt), t mod bt) \<noteq> (bs ! (?p div bt), ?p mod bt)"
        by (rule Cons.prems(2)) (use \<open>t < ?p\<close> in simp_all)
      from write_row_other[OF this, of f x \<sigma>] show ?thesis using Cons.prems(1) \<open>t < ?p\<close>
        by (simp add: read_row_def holds_rows_def rows_of_snoc nth_append)
    qed
  qed
  have "holds_rows f bt bs (write_rows f bt bs (length (h @ [x])) xs ?\<tau>) ((h @ [x]) @ xs)"
    by (rule Cons.IH[OF step]) (use Cons.prems(2) in auto)
  then show ?case by simp
qed simp

section \<open>The payload invariant\<close>

definition entry_ok :: "'r row_fun \<Rightarrow> 'r store \<Rightarrow> path \<Rightarrow> nat \<Rightarrow> bool" where
  "entry_ok f \<sigma> n b \<longleftrightarrow>
     (\<forall>k < length (last n). \<sigma> b k = rows_of f (concat n) ! (length (concat (butlast n)) + k))"

definition payload_ok :: "'r row_fun \<Rightarrow> kv_manager \<Rightarrow> 'r store \<Rightarrow> bool" where
  "payload_ok f m \<sigma> \<longleftrightarrow>
     (\<forall>i st. km_state m i = Some st \<longrightarrow>
        holds_rows f (km_bt m) (seq_blocks (st_sequence st)) \<sigma> (seq_tokens (st_sequence st))) \<and>
     (\<forall>n b. pc_block (km_prefix m) n = Some b \<longrightarrow> entry_ok f \<sigma> n b)"

lemma payload_okD:
  assumes "payload_ok f m \<sigma>"
  shows "km_state m i = Some st \<Longrightarrow> holds_rows f (km_bt m) (seq_blocks (st_sequence st)) \<sigma> (seq_tokens (st_sequence st))"
    "pc_block (km_prefix m) n = Some b \<Longrightarrow> entry_ok f \<sigma> n b"
  using assms by (auto simp: payload_ok_def)

text \<open>An operation that replaces one sequence and only drops or adds justified cache entries.\<close>

lemma payload_change:
  assumes pay: "payload_ok f m \<sigma>" and par: "same_params m m'"
    and seqs: "\<And>j st'. km_state m' j = Some st' \<Longrightarrow> km_state m j = Some st' \<or>
      holds_rows f (km_bt m) (seq_blocks (st_sequence st')) \<sigma> (seq_tokens (st_sequence st'))"
    and cache: "\<And>n b. pc_block (km_prefix m') n = Some b \<Longrightarrow> pc_block (km_prefix m) n = Some b \<or> entry_ok f \<sigma> n b"
  shows "payload_ok f m' \<sigma>"
proof -
  have "km_bt m' = km_bt m" using par by (simp add: same_params_def)
  then show ?thesis unfolding payload_ok_def using seqs cache payload_okD[OF pay] by metis
qed

lemma shrinks_entry: "shrinks c c' \<Longrightarrow> pc_block c' n = Some b \<Longrightarrow> pc_block c n = Some b"
  by (metis domI map_le_def shrinks_def)

section \<open>Sharing through the cache\<close>

text \<open>A lookup: the matched pages hold the rows of the matched tokens.\<close>

lemma length_concat_const: "\<forall>e \<in> set xs. length e = bt \<Longrightarrow> length (concat xs) = length xs * bt"
  by (induction xs) auto

lemma full_prefix_length:
  assumes "\<forall>e \<in> set (butlast n). length e = bt" and "k < length n"
  shows "length (concat (take k n)) = k * bt"
proof -
  have "take k n = take k (butlast n)" using assms(2) by (simp add: take_butlast)
  then have "\<forall>e \<in> set (take k n). length e = bt" using assms(1) by (metis in_set_takeD)
  from length_concat_const[OF this] show ?thesis using assms(2) by simp
qed

lemma reuse_holds:
  assumes pay: "payload_ok f m \<sigma>" and link: "reuse_link m n prompt cnt s" and bt: "0 < km_bt m"
  shows "holds_rows f (km_bt m) (seq_blocks s) \<sigma> (seq_tokens s)"
  unfolding holds_rows_def
proof (intro allI impI)
  fix t assume "t < length (seq_tokens s)"
  then have t: "t < cnt" "t < length prompt" using link by (auto simp: reuse_link_def)
  have L: "path_pages (km_prefix m) n (seq_blocks s)" "take cnt (concat n) = take cnt prompt"
    "cnt \<le> length (concat n)" "length (seq_blocks s) = ceil_div cnt (km_bt m)"
    "\<forall>e \<in> set (butlast n). length e = km_bt m" "seq_tokens s = take cnt prompt"
    using link by (auto simp: reuse_link_def)
  let ?k = "t div km_bt m" and ?r = "t mod km_bt m"
  have len: "length n = length (seq_blocks s)" using L(1) by (simp add: path_pages_def)
  have k: "?k < length n" using ceil_div_gt[OF bt t(1)] len L(4) by simp
  have b: "pc_block (km_prefix m) (take (Suc ?k) n) = Some (seq_blocks s ! ?k)"
    using L(1) k by (simp add: path_pages_def)
  have tk: "take (Suc ?k) n = take ?k n @ [n ! ?k]" using k by (rule take_Suc_conv_app_nth)
  have base: "length (concat (take ?k n)) = ?k * km_bt m" by (rule full_prefix_length[OF L(5) k])
  have r: "?r < length (n ! ?k)"
  proof (cases "Suc ?k = length n")
    case True
    have "length (concat n) = length (concat (take (Suc ?k) n))" using True by simp
    also have "\<dots> = ?k * km_bt m + length (n ! ?k)" unfolding tk using base by simp
    finally have "t < ?k * km_bt m + length (n ! ?k)" using t(1) L(3) by simp
    then show ?thesis by (metis add_less_cancel_left div_mult_mod_eq)
  next
    case False
    then have "n ! ?k \<in> set (butlast n)" using k by (metis Suc_lessI length_butlast less_diff_conv nth_butlast nth_mem Suc_eq_plus1)
    then show ?thesis using L(5) bt by simp
  qed
  have "read_row (km_bt m) (seq_blocks s) \<sigma> t = rows_of f (concat (take (Suc ?k) n)) ! t"
    using payload_okD(2)[OF pay b] r base by (simp add: entry_ok_def read_row_def tk)
  also have "\<dots> = rows_of f (seq_tokens s) ! t"
  proof (rule rows_of_agree)
    have "length (concat (take (Suc ?k) n)) = ?k * km_bt m + length (n ! ?k)" unfolding tk using base by simp
    moreover have "t = ?k * km_bt m + ?r" by simp
    ultimately have "Suc t \<le> length (concat (take (Suc ?k) n))" using r by linarith
    moreover have "concat n = concat (take (Suc ?k) n) @ concat (drop (Suc ?k) n)"
      by (metis append_take_drop_id concat_append)
    ultimately have "take (Suc t) (concat (take (Suc ?k) n)) = take (Suc t) (concat n)" by simp
    also have "\<dots> = take (Suc t) (take cnt (concat n))" using t(1) by (simp add: min_def)
    also have "\<dots> = take (Suc t) (seq_tokens s)" unfolding L(2,6) ..
    finally show "take (Suc t) (concat (take (Suc ?k) n)) = take (Suc t) (seq_tokens s)" .
  qed
  finally show "read_row (km_bt m) (seq_blocks s) \<sigma> t = rows_of f (seq_tokens s) ! t" .
qed

text \<open>A published page holds the rows its path names.\<close>

lemma publish_entry:
  assumes holds: "holds_rows f bt (seq_blocks s) \<sigma> (seq_tokens s)" and bt: "0 < bt"
    and tok: "length (seq_tokens s) = seq_used s"
  shows "entry_ok f \<sigma> (seq_path bt s (Suc j)) (seq_blocks s ! j)"
  unfolding entry_ok_def
proof (intro allI impI)
  fix k assume "k < length (last (seq_path bt s (Suc j)))"
  then have k: "k < bt" "j * bt + k < seq_used s" using tok by (auto simp: length_seq_page)
  have jk: "(j * bt + k) div bt = j" "(j * bt + k) mod bt = k" using k(1) by simp_all
  have full: "length (concat (seq_path bt s j)) = j * bt"
    using concat_seq_path[OF tok, of bt j] k(2) tok by simp
  have "\<sigma> (seq_blocks s ! j) k = rows_of f (seq_tokens s) ! (j * bt + k)"
    using holds k tok jk unfolding holds_rows_def read_row_def by (metis jk)
  also have "\<dots> = rows_of f (concat (seq_path bt s (Suc j))) ! (j * bt + k)"
    by (rule rows_of_agree) (use k in \<open>simp only: concat_seq_path[OF tok] take_take, simp add: min_def\<close>)
  finally show "\<sigma> (seq_blocks s ! j) k = rows_of f (concat (seq_path bt s (Suc j))) !
      (length (concat (butlast (seq_path bt s (Suc j)))) + k)"
    using full by simp
qed

end
