(* ===== verification/KV_Runner.thy ===== *)
theory KV_Runner
  imports KV_Payload
begin

text \<open>
  \<open>CpuRunner\<close> of \<^verbatim>\<open>miniprefix/src/backend/cpu/llama_runner.cpp\<close>: the KV manager with its payload, and
  \<open>append\<close> as one transaction (prepare, copy the shared tail, compute and store the new rows, read the
  logits, commit or roll back). The arithmetic of the transformer is a parameter: \<open>row_step\<close> for the
  K/V row of a token and \<open>logits_of\<close> for the logits after the last row; \<open>isfinite\<close> is \<open>std::isfinite\<close>.
\<close>

section \<open>Operations without writes keep the payload\<close>

lemma seq_update_payload:
  assumes inv: "kv_inv ap m" and pay: "payload_ok f m \<sigma>" and par: "same_params m m'"
    and seqs: "km_sequences m' = put i st' (km_sequences m)"
    and holds: "holds_rows f (km_bt m) (seq_blocks (st_sequence st')) \<sigma> (seq_tokens (st_sequence st'))"
    and cache: "pc_block (km_prefix m') \<subseteq>\<^sub>m pc_block (km_prefix m)"
  shows "payload_ok f m' \<sigma>"
proof (rule payload_change[OF pay par])
  fix j s assume "km_state m' j = Some s"
  then show "km_state m j = Some s \<or> holds_rows f (km_bt m) (seq_blocks (st_sequence s)) \<sigma> (seq_tokens (st_sequence s))"
    using holds kv_invD(1)[OF inv] seqs by (auto split: if_splits)
next
  fix n b assume "pc_block (km_prefix m') n = Some b"
  then show "pc_block (km_prefix m) n = Some b \<or> entry_ok f \<sigma> n b"
    using cache by (metis domI map_le_def)
qed

lemma holds_empty [simp]: "holds_rows f bt bs \<sigma> []"
  by (simp add: holds_rows_def)

lemma payload_same:
  "payload_ok f m \<sigma> \<Longrightarrow> same_params m m' \<Longrightarrow> km_sequences m' = km_sequences m \<Longrightarrow>
   pc_block (km_prefix m') \<subseteq>\<^sub>m pc_block (km_prefix m) \<Longrightarrow> payload_ok f m' \<sigma>"
  by (rule payload_change) (auto dest: map_le_implies_dom_le simp: map_le_def dom_def)

lemma create_payload:
  assumes inv: "kv_inv ap m" and pay: "payload_ok f m \<sigma>" and r: "km_create i m = (res, m')"
  shows "payload_ok f m' \<sigma>"
proof (cases "res = Inr ()")
  case False
  then show ?thesis using km_create_inv(4)[OF inv r] pay by simp
next
  case True
  have "km_sequences m' = put i \<lparr>st_sequence = empty_sequence, st_appending = False\<rparr> (km_sequences m) \<and>
      km_prefix m' = km_prefix m"
    using r True by (auto simp: km_create_def split: sum.splits if_splits)
  then show ?thesis using seq_update_payload[OF inv pay km_create_inv(2)[OF inv r]] by simp
qed

lemma fork_payload:
  assumes inv: "kv_inv ap m" and pay: "payload_ok f m \<sigma>" and r: "fork_sequence a b m = (res, m')"
  shows "payload_ok f m' \<sigma>"
proof (cases "res = Inr ()")
  case False
  then show ?thesis using fork_sequence_inv(3)[OF inv r] pay by simp
next
  case True
  from fork_sequence_inv(4)[OF inv r True] obtain sa sb where sa: "km_state m a = Some sa"
    and m': "km_prefix m' = km_prefix m" "km_sequences m' = put b (sb\<lparr>st_sequence := st_sequence sa\<rparr>) (km_sequences m)"
    by blast
  show ?thesis
    by (rule seq_update_payload[OF inv pay fork_sequence_inv(2)[OF inv r] m'(2)])
      (use payload_okD(1)[OF pay sa] m'(1) in simp_all)
qed

lemma reuse_payload:
  assumes inv: "kv_inv ap m" and pay: "payload_ok f m \<sigma>" and r: "reuse_prefix i prompt m = (res, m')"
  shows "payload_ok f m' \<sigma>"
proof -
  note out = reuse_prefix_inv[OF inv r, unfolded reuse_outcome_def]
  have par: "same_params m m'" and cb: "pc_block (km_prefix m') = pc_block (km_prefix m)" using out by auto
  show ?thesis
  proof (cases res)
    case (Inl e)
    then consider "km_sequences m' = km_sequences m"
      | st where "km_sequences m' = put i (st\<lparr>st_sequence := empty_sequence\<rparr>) (km_sequences m)"
      using out by auto
    then show ?thesis
    proof cases
      case 1
      then show ?thesis using payload_same[OF pay par] cb by simp
    next
      case 2
      show ?thesis by (rule seq_update_payload[OF inv pay par 2]) (simp_all add: cb)
    qed
  next
    case (Inr cnt)
    then obtain st s n where L: "reuse_link m n prompt cnt s"
      "km_sequences m' = put i (st\<lparr>st_sequence := s\<rparr>) (km_sequences m)" using out by auto
    show ?thesis
      by (rule seq_update_payload[OF inv pay par L(2)])
        (use reuse_holds[OF pay L(1) kv_invD(11)[OF inv]] cb in simp_all)
  qed
qed

lemma cache_prefix_payload:
  assumes inv: "kv_inv ap m" and pay: "payload_ok f m \<sigma>" and r: "cache_prefix i m = (res, m')"
  shows "payload_ok f m' \<sigma>"
proof (cases "res = Inr ()")
  case False
  then show ?thesis using cache_prefix_inv(6)[OF inv r] pay by simp
next
  case True
  note C = cache_prefix_inv[OF inv r]
  have ap: "ap = None" using C(5) True by simp
  from C(7)[OF True] obtain st where st: "km_state m i = Some st" and
    new: "\<forall>n x. pc_block (km_prefix m') n = Some x \<longrightarrow> pc_block (km_prefix m) n = Some x \<or>
         (\<exists>j < publish_pages (st_sequence st) (km_pool m).
            n = seq_path (km_bt m) (st_sequence st) (Suc j) \<and> x = seq_blocks (st_sequence st) ! j)" by blast
  show ?thesis
  proof (rule payload_change[OF pay C(2)])
    show "km_state m j = Some s \<or> holds_rows f (km_bt m) (seq_blocks (st_sequence s)) \<sigma> (seq_tokens (st_sequence s))"
      if "km_state m' j = Some s" for j s using that C(3) by simp
    fix n b assume "pc_block (km_prefix m') n = Some b"
    then consider "pc_block (km_prefix m) n = Some b"
      | j where "n = seq_path (km_bt m) (st_sequence st) (Suc j)" "b = seq_blocks (st_sequence st) ! j"
      using new by blast
    then show "pc_block (km_prefix m) n = Some b \<or> entry_ok f \<sigma> n b"
    proof cases
      case 2
      then show ?thesis
        using publish_entry[OF payload_okD(1)[OF pay st] kv_invD(11)[OF inv]]
          seq_ok_rest(1)[OF kv_invD(5)[OF inv[unfolded ap] st]] by simp
    qed simp
  qed
qed

lemma release_payload:
  assumes inv: "kv_inv ap m" and pay: "payload_ok f m \<sigma>" and r: "km_release i m = (res, m')"
  shows "payload_ok f m' \<sigma>"
proof (cases "res = Inr ()")
  case False
  then show ?thesis using km_release_inv(3)[OF inv r] pay by simp
next
  case True
  then show ?thesis using km_release_inv(2,5)[OF inv r]
    by (intro payload_change[OF pay]) (auto split: if_splits)
qed

lemma clear_payload:
  assumes inv: "kv_inv ap m" and pay: "payload_ok f m \<sigma>" and r: "km_clear m = (res, m')"
  shows "payload_ok f m' \<sigma>"
proof (cases "res = Inr ()")
  case False
  then show ?thesis using km_clear_inv(4)[OF inv r] pay by simp
next
  case True
  then show ?thesis using km_clear_inv(2,5)[OF inv r]
    by (intro payload_change[OF pay]) auto
qed

section \<open>The append of the runner\<close>

type_synonym 'r runner = "kv_manager \<times> 'r store"

definition seq_of :: "kv_manager \<Rightarrow> request_id \<Rightarrow> paged_sequence" where
  "seq_of m i = st_sequence (the (km_state m i))"

text \<open>The body of \<open>append\<close> after \<open>prepare_append\<close>; an exception destroys the transaction, which rolls it back.\<close>

definition tail_copied :: "append_txn \<Rightarrow> 'r store \<Rightarrow> 'r store" where
  "tail_copied t \<sigma> = (case ap_copy t of None \<Rightarrow> \<sigma> | Some c \<Rightarrow> copy_tail c \<sigma>)"

definition compute_rows :: "'r row_fun \<Rightarrow> append_txn \<Rightarrow> kv_manager \<Rightarrow> 'r store \<Rightarrow> 'r store" where
  "compute_rows f t m \<sigma> =
     (let s = seq_of m (ap_id t) in
      write_rows f (km_bt m) (seq_blocks s) (seq_used s) (ap_tokens t) (tail_copied t \<sigma>))"

definition runner_append ::
    "'r row_fun \<Rightarrow> ('r list \<Rightarrow> 'v list) \<Rightarrow> ('v \<Rightarrow> bool) \<Rightarrow> request_id \<Rightarrow> int list \<Rightarrow> ('r runner, 'v list) eff" where
  "runner_append f logits_of isfinite i tokens w =
     (case prepare_append i tokens (fst w) of
        (Inl e, m) \<Rightarrow> (Inl e, (m, snd w))
      | (Inr t, m) \<Rightarrow>
        let s = seq_of m i;
            t' = copy_shared_tail_region True t;
            \<sigma> = compute_rows f t' m (snd w);
            logits = logits_of (read_rows (km_bt m) (seq_blocks s) \<sigma> (seq_used s + length tokens))
        in if \<not> list_all isfinite logits
           then (Inl (Runtime_error ''nonfinite logits''), (append_rollback t' m, \<sigma>))
           else (case append_commit t' m of
                   (Inl e, m') \<Rightarrow> (Inl e, (append_rollback t' m', \<sigma>))
                 | (Inr _, m') \<Rightarrow> (Inr logits, (m', \<sigma>))))"

section \<open>Isolation of the running transaction\<close>

lemma other_leases:
  assumes D: "amap_ok (km_sequences m)" and st: "km_state m i = Some st"
    and R: "seq_leases m = mset (seq_blocks (st_sequence st)) + R"
    and j: "km_state m j = Some sj" "j \<noteq> i"
  shows "set (seq_blocks (st_sequence sj)) \<subseteq> set_mset R"
proof -
  have "mset (seq_blocks (st_sequence st)) + sum_list (map seq_lease (erase i (km_sequences m))) = seq_leases m"
    unfolding seq_leases_def by (rule seq_lease_erase[OF D st])
  then have "R = sum_list (map seq_lease (erase i (km_sequences m)))" using R by simp
  moreover have "km_state (m\<lparr>km_sequences := erase i (km_sequences m)\<rparr>) j = Some sj" using j by simp
  from seq_lease_le[OF this] have "mset (seq_blocks (st_sequence sj)) \<subseteq># sum_list (map seq_lease (erase i (km_sequences m)))"
    by (simp add: seq_leases_def)
  ultimately show ?thesis using set_mset_mono by fastforce
qed

lemma count_two:
  assumes "i < j" and "j < length xs" and "xs ! i = xs ! j"
  shows "2 \<le> count (mset xs) (xs ! j)"
proof -
  have "xs ! i \<in> set (take j xs)" using assms(1,2) by (metis in_set_conv_nth length_take min.absorb4 nth_take)
  then have "1 \<le> count (mset (take j xs)) (xs ! j)" using assms(3) by (simp add: Suc_le_eq)
  moreover have "xs = take j xs @ xs ! j # drop (Suc j) xs" using assms(2) by (rule id_take_nth_drop)
  then have "count (mset xs) (xs ! j) = count (mset (take j xs)) (xs ! j) + Suc (count (mset (drop (Suc j) xs)) (xs ! j))"
    by (metis add_Suc_right count_add_mset count_union mset.simps(2) mset_append)
  ultimately show ?thesis by linarith
qed

text \<open>
  A page slot that the transaction writes: nobody else leases the page, and the position has it
  alone among all earlier positions of the sequence.
\<close>

lemma write_isolated:
  assumes inv: "kv_inv None m" and st: "km_state m (ap_id t) = Some st" and s: "started m st t bs m'"
    and len: "length bs = ceil_div (seq_used (st_sequence st) + n) (km_bt m)"
    and R: "seq_leases m = mset (seq_blocks (st_sequence st)) + R"
    and q: "seq_used (st_sequence st) \<le> q" "q < seq_used (st_sequence st) + n"
  shows "bs ! (q div km_bt m) \<notin># R + cache_leases (km_prefix m')"
    and "p < q \<Longrightarrow> (bs ! (p div km_bt m), p mod km_bt m) \<noteq> (bs ! (q div km_bt m), q mod km_bt m)"
    and "ap_copy t \<noteq> None \<Longrightarrow> bs ! (q div km_bt m) \<notin># seq_leases m + cache_leases (km_prefix m')"
proof -
  let ?s = "st_sequence st" and ?bt = "km_bt m"
  define L where "L = seq_leases m + cache_leases (km_prefix m')"
  define N where "N = length (seq_blocks ?s)"
  have bt: "0 < ?bt" using kv_invD(11)[OF inv] .
  have N: "N = ceil_div (seq_used ?s) ?bt" using seq_ok_rest(5)[OF kv_invD(5)[OF inv st]] by (simp add: N_def)
  have S: "N \<le> length bs" "\<And>j. j < N \<Longrightarrow> bs ! j = (case ap_copy t of None \<Rightarrow> seq_blocks ?s ! j
          | Some c \<Rightarrow> if j = N - 1 then tc_destination c else seq_blocks ?s ! j)"
    "\<And>j. N \<le> j \<Longrightarrow> j < length bs \<Longrightarrow> bs ! j \<notin># L" "distinct (drop N bs)"
    "\<And>c. ap_copy t = Some c \<Longrightarrow> 0 < N \<and> tc_destination c \<notin># L \<and> tc_destination c \<notin> set (drop N bs)"
    "ap_copy t = None \<Longrightarrow> 0 < seq_used ?s mod ?bt \<Longrightarrow> count L (last (seq_blocks ?s)) = 1"
    using s unfolding started_def Let_def L_def N_def by auto
  have own: "seq_blocks ?s ! j \<in># L" if "j < N" for j
    using that unfolding L_def R N_def by simp
  have qi: "q div ?bt < length bs" using ceil_div_gt[OF bt q(2)] len by simp
  have sub: "R + cache_leases (km_prefix m') \<subseteq># L" unfolding L_def R by simp
  have old: "q div ?bt = N - 1 \<and> 0 < seq_used ?s mod ?bt \<and> 0 < N" if "q div ?bt < N"
  proof -
    have "seq_used ?s div ?bt \<le> q div ?bt" using q(1) by (rule div_le_mono)
    then show ?thesis using that N by (auto simp: ceil_div_def split: if_splits)
  qed
  show "bs ! (q div ?bt) \<notin># seq_leases m + cache_leases (km_prefix m')" if copy: "ap_copy t \<noteq> None"
  proof (cases "q div ?bt < N")
    case False
    then show ?thesis using S(3)[OF _ qi] by (simp add: L_def[symmetric])
  next
    case True
    obtain c where "ap_copy t = Some c" using copy by blast
    then show ?thesis using S(2)[of "N - 1"] S(5) old[OF True] by (simp add: L_def[symmetric])
  qed
  show "bs ! (q div ?bt) \<notin># R + cache_leases (km_prefix m')"
  proof (cases "q div ?bt < N")
    case False
    then show ?thesis using S(3)[OF _ qi] sub by (metis mset_subset_eqD not_less)
  next
    case True
    note o = old[OF True]
    show ?thesis
    proof (cases "ap_copy t")
      case (Some c)
      then show ?thesis using S(2)[of "N - 1"] S(5)[OF Some] o sub by (auto dest: mset_subset_eqD)
    next
      case None
      have "last (seq_blocks ?s) = seq_blocks ?s ! (N - 1)" using o by (simp add: last_conv_nth N_def)
      then have bq: "bs ! (q div ?bt) = last (seq_blocks ?s)" using S(2)[of "N - 1"] None o by simp
      have "last (seq_blocks ?s) \<in> set (seq_blocks ?s)" using o unfolding N_def by simp
      then have "0 < count (mset (seq_blocks ?s)) (last (seq_blocks ?s))" by simp
      moreover have "count L (last (seq_blocks ?s)) = count (mset (seq_blocks ?s)) (last (seq_blocks ?s)) +
          count (R + cache_leases (km_prefix m')) (last (seq_blocks ?s))"
        unfolding L_def R by simp
      ultimately have "count (R + cache_leases (km_prefix m')) (last (seq_blocks ?s)) = 0"
        using S(6)[OF None] o by linarith
      then show ?thesis unfolding bq by (simp only: count_eq_zero_iff not_False_eq_True)
    qed
  qed
  show "(bs ! (p div ?bt), p mod ?bt) \<noteq> (bs ! (q div ?bt), q mod ?bt)" if p: "p < q"
  proof
    assume e: "(bs ! (p div ?bt), p mod ?bt) = (bs ! (q div ?bt), q mod ?bt)"
    have le: "p div ?bt \<le> q div ?bt" using p by (simp add: div_le_mono)
    have ne: "p div ?bt \<noteq> q div ?bt"
    proof
      assume "p div ?bt = q div ?bt"
      then have "p = q" using e by (metis Pair_inject div_mult_mod_eq)
      then show False using p by simp
    qed
    then have lt: "p div ?bt < q div ?bt" using le by simp
    show False
    proof (cases "q div ?bt < N")
      case False
      show ?thesis
      proof (cases "p div ?bt < N")
        case True
        show ?thesis
        proof (cases "ap_copy t")
          case None
          then have "bs ! (p div ?bt) \<in># L" using S(2)[OF True] own[OF True] by simp
          then show ?thesis using e S(3)[OF _ qi] False by simp
        next
          case (Some c)
          have "bs ! (q div ?bt) \<in> set (drop N bs)"
            using False qi nth_mem[of "q div ?bt - N" "drop N bs"] S(1) by simp
          then show ?thesis using e S(2)[OF True] own[OF True] S(3)[OF _ qi] S(5)[OF Some] Some False
            by (auto split: if_splits)
        qed
      next
        case pN: False
        define x y where "x = p div ?bt" and "y = q div ?bt"
        have xy: "N \<le> x" "x < y" "y < length bs" "bs ! x = bs ! y"
          using lt qi pN e unfolding x_def y_def by auto
        then have "drop N bs ! (x - N) = drop N bs ! (y - N)" using S(1) by simp
        moreover have "x - N < length (drop N bs)" "y - N < length (drop N bs)" using xy by simp_all
        ultimately have "x - N = y - N" using nth_eq_iff_index_eq[OF S(4)] by blast
        then show ?thesis using xy by simp
      qed
    next
      case True
      note o = old[OF True]
      have pN: "p div ?bt < N - 1" using lt o by simp
      show ?thesis
      proof (cases "ap_copy t")
        case (Some c)
        have "bs ! (p div ?bt) = seq_blocks ?s ! (p div ?bt)" "bs ! (q div ?bt) = tc_destination c"
          using S(2)[of "p div ?bt"] S(2)[of "N - 1"] Some pN o by auto
        moreover have "p div ?bt < N" using pN by linarith
        ultimately show ?thesis using own[of "p div ?bt"] e S(5)[OF Some] by auto
      next
        case None
        have eq: "seq_blocks ?s ! (p div ?bt) = seq_blocks ?s ! (N - 1)"
          using S(2)[of "p div ?bt"] S(2)[of "N - 1"] None pN o e by auto
        have "last (seq_blocks ?s) = seq_blocks ?s ! (N - 1)" using o by (simp add: last_conv_nth N_def)
        then have "2 \<le> count (mset (seq_blocks ?s)) (last (seq_blocks ?s))"
          using count_two[of "p div ?bt" "N - 1" "seq_blocks ?s"] eq pN o by (simp add: N_def)
        moreover have "count (mset (seq_blocks ?s)) (last (seq_blocks ?s)) \<le> count L (last (seq_blocks ?s))"
          unfolding L_def R by simp
        ultimately show ?thesis using S(6)[OF None] o by linarith
      qed
    qed
  qed
qed

section \<open>Correctness of the append\<close>

lemma holds_cong:
  assumes "holds_rows f bt bs \<sigma> h"
    and "\<And>t. t < length h \<Longrightarrow> \<tau> (bs ! (t div bt)) (t mod bt) = \<sigma> (bs ! (t div bt)) (t mod bt)"
  shows "holds_rows f bt bs \<tau> h"
  using assms by (simp add: holds_rows_def read_row_def)

text \<open>What the transaction leaves alone: pages of others, and the old rows of the sequence itself.\<close>

lemma computed_frame:
  fixes \<sigma> :: "'r store" and f :: "'r row_fun"
  assumes inv: "kv_inv None m" and st: "km_state m (ap_id t) = Some st" and s: "started m st t bs m'"
    and len: "length bs = ceil_div (seq_used (st_sequence st) + length xs) (km_bt m)"
    and R: "seq_leases m = mset (seq_blocks (st_sequence st)) + R"
  defines "\<tau> \<equiv> write_rows f (km_bt m) bs (seq_used (st_sequence st)) xs (tail_copied t \<sigma>)"
  shows "pg \<in># R + cache_leases (km_prefix m') \<Longrightarrow> \<tau> pg k = \<sigma> pg k"
    and "p < seq_used (st_sequence st) \<Longrightarrow>
      \<tau> (seq_blocks (st_sequence st) ! (p div km_bt m)) (p mod km_bt m) =
      \<sigma> (seq_blocks (st_sequence st) ! (p div km_bt m)) (p mod km_bt m)"
proof -
  let ?s = "st_sequence st" and ?bt = "km_bt m"
  note iso = write_isolated[OF inv st s len R]
  have dest: "tc_destination c \<notin># seq_leases m + cache_leases (km_prefix m')" if "ap_copy t = Some c" for c
    using s that unfolding started_def Let_def by blast
  have tail: "tail_copied t \<sigma> pg k = \<sigma> pg k" if "pg \<in># seq_leases m + cache_leases (km_prefix m')" for pg k
    using dest that by (auto simp: tail_copied_def copy_tail_def split: option.splits)
  show "\<tau> pg k = \<sigma> pg k" if pg: "pg \<in># R + cache_leases (km_prefix m')"
  proof -
    have "\<tau> pg k = tail_copied t \<sigma> pg k" unfolding \<tau>_def
      by (rule write_rows_other) (use iso(1) pg in force)
    also have "\<dots> = \<sigma> pg k" by (rule tail) (use pg R in auto)
    finally show ?thesis .
  qed
  show "\<tau> (seq_blocks ?s ! (p div ?bt)) (p mod ?bt) = \<sigma> (seq_blocks ?s ! (p div ?bt)) (p mod ?bt)"
    if p: "p < seq_used ?s"
  proof -
    let ?pg = "seq_blocks ?s ! (p div ?bt)"
    have j: "p div ?bt < length (seq_blocks ?s)"
      using ceil_div_gt[OF kv_invD(11)[OF inv] p] seq_ok_rest(5)[OF kv_invD(5)[OF inv st]] by simp
    then have L: "?pg \<in># seq_leases m + cache_leases (km_prefix m')" using R by simp
    have "\<tau> ?pg (p mod ?bt) = tail_copied t \<sigma> ?pg (p mod ?bt)" unfolding \<tau>_def
    proof (rule write_rows_other)
      fix q assume q: "seq_used ?s \<le> q" "q < seq_used ?s + length xs"
      show "(?pg, p mod ?bt) \<noteq> (bs ! (q div ?bt), q mod ?bt)"
      proof (cases "ap_copy t")
        case None
        then have "bs ! (p div ?bt) = ?pg" using s j unfolding started_def Let_def by simp
        then show ?thesis using iso(2)[OF q, of p] p q(1) by simp
      next
        case (Some c)
        then show ?thesis using iso(3)[OF q] L by auto
      qed
    qed
    also have "\<dots> = \<sigma> ?pg (p mod ?bt)" by (rule tail[OF L])
    finally show ?thesis .
  qed
qed

text \<open>After the computation the sequence's pages hold its old tokens followed by the new ones.\<close>

lemma computed_holds:
  assumes inv: "kv_inv None m" and pay: "payload_ok f m \<sigma>" and st: "km_state m (ap_id t) = Some st"
    and s: "started m st t bs m'"
    and len: "length bs = ceil_div (seq_used (st_sequence st) + length xs) (km_bt m)"
  shows "holds_rows f (km_bt m) bs
    (write_rows f (km_bt m) bs (seq_used (st_sequence st)) xs (tail_copied t \<sigma>))
    (seq_tokens (st_sequence st) @ xs)"
proof -
  let ?s = "st_sequence st" and ?bt = "km_bt m" and ?\<sigma> = "tail_copied t \<sigma>"
  obtain R where R: "seq_leases m = mset (seq_blocks ?s) + R" using seq_leases_split[OF st] ..
  note ok = seq_ok_rest[OF kv_invD(5)[OF inv st]] and bt = kv_invD(11)[OF inv]
  define N where "N = length (seq_blocks ?s)"
  have N: "N = ceil_div (seq_used ?s) ?bt" using ok(5) by (simp add: N_def)
  have S: "\<And>j. j < N \<Longrightarrow> bs ! j = (case ap_copy t of None \<Rightarrow> seq_blocks ?s ! j
          | Some c \<Rightarrow> if j = N - 1 then tc_destination c else seq_blocks ?s ! j)"
    "\<And>c. ap_copy t = Some c \<Longrightarrow> tc_destination c \<notin># seq_leases m \<and> tc_source c = last (seq_blocks ?s) \<and>
       tc_valid_tokens c = seq_used ?s mod ?bt \<and> 0 < seq_used ?s mod ?bt"
    using s unfolding started_def Let_def N_def by auto
  have "holds_rows f ?bt bs ?\<sigma> (seq_tokens ?s)"
    unfolding holds_rows_def
  proof (intro allI impI)
    fix p assume "p < length (seq_tokens ?s)"
    then have p: "p < seq_used ?s" using ok(1) by simp
    let ?j = "p div ?bt" and ?k = "p mod ?bt"
    have j: "?j < N" using ceil_div_gt[OF bt p] N by simp
    have old: "\<sigma> (seq_blocks ?s ! ?j) ?k = rows_of f (seq_tokens ?s) ! p"
      using payload_okD(1)[OF pay st] p ok(1) by (simp add: holds_rows_def read_row_def)
    have own: "seq_blocks ?s ! ?j \<in># seq_leases m" using j by (simp add: R N_def)
    have "?\<sigma> (bs ! ?j) ?k = \<sigma> (seq_blocks ?s ! ?j) ?k"
    proof (cases "ap_copy t")
      case None
      then show ?thesis using S(1)[OF j] by (simp add: tail_copied_def)
    next
      case (Some c)
      show ?thesis
      proof (cases "?j = N - 1")
        case True
        have "N - 1 = seq_used ?s div ?bt" using S(2)[OF Some] N by (simp add: ceil_div_def)
        then have "?k < seq_used ?s mod ?bt" using p True
          by (metis div_mult_mod_eq nat_add_left_cancel_less)
        moreover have "last (seq_blocks ?s) = seq_blocks ?s ! ?j"
        proof -
          have "seq_blocks ?s \<noteq> []" using j N_def by auto
          then show ?thesis using True by (simp add: last_conv_nth N_def)
        qed
        ultimately show ?thesis using S(1)[OF j] S(2)[OF Some] Some True
          by (simp add: tail_copied_def copy_tail_def)
      next
        case False
        then have "bs ! ?j = seq_blocks ?s ! ?j" using S(1)[OF j] Some by simp
        then show ?thesis using S(2)[OF Some] own Some by (auto simp: tail_copied_def copy_tail_def)
      qed
    qed
    then show "read_row ?bt bs ?\<sigma> p = rows_of f (seq_tokens ?s) ! p" using old by (simp add: read_row_def)
  qed
  then have "holds_rows f ?bt bs (write_rows f ?bt bs (length (seq_tokens ?s)) xs ?\<sigma>) (seq_tokens ?s @ xs)"
    by (rule write_rows_extend) (use write_isolated(2)[OF inv st s len R] ok(1) in auto)
  then show ?thesis using ok(1) by simp
qed

lemma rollback_copied [simp]: "append_rollback (t\<lparr>ap_copied := b\<rparr>) m = append_rollback t m"
  by (cases t, hypsubst, unfold append_rollback_def append_txn.select_convs append_txn.update_convs, rule refl)

definition append_effect ::
    "'r row_fun \<Rightarrow> ('r list \<Rightarrow> 'v list) \<Rightarrow> ('v \<Rightarrow> bool) \<Rightarrow> request_id \<Rightarrow> int list \<Rightarrow> kv_manager \<Rightarrow>
       'v list result \<Rightarrow> kv_manager \<Rightarrow> bool" where
  "append_effect f logits_of isfinite i xs m res m' \<longleftrightarrow>
     (case res of
        Inl e \<Rightarrow> km_sequences m' = km_sequences m
      | Inr logits \<Rightarrow> xs \<noteq> [] \<and> list_all isfinite logits \<and>
          (\<exists>st s'. km_state m i = Some st \<and> seq_tokens s' = seq_tokens (st_sequence st) @ xs \<and>
             logits = logits_of (rows_of f (seq_tokens s')) \<and>
             km_sequences m' = put i \<lparr>st_sequence = s', st_appending = False\<rparr> (km_sequences m)))"

lemma runner_append_ok:
  assumes inv: "kv_inv None m" and pay: "payload_ok f m \<sigma>"
    and r: "runner_append f logits_of isfinite i xs (m, \<sigma>) = (res, (m', \<sigma>'))"
  shows "kv_inv None m' \<and> payload_ok f m' \<sigma>' \<and> same_params m m' \<and>
    km_reservations m' = km_reservations m \<and> append_effect f logits_of isfinite i xs m res m'"
proof -
  obtain r1 m1 where prep: "prepare_append i xs m = (r1, m1)" by fastforce
  note P = prepare_append_inv[OF inv prep]
  show ?thesis
  proof (cases r1)
    case (Inl e)
    then have "res = Inl e" "m' = m1" "\<sigma>' = \<sigma>" using r prep by (simp_all add: runner_append_def)
    then show ?thesis using P Inl payload_same[OF pay] by (simp add: append_effect_def shrinks_def)
  next
    case (Inr t)
    from P Inr obtain st bs where par1: "same_params m m1" and res1: "km_reservations m1 = km_reservations m"
      and shr: "shrinks (km_prefix m) (km_prefix m1)" and id: "ap_id t = i" "ap_tokens t = xs"
      and inv1: "kv_inv (Some t) m1" and st0: "km_state m i = Some st" and started0: "started m st t bs m1"
      by auto
    note st = st0[folded id(1)]
    let ?s = "st_sequence st" and ?bt = "km_bt m"
    have bt1: "km_bt m1 = ?bt" using par1 by (simp add: same_params_def)
    note D = kv_invD[OF inv] and ok = seq_ok_rest[OF kv_invD(5)[OF inv st]]
    have seqs1: "km_sequences m1 = put i \<lparr>st_sequence = ?s\<lparr>seq_blocks := bs\<rparr>, st_appending = True\<rparr> (km_sequences m)"
      using started0 id by (simp add: started_def Let_def)
    then have st1: "km_state m1 (ap_id t) = Some \<lparr>st_sequence = ?s\<lparr>seq_blocks := bs\<rparr>, st_appending = True\<rparr>"
      using D(1) id by simp
    have seqof: "seq_of m1 i = ?s\<lparr>seq_blocks := bs\<rparr>" using st1 id by (simp add: seq_of_def)
    have txn: "txn_ok m1 t (?s\<lparr>seq_blocks := bs\<rparr>)" using txn_state[OF inv1] st1 by auto
    have len: "length bs = ceil_div (seq_used ?s + length xs) ?bt" and ne: "xs \<noteq> []"
      using txn id bt1 by (simp_all add: txn_ok_def)
    define \<tau> where "\<tau> = write_rows f ?bt bs (seq_used ?s) xs (tail_copied t \<sigma>)"
    define t' where "t' = copy_shared_tail_region True t"
    have t': "t' = t \<or> t' = t\<lparr>ap_copied := True\<rparr>" "ap_copy t' \<noteq> None \<Longrightarrow> ap_copied t'"
      "ap_copy t' = ap_copy t" "ap_id t' = i" "ap_tokens t' = xs"
      using id by (auto simp: t'_def copy_shared_tail_region_def)
    have inv1': "kv_inv (Some t') m1" using inv1 t'(1) by auto
    have comp: "compute_rows f t' m1 \<sigma> = \<tau>"
      unfolding compute_rows_def Let_def t'(4,5) seqof bt1 \<tau>_def tail_copied_def t'(3) by simp
    obtain R where R: "seq_leases m = mset (seq_blocks ?s) + R" using seq_leases_split[OF st] ..
    note frame = computed_frame[OF inv st started0 len R, where f = f and \<sigma> = \<sigma>, folded \<tau>_def]
    have holds: "holds_rows f ?bt bs \<tau> (seq_tokens ?s @ xs)"
      unfolding \<tau>_def by (rule computed_holds[OF inv pay st started0 len])
    then have read: "read_rows ?bt bs \<tau> (seq_used ?s + length xs) = rows_of f (seq_tokens ?s @ xs)"
      using holds_rows_read[OF holds] ok(1) by simp
    define logits where "logits = logits_of (rows_of f (seq_tokens ?s @ xs))"
    have fields: "seq_blocks (?s\<lparr>seq_blocks := bs\<rparr>) = bs" "seq_used (?s\<lparr>seq_blocks := bs\<rparr>) = seq_used ?s"
      by simp_all
    have run: "runner_append f logits_of isfinite i xs (m, \<sigma>) =
      (if \<not> list_all isfinite logits
       then (Inl (Runtime_error ''nonfinite logits''), (append_rollback t' m1, \<tau>))
       else (case append_commit t' m1 of
               (Inl e, m') \<Rightarrow> (Inl e, (append_rollback t' m', \<tau>))
             | (Inr _, m') \<Rightarrow> (Inr logits, (m', \<tau>))))"
      unfolding runner_append_def fst_conv snd_conv prep Inr Let_def prod.case sum.case
        t'_def[symmetric] seqof bt1 comp fields read logits_def[symmetric]
      by (rule refl)
    have others: "holds_rows f ?bt (seq_blocks (st_sequence sj)) \<tau> (seq_tokens (st_sequence sj))"
      if sj: "km_state m j = Some sj" "j \<noteq> i" for j sj
    proof (rule holds_cong[OF payload_okD(1)[OF pay sj(1)]])
      fix p assume p: "p < length (seq_tokens (st_sequence sj))"
      note okj = seq_ok_rest[OF kv_invD(5)[OF inv sj(1)]]
      have "p div ?bt < length (seq_blocks (st_sequence sj))"
        using ceil_div_gt[OF D(11), of p "seq_used (st_sequence sj)"] p okj by simp
      then have "seq_blocks (st_sequence sj) ! (p div ?bt) \<in> set_mset R"
        using other_leases[OF D(1) st R sj(1)] sj(2) id by auto
      then show "\<tau> (seq_blocks (st_sequence sj) ! (p div ?bt)) (p mod ?bt) =
          \<sigma> (seq_blocks (st_sequence sj) ! (p div ?bt)) (p mod ?bt)" using frame(1) by simp
    qed
    have entries: "entry_ok f \<tau> n b" if n: "pc_block (km_prefix m1) n = Some b" for n b
    proof -
      have "entry_ok f \<sigma> n b" using payload_okD(2)[OF pay shrinks_entry[OF shr n]] .
      moreover have "b \<in># cache_leases (km_prefix m1)"
        using cache_leases_mem[OF n cache_okD(3)[OF kv_invD(3)[OF inv1]]] .
      ultimately show ?thesis using frame(1)[of b] by (simp add: entry_ok_def)
    qed
    have pay_final: "payload_ok f m2 \<tau>"
      if m2: "km_sequences m2 = put i \<lparr>st_sequence = s2, st_appending = False\<rparr> (km_sequences m)"
        "km_prefix m2 = km_prefix m1" "same_params m m2"
        "holds_rows f ?bt (seq_blocks s2) \<tau> (seq_tokens s2)" for m2 s2
      unfolding payload_ok_def
    proof (intro conjI allI impI)
      fix j sj assume "km_state m2 j = Some sj"
      then show "holds_rows f (km_bt m2) (seq_blocks (st_sequence sj)) \<tau> (seq_tokens (st_sequence sj))"
        using m2 others[of j sj] D(1) by (cases "j = i") (auto simp: same_params_def)
    next
      fix n b assume "pc_block (km_prefix m2) n = Some b"
      then show "entry_ok f \<tau> n b" using entries m2(2) by simp
    qed
    have roll: "kv_inv None (append_rollback t' m1) \<and> payload_ok f (append_rollback t' m1) \<tau> \<and>
      same_params m (append_rollback t' m1) \<and> km_reservations (append_rollback t' m1) = km_reservations m \<and>
      km_sequences (append_rollback t' m1) = km_sequences m"
    proof -
      note RB = append_rollback_inv[OF inv1']
      have rb: "append_rollback t' m1 = append_rollback t m1" using t'(1) by auto
      have seqs: "km_sequences (append_rollback t' m1) = km_sequences m"
        unfolding rb by (rule rollback_restores[OF D(1) st ok(4) started0 inv1])
      have par: "same_params m (append_rollback t' m1)" using same_params_trans[OF par1] RB by blast
      have "payload_ok f (append_rollback t' m1) \<tau>"
        unfolding payload_ok_def
      proof (intro conjI allI impI)
        fix j sj assume "km_state (append_rollback t' m1) j = Some sj"
        then have sj: "km_state m j = Some sj" using seqs by simp
        have "holds_rows f ?bt (seq_blocks (st_sequence sj)) \<tau> (seq_tokens (st_sequence sj))"
        proof (cases "j = i")
          case True
          then have e: "sj = st" using sj st id by simp
          show ?thesis unfolding e
            by (rule holds_cong[OF payload_okD(1)[OF pay st]]) (use frame(2) ok(1) in simp)
        next
          case False
          then show ?thesis using others[OF sj] by simp
        qed
        then show "holds_rows f (km_bt (append_rollback t' m1)) (seq_blocks (st_sequence sj)) \<tau> (seq_tokens (st_sequence sj))"
          using par by (simp add: same_params_def)
      next
        fix n b assume "pc_block (km_prefix (append_rollback t' m1)) n = Some b"
        then show "entry_ok f \<tau> n b" using entries RB by simp
      qed
      then show ?thesis using RB seqs par res1 by simp
    qed
    show ?thesis
    proof (cases "list_all isfinite logits")
      case False
      then have "res = Inl (Runtime_error ''nonfinite logits'')" "m' = append_rollback t' m1" "\<sigma>' = \<tau>"
        using r run by simp_all
      then show ?thesis using roll by (simp add: append_effect_def)
    next
      case fin: True
      obtain r2 m2 where com: "append_commit t' m1 = (r2, m2)" by fastforce
      note C = append_commit_inv[OF inv1' com]
      obtain u where r2: "r2 = Inr u" using C t'(2) by (cases r2) auto
      have res: "res = Inr logits" "m' = m2" "\<sigma>' = \<tau>" using r run fin com r2 by simp_all
      define s2 where "s2 = ?s\<lparr>seq_blocks := bs, seq_tokens := seq_tokens ?s @ xs, seq_used := seq_used ?s + length xs\<rparr>"
      have C': "kv_inv None m2" "same_params m1 m2" "km_reservations m2 = km_reservations m1"
        "km_prefix m2 = km_prefix m1"
        using C r2 by simp_all
      from C r2 obtain st' where st': "km_state m1 i = Some st'"
        "km_sequences m2 = put i
             \<lparr>st_sequence = (st_sequence st')\<lparr>seq_tokens := seq_tokens (st_sequence st') @ xs,
                seq_used := seq_used (st_sequence st') + length xs\<rparr>, st_appending = False\<rparr>
             (km_sequences m1)" using t'(4,5) by auto
      have "st_sequence st' = ?s\<lparr>seq_blocks := bs\<rparr>" using st'(1) st1 id by simp
      then have seqs2: "km_sequences m2 = put i \<lparr>st_sequence = s2, st_appending = False\<rparr> (km_sequences m)"
        using st'(2) seqs1 put_put[OF D(1)] by (simp add: s2_def)
      have par2: "same_params m m2" by (rule same_params_trans[OF par1 C'(2)])
      have "payload_ok f m2 \<tau>"
        by (rule pay_final[OF seqs2 C'(4) par2]) (use holds in \<open>simp add: s2_def\<close>)
      moreover have "seq_tokens s2 = seq_tokens ?s @ xs" by (simp add: s2_def)
      then have "append_effect f logits_of isfinite i xs m (Inr logits) m2"
        unfolding append_effect_def sum.case using ne fin st0 seqs2 logits_def by metis
      ultimately show ?thesis using res C' par2 res1 by simp
    qed
  qed
qed

end
