(* ===== verification/Model_Runner.thy ===== *)
theory Model_Runner
  imports KV_Runner
begin

text \<open>
  The virtual interface \<open>ModelRunner\<close> of \<^verbatim>\<open>miniprefix/include/miniprefix/model.h\<close> as a record of
  operations, the contract its clients rely on as a locale, and the CPU runner as its provider. The
  contract speaks of histories only: \<open>hist w i\<close> are the committed tokens of sequence \<open>i\<close>, and the
  logits of an append are a function \<open>infer\<close> of the whole history, whatever pages were shared,
  copied, cached or evicted.
\<close>

section \<open>The interface\<close>

record ('w, 'v) runner_ops =
  op_vocabulary :: int
  op_model_context :: int
  op_context_limit :: "'w \<Rightarrow> int"
  op_block_tokens :: "'w \<Rightarrow> nat"
  op_reserve_request :: "request_id \<Rightarrow> nat \<Rightarrow> ('w, kv_admission) eff"
  op_release_reservation :: "request_id \<Rightarrow> 'w \<Rightarrow> 'w"
  op_create :: "request_id \<Rightarrow> ('w, unit) eff"
  op_fork_sequence :: "request_id \<Rightarrow> request_id \<Rightarrow> ('w, unit) eff"
  op_reuse_prefix :: "request_id \<Rightarrow> int list \<Rightarrow> ('w, nat) eff"
  op_cache_prefix :: "request_id \<Rightarrow> ('w, unit) eff"
  op_clear_prefix_cache :: "('w, unit) eff"
  op_append :: "request_id \<Rightarrow> int list \<Rightarrow> ('w, 'v list) eff"
  op_release :: "request_id \<Rightarrow> ('w, unit) eff"
  op_clear :: "('w, unit) eff"

locale model_runner =
  fixes ops :: "('w, 'v) runner_ops"
    and ok :: "'w \<Rightarrow> bool"
    and hist :: "'w \<Rightarrow> request_id \<Rightarrow> int list option"
    and infer :: "int list \<Rightarrow> 'v list"
  assumes reserve: "ok w \<Longrightarrow> op_reserve_request ops i n w = (r, w') \<Longrightarrow> ok w' \<and> hist w' = hist w"
    and release_reservation: "ok w \<Longrightarrow> ok (op_release_reservation ops i w) \<and> hist (op_release_reservation ops i w) = hist w"
    and create: "ok w \<Longrightarrow> op_create ops i w = (u, w') \<Longrightarrow> ok w' \<and>
      (case u of Inl e \<Rightarrow> hist w' = hist w | Inr _ \<Rightarrow> hist w i = None \<and> hist w' = (hist w)(i \<mapsto> []))"
    and reuse: "ok w \<Longrightarrow> op_reuse_prefix ops i p w = (c, w') \<Longrightarrow> ok w' \<and>
      (case c of Inl e \<Rightarrow> hist w' = hist w \<or> hist w i \<noteq> None \<and> hist w' = (hist w)(i \<mapsto> [])
       | Inr n \<Rightarrow> n < length p \<and> hist w i \<noteq> None \<and> hist w' = (hist w)(i \<mapsto> take n p))"
    and cache: "ok w \<Longrightarrow> op_cache_prefix ops i w = (u, w') \<Longrightarrow> ok w' \<and> hist w' = hist w"
    and append: "ok w \<Longrightarrow> op_append ops i xs w = (l, w') \<Longrightarrow> ok w' \<and>
      (case l of Inl e \<Rightarrow> hist w' = hist w
       | Inr ls \<Rightarrow> \<exists>h. hist w i = Some h \<and> xs \<noteq> [] \<and> hist w' = (hist w)(i \<mapsto> h @ xs) \<and> ls = infer (h @ xs))"
    and release: "ok w \<Longrightarrow> op_release ops i w = (u, w') \<Longrightarrow> ok w' \<and>
      (case u of Inl e \<Rightarrow> hist w' = hist w | Inr _ \<Rightarrow> hist w i \<noteq> None \<and> hist w' = (hist w)(i := None))"
    and clear: "ok w \<Longrightarrow> op_clear ops w = (u, w') \<Longrightarrow> ok w' \<and>
      (case u of Inl e \<Rightarrow> hist w' = hist w | Inr _ \<Rightarrow> hist w' = Map.empty)"

section \<open>The CPU runner\<close>

text \<open>Lifting a KV manager operation to the runner, whose payload it does not touch.\<close>

definition on_kv :: "'a kv_op \<Rightarrow> ('r runner, 'a) eff" where
  "on_kv p w = (case p (fst w) of (r, m) \<Rightarrow> (r, (m, snd w)))"

definition cpu_ops ::
    "'r row_fun \<Rightarrow> ('r list \<Rightarrow> 'v list) \<Rightarrow> ('v \<Rightarrow> bool) \<Rightarrow> int \<Rightarrow> int \<Rightarrow> ('r runner, 'v) runner_ops" where
  "cpu_ops f logits_of isfinite vocabulary model_context =
     \<lparr>op_vocabulary = vocabulary, op_model_context = model_context,
      op_context_limit = (\<lambda>w. km_context (fst w)),
      op_block_tokens = (\<lambda>w. ks_block_tokens (km_stats (fst w))),
      op_reserve_request = (\<lambda>i n. on_kv (reserve_request i n)),
      op_release_reservation = (\<lambda>i w. (release_reservation i (fst w), snd w)),
      op_create = (\<lambda>i. on_kv (km_create i)),
      op_fork_sequence = (\<lambda>i j. on_kv (fork_sequence i j)),
      op_reuse_prefix = (\<lambda>i p. on_kv (reuse_prefix i p)),
      op_cache_prefix = (\<lambda>i. on_kv (cache_prefix i)),
      op_clear_prefix_cache = on_kv clear_prefix_cache,
      op_append = runner_append f logits_of isfinite,
      op_release = (\<lambda>i. on_kv (km_release i)),
      op_clear = on_kv km_clear\<rparr>"

definition cpu_ok :: "'r row_fun \<Rightarrow> 'r runner \<Rightarrow> bool" where
  "cpu_ok f w \<longleftrightarrow> kv_inv None (fst w) \<and> payload_ok f (fst w) (snd w)"

definition cpu_hist :: "'r runner \<Rightarrow> request_id \<Rightarrow> int list option" where
  "cpu_hist w i = map_option (\<lambda>st. seq_tokens (st_sequence st)) (km_state (fst w) i)"

lemma on_kv_iff: "on_kv p (m, \<sigma>) = (r, w') \<longleftrightarrow> (\<exists>m'. p m = (r, m') \<and> w' = (m', \<sigma>))"
  by (cases "p m") (auto simp: on_kv_def)

lemma cpu_hist_put:
  "amap_ok (km_sequences m) \<Longrightarrow> km_sequences m' = put i st (km_sequences m) \<Longrightarrow>
   cpu_hist (m', \<tau>) = (cpu_hist (m, \<sigma>))(i \<mapsto> seq_tokens (st_sequence st))"
  by (auto simp: cpu_hist_def)

lemma cpu_hist_same: "km_sequences m' = km_sequences m \<Longrightarrow> cpu_hist (m', \<tau>) = cpu_hist (m, \<sigma>)"
  by (simp add: cpu_hist_def fun_eq_iff)

interpretation cpu: model_runner "cpu_ops f logits_of isfinite v c" "cpu_ok f" cpu_hist
  "\<lambda>h. logits_of (rows_of f h)"
proof unfold_locales
  fix w w' :: "'a runner" and i n r
  assume ok: "cpu_ok f w" and r: "op_reserve_request (cpu_ops f logits_of isfinite v c) i n w = (r, w')"
  obtain m \<sigma> m' where w: "w = (m, \<sigma>)" "w' = (m', \<sigma>)" "reserve_request i n m = (r, m')"
    using r by (cases w) (auto simp: cpu_ops_def on_kv_iff)
  have inv: "kv_inv None m" "payload_ok f m \<sigma>" using ok w by (auto simp: cpu_ok_def)
  note R = reserve_request_cases[OF inv(1) w(3)]
  show "cpu_ok f w' \<and> cpu_hist w' = cpu_hist w"
    using R payload_same[OF inv(2) R(2,3)] w cpu_hist_same[OF R(3)] by (simp add: cpu_ok_def)
next
  fix w :: "'a runner" and i
  assume ok: "cpu_ok f w"
  obtain m \<sigma> where w: "w = (m, \<sigma>)" by (cases w)
  have inv: "kv_inv None m" "payload_ok f m \<sigma>" using ok w by (auto simp: cpu_ok_def)
  have "payload_ok f (release_reservation i m) \<sigma>"
    by (rule payload_same[OF inv(2)]) (simp_all add: release_reservation_def same_params_def)
  moreover have "km_sequences (release_reservation i m) = km_sequences m" by (simp add: release_reservation_def)
  ultimately show "cpu_ok f (op_release_reservation (cpu_ops f logits_of isfinite v c) i w) \<and>
      cpu_hist (op_release_reservation (cpu_ops f logits_of isfinite v c) i w) = cpu_hist w"
    using release_reservation_inv[OF inv(1)] w cpu_hist_same by (simp add: cpu_ok_def cpu_ops_def)
next
  fix w w' :: "'a runner" and i u
  assume ok: "cpu_ok f w" and r: "op_create (cpu_ops f logits_of isfinite v c) i w = (u, w')"
  obtain m \<sigma> m' where w: "w = (m, \<sigma>)" "w' = (m', \<sigma>)" "km_create i m = (u, m')"
    using r by (cases w) (auto simp: cpu_ops_def on_kv_iff)
  have inv: "kv_inv None m" "payload_ok f m \<sigma>" using ok w by (auto simp: cpu_ok_def)
  note C = km_create_inv[OF inv(1) w(3)]
  have put: "cpu_hist w' = (cpu_hist w)(i \<mapsto> [])" if "u = Inr ()"
  proof -
    have "km_sequences m' = put i \<lparr>st_sequence = empty_sequence, st_appending = False\<rparr> (km_sequences m)"
      using w(3) that by (auto simp: km_create_def split: sum.splits if_splits)
    from cpu_hist_put[OF kv_invD(1)[OF inv(1)] this, of \<sigma> \<sigma>] show ?thesis using w by simp
  qed
  have "case u of Inl e \<Rightarrow> cpu_hist w' = cpu_hist w
      | Inr _ \<Rightarrow> cpu_hist w i = None \<and> cpu_hist w' = (cpu_hist w)(i \<mapsto> [])"
    using C put w by (cases u) (auto simp: cpu_hist_def)
  then show "cpu_ok f w' \<and> (case u of Inl e \<Rightarrow> cpu_hist w' = cpu_hist w
      | Inr _ \<Rightarrow> cpu_hist w i = None \<and> cpu_hist w' = (cpu_hist w)(i \<mapsto> []))"
    using C create_payload[OF inv w(3)] w by (simp add: cpu_ok_def)
next
  fix w w' :: "'a runner" and i p r
  assume ok: "cpu_ok f w" and r: "op_reuse_prefix (cpu_ops f logits_of isfinite v c) i p w = (r, w')"
  obtain m \<sigma> m' where w: "w = (m, \<sigma>)" "w' = (m', \<sigma>)" "reuse_prefix i p m = (r, m')"
    using r by (cases w) (auto simp: cpu_ops_def on_kv_iff)
  have inv: "kv_inv None m" "payload_ok f m \<sigma>" using ok w by (auto simp: cpu_ok_def)
  note out = reuse_prefix_inv[OF inv(1) w(3), unfolded reuse_outcome_def]
  note put = cpu_hist_put[OF kv_invD(1)[OF inv(1)]]
  have "(case r of Inl e \<Rightarrow> cpu_hist w' = cpu_hist w \<or> cpu_hist w i \<noteq> None \<and> cpu_hist w' = (cpu_hist w)(i \<mapsto> [])
       | Inr n \<Rightarrow> n < length p \<and> cpu_hist w i \<noteq> None \<and> cpu_hist w' = (cpu_hist w)(i \<mapsto> take n p))"
  proof (cases r)
    case (Inl e)
    then consider "km_sequences m' = km_sequences m"
      | st where "km_state m i = Some st" "km_sequences m' = put i (st\<lparr>st_sequence := empty_sequence\<rparr>) (km_sequences m)"
      using out by auto
    then show ?thesis
    proof cases
      case 1
      from cpu_hist_same[OF 1, of \<sigma> \<sigma>] show ?thesis using Inl w by simp
    next
      case 2
      from put[OF 2(2), of \<sigma> \<sigma>] show ?thesis using Inl 2(1) w by (simp add: cpu_hist_def)
    qed
  next
    case (Inr n)
    then obtain st s q where L: "km_state m i = Some st" "p \<noteq> []" "reuse_link m q p n s"
      "km_sequences m' = put i (st\<lparr>st_sequence := s\<rparr>) (km_sequences m)" using out by auto
    then have "n < length p" "seq_tokens s = take n p" by (cases p; auto simp: reuse_link_def)+
    then show ?thesis using Inr put[OF L(4), of \<sigma> \<sigma>] w L(1) by (simp add: cpu_hist_def)
  qed
  then show "cpu_ok f w' \<and> (case r of Inl e \<Rightarrow> cpu_hist w' = cpu_hist w \<or> cpu_hist w i \<noteq> None \<and> cpu_hist w' = (cpu_hist w)(i \<mapsto> [])
       | Inr n \<Rightarrow> n < length p \<and> cpu_hist w i \<noteq> None \<and> cpu_hist w' = (cpu_hist w)(i \<mapsto> take n p))"
    using out reuse_payload[OF inv w(3)] w by (simp add: cpu_ok_def)
next
  fix w w' :: "'a runner" and i u
  assume ok: "cpu_ok f w" and r: "op_cache_prefix (cpu_ops f logits_of isfinite v c) i w = (u, w')"
  obtain m \<sigma> m' where w: "w = (m, \<sigma>)" "w' = (m', \<sigma>)" "cache_prefix i m = (u, m')"
    using r by (cases w) (auto simp: cpu_ops_def on_kv_iff)
  have inv: "kv_inv None m" "payload_ok f m \<sigma>" using ok w by (auto simp: cpu_ok_def)
  show "cpu_ok f w' \<and> cpu_hist w' = cpu_hist w"
    using cache_prefix_inv[OF inv(1) w(3)] cache_prefix_payload[OF inv w(3)] w
      cpu_hist_same[of m' m \<sigma> \<sigma>] by (simp add: cpu_ok_def)
next
  fix w w' :: "'a runner" and i xs l
  assume ok: "cpu_ok f w" and r: "op_append (cpu_ops f logits_of isfinite v c) i xs w = (l, w')"
  obtain m \<sigma> m' \<sigma>' where w: "w = (m, \<sigma>)" "w' = (m', \<sigma>')" by (cases w; cases w')
  have run: "runner_append f logits_of isfinite i xs (m, \<sigma>) = (l, (m', \<sigma>'))"
    using r w by (simp add: cpu_ops_def)
  have inv: "kv_inv None m" "payload_ok f m \<sigma>" using ok w by (auto simp: cpu_ok_def)
  note A = runner_append_ok[OF inv run]
  have "(case l of Inl e \<Rightarrow> cpu_hist w' = cpu_hist w
       | Inr ls \<Rightarrow> \<exists>h. cpu_hist w i = Some h \<and> xs \<noteq> [] \<and> cpu_hist w' = (cpu_hist w)(i \<mapsto> h @ xs) \<and>
           ls = logits_of (rows_of f (h @ xs)))"
  proof (cases l)
    case (Inl e)
    then show ?thesis using A w cpu_hist_same[of m' m \<sigma>' \<sigma>] by (simp add: append_effect_def)
  next
    case (Inr ls)
    then obtain st s' where "xs \<noteq> []" "km_state m i = Some st" "seq_tokens s' = seq_tokens (st_sequence st) @ xs"
      "ls = logits_of (rows_of f (seq_tokens s'))"
      "km_sequences m' = put i \<lparr>st_sequence = s', st_appending = False\<rparr> (km_sequences m)"
      using A by (auto simp: append_effect_def)
    then show ?thesis using Inr w cpu_hist_put[OF kv_invD(1)[OF inv(1)], of m' i _ \<sigma>' \<sigma>]
      by (simp add: cpu_hist_def)
  qed
  then show "cpu_ok f w' \<and> (case l of Inl e \<Rightarrow> cpu_hist w' = cpu_hist w
       | Inr ls \<Rightarrow> \<exists>h. cpu_hist w i = Some h \<and> xs \<noteq> [] \<and> cpu_hist w' = (cpu_hist w)(i \<mapsto> h @ xs) \<and>
           ls = logits_of (rows_of f (h @ xs)))"
    using A w by (simp add: cpu_ok_def)
next
  fix w w' :: "'a runner" and i u
  assume ok: "cpu_ok f w" and r: "op_release (cpu_ops f logits_of isfinite v c) i w = (u, w')"
  obtain m \<sigma> m' where w: "w = (m, \<sigma>)" "w' = (m', \<sigma>)" "km_release i m = (u, m')"
    using r by (cases w) (auto simp: cpu_ops_def on_kv_iff)
  have inv: "kv_inv None m" "payload_ok f m \<sigma>" using ok w by (auto simp: cpu_ok_def)
  note C = km_release_inv[OF inv(1) w(3)]
  show "cpu_ok f w' \<and> (case u of Inl e \<Rightarrow> cpu_hist w' = cpu_hist w
      | Inr _ \<Rightarrow> cpu_hist w i \<noteq> None \<and> cpu_hist w' = (cpu_hist w)(i := None))"
    using C release_payload[OF inv w(3)] w by (cases u) (auto simp: cpu_ok_def cpu_hist_def)
next
  fix w w' :: "'a runner" and u
  assume ok: "cpu_ok f w" and r: "op_clear (cpu_ops f logits_of isfinite v c) w = (u, w')"
  obtain m \<sigma> m' where w: "w = (m, \<sigma>)" "w' = (m', \<sigma>)" "km_clear m = (u, m')"
    using r by (cases w) (auto simp: cpu_ops_def on_kv_iff)
  have inv: "kv_inv None m" "payload_ok f m \<sigma>" using ok w by (auto simp: cpu_ok_def)
  note C = km_clear_inv[OF inv(1) w(3)]
  show "cpu_ok f w' \<and> (case u of Inl e \<Rightarrow> cpu_hist w' = cpu_hist w | Inr _ \<Rightarrow> cpu_hist w' = Map.empty)"
    using C clear_payload[OF inv w(3)] w by (cases u) (auto simp: cpu_ok_def cpu_hist_def)
qed

end
