(* ===== verification/Engine.thy ===== *)
theory Engine
  imports Scheduler Model_Runner
begin

text \<open>
  The generation engine of \<^verbatim>\<open>miniprefix/src/engine/engine.cpp\<close>: a waiting queue, the active batch, and
  one scheduling iteration per \<open>step\<close>. The runner behind it is the record of operations of
  \<open>Model_Runner\<close>; \<open>lt\<close> and \<open>isfinite\<close> are the comparison and the finiteness test of a logit.
\<close>

section \<open>Requests, events and the state\<close>

datatype finish_reason = Eos | Length | Cancelled | Finish_Error

record generation_options =
  go_max_new_tokens :: nat
  go_eos_token_id :: "int option"

record request =
  rq_id :: request_id
  rq_prompt :: "int list"
  rq_generation :: generation_options

record generation_event =
  ev_id :: request_id
  ev_token :: "int option"
  ev_reason :: "finish_reason option"
  ev_message :: string

record engine_config =
  ec_max_batch_size :: int
  ec_token_budget :: int
  ec_prefill_chunk :: int
  ec_context :: int

record step_stats =
  ss_prefix_reused :: nat
  ss_prefill :: nat
  ss_decode :: nat

record request_state =
  rs_request :: request
  rs_prefilled :: nat
  rs_block_tokens :: nat
  rs_output :: "int list"
  rs_resident :: bool
  rs_finished :: bool

datatype terminal_cleanup = Release_Sequence | Runner_Managed

record 'w engine =
  en_runner :: 'w
  en_config :: engine_config
  en_scheduler :: scheduler_config
  en_waiting :: "request_state list"
  en_active :: "request_state list"
  en_seen :: "request_id set"
  en_events :: "generation_event list"
  en_failed :: bool
  en_stats :: step_stats

abbreviation rs_id :: "request_state \<Rightarrow> request_id" where
  "rs_id s \<equiv> rq_id (rs_request s)"

abbreviation no_stats :: step_stats where
  "no_stats \<equiv> \<lparr>ss_prefix_reused = 0, ss_prefill = 0, ss_decode = 0\<rparr>"

section \<open>Construction and submission\<close>

definition scheduler_config_of :: "engine_config \<Rightarrow> scheduler_config result" where
  "scheduler_config_of c =
     (if ec_max_batch_size c < 1 \<or> ec_token_budget c < 1 \<or> ec_prefill_chunk c < 1
      then Inl (Invalid_argument ''invalid engine configuration'')
      else Inr \<lparr>sc_max_batch_size = ec_max_batch_size c, sc_token_budget = ec_token_budget c,
                sc_prefill_chunk = ec_prefill_chunk c\<rparr>)"

definition mk_engine :: "('w, 'v) runner_ops \<Rightarrow> 'w \<Rightarrow> engine_config \<Rightarrow> 'w engine result" where
  "mk_engine ops w c =
     bindE (scheduler_config_of c) (\<lambda>sc. bindE (mk_scheduler sc) (\<lambda>sc.
       if ec_context c < 1 \<or> ec_context c > op_model_context ops \<or> ec_context c > op_context_limit ops w
       then Inl (Invalid_argument ''invalid engine configuration'')
       else Inr \<lparr>en_runner = w, en_config = c, en_scheduler = sc, en_waiting = [], en_active = [],
                 en_seen = {}, en_events = [], en_failed = False, en_stats = no_stats\<rparr>))"

definition valid_request :: "('w, 'v) runner_ops \<Rightarrow> 'w engine \<Rightarrow> request \<Rightarrow> unit result" where
  "valid_request ops e r =
     (if en_failed e then Inl (Runtime_error ''engine failed; create a new engine'')
      else if rq_id r = [] \<or> rq_id r \<in> en_seen e \<or> rq_prompt r = [] \<or> go_max_new_tokens (rq_generation r) < 1 \<or>
        int (length (rq_prompt r) + go_max_new_tokens (rq_generation r)) > ec_context (en_config e)
      then Inl (Invalid_argument ''invalid request, duplicate ID or context overflow'')
      else if \<exists>t \<in> set (rq_prompt r). t < 0 \<or> t \<ge> op_vocabulary ops
      then Inl (Invalid_argument ''invalid prompt token'')
      else case go_eos_token_id (rq_generation r) of
          None \<Rightarrow> Inr ()
        | Some t \<Rightarrow> if t < 0 \<or> t \<ge> op_vocabulary ops then Inl (Invalid_argument ''invalid EOS'') else Inr ())"

definition fresh_state :: "request \<Rightarrow> request_state" where
  "fresh_state r = \<lparr>rs_request = r, rs_prefilled = 0, rs_block_tokens = 0, rs_output = [],
                    rs_resident = False, rs_finished = False\<rparr>"

definition submit :: "('w, 'v) runner_ops \<Rightarrow> request \<Rightarrow> ('w engine, unit) eff" where
  "submit ops r e =
     (case valid_request ops e r of
        Inl x \<Rightarrow> (Inl x, e)
      | Inr _ \<Rightarrow> (Inr (), e\<lparr>en_waiting := en_waiting e @ [fresh_state r], en_seen := insert (rq_id r) (en_seen e)\<rparr>))"

section \<open>Ending a request\<close>

definition on_runner :: "('w, 'a) eff \<Rightarrow> ('w engine, 'a) eff" where
  "on_runner p e = (case p (en_runner e) of (r, w) \<Rightarrow> (r, e\<lparr>en_runner := w\<rparr>))"

text \<open>
  \<open>terminal\<close> returns the updated state of the request. Only \<open>release\<close> can throw, and it does so before
  anything of the engine or of the request is changed.
\<close>

definition terminal ::
    "('w, 'v) runner_ops \<Rightarrow> request_state \<Rightarrow> finish_reason \<Rightarrow> int option \<Rightarrow> string \<Rightarrow> terminal_cleanup \<Rightarrow>
       ('w engine, request_state) eff" where
  "terminal ops s reason tok message cleanup =
     (if rs_finished s then returnS s
      else bindS (if rs_resident s \<and> cleanup = Release_Sequence then on_runner (op_release ops (rs_id s)) else returnS ())
        (\<lambda>_. bindS (modifyS (\<lambda>e. e\<lparr>en_runner := op_release_reservation ops (rs_id s) (en_runner e),
             en_events := en_events e @ [\<lparr>ev_id = rs_id s, ev_token = tok, ev_reason = Some reason, ev_message = message\<rparr>]\<rparr>))
        (\<lambda>_. returnS (s\<lparr>rs_resident := False, rs_finished := True\<rparr>))))"

definition remove_finished :: "bool \<Rightarrow> 'w engine \<Rightarrow> 'w engine" where
  "remove_finished include_waiting e =
     (let e1 = e\<lparr>en_active := filter (\<lambda>s. \<not> rs_finished s) (en_active e)\<rparr> in
      if include_waiting then e1\<lparr>en_waiting := filter (\<lambda>s. \<not> rs_finished s) (en_waiting e1)\<rparr> else e1)"

text \<open>The loop \<open>for (auto& s : queue) terminal(s, ...)\<close>; an exception stops it in the middle.\<close>

fun terminal_all ::
    "('w, 'v) runner_ops \<Rightarrow> finish_reason \<Rightarrow> string \<Rightarrow> terminal_cleanup \<Rightarrow> request_state list \<Rightarrow> 'w engine \<Rightarrow>
       unit result \<times> request_state list \<times> 'w engine" where
  "terminal_all ops reason message cleanup [] e = (Inr (), [], e)"
| "terminal_all ops reason message cleanup (s # ss) e =
     (case terminal ops s reason None message cleanup e of
        (Inl x, e') \<Rightarrow> (Inl x, s # ss, e')
      | (Inr s', e') \<Rightarrow>
        (case terminal_all ops reason message cleanup ss e' of (r, ss', e'') \<Rightarrow> (r, s' # ss', e'')))"

definition terminal_active where
  "terminal_active ops reason message cleanup e =
     (case terminal_all ops reason message cleanup (en_active e) e of (r, ss, e') \<Rightarrow> (r, e'\<lparr>en_active := ss\<rparr>))"

definition terminal_waiting where
  "terminal_waiting ops reason message cleanup e =
     (case terminal_all ops reason message cleanup (en_waiting e) e of (r, ss, e') \<Rightarrow> (r, e'\<lparr>en_waiting := ss\<rparr>))"

section \<open>One iteration\<close>

definition set_active :: "nat \<Rightarrow> request_state \<Rightarrow> 'w engine \<Rightarrow> 'w engine" where
  "set_active i s e = e\<lparr>en_active := (en_active e)[i := s]\<rparr>"

definition terminal_at where
  "terminal_at ops i reason tok message e =
     bindS (terminal ops (en_active e ! i) reason tok message Release_Sequence)
       (\<lambda>s. modifyS (set_active i s)) e"

text \<open>The tail of \<open>restore_prefix\<close>: the reused range is checked and becomes the prefilled part.\<close>

definition accept_reuse :: "('w, 'v) runner_ops \<Rightarrow> nat \<Rightarrow> request \<Rightarrow> nat \<Rightarrow> ('w engine, unit) eff" where
  "accept_reuse ops i r reused e =
     (let bt = op_block_tokens ops (en_runner e) in
      if reused \<ge> length (rq_prompt r) \<or> reused \<noteq> 0 \<and> bt = 0
      then (Inl (Runtime_error ''invalid reusable prefix range''), e)
      else (Inr (), set_active i ((en_active e ! i)\<lparr>rs_block_tokens := bt, rs_prefilled := reused\<rparr>)
              (e\<lparr>en_stats := (en_stats e)\<lparr>ss_prefix_reused := ss_prefix_reused (en_stats e) + reused\<rparr>\<rparr>)))"

definition set_resident :: "nat \<Rightarrow> 'w engine \<Rightarrow> 'w engine" where
  "set_resident i e = set_active i ((en_active e ! i)\<lparr>rs_resident := True\<rparr>) e"

definition restore_prefix :: "('w, 'v) runner_ops \<Rightarrow> nat \<Rightarrow> request \<Rightarrow> ('w engine, unit) eff" where
  "restore_prefix ops i r =
     bindS (on_runner (op_create ops (rq_id r))) (\<lambda>_.
     bindS (modifyS (set_resident i)) (\<lambda>_.
     bindS (on_runner (op_reuse_prefix ops (rq_id r) (rq_prompt r))) (accept_reuse ops i r)))"

text \<open>\<open>std::max_element\<close>: the index of the first largest element, 0 for an empty range.\<close>

fun max_element_from :: "('v \<Rightarrow> 'v \<Rightarrow> bool) \<Rightarrow> nat \<Rightarrow> 'v \<Rightarrow> nat \<Rightarrow> 'v list \<Rightarrow> nat" where
  "max_element_from lt k m i [] = k"
| "max_element_from lt k m i (x # xs) =
     (if lt m x then max_element_from lt i x (Suc i) xs else max_element_from lt k m (Suc i) xs)"

definition max_element :: "('v \<Rightarrow> 'v \<Rightarrow> bool) \<Rightarrow> 'v list \<Rightarrow> nat" where
  "max_element lt xs = (case xs of [] \<Rightarrow> 0 | x # xs' \<Rightarrow> max_element_from lt 0 x 1 xs')"

definition finish_of :: "request \<Rightarrow> int list \<Rightarrow> int \<Rightarrow> finish_reason option" where
  "finish_of r output tok =
     (if go_eos_token_id (rq_generation r) = Some tok then Some Eos
      else if length output = go_max_new_tokens (rq_generation r) then Some Length else None)"

text \<open>The counters and \<open>prefilled\<close> after an append of \<open>n\<close> tokens.\<close>

definition count_input :: "nat \<Rightarrow> schedule_phase \<Rightarrow> nat \<Rightarrow> 'w engine \<Rightarrow> 'w engine" where
  "count_input i phase n e =
     (if phase = Prefill
      then set_active i ((en_active e ! i)\<lparr>rs_prefilled := rs_prefilled (en_active e ! i) + n\<rparr>)
             (e\<lparr>en_stats := (en_stats e)\<lparr>ss_prefill := ss_prefill (en_stats e) + n\<rparr>\<rparr>)
      else e\<lparr>en_stats := (en_stats e)\<lparr>ss_decode := ss_decode (en_stats e) + n\<rparr>\<rparr>)"

definition check_logits :: "('w, 'v) runner_ops \<Rightarrow> ('v \<Rightarrow> bool) \<Rightarrow> 'v list \<Rightarrow> unit result" where
  "check_logits ops isfinite logits =
     (if int (length logits) \<noteq> op_vocabulary ops then Inl (Runtime_error ''invalid logits arity'')
      else if \<not> list_all isfinite logits then Inl (Runtime_error ''nonfinite model result'') else Inr ())"

definition emit_token :: "('w, 'v) runner_ops \<Rightarrow> nat \<Rightarrow> int \<Rightarrow> ('w engine, unit) eff" where
  "emit_token ops i tok e =
     (let s = en_active e ! i; out = rs_output s @ [tok];
          e1 = set_active i (s\<lparr>rs_output := out\<rparr>) e in
      case finish_of (rs_request s) out tok of
        Some reason \<Rightarrow> terminal_at ops i reason (Some tok) [] e1
      | None \<Rightarrow> (Inr (), e1\<lparr>en_events := en_events e1 @
                  [\<lparr>ev_id = rs_id s, ev_token = Some tok, ev_reason = None, ev_message = []\<rparr>]\<rparr>))"

definition work_input :: "request_state \<Rightarrow> schedule_phase \<Rightarrow> nat \<Rightarrow> int list" where
  "work_input s phase n =
     (case phase of Decode \<Rightarrow> [last (rs_output s)] | Prefill \<Rightarrow> take n (drop (rs_prefilled s) (rq_prompt (rs_request s))))"

text \<open>
  After the append: nothing while the prompt is incomplete, else check the logits, publish the
  committed history, sample greedily and report the token.
\<close>

definition sample_output ::
    "('w, 'v) runner_ops \<Rightarrow> ('v \<Rightarrow> bool) \<Rightarrow> ('v \<Rightarrow> 'v \<Rightarrow> bool) \<Rightarrow> nat \<Rightarrow> request \<Rightarrow> 'v list \<Rightarrow> ('w engine, unit) eff" where
  "sample_output ops isfinite lt i r logits e =
     (if rs_prefilled (en_active e ! i) < length (rq_prompt r) then (Inr (), e)
      else bindS (checkS (\<lambda>_. check_logits ops isfinite logits)) (\<lambda>_.
           bindS (on_runner (op_cache_prefix ops (rq_id r))) (\<lambda>_.
           emit_token ops i (int (max_element lt logits)))) e)"

definition process_input ::
    "('w, 'v) runner_ops \<Rightarrow> ('v \<Rightarrow> bool) \<Rightarrow> ('v \<Rightarrow> 'v \<Rightarrow> bool) \<Rightarrow> nat \<Rightarrow> schedule_phase \<Rightarrow> request \<Rightarrow> int list \<Rightarrow> ('w engine, unit) eff" where
  "process_input ops isfinite lt i phase r input =
     bindS (on_runner (op_append ops (rq_id r) input)) (\<lambda>logits.
     bindS (modifyS (count_input i phase (length input))) (\<lambda>_.
     sample_output ops isfinite lt i r logits))"

text \<open>
  The body of the work loop: the inner handler turns \<open>KvCapacityError\<close> into an error event of this
  request only. The plan keeps what \<open>take_input\<close> took even when the append fails.
\<close>

definition isolate_capacity :: "('w, 'v) runner_ops \<Rightarrow> nat \<Rightarrow> unit result \<times> 'w engine \<Rightarrow> unit result \<times> 'w engine" where
  "isolate_capacity ops i x =
     (case x of (Inl (Kv_capacity_error message), e) \<Rightarrow> terminal_at ops i Finish_Error None message e | _ \<Rightarrow> x)"

definition work_item where
  "work_item ops isfinite lt i phase p e =
     (case (if rs_resident (en_active e ! i) then (Inr (), e) else restore_prefix ops i (rs_request (en_active e ! i)) e) of
        (Inl x, e1) \<Rightarrow> (isolate_capacity ops i (Inl x, e1), p)
      | (Inr _, e1) \<Rightarrow>
        let s = en_active e1 ! i in
        (case take_input phase (length (rq_prompt (rs_request s)) - rs_prefilled s) p of
           Inl x \<Rightarrow> (isolate_capacity ops i (Inl x, e1), p)
         | Inr (n, p') \<Rightarrow> (isolate_capacity ops i (process_input ops isfinite lt i phase (rs_request s) (work_input s phase n) e1), p')))"

fun work_loop where
  "work_loop ops isfinite lt [] p e = (Inr (), e)"
| "work_loop ops isfinite lt ((i, phase) # ws) p e =
     (if \<not> has_budget p then (Inr (), e)
      else case work_item ops isfinite lt i phase p e of
          ((Inl x, e'), p') \<Rightarrow> (Inl x, e')
        | ((Inr _, e'), p') \<Rightarrow> work_loop ops isfinite lt ws p' e')"

text \<open>Admission; the list is the waiting queue. The value tells whether anything progressed.\<close>

definition pages_needed :: "request \<Rightarrow> nat" where
  "pages_needed r = length (rq_prompt r) + go_max_new_tokens (rq_generation r) - 1"

definition rejection :: "kv_admission \<Rightarrow> string" where
  "rejection a = (if a = Impossible then ''request exceeds total KV capacity''
     else ''KV capacity unavailable without active requests to make progress'')"

fun admit :: "('w, 'v) runner_ops \<Rightarrow> nat \<Rightarrow> request_state list \<Rightarrow> bool \<Rightarrow> ('w engine, bool) eff" where
  "admit ops slots [] progressed e = (Inr progressed, e)"
| "admit ops slots (s # ws) progressed e =
     (if slots = 0 then (Inr progressed, e)
      else case on_runner (op_reserve_request ops (rs_id s) (pages_needed (rs_request s))) e of
          (Inl x, e') \<Rightarrow> (Inl x, e')
        | (Inr a, e') \<Rightarrow>
          if a = Wait \<and> en_active e' \<noteq> [] then (Inr progressed, e')
          else if a \<noteq> Ready
          then (case terminal ops s Finish_Error None (rejection a) Release_Sequence e' of
                  (Inl x, e'') \<Rightarrow> (Inl x, e'')
                | (Inr _, e'') \<Rightarrow> admit ops slots ws True (e''\<lparr>en_waiting := ws\<rparr>))
          else admit ops (slots - 1) ws True (e'\<lparr>en_active := en_active e' @ [s], en_waiting := ws\<rparr>))"

definition phase_of :: "request_state \<Rightarrow> schedule_phase" where
  "phase_of s = (if rs_output s = [] then Prefill else Decode)"

definition iteration :: "('w, 'v) runner_ops \<Rightarrow> ('v \<Rightarrow> bool) \<Rightarrow> ('v \<Rightarrow> 'v \<Rightarrow> bool) \<Rightarrow> ('w engine, bool) eff" where
  "iteration ops isfinite lt e =
     bindS (admit ops (admission_count (en_scheduler e) (length (en_active e)) (length (en_waiting e))) (en_waiting e) False)
       (\<lambda>progressed e.
         if en_active e = [] then (Inr progressed, e)
         else let p = mk_plan (map phase_of (en_active e)) (en_scheduler e) in
           bindS (work_loop ops isfinite lt (sp_order p) p)
             (\<lambda>_. bindS (modifyS (remove_finished False)) (\<lambda>_. returnS True)) e) e"

text \<open>
  The fatal handler: poison, clear the runner, and end every request with an error. A runner reports failure by C++
  exceptions; the handler treats every failure value of the interface alike, so that a runner whose operations show
  undefined behaviour is outside of what the engine's model describes. The KV runner of this development has
  no such branch.
\<close>

definition fail_all :: "('w, 'v) runner_ops \<Rightarrow> exn \<Rightarrow> 'w engine \<Rightarrow> 'w engine" where
  "fail_all ops x e =
     (case on_runner (op_clear ops) (e\<lparr>en_failed := True\<rparr>) of (r, e1) \<Rightarrow>
      let message = (case r of Inl c \<Rightarrow> what x @ ''; cleanup failed: '' @ what c | Inr _ \<Rightarrow> what x);
          e2 = snd (terminal_active ops Finish_Error message Runner_Managed e1);
          e3 = snd (terminal_waiting ops Finish_Error message Runner_Managed e2)
      in remove_finished True e3)"

definition engine_step :: "('w, 'v) runner_ops \<Rightarrow> ('v \<Rightarrow> bool) \<Rightarrow> ('v \<Rightarrow> 'v \<Rightarrow> bool) \<Rightarrow> ('w engine, bool) eff" where
  "engine_step ops isfinite lt e0 =
     (let e = e0\<lparr>en_stats := no_stats\<rparr> in
      if en_failed e then (Inl (Runtime_error ''engine failed''), e)
      else case iteration ops isfinite lt e of
          (Inr progressed, e') \<Rightarrow> (Inr progressed, e')
        | (Inl x, e') \<Rightarrow> (Inr True, fail_all ops x e'))"

section \<open>Events, cancellation, shutdown\<close>

definition poll_events :: "'w engine \<Rightarrow> generation_event list \<times> 'w engine" where
  "poll_events e = (en_events e, e\<lparr>en_events := []\<rparr>)"

text \<open>The index of the first state with the id that is not finished.\<close>

fun find_live :: "request_id \<Rightarrow> request_state list \<Rightarrow> nat option" where
  "find_live i [] = None"
| "find_live i (s # ss) = (if rs_id s = i \<and> \<not> rs_finished s then Some 0 else map_option Suc (find_live i ss))"

definition cancel :: "('w, 'v) runner_ops \<Rightarrow> request_id \<Rightarrow> ('w engine, unit) eff" where
  "cancel ops i e =
     (case find_live i (en_waiting e) of
        Some k \<Rightarrow>
          bindS (terminal ops (en_waiting e ! k) Cancelled None [] Release_Sequence) (\<lambda>s.
          bindS (modifyS (\<lambda>e. e\<lparr>en_waiting := (en_waiting e)[k := s]\<rparr>)) (\<lambda>_.
          modifyS (remove_finished True))) e
      | None \<Rightarrow>
        (case find_live i (en_active e) of
           Some k \<Rightarrow> bindS (terminal_at ops k Cancelled None []) (\<lambda>_. modifyS (remove_finished False)) e
         | None \<Rightarrow> (Inl (Invalid_argument ''request is unknown or already terminal''), e)))"

definition shutdown :: "('w, 'v) runner_ops \<Rightarrow> ('w engine, unit) eff" where
  "shutdown ops e =
     (case bindS (terminal_active ops Cancelled [] Release_Sequence)
             (\<lambda>_. terminal_waiting ops Cancelled [] Release_Sequence) e of
        (Inl x, e') \<Rightarrow> (Inl x, remove_finished True e')
      | (Inr _, e') \<Rightarrow> on_runner (op_clear ops) (remove_finished True e'))"

definition idle :: "'w engine \<Rightarrow> bool" where
  "idle e \<longleftrightarrow> en_active e = [] \<and> en_waiting e = []"

end
