(* ===== verification/Engine_Events.thy ===== *)
theory Engine_Events
  imports Engine
begin

text \<open>
  What a client of the engine observes, for an arbitrary runner, whatever it answers or throws: every
  accepted request gets exactly one terminal event, and it is the last event of that request.
\<close>

section \<open>Event streams\<close>

definition events_for :: "request_id \<Rightarrow> generation_event list \<Rightarrow> generation_event list" where
  "events_for i evs = filter (\<lambda>ev. ev_id ev = i) evs"

definition stream_open :: "request_id \<Rightarrow> generation_event list \<Rightarrow> bool" where
  "stream_open i evs \<longleftrightarrow> (\<forall>ev \<in> set (events_for i evs). ev_reason ev = None)"

definition stream_closed :: "request_id \<Rightarrow> generation_event list \<Rightarrow> bool" where
  "stream_closed i evs \<longleftrightarrow> events_for i evs \<noteq> [] \<and> ev_reason (last (events_for i evs)) \<noteq> None \<and>
     (\<forall>ev \<in> set (butlast (events_for i evs)). ev_reason ev = None)"

lemma events_for_snoc [simp]:
  "events_for i (evs @ [ev]) = events_for i evs @ (if ev_id ev = i then [ev] else [])"
  by (simp add: events_for_def)

lemma stream_snoc:
  "ev_id ev \<noteq> i \<Longrightarrow> stream_open i (evs @ [ev]) = stream_open i evs"
  "ev_id ev \<noteq> i \<Longrightarrow> stream_closed i (evs @ [ev]) = stream_closed i evs"
  "ev_id ev = i \<Longrightarrow> ev_reason ev = None \<Longrightarrow> stream_open i (evs @ [ev]) = stream_open i evs"
  "ev_id ev = i \<Longrightarrow> ev_reason ev \<noteq> None \<Longrightarrow> stream_open i evs \<Longrightarrow> stream_closed i (evs @ [ev])"
  by (auto simp: stream_open_def stream_closed_def)

section \<open>The invariant\<close>

definition queued :: "'w engine \<Rightarrow> request_state list" where
  "queued e = en_active e @ en_waiting e"

definition live_ids :: "'w engine \<Rightarrow> request_id set" where
  "live_ids e = rs_id ` {s \<in> set (queued e). \<not> rs_finished s}"

definition once :: "request_id set \<Rightarrow> generation_event list \<Rightarrow> 'w engine \<Rightarrow> bool" where
  "once S log e \<longleftrightarrow> en_seen e = S \<and> distinct (map rs_id (queued e)) \<and> rs_id ` set (queued e) \<subseteq> S \<and>
     (\<forall>ev \<in> set (log @ en_events e). ev_id ev \<in> S) \<and>
     (\<forall>i. if i \<in> S \<and> i \<notin> live_ids e then stream_closed i (log @ en_events e)
          else stream_open i (log @ en_events e))"

abbreviation all_live :: "'w engine \<Rightarrow> bool" where
  "all_live e \<equiv> (\<forall>s \<in> set (queued e). \<not> rs_finished s)"

lemma once_cong:
  "queued e' = queued e \<Longrightarrow> en_seen e' = en_seen e \<Longrightarrow> en_events e' = en_events e \<Longrightarrow> once S log e' = once S log e"
  by (simp add: once_def live_ids_def)

lemma live_ids_update:
  assumes "distinct (map rs_id (xs @ s # ys))" and "queued e = xs @ s # ys" and "queued e' = xs @ s' # ys"
    and "rs_id s' = rs_id s" and "rs_finished s'"
  shows "live_ids e' = live_ids e - {rs_id s}"
  using assms by (auto simp: live_ids_def image_iff)

lemma live_ids_split:
  "queued e = xs @ s # ys \<Longrightarrow>
   live_ids e = rs_id ` {t \<in> set xs \<union> set ys. \<not> rs_finished t} \<union> (if rs_finished s then {} else {rs_id s})"
  by (auto simp: live_ids_def)

text \<open>Replacing a state by one with the same identity and the same status.\<close>

lemma once_update:
  assumes "once S log e" and "queued e = xs @ s # ys" and "queued e' = xs @ s' # ys"
    and "rs_id s' = rs_id s" and "rs_finished s' = rs_finished s"
    and "en_seen e' = en_seen e" and "en_events e' = en_events e"
  shows "once S log e'"
proof -
  have "live_ids e' = live_ids e"
    using live_ids_split[OF assms(2)] live_ids_split[OF assms(3)] assms(4,5) by simp
  moreover have "map rs_id (queued e') = map rs_id (queued e)" "rs_id ` set (queued e') = rs_id ` set (queued e)"
    using assms(2-4) by auto
  ultimately show ?thesis using assms(1,6,7) by (simp add: once_def)
qed

text \<open>A live request is finished and its terminal event sent.\<close>

lemma once_terminal:
  assumes o: "once S log e" and q: "queued e = xs @ s # ys" "queued e' = xs @ s' # ys"
    and s: "rs_id s' = rs_id s" "\<not> rs_finished s" "rs_finished s'"
    and e': "en_seen e' = en_seen e" "en_events e' = en_events e @ [ev]"
    and ev: "ev_id ev = rs_id s" "ev_reason ev \<noteq> None"
  shows "once S log e'"
proof -
  have d: "distinct (map rs_id (xs @ s # ys))" using o q by (simp add: once_def)
  have live: "live_ids e' = live_ids e - {rs_id s}" by (rule live_ids_update[OF d q s(1,3)])
  have "rs_id s \<in> live_ids e" using q s by (auto simp: live_ids_def)
  then have so: "stream_open (rs_id s) (log @ en_events e)" using o by (auto simp: once_def split: if_splits)
  have seen: "rs_id s \<in> S" using o q by (auto simp: once_def)
  have "if i \<in> S \<and> i \<notin> live_ids e' then stream_closed i (log @ en_events e')
        else stream_open i (log @ en_events e')" for i
  proof (cases "i = rs_id s")
    case True
    then show ?thesis using seen live e' ev so stream_snoc(4)[of ev i "log @ en_events e"] by simp
  next
    case False
    then have "i \<in> live_ids e' \<longleftrightarrow> i \<in> live_ids e" using live by simp
    then show ?thesis using o e' ev False stream_snoc(1,2)[of ev i "log @ en_events e"]
      by (simp add: once_def)
  qed
  then have "\<forall>i. if i \<in> S \<and> i \<notin> live_ids e' then stream_closed i (log @ en_events e')
        else stream_open i (log @ en_events e')" by blast
  moreover have "map rs_id (queued e') = map rs_id (queued e)" "rs_id ` set (queued e') = rs_id ` set (queued e)"
    using q s(1) by simp_all
  moreover have "\<forall>x \<in> set (log @ en_events e'). ev_id x \<in> S" using o e' ev(1) seen by (auto simp: once_def)
  ultimately show ?thesis using o e'(1) unfolding once_def by simp
qed

lemma once_event:
  assumes "once S log e" and "queued e' = queued e" and "en_seen e' = en_seen e" "en_events e' = en_events e @ [ev]"
    and "ev_reason ev = None" "ev_id ev \<in> live_ids e"
  shows "once S log e'"
proof -
  have "if i \<in> S \<and> i \<notin> live_ids e' then stream_closed i (log @ en_events e')
        else stream_open i (log @ en_events e')" for i
    using assms stream_snoc(1-3)[of ev i "log @ en_events e"]
    by (cases "ev_id ev = i") (auto simp: once_def live_ids_def)
  then have "\<forall>i. if i \<in> S \<and> i \<notin> live_ids e' then stream_closed i (log @ en_events e')
        else stream_open i (log @ en_events e')" by blast
  moreover have "\<forall>x \<in> set (log @ en_events e'). ev_id x \<in> S" using assms by (auto simp: once_def live_ids_def)
  ultimately show ?thesis using assms unfolding once_def by simp
qed

text \<open>Finished states may leave the queues at any time.\<close>

lemma once_drop:
  assumes "once S log e" and "queued e' = filter P (queued e)" and "\<And>s. s \<in> set (queued e) \<Longrightarrow> \<not> P s \<Longrightarrow> rs_finished s"
    and "en_seen e' = en_seen e" "en_events e' = en_events e"
  shows "once S log e'"
proof -
  have "live_ids e' = live_ids e" using assms(2,3) by (auto simp: live_ids_def)
  moreover have "distinct (map rs_id (filter P (queued e)))"
    using assms(1) by (simp add: once_def distinct_map_filter)
  ultimately show ?thesis using assms by (auto simp: once_def)
qed

section \<open>Every operation preserves it\<close>

lemma on_runner_fields [simp]:
  assumes "on_runner p e = (r, e')"
  shows "en_active e' = en_active e" "en_waiting e' = en_waiting e" "en_seen e' = en_seen e"
    "en_events e' = en_events e" "en_failed e' = en_failed e" "en_config e' = en_config e"
    "en_scheduler e' = en_scheduler e" "queued e' = queued e"
  using assms by (auto simp: on_runner_def queued_def split: prod.splits)

lemma once_on_runner: "once S log e \<Longrightarrow> on_runner p e = (r, e') \<Longrightarrow> once S log e'"
  using on_runner_fields once_cong by metis

text \<open>\<open>terminal\<close> either fails and leaves all but the runner, or ends the request it was given.\<close>

definition same_shell :: "'w engine \<Rightarrow> 'w engine \<Rightarrow> bool" where
  "same_shell e e' \<longleftrightarrow> en_active e' = en_active e \<and> en_waiting e' = en_waiting e \<and> en_seen e' = en_seen e \<and>
     en_failed e' = en_failed e \<and> en_config e' = en_config e \<and> en_scheduler e' = en_scheduler e"

lemma terminal_cases:
  assumes "terminal ops s reason tok message cleanup e = (r, e')"
  shows "same_shell e e'"
    and "case r of Inl x \<Rightarrow> en_events e' = en_events e
       | Inr s' \<Rightarrow> if rs_finished s then s' = s \<and> en_events e' = en_events e
           else s' = s\<lparr>rs_resident := False, rs_finished := True\<rparr> \<and>
             en_events e' = en_events e @ [\<lparr>ev_id = rs_id s, ev_token = tok, ev_reason = Some reason, ev_message = message\<rparr>]"
proof -
  let ?ev = "\<lparr>ev_id = rs_id s, ev_token = tok, ev_reason = Some reason, ev_message = message\<rparr>"
  let ?p = "if rs_resident s \<and> cleanup = Release_Sequence then on_runner (op_release ops (rs_id s)) else returnS ()"
  have "same_shell e e' \<and> (case r of Inl x \<Rightarrow> en_events e' = en_events e
       | Inr s' \<Rightarrow> if rs_finished s then s' = s \<and> en_events e' = en_events e
           else s' = s\<lparr>rs_resident := False, rs_finished := True\<rparr> \<and> en_events e' = en_events e @ [?ev])"
  proof (cases "rs_finished s")
    case True
    then show ?thesis using assms by (auto simp: terminal_def same_shell_def)
  next
    case False
    obtain u e1 where p: "?p e = (u, e1)" by fastforce
    have e1: "same_shell e e1 \<and> en_events e1 = en_events e"
      using p on_runner_fields[of "op_release ops (rs_id s)" e u e1] by (auto simp: same_shell_def split: if_splits)
    show ?thesis
    proof (cases u)
      case (Inl x)
      then show ?thesis using assms False p e1 by (auto simp: terminal_def bindS_Inl)
    next
      case (Inr x)
      have t: "terminal ops s reason tok message cleanup e = (Inr (s\<lparr>rs_resident := False, rs_finished := True\<rparr>),
          e1\<lparr>en_runner := op_release_reservation ops (rs_id s) (en_runner e1), en_events := en_events e1 @ [?ev]\<rparr>)"
        using p Inr False
        by (cases "rs_resident s \<and> cleanup = Release_Sequence") (simp_all only: terminal_def bindS_def if_True if_False
          prod.case sum.case eff_simps)
      then show ?thesis using assms False e1 by (auto simp: same_shell_def)
    qed
  qed
  then show "same_shell e e'"
    and "case r of Inl x \<Rightarrow> en_events e' = en_events e
       | Inr s' \<Rightarrow> if rs_finished s then s' = s \<and> en_events e' = en_events e
           else s' = s\<lparr>rs_resident := False, rs_finished := True\<rparr> \<and> en_events e' = en_events e @ [?ev]" by blast+
qed

lemma terminal_cleanup_total:
  "\<not> rs_resident s \<or> cleanup = Runner_Managed \<Longrightarrow> \<exists>s' e'. terminal ops s reason tok message cleanup e = (Inr s', e')"
  by (auto simp: terminal_def)

text \<open>\<open>v\<close> holds the queues, \<open>e\<close> is the engine on which the call runs.\<close>

lemma once_replace_at:
  assumes o: "once S log v" "en_seen v = en_seen e" "en_events v = en_events e"
    and t: "terminal ops s reason tok message cleanup e = (Inr s', e')"
    and q: "queued v = xs @ s # ys" "queued e'' = xs @ s' # ys"
    and f: "en_seen e'' = en_seen e'" "en_events e'' = en_events e'"
  shows "once S log e''"
proof (cases "rs_finished s")
  case True
  then have "s' = s" "en_events e' = en_events e" using terminal_cases(2)[OF t] by simp_all
  then show ?thesis
    by (intro once_update[OF o(1) q]) (use terminal_cases(1)[OF t] f o in \<open>simp_all add: same_shell_def\<close>)
next
  case False
  let ?ev = "\<lparr>ev_id = rs_id s, ev_token = tok, ev_reason = Some reason, ev_message = message\<rparr>"
  have "s' = s\<lparr>rs_resident := False, rs_finished := True\<rparr>" "en_events e' = en_events e @ [?ev]"
    using terminal_cases(2)[OF t] False by simp_all
  then show ?thesis
    using terminal_cases(1)[OF t] f o(2,3) False by (intro once_terminal[OF o(1) q, of ?ev]) (simp_all add: same_shell_def)
qed

lemma once_replace:
  assumes o: "once S log e" and t: "terminal ops s reason tok message cleanup e = (r, e')"
    and q: "queued e = xs @ s # ys" and f: "en_seen e'' = en_seen e'" "en_events e'' = en_events e'"
    and r: "r = Inr s'" "queued e'' = xs @ s' # ys"
  shows "once S log e''"
  by (rule once_replace_at[OF o refl refl t[unfolded r(1)] q r(2) f])

lemma once_terminal_error:
  "once S log e \<Longrightarrow> terminal ops s reason tok message cleanup e = (Inl x, e') \<Longrightarrow> once S log e'"
  using terminal_cases[of ops s reason tok message cleanup e "Inl x" e'] once_cong[of e' e]
  by (simp add: same_shell_def queued_def)

lemma queued_split: "i < length (en_active e) \<Longrightarrow>
   queued e = take i (en_active e) @ en_active e ! i # (drop (Suc i) (en_active e) @ en_waiting e)"
  by (simp add: queued_def id_take_nth_drop flip: append_assoc)

lemma queued_set_active: "i < length (en_active e) \<Longrightarrow>
   queued (set_active i s e) = take i (en_active e) @ s # (drop (Suc i) (en_active e) @ en_waiting e)"
  by (simp add: queued_def set_active_def upd_conv_take_nth_drop)

lemma set_active_fields [simp]:
  "length (en_active (set_active i s e)) = length (en_active e)" "en_waiting (set_active i s e) = en_waiting e"
  "en_seen (set_active i s e) = en_seen e" "en_events (set_active i s e) = en_events e"
  "en_runner (set_active i s e) = en_runner e" "en_failed (set_active i s e) = en_failed e"
  "i < length (en_active e) \<Longrightarrow> en_active (set_active i s e) ! i = s"
  by (simp_all add: set_active_def)

lemma once_set_active:
  assumes "once S log e" "i < length (en_active e)" "rs_id s = rs_id (en_active e ! i)"
    "rs_finished s = rs_finished (en_active e ! i)"
  shows "once S log (set_active i s e)"
  by (rule once_update[OF assms(1) queued_split[OF assms(2)] queued_set_active[OF assms(2)]]) (use assms in simp_all)

lemma once_terminal_at:
  assumes o: "once S log e" and i: "i < length (en_active e)" and t: "terminal_at ops i reason tok message e = (r, e')"
  shows "once S log e' \<and> length (en_active e') = length (en_active e)"
proof -
  obtain r1 e1 where t1: "terminal ops (en_active e ! i) reason tok message Release_Sequence e = (r1, e1)" by fastforce
  note S = terminal_cases(1)[OF t1, unfolded same_shell_def]
  show ?thesis
  proof (cases r1)
    case (Inl x)
    then show ?thesis using t t1 once_terminal_error[OF o] S by (auto simp: terminal_at_def bindS_def)
  next
    case (Inr s')
    then have e': "e' = set_active i s' e1" using t t1 by (simp add: terminal_at_def bindS_def)
    have "once S log e'" by (rule once_replace[OF o t1 queued_split[OF i] _ _ Inr])
      (use S i queued_set_active[of i e1] in \<open>simp_all add: e'\<close>)
    then show ?thesis using S by (simp add: e')
  qed
qed

lemma once_remove: "once S log e \<Longrightarrow> once S log (remove_finished b e)"
  by (rule once_drop[where e = e and P = "\<lambda>s. \<not> rs_finished s \<or> \<not> b \<and> s \<in> set (en_waiting e)"])
    (auto simp: queued_def once_def remove_finished_def Let_def intro!: filter_cong)

section \<open>Inside an iteration\<close>

text \<open>\<open>keeps P p\<close>: the operation preserves \<open>P\<close>, whether it returns or throws.\<close>

definition keeps :: "('s \<Rightarrow> bool) \<Rightarrow> ('s, 'a) eff \<Rightarrow> bool" where
  "keeps P p \<longleftrightarrow> (\<forall>s r s'. P s \<longrightarrow> p s = (r, s') \<longrightarrow> P s')"

lemma keepsD: "keeps P p \<Longrightarrow> P s \<Longrightarrow> p s = (r, s') \<Longrightarrow> P s'"
  by (simp add: keeps_def)

lemma keeps_bindS:
  assumes "keeps P p" and "\<And>x. keeps P (f x)"
  shows "keeps P (bindS p f)"
  unfolding keeps_def
proof (intro allI impI)
  fix s r s' assume P: "P s" and b: "bindS p f s = (r, s')"
  obtain u t where u: "p s = (u, t)" by fastforce
  have "P t" by (rule keepsD[OF assms(1) P u])
  then show "P s'" using b u assms(2) by (cases u) (auto simp: bindS_def keeps_def)
qed

lemma keeps_if: "(c \<Longrightarrow> keeps P p) \<Longrightarrow> (\<not> c \<Longrightarrow> keeps P q) \<Longrightarrow> keeps P (if c then p else q)"
  by simp

lemma keeps_modifyS: "(\<And>s. P s \<Longrightarrow> P (g s)) \<Longrightarrow> keeps P (modifyS g)"
  by (simp add: keeps_def)

lemma keeps_checkS: "keeps P (checkS c)"
  by (simp add: keeps_def checkS_def)

lemma keeps_returnS: "keeps P (returnS x)"
  by (simp add: keeps_def)

text \<open>
  Between the operations of an iteration: the invariant, \<open>n\<close> active requests of which those still to
  be served (the indices \<open>K\<close>) are live, and a waiting queue without finished states.
\<close>

definition running :: "request_id set \<Rightarrow> generation_event list \<Rightarrow> nat \<Rightarrow> nat set \<Rightarrow> 'w engine \<Rightarrow> bool" where
  "running S log n K e \<longleftrightarrow> once S log e \<and> length (en_active e) = n \<and>
     (\<forall>k \<in> K. k < n \<longrightarrow> \<not> rs_finished (en_active e ! k)) \<and> (\<forall>s \<in> set (en_waiting e). \<not> rs_finished s)"

lemma running_mono: "running S log n (insert i K) e \<Longrightarrow> running S log n K e"
  by (simp add: running_def)

lemma running_on_runner: "keeps (running S log n K) (on_runner p)"
  unfolding keeps_def
proof (intro allI impI)
  fix e r e' assume "running S log n K e" "on_runner p e = (r, e')"
  then show "running S log n K e'"
    using once_on_runner[of S log e p r e'] on_runner_fields[of p e r e'] by (simp add: running_def)
qed

lemma running_set_active:
  "running S log n K e \<Longrightarrow> i < n \<Longrightarrow> rs_id s = rs_id (en_active e ! i) \<Longrightarrow>
   rs_finished s = rs_finished (en_active e ! i) \<Longrightarrow> running S log n K (set_active i s e)"
  using once_set_active[of S log e i s] by (auto simp: running_def set_active_def nth_list_update)

lemma running_stats [simp]: "running S log n K (e\<lparr>en_stats := x\<rparr>) = running S log n K e"
  by (simp add: running_def once_def queued_def live_ids_def)

lemma running_terminal_at:
  assumes i: "i < n" "i \<notin> K"
  shows "keeps (running S log n K) (terminal_at ops i reason tok message)"
  unfolding keeps_def
proof (intro allI impI)
  fix e r e' assume e: "running S log n K e" and t: "terminal_at ops i reason tok message e = (r, e')"
  obtain r1 e1 where t1: "terminal ops (en_active e ! i) reason tok message Release_Sequence e = (r1, e1)" by fastforce
  note S = terminal_cases(1)[OF t1, unfolded same_shell_def]
  have "en_waiting e' = en_waiting e" "\<And>k. k \<noteq> i \<Longrightarrow> en_active e' ! k = en_active e ! k"
    using t t1 S by (cases r1; auto simp: terminal_at_def bindS_def set_active_def)+
  moreover have "once S log e' \<and> length (en_active e') = length (en_active e)"
    by (rule once_terminal_at[OF _ _ t]) (use e i in \<open>simp_all add: running_def\<close>)
  moreover have "\<And>k. k \<in> K \<Longrightarrow> k \<noteq> i" using i(2) by blast
  ultimately show "running S log n K e'" using e by (simp add: running_def)
qed

lemma running_state: "running S log n K e \<Longrightarrow> i < n \<Longrightarrow>
   running S log n K (set_active i ((en_active e ! i)\<lparr>rs_resident := b\<rparr>) e)"
  "running S log n K e \<Longrightarrow> i < n \<Longrightarrow>
   running S log n K (set_active i ((en_active e ! i)\<lparr>rs_block_tokens := k, rs_prefilled := j\<rparr>) (e\<lparr>en_stats := x\<rparr>))"
  "running S log n K e \<Longrightarrow> i < n \<Longrightarrow>
   running S log n K (set_active i ((en_active e ! i)\<lparr>rs_prefilled := j\<rparr>) (e\<lparr>en_stats := x\<rparr>))"
  "running S log n K e \<Longrightarrow> i < n \<Longrightarrow>
   running S log n K (set_active i ((en_active e ! i)\<lparr>rs_output := out\<rparr>) e)"
  by (rule running_set_active; simp)+

lemma running_restore: "i < n \<Longrightarrow> keeps (running S log n K) (restore_prefix ops i r)"
  unfolding restore_prefix_def set_resident_def
  by (intro keeps_bindS running_on_runner keeps_modifyS)
    (auto simp: running_state keeps_def accept_reuse_def Let_def)

lemma running_count: "running S log n K e \<Longrightarrow> i < n \<Longrightarrow> running S log n K (count_input i phase k e)"
  by (simp add: count_input_def running_state)

text \<open>Reporting a token ends the request or leaves it live: either way it is no longer to be served.\<close>

lemma running_emit:
  assumes i: "i < n" "i \<notin> K" and e: "running S log n (insert i K) e" and t: "emit_token ops i tok e = (r, e')"
  shows "running S log n K e'"
proof -
  let ?s = "en_active e ! i"
  let ?e1 = "set_active i (?s\<lparr>rs_output := rs_output ?s @ [tok]\<rparr>) e"
  have e1: "running S log n (insert i K) ?e1" by (rule running_state(4)[OF e i(1)])
  show ?thesis
  proof (cases "finish_of (rs_request ?s) (rs_output ?s @ [tok]) tok")
    case (Some reason)
    then have "terminal_at ops i reason (Some tok) [] ?e1 = (r, e')" using t by (simp add: emit_token_def Let_def)
    then show ?thesis by (rule keepsD[OF running_terminal_at[OF i] running_mono[OF e1]])
  next
    case None
    let ?ev = "\<lparr>ev_id = rs_id ?s, ev_token = Some tok, ev_reason = None, ev_message = []\<rparr>"
    have e': "e' = ?e1\<lparr>en_events := en_events ?e1 @ [?ev]\<rparr>" using t None by (auto simp: emit_token_def Let_def)
    have "rs_id ?s \<in> live_ids ?e1"
      using e i(1) live_ids_split[OF queued_set_active[of i e "?s\<lparr>rs_output := rs_output ?s @ [tok]\<rparr>"]]
      by (simp add: running_def)
    then have "once S log e'" using e1
      by (intro once_event[of S log ?e1 e' ?ev]) (simp_all add: e' running_def queued_def)
    then show ?thesis using e1 by (simp add: running_def e')
  qed
qed

lemma running_sample:
  assumes i: "i < n" "i \<notin> K" and e: "running S log n (insert i K) e" and t: "sample_output ops isfinite lt i q logits e = (r, e')"
  shows "running S log n K e'"
proof (cases "rs_prefilled (en_active e ! i) < length (rq_prompt q) \<or> check_logits ops isfinite logits \<noteq> Inr ()")
  case True
  then have "e' = e" using t by (auto simp: sample_output_def bindS_checkS split: sum.splits if_splits)
  then show ?thesis using running_mono[OF e] by simp
next
  case False
  obtain u e1 where c: "on_runner (op_cache_prefix ops (rq_id q)) e = (u, e1)" by fastforce
  have e1: "running S log n (insert i K) e1" by (rule keepsD[OF running_on_runner e c])
  show ?thesis using t False c running_mono[OF e1] running_emit[OF i e1]
    by (cases u) (auto simp: sample_output_def checkS_def bindS_def)
qed

lemma running_process:
  assumes i: "i < n" "i \<notin> K" and e: "running S log n (insert i K) e"
    and t: "process_input ops isfinite lt i phase q input e = (r, e')"
  shows "running S log n K e'"
proof -
  obtain u e1 where c: "on_runner (op_append ops (rq_id q) input) e = (u, e1)" by fastforce
  have e1: "running S log n (insert i K) e1" by (rule keepsD[OF running_on_runner e c])
  show ?thesis using t c running_mono[OF e1] running_sample[OF i running_count[OF e1 i(1)]]
    by (cases u) (auto simp: process_input_def bindS_def)
qed

lemma running_isolate:
  assumes i: "i < n" "i \<notin> K" and e: "running S log n K e" and t: "isolate_capacity ops i (r0, e) = (r, e')"
  shows "running S log n K e'"
proof (cases "\<exists>m. r0 = Inl (Kv_capacity_error m)")
  case True
  then show ?thesis using t keepsD[OF running_terminal_at[OF i] e] by (auto simp: isolate_capacity_def)
next
  case False
  then have "e' = e" using t by (auto simp: isolate_capacity_def split: sum.splits exn.splits)
  then show ?thesis using e by simp
qed

lemma running_work_item:
  assumes i: "i < n" "i \<notin> K" and e: "running S log n (insert i K) e"
    and t: "work_item ops isfinite lt i phase p e = ((r, e'), p')"
  shows "running S log n K e'"
proof -
  obtain r1 e1 where c: "(if rs_resident (en_active e ! i) then (Inr (), e)
      else restore_prefix ops i (rs_request (en_active e ! i)) e) = (r1, e1)" by fastforce
  have e1: "running S log n (insert i K) e1"
    using c e keepsD[OF running_restore[OF i(1)] e] by (auto split: if_splits)
  note t = t[unfolded work_item_def c prod.case Let_def]
  show ?thesis
  proof (cases r1)
    case (Inl x)
    then show ?thesis using t running_isolate[OF i running_mono[OF e1]] by auto
  next
    case (Inr u)
    let ?s = "en_active e1 ! i"
    show ?thesis
    proof (cases "take_input phase (length (rq_prompt (rs_request ?s)) - rs_prefilled ?s) p")
      case (Inl x)
      then show ?thesis using t Inr running_isolate[OF i running_mono[OF e1]] by auto
    next
      case (Inr np)
      obtain k p1 where np: "np = (k, p1)" by (cases np)
      obtain r2 e2 where pr: "process_input ops isfinite lt i phase (rs_request ?s) (work_input ?s phase k) e1 = (r2, e2)"
        by fastforce
      have "isolate_capacity ops i (r2, e2) = (r, e')" using t \<open>r1 = Inr u\<close> Inr np pr by simp
      then show ?thesis by (rule running_isolate[OF i running_process[OF i e1 pr]])
    qed
  qed
qed

lemma running_work_loop:
  assumes "running S log n (fst ` set ws) e" and "distinct (map fst ws)" and "\<forall>w \<in> set ws. fst w < n"
    and "work_loop ops isfinite lt ws p e = (r, e')"
  shows "running S log n {} e'"
  using assms
proof (induction ws arbitrary: p e)
  case (Cons w ws)
  obtain i ph where w: "w = (i, ph)" by (cases w)
  have weak: "running S log n {} e" using Cons.prems(1) by (simp add: running_def)
  obtain r1 e1 p1 where t: "work_item ops isfinite lt i ph p e = ((r1, e1), p1)" by (metis surj_pair)
  have i: "i < n" "i \<notin> fst ` set ws" using Cons.prems(2,3) w by auto
  have "running S log n (fst ` set ws) e1" by (rule running_work_item[OF i _ t]) (use Cons.prems(1) w in simp)
  moreover from this have "running S log n {} e1" by (simp add: running_def)
  ultimately show ?case using Cons.prems(2-4) weak w t Cons.IH[of e1 p1]
    by (auto split: if_splits sum.splits)
qed (auto simp: running_def)

section \<open>The operations of the engine\<close>

lemma once_reject:
  assumes o: "once S log e" and w: "en_waiting e = s # ws" and t: "terminal ops s reason tok message cleanup e = (Inr s', e')"
    and live: "\<not> rs_finished s"
  shows "once S log (e'\<lparr>en_waiting := ws\<rparr>)"
proof -
  note S = terminal_cases(1)[OF t, unfolded same_shell_def]
  have s': "rs_finished s'" "rs_id s' = rs_id s" using terminal_cases(2)[OF t] live by simp_all
  have 1: "once S log (e'\<lparr>en_waiting := s' # ws\<rparr>)"
    by (rule once_replace[OF o t, of "en_active e" ws]) (use S w in \<open>auto simp: queued_def\<close>)
  then have "s' \<notin> set (en_active e) \<union> set ws" using S by (auto simp: once_def queued_def)
  then have f: "filter (\<lambda>x. x \<noteq> s') (en_active e) = en_active e" "filter (\<lambda>x. x \<noteq> s') ws = ws"
    by (auto intro!: filter_True)
  show ?thesis by (rule once_drop[OF 1, where P = "\<lambda>x. x \<noteq> s'"]) (use s' S f in \<open>simp_all add: queued_def\<close>)
qed

lemma once_admit:
  assumes "once S log e" and "all_live e" and "en_waiting e = ws"
    and "admit ops slots ws progressed e = (r, e')"
  shows "once S log e' \<and> all_live e'"
  using assms
proof (induction ws arbitrary: slots progressed e)
  case (Cons s ws)
  obtain u e1 where c: "on_runner (op_reserve_request ops (rs_id s) (pages_needed (rs_request s))) e = (u, e1)" by fastforce
  have e1: "once S log e1" "all_live e1" "en_waiting e1 = s # ws"
    using Cons.prems once_on_runner[OF _ c] on_runner_fields[OF c] by auto
  have s: "\<not> rs_finished s" using Cons.prems by (simp add: queued_def)
  note A = Cons.prems(4)[unfolded admit.simps c prod.case]
  show ?case
  proof (cases "slots = 0 \<or> (\<exists>x. u = Inl x) \<or> (u = Inr Wait \<and> en_active e1 \<noteq> [])")
    case True
    then show ?thesis using A e1 Cons.prems(1,2) by (auto split: if_splits)
  next
    case False
    then obtain a where a: "u = Inr a" "slots \<noteq> 0" "\<not> (a = Wait \<and> en_active e1 \<noteq> [])" by (cases u) auto
    show ?thesis
    proof (cases "a = Ready")
      case True
      let ?e2 = "e1\<lparr>en_active := en_active e1 @ [s], en_waiting := ws\<rparr>"
      have q: "queued ?e2 = queued e1" using e1(3) by (simp add: queued_def)
      have "admit ops (slots - 1) ws True ?e2 = (r, e')" using A a True by simp
      moreover have "once S log ?e2" using e1(1) once_cong[OF q] by simp
      moreover have "all_live ?e2" using e1(2) q by simp
      ultimately show ?thesis by (intro Cons.IH[of ?e2]) simp_all
    next
      case no: False
      obtain r2 e2 where t: "terminal ops s Finish_Error None (rejection a) Release_Sequence e1 = (r2, e2)" by fastforce
      show ?thesis
      proof (cases r2)
        case (Inl x)
        then show ?thesis using A a no t once_terminal_error[OF e1(1)] terminal_cases(1)[OF t] e1(2)
          by (auto simp: same_shell_def queued_def)
      next
        case (Inr s')
        let ?e3 = "e2\<lparr>en_waiting := ws\<rparr>"
        have "once S log ?e3" by (rule once_reject[OF e1(1,3) t[unfolded Inr] s])
        moreover have "all_live ?e3" using terminal_cases(1)[OF t] e1(2,3) by (simp add: same_shell_def queued_def)
        moreover have "admit ops slots ws True ?e3 = (r, e')" using A a no t Inr by simp
        ultimately show ?thesis by (intro Cons.IH[of ?e3]) simp_all
      qed
    qed
  qed
qed simp

lemma once_iteration:
  assumes "once S log e" and "all_live e" and t: "iteration ops isfinite lt e = (r, e')"
  shows "once S log e' \<and> (r = Inr b \<longrightarrow> all_live e')"
proof -
  obtain u e1 where c: "admit ops (admission_count (en_scheduler e) (length (en_active e)) (length (en_waiting e))) (en_waiting e) False e = (u, e1)"
    by fastforce
  have e1: "once S log e1" "all_live e1" using once_admit[OF assms(1,2) refl c] by auto
  show ?thesis
  proof (cases "(\<exists>x. u = Inl x) \<or> en_active e1 = []")
    case True
    then have "e' = e1" using t c by (cases u) (auto simp: iteration_def bindS_def)
    then show ?thesis using e1 by simp
  next
    case False
    then obtain x where u: "u = Inr x" by (cases u) auto
    define p where "p = mk_plan (map phase_of (en_active e1)) (en_scheduler e1)"
    obtain v e2 where w: "work_loop ops isfinite lt (sp_order p) p e1 = (v, e2)" by fastforce
    have "running S log (length (en_active e1)) (fst ` set (sp_order p)) e1"
      using e1 by (auto simp: running_def queued_def)
    then have e2: "running S log (length (en_active e1)) {} e2"
      by (rule running_work_loop[OF _ _ _ w]) (use plan_mem in \<open>auto simp: p_def plan_order comp_def\<close>)
    have e': "e' = (case v of Inl _ \<Rightarrow> e2 | Inr _ \<Rightarrow> remove_finished False e2)" "v = Inl y \<Longrightarrow> r = Inl y" for y
      using t c u w False by (auto simp: iteration_def bindS_def Let_def p_def[symmetric] split: sum.splits)
    show ?thesis using e' e2 once_remove[of S log e2 False]
      by (cases v) (auto simp: running_def remove_finished_def queued_def)
  qed
qed

lemma terminal_all_once:
  fixes v e e'' :: "'w engine"
  assumes "once S log v" and "queued v = xs @ ss @ ys" and "en_seen v = en_seen e" "en_events v = en_events e"
    and "terminal_all ops reason message cleanup ss e = (r, ss', e')" and "queued e'' = xs @ ss' @ ys"
    and "en_seen e'' = en_seen e'" "en_events e'' = en_events e'"
  shows "once S log e''"
  using assms
proof (induction ss arbitrary: v e xs ss' r)
  case Nil
  then show ?case using once_cong[of e'' v] by simp
next
  case (Cons s ss)
  obtain u e1 where t: "terminal ops s reason None message cleanup e = (u, e1)" by fastforce
  note S = terminal_cases(1)[OF t, unfolded same_shell_def]
  show ?case
  proof (cases u)
    case (Inl x)
    then have eq: "ss' = s # ss" "e' = e1" using Cons.prems(5) t by auto
    moreover have "en_events e1 = en_events e" using terminal_cases(2)[OF t] Inl by simp
    ultimately show ?thesis using once_cong[of e'' v] Cons.prems S by simp
  next
    case (Inr s')
    obtain w ts e2 where ta: "terminal_all ops reason message cleanup ss e1 = (w, ts, e2)" by (metis surj_pair)
    have eq: "ss' = s' # ts" "e' = e2" using Cons.prems(5) t ta Inr by auto
    let ?v = "e1\<lparr>en_active := xs @ s' # ss @ ys, en_waiting := []\<rparr>"
    have o1: "once S log ?v"
      by (rule once_replace_at[OF Cons.prems(1,3,4) t[unfolded Inr], of xs "ss @ ys"])
        (use Cons.prems(2) in \<open>simp_all add: queued_def\<close>)
    show ?thesis
      by (rule Cons.IH[OF o1 _ _ _ ta[folded eq(2)], of "xs @ [s']"]) (use Cons.prems eq in \<open>simp_all add: queued_def\<close>)
  qed
qed

lemma terminal_all_shell:
  assumes "terminal_all ops reason message cleanup ss e = (r, ss', e')"
  shows "same_shell e e' \<and> (r = Inr x \<longrightarrow> (\<forall>s \<in> set ss'. rs_finished s)) \<and> (cleanup = Runner_Managed \<longrightarrow> r = Inr ())"
  using assms
proof (induction ss arbitrary: e ss' r)
  case (Cons s ss)
  obtain u e1 where t: "terminal ops s reason None message cleanup e = (u, e1)" by fastforce
  obtain w ts e2 where ta: "terminal_all ops reason message cleanup ss e1 = (w, ts, e2)" by (metis surj_pair)
  show ?case
  proof (cases u)
    case (Inl y)
    then show ?thesis using Cons.prems t terminal_cases(1)[OF t] terminal_cleanup_total[of s cleanup ops reason None message e]
      by auto
  next
    case (Inr s')
    have "rs_finished s'" using terminal_cases(2)[OF t] Inr by (auto split: if_splits)
    have eq: "ss' = s' # ts" "e' = e2" "r = w" using Cons.prems t ta Inr by auto
    then show ?thesis using Cons.IH[OF ta[folded eq(2)]] terminal_cases(1)[OF t] \<open>rs_finished s'\<close>
      by (auto simp: same_shell_def)
  qed
qed (simp add: same_shell_def)

lemma once_terminal_active:
  assumes o: "once S log e" and t: "terminal_active ops reason message cleanup e = (r, e')"
  shows "once S log e' \<and> en_waiting e' = en_waiting e \<and> en_failed e' = en_failed e \<and>
    (r = Inr x \<longrightarrow> (\<forall>s \<in> set (en_active e'). rs_finished s)) \<and> (cleanup = Runner_Managed \<longrightarrow> r = Inr ())"
proof -
  obtain w ts e2 where ta: "terminal_all ops reason message cleanup (en_active e) e = (w, ts, e2)" by (metis surj_pair)
  have e': "e' = e2\<lparr>en_active := ts\<rparr>" "r = w" using t ta by (simp_all add: terminal_active_def)
  note S = terminal_all_shell[OF ta, unfolded same_shell_def]
  have "once S log e'" by (rule terminal_all_once[OF o _ _ _ ta, of "[]"]) (use S e' in \<open>simp_all add: queued_def\<close>)
  then show ?thesis using S e' by simp
qed

lemma once_terminal_waiting:
  assumes o: "once S log e" and t: "terminal_waiting ops reason message cleanup e = (r, e')"
  shows "once S log e' \<and> en_active e' = en_active e \<and> en_failed e' = en_failed e \<and>
    (r = Inr x \<longrightarrow> (\<forall>s \<in> set (en_waiting e'). rs_finished s)) \<and> (cleanup = Runner_Managed \<longrightarrow> r = Inr ())"
proof -
  obtain w ts e2 where ta: "terminal_all ops reason message cleanup (en_waiting e) e = (w, ts, e2)" by (metis surj_pair)
  have e': "e' = e2\<lparr>en_waiting := ts\<rparr>" "r = w" using t ta by (simp_all add: terminal_waiting_def)
  note S = terminal_all_shell[OF ta, unfolded same_shell_def]
  have "once S log e'" by (rule terminal_all_once[OF o _ _ _ ta, of "en_active e" "[]"]) (use S e' in \<open>simp_all add: queued_def\<close>)
  then show ?thesis using S e' by simp
qed

lemma remove_finished_live: "all_live (remove_finished True e)"
  by (auto simp: remove_finished_def queued_def Let_def)

lemma remove_finished_idle:
  "\<forall>s \<in> set (queued e). rs_finished s \<Longrightarrow> queued (remove_finished True e) = []"
  by (auto simp: remove_finished_def queued_def Let_def filter_empty_conv)

text \<open>A fatal failure ends every request, whatever the runner does.\<close>

lemma once_fail_all:
  assumes o: "once S log e"
  shows "once S log (fail_all ops x e) \<and> queued (fail_all ops x e) = [] \<and> en_failed (fail_all ops x e)"
proof -
  obtain r e1 where c: "on_runner (op_clear ops) (e\<lparr>en_failed := True\<rparr>) = (r, e1)" by fastforce
  define message where "message = (case r of Inl c \<Rightarrow> what x @ ''; cleanup failed: '' @ what c | Inr _ \<Rightarrow> what x)"
  obtain u2 e2 where t2: "terminal_active ops Finish_Error message Runner_Managed e1 = (u2, e2)" by fastforce
  obtain u3 e3 where t3: "terminal_waiting ops Finish_Error message Runner_Managed e2 = (u3, e3)" by fastforce
  have "once S log (e\<lparr>en_failed := True\<rparr>)" using o by (simp add: once_def queued_def live_ids_def)
  then have o1: "once S log e1" by (rule once_on_runner[OF _ c])
  note A = once_terminal_active[OF o1 t2, of "()"] and f = on_runner_fields[OF c]
  from A have o2: "once S log e2" by blast
  note B = once_terminal_waiting[OF o2 t3, of "()"]
  have q: "\<forall>s \<in> set (queued e3). rs_finished s" using A B by (auto simp: queued_def)
  have "fail_all ops x e = remove_finished True e3"
    unfolding fail_all_def c prod.case message_def[symmetric] Let_def by (simp add: t2 t3)
  moreover have "en_failed (remove_finished True e3)" using A B f by (simp add: remove_finished_def)
  ultimately show ?thesis using once_remove[of S log e3 True] B remove_finished_idle[OF q] by simp
qed

text \<open>The invariant between the calls of a client.\<close>

definition rest :: "request_id set \<Rightarrow> generation_event list \<Rightarrow> 'w engine \<Rightarrow> bool" where
  "rest S log e \<longleftrightarrow> once S log e \<and> all_live e"

lemma rest_step:
  assumes "rest S log e" and t: "engine_step ops isfinite lt e = (r, e')"
  shows "rest S log e'"
proof -
  let ?e = "e\<lparr>en_stats := no_stats\<rparr>"
  have e: "once S log ?e" "all_live ?e" using assms(1) by (simp_all add: rest_def once_def queued_def live_ids_def)
  obtain u e1 where it: "iteration ops isfinite lt ?e = (u, e1)" by fastforce
  show ?thesis
  proof (cases "en_failed e")
    case True
    then show ?thesis using t e by (auto simp: engine_step_def rest_def)
  next
    case False
    note I = once_iteration[OF e it]
    show ?thesis
    proof (cases u)
      case (Inl x)
      then have "e' = fail_all ops x e1" using t it False by (simp add: engine_step_def)
      then show ?thesis using once_fail_all[of S log e1 ops x] I by (simp add: rest_def)
    next
      case (Inr b)
      then show ?thesis using t it False I by (auto simp: engine_step_def rest_def)
    qed
  qed
qed

lemma find_live_nth: "find_live i ss = Some k \<Longrightarrow> k < length ss \<and> rs_id (ss ! k) = i \<and> \<not> rs_finished (ss ! k)"
  by (induction ss arbitrary: k) (auto split: if_splits)

lemma find_live_None: "find_live i ss = None \<longleftrightarrow> (\<forall>s \<in> set ss. rs_id s = i \<longrightarrow> rs_finished s)"
  by (induction ss) auto

lemma queued_waiting: "k < length (en_waiting e) \<Longrightarrow>
   queued e = (en_active e @ take k (en_waiting e)) @ en_waiting e ! k # drop (Suc k) (en_waiting e)"
  by (simp add: queued_def id_take_nth_drop[symmetric])

lemma rest_cancel:
  assumes "rest S log e" and t: "cancel ops i e = (r, e')"
  shows "rest S log e'"
proof (cases "find_live i (en_waiting e)")
  case (Some k)
  have o: "once S log e" "all_live e" using assms(1) by (simp_all add: rest_def)
  note k = find_live_nth[OF Some]
  let ?s = "en_waiting e ! k"
  obtain u e1 where t1: "terminal ops ?s Cancelled None [] Release_Sequence e = (u, e1)" by fastforce
  note S = terminal_cases(1)[OF t1, unfolded same_shell_def]
  show ?thesis
  proof (cases u)
    case (Inl x)
    then show ?thesis using t Some t1 once_terminal_error[OF o(1)] o(2) S
      by (auto simp: cancel_def bindS_def rest_def queued_def)
  next
    case (Inr s')
    let ?e2 = "e1\<lparr>en_waiting := (en_waiting e1)[k := s']\<rparr>"
    have "once S log ?e2"
      by (rule once_replace[OF o(1) t1 queued_waiting _ _ Inr]) (use S k in \<open>simp_all add: queued_def upd_conv_take_nth_drop\<close>)
    moreover have "e' = remove_finished True ?e2" using t Some t1 Inr by (simp add: cancel_def bindS_def)
    ultimately show ?thesis using once_remove[of S log ?e2 True] remove_finished_live by (simp add: rest_def)
  qed
next
  case None
  have o: "once S log e" "all_live e" using assms(1) by (simp_all add: rest_def)
  show ?thesis
  proof (cases "find_live i (en_active e)")
    case no: None
    then show ?thesis using t None assms(1) by (simp add: cancel_def)
  next
    case (Some k)
    note k = find_live_nth[OF Some]
    obtain u e1 where t1: "terminal_at ops k Cancelled None [] e = (u, e1)" by fastforce
    have run: "running S log (length (en_active e)) {} e" using o by (simp add: running_def queued_def)
    have R: "running S log (length (en_active e)) {} e1"
      by (rule keepsD[OF running_terminal_at run t1]) (use k in auto)
    show ?thesis
    proof (cases u)
      case (Inl x)
      then have e': "e' = e1" using t None Some t1 by (simp add: cancel_def bindS_def)
      obtain u0 e0 where t0: "terminal ops (en_active e ! k) Cancelled None [] Release_Sequence e = (u0, e0)" by fastforce
      then have "e1 = e0" "same_shell e e0" using t1 Inl terminal_cases(1)[OF t0]
        by (cases u0; simp add: terminal_at_def bindS_def)+
      then have "all_live e1" using o(2) by (simp add: same_shell_def queued_def)
      then show ?thesis using R e' by (simp add: rest_def running_def)
    next
      case (Inr x)
      then have "e' = remove_finished False e1" using t None Some t1 by (simp add: cancel_def bindS_def)
      then show ?thesis using R once_remove[of S log e1 False] by (auto simp: rest_def running_def remove_finished_def queued_def)
    qed
  qed
qed

lemma rest_shutdown:
  assumes "rest S log e" and t: "shutdown ops e = (r, e')"
  shows "rest S log e' \<and> (r = Inr () \<longrightarrow> queued e' = [])"
proof -
  have o: "once S log e" using assms(1) by (simp add: rest_def)
  obtain u1 e1 where t1: "terminal_active ops Cancelled [] Release_Sequence e = (u1, e1)" by fastforce
  note A = once_terminal_active[OF o t1, of "()"]
  obtain u2 e2 where t2: "terminal_waiting ops Cancelled [] Release_Sequence e1 = (u2, e2)" by fastforce
  from A have o1: "once S log e1" by blast
  note B = once_terminal_waiting[OF o1 t2, of "()"]
  have fin: "once S log (remove_finished True d) \<and> all_live (remove_finished True d)" if "once S log d" for d :: "'a engine"
    using once_remove[OF that] remove_finished_live by blast
  show ?thesis
  proof (cases u1)
    case (Inl x)
    then show ?thesis using t t1 fin[OF o1] by (auto simp: shutdown_def bindS_def rest_def)
  next
    case ok1: (Inr y)
    show ?thesis
    proof (cases u2)
      case (Inl x)
      then show ?thesis using t t1 t2 ok1 fin[of e2] B by (auto simp: shutdown_def bindS_def rest_def)
    next
      case (Inr z)
      have c: "on_runner (op_clear ops) (remove_finished True e2) = (r, e')"
        using t t1 t2 ok1 Inr by (simp add: shutdown_def bindS_def)
      have "queued (remove_finished True e2) = []"
        by (rule remove_finished_idle) (use A B ok1 Inr in \<open>auto simp: queued_def\<close>)
      then show ?thesis using fin[of e2] B once_on_runner[OF _ c] on_runner_fields[OF c] by (simp add: rest_def)
    qed
  qed
qed

lemma rest_submit:
  assumes "rest S log e" and t: "submit ops q e = (r, e')"
  shows "rest (if r = Inr () then insert (rq_id q) S else S) log e'"
proof (cases "valid_request ops e q")
  case (Inl x)
  then show ?thesis using assms by (auto simp: submit_def)
next
  case (Inr u)
  let ?i = "rq_id q"
  have fresh: "?i \<notin> en_seen e" using Inr by (auto simp: valid_request_def split: if_splits)
  have e': "r = Inr ()" "e' = e\<lparr>en_waiting := en_waiting e @ [fresh_state q], en_seen := insert ?i (en_seen e)\<rparr>"
    using t Inr by (auto simp: submit_def)
  have q: "queued e' = queued e @ [fresh_state q]" by (simp add: e' queued_def)
  have fr: "rs_id (fresh_state q) = ?i" "\<not> rs_finished (fresh_state q)" by (simp_all add: fresh_state_def)
  have live: "live_ids e' = insert ?i (live_ids e)"
    using live_ids_split[of e' "queued e" "fresh_state q" "[]"] q fr by (simp add: live_ids_def)
  have o: "once S log e" using assms(1) by (simp add: rest_def)
  have "\<forall>j. if j \<in> insert ?i S \<and> j \<notin> live_ids e' then stream_closed j (log @ en_events e')
        else stream_open j (log @ en_events e')"
    using o fresh live by (auto simp: once_def e')
  moreover have "distinct (map rs_id (queued e'))" "rs_id ` set (queued e') \<subseteq> insert ?i S"
    using o fresh q by (auto simp: once_def e' fresh_state_def)
  moreover have "en_seen e' = insert ?i S" using o by (simp add: e' once_def)
  moreover have "\<forall>ev \<in> set (log @ en_events e'). ev_id ev \<in> insert ?i S" using o by (simp add: e' once_def)
  ultimately have "once (insert ?i S) log e'" unfolding once_def by blast
  then show ?thesis using assms(1) e' q by (auto simp: rest_def fresh_state_def)
qed

section \<open>Runs of a client\<close>

text \<open>
  What a client can do with an engine, in any order and whatever the calls answer: \<open>rs\<close> are the
  accepted requests, \<open>log\<close> the events delivered so far.
\<close>

inductive engine_run ::
    "('w, 'v) runner_ops \<Rightarrow> ('v \<Rightarrow> bool) \<Rightarrow> ('v \<Rightarrow> 'v \<Rightarrow> bool) \<Rightarrow> 'w \<Rightarrow> engine_config \<Rightarrow>
       'w engine \<Rightarrow> request list \<Rightarrow> generation_event list \<Rightarrow> bool"
  for ops isfinite lt w0 c where
  run_start: "mk_engine ops w0 c = Inr e \<Longrightarrow> engine_run ops isfinite lt w0 c e [] []"
| run_submit: "engine_run ops isfinite lt w0 c e rs log \<Longrightarrow> submit ops q e = (r, e') \<Longrightarrow>
    engine_run ops isfinite lt w0 c e' (if r = Inr () then rs @ [q] else rs) log"
| run_step: "engine_run ops isfinite lt w0 c e rs log \<Longrightarrow> engine_step ops isfinite lt e = (b, e') \<Longrightarrow>
    engine_run ops isfinite lt w0 c e' rs log"
| run_poll: "engine_run ops isfinite lt w0 c e rs log \<Longrightarrow> poll_events e = (evs, e') \<Longrightarrow>
    engine_run ops isfinite lt w0 c e' rs (log @ evs)"
| run_cancel: "engine_run ops isfinite lt w0 c e rs log \<Longrightarrow> cancel ops i e = (r, e') \<Longrightarrow>
    engine_run ops isfinite lt w0 c e' rs log"
| run_shutdown: "engine_run ops isfinite lt w0 c e rs log \<Longrightarrow> shutdown ops e = (r, e') \<Longrightarrow>
    engine_run ops isfinite lt w0 c e' rs log"

lemma rest_poll:
  assumes "rest S log e" and t: "poll_events e = (evs, e')"
  shows "rest S (log @ evs) e'"
proof -
  have e': "e' = e\<lparr>en_events := []\<rparr>" "evs = en_events e" using t by (simp_all add: poll_events_def)
  then have "queued e' = queued e" by (simp add: queued_def)
  moreover from this have "live_ids e' = live_ids e" by (simp add: live_ids_def)
  ultimately show ?thesis using assms(1) e' by (simp add: rest_def once_def)
qed

lemma run_rest:
  "engine_run ops isfinite lt w0 c e rs log \<Longrightarrow> rest (rq_id ` set rs) log e \<and> distinct (map rq_id rs)"
proof (induction rule: engine_run.induct)
  case (run_start e)
  then show ?case
    by (auto simp: mk_engine_def rest_def once_def queued_def stream_open_def events_for_def split: if_splits)
next
  case (run_submit e rs log q r e')
  have "rq_id q \<notin> rq_id ` set rs" if "r = Inr ()"
    using run_submit that by (auto simp: submit_def valid_request_def rest_def once_def split: sum.splits if_splits)
  then show ?case using run_submit rest_submit[of "rq_id ` set rs" log e ops q r e'] by auto
next
  case (run_poll e rs log evs e')
  then show ?case using rest_poll by blast
next
  case (run_step e rs log b e')
  then show ?case using rest_step[of "rq_id ` set rs" log e ops isfinite lt b e'] by simp
next
  case (run_cancel e rs log i r e')
  then show ?case using rest_cancel[of "rq_id ` set rs" log e ops i r e'] by simp
next
  case (run_shutdown e rs log r e')
  then show ?case using rest_shutdown[of "rq_id ` set rs" log e ops r e'] by simp
qed

text \<open>
  C3: every accepted request gets exactly one terminal event, as its last event, and gets it as soon
  as it is no longer queued. This holds for every runner and every sequence of client calls: with
  failing allocations, failing releases, cancellations, a fatal backend error or a shutdown.
\<close>

theorem exactly_one_terminal_event:
  assumes "engine_run ops isfinite lt w0 c e rs log"
  shows "distinct (map rq_id rs) \<and> rs_id ` set (queued e) \<subseteq> rq_id ` set rs \<and>
    (\<forall>i. if i \<in> rq_id ` set rs - rs_id ` set (queued e) then stream_closed i (log @ en_events e)
         else stream_open i (log @ en_events e))"
proof -
  from run_rest[OF assms] have "once (rq_id ` set rs) log e" "all_live e" "distinct (map rq_id rs)"
    by (auto simp: rest_def)
  moreover have "live_ids e = rs_id ` set (queued e)" using calculation(2) by (auto simp: live_ids_def)
  ultimately show ?thesis by (simp add: once_def)
qed

definition demo_engine_config :: engine_config where
  "demo_engine_config = \<lparr>ec_max_batch_size = 2, ec_token_budget = 4, ec_prefill_chunk = 2, ec_context = 6\<rparr>"

definition demo_ops :: "(int runner, int) runner_ops" where
  "demo_ops = cpu_ops (\<lambda>rs x. sum_list rs + x) id (\<lambda>_. True) 3 6"

definition demo_request :: request where
  "demo_request = \<lparr>rq_id = ''r'', rq_prompt = [1, 2],
     rq_generation = \<lparr>go_max_new_tokens = 2, go_eos_token_id = None\<rparr>\<rparr>"

lemma demo_run:
  "\<exists>e :: int runner engine. mk_engine demo_ops (demo_manager0, \<lambda>_ _. 0) demo_engine_config = Inr e \<and>
     (\<exists>e'. submit demo_ops demo_request e = (Inr (), e') \<and> queued e' = [fresh_state demo_request] \<and> en_active e' = [] \<and> en_events e' = [] \<and>
       engine_run demo_ops (\<lambda>_. True) (<) (demo_manager0, \<lambda>_ _. 0) demo_engine_config e' [demo_request] [])"
proof -
  let ?w = "(demo_manager0, \<lambda>_ _. 0 :: int)"
  obtain e where e: "mk_engine demo_ops ?w demo_engine_config = Inr e"
    by (simp add: mk_engine_def scheduler_config_of_def mk_scheduler_def demo_engine_config_def demo_ops_def
        cpu_ops_def demo_manager0_def)
  then have f: "en_failed e = False" "en_seen e = {}" "en_config e = demo_engine_config" "queued e = []" "en_events e = []"
    by (auto simp: mk_engine_def queued_def split: if_splits)
  have v: "valid_request demo_ops e demo_request = Inr ()"
    using f by (simp add: valid_request_def demo_request_def demo_engine_config_def demo_ops_def cpu_ops_def)
  then have s: "submit demo_ops demo_request e = (Inr (), e\<lparr>en_waiting := en_waiting e @ [fresh_state demo_request],
      en_seen := insert (rq_id demo_request) (en_seen e)\<rparr>)" by (simp add: submit_def)
  show ?thesis using e s f run_submit[OF run_start[OF e] s, of "\<lambda>_. True" "(<)"]
    by (auto simp: queued_def)
qed

theorem exactly_one_terminal_event_witness:
  "\<exists>e :: int runner engine. engine_run demo_ops (\<lambda>_. True) (<) (demo_manager0, \<lambda>_ _. 0) demo_engine_config e [demo_request] [] \<and>
     queued e = [] \<and> stream_closed ''r'' (en_events e) \<and> stream_open ''s'' (en_events e)"
proof -
  obtain e where e: "engine_run demo_ops (\<lambda>_. True) (<) (demo_manager0, \<lambda>_ _. 0) demo_engine_config e [demo_request] []"
    "en_active e = []" "en_waiting e = [fresh_state demo_request]" using demo_run by (auto simp: queued_def)
  have "find_live ''r'' (en_waiting e) = Some 0" using e(3) by (simp add: fresh_state_def demo_request_def)
  then obtain e' where e': "cancel demo_ops ''r'' e = (Inr (), e')" "queued e' = []"
    using e(2,3) by (simp add: cancel_def terminal_def fresh_state_def bindS_def returnS_def modifyS_def remove_finished_def queued_def)
  have run: "engine_run demo_ops (\<lambda>_. True) (<) (demo_manager0, \<lambda>_ _. 0) demo_engine_config e' [demo_request] []"
    using run_cancel[OF e(1) e'(1)] .
  have "rq_id demo_request = ''r''" by (simp add: demo_request_def)
  then have "\<forall>i. if i = ''r'' then stream_closed i (en_events e') else stream_open i (en_events e')"
    using exactly_one_terminal_event[OF run] e'(2) by (simp split: if_splits) blast
  from this[rule_format, of "''r''"] this[rule_format, of "''s''"] show ?thesis using run e'(2) by auto
qed

end
