(* ===== verification/KV_Machine.thy ===== *)
theory KV_Machine
  imports Model_Runner
begin

text \<open>
  The CPU runner as a state machine: every public operation of \<open>ModelRunner\<close> is a step, failing calls
  included, and the properties hold in every state reachable from a fresh manager. This is where the
  invariants of the pool, the prefix cache, the page tables and the payload come together: whatever
  was shared, copied, cached, evicted or rolled back before, an append answers with the logits of the
  whole token history.
\<close>

section \<open>Steps and reachable states\<close>

datatype runner_call =
    Reserve_Request request_id nat | Release_Reservation request_id | Create request_id
  | Fork_Sequence request_id request_id | Reuse_Prefix request_id "int list" | Cache_Prefix request_id
  | Clear_Prefix_Cache | Append request_id "int list" | Release request_id | Clear_All

fun run_call :: "('w, 'v) runner_ops \<Rightarrow> runner_call \<Rightarrow> 'w \<Rightarrow> 'w" where
  "run_call ops (Reserve_Request i n) w = snd (op_reserve_request ops i n w)"
| "run_call ops (Release_Reservation i) w = op_release_reservation ops i w"
| "run_call ops (Create i) w = snd (op_create ops i w)"
| "run_call ops (Fork_Sequence i j) w = snd (op_fork_sequence ops i j w)"
| "run_call ops (Reuse_Prefix i p) w = snd (op_reuse_prefix ops i p w)"
| "run_call ops (Cache_Prefix i) w = snd (op_cache_prefix ops i w)"
| "run_call ops Clear_Prefix_Cache w = snd (op_clear_prefix_cache ops w)"
| "run_call ops (Append i xs) w = snd (op_append ops i xs w)"
| "run_call ops (Release i) w = snd (op_release ops i w)"
| "run_call ops Clear_All w = snd (op_clear ops w)"

text \<open>\<open>reachable ops w0 w\<close>: some sequence of calls leads from \<open>w0\<close> to \<open>w\<close>.\<close>

inductive reachable :: "('w, 'v) runner_ops \<Rightarrow> 'w \<Rightarrow> 'w \<Rightarrow> bool" for ops w0 where
  reachable_start [intro]: "reachable ops w0 w0"
| reachable_step [intro]: "reachable ops w0 w \<Longrightarrow> w' = run_call ops c w \<Longrightarrow> reachable ops w0 w'"

lemma reachable_calls: "reachable ops w0 w \<longleftrightarrow> (\<exists>cs. w = foldl (\<lambda>w c. run_call ops c w) w0 cs)"
proof
  assume "reachable ops w0 w"
  then show "\<exists>cs. w = foldl (\<lambda>w c. run_call ops c w) w0 cs"
  proof induction
    case reachable_start
    show ?case by (rule exI[of _ "[]"]) simp
  next
    case (reachable_step w w' c)
    then obtain cs where "w = foldl (\<lambda>w c. run_call ops c w) w0 cs" by blast
    then show ?case using reachable_step by (intro exI[of _ "cs @ [c]"]) simp
  qed
next
  have "reachable ops w0 (foldl (\<lambda>w c. run_call ops c w) w0 cs)" for cs
    by (induction cs rule: rev_induct) auto
  then show "\<exists>cs. w = foldl (\<lambda>w c. run_call ops c w) w0 cs \<Longrightarrow> reachable ops w0 w" by blast
qed

section \<open>Every call keeps the invariants\<close>

lemma fork_ok:
  "cpu_ok f w \<Longrightarrow> on_kv (fork_sequence i j) w = (u, w') \<Longrightarrow> cpu_ok f w'"
proof -
  assume ok: "cpu_ok f w" and r: "on_kv (fork_sequence i j) w = (u, w')"
  obtain m \<sigma> m' where w: "w = (m, \<sigma>)" "w' = (m', \<sigma>)" "fork_sequence i j m = (u, m')"
    using r by (cases w) (auto simp: on_kv_iff)
  have inv: "kv_inv None m" "payload_ok f m \<sigma>" using ok w by (auto simp: cpu_ok_def)
  show "cpu_ok f w'" using fork_sequence_inv(1)[OF inv(1) w(3)] fork_payload[OF inv w(3)] w
    by (simp add: cpu_ok_def)
qed

lemma clear_prefix_cache_payload:
  assumes inv: "kv_inv None m" and pay: "payload_ok f m \<sigma>" and r: "clear_prefix_cache m = (u, m')"
  shows "payload_ok f m' \<sigma>"
proof -
  note C = clear_prefix_cache_inv[OF inv r]
  have "u = Inr ()" using C(5) by simp
  then have "pc_block (km_prefix m') = Map.empty" using C(7) by simp
  then show ?thesis using pay C(2,3) by (simp add: payload_ok_def same_params_def)
qed

lemma clear_cache_ok:
  "cpu_ok f w \<Longrightarrow> on_kv clear_prefix_cache w = (u, w') \<Longrightarrow> cpu_ok f w'"
proof -
  assume ok: "cpu_ok f w" and r: "on_kv clear_prefix_cache w = (u, w')"
  obtain m \<sigma> m' where w: "w = (m, \<sigma>)" "w' = (m', \<sigma>)" "clear_prefix_cache m = (u, m')"
    using r by (cases w) (auto simp: on_kv_iff)
  have inv: "kv_inv None m" "payload_ok f m \<sigma>" using ok w by (auto simp: cpu_ok_def)
  show "cpu_ok f w'" using clear_prefix_cache_inv(1)[OF inv(1) w(3)] clear_prefix_cache_payload[OF inv w(3)] w
    by (simp add: cpu_ok_def)
qed

lemma run_call_ok:
  assumes "cpu_ok f w"
  shows "cpu_ok f (run_call (cpu_ops f logits_of isfinite v k) c w)" (is "cpu_ok f (run_call ?o c w)")
proof (cases c)
  case (Reserve_Request i n)
  then show ?thesis using cpu.reserve[OF assms surjective_pairing, where logits_of = logits_of] by simp
next
  case (Release_Reservation i)
  then show ?thesis using cpu.release_reservation[OF assms, where logits_of = logits_of] by simp
next
  case (Create i)
  then show ?thesis using cpu.create[OF assms surjective_pairing, where logits_of = logits_of] by simp
next
  case (Fork_Sequence i j)
  then show ?thesis using fork_ok[OF assms surjective_pairing] by (simp add: cpu_ops_def)
next
  case (Reuse_Prefix i p)
  then show ?thesis using cpu.reuse[OF assms surjective_pairing, where logits_of = logits_of] by simp
next
  case (Cache_Prefix i)
  then show ?thesis using cpu.cache[OF assms surjective_pairing, where logits_of = logits_of] by simp
next
  case Clear_Prefix_Cache
  then show ?thesis using clear_cache_ok[OF assms surjective_pairing] by (simp add: cpu_ops_def)
next
  case (Append i xs)
  then show ?thesis using cpu.append[OF assms surjective_pairing, where logits_of = logits_of] by simp
next
  case (Release i)
  then show ?thesis using cpu.release[OF assms surjective_pairing, where logits_of = logits_of] by simp
next
  case Clear_All
  then show ?thesis using cpu.clear[OF assms surjective_pairing, where logits_of = logits_of] by simp
qed

lemma reachable_cpu_ok:
  assumes "reachable (cpu_ops f logits_of isfinite v k) w0 w" and "cpu_ok f w0"
  shows "cpu_ok f w"
  using assms by (induction rule: reachable.induct) (simp_all add: run_call_ok)

lemma fresh_cpu_ok:
  assumes mk: "mk_manager config layers width context vocabulary = Inr m0"
    and lim: "nat layers \<le> size_max div 4 div 2" "context \<le> int32_max"
  shows "cpu_ok f (m0, \<sigma>0)"
proof -
  have "km_sequences m0 = []" "pc_block (km_prefix m0) = Map.empty"
    using mk by (auto simp: mk_manager_def mk_prefix_cache_def split: sum.splits if_splits)
  then show ?thesis using mk_manager_inv[OF mk lim] by (simp add: cpu_ok_def payload_ok_def)
qed

lemma reached_ok:
  "mk_manager config layers width context vocabulary = Inr m0 \<Longrightarrow> nat layers \<le> size_max div 4 div 2 \<Longrightarrow>
   context \<le> int32_max \<Longrightarrow> reachable (cpu_ops f logits_of isfinite v k) (m0, \<sigma>0) w \<Longrightarrow> cpu_ok f w"
  by (rule reachable_cpu_ok[OF _ fresh_cpu_ok])

section \<open>The properties of reachable states\<close>

text \<open>
  The observable state of a fresh manager is described by \<open>mk_manager\<close>; the context is an
  \<open>int\<close>, and the number of layers is far below the \<open>size_t\<close> limit for the bytes of a page.
\<close>

text \<open>
  C2: prefix caching, page sharing, copy-on-write, eviction and rollback are transparent. In every
  state reachable from a fresh manager, an append that returns logits returns exactly the logits of a
  contiguous computation over the whole history of the sequence, and the history grows by the
  appended tokens; for an append that fails, every history is what it was.
\<close>

theorem append_computes_history:
  assumes "mk_manager config layers width context vocabulary = Inr m0"
    and "nat layers \<le> size_max div 4 div 2" and "context \<le> int32_max"
    and "reachable (cpu_ops f logits_of isfinite v k) (m0, \<sigma>0) w"
    and "runner_append f logits_of isfinite i xs w = (res, w')"
  shows "case res of Inl e \<Rightarrow> cpu_hist w' = cpu_hist w
     | Inr logits \<Rightarrow> \<exists>h. cpu_hist w i = Some h \<and> logits = logits_of (rows_of f (h @ xs)) \<and>
         cpu_hist w' = (cpu_hist w)(i \<mapsto> h @ xs)"
proof -
  have ok: "cpu_ok f w" by (rule reached_ok[OF assms(1-4)])
  have "op_append (cpu_ops f logits_of isfinite v k) i xs w = (res, w')"
    using assms(5) by (simp add: cpu_ops_def)
  from cpu.append[OF ok this] show ?thesis by (auto split: sum.splits)
qed

text \<open>A fresh demo manager and a concrete arithmetic: the row of a token is the sum of all rows so far plus the token.\<close>

definition demo_row :: "int row_fun" where
  "demo_row rs x = sum_list rs + x"

lemma demo_fresh:
  "mk_manager demo_config 3 4 6 10 = Inr demo_manager0" "nat 3 \<le> size_max div 4 div 2"
  "(6 :: int) \<le> int32_max"
  using demo_mk_pool by (simp_all add: mk_manager_def demo_manager0_def demo_config_def size_max_def int32_max_def)

definition demo_created :: "int runner" where
  "demo_created = run_call (cpu_ops demo_row id (\<lambda>_. True) 10 6) (Create ''a'') (demo_manager0, \<lambda>_ _. 0)"

definition demo_txn :: append_txn where
  "demo_txn = \<lparr>ap_id = ''a'', ap_tokens = [1, 2, 3], ap_original_blocks = 0, ap_copy = None, ap_copied = False\<rparr>"

definition demo_started :: "block_pool \<Rightarrow> kv_manager" where
  "demo_started p = demo_manager0\<lparr>km_pool := p, km_append_active := True,
     km_sequences := [(''a'', \<lparr>st_sequence = empty_sequence\<lparr>seq_blocks := [0, 1]\<rparr>, st_appending = True\<rparr>)]\<rparr>"

lemma demo_created_eq:
  "demo_created = (demo_manager0\<lparr>km_sequences := [(''a'', \<lparr>st_sequence = empty_sequence, st_appending = False\<rparr>)]\<rparr>, \<lambda>_ _. 0)"
  by (simp add: demo_created_def cpu_ops_def on_kv_def km_create_def require_idle_def km_contains_def demo_manager0_def)

lemma demo_prepare:
  "\<exists>p. prepare_append ''a'' [1, 2, 3] (fst demo_created) = (Inr demo_txn, demo_started p) \<and> pool_config p = demo_config"
proof -
  note defs = demo_manager0_def demo_pool_def demo_config_def empty_sequence_def
  have c: "append_checks ''a'' [1, 2, 3] (fst demo_created) = Inr (empty_sequence, False)"
    by (simp add: demo_created_eq append_checks_def idle_state_def km_sequence_def require_idle_def defs
        Let_def validate_tokens_def tokens_valid_def)
  have d: "ceil_div 3 2 = Suc (Suc 0)" by (simp add: ceil_div_def)
  let ?p = "demo_pool\<lparr>pool_live := 2, pool_peak := 2, pool_free := [2], pool_refs := [1, 1, 0]\<rparr>"
  have p: "pool_reserve empty_sequence 3 demo_pool = Inr (empty_sequence\<lparr>seq_blocks := [0, 1]\<rparr>, ?p)"
    by (simp add: pool_reserve_def defs d)
  have ev: "evict_loop (Suc (Suc 0)) t False c demo_pool = (Inr False, c, demo_pool)" for t c
    by (subst evict_loop.simps) (simp add: demo_pool_def free_blocks_def)
  have f: "km_pool (fst demo_created) = demo_pool" "km_reservations (fst demo_created) = []"
    "page_tokens demo_pool = 2" "fst demo_created\<lparr>km_prefix := km_prefix (fst demo_created), km_pool := demo_pool\<rparr> = fst demo_created"
    by (simp_all add: demo_created_eq demo_manager0_def demo_pool_def demo_config_def)
  have n: "seq_blocks empty_sequence = []" "seq_used empty_sequence = 0" by (simp_all add: empty_sequence_def)
  have e: "seq_used empty_sequence + length [1 :: int, 2, 3] = 3" by (simp add: n)
  have r: "reserve_pages ''a'' empty_sequence 3 False (fst demo_created) =
      (Inr (False, empty_sequence\<lparr>seq_blocks := [0, 1]\<rparr>),
       set_sequence ''a'' (empty_sequence\<lparr>seq_blocks := [0, 1]\<rparr>) (fst demo_created\<lparr>km_pool := ?p\<rparr>))"
    by (simp add: reserve_pages_def f n d reservation_check_def ev p Let_def)
  have "prepare_append ''a'' [1, 2, 3] (fst demo_created) = (Inr demo_txn, demo_started ?p)"
    unfolding prepare_append_def c sum.case prod.case Let_def e r
    by (simp add: demo_txn_def demo_started_def demo_created_eq set_appending_def set_sequence_def
        demo_manager0_def empty_sequence_def)
  then show ?thesis by (intro exI[of _ ?p]) (simp add: demo_pool_def)
qed

lemma demo_append:
  "fst (runner_append demo_row id (\<lambda>_. True) ''a'' [1, 2, 3] demo_created) = Inr [1, 3, 7]"
proof -
  obtain p where P: "prepare_append ''a'' [1, 2, 3] (fst demo_created) = (Inr demo_txn, demo_started p)"
    "pool_config p = demo_config" using demo_prepare by blast
  show ?thesis unfolding runner_append_def P
    by (simp add: Let_def demo_txn_def copy_shared_tail_region_def append_commit_def demo_started_def
      compute_rows_def seq_of_def tail_copied_def demo_created_eq empty_sequence_def P(2) demo_config_def
      write_row_def read_rows_def read_row_def demo_row_def upt_rec)
qed
theorem append_computes_history_witness:
  "\<exists>h. cpu_hist demo_created ''a'' = Some h \<and> [1, 3, 7] = rows_of demo_row (h @ [1, 2, 3])"
proof -
  have run: "runner_append demo_row id (\<lambda>_. True) ''a'' [1, 2, 3] demo_created =
      (Inr [1, 3, 7], snd (runner_append demo_row id (\<lambda>_. True) ''a'' [1, 2, 3] demo_created))"
    using demo_append by (metis surjective_pairing)
  have reach: "reachable (cpu_ops demo_row id (\<lambda>_. True) 10 6) (demo_manager0, \<lambda>_ _. 0) demo_created"
    unfolding demo_created_def by blast
  show ?thesis using append_computes_history[OF demo_fresh reach run] by auto
qed

text \<open>
  C16: no page is leaked. In every reachable state \<open>clear\<close> succeeds and leaves a pool in which every
  page is free exactly once and no page has a reference left, with no sequence, no reservation and
  no cached prefix.
\<close>

theorem clear_returns_every_page:
  assumes "mk_manager config layers width context vocabulary = Inr m0"
    and "nat layers \<le> size_max div 4 div 2" and "context \<le> int32_max"
    and "reachable (cpu_ops f logits_of isfinite v k) (m0, \<sigma>0) (m, \<sigma>)"
  shows "\<exists>m'. km_clear m = (Inr (), m') \<and> free_blocks (km_pool m') = page_count (km_pool m') \<and>
     distinct (pool_free (km_pool m')) \<and> (\<forall>r \<in> set (pool_refs (km_pool m')). r = 0) \<and>
     km_sequences m' = [] \<and> km_reservations m' = [] \<and> pc_nodes (km_prefix m') = []"
proof -
  have inv: "kv_inv None m" using reached_ok[OF assms(1-4)] by (simp add: cpu_ok_def)
  obtain u m' where c: "km_clear m = (u, m')" by fastforce
  note C = km_clear_inv[OF inv c]
  then have u: "u = Inr ()" by simp
  note E = C(5)[OF u]
  then have p: "pool_ok {#} (km_pool m')" by simp
  have "free_blocks (km_pool m') = page_count (km_pool m')"
    using pool_ok_live[OF p] pool_okD(7)[OF p] by (simp add: free_blocks_def)
  moreover have "r = 0" if r: "r \<in> set (pool_refs (km_pool m'))" for r
    using r pool_okD(1,2)[OF p] by (auto simp: in_set_conv_nth)
  ultimately show ?thesis using c u E pool_okD(4)[OF p] by auto
qed

theorem clear_returns_every_page_witness:
  "\<exists>m'. km_clear demo_manager0 = (Inr (), m') \<and> free_blocks (km_pool m') = page_count (km_pool m')"
  using clear_returns_every_page[OF demo_fresh, where f = demo_row and logits_of = id
      and isfinite = "\<lambda>_. True" and \<sigma>0 = "\<lambda>_ _. 0" and \<sigma> = "\<lambda>_ _. 0" and v = 10 and k = 6] by blast

text \<open>
  C5: the reference count of every page is exactly the number of its holders: in every reachable
  state the count of page \<open>b\<close> is its number of occurrences in the page tables of all sequences plus
  its occurrences in the prefix cache, and the free list holds exactly the pages without holder.
\<close>

theorem references_are_holders:
  assumes "mk_manager config layers width context vocabulary = Inr m0"
    and "nat layers \<le> size_max div 4 div 2" and "context \<le> int32_max"
    and "reachable (cpu_ops f logits_of isfinite v k) (m0, \<sigma>0) (m, \<sigma>)"
    and "b < page_count (km_pool m)"
  shows "pool_refs (km_pool m) ! b =
       (\<Sum>kv\<leftarrow>km_sequences m. count_list (seq_blocks (st_sequence (snd kv))) b) + count (cache_leases (km_prefix m)) b \<and>
     (b \<in> set (pool_free (km_pool m)) \<longleftrightarrow> pool_refs (km_pool m) ! b = 0)"
proof -
  have inv: "kv_inv None m" using reached_ok[OF assms(1-4)] by (simp add: cpu_ok_def)
  have p: "pool_ok (seq_leases m + cache_leases (km_prefix m)) (km_pool m)"
    using kv_invD(4)[OF inv] by (simp add: txn_leases_def)
  have "count (sum_list (map seq_lease xs)) b =
      (\<Sum>kv\<leftarrow>xs. count_list (seq_blocks (st_sequence (snd kv))) b)" for xs
    by (induction xs) (simp_all add: seq_lease_def count_mset)
  then show ?thesis
    using pool_okD(2,5)[OF p] assms(5) by (simp add: seq_leases_def not_in_iff seq_lease_def count_mset count_list_0_iff)
qed

theorem references_are_holders_witness:
  "(1 :: nat) \<in> set (pool_free (km_pool demo_manager0)) \<longleftrightarrow> pool_refs (km_pool demo_manager0) ! 1 = 0"
proof -
  have "1 < page_count (km_pool demo_manager0)" by (simp add: demo_manager0_def demo_pool_def demo_config_def)
  then show ?thesis using references_are_holders[OF demo_fresh, where f = demo_row and logits_of = id
      and isfinite = "\<lambda>_. True" and \<sigma>0 = "\<lambda>_ _. 0" and \<sigma> = "\<lambda>_ _. 0" and v = 10 and k = 6] by blast
qed

text \<open>
  C15: reservations are never overcommitted. In every reachable state the reserved pages fit into the pool and no
  request holds more pages than it has reserved; and while at least one request holds a reservation, the reserved
  pages together with the page tables of the sequences without reservation fit into the pool too. (Without any
  reservation the last bound is not claimed and not checked by the code: sequences that share the pages of a prefix
  may then have page tables that add up to more than the pool.)
\<close>

theorem never_overcommitted:
  assumes "mk_manager config layers width context vocabulary = Inr m0"
    and "nat layers \<le> size_max div 4 div 2" and "context \<le> int32_max"
    and "reachable (cpu_ops f logits_of isfinite v k) (m0, \<sigma>0) (m, \<sigma>)"
  shows "sum_list (map snd (km_reservations m)) \<le> page_count (km_pool m) \<and>
    (\<forall>i r st. map_of (km_reservations m) i = Some r \<longrightarrow> km_state m i = Some st \<longrightarrow> length (seq_blocks (st_sequence st)) \<le> r) \<and>
    (km_reservations m \<noteq> [] \<longrightarrow> committed_blocks m \<le> page_count (km_pool m))"
proof -
  have "kv_inv None m" using reached_ok[OF assms(1-4)] by (simp add: cpu_ok_def)
  then have l: "ledger_ok m" by (rule kv_invD(10))
  have "sum_list (map snd (km_reservations m)) \<le> page_count (km_pool m)"
    using l by (cases "km_reservations m = []") (auto simp: ledger_ok_def committed_blocks_def)
  then show ?thesis using l unfolding ledger_ok_def by blast
qed

definition demo_reserved :: "int runner" where
  "demo_reserved = run_call (cpu_ops demo_row id (\<lambda>_. True) 10 6) (Reserve_Request ''a'' 3) (demo_manager0, \<lambda>_ _. 0)"

theorem never_overcommitted_witness:
  "sum_list (map snd (km_reservations (fst demo_reserved))) \<le> 3 \<and> committed_blocks (fst demo_reserved) \<le> 3"
proof -
  have reach: "reachable (cpu_ops demo_row id (\<lambda>_. True) 10 6) (demo_manager0, \<lambda>_ _. 0)
      (fst demo_reserved, snd demo_reserved)"
    unfolding demo_reserved_def prod.collapse by blast
  have m: "fst demo_reserved = demo_manager0\<lparr>km_reservations := [(''a'', 2)]\<rparr>"
    by (simp add: demo_reserved_def cpu_ops_def on_kv_def demo_reserve)
  then have r: "km_reservations (fst demo_reserved) \<noteq> []"
    and n: "page_count (km_pool (fst demo_reserved)) = 3"
    by (simp_all add: demo_manager0_def demo_pool_def demo_config_def)
  show ?thesis using never_overcommitted[OF demo_fresh reach] r n by simp
qed

end
