(* ===== verification/Engine_Greedy.thy ===== *)
theory Engine_Greedy
  imports Engine_Events KV_Machine
begin

text \<open>
  What the engine generates. Under the contract of the runner, the tokens of a request are the greedy
  continuation of its prompt alone, whatever the batch, the chunking of prefills, the reuse of
  prefixes, and the failures of other requests.
\<close>

section \<open>Greedy traces\<close>

definition tokens_of :: "request_id \<Rightarrow> generation_event list \<Rightarrow> int list" where
  "tokens_of i evs = concat (map (\<lambda>ev. case ev_token ev of None \<Rightarrow> [] | Some t \<Rightarrow> [t]) (events_for i evs))"

lemma tokens_of_snoc [simp]: "tokens_of i (evs @ [ev]) =
   tokens_of i evs @ (if ev_id ev = i then case ev_token ev of None \<Rightarrow> [] | Some t \<Rightarrow> [t] else [])"
  by (simp add: tokens_of_def)

definition greedy :: "('v \<Rightarrow> 'v \<Rightarrow> bool) \<Rightarrow> (int list \<Rightarrow> 'v list) \<Rightarrow> int list \<Rightarrow> int list \<Rightarrow> bool" where
  "greedy lt infer prompt ts \<longleftrightarrow> (\<forall>k < length ts. ts ! k = int (max_element lt (infer (prompt @ take k ts))))"

lemma greedy_snoc: "greedy lt infer p (ts @ [t]) \<longleftrightarrow> greedy lt infer p ts \<and> t = int (max_element lt (infer (p @ ts)))"
  by (auto simp: greedy_def nth_append less_Suc_eq)

lemma greedy_Nil [simp]: "greedy lt infer p []"
  by (simp add: greedy_def)

text \<open>The stopping rule: no token after the EOS token, at most \<open>max_new_tokens\<close>, and the finish reason tells which.\<close>

definition trace_ok :: "('v \<Rightarrow> 'v \<Rightarrow> bool) \<Rightarrow> (int list \<Rightarrow> 'v list) \<Rightarrow> generation_event list \<Rightarrow> request \<Rightarrow> bool" where
  "trace_ok lt infer evs r \<longleftrightarrow>
     (let ts = tokens_of (rq_id r) evs; g = rq_generation r in
      greedy lt infer (rq_prompt r) ts \<and> length ts \<le> go_max_new_tokens g \<and>
      (\<forall>t. go_eos_token_id g = Some t \<longrightarrow> t \<notin> set (butlast ts)) \<and>
      (\<forall>ev \<in> set (events_for (rq_id r) evs).
         (ev_reason ev = Some Length \<longrightarrow> length ts = go_max_new_tokens g) \<and>
         (ev_reason ev = Some Eos \<longrightarrow> ts \<noteq> [] \<and> go_eos_token_id g = Some (last ts))))"

text \<open>A live request: what its state says about the history in the runner and the tokens delivered.\<close>

definition state_ok ::
    "('v \<Rightarrow> 'v \<Rightarrow> bool) \<Rightarrow> (int list \<Rightarrow> 'v list) \<Rightarrow> (request_id \<Rightarrow> int list option) \<Rightarrow> generation_event list \<Rightarrow>
       request_state \<Rightarrow> bool" where
  "state_ok lt infer H evs s \<longleftrightarrow>
     (let r = rs_request s; p = rq_prompt r; out = rs_output s in
      p \<noteq> [] \<and> stream_open (rq_id r) evs \<and> tokens_of (rq_id r) evs = out \<and>
      length out < go_max_new_tokens (rq_generation r) \<and>
      (\<forall>t. go_eos_token_id (rq_generation r) = Some t \<longrightarrow> t \<notin> set out) \<and>
      (if rs_resident s
       then (if out = [] then rs_prefilled s < length p \<and> H (rq_id r) = Some (take (rs_prefilled s) p)
             else rs_prefilled s = length p \<and> H (rq_id r) = Some (p @ butlast out))
       else out = [] \<and> rs_prefilled s = 0))"

lemma trace_ok_other: "ev_id ev \<noteq> rq_id r \<Longrightarrow> trace_ok lt infer (evs @ [ev]) r = trace_ok lt infer evs r"
  by (simp add: trace_ok_def)

lemma state_ok_other:
  "ev_id ev \<noteq> rs_id s \<Longrightarrow> state_ok lt infer H (evs @ [ev]) s = state_ok lt infer H evs s"
  by (simp add: state_ok_def stream_snoc Let_def)

lemma trace_ok_silent:
  "ev_token ev = None \<Longrightarrow> ev_reason ev \<noteq> Some Length \<Longrightarrow> ev_reason ev \<noteq> Some Eos \<Longrightarrow>
   trace_ok lt infer (evs @ [ev]) r = trace_ok lt infer evs r"
  by (auto simp: trace_ok_def Let_def)

text \<open>A sampled token extends the trace of a live request.\<close>

lemma trace_ok_sample:
  assumes t: "trace_ok lt infer evs r" and o: "stream_open (rq_id r) evs" and ts: "tokens_of (rq_id r) evs = out"
    and len: "length out < go_max_new_tokens (rq_generation r)"
    and eos: "\<forall>t. go_eos_token_id (rq_generation r) = Some t \<longrightarrow> t \<notin> set out"
    and tok: "tok = int (max_element lt (infer (rq_prompt r @ out)))"
    and ev: "ev_id ev = rq_id r" "ev_token ev = Some tok" "ev_reason ev = finish_of r (out @ [tok]) tok"
  shows "trace_ok lt infer (evs @ [ev]) r"
proof -
  have g: "greedy lt infer (rq_prompt r) (out @ [tok])" using t ts tok by (simp add: trace_ok_def greedy_snoc Let_def)
  have "ev_reason e = None" if "e \<in> set (events_for (rq_id r) evs)" for e
    using o that by (simp add: stream_open_def)
  then show ?thesis using g len eos ts ev by (auto simp: trace_ok_def Let_def finish_of_def split: if_splits)
qed

section \<open>A work item touches its own state only\<close>

lemma distinct_id: "distinct (map f (xs @ s # ys)) \<Longrightarrow> x \<in> set xs \<union> set ys \<Longrightarrow> f x \<noteq> f s"
  by auto (metis imageI)+

lemma on_runner_split: "on_runner p e = (u, e') \<Longrightarrow> p (en_runner e) = (u, en_runner e')"
  by (auto simp: on_runner_def split: prod.splits)

definition frame :: "nat \<Rightarrow> 'w engine \<Rightarrow> 'w engine \<Rightarrow> bool" where
  "frame i e0 e \<longleftrightarrow> length (en_active e) = length (en_active e0) \<and> (\<forall>k. k \<noteq> i \<longrightarrow> en_active e ! k = en_active e0 ! k)"

lemma frame_set_active: "frame i e0 e \<Longrightarrow> frame i e0 (set_active i s e)"
  by (simp add: frame_def set_active_def)

lemma frame_stats [simp]: "frame i e0 (e\<lparr>en_stats := x\<rparr>) = frame i e0 e" "frame i e0 (e\<lparr>en_events := y\<rparr>) = frame i e0 e"
  by (simp_all add: frame_def)

lemma frame_on_runner: "keeps (frame i e0) (on_runner p)"
  by (auto simp: keeps_def frame_def dest: on_runner_fields(1))

lemma frame_terminal_at: "keeps (frame i e0) (terminal_at ops i reason tok message)"
  unfolding keeps_def
proof (intro allI impI)
  fix e u e' assume e: "frame i e0 e" and t: "terminal_at ops i reason tok message e = (u, e')"
  obtain u1 e1 where t1: "terminal ops (en_active e ! i) reason tok message Release_Sequence e = (u1, e1)" by fastforce
  have e1: "frame i e0 e1" using e terminal_cases(1)[OF t1] by (simp add: frame_def same_shell_def)
  show "frame i e0 e'"
    using t t1 e1 frame_set_active[OF e1] by (cases u1) (auto simp: terminal_at_def bindS_def)
qed

lemma frame_restore: "keeps (frame i e0) (restore_prefix ops i r)"
  unfolding restore_prefix_def set_resident_def
  by (intro keeps_bindS frame_on_runner keeps_modifyS)
    (auto simp: keeps_def accept_reuse_def Let_def frame_set_active)

lemma frame_emit: "keeps (frame i e0) (emit_token ops i tok)"
  unfolding keeps_def
proof (intro allI impI)
  fix e r e' assume e: "frame i e0 e" and t: "emit_token ops i tok e = (r, e')"
  show "frame i e0 e'" using t frame_set_active[OF e] keepsD[OF frame_terminal_at[of i e0] frame_set_active[OF e]]
    by (auto simp: emit_token_def Let_def split: option.splits)
qed

lemma frame_process: "keeps (frame i e0) (process_input ops isfinite lt i phase r input)"
proof -
  have k: "keeps (frame i e0) (bindS (checkS c) (\<lambda>_. bindS (on_runner q) (\<lambda>_. emit_token ops i tok)))" for c q tok
    by (intro keeps_bindS keeps_checkS frame_on_runner frame_emit)
  have "keeps (frame i e0) (sample_output ops isfinite lt i r logits)" for logits
    unfolding keeps_def
  proof (intro allI impI)
    fix e u e' assume "frame i e0 e" "sample_output ops isfinite lt i r logits e = (u, e')"
    then show "frame i e0 e'" using keepsD[OF k] by (auto simp: sample_output_def split: if_splits)
  qed
  then show ?thesis unfolding process_input_def
    by (intro keeps_bindS frame_on_runner keeps_modifyS) (auto simp: count_input_def frame_set_active)
qed

lemma frame_isolate: "frame i e0 e \<Longrightarrow> isolate_capacity ops i (u, e) = (u', e') \<Longrightarrow> frame i e0 e'"
  using keepsD[OF frame_terminal_at] by (fastforce simp: isolate_capacity_def split: sum.splits exn.splits)

lemma frame_work_item:
  assumes t: "work_item ops isfinite lt i phase p e = ((u, e'), p')"
  shows "frame i e e'"
proof -
  obtain u1 e1 where c: "(if rs_resident (en_active e ! i) then (Inr (), e)
      else restore_prefix ops i (rs_request (en_active e ! i)) e) = (u1, e1)" by fastforce
  have "frame i e e" by (simp add: frame_def)
  then have e1: "frame i e e1" using c keepsD[OF frame_restore] by (auto split: if_splits)
  note t = t[unfolded work_item_def c prod.case Let_def]
  show ?thesis
  proof (cases u1)
    case (Inl x)
    then show ?thesis using t frame_isolate[OF e1] by auto
  next
    case (Inr y)
    let ?s = "en_active e1 ! i"
    show ?thesis
    proof (cases "take_input phase (length (rq_prompt (rs_request ?s)) - rs_prefilled ?s) p")
      case (Inl x)
      then show ?thesis using t Inr frame_isolate[OF e1] by auto
    next
      case k: (Inr np)
      obtain n p1 where np: "np = (n, p1)" by (cases np)
      obtain u2 e2 where pr: "process_input ops isfinite lt i phase (rs_request ?s) (work_input ?s phase n) e1 = (u2, e2)"
        by fastforce
      have "isolate_capacity ops i (u2, e2) = (u, e')" using t Inr k np pr by simp
      then show ?thesis by (rule frame_isolate[OF keepsD[OF frame_process e1 pr]])
    qed
  qed
qed

lemma work_item_plan: "work_item ops isfinite lt i phase p e = ((u, e'), p') \<Longrightarrow> sp_chunk p' = sp_chunk p"
  using take_input_Inr(3) by (auto simp: work_item_def Let_def split: sum.splits prod.splits if_splits)

section \<open>The invariant of the engine\<close>

context model_runner
begin

text \<open>All requests are as they should be, except possibly the states of the identities \<open>X\<close>.\<close>

definition good ::
    "('v \<Rightarrow> 'v \<Rightarrow> bool) \<Rightarrow> request_id set \<Rightarrow> request list \<Rightarrow> generation_event list \<Rightarrow> 'w engine \<Rightarrow> bool" where
  "good lt X rs log e \<longleftrightarrow> ok (en_runner e) \<and> 1 \<le> sc_prefill_chunk (en_scheduler e) \<and> distinct (map rq_id rs) \<and>
     (\<forall>r \<in> set rs. trace_ok lt infer (log @ en_events e) r) \<and>
     (\<forall>s \<in> set (queued e). rs_request s \<in> set rs) \<and>
     (\<forall>s \<in> set (queued e). \<not> rs_finished s \<and> rs_id s \<notin> X \<longrightarrow> state_ok lt infer (hist (en_runner e)) (log @ en_events e) s)"

lemma set_active_scheduler [simp]: "en_scheduler (set_active i s e) = en_scheduler e"
  by (simp add: set_active_def)

lemma good_mono: "good lt X rs log e \<Longrightarrow> X \<subseteq> Y \<Longrightarrow> good lt Y rs log e"
  by (auto simp: good_def)

lemma good_stats [simp]: "good lt X rs log (e\<lparr>en_stats := x\<rparr>) = good lt X rs log e"
  by (simp add: good_def queued_def)

lemma state_ok_hist: "H' (rs_id s) = H (rs_id s) \<Longrightarrow> state_ok lt infer H' evs s = state_ok lt infer H evs s"
  by (simp add: state_ok_def Let_def)

lemma good_runner:
  assumes g: "good lt X rs log e" and c: "on_runner p e = (u, e')" and "ok (en_runner e')"
    and frame: "\<And>j. j \<notin> X \<Longrightarrow> hist (en_runner e') j = hist (en_runner e) j"
  shows "good lt X rs log e'"
proof -
  have "queued e' = queued e" "en_events e' = en_events e" "en_scheduler e' = en_scheduler e"
    using on_runner_fields[OF c] by simp_all
  moreover have "state_ok lt infer (hist (en_runner e')) evs s = state_ok lt infer (hist (en_runner e)) evs s"
    if "rs_id s \<notin> X" for s evs using frame that by (intro state_ok_hist) simp
  ultimately show ?thesis using g assms(3) by (simp add: good_def)
qed

lemma good_set_active:
  assumes g: "good lt X rs log e" and i: "i < length (en_active e)" and s: "rs_request s = rs_request (en_active e ! i)"
    "rs_id s \<in> X"
  shows "good lt X rs log (set_active i s e)"
proof -
  have q: "set (queued (set_active i s e)) \<subseteq> insert s (set (queued e))"
    by (auto simp: queued_def set_active_def dest: set_update_subset_insert[THEN subsetD])
  have "en_active e ! i \<in> set (queued e)" using i by (simp add: queued_def)
  then have "rs_request s \<in> set rs" using g s by (auto simp: good_def)
  then show ?thesis using g q s(2) by (auto simp: good_def)
qed

text \<open>An item whose state is in order again is no longer exempt.\<close>

lemma good_close:
  assumes g: "good lt {d} rs log e" and dist: "distinct (map rs_id (queued e))" and i: "i < length (en_active e)"
    and d: "rs_id (en_active e ! i) = d"
    and s: "\<not> rs_finished (en_active e ! i) \<Longrightarrow> state_ok lt infer (hist (en_runner e)) (log @ en_events e) (en_active e ! i)"
  shows "good lt {} rs log e"
proof -
  have "s' = en_active e ! i" if "s' \<in> set (queued e)" "rs_id s' = d" for s'
  proof -
    have "en_active e ! i \<in> set (queued e)" using i by (simp add: queued_def)
    then show ?thesis using dist that d by (auto simp: distinct_map inj_on_def)
  qed
  then show ?thesis using g s by (auto simp: good_def)
qed

lemma good_event:
  assumes g: "good lt X rs log e" and d: "ev_id ev \<in> X"
    and t: "\<And>r. r \<in> set rs \<Longrightarrow> rq_id r = ev_id ev \<Longrightarrow> trace_ok lt infer ((log @ en_events e) @ [ev]) r"
  shows "good lt X rs log (e\<lparr>en_events := en_events e @ [ev]\<rparr>)"
proof -
  have "trace_ok lt infer ((log @ en_events e) @ [ev]) r" if "r \<in> set rs" for r
    using t[OF that] trace_ok_other[of ev r lt infer "log @ en_events e"] g that
    unfolding good_def by (cases "rq_id r = ev_id ev") (simp_all del: append_assoc)
  moreover have "state_ok lt infer H ((log @ en_events e) @ [ev]) s = state_ok lt infer H (log @ en_events e) s"
    if "rs_id s \<notin> X" for s H
    using that d by (intro state_ok_other) auto
  ultimately show ?thesis using g by (simp add: good_def queued_def)
qed

text \<open>Ending a request: no token of its own, unless the trace with the token is in order.\<close>

lemma good_terminal:
  assumes g: "good lt X rs log e" and d: "rs_id s \<in> X"
    and t: "terminal ops s reason tok message cleanup e = (u, e')"
    and tr: "\<not> rs_finished s \<Longrightarrow> \<forall>r \<in> set rs. rq_id r = rs_id s \<longrightarrow> trace_ok lt infer ((log @ en_events e) @
        [\<lparr>ev_id = rs_id s, ev_token = tok, ev_reason = Some reason, ev_message = message\<rparr>]) r"
  shows "good lt X rs log e'"
proof (cases "rs_finished s")
  case True
  then show ?thesis using t g by (simp add: terminal_def)
next
  case False
  let ?ev = "\<lparr>ev_id = rs_id s, ev_token = tok, ev_reason = Some reason, ev_message = message\<rparr>"
  let ?p = "if rs_resident s \<and> cleanup = Release_Sequence then on_runner (op_release ops (rs_id s)) else returnS ()"
  obtain u1 e1 where p: "?p e = (u1, e1)" by fastforce
  have g1: "good lt X rs log e1 \<and> en_events e1 = en_events e"
  proof (cases "rs_resident s \<and> cleanup = Release_Sequence")
    case True
    then have c: "on_runner (op_release ops (rs_id s)) e = (u1, e1)" using p by simp
    then have r: "op_release ops (rs_id s) (en_runner e) = (u1, en_runner e1)"
      by (auto simp: on_runner_def split: prod.splits)
    have "ok (en_runner e)" using g by (simp add: good_def)
    note R = release[OF this r]
    have "hist (en_runner e1) j = hist (en_runner e) j" if "j \<notin> X" for j
      using R that d by (cases u1) auto
    then show ?thesis using good_runner[OF g c] R on_runner_fields[OF c] by simp
  next
    case False
    then show ?thesis using p g by auto
  qed
  show ?thesis
  proof (cases u1)
    case (Inl x)
    then have "e' = e1" using t p False by (auto simp: terminal_def bindS_def split: if_splits)
    then show ?thesis using g1 by simp
  next
    case (Inr x)
    let ?e2 = "e1\<lparr>en_runner := op_release_reservation ops (rs_id s) (en_runner e1)\<rparr>"
    have "ok (en_runner e1)" using g1 by (simp add: good_def)
    note R = release_reservation[OF this, of "rs_id s"]
    have g2: "good lt X rs log ?e2" using conjunct1[OF g1] R by (simp add: good_def queued_def)
    have "e' = ?e2\<lparr>en_events := en_events ?e2 @ [?ev]\<rparr>"
      using t p Inr False by (cases "rs_resident s \<and> cleanup = Release_Sequence")
        (simp_all only: terminal_def bindS_def if_True if_False prod.case sum.case eff_simps, auto)
    moreover have "good lt X rs log (?e2\<lparr>en_events := en_events ?e2 @ [?ev]\<rparr>)"
      by (rule good_event[OF g2]) (use d tr[OF False] g1 in \<open>simp_all del: append_assoc\<close>)
    ultimately show ?thesis by simp
  qed
qed

lemma good_terminal_silent:
  assumes g: "good lt X rs log e" and d: "rs_id s \<in> X" and t: "terminal ops s reason None message cleanup e = (u, e')"
    and r: "reason = Finish_Error \<or> reason = Cancelled"
  shows "good lt X rs log e'"
proof (rule good_terminal[OF g d t], intro ballI impI)
  fix q assume "q \<in> set rs"
  then have "trace_ok lt infer (log @ en_events e) q" using g by (simp add: good_def)
  then show "trace_ok lt infer ((log @ en_events e) @
      [\<lparr>ev_id = rs_id s, ev_token = None, ev_reason = Some reason, ev_message = message\<rparr>]) q"
    by (subst trace_ok_silent) (use r in auto)
qed

lemma good_terminal_at:
  assumes g: "good lt X rs log e" and i: "i < length (en_active e)" and d: "rs_id (en_active e ! i) \<in> X"
    and t: "terminal_at ops i reason tok message e = (u, e')"
    and tr: "\<not> rs_finished (en_active e ! i) \<Longrightarrow> \<forall>r \<in> set rs. rq_id r = rs_id (en_active e ! i) \<longrightarrow>
        trace_ok lt infer ((log @ en_events e) @
          [\<lparr>ev_id = rs_id (en_active e ! i), ev_token = tok, ev_reason = Some reason, ev_message = message\<rparr>]) r"
  shows "good lt X rs log e' \<and> (u = Inr () \<longrightarrow> rs_finished (en_active e' ! i)) \<and>
    rs_id (en_active e' ! i) = rs_id (en_active e ! i) \<and> length (en_active e') = length (en_active e)"
proof -
  let ?s = "en_active e ! i"
  obtain u1 e1 where t1: "terminal ops ?s reason tok message Release_Sequence e = (u1, e1)" by fastforce
  note S = terminal_cases[OF t1, unfolded same_shell_def]
  have g1: "good lt X rs log e1" by (rule good_terminal[OF g d t1 tr])
  show ?thesis
  proof (cases u1)
    case (Inl x)
    then show ?thesis using t t1 g1 S(1) by (auto simp: terminal_at_def bindS_def)
  next
    case (Inr s')
    then have e': "e' = set_active i s' e1" using t t1 by (simp add: terminal_at_def bindS_def)
    have s': "rs_request s' = rs_request ?s" "rs_finished s'" using S(2) Inr by (auto split: if_splits)
    have "good lt X rs log e'" unfolding e' by (rule good_set_active[OF g1]) (use S(1) i d s' in simp_all)
    then show ?thesis using S(1) i s' by (simp add: e')
  qed
qed

text \<open>The effect of \<open>terminal\<close> on the runner.\<close>

lemma terminal_effect:
  assumes w: "ok (en_runner e)" and t: "terminal ops s reason tok message cleanup e = (u, e')"
  shows "ok (en_runner e') \<and> (\<forall>j. j \<noteq> rs_id s \<longrightarrow> hist (en_runner e') j = hist (en_runner e) j) \<and>
    (\<forall>x. u = Inl x \<longrightarrow> hist (en_runner e') = hist (en_runner e)) \<and> en_scheduler e' = en_scheduler e"
proof (cases "rs_finished s")
  case True
  then show ?thesis using t w by (simp add: terminal_def)
next
  case False
  let ?p = "if rs_resident s \<and> cleanup = Release_Sequence then on_runner (op_release ops (rs_id s)) else returnS ()"
  obtain u1 e1 where p: "?p e = (u1, e1)" by fastforce
  have e1: "ok (en_runner e1) \<and> (\<forall>j. j \<noteq> rs_id s \<longrightarrow> hist (en_runner e1) j = hist (en_runner e) j) \<and>
    (\<forall>x. u1 = Inl x \<longrightarrow> hist (en_runner e1) = hist (en_runner e))"
  proof (cases "rs_resident s \<and> cleanup = Release_Sequence")
    case True
    then have "op_release ops (rs_id s) (en_runner e) = (u1, en_runner e1)" using p on_runner_split by simp
    from release[OF w this] show ?thesis by (cases u1) auto
  next
    case False
    then show ?thesis using p w by auto
  qed
  note R = release_reservation[of "en_runner e1" "rs_id s"]
  have t': "(case (u1, e1) of (Inl x, e1) \<Rightarrow> (Inl x, e1) | (Inr _, e1) \<Rightarrow>
      bindS (modifyS (\<lambda>e. e\<lparr>en_runner := op_release_reservation ops (rs_id s) (en_runner e),
             en_events := en_events e @ [\<lparr>ev_id = rs_id s, ev_token = tok, ev_reason = Some reason, ev_message = message\<rparr>]\<rparr>))
        (\<lambda>_. returnS (s\<lparr>rs_resident := False, rs_finished := True\<rparr>)) e1) = (u, e')"
    using t unfolding terminal_def if_not_P[OF False] bindS_def[of ?p] p .
  show ?thesis using t' e1 R terminal_cases(1)[OF t] by (cases u1) (auto simp: same_shell_def)
qed

lemma good_terminal_error:
  assumes g: "good lt X rs log e" and t: "terminal ops s reason tok message cleanup e = (Inl x, e')"
  shows "good lt X rs log e'"
proof -
  have w: "ok (en_runner e)" using g by (simp add: good_def)
  have q: "queued e' = queued e" using terminal_cases(1)[OF t] by (simp add: same_shell_def queued_def)
  show ?thesis using g terminal_effect[OF w t] terminal_cases(2)[OF t] q by (simp add: good_def)
qed

text \<open>Ending a request of the queues \<open>v\<close> by a call on \<open>e\<close> keeps all others in order.\<close>

definition agree :: "'w engine \<Rightarrow> 'w engine \<Rightarrow> bool" where
  "agree v e \<longleftrightarrow> en_runner v = en_runner e \<and> en_events v = en_events e \<and> en_scheduler v = en_scheduler e"

lemma good_replace:
  assumes g: "good lt X rs log v" and dist: "distinct (map rs_id (queued v))" and a: "agree v e" "agree e'' e'"
    and t: "terminal ops s reason None message cleanup e = (Inr s', e')" and r: "reason = Finish_Error \<or> reason = Cancelled"
    and q: "queued v = xs @ s # ys" "queued e'' = xs @ s' # ys"
  shows "good lt X rs log e''"
proof -
  have w: "ok (en_runner e)" using g a by (simp add: good_def agree_def)
  note T = terminal_effect[OF w t] and C = terminal_cases(2)[OF t]
  have s': "rs_request s' = rs_request s" "rs_finished s'" using C by (auto split: if_splits)
  let ?ev = "\<lparr>ev_id = rs_id s, ev_token = None, ev_reason = Some reason, ev_message = message\<rparr>"
  have ev: "en_events e' = en_events e \<or> en_events e' = en_events e @ [?ev]" using C by (auto split: if_splits)
  have tr: "trace_ok lt infer (log @ en_events e') q" if "q \<in> set rs" for q
  proof -
    have q: "trace_ok lt infer (log @ en_events e) q" using g a that by (simp add: good_def agree_def)
    moreover have "trace_ok lt infer ((log @ en_events e) @ [?ev]) q"
      by (subst trace_ok_silent) (use q r in auto)
    ultimately show ?thesis using ev by auto
  qed
  have st: "state_ok lt infer (hist (en_runner e')) (log @ en_events e') x"
    if x: "x \<in> set xs \<union> set ys" "\<not> rs_finished x" "rs_id x \<notin> X" for x
  proof -
    have id: "rs_id x \<noteq> rs_id s" by (rule distinct_id[OF dist[unfolded q(1)] x(1)])
    have "x \<in> set (queued v)" using x(1) q(1) by auto
    then have "state_ok lt infer (hist (en_runner v)) (log @ en_events v) x" using g x(2,3) by (simp add: good_def)
    then have "state_ok lt infer (hist (en_runner e)) (log @ en_events e) x" using a(1) by (simp add: agree_def)
    then have "state_ok lt infer (hist (en_runner e')) (log @ en_events e) x"
      using T id state_ok_hist[of "hist (en_runner e')" x "hist (en_runner e)"] by simp
    moreover from this have "state_ok lt infer (hist (en_runner e')) ((log @ en_events e) @ [?ev]) x"
      by (subst state_ok_other) (use id in auto)
    ultimately show ?thesis using ev by auto
  qed
  have "rs_request x \<in> set rs" if "x \<in> set (queued v)" for x using g that by (simp add: good_def)
  then show ?thesis using T tr st s' a g q by (auto simp: good_def agree_def)
qed

section \<open>One work item\<close>

text \<open>The state at index \<open>i\<close> while its request is served.\<close>

definition at_item :: "nat \<Rightarrow> request_state \<Rightarrow> 'w engine \<Rightarrow> bool" where
  "at_item i s e \<longleftrightarrow> i < length (en_active e) \<and> en_active e ! i = s"

lemma at_item_runner: "on_runner p e = (u, e') \<Longrightarrow> at_item i s e' = at_item i s e"
  by (simp add: at_item_def)

definition item_ok where
  "item_ok lt i d rs log e s \<longleftrightarrow> good lt {d} rs log e \<and> distinct (map rs_id (queued e)) \<and> at_item i s e \<and> rs_id s = d \<and>
     \<not> rs_finished s \<and> state_ok lt infer (hist (en_runner e)) (log @ en_events e) s"

lemma item_okD:
  "item_ok lt i d rs log e s \<Longrightarrow> good lt {} rs log e"
  unfolding item_ok_def at_item_def by (elim conjE, rule good_close) auto

lemma good_item:
  "good lt {} rs log e \<Longrightarrow> distinct (map rs_id (queued e)) \<Longrightarrow> i < length (en_active e) \<Longrightarrow>
   \<not> rs_finished (en_active e ! i) \<Longrightarrow> item_ok lt i (rs_id (en_active e ! i)) rs log e (en_active e ! i)"
  by (auto simp: item_ok_def at_item_def queued_def intro: good_mono) (auto simp: good_def queued_def)

lemma map_ids_set_active:
  "i < length (en_active e) \<Longrightarrow> rs_id s = rs_id (en_active e ! i) \<Longrightarrow>
   map rs_id (queued (set_active i s e)) = map rs_id (queued e)"
  by (simp add: queued_def set_active_def map_update list_update_same_conv)

text \<open>
  Restoring the prefix of a request: it is in order whether it succeeds or the runner fails, except
  when the runner breaks its contract about the reused range.
\<close>

lemma restore_item:
  assumes I: "item_ok lt i d rs log e s" and res: "\<not> rs_resident s"
    and t: "restore_prefix ops i (rs_request s) e = (u, e')"
  shows "good lt {d} rs log e' \<and> distinct (map rs_id (queued e')) \<and> (\<exists>s'. at_item i s' e' \<and> rs_id s' = d) \<and>
    (u = Inr () \<longrightarrow> (\<exists>s'. item_ok lt i d rs log e' s' \<and> rs_resident s' \<and> rs_request s' = rs_request s \<and> rs_output s' = rs_output s))"
proof -
  let ?r = "rs_request s"
  obtain u1 e1 where c1: "on_runner (op_create ops (rq_id ?r)) e = (u1, e1)" by fastforce
  have I': "good lt {d} rs log e" "distinct (map rs_id (queued e))" "at_item i s e" "rs_id s = d" "\<not> rs_finished s"
    and st: "state_ok lt infer (hist (en_runner e)) (log @ en_events e) s" using I by (auto simp: item_ok_def)
  have s: "rs_output s = []" "rs_prefilled s = 0" "rq_prompt ?r \<noteq> []" using st res by (auto simp: state_ok_def Let_def)
  have okw: "ok (en_runner e)" using I' by (simp add: good_def)
  note C = create[OF okw on_runner_split[OF c1]]
  have g1: "good lt {d} rs log e1" by (rule good_runner[OF I'(1) c1]) (use C I'(4) in \<open>auto split: sum.splits\<close>)
  have a1: "at_item i s e1" "queued e1 = queued e" "en_events e1 = en_events e"
    using I'(3) at_item_runner[OF c1] on_runner_fields[OF c1] by auto
  show ?thesis
  proof (cases u1)
    case (Inl x)
    then have "u = Inl x" "e' = e1" using t c1 by (simp_all add: restore_prefix_def bindS_def)
    then show ?thesis using g1 a1 I' by auto
  next
    case (Inr y)
    let ?s2 = "s\<lparr>rs_resident := True\<rparr>" and ?e2 = "set_resident i e1"
    have e2: "?e2 = set_active i ?s2 e1" using a1 by (simp add: set_resident_def at_item_def)
    have i: "i < length (en_active e1)" "en_active e1 ! i = s" using a1 by (auto simp: at_item_def)
    have g2: "good lt {d} rs log ?e2" unfolding e2 by (rule good_set_active[OF g1 i(1)]) (use i I' in simp_all)
    have a2: "at_item i ?s2 ?e2" "distinct (map rs_id (queued ?e2))"
      using i I' a1 map_ids_set_active[OF i(1), of ?s2] by (simp_all add: e2 at_item_def)
    obtain u3 e3 where c3: "on_runner (op_reuse_prefix ops (rq_id ?r) (rq_prompt ?r)) ?e2 = (u3, e3)" by fastforce
    have ok2: "ok (en_runner ?e2)" using g2 by (simp add: good_def)
    note R = reuse[OF ok2 on_runner_split[OF c3]]
    have g3: "good lt {d} rs log e3" by (rule good_runner[OF g2 c3]) (use R I'(4) in \<open>auto split: sum.splits\<close>)
    have a3: "at_item i ?s2 e3" "distinct (map rs_id (queued e3))" "en_events e3 = en_events e"
      using a2 at_item_runner[OF c3] on_runner_fields[OF c3] a1(3) by (auto simp: e2)
    have t3: "(u, e') = (case u3 of Inl x \<Rightarrow> (Inl x, e3) | Inr n \<Rightarrow> accept_reuse ops i ?r n e3)"
      using t c1 Inr c3 by (simp add: restore_prefix_def bindS_def split: sum.splits)
    show ?thesis
    proof (cases u3)
      case (Inl x)
      then show ?thesis using t3 g3 a3 I' by auto
    next
      case u3: (Inr n)
      show ?thesis
      proof (cases "n \<ge> length (rq_prompt ?r) \<or> n \<noteq> 0 \<and> op_block_tokens ops (en_runner e3) = 0")
        case True
        then have "\<exists>x. u = Inl x" "e' = e3" using t3 u3 by (auto simp: accept_reuse_def Let_def)
        then show ?thesis using g3 a3 I' by auto
      next
        case False
        let ?s4 = "?s2\<lparr>rs_block_tokens := op_block_tokens ops (en_runner e3), rs_prefilled := n\<rparr>"
        have e': "u = Inr ()" "e' = set_active i ?s4 (e3\<lparr>en_stats := (en_stats e3)\<lparr>ss_prefix_reused := ss_prefix_reused (en_stats e3) + n\<rparr>\<rparr>)"
          using t3 u3 False a3(1) unfolding accept_reuse_def Let_def by (auto simp: at_item_def)
        have i3: "i < length (en_active e3)" "en_active e3 ! i = ?s2" using a3 by (auto simp: at_item_def)
        have g4: "good lt {d} rs log e'" unfolding e' by (rule good_set_active) (use g3 i3 I' in simp_all)
        have H: "hist (en_runner e') d = Some (take n (rq_prompt ?r))" using R u3 I'(4) by (simp add: e')
        have "state_ok lt infer (hist (en_runner e')) (log @ en_events e') ?s4"
          using st s H False a3(3) I'(4) by (simp add: state_ok_def Let_def e'(2))
        moreover have "distinct (map rs_id (queued e'))"
          using map_ids_set_active[of i "e3\<lparr>en_stats := (en_stats e3)\<lparr>ss_prefix_reused := ss_prefix_reused (en_stats e3) + n\<rparr>\<rparr>" ?s4] i3 a3(2)
          by (simp add: e'(2) queued_def)
        moreover have "at_item i ?s4 e'" using i3 by (simp add: e'(2) at_item_def)
        ultimately have "item_ok lt i d rs log e' ?s4" using g4 I' by (simp add: item_ok_def)
        then show ?thesis using e'(1) g4 by (intro conjI exI[of _ ?s4] impI) (auto simp: item_ok_def)
      qed
    qed
  qed
qed

text \<open>Reporting the sampled token.\<close>

lemma the_request:
  assumes "good lt X rs log e" and "at_item i s e" and "r \<in> set rs" and "rq_id r = rs_id s"
  shows "r = rs_request s"
proof -
  have "rs_request s \<in> set rs" using assms(1,2) by (auto simp: good_def at_item_def queued_def)
  then show ?thesis using assms by (auto simp: good_def distinct_map inj_on_def)
qed

lemma emit_item:
  assumes g: "good lt {d} rs log e" and a: "at_item i s e" "rs_id s = d" "\<not> rs_finished s"
    and st: "rs_resident s" "rs_prefilled s = length (rq_prompt (rs_request s))" "rq_prompt (rs_request s) \<noteq> []"
      "stream_open d (log @ en_events e)" "tokens_of d (log @ en_events e) = rs_output s"
      "length (rs_output s) < go_max_new_tokens (rq_generation (rs_request s))"
      "\<forall>t. go_eos_token_id (rq_generation (rs_request s)) = Some t \<longrightarrow> t \<notin> set (rs_output s)"
      "hist (en_runner e) d = Some (rq_prompt (rs_request s) @ rs_output s)"
    and tok: "tok = int (max_element lt (infer (rq_prompt (rs_request s) @ rs_output s)))"
    and t: "emit_token ops i tok e = (u, e')" and dist: "distinct (map rs_id (queued e'))"
  shows "good lt {d} rs log e' \<and> i < length (en_active e') \<and> rs_id (en_active e' ! i) = d \<and> (u = Inr () \<longrightarrow> good lt {} rs log e')"
proof -
  let ?r = "rs_request s" and ?out = "rs_output s @ [tok]"
  let ?s1 = "s\<lparr>rs_output := ?out\<rparr>" and ?e1 = "set_active i (s\<lparr>rs_output := ?out\<rparr>) e"
  have i: "i < length (en_active e)" "en_active e ! i = s" using a by (auto simp: at_item_def)
  have g1: "good lt {d} rs log ?e1" by (rule good_set_active[OF g i(1)]) (use i a in simp_all)
  have a1: "at_item i ?s1 ?e1" using i by (simp add: at_item_def)
  have tr: "trace_ok lt infer ((log @ en_events e) @ [ev]) q"
    if q: "q \<in> set rs" "rq_id q = d"
      and ev: "ev_id ev = d" "ev_token ev = Some tok" "ev_reason ev = finish_of ?r ?out tok" for q ev
  proof -
    have q': "q = ?r" by (rule the_request[OF g a(1)]) (use q a in simp_all)
    show ?thesis
      by (rule trace_ok_sample) (use q' q g st tok ev a in \<open>auto simp: good_def\<close>)
  qed
  show ?thesis
  proof (cases "finish_of ?r ?out tok")
    case (Some reason)
    then have t': "terminal_at ops i reason (Some tok) [] ?e1 = (u, e')"
      using t i(2) by (simp add: emit_token_def Let_def)
    have "good lt {d} rs log e' \<and> (u = Inr () \<longrightarrow> rs_finished (en_active e' ! i)) \<and>
      rs_id (en_active e' ! i) = rs_id (en_active ?e1 ! i) \<and> length (en_active e') = length (en_active ?e1)"
      by (rule good_terminal_at[OF g1 _ _ t']) (use i a tr Some in \<open>simp_all del: append_assoc\<close>)
    then show ?thesis using i a good_close[OF _ dist, of lt d rs log i] by auto
  next
    case None
    let ?ev = "\<lparr>ev_id = d, ev_token = Some tok, ev_reason = None, ev_message = []\<rparr>"
    have e': "u = Inr ()" "e' = ?e1\<lparr>en_events := en_events ?e1 @ [?ev]\<rparr>"
      using t i(2) None a(2) by (auto simp: emit_token_def Let_def)
    have g2: "good lt {d} rs log e'" unfolding e'(2)
      by (rule good_event[OF g1]) (use tr None in \<open>simp_all del: append_assoc\<close>)
    have a2: "i < length (en_active e')" "en_active e' ! i = ?s1" using i by (simp_all add: e'(2))
    have "tokens_of d ((log @ en_events e) @ [?ev]) = ?out" "stream_open d ((log @ en_events e) @ [?ev])"
      using st(4,5) stream_snoc(3)[of ?ev d "log @ en_events e"] by (simp_all del: append_assoc)
    moreover have "length ?out \<noteq> go_max_new_tokens (rq_generation ?r)" "go_eos_token_id (rq_generation ?r) \<noteq> Some tok"
      using None by (auto simp: finish_of_def split: if_splits)
    ultimately have "state_ok lt infer (hist (en_runner e')) (log @ en_events e') ?s1"
      using st a(2) by (auto simp: state_ok_def Let_def e'(2))
    then have "good lt {} rs log e'" by (intro good_close[OF g2 dist a2(1)]) (use a2 a(2) in simp_all)
    then show ?thesis using g2 a2 a(2) by simp
  qed
qed

text \<open>Appending one chunk of the prompt, or the last sampled token.\<close>

definition input_ok :: "request_state \<Rightarrow> schedule_phase \<Rightarrow> int list \<Rightarrow> bool" where
  "input_ok s phase input \<longleftrightarrow> (case phase of
     Prefill \<Rightarrow> rs_output s = [] \<and> (\<exists>n. 0 < n \<and> n \<le> length (rq_prompt (rs_request s)) - rs_prefilled s \<and>
        input = take n (drop (rs_prefilled s) (rq_prompt (rs_request s))))
   | Decode \<Rightarrow> rs_output s \<noteq> [] \<and> input = [last (rs_output s)])"

lemma process_item:
  assumes I: "item_ok lt i d rs log e s" and res: "rs_resident s" and inp: "input_ok s phase input"
    and t: "process_input ops isfinite lt i phase (rs_request s) input e = (u, e')"
    and dist: "distinct (map rs_id (queued e'))"
  shows "good lt {d} rs log e' \<and> i < length (en_active e') \<and> rs_id (en_active e' ! i) = d \<and> (u = Inr () \<longrightarrow> good lt {} rs log e')"
proof -
  let ?r = "rs_request s" let ?p = "rq_prompt (rs_request s)"
  obtain u1 e1 where c1: "on_runner (op_append ops (rq_id ?r) input) e = (u1, e1)" by fastforce
  have I': "good lt {d} rs log e" "at_item i s e" "rs_id s = d" "\<not> rs_finished s"
    and st: "state_ok lt infer (hist (en_runner e)) (log @ en_events e) s" using I by (auto simp: item_ok_def)
  have okw: "ok (en_runner e)" using I' by (simp add: good_def)
  note A = append[OF okw on_runner_split[OF c1]]
  have g1: "good lt {d} rs log e1" by (rule good_runner[OF I'(1) c1]) (use A I'(3) in \<open>auto split: sum.splits\<close>)
  have a1: "at_item i s e1" "en_events e1 = en_events e" using I' at_item_runner[OF c1] on_runner_fields[OF c1] by auto
  have i: "i < length (en_active e1)" "en_active e1 ! i = s" using a1 by (auto simp: at_item_def)
  show ?thesis
  proof (cases u1)
    case (Inl x)
    then have "u = Inl x" "e' = e1" using t c1 by (simp_all add: process_input_def bindS_def)
    then show ?thesis using g1 i I' by simp
  next
    case (Inr logits)
    let ?h = "?p @ rs_output s" and ?e2 = "count_input i phase (length input) e1"
    define s2 where "s2 = (if phase = Prefill then s\<lparr>rs_prefilled := rs_prefilled s + length input\<rparr> else s)"
    have g2: "good lt {d} rs log ?e2"
    proof (cases phase)
      case Prefill
      then show ?thesis unfolding count_input_def
        by (simp, intro good_set_active) (use g1 i I' in simp_all)
    qed (use g1 in \<open>simp add: count_input_def\<close>)
    have a2: "at_item i s2 ?e2" "en_events ?e2 = en_events e" "en_runner ?e2 = en_runner e1"
      using i a1 by (simp_all add: count_input_def at_item_def s2_def)
    have t2: "sample_output ops isfinite lt i ?r logits ?e2 = (u, e')"
      using t c1 Inr by (simp add: process_input_def bindS_def)
    have H: "\<exists>h. hist (en_runner e) d = Some h \<and> hist (en_runner e1) d = Some (h @ input) \<and> logits = infer (h @ input)"
      using A Inr I'(3) by auto
    have S: "?p \<noteq> []" "stream_open d (log @ en_events e)" "tokens_of d (log @ en_events e) = rs_output s"
      "length (rs_output s) < go_max_new_tokens (rq_generation ?r)"
      "\<forall>t. go_eos_token_id (rq_generation ?r) = Some t \<longrightarrow> t \<notin> set (rs_output s)"
      using st I'(3) by (auto simp: state_ok_def Let_def)
    have H2: "(if rs_prefilled s2 < length ?p then hist (en_runner e1) d = Some (take (rs_prefilled s2) ?p) \<and> rs_output s = []
       else rs_prefilled s2 = length ?p \<and> hist (en_runner e1) d = Some ?h \<and> logits = infer ?h)"
    proof (cases phase)
      case Prefill
      then obtain n where n: "rs_output s = []" "0 < n" "n \<le> length ?p - rs_prefilled s" "input = take n (drop (rs_prefilled s) ?p)"
        using inp by (auto simp: input_ok_def)
      have h: "rs_prefilled s < length ?p" "hist (en_runner e) d = Some (take (rs_prefilled s) ?p)"
        using st res n(1) I'(3) by (auto simp: state_ok_def Let_def)
      have "take (rs_prefilled s) ?p @ input = take (rs_prefilled s + n) ?p" by (simp add: n(4) take_add)
      moreover have "length input = n" using n by simp
      ultimately show ?thesis using H h n Prefill by (auto simp: s2_def)
    next
      case Decode
      then have n: "rs_output s \<noteq> []" "input = [last (rs_output s)]" using inp by (auto simp: input_ok_def)
      then have "rs_prefilled s = length ?p" "hist (en_runner e) d = Some (?p @ butlast (rs_output s))"
        using st res I'(3) by (auto simp: state_ok_def Let_def)
      moreover have "(?p @ butlast (rs_output s)) @ input = ?h" using n by simp
      ultimately show ?thesis using H Decode by (auto simp: s2_def)
    qed
    have i2: "i < length (en_active ?e2)" "en_active ?e2 ! i = s2" "rs_id s2 = d" "rs_output s2 = rs_output s"
      "rs_request s2 = ?r" "rs_resident s2" "\<not> rs_finished s2"
      using a2(1) I'(3,4) res by (simp_all add: at_item_def s2_def)
    show ?thesis
    proof (cases "rs_prefilled s2 < length ?p")
      case True
      then have e': "u = Inr ()" "e' = ?e2" using t2 i2(2) by (simp_all add: sample_output_def)
      have "state_ok lt infer (hist (en_runner ?e2)) (log @ en_events ?e2) s2"
        using S H2 True i2 a2 I'(3) by (simp add: state_ok_def Let_def)
      then have "good lt {} rs log e'" unfolding e'(2)
        by (intro good_close[OF g2 dist[unfolded e'(2)] i2(1)]) (unfold i2(2), rule i2(3), assumption)
      then show ?thesis using g2 e' i2 by simp
    next
      case False
      show ?thesis
      proof (cases "check_logits ops isfinite logits = Inr ()")
        case no: False
        then have "e' = ?e2" "u \<noteq> Inr ()" using t2 False i2(2)
          by (auto simp: sample_output_def bindS_checkS split: sum.splits)
        then show ?thesis using g2 i2 by simp
      next
        case True
        obtain u3 e3 where c3: "on_runner (op_cache_prefix ops (rq_id ?r)) ?e2 = (u3, e3)" by fastforce
        have "ok (en_runner ?e2)" using g2 by (simp add: good_def)
        note C = cache[OF this on_runner_split[OF c3]]
        have g3: "good lt {d} rs log e3" by (rule good_runner[OF g2 c3]) (use C in auto)
        have a3: "at_item i s2 e3" "en_events e3 = en_events e" "i < length (en_active e3)" "en_active e3 ! i = s2"
          using a2 at_item_runner[OF c3] on_runner_fields[OF c3] i2 by simp_all
        show ?thesis
        proof (cases u3)
          case (Inl x)
          then have "u = Inl x" "e' = e3" using t2 False i2(2) True c3
            by (simp_all add: sample_output_def bindS_def checkS_def)
          then show ?thesis using g3 a3 i2 by simp
        next
          case u3: (Inr y)
          have t3: "emit_token ops i (int (max_element lt logits)) e3 = (u, e')"
            using t2 False i2(2) True c3 u3 by (simp add: sample_output_def bindS_def checkS_def)
          have h3: "hist (en_runner e3) = hist (en_runner e1)" using C a2(3) by simp
          show ?thesis
            by (rule emit_item[OF g3 a3(1) i2(3) _ _ _ _ _ _ _ _ _ _ t3 dist])
              (use S H2 False i2 a3 h3 I'(4) in \<open>simp_all split: if_splits\<close>)
        qed
      qed
    qed
  qed
qed

section \<open>The loop and the operations\<close>

lemma isolate_item:
  assumes g: "good lt {d} rs log e" and i: "i < length (en_active e)" "rs_id (en_active e ! i) = d"
    and ok: "u0 = Inr () \<Longrightarrow> good lt {} rs log e" and t: "isolate_capacity ops i (u0, e) = (u, e')"
    and dist: "distinct (map rs_id (queued e'))"
  shows "good lt {d} rs log e' \<and> (u = Inr () \<longrightarrow> good lt {} rs log e')"
proof (cases "\<exists>m. u0 = Inl (Kv_capacity_error m)")
  case False
  then have "u0 = u" "e' = e" using t by (auto simp: isolate_capacity_def split: sum.splits exn.splits)
  then show ?thesis using g ok by simp
next
  case True
  then obtain m where m: "terminal_at ops i Finish_Error None m e = (u, e')" using t by (auto simp: isolate_capacity_def)
  have "good lt {d} rs log e' \<and> (u = Inr () \<longrightarrow> rs_finished (en_active e' ! i)) \<and>
      rs_id (en_active e' ! i) = rs_id (en_active e ! i) \<and> length (en_active e') = length (en_active e)"
  proof (rule good_terminal_at[OF g i(1) _ m], goal_cases)
    case 2
    show ?case
    proof (intro ballI impI)
      fix r assume "r \<in> set rs"
      then have "trace_ok lt infer (log @ en_events e) r" using g by (simp add: good_def)
      then show "trace_ok lt infer ((log @ en_events e) @ [\<lparr>ev_id = rs_id (en_active e ! i), ev_token = None,
          ev_reason = Some Finish_Error, ev_message = m\<rparr>]) r" by (subst trace_ok_silent) auto
    qed
  qed (use i in simp)
  then show ?thesis using i good_close[OF _ dist, of lt d rs log i] by auto
qed

lemma good_work_item:
  assumes run: "running S log n (insert i K) e" and i: "i < n" "i \<notin> K" and g: "good lt {} rs log e"
    and ph: "phase = phase_of (en_active e ! i)" and p: "has_budget p" "0 < sp_chunk p"
    and t: "work_item ops isfinite lt i phase p e = ((u, e'), p')"
  shows "(\<exists>d. good lt {d} rs log e') \<and> (u = Inr () \<longrightarrow> good lt {} rs log e')"
proof -
  let ?s = "en_active e ! i" let ?d = "rs_id (en_active e ! i)"
  have dist': "distinct (map rs_id (queued e'))"
    using running_work_item[OF i run t] by (simp add: running_def once_def)
  have dist: "distinct (map rs_id (queued e))" and i0: "i < length (en_active e)" "\<not> rs_finished ?s"
    using run i by (auto simp: running_def once_def)
  have I: "item_ok lt i ?d rs log e ?s" by (rule good_item[OF g dist i0])
  have chunk: "0 < sp_chunk p" by (rule p(2))
  have main: "good lt {?d} rs log e' \<and> (u = Inr () \<longrightarrow> good lt {} rs log e')"
    if r1: "running S log n (insert i K) e1" and I1: "item_ok lt i ?d rs log e1 s1" "rs_resident s1" "rs_output s1 = rs_output ?s"
      and t1: "(case take_input phase (length (rq_prompt (rs_request s1)) - rs_prefilled s1) p of
           Inl x \<Rightarrow> (isolate_capacity ops i (Inl x, e1), p)
         | Inr (n, p') \<Rightarrow> (isolate_capacity ops i (process_input ops isfinite lt i phase (rs_request s1) (work_input s1 phase n) e1), p'))
         = ((u, e'), p')" for e1 s1
  proof -
    have a: "i < length (en_active e1)" "rs_id (en_active e1 ! i) = ?d" "good lt {?d} rs log e1"
      "distinct (map rs_id (queued e1))" "en_active e1 ! i = s1"
      using I1 by (auto simp: item_ok_def at_item_def)
    show ?thesis
    proof (cases "take_input phase (length (rq_prompt (rs_request s1)) - rs_prefilled s1) p")
      case (Inl x)
      then have iso: "isolate_capacity ops i (Inl x, e1) = (u, e')" using t1 by simp
      show ?thesis by (rule isolate_item[OF a(3,1,2) _ iso dist']) simp
    next
      case (Inr kp)
      obtain k p1 where kp: "kp = (k, p1)" by (cases kp)
      note T = take_input_Inr[OF Inr[unfolded kp]]
      obtain u2 e2 where pr: "process_input ops isfinite lt i phase (rs_request s1) (work_input s1 phase k) e1 = (u2, e2)"
        by fastforce
      have iso: "isolate_capacity ops i (u2, e2) = (u, e')" using t1 Inr kp pr by simp
      have inp: "input_ok s1 phase (work_input s1 phase k)"
        using T(6)[OF p(1)] T(5) p chunk ph I1(3)
        by (cases phase) (auto simp: input_ok_def work_input_def phase_of_def split: if_splits)
      have d2: "distinct (map rs_id (queued e2))"
        using running_process[OF i r1 pr] by (simp add: running_def once_def)
      note P = process_item[OF I1(1,2) inp pr d2]
      show ?thesis by (rule isolate_item[OF _ _ _ _ iso dist']) (use P in auto)
    qed
  qed
  show ?thesis
  proof (cases "rs_resident ?s")
    case True
    have "good lt {?d} rs log e' \<and> (u = Inr () \<longrightarrow> good lt {} rs log e')"
      by (rule main[OF run I True refl]) (use t True in \<open>simp add: work_item_def Let_def\<close>)
    then show ?thesis by blast
  next
    case False
    obtain u1 e1 where r: "restore_prefix ops i (rs_request ?s) e = (u1, e1)" by fastforce
    note R = restore_item[OF I False r]
    have r1: "running S log n (insert i K) e1" by (rule keepsD[OF running_restore[OF i(1)] run r])
    show ?thesis
    proof (cases u1)
      case (Inl x)
      then have iso: "isolate_capacity ops i (Inl x, e1) = (u, e')" using t False r by (simp add: work_item_def)
      obtain s' where s': "at_item i s' e1" "rs_id s' = ?d" using R by blast
      have "good lt {?d} rs log e' \<and> (u = Inr () \<longrightarrow> good lt {} rs log e')"
        by (rule isolate_item[OF _ _ _ _ iso dist']) (use R s' in \<open>auto simp: at_item_def\<close>)
      then show ?thesis by blast
    next
      case (Inr y)
      then obtain s1 where s1: "item_ok lt i ?d rs log e1 s1" "rs_resident s1" "rs_output s1 = rs_output ?s" using R by auto
      have e1: "en_active e1 ! i = s1" using s1(1) by (simp add: item_ok_def at_item_def)
      have "good lt {?d} rs log e' \<and> (u = Inr () \<longrightarrow> good lt {} rs log e')"
        by (rule main[OF r1 s1 t[unfolded work_item_def if_not_P[OF False] r prod.case Inr sum.case Let_def e1]])
      then show ?thesis by blast
    qed
  qed
qed

lemma good_work_loop:
  assumes "running S log n (fst ` set ws) e" and "distinct (map fst ws)"
    and "\<forall>w \<in> set ws. fst w < n \<and> snd w = phase_of (en_active e ! fst w)"
    and "good lt {} rs log e" and "0 < sp_chunk p" and "work_loop ops isfinite lt ws p e = (u, e')"
  shows "good lt UNIV rs log e' \<and> (u = Inr () \<longrightarrow> good lt {} rs log e')"
  using assms
proof (induction ws arbitrary: p e)
  case Nil
  then show ?case using good_mono[of lt "{}" rs log e UNIV] by auto
next
  case (Cons w ws)
  obtain i ph where w: "w = (i, ph)" by (cases w)
  show ?case
  proof (cases "has_budget p")
    case False
    then have "e' = e" using Cons.prems(6) w by simp
    then show ?thesis using Cons.prems(4) good_mono[of lt "{}" rs log e UNIV] by auto
  next
    case True
    obtain r1 e1 p1 where t: "work_item ops isfinite lt i ph p e = ((r1, e1), p1)" by (metis surj_pair)
    have i: "i < n" "i \<notin> fst ` set ws" using Cons.prems(2,3) w by auto
    have run: "running S log n (insert i (fst ` set ws)) e" using Cons.prems(1) w by simp
    have run1: "running S log n (fst ` set ws) e1" by (rule running_work_item[OF i run t])
    have "(\<exists>d. good lt {d} rs log e1) \<and> (r1 = Inr () \<longrightarrow> good lt {} rs log e1)"
      by (rule good_work_item[OF run i Cons.prems(4) _ True Cons.prems(5) t]) (use Cons.prems(3) w in simp)
    then have g1: "good lt UNIV rs log e1" "r1 = Inr () \<Longrightarrow> good lt {} rs log e1" using good_mono by blast+
    show ?thesis
    proof (cases r1)
      case (Inl x)
      then show ?thesis using Cons.prems(6) w t True g1 by auto
    next
      case (Inr y)
      have "\<forall>w \<in> set ws. fst w < n \<and> snd w = phase_of (en_active e1 ! fst w)"
      proof
        fix v assume v: "v \<in> set ws"
        then have "fst v \<noteq> i" using i(2) by blast
        then have "en_active e1 ! fst v = en_active e ! fst v"
          using frame_work_item[OF t] by (simp add: frame_def)
        then show "fst v < n \<and> snd v = phase_of (en_active e1 ! fst v)" using Cons.prems(3) v by simp
      qed
      then show ?thesis
        using Cons.IH[OF run1, of p1] Cons.prems w t True Inr g1(2) work_item_plan[OF t] by simp
    qed
  qed
qed

lemma good_drop:
  assumes "good lt X rs log e" and "set (queued e') \<subseteq> set (queued e)" and "en_runner e' = en_runner e"
    and "en_events e' = en_events e" "en_scheduler e' = en_scheduler e"
    and "\<And>s. s \<in> set (queued e') \<Longrightarrow> rs_id s \<notin> Y \<Longrightarrow> \<not> rs_finished s \<Longrightarrow> rs_id s \<notin> X"
  shows "good lt Y rs log e'"
  using assms by (fastforce simp: good_def)

lemma good_admit:
  assumes "good lt {} rs log e" and "once S log e" and "all_live e" and "en_waiting e = ws"
    and "admit ops slots ws progressed e = (u, e')"
  shows "good lt {} rs log e'"
  using assms
proof (induction ws arbitrary: slots progressed e)
  case (Cons s ws)
  obtain u1 e1 where c: "on_runner (op_reserve_request ops (rs_id s) (pages_needed (rs_request s))) e = (u1, e1)" by fastforce
  have okw: "ok (en_runner e)" using Cons.prems(1) by (simp add: good_def)
  note R = reserve[OF okw on_runner_split[OF c]]
  have g1: "good lt {} rs log e1" by (rule good_runner[OF Cons.prems(1) c]) (use R in auto)
  have e1: "once S log e1" "all_live e1" "en_waiting e1 = s # ws"
    using Cons.prems once_on_runner[OF _ c] on_runner_fields[OF c] by auto
  have s: "\<not> rs_finished s" using Cons.prems by (simp add: queued_def)
  note A = Cons.prems(5)[unfolded admit.simps c prod.case]
  show ?case
  proof (cases "slots = 0 \<or> (\<exists>x. u1 = Inl x) \<or> (u1 = Inr Wait \<and> en_active e1 \<noteq> [])")
    case True
    then show ?thesis using A g1 Cons.prems(1) by (auto split: if_splits)
  next
    case False
    then obtain a where a: "u1 = Inr a" "slots \<noteq> 0" "\<not> (a = Wait \<and> en_active e1 \<noteq> [])" by (cases u1) auto
    show ?thesis
    proof (cases "a = Ready")
      case True
      let ?e2 = "e1\<lparr>en_active := en_active e1 @ [s], en_waiting := ws\<rparr>"
      have q: "queued ?e2 = queued e1" using e1(3) by (simp add: queued_def)
      have "admit ops (slots - 1) ws True ?e2 = (u, e')" using A a True by simp
      moreover have "once S log ?e2" using e1(1) once_cong[OF q] by simp
      moreover have "all_live ?e2" using e1(2) q by simp
      moreover have "good lt {} rs log ?e2" by (rule good_drop[OF g1]) (use q in simp_all)
      ultimately show ?thesis by (intro Cons.IH[of ?e2]) simp_all
    next
      case no: False
      obtain r2 e2 where t: "terminal ops s Finish_Error None (rejection a) Release_Sequence e1 = (r2, e2)" by fastforce
      have g2: "good lt {rs_id s} rs log e2"
        by (rule good_terminal_silent[OF good_mono[OF g1] _ t]) auto
      note T = terminal_cases[OF t, unfolded same_shell_def]
      show ?thesis
      proof (cases r2)
        case (Inl x)
        then show ?thesis using A a no t good_terminal_error[OF g1] by auto
      next
        case (Inr s')
        let ?e3 = "e2\<lparr>en_waiting := ws\<rparr>"
        have o3: "once S log ?e3" by (rule once_reject[OF e1(1,3) t[unfolded Inr] s])
        have "good lt {} rs log ?e3"
        proof (rule good_drop[OF g2])
          fix x assume "x \<in> set (queued ?e3)"
          then have "x \<in> set (en_active e1) \<union> set ws" using T(1) by (simp add: queued_def)
          then show "rs_id x \<notin> {rs_id s}"
            using distinct_id[of rs_id "en_active e1" s ws x] e1(1,3) by (simp add: once_def queued_def)
        qed (use T(1) e1(3) in \<open>auto simp: queued_def\<close>)
        moreover have "all_live ?e3" using T(1) e1(2,3) by (simp add: queued_def)
        moreover have "admit ops slots ws True ?e3 = (u, e')" using A a no t Inr by simp
        ultimately show ?thesis using o3 by (intro Cons.IH[of ?e3]) simp_all
      qed
    qed
  qed
qed simp

lemma good_terminal_all:
  assumes "good lt X rs log v" and "distinct (map rs_id (queued v))" and "agree v e" "agree e'' e'"
    and "terminal_all ops reason message cleanup ss e = (r, ss', e')" and "reason = Finish_Error \<or> reason = Cancelled"
    and "queued v = xs @ ss @ ys" and "queued e'' = xs @ ss' @ ys"
  shows "good lt X rs log e''"
  using assms
proof (induction ss arbitrary: v e xs ss' r)
  case Nil
  then show ?case by (auto simp: agree_def intro: good_drop)
next
  case (Cons s ss)
  obtain u e1 where t: "terminal ops s reason None message cleanup e = (u, e1)" by fastforce
  show ?case
  proof (cases u)
    case (Inl x)
    then have eq: "ss' = s # ss" "e' = e1" using Cons.prems(5) t by auto
    have w: "ok (en_runner e)" using Cons.prems(1,3) by (simp add: good_def agree_def)
    have "en_events e1 = en_events e" using terminal_cases(2)[OF t] Inl by simp
    then show ?thesis using Cons.prems eq terminal_effect[OF w t] Inl by (simp add: good_def agree_def)
  next
    case (Inr s')
    obtain w ts e2 where ta: "terminal_all ops reason message cleanup ss e1 = (w, ts, e2)" by (metis surj_pair)
    have eq: "ss' = s' # ts" "e' = e2" using Cons.prems(5) t ta Inr by auto
    let ?v = "e1\<lparr>en_active := xs @ s' # ss @ ys, en_waiting := []\<rparr>"
    have q: "queued ?v = xs @ s' # ss @ ys" by (simp add: queued_def)
    have g1: "good lt X rs log ?v"
      by (rule good_replace[OF Cons.prems(1-3) _ t[unfolded Inr] Cons.prems(6), of _ xs "ss @ ys"])
        (use Cons.prems(7) q in \<open>simp_all add: agree_def\<close>)
    have "rs_id s' = rs_id s" using terminal_cases(2)[OF t] Inr by (auto split: if_splits)
    then have "map rs_id (queued ?v) = map rs_id (queued v)" using Cons.prems(7) q by simp
    then show ?thesis
      by (intro Cons.IH[OF g1 _ _ _ ta[folded eq(2)], of "xs @ [s']"])
        (use Cons.prems eq q in \<open>simp_all add: agree_def\<close>)
  qed
qed

lemma good_terminal_active:
  assumes "good lt X rs log e" and "distinct (map rs_id (queued e))" and r: "reason = Finish_Error \<or> reason = Cancelled"
    and t: "terminal_active ops reason message cleanup e = (u, e')"
  shows "good lt X rs log e'"
proof -
  obtain w ts e2 where ta: "terminal_all ops reason message cleanup (en_active e) e = (w, ts, e2)" by (metis surj_pair)
  have "e' = e2\<lparr>en_active := ts\<rparr>" using t ta by (simp add: terminal_active_def)
  then show ?thesis using terminal_all_shell[OF ta]
    by (intro good_terminal_all[OF assms(1,2) _ _ ta r, of _ "[]"]) (simp_all add: agree_def queued_def same_shell_def)
qed

lemma good_terminal_waiting:
  assumes "good lt X rs log e" and "distinct (map rs_id (queued e))" and r: "reason = Finish_Error \<or> reason = Cancelled"
    and t: "terminal_waiting ops reason message cleanup e = (u, e')"
  shows "good lt X rs log e'"
proof -
  obtain w ts e2 where ta: "terminal_all ops reason message cleanup (en_waiting e) e = (w, ts, e2)" by (metis surj_pair)
  have "e' = e2\<lparr>en_waiting := ts\<rparr>" using t ta by (simp add: terminal_waiting_def)
  then show ?thesis using terminal_all_shell[OF ta]
    by (intro good_terminal_all[OF assms(1,2) _ _ ta r, of _ "en_active e" "[]"])
      (simp_all add: agree_def queued_def same_shell_def)
qed

lemma good_remove: "good lt X rs log e \<Longrightarrow> good lt X rs log (remove_finished b e)"
  by (erule good_drop) (auto simp: remove_finished_def queued_def Let_def)

lemma good_fail_all:
  assumes g: "good lt UNIV rs log e" and o: "once S log e"
  shows "good lt {} rs log (fail_all ops x e)"
proof -
  obtain r e1 where c: "on_runner (op_clear ops) (e\<lparr>en_failed := True\<rparr>) = (r, e1)" by fastforce
  define message where "message = (case r of Inl c \<Rightarrow> what x @ ''; cleanup failed: '' @ what c | Inr _ \<Rightarrow> what x)"
  obtain u2 e2 where t2: "terminal_active ops Finish_Error message Runner_Managed e1 = (u2, e2)" by fastforce
  obtain u3 e3 where t3: "terminal_waiting ops Finish_Error message Runner_Managed e2 = (u3, e3)" by fastforce
  have "good lt UNIV rs log (e\<lparr>en_failed := True\<rparr>)" by (rule good_drop[OF g]) (simp_all add: queued_def)
  moreover have "ok (en_runner e1)" using clear[OF _ on_runner_split[OF c]] g by (simp add: good_def)
  ultimately have g1: "good lt UNIV rs log e1" by (intro good_runner[OF _ c]) simp_all
  have "once S log (e\<lparr>en_failed := True\<rparr>)" using o by (simp add: once_def queued_def live_ids_def)
  then have o1: "once S log e1" by (rule once_on_runner[OF _ c])
  have g2: "good lt UNIV rs log e2" by (rule good_terminal_active[OF g1 _ _ t2]) (use o1 in \<open>simp_all add: once_def\<close>)
  have o2: "once S log e2" using once_terminal_active[OF o1 t2] by blast
  have g3: "good lt UNIV rs log e3" by (rule good_terminal_waiting[OF g2 _ _ t3]) (use o2 in \<open>simp_all add: once_def\<close>)
  have f: "fail_all ops x e = remove_finished True e3"
    unfolding fail_all_def c prod.case message_def[symmetric] Let_def by (simp add: t2 t3)
  have "queued (fail_all ops x e) = []" using once_fail_all[OF o] by blast
  then show ?thesis using good_remove[OF g3, of True] unfolding f by (simp add: good_def)
qed

lemma good_iteration:
  assumes g: "good lt {} rs log e" and o: "once S log e" "all_live e" and t: "iteration ops isfinite lt e = (r, e')"
  shows "good lt UNIV rs log e' \<and> (\<forall>b. r = Inr b \<longrightarrow> good lt {} rs log e')"
proof -
  obtain u e1 where c: "admit ops (admission_count (en_scheduler e) (length (en_active e)) (length (en_waiting e))) (en_waiting e) False e = (u, e1)"
    by fastforce
  have e1: "once S log e1" "all_live e1" using once_admit[OF o refl c] by auto
  have g1: "good lt {} rs log e1" by (rule good_admit[OF g o refl c])
  show ?thesis
  proof (cases "(\<exists>x. u = Inl x) \<or> en_active e1 = []")
    case True
    then have "e' = e1" using t c by (cases u) (auto simp: iteration_def bindS_def)
    then show ?thesis using g1 good_mono[of lt "{}" rs log e1 UNIV] by simp
  next
    case False
    then obtain x where u: "u = Inr x" by (cases u) auto
    define p where "p = mk_plan (map phase_of (en_active e1)) (en_scheduler e1)"
    obtain v e2 where w: "work_loop ops isfinite lt (sp_order p) p e1 = (v, e2)" by fastforce
    have "running S log (length (en_active e1)) (fst ` set (sp_order p)) e1"
      using e1 by (auto simp: running_def queued_def)
    moreover have "distinct (map fst (sp_order p))" by (auto simp: p_def plan_order comp_def)
    moreover have "\<forall>w \<in> set (sp_order p). fst w < length (en_active e1) \<and> snd w = phase_of (en_active e1 ! fst w)"
    proof (intro ballI)
      fix w assume "w \<in> set (sp_order p)"
      then show "fst w < length (en_active e1) \<and> snd w = phase_of (en_active e1 ! fst w)"
        using plan_mem[of "fst w" "snd w" "map phase_of (en_active e1)" "en_scheduler e1"] by (auto simp: p_def)
    qed
    moreover have "0 < sp_chunk p" using g1 by (simp add: p_def mk_plan_def good_def)
    ultimately have G: "good lt UNIV rs log e2 \<and> (v = Inr () \<longrightarrow> good lt {} rs log e2)"
      by (intro good_work_loop[OF _ _ _ g1 _ w]) blast+
    have e': "e' = (case v of Inl _ \<Rightarrow> e2 | Inr _ \<Rightarrow> remove_finished False e2)" "v = Inl y \<Longrightarrow> r = Inl y" for y
      using t c u w False by (auto simp: iteration_def bindS_def Let_def p_def[symmetric] split: sum.splits)
    show ?thesis using e' G good_remove by (cases v) auto
  qed
qed

lemma good_step:
  assumes g: "good lt {} rs log e" and o: "rest S log e" and t: "engine_step ops isfinite lt e = (r, e')"
  shows "good lt {} rs log e'"
proof -
  let ?e = "e\<lparr>en_stats := no_stats\<rparr>"
  have e: "once S log ?e" "all_live ?e" using o by (simp_all add: rest_def once_def queued_def live_ids_def)
  have g0: "good lt {} rs log ?e" using g by simp
  obtain u e1 where it: "iteration ops isfinite lt ?e = (u, e1)" by fastforce
  note G = good_iteration[OF g0 e it]
  have o1: "once S log e1" using once_iteration[OF e it] by blast
  show ?thesis
  proof (cases "en_failed e")
    case True
    then have "e' = ?e" using t by (simp add: engine_step_def)
    then show ?thesis using g0 by simp
  next
    case False
    show ?thesis
    proof (cases u)
      case (Inl x)
      then have "e' = fail_all ops x e1" using t it False by (simp add: engine_step_def)
      then show ?thesis using good_fail_all[OF _ o1] G by simp
    next
      case (Inr b)
      then have "e' = e1" using t it False by (simp add: engine_step_def)
      then show ?thesis using G Inr by simp
    qed
  qed
qed

lemma good_cancel:
  assumes g: "good lt {} rs log e" and o: "rest S log e" and t: "cancel ops i e = (r, e')"
  shows "good lt {} rs log e'"
proof -
  have dist: "distinct (map rs_id (queued e))" using o by (simp add: rest_def once_def)
  show ?thesis
  proof (cases "find_live i (en_waiting e)")
    case (Some k)
    note k = find_live_nth[OF Some]
    obtain u e1 where t1: "terminal ops (en_waiting e ! k) Cancelled None [] Release_Sequence e = (u, e1)" by fastforce
    show ?thesis
    proof (cases u)
      case (Inl x)
      then have "e' = e1" using t Some t1 by (simp add: cancel_def bindS_def)
      then show ?thesis using good_terminal_error[OF g t1[unfolded Inl]] by simp
    next
      case (Inr s')
      let ?e2 = "e1\<lparr>en_waiting := (en_waiting e1)[k := s']\<rparr>"
      have "good lt {} rs log ?e2"
        by (rule good_replace[OF g dist _ _ t1[unfolded Inr] _ queued_waiting])
          (use k terminal_cases(1)[OF t1] in \<open>simp_all add: agree_def queued_def same_shell_def upd_conv_take_nth_drop\<close>)
      moreover have "e' = remove_finished True ?e2" using t Some t1 Inr by (simp add: cancel_def bindS_def)
      ultimately show ?thesis using good_remove by blast
    qed
  next
    case None
    show ?thesis
    proof (cases "find_live i (en_active e)")
      case no: None
      then show ?thesis using t None g by (simp add: cancel_def)
    next
      case (Some k)
      note k = find_live_nth[OF Some]
      obtain u e1 where t1: "terminal ops (en_active e ! k) Cancelled None [] Release_Sequence e = (u, e1)" by fastforce
      show ?thesis
      proof (cases u)
        case (Inl x)
        then have "e' = e1" using t None Some t1 by (simp add: cancel_def bindS_def terminal_at_def)
        then show ?thesis using good_terminal_error[OF g t1[unfolded Inl]] by simp
      next
        case (Inr s')
        have S: "en_active e1 = en_active e" "en_waiting e1 = en_waiting e" using terminal_cases(1)[OF t1] by (simp_all add: same_shell_def)
        have "good lt {} rs log (set_active k s' e1)"
          by (rule good_replace[OF g dist _ _ t1[unfolded Inr] _ queued_split])
            (use k S queued_set_active[of k e1 s'] in \<open>simp_all add: agree_def\<close>)
        moreover have "e' = remove_finished False (set_active k s' e1)"
          using t None Some t1 Inr by (simp add: cancel_def bindS_def terminal_at_def)
        ultimately show ?thesis using good_remove by blast
      qed
    qed
  qed
qed

lemma good_shutdown:
  assumes g: "good lt {} rs log e" and o: "rest S log e" and t: "shutdown ops e = (r, e')"
  shows "good lt {} rs log e'"
proof -
  have o0: "once S log e" using o by (simp add: rest_def)
  obtain u1 e1 where t1: "terminal_active ops Cancelled [] Release_Sequence e = (u1, e1)" by fastforce
  have o1: "once S log e1" using once_terminal_active[OF o0 t1] by blast
  have g1: "good lt {} rs log e1" by (rule good_terminal_active[OF g _ _ t1]) (use o0 in \<open>simp_all add: once_def\<close>)
  obtain u2 e2 where t2: "terminal_waiting ops Cancelled [] Release_Sequence e1 = (u2, e2)" by fastforce
  have g2: "good lt {} rs log e2" by (rule good_terminal_waiting[OF g1 _ _ t2]) (use o1 in \<open>simp_all add: once_def\<close>)
  show ?thesis
  proof (cases u1)
    case (Inl x)
    then show ?thesis using t t1 good_remove[OF g1] by (auto simp: shutdown_def bindS_def)
  next
    case ok1: (Inr y)
    show ?thesis
    proof (cases u2)
      case (Inl x)
      then show ?thesis using t t1 t2 ok1 good_remove[OF g2] by (auto simp: shutdown_def bindS_def)
    next
      case (Inr z)
      have c: "on_runner (op_clear ops) (remove_finished True e2) = (r, e')"
        using t t1 t2 ok1 Inr by (simp add: shutdown_def bindS_def)
      have g3: "good lt UNIV rs log (remove_finished True e2)" using good_mono[OF good_remove[OF g2]] by blast
      have "ok (en_runner e')" using clear[OF _ on_runner_split[OF c]] g3 by (simp add: good_def)
      then have g4: "good lt UNIV rs log e'" by (intro good_runner[OF g3 c]) simp_all
      have "queued e' = []" using rest_shutdown[OF o t] rest_shutdown[OF o, of ops r e'] t ok1 Inr
        once_terminal_active[OF o0 t1, of "()"] once_terminal_waiting[OF o1 t2, of "()"] on_runner_fields[OF c]
        remove_finished_idle[of e2] by (auto simp: queued_def)
      then show ?thesis using g4 by (simp add: good_def)
    qed
  qed
qed

lemma good_submit:
  assumes g: "good lt {} rs log e" and o: "rest (rq_id ` set rs) log e" and t: "submit ops q e = (r, e')"
  shows "good lt {} (if r = Inr () then rs @ [q] else rs) log e'"
proof (cases "valid_request ops e q")
  case (Inl x)
  then show ?thesis using t g by (auto simp: submit_def)
next
  case (Inr u)
  have e': "r = Inr ()" "e' = e\<lparr>en_waiting := en_waiting e @ [fresh_state q], en_seen := insert (rq_id q) (en_seen e)\<rparr>"
    using t Inr by (auto simp: submit_def)
  have v: "rq_id q \<notin> en_seen e" "rq_prompt q \<noteq> []" "1 \<le> go_max_new_tokens (rq_generation q)"
    using Inr by (auto simp: valid_request_def split: if_splits)
  have q: "queued e' = queued e @ [fresh_state q]" by (simp add: e' queued_def)
  have ns: "rq_id q \<notin> rq_id ` set rs" using o v(1) by (simp add: rest_def once_def)
  have none: "events_for (rq_id q) (log @ en_events e) = []"
  proof -
    have "\<forall>ev \<in> set (log @ en_events e). ev_id ev \<in> rq_id ` set rs" using o unfolding rest_def once_def by blast
    then have "ev_id ev \<noteq> rq_id q" if "ev \<in> set (log @ en_events e)" for ev using ns that by metis
    then show ?thesis by (simp add: events_for_def filter_empty_conv)
  qed
  have "state_ok lt infer (hist (en_runner e')) (log @ en_events e') (fresh_state q)" "trace_ok lt infer (log @ en_events e') q"
    using none v by (auto simp: state_ok_def trace_ok_def fresh_state_def e' tokens_of_def stream_open_def Let_def)
  moreover have "rs_request (fresh_state q) = q" by (simp add: fresh_state_def)
  ultimately show ?thesis using g ns q by (auto simp: good_def e')
qed

lemma good_poll:
  assumes g: "good lt {} rs log e" and t: "poll_events e = (evs, e')"
  shows "good lt {} rs (log @ evs) e'"
proof -
  have "e' = e\<lparr>en_events := []\<rparr>" "evs = en_events e" using t by (simp_all add: poll_events_def)
  then show ?thesis using g by (simp add: good_def queued_def)
qed

lemma run_good:
  assumes "engine_run ops isfinite lt w0 c e rs log" and w0: "ok w0"
  shows "good lt {} rs log e"
  using assms(1)
proof (induction rule: engine_run.induct)
  case (run_start e)
  then show ?case using w0
    by (auto simp: mk_engine_def good_def queued_def scheduler_config_of_def mk_scheduler_def split: if_splits)
next
  case (run_submit e rs log q r e')
  then show ?case using good_submit[OF _ conjunct1[OF run_rest[OF run_submit(1)]] run_submit(2)] by simp
next
  case (run_step e rs log b e')
  then show ?case using good_step[OF _ conjunct1[OF run_rest]] by blast
next
  case (run_poll e rs log evs e')
  then show ?case using good_poll by blast
next
  case (run_cancel e rs log i r e')
  then show ?case using good_cancel[OF _ conjunct1[OF run_rest]] by blast
next
  case (run_shutdown e rs log r e')
  then show ?case using good_shutdown[OF _ conjunct1[OF run_rest]] by blast
qed

lemma run_traces:
  assumes "engine_run ops isfinite lt w0 c e rs log" and "ok w0" and "r \<in> set rs"
  shows "trace_ok lt infer (log @ en_events e) r"
  using run_good[OF assms(1,2)] assms(3) by (simp add: good_def)

end

section \<open>The CPU engine\<close>

text \<open>
  C1: the engine computes greedy decoding. With the CPU runner on a fresh KV manager, after any
  sequence of client calls, the tokens delivered for a request are the greedy continuation of its own
  prompt: token \<open>k\<close> is the first largest logit of the contiguous computation over prompt and the first
  \<open>k\<close> tokens. They end at the first EOS token or at \<open>max_new_tokens\<close>, as the finish reason says.
  Batching, chunked prefill, prefix reuse, copy-on-write, eviction and failures of other requests do
  not change a single token.
\<close>

theorem engine_greedy_decoding:
  assumes "mk_manager config layers width context vocabulary = Inr m0"
    and "nat layers \<le> size_max div 4 div 2" and "context \<le> int32_max"
    and "engine_run (cpu_ops f logits_of isfinite v k) isfinite lt (m0, \<sigma>0) c e rs log"
    and "r \<in> set rs"
  shows "let ts = tokens_of (rq_id r) (log @ en_events e); g = rq_generation r in
     (\<forall>j < length ts. ts ! j = int (max_element lt (logits_of (rows_of f (rq_prompt r @ take j ts))))) \<and>
     length ts \<le> go_max_new_tokens g \<and>
     (\<forall>t. go_eos_token_id g = Some t \<longrightarrow> t \<notin> set (butlast ts)) \<and>
     (\<forall>ev \<in> set (log @ en_events e). ev_id ev = rq_id r \<longrightarrow>
        (ev_reason ev = Some Length \<longrightarrow> length ts = go_max_new_tokens g) \<and>
        (ev_reason ev = Some Eos \<longrightarrow> ts \<noteq> [] \<and> go_eos_token_id g = Some (last ts)))"
proof -
  have "trace_ok lt (\<lambda>h. logits_of (rows_of f h)) (log @ en_events e) r"
    by (rule cpu.run_traces[OF assms(4) fresh_cpu_ok[OF assms(1-3)] assms(5)])
  then show ?thesis by (auto simp: trace_ok_def greedy_def events_for_def Let_def)
qed

theorem engine_greedy_decoding_witness:
  "\<exists>e :: int runner engine. length (tokens_of ''r'' (en_events e)) \<le> 2 \<and> queued e = [fresh_state demo_request]"
proof -
  obtain e where e: "engine_run demo_ops (\<lambda>_. True) (<) (demo_manager0, \<lambda>_ _. 0) demo_engine_config e [demo_request] []"
    "queued e = [fresh_state demo_request]" using demo_run by blast
  show ?thesis using engine_greedy_decoding[OF demo_fresh e(1)[unfolded demo_ops_def], of demo_request] e(2)
    by (intro exI[of _ e]) (simp add: Let_def demo_request_def)
qed




end
