(* ===== verification/Tensor_Layout.thy ===== *)
theory Tensor_Layout
  imports Prelude
begin

text \<open>
  Tensor shapes, strides and the maps from indices to storage of
  \<^verbatim>\<open>src/core/tensor_layout.cpp\<close> and \<^verbatim>\<open>include/tinyinfer/core/dtype.h\<close>. Dimensions and strides are
  \<open>std::int64_t\<close>; sizes and offsets are \<open>std::size_t\<close>, whose overflow the code checks.
\<close>

section \<open>Data types\<close>

datatype data_type = Float32 | Float16 | Int8 | Int32

fun dtype_string :: "data_type \<Rightarrow> string" where
  "dtype_string Float32 = ''float32''"
| "dtype_string Float16 = ''float16''"
| "dtype_string Int8 = ''int8''"
| "dtype_string Int32 = ''int32''"

fun size_of :: "data_type \<Rightarrow> nat" where
  "size_of Float32 = 4"
| "size_of Float16 = 2"
| "size_of Int8 = 1"
| "size_of Int32 = 4"

lemma size_of_pos [simp]: "0 < size_of d" "size_of d \<noteq> 0"
  by (cases d; simp)+

section \<open>Checked arithmetic\<close>

definition checked_multiply :: "nat \<Rightarrow> nat \<Rightarrow> string \<Rightarrow> nat result" where
  "checked_multiply lhs rhs message =
     (if lhs \<noteq> 0 \<and> rhs > size_max div lhs then Inl (Overflow_error message) else Inr (lhs * rhs))"

definition checked_add :: "nat \<Rightarrow> nat \<Rightarrow> string \<Rightarrow> nat result" where
  "checked_add lhs rhs message =
     (if lhs > size_max - rhs then Inl (Overflow_error message) else Inr (lhs + rhs))"

lemma checked_multiply_Inr: "checked_multiply a b m = Inr c \<longleftrightarrow> a * b \<le> size_max \<and> c = a * b"
proof (cases "a = 0")
  case False
  then have "b > size_max div a \<longleftrightarrow> \<not> a * b \<le> size_max"
    by (simp add: not_le div_less_iff_less_mult mult.commute)
  then show ?thesis using False by (auto simp: checked_multiply_def)
qed (auto simp: checked_multiply_def)

lemma checked_add_Inr: "b \<le> size_max \<Longrightarrow> checked_add a b m = Inr c \<longleftrightarrow> a + b \<le> size_max \<and> c = a + b"
  by (auto simp: checked_add_def)

lemma checked_multiply_cases: "checked_multiply a b m = (if a * b \<le> size_max then Inr (a * b) else Inl (Overflow_error m))"
  using checked_multiply_Inr[of a b m "a * b"] by (auto simp: checked_multiply_def)

lemma checked_add_cases: "b \<le> size_max \<Longrightarrow> checked_add a b m = (if a + b \<le> size_max then Inr (a + b) else Inl (Overflow_error m))"
  by (auto simp: checked_add_def)

section \<open>Layouts\<close>

type_synonym shape = "int list"
type_synonym strides = "int list"

record tensor_layout =
  lay_shape :: shape
  lay_strides :: strides
  lay_numel :: nat
  lay_storage_span :: nat
  lay_contiguous :: bool

abbreviation lay_rank :: "tensor_layout \<Rightarrow> nat" where
  "lay_rank l \<equiv> length (lay_shape l)"

definition validate_shape :: "shape \<Rightarrow> unit result" where
  "validate_shape s =
     (if \<exists>d \<in> set s. d < 0 then Inl (Invalid_argument ''tensor dimensions must be non-negative'') else Inr ())"

definition checked_numel :: "shape \<Rightarrow> nat result" where
  "checked_numel s =
     (if s = [] then Inr 1 else if 0 \<in> set s then Inr 0
      else foldE (\<lambda>d r. checked_multiply r (nat d) ''tensor element count overflows size_t'') s 1)"

text \<open>The loop runs from the last dimension; the first argument is the reversed rest of the shape.\<close>

fun contiguous_loop :: "int list \<Rightarrow> nat \<Rightarrow> strides \<Rightarrow> strides result" where
  "contiguous_loop [] running acc = Inr acc"
| "contiguous_loop (d # ds) running acc =
     (if running > nat int64_max then Inl (Overflow_error ''contiguous stride overflows int64_t'')
      else if ds = [] then Inr (int running # acc)
      else bindE (checked_multiply running (nat d) ''contiguous stride overflows size_t'')
             (\<lambda>running'. contiguous_loop ds running' (int running # acc)))"

definition make_contiguous_strides :: "shape \<Rightarrow> strides result" where
  "make_contiguous_strides s = contiguous_loop (rev s) 1 []"

definition checked_storage_span :: "shape \<Rightarrow> strides \<Rightarrow> nat result" where
  "checked_storage_span s st =
     (if s = [] then Inr 1 else if 0 \<in> set s then Inr 0
      else bindE (foldE (\<lambda>(d, t) m.
               bindE (checked_multiply (nat (d - 1)) (nat t) ''tensor storage span overflows size_t'')
                 (\<lambda>c. checked_add m c ''tensor storage span overflows size_t'')) (zip s st) 0)
             (\<lambda>m. checked_add m 1 ''tensor storage span overflows size_t''))"

text \<open>The two constructors: contiguous, and with explicit strides.\<close>

definition mk_layout :: "shape \<Rightarrow> tensor_layout result" where
  "mk_layout s =
     bindE (validate_shape s) (\<lambda>_. bindE (checked_numel s) (\<lambda>n. bindE (make_contiguous_strides s) (\<lambda>st.
       Inr \<lparr>lay_shape = s, lay_strides = st, lay_numel = n, lay_storage_span = n, lay_contiguous = True\<rparr>)))"

definition mk_strided_layout :: "shape \<Rightarrow> strides \<Rightarrow> tensor_layout result" where
  "mk_strided_layout s st =
     bindE (validate_shape s) (\<lambda>_.
       if length s \<noteq> length st then Inl (Invalid_argument ''shape and strides must have the same rank'')
       else if \<exists>t \<in> set st. t < 0 then Inl (Invalid_argument ''strides must be non-negative'')
       else bindE (checked_numel s) (\<lambda>n. bindE (checked_storage_span s st) (\<lambda>span.
            bindE (make_contiguous_strides s) (\<lambda>c.
       Inr \<lparr>lay_shape = s, lay_strides = st, lay_numel = n, lay_storage_span = span,
            lay_contiguous = (st = c)\<rparr>))))"

definition size_bytes :: "tensor_layout \<Rightarrow> data_type \<Rightarrow> nat result" where
  "size_bytes l d =
     (if size_of d = 0 then Inl (Invalid_argument ''unsupported tensor data type'')
      else checked_multiply (lay_numel l) (size_of d) ''tensor byte size overflows size_t'')"

section \<open>Indices to storage\<close>

definition offset_step :: "int \<times> int \<times> int \<Rightarrow> nat \<Rightarrow> nat result" where
  "offset_step x r = (case x of (i, d, t) \<Rightarrow>
     if i < 0 \<or> i \<ge> d then Inl (Out_of_range ''tensor index is out of range'')
     else bindE (checked_multiply (nat i) (nat t) ''tensor offset overflows size_t'')
            (\<lambda>c. checked_add r c ''tensor offset overflows size_t''))"

definition layout_offset :: "tensor_layout \<Rightarrow> shape \<Rightarrow> nat result" where
  "layout_offset l indices =
     (if length indices \<noteq> lay_rank l then Inl (Invalid_argument ''number of indices must match tensor rank'')
      else foldE offset_step (zip indices (zip (lay_shape l) (lay_strides l))) 0)"

fun storage_loop :: "(int \<times> int) list \<Rightarrow> nat \<Rightarrow> nat \<Rightarrow> nat result" where
  "storage_loop [] w r = Inr r"
| "storage_loop ((d, t) # xs) w r =
     bindE (checked_multiply (w mod nat d) (nat t) ''storage offset overflows size_t'') (\<lambda>c.
     bindE (checked_add r c ''storage offset overflows size_t'') (\<lambda>r'. storage_loop xs (w div nat d) r'))"

definition storage_offset :: "tensor_layout \<Rightarrow> nat \<Rightarrow> nat result" where
  "storage_offset l i =
     (if i \<ge> lay_numel l then Inl (Out_of_range ''logical tensor index is out of range'')
      else storage_loop (rev (zip (lay_shape l) (lay_strides l))) i 0)"

section \<open>Reshape and transpose\<close>

record reshape_state =
  rh_known :: nat
  rh_inferred :: "nat option"
  rh_has_zero :: bool

definition reshape_step :: "nat \<times> int \<Rightarrow> reshape_state \<Rightarrow> reshape_state result" where
  "reshape_step x s = (case x of (k, sz) \<Rightarrow>
     if sz = -1 then
       (if rh_inferred s \<noteq> None then Inl (Invalid_argument ''reshape allows at most one inferred dimension'')
        else Inr (s\<lparr>rh_inferred := Some k\<rparr>))
     else if sz < 0 then Inl (Invalid_argument ''reshape dimensions must be non-negative or -1'')
     else if sz = 0 then Inr (s\<lparr>rh_has_zero := True, rh_known := 0\<rparr>)
     else if rh_has_zero s then Inr s
     else bindE (checked_multiply (rh_known s) (nat sz) ''reshape element count overflows size_t'')
            (\<lambda>n. Inr (s\<lparr>rh_known := n\<rparr>)))"

definition resolve_reshape_shape :: "shape \<Rightarrow> nat \<Rightarrow> shape result" where
  "resolve_reshape_shape sh current =
     bindE (foldE reshape_step (enumerate 0 sh) \<lparr>rh_known = 1, rh_inferred = None, rh_has_zero = False\<rparr>) (\<lambda>s.
     bindE (case rh_inferred s of
              None \<Rightarrow> Inr (sh, rh_known s)
            | Some k \<Rightarrow>
              if rh_known s = 0
              then Inl (Invalid_argument ''cannot infer a reshape dimension when known dimensions multiply to zero'')
              else if current mod rh_known s \<noteq> 0
              then Inl (Invalid_argument ''reshape cannot infer an integral dimension'')
              else let inferred = current div rh_known s in
                if inferred > nat int64_max then Inl (Overflow_error ''inferred reshape dimension overflows int64_t'')
                else bindE (checked_multiply (rh_known s) inferred ''reshape element count overflows size_t'')
                       (\<lambda>n. Inr (sh[k := int inferred], n)))
       (\<lambda>(sh', known).
         if known \<noteq> current then Inl (Invalid_argument ''reshape must preserve the number of elements'') else Inr sh'))"

definition reshaped :: "tensor_layout \<Rightarrow> shape \<Rightarrow> tensor_layout result" where
  "reshaped l sh =
     (if \<not> lay_contiguous l then Inl (Logic_error ''reshape requires a contiguous layout'')
      else bindE (resolve_reshape_shape sh (lay_numel l)) mk_layout)"

definition swap_at :: "nat \<Rightarrow> nat \<Rightarrow> 'a list \<Rightarrow> 'a list" where
  "swap_at i j xs = xs[i := xs ! j, j := xs ! i]"

definition transposed :: "tensor_layout \<Rightarrow> nat \<Rightarrow> nat \<Rightarrow> tensor_layout result" where
  "transposed l i j =
     (if i \<ge> lay_rank l \<or> j \<ge> lay_rank l then Inl (Out_of_range ''transpose dimension is out of range'')
      else mk_strided_layout (swap_at i j (lay_shape l)) (swap_at i j (lay_strides l)))"

section \<open>The abstract meaning\<close>

definition prodn :: "int list \<Rightarrow> nat" where
  "prodn s = prod_list (map nat s)"

lemma prodn_simps [simp]: "prodn [] = 1" "prodn (d # ds) = nat d * prodn ds" "prodn (xs @ ys) = prodn xs * prodn ys"
  by (simp_all add: prodn_def)

lemma prodn_0: "\<forall>d \<in> set s. 0 \<le> d \<Longrightarrow> prodn s = 0 \<longleftrightarrow> 0 \<in> set s"
  by (induction s) auto

text \<open>Row-major strides, the reach of the strides, and the linear map of a reversed dimension list.\<close>

fun cstrides :: "int list \<Rightarrow> nat list" where
  "cstrides [] = []"
| "cstrides (d # ds) = prodn ds # cstrides ds"

definition reach :: "(int \<times> int) list \<Rightarrow> nat" where
  "reach xs = sum_list (map (\<lambda>(d, t). nat (d - 1) * nat t) xs)"

fun lin :: "(int \<times> int) list \<Rightarrow> nat \<Rightarrow> nat" where
  "lin [] w = 0"
| "lin ((d, t) # xs) w = (w mod nat d) * nat t + lin xs (w div nat d)"

lemma reach_simps [simp]: "reach [] = 0" "reach ((d, t) # xs) = nat (d - 1) * nat t + reach xs"
  "reach (rev xs) = reach xs" "reach (xs @ ys) = reach xs + reach ys"
  by (simp_all add: reach_def rev_map[symmetric] sum_list_rev)

lemma length_cstrides [simp]: "length (cstrides s) = length s"
  by (induction s) auto

lemma cstrides_snoc: "cstrides (xs @ [d]) = map (\<lambda>c. c * nat d) (cstrides xs) @ [1]"
  by (induction xs) auto

lemma foldE_multiply:
  "foldE (\<lambda>d r. checked_multiply r (nat d) m) s a = Inr n \<Longrightarrow> n = a * prodn s \<and> (a \<le> size_max \<longrightarrow> n \<le> size_max)"
proof (induction s arbitrary: a)
  case (Cons d ds)
  then obtain b where b: "a * nat d \<le> size_max" "b = a * nat d" "foldE (\<lambda>d r. checked_multiply r (nat d) m) ds b = Inr n"
    by (auto simp: checked_multiply_Inr)
  show ?case using Cons.IH[OF b(3)] b by simp
qed simp

lemma checked_numel_Inr:
  assumes "\<forall>d \<in> set s. 0 \<le> d" and "checked_numel s = Inr n"
  shows "n = prodn s \<and> n \<le> size_max"
proof -
  have one: "1 \<le> size_max" by (simp add: size_max_def)
  show ?thesis
  proof (cases "s = [] \<or> 0 \<in> set s")
    case True
    then show ?thesis using assms one prodn_0[OF assms(1)] by (auto simp: checked_numel_def split: if_splits)
  next
    case False
    then have "foldE (\<lambda>d r. checked_multiply r (nat d) ''tensor element count overflows size_t'') s 1 = Inr n"
      using assms(2) by (simp add: checked_numel_def)
    from foldE_multiply[OF this] one show ?thesis by simp
  qed
qed

lemma checked_numel_total:
  assumes "\<forall>d \<in> set s. 0 \<le> d" and "prodn s \<le> size_max"
  shows "checked_numel s = Inr (prodn s)"
proof -
  have "\<forall>d \<in> set ds. 0 < d \<Longrightarrow> a * prodn ds \<le> size_max \<Longrightarrow> foldE (\<lambda>d r. checked_multiply r (nat d) m) ds a = Inr (a * prodn ds)" for ds a m
  proof (induction ds arbitrary: a)
    case (Cons d ds)
    have "prodn ds \<noteq> 0" using Cons.prems(1) prodn_0[of ds] by fastforce
    then have "1 \<le> prodn ds" by simp
    then have "a * nat d * 1 \<le> a * nat d * prodn ds" by (rule mult_le_mono2)
    also have "a * nat d * prodn ds = a * prodn (d # ds)" by (simp add: mult.assoc)
    also note Cons.prems(2)
    finally have "a * nat d \<le> size_max" by simp
    then show ?case using Cons by (simp add: checked_multiply_cases mult.assoc)
  qed simp
  note total = this[of s 1]
  show ?thesis
  proof (cases "s = [] \<or> 0 \<in> set s")
    case True
    then show ?thesis using prodn_0[OF assms(1)] by (auto simp: checked_numel_def)
  next
    case False
    then have "\<forall>d \<in> set s. 0 < d" using assms(1) by (metis less_le)
    then show ?thesis using total assms(2) False by (simp add: checked_numel_def)
  qed
qed

lemma contiguous_loop_Inr:
  "contiguous_loop (rev xs) r acc = Inr st \<Longrightarrow> st = map int (map ((*) r) (cstrides xs)) @ acc"
proof (induction xs arbitrary: r acc rule: rev_induct)
  case (snoc d ys)
  show ?case
  proof (cases "ys = []")
    case True
    then show ?thesis using snoc.prems by (auto split: if_splits)
  next
    case False
    then have "contiguous_loop (rev ys) (r * nat d) (int r # acc) = Inr st"
      using snoc.prems by (auto simp: checked_multiply_Inr split: if_splits)
    from snoc.IH[OF this] show ?thesis by (simp add: cstrides_snoc comp_def algebra_simps)
  qed
qed simp

lemma contiguous_strides_Inr: "make_contiguous_strides s = Inr st \<Longrightarrow> st = map int (cstrides s)"
  using contiguous_loop_Inr[of s 1 "[]" st] by (simp add: make_contiguous_strides_def comp_def)

lemma reach_contiguous:
  "\<forall>d \<in> set s. 0 < d \<Longrightarrow> reach (zip s (map int (cstrides s))) + 1 = prodn s"
proof (induction s)
  case (Cons d ds)
  then have IH: "reach (zip ds (map int (cstrides ds))) + 1 = prodn ds" and d: "nat d = Suc (nat (d - 1))" by auto
  show ?case using IH by (simp add: d)
qed simp

lemma lin_contiguous:
  "w < prodn xs \<Longrightarrow> lin (rev (zip xs (map (\<lambda>c. int (r * c)) (cstrides xs)))) w = r * w"
proof (induction xs arbitrary: r w rule: rev_induct)
  case (snoc d ys)
  have d: "0 < nat d" using snoc.prems by (cases "nat d") auto
  have "w div nat d < prodn ys" using snoc.prems d by (simp add: div_less_iff_less_mult)
  from snoc.IH[OF this, of "r * nat d"]
  have "lin (rev (zip ys (map (\<lambda>c. int (r * (c * nat d))) (cstrides ys)))) (w div nat d) = r * nat d * (w div nat d)"
    by (simp add: algebra_simps)
  moreover have "r * (w mod nat d) + r * nat d * (w div nat d) = r * w"
    by (metis add_mult_distrib2 mod_mult_div_eq mult.assoc)
  ultimately show ?case by (simp add: cstrides_snoc comp_def algebra_simps)
qed simp

lemma lin_reach: "\<forall>(d, t) \<in> set xs. 0 < d \<Longrightarrow> lin xs w \<le> reach xs"
proof (induction xs arbitrary: w)
  case (Cons x xs)
  obtain d t where x: "x = (d, t)" by (cases x)
  have "0 < nat d" using Cons.prems x by simp
  then have "w mod nat d < nat d" by simp
  then have "w mod nat d \<le> nat (d - 1)" by linarith
  then have "(w mod nat d) * nat t \<le> nat (d - 1) * nat t" by (rule mult_right_mono) simp
  then show ?case using Cons x by (simp add: add_mono)
qed simp

lemma storage_loop_total:
  "\<forall>(d, t) \<in> set xs. 0 < d \<Longrightarrow> r + reach xs \<le> size_max \<Longrightarrow> storage_loop xs w r = Inr (r + lin xs w)"
proof (induction xs arbitrary: w r)
  case (Cons x xs)
  obtain d t where x: "x = (d, t)" by (cases x)
  let ?c = "(w mod nat d) * nat t"
  have "lin ((d, t) # []) w \<le> reach [(d, t)]" by (rule lin_reach) (use Cons.prems x in auto)
  then have c: "?c \<le> nat (d - 1) * nat t" by simp
  have b: "r + (nat (d - 1) * nat t + reach xs) \<le> size_max" using Cons.prems(2) x by simp
  have "?c \<le> size_max" "r + ?c \<le> size_max" "r + ?c + reach xs \<le> size_max" using b c by linarith+
  then show ?case using Cons.IH[of "r + ?c"] Cons.prems(1) x by (simp add: checked_multiply_cases checked_add_cases)
qed simp

section \<open>The layout invariant\<close>

definition layout_ok :: "tensor_layout \<Rightarrow> bool" where
  "layout_ok l \<longleftrightarrow> length (lay_strides l) = lay_rank l \<and>
     (\<forall>d \<in> set (lay_shape l). 0 \<le> d) \<and> (\<forall>t \<in> set (lay_strides l). 0 \<le> t) \<and>
     lay_numel l = prodn (lay_shape l) \<and> lay_numel l \<le> size_max \<and> lay_storage_span l \<le> size_max \<and>
     lay_storage_span l = (if 0 \<in> set (lay_shape l) then 0 else reach (zip (lay_shape l) (lay_strides l)) + 1) \<and>
     (lay_contiguous l \<longleftrightarrow> lay_strides l = map int (cstrides (lay_shape l)))"

lemma layout_okD:
  assumes "layout_ok l"
  shows "length (lay_strides l) = lay_rank l" "\<And>d. d \<in> set (lay_shape l) \<Longrightarrow> 0 \<le> d"
    "lay_numel l = prodn (lay_shape l)" "lay_numel l \<le> size_max" "lay_storage_span l \<le> size_max"
    "lay_storage_span l = (if 0 \<in> set (lay_shape l) then 0 else reach (zip (lay_shape l) (lay_strides l)) + 1)"
    "lay_contiguous l \<longleftrightarrow> lay_strides l = map int (cstrides (lay_shape l))"
    "\<And>t. t \<in> set (lay_strides l) \<Longrightarrow> 0 \<le> t"
  using assms by (auto simp: layout_ok_def)

lemma validate_shape_Inr: "validate_shape s = Inr u \<longleftrightarrow> (\<forall>d \<in> set s. 0 \<le> d)"
  by (force simp: validate_shape_def not_less)

lemma mk_layout_ok:
  assumes "mk_layout s = Inr l"
  shows "layout_ok l" "lay_shape l = s" "lay_contiguous l"
proof -
  obtain n st where p: "\<forall>d \<in> set s. 0 \<le> d" "checked_numel s = Inr n" "make_contiguous_strides s = Inr st"
    and l: "l = \<lparr>lay_shape = s, lay_strides = st, lay_numel = n, lay_storage_span = n, lay_contiguous = True\<rparr>"
    using assms by (auto simp: mk_layout_def validate_shape_Inr)
  note n = checked_numel_Inr[OF p(1,2)] and st = contiguous_strides_Inr[OF p(3)]
  have "n = (if 0 \<in> set s then 0 else reach (zip s st) + 1)"
  proof (cases "0 \<in> set s")
    case False
    then have "\<forall>d \<in> set s. 0 < d" using p(1) by (metis less_le)
    then show ?thesis using reach_contiguous n st False by simp
  qed (use n prodn_0[OF p(1)] in simp)
  then show "layout_ok l" "lay_shape l = s" "lay_contiguous l" using p n st by (auto simp: layout_ok_def l)
qed

lemma span_fold:
  "foldE (\<lambda>(d, t) m. bindE (checked_multiply (nat (d - 1)) (nat t) e) (\<lambda>c. checked_add m c e)) xs a = Inr n \<Longrightarrow>
   n = a + reach xs \<and> (a \<le> size_max \<longrightarrow> n \<le> size_max)"
proof (induction xs arbitrary: a)
  case (Cons x xs)
  obtain d t where x: "x = (d, t)" by (cases x)
  from Cons.prems obtain c b where c: "checked_multiply (nat (d - 1)) (nat t) e = Inr c" "checked_add a c e = Inr b"
    "foldE (\<lambda>(d, t) m. bindE (checked_multiply (nat (d - 1)) (nat t) e) (\<lambda>c. checked_add m c e)) xs b = Inr n"
    using x by auto
  then have "c = nat (d - 1) * nat t" "b = a + c" "b \<le> size_max"
    by (auto simp: checked_multiply_Inr checked_add_Inr)
  then show ?case using Cons.IH[OF c(3)] x by simp
qed simp

lemma checked_storage_span_Inr:
  assumes "checked_storage_span s st = Inr n" and "length s = length st"
  shows "n = (if 0 \<in> set s then 0 else reach (zip s st) + 1) \<and> n \<le> size_max"
proof (cases "s = [] \<or> 0 \<in> set s")
  case True
  then show ?thesis using assms by (auto simp: checked_storage_span_def size_max_def split: if_splits)
next
  case False
  let ?e = "''tensor storage span overflows size_t''"
  obtain m where m: "foldE (\<lambda>(d, t) m. bindE (checked_multiply (nat (d - 1)) (nat t) ?e) (\<lambda>c. checked_add m c ?e)) (zip s st) 0 = Inr m"
    "checked_add m 1 ?e = Inr n" using assms(1) False by (auto simp: checked_storage_span_def)
  have "1 \<le> size_max" by (simp add: size_max_def)
  then show ?thesis using span_fold[OF m(1)] m(2) False by (auto simp: checked_add_Inr)
qed

lemma mk_strided_layout_ok:
  assumes "mk_strided_layout s st = Inr l"
  shows "layout_ok l" "lay_shape l = s" "lay_strides l = st"
proof -
  obtain n span c where p: "\<forall>d \<in> set s. 0 \<le> d" "length s = length st" "\<forall>t \<in> set st. 0 \<le> t"
    "checked_numel s = Inr n" "checked_storage_span s st = Inr span" "make_contiguous_strides s = Inr c"
    and l: "l = \<lparr>lay_shape = s, lay_strides = st, lay_numel = n, lay_storage_span = span, lay_contiguous = (st = c)\<rparr>"
    using assms by (auto simp: mk_strided_layout_def validate_shape_Inr not_less split: if_splits)
  then show "layout_ok l" "lay_shape l = s" "lay_strides l = st"
    using checked_numel_Inr[OF p(1,4)] checked_storage_span_Inr[OF p(5,2)] contiguous_strides_Inr[OF p(6)]
    by (auto simp: layout_ok_def)
qed

text \<open>For admissible dimensions and strides the constructor can only fail on the contiguous strides.\<close>

lemma span_total:
  "\<forall>(d, t) \<in> set xs. 0 \<le> d \<and> 0 \<le> t \<Longrightarrow> a + reach xs \<le> size_max \<Longrightarrow>
   foldE (\<lambda>(d, t) m. bindE (checked_multiply (nat (d - 1)) (nat t) e) (\<lambda>c. checked_add m c e)) xs a = Inr (a + reach xs)"
proof (induction xs arbitrary: a)
  case (Cons x xs)
  obtain d t where x: "x = (d, t)" by (cases x)
  let ?c = "nat (d - 1) * nat t"
  have b: "a + (?c + reach xs) \<le> size_max" using Cons.prems(2) x by simp
  then have "?c \<le> size_max" "a + ?c \<le> size_max" "a + ?c + reach xs \<le> size_max" by linarith+
  then show ?case using Cons.IH[of "a + ?c"] Cons.prems(1) x by (simp add: checked_multiply_cases checked_add_cases)
qed simp

lemma mk_strided_layout_total:
  assumes dims: "\<forall>d \<in> set s. 0 \<le> d" and len: "length s = length st" and st: "\<forall>t \<in> set st. 0 \<le> t"
    and numel: "prodn s \<le> size_max" and span: "0 \<notin> set s \<Longrightarrow> reach (zip s st) + 1 \<le> size_max"
  shows "mk_strided_layout s st = bindE (make_contiguous_strides s) (\<lambda>c.
    Inr \<lparr>lay_shape = s, lay_strides = st, lay_numel = prodn s,
      lay_storage_span = (if 0 \<in> set s then 0 else reach (zip s st) + 1), lay_contiguous = (st = c)\<rparr>)"
proof -
  have v: "validate_shape s = Inr ()" using dims by (simp add: validate_shape_Inr)
  have "checked_storage_span s st = Inr (if 0 \<in> set s then 0 else reach (zip s st) + 1)"
  proof (cases "s = [] \<or> 0 \<in> set s")
    case True
    then show ?thesis by (auto simp: checked_storage_span_def)
  next
    case False
    have "\<forall>(d, t) \<in> set (zip s st). 0 \<le> d \<and> 0 \<le> t" using dims st by (auto dest: set_zip_leftD set_zip_rightD)
    from span_total[OF this, of 0] show ?thesis
      using span False by (simp add: checked_storage_span_def checked_add_cases size_max_def)
  qed
  moreover have "\<not> (\<exists>t \<in> set st. t < 0)" using st by force
  ultimately show ?thesis using len v checked_numel_total[OF dims numel] by (simp add: mk_strided_layout_def)
qed

lemma positive_dims:
  assumes "layout_ok l" and "i < lay_numel l"
  shows "\<forall>(d, t) \<in> set (zip (lay_shape l) (lay_strides l)). 0 < d" "0 \<notin> set (lay_shape l)"
proof -
  have "prodn (lay_shape l) \<noteq> 0" using assms layout_okD(3) by force
  then show no: "0 \<notin> set (lay_shape l)" using prodn_0[of "lay_shape l"] layout_okD(2)[OF assms(1)] by simp
  show "\<forall>(d, t) \<in> set (zip (lay_shape l) (lay_strides l)). 0 < d"
  proof (clarify)
    fix d t assume "(d, t) \<in> set (zip (lay_shape l) (lay_strides l))"
    then have d: "d \<in> set (lay_shape l)" by (rule set_zip_leftD)
    then have "0 \<le> d" "d \<noteq> 0" using layout_okD(2)[OF assms(1) d] no by auto
    then show "0 < d" by simp
  qed
qed

lemma storage_offset_Inr:
  assumes ok: "layout_ok l" and i: "i < lay_numel l"
  shows "storage_offset l i = Inr (lin (rev (zip (lay_shape l) (lay_strides l))) i)"
    "lin (rev (zip (lay_shape l) (lay_strides l))) i < lay_storage_span l"
proof -
  note pos = positive_dims[OF ok i]
  let ?z = "rev (zip (lay_shape l) (lay_strides l))"
  have span: "reach ?z + 1 = lay_storage_span l" using layout_okD(6)[OF ok] pos(2) by simp
  have "storage_loop ?z i 0 = Inr (0 + lin ?z i)"
    by (rule storage_loop_total) (use pos span layout_okD(5)[OF ok] in auto)
  then show "storage_offset l i = Inr (lin ?z i)" using i by (simp add: storage_offset_def)
  have "lin ?z i \<le> reach ?z" by (rule lin_reach) (use pos in auto)
  then show "lin ?z i < lay_storage_span l" using span by simp
qed

section \<open>Properties\<close>

text \<open>
  C23: no index leaves the storage. For every layout either constructor accepts, every logical index
  below the element count maps to an offset below the storage span, without overflow; for a
  contiguous layout the map is the identity and the span is the element count.
\<close>

theorem storage_offset_in_span:
  assumes "mk_layout s = Inr l \<or> mk_strided_layout s st = Inr l" and "i < lay_numel l"
  shows "\<exists>v. storage_offset l i = Inr v \<and> v < lay_storage_span l \<and>
     (lay_contiguous l \<longrightarrow> v = i \<and> lay_storage_span l = lay_numel l)"
proof -
  have ok: "layout_ok l" using assms(1) mk_layout_ok(1) mk_strided_layout_ok(1) by blast
  note S = storage_offset_Inr[OF ok assms(2)] and pos = positive_dims[OF ok assms(2)]
  have "lin (rev (zip (lay_shape l) (lay_strides l))) i = i \<and> lay_storage_span l = lay_numel l" if "lay_contiguous l"
  proof -
    have st: "lay_strides l = map int (cstrides (lay_shape l))" using that layout_okD(7)[OF ok] by simp
    have "\<forall>d \<in> set (lay_shape l). 0 < d" using pos(2) layout_okD(2)[OF ok] by (metis less_le)
    from reach_contiguous[OF this] have "lay_storage_span l = lay_numel l"
      using layout_okD(3,6)[OF ok] pos(2) st by simp
    moreover have "lin (rev (zip (lay_shape l) (lay_strides l))) i = 1 * i"
      using lin_contiguous[of i "lay_shape l" 1] assms(2) layout_okD(3)[OF ok] st by (simp add: comp_def)
    ultimately show ?thesis by simp
  qed
  then show ?thesis using S by auto
qed

definition demo_layout :: tensor_layout where
  "demo_layout = \<lparr>lay_shape = [3, 2], lay_strides = [1, 3], lay_numel = 6, lay_storage_span = 6, lay_contiguous = False\<rparr>"

lemma demo_layout: "mk_strided_layout [3, 2] [1, 3] = Inr demo_layout"
  by (simp add: mk_strided_layout_def validate_shape_def checked_numel_def checked_storage_span_def
      make_contiguous_strides_def checked_multiply_def checked_add_def size_max_def int64_max_def demo_layout_def)

theorem storage_offset_in_span_witness: "\<exists>v. storage_offset demo_layout 4 = Inr v \<and> v < 6"
  using storage_offset_in_span[OF disjI2[OF demo_layout], of 4] by (simp add: demo_layout_def)

text \<open>The coordinates of a logical index, last dimension fastest.\<close>

fun unravel_rev :: "int list \<Rightarrow> nat \<Rightarrow> int list" where
  "unravel_rev [] w = []"
| "unravel_rev (d # ds) w = int (w mod nat d) # unravel_rev ds (w div nat d)"

definition unravel :: "shape \<Rightarrow> nat \<Rightarrow> shape" where
  "unravel s i = rev (unravel_rev (rev s) i)"

lemma length_unravel [simp]: "length (unravel_rev s w) = length s" "length (unravel s w) = length s"
proof -
  show 1: "length (unravel_rev s w) = length s" for s by (induction s arbitrary: w) auto
  show "length (unravel s w) = length s" by (simp add: unravel_def 1)
qed

definition dot :: "int list \<Rightarrow> (int \<times> int) list \<Rightarrow> nat" where
  "dot is xs = sum_list (map (\<lambda>(i, d, t). nat i * nat t) (zip is xs))"

lemma dot_unravel: "dot (unravel_rev (map fst xs) w) xs = lin xs w"
  by (induction xs arbitrary: w) (auto simp: dot_def nat_mod_distrib)

lemma unravel_rev_range: "\<forall>d \<in> set ds. 0 < d \<Longrightarrow> list_all2 (\<lambda>i d. 0 \<le> i \<and> i < d) (unravel_rev ds w) ds"
proof (induction ds arbitrary: w)
  case (Cons d ds)
  then have "0 < nat d" by simp
  then have "w mod nat d < nat d" by simp
  then have "int (w mod nat d) < d" by linarith
  then show ?case using Cons by simp
qed simp

lemma offset_fold:
  "list_all2 (\<lambda>i (d, t). 0 \<le> i \<and> i < d) is xs \<Longrightarrow> r + dot is xs \<le> size_max \<Longrightarrow>
   foldE offset_step (zip is xs) r = Inr (r + dot is xs)"
proof (induction "is" xs arbitrary: r rule: list_all2_induct)
  case (Cons i "is" x xs)
  obtain d t where x: "x = (d, t)" by (cases x)
  have b: "r + (nat i * nat t + dot is xs) \<le> size_max" using Cons.prems x by (simp add: dot_def)
  then have "nat i * nat t \<le> size_max" "r + nat i * nat t \<le> size_max" by linarith+
  then show ?case using Cons.IH[of "r + nat i * nat t"] Cons.hyps b x
    by (simp add: offset_step_def dot_def checked_multiply_cases checked_add_cases algebra_simps)
qed (simp add: dot_def)

lemma offset_fold_Inr:
  "length is = length xs \<Longrightarrow> foldE offset_step (zip is xs) r = Inr v \<Longrightarrow>
   list_all2 (\<lambda>i (d, t). 0 \<le> i \<and> i < d) is xs \<and> v = r + dot is xs"
proof (induction "is" xs arbitrary: r rule: list_induct2)
  case (Cons i "is" x xs)
  obtain d t where x: "x = (d, t)" by (cases x)
  obtain r' where r': "offset_step (i, d, t) r = Inr r'" "foldE offset_step (zip is xs) r' = Inr v"
    using Cons.prems x by auto
  then have "0 \<le> i" "i < d" "r' = r + nat i * nat t"
    by (auto simp: offset_step_def checked_multiply_Inr checked_add_Inr split: if_splits)
  then show ?case using Cons.IH[OF r'(2)] x by (simp add: dot_def)
qed (simp add: dot_def)

lemma dot_rev: "length is = length xs \<Longrightarrow> dot (rev is) (rev xs) = dot is xs"
  by (simp add: dot_def zip_rev rev_map[symmetric] sum_list_rev)

text \<open>
  C24: the two addressings agree. The offset of the row-major coordinates of a logical index is the
  storage offset of that index, for every accepted layout, strided or contiguous.
\<close>

theorem offset_of_coordinates:
  assumes "mk_layout s = Inr l \<or> mk_strided_layout s st = Inr l" and "i < lay_numel l"
  shows "layout_offset l (unravel (lay_shape l) i) = storage_offset l i"
proof -
  have ok: "layout_ok l" using assms(1) mk_layout_ok(1) mk_strided_layout_ok(1) by blast
  note S = storage_offset_Inr[OF ok assms(2)] and pos = positive_dims[OF ok assms(2)]
  let ?z = "zip (lay_shape l) (lay_strides l)" and ?is = "unravel (lay_shape l) i"
  have len: "length (lay_strides l) = lay_rank l" by (rule layout_okD(1)[OF ok])
  have fst: "map fst (rev ?z) = rev (lay_shape l)" using len by (simp add: rev_map[symmetric])
  have dot: "dot ?is ?z = lin (rev ?z) i"
    using dot_unravel[of "rev ?z" i] dot_rev[of "unravel_rev (rev (lay_shape l)) i" "rev ?z"] len
    unfolding fst by (simp add: unravel_def)
  have "\<forall>d \<in> set (rev (lay_shape l)). 0 < d" using pos(2) layout_okD(2)[OF ok] by (metis less_le set_rev)
  from unravel_rev_range[OF this, of i] have "list_all2 (\<lambda>i d. 0 \<le> i \<and> i < d) ?is (lay_shape l)"
    unfolding unravel_def by (simp add: list_all2_rev1)
  then have r: "list_all2 (\<lambda>i (d, t). 0 \<le> i \<and> i < d) ?is ?z" using len by (auto simp: list_all2_conv_all_nth)
  have "0 + dot ?is ?z \<le> size_max" using S(2) layout_okD(5)[OF ok] dot by simp
  from offset_fold[OF r this] show ?thesis using S(1) dot by (simp add: layout_offset_def)
qed

theorem offset_of_coordinates_witness: "layout_offset demo_layout (unravel [3, 2] 4) = storage_offset demo_layout 4"
  using offset_of_coordinates[OF disjI2[OF demo_layout], of 4] by (simp add: demo_layout_def)

lemma length_swap_at [simp]: "length (swap_at i j xs) = length xs"
  by (simp add: swap_at_def)

lemma swap_at_nth:
  "i < length xs \<Longrightarrow> j < length xs \<Longrightarrow> k < length xs \<Longrightarrow>
   swap_at i j xs ! k = (if k = i then xs ! j else if k = j then xs ! i else xs ! k)"
  by (auto simp: swap_at_def nth_list_update)

lemma swap_at_swap_at [simp]: "i < length xs \<Longrightarrow> j < length xs \<Longrightarrow> swap_at i j (swap_at i j xs) = xs"
  by (rule nth_equalityI) (auto simp: swap_at_nth)

lemma swap_at_zip: "length xs = length ys \<Longrightarrow> i < length xs \<Longrightarrow> j < length xs \<Longrightarrow>
   zip (swap_at i j xs) (swap_at i j ys) = swap_at i j (zip xs ys)"
  by (rule nth_equalityI) (auto simp: swap_at_nth)

lemma mset_swap_at: "i < length xs \<Longrightarrow> j < length xs \<Longrightarrow> mset (swap_at i j xs) = mset xs"
  by (simp add: swap_at_def mset_swap)

lemma dot_swap:
  assumes "length is = length xs" and "i < length xs" and "j < length xs"
  shows "dot (swap_at i j is) (swap_at i j xs) = dot is xs"
proof -
  have "mset (zip (swap_at i j is) (swap_at i j xs)) = mset (zip is xs)"
    using assms by (simp add: swap_at_zip mset_swap_at)
  then have "sum_mset (image_mset (\<lambda>(i, d, t). nat i * nat t) (mset (zip (swap_at i j is) (swap_at i j xs)))) =
      sum_mset (image_mset (\<lambda>(i, d, t). nat i * nat t) (mset (zip is xs)))" by simp
  then show ?thesis by (simp add: dot_def flip: mset_map sum_mset_sum_list)
qed

lemma transposed_swaps_offset:
  assumes "layout_ok l" and "transposed l i j = Inr l'" and "layout_offset l idx = Inr v"
  shows "layout_offset l' (swap_at i j idx) = Inr v"
proof -
  note ok = layout_okD[OF assms(1)]
  have ij: "i < lay_rank l" "j < lay_rank l"
    and mk: "mk_strided_layout (swap_at i j (lay_shape l)) (swap_at i j (lay_strides l)) = Inr l'"
    using assms(2) by (auto simp: transposed_def split: if_splits)
  note L = mk_strided_layout_ok[OF mk]
  let ?z = "zip (lay_shape l) (lay_strides l)"
  have len: "length idx = lay_rank l" and f: "foldE offset_step (zip idx ?z) 0 = Inr v"
    using assms(3) by (auto simp: layout_offset_def split: if_splits)
  have z: "zip (lay_shape l') (lay_strides l') = swap_at i j ?z" using L ok(1) ij by (simp add: swap_at_zip)
  note R = offset_fold_Inr[OF _ f]
  then have r: "list_all2 (\<lambda>i (d, t). 0 \<le> i \<and> i < d) idx ?z" "v = dot idx ?z" using len ok(1) by auto
  have r': "list_all2 (\<lambda>i (d, t). 0 \<le> i \<and> i < d) (swap_at i j idx) (swap_at i j ?z)"
    using r(1) len ok(1) ij by (auto simp: list_all2_conv_all_nth swap_at_nth)
  have d: "dot (swap_at i j idx) (swap_at i j ?z) = v" using dot_swap[of idx ?z i j] r(2) len ok(1) ij by simp
  have "v \<le> size_max"
  proof -
    have "dot is xs \<le> reach xs" if "list_all2 (\<lambda>i (d, t). 0 \<le> i \<and> i < d) is xs" for "is" xs
      using that
    proof (induction "is" xs rule: list_all2_induct)
      case (Cons i "is" x xs)
      obtain d t where x: "x = (d, t)" by (cases x)
      have "i \<le> d - 1" using Cons.hyps(1) x by simp
      then have "nat i \<le> nat (d - 1)" by (rule nat_mono)
      then have "nat i * nat t \<le> nat (d - 1) * nat t" by (rule mult_right_mono) simp
      then show ?case using Cons.IH x by (simp add: dot_def add_mono)
    qed (simp add: dot_def)
    from this[OF r(1)] have "v \<le> reach ?z" using r(2) by simp
    moreover have "0 \<notin> set (lay_shape l)"
    proof
      assume "0 \<in> set (lay_shape l)"
      then obtain k where "k < lay_rank l" "lay_shape l ! k = 0" by (auto simp: in_set_conv_nth)
      then show False using r(1) ok(1) len by (auto simp: list_all2_conv_all_nth)
    qed
    ultimately show ?thesis using ok(5,6) by simp
  qed
  then have "foldE offset_step (zip (swap_at i j idx) (swap_at i j ?z)) 0 = Inr v"
    using offset_fold[OF r', of 0] d by simp
  then show ?thesis using z L len ij ok(1) by (simp add: layout_offset_def)
qed

lemma reach_swap:
  assumes "length st = length sh" and "i < length sh" and "j < length sh"
  shows "reach (zip (swap_at i j sh) (swap_at i j st)) = reach (zip sh st)"
proof -
  have "mset (zip (swap_at i j sh) (swap_at i j st)) = mset (zip sh st)"
    using swap_at_zip[of sh st i j] mset_swap_at[of i "zip sh st" j] assms by simp
  from arg_cong[OF this, of "\<lambda>m. sum_mset (image_mset (\<lambda>(d, t). nat (d - 1) * nat t) m)"]
  show ?thesis by (simp add: reach_def flip: mset_map sum_mset_sum_list)
qed

text \<open>The layouts of the program are the ones the strided constructor makes of their shape and strides.\<close>

lemma layout_is_strided:
  assumes "mk_layout s = Inr l \<or> mk_strided_layout s st = Inr l"
  shows "layout_ok l \<and> mk_strided_layout (lay_shape l) (lay_strides l) = Inr l"
  using assms
proof
  assume mk: "mk_layout s = Inr l"
  note M = mk_layout_ok[OF mk] and ok = layout_okD[OF mk_layout_ok(1)[OF mk]]
  have c: "make_contiguous_strides s = Inr (lay_strides l)" using mk by (auto simp: mk_layout_def)
  have len: "length s = length (lay_strides l)" using ok(1) M(2) by simp
  have "mk_strided_layout s (lay_strides l) = Inr l"
    by (subst mk_strided_layout_total) (use ok M(2,3) c len in auto)
  then show ?thesis using M by simp
qed (use mk_strided_layout_ok in auto)

lemma transposed_total:
  assumes ok: "layout_ok l" and ij: "i < lay_rank l" "j < lay_rank l"
  shows "transposed l i j = bindE (make_contiguous_strides (swap_at i j (lay_shape l)))
    (\<lambda>c. Inr (l\<lparr>lay_shape := swap_at i j (lay_shape l), lay_strides := swap_at i j (lay_strides l),
       lay_contiguous := swap_at i j (lay_strides l) = c\<rparr>))"
proof -
  let ?s = "swap_at i j (lay_shape l)" and ?st = "swap_at i j (lay_strides l)"
  note O = layout_okD[OF ok]
  have st_ij: "i < length (lay_strides l)" "j < length (lay_strides l)" using ij O(1) by simp_all
  have set: "set ?s = set (lay_shape l)" "set ?st = set (lay_strides l)"
    using arg_cong[OF mset_swap_at[OF ij], of set_mset] arg_cong[OF mset_swap_at[OF st_ij], of set_mset] by simp_all
  have prod: "prodn ?s = prodn (lay_shape l)"
    using arg_cong[OF mset_swap_at[OF ij], of "\<lambda>m. prod_mset (image_mset nat m)"]
    by (simp add: prodn_def flip: mset_map prod_mset_prod_list)
  have reach: "reach (zip ?s ?st) = reach (zip (lay_shape l) (lay_strides l))" using reach_swap[OF O(1)] ij by simp
  have "mk_strided_layout ?s ?st = bindE (make_contiguous_strides ?s) (\<lambda>c. Inr \<lparr>lay_shape = ?s, lay_strides = ?st,
      lay_numel = prodn ?s, lay_storage_span = (if 0 \<in> set ?s then 0 else reach (zip ?s ?st) + 1), lay_contiguous = (?st = c)\<rparr>)"
    by (rule mk_strided_layout_total) (use O set prod reach in \<open>auto split: if_splits\<close>)
  also have "\<dots> = bindE (make_contiguous_strides ?s) (\<lambda>c. Inr (l\<lparr>lay_shape := ?s, lay_strides := ?st, lay_contiguous := ?st = c\<rparr>))"
  proof (intro bindE_cong refl)
    fix c
    have "prodn ?s = lay_numel l" "(if 0 \<in> set ?s then 0 else reach (zip ?s ?st) + 1) = lay_storage_span l"
      using O(3,6) set(1) prod reach by simp_all
    then show "Inr \<lparr>lay_shape = ?s, lay_strides = ?st, lay_numel = prodn ?s,
        lay_storage_span = (if 0 \<in> set ?s then 0 else reach (zip ?s ?st) + 1), lay_contiguous = (?st = c)\<rparr> =
      (Inr (l\<lparr>lay_shape := ?s, lay_strides := ?st, lay_contiguous := ?st = c\<rparr>) :: tensor_layout result)"
      by (cases l) simp
  qed
  finally show ?thesis using ij by (simp add: transposed_def)
qed

text \<open>
  C25: transposing is a relabelling of coordinates, and an involution. For dimensions in range, transposing a
  layout of the program can fail only where the contiguous strides of the transposed shape overflow; otherwise
  transposing the result again gives exactly the layout back, and the offset of coordinates in the one layout is
  the offset of the swapped coordinates in the other.
\<close>

theorem transposed_offset:
  assumes "mk_layout s = Inr l \<or> mk_strided_layout s st = Inr l" and "i < lay_rank l" and "j < lay_rank l"
  shows "case transposed l i j of
      Inl e \<Rightarrow> make_contiguous_strides (swap_at i j (lay_shape l)) = Inl e
    | Inr l' \<Rightarrow> transposed l' i j = Inr l \<and>
        (\<forall>idx v. length idx = lay_rank l \<longrightarrow> (layout_offset l' (swap_at i j idx) = Inr v \<longleftrightarrow> layout_offset l idx = Inr v))"
proof (cases "transposed l i j")
  case (Inl e)
  then show ?thesis using transposed_total layout_is_strided[OF assms(1)] assms(2,3) by (auto simp: bindE_eq_Inl)
next
  case (Inr l')
  have L: "layout_ok l" "mk_strided_layout (lay_shape l) (lay_strides l) = Inr l" using layout_is_strided[OF assms(1)] by blast+
  have mk: "mk_strided_layout (swap_at i j (lay_shape l)) (swap_at i j (lay_strides l)) = Inr l'"
    using Inr assms(2,3) by (simp add: transposed_def)
  note L' = mk_strided_layout_ok[OF mk]
  have again: "transposed l' i j = Inr l" using L L' assms(2,3) layout_okD(1)[OF L(1)] by (simp add: transposed_def)
  have "layout_offset l idx = Inr v" if "layout_offset l' (swap_at i j idx) = Inr v" "length idx = lay_rank l" for idx v
    using transposed_swaps_offset[OF L'(1) again that(1)] that(2) assms(2,3) by simp
  then have "layout_offset l' (swap_at i j idx) = Inr v \<longleftrightarrow> layout_offset l idx = Inr v" if "length idx = lay_rank l" for idx v
    using transposed_swaps_offset[OF L(1) Inr] that by blast
  then show ?thesis unfolding Inr sum.case using again by blast
qed

theorem transposed_offset_witness:
  "\<exists>l'. transposed demo_layout 0 1 = Inr l' \<and> transposed l' 0 1 = Inr demo_layout \<and> layout_offset l' [1, 2] = Inr 5"
proof -
  have c: "make_contiguous_strides [2, 3] = Inr [3, 1]"
    by (simp add: make_contiguous_strides_def checked_multiply_def size_max_def int64_max_def)
  have o: "layout_offset demo_layout [2, 1] = Inr 5"
    by (simp add: layout_offset_def demo_layout_def offset_step_def checked_multiply_def checked_add_def size_max_def)
  have r: "0 < lay_rank demo_layout" "1 < lay_rank demo_layout" by (simp_all add: demo_layout_def)
  note P = transposed_offset[OF disjI2[OF demo_layout] r]
  show ?thesis
  proof (cases "transposed demo_layout 0 1")
    case (Inl e)
    have w: "swap_at 0 1 (lay_shape demo_layout) = [2, 3]" by (simp add: demo_layout_def swap_at_def)
    show ?thesis using P[unfolded Inl sum.case w c] by blast
  next
    case (Inr l')
    have w: "swap_at 0 1 [2, 1] = [1, 2 :: int]" "length [2, 1 :: int] = lay_rank demo_layout" by (simp_all add: swap_at_def demo_layout_def)
    have "layout_offset l' (swap_at 0 1 [2, 1]) = Inr 5" using P[unfolded Inr sum.case] o w(2) by blast
    then show ?thesis using P[unfolded Inr sum.case] Inr unfolding w(1) by blast
  qed
qed

section \<open>Layouts without overlap\<close>

text \<open>Coordinates within the extents, and layouts that give different coordinates different offsets.\<close>

abbreviation inside :: "int list \<Rightarrow> (int \<times> int) list \<Rightarrow> bool" where
  "inside is xs \<equiv> list_all2 (\<lambda>i (d, t). 0 \<le> i \<and> i < d) is xs"

definition separated :: "tensor_layout \<Rightarrow> bool" where
  "separated l \<longleftrightarrow> inj_on (\<lambda>is. dot is (zip (lay_shape l) (lay_strides l))) {is. inside is (zip (lay_shape l) (lay_strides l))}"

lemma dot_Cons [simp]: "dot (i # is) ((d, t) # xs) = nat i * nat t + dot is xs"
  by (simp add: dot_def)

lemma dot_contiguous_less: "inside is (zip s (map int (cstrides s))) \<Longrightarrow> dot is (zip s (map int (cstrides s))) < prodn s"
proof (induction s arbitrary: "is")
  case (Cons d ds)
  obtain i js where "is": "is = i # js" "0 \<le> i" "i < d" "inside js (zip ds (map int (cstrides ds)))"
    using Cons.prems by (auto simp: list_all2_Cons2)
  have "Suc (nat i) * prodn ds \<le> nat d * prodn ds" using "is"(2,3) by (intro mult_le_mono1) linarith
  then show ?case using Cons.IH[OF "is"(4)] "is"(1) by simp
qed (simp add: dot_def)

lemma dot_contiguous_inj:
  "inside is (zip s (map int (cstrides s))) \<Longrightarrow> inside js (zip s (map int (cstrides s))) \<Longrightarrow>
   dot is (zip s (map int (cstrides s))) = dot js (zip s (map int (cstrides s))) \<Longrightarrow> is = js"
proof (induction s arbitrary: "is" js)
  case (Cons d ds)
  let ?z = "zip ds (map int (cstrides ds))"
  obtain i is' where i: "is = i # is'" "0 \<le> i" "inside is' ?z" using Cons.prems(1) by (auto simp: list_all2_Cons2)
  obtain j js' where j: "js = j # js'" "0 \<le> j" "inside js' ?z" using Cons.prems(2) by (auto simp: list_all2_Cons2)
  note less = dot_contiguous_less[OF i(3)] dot_contiguous_less[OF j(3)]
  have eq: "nat i * prodn ds + dot is' ?z = nat j * prodn ds + dot js' ?z" using Cons.prems(3) i(1) j(1) by simp
  have "nat i = nat j" using arg_cong[OF eq, of "\<lambda>x. x div prodn ds"] less by simp
  moreover have "dot is' ?z = dot js' ?z" using arg_cong[OF eq, of "\<lambda>x. x mod prodn ds"] less by simp
  ultimately show ?case using Cons.IH[OF i(3) j(3)] i(1,2) j(1,2) by simp
qed simp

lemma separated_contiguous: "layout_ok l \<Longrightarrow> lay_contiguous l \<Longrightarrow> separated l"
  using dot_contiguous_inj layout_okD(7) unfolding separated_def inj_on_def by fastforce

text \<open>A layout without overlap has room for all its elements.\<close>

lemma unravel_inside:
  assumes "length st = length s" and "\<forall>d \<in> set s. 0 < d"
  shows "inside (unravel s i) (zip s st)" "dot (unravel s i) (zip s st) = lin (rev (zip s st)) i"
proof -
  have fst: "map fst (rev (zip s st)) = rev s" using assms(1) by (simp add: rev_map[symmetric])
  show "dot (unravel s i) (zip s st) = lin (rev (zip s st)) i"
    using dot_unravel[of "rev (zip s st)" i] dot_rev[of "unravel_rev (rev s) i" "rev (zip s st)"] assms(1)
    unfolding fst by (simp add: unravel_def)
  have "list_all2 (\<lambda>i d. 0 \<le> i \<and> i < d) (unravel_rev (rev s) i) (rev s)" by (rule unravel_rev_range) (use assms(2) in simp)
  then have "list_all2 (\<lambda>i d. 0 \<le> i \<and> i < d) (unravel s i) s" unfolding unravel_def by (simp add: list_all2_rev1)
  then show "inside (unravel s i) (zip s st)" using assms(1) by (auto simp: list_all2_conv_all_nth)
qed

lemma separated_span:
  assumes ok: "layout_ok l" and sep: "separated l"
  shows "lay_numel l \<le> lay_storage_span l"
proof -
  let ?s = "lay_shape l" and ?z = "zip (lay_shape l) (lay_strides l)" and ?n = "lay_numel l"
  have dims: "\<forall>d \<in> set ?s. 0 < d" if "0 < ?n" using positive_dims(2)[OF ok that] layout_okD(2)[OF ok] by (metis less_le)
  have "inj_on (\<lambda>i. dot (unravel ?s i) ?z) {..<?n}"
  proof (rule inj_onI)
    fix i j assume ij: "i \<in> {..<?n}" "j \<in> {..<?n}" and eq: "dot (unravel ?s i) ?z = dot (unravel ?s j) ?z"
    then have pos: "\<forall>d \<in> set ?s. 0 < d" using dims by auto
    have "inside (unravel ?s i) ?z" "inside (unravel ?s j) ?z" by (rule unravel_inside(1)[OF layout_okD(1)[OF ok] pos])+
    then have u: "unravel ?s i = unravel ?s j" using sep eq unfolding separated_def by (auto dest: inj_onD)
    have "k = dot (unravel ?s k) (zip ?s (map int (cstrides ?s)))" if "k < ?n" for k
      using unravel_inside(2)[OF _ pos, of "map int (cstrides ?s)" k] lin_contiguous[of k ?s 1] that layout_okD(3)[OF ok]
      by (simp add: comp_def)
    then show "i = j" using ij u by (metis lessThan_iff)
  qed
  moreover have "(\<lambda>i. dot (unravel ?s i) ?z) ` {..<?n} \<subseteq> {..<lay_storage_span l}"
  proof (rule image_subsetI, unfold lessThan_iff)
    fix i assume i: "i < ?n"
    then have "\<forall>d \<in> set ?s. 0 < d" using dims by auto
    from unravel_inside(2)[OF layout_okD(1)[OF ok] this, of i] show "dot (unravel ?s i) ?z < lay_storage_span l"
      using storage_offset_Inr(2)[OF ok i] by simp
  qed
  ultimately show ?thesis using card_inj_on_le[of "\<lambda>i. dot (unravel ?s i) ?z" "{..<?n}" "{..<lay_storage_span l}"] by simp
qed

lemma separated_transposed:
  assumes sep: "separated l" and ij: "i < lay_rank l" "j < lay_rank l" and len: "length (lay_strides l) = lay_rank l"
    and l': "lay_shape l' = swap_at i j (lay_shape l)" "lay_strides l' = swap_at i j (lay_strides l)"
  shows "separated l'"
proof -
  let ?z = "zip (lay_shape l) (lay_strides l)"
  have z: "zip (lay_shape l') (lay_strides l') = swap_at i j ?z" using l' ij len by (simp add: swap_at_zip)
  have n: "length ?z = lay_rank l" using len by simp
  have unswap: "inside (swap_at i j is) ?z \<and> dot (swap_at i j is) ?z = dot is (swap_at i j ?z) \<and> length is = lay_rank l"
    if "inside is (swap_at i j ?z)" for "is"
  proof -
    have m: "length is = lay_rank l" using list_all2_lengthD[OF that] n by simp
    have "inside (swap_at i j is) (swap_at i j (swap_at i j ?z))"
      using that m n ij by (auto simp: list_all2_conv_all_nth swap_at_nth)
    moreover have "dot (swap_at i j is) (swap_at i j (swap_at i j ?z)) = dot is (swap_at i j ?z)"
      by (rule dot_swap) (use m n ij in simp_all)
    ultimately show ?thesis using m n ij by simp
  qed
  show ?thesis unfolding separated_def z
  proof (rule inj_onI, unfold mem_Collect_eq)
    fix "is" js assume a: "inside is (swap_at i j ?z)" "inside js (swap_at i j ?z)" "dot is (swap_at i j ?z) = dot js (swap_at i j ?z)"
    then have "swap_at i j is = swap_at i j js"
      using sep unswap[OF a(1)] unswap[OF a(2)] unfolding separated_def inj_on_def by simp
    then have "swap_at i j (swap_at i j is) = swap_at i j (swap_at i j js)" by simp
    then show "is = js" using unswap[OF a(1)] unswap[OF a(2)] ij by simp
  qed
qed

section \<open>Reshaping\<close>

lemma reshape_fold:
  assumes "foldE reshape_step (enumerate k ds) s = Inr s'" and "rh_has_zero s \<longrightarrow> rh_known s = 0"
  shows "rh_known s' = rh_known s * prodn (filter (\<lambda>d. d \<noteq> -1) ds) \<and> (\<forall>d \<in> set ds. -1 \<le> d) \<and>
    (case rh_inferred s of
       Some j \<Rightarrow> -1 \<notin> set ds \<and> rh_inferred s' = Some j
     | None \<Rightarrow> if -1 \<in> set ds
         then \<exists>as bs. ds = as @ (-1) # bs \<and> -1 \<notin> set (as @ bs) \<and> rh_inferred s' = Some (k + length as)
         else rh_inferred s' = None)"
  using assms
proof (induction ds arbitrary: k s)
  case Nil
  then show ?case by (simp split: option.splits)
next
  case (Cons d ds)
  obtain t where t: "reshape_step (k, d) s = Inr t" "foldE reshape_step (enumerate (Suc k) ds) t = Inr s'"
    using Cons.prems(1) by auto
  consider "d = -1" "rh_inferred s = None" "t = s\<lparr>rh_inferred := Some k\<rparr>"
    | "0 \<le> d" "rh_inferred t = rh_inferred s" "rh_known t = rh_known s * nat d" "rh_has_zero t \<longrightarrow> rh_known t = 0"
    using t(1) Cons.prems(2) by (auto simp: reshape_step_def checked_multiply_Inr split: if_splits)
  then show ?case
  proof cases
    case 1
    then have "rh_has_zero t \<longrightarrow> rh_known t = 0" using Cons.prems(2) by simp
    from Cons.IH[OF t(2) this] show ?thesis using 1 by (auto intro!: exI[of _ "[]"])
  next
    case 2
    note IH = Cons.IH[OF t(2) 2(4)]
    have "\<exists>as bs. d # ds = as @ (-1) # bs \<and> -1 \<notin> set (as @ bs) \<and> rh_inferred s' = Some (k + length as)"
      if m: "-1 \<in> set ds" "rh_inferred s = None"
    proof -
      obtain as bs where "ds = as @ (-1) # bs" "-1 \<notin> set (as @ bs)" "rh_inferred s' = Some (Suc k + length as)"
        using IH 2(2) m by auto
      then show ?thesis using 2(1) by (intro exI[of _ "d # as"] exI[of _ bs]) auto
    qed
    then show ?thesis using IH 2 by (auto split: option.splits if_splits)
  qed
qed

lemma reshape_facts:
  assumes "resolve_reshape_shape sh n = Inr sh'"
  shows "length sh' = length sh \<and> (\<forall>d \<in> set sh'. 0 \<le> d) \<and> prodn sh' = n \<and>
    (\<forall>k < length sh. sh ! k \<noteq> -1 \<longrightarrow> sh' ! k = sh ! k) \<and> length (filter (\<lambda>d. d = -1) sh) \<le> 1"
proof -
  let ?s0 = "\<lparr>rh_known = 1, rh_inferred = None, rh_has_zero = False\<rparr>"
  obtain s where f: "foldE reshape_step (enumerate 0 sh) ?s0 = Inr s"
    using assms by (auto simp: resolve_reshape_shape_def)
  note F = reshape_fold[OF f, simplified]
  show ?thesis
  proof (cases "-1 \<in> set sh")
    case False
    have no: "filter (\<lambda>d. d \<noteq> -1) sh = sh" "filter (\<lambda>d. d = -1) sh = []"
      using False by (auto simp: filter_id_conv filter_empty_conv)
    have "sh' = sh" "rh_known s = n" using assms f F False by (auto simp: resolve_reshape_shape_def split: if_splits)
    moreover have "0 \<le> d" if "d \<in> set sh" for d
    proof -
      have "-1 \<le> d" "d \<noteq> -1" using F that False by auto
      then show ?thesis by simp
    qed
    ultimately show ?thesis using F no by simp
  next
    case True
    then obtain as bs where ab: "sh = as @ (-1) # bs" "-1 \<notin> set (as @ bs)" "rh_inferred s = Some (length as)"
      using F by auto
    define q where "q = n div rh_known s"
    have q: "rh_known s \<noteq> 0" "rh_known s * q = n" "sh' = sh[length as := int q]"
      using assms f ab(3) by (auto simp: resolve_reshape_shape_def Let_def q_def checked_multiply_Inr split: if_splits)
    have no: "filter (\<lambda>d. d \<noteq> -1) as = as" "filter (\<lambda>d. d \<noteq> -1) bs = bs"
      "filter (\<lambda>d. d = -1) as = []" "filter (\<lambda>d. d = -1) bs = []"
      using ab(2) by (auto simp: filter_id_conv filter_empty_conv)
    have sh': "sh' = as @ int q # bs" by (simp add: q(3) ab(1))
    have "rh_known s = prodn (as @ bs)" using F no ab(1) by simp
    then have "prodn sh' = n" using q(2) sh' by (simp add: ac_simps)
    moreover have "0 \<le> d" if "d \<in> set (as @ bs)" for d
    proof -
      have "-1 \<le> d" "d \<noteq> -1" using F that ab by auto
      then show ?thesis by simp
    qed
    moreover have "sh' ! k = sh ! k" if "k < length sh" "sh ! k \<noteq> -1" for k
    proof -
      have "k \<noteq> length as" using that(2) ab(1) by auto
      then show ?thesis unfolding q(3) by simp
    qed
    ultimately show ?thesis using sh' ab(1) no by auto
  qed
qed

text \<open>
  The failure is reached: an empty tensor of shape \<open>[2^40, 2^40, 0]\<close> is accepted, but transposing its first and
  last dimension throws \<open>overflow_error\<close>, because the contiguous strides of the transposed shape are computed
  without looking for the empty dimension.
\<close>

lemma transpose_empty_overflows:
  "\<exists>l. mk_layout [2 ^ 40, 2 ^ 40, 0] = Inr l \<and> lay_numel l = 0 \<and>
     transposed l 0 2 = Inl (Overflow_error ''contiguous stride overflows size_t'')"
proof -
  let ?l = "\<lparr>lay_shape = [1099511627776, 1099511627776, 0], lay_strides = [0, 0, 1], lay_numel = 0,
      lay_storage_span = 0, lay_contiguous = True\<rparr>"
  have st: "make_contiguous_strides [1099511627776, 1099511627776, 0] = Inr [0, 0, 1]"
    and st': "make_contiguous_strides [0, 1099511627776, 1099511627776] =
      Inl (Overflow_error ''contiguous stride overflows size_t'')"
    by (simp_all add: make_contiguous_strides_def checked_multiply_def size_max_def int64_max_def)
  have "mk_layout [2 ^ 40, 2 ^ 40, 0] = Inr ?l"
    by (simp add: mk_layout_def validate_shape_def checked_numel_def st)
  moreover have "transposed ?l 0 2 = Inl (Overflow_error ''contiguous stride overflows size_t'')"
    by (simp add: transposed_def swap_at_def mk_strided_layout_def validate_shape_def checked_numel_def
        checked_storage_span_def st')
  ultimately show ?thesis by (intro exI[of _ ?l]) simp
qed

end
