(* ===== verification/Tensor_Iterator.thy ===== *)
theory Tensor_Iterator
  imports Tensor_Layout
begin

text \<open>
  The broadcasting iterator of \<^verbatim>\<open>src/core/tensor_iterator.cpp\<close>: the common shape of its operands, the
  strides with which each operand follows it, and the coalesced dimensions over which kernels run.
  The main result is that coalescing never changes an offset.
\<close>

section \<open>Definitions\<close>

record tensor_iterator =
  it_shape :: shape
  it_numel :: nat
  it_operand_strides :: "strides list"
  it_iteration_shape :: shape
  it_iteration_strides :: "strides list"
  it_contiguous :: "bool list"

abbreviation broadcast_error :: exn where
  "broadcast_error \<equiv> Invalid_argument ''TensorIterator operands cannot be broadcast together''"

text \<open>One operand dimension meets one result dimension.\<close>

definition broadcast_extent :: "int \<Rightarrow> int \<Rightarrow> int result" where
  "broadcast_extent result_extent operand_extent =
     (if result_extent = 1 then Inr operand_extent
      else if operand_extent \<noteq> 1 \<and> operand_extent \<noteq> result_extent then Inl broadcast_error
      else Inr result_extent)"

definition broadcast_operand :: "tensor_layout \<Rightarrow> shape \<Rightarrow> shape result" where
  "broadcast_operand l result =
     (let leading = length result - lay_rank l in
      bindE (mapE (\<lambda>(r, d). broadcast_extent r d) (zip (drop leading result) (lay_shape l)))
        (\<lambda>tail. Inr (take leading result @ tail)))"

definition broadcast_shape :: "tensor_layout list \<Rightarrow> shape result" where
  "broadcast_shape operands =
     (let rank = foldl (\<lambda>r l. if lay_rank l > r then lay_rank l else r) 0 operands in
      foldE broadcast_operand operands (replicate rank 1))"

definition broadcast_stride :: "int \<times> int \<times> int \<Rightarrow> int result" where
  "broadcast_stride x = (case x of (out, d, t) \<Rightarrow>
     if d = out then Inr t else if d \<noteq> 1 then Inl broadcast_error else Inr 0)"

definition broadcast_strides :: "shape \<Rightarrow> tensor_layout \<Rightarrow> strides result" where
  "broadcast_strides output l =
     (let leading = length output - lay_rank l in
      bindE (mapE broadcast_stride (zip (drop leading output) (zip (lay_shape l) (lay_strides l))))
        (\<lambda>tail. Inr (replicate leading 0 @ tail)))"

text \<open>Coalescing: first the dimensions of extent one go, then adjacent dimensions are merged.\<close>

definition erase_at :: "nat \<Rightarrow> 'a list \<Rightarrow> 'a list" where
  "erase_at k xs = take k xs @ drop (Suc k) xs"

fun erase_units :: "nat \<Rightarrow> shape \<Rightarrow> strides list \<Rightarrow> shape \<times> strides list" where
  "erase_units 0 sh sts = (sh, sts)"
| "erase_units (Suc k) sh sts =
     (if sh ! k \<noteq> 1 then erase_units k sh sts
      else erase_units k (erase_at k sh) (map (erase_at k) sts))"

text \<open>Whether dimension \<open>k\<close> (inner) merges into dimension \<open>k - 1\<close> (outer).\<close>

definition stride_merges :: "nat \<Rightarrow> nat \<Rightarrow> strides \<Rightarrow> bool" where
  "stride_merges k inner_extent st \<longleftrightarrow>
     (let inner = nat (st ! k); outer = nat (st ! (k - 1)) in
      \<not> (inner \<noteq> 0 \<and> inner_extent > size_max div inner) \<and> outer = wrap64 (inner * inner_extent))"

definition mergeable :: "nat \<Rightarrow> shape \<Rightarrow> strides list \<Rightarrow> bool" where
  "mergeable k sh sts \<longleftrightarrow>
     (let inner = nat (sh ! k); outer = nat (sh ! (k - 1)) in
      list_all (stride_merges k inner) sts \<and> \<not> (inner \<noteq> 0 \<and> outer > nat int64_max div inner))"

definition merge_shape :: "nat \<Rightarrow> shape \<Rightarrow> shape" where
  "merge_shape k sh = erase_at k (sh[k - 1 := int (nat (sh ! (k - 1)) * nat (sh ! k))])"

definition merge_strides :: "nat \<Rightarrow> strides \<Rightarrow> strides" where
  "merge_strides k st = erase_at k (st[k - 1 := st ! k])"

function merge_loop :: "nat \<Rightarrow> shape \<Rightarrow> strides list \<Rightarrow> shape \<times> strides list" where
  "merge_loop inner sh sts =
     (if inner \<le> 1 \<or> inner > length sh then (sh, sts)
      else if mergeable (inner - 1) sh sts
      then merge_loop (length sh - 1) (merge_shape (inner - 1) sh) (map (merge_strides (inner - 1)) sts)
      else merge_loop (inner - 1) sh sts)"
  by pat_completeness auto
termination
  by (relation "measures [\<lambda>(_, sh, _). length sh, \<lambda>(inner, _, _). inner]")
    (auto simp: merge_shape_def erase_at_def)

declare merge_loop.simps [simp del]

definition coalesce_dimensions :: "shape \<Rightarrow> strides list \<Rightarrow> shape \<times> strides list" where
  "coalesce_dimensions sh sts =
     (case erase_units (length sh) sh sts of (sh1, sts1) \<Rightarrow>
        if sh1 = [] then ([1], map (\<lambda>st. st @ [0]) sts1)
        else merge_loop (length sh1) sh1 sts1)"

text \<open>The contiguity test of one operand, from the last dimension.\<close>

fun dense_loop :: "(int \<times> int) list \<Rightarrow> nat \<Rightarrow> bool" where
  "dense_loop [] expected = True"
| "dense_loop ((d, t) # xs) expected =
     (if nat d \<le> 1 then dense_loop xs expected
      else nat t = expected \<and> dense_loop xs (wrap64 (expected * nat d)))"

definition detect_contiguous :: "shape \<Rightarrow> nat \<Rightarrow> strides list \<Rightarrow> bool list" where
  "detect_contiguous sh n sts = map (\<lambda>st. n = 0 \<or> dense_loop (rev (zip sh st)) 1) sts"

definition mk_iterator :: "tensor_layout list \<Rightarrow> tensor_iterator result" where
  "mk_iterator operands =
     (if operands = [] then Inl (Invalid_argument ''TensorIterator requires at least one operand'')
      else bindE (broadcast_shape operands) (\<lambda>sh. bindE (mk_layout sh) (\<lambda>l.
           bindE (mapE (broadcast_strides sh) operands) (\<lambda>sts.
           case coalesce_dimensions sh sts of (ish, ists) \<Rightarrow>
           Inr \<lparr>it_shape = sh, it_numel = lay_numel l, it_operand_strides = sts,
                it_iteration_shape = ish, it_iteration_strides = ists,
                it_contiguous = detect_contiguous sh (lay_numel l) sts\<rparr>))))"

abbreviation operand_error :: exn where
  "operand_error \<equiv> Out_of_range ''TensorIterator operand is out of range''"

definition operand_strides :: "tensor_iterator \<Rightarrow> nat \<Rightarrow> strides result" where
  "operand_strides it k = (if k \<ge> length (it_operand_strides it) then Inl operand_error else Inr (it_operand_strides it ! k))"

definition iteration_strides :: "tensor_iterator \<Rightarrow> nat \<Rightarrow> strides result" where
  "iteration_strides it k = (if k \<ge> length (it_operand_strides it) then Inl operand_error else Inr (it_iteration_strides it ! k))"

definition operand_is_contiguous :: "tensor_iterator \<Rightarrow> nat \<Rightarrow> bool result" where
  "operand_is_contiguous it k = (if k \<ge> length (it_operand_strides it) then Inl operand_error else Inr (it_contiguous it ! k))"

definition has_contiguous_fast_path :: "tensor_iterator \<Rightarrow> bool" where
  "has_contiguous_fast_path it \<longleftrightarrow> length (filter id (it_contiguous it)) = length (it_operand_strides it)"

fun offset_loop :: "(int \<times> int) list \<Rightarrow> nat \<Rightarrow> nat \<Rightarrow> nat" where
  "offset_loop [] w r = r"
| "offset_loop ((d, t) # xs) w r = offset_loop xs (w div nat d) (wrap64 (r + wrap64 ((w mod nat d) * nat t)))"

definition operand_offset :: "tensor_iterator \<Rightarrow> nat \<Rightarrow> nat \<Rightarrow> nat result" where
  "operand_offset it k i =
     bindE (iteration_strides it k) (\<lambda>st.
       if i \<ge> it_numel it then Inl (Out_of_range ''TensorIterator logical index is out of range'')
       else Inr (offset_loop (rev (zip (it_iteration_shape it) st)) i 0))"

section \<open>Coalescing keeps offsets\<close>

text \<open>\<open>lin\<close> of a dimension list in storage order: the last dimension is the fastest.\<close>

definition linear :: "shape \<Rightarrow> strides \<Rightarrow> nat \<Rightarrow> nat" where
  "linear sh st i = lin (rev (zip sh st)) i"

lemma lin_append: "lin (xs @ ys) w = lin xs w + lin ys (w div prodn (map fst xs))"
  by (induction xs arbitrary: w) (auto simp: div_mult2_eq)

lemma lin_unit: "lin (xs @ (1, t) # ys) w = lin (xs @ ys) w"
  by (simp add: lin_append)

lemma lin_merge:
  "lin (xs @ (di, t) # (do, int (nat t * nat di)) # ys) w = lin (xs @ (int (nat do * nat di), t) # ys) w"
proof -
  let ?v = "w div prodn (map fst xs)"
  have "?v mod nat di * nat t + (?v div nat di mod nat do) * (nat t * nat di) = (?v mod (nat do * nat di)) * nat t"
  proof -
    have e: "?v mod (nat di * nat do) = nat di * (?v div nat di mod nat do) + ?v mod nat di" by (rule mod_mult2_eq)
    show ?thesis unfolding mult.commute[of "nat do"] e by (simp add: algebra_simps)
  qed
  moreover have "?v div nat di div nat do = ?v div (nat do * nat di)"
    by (metis div_mult2_eq mult.commute)
  ultimately show ?thesis unfolding lin_append lin.simps nat_int by simp
qed

text \<open>Erasing and merging in the middle of the lists.\<close>

lemma split_at: "k < length xs \<Longrightarrow> xs = take k xs @ xs ! k # drop (Suc k) xs"
  by (rule id_take_nth_drop)

lemma linear_erase:
  assumes "k < length sh" and "length st = length sh" and "sh ! k = 1"
  shows "linear (erase_at k sh) (erase_at k st) i = linear sh st i"
proof -
  have "zip sh st = zip (take k sh) (take k st) @ (1, st ! k) # zip (drop (Suc k) sh) (drop (Suc k) st)"
    using assms by (subst split_at[of k sh], simp, subst split_at[of k st], simp) simp
  moreover have "zip (erase_at k sh) (erase_at k st) = zip (take k sh) (take k st) @ zip (drop (Suc k) sh) (drop (Suc k) st)"
    using assms by (simp add: erase_at_def)
  ultimately show ?thesis by (simp add: linear_def lin_unit)
qed

lemma length_erase_at [simp]: "k < length xs \<Longrightarrow> length (erase_at k xs) = length xs - 1"
  by (simp add: erase_at_def)

lemma linear_merge:
  assumes k: "0 < k" "k < length sh" and st: "length st = length sh" and m: "nat (st ! (k - 1)) = nat (st ! k) * nat (sh ! k)"
    and pos: "0 \<le> st ! (k - 1)"
  shows "linear (merge_shape k sh) (merge_strides k st) i = linear sh st i"
proof -
  obtain j where j: "k = Suc j" using k(1) by (cases k) auto
  let ?a = "zip (take j sh) (take j st)" and ?b = "zip (drop (Suc k) sh) (drop (Suc k) st)"
  have sh: "sh = take j sh @ sh ! j # sh ! k # drop (Suc k) sh" and stq: "st = take j st @ st ! j # st ! k # drop (Suc k) st"
    using k st j by (metis Cons_nth_drop_Suc Suc_lessD id_take_nth_drop)+
  have z: "zip sh st = ?a @ (sh ! j, st ! j) # (sh ! k, st ! k) # ?b"
    using k st j by (subst sh, subst stq) simp
  have z': "zip (merge_shape k sh) (merge_strides k st) = ?a @ (int (nat (sh ! j) * nat (sh ! k)), st ! k) # ?b"
    using k st j by (simp add: merge_shape_def merge_strides_def erase_at_def take_Suc_conv_app_nth)
  have "st ! j = int (nat (st ! k) * nat (sh ! k))" using m pos j by (metis diff_Suc_1 int_nat_eq)
  then show ?thesis using lin_merge[of "rev ?b" "sh ! k" "st ! k" "sh ! j" "rev ?a" i]
    by (simp add: linear_def z z')
qed

definition dims_ok :: "shape \<Rightarrow> strides list \<Rightarrow> bool" where
  "dims_ok sh sts \<longleftrightarrow> (\<forall>d \<in> set sh. 0 \<le> d) \<and> (\<forall>st \<in> set sts. length st = length sh \<and> (\<forall>t \<in> set st. 0 \<le> t))"

lemma set_erase_at: "set (erase_at k xs) \<subseteq> set xs"
  by (auto simp: erase_at_def dest: in_set_takeD in_set_dropD)

lemma dims_ok_erase: "dims_ok sh sts \<Longrightarrow> k < length sh \<Longrightarrow> dims_ok (erase_at k sh) (map (erase_at k) sts)"
  using set_erase_at by (fastforce simp: dims_ok_def)

lemma erase_units_ok:
  assumes "dims_ok sh sts" and "k \<le> length sh" and "erase_units k sh sts = (sh', sts')"
  shows "dims_ok sh' sts' \<and> length sts' = length sts \<and>
    (\<forall>j < length sts. \<forall>i. linear sh' (sts' ! j) i = linear sh (sts ! j) i)"
  using assms
proof (induction k arbitrary: sh sts)
  case (Suc k)
  show ?case
  proof (cases "sh ! k = 1")
    case True
    let ?sh = "erase_at k sh" and ?sts = "map (erase_at k) sts"
    have "dims_ok ?sh ?sts" using dims_ok_erase Suc.prems(1,2) by simp
    moreover have "k \<le> length ?sh" using Suc.prems(2) by simp
    moreover have "erase_units k ?sh ?sts = (sh', sts')" using Suc.prems(3) True by simp
    ultimately have IH: "dims_ok sh' sts' \<and> length sts' = length ?sts \<and>
      (\<forall>j < length ?sts. \<forall>i. linear sh' (sts' ! j) i = linear ?sh (?sts ! j) i)" by (rule Suc.IH)
    moreover have "linear ?sh (?sts ! j) i = linear sh (sts ! j) i" if "j < length sts" for i j
      using linear_erase[of k sh "sts ! j" i] that True Suc.prems(1,2) by (simp add: dims_ok_def)
    ultimately show ?thesis by simp
  next
    case False
    then show ?thesis using Suc.IH[of sh sts] Suc.prems by simp
  qed
qed simp

lemma wrap64_mult: "\<not> (a \<noteq> 0 \<and> b > size_max div a) \<Longrightarrow> wrap64 (a * b) = a * b"
  using checked_multiply_Inr[of a b "[]" "a * b"] by (auto simp: checked_multiply_def)

lemma dims_ok_merge:
  assumes "dims_ok sh sts" and "0 < k" and "k < length sh"
  shows "dims_ok (merge_shape k sh) (map (merge_strides k) sts)"
proof -
  have "0 \<le> d" if "d \<in> set (merge_shape k sh)" for d
    using that set_erase_at set_update_subset_insert[of sh "k - 1"] assms(1) unfolding merge_shape_def dims_ok_def
    by (metis insertE of_nat_0_le_iff subsetD)
  moreover have "0 \<le> t" if "st \<in> set sts" "t \<in> set (merge_strides k st)" for st t
  proof -
    have "t \<in> insert (st ! k) (set st)"
      using that(2) set_erase_at set_update_subset_insert[of st "k - 1" "st ! k"] unfolding merge_strides_def by (meson subsetD)
    moreover have "st ! k \<in> set st" using assms that(1) by (auto simp: dims_ok_def)
    ultimately show ?thesis using assms(1) that(1) by (auto simp: dims_ok_def)
  qed
  moreover have "length (merge_strides k st) = length (merge_shape k sh)" if "st \<in> set sts" for st
    using that assms by (simp add: dims_ok_def merge_strides_def merge_shape_def)
  ultimately show ?thesis by (auto simp: dims_ok_def)
qed

lemma merge_loop_ok:
  assumes "dims_ok sh sts" and "merge_loop inner sh sts = (sh', sts')"
  shows "dims_ok sh' sts' \<and> length sts' = length sts \<and>
    (\<forall>j < length sts. \<forall>i. linear sh' (sts' ! j) i = linear sh (sts ! j) i)"
  using assms
proof (induction inner sh sts rule: merge_loop.induct)
  case (1 inner sh sts)
  note eq = "1.prems"(2)[unfolded merge_loop.simps[of inner sh sts]]
  show ?case
  proof (cases "inner \<le> 1 \<or> inner > length sh")
    case True
    then show ?thesis using eq "1.prems"(1) by auto
  next
    case no: False
    let ?k = "inner - 1"
    have k: "0 < ?k" "?k < length sh" using no by auto
    show ?thesis
    proof (cases "mergeable ?k sh sts")
      case False
      then show ?thesis using "1.IH"(2)[OF no False] "1.prems"(1) eq no by simp
    next
      case True
      let ?sh = "merge_shape ?k sh" and ?sts = "map (merge_strides ?k) sts"
      have IH: "dims_ok sh' sts' \<and> length sts' = length ?sts \<and>
        (\<forall>j < length ?sts. \<forall>i. linear sh' (sts' ! j) i = linear ?sh (?sts ! j) i)"
        by (rule "1.IH"(1)[OF no True dims_ok_merge[OF "1.prems"(1) k]]) (use eq no True in simp)
      have "linear ?sh (merge_strides ?k (sts ! j)) i = linear sh (sts ! j) i" if j: "j < length sts" for i j
      proof (rule linear_merge[OF k])
        have st: "sts ! j \<in> set sts" using j by simp
        then show "length (sts ! j) = length sh" using "1.prems"(1) by (simp add: dims_ok_def)
        then show "0 \<le> sts ! j ! (?k - 1)" using "1.prems"(1) st k by (simp add: dims_ok_def)
        have "stride_merges ?k (nat (sh ! ?k)) (sts ! j)" using True st by (simp add: mergeable_def Let_def list_all_iff)
        then show "nat (sts ! j ! (?k - 1)) = nat (sts ! j ! ?k) * nat (sh ! ?k)"
          using wrap64_mult by (simp add: stride_merges_def Let_def)
      qed
      then show ?thesis using IH by simp
    qed
  qed
qed

lemma linear_nil: "linear [1] [0] i = 0" "linear [] st i = 0"
  by (simp_all add: linear_def)

lemma coalesce_ok:
  assumes "dims_ok sh sts" and "coalesce_dimensions sh sts = (sh', sts')" and "j < length sts"
  shows "linear sh' (sts' ! j) i = linear sh (sts ! j) i" "length sts' = length sts" "dims_ok sh' sts'"
proof -
  obtain sh1 sts1 where e: "erase_units (length sh) sh sts = (sh1, sts1)" by fastforce
  note E = erase_units_ok[OF assms(1) order_refl e]
  have "linear sh' (sts' ! j) i = linear sh (sts ! j) i \<and> length sts' = length sts \<and> dims_ok sh' sts'"
  proof (cases "sh1 = []")
    case True
    then have sts': "sh' = [1]" "sts' = map (\<lambda>st. st @ [0]) sts1" using assms(2) e by (simp_all add: coalesce_dimensions_def)
    have "sts1 ! j = []" using E True assms(3) by (auto simp: dims_ok_def)
    moreover have "\<forall>st \<in> set sts1. st = []" using E True by (simp add: dims_ok_def)
    ultimately have "sts1 ! j = []" "linear sh (sts ! j) i = 0" using E assms(3) True linear_nil(2) by auto
    moreover from this have "sts' ! j = [0]" using sts' E assms(3) by simp
    moreover have "dims_ok sh' sts'"
      using sts' \<open>\<forall>st \<in> set sts1. st = []\<close> by (auto simp: dims_ok_def)
    moreover have "length sts' = length sts" using sts' E by simp
    ultimately show ?thesis using sts'(1) linear_nil by simp
  next
    case False
    then have "merge_loop (length sh1) sh1 sts1 = (sh', sts')" using assms(2) e by (simp add: coalesce_dimensions_def)
    from merge_loop_ok[OF _ this] E assms(3) show ?thesis by simp
  qed
  then show "linear sh' (sts' ! j) i = linear sh (sts ! j) i" "length sts' = length sts" "dims_ok sh' sts'" by auto
qed

lemma offset_loop_lin: "offset_loop xs w r = (if xs = [] then r else wrap64 (r + lin xs w))"
proof (induction xs arbitrary: w r)
  case (Cons x xs)
  obtain d t where x: "x = (d, t)" by (cases x)
  have "wrap64 (wrap64 (r + wrap64 c) + l) = wrap64 (r + (c + l))" "wrap64 (r + wrap64 c) = wrap64 (r + c)" for c l
    by (simp_all add: wrap64_def mod_simps add.assoc)
  then show ?case using Cons.IH x by simp
qed simp

section \<open>Broadcasting\<close>

lemma mapE_Inr_nth: "mapE f xs = Inr ys \<longleftrightarrow> length ys = length xs \<and> (\<forall>i < length xs. f (xs ! i) = Inr (ys ! i))"
proof (induction xs arbitrary: ys)
  case (Cons x xs)
  show ?case
  proof (cases ys)
    case (Cons y zs)
    have "(\<forall>i < Suc (length xs). f ((x # xs) ! i) = Inr ((y # zs) ! i)) \<longleftrightarrow>
        f x = Inr y \<and> (\<forall>i < length xs. f (xs ! i) = Inr (zs ! i))" by (auto simp: less_Suc_eq_0_disj)
    then show ?thesis using Cons.IH Cons by auto
  qed auto
qed auto

lemma broadcast_operand_Inr:
  assumes "broadcast_operand l r = Inr r'" and "lay_rank l \<le> length r" and "\<forall>d \<in> set r. 0 \<le> d" and "\<forall>d \<in> set (lay_shape l). 0 \<le> d"
  shows "length r' = length r \<and> (\<forall>d \<in> set r'. 0 \<le> d)"
proof -
  let ?n = "length r - lay_rank l"
  obtain tl where t: "mapE (\<lambda>(r, d). broadcast_extent r d) (zip (drop ?n r) (lay_shape l)) = Inr tl" "r' = take ?n r @ tl"
    using assms(1) by (auto simp: broadcast_operand_def Let_def)
  have len: "length tl = lay_rank l" using mapE_length[OF t(1)] assms(2) by simp
  have "0 \<le> d" if m: "d \<in> set tl" for d
  proof -
    obtain i where i: "i < length tl" "d = tl ! i" using m unfolding in_set_conv_nth by blast
    then have "broadcast_extent (r ! (?n + i)) (lay_shape l ! i) = Inr d"
      using mapE_nth[OF t(1), of i] len assms(2) by simp
    moreover have "r ! (?n + i) \<in> set r" "lay_shape l ! i \<in> set (lay_shape l)"
      using i(1) len assms(2) by (auto intro!: nth_mem)
    then have "0 \<le> r ! (?n + i)" "0 \<le> lay_shape l ! i" using assms(3,4) by blast+
    ultimately show ?thesis by (auto simp: broadcast_extent_def split: if_splits)
  qed
  then show ?thesis using t(2) len assms(2,3) by (auto dest: in_set_takeD)
qed

lemma rank_fold:
  "r \<le> foldl (\<lambda>r l. if lay_rank l > r then lay_rank l else r) r ls \<and>
   (\<forall>l \<in> set ls. lay_rank l \<le> foldl (\<lambda>r l. if lay_rank l > r then lay_rank l else r) r ls)"
proof (induction ls arbitrary: r)
  case (Cons l ls)
  define s where "s = (if lay_rank l > r then lay_rank l else r)"
  have s: "r \<le> s" "lay_rank l \<le> s" by (auto simp: s_def)
  have ih: "s \<le> foldl (\<lambda>r l. if lay_rank l > r then lay_rank l else r) s ls"
    "\<And>k. k \<in> set ls \<Longrightarrow> lay_rank k \<le> foldl (\<lambda>r l. if lay_rank l > r then lay_rank l else r) s ls"
    using Cons.IH[of s] by simp_all
  show ?case unfolding foldl_Cons s_def[symmetric]
    using s order_trans[OF s(1) ih(1)] order_trans[OF s(2) ih(1)] ih(2) by simp
qed simp

lemma broadcast_shape_Inr:
  assumes "broadcast_shape ls = Inr sh" and "\<forall>l \<in> set ls. layout_ok l"
  shows "\<forall>d \<in> set sh. 0 \<le> d" "\<And>l. l \<in> set ls \<Longrightarrow> lay_rank l \<le> length sh"
proof -
  let ?n = "foldl (\<lambda>r l. if lay_rank l > r then lay_rank l else r) 0 ls"
  have f: "foldE broadcast_operand ls (replicate ?n 1) = Inr sh" using assms(1) by (simp add: broadcast_shape_def Let_def)
  have "length sh = ?n \<and> (\<forall>d \<in> set sh. 0 \<le> d)"
  proof (rule foldE_invariant[where P = "\<lambda>r. length r = ?n \<and> (\<forall>d \<in> set r. 0 \<le> d)", OF _ _ f])
    fix l r r' assume l: "l \<in> set ls" "length r = ?n \<and> (\<forall>d \<in> set r. 0 \<le> d)" "broadcast_operand l r = Inr r'"
    have "lay_rank l \<le> length r" using rank_fold[where ls = ls] l by simp
    then show "length r' = ?n \<and> (\<forall>d \<in> set r'. 0 \<le> d)"
      using broadcast_operand_Inr[OF l(3)] l(1,2) assms(2) layout_okD(2) by metis
  qed simp
  then show "\<forall>d \<in> set sh. 0 \<le> d" "\<And>l. l \<in> set ls \<Longrightarrow> lay_rank l \<le> length sh"
    using rank_fold[where ls = ls] by auto
qed

lemma broadcast_strides_tail:
  assumes ok: "layout_ok l" and rank: "lay_rank l \<le> length sh" and b: "broadcast_strides sh l = Inr st"
  obtains tl where "st = replicate (length sh - lay_rank l) 0 @ tl" "length tl = lay_rank l"
    "\<And>i. i < lay_rank l \<Longrightarrow> sh ! (length sh - lay_rank l + i) = lay_shape l ! i \<and> tl ! i = lay_strides l ! i \<or>
       lay_shape l ! i = 1 \<and> tl ! i = 0"
proof -
  let ?n = "length sh - lay_rank l"
  obtain tl where t: "mapE broadcast_stride (zip (drop ?n sh) (zip (lay_shape l) (lay_strides l))) = Inr tl"
    "st = replicate ?n 0 @ tl" using b by (auto simp: broadcast_strides_def Let_def)
  have len: "length tl = lay_rank l" using mapE_length[OF t(1)] rank layout_okD(1)[OF ok] by simp
  show ?thesis
  proof (rule that[OF t(2) len])
    fix i assume "i < lay_rank l"
    then show "sh ! (?n + i) = lay_shape l ! i \<and> tl ! i = lay_strides l ! i \<or> lay_shape l ! i = 1 \<and> tl ! i = 0"
      using mapE_nth[OF t(1), of i] rank layout_okD(1)[OF ok]
      by (auto simp: broadcast_stride_def split: if_splits)
  qed
qed

lemma broadcast_strides_Inr:
  assumes ok: "layout_ok l" and rank: "lay_rank l \<le> length sh" and b: "broadcast_strides sh l = Inr st"
  shows "length st = length sh" "\<forall>t \<in> set st. 0 \<le> t" "0 \<in> set (lay_shape l) \<Longrightarrow> 0 \<in> set sh"
proof -
  let ?n = "length sh - lay_rank l"
  obtain tl where t: "st = replicate ?n 0 @ tl" and len: "length tl = lay_rank l"
    and nth: "\<And>i. i < lay_rank l \<Longrightarrow> sh ! (?n + i) = lay_shape l ! i \<and> tl ! i = lay_strides l ! i \<or>
       lay_shape l ! i = 1 \<and> tl ! i = 0"
    by (rule broadcast_strides_tail[OF assms]) blast
  show "length st = length sh" using t len rank by simp
  have "0 \<le> tl ! i" if "i < lay_rank l" for i
    using nth[OF that] that layout_okD(1,8)[OF ok] by (metis nth_mem order_refl)
  then show "\<forall>t \<in> set st. 0 \<le> t" using t len by (auto simp: in_set_conv_nth)
  assume "0 \<in> set (lay_shape l)"
  then obtain i where i: "i < lay_rank l" "lay_shape l ! i = 0" by (auto simp: in_set_conv_nth)
  then have "sh ! (?n + i) = 0" using nth[OF i(1)] by auto
  moreover have "?n + i < length sh" using i(1) rank by simp
  ultimately show "0 \<in> set sh" by (metis nth_mem)
qed

section \<open>Broadcasting reads the operand's own coordinates\<close>

text \<open>The operand coordinates of a result coordinate: leading dimensions dropped, extents of one pinned at zero.\<close>

definition broadcast_index :: "tensor_layout \<Rightarrow> shape \<Rightarrow> shape" where
  "broadcast_index l c = map2 (\<lambda>d x. if d = 1 then 0 else x) (lay_shape l) (drop (length c - lay_rank l) c)"

lemma dot_append: "length c = length xs \<Longrightarrow> dot (c @ c') (xs @ ys) = dot c xs + dot c' ys"
  by (simp add: dot_def)

lemma dot_replicate: "dot c (zip ds (replicate n 0)) = 0"
proof (induction c arbitrary: ds n)
  case (Cons x c)
  then show ?case by (cases ds; cases n) (auto simp: dot_def)
qed (simp add: dot_def)

lemma dot_cong:
  "length c = length xs \<Longrightarrow> length c' = length xs \<Longrightarrow> length ys = length xs \<Longrightarrow>
   (\<And>i. i < length xs \<Longrightarrow> nat (c ! i) * nat (snd (xs ! i)) = nat (c' ! i) * nat (snd (ys ! i))) \<Longrightarrow> dot c xs = dot c' ys"
  unfolding dot_def by (rule arg_cong[where f = sum_list]) (auto intro!: nth_equalityI simp: case_prod_unfold)

lemma dot_reach: "list_all2 (\<lambda>i (d, t). 0 \<le> i \<and> i < d) is xs \<Longrightarrow> dot is xs \<le> reach xs"
proof (induction "is" xs rule: list_all2_induct)
  case (Cons i "is" x xs)
  obtain d t where x: "x = (d, t)" by (cases x)
  have "nat i * nat t \<le> nat (d - 1) * nat t" using Cons.hyps x by (intro mult_right_mono) auto
  from add_mono[OF this Cons.IH] show ?case using x by (simp add: dot_def)
qed (simp add: dot_def)

lemma broadcast_dot:
  assumes ok: "layout_ok l" and rank: "lay_rank l \<le> length sh" and b: "broadcast_strides sh l = Inr st"
    and c: "list_all2 (\<lambda>i d. 0 \<le> i \<and> i < d) c sh"
  shows "dot (broadcast_index l c) (zip (lay_shape l) (lay_strides l)) = dot c (zip sh st)"
    "list_all2 (\<lambda>i (d, t). 0 \<le> i \<and> i < d) (broadcast_index l c) (zip (lay_shape l) (lay_strides l))"
proof -
  let ?n = "length sh - lay_rank l"
  obtain tl where t: "st = replicate ?n 0 @ tl" and len: "length tl = lay_rank l"
    and nth: "\<And>i. i < lay_rank l \<Longrightarrow> sh ! (?n + i) = lay_shape l ! i \<and> tl ! i = lay_strides l ! i \<or>
       lay_shape l ! i = 1 \<and> tl ! i = 0"
    by (rule broadcast_strides_tail[OF ok rank b]) blast
  note ls = layout_okD(1)[OF ok]
  have lc: "length c = length sh" using c by (rule list_all2_lengthD)
  have z: "zip sh st = zip (take ?n sh) (replicate ?n 0) @ zip (drop ?n sh) tl"
    using zip_append[of "take ?n sh" "replicate ?n 0" "drop ?n sh" tl] t by simp
  have "dot c (zip sh st) = dot (take ?n c @ drop ?n c) (zip (take ?n sh) (replicate ?n 0) @ zip (drop ?n sh) tl)"
    by (simp add: z)
  also have "\<dots> = dot (drop ?n c) (zip (drop ?n sh) tl)"
    using dot_append[of "take ?n c" "zip (take ?n sh) (replicate ?n 0)" "drop ?n c" "zip (drop ?n sh) tl"] lc dot_replicate by simp
  also have "\<dots> = dot (broadcast_index l c) (zip (lay_shape l) (lay_strides l))"
  proof (rule dot_cong)
    fix i assume "i < length (zip (drop ?n sh) tl)"
    then have i: "i < lay_rank l" using len by simp
    then have j: "?n + i < length sh" using rank by simp
    have "0 \<le> c ! (?n + i)" "c ! (?n + i) < sh ! (?n + i)" using c lc j by (auto simp: list_all2_conv_all_nth)
    then show "nat (drop ?n c ! i) * nat (snd (zip (drop ?n sh) tl ! i)) =
        nat (broadcast_index l c ! i) * nat (snd (zip (lay_shape l) (lay_strides l) ! i))"
      using nth[OF i] i j len lc rank ls by (auto simp: broadcast_index_def)
  qed (use lc rank len ls in \<open>simp_all add: broadcast_index_def\<close>)
  finally show "dot (broadcast_index l c) (zip (lay_shape l) (lay_strides l)) = dot c (zip sh st)" ..
  have "0 \<le> broadcast_index l c ! i \<and> broadcast_index l c ! i < lay_shape l ! i" if i: "i < lay_rank l" for i
  proof -
    have j: "?n + i < length sh" using i rank by simp
    have "0 \<le> c ! (?n + i)" "c ! (?n + i) < sh ! (?n + i)" using c lc j by (auto simp: list_all2_conv_all_nth)
    then show ?thesis using nth[OF i] i j lc rank by (auto simp: broadcast_index_def)
  qed
  then show "list_all2 (\<lambda>i (d, t). 0 \<le> i \<and> i < d) (broadcast_index l c) (zip (lay_shape l) (lay_strides l))"
    using lc rank ls by (auto simp: list_all2_conv_all_nth broadcast_index_def)
qed

section \<open>Offsets of the iterator\<close>

lemma linear_unravel:
  assumes "length st = length sh"
  shows "linear sh st i = dot (unravel sh i) (zip sh st)"
proof -
  have fst: "map fst (rev (zip sh st)) = rev sh" using assms by (simp add: rev_map[symmetric])
  show ?thesis
    using dot_unravel[of "rev (zip sh st)" i] dot_rev[of "unravel_rev (rev sh) i" "rev (zip sh st)"] assms
    unfolding fst by (simp add: unravel_def linear_def)
qed

lemma unravel_range:
  assumes "\<forall>d \<in> set sh. 0 < d"
  shows "list_all2 (\<lambda>i d. 0 \<le> i \<and> i < d) (unravel sh i) sh"
proof -
  have "\<forall>d \<in> set (rev sh). 0 < d" using assms by simp
  from unravel_rev_range[OF this, of i] show ?thesis unfolding unravel_def by (simp add: list_all2_rev1)
qed

lemma mk_iterator_Inr:
  assumes "mk_iterator ops = Inr it"
  obtains l where "broadcast_shape ops = Inr (it_shape it)" "mk_layout (it_shape it) = Inr l" "it_numel it = lay_numel l"
    "mapE (broadcast_strides (it_shape it)) ops = Inr (it_operand_strides it)"
    "coalesce_dimensions (it_shape it) (it_operand_strides it) = (it_iteration_shape it, it_iteration_strides it)"
    "it_contiguous it = detect_contiguous (it_shape it) (it_numel it) (it_operand_strides it)"
proof -
  obtain sh l sts where p: "broadcast_shape ops = Inr sh" "mk_layout sh = Inr l" "mapE (broadcast_strides sh) ops = Inr sts"
    and it: "(case coalesce_dimensions sh sts of (ish, ists) \<Rightarrow>
           Inr \<lparr>it_shape = sh, it_numel = lay_numel l, it_operand_strides = sts,
                it_iteration_shape = ish, it_iteration_strides = ists,
                it_contiguous = detect_contiguous sh (lay_numel l) sts\<rparr>) = (Inr it :: tensor_iterator result)"
    using assms by (auto simp: mk_iterator_def split: if_splits)
  obtain ish ists where c: "coalesce_dimensions sh sts = (ish, ists)" by fastforce
  show ?thesis by (rule that[of l]) (use p it c in auto)
qed

lemma iterator_operand:
  assumes it: "mk_iterator ops = Inr it" and ok: "\<forall>l \<in> set ops. layout_ok l" and k: "k < length ops"
  shows "lay_rank (ops ! k) \<le> length (it_shape it)" "broadcast_strides (it_shape it) (ops ! k) = Inr (it_operand_strides it ! k)"
    "length (it_operand_strides it) = length ops" "dims_ok (it_shape it) (it_operand_strides it)"
    "\<exists>l. mk_layout (it_shape it) = Inr l \<and> it_numel it = lay_numel l"
proof -
  obtain l where l: "broadcast_shape ops = Inr (it_shape it)" "mk_layout (it_shape it) = Inr l" "it_numel it = lay_numel l"
    and st: "mapE (broadcast_strides (it_shape it)) ops = Inr (it_operand_strides it)"
    by (rule mk_iterator_Inr[OF it]) blast
  note B = broadcast_shape_Inr[OF l(1) ok]
  show "lay_rank (ops ! k) \<le> length (it_shape it)" using B(2) k by simp
  have len: "length (it_operand_strides it) = length ops" using mapE_length[OF st] .
  have nth: "broadcast_strides (it_shape it) (ops ! j) = Inr (it_operand_strides it ! j)" if "j < length ops" for j
    using mapE_nth[OF st that] .
  have "length st = length (it_shape it) \<and> (\<forall>t \<in> set st. 0 \<le> t)" if "st \<in> set (it_operand_strides it)" for st
  proof -
    from that obtain j where j: "j < length ops" "st = it_operand_strides it ! j" unfolding in_set_conv_nth len by blast
    have "ops ! j \<in> set ops" using j by simp
    then show ?thesis using broadcast_strides_Inr(1,2)[OF _ _ nth[OF j(1)]] ok B(2) j(2) by simp
  qed
  then show "dims_ok (it_shape it) (it_operand_strides it)" using B(1) by (simp add: dims_ok_def)
  show "broadcast_strides (it_shape it) (ops ! k) = Inr (it_operand_strides it ! k)" using nth[OF k] .
  show "length (it_operand_strides it) = length ops" by (rule len)
  show "\<exists>l. mk_layout (it_shape it) = Inr l \<and> it_numel it = lay_numel l" using l by blast
qed

lemma operand_offset_linear:
  assumes it: "mk_iterator ops = Inr it" and ok: "\<forall>l \<in> set ops. layout_ok l" and k: "k < length ops" and i: "i < it_numel it"
  shows "operand_offset it k i = Inr (linear (it_shape it) (it_operand_strides it ! k) i)"
    "linear (it_shape it) (it_operand_strides it ! k) i =
       dot (broadcast_index (ops ! k) (unravel (it_shape it) i)) (zip (lay_shape (ops ! k)) (lay_strides (ops ! k)))"
    "list_all2 (\<lambda>i (d, t). 0 \<le> i \<and> i < d) (broadcast_index (ops ! k) (unravel (it_shape it) i))
       (zip (lay_shape (ops ! k)) (lay_strides (ops ! k)))"
    "linear (it_shape it) (it_operand_strides it ! k) i < lay_storage_span (ops ! k)"
proof -
  let ?sh = "it_shape it" and ?st = "it_operand_strides it ! k" and ?l = "ops ! k"
  note I = iterator_operand[OF it ok k]
  have lok: "layout_ok ?l" using ok k by simp
  obtain l where l: "mk_layout ?sh = Inr l" "it_numel it = lay_numel l" using I(5) by blast
  have zero: "0 \<notin> set ?sh" using positive_dims(2)[OF mk_layout_ok(1)[OF l(1)]] i l(2) mk_layout_ok(2)[OF l(1)] by simp
  have pos: "\<forall>d \<in> set ?sh. 0 < d" using zero I(4) unfolding dims_ok_def by (metis less_le)
  note D = broadcast_dot[OF lok I(1,2) unravel_range[OF pos, of i]]
  have "length ?st = length ?sh" using broadcast_strides_Inr(1)[OF lok I(1,2)] .
  from linear_unravel[OF this] show eq: "linear ?sh ?st i =
      dot (broadcast_index ?l (unravel ?sh i)) (zip (lay_shape ?l) (lay_strides ?l))" using D(1) by simp
  show "list_all2 (\<lambda>i (d, t). 0 \<le> i \<and> i < d) (broadcast_index ?l (unravel ?sh i)) (zip (lay_shape ?l) (lay_strides ?l))" by (rule D(2))
  have "0 \<notin> set (lay_shape ?l)" using broadcast_strides_Inr(3)[OF lok I(1,2)] zero by blast
  then have span: "lay_storage_span ?l = reach (zip (lay_shape ?l) (lay_strides ?l)) + 1" using layout_okD(6)[OF lok] by simp
  have "dot (broadcast_index ?l (unravel ?sh i)) (zip (lay_shape ?l) (lay_strides ?l)) \<le> reach (zip (lay_shape ?l) (lay_strides ?l))"
    by (rule dot_reach[OF D(2)])
  then show less: "linear ?sh ?st i < lay_storage_span ?l" using eq span by simp
  have c: "coalesce_dimensions ?sh (it_operand_strides it) = (it_iteration_shape it, it_iteration_strides it)"
    by (rule mk_iterator_Inr[OF it]) blast
  note C = coalesce_ok[OF I(4) c, of k]
  have kk: "k < length (it_operand_strides it)" using k I(3) by simp
  have "offset_loop (rev (zip (it_iteration_shape it) (it_iteration_strides it ! k))) i 0 =
      wrap64 (linear (it_iteration_shape it) (it_iteration_strides it ! k) i)"
    unfolding offset_loop_lin by (auto simp: linear_def wrap64_def)
  also have "\<dots> = wrap64 (linear ?sh ?st i)" using C(1)[OF kk] by simp
  also have "\<dots> = linear ?sh ?st i" using less layout_okD(5)[OF lok] by (simp add: wrap64_def size_max_def)
  finally show "operand_offset it k i = Inr (linear ?sh ?st i)"
    using i kk by (simp add: operand_offset_def iteration_strides_def)
qed

text \<open>
  C20: broadcasting reads the right element. For every iterator the code builds over layouts of
  either constructor, every operand and every logical index, the offset computed over the coalesced
  dimensions is the operand's own offset at the broadcast coordinates (extents of one pinned at zero,
  missing leading dimensions dropped), and it lies inside the operand's storage.
\<close>

theorem iterator_offset_broadcasts:
  assumes "mk_iterator ops = Inr it" and "\<forall>l \<in> set ops. (\<exists>s. mk_layout s = Inr l) \<or> (\<exists>s st. mk_strided_layout s st = Inr l)"
    and "k < length ops" and "i < it_numel it"
  shows "operand_offset it k i = layout_offset (ops ! k) (broadcast_index (ops ! k) (unravel (it_shape it) i)) \<and>
     (\<exists>v. operand_offset it k i = Inr v \<and> v < lay_storage_span (ops ! k))"
proof -
  have ok: "\<forall>l \<in> set ops. layout_ok l" using assms(2) mk_layout_ok(1) mk_strided_layout_ok(1) by blast
  note L = operand_offset_linear[OF assms(1) ok assms(3,4)]
  let ?b = "broadcast_index (ops ! k) (unravel (it_shape it) i)" and ?z = "zip (lay_shape (ops ! k)) (lay_strides (ops ! k))"
  have lok: "layout_ok (ops ! k)" using ok assms(3) by simp
  have "0 + dot ?b ?z \<le> size_max" using L(2,4) layout_okD(5)[OF lok] by simp
  from offset_fold[OF L(3) this] have "foldE offset_step (zip ?b ?z) 0 = Inr (dot ?b ?z)" by simp
  moreover have "length ?b = lay_rank (ops ! k)"
    using list_all2_lengthD[OF L(3)] layout_okD(1)[OF lok] by simp
  ultimately have "layout_offset (ops ! k) ?b = Inr (dot ?b ?z)" by (simp add: layout_offset_def)
  then show ?thesis using L by simp
qed

definition demo_iterator :: tensor_iterator where
  "demo_iterator = \<lparr>it_shape = [3, 2], it_numel = 6, it_operand_strides = [[1, 3], [0, 1]],
     it_iteration_shape = [3, 2], it_iteration_strides = [[1, 3], [0, 1]], it_contiguous = [False, False]\<rparr>"

definition demo_row :: tensor_layout where
  "demo_row = \<lparr>lay_shape = [2], lay_strides = [1], lay_numel = 2, lay_storage_span = 2, lay_contiguous = True\<rparr>"

lemma demo_row: "mk_layout [2] = Inr demo_row"
  by (simp add: mk_layout_def validate_shape_def checked_numel_def make_contiguous_strides_def
      checked_multiply_def size_max_def int64_max_def demo_row_def)

lemma demo_iterator_steps:
  "broadcast_shape [demo_layout, demo_row] = Inr [3, 2]"
  "\<exists>l. mk_layout [3, 2] = Inr l \<and> lay_numel l = 6"
  "mapE (broadcast_strides [3, 2]) [demo_layout, demo_row] = Inr [[1, 3], [0, 1]]"
  "erase_units 2 [3, 2] [[1, 3], [0, 1]] = ([3, 2], [[1, 3], [0, 1]])"
  "merge_loop 2 [3, 2] [[1, 3], [0, 1]] = ([3, 2], [[1, 3], [0, 1]])"
  "detect_contiguous [3, 2] 6 [[1, 3], [0, 1]] = [False, False]"
       apply (simp add: broadcast_shape_def broadcast_operand_def broadcast_extent_def demo_layout_def demo_row_def Let_def)
      apply (simp add: mk_layout_def validate_shape_def checked_numel_def make_contiguous_strides_def checked_multiply_def size_max_def int64_max_def)
     apply (simp add: broadcast_strides_def broadcast_stride_def demo_layout_def demo_row_def Let_def)
    apply (simp add: numeral_2_eq_2)
   apply (simp add: merge_loop.simps mergeable_def stride_merges_def Let_def wrap64_def size_max_def)
  apply (simp add: detect_contiguous_def wrap64_def)
  done

lemma demo_iterator: "mk_iterator [demo_layout, demo_row] = Inr demo_iterator"
proof -
  obtain l where "mk_layout [3, 2] = Inr l" "lay_numel l = 6" using demo_iterator_steps(2) by blast
  moreover have "coalesce_dimensions [3, 2] [[1, 3], [0, 1]] = ([3, 2], [[1, 3], [0, 1]])"
    using demo_iterator_steps(4,5) by (simp add: coalesce_dimensions_def numeral_2_eq_2)
  ultimately show ?thesis using demo_iterator_steps(1,3,6) by (simp add: mk_iterator_def demo_iterator_def)
qed

theorem iterator_offset_broadcasts_witness:
  "operand_offset demo_iterator 1 3 = layout_offset demo_row [1] \<and> (\<exists>v. operand_offset demo_iterator 1 3 = Inr v \<and> v < 2)"
  using iterator_offset_broadcasts[OF demo_iterator, of 1 3] demo_layout demo_row
  by (auto simp: demo_iterator_def demo_row_def broadcast_index_def unravel_def)

section \<open>The contiguous fast path\<close>

lemma dense_loop_lin:
  "dense_loop xs e \<Longrightarrow> \<forall>(d, t) \<in> set xs. 0 < d \<Longrightarrow> e * prodn (map fst xs) \<le> size_max \<Longrightarrow>
   w < prodn (map fst xs) \<Longrightarrow> lin xs w = e * w"
proof (induction xs arbitrary: e w)
  case (Cons x xs)
  obtain d t where x: "x = (d, t)" by (cases x)
  have d: "0 < nat d" using Cons.prems(2) x by simp
  have pos: "\<forall>(d, t) \<in> set xs. 0 < d" using Cons.prems(2) by simp
  have w: "w div nat d < prodn (map fst xs)"
    using Cons.prems(4) d x by (simp add: div_less_iff_less_mult mult.commute)
  show ?case
  proof (cases "nat d \<le> 1")
    case True
    then have "nat d = 1" using d by simp
    then show ?thesis using Cons.IH[of e w] Cons.prems x pos by simp
  next
    case False
    then have t: "nat t = e" and dense: "dense_loop xs (wrap64 (e * nat d))" using Cons.prems(1) x by auto
    have b: "e * nat d * prodn (map fst xs) \<le> size_max" using Cons.prems(3) x by (simp add: mult.assoc)
    have "1 \<le> prodn (map fst xs)" using w by simp
    then have "e * nat d * 1 \<le> e * nat d * prodn (map fst xs)" by (rule mult_le_mono2)
    then have "e * nat d \<le> size_max" unfolding mult_1_right using b by (rule order_trans)
    then have "wrap64 (e * nat d) = e * nat d" by (simp add: wrap64_def size_max_def)
    then have "lin xs (w div nat d) = e * nat d * (w div nat d)" using Cons.IH[OF _ pos _ w] dense b by simp
    moreover have "(w mod nat d) * e + e * nat d * (w div nat d) = e * w"
      by (metis add_mult_distrib2 mod_mult_div_eq mult.assoc mult.commute)
    ultimately show ?thesis using x t by simp
  qed
qed simp

text \<open>
  An operand the iterator reports as contiguous is read at the logical index itself, so a kernel may run over its
  elements in memory order.
\<close>

lemma contiguous_flag_is_dense:
  assumes "mk_iterator ops = Inr it" and ok: "\<forall>l \<in> set ops. layout_ok l"
    and "operand_is_contiguous it k = Inr True" and "i < it_numel it"
  shows "operand_offset it k i = Inr i"
proof -
  have c: "it_contiguous it = detect_contiguous (it_shape it) (it_numel it) (it_operand_strides it)"
    and "mapE (broadcast_strides (it_shape it)) ops = Inr (it_operand_strides it)"
    by (rule mk_iterator_Inr[OF assms(1)], assumption)+
  then have k: "k < length ops" "it_contiguous it ! k"
    using assms(3) mapE_length[of "broadcast_strides (it_shape it)" ops "it_operand_strides it"]
    by (auto simp: operand_is_contiguous_def split: if_splits)
  note I = iterator_operand[OF assms(1) ok k(1)] and L = operand_offset_linear[OF assms(1) ok k(1) assms(4)]
  let ?z = "zip (it_shape it) (it_operand_strides it ! k)"
  have kk: "k < length (it_operand_strides it)" using k I(3) by simp
  then have dense: "dense_loop (rev ?z) 1" using c k(2) assms(4) by (simp add: detect_contiguous_def)
  have len: "length (it_operand_strides it ! k) = length (it_shape it)" using I(4) kk by (simp add: dims_ok_def)
  obtain l where l: "mk_layout (it_shape it) = Inr l" "it_numel it = lay_numel l" using I(5) by blast
  note lok = mk_layout_ok(1)[OF l(1)] and sh = mk_layout_ok(2)[OF l(1)]
  have i: "i < lay_numel l" using assms(4) l(2) by simp
  have "0 \<notin> set (it_shape it)" using positive_dims(2)[OF lok i] sh by simp
  then have pos: "\<forall>d \<in> set (it_shape it). 0 < d" using I(4) unfolding dims_ok_def by (metis less_le)
  have fst: "map fst (rev ?z) = rev (it_shape it)" using len by (simp add: rev_map[symmetric])
  have n: "prodn (rev (it_shape it)) = it_numel it" using layout_okD(3)[OF lok] sh l(2) by (simp add: prodn_def rev_map[symmetric])
  have "lin (rev ?z) i = 1 * i"
  proof (rule dense_loop_lin[OF dense])
    show "\<forall>(d, t) \<in> set (rev ?z). 0 < d" using pos by (auto dest: set_zip_leftD)
    show "1 * prodn (map fst (rev ?z)) \<le> size_max" unfolding fst n using layout_okD(4)[OF lok] l(2) by simp
    show "i < prodn (map fst (rev ?z))" unfolding fst n by (rule assms(4))
  qed
  then show ?thesis using L(1) by (simp add: linear_def)
qed

text \<open>
  C26: the fast path is sound. An operand the iterator reports as contiguous is read at the logical
  index itself, so a kernel may run over its elements in memory order.
\<close>

theorem contiguous_operand_is_dense:
  assumes "mk_iterator ops = Inr it" and "\<forall>l \<in> set ops. (\<exists>s. mk_layout s = Inr l) \<or> (\<exists>s st. mk_strided_layout s st = Inr l)"
    and "operand_is_contiguous it k = Inr True" and "i < it_numel it"
  shows "operand_offset it k i = Inr i"
  using contiguous_flag_is_dense[OF assms(1) _ assms(3-)] assms(2) mk_layout_ok(1) mk_strided_layout_ok(1) by blast

definition demo_dense :: tensor_iterator where
  "demo_dense = \<lparr>it_shape = [2], it_numel = 2, it_operand_strides = [[1]],
     it_iteration_shape = [2], it_iteration_strides = [[1]], it_contiguous = [True]\<rparr>"

lemma demo_dense: "mk_iterator [demo_row] = Inr demo_dense"
proof -
  have "broadcast_shape [demo_row] = Inr [2]" "mapE (broadcast_strides [2]) [demo_row] = Inr [[1]]"
    by (simp_all add: broadcast_shape_def broadcast_operand_def broadcast_extent_def broadcast_strides_def
        broadcast_stride_def demo_row_def Let_def)
  moreover have "coalesce_dimensions [2] [[1]] = ([2], [[1]])" "detect_contiguous [2] 2 [[1]] = [True]"
    by (simp_all add: coalesce_dimensions_def merge_loop.simps detect_contiguous_def)
  ultimately show ?thesis by (simp add: mk_iterator_def demo_row demo_dense_def) (simp add: demo_row_def)
qed

theorem contiguous_operand_is_dense_witness: "operand_offset demo_dense 0 1 = Inr 1"
  using contiguous_operand_is_dense[OF demo_dense, of 0 1] demo_row
  by (auto simp: demo_dense_def operand_is_contiguous_def)

end
