(* ===== verification/Reduction_Iterator.thy ===== *)
theory Reduction_Iterator
  imports Tensor_Iterator
begin

text \<open>
  The reduction iterator of \<^verbatim>\<open>src/core/reduction_iterator.cpp\<close>: it splits the dimensions of a layout into kept
  and reduced ones and maps a pair of an output index and a reduction index to the input element.
  The main result is that the pairs visit every input element exactly once.
\<close>

section \<open>Definitions\<close>

record reduction_iterator =
  ri_input_layout :: tensor_layout
  ri_logical_strides :: strides
  ri_axes :: "nat list"
  ri_reduced :: "bool list"
  ri_output_shape :: shape
  ri_output_numel :: nat
  ri_reduction_numel :: nat
  ri_keepdim :: bool
  ri_contiguous_reduction :: bool

text \<open>One axis of the argument list: made non-negative, checked, and marked.\<close>

definition axis_step :: "nat \<Rightarrow> int \<Rightarrow> bool list \<times> nat list \<Rightarrow> (bool list \<times> nat list) result" where
  "axis_step rank axis s = (case s of (reduced, axes) \<Rightarrow>
     let a = (if axis < 0 then axis + int rank else axis) in
     if a < 0 \<or> a \<ge> int rank then Inl (Out_of_range ''reduction axis is out of range'')
     else if reduced ! nat a then Inl (Invalid_argument ''reduction axes must be unique'')
     else Inr (reduced[nat a := True], axes @ [nat a]))"

definition reduced_shape :: "shape \<Rightarrow> bool list \<Rightarrow> bool \<Rightarrow> shape" where
  "reduced_shape sh reduced keepdim =
     concat (map (\<lambda>(d, b). if b then if keepdim then [1] else [] else [d]) (zip sh reduced))"

definition trailing_axes :: "nat \<Rightarrow> nat list \<Rightarrow> bool" where
  "trailing_axes rank axes \<longleftrightarrow> (\<forall>i \<in> set [0..<length axes]. axes ! i = rank - length axes + i)"

definition mk_reduction :: "tensor_layout \<Rightarrow> int list \<Rightarrow> bool \<Rightarrow> reduction_iterator result" where
  "mk_reduction l axes keepdim =
     (if axes = [] then Inl (Invalid_argument ''reduction requires at least one axis'')
      else bindE (foldE (axis_step (lay_rank l)) axes (replicate (lay_rank l) False, [])) (\<lambda>s.
           let reduced = fst s; sorted_axes = sort (snd s); out = reduced_shape (lay_shape l) reduced keepdim in
           bindE (mk_layout out) (\<lambda>lo.
           bindE (mk_layout (map (\<lambda>a. lay_shape l ! a) sorted_axes)) (\<lambda>lr.
           bindE (mk_layout (lay_shape l)) (\<lambda>ll.
           Inr \<lparr>ri_input_layout = l, ri_logical_strides = lay_strides ll, ri_axes = sorted_axes, ri_reduced = reduced,
                ri_output_shape = out, ri_output_numel = lay_numel lo, ri_reduction_numel = lay_numel lr,
                ri_keepdim = keepdim,
                ri_contiguous_reduction = (lay_contiguous l \<and> trailing_axes (lay_rank l) sorted_axes)\<rparr>)))))"

text \<open>The kept dimensions consume the output index, from the last; \<open>od\<close> is the output dimension counter.\<close>

fun output_loop :: "reduction_iterator \<Rightarrow> strides \<Rightarrow> nat list \<Rightarrow> nat \<Rightarrow> nat \<Rightarrow> nat \<Rightarrow> nat" where
  "output_loop ri st [] od w r = r"
| "output_loop ri st (k # ks) od w r =
     (if ri_reduced ri ! k then output_loop ri st ks od w r
      else let od' = (if ri_keepdim ri then od else od - 1);
               d = nat (ri_output_shape ri ! (if ri_keepdim ri then k else od')) in
           output_loop ri st ks od' (w div d) (wrap64 (r + wrap64 ((w mod d) * nat (st ! k)))))"

definition offset_with_strides :: "reduction_iterator \<Rightarrow> strides \<Rightarrow> nat \<Rightarrow> nat \<Rightarrow> nat result" where
  "offset_with_strides ri st output_index reduction_index =
     (if output_index \<ge> ri_output_numel ri then Inl (Out_of_range ''reduction output index is out of range'')
      else if reduction_index \<ge> ri_reduction_numel ri then Inl (Out_of_range ''reduction index is out of range'')
      else Inr (offset_loop (map (\<lambda>a. (lay_shape (ri_input_layout ri) ! a, st ! a)) (rev (ri_axes ri))) reduction_index
             (output_loop ri st (rev [0..<lay_rank (ri_input_layout ri)]) (length (ri_output_shape ri)) output_index 0)))"

definition input_offset :: "reduction_iterator \<Rightarrow> nat \<Rightarrow> nat \<Rightarrow> nat result" where
  "input_offset ri = offset_with_strides ri (lay_strides (ri_input_layout ri))"

definition input_logical_index :: "reduction_iterator \<Rightarrow> nat \<Rightarrow> nat \<Rightarrow> nat result" where
  "input_logical_index ri = offset_with_strides ri (ri_logical_strides ri)"

section \<open>The index a pair stands for\<close>

text \<open>
  Dimensions are taken fastest first and tagged with whether they are reduced; a reduced dimension
  takes its coordinate from the reduction index, a kept one from the output index.
\<close>

fun pair_index :: "(bool \<times> int) list \<Rightarrow> nat \<Rightarrow> nat \<Rightarrow> nat" where
  "pair_index [] p r = 0"
| "pair_index ((b, d) # xs) p r =
     (if b then r mod nat d + nat d * pair_index xs p (r div nat d)
      else p mod nat d + nat d * pair_index xs (p div nat d) r)"

definition kept_dims :: "(bool \<times> int) list \<Rightarrow> int list" where
  "kept_dims xs = map snd (filter (\<lambda>x. \<not> fst x) xs)"

definition reduced_dims :: "(bool \<times> int) list \<Rightarrow> int list" where
  "reduced_dims xs = map snd (filter fst xs)"

lemma dims_simps [simp]:
  "kept_dims [] = []" "reduced_dims [] = []"
  "kept_dims ((b, d) # xs) = (if b then kept_dims xs else d # kept_dims xs)"
  "reduced_dims ((b, d) # xs) = (if b then d # reduced_dims xs else reduced_dims xs)"
  by (simp_all add: kept_dims_def reduced_dims_def)

lemma prodn_split: "prodn (kept_dims xs) * prodn (reduced_dims xs) = prodn (map snd xs)"
  by (induction xs) auto

lemma pair_index_bound: "\<forall>(b, d) \<in> set xs. 0 < d \<Longrightarrow> pair_index xs p r < prodn (map snd xs)"
proof (induction xs arbitrary: p r)
  case (Cons x xs)
  obtain b d where x: "x = (b, d)" by (cases x)
  have d: "0 < nat d" using Cons.prems x by simp
  have *: "a + nat d * m < nat d * n" if "a < nat d" "m < n" for a m n :: nat
  proof -
    have "a + nat d * m < nat d * Suc m" using that(1) by simp
    also have "\<dots> \<le> nat d * n" using that(2) by (intro mult_le_mono2) simp
    finally show ?thesis .
  qed
  show ?case using Cons x d by (auto intro!: *)
qed simp

lemma pair_index_inj:
  "\<forall>(b, d) \<in> set xs. 0 < d \<Longrightarrow> p < prodn (kept_dims xs) \<Longrightarrow> p' < prodn (kept_dims xs) \<Longrightarrow>
   r < prodn (reduced_dims xs) \<Longrightarrow> r' < prodn (reduced_dims xs) \<Longrightarrow> pair_index xs p r = pair_index xs p' r' \<Longrightarrow> p = p' \<and> r = r'"
proof (induction xs arbitrary: p r p' r')
  case (Cons x xs)
  obtain b d where x: "x = (b, d)" by (cases x)
  have d: "0 < nat d" using Cons.prems(1) x by simp
  have pos: "\<forall>(b, d) \<in> set xs. 0 < d" using Cons.prems(1) by simp
  have split: "a = a' \<and> m = m'" if "a + nat d * m = a' + nat d * m'" "a < nat d" "a' < nat d" for a a' m m' :: nat
  proof -
    have "(a + nat d * m) mod nat d = a" "(a' + nat d * m') mod nat d = a'"
      "(a + nat d * m) div nat d = m" "(a' + nat d * m') div nat d = m'" using that(2,3) d by simp_all
    then show ?thesis using that(1) by metis
  qed
  have rebuild: "a = a'" if "a mod nat d = a' mod nat d" "a div nat d = a' div nat d" for a a' :: nat
    using that by (metis div_mult_mod_eq)
  have div: "q div nat d < n" if "q < nat d * n" for q n :: nat
    using that d by (simp add: div_less_iff_less_mult mult.commute)
  show ?case
  proof (cases b)
    case True
    have "r mod nat d + nat d * pair_index xs p (r div nat d) = r' mod nat d + nat d * pair_index xs p' (r' div nat d)"
      using Cons.prems(6) x True by simp
    note s = split[OF this mod_less_divisor[OF d] mod_less_divisor[OF d]]
    have lt: "r div nat d < prodn (reduced_dims xs)" "r' div nat d < prodn (reduced_dims xs)"
      using Cons.prems(4,5) x True by (auto intro!: div)
    have "p = p' \<and> r div nat d = r' div nat d" by (rule Cons.IH[OF pos]) (use lt s Cons.prems(2-5) x True in simp_all)
    then show ?thesis using s rebuild[of r r'] by simp
  next
    case False
    have "p mod nat d + nat d * pair_index xs (p div nat d) r = p' mod nat d + nat d * pair_index xs (p' div nat d) r'"
      using Cons.prems(6) x False by simp
    note s = split[OF this mod_less_divisor[OF d] mod_less_divisor[OF d]]
    have lt: "p div nat d < prodn (kept_dims xs)" "p' div nat d < prodn (kept_dims xs)"
      using Cons.prems(2,3) x False by (auto intro!: div)
    have "p div nat d = p' div nat d \<and> r = r'" by (rule Cons.IH[OF pos]) (use lt s Cons.prems(2-5) x False in simp_all)
    then show ?thesis using s rebuild[of p p'] by simp
  qed
qed simp

text \<open>Distinct pairs stand for distinct indices, and there are as many pairs as indices.\<close>

lemma pair_index_bij:
  assumes "\<forall>(b, d) \<in> set xs. 0 < d"
  shows "bij_betw (\<lambda>(p, r). pair_index xs p r) ({..<prodn (kept_dims xs)} \<times> {..<prodn (reduced_dims xs)}) {..<prodn (map snd xs)}"
proof -
  let ?f = "\<lambda>(p, r). pair_index xs p r" and ?A = "{..<prodn (kept_dims xs)} \<times> {..<prodn (reduced_dims xs)}"
  have inj: "inj_on ?f ?A" using pair_index_inj[OF assms] by (fastforce simp: inj_on_def)
  moreover have "?f ` ?A \<subseteq> {..<prodn (map snd xs)}" using pair_index_bound[OF assms] by auto
  moreover have "card (?f ` ?A) = card {..<prodn (map snd xs)}"
    unfolding card_image[OF inj] by (simp add: card_cartesian_product prodn_split)
  ultimately show ?thesis by (simp add: bij_betw_def card_subset_eq)
qed

section \<open>What the constructor establishes\<close>

definition axes_inv :: "nat \<Rightarrow> bool list \<times> nat list \<Rightarrow> bool" where
  "axes_inv n s \<longleftrightarrow> length (fst s) = n \<and> distinct (snd s) \<and> (\<forall>a \<in> set (snd s). a < n) \<and>
     (\<forall>k < n. fst s ! k \<longleftrightarrow> k \<in> set (snd s))"

lemma axis_step_inv: "axis_step n a s = Inr s' \<Longrightarrow> axes_inv n s \<Longrightarrow> axes_inv n s'"
  by (cases s) (auto simp: axis_step_def axes_inv_def Let_def nth_list_update split: if_splits)

lemma axes_inv_sort:
  assumes "axes_inv n (reduced, axes)"
  shows "sort axes = filter (\<lambda>k. reduced ! k) [0..<n]"
proof (rule sorted_distinct_set_unique)
  show "set (sort axes) = set (filter (\<lambda>k. reduced ! k) [0..<n])" using assms by (auto simp: axes_inv_def)
  show "sorted (filter (\<lambda>k. reduced ! k) [0..<n])" by (simp add: sorted_wrt_filter)
qed (use assms in \<open>auto simp: axes_inv_def\<close>)

lemma mk_reduction_Inr:
  assumes "mk_reduction l axes keepdim = Inr ri"
  shows "ri_input_layout ri = l" "length (ri_reduced ri) = lay_rank l" "ri_axes ri = filter (\<lambda>k. ri_reduced ri ! k) [0..<lay_rank l]"
    "ri_output_shape ri = reduced_shape (lay_shape l) (ri_reduced ri) (ri_keepdim ri)"
    "\<exists>lo. mk_layout (ri_output_shape ri) = Inr lo \<and> ri_output_numel ri = lay_numel lo"
    "\<exists>lr. mk_layout (map (\<lambda>a. lay_shape l ! a) (ri_axes ri)) = Inr lr \<and> ri_reduction_numel ri = lay_numel lr"
    "\<exists>ll. mk_layout (lay_shape l) = Inr ll \<and> ri_logical_strides ri = lay_strides ll"
    "ri_contiguous_reduction ri \<longleftrightarrow> lay_contiguous l \<and> trailing_axes (lay_rank l) (ri_axes ri)"
proof -
  obtain s where s: "foldE (axis_step (lay_rank l)) axes (replicate (lay_rank l) False, []) = Inr s"
    using assms by (auto simp: mk_reduction_def split: if_splits)
  have "axes_inv (lay_rank l) s"
    by (rule foldE_invariant[where P = "axes_inv (lay_rank l)", OF _ _ s])
      (erule (1) axis_step_inv, simp add: axes_inv_def)
  then have inv: "axes_inv (lay_rank l) (fst s, snd s)" by simp
  have r: "ri_reduced ri = fst s" and a: "ri_axes ri = sort (snd s)"
    using assms s by (auto simp: mk_reduction_def Let_def split: if_splits)
  show "ri_axes ri = filter (\<lambda>k. ri_reduced ri ! k) [0..<lay_rank l]" using axes_inv_sort[OF inv] r a by simp
  show "length (ri_reduced ri) = lay_rank l" using inv r by (simp add: axes_inv_def)
qed (use assms in \<open>auto simp: mk_reduction_def Let_def split: if_splits\<close>)

section \<open>The loops of an offset\<close>

lemma reduced_shape_snoc:
  "length reduced = length sh \<Longrightarrow> reduced_shape (sh @ [d]) (reduced @ [b]) keepdim =
   reduced_shape sh reduced keepdim @ (if b then if keepdim then [1] else [] else [d])"
  by (simp add: reduced_shape_def)

lemma reduced_shape_append:
  "length reduced = length sh \<Longrightarrow> reduced_shape (sh @ sh') (reduced @ reduced') keepdim =
   reduced_shape sh reduced keepdim @ reduced_shape sh' reduced' keepdim"
  by (simp add: reduced_shape_def)

lemma length_reduced_shape: "length reduced = length sh \<Longrightarrow> length (reduced_shape sh reduced True) = length sh"
  by (induction reduced sh rule: list_induct2) (auto simp: reduced_shape_def)

lemma prodn_reduced_shape: "length reduced = length sh \<Longrightarrow> prodn (reduced_shape sh reduced keepdim) = prodn (kept_dims (zip reduced sh))"
  by (induction reduced sh rule: list_induct2) (auto simp: reduced_shape_def)

text \<open>The dimension the loop reads from the output shape is the kept input dimension.\<close>

lemma output_loop_lin:
  assumes out: "ri_output_shape ri = reduced_shape sh (ri_reduced ri) (ri_keepdim ri)" and len: "length (ri_reduced ri) = length sh"
  shows "n \<le> length sh \<Longrightarrow> v \<le> size_max \<Longrightarrow>
    od = length (reduced_shape (take n sh) (take n (ri_reduced ri)) (ri_keepdim ri)) \<Longrightarrow>
    output_loop ri st (rev [0..<n]) od w v =
      wrap64 (v + lin (map (\<lambda>k. (sh ! k, st ! k)) (rev (filter (\<lambda>k. \<not> ri_reduced ri ! k) [0..<n]))) w)"
proof (induction n arbitrary: od w v)
  case 0
  then show ?case by (simp add: wrap64_def size_max_def)
next
  case (Suc n)
  let ?red = "ri_reduced ri" and ?keep = "ri_keepdim ri"
  let ?o = "reduced_shape (take n sh) (take n ?red) ?keep"
  have n: "n < length sh" "n < length ?red" using Suc.prems(1) len by simp_all
  have step: "reduced_shape (take (Suc n) sh) (take (Suc n) ?red) ?keep =
      ?o @ (if ?red ! n then if ?keep then [1] else [] else [sh ! n])"
    using n by (simp add: take_Suc_conv_app_nth reduced_shape_snoc)
  have ko: "?keep \<Longrightarrow> length ?o = n" using length_reduced_shape[of "take n ?red" "take n sh"] n by simp
  show ?case
  proof (cases "?red ! n")
    case True
    have od: "output_loop ri st (rev [0..<n]) od w v = output_loop ri st (rev [0..<n]) (length ?o) w v" if "\<not> ?keep"
      using Suc.prems(3) step True that by simp
    have irrelevant: "output_loop ri st ks od w v = output_loop ri st ks od' w v" if "?keep" for ks od od' w v
      by (induction ks arbitrary: od od' w v) (use that in \<open>auto simp: Let_def\<close>)
    have "output_loop ri st (rev [0..<n]) od w v = output_loop ri st (rev [0..<n]) (length ?o) w v"
      using od irrelevant by blast
    then show ?thesis using Suc.IH[of v "length ?o" w] Suc.prems True by simp
  next
    case False
    have od: "od = Suc (length ?o)" using Suc.prems(3) step False by simp
    have "reduced_shape sh ?red ?keep = reduced_shape (take (Suc n) sh @ drop (Suc n) sh) (take (Suc n) ?red @ drop (Suc n) ?red) ?keep"
      by simp
    also have "\<dots> = (?o @ [sh ! n]) @ reduced_shape (drop (Suc n) sh) (drop (Suc n) ?red) ?keep"
      unfolding step[symmetric, unfolded if_not_P[OF False]] by (rule reduced_shape_append) (use len in simp)
    finally have at: "ri_output_shape ri ! length ?o = sh ! n" by (simp add: out)
    let ?d = "nat (sh ! n)"
    let ?v = "wrap64 (v + wrap64 ((w mod ?d) * nat (st ! n)))"
    let ?od = "if ?keep then od else od - 1"
    have "output_loop ri st (rev [0..<Suc n]) od w v = output_loop ri st (rev [0..<n]) ?od (w div ?d) ?v"
      using False at od ko by (auto simp: Let_def)
    also have "\<dots> = output_loop ri st (rev [0..<n]) (length ?o) (w div ?d) ?v"
    proof (cases ?keep)
      case True
      have "output_loop ri st ks od w v = output_loop ri st ks od' w v" for ks od od' w v
        by (induction ks arbitrary: od od' w v) (use True in \<open>auto simp: Let_def\<close>)
      then show ?thesis .
    qed (use od in simp)
    also have "\<dots> = wrap64 (?v + lin (map (\<lambda>k. (sh ! k, st ! k)) (rev (filter (\<lambda>k. \<not> ?red ! k) [0..<n]))) (w div ?d))"
      by (rule Suc.IH) (use Suc.prems(1) in \<open>simp_all add: wrap64_def size_max_def less_Suc_eq_le[symmetric]\<close>)
    also have "\<dots> = wrap64 (v + ((w mod ?d) * nat (st ! n) + lin (map (\<lambda>k. (sh ! k, st ! k)) (rev (filter (\<lambda>k. \<not> ?red ! k) [0..<n]))) (w div ?d)))"
      by (simp add: wrap64_def mod_simps add.assoc)
    finally show ?thesis using False by simp
  qed
qed

text \<open>Tagged dimensions, fastest first; the two mixed-radix sums of the code join into one.\<close>

definition tagged :: "bool list \<Rightarrow> shape \<Rightarrow> strides \<Rightarrow> (bool \<times> int \<times> int) list" where
  "tagged reduced sh st = rev (map (\<lambda>k. (reduced ! k, sh ! k, st ! k)) [0..<length sh])"

lemma lin_split:
  "\<forall>(b, d, t) \<in> set zs. 0 < d \<Longrightarrow>
   lin (map snd (filter (\<lambda>z. \<not> fst z) zs)) p + lin (map snd (filter fst zs)) r =
   lin (map snd zs) (pair_index (map (\<lambda>(b, d, t). (b, d)) zs) p r)"
proof (induction zs arbitrary: p r)
  case (Cons z zs)
  obtain b d t where z: "z = (b, d, t)" by (cases z)
  have "0 < nat d" using Cons.prems z by simp
  then have "(a mod nat d + nat d * m) mod nat d = a mod nat d" "(a mod nat d + nat d * m) div nat d = m" for a m :: nat by simp_all
  then show ?case using Cons z by (cases b) (simp_all add: add.assoc add.left_commute)
qed simp

lemma offset_with_strides_lin:
  assumes ri: "mk_reduction l axes keepdim = Inr ri" and st: "length st = lay_rank l"
    and pos: "\<forall>d \<in> set (lay_shape l). 0 < d" and p: "p < ri_output_numel ri" and r: "r < ri_reduction_numel ri"
  shows "offset_with_strides ri st p r =
    Inr (wrap64 (lin (rev (zip (lay_shape l) st)) (pair_index (rev (zip (ri_reduced ri) (lay_shape l))) p r)))"
proof -
  note M = mk_reduction_Inr[OF ri]
  let ?sh = "lay_shape l" and ?red = "ri_reduced ri"
  let ?kept = "map (\<lambda>k. (?sh ! k, st ! k)) (rev (filter (\<lambda>k. \<not> ?red ! k) [0..<length ?sh]))"
  let ?axes = "map (\<lambda>k. (?sh ! k, st ! k)) (rev (filter (\<lambda>k. ?red ! k) [0..<length ?sh]))"
  let ?zs = "tagged ?red ?sh st"
  have o: "output_loop ri st (rev [0..<length ?sh]) (length (ri_output_shape ri)) p 0 = wrap64 (0 + lin ?kept p)"
    by (rule output_loop_lin[OF M(4,2)]) (simp_all add: M(2,4) size_max_def)
  have "offset_with_strides ri st p r = Inr (offset_loop ?axes r (wrap64 (lin ?kept p)))"
    using p r o M(1,3) by (simp add: offset_with_strides_def)
  also have "offset_loop ?axes r (wrap64 (lin ?kept p)) = wrap64 (lin ?kept p + lin ?axes r)"
    unfolding offset_loop_lin by (cases "?axes = []") (simp_all add: wrap64_def mod_simps)
  also have "lin ?kept p + lin ?axes r = lin (map snd ?zs) (pair_index (map (\<lambda>(b, d, t). (b, d)) ?zs) p r)"
  proof -
    have "map snd (filter (\<lambda>z. \<not> fst z) ?zs) = ?kept" "map snd (filter fst ?zs) = ?axes"
      by (simp_all add: tagged_def rev_map rev_filter filter_map comp_def)
    moreover have "\<forall>(b, d, t) \<in> set ?zs. 0 < d" using pos by (auto simp: tagged_def)
    ultimately show ?thesis using lin_split[of ?zs p r] by simp
  qed
  also have "map snd ?zs = rev (zip ?sh st)"
    using st by (auto simp: tagged_def rev_map[symmetric] intro!: nth_equalityI)
  also have "map (\<lambda>(b, d, t). (b, d)) ?zs = rev (zip ?red ?sh)"
    using M(2) by (auto simp: tagged_def rev_map[symmetric] intro!: nth_equalityI)
  finally show ?thesis .
qed

section \<open>Properties\<close>

text \<open>The facts about the two index spaces that both properties use.\<close>

lemma reduction_spaces:
  assumes ri: "mk_reduction l axes keepdim = Inr ri" and ok: "layout_ok l"
  defines "xs \<equiv> rev (zip (ri_reduced ri) (lay_shape l))"
  shows "ri_output_numel ri = prodn (kept_dims xs)" "ri_reduction_numel ri = prodn (reduced_dims xs)" "lay_numel l = prodn (map snd xs)"
    "p < ri_output_numel ri \<Longrightarrow> r < ri_reduction_numel ri \<Longrightarrow> \<forall>d \<in> set (lay_shape l). 0 < d"
proof -
  note M = mk_reduction_Inr[OF ri]
  have rev: "prodn (rev ds) = prodn ds" for ds by (simp add: prodn_def rev_map[symmetric])
  have kept_rev: "kept_dims (rev zs) = rev (kept_dims zs)" "reduced_dims (rev zs) = rev (reduced_dims zs)" for zs
    by (simp_all add: kept_dims_def reduced_dims_def rev_map rev_filter)
  obtain lo where lo: "mk_layout (ri_output_shape ri) = Inr lo" "ri_output_numel ri = lay_numel lo" using M(5) by blast
  have "lay_numel lo = prodn (ri_output_shape ri)"
    using layout_okD(3)[OF mk_layout_ok(1)[OF lo(1)]] mk_layout_ok(2)[OF lo(1)] by simp
  then show out: "ri_output_numel ri = prodn (kept_dims xs)"
    using lo(2) prodn_reduced_shape[OF M(2)] M(4) by (simp add: xs_def kept_rev rev)
  obtain lr where lr: "mk_layout (map (\<lambda>a. lay_shape l ! a) (ri_axes ri)) = Inr lr" "ri_reduction_numel ri = lay_numel lr"
    using M(6) by blast
  have "lay_numel lr = prodn (map (\<lambda>a. lay_shape l ! a) (ri_axes ri))"
    using layout_okD(3)[OF mk_layout_ok(1)[OF lr(1)]] mk_layout_ok(2)[OF lr(1)] by simp
  moreover have "map (\<lambda>a. lay_shape l ! a) (ri_axes ri) = reduced_dims (zip (ri_reduced ri) (lay_shape l))"
  proof -
    have "zip (ri_reduced ri) (lay_shape l) = map (\<lambda>k. (ri_reduced ri ! k, lay_shape l ! k)) [0..<lay_rank l]"
      using M(2) by (auto intro!: nth_equalityI)
    then show ?thesis by (simp add: reduced_dims_def M(3) filter_map comp_def)
  qed
  ultimately show red: "ri_reduction_numel ri = prodn (reduced_dims xs)" using lr(2) by (simp add: xs_def kept_rev rev)
  have snd: "map snd xs = rev (lay_shape l)" using M(2) by (simp add: xs_def rev_map[symmetric])
  show numel: "lay_numel l = prodn (map snd xs)" unfolding snd using layout_okD(3)[OF ok] by (simp add: rev)
  assume "p < ri_output_numel ri" "r < ri_reduction_numel ri"
  then have "prodn (kept_dims xs) * prodn (reduced_dims xs) \<noteq> 0" using out red by simp
  then have "prodn (lay_shape l) \<noteq> 0" unfolding prodn_split using numel layout_okD(3)[OF ok] by simp
  then show "\<forall>d \<in> set (lay_shape l). 0 < d"
    using prodn_0[of "lay_shape l"] layout_okD(2)[OF ok] by (metis less_le)
qed

lemma reduction_offsets:
  assumes ri: "mk_reduction l axes keepdim = Inr ri" and ok: "layout_ok l"
    and p: "p < ri_output_numel ri" and r: "r < ri_reduction_numel ri"
  defines "i \<equiv> pair_index (rev (zip (ri_reduced ri) (lay_shape l))) p r"
  shows "input_logical_index ri p r = Inr i" "input_offset ri p r = storage_offset l i" "i < lay_numel l"
proof -
  note M = mk_reduction_Inr[OF ri] and S = reduction_spaces[OF ri ok]
  note pos = S(4)[OF p r]
  have tags: "\<forall>(b, d) \<in> set (rev (zip (ri_reduced ri) (lay_shape l))). 0 < d" using pos by (auto dest: set_zip_rightD)
  show i: "i < lay_numel l" unfolding S(3) i_def by (rule pair_index_bound[OF tags])
  obtain ll where ll: "mk_layout (lay_shape l) = Inr ll" "ri_logical_strides ri = lay_strides ll" using M(7) by blast
  have st: "ri_logical_strides ri = map int (cstrides (lay_shape l))"
    using layout_okD(7)[OF mk_layout_ok(1)[OF ll(1)]] mk_layout_ok(2,3)[OF ll(1)] ll(2) by simp
  have "lin (rev (zip (lay_shape l) (map int (cstrides (lay_shape l))))) i = 1 * i"
    using lin_contiguous[of i "lay_shape l" 1] i layout_okD(3)[OF ok] by (simp add: comp_def)
  moreover have "i \<le> size_max" using i layout_okD(4)[OF ok] by simp
  ultimately show "input_logical_index ri p r = Inr i"
    using offset_with_strides_lin[OF ri _ pos p r, of "map int (cstrides (lay_shape l))"] st
    by (simp add: input_logical_index_def i_def[symmetric] wrap64_def size_max_def)
  note T = storage_offset_Inr[OF ok i]
  have "wrap64 (lin (rev (zip (lay_shape l) (lay_strides l))) i) = lin (rev (zip (lay_shape l) (lay_strides l))) i"
    using T(2) layout_okD(5)[OF ok] by (simp add: wrap64_def size_max_def)
  then show "input_offset ri p r = storage_offset l i"
    using offset_with_strides_lin[OF ri layout_okD(1)[OF ok] pos p r] T(1) M(1) by (simp add: input_offset_def i_def[symmetric])
qed

text \<open>
  C21: a reduction visits every element exactly once. For every reduction the constructor accepts,
  the pairs of an output index and a reduction index correspond one to one to the logical indices of
  the input; \<open>input_logical_index\<close> computes that index and \<open>input_offset\<close> its place in the storage.
\<close>

theorem reduction_visits_each_once:
  assumes "mk_reduction l axes keepdim = Inr ri" and "mk_layout s = Inr l \<or> mk_strided_layout s st = Inr l"
  shows "\<exists>f. bij_betw (\<lambda>(p, r). f p r) ({..<ri_output_numel ri} \<times> {..<ri_reduction_numel ri}) {..<lay_numel l} \<and>
    (\<forall>p < ri_output_numel ri. \<forall>r < ri_reduction_numel ri.
       input_logical_index ri p r = Inr (f p r) \<and> input_offset ri p r = storage_offset l (f p r))"
proof -
  have ok: "layout_ok l" using assms(2) mk_layout_ok(1) mk_strided_layout_ok(1) by blast
  note S = reduction_spaces[OF assms(1) ok]
  let ?xs = "rev (zip (ri_reduced ri) (lay_shape l))"
  have "bij_betw (\<lambda>(p, r). pair_index ?xs p r) ({..<ri_output_numel ri} \<times> {..<ri_reduction_numel ri}) {..<lay_numel l}"
  proof (cases "ri_output_numel ri = 0 \<or> ri_reduction_numel ri = 0")
    case True
    then have "lay_numel l = 0" using S(1,2,3) prodn_split[of ?xs] by auto
    then show ?thesis using True by (auto simp: bij_betw_def)
  next
    case False
    then have "\<forall>d \<in> set (lay_shape l). 0 < d" using S(4)[of 0 0] by simp
    then have "\<forall>(b, d) \<in> set ?xs. 0 < d" by (auto dest: set_zip_rightD)
    from pair_index_bij[OF this] show ?thesis using S by simp
  qed
  then show ?thesis using reduction_offsets(1,2)[OF assms(1) ok] by (intro exI[of _ "pair_index ?xs"]) simp
qed

definition demo_reduction :: reduction_iterator where
  "demo_reduction = \<lparr>ri_input_layout = demo_layout, ri_logical_strides = [2, 1], ri_axes = [1], ri_reduced = [False, True],
     ri_output_shape = [3], ri_output_numel = 3, ri_reduction_numel = 2, ri_keepdim = False, ri_contiguous_reduction = False\<rparr>"

lemma demo_reduction: "mk_reduction demo_layout [- 1] False = Inr demo_reduction"
proof -
  have mk: "\<exists>l. mk_layout [3] = Inr l \<and> lay_numel l = 3" "\<exists>l. mk_layout [2] = Inr l \<and> lay_numel l = 2"
    "\<exists>l. mk_layout [3, 2] = Inr l \<and> lay_strides l = [2, 1]"
    by (simp_all add: mk_layout_def validate_shape_def checked_numel_def make_contiguous_strides_def
        checked_multiply_def size_max_def int64_max_def)
  then obtain a b c where "mk_layout [3] = Inr a" "lay_numel a = 3" "mk_layout [2] = Inr b" "lay_numel b = 2"
    "mk_layout [3, 2] = Inr c" "lay_strides c = [2, 1]" by blast
  moreover have "foldE (axis_step 2) [- 1] ([False, False], []) = Inr ([False, True], [1])" by (simp add: axis_step_def)
  ultimately show ?thesis
    by (simp add: mk_reduction_def demo_layout_def reduced_shape_def trailing_axes_def demo_reduction_def Let_def numeral_2_eq_2)
qed

theorem reduction_visits_each_once_witness:
  "\<exists>f. bij_betw (\<lambda>(p, r). f p r) ({..<3} \<times> {..<2}) {..<6} \<and>
    (\<forall>p < (3::nat). \<forall>r < (2::nat). input_logical_index demo_reduction p r = Inr (f p r))"
  using reduction_visits_each_once[OF demo_reduction disjI2[OF demo_layout]]
  by (auto simp: demo_reduction_def demo_layout_def)

text \<open>When the reduced dimensions are the trailing ones, the pair index is row-major in the pair.\<close>

lemma pair_index_trailing:
  "r < prodn ds \<Longrightarrow> p < prodn es \<Longrightarrow> pair_index (map (Pair True) ds @ map (Pair False) es) p r = r + prodn ds * p"
proof (induction ds arbitrary: r)
  case Nil
  have "p < prodn es \<Longrightarrow> pair_index (map (Pair False) es) p r = p"
  proof (induction es arbitrary: p)
    case (Cons d es)
    have "0 < nat d" using Cons.prems by (cases "nat d") auto
    then have "p div nat d < prodn es" using Cons.prems by (simp add: div_less_iff_less_mult mult.commute)
    then show ?case using Cons.IH by simp
  qed simp
  then show ?case using Nil by simp
next
  case (Cons d ds)
  have "0 < nat d" using Cons.prems(1) by (cases "nat d") auto
  then have "r div nat d < prodn ds" using Cons.prems(1) by (simp add: div_less_iff_less_mult mult.commute)
  moreover have "r mod nat d + nat d * (r div nat d + m) = r + nat d * m" for m by (simp add: add_mult_distrib2)
  ultimately show ?case using Cons by (simp add: mult.assoc)
qed

lemma trailing_reduced:
  assumes "trailing_axes n axes" and "axes = filter (\<lambda>k. red ! k) [0..<n]" and "k < n"
  shows "red ! k \<longleftrightarrow> n - length axes \<le> k"
proof
  have len: "length axes \<le> n" using assms(2) by (metis diff_zero length_filter_le length_upt)
  assume "red ! k"
  then have "k \<in> set axes" using assms(2,3) by simp
  then obtain i where "i < length axes" "axes ! i = k" by (auto simp: in_set_conv_nth)
  then show "n - length axes \<le> k" using assms(1) by (auto simp: trailing_axes_def)
next
  have len: "length axes \<le> n" using assms(2) by (metis diff_zero length_filter_le length_upt)
  assume k: "n - length axes \<le> k"
  let ?i = "k - (n - length axes)"
  have i: "?i < length axes" using k assms(3) len by linarith
  then have "axes ! ?i = n - length axes + ?i" using assms(1) by (simp add: trailing_axes_def)
  then have "axes ! ?i = k" using k by simp
  then have "k \<in> set axes" using i by (metis nth_mem)
  then show "red ! k" using assms(2) by simp
qed

text \<open>
  The contiguous reduction is a dense scan. When the iterator reports a contiguous reduction, the
  elements reduced into output \<open>p\<close> are the consecutive storage positions from \<open>p\<close> times the reduction size.
\<close>

lemma contiguous_reduction_is_dense:
  assumes "mk_reduction l axes keepdim = Inr ri" and ok: "layout_ok l"
    and "ri_contiguous_reduction ri" and "p < ri_output_numel ri" and "r < ri_reduction_numel ri"
  shows "input_offset ri p r = Inr (p * ri_reduction_numel ri + r)"
    "pair_index (rev (zip (ri_reduced ri) (lay_shape l))) p r = p * ri_reduction_numel ri + r"
proof -
  note M = mk_reduction_Inr[OF assms(1)] and S = reduction_spaces[OF assms(1) ok]
  note R = reduction_offsets[OF assms(1) ok assms(4,5)]
  let ?n = "lay_rank l" and ?red = "ri_reduced ri"
  let ?m = "?n - length (ri_axes ri)"
  let ?es = "rev (take ?m (lay_shape l))" and ?ds = "rev (drop ?m (lay_shape l))"
  have tr: "trailing_axes ?n (ri_axes ri)" and c: "lay_contiguous l" using assms(3) M(8) by simp_all
  note red = trailing_reduced[OF tr M(3)]
  have "zip ?red (lay_shape l) = map (Pair False) (take ?m (lay_shape l)) @ map (Pair True) (drop ?m (lay_shape l))"
  proof (rule nth_equalityI)
    fix k assume "k < length (zip ?red (lay_shape l))"
    then have "k < ?n" by simp
    then show "zip ?red (lay_shape l) ! k = (map (Pair False) (take ?m (lay_shape l)) @ map (Pair True) (drop ?m (lay_shape l))) ! k"
      using red[of k] M(2) by (auto simp: nth_append not_le)
  qed (simp add: M(2))
  then have xs: "rev (zip ?red (lay_shape l)) = map (Pair True) ?ds @ map (Pair False) ?es" by (simp add: rev_map)
  have dims: "kept_dims (map (Pair True) ds @ map (Pair False) es) = es" "reduced_dims (map (Pair True) ds @ map (Pair False) es) = ds" for ds es
    by (simp_all add: kept_dims_def reduced_dims_def filter_map comp_def)
  have sizes: "ri_output_numel ri = prodn ?es" "ri_reduction_numel ri = prodn ?ds" using S(1,2) xs dims[of ?ds ?es] by simp_all
  let ?i = "pair_index (rev (zip ?red (lay_shape l))) p r"
  have "?i = r + prodn ?ds * p" unfolding xs by (rule pair_index_trailing) (use assms(4,5) sizes in simp_all)
  then show i: "?i = p * ri_reduction_numel ri + r" using sizes(2) by (simp add: mult.commute)
  have "lin (rev (zip (lay_shape l) (lay_strides l))) ?i = 1 * ?i"
    using lin_contiguous[of ?i "lay_shape l" 1] R(3) layout_okD(3,7)[OF ok] c by (simp add: comp_def)
  then have "storage_offset l ?i = Inr ?i" using storage_offset_Inr(1)[OF ok R(3)] by simp
  then show "input_offset ri p r = Inr (p * ri_reduction_numel ri + r)" using R(2) i by simp
qed

end
