(* ===== verification/Op_Schema.thy ===== *)
theory Op_Schema
  imports Tensor_Iterator "HOL-Library.Word"
begin

text \<open>
  The operators of the graph and what they promise: \<^verbatim>\<open>include/tinyinfer/graph/node.h\<close>, \<^verbatim>\<open>value.h\<close>,
  \<^verbatim>\<open>include/tinyinfer/ops/operator_schema.h\<close> and \<^verbatim>\<open>src/ops/operator_schema.cpp\<close>. Attributes are validated against
  the schema of the operator and the output specifications are inferred from the input ones. A
  \<open>float\<close> is its IEEE 754 bit pattern.
\<close>

unbundle bit_operations_syntax

section \<open>Operators, attributes and specifications\<close>

datatype op_type =
    Op_Add | Op_Multiply | Op_Subtract | Op_MatMul | Op_Gemm | Op_FusedGemmActivation
  | Op_ReLU | Op_Tanh | Op_GELU | Op_Softmax | Op_LayerNorm | Op_Count

type_synonym float32 = "32 word"

datatype attribute_value =
    Attr_integer int
  | Attr_float float32
  | Attr_boolean bool
  | Attr_string string
  | Attr_integers "int list"

text \<open>\<open>std::map<std::string, AttributeValue>\<close>: an association list in ascending key order.\<close>

type_synonym node_attributes = "(string \<times> attribute_value) list"

record tensor_spec =
  spec_shape :: shape
  spec_dtype :: data_type

datatype attribute_type = Type_integer | Type_float | Type_boolean | Type_string | Type_integers

record attribute_schema =
  as_name :: string
  as_type :: attribute_type
  as_required :: bool

record operator_schema_t =
  os_op :: op_type
  os_name :: string
  os_minimum_inputs :: nat
  os_maximum_inputs :: nat
  os_output_count :: nat
  os_attributes :: "attribute_schema list"

abbreviation optional_attr :: "string \<Rightarrow> attribute_type \<Rightarrow> attribute_schema" where
  "optional_attr n t \<equiv> \<lparr>as_name = n, as_type = t, as_required = False\<rparr>"

abbreviation schema :: "op_type \<Rightarrow> string \<Rightarrow> nat \<Rightarrow> nat \<Rightarrow> attribute_schema list \<Rightarrow> operator_schema_t" where
  "schema op n least most attrs \<equiv> \<lparr>os_op = op, os_name = n, os_minimum_inputs = least, os_maximum_inputs = most,
     os_output_count = 1, os_attributes = attrs\<rparr>"

definition gemm_attributes :: "attribute_schema list" where
  "gemm_attributes = [optional_attr ''alpha'' Type_float, optional_attr ''beta'' Type_float,
     optional_attr ''transA'' Type_integer, optional_attr ''transB'' Type_integer]"

fun operator_schema :: "op_type \<Rightarrow> operator_schema_t result" where
  "operator_schema Op_Add = Inr (schema Op_Add ''Add'' 2 2 [])"
| "operator_schema Op_Multiply = Inr (schema Op_Multiply ''Multiply'' 2 2 [])"
| "operator_schema Op_Subtract = Inr (schema Op_Subtract ''Subtract'' 2 2 [])"
| "operator_schema Op_MatMul = Inr (schema Op_MatMul ''MatMul'' 2 2 [])"
| "operator_schema Op_Gemm = Inr (schema Op_Gemm ''Gemm'' 2 3 gemm_attributes)"
| "operator_schema Op_FusedGemmActivation = Inr (schema Op_FusedGemmActivation ''FusedGemmActivation'' 2 3
     (gemm_attributes @ [\<lparr>as_name = ''activation'', as_type = Type_string, as_required = True\<rparr>]))"
| "operator_schema Op_ReLU = Inr (schema Op_ReLU ''ReLU'' 1 1 [])"
| "operator_schema Op_Tanh = Inr (schema Op_Tanh ''Tanh'' 1 1 [])"
| "operator_schema Op_GELU = Inr (schema Op_GELU ''GELU'' 1 1 [optional_attr ''approximate'' Type_string])"
| "operator_schema Op_Softmax = Inr (schema Op_Softmax ''Softmax'' 1 1 [optional_attr ''axis'' Type_integer])"
| "operator_schema Op_LayerNorm = Inr (schema Op_LayerNorm ''LayerNorm'' 1 3 [optional_attr ''epsilon'' Type_float])"
| "operator_schema Op_Count = Inl (Invalid_argument ''unknown operator type'')"

section \<open>Attributes\<close>

fun attribute_type_of :: "attribute_value \<Rightarrow> attribute_type" where
  "attribute_type_of (Attr_integer _) = Type_integer"
| "attribute_type_of (Attr_float _) = Type_float"
| "attribute_type_of (Attr_boolean _) = Type_boolean"
| "attribute_type_of (Attr_string _) = Type_string"
| "attribute_type_of (Attr_integers _) = Type_integers"

text \<open>\<open>std::get<T>\<close> of the variant.\<close>

fun get_integer :: "attribute_value \<Rightarrow> int result" where
  "get_integer (Attr_integer i) = Inr i"
| "get_integer _ = Inl Bad_variant_access"

fun get_float :: "attribute_value \<Rightarrow> float32 result" where
  "get_float (Attr_float x) = Inr x"
| "get_float _ = Inl Bad_variant_access"

fun get_string :: "attribute_value \<Rightarrow> string result" where
  "get_string (Attr_string s) = Inr s"
| "get_string _ = Inl Bad_variant_access"

definition validate_attribute :: "operator_schema_t \<Rightarrow> string \<times> attribute_value \<Rightarrow> unit result" where
  "validate_attribute s entry = (case entry of (name, v) \<Rightarrow>
     (case find (\<lambda>a. as_name a = name) (os_attributes s) of
        None \<Rightarrow> Inl (Invalid_argument (os_name s @ '' has an unknown attribute: '' @ name))
      | Some a \<Rightarrow>
        if as_type a \<noteq> attribute_type_of v then Inl (Invalid_argument (os_name s @ '' attribute has the wrong type: '' @ name))
        else Inr ()))"

definition validate_attributes :: "operator_schema_t \<Rightarrow> node_attributes \<Rightarrow> unit result" where
  "validate_attributes s attrs =
     bindE (foldE (\<lambda>e _. validate_attribute s e) attrs ()) (\<lambda>_.
     foldE (\<lambda>a _. if as_required a \<and> map_of attrs (as_name a) = None
              then Inl (Invalid_argument (os_name s @ '' is missing a required attribute'')) else Inr ())
       (os_attributes s) ())"

definition require_float32 :: "operator_schema_t \<Rightarrow> tensor_spec list \<Rightarrow> unit result" where
  "require_float32 s inputs =
     foldE (\<lambda>i _. if spec_dtype i \<noteq> Float32
              then Inl (Invalid_argument (os_name s @ '' currently requires float32 inputs'')) else Inr ()) inputs ()"

section \<open>Shape inference\<close>

definition iterator_shape :: "shape list \<Rightarrow> shape result" where
  "iterator_shape shapes = bindE (mapE mk_layout shapes) (\<lambda>ls. bindE (mk_iterator ls) (\<lambda>it. Inr (it_shape it)))"

definition infer_elementwise :: "tensor_spec list \<Rightarrow> tensor_spec result" where
  "infer_elementwise inputs =
     bindE (iterator_shape [spec_shape (inputs ! 0), spec_shape (inputs ! 1)])
       (\<lambda>sh. Inr \<lparr>spec_shape = sh, spec_dtype = spec_dtype (inputs ! 0)\<rparr>)"

definition infer_binary :: "tensor_spec list \<Rightarrow> tensor_spec list result" where
  "infer_binary inputs =
     (if spec_dtype (inputs ! 0) \<noteq> spec_dtype (inputs ! 1) then Inl (Invalid_argument ''Elementwise input dtypes must match'')
      else bindE (infer_elementwise inputs) (\<lambda>s. Inr [s]))"

definition normalized_axis :: "tensor_spec \<Rightarrow> node_attributes \<Rightarrow> int result" where
  "normalized_axis input attrs =
     bindE (case map_of attrs ''axis'' of None \<Rightarrow> Inr (- 1) | Some v \<Rightarrow> get_integer v) (\<lambda>a.
       let rank = int (length (spec_shape input)); axis = (if a < 0 then a + rank else a) in
       if axis < 0 \<or> axis \<ge> rank then Inl (Out_of_range ''Softmax axis is out of range'')
       else if spec_shape input ! nat axis = 0 then Inl (Invalid_argument ''Softmax axis must not be empty'')
       else Inr axis)"

definition infer_matmul :: "tensor_spec list \<Rightarrow> tensor_spec list result" where
  "infer_matmul inputs =
     (let a = inputs ! 0; b = inputs ! 1 in
      if spec_dtype a \<noteq> spec_dtype b then Inl (Invalid_argument ''MatMul input dtypes must match'')
      else if length (spec_shape a) \<noteq> 2 \<or> length (spec_shape b) \<noteq> 2 then Inl (Invalid_argument ''MatMul expects rank-2 inputs'')
      else if spec_shape a ! 1 \<noteq> spec_shape b ! 0 then Inl (Invalid_argument ''MatMul inner dimensions must match'')
      else Inr [\<lparr>spec_shape = [spec_shape a ! 0, spec_shape b ! 1], spec_dtype = spec_dtype a\<rparr>])"

definition integer_attribute :: "node_attributes \<Rightarrow> string \<Rightarrow> int result" where
  "integer_attribute attrs name = (case map_of attrs name of None \<Rightarrow> Inr 0 | Some v \<Rightarrow> get_integer v)"

definition infer_gemm :: "op_type \<Rightarrow> tensor_spec list \<Rightarrow> node_attributes \<Rightarrow> tensor_spec list result" where
  "infer_gemm op inputs attrs =
     bindE (if op = Op_FusedGemmActivation
            then bindE (case map_of attrs ''activation'' of None \<Rightarrow> Inl (Out_of_range ''map::at'') | Some v \<Rightarrow> get_string v)
                   (\<lambda>s. if s \<noteq> ''relu'' then Inl (Invalid_argument ''FusedGemmActivation currently supports only relu'') else Inr ())
            else Inr ()) (\<lambda>_.
     let a = inputs ! 0; b = inputs ! 1 in
     if spec_dtype a \<noteq> spec_dtype b \<or> (length inputs = 3 \<and> spec_dtype a \<noteq> spec_dtype (inputs ! 2))
     then Inl (Invalid_argument ''Gemm input dtypes must match'')
     else if length (spec_shape a) \<noteq> 2 \<or> length (spec_shape b) \<noteq> 2 then Inl (Invalid_argument ''Gemm expects rank-2 A and B inputs'')
     else bindE (integer_attribute attrs ''transA'') (\<lambda>ta. bindE (integer_attribute attrs ''transB'') (\<lambda>tb.
       if (ta \<noteq> 0 \<and> ta \<noteq> 1) \<or> (tb \<noteq> 0 \<and> tb \<noteq> 1) then Inl (Invalid_argument ''Gemm transpose attributes must be 0 or 1'')
       else let m = spec_shape a ! (if ta = 0 then 0 else 1); ka = spec_shape a ! (if ta = 0 then 1 else 0);
                kb = spec_shape b ! (if tb = 0 then 0 else 1); n = spec_shape b ! (if tb = 0 then 1 else 0) in
         if ka \<noteq> kb then Inl (Invalid_argument ''Gemm inner dimensions must match'')
         else bindE (if length inputs = 3
                     then bindE (iterator_shape [[m, n], spec_shape (inputs ! 2)])
                            (\<lambda>sh. if sh \<noteq> [m, n] then Inl (Invalid_argument ''Gemm bias must broadcast to the output shape'') else Inr ())
                     else Inr ())
                (\<lambda>_. Inr [\<lparr>spec_shape = [m, n], spec_dtype = spec_dtype a\<rparr>]))))"

definition float_is_finite :: "float32 \<Rightarrow> bool" where
  "float_is_finite x \<longleftrightarrow> drop_bit 23 x AND 0xFF \<noteq> 0xFF"

definition float_is_negative :: "float32 \<Rightarrow> bool" where
  "float_is_negative x \<longleftrightarrow> bit x 31 \<and> x AND 0x7FFFFFFF \<noteq> 0 \<and> \<not> (x AND 0x7FFFFFFF > 0x7F800000)"

definition infer_layer_norm :: "tensor_spec list \<Rightarrow> node_attributes \<Rightarrow> tensor_spec list result" where
  "infer_layer_norm inputs attrs =
     (let x = inputs ! 0 in
      if spec_shape x = [] \<or> last (spec_shape x) = 0 then Inl (Invalid_argument ''LayerNorm expects a non-empty final dimension'')
      else let parameter_shape = [last (spec_shape x)] in
        if length inputs \<ge> 2 \<and> (spec_shape (inputs ! 1) \<noteq> parameter_shape \<or> spec_dtype (inputs ! 1) \<noteq> spec_dtype x)
        then Inl (Invalid_argument ''LayerNorm weight must match the final dimension'')
        else if length inputs \<ge> 2 \<and> length inputs = 3 \<and>
                (spec_shape (inputs ! 2) \<noteq> parameter_shape \<or> spec_dtype (inputs ! 2) \<noteq> spec_dtype x)
        then Inl (Invalid_argument ''LayerNorm bias must match the final dimension'')
        else bindE (case map_of attrs ''epsilon'' of None \<Rightarrow> Inr ()
                    | Some v \<Rightarrow> bindE (get_float v) (\<lambda>e.
                        if \<not> float_is_finite e \<or> float_is_negative e
                        then Inl (Invalid_argument ''LayerNorm epsilon must be finite and non-negative'') else Inr ()))
               (\<lambda>_. Inr [x]))"

definition infer_gelu :: "tensor_spec list \<Rightarrow> node_attributes \<Rightarrow> tensor_spec list result" where
  "infer_gelu inputs attrs =
     bindE (case map_of attrs ''approximate'' of None \<Rightarrow> Inr ()
            | Some v \<Rightarrow> bindE (get_string v) (\<lambda>s.
                if s \<noteq> ''none'' \<and> s \<noteq> ''tanh'' then Inl (Invalid_argument (''GELU approximate must be '' @ [CHR 0x27] @ ''none'' @ [CHR 0x27] @
                  '' or '' @ [CHR 0x27] @ ''tanh'' @ [CHR 0x27])) else Inr ()))
       (\<lambda>_. Inr [inputs ! 0])"

definition validate_spec :: "tensor_spec \<Rightarrow> unit result" where
  "validate_spec s = bindE (mk_layout (spec_shape s)) (\<lambda>l. bindE (size_bytes l (spec_dtype s)) (\<lambda>_. Inr ()))"

fun infer_dispatch :: "op_type \<Rightarrow> tensor_spec list \<Rightarrow> node_attributes \<Rightarrow> tensor_spec list result" where
  "infer_dispatch Op_Add inputs attrs = infer_binary inputs"
| "infer_dispatch Op_Multiply inputs attrs = infer_binary inputs"
| "infer_dispatch Op_Subtract inputs attrs = infer_binary inputs"
| "infer_dispatch Op_MatMul inputs attrs = infer_matmul inputs"
| "infer_dispatch Op_Gemm inputs attrs = infer_gemm Op_Gemm inputs attrs"
| "infer_dispatch Op_FusedGemmActivation inputs attrs = infer_gemm Op_FusedGemmActivation inputs attrs"
| "infer_dispatch Op_ReLU inputs attrs = Inr [inputs ! 0]"
| "infer_dispatch Op_Tanh inputs attrs = Inr [inputs ! 0]"
| "infer_dispatch Op_GELU inputs attrs = infer_gelu inputs attrs"
| "infer_dispatch Op_Softmax inputs attrs =
     (if spec_shape (inputs ! 0) = [] then Inl (Invalid_argument ''Softmax expects rank >= 1'')
      else bindE (normalized_axis (inputs ! 0) attrs) (\<lambda>_. Inr [inputs ! 0]))"
| "infer_dispatch Op_LayerNorm inputs attrs = infer_layer_norm inputs attrs"
| "infer_dispatch Op_Count inputs attrs = Inl (Logic_error ''operator shape inference is not implemented'')"

definition infer_output_specs :: "op_type \<Rightarrow> tensor_spec list \<Rightarrow> node_attributes \<Rightarrow> tensor_spec list result" where
  "infer_output_specs op inputs attrs =
     bindE (operator_schema op) (\<lambda>s.
       if length inputs < os_minimum_inputs s \<or> length inputs > os_maximum_inputs s
       then Inl (Invalid_argument (os_name s @ '' received the wrong number of inputs''))
       else bindE (foldE (\<lambda>i _. validate_spec i) inputs ()) (\<lambda>_.
            bindE (validate_attributes s attrs) (\<lambda>_. bindE (require_float32 s inputs) (\<lambda>_.
            infer_dispatch op inputs attrs))))"

lemma foldE_unit: "foldE (\<lambda>x _. f x) xs () = Inr u \<longleftrightarrow> (\<forall>x \<in> set xs. f x = Inr ())"
  by (induction xs) auto

text \<open>Each inference gives one output with the data type of the first input.\<close>

definition single :: "tensor_spec list \<Rightarrow> tensor_spec list \<Rightarrow> bool" where
  "single inputs outs \<longleftrightarrow> (\<exists>out. outs = [out] \<and> spec_dtype out = spec_dtype (inputs ! 0))"

lemma single_intros [simp]: "single inputs [inputs ! 0]" "spec_dtype out = spec_dtype (inputs ! 0) \<Longrightarrow> single inputs [out]"
  by (simp_all add: single_def)

lemma if_Inr: "(if b then Inl e else m) = Inr x \<longleftrightarrow> \<not> b \<and> m = Inr x"
  by simp

lemma infer_single:
  "infer_binary inputs = Inr outs \<Longrightarrow> single inputs outs"
  "infer_matmul inputs = Inr outs \<Longrightarrow> single inputs outs"
  "infer_gemm op inputs attrs = Inr outs \<Longrightarrow> single inputs outs"
  "infer_gelu inputs attrs = Inr outs \<Longrightarrow> single inputs outs"
  "infer_layer_norm inputs attrs = Inr outs \<Longrightarrow> single inputs outs"
  unfolding infer_binary_def infer_elementwise_def infer_matmul_def infer_gemm_def infer_gelu_def infer_layer_norm_def
    Let_def bindE_eq_Inr if_Inr by (elim exE conjE, simp add: single_def)+ (auto simp: single_def)

lemma infer_dispatch_single: "infer_dispatch op inputs attrs = Inr outs \<Longrightarrow> single inputs outs"
  by (cases op) (auto simp: infer_single intro: infer_single split: if_splits)

text \<open>What a successful inference says about the inputs and outputs.\<close>

lemma infer_output_Inr:
  assumes "infer_output_specs op inputs attrs = Inr outs"
  obtains s out where "operator_schema op = Inr s" "outs = [out]" "spec_dtype out = Float32" "0 < length inputs"
    "os_minimum_inputs s \<le> length inputs" "length inputs \<le> os_maximum_inputs s" "os_output_count s = 1"
    "\<forall>i \<in> set inputs. spec_dtype i = Float32 \<and> validate_spec i = Inr ()"
proof -
  obtain s where s: "operator_schema op = Inr s" and n: "os_minimum_inputs s \<le> length inputs" "length inputs \<le> os_maximum_inputs s"
    and v: "\<forall>i \<in> set inputs. validate_spec i = Inr ()" and r: "require_float32 s inputs = Inr ()"
    using assms by (auto simp: infer_output_specs_def foldE_unit not_less split: if_splits)
  have f: "\<forall>i \<in> set inputs. spec_dtype i = Float32" using r by (auto simp: require_float32_def foldE_unit split: if_splits)
  have c: "os_output_count s = 1" "0 < os_minimum_inputs s" using s by (cases op; auto)+
  then have 0: "0 < length inputs" using n by linarith
  then have f0: "spec_dtype (inputs ! 0) = Float32" using f by (metis nth_mem)
  have "single inputs outs"
    using assms infer_dispatch_single unfolding infer_output_specs_def bindE_eq_Inr if_Inr by blast
  then have "\<exists>out. outs = [out] \<and> spec_dtype out = Float32" using f0 by (simp add: single_def)
  then show ?thesis using that[OF s _ _ 0 n c(1)] f v by blast
qed

text \<open>The shapes an operator accepts, and the shape of its result, stated without the layouts of the code.\<close>

definition aligned :: "shape \<Rightarrow> nat \<Rightarrow> shape" where
  "aligned sh n = replicate (n - length sh) 1 @ sh"

definition broadcasts :: "shape \<Rightarrow> shape \<Rightarrow> shape \<Rightarrow> bool" where
  "broadcasts a b out \<longleftrightarrow> length out = max (length a) (length b) \<and>
     (\<forall>k < length out. let x = aligned a (length out) ! k; y = aligned b (length out) ! k in
        (x = 1 \<or> y = 1 \<or> x = y) \<and> out ! k = (if x = 1 then y else x))"

definition oriented :: "int \<Rightarrow> shape \<Rightarrow> shape" where
  "oriented tr sh = (if tr = 0 then sh else rev sh)"

definition multiplies :: "shape \<Rightarrow> shape \<Rightarrow> shape \<Rightarrow> bool" where
  "multiplies a b out \<longleftrightarrow> length a = 2 \<and> length b = 2 \<and> a ! 1 = b ! 0 \<and> out = [a ! 0, b ! 1]"

fun output_rule :: "op_type \<Rightarrow> shape list \<Rightarrow> node_attributes \<Rightarrow> shape \<Rightarrow> bool" where
  "output_rule Op_Add ins attrs out = broadcasts (ins ! 0) (ins ! 1) out"
| "output_rule Op_Multiply ins attrs out = broadcasts (ins ! 0) (ins ! 1) out"
| "output_rule Op_Subtract ins attrs out = broadcasts (ins ! 0) (ins ! 1) out"
| "output_rule Op_MatMul ins attrs out = multiplies (ins ! 0) (ins ! 1) out"
| "output_rule Op_Gemm ins attrs out = (\<exists>ta \<in> {0, 1}. \<exists>tb \<in> {0, 1}.
     integer_attribute attrs ''transA'' = Inr ta \<and> integer_attribute attrs ''transB'' = Inr tb \<and>
     multiplies (oriented ta (ins ! 0)) (oriented tb (ins ! 1)) out \<and> (length ins = 3 \<longrightarrow> broadcasts out (ins ! 2) out))"
| "output_rule Op_FusedGemmActivation ins attrs out = (map_of attrs ''activation'' = Some (Attr_string ''relu'') \<and>
     (\<exists>ta \<in> {0, 1}. \<exists>tb \<in> {0, 1}. integer_attribute attrs ''transA'' = Inr ta \<and> integer_attribute attrs ''transB'' = Inr tb \<and>
     multiplies (oriented ta (ins ! 0)) (oriented tb (ins ! 1)) out \<and> (length ins = 3 \<longrightarrow> broadcasts out (ins ! 2) out)))"
| "output_rule Op_ReLU ins attrs out = (out = ins ! 0)"
| "output_rule Op_Tanh ins attrs out = (out = ins ! 0)"
| "output_rule Op_GELU ins attrs out = (out = ins ! 0)"
| "output_rule Op_Softmax ins attrs out = (out = ins ! 0 \<and> out \<noteq> [])"
| "output_rule Op_LayerNorm ins attrs out = (out = ins ! 0 \<and> out \<noteq> [] \<and> last out \<noteq> 0 \<and>
     (\<forall>i < length ins. 0 < i \<longrightarrow> ins ! i = [last out]))"
| "output_rule Op_Count ins attrs out = False"

lemma length_aligned [simp]: "length sh \<le> n \<Longrightarrow> length (aligned sh n) = n"
  by (simp add: aligned_def)

lemma broadcast_operand_aligned:
  assumes "broadcast_operand l r = Inr r'" and "lay_rank l \<le> length r"
  shows "length r' = length r \<and> (\<forall>k < length r. broadcast_extent (r ! k) (aligned (lay_shape l) (length r) ! k) = Inr (r' ! k))"
proof -
  let ?n = "length r - lay_rank l"
  obtain tl where t: "mapE (\<lambda>(r, d). broadcast_extent r d) (zip (drop ?n r) (lay_shape l)) = Inr tl" "r' = take ?n r @ tl"
    using assms(1) by (auto simp: broadcast_operand_def Let_def)
  have len: "length tl = lay_rank l" using mapE_length[OF t(1)] assms(2) by simp
  have "broadcast_extent (r ! k) (aligned (lay_shape l) (length r) ! k) = Inr (r' ! k)" if k: "k < length r" for k
  proof (cases "k < ?n")
    case True
    then show ?thesis using k by (simp add: aligned_def nth_append t(2) broadcast_extent_def)
  next
    case False
    then have "broadcast_extent (r ! k) (lay_shape l ! (k - ?n)) = Inr (tl ! (k - ?n))"
      using mapE_nth[OF t(1), of "k - ?n"] k assms(2) by simp
    then show ?thesis using False k assms(2) by (simp add: aligned_def nth_append t(2))
  qed
  then show ?thesis using len assms(2) by (simp add: t(2))
qed

lemma iterator_shape_broadcasts:
  assumes "iterator_shape [a, b] = Inr sh"
  shows "broadcasts a b sh"
proof -
  obtain la lb it where l: "mk_layout a = Inr la" "mk_layout b = Inr lb" and it: "mk_iterator [la, lb] = Inr it" and sh: "sh = it_shape it"
    using assms by (auto simp: iterator_shape_def)
  have shapes: "lay_shape la = a" "lay_shape lb = b" using mk_layout_ok(2)[OF l(1)] mk_layout_ok(2)[OF l(2)] by simp_all
  let ?n = "max (length a) (length b)"
  have "broadcast_shape [la, lb] = Inr sh" unfolding sh using it by (rule mk_iterator_Inr) blast
  then obtain r where r: "broadcast_operand la (replicate ?n 1) = Inr r" "broadcast_operand lb r = Inr sh"
    by (auto simp: broadcast_shape_def shapes max_def split: if_splits)
  note A = broadcast_operand_aligned[OF r(1), unfolded shapes, simplified]
  have len: "length r = ?n" using A by blast
  have ra: "r ! k = aligned a ?n ! k" if "k < ?n" for k using A that by (auto simp: broadcast_extent_def)
  have "lay_rank lb \<le> length r" by (simp add: len shapes)
  from broadcast_operand_aligned[OF r(2) this, unfolded shapes len]
  have "length sh = ?n" and B: "\<And>k. k < ?n \<Longrightarrow> broadcast_extent (aligned a ?n ! k) (aligned b ?n ! k) = Inr (sh ! k)"
    using ra by auto
  show ?thesis unfolding broadcasts_def Let_def \<open>length sh = ?n\<close>
  proof (intro conjI refl allI impI)
    fix k assume k: "k < ?n"
    show "aligned a ?n ! k = 1 \<or> aligned b ?n ! k = 1 \<or> aligned a ?n ! k = aligned b ?n ! k"
      "sh ! k = (if aligned a ?n ! k = 1 then aligned b ?n ! k else aligned a ?n ! k)"
      using B[OF k] by (auto simp: broadcast_extent_def split: if_splits)
  qed
qed

lemma infer_binary_rule: "infer_binary inputs = Inr [out] \<Longrightarrow> broadcasts (spec_shape (inputs ! 0)) (spec_shape (inputs ! 1)) (spec_shape out)"
  by (auto simp: infer_binary_def infer_elementwise_def dest: iterator_shape_broadcasts split: if_splits)

lemma infer_gemm_rule:
  assumes "infer_gemm op inputs attrs = Inr [out]" and n: "2 \<le> length inputs"
  shows "\<exists>ta \<in> {0, 1}. \<exists>tb \<in> {0, 1}. integer_attribute attrs ''transA'' = Inr ta \<and> integer_attribute attrs ''transB'' = Inr tb \<and>
    multiplies (oriented ta (spec_shape (inputs ! 0))) (oriented tb (spec_shape (inputs ! 1))) (spec_shape out) \<and>
    (length inputs = 3 \<longrightarrow> broadcasts (spec_shape out) (spec_shape (inputs ! 2)) (spec_shape out))"
proof -
  let ?a = "spec_shape (inputs ! 0)" and ?b = "spec_shape (inputs ! 1)"
  obtain ta tb where t: "integer_attribute attrs ''transA'' = Inr ta" "integer_attribute attrs ''transB'' = Inr tb" "ta \<in> {0, 1}" "tb \<in> {0, 1}"
    and len: "length ?a = 2" "length ?b = 2"
    and k: "?a ! (if ta = 0 then 1 else 0) = ?b ! (if tb = 0 then 0 else 1)"
    and out: "spec_shape out = [?a ! (if ta = 0 then 0 else 1), ?b ! (if tb = 0 then 1 else 0)]"
    and bias: "length inputs = 3 \<longrightarrow> (\<exists>sh. iterator_shape [spec_shape out, spec_shape (inputs ! 2)] = Inr sh \<and> sh = spec_shape out)"
    using assms(1) unfolding infer_gemm_def Let_def bindE_eq_Inr if_Inr by (elim exE conjE) (force split: if_splits)
  have "multiplies (oriented ta ?a) (oriented tb ?b) (spec_shape out)"
    using t(3,4) len k out by (auto simp: multiplies_def oriented_def rev_nth)
  then show ?thesis using t bias iterator_shape_broadcasts by blast
qed

lemma infer_dispatch_rule:
  assumes d: "infer_dispatch op inputs attrs = Inr [out]" and "operator_schema op = Inr s" and "os_minimum_inputs s \<le> length inputs"
    and "length inputs \<le> os_maximum_inputs s"
  shows "output_rule op (map spec_shape inputs) attrs (spec_shape out)"
proof -
  have n: "inputs \<noteq> []" "op \<in> {Op_Add, Op_Multiply, Op_Subtract, Op_MatMul, Op_Gemm, Op_FusedGemmActivation} \<Longrightarrow> 2 \<le> length inputs"
    using assms(2,3) by (cases op; auto)+
  have max: "length inputs \<le> 3" using assms(2,4) by (cases op) auto
  have m: "map spec_shape inputs ! 0 = spec_shape (inputs ! 0)"
    "2 \<le> length inputs \<Longrightarrow> map spec_shape inputs ! 1 = spec_shape (inputs ! 1)"
    "length inputs = 3 \<Longrightarrow> map spec_shape inputs ! 2 = spec_shape (inputs ! 2)" using n(1) by simp_all
  show ?thesis
  proof (cases op)
    case Op_MatMul
    then show ?thesis using d n(2) m by (auto simp: infer_matmul_def multiplies_def Let_def split: if_splits)
  next
    case Op_Gemm
    then show ?thesis using d n(2) m infer_gemm_rule[of Op_Gemm inputs attrs out] by simp
  next
    case Op_FusedGemmActivation
    have "map_of attrs ''activation'' = Some (Attr_string ''relu'')"
      using d Op_FusedGemmActivation
      by (auto simp: infer_gemm_def split: if_splits option.splits elim: get_string.elims)
    then show ?thesis using d Op_FusedGemmActivation n(2) m infer_gemm_rule[of Op_FusedGemmActivation inputs attrs out] by simp
  next
    case Op_LayerNorm
    then have r: "infer_layer_norm inputs attrs = Inr [out]" using d by simp
    have out: "out = inputs ! 0" "spec_shape out \<noteq> []" "last (spec_shape out) \<noteq> 0" using r by (auto simp: infer_layer_norm_def Let_def split: if_splits)
    have "spec_shape (inputs ! i) = [last (spec_shape out)]" if i: "i < length inputs" "0 < i" for i
    proof -
      from i max consider "i = 1" | "i = 2" by linarith
      then show ?thesis using r i(1) max out(1) by cases (auto simp: infer_layer_norm_def Let_def split: if_splits)
    qed
    then show ?thesis using Op_LayerNorm out m(1) by simp
  qed (use d n m infer_binary_rule in \<open>auto simp: infer_gelu_def split: if_splits\<close>)
qed

text \<open>
  C35: shape inference follows the operators. When it succeeds, the number of inputs is within the schema, every
  input specification is valid and \<open>float32\<close>, and the result is exactly one \<open>float32\<close> specification whose shape is
  the one the operator has for these inputs: the broadcast of the operands of an elementwise operator, the outer
  dimensions of a matrix product (after the transpositions of Gemm, with a bias that broadcasts to them) whose inner
  dimensions agree, and the shape of the first input elsewhere. The result itself is not validated here: its element
  count may overflow, which \<open>add_node\<close> checks.
\<close>

theorem inferred_spec_ok:
  assumes "infer_output_specs op inputs attrs = Inr outs"
  shows "\<exists>s out. operator_schema op = Inr s \<and> outs = [out] \<and> spec_dtype out = Float32 \<and> length outs = os_output_count s \<and>
    os_minimum_inputs s \<le> length inputs \<and> length inputs \<le> os_maximum_inputs s \<and>
    (\<forall>i < length inputs. spec_dtype (inputs ! i) = Float32 \<and> validate_spec (inputs ! i) = Inr ()) \<and>
    output_rule op (map spec_shape inputs) attrs (spec_shape out)"
proof -
  from assms obtain s out where o: "operator_schema op = Inr s" "outs = [out]" "spec_dtype out = Float32"
    "os_minimum_inputs s \<le> length inputs" "length inputs \<le> os_maximum_inputs s" "os_output_count s = 1"
    "\<forall>i \<in> set inputs. spec_dtype i = Float32 \<and> validate_spec i = Inr ()" by (rule infer_output_Inr)
  have "infer_dispatch op inputs attrs = Inr [out]" using assms o(1,2) by (auto simp: infer_output_specs_def split: if_splits)
  from infer_dispatch_rule[OF this o(1,4,5)] show ?thesis using o by (intro exI[of _ s] exI[of _ out]) auto
qed

theorem inferred_spec_ok_witness:
  "infer_output_specs Op_MatMul [\<lparr>spec_shape = [2, 3], spec_dtype = Float32\<rparr>, \<lparr>spec_shape = [3, 4], spec_dtype = Float32\<rparr>] [] =
     Inr [\<lparr>spec_shape = [2, 4], spec_dtype = Float32\<rparr>] \<and> validate_spec \<lparr>spec_shape = [3, 4], spec_dtype = Float32\<rparr> = Inr ()"
proof -
  have "infer_output_specs Op_MatMul [\<lparr>spec_shape = [2, 3], spec_dtype = Float32\<rparr>, \<lparr>spec_shape = [3, 4], spec_dtype = Float32\<rparr>] [] =
     Inr [\<lparr>spec_shape = [2, 4], spec_dtype = Float32\<rparr>]"
    by (simp add: infer_output_specs_def validate_spec_def mk_layout_def validate_shape_def checked_numel_def make_contiguous_strides_def
        checked_multiply_def size_max_def int64_max_def size_bytes_def validate_attributes_def require_float32_def infer_matmul_def Let_def)
  from inferred_spec_ok[OF this] this show ?thesis by (auto dest: spec[of _ "1::nat"])
qed

end
