(* ===== verification/Memory.thy ===== *)
theory Memory
  imports Tensor_Layout "HOL-Library.Word"
begin

text \<open>
  The memory layer of \<^verbatim>\<open>src/core/memory\<close>: the aligned CPU allocator, the arena allocator, owned buffers and
  the storage views over them. Addresses are natural numbers, 0 being the null pointer. The arena is
  shown never to hand out overlapping, misaligned or out-of-bounds memory.
\<close>

unbundle bit_operations_syntax

type_synonym byte = "8 word"

section \<open>Allocators\<close>

definition is_power_of_two :: "nat \<Rightarrow> bool" where
  "is_power_of_two n \<longleftrightarrow> n \<noteq> 0 \<and> n AND (n - 1) = 0"

text \<open>The CPU allocator; \<open>operator_new\<close> is the aligned \<open>::operator new\<close>, which may fail.\<close>

definition cpu_allocate :: "(nat \<Rightarrow> nat \<Rightarrow> nat option) \<Rightarrow> nat \<Rightarrow> nat \<Rightarrow> nat result" where
  "cpu_allocate operator_new bytes alignment =
     (if bytes = 0 then Inr 0
      else if alignment = 0 \<or> alignment AND (alignment - 1) \<noteq> 0
      then Inl (Invalid_argument ''allocation alignment must be a non-zero power of two'')
      else case operator_new bytes alignment of None \<Rightarrow> Inl Bad_alloc | Some p \<Rightarrow> Inr p)"

record arena_allocator =
  ar_capacity :: nat
  ar_alignment :: nat
  ar_offset :: nat
  ar_peak_used :: nat
  ar_allocation_count :: nat
  ar_active_allocations :: nat
  ar_buffer :: nat

definition mk_arena :: "nat \<Rightarrow> (nat \<Rightarrow> nat \<Rightarrow> nat result) option \<Rightarrow> nat \<Rightarrow> arena_allocator result" where
  "mk_arena capacity backing_allocator alignment =
     (case backing_allocator of None \<Rightarrow> Inl (Invalid_argument ''arena backing allocator must not be null'')
      | Some allocate \<Rightarrow>
        if \<not> is_power_of_two alignment then Inl (Invalid_argument ''arena alignment must be a non-zero power of two'')
        else bindE (if capacity > 0 then bindE (allocate capacity alignment) (\<lambda>p. if p = 0 then Inl Bad_alloc else Inr p)
                    else Inr 0)
          (\<lambda>p. Inr \<lparr>ar_capacity = capacity, ar_alignment = alignment, ar_offset = 0, ar_peak_used = 0,
                    ar_allocation_count = 0, ar_active_allocations = 0, ar_buffer = p\<rparr>))"

definition align_up :: "nat \<Rightarrow> nat \<Rightarrow> nat" where
  "align_up offset alignment =
     unat ((word_of_nat (offset + alignment - 1) :: 64 word) AND NOT (word_of_nat (alignment - 1)))"

definition arena_allocate :: "nat \<Rightarrow> nat \<Rightarrow> arena_allocator \<Rightarrow> (nat \<times> arena_allocator) result" where
  "arena_allocate bytes alignment a =
     (if bytes = 0 then Inr (0, a)
      else if \<not> is_power_of_two alignment then Inl (Invalid_argument ''allocation alignment must be a non-zero power of two'')
      else if alignment > ar_alignment a then Inl (Invalid_argument ''requested alignment exceeds arena alignment'')
      else if ar_offset a > size_max - (alignment - 1) then Inl Bad_alloc
      else let aligned_offset = align_up (ar_offset a) alignment in
        if aligned_offset > ar_capacity a \<or> bytes > ar_capacity a - aligned_offset then Inl Bad_alloc
        else Inr (ar_buffer a + aligned_offset,
          a\<lparr>ar_offset := aligned_offset + bytes, ar_peak_used := max (ar_peak_used a) (aligned_offset + bytes),
            ar_allocation_count := wrap64 (ar_allocation_count a + 1),
            ar_active_allocations := wrap64 (ar_active_allocations a + 1)\<rparr>))"

definition arena_deallocate :: "nat \<Rightarrow> arena_allocator \<Rightarrow> arena_allocator" where
  "arena_deallocate pointer a =
     (if pointer = 0 \<or> ar_buffer a = 0 \<or> ar_active_allocations a = 0 then a
      else if pointer \<ge> ar_buffer a \<and> pointer < ar_buffer a + ar_capacity a
      then a\<lparr>ar_active_allocations := ar_active_allocations a - 1\<rparr> else a)"

definition arena_reset :: "arena_allocator \<Rightarrow> arena_allocator result" where
  "arena_reset a =
     (if ar_active_allocations a \<noteq> 0 then Inl (Logic_error ''cannot reset arena while allocations are still active'')
      else Inr (a\<lparr>ar_offset := 0\<rparr>))"

definition arena_remaining :: "arena_allocator \<Rightarrow> nat" where
  "arena_remaining a = ar_capacity a - ar_offset a"

section \<open>Powers of two and rounding\<close>

lemma and_pred_zero: "n \<noteq> 0 \<Longrightarrow> n AND (n - 1) = 0 \<Longrightarrow> \<exists>k. n = 2 ^ k" for n :: nat
proof (induction n rule: less_induct)
  case (less n)
  show ?case
  proof (cases "even n")
    case True
    then obtain m where m: "n = 2 * m" by (elim evenE)
    then have m0: "m \<noteq> 0" using less.prems(1) by simp
    have "n - 1 = 1 + 2 * (m - 1)" using m m0 by simp
    then have "n AND (n - 1) = 2 * (m AND (m - 1))" using m by (subst and_nat_rec) simp
    then have "m AND (m - 1) = 0" using less.prems(2) by simp
    then obtain k where "m = 2 ^ k" using less.IH[of m] m m0 by auto
    then show ?thesis using m by (metis power_Suc)
  next
    case False
    then obtain m where m: "n = 2 * m + 1" by (elim oddE)
    have "n AND (n - 1) = 2 * (m AND m)" using m by (subst and_nat_rec) simp
    then have "m = 0" using less.prems(2) by simp
    then show ?thesis using m by (intro exI[of _ 0]) simp
  qed
qed

lemma is_power_of_two_iff: "is_power_of_two n \<longleftrightarrow> (\<exists>k. n = 2 ^ k)"
proof
  assume "is_power_of_two n"
  then show "\<exists>k. n = 2 ^ k" using and_pred_zero by (simp add: is_power_of_two_def)
next
  assume "\<exists>k. n = 2 ^ k"
  then obtain k where n: "n = 2 ^ k" by blast
  have "2 ^ k AND mask k = (0::nat)" by (rule bit_eqI) (simp add: bit_and_iff bit_exp_iff bit_mask_iff)
  then have "2 ^ k AND (2 ^ k - 1) = (0::nat)" by (simp add: mask_eq_exp_minus_1)
  then show "is_power_of_two n" by (simp add: is_power_of_two_def n)
qed

lemma align_up_eq:
  assumes "k < 64" and "offset + 2 ^ k - 1 \<le> size_max"
  shows "align_up offset (2 ^ k) = offset + 2 ^ k - 1 - (offset + 2 ^ k - 1) mod 2 ^ k"
proof -
  let ?x = "offset + 2 ^ k - 1"
  let ?w = "word_of_nat ?x :: 64 word"
  have x: "unat ?w = ?x" using assms(2) by (simp add: unat_of_nat size_max_def take_bit_eq_mod)
  have m: "(word_of_nat (2 ^ k - 1) :: 64 word) = mask k" by (simp add: mask_eq_exp_minus_1 of_nat_diff)
  have "?w - take_bit k ?w = ?w AND NOT (take_bit k ?w)"
    by (rule disjunctive_diff_eq_and_not) (rule bit_eqI, simp add: bit_and_iff bit_not_iff bit_take_bit_iff)
  moreover have "?w AND NOT (take_bit k ?w) = ?w AND NOT (mask k)"
    by (rule bit_eqI) (auto simp: bit_and_iff bit_not_iff bit_take_bit_iff bit_mask_iff)
  ultimately have "?w AND NOT (mask k) = ?w - take_bit k ?w" by simp
  moreover have t: "unat (take_bit k ?w) = ?x mod 2 ^ k" unfolding unsigned_take_bit_eq x by (simp add: take_bit_eq_mod)
  moreover have "take_bit k ?w \<le> ?w" unfolding word_le_nat_alt t x by simp
  ultimately show ?thesis unfolding align_up_def m by (simp only: unat_sub t x)
qed

lemma align_up:
  assumes "is_power_of_two al" and "offset \<le> size_max - (al - 1)" and "al \<le> size_max"
  shows "al dvd align_up offset al" "offset \<le> align_up offset al" "align_up offset al < offset + al"
proof -
  obtain k where k: "al = 2 ^ k" using assms(1) is_power_of_two_iff by auto
  have "k < 64" using assms(3) unfolding k size_max_def
    by (metis le_less_trans diff_less less_numeral_extra(1) linorder_not_less nat_power_less_imp_less zero_less_numeral zero_less_power)
  moreover have "offset + 2 ^ k - 1 \<le> size_max" using assms(2,3) k by simp
  ultimately have e: "align_up offset al = offset + al - 1 - (offset + al - 1) mod al" using align_up_eq k by simp
  have al: "0 < al" using k by simp
  show "al dvd align_up offset al" unfolding e by (rule dvd_minus_mod)
  have "(offset + al - 1) mod al < al" using al by simp
  then show "offset \<le> align_up offset al" "align_up offset al < offset + al" unfolding e using al by linarith+
qed

section \<open>Arena runs\<close>

text \<open>
  A block is the address, size and alignment of a live allocation. The client releases only blocks it
  holds; everything else about the order of calls is arbitrary.
\<close>

type_synonym block = "nat \<times> nat \<times> nat"

inductive arena_run :: "nat \<Rightarrow> (nat \<Rightarrow> nat \<Rightarrow> nat result) \<Rightarrow> nat \<Rightarrow> arena_allocator \<Rightarrow> block list \<Rightarrow> bool"
  for capacity backing alignment where
  start: "mk_arena capacity (Some backing) alignment = Inr a \<Longrightarrow> arena_run capacity backing alignment a []"
| allocate: "arena_run capacity backing alignment a live \<Longrightarrow> arena_allocate bytes al a = Inr (p, a') \<Longrightarrow>
    arena_run capacity backing alignment a' (if bytes = 0 then live else (p, bytes, al) # live)"
| deallocate: "arena_run capacity backing alignment a live \<Longrightarrow> b \<in> set live \<Longrightarrow>
    arena_run capacity backing alignment (arena_deallocate (fst b) a) (remove1 b live)"
| deallocate_null: "arena_run capacity backing alignment a live \<Longrightarrow>
    arena_run capacity backing alignment (arena_deallocate 0 a) live"
| reset: "arena_run capacity backing alignment a live \<Longrightarrow> arena_reset a = Inr a' \<Longrightarrow>
    arena_run capacity backing alignment a' live"

definition overlap_free :: "block list \<Rightarrow> bool" where
  "overlap_free live \<longleftrightarrow> sorted_wrt (\<lambda>(p, n, _) (q, m, _). q + m \<le> p) live"

text \<open>What the backing allocator promises: non-null, aligned memory inside the address space.\<close>

definition backing_ok :: "(nat \<Rightarrow> nat \<Rightarrow> nat result) \<Rightarrow> bool" where
  "backing_ok backing \<longleftrightarrow> (\<forall>n al p. backing n al = Inr p \<longrightarrow> p \<noteq> 0 \<longrightarrow> al dvd p)"

definition arena_ok :: "nat \<Rightarrow> nat \<Rightarrow> arena_allocator \<Rightarrow> block list \<Rightarrow> bool" where
  "arena_ok capacity alignment a live \<longleftrightarrow>
     ar_capacity a = capacity \<and> ar_alignment a = alignment \<and> is_power_of_two alignment \<and>
     ar_offset a \<le> capacity \<and> ar_offset a \<le> ar_peak_used a \<and> ar_peak_used a \<le> capacity \<and>
     (capacity > 0 \<longrightarrow> ar_buffer a \<noteq> 0) \<and> alignment dvd ar_buffer a \<and>
     ar_active_allocations a = length live \<and> length live \<le> ar_offset a \<and> overlap_free live \<and>
     (\<forall>(p, n, al) \<in> set live. 0 < n \<and> al dvd p \<and> is_power_of_two al \<and> ar_buffer a \<le> p \<and> p + n \<le> ar_buffer a + ar_offset a)"

lemma arena_allocate_Inr:
  assumes "arena_allocate bytes al a = Inr (p, a')" and "bytes \<noteq> 0"
  obtains "is_power_of_two al" "al \<le> ar_alignment a" "ar_offset a \<le> size_max - (al - 1)"
    "align_up (ar_offset a) al + bytes \<le> ar_capacity a" "p = ar_buffer a + align_up (ar_offset a) al"
    "a' = a\<lparr>ar_offset := align_up (ar_offset a) al + bytes, ar_peak_used := max (ar_peak_used a) (align_up (ar_offset a) al + bytes),
       ar_allocation_count := wrap64 (ar_allocation_count a + 1), ar_active_allocations := wrap64 (ar_active_allocations a + 1)\<rparr>"
  using assms by (force simp: arena_allocate_def Let_def not_less split: if_splits)

lemma power_of_two_dvd: "is_power_of_two a \<Longrightarrow> is_power_of_two b \<Longrightarrow> a \<le> b \<Longrightarrow> a dvd b"
  unfolding is_power_of_two_iff by (metis le_imp_power_dvd nat_power_less_imp_less not_le_imp_less numeral_2_eq_2 order_le_less zero_less_Suc)

lemma arena_allocate_ok:
  assumes ok: "arena_ok capacity alignment a live" and "arena_allocate bytes al a = Inr (p, a')"
    and cap: "capacity \<le> size_max" "alignment \<le> size_max"
  shows "arena_ok capacity alignment a' (if bytes = 0 then live else (p, bytes, al) # live)"
proof (cases "bytes = 0")
  case True
  then show ?thesis using assms by (simp add: arena_allocate_def)
next
  case False
  note O = ok[unfolded arena_ok_def]
  from assms(2) False obtain b: "is_power_of_two al" "al \<le> ar_alignment a" "ar_offset a \<le> size_max - (al - 1)"
    "align_up (ar_offset a) al + bytes \<le> ar_capacity a" "p = ar_buffer a + align_up (ar_offset a) al"
    and a': "a' = a\<lparr>ar_offset := align_up (ar_offset a) al + bytes, ar_peak_used := max (ar_peak_used a) (align_up (ar_offset a) al + bytes),
       ar_allocation_count := wrap64 (ar_allocation_count a + 1), ar_active_allocations := wrap64 (ar_active_allocations a + 1)\<rparr>"
    by (rule arena_allocate_Inr)
  have al: "al \<le> size_max" using b(2) O cap by simp
  note A = align_up[OF b(1,3) al]
  have "al dvd alignment" using power_of_two_dvd b(1,2) O by simp
  then have "al dvd ar_buffer a" using O dvd_trans by blast
  then have dvd: "al dvd p" using A(1) b(5) by simp
  have len: "Suc (length live) \<le> size_max" using O False b(4) A(2) cap by linarith
  have "q + m \<le> p" if "(q, m, l) \<in> set live" for q m l using O that A(2) b(5) by fastforce
  then have "overlap_free ((p, bytes, al) # live)" using O by (auto simp: overlap_free_def)
  moreover have "q + m \<le> ar_buffer a + (align_up (ar_offset a) al + bytes)" if "(q, m, l) \<in> set live" for q m l
    using O that A(2) by fastforce
  ultimately show ?thesis using False O A(2) b dvd len unfolding a'
    by (auto simp: arena_ok_def)
qed

lemma sorted_wrt_remove1: "sorted_wrt R xs \<Longrightarrow> sorted_wrt R (remove1 x xs)"
  by (induction xs) (auto dest: notin_set_remove1)

lemma arena_run_ok:
  assumes "arena_run capacity backing alignment a live" and "backing_ok backing" and "capacity \<le> size_max" "alignment \<le> size_max"
  shows "arena_ok capacity alignment a live"
  using assms(1)
proof induction
  case (start a)
  then show ?case using assms(2)
    by (auto simp: mk_arena_def arena_ok_def overlap_free_def backing_ok_def split: if_splits)
next
  case (allocate a live bytes al p a')
  then show ?case using arena_allocate_ok assms(3,4) by blast
next
  case (deallocate a live b)
  obtain p n al where b: "b = (p, n, al)" by (cases b)
  note O = deallocate.IH[unfolded arena_ok_def]
  have inside: "ar_buffer a \<le> p" "p < ar_buffer a + ar_capacity a" using O deallocate.hyps(2) b by fastforce+
  have "0 < length live" using deallocate.hyps(2) by (cases live) auto
  moreover have "0 < ar_capacity a" using inside by simp
  ultimately have "arena_deallocate p a = a\<lparr>ar_active_allocations := ar_active_allocations a - 1\<rparr>"
    using inside O by (auto simp: arena_deallocate_def)
  moreover have "overlap_free (remove1 b live)" using O unfolding overlap_free_def by (simp add: sorted_wrt_remove1)
  moreover have all: "\<forall>(p, n, al) \<in> set live. 0 < n \<and> al dvd p \<and> is_power_of_two al \<and>
      ar_buffer a \<le> p \<and> p + n \<le> ar_buffer a + ar_offset a" using O by (elim conjE)
  have "\<forall>(p, n, al) \<in> set (remove1 b live). 0 < n \<and> al dvd p \<and> is_power_of_two al \<and>
      ar_buffer a \<le> p \<and> p + n \<le> ar_buffer a + ar_offset a"
    by (rule ballI, rule bspec[OF all], erule subsetD[OF set_remove1_subset])
  moreover have "length live \<le> ar_offset a" using O by simp
  then have "length live - 1 \<le> ar_offset a" by (rule order_trans[OF diff_le_self])
  ultimately show ?case using O b deallocate.hyps(2) by (simp add: arena_ok_def length_remove1)
next
  case (deallocate_null a live)
  then show ?case by (simp add: arena_deallocate_def)
next
  case (reset a live a')
  then show ?case by (auto simp: arena_reset_def arena_ok_def overlap_free_def split: if_splits)
qed

text \<open>
  C22: the arena hands out disjoint memory. After any sequence of allocations, releases of held blocks
  and resets, every live block is aligned as requested and lies inside the arena, no two live blocks
  share a byte, the active counter is the number of live blocks, and the use never exceeds the
  peak, nor the peak the capacity.
\<close>

theorem arena_blocks_disjoint:
  assumes "arena_run capacity backing alignment a live" and "backing_ok backing"
    and "capacity \<le> size_max" and "alignment \<le> size_max"
  shows "(\<forall>i < length live. case live ! i of (p, n, al) \<Rightarrow>
       al dvd p \<and> ar_buffer a \<le> p \<and> p + n \<le> ar_buffer a + capacity) \<and>
     (\<forall>i < length live. \<forall>j < i. case (live ! i, live ! j) of ((p, n, _), (q, m, _)) \<Rightarrow>
       {p ..< p + n} \<inter> {q ..< q + m} = {}) \<and>
     ar_active_allocations a = length live \<and> ar_offset a \<le> ar_peak_used a \<and> ar_peak_used a \<le> capacity"
proof -
  note ok = arena_run_ok[OF assms, unfolded arena_ok_def]
  have cap: "ar_offset a \<le> capacity" and disjoint: "overlap_free live" using ok by simp_all
  have all: "\<forall>(p, n, al) \<in> set live. 0 < n \<and> al dvd p \<and> is_power_of_two al \<and> ar_buffer a \<le> p \<and> p + n \<le> ar_buffer a + ar_offset a"
    using ok by (elim conjE)
  have "case live ! i of (p, n, al) \<Rightarrow> al dvd p \<and> ar_buffer a \<le> p \<and> p + n \<le> ar_buffer a + capacity" if "i < length live" for i
  proof -
    obtain p n al where b: "live ! i = (p, n, al)" by (cases "live ! i")
    then have "(p, n, al) \<in> set live" using nth_mem[OF that] by simp
    from bspec[OF all this] have "al dvd p" "ar_buffer a \<le> p" "p + n \<le> ar_buffer a + ar_offset a" by simp_all
    then show ?thesis using b cap by simp
  qed
  moreover have "case (live ! i, live ! j) of ((p, n, _), (q, m, _)) \<Rightarrow> {p ..< p + n} \<inter> {q ..< q + m} = {}"
    if "i < length live" "j < i" for i j
  proof -
    have "(\<lambda>(p, n, _) (q, m, _). q + m \<le> p) (live ! j) (live ! i)"
      using disjoint[unfolded overlap_free_def sorted_wrt_iff_nth_less, rule_format, OF that(2,1)] .
    then show ?thesis by (auto simp: case_prod_unfold)
  qed
  ultimately show ?thesis using ok by simp
qed

definition demo_backing :: "nat \<Rightarrow> nat \<Rightarrow> nat result" where
  "demo_backing = cpu_allocate (\<lambda>n al. Some (al * 4096))"

definition demo_arena :: "nat \<Rightarrow> nat \<Rightarrow> nat \<Rightarrow> nat \<Rightarrow> arena_allocator" where
  "demo_arena off peak served active = \<lparr>ar_capacity = 64, ar_alignment = 16, ar_offset = off, ar_peak_used = peak,
     ar_allocation_count = served, ar_active_allocations = active, ar_buffer = 65536\<rparr>"

lemma demo_arena_run: "arena_run 64 demo_backing 16 (demo_arena 24 24 2 2) [(65552, 8, 8), (65536, 10, 4)]"
proof -
  have p: "is_power_of_two 16" "is_power_of_two 8" "is_power_of_two 4"
    by (simp_all add: is_power_of_two_def)
  have "demo_backing 64 16 = Inr 65536" using p(1) by (simp add: demo_backing_def cpu_allocate_def is_power_of_two_def)
  then have 0: "arena_run 64 demo_backing 16 (demo_arena 0 0 0 0) []"
    using p(1) by (intro arena_run.start) (simp add: mk_arena_def demo_arena_def)
  have a: "align_up 0 4 = 0" "align_up 10 8 = 16" using align_up_eq[of 2 0] align_up_eq[of 3 10] by (simp_all add: size_max_def)
  have 1: "arena_allocate 10 4 (demo_arena 0 0 0 0) = Inr (65536, demo_arena 10 10 1 1)"
    using p(3) a(1) by (simp add: arena_allocate_def demo_arena_def Let_def wrap64_def size_max_def)
  have 2: "arena_allocate 8 8 (demo_arena 10 10 1 1) = Inr (65552, demo_arena 24 24 2 2)"
    using p(2) a(2) by (simp add: arena_allocate_def demo_arena_def Let_def wrap64_def size_max_def)
  from arena_run.allocate[OF arena_run.allocate[OF 0 1] 2] show ?thesis by simp
qed

theorem arena_blocks_disjoint_witness:
  "{65552 ..< 65552 + 8} \<inter> {65536 ..< 65536 + (10::nat)} = {} \<and> ar_active_allocations (demo_arena 24 24 2 2) = 2"
proof -
  have "backing_ok demo_backing" by (auto simp: backing_ok_def demo_backing_def cpu_allocate_def split: if_splits)
  moreover have "(64::nat) \<le> size_max" "(16::nat) \<le> size_max" by (simp_all add: size_max_def)
  ultimately have W: "backing_ok demo_backing" "(64::nat) \<le> size_max" "(16::nat) \<le> size_max" by simp_all
  note W = arena_blocks_disjoint[OF demo_arena_run W]
  from W have "ar_active_allocations (demo_arena 24 24 2 2) = 2" by simp
  moreover from W have "\<forall>i < length [(65552, 8, 8), (65536, 10, 4)::block]. \<forall>j < i.
      case ([(65552, 8, 8), (65536, 10, 4)::block] ! i, [(65552, 8, 8), (65536, 10, 4)::block] ! j) of
      ((p, n, _), (q, m, _)) \<Rightarrow> {p ..< p + n} \<inter> {q ..< q + m} = {}" by (elim conjE)
  from this[rule_format, of 1 0] have "{65536 ..< 65536 + (10::nat)} \<inter> {65552 ..< 65552 + 8} = {}" by simp
  ultimately show ?thesis by blast
qed

section \<open>Buffers and storage\<close>

text \<open>
  The heap holds the buffers in the order they were made; a buffer id is its position. What fresh
  memory contains is unknown: \<open>hp_junk\<close>. \<open>hp_available\<close> is how many bytes the allocator can still provide.
\<close>

record buffer =
  buf_bytes :: "byte list"
  buf_alignment :: nat

record heap =
  hp_buffers :: "buffer list"
  hp_junk :: "nat \<Rightarrow> byte"
  hp_available :: nat

definition buf_size :: "heap \<Rightarrow> nat \<Rightarrow> nat" where
  "buf_size h b = length (buf_bytes (hp_buffers h ! b))"

text \<open>\<open>allocator\<close> says whether the shared pointer to the allocator is non-null.\<close>

definition mk_buffer :: "nat \<Rightarrow> bool \<Rightarrow> nat \<Rightarrow> heap \<Rightarrow> (nat \<times> heap) result" where
  "mk_buffer nbytes allocator alignment h =
     (if \<not> allocator then Inl (Invalid_argument ''buffer allocator must not be null'')
      else if alignment = 0 \<or> alignment AND (alignment - 1) \<noteq> 0
      then Inl (Invalid_argument ''buffer alignment must be a non-zero power of two'')
      else if nbytes > hp_available h then Inl Bad_alloc
      else Inr (length (hp_buffers h),
        h\<lparr>hp_buffers := hp_buffers h @ [\<lparr>buf_bytes = map (hp_junk h) [0..<nbytes], buf_alignment = alignment\<rparr>],
          hp_available := hp_available h - nbytes\<rparr>))"

record storage =
  sto_buffer :: "nat option"
  sto_byte_offset :: nat
  sto_size_bytes :: nat

definition empty_storage :: storage where
  "empty_storage = \<lparr>sto_buffer = None, sto_byte_offset = 0, sto_size_bytes = 0\<rparr>"

definition mk_storage :: "nat \<Rightarrow> bool \<Rightarrow> nat \<Rightarrow> heap \<Rightarrow> (storage \<times> heap) result" where
  "mk_storage nbytes allocator alignment h =
     bindE (mk_buffer nbytes allocator alignment h)
       (\<lambda>(b, h'). Inr (\<lparr>sto_buffer = Some b, sto_byte_offset = 0, sto_size_bytes = nbytes\<rparr>, h'))"

definition storage_view :: "nat option \<Rightarrow> nat \<Rightarrow> nat \<Rightarrow> heap \<Rightarrow> storage result" where
  "storage_view buffer byte_offset nbytes h =
     (case buffer of None \<Rightarrow> Inl (Invalid_argument ''storage buffer must not be null'')
      | Some b \<Rightarrow>
        if byte_offset > buf_size h b \<or> nbytes > buf_size h b - byte_offset
        then Inl (Out_of_range ''storage range exceeds buffer capacity'')
        else Inr \<lparr>sto_buffer = Some b, sto_byte_offset = byte_offset, sto_size_bytes = nbytes\<rparr>)"

text \<open>\<open>Storage::data\<close>: the buffer and the position in it, or the null pointer.\<close>

definition storage_data :: "heap \<Rightarrow> storage \<Rightarrow> (nat \<times> nat) option" where
  "storage_data h s = (case sto_buffer s of None \<Rightarrow> None
     | Some b \<Rightarrow> if buf_size h b = 0 then None else Some (b, sto_byte_offset s))"

definition storage_allocator :: "storage \<Rightarrow> bool result" where
  "storage_allocator s = (if sto_buffer s = None then Inl (Logic_error ''empty storage has no allocator'') else Inr True)"

text \<open>Raw access. Reading or writing past a buffer is undefined behaviour in C++ and shows as such here.\<close>

definition read_bytes :: "heap \<Rightarrow> nat \<times> nat \<Rightarrow> nat \<Rightarrow> byte list result" where
  "read_bytes h p n = (case p of (b, pos) \<Rightarrow>
     if b \<ge> length (hp_buffers h) \<or> pos + n > buf_size h b then Inl (Undefined_behaviour ''read past the buffer'')
     else Inr (take n (drop pos (buf_bytes (hp_buffers h ! b)))))"

definition write_bytes :: "nat \<times> nat \<Rightarrow> byte list \<Rightarrow> heap \<Rightarrow> heap result" where
  "write_bytes p bs h = (case p of (b, pos) \<Rightarrow>
     if b \<ge> length (hp_buffers h) \<or> pos + length bs > buf_size h b then Inl (Undefined_behaviour ''write past the buffer'')
     else Inr (h\<lparr>hp_buffers := (hp_buffers h)[b := (hp_buffers h ! b)\<lparr>buf_bytes :=
       take pos (buf_bytes (hp_buffers h ! b)) @ bs @ drop (pos + length bs) (buf_bytes (hp_buffers h ! b))\<rparr>]\<rparr>))"

definition storage_ok :: "heap \<Rightarrow> storage \<Rightarrow> bool" where
  "storage_ok h s \<longleftrightarrow> (\<exists>b. sto_buffer s = Some b \<and> b < length (hp_buffers h) \<and>
     sto_byte_offset s + sto_size_bytes s \<le> buf_size h b)"

lemma mk_storage_ok: "mk_storage n al alignment h = Inr (s, h') \<Longrightarrow> storage_ok h' s \<and> sto_size_bytes s = n \<and>
    sto_buffer s = Some (length (hp_buffers h)) \<and> sto_byte_offset s = 0 \<and> hp_junk h' = hp_junk h \<and>
    (\<exists>b. hp_buffers h' = hp_buffers h @ [b] \<and> length (buf_bytes b) = n)"
  by (auto simp: mk_storage_def mk_buffer_def storage_ok_def buf_size_def split: if_splits)

lemma storage_view_ok: "storage_view (Some b) off n h = Inr s \<Longrightarrow> b < length (hp_buffers h) \<Longrightarrow>
    storage_ok h s \<and> s = \<lparr>sto_buffer = Some b, sto_byte_offset = off, sto_size_bytes = n\<rparr>"
  by (auto simp: storage_view_def storage_ok_def split: if_splits)

text \<open>The bytes of one location after a write: the written ones at the location, the old ones elsewhere.\<close>

lemma write_bytes_Inr:
  assumes "write_bytes (b, pos) bs h = Inr h'"
  shows "length (hp_buffers h') = length (hp_buffers h)" "buf_size h' c = buf_size h c"
    "read_bytes h' (b, pos) (length bs) = Inr bs"
    "q + m \<le> pos \<or> pos + length bs \<le> q \<or> c \<noteq> b \<Longrightarrow> read_bytes h' (c, q) m = read_bytes h (c, q) m"
proof -
  let ?B = "buf_bytes (hp_buffers h ! b)"
  have in_range: "b < length (hp_buffers h)" "pos + length bs \<le> length ?B"
    and h': "h' = h\<lparr>hp_buffers := (hp_buffers h)[b := (hp_buffers h ! b)\<lparr>buf_bytes :=
       take pos ?B @ bs @ drop (pos + length bs) ?B\<rparr>]\<rparr>"
    using assms by (auto simp: write_bytes_def buf_size_def split: if_splits)
  show len: "length (hp_buffers h') = length (hp_buffers h)" by (simp add: h')
  show size: "buf_size h' c = buf_size h c" for c
    using in_range by (cases "c = b") (simp_all add: h' buf_size_def)
  have bytes: "buf_bytes (hp_buffers h' ! b) = take pos ?B @ bs @ drop (pos + length bs) ?B" using in_range(1) by (simp add: h')
  show "read_bytes h' (b, pos) (length bs) = Inr bs"
    unfolding read_bytes_def prod.case len size using in_range by (simp add: bytes buf_size_def)
  assume apart: "q + m \<le> pos \<or> pos + length bs \<le> q \<or> c \<noteq> b"
  have "take m (drop q (buf_bytes (hp_buffers h' ! c))) = take m (drop q (buf_bytes (hp_buffers h ! c)))"
  proof (cases "c = b")
    case True
    then consider (before) "q + m \<le> pos" | (after) "pos + length bs \<le> q" using apart by blast
    then show ?thesis
    proof cases
      case before
      have "drop q (take pos ?B @ bs @ drop (pos + length bs) ?B) = drop q (take pos ?B) @ bs @ drop (pos + length bs) ?B"
        using before in_range by simp
      moreover have "length (drop q (take pos ?B)) = pos - q" using in_range by simp
      moreover have m: "m \<le> pos - q" using before by simp
      ultimately have "take m (drop q (take pos ?B @ bs @ drop (pos + length bs) ?B)) = take m (drop q (take pos ?B))" by simp
      also have "\<dots> = take m (drop q ?B)" using m by (simp add: drop_take min_absorb1)
      finally show ?thesis using True bytes by simp
    next
      case after
      then have "drop q (take pos ?B @ bs @ drop (pos + length bs) ?B) = drop q ?B" using in_range by simp
      then show ?thesis using True by (simp add: bytes)
    qed
  qed (simp add: h')
  then show "read_bytes h' (c, q) m = read_bytes h (c, q) m" unfolding read_bytes_def prod.case len size by simp
qed

lemma write_bytes_total: "b < length (hp_buffers h) \<Longrightarrow> pos + length bs \<le> buf_size h b \<Longrightarrow> \<exists>h'. write_bytes (b, pos) bs h = Inr h'"
  by (simp add: write_bytes_def)

lemma read_bytes_total: "b < length (hp_buffers h) \<Longrightarrow> pos + n \<le> buf_size h b \<Longrightarrow> \<exists>bs. read_bytes h (b, pos) n = Inr bs \<and> length bs = n"
  by (simp add: read_bytes_def buf_size_def)

end
