(* ===== verification/Tensor.thy ===== *)
theory Tensor
  imports Memory Tensor_Iterator
begin

text \<open>
  Tensors of \<^verbatim>\<open>src/core/tensor.cpp\<close>: a layout, a data type and a storage view of a shared buffer.
  Creating, copying, reshaping, slicing and addressing are modelled over the heap of buffers, so that
  sharing and copying can be told apart.
\<close>

section \<open>Tensors\<close>

record tensor =
  tn_layout :: tensor_layout
  tn_dtype :: data_type
  tn_storage :: storage

abbreviation tn_shape :: "tensor \<Rightarrow> shape" where "tn_shape t \<equiv> lay_shape (tn_layout t)"
abbreviation tn_strides :: "tensor \<Rightarrow> strides" where "tn_strides t \<equiv> lay_strides (tn_layout t)"
abbreviation tn_numel :: "tensor \<Rightarrow> nat" where "tn_numel t \<equiv> lay_numel (tn_layout t)"
abbreviation tn_rank :: "tensor \<Rightarrow> nat" where "tn_rank t \<equiv> lay_rank (tn_layout t)"

definition default_alignment :: nat where "default_alignment = 16"

text \<open>Dereferencing the data pointer; the null pointer may not be dereferenced.\<close>

definition storage_ptr :: "heap \<Rightarrow> storage \<Rightarrow> (nat \<times> nat) result" where
  "storage_ptr h s = (case storage_data h s of None \<Rightarrow> Inl (Undefined_behaviour ''null storage'') | Some p \<Rightarrow> Inr p)"

definition mk_tensor :: "shape \<Rightarrow> data_type \<Rightarrow> bool \<Rightarrow> heap \<Rightarrow> (tensor \<times> heap) result" where
  "mk_tensor sh dtype allocator h =
     bindE (mk_layout sh) (\<lambda>l. bindE (size_bytes l dtype) (\<lambda>bytes.
     bindE (mk_storage bytes allocator default_alignment h) (\<lambda>(s, h1).
     bindE (if bytes > 0 then bindE (storage_ptr h1 s) (\<lambda>p. write_bytes p (replicate bytes 0) h1) else Inr h1)
       (\<lambda>h2. Inr (\<lparr>tn_layout = l, tn_dtype = dtype, tn_storage = s\<rparr>, h2)))))"

text \<open>The element loop of the copy constructor and of \<open>contiguous\<close>: one \<open>memcpy\<close> per logical index.\<close>

definition copy_element :: "tensor_layout \<Rightarrow> nat \<Rightarrow> nat \<times> nat \<Rightarrow> nat \<times> nat \<Rightarrow> nat \<Rightarrow> heap \<Rightarrow> heap result" where
  "copy_element l es src dst i h =
     bindE (storage_offset l i) (\<lambda>off. bindE (read_bytes h (fst src, snd src + off * es) es)
       (\<lambda>bs. write_bytes (fst dst, snd dst + i * es) bs h))"

definition tensor_copy :: "tensor \<Rightarrow> heap \<Rightarrow> (tensor \<times> heap) result" where
  "tensor_copy other h =
     bindE (mk_layout (tn_shape other)) (\<lambda>l. bindE (size_bytes l (tn_dtype other)) (\<lambda>bytes.
     bindE (mk_storage bytes True default_alignment h) (\<lambda>(s, h1).
     bindE (if bytes > 0
            then bindE (storage_ptr h1 s) (\<lambda>dst.
                 case storage_data h1 (tn_storage other) of
                   None \<Rightarrow> write_bytes dst (replicate bytes 0) h1
                 | Some src \<Rightarrow> foldE (copy_element (tn_layout other) (size_of (tn_dtype other)) src dst) [0..<lay_numel l] h1)
            else Inr h1)
       (\<lambda>h2. Inr (\<lparr>tn_layout = l, tn_dtype = tn_dtype other, tn_storage = s\<rparr>, h2)))))"

definition tensor_assign :: "bool \<Rightarrow> tensor \<Rightarrow> tensor \<Rightarrow> heap \<Rightarrow> (tensor \<times> heap) result" where
  "tensor_assign same_object this other h = (if same_object then Inr (this, h) else tensor_copy other h)"

text \<open>Typed access: \<open>data<T>()\<close> checks the data type, \<open>at\<close> the index; a reference is a heap position.\<close>

definition typed_data :: "data_type \<Rightarrow> tensor \<Rightarrow> heap \<Rightarrow> (nat \<times> nat) option result" where
  "typed_data requested t h =
     (if tn_dtype t \<noteq> requested then Inl (Logic_error ''tensor dtype does not match requested C++ storage type'')
      else Inr (storage_data h (tn_storage t)))"

definition index_data :: "data_type \<Rightarrow> tensor \<Rightarrow> heap \<Rightarrow> nat \<Rightarrow> (nat \<times> nat) result" where
  "index_data requested t h off =
     bindE (typed_data requested t h) (\<lambda>p. case p of None \<Rightarrow> Inl (Undefined_behaviour ''null storage'')
       | Some (b, pos) \<Rightarrow> Inr (b, pos + off * size_of requested))"

definition at_flat :: "data_type \<Rightarrow> tensor \<Rightarrow> heap \<Rightarrow> nat \<Rightarrow> (nat \<times> nat) result" where
  "at_flat requested t h index =
     (if index \<ge> tn_numel t then Inl (Out_of_range ''tensor index is out of range'') else index_data requested t h index)"

definition tensor_offset :: "tensor \<Rightarrow> shape \<Rightarrow> nat result" where
  "tensor_offset t indices = layout_offset (tn_layout t) indices"

definition at_indices :: "data_type \<Rightarrow> tensor \<Rightarrow> heap \<Rightarrow> shape \<Rightarrow> (nat \<times> nat) result" where
  "at_indices requested t h indices =
     bindE (if tn_dtype t \<noteq> requested then Inl (Logic_error ''tensor dtype does not match requested C++ storage type'') else Inr ())
       (\<lambda>_. bindE (tensor_offset t indices) (index_data requested t h))"

text \<open>The values are given as the bytes of their C++ representation.\<close>

definition from_vector :: "shape \<Rightarrow> data_type \<Rightarrow> byte list list \<Rightarrow> heap \<Rightarrow> (tensor \<times> heap) result" where
  "from_vector sh dtype elements h =
     bindE (mk_tensor sh dtype True h) (\<lambda>(t, h1).
       if tn_numel t \<noteq> length elements then Inl (Invalid_argument ''tensor shape does not match the number of values'')
       else if elements = [] then Inr (t, h1)
       else bindE (index_data dtype t h1 0) (\<lambda>p. bindE (write_bytes p (concat elements) h1) (\<lambda>h2. Inr (t, h2))))"

definition from_storage :: "shape \<Rightarrow> data_type \<Rightarrow> storage \<Rightarrow> tensor result" where
  "from_storage sh dtype s =
     bindE (mk_layout sh) (\<lambda>l.
       if sto_buffer s = None then Inl (Invalid_argument ''Tensor storage must be valid'')
       else bindE (size_bytes l dtype) (\<lambda>bytes.
         if sto_size_bytes s < bytes then Inl (Invalid_argument ''Tensor storage is smaller than its layout'')
         else Inr \<lparr>tn_layout = l, tn_dtype = dtype, tn_storage = s\<rparr>))"

section \<open>Views\<close>

definition tensor_reshape :: "shape \<Rightarrow> tensor \<Rightarrow> tensor result" where
  "tensor_reshape new_shape t = bindE (reshaped (tn_layout t) new_shape) (\<lambda>l. Inr (t\<lparr>tn_layout := l\<rparr>))"

definition tensor_transpose :: "nat \<Rightarrow> nat \<Rightarrow> tensor \<Rightarrow> tensor result" where
  "tensor_transpose i j t = bindE (transposed (tn_layout t) i j) (\<lambda>l. Inr (t\<lparr>tn_layout := l\<rparr>))"

definition tensor_contiguous :: "tensor \<Rightarrow> heap \<Rightarrow> (tensor \<times> heap) result" where
  "tensor_contiguous t h =
     (if lay_contiguous (tn_layout t) then Inr (t, h)
      else bindE (mk_layout (tn_shape t)) (\<lambda>new_layout. bindE (size_bytes (tn_layout t) (tn_dtype t)) (\<lambda>bytes.
           bindE (storage_allocator (tn_storage t)) (\<lambda>allocator.
           bindE (mk_storage bytes allocator default_alignment h) (\<lambda>(s, h1).
           bindE (if bytes > 0
                  then bindE (storage_ptr h1 (tn_storage t)) (\<lambda>src. bindE (storage_ptr h1 s) (\<lambda>dst.
                       foldE (copy_element (tn_layout t) (size_of (tn_dtype t)) src dst) [0..<tn_numel t] h1))
                  else Inr h1)
             (\<lambda>h2. Inr (t\<lparr>tn_layout := new_layout, tn_storage := s\<rparr>, h2)))))))"

definition tensor_view :: "shape \<Rightarrow> tensor \<Rightarrow> tensor result" where
  "tensor_view new_shape t = bindE (reshaped (tn_layout t) new_shape)
     (\<lambda>l. Inr \<lparr>tn_layout = l, tn_dtype = tn_dtype t, tn_storage = tn_storage t\<rparr>)"

definition as_strided_view :: "tensor_layout \<Rightarrow> nat \<Rightarrow> tensor \<Rightarrow> heap \<Rightarrow> tensor result" where
  "as_strided_view l offset_elements t h =
     (let element_size = size_of (tn_dtype t); required = lay_storage_span l in
      if offset_elements > size_max div element_size \<or> required > size_max div element_size
      then Inl (Overflow_error ''view byte range overflows size_t'')
      else let relative = (if required = 0 then 0 else offset_elements * element_size); bytes = required * element_size in
        if relative > sto_size_bytes (tn_storage t) \<or> bytes > sto_size_bytes (tn_storage t) - relative
        then Inl (Out_of_range ''view range exceeds tensor storage'')
        else bindE (storage_view (sto_buffer (tn_storage t)) (sto_byte_offset (tn_storage t) + relative) bytes h)
          (\<lambda>s. Inr \<lparr>tn_layout = l, tn_dtype = tn_dtype t, tn_storage = s\<rparr>))"

text \<open>A product of two signed 64-bit numbers, both non-negative here; overflow is undefined behaviour.\<close>

definition signed_mult :: "int \<Rightarrow> int \<Rightarrow> int result" where
  "signed_mult a b = (if a * b > int64_max then Inl (Undefined_behaviour ''signed overflow'') else Inr (a * b))"

definition tensor_narrow :: "nat \<Rightarrow> int \<Rightarrow> int \<Rightarrow> tensor \<Rightarrow> heap \<Rightarrow> tensor result" where
  "tensor_narrow dimension start len t h =
     (if dimension \<ge> tn_rank t then Inl (Out_of_range ''narrow dimension is out of range'')
      else if start < 0 \<or> len < 0 then Inl (Invalid_argument ''narrow start and length must be non-negative'')
      else if start > tn_shape t ! dimension \<or> len > tn_shape t ! dimension - start
      then Inl (Out_of_range ''narrow range exceeds tensor dimension'')
      else bindE (signed_mult start (tn_strides t ! dimension)) (\<lambda>off.
           bindE (mk_strided_layout ((tn_shape t)[dimension := len]) (tn_strides t)) (\<lambda>l.
           as_strided_view l (nat off) t h)))"

definition tensor_slice :: "nat \<Rightarrow> int \<Rightarrow> int \<Rightarrow> int \<Rightarrow> tensor \<Rightarrow> heap \<Rightarrow> tensor result" where
  "tensor_slice dimension start end' step t h =
     (if dimension \<ge> tn_rank t then Inl (Out_of_range ''slice dimension is out of range'')
      else if step \<le> 0 then Inl (Invalid_argument ''slice step must be positive'')
      else if start < 0 \<or> end' < 0 then Inl (Invalid_argument ''slice start and end must be non-negative'')
      else if start > end' then Inl (Invalid_argument ''slice start must not exceed end'')
      else if end' > tn_shape t ! dimension then Inl (Out_of_range ''slice end exceeds tensor dimension'')
      else let distance = end' - start; len = distance div step + (if distance mod step \<noteq> 0 then 1 else 0);
               stride = tn_strides t ! dimension in
        if stride \<noteq> 0 \<and> step > int64_max div stride then Inl (Overflow_error ''slice stride overflows int64_t'')
        else if stride \<noteq> 0 \<and> start > int64_max div stride then Inl (Overflow_error ''slice storage offset overflows int64_t'')
        else bindE (signed_mult stride step) (\<lambda>new_stride. bindE (signed_mult start stride) (\<lambda>off.
             bindE (mk_strided_layout ((tn_shape t)[dimension := len]) ((tn_strides t)[dimension := new_stride])) (\<lambda>l.
             as_strided_view l (nat off) t h))))"

section \<open>Printing\<close>

text \<open>
  The value of a half-precision pattern: its sign and a magnitude, an infinity or not a number. A
  finite magnitude is a mantissa \<open>m\<close> and an exponent \<open>e\<close>, standing for \<open>m * 2 ^ e\<close>. The text of a
  number is the business of the stream, a parameter.
\<close>

datatype half_magnitude = Half_finite nat int | Half_infinity | Half_nan

definition half_value :: "16 word \<Rightarrow> bool \<times> half_magnitude" where
  "half_value bits =
     (let negative = (bits AND 0x8000) \<noteq> 0; exponent = unat (drop_bit 10 bits AND 0x1F); fraction = unat (bits AND 0x03FF) in
      (negative,
       if exponent = 0 then Half_finite fraction (- 24)
       else if exponent = 31 then if fraction = 0 then Half_infinity else Half_nan
       else Half_finite (1024 + fraction) (int exponent - 15 - 10)))"

definition bytes_to_half :: "byte list \<Rightarrow> 16 word" where
  "bytes_to_half bs = (ucast (bs ! 0) :: 16 word) OR push_bit 8 (ucast (bs ! 1))"

record number_format =
  fmt_bytes :: "data_type \<Rightarrow> byte list \<Rightarrow> string"
  fmt_half :: "bool \<times> half_magnitude \<Rightarrow> string"
  fmt_int :: "int \<Rightarrow> string"

definition write_value :: "number_format \<Rightarrow> heap \<Rightarrow> tensor \<Rightarrow> nat \<Rightarrow> string result" where
  "write_value fmt h t index =
     bindE (index_data (tn_dtype t) t h index) (\<lambda>p. bindE (read_bytes h p (size_of (tn_dtype t))) (\<lambda>bs.
       Inr (case tn_dtype t of Float16 \<Rightarrow> fmt_half fmt (half_value (bytes_to_half bs)) | d \<Rightarrow> fmt_bytes fmt d bs)))"

definition comma_separated :: "string list \<Rightarrow> string" where
  "comma_separated xs = (case xs of [] \<Rightarrow> [] | y # ys \<Rightarrow> y @ concat (map (\<lambda>z. '', '' @ z) ys))"

fun write_dimensions :: "(nat \<Rightarrow> string result) \<Rightarrow> (int \<times> int) list \<Rightarrow> nat \<Rightarrow> string result" where
  "write_dimensions value_at [] base = value_at base"
| "write_dimensions value_at ((d, t) # ds) base =
     bindE (mapE (\<lambda>i. write_dimensions value_at ds (base + i * nat t)) [0..<nat d])
       (\<lambda>parts. Inr (''['' @ comma_separated parts @ '']''))"

definition write_data :: "number_format \<Rightarrow> heap \<Rightarrow> tensor \<Rightarrow> string result" where
  "write_data fmt h t = write_dimensions (write_value fmt h t) (zip (tn_shape t) (tn_strides t)) 0"

definition tensor_to_string :: "number_format \<Rightarrow> heap \<Rightarrow> tensor \<Rightarrow> string result" where
  "tensor_to_string fmt h t =
     bindE (write_data fmt h t) (\<lambda>data.
       Inr (''Tensor(shape=['' @ comma_separated (map (fmt_int fmt) (tn_shape t)) @ ''], dtype='' @ dtype_string (tn_dtype t) @
         '', data='' @ data @ '')''))"

section \<open>Well-formed tensors\<close>

definition tensor_ok :: "heap \<Rightarrow> tensor \<Rightarrow> bool" where
  "tensor_ok h t \<longleftrightarrow> layout_ok (tn_layout t) \<and> storage_ok h (tn_storage t) \<and>
     lay_storage_span (tn_layout t) * size_of (tn_dtype t) \<le> sto_size_bytes (tn_storage t)"

text \<open>The element at a logical index, as bytes.\<close>

definition tensor_element :: "heap \<Rightarrow> tensor \<Rightarrow> nat \<Rightarrow> byte list result" where
  "tensor_element h t i =
     bindE (storage_offset (tn_layout t) i) (\<lambda>off. bindE (storage_ptr h (tn_storage t)) (\<lambda>(b, pos).
       read_bytes h (b, pos + off * size_of (tn_dtype t)) (size_of (tn_dtype t))))"

definition heap_ext :: "heap \<Rightarrow> heap \<Rightarrow> bool" where
  "heap_ext h h' \<longleftrightarrow> length (hp_buffers h) \<le> length (hp_buffers h') \<and>
     (\<forall>b < length (hp_buffers h). hp_buffers h' ! b = hp_buffers h ! b)"

lemma heap_ext_refl [simp]: "heap_ext h h"
  by (simp add: heap_ext_def)

lemma heap_ext_trans: "heap_ext h h' \<Longrightarrow> heap_ext h' h'' \<Longrightarrow> heap_ext h h''"
  by (simp add: heap_ext_def)

lemma heap_ext_size: "heap_ext h h' \<Longrightarrow> b < length (hp_buffers h) \<Longrightarrow> buf_size h' b = buf_size h b"
  by (simp add: heap_ext_def buf_size_def)

lemma heap_ext_storage: "heap_ext h h' \<Longrightarrow> storage_ok h s \<Longrightarrow> storage_ok h' s"
  using heap_ext_size by (fastforce simp: storage_ok_def heap_ext_def)

lemma heap_ext_tensor: "heap_ext h h' \<Longrightarrow> tensor_ok h t \<Longrightarrow> tensor_ok h' t"
  by (simp add: tensor_ok_def heap_ext_storage)

lemma heap_ext_read: "heap_ext h h' \<Longrightarrow> b < length (hp_buffers h) \<Longrightarrow> read_bytes h' (b, p) n = read_bytes h (b, p) n"
  by (simp add: read_bytes_def heap_ext_size) (simp add: heap_ext_def)

lemma storage_ptr_ok:
  assumes "storage_ok h s" and "0 < sto_size_bytes s"
  obtains b where "sto_buffer s = Some b" "b < length (hp_buffers h)" "storage_ptr h s = Inr (b, sto_byte_offset s)"
    "storage_data h s = Some (b, sto_byte_offset s)" "sto_byte_offset s + sto_size_bytes s \<le> buf_size h b"
  using assms by (auto simp: storage_ok_def storage_ptr_def storage_data_def)

lemma heap_ext_element:
  assumes "heap_ext h h'" and "tensor_ok h t"
  shows "tensor_element h' t i = tensor_element h t i"
proof -
  obtain b where b: "sto_buffer (tn_storage t) = Some b" "b < length (hp_buffers h)"
    using assms(2) by (auto simp: tensor_ok_def storage_ok_def)
  have "storage_ptr h' (tn_storage t) = storage_ptr h (tn_storage t)"
    using b heap_ext_size[OF assms(1) b(2)] by (simp add: storage_ptr_def storage_data_def)
  then show ?thesis using heap_ext_read[OF assms(1) b(2)] b
    by (cases "storage_offset (tn_layout t) i") (auto simp: tensor_element_def storage_ptr_def storage_data_def)
qed

text \<open>Every element of a well-formed tensor is in its storage.\<close>

lemma element_location:
  assumes ok: "tensor_ok h t" and i: "i < tn_numel t"
  obtains off b where "storage_offset (tn_layout t) i = Inr off" "off < lay_storage_span (tn_layout t)"
    "sto_buffer (tn_storage t) = Some b" "b < length (hp_buffers h)"
    "storage_ptr h (tn_storage t) = Inr (b, sto_byte_offset (tn_storage t))"
    "storage_data h (tn_storage t) = Some (b, sto_byte_offset (tn_storage t))"
    "sto_byte_offset (tn_storage t) + off * size_of (tn_dtype t) + size_of (tn_dtype t) \<le>
       sto_byte_offset (tn_storage t) + sto_size_bytes (tn_storage t)"
    "sto_byte_offset (tn_storage t) + sto_size_bytes (tn_storage t) \<le> buf_size h b"
proof -
  have l: "layout_ok (tn_layout t)" and s: "storage_ok h (tn_storage t)"
    and span: "lay_storage_span (tn_layout t) * size_of (tn_dtype t) \<le> sto_size_bytes (tn_storage t)"
    using ok by (simp_all add: tensor_ok_def)
  obtain off where off: "storage_offset (tn_layout t) i = Inr off" "off < lay_storage_span (tn_layout t)"
    using storage_offset_Inr[OF l i] by blast
  have "(off + 1) * size_of (tn_dtype t) \<le> lay_storage_span (tn_layout t) * size_of (tn_dtype t)"
    using off(2) by (intro mult_le_mono1) simp
  then have fits: "off * size_of (tn_dtype t) + size_of (tn_dtype t) \<le> sto_size_bytes (tn_storage t)" using span by simp
  then have "0 < sto_size_bytes (tn_storage t)" using size_of_pos(1)[of "tn_dtype t"] by linarith
  from storage_ptr_ok[OF s this] obtain b where b: "sto_buffer (tn_storage t) = Some b" "b < length (hp_buffers h)"
    "storage_ptr h (tn_storage t) = Inr (b, sto_byte_offset (tn_storage t))"
    "storage_data h (tn_storage t) = Some (b, sto_byte_offset (tn_storage t))"
    "sto_byte_offset (tn_storage t) + sto_size_bytes (tn_storage t) \<le> buf_size h b" .
  show ?thesis by (rule that[OF off b(1,2,3,4) _ b(5)]) (use fits in simp)
qed

lemma element_total:
  assumes "tensor_ok h t" and "i < tn_numel t"
  shows "\<exists>bs. tensor_element h t i = Inr bs \<and> length bs = size_of (tn_dtype t)"
proof -
  from assms obtain off b where l: "storage_offset (tn_layout t) i = Inr off" "b < length (hp_buffers h)"
    "storage_ptr h (tn_storage t) = Inr (b, sto_byte_offset (tn_storage t))"
    "sto_byte_offset (tn_storage t) + off * size_of (tn_dtype t) + size_of (tn_dtype t) \<le>
       sto_byte_offset (tn_storage t) + sto_size_bytes (tn_storage t)"
    "sto_byte_offset (tn_storage t) + sto_size_bytes (tn_storage t) \<le> buf_size h b"
    by (rule element_location)
  have "sto_byte_offset (tn_storage t) + off * size_of (tn_dtype t) + size_of (tn_dtype t) \<le> buf_size h b"
    using l(4,5) by (rule order_trans)
  from read_bytes_total[OF l(2) this] show ?thesis using l(1,3) by (simp add: tensor_element_def)
qed

section \<open>The copy loop\<close>

lemma write_bytes_other: "write_bytes (b, pos) bs h = Inr h' \<Longrightarrow> c \<noteq> b \<Longrightarrow> hp_buffers h' ! c = hp_buffers h ! c"
  by (auto simp: write_bytes_def split: if_splits)

definition same_but :: "nat \<Rightarrow> heap \<Rightarrow> heap \<Rightarrow> bool" where
  "same_but d h h' \<longleftrightarrow> length (hp_buffers h') = length (hp_buffers h) \<and> (\<forall>c. buf_size h' c = buf_size h c) \<and>
     (\<forall>c. c \<noteq> d \<longrightarrow> hp_buffers h' ! c = hp_buffers h ! c)"

lemma same_but_read: "same_but d h h' \<Longrightarrow> c \<noteq> d \<Longrightarrow> read_bytes h' (c, p) n = read_bytes h (c, p) n"
  by (simp add: same_but_def read_bytes_def)

lemma same_but_write: "write_bytes (d, pos) bs h = Inr h' \<Longrightarrow> same_but d h h'"
  using write_bytes_Inr(1,2) write_bytes_other by (simp add: same_but_def)

lemma copy_loop:
  assumes l: "layout_ok l" and es: "0 < es" and ne: "sb \<noteq> db"
    and src: "sb < length (hp_buffers h)" "sp + lay_storage_span l * es \<le> buf_size h sb"
    and dst: "db < length (hp_buffers h)" "dp + lay_numel l * es \<le> buf_size h db"
  shows "n \<le> lay_numel l \<Longrightarrow> \<exists>h'. foldE (copy_element l es (sb, sp) (db, dp)) [0..<n] h = Inr h' \<and> same_but db h h' \<and>
    (\<forall>i < n. \<exists>off. storage_offset l i = Inr off \<and> read_bytes h' (db, dp + i * es) es = read_bytes h (sb, sp + off * es) es)"
proof (induction n)
  case 0
  then show ?case by (simp add: same_but_def)
next
  case (Suc n)
  then obtain g where g: "foldE (copy_element l es (sb, sp) (db, dp)) [0..<n] h = Inr g" "same_but db h g"
    and el: "\<And>i. i < n \<Longrightarrow> \<exists>off. storage_offset l i = Inr off \<and> read_bytes g (db, dp + i * es) es = read_bytes h (sb, sp + off * es) es"
    by auto
  have n: "n < lay_numel l" using Suc.prems by simp
  obtain off where off: "storage_offset l n = Inr off" "off < lay_storage_span l" using storage_offset_Inr[OF l n] by blast
  have "(off + 1) * es \<le> lay_storage_span l * es" using off(2) by (intro mult_le_mono1) simp
  then have "sp + off * es + es \<le> buf_size h sb" using src(2) by simp
  from read_bytes_total[OF src(1) this] obtain bs where r: "read_bytes h (sb, sp + off * es) es = Inr bs" and len: "length bs = es"
    by blast
  have gr: "read_bytes g (sb, sp + off * es) es = Inr bs" using same_but_read[OF g(2) ne] r by simp
  have "(n + 1) * es \<le> lay_numel l * es" using n by (intro mult_le_mono1) simp
  then have "dp + n * es + length bs \<le> buf_size g db" using dst(2) g(2) len by (simp add: same_but_def)
  moreover have "db < length (hp_buffers g)" using dst(1) g(2) by (simp add: same_but_def)
  ultimately obtain h' where w: "write_bytes (db, dp + n * es) bs g = Inr h'" using write_bytes_total by blast
  note W = write_bytes_Inr[OF w]
  have "foldE (copy_element l es (sb, sp) (db, dp)) [0..<Suc n] h = Inr h'"
    using g(1) off gr w by (simp add: foldE_append copy_element_def)
  moreover have "same_but db h h'" using g(2) same_but_write[OF w] by (simp add: same_but_def)
  moreover have "\<exists>off. storage_offset l i = Inr off \<and> read_bytes h' (db, dp + i * es) es = read_bytes h (sb, sp + off * es) es"
    if i: "i < Suc n" for i
  proof (cases "i = n")
    case True
    then show ?thesis using off(1) W(3) r len by simp
  next
    case False
    then have "i < n" using i by simp
    then have "(i + 1) * es \<le> n * es" by (intro mult_le_mono1) simp
    then have "dp + i * es + es \<le> dp + n * es" by simp
    then have "read_bytes h' (db, dp + i * es) es = read_bytes g (db, dp + i * es) es" by (intro W(4)) simp
    then show ?thesis using el[OF \<open>i < n\<close>] by simp
  qed
  ultimately show ?case by blast
qed

section \<open>Copies\<close>

lemma contiguous_offset:
  assumes ok: "layout_ok l" and c: "lay_contiguous l" and i: "i < lay_numel l"
  shows "storage_offset l i = Inr i"
proof -
  have "lin (rev (zip (lay_shape l) (lay_strides l))) i = 1 * i"
    using lin_contiguous[of i "lay_shape l" 1] i layout_okD(3,7)[OF ok] c by (simp add: comp_def)
  then show ?thesis using storage_offset_Inr(1)[OF ok i] by simp
qed

lemma contiguous_span:
  assumes ok: "layout_ok l" and c: "lay_contiguous l"
  shows "lay_storage_span l = lay_numel l"
proof (cases "0 \<in> set (lay_shape l)")
  case True
  then show ?thesis using layout_okD(3,6)[OF ok] prodn_0[of "lay_shape l"] layout_okD(2)[OF ok] by simp
next
  case False
  then have "\<forall>d \<in> set (lay_shape l). 0 < d" using layout_okD(2)[OF ok] by (metis less_le)
  from reach_contiguous[OF this] show ?thesis using False layout_okD(3,6,7)[OF ok] c by simp
qed

text \<open>The two ways to make a dense copy share this step: fresh storage, filled element by element.\<close>

lemma dense_copy:
  assumes ok: "tensor_ok h t" and l: "mk_layout (tn_shape t) = Inr l" and bytes: "size_bytes l (tn_dtype t) = Inr bytes"
    and s: "mk_storage bytes a al h = Inr (s, h1)" and pos: "0 < bytes"
    and src: "storage_data h1 (tn_storage t) = Some src" and dst: "storage_ptr h1 s = Inr dst"
  shows "\<exists>h2. foldE (copy_element (tn_layout t) (size_of (tn_dtype t)) src dst) [0..<tn_numel t] h1 = Inr h2 \<and> heap_ext h h2 \<and>
    tensor_ok h2 \<lparr>tn_layout = l, tn_dtype = tn_dtype t, tn_storage = s\<rparr> \<and> length (hp_buffers h2) = Suc (length (hp_buffers h)) \<and>
    (\<forall>i < tn_numel t. tensor_element h2 \<lparr>tn_layout = l, tn_dtype = tn_dtype t, tn_storage = s\<rparr> i = tensor_element h t i)"
proof -
  let ?es = "size_of (tn_dtype t)" and ?n = "length (hp_buffers h)" and ?t' = "\<lparr>tn_layout = l, tn_dtype = tn_dtype t, tn_storage = s\<rparr>"
  note tl = ok[unfolded tensor_ok_def]
  note lok = mk_layout_ok(1)[OF l] and lc = mk_layout_ok(3)[OF l]
  have numel: "lay_numel l = tn_numel t" using layout_okD(3)[OF lok] layout_okD(3)[of "tn_layout t"] mk_layout_ok(2)[OF l] tl by simp
  have b: "bytes = tn_numel t * ?es" using bytes numel by (simp add: size_bytes_def checked_multiply_Inr)
  obtain nb where S: "storage_ok h1 s" "sto_size_bytes s = bytes" "sto_buffer s = Some ?n" "sto_byte_offset s = 0"
    "hp_buffers h1 = hp_buffers h @ [nb]" "length (buf_bytes nb) = bytes" using mk_storage_ok[OF s] by blast
  have ext1: "heap_ext h h1" using S(5) by (simp add: heap_ext_def nth_append)
  have size_n: "buf_size h1 ?n = bytes" using S(5,6) by (simp add: buf_size_def)
  have dst_eq: "dst = (?n, 0)" using dst S(3,4) size_n pos by (simp add: storage_ptr_def storage_data_def)
  obtain c where c: "sto_buffer (tn_storage t) = Some c" "c < ?n"
    "sto_byte_offset (tn_storage t) + sto_size_bytes (tn_storage t) \<le> buf_size h c" using tl by (auto simp: storage_ok_def)
  have src_eq: "src = (c, sto_byte_offset (tn_storage t))" using src c(1) by (simp add: storage_data_def split: if_splits)
  let ?sp = "sto_byte_offset (tn_storage t)"
  have "\<exists>h2. foldE (copy_element (tn_layout t) ?es (c, ?sp) (?n, 0)) [0..<tn_numel t] h1 = Inr h2 \<and> same_but ?n h1 h2 \<and>
    (\<forall>i < tn_numel t. \<exists>off. storage_offset (tn_layout t) i = Inr off \<and>
       read_bytes h2 (?n, 0 + i * ?es) ?es = read_bytes h1 (c, ?sp + off * ?es) ?es)"
  proof (rule copy_loop)
    show "?sp + lay_storage_span (tn_layout t) * ?es \<le> buf_size h1 c"
      using tl c(3) heap_ext_size[OF ext1 c(2)] by linarith
    show "0 + tn_numel t * ?es \<le> buf_size h1 ?n" using size_n b by simp
  qed (use tl c(2) S(5) in simp_all)
  then obtain h2 where h2: "foldE (copy_element (tn_layout t) ?es src dst) [0..<tn_numel t] h1 = Inr h2" "same_but ?n h1 h2"
    and el: "\<And>i. i < tn_numel t \<Longrightarrow> \<exists>off. storage_offset (tn_layout t) i = Inr off \<and>
       read_bytes h2 (?n, i * ?es) ?es = read_bytes h1 (c, ?sp + off * ?es) ?es" unfolding src_eq dst_eq by auto
  have ext: "heap_ext h h2" using h2(2) S(5) by (simp add: heap_ext_def same_but_def nth_append)
  have size2: "buf_size h2 ?n = bytes" using h2(2) size_n by (simp add: same_but_def)
  have len2: "length (hp_buffers h2) = Suc ?n" using h2(2) S(5) by (simp add: same_but_def)
  have ok2: "tensor_ok h2 ?t'"
    using lok contiguous_span[OF lok lc] numel b S(2,3,4) size2 len2 by (simp add: tensor_ok_def storage_ok_def)
  have "tensor_element h2 ?t' i = tensor_element h t i" if i: "i < tn_numel t" for i
  proof -
    obtain off where off: "storage_offset (tn_layout t) i = Inr off"
      "read_bytes h2 (?n, i * ?es) ?es = read_bytes h1 (c, ?sp + off * ?es) ?es" using el[OF i] by blast
    have "tensor_element h2 ?t' i = read_bytes h2 (?n, i * ?es) ?es"
      using contiguous_offset[OF lok lc, of i] i numel S(3,4) size2 pos
      by (simp add: tensor_element_def storage_ptr_def storage_data_def)
    also have "\<dots> = read_bytes h (c, ?sp + off * ?es) ?es" using off(2) heap_ext_read[OF ext1 c(2)] by simp
    also have "\<dots> = tensor_element h t i"
    proof -
      have "buf_size h c \<noteq> 0" using src c(1,2) heap_ext_size[OF ext1 c(2)] by (auto simp: storage_data_def split: if_splits)
      then show ?thesis using off(1) c(1) by (simp add: tensor_element_def storage_ptr_def storage_data_def)
    qed
    finally show ?thesis .
  qed
  then show ?thesis using h2(1) ext ok2 len2 by blast
qed

lemma positive_bytes:
  assumes "tensor_ok h t" and "0 < tn_numel t"
  shows "0 < sto_size_bytes (tn_storage t)"
proof -
  obtain off b where "off < lay_storage_span (tn_layout t)" using assms by (rule element_location)
  then have "0 < lay_storage_span (tn_layout t) * size_of (tn_dtype t)" by simp
  then show ?thesis using assms(1) unfolding tensor_ok_def by linarith
qed

lemma tensor_copy_ok:
  assumes ok: "tensor_ok h t" and c: "tensor_copy t h = Inr (t', h')"
  shows "tensor_ok h' t'" "heap_ext h h'" "tn_shape t' = tn_shape t" "tn_dtype t' = tn_dtype t" "lay_contiguous (tn_layout t')"
    "sto_buffer (tn_storage t') = Some (length (hp_buffers h))" "tn_numel t' = tn_numel t"
    "\<forall>i < tn_numel t. tensor_element h' t' i = tensor_element h t i"
proof -
  obtain l bytes s h1 where l: "mk_layout (tn_shape t) = Inr l" and b: "size_bytes l (tn_dtype t) = Inr bytes"
    and s: "mk_storage bytes True default_alignment h = Inr (s, h1)" and t': "t' = \<lparr>tn_layout = l, tn_dtype = tn_dtype t, tn_storage = s\<rparr>"
    using c by (auto simp: tensor_copy_def)
  note lok = mk_layout_ok(1)[OF l] and S = mk_storage_ok[OF s]
  show shape: "tn_shape t' = tn_shape t" "tn_dtype t' = tn_dtype t" "lay_contiguous (tn_layout t')"
    using mk_layout_ok(2,3)[OF l] t' by simp_all
  show "sto_buffer (tn_storage t') = Some (length (hp_buffers h))" using S t' by simp
  have numel: "lay_numel l = tn_numel t"
    using layout_okD(3)[OF lok] layout_okD(3)[of "tn_layout t"] mk_layout_ok(2)[OF l] ok by (simp add: tensor_ok_def)
  then show "tn_numel t' = tn_numel t" using t' by simp
  have bytes: "bytes = tn_numel t * size_of (tn_dtype t)" using b numel by (simp add: size_bytes_def checked_multiply_Inr)
  have "tensor_ok h' t' \<and> heap_ext h h' \<and> (\<forall>i < tn_numel t. tensor_element h' t' i = tensor_element h t i)"
  proof (cases "bytes > 0")
    case False
    then have h': "h' = h1" using c l b s by (simp add: tensor_copy_def)
    have "heap_ext h h1" using S by (auto simp: heap_ext_def nth_append)
    moreover have "tensor_ok h1 t'" using S t' lok contiguous_span[OF lok mk_layout_ok(3)[OF l]] bytes numel
      by (simp add: tensor_ok_def)
    ultimately show ?thesis using False bytes h' by simp
  next
    case True
    have ext1: "heap_ext h h1" using S by (auto simp: heap_ext_def nth_append)
    have "0 < tn_numel t" using True bytes by (cases "tn_numel t") auto
    note pos = positive_bytes[OF ok this]
    have "storage_ok h1 (tn_storage t)" using heap_ext_storage[OF ext1] ok by (simp add: tensor_ok_def)
    from this pos obtain src where src: "storage_data h1 (tn_storage t) = Some src" by (rule storage_ptr_ok) blast
    have "storage_ok h1 s" "0 < sto_size_bytes s" using S True by simp_all
    then obtain dst where dst: "storage_ptr h1 s = Inr dst" by (rule storage_ptr_ok) blast
    have "foldE (copy_element (tn_layout t) (size_of (tn_dtype t)) src dst) [0..<tn_numel t] h1 = Inr h'"
      using c l b s src dst True numel by (simp add: tensor_copy_def)
    then show ?thesis using dense_copy[OF ok l b s True src dst] t' by auto
  qed
  then show "tensor_ok h' t'" "heap_ext h h'" "\<forall>i < tn_numel t. tensor_element h' t' i = tensor_element h t i" by auto
qed

lemma tensor_contiguous_ok:
  assumes ok: "tensor_ok h t" and c: "tensor_contiguous t h = Inr (t', h')"
  shows "tensor_ok h' t' \<and> heap_ext h h' \<and> tn_shape t' = tn_shape t \<and> tn_dtype t' = tn_dtype t \<and> lay_contiguous (tn_layout t') \<and>
    tn_numel t' = tn_numel t \<and> (\<forall>i < tn_numel t. tensor_element h' t' i = tensor_element h t i)"
proof (cases "lay_contiguous (tn_layout t)")
  case True
  then show ?thesis using c ok by (simp add: tensor_contiguous_def)
next
  case False
  obtain l bytes s h1 where l: "mk_layout (tn_shape t) = Inr l" and b0: "size_bytes (tn_layout t) (tn_dtype t) = Inr bytes"
    and s: "mk_storage bytes True default_alignment h = Inr (s, h1)" and t': "t' = t\<lparr>tn_layout := l, tn_storage := s\<rparr>"
    using c False by (auto simp: tensor_contiguous_def storage_allocator_def split: if_splits)
  have t'': "t' = \<lparr>tn_layout = l, tn_dtype = tn_dtype t, tn_storage = s\<rparr>" using t' by (cases t) simp
  have valid: "storage_allocator (tn_storage t) = Inr True"
    using ok by (auto simp: tensor_ok_def storage_ok_def storage_allocator_def)
  note lok = mk_layout_ok(1)[OF l] and S = mk_storage_ok[OF s]
  have numel: "lay_numel l = tn_numel t"
    using layout_okD(3)[OF lok] layout_okD(3)[of "tn_layout t"] mk_layout_ok(2)[OF l] ok by (simp add: tensor_ok_def)
  have b: "size_bytes l (tn_dtype t) = Inr bytes" using b0 numel by (simp add: size_bytes_def)
  have bytes: "bytes = tn_numel t * size_of (tn_dtype t)" using b numel by (simp add: size_bytes_def checked_multiply_Inr)
  have ext1: "heap_ext h h1" using S by (auto simp: heap_ext_def nth_append)
  have "tensor_ok h' t' \<and> heap_ext h h' \<and> (\<forall>i < tn_numel t. tensor_element h' t' i = tensor_element h t i)"
  proof (cases "bytes > 0")
    case no: False
    then have h': "h' = h1" using c False l b0 s valid by (simp add: tensor_contiguous_def)
    have "tensor_ok h1 t'" using S t' lok contiguous_span[OF lok mk_layout_ok(3)[OF l]] bytes numel
      by (simp add: tensor_ok_def)
    then show ?thesis using no bytes h' ext1 by simp
  next
    case True
    then have n: "0 < tn_numel t" using bytes by (cases "tn_numel t") auto
    have "storage_ok h1 (tn_storage t)" using heap_ext_storage[OF ext1] ok by (simp add: tensor_ok_def)
    from this positive_bytes[OF ok n] obtain src where src: "storage_data h1 (tn_storage t) = Some src" by (rule storage_ptr_ok) blast
    have "storage_ok h1 s" "0 < sto_size_bytes s" using S True by simp_all
    then obtain dst where dst: "storage_ptr h1 s = Inr dst" by (rule storage_ptr_ok) blast
    have "storage_ptr h1 (tn_storage t) = Inr src" using src by (simp add: storage_ptr_def)
    then have "foldE (copy_element (tn_layout t) (size_of (tn_dtype t)) src dst) [0..<tn_numel t] h1 = Inr h'"
      using c False l b0 s dst True valid by (simp add: tensor_contiguous_def)
    then show ?thesis using dense_copy[OF ok l b s True src dst] t'' by auto
  qed
  then show ?thesis using mk_layout_ok(2,3)[OF l] t' numel by simp
qed

section \<open>Views\<close>

text \<open>The element at given coordinates, as bytes.\<close>

definition tensor_at :: "heap \<Rightarrow> tensor \<Rightarrow> shape \<Rightarrow> byte list result" where
  "tensor_at h t idx =
     bindE (at_indices (tn_dtype t) t h idx) (\<lambda>p. read_bytes h p (size_of (tn_dtype t)))"

lemma dot_sum: "length c = length xs \<Longrightarrow> dot c xs = (\<Sum>i < length xs. nat (c ! i) * nat (snd (xs ! i)))"
  unfolding dot_def by (simp add: sum_list_sum_nth atLeast0LessThan case_prod_unfold)

lemma dot_update:
  assumes "length c = length xs" and "length ys = length xs" and d: "d < length xs"
    and "\<And>i. i < length xs \<Longrightarrow> i \<noteq> d \<Longrightarrow> c' ! i = c ! i \<and> snd (ys ! i) = snd (xs ! i)" and "length c' = length xs"
    and "nat (c' ! d) * nat (snd (ys ! d)) = k + nat (c ! d) * nat (snd (xs ! d))"
  shows "dot c' ys = k + dot c xs"
proof -
  have "(\<Sum>i \<in> {..<length xs} - {d}. nat (c' ! i) * nat (snd (ys ! i))) = (\<Sum>i \<in> {..<length xs} - {d}. nat (c ! i) * nat (snd (xs ! i)))"
    using assms(4) by (intro sum.cong) auto
  then show ?thesis
    using assms d sum.remove[of "{..<length xs}" d "\<lambda>i. nat (c' ! i) * nat (snd (ys ! i))"]
      sum.remove[of "{..<length xs}" d "\<lambda>i. nat (c ! i) * nat (snd (xs ! i))"]
    by (simp add: dot_sum)
qed

lemma layout_offset_Inr:
  "layout_offset l idx = Inr v \<Longrightarrow> layout_ok l \<Longrightarrow>
   length idx = lay_rank l \<and> list_all2 (\<lambda>i (d, t). 0 \<le> i \<and> i < d) idx (zip (lay_shape l) (lay_strides l)) \<and>
   v = dot idx (zip (lay_shape l) (lay_strides l)) \<and> 0 \<notin> set (lay_shape l) \<and> v < lay_storage_span l"
proof -
  assume o: "layout_offset l idx = Inr v" and ok: "layout_ok l"
  let ?z = "zip (lay_shape l) (lay_strides l)"
  have len: "length idx = lay_rank l" and f: "foldE offset_step (zip idx ?z) 0 = Inr v"
    using o by (auto simp: layout_offset_def split: if_splits)
  have lz: "length idx = length ?z" using len layout_okD(1)[OF ok] by simp
  from offset_fold_Inr[OF lz f] have r: "list_all2 (\<lambda>i (d, t). 0 \<le> i \<and> i < d) idx ?z" and v: "v = dot idx ?z" by simp_all
  have "0 < d" if "d \<in> set (lay_shape l)" for d
  proof -
    obtain i where i: "i < lay_rank l" "d = lay_shape l ! i" using \<open>d \<in> _\<close> by (auto simp: in_set_conv_nth)
    then have "i < length ?z" using lz len by simp
    from list_all2_nthD2[OF r this] show ?thesis using i layout_okD(1)[OF ok] by simp
  qed
  then have no: "0 \<notin> set (lay_shape l)" by fastforce
  have "v < lay_storage_span l" using dot_reach[OF r] v no layout_okD(6)[OF ok] by simp
  then show ?thesis using len r v no by blast
qed

lemma layout_offset_total:
  assumes ok: "layout_ok l" and r: "list_all2 (\<lambda>i (d, t). 0 \<le> i \<and> i < d) idx (zip (lay_shape l) (lay_strides l))"
    and no: "0 \<notin> set (lay_shape l)"
  shows "layout_offset l idx = Inr (dot idx (zip (lay_shape l) (lay_strides l)))"
proof -
  let ?z = "zip (lay_shape l) (lay_strides l)"
  have "0 + dot idx ?z \<le> size_max" using dot_reach[OF r] no layout_okD(5,6)[OF ok] by simp
  from offset_fold[OF r this] show ?thesis
    using list_all2_lengthD[OF r] layout_okD(1)[OF ok] by (simp add: layout_offset_def)
qed

lemma as_strided_view_ok:
  assumes ok: "tensor_ok h t" and l: "layout_ok l" and v: "as_strided_view l off t h = Inr t'"
  shows "tensor_ok h t'" "tn_layout t' = l" "tn_dtype t' = tn_dtype t" "sto_buffer (tn_storage t') = sto_buffer (tn_storage t)"
    "lay_storage_span l \<noteq> 0 \<Longrightarrow> sto_byte_offset (tn_storage t') = sto_byte_offset (tn_storage t) + off * size_of (tn_dtype t)"
proof -
  obtain b where b: "sto_buffer (tn_storage t) = Some b" "b < length (hp_buffers h)" using ok by (auto simp: tensor_ok_def storage_ok_def)
  let ?rel = "if lay_storage_span l = 0 then 0 else off * size_of (tn_dtype t)"
  obtain s where s: "storage_view (Some b) (sto_byte_offset (tn_storage t) + ?rel) (lay_storage_span l * size_of (tn_dtype t)) h = Inr s"
    and t': "t' = \<lparr>tn_layout = l, tn_dtype = tn_dtype t, tn_storage = s\<rparr>"
    using v b by (auto simp: as_strided_view_def Let_def split: if_splits)
  have S: "storage_ok h s" "s = \<lparr>sto_buffer = Some b, sto_byte_offset = sto_byte_offset (tn_storage t) + ?rel,
      sto_size_bytes = lay_storage_span l * size_of (tn_dtype t)\<rparr>" using storage_view_ok[OF s b(2)] by blast+
  show "tensor_ok h t'" using S l t' by (simp add: tensor_ok_def)
  show "tn_layout t' = l" "tn_dtype t' = tn_dtype t" "sto_buffer (tn_storage t') = sto_buffer (tn_storage t)"
    "lay_storage_span l \<noteq> 0 \<Longrightarrow> sto_byte_offset (tn_storage t') = sto_byte_offset (tn_storage t) + off * size_of (tn_dtype t)"
    using S t' b by simp_all
qed

lemma slice_length:
  fixes i :: int
  assumes "0 < step" and "0 \<le> dist" and "0 \<le> i" and "i < dist div step + (if dist mod step \<noteq> 0 then 1 else 0)"
  shows "i * step < dist"
proof (cases "i < dist div step")
  case True
  then have "(i + 1) * step \<le> dist div step * step" using assms(1) by (intro mult_right_mono) auto
  also have "\<dots> \<le> dist" using assms(1,2) by (metis div_mult_mod_eq le_add_same_cancel1 pos_mod_sign)
  finally show ?thesis using assms(1) by (simp add: distrib_right)
next
  case False
  then have "i = dist div step" "dist mod step \<noteq> 0" using assms(4) by (auto split: if_splits)
  moreover have "0 < dist mod step" using calculation(2) pos_mod_sign[OF assms(1), of dist] by simp
  moreover have "i * step = dist div step * step" using calculation(1) by simp
  ultimately show ?thesis using div_mult_mod_eq[of dist step] by linarith
qed

lemma tensor_slice_Inr:
  assumes "tensor_slice d start e step t h = Inr t'"
  obtains l where "d < tn_rank t" "0 < step" "0 \<le> start" "start \<le> e" "e \<le> tn_shape t ! d"
    "mk_strided_layout ((tn_shape t)[d := (e - start) div step + (if (e - start) mod step \<noteq> 0 then 1 else 0)])
       ((tn_strides t)[d := tn_strides t ! d * step]) = Inr l"
    "as_strided_view l (nat (start * tn_strides t ! d)) t h = Inr t'"
  using assms by (auto simp: tensor_slice_def Let_def signed_mult_def not_le not_less split: if_splits)

text \<open>A slice renames coordinates: the offset moves by the start of the slice.\<close>

lemma slice_coordinates:
  assumes ok: "layout_ok l" and d: "d < lay_rank l" and step: "0 < step" and start: "0 \<le> start"
    and n: "\<forall>i. 0 \<le> i \<longrightarrow> i < n \<longrightarrow> start + i * step < lay_shape l ! d"
    and l': "lay_shape l' = (lay_shape l)[d := n]" "lay_strides l' = (lay_strides l)[d := lay_strides l ! d * step]"
    and "in": "inside idx (zip (lay_shape l') (lay_strides l'))"
  shows "inside (idx[d := start + idx ! d * step]) (zip (lay_shape l) (lay_strides l))"
    "dot (idx[d := start + idx ! d * step]) (zip (lay_shape l) (lay_strides l)) =
       nat (start * lay_strides l ! d) + dot idx (zip (lay_shape l') (lay_strides l'))"
proof -
  let ?z = "zip (lay_shape l) (lay_strides l)" and ?z' = "zip (lay_shape l') (lay_strides l')"
  let ?idx = "idx[d := start + idx ! d * step]"
  note T = layout_okD[OF ok]
  have lz: "length ?z = lay_rank l" "length ?z' = lay_rank l" using T(1) l' by simp_all
  have len: "length idx = lay_rank l" using list_all2_lengthD[OF "in"] lz by simp
  have in': "0 \<le> idx ! i \<and> idx ! i < lay_shape l' ! i" if "i < lay_rank l" for i
    using list_all2_nthD2[OF "in", of i] that lz l' T(1) by simp
  have id: "0 \<le> idx ! d" "idx ! d < n" using in'[OF d] l' d by simp_all
  have rd: "0 \<le> start + idx ! d * step" "start + idx ! d * step < lay_shape l ! d" using n id start step by simp_all
  show "inside ?idx ?z"
  proof (rule list_all2_all_nthI)
    fix i assume "i < length ?idx"
    then have i: "i < lay_rank l" using len by simp
    show "(case ?z ! i of (d, t) \<Rightarrow> 0 \<le> ?idx ! i \<and> ?idx ! i < d)"
      using rd in'[OF i] i d len l' T(1) by (cases "i = d") auto
  qed (use len lz in simp)
  show "dot ?idx ?z = nat (start * lay_strides l ! d) + dot idx ?z'"
  proof (rule dot_update)
    show "d < length ?z'" using d lz by simp
    show "nat (?idx ! d) * nat (snd (?z ! d)) = nat (start * lay_strides l ! d) + nat (idx ! d) * nat (snd (?z' ! d))"
    proof -
      have st: "0 \<le> lay_strides l ! d" using T(1,8) d by simp
      have "nat (?idx ! d) * nat (lay_strides l ! d) = nat ((start + idx ! d * step) * lay_strides l ! d)"
        using d len rd(1) st by (simp add: nat_mult_distrib)
      also have "\<dots> = nat (start * lay_strides l ! d + idx ! d * (lay_strides l ! d * step))" by (simp add: algebra_simps)
      also have "\<dots> = nat (start * lay_strides l ! d) + nat (idx ! d) * nat (lay_strides l ! d * step)"
        using start st id(1) step by (simp add: nat_add_distrib nat_mult_distrib)
      finally show ?thesis using d T(1) l' by simp
    qed
  qed (use len lz l' T(1) in auto)
qed

lemma separated_slice:
  assumes "layout_ok l" and "d < lay_rank l" and "0 < step" and "0 \<le> start"
    and "\<forall>i. 0 \<le> i \<longrightarrow> i < n \<longrightarrow> start + i * step < lay_shape l ! d"
    and "lay_shape l' = (lay_shape l)[d := n]" and "lay_strides l' = (lay_strides l)[d := lay_strides l ! d * step]"
    and sep: "separated l"
  shows "separated l'"
  unfolding separated_def
proof (rule inj_onI, unfold mem_Collect_eq)
  let ?z' = "zip (lay_shape l') (lay_strides l')"
  fix "is" js assume a: "inside is ?z'" "inside js ?z'" "dot is ?z' = dot js ?z'"
  note S = slice_coordinates[OF assms(1-7)]
  have eq: "is[d := start + is ! d * step] = js[d := start + js ! d * step]"
    using sep S[OF a(1)] S[OF a(2)] a(3) unfolding separated_def inj_on_def by simp
  have len: "length is = length js" "length js = lay_rank l"
    using list_all2_lengthD[OF a(1)] list_all2_lengthD[OF a(2)] assms(6,7) layout_okD(1)[OF assms(1)] by simp_all
  show "is = js"
  proof (rule nth_equalityI)
    fix i assume "i < length is"
    then show "is ! i = js ! i"
      using arg_cong[OF eq, of "\<lambda>xs. xs ! i"] len assms(2,3) by (cases "i = d") simp_all
  qed (rule len(1))
qed

lemma at_position:
  assumes ok: "tensor_ok h t" and o: "layout_offset (tn_layout t) idx = Inr v"
  obtains b where "sto_buffer (tn_storage t) = Some b"
    "at_indices (tn_dtype t) t h idx = Inr (b, sto_byte_offset (tn_storage t) + v * size_of (tn_dtype t))"
    "b < length (hp_buffers h)"
proof -
  have l: "layout_ok (tn_layout t)" and s: "storage_ok h (tn_storage t)"
    and span: "lay_storage_span (tn_layout t) * size_of (tn_dtype t) \<le> sto_size_bytes (tn_storage t)" using ok by (simp_all add: tensor_ok_def)
  have "v < lay_storage_span (tn_layout t)" using layout_offset_Inr[OF o l] by simp
  then have "0 < lay_storage_span (tn_layout t) * size_of (tn_dtype t)" by simp
  then have "0 < sto_size_bytes (tn_storage t)" using span by linarith
  from s this obtain b where b: "sto_buffer (tn_storage t) = Some b" "b < length (hp_buffers h)"
    "storage_data h (tn_storage t) = Some (b, sto_byte_offset (tn_storage t))" by (rule storage_ptr_ok)
  show ?thesis by (rule that[OF b(1) _ b(2)]) (simp add: at_indices_def tensor_offset_def o index_data_def typed_data_def b(3))
qed

text \<open>
  C28: a slice reads the elements it should. If \<open>slice\<close> succeeds on a well-formed tensor, the result is
  well formed, shares the buffer, has the rounded-up extent in the sliced dimension, and its element
  at any valid coordinates is the very heap position of the original at coordinate
  \<open>start + i * step\<close>, so that writes through either are seen through both.
\<close>

theorem slice_aliases_elements:
  assumes "tensor_ok h t" and "tensor_slice d start e step t h = Inr t'"
  shows "tensor_ok h t' \<and> sto_buffer (tn_storage t') = sto_buffer (tn_storage t) \<and>
    tn_shape t' = (tn_shape t)[d := (e - start) div step + (if (e - start) mod step \<noteq> 0 then 1 else 0)] \<and>
    (\<forall>idx p. at_indices (tn_dtype t) t' h idx = Inr p \<longrightarrow>
       at_indices (tn_dtype t) t h (idx[d := start + idx ! d * step]) = Inr p)"
proof -
  obtain l where d: "d < tn_rank t" and step: "0 < step" and range: "0 \<le> start" "start \<le> e" "e \<le> tn_shape t ! d"
    and mk: "mk_strided_layout ((tn_shape t)[d := (e - start) div step + (if (e - start) mod step \<noteq> 0 then 1 else 0)])
       ((tn_strides t)[d := tn_strides t ! d * step]) = Inr l"
    and v: "as_strided_view l (nat (start * tn_strides t ! d)) t h = Inr t'"
    using assms(2) by (rule tensor_slice_Inr)
  let ?n = "(e - start) div step + (if (e - start) mod step \<noteq> 0 then 1 else 0)"
  note L = mk_strided_layout_ok[OF mk] and V = as_strided_view_ok[OF assms(1) mk_strided_layout_ok(1)[OF mk] v]
  have tl: "layout_ok (tn_layout t)" using assms(1) by (simp add: tensor_ok_def)
  note T = layout_okD[OF tl]
  let ?z = "zip (tn_shape t) (tn_strides t)" and ?z' = "zip (lay_shape l) (lay_strides l)"
  have elem: "at_indices (tn_dtype t) t h (idx[d := start + idx ! d * step]) = Inr p"
    if a: "at_indices (tn_dtype t) t' h idx = Inr p" for idx p
  proof -
    obtain v' where o: "layout_offset l idx = Inr v'" using a V(2,3) by (auto simp: at_indices_def tensor_offset_def)
    note O = layout_offset_Inr[OF o L(1)]
    let ?idx = "idx[d := start + idx ! d * step]"
    have n: "\<forall>i. 0 \<le> i \<longrightarrow> i < ?n \<longrightarrow> start + i * step < tn_shape t ! d"
      using slice_length[OF step, of "e - start"] range by fastforce
    have "in": "inside idx ?z'" using O by blast
    note C = slice_coordinates[OF tl d step range(1) n L(2,3) "in"]
    have "0 \<notin> set (tn_shape t)"
    proof
      assume "0 \<in> set (tn_shape t)"
      then obtain i where i: "i < tn_rank t" "tn_shape t ! i = 0" by (auto simp: in_set_conv_nth)
      then show False using list_all2_nthD2[OF C(1), of i] T(1) by (simp add: order.strict_iff_not)
    qed
    from layout_offset_total[OF tl C(1) this] have o': "layout_offset (tn_layout t) ?idx = Inr (dot ?idx ?z)" .
    have dot: "dot ?idx ?z = nat (start * tn_strides t ! d) + v'" using O C(2) by simp
    have "lay_storage_span l \<noteq> 0" using O by simp
    note off = V(5)[OF this]
    from at_position[OF V(1), of idx v'] V(2) o obtain b where
      b: "sto_buffer (tn_storage t') = Some b" "at_indices (tn_dtype t') t' h idx =
        Inr (b, sto_byte_offset (tn_storage t') + v' * size_of (tn_dtype t'))" by auto
    from assms(1) o' obtain b' where
      b': "sto_buffer (tn_storage t) = Some b'" "at_indices (tn_dtype t) t h ?idx =
        Inr (b', sto_byte_offset (tn_storage t) + dot ?idx ?z * size_of (tn_dtype t))" by (rule at_position)
    show ?thesis using a b b' V(3,4) off dot by (simp add: distrib_right)
  qed
  then show ?thesis using V L(2) by blast
qed

text \<open>
  C31: \<open>narrow\<close> is a slice of step one, except that it does not check its arithmetic. On a well-formed
  tensor with 64-bit strides \<open>narrow\<close> and \<open>slice\<close> return the same view or fail the same way, except where
  \<open>slice\<close> throws \<open>overflow_error\<close> for the storage offset: there \<open>narrow\<close> overflows a signed product.
\<close>

theorem narrow_is_slice:
  assumes "layout_ok (tn_layout t)" and "d < tn_rank t" and "0 \<le> start" and "0 \<le> len" and "start + len \<le> tn_shape t ! d"
    and "\<forall>st \<in> set (tn_strides t). st \<le> int64_max"
  shows "tensor_slice d start (start + len) 1 t h =
     (if start * tn_strides t ! d > int64_max then Inl (Overflow_error ''slice storage offset overflows int64_t'')
      else tensor_narrow d start len t h) \<and>
    (start * tn_strides t ! d > int64_max \<longrightarrow> tensor_narrow d start len t h = Inl (Undefined_behaviour ''signed overflow''))"
proof -
  note T = layout_okD[OF assms(1)]
  let ?st = "tn_strides t ! d"
  have st: "0 \<le> ?st" "?st \<le> int64_max" using T(1,8) assms(2,6) by simp_all
  have guard: "?st \<noteq> 0 \<and> k > int64_max div ?st \<longleftrightarrow> k * ?st > int64_max" if "0 \<le> k" for k
  proof (cases "?st = 0")
    case True
    then show ?thesis by (simp add: int64_max_def)
  next
    case False
    then have pos: "0 < ?st" using st(1) by simp
    have "k \<le> int64_max div ?st \<longleftrightarrow> k * ?st \<le> int64_max"
    proof
      assume "k \<le> int64_max div ?st"
      then have "k * ?st \<le> int64_max div ?st * ?st" using pos by (intro mult_right_mono) auto
      also have "\<dots> \<le> int64_max" using pos by (metis div_mult_mod_eq le_add_same_cancel1 pos_mod_sign)
      finally show "k * ?st \<le> int64_max" .
    next
      assume "k * ?st \<le> int64_max"
      from zdiv_mono1[OF this pos] show "k \<le> int64_max div ?st" using pos by simp
    qed
    then show ?thesis using False by (simp add: not_le[symmetric])
  qed
  have one: "\<not> (?st \<noteq> 0 \<and> 1 > int64_max div ?st)" using guard[of 1] st(2) by simp
  have upd: "(tn_strides t)[d := ?st] = tn_strides t" by simp
  have s1: "signed_mult ?st 1 = Inr ?st" using st(2) by (simp add: signed_mult_def)
  show ?thesis using assms(2-5) one guard[OF assms(3)] s1 upd
    by (auto simp: tensor_slice_def tensor_narrow_def Let_def signed_mult_def)
qed

text \<open>The empty tensor of shape \<open>[0, 2]\<close> with a stride of \<open>2^62\<close>, as a slice with a huge step makes it.\<close>

definition demo_huge :: tensor where
  "demo_huge = \<lparr>tn_layout = \<lparr>lay_shape = [0, 2], lay_strides = [1, 4611686018427387904], lay_numel = 0, lay_storage_span = 0,
       lay_contiguous = False\<rparr>, tn_dtype = Float32, tn_storage = empty_storage\<rparr>"

theorem narrow_is_slice_witness:
  "tensor_narrow 1 2 0 demo_huge \<lparr>hp_buffers = [], hp_junk = (\<lambda>_. 0), hp_available = 0\<rparr> = Inl (Undefined_behaviour ''signed overflow'') \<and>
   tensor_slice 1 2 2 1 demo_huge \<lparr>hp_buffers = [], hp_junk = (\<lambda>_. 0), hp_available = 0\<rparr> =
     Inl (Overflow_error ''slice storage offset overflows int64_t'')"
  using narrow_is_slice[of demo_huge 1 2 0 "\<lparr>hp_buffers = [], hp_junk = (\<lambda>_. 0), hp_available = 0\<rparr>"]
  by (simp add: demo_huge_def layout_ok_def int64_max_def size_max_def numeral_2_eq_2)

section \<open>What programs may do with tensors\<close>

text \<open>
  A program holds a list of tensors. It may create them (empty, from a vector of values, or over a storage of its
  own, a storage of another tensor or a part of one), copy, densify and view them, write elements through the
  references that the two forms of \<open>at\<close> return, and drop tensors, in any order.
\<close>

inductive tensor_run :: "heap \<Rightarrow> tensor list \<Rightarrow> bool" where
  start: "hp_buffers h = [] \<Longrightarrow> tensor_run h []"
| create: "tensor_run h ts \<Longrightarrow> mk_tensor sh dtype a h = Inr (t, h') \<Longrightarrow> tensor_run h' (t # ts)"
| from_values: "tensor_run h ts \<Longrightarrow> \<forall>e \<in> set elements. length e = size_of dtype \<Longrightarrow>
    from_vector sh dtype elements h = Inr (t, h') \<Longrightarrow> tensor_run h' (t # ts)"
| own_storage: "tensor_run h ts \<Longrightarrow> mk_storage n a alignment h = Inr (s, h') \<Longrightarrow> from_storage sh dtype s = Inr t \<Longrightarrow>
    tensor_run h' (t # ts)"
| share_storage: "tensor_run h ts \<Longrightarrow> u \<in> set ts \<Longrightarrow> from_storage sh dtype (tn_storage u) = Inr t \<Longrightarrow> tensor_run h (t # ts)"
| part_storage: "tensor_run h ts \<Longrightarrow> u \<in> set ts \<Longrightarrow> storage_view (sto_buffer (tn_storage u)) off n h = Inr s \<Longrightarrow>
    from_storage sh dtype s = Inr t \<Longrightarrow> tensor_run h (t # ts)"
| copy: "tensor_run h ts \<Longrightarrow> t \<in> set ts \<Longrightarrow> tensor_copy t h = Inr (t', h') \<Longrightarrow> tensor_run h' (t' # ts)"
| contiguous: "tensor_run h ts \<Longrightarrow> t \<in> set ts \<Longrightarrow> tensor_contiguous t h = Inr (t', h') \<Longrightarrow> tensor_run h' (t' # ts)"
| reshape: "tensor_run h ts \<Longrightarrow> t \<in> set ts \<Longrightarrow> tensor_view sh t = Inr t' \<Longrightarrow> tensor_run h (t' # ts)"
| transpose: "tensor_run h ts \<Longrightarrow> t \<in> set ts \<Longrightarrow> tensor_transpose i j t = Inr t' \<Longrightarrow> tensor_run h (t' # ts)"
| narrow: "tensor_run h ts \<Longrightarrow> t \<in> set ts \<Longrightarrow> tensor_narrow d start len t h = Inr t' \<Longrightarrow> tensor_run h (t' # ts)"
| slice: "tensor_run h ts \<Longrightarrow> t \<in> set ts \<Longrightarrow> tensor_slice d start e step t h = Inr t' \<Longrightarrow> tensor_run h (t' # ts)"
| store: "tensor_run h ts \<Longrightarrow> t \<in> set ts \<Longrightarrow> at_indices (tn_dtype t) t h idx = Inr p \<Longrightarrow> length bs = size_of (tn_dtype t) \<Longrightarrow>
    write_bytes p bs h = Inr h' \<Longrightarrow> tensor_run h' ts"
| store_flat: "tensor_run h ts \<Longrightarrow> t \<in> set ts \<Longrightarrow> at_flat (tn_dtype t) t h i = Inr p \<Longrightarrow> length bs = size_of (tn_dtype t) \<Longrightarrow>
    write_bytes p bs h = Inr h' \<Longrightarrow> tensor_run h' ts"
| forget: "tensor_run h ts \<Longrightarrow> set ts' \<subseteq> set ts \<Longrightarrow> tensor_run h ts'"

lemma write_keeps_ok: "write_bytes (b, p) bs h = Inr h' \<Longrightarrow> tensor_ok h t \<Longrightarrow> tensor_ok h' t"
  using write_bytes_Inr(1,2)[of b p bs h h'] by (auto simp: tensor_ok_def storage_ok_def)

lemma mk_tensor_ok:
  assumes "mk_tensor sh dtype a h = Inr (t, h')"
  shows "tensor_ok h' t" "heap_ext h h'" "tn_shape t = sh" "tn_dtype t = dtype" "lay_contiguous (tn_layout t)"
proof -
  obtain l bytes s h1 where l: "mk_layout sh = Inr l" and b: "size_bytes l dtype = Inr bytes"
    and s: "mk_storage bytes a default_alignment h = Inr (s, h1)" and t: "t = \<lparr>tn_layout = l, tn_dtype = dtype, tn_storage = s\<rparr>"
    and h': "(if bytes > 0 then bindE (storage_ptr h1 s) (\<lambda>p. write_bytes p (replicate bytes 0) h1) else Inr h1) = Inr h'"
    using assms by (auto simp: mk_tensor_def)
  note lok = mk_layout_ok[OF l]
  obtain nb where S: "storage_ok h1 s" "sto_size_bytes s = bytes" "sto_buffer s = Some (length (hp_buffers h))" "sto_byte_offset s = 0"
    "hp_buffers h1 = hp_buffers h @ [nb]" "length (buf_bytes nb) = bytes" using mk_storage_ok[OF s] by blast
  have "tensor_ok h1 t"
    using S lok contiguous_span[OF lok(1,3)] b t by (simp add: tensor_ok_def size_bytes_def checked_multiply_Inr)
  moreover have "heap_ext h h1" using S(5) by (simp add: heap_ext_def nth_append)
  moreover have "tensor_ok h' t \<and> heap_ext h h'"
  proof (cases "bytes > 0")
    case True
    then obtain p where p: "storage_ptr h1 s = Inr p" "write_bytes p (replicate bytes 0) h1 = Inr h'" using h' by auto
    then have pq: "p = (length (hp_buffers h), 0)" using S(3,4) by (auto simp: storage_ptr_def storage_data_def split: if_splits)
    note w = p(2)[unfolded pq]
    have "heap_ext h h'" using S(5) write_bytes_Inr(1)[OF w] write_bytes_other[OF w] by (auto simp: heap_ext_def nth_append)
    then show ?thesis using write_keeps_ok[OF w] calculation(1) by simp
  qed (use calculation h' in simp)
  ultimately show "tensor_ok h' t" "heap_ext h h'" by simp_all
  show "tn_shape t = sh" "tn_dtype t = dtype" "lay_contiguous (tn_layout t)" using lok t by simp_all
qed

lemma mk_tensor_fresh: "mk_tensor sh dtype a h = Inr (t, h') \<Longrightarrow> sto_buffer (tn_storage t) = Some (length (hp_buffers h))"
  by (auto simp: mk_tensor_def dest!: mk_storage_ok)

lemma relayout_ok:
  assumes "tensor_ok h t" and "layout_ok l" and "lay_storage_span l \<le> lay_storage_span (tn_layout t)"
  shows "tensor_ok h (t\<lparr>tn_layout := l\<rparr>)"
proof -
  have "lay_storage_span l * size_of (tn_dtype t) \<le> sto_size_bytes (tn_storage t)"
    by (rule order_trans[OF mult_le_mono1[OF assms(3)]]) (use assms(1) in \<open>simp add: tensor_ok_def\<close>)
  then show ?thesis using assms(1,2) by (simp add: tensor_ok_def)
qed

lemma tensor_view_ok:
  assumes ok: "tensor_ok h t" and v: "tensor_view sh t = Inr t'"
  shows "tensor_ok h t'"
proof -
  obtain sh' l where r: "resolve_reshape_shape sh (tn_numel t) = Inr sh'" "mk_layout sh' = Inr l" and c: "lay_contiguous (tn_layout t)"
    and t': "t' = t\<lparr>tn_layout := l\<rparr>" using v by (cases t) (auto simp: tensor_view_def reshaped_def split: if_splits)
  note L = mk_layout_ok[OF r(2)]
  have "prodn sh' = tn_numel t" using reshape_facts[OF r(1)] by simp
  then have "lay_storage_span l = lay_storage_span (tn_layout t)"
    using contiguous_span[OF L(1,3)] contiguous_span[of "tn_layout t"] ok c layout_okD(3)[OF L(1)] L(2) by (simp add: tensor_ok_def)
  then show ?thesis using relayout_ok[OF ok L(1)] t' by simp
qed

lemma tensor_transpose_ok:
  assumes ok: "tensor_ok h t" and v: "tensor_transpose i j t = Inr t'"
  shows "tensor_ok h t'"
proof -
  obtain l where ij: "i < tn_rank t" "j < tn_rank t" and mk: "mk_strided_layout (swap_at i j (tn_shape t)) (swap_at i j (tn_strides t)) = Inr l"
    and t': "t' = t\<lparr>tn_layout := l\<rparr>" using v by (auto simp: tensor_transpose_def transposed_def split: if_splits)
  note L = mk_strided_layout_ok[OF mk]
  have tl: "layout_ok (tn_layout t)" using ok by (simp add: tensor_ok_def)
  have "set (lay_shape l) = set (tn_shape t)" using L(2) arg_cong[OF mset_swap_at[OF ij], of set_mset] by simp
  then have "lay_storage_span l = lay_storage_span (tn_layout t)"
    using layout_okD(6)[OF L(1)] layout_okD(6)[OF tl] reach_swap[OF layout_okD(1)[OF tl] ij] L(2,3) by simp
  then show ?thesis using relayout_ok[OF ok L(1)] t' by simp
qed

lemma tensor_narrow_ok:
  assumes "tensor_ok h t" and "tensor_narrow d start len t h = Inr t'"
  shows "tensor_ok h t'"
proof -
  obtain l off where "mk_strided_layout ((tn_shape t)[d := len]) (tn_strides t) = Inr l" "as_strided_view l off t h = Inr t'"
    using assms(2) by (auto simp: tensor_narrow_def split: if_splits)
  then show ?thesis using as_strided_view_ok(1)[OF assms(1) mk_strided_layout_ok(1)] by blast
qed

lemma tensor_slice_ok:
  assumes "tensor_ok h t" and "tensor_slice d start e step t h = Inr t'"
  shows "tensor_ok h t'"
proof -
  obtain sh st l off where "mk_strided_layout sh st = Inr l" "as_strided_view l off t h = Inr t'"
    using assms(2) by (rule tensor_slice_Inr)
  then show ?thesis using as_strided_view_ok(1)[OF assms(1) mk_strided_layout_ok(1)] by blast
qed

lemma heap_ext_write_fresh:
  assumes "heap_ext h h1" and "write_bytes (b, p) bs h1 = Inr h2" and "length (hp_buffers h) \<le> b"
  shows "heap_ext h h2"
  using assms write_bytes_Inr(1)[OF assms(2)] write_bytes_other[OF assms(2)] by (auto simp: heap_ext_def)

lemma from_vector_ok:
  assumes "from_vector sh dtype elements h = Inr (t, h')"
  shows "tensor_ok h' t" "heap_ext h h'" "lay_contiguous (tn_layout t)"
proof -
  obtain h1 where mk: "mk_tensor sh dtype True h = Inr (t, h1)"
    and rest: "elements = [] \<and> h' = h1 \<or> (\<exists>p. index_data dtype t h1 0 = Inr p \<and> write_bytes p (concat elements) h1 = Inr h')"
    using assms by (auto simp: from_vector_def split: if_splits)
  note M = mk_tensor_ok[OF mk]
  show "lay_contiguous (tn_layout t)" by (rule M(5))
  show "tensor_ok h' t" "heap_ext h h'"
    using rest M(1,2) mk_tensor_fresh[OF mk] write_keeps_ok heap_ext_write_fresh[OF M(2)]
    by (auto simp: index_data_def typed_data_def storage_data_def split: if_splits option.splits)
qed

lemma from_storage_ok:
  assumes "from_storage sh dtype s = Inr t" and "storage_ok h s"
  shows "tensor_ok h t" "lay_contiguous (tn_layout t)"
proof -
  obtain l where l: "mk_layout sh = Inr l" and fits: "lay_numel l * size_of dtype \<le> sto_size_bytes s"
    and t: "t = \<lparr>tn_layout = l, tn_dtype = dtype, tn_storage = s\<rparr>"
    using assms(1) by (auto simp: from_storage_def size_bytes_def checked_multiply_Inr split: if_splits)
  note L = mk_layout_ok[OF l]
  show "tensor_ok h t" using L contiguous_span[OF L(1,3)] fits assms(2) by (simp add: tensor_ok_def t)
  show "lay_contiguous (tn_layout t)" using L by (simp add: t)
qed

lemma tensor_run_ok: "tensor_run h ts \<Longrightarrow> t \<in> set ts \<Longrightarrow> tensor_ok h t"
proof (induction arbitrary: t rule: tensor_run.induct)
  case (create h ts sh dtype a u h')
  then show ?case using mk_tensor_ok(1,2)[OF create.hyps(2)] heap_ext_tensor by auto
next
  case (from_values h ts dtype elements sh u h')
  then show ?case using from_vector_ok(1,2)[OF from_values.hyps(3)] heap_ext_tensor by auto
next
  case (own_storage h ts n a alignment s h' sh dtype u)
  note S = mk_storage_ok[OF own_storage.hyps(2)]
  have "heap_ext h h'" using S by (auto simp: heap_ext_def nth_append)
  then show ?case using S own_storage from_storage_ok(1)[OF own_storage.hyps(3)] heap_ext_tensor by auto
next
  case (share_storage h ts v sh dtype u)
  then show ?case using from_storage_ok(1)[OF share_storage.hyps(3)] by (auto simp: tensor_ok_def)
next
  case (part_storage h ts v off n s sh dtype u)
  have "storage_ok h (tn_storage v)" using part_storage.IH[OF part_storage.hyps(2)] by (simp add: tensor_ok_def)
  then have "storage_ok h s" using part_storage.hyps(3) storage_view_ok by (auto simp: storage_ok_def storage_view_def split: if_splits)
  then show ?case using part_storage from_storage_ok(1)[OF part_storage.hyps(4)] by auto
next
  case (copy h ts u u' h')
  note C = tensor_copy_ok(1,2)[OF copy.IH[OF copy.hyps(2)] copy.hyps(3)]
  show ?case using C heap_ext_tensor copy by auto
next
  case (contiguous h ts u u' h')
  note C = tensor_contiguous_ok[OF contiguous.IH[OF contiguous.hyps(2)] contiguous.hyps(3)]
  show ?case using C heap_ext_tensor contiguous by auto
next
  case (reshape h ts u sh u')
  then show ?case using tensor_view_ok[OF reshape.IH[OF reshape.hyps(2)] reshape.hyps(3)] by auto
next
  case (transpose h ts u i j u')
  then show ?case using tensor_transpose_ok[OF transpose.IH[OF transpose.hyps(2)] transpose.hyps(3)] by auto
next
  case (narrow h ts u d start len u')
  then show ?case using tensor_narrow_ok[OF narrow.IH[OF narrow.hyps(2)] narrow.hyps(3)] by auto
next
  case (slice h ts u d start e step u')
  then show ?case using tensor_slice_ok[OF slice.IH[OF slice.hyps(2)] slice.hyps(3)] by auto
next
  case (store h ts u idx p bs h')
  then show ?case using write_keeps_ok by (cases p) auto
next
  case (store_flat h ts u i p bs h')
  then show ?case using write_keeps_ok by (cases p) auto
qed auto

text \<open>No operation makes a layout whose elements overlap.\<close>

lemma tensor_run_separated: "tensor_run h ts \<Longrightarrow> t \<in> set ts \<Longrightarrow> separated (tn_layout t)"
proof (induction arbitrary: t rule: tensor_run.induct)
  case (create h ts sh dtype a u h')
  note M = mk_tensor_ok[OF create.hyps(2)]
  have "separated (tn_layout u)" using M(1,5) separated_contiguous by (simp add: tensor_ok_def)
  then show ?case using create by auto
next
  case (from_values h ts dtype elements sh u h')
  note M = from_vector_ok[OF from_values.hyps(3)]
  have "separated (tn_layout u)" using M(1,3) separated_contiguous by (simp add: tensor_ok_def)
  then show ?case using from_values by auto
next
  case (own_storage h ts n a alignment s h' sh dtype u)
  obtain l where l: "mk_layout sh = Inr l" "tn_layout u = l" using own_storage.hyps(3) by (auto simp: from_storage_def split: if_splits)
  have "separated (tn_layout u)" using separated_contiguous mk_layout_ok[OF l(1)] l(2) by blast
  then show ?case using own_storage by auto
next
  case (share_storage h ts v sh dtype u)
  obtain l where l: "mk_layout sh = Inr l" "tn_layout u = l" using share_storage.hyps(3) by (auto simp: from_storage_def split: if_splits)
  have "separated (tn_layout u)" using separated_contiguous mk_layout_ok[OF l(1)] l(2) by blast
  then show ?case using share_storage by auto
next
  case (part_storage h ts v off n s sh dtype u)
  obtain l where l: "mk_layout sh = Inr l" "tn_layout u = l" using part_storage.hyps(4) by (auto simp: from_storage_def split: if_splits)
  have "separated (tn_layout u)" using separated_contiguous mk_layout_ok[OF l(1)] l(2) by blast
  then show ?case using part_storage by auto
next
  case (copy h ts u u' h')
  obtain l where l: "mk_layout (tn_shape u) = Inr l" "tn_layout u' = l" using copy.hyps(3) by (auto simp: tensor_copy_def)
  have "separated (tn_layout u')" using separated_contiguous mk_layout_ok[OF l(1)] l(2) by blast
  then show ?case using copy by auto
next
  case (contiguous h ts u u' h')
  have "u' = u \<or> (\<exists>l. mk_layout (tn_shape u) = Inr l \<and> tn_layout u' = l)"
    using contiguous.hyps(3) by (auto simp: tensor_contiguous_def split: if_splits)
  then have "separated (tn_layout u')" using contiguous separated_contiguous mk_layout_ok by blast
  then show ?case using contiguous by auto
next
  case (reshape h ts u sh u')
  obtain sh' l where l: "mk_layout sh' = Inr l" "tn_layout u' = l" using reshape.hyps(3) by (auto simp: tensor_view_def reshaped_def split: if_splits)
  have "separated (tn_layout u')" using separated_contiguous mk_layout_ok[OF l(1)] l(2) by blast
  then show ?case using reshape by auto
next
  case (transpose h ts u i j u')
  then have ij: "i < tn_rank u" "j < tn_rank u" and mk: "mk_strided_layout (swap_at i j (tn_shape u)) (swap_at i j (tn_strides u)) = Inr (tn_layout u')"
    by (auto simp: tensor_transpose_def transposed_def split: if_splits)
  have "layout_ok (tn_layout u)" using tensor_run_ok[OF transpose.hyps(1,2)] by (simp add: tensor_ok_def)
  from separated_transposed[OF transpose.IH[OF transpose.hyps(2)] ij layout_okD(1)[OF this] mk_strided_layout_ok(2,3)[OF mk]]
  show ?case using transpose by auto
next
  case (narrow h ts u d start len u')
  have ok: "tensor_ok h u" by (rule tensor_run_ok[OF narrow.hyps(1,2)])
  obtain l off where d: "d < tn_rank u" and r: "0 \<le> start" "len \<le> tn_shape u ! d - start"
    and mk: "mk_strided_layout ((tn_shape u)[d := len]) (tn_strides u) = Inr l" "as_strided_view l off u h = Inr u'"
    using narrow.hyps(3) by (auto simp: tensor_narrow_def split: if_splits)
  note L = mk_strided_layout_ok[OF mk(1)]
  have "separated l"
    by (rule separated_slice[where l = "tn_layout u" and d = d and step = 1 and start = start and n = len])
      (use ok d r L narrow.IH[OF narrow.hyps(2)] in \<open>auto simp: tensor_ok_def\<close>)
  then show ?case using narrow as_strided_view_ok(2)[OF ok L(1) mk(2)] by auto
next
  case (slice h ts u d start e step u')
  have ok: "tensor_ok h u" by (rule tensor_run_ok[OF slice.hyps(1,2)])
  obtain l where S: "d < tn_rank u" "0 < step" "0 \<le> start" "start \<le> e" "e \<le> tn_shape u ! d"
    "mk_strided_layout ((tn_shape u)[d := (e - start) div step + (if (e - start) mod step \<noteq> 0 then 1 else 0)])
       ((tn_strides u)[d := tn_strides u ! d * step]) = Inr l"
    "as_strided_view l (nat (start * tn_strides u ! d)) u h = Inr u'" using slice.hyps(3) by (rule tensor_slice_Inr)
  note L = mk_strided_layout_ok[OF S(6)]
  have n: "\<forall>i. 0 \<le> i \<longrightarrow> i < (e - start) div step + (if (e - start) mod step \<noteq> 0 then 1 else 0) \<longrightarrow> start + i * step < tn_shape u ! d"
    using slice_length[OF S(2), of "e - start"] S(4,5) by fastforce
  have "separated l"
    by (rule separated_slice[OF _ S(1,2,3) n L(2,3)]) (use ok slice.IH[OF slice.hyps(2)] in \<open>auto simp: tensor_ok_def\<close>)
  then show ?case using slice as_strided_view_ok(2)[OF ok L(1) S(7)] by auto
qed auto

lemma tensor_run_span: "tensor_run h ts \<Longrightarrow> t \<in> set ts \<Longrightarrow> tn_numel t \<le> lay_storage_span (tn_layout t)"
  using separated_span tensor_run_ok tensor_run_separated by (simp add: tensor_ok_def)

text \<open>An offset below the storage span is a readable and writable element inside the buffer.\<close>

lemma span_position:
  assumes ok: "tensor_ok h t" and v: "v < lay_storage_span (tn_layout t)" and bs: "length bs = size_of (tn_dtype t)"
  obtains b h' where "index_data (tn_dtype t) t h v = Inr (b, sto_byte_offset (tn_storage t) + v * size_of (tn_dtype t))"
    "write_bytes (b, sto_byte_offset (tn_storage t) + v * size_of (tn_dtype t)) bs h = Inr h'"
    "read_bytes h' (b, sto_byte_offset (tn_storage t) + v * size_of (tn_dtype t)) (size_of (tn_dtype t)) = Inr bs"
proof -
  let ?n = "size_of (tn_dtype t)"
  have s: "storage_ok h (tn_storage t)" and span: "lay_storage_span (tn_layout t) * ?n \<le> sto_size_bytes (tn_storage t)"
    using ok by (simp_all add: tensor_ok_def)
  have "(v + 1) * ?n \<le> lay_storage_span (tn_layout t) * ?n" using v by (intro mult_le_mono1) simp
  then have fits: "v * ?n + ?n \<le> sto_size_bytes (tn_storage t)" using span by simp
  then have "0 < sto_size_bytes (tn_storage t)" using size_of_pos(1)[of "tn_dtype t"] by linarith
  from s this obtain b where b: "b < length (hp_buffers h)" "storage_data h (tn_storage t) = Some (b, sto_byte_offset (tn_storage t))"
    "sto_byte_offset (tn_storage t) + sto_size_bytes (tn_storage t) \<le> buf_size h b" by (rule storage_ptr_ok)
  have "sto_byte_offset (tn_storage t) + v * ?n + length bs \<le> buf_size h b" using fits b(3) bs by simp
  from write_bytes_total[OF b(1) this] obtain h' where w: "write_bytes (b, sto_byte_offset (tn_storage t) + v * ?n) bs h = Inr h'" by blast
  show ?thesis by (rule that[OF _ w]) (use b(2) write_bytes_Inr(3)[OF w] bs in \<open>simp_all add: index_data_def typed_data_def\<close>)
qed

text \<open>
  C27: tensor programs are memory safe. Whatever a program does with its tensors (creating them, from values or over
  a storage, copying, densifying, reshaping, transposing, narrowing, slicing, writing, dropping), every tensor it
  holds can be read at every logical index; an access by coordinates that passes its checks lands on a readable and
  writable element of the right size inside the buffer; and so does an access by flat index, which fails exactly for
  an index that is not below the element count: no layout a program can make has fewer positions than elements.
\<close>

theorem tensor_programs_safe:
  assumes "tensor_run h ts" and "t \<in> set ts"
  shows "(\<forall>i < tn_numel t. \<exists>bs. tensor_element h t i = Inr bs \<and> length bs = size_of (tn_dtype t)) \<and>
    (\<forall>idx p bs. at_indices (tn_dtype t) t h idx = Inr p \<longrightarrow> length bs = size_of (tn_dtype t) \<longrightarrow>
       (\<exists>h'. write_bytes p bs h = Inr h' \<and> read_bytes h' p (size_of (tn_dtype t)) = Inr bs)) \<and>
    (\<forall>i bs. length bs = size_of (tn_dtype t) \<longrightarrow>
       (case at_flat (tn_dtype t) t h i of
          Inl e \<Rightarrow> tn_numel t \<le> i \<and> e = Out_of_range ''tensor index is out of range''
        | Inr p \<Rightarrow> i < tn_numel t \<and> (\<exists>h'. write_bytes p bs h = Inr h' \<and> read_bytes h' p (size_of (tn_dtype t)) = Inr bs)))"
proof (intro conjI allI impI)
  have ok: "tensor_ok h t" by (rule tensor_run_ok[OF assms])
  show "\<exists>bs. tensor_element h t i = Inr bs \<and> length bs = size_of (tn_dtype t)" if "i < tn_numel t" for i
    by (rule element_total[OF ok that])
  fix bs :: "byte list" assume bs: "length bs = size_of (tn_dtype t)"
  show "\<exists>h'. write_bytes p bs h = Inr h' \<and> read_bytes h' p (size_of (tn_dtype t)) = Inr bs"
    if a: "at_indices (tn_dtype t) t h idx = Inr p" for idx p
  proof -
    obtain v where o: "layout_offset (tn_layout t) idx = Inr v" "index_data (tn_dtype t) t h v = Inr p"
      using a by (auto simp: at_indices_def tensor_offset_def split: if_splits)
    have "v < lay_storage_span (tn_layout t)" using layout_offset_Inr[OF o(1)] ok by (simp add: tensor_ok_def)
    from span_position[OF ok this bs] obtain q h' where "index_data (tn_dtype t) t h v = Inr q" "write_bytes q bs h = Inr h'"
      "read_bytes h' q (size_of (tn_dtype t)) = Inr bs" by blast
    then show ?thesis using o(2) by auto
  qed
  show "case at_flat (tn_dtype t) t h i of
          Inl e \<Rightarrow> tn_numel t \<le> i \<and> e = Out_of_range ''tensor index is out of range''
        | Inr p \<Rightarrow> i < tn_numel t \<and> (\<exists>h'. write_bytes p bs h = Inr h' \<and> read_bytes h' p (size_of (tn_dtype t)) = Inr bs)" for i
  proof (cases "i < tn_numel t")
    case True
    then have "i < lay_storage_span (tn_layout t)" using tensor_run_span[OF assms] by simp
    from span_position[OF ok this bs] obtain p h' where "index_data (tn_dtype t) t h i = Inr p" "write_bytes p bs h = Inr h'"
      "read_bytes h' p (size_of (tn_dtype t)) = Inr bs" by blast
    moreover have "at_flat (tn_dtype t) t h i = index_data (tn_dtype t) t h i" using True by (simp add: at_flat_def)
    ultimately show ?thesis using True by simp
  qed (simp add: at_flat_def)
qed

definition demo_heap :: heap where
  "demo_heap = \<lparr>hp_buffers = [], hp_junk = (\<lambda>_. 7), hp_available = 100\<rparr>"

definition demo_heap1 :: heap where
  "demo_heap1 = \<lparr>hp_buffers = [\<lparr>buf_bytes = [0, 0], buf_alignment = 16\<rparr>], hp_junk = (\<lambda>_. 7), hp_available = 98\<rparr>"

definition demo_tensor :: tensor where
  "demo_tensor = \<lparr>tn_layout = \<lparr>lay_shape = [2], lay_strides = [1], lay_numel = 2, lay_storage_span = 2, lay_contiguous = True\<rparr>,
     tn_dtype = Int8, tn_storage = \<lparr>sto_buffer = Some 0, sto_byte_offset = 0, sto_size_bytes = 2\<rparr>\<rparr>"

lemma demo_tensor: "mk_tensor [2] Int8 True demo_heap = Inr (demo_tensor, demo_heap1)"
proof -
  have "(16::nat) AND 15 = 0" by simp
  then have "mk_storage 2 True default_alignment demo_heap =
      Inr (\<lparr>sto_buffer = Some 0, sto_byte_offset = 0, sto_size_bytes = 2\<rparr>,
        \<lparr>hp_buffers = [\<lparr>buf_bytes = [7, 7], buf_alignment = 16\<rparr>], hp_junk = (\<lambda>_. 7), hp_available = 98\<rparr>)"
    by (simp add: mk_storage_def mk_buffer_def default_alignment_def demo_heap_def numeral_2_eq_2)
  moreover have "mk_layout [2] = Inr (tn_layout demo_tensor)" "size_bytes (tn_layout demo_tensor) Int8 = Inr 2"
    by (simp_all add: mk_layout_def validate_shape_def checked_numel_def make_contiguous_strides_def checked_multiply_def
        size_max_def int64_max_def demo_tensor_def size_bytes_def)
  ultimately show ?thesis
    by (simp add: mk_tensor_def storage_ptr_def storage_data_def buf_size_def write_bytes_def)
      (simp add: demo_tensor_def demo_heap1_def numeral_2_eq_2)
qed

lemma demo_tensor_run: "tensor_run demo_heap1 [demo_tensor]"
  using tensor_run.create[OF tensor_run.start demo_tensor] by (simp add: demo_heap_def)

theorem tensor_programs_safe_witness:
  "(\<exists>bs. tensor_element demo_heap1 demo_tensor 1 = Inr bs \<and> length bs = 1) \<and>
   at_flat Int8 demo_tensor demo_heap1 2 = Inl (Out_of_range ''tensor index is out of range'')"
proof -
  have d: "tn_numel demo_tensor = 2" "tn_dtype demo_tensor = Int8" by (simp_all add: demo_tensor_def)
  note S = tensor_programs_safe[OF demo_tensor_run list.set_intros(1), unfolded d size_of.simps]
  have "\<exists>bs. tensor_element demo_heap1 demo_tensor 1 = Inr bs \<and> length bs = 1" using S[THEN conjunct1] by simp
  moreover have "length [0 :: byte] = 1" by simp
  note S[THEN conjunct2, THEN conjunct2, THEN spec, THEN spec, THEN mp, OF this, of 2]
  then have "at_flat Int8 demo_tensor demo_heap1 2 = Inl (Out_of_range ''tensor index is out of range'')"
    by (cases "at_flat Int8 demo_tensor demo_heap1 2") simp_all
  ultimately show ?thesis by blast
qed

definition demo_sliced :: tensor where
  "demo_sliced = \<lparr>tn_layout = \<lparr>lay_shape = [1], lay_strides = [1], lay_numel = 1, lay_storage_span = 1, lay_contiguous = True\<rparr>,
     tn_dtype = Int8, tn_storage = \<lparr>sto_buffer = Some 0, sto_byte_offset = 1, sto_size_bytes = 1\<rparr>\<rparr>"

lemma demo_sliced: "tensor_slice 0 1 2 1 demo_tensor demo_heap1 = Inr demo_sliced"
proof -
  have "mk_strided_layout [1] [1] = Inr (tn_layout demo_sliced)"
    by (simp add: mk_strided_layout_def validate_shape_def checked_numel_def checked_storage_span_def
        make_contiguous_strides_def checked_multiply_def checked_add_def size_max_def int64_max_def demo_sliced_def)
  then show ?thesis
    by (simp add: tensor_slice_def demo_tensor_def signed_mult_def int64_max_def as_strided_view_def demo_sliced_def
        storage_view_def buf_size_def demo_heap1_def size_max_def)
qed

theorem slice_aliases_elements_witness:
  "at_indices Int8 demo_sliced demo_heap1 [0] = Inr (0, 1) \<and> at_indices Int8 demo_tensor demo_heap1 [1] = Inr (0, 1)"
proof -
  have "at_indices Int8 demo_sliced demo_heap1 [0] = Inr (0, 1)"
    by (simp add: at_indices_def tensor_offset_def layout_offset_def offset_step_def checked_multiply_def checked_add_def
        size_max_def demo_sliced_def index_data_def typed_data_def storage_data_def buf_size_def demo_heap1_def)
  moreover have "tn_dtype demo_tensor = Int8" by (simp add: demo_tensor_def)
  moreover note slice_aliases_elements[OF tensor_run_ok[OF demo_tensor_run, of demo_tensor] demo_sliced]
  ultimately show ?thesis by (auto dest: spec[of _ "[0]"])
qed

text \<open>
  C29: a copy is deep. Copying a well-formed tensor gives a contiguous tensor of the same shape, type and
  elements in a fresh buffer; writing through any reference into the copy leaves every tensor that
  existed before as it was.
\<close>

theorem copy_is_deep:
  assumes "tensor_ok h t" and "tensor_ok h u" and "tensor_copy t h = Inr (t', h')"
    and "at_indices (tn_dtype t) t' h' idx = Inr p" and "write_bytes p bs h' = Inr h''"
  shows "tn_shape t' = tn_shape t \<and> lay_contiguous (tn_layout t') \<and>
    (\<forall>i < tn_numel t. tensor_element h' t' i = tensor_element h t i) \<and> tensor_element h'' u j = tensor_element h u j"
proof -
  note C = tensor_copy_ok[OF assms(1,3)]
  obtain v where "layout_offset (tn_layout t') idx = Inr v" using assms(4) C(4) by (auto simp: at_indices_def tensor_offset_def)
  from at_position[OF C(1) this] obtain pos where p: "p = (length (hp_buffers h), pos)" using assms(4) C(4,6) by auto
  have "heap_ext h h''" using C(2) write_bytes_Inr(1)[OF assms(5)[unfolded p]] write_bytes_other[OF assms(5)[unfolded p]]
    by (simp add: heap_ext_def)
  from heap_ext_element[OF this assms(2)] show ?thesis using C by blast
qed

text \<open>
  C30: \<open>contiguous\<close> changes the layout and nothing else: same shape, type and elements, now dense, and every
  other tensor keeps its elements.
\<close>

theorem contiguous_keeps_elements:
  assumes "tensor_ok h t" and "tensor_ok h u" and "tensor_contiguous t h = Inr (t', h')"
  shows "tn_shape t' = tn_shape t \<and> tn_dtype t' = tn_dtype t \<and> lay_contiguous (tn_layout t') \<and>
    (\<forall>i < tn_numel t. storage_offset (tn_layout t') i = Inr i \<and> tensor_element h' t' i = tensor_element h t i) \<and>
    tensor_element h' u j = tensor_element h u j"
proof -
  note C = tensor_contiguous_ok[OF assms(1,3)]
  have l: "layout_ok (tn_layout t')" using C by (simp add: tensor_ok_def)
  have "\<forall>i < tn_numel t. storage_offset (tn_layout t') i = Inr i" using contiguous_offset[OF l] C by simp
  moreover have "tensor_element h' u j = tensor_element h u j" using heap_ext_element[OF _ assms(2)] C by blast
  ultimately show ?thesis using C by blast
qed

definition demo_heap2 :: "byte list \<Rightarrow> nat \<Rightarrow> heap" where
  "demo_heap2 bs left = \<lparr>hp_buffers = [\<lparr>buf_bytes = [0, 0], buf_alignment = 16\<rparr>, \<lparr>buf_bytes = bs, buf_alignment = 16\<rparr>],
     hp_junk = (\<lambda>_. 7), hp_available = left\<rparr>"

definition demo_copied :: tensor where
  "demo_copied = demo_tensor\<lparr>tn_storage := \<lparr>sto_buffer = Some 1, sto_byte_offset = 0, sto_size_bytes = 2\<rparr>\<rparr>"

lemma demo_copied: "tensor_copy demo_tensor demo_heap1 = Inr (demo_copied, demo_heap2 [0, 0] 96)"
proof -
  let ?s = "\<lparr>sto_buffer = Some 1, sto_byte_offset = 0, sto_size_bytes = 2\<rparr>"
  have "(16::nat) AND 15 = 0" by simp
  then have mk: "mk_storage 2 True default_alignment demo_heap1 = Inr (?s, demo_heap2 [7, 7] 96)"
    by (simp add: mk_storage_def mk_buffer_def default_alignment_def demo_heap1_def demo_heap2_def numeral_2_eq_2)
  have lay: "mk_layout (tn_shape demo_tensor) = Inr (tn_layout demo_tensor)" "size_bytes (tn_layout demo_tensor) Int8 = Inr 2"
    by (simp_all add: mk_layout_def validate_shape_def checked_numel_def make_contiguous_strides_def checked_multiply_def
        size_max_def int64_max_def demo_tensor_def size_bytes_def)
  have ptr: "storage_ptr (demo_heap2 [7, 7] 96) ?s = Inr (1, 0)" "storage_data (demo_heap2 [7, 7] 96) (tn_storage demo_tensor) = Some (0, 0)"
    by (simp_all add: storage_ptr_def storage_data_def buf_size_def demo_heap2_def demo_tensor_def)
  have so: "storage_offset (tn_layout demo_tensor) 0 = Inr 0" "storage_offset (tn_layout demo_tensor) 1 = Inr 1"
    by (simp_all add: storage_offset_def demo_tensor_def checked_multiply_def checked_add_def size_max_def)
  have step: "copy_element (tn_layout demo_tensor) 1 (0, 0) (1, 0) 0 (demo_heap2 [7, 7] 96) = Inr (demo_heap2 [0, 7] 96)"
    "copy_element (tn_layout demo_tensor) 1 (0, 0) (1, 0) 1 (demo_heap2 [0, 7] 96) = Inr (demo_heap2 [0, 0] 96)"
    by (simp_all add: copy_element_def so so[simplified] read_bytes_def write_bytes_def buf_size_def demo_heap2_def)
  have n: "lay_numel (tn_layout demo_tensor) = 2" "tn_dtype demo_tensor = Int8" by (simp_all add: demo_tensor_def)
  have "foldE (copy_element (tn_layout demo_tensor) 1 (0, 0) (1, 0)) [0..<2] (demo_heap2 [7, 7] 96) = Inr (demo_heap2 [0, 0] 96)"
    using step by (simp add: numeral_2_eq_2)
  then show ?thesis using mk lay ptr n by (simp add: tensor_copy_def demo_copied_def)
qed

theorem copy_is_deep_witness:
  "\<exists>h''. write_bytes (1, 1) [9] (demo_heap2 [0, 0] 96) = Inr h'' \<and> tensor_element h'' demo_tensor 1 = tensor_element demo_heap1 demo_tensor 1"
proof -
  have ok: "tensor_ok demo_heap1 demo_tensor" using tensor_run_ok[OF demo_tensor_run] by simp
  have at: "at_indices (tn_dtype demo_tensor) demo_copied (demo_heap2 [0, 0] 96) [1] = Inr (1, 1)"
    by (simp add: at_indices_def tensor_offset_def layout_offset_def offset_step_def checked_multiply_def checked_add_def
        size_max_def demo_copied_def demo_tensor_def index_data_def typed_data_def storage_data_def buf_size_def demo_heap2_def)
  obtain h'' where w: "write_bytes (1, 1) [9] (demo_heap2 [0, 0] 96) = Inr h''"
    using write_bytes_total[of 1 "demo_heap2 [0, 0] 96" 1 "[9]"] by (auto simp: demo_heap2_def buf_size_def)
  from copy_is_deep[OF ok ok demo_copied at w, of 1] w show ?thesis by blast
qed

text \<open>Every second byte of a buffer, made dense.\<close>

definition strided_tensor :: tensor where
  "strided_tensor = \<lparr>tn_layout = \<lparr>lay_shape = [2], lay_strides = [2], lay_numel = 2, lay_storage_span = 3, lay_contiguous = False\<rparr>,
     tn_dtype = Int8, tn_storage = \<lparr>sto_buffer = Some 0, sto_byte_offset = 0, sto_size_bytes = 3\<rparr>\<rparr>"

definition strided_heap :: heap where
  "strided_heap = \<lparr>hp_buffers = [\<lparr>buf_bytes = [5, 6, 9], buf_alignment = 16\<rparr>], hp_junk = (\<lambda>_. 7), hp_available = 100\<rparr>"

definition dense_heap :: "byte list \<Rightarrow> heap" where
  "dense_heap bs = \<lparr>hp_buffers = [\<lparr>buf_bytes = [5, 6, 9], buf_alignment = 16\<rparr>, \<lparr>buf_bytes = bs, buf_alignment = 16\<rparr>],
     hp_junk = (\<lambda>_. 7), hp_available = 98\<rparr>"

lemma strided_tensor_ok: "tensor_ok strided_heap strided_tensor"
proof -
  have "layout_ok (tn_layout strided_tensor)"
    by (simp add: layout_ok_def strided_tensor_def prodn_def size_max_def reach_def)
  then show ?thesis by (simp add: tensor_ok_def strided_tensor_def strided_heap_def storage_ok_def buf_size_def)
qed

lemma strided_dense:
  "tensor_contiguous strided_tensor strided_heap = Inr (demo_copied, dense_heap [5, 9])"
proof -
  let ?s = "\<lparr>sto_buffer = Some 1, sto_byte_offset = 0, sto_size_bytes = 2\<rparr>"
  have "(16::nat) AND 15 = 0" by simp
  then have mk: "mk_storage 2 True default_alignment strided_heap = Inr (?s, dense_heap [7, 7])"
    by (simp add: mk_storage_def mk_buffer_def default_alignment_def strided_heap_def dense_heap_def numeral_2_eq_2)
  have lay: "mk_layout (tn_shape strided_tensor) = Inr (tn_layout demo_copied)" "size_bytes (tn_layout strided_tensor) Int8 = Inr 2"
    by (simp_all add: mk_layout_def validate_shape_def checked_numel_def make_contiguous_strides_def checked_multiply_def
        size_max_def int64_max_def strided_tensor_def demo_copied_def demo_tensor_def size_bytes_def)
  have ptr: "storage_ptr (dense_heap [7, 7]) ?s = Inr (1, 0)" "storage_ptr (dense_heap [7, 7]) (tn_storage strided_tensor) = Inr (0, 0)"
    "storage_allocator (tn_storage strided_tensor) = Inr True"
    by (simp_all add: storage_ptr_def storage_data_def buf_size_def dense_heap_def strided_tensor_def storage_allocator_def)
  have so: "storage_offset (tn_layout strided_tensor) 0 = Inr 0" "storage_offset (tn_layout strided_tensor) 1 = Inr 2"
    by (simp_all add: storage_offset_def strided_tensor_def checked_multiply_def checked_add_def size_max_def)
  have step: "copy_element (tn_layout strided_tensor) 1 (0, 0) (1, 0) 0 (dense_heap [7, 7]) = Inr (dense_heap [5, 7])"
    "copy_element (tn_layout strided_tensor) 1 (0, 0) (1, 0) 1 (dense_heap [5, 7]) = Inr (dense_heap [5, 9])"
    by (simp_all add: copy_element_def so so[simplified] read_bytes_def write_bytes_def buf_size_def dense_heap_def)
  have n: "tn_numel strided_tensor = 2" "tn_dtype strided_tensor = Int8" "\<not> lay_contiguous (tn_layout strided_tensor)"
    "strided_tensor\<lparr>tn_layout := tn_layout demo_copied, tn_storage := ?s\<rparr> = demo_copied"
    by (simp_all add: strided_tensor_def demo_copied_def demo_tensor_def)
  have "foldE (copy_element (tn_layout strided_tensor) 1 (0, 0) (1, 0)) [0..<2] (dense_heap [7, 7]) = Inr (dense_heap [5, 9])"
    using step by (simp add: numeral_2_eq_2)
  then show ?thesis using mk lay ptr n by (simp add: tensor_contiguous_def)
qed

theorem contiguous_keeps_elements_witness:
  "tensor_contiguous strided_tensor strided_heap = Inr (demo_copied, dense_heap [5, 9]) \<and>
   tensor_element (dense_heap [5, 9]) demo_copied 1 = tensor_element strided_heap strided_tensor 1 \<and>
   tensor_element strided_heap strided_tensor 1 = Inr [9] \<and> \<not> lay_contiguous (tn_layout strided_tensor)"
proof -
  have n: "1 < tn_numel strided_tensor" "\<not> lay_contiguous (tn_layout strided_tensor)" by (simp_all add: strided_tensor_def)
  have "storage_offset (tn_layout strided_tensor) 1 = Inr 2"
    by (simp add: storage_offset_def strided_tensor_def checked_multiply_def checked_add_def size_max_def)
  then have "tensor_element strided_heap strided_tensor 1 = Inr [9]"
    using strided_tensor_ok
    by (simp add: tensor_element_def strided_tensor_def strided_heap_def index_data_def typed_data_def read_bytes_def storage_ptr_def storage_data_def buf_size_def)
  then show ?thesis using contiguous_keeps_elements[OF strided_tensor_ok strided_tensor_ok strided_dense] n strided_dense by blast
qed

end
