(* ===== verification/Graph.thy ===== *)
theory Graph
  imports Op_Schema Tensor
begin

text \<open>
  The computation graph of \<^verbatim>\<open>src/graph/graph.cpp\<close> and its read-only analysis \<^verbatim>\<open>src/graph/graph_analysis.cpp\<close>.
  A graph is built by \<open>add_input\<close>, \<open>add_constant\<close>, \<open>add_node\<close> and \<open>mark_output\<close>; \<open>topological_order\<close>
  checks the tables and sorts the nodes with the smallest ready identifier first.
\<close>

section \<open>Graphs\<close>

datatype value_kind = Kind_input | Kind_constant | Kind_intermediate

record graph_value =
  gv_id :: nat
  gv_name :: string
  gv_spec :: tensor_spec
  gv_kind :: value_kind
  gv_producer :: "nat option"

record node =
  nd_id :: nat
  nd_name :: string
  nd_op :: op_type
  nd_inputs :: "nat list"
  nd_outputs :: "nat list"
  nd_attributes :: node_attributes

record graph =
  g_nodes :: "node list"
  g_values :: "graph_value list"
  g_constants :: "tensor option list"
  g_inputs :: "nat list"
  g_outputs :: "nat list"

definition empty_graph :: graph where
  "empty_graph = \<lparr>g_nodes = [], g_values = [], g_constants = [], g_inputs = [], g_outputs = []\<rparr>"

text \<open>\<open>std::to_string\<close> of an unsigned number.\<close>

fun nat_string :: "nat \<Rightarrow> string" where
  "nat_string n = (if n < 10 then [char_of (48 + n)] else nat_string (n div 10) @ [char_of (48 + n mod 10)])"

declare nat_string.simps [simp del]

section \<open>Building\<close>

definition require_unique_name :: "graph \<Rightarrow> string \<Rightarrow> unit result" where
  "require_unique_name g name =
     (if name = [] then Inl (Invalid_argument ''graph names must not be empty'')
      else if name \<in> set (map gv_name (g_values g)) \<or> name \<in> set (map nd_name (g_nodes g))
      then Inl (Invalid_argument ''graph names must be unique'') else Inr ())"

definition add_input :: "string \<Rightarrow> tensor_spec \<Rightarrow> graph \<Rightarrow> (nat \<times> graph) result" where
  "add_input name spec g =
     bindE (require_unique_name g name) (\<lambda>_. bindE (validate_spec spec) (\<lambda>_.
       let nid = length (g_values g) in
       Inr (nid, g\<lparr>g_values := g_values g @ [\<lparr>gv_id = nid, gv_name = name, gv_spec = spec, gv_kind = Kind_input, gv_producer = None\<rparr>],
                  g_constants := g_constants g @ [None], g_inputs := g_inputs g @ [nid]\<rparr>)))"

definition tensor_spec_of :: "tensor \<Rightarrow> tensor_spec" where
  "tensor_spec_of t = \<lparr>spec_shape = tn_shape t, spec_dtype = tn_dtype t\<rparr>"

definition add_constant :: "string \<Rightarrow> tensor \<Rightarrow> graph \<Rightarrow> (nat \<times> graph) result" where
  "add_constant name t g =
     bindE (require_unique_name g name) (\<lambda>_. bindE (validate_spec (tensor_spec_of t)) (\<lambda>_.
       let nid = length (g_values g) in
       Inr (nid, g\<lparr>g_values := g_values g @ [\<lparr>gv_id = nid, gv_name = name, gv_spec = tensor_spec_of t, gv_kind = Kind_constant,
                    gv_producer = None\<rparr>], g_constants := g_constants g @ [Some t]\<rparr>)))"

definition output_name :: "string \<Rightarrow> nat \<Rightarrow> string" where
  "output_name name index = name @ '':'' @ nat_string index"

definition node_input_spec :: "graph \<Rightarrow> nat \<Rightarrow> tensor_spec result" where
  "node_input_spec g i = (if i \<ge> length (g_values g) then Inl (Invalid_argument ''graph input value does not exist'')
     else Inr (gv_spec (g_values g ! i)))"

definition add_node :: "string \<Rightarrow> op_type \<Rightarrow> nat list \<Rightarrow> node_attributes \<Rightarrow> graph \<Rightarrow> (nat \<times> graph) result" where
  "add_node name op inputs attrs g =
     bindE (require_unique_name g name) (\<lambda>_. bindE (mapE (node_input_spec g) inputs) (\<lambda>specs.
     bindE (infer_output_specs op specs attrs) (\<lambda>outs. bindE (foldE (\<lambda>s _. validate_spec s) outs ()) (\<lambda>_.
     bindE (foldE (\<lambda>i _. require_unique_name g (output_name name i)) [0..<length outs] ()) (\<lambda>_.
       let nid = length (g_nodes g); base = length (g_values g); ids = [base..<base + length outs] in
       Inr (nid, g\<lparr>g_values := g_values g @ map (\<lambda>i. \<lparr>gv_id = base + i, gv_name = output_name name i, gv_spec = outs ! i,
                    gv_kind = Kind_intermediate, gv_producer = Some nid\<rparr>) [0..<length outs],
                  g_constants := g_constants g @ replicate (length outs) None,
                  g_nodes := g_nodes g @ [\<lparr>nd_id = nid, nd_name = name, nd_op = op, nd_inputs = inputs, nd_outputs = ids,
                    nd_attributes = attrs\<rparr>]\<rparr>))))))"

definition graph_node :: "graph \<Rightarrow> nat \<Rightarrow> node result" where
  "graph_node g nid = (if nid \<ge> length (g_nodes g) then Inl (Out_of_range ''graph node id is out of range'') else Inr (g_nodes g ! nid))"

definition graph_value_at :: "graph \<Rightarrow> nat \<Rightarrow> graph_value result" where
  "graph_value_at g nid = (if nid \<ge> length (g_values g) then Inl (Out_of_range ''graph value id is out of range'') else Inr (g_values g ! nid))"

definition graph_constant :: "graph \<Rightarrow> nat \<Rightarrow> tensor result" where
  "graph_constant g nid = bindE (graph_value_at g nid) (\<lambda>_. case g_constants g ! nid of
     None \<Rightarrow> Inl (Invalid_argument ''graph value is not a constant'') | Some t \<Rightarrow> Inr t)"

definition is_constant :: "graph \<Rightarrow> nat \<Rightarrow> bool result" where
  "is_constant g nid = bindE (graph_value_at g nid) (\<lambda>_. Inr (g_constants g ! nid \<noteq> None))"

definition mark_output :: "nat \<Rightarrow> graph \<Rightarrow> graph result" where
  "mark_output nid g = bindE (graph_value_at g nid) (\<lambda>_.
     if nid \<in> set (g_outputs g) then Inl (Invalid_argument ''graph output is already registered'')
     else Inr (g\<lparr>g_outputs := g_outputs g @ [nid]\<rparr>))"

definition has_attribute :: "node \<Rightarrow> string \<Rightarrow> bool" where
  "has_attribute n key \<longleftrightarrow> map_of (nd_attributes n) key \<noteq> None"

definition node_attribute :: "(attribute_value \<Rightarrow> 'a result) \<Rightarrow> node \<Rightarrow> string \<Rightarrow> 'a result" where
  "node_attribute get n key = (case map_of (nd_attributes n) key of
     None \<Rightarrow> Inl (Out_of_range ''node attribute does not exist'') | Some v \<Rightarrow> get v)"

section \<open>Checking and sorting\<close>

definition register_ids :: "string \<Rightarrow> string \<Rightarrow> nat \<Rightarrow> nat list \<Rightarrow> bool list result" where
  "register_ids range_message twice_message n ids =
     foldE (\<lambda>nid flags. if nid \<ge> n then Inl (Logic_error range_message)
        else if flags ! nid then Inl (Logic_error twice_message) else Inr (flags[nid := True])) ids (replicate n False)"

definition insert_name :: "string \<Rightarrow> string list \<Rightarrow> string list result" where
  "insert_name name names = (if name \<in> set names then Inl (Logic_error ''graph contains duplicate names'') else Inr (name # names))"

definition check_kind :: "graph \<Rightarrow> bool list \<Rightarrow> nat \<Rightarrow> unit result" where
  "check_kind g registered nid =
     (let v = g_values g ! nid; c = g_constants g ! nid in
      case gv_kind v of
        Kind_input \<Rightarrow> if \<not> registered ! nid \<or> gv_producer v \<noteq> None \<or> c \<noteq> None
          then Inl (Logic_error ''graph input value metadata is inconsistent'') else Inr ()
      | Kind_constant \<Rightarrow> if registered ! nid \<or> gv_producer v \<noteq> None \<or> c = None
          then Inl (Logic_error ''graph constant value metadata is inconsistent'')
          else if tensor_spec_of (the c) \<noteq> gv_spec v then Inl (Logic_error ''graph constant TensorSpec is inconsistent'') else Inr ()
      | Kind_intermediate \<Rightarrow> if registered ! nid \<or> gv_producer v = None \<or> c \<noteq> None
          then Inl (Logic_error ''graph intermediate value metadata is inconsistent'')
          else if the (gv_producer v) \<ge> length (g_nodes g) then Inl (Logic_error ''graph value producer is out of range'') else Inr ())"

definition check_value :: "graph \<Rightarrow> bool list \<Rightarrow> nat \<Rightarrow> string list \<Rightarrow> string list result" where
  "check_value g registered nid names =
     (let v = g_values g ! nid in
      if gv_id v \<noteq> nid then Inl (Logic_error ''graph value id does not match its table index'')
      else bindE (validate_spec (gv_spec v)) (\<lambda>_. bindE (insert_name (gv_name v) names) (\<lambda>names'.
           bindE (check_kind g registered nid) (\<lambda>_. Inr names'))))"

text \<open>The state of the pass over the nodes: names, in-degrees, consumer lists and produced flags.\<close>

record node_pass =
  np_names :: "string list"
  np_indegree :: "nat list"
  np_consumers :: "nat list list"
  np_produced :: "bool list"

definition node_spec :: "graph \<Rightarrow> nat \<Rightarrow> tensor_spec result" where
  "node_spec g i = (if i \<ge> length (g_values g) then Inl (Logic_error ''graph node input value is out of range'') else Inr (gv_spec (g_values g ! i)))"

text \<open>\<open>std::set<NodeId>\<close> of the producers of the inputs, in ascending order.\<close>

definition dependencies :: "graph \<Rightarrow> node \<Rightarrow> nat list" where
  "dependencies g n = sorted_list_of_set (set (List.map_filter (\<lambda>i. gv_producer (g_values g ! i)) (nd_inputs n)))"

definition check_output :: "graph \<Rightarrow> node \<Rightarrow> tensor_spec list \<Rightarrow> nat \<Rightarrow> bool list \<Rightarrow> bool list result" where
  "check_output g n inferred index produced =
     (let out = nd_outputs n ! index in
      if out \<ge> length (g_values g) then Inl (Logic_error ''graph node output value is out of range'')
      else if produced ! out then Inl (Logic_error ''graph value has multiple producers'')
      else let v = g_values g ! out in
        if gv_kind v \<noteq> Kind_intermediate \<or> gv_producer v \<noteq> Some (nd_id n) \<or> gv_spec v \<noteq> inferred ! index
        then Inl (Logic_error ''graph node output metadata is inconsistent'')
        else Inr (produced[out := True]))"

definition add_consumer :: "nat \<Rightarrow> nat \<Rightarrow> nat \<Rightarrow> nat list list \<Rightarrow> nat list list result" where
  "add_consumer n nid dep consumers =
     (if dep \<ge> n then Inl (Logic_error ''graph node dependency is out of range'')
      else Inr (consumers[dep := consumers ! dep @ [nid]]))"

definition check_node :: "graph \<Rightarrow> nat \<Rightarrow> node_pass \<Rightarrow> node_pass result" where
  "check_node g nid s =
     (let n = g_nodes g ! nid in
      if nd_id n \<noteq> nid then Inl (Logic_error ''graph node id does not match its table index'')
      else bindE (insert_name (nd_name n) (np_names s)) (\<lambda>names.
        if nd_outputs n = [] then Inl (Logic_error ''graph node must produce at least one value'')
        else bindE (mapE (node_spec g) (nd_inputs n)) (\<lambda>specs.
             bindE (infer_output_specs (nd_op n) specs (nd_attributes n)) (\<lambda>inferred.
             if length inferred \<noteq> length (nd_outputs n) then Inl (Logic_error ''graph node output count violates its schema'')
             else bindE (foldE (check_output g n inferred) [0..<length (nd_outputs n)] (np_produced s)) (\<lambda>produced.
               let deps = dependencies g n in
               bindE (foldE (add_consumer (length (g_nodes g)) nid) deps (np_consumers s)) (\<lambda>consumers.
               Inr \<lparr>np_names = names, np_indegree = (np_indegree s)[nid := length deps], np_consumers = consumers,
                    np_produced = produced\<rparr>))))))"

text \<open>
  Kahn's loop. The priority queue is a list in ascending order; finishing a node decrements the
  in-degree of its consumers and queues those that reach zero.
\<close>

definition release_consumer :: "nat list \<times> nat list \<Rightarrow> nat \<Rightarrow> nat list \<times> nat list" where
  "release_consumer s c = (case s of (indegree, ready) \<Rightarrow>
     let d = dec64 (indegree ! c) in (indegree[c := d], if d = 0 then insort c ready else ready))"

fun kahn :: "nat \<Rightarrow> nat list list \<Rightarrow> nat list \<Rightarrow> nat list \<Rightarrow> nat list \<Rightarrow> nat list option" where
  "kahn fuel consumers indegree [] order = Some order"
| "kahn 0 consumers indegree (r # ready) order = None"
| "kahn (Suc fuel) consumers indegree (nid # ready) order =
     (case foldl release_consumer (indegree, ready) (consumers ! nid) of
        (indegree', ready') \<Rightarrow> kahn fuel consumers indegree' ready' (order @ [nid]))"

definition check_tables :: "graph \<Rightarrow> node_pass result" where
  "check_tables g =
     (if length (g_constants g) \<noteq> length (g_values g) then Inl (Logic_error ''graph value and constant tables are inconsistent'')
      else if g_outputs g = [] then Inl (Invalid_argument ''graph must register at least one output'')
      else let nv = length (g_values g); nn = length (g_nodes g) in
        bindE (register_ids ''graph input id is out of range'' ''graph input is registered more than once'' nv (g_inputs g)) (\<lambda>registered.
        bindE (register_ids ''graph output id is out of range'' ''graph output is registered more than once'' nv (g_outputs g)) (\<lambda>_.
        bindE (foldE (check_value g registered) [0..<nv] []) (\<lambda>names.
        bindE (foldE (check_node g) [0..<nn] \<lparr>np_names = names, np_indegree = replicate nn 0, np_consumers = replicate nn [],
                 np_produced = replicate nv False\<rparr>) (\<lambda>s.
        if \<exists>nid \<in> set [0..<nv]. gv_kind (g_values g ! nid) = Kind_intermediate \<and> \<not> np_produced s ! nid
        then Inl (Logic_error ''graph intermediate value has no producer'') else Inr s)))))"

definition topological_order :: "graph \<Rightarrow> nat list result" where
  "topological_order g =
     bindE (check_tables g) (\<lambda>s.
       let n = length (g_nodes g) in
       case kahn n (np_consumers s) (np_indegree s) (filter (\<lambda>nid. np_indegree s ! nid = 0) [0..<n]) [] of
         None \<Rightarrow> Inl (Undefined_behaviour ''loop'')
       | Some order \<Rightarrow> if length order \<noteq> n then Inl (Invalid_argument ''graph contains a cycle'') else Inr order)"

definition validate_graph :: "graph \<Rightarrow> unit result" where
  "validate_graph g = bindE (topological_order g) (\<lambda>_. Inr ())"

section \<open>Analysis\<close>

record graph_analysis =
  ga_consumers :: "nat list list"
  ga_use_counts :: "nat list"
  ga_output_flags :: "bool list"
  ga_node_outputs :: "nat list list"
  ga_graph_outputs :: "nat list"

definition count_use :: "nat \<Rightarrow> nat list list \<times> nat list \<Rightarrow> nat \<Rightarrow> nat list list \<times> nat list" where
  "count_use node_id s input = (case s of (consumers, uses) \<Rightarrow>
     (if consumers ! input = [] \<or> last (consumers ! input) \<noteq> node_id
      then consumers[input := consumers ! input @ [node_id]] else consumers,
      uses[input := Suc (uses ! input)]))"

definition analyse_node :: "(nat list list \<times> nat list) \<times> nat list list \<Rightarrow> node \<Rightarrow> (nat list list \<times> nat list) \<times> nat list list" where
  "analyse_node s n = (foldl (count_use (nd_id n)) (fst s) (nd_inputs n), (snd s)[nd_id n := nd_outputs n])"

definition mk_analysis :: "graph \<Rightarrow> graph_analysis result" where
  "mk_analysis g =
     bindE (validate_graph g) (\<lambda>_.
       let nv = length (g_values g);
           s = foldl analyse_node ((replicate nv [], replicate nv 0), replicate (length (g_nodes g)) []) (g_nodes g) in
       Inr \<lparr>ga_consumers = fst (fst s), ga_use_counts = snd (fst s),
            ga_output_flags = foldl (\<lambda>flags out. flags[out := True]) (replicate nv False) (g_outputs g),
            ga_node_outputs = snd s, ga_graph_outputs = g_outputs g\<rparr>)"

abbreviation analysis_value_error :: exn where
  "analysis_value_error \<equiv> Out_of_range ''GraphAnalysis ValueId is out of range''"

definition value_consumers :: "graph_analysis \<Rightarrow> nat \<Rightarrow> nat list result" where
  "value_consumers ga v = (if v \<ge> length (ga_consumers ga) then Inl analysis_value_error else Inr (ga_consumers ga ! v))"

definition use_count :: "graph_analysis \<Rightarrow> nat \<Rightarrow> nat result" where
  "use_count ga v = (if v \<ge> length (ga_use_counts ga) then Inl analysis_value_error else Inr (ga_use_counts ga ! v))"

definition is_graph_output :: "graph_analysis \<Rightarrow> nat \<Rightarrow> bool result" where
  "is_graph_output ga v = (if v \<ge> length (ga_output_flags ga) then Inl analysis_value_error else Inr (ga_output_flags ga ! v))"

definition analysis_outputs :: "graph_analysis \<Rightarrow> nat \<Rightarrow> nat list result" where
  "analysis_outputs ga n = (if n \<ge> length (ga_node_outputs ga) then Inl (Out_of_range ''GraphAnalysis NodeId is out of range'')
     else Inr (ga_node_outputs ga ! n))"

end
