(* ===== verification/Wire.thy ===== *)
theory Wire
  imports Graph
begin

text \<open>
  The protocol buffer reader of \<^verbatim>\<open>src/model/onnx/protobuf_model_parser.cpp\<close> (\<open>WireReader\<close>) and the import
  diagnostics of \<^verbatim>\<open>src/model/onnx/import_diagnostic.cpp\<close>. A reader is the list of bytes between its
  two pointers; every read returns a value and the bytes left, and a read past the end is undefined
  behaviour.
\<close>

section \<open>Diagnostics\<close>

datatype onnx_import_stage =
    Stage_FileRead | Stage_ProtobufParse | Stage_TensorDecode | Stage_ModelValidation
  | Stage_GraphImport | Stage_OperatorTranslation | Stage_ShapeInference | Stage_GraphValidation

fun stage_string :: "onnx_import_stage \<Rightarrow> string" where
  "stage_string Stage_FileRead = ''FileRead''"
| "stage_string Stage_ProtobufParse = ''ProtobufParse''"
| "stage_string Stage_TensorDecode = ''TensorDecode''"
| "stage_string Stage_ModelValidation = ''ModelValidation''"
| "stage_string Stage_GraphImport = ''GraphImport''"
| "stage_string Stage_OperatorTranslation = ''OperatorTranslation''"
| "stage_string Stage_ShapeInference = ''ShapeInference''"
| "stage_string Stage_GraphValidation = ''GraphValidation''"

record diagnostic =
  dg_stage :: onnx_import_stage
  dg_model_path :: string
  dg_graph_name :: string
  dg_node_index :: "nat option"
  dg_node_name :: string
  dg_op_type :: string
  dg_domain :: string
  dg_value_name :: string
  dg_message :: string

definition default_diagnostic :: diagnostic where
  "default_diagnostic = \<lparr>dg_stage = Stage_GraphImport, dg_model_path = [], dg_graph_name = [], dg_node_index = None,
     dg_node_name = [], dg_op_type = [], dg_domain = [], dg_value_name = [], dg_message = []\<rparr>"

definition format_diagnostic :: "diagnostic \<Rightarrow> string" where
  "format_diagnostic d =
     ''ONNX import failed [stage='' @ stage_string (dg_stage d) @
     (if dg_model_path d \<noteq> [] then '', path='' @ dg_model_path d else []) @
     (if dg_graph_name d \<noteq> [] then '', graph='' @ dg_graph_name d else []) @
     (case dg_node_index d of None \<Rightarrow> [] | Some i \<Rightarrow> '', node_index='' @ nat_string i) @
     (if dg_node_name d \<noteq> [] then '', node='' @ dg_node_name d else []) @
     (if dg_op_type d \<noteq> [] then '', op='' @ (if dg_domain d \<noteq> [] then dg_domain d @ ''::'' else []) @ dg_op_type d
      else if dg_domain d \<noteq> [] then '', domain='' @ dg_domain d else []) @
     (if dg_value_name d \<noteq> [] then '', value='' @ dg_value_name d else []) @
     '']: '' @ dg_message d"

text \<open>The exceptions of the importer: its own class, carrying a diagnostic, and the standard ones.\<close>

datatype import_exn = Import_error diagnostic | Std exn

type_synonym 'a import = "import_exn + 'a"

definition lift :: "'a result \<Rightarrow> 'a import" where
  "lift m = (case m of Inl e \<Rightarrow> Inl (Std e) | Inr x \<Rightarrow> Inr x)"

fun import_what :: "import_exn \<Rightarrow> string" where
  "import_what (Import_error d) = format_diagnostic d"
| "import_what (Std e) = what e"

abbreviation invalid :: "string \<Rightarrow> 'a import" where
  "invalid m \<equiv> Inl (Std (Invalid_argument m))"

abbreviation undefined_ub :: "string \<Rightarrow> 'a import" where
  "undefined_ub m \<equiv> Inl (Std (Undefined_behaviour m))"

section \<open>The reader\<close>

type_synonym reader = "byte list"

definition require_bytes :: "nat \<Rightarrow> reader \<Rightarrow> unit import" where
  "require_bytes n bs = (if length bs < n then invalid ''truncated protobuf message'' else Inr ())"

text \<open>
  A load of \<open>n\<close> bytes at the current position, which is undefined when it passes the end of the
  buffer: the checks before the loads are what keeps the reader inside its input.
\<close>

definition load_bytes :: "nat \<Rightarrow> reader \<Rightarrow> byte list result" where
  "load_bytes n bs = (if n \<le> length bs then Inr (take n bs) else Inl (Undefined_behaviour ''read past the end''))"

definition read_ahead :: "nat \<Rightarrow> reader \<Rightarrow> (byte list \<times> reader) import" where
  "read_ahead n bs = bindE (lift (load_bytes n bs)) (\<lambda>p. Inr (p, drop n bs))"

function varint_loop :: "nat \<Rightarrow> 64 word \<Rightarrow> reader \<Rightarrow> (64 word \<times> reader) import" where
  "varint_loop shift r bs =
     (if shift < 64
      then bindE (require_bytes 1 bs) (\<lambda>_. bindE (read_ahead 1 bs) (\<lambda>(p, bs').
        let b = hd p; r' = r OR push_bit shift (ucast (b AND 0x7F)) in
        if b AND 0x80 = 0 then Inr (r', bs') else varint_loop (shift + 7) r' bs'))
      else invalid ''protobuf varint is too long'')"
  by pat_completeness auto
termination by (relation "measure (\<lambda>(shift, r, bs). 64 - shift)") auto

declare varint_loop.simps [simp del]

definition wire_varint :: "reader \<Rightarrow> (64 word \<times> reader) import" where
  "wire_varint bs = varint_loop 0 0 bs"

definition wire_key :: "reader \<Rightarrow> ((nat \<times> nat) \<times> reader) import" where
  "wire_key bs = bindE (wire_varint bs) (\<lambda>(v, bs').
     let field = unat (ucast (drop_bit 3 v) :: 32 word); wire = unat (v AND 7) in
     if field = 0 then invalid ''protobuf field number is zero'' else Inr ((field, wire), bs'))"

definition bytes_to_word32 :: "byte list \<Rightarrow> 32 word" where
  "bytes_to_word32 bs = ucast (bs ! 0) OR push_bit 8 (ucast (bs ! 1)) OR push_bit 16 (ucast (bs ! 2)) OR push_bit 24 (ucast (bs ! 3))"

definition wire_fixed32 :: "reader \<Rightarrow> (32 word \<times> reader) import" where
  "wire_fixed32 bs = bindE (require_bytes 4 bs) (\<lambda>_. bindE (read_ahead 4 bs) (\<lambda>(p, bs'). Inr (bytes_to_word32 p, bs')))"

definition wire_fixed64 :: "reader \<Rightarrow> (64 word \<times> reader) import" where
  "wire_fixed64 bs = bindE (require_bytes 8 bs) (\<lambda>_. bindE (read_ahead 8 bs) (\<lambda>(p, bs').
     Inr (foldl (\<lambda>v i. v OR push_bit (i * 8) (ucast (p ! i))) 0 [0..<8], bs')))"

definition wire_bytes :: "reader \<Rightarrow> (byte list \<times> reader) import" where
  "wire_bytes bs = bindE (wire_varint bs) (\<lambda>(len, bs').
     if unat len > length bs' then invalid ''protobuf length exceeds remaining data''
     else read_ahead (unat len) bs')"

definition wire_skip :: "nat \<Rightarrow> reader \<Rightarrow> reader import" where
  "wire_skip wire bs =
     (if wire = 0 then bindE (wire_varint bs) (\<lambda>(_, bs'). Inr bs')
      else if wire = 1 then bindE (wire_fixed64 bs) (\<lambda>(_, bs'). Inr bs')
      else if wire = 2 then bindE (wire_bytes bs) (\<lambda>(_, bs'). Inr bs')
      else if wire = 5 then bindE (wire_fixed32 bs) (\<lambda>(_, bs'). Inr bs')
      else invalid ''unsupported protobuf wire type'')"

definition require_wire :: "nat \<Rightarrow> nat \<Rightarrow> string \<Rightarrow> unit import" where
  "require_wire actual expected field =
     (if actual \<noteq> expected then invalid (''unexpected wire type for '' @ field) else Inr ())"

text \<open>
  A loop \<open>while (!reader.empty())\<close>. Its body always consumes a byte, which \<open>consumes\<close> below
  proves for every body of the parser; the alternative that it does not is marked as undefined.
\<close>

function reader_loop :: "(reader \<Rightarrow> 's \<Rightarrow> ('s \<times> reader) import) \<Rightarrow> reader \<Rightarrow> 's \<Rightarrow> 's import" where
  "reader_loop body bs s =
     (if bs = [] then Inr s
      else bindE (body bs s) (\<lambda>(s', bs'). if length bs' < length bs then reader_loop body bs' s' else undefined_ub ''loop''))"
  by pat_completeness auto
termination by (relation "measure (\<lambda>(body, bs, s). length bs)") auto

declare reader_loop.simps [simp del]

text \<open>The loop over the fields of a message: read a key, then let \<open>handle\<close> read the field.\<close>

definition field_step :: "(nat \<Rightarrow> nat \<Rightarrow> reader \<Rightarrow> 's \<Rightarrow> ('s \<times> reader) import) \<Rightarrow> reader \<Rightarrow> 's \<Rightarrow> ('s \<times> reader) import" where
  "field_step handle bs s = bindE (wire_key bs) (\<lambda>((field, wire), bs'). handle field wire bs' s)"

definition parse_fields :: "(nat \<Rightarrow> nat \<Rightarrow> reader \<Rightarrow> 's \<Rightarrow> ('s \<times> reader) import) \<Rightarrow> reader \<Rightarrow> 's \<Rightarrow> 's import" where
  "parse_fields handle = reader_loop (field_step handle)"

definition packed_step :: "(reader \<Rightarrow> ('a \<times> reader) import) \<Rightarrow> reader \<Rightarrow> 'a list \<Rightarrow> ('a list \<times> reader) import" where
  "packed_step read bs out = bindE (read bs) (\<lambda>(v, bs'). Inr (out @ [v], bs'))"

definition signed_varint :: "64 word \<Rightarrow> int" where "signed_varint v = sint v"

definition wire_int64 :: "reader \<Rightarrow> (int \<times> reader) import" where
  "wire_int64 bs = bindE (wire_varint bs) (\<lambda>(v, bs'). Inr (signed_varint v, bs'))"

definition wire_int32 :: "reader \<Rightarrow> (32 word \<times> reader) import" where
  "wire_int32 bs = bindE (wire_varint bs) (\<lambda>(v, bs'). Inr (ucast v, bs'))"

definition read_packed_varints :: "reader \<Rightarrow> int list \<Rightarrow> int list import" where
  "read_packed_varints = reader_loop (packed_step wire_int64)"

definition read_packed_int32 :: "reader \<Rightarrow> 32 word list \<Rightarrow> 32 word list import" where
  "read_packed_int32 = reader_loop (packed_step wire_int32)"

definition read_packed_floats :: "reader \<Rightarrow> float32 list \<Rightarrow> float32 list import" where
  "read_packed_floats = reader_loop (packed_step wire_fixed32)"

section \<open>Loads behind their checks\<close>

text \<open>Where the code has checked the length, a load is \<^verbatim>\<open>take\<close> and \<^verbatim>\<open>drop\<close>.\<close>

lemma load_bytes_inside [simp]: "n \<le> length bs \<Longrightarrow> load_bytes n bs = Inr (take n bs)"
  by (simp add: load_bytes_def)

lemma read_ahead_inside [simp]: "n \<le> length bs \<Longrightarrow> read_ahead n bs = Inr (take n bs, drop n bs)"
  by (simp add: read_ahead_def lift_def)

lemma bytes_to_word32_take [simp]: "bytes_to_word32 (take 4 bs) = bytes_to_word32 bs"
  by (simp add: bytes_to_word32_def)

lemma varint_loop_Nil [simp]:
  "varint_loop shift r [] = (if shift < 64 then invalid ''truncated protobuf message'' else invalid ''protobuf varint is too long'')"
  by (subst varint_loop.simps) (simp add: require_bytes_def)

lemma varint_loop_Cons [simp]:
  "varint_loop shift r (b # bs) =
     (if shift < 64
      then let r' = r OR push_bit shift (ucast (b AND 0x7F)) in
           if b AND 0x80 = 0 then Inr (r', bs) else varint_loop (shift + 7) r' bs
      else invalid ''protobuf varint is too long'')"
  by (subst varint_loop.simps) (simp add: require_bytes_def Let_def)

lemma varint_induct [case_names Nil Cons]:
  assumes "\<And>shift r. P shift r []" and "\<And>shift r b bs. (\<And>r'. P (shift + 7) r' bs) \<Longrightarrow> P shift r (b # bs)"
  shows "P shift r bs"
  by (induction bs arbitrary: shift r) (auto intro: assms)

lemma wire_fixed32_checked:
  "wire_fixed32 bs = (if length bs < 4 then invalid ''truncated protobuf message'' else Inr (bytes_to_word32 bs, drop 4 bs))"
  by (simp add: wire_fixed32_def require_bytes_def)

lemma wire_fixed64_checked:
  "wire_fixed64 bs = (if length bs < 8 then invalid ''truncated protobuf message''
     else Inr (foldl (\<lambda>v i. v OR push_bit (i * 8) (ucast (take 8 bs ! i))) 0 [0..<8], drop 8 bs))"
  by (simp add: wire_fixed64_def require_bytes_def)

lemma wire_bytes_checked:
  "wire_bytes bs = bindE (wire_varint bs) (\<lambda>(len, bs').
     if unat len > length bs' then invalid ''protobuf length exceeds remaining data''
     else Inr (take (unat len) bs', drop (unat len) bs'))"
  unfolding wire_bytes_def by (rule bindE_cong) (auto split: prod.splits)

end
