(* ===== verification/Onnx_Parser.thy ===== *)
theory Onnx_Parser
  imports Wire
begin

text \<open>
  The ONNX messages of \<^verbatim>\<open>src/model/onnx/protobuf_model_parser.cpp\<close>: one handler per message reads its
  fields, in the order and with the checks of the code. Tensors are decoded into the heap of buffers;
  the host stores numbers with the low byte first. A file is what the stream reads of it.
\<close>

section \<open>Messages\<close>

record value_info =
  vi_name :: string
  vi_spec :: tensor_spec

record initializer =
  in_name :: string
  in_value :: tensor

record node_proto =
  np_name :: string
  np_op_type :: string
  np_inputs :: "string list"
  np_outputs :: "string list"
  np_attributes :: node_attributes
  np_domain :: string

record graph_proto =
  gp_name :: string
  gp_inputs :: "value_info list"
  gp_initializers :: "initializer list"
  gp_nodes :: "node_proto list"
  gp_outputs :: "value_info list"

record model_proto =
  mp_opset_version :: int
  mp_graph :: graph_proto

record parsed_tensor =
  pt_shape :: shape
  pt_data_type :: "32 word"
  pt_name :: string
  pt_raw_data :: "byte list"
  pt_float_data :: "float32 list"
  pt_int32_data :: "32 word list"
  pt_external :: bool

definition empty_graph_proto :: graph_proto where
  "empty_graph_proto = \<lparr>gp_name = [], gp_inputs = [], gp_initializers = [], gp_nodes = [], gp_outputs = []\<rparr>"

definition empty_parsed_tensor :: parsed_tensor where
  "empty_parsed_tensor = \<lparr>pt_shape = [], pt_data_type = 0, pt_name = [], pt_raw_data = [], pt_float_data = [],
     pt_int32_data = [], pt_external = False\<rparr>"

text \<open>\<open>std::string(reader.bytes())\<close> of a field that must have wire type 2.\<close>

definition string_of_bytes :: "byte list \<Rightarrow> string" where
  "string_of_bytes = map (\<lambda>b. char_of (unat b))"

definition bytes_field :: "nat \<Rightarrow> string \<Rightarrow> reader \<Rightarrow> (byte list \<times> reader) import" where
  "bytes_field wire name bs = bindE (require_wire wire 2 name) (\<lambda>_. wire_bytes bs)"

definition string_field :: "nat \<Rightarrow> string \<Rightarrow> reader \<Rightarrow> (string \<times> reader) import" where
  "string_field wire name bs = bindE (bytes_field wire name bs) (\<lambda>(s, bs'). Inr (string_of_bytes s, bs'))"

definition skip_field :: "nat \<Rightarrow> reader \<Rightarrow> 's \<Rightarrow> ('s \<times> reader) import" where
  "skip_field wire bs s = bindE (wire_skip wire bs) (\<lambda>bs'. Inr (s, bs'))"

text \<open>A repeated number field: one value with its own wire type, or packed values.\<close>

definition repeated_field :: "nat \<Rightarrow> (reader \<Rightarrow> ('a \<times> reader) import) \<Rightarrow> (reader \<Rightarrow> 'a list \<Rightarrow> 'a list import) \<Rightarrow>
    nat \<Rightarrow> string \<Rightarrow> reader \<Rightarrow> 'a list \<Rightarrow> ('a list \<times> reader) import" where
  "repeated_field single_wire read_one packed wire name bs out =
     (if wire = single_wire then bindE (read_one bs) (\<lambda>(v, bs'). Inr (out @ [v], bs'))
      else if wire = 2 then bindE (wire_bytes bs) (\<lambda>(p, bs'). bindE (packed p out) (\<lambda>out'. Inr (out', bs')))
      else bindE (require_wire wire single_wire name) (\<lambda>_. Inr (out, bs)))"

section \<open>Tensors\<close>

definition onnx_data_type :: "int \<Rightarrow> data_type result" where
  "onnx_data_type v =
     (if v = 1 then Inr Float32 else if v = 3 then Inr Int8 else if v = 6 then Inr Int32 else if v = 10 then Inr Float16
      else Inl (Invalid_argument ''unsupported ONNX TensorProto data type''))"

definition tensor_field :: "nat \<Rightarrow> nat \<Rightarrow> reader \<Rightarrow> parsed_tensor \<Rightarrow> (parsed_tensor \<times> reader) import" where
  "tensor_field field wire bs t =
     (if field = 1 then
        bindE (repeated_field 0 wire_int64 read_packed_varints wire ''TensorProto.dims'' bs (pt_shape t))
          (\<lambda>(v, bs'). Inr (t\<lparr>pt_shape := v\<rparr>, bs'))
      else if field = 2 then
        bindE (require_wire wire 0 ''TensorProto.data_type'') (\<lambda>_. bindE (wire_int32 bs) (\<lambda>(v, bs'). Inr (t\<lparr>pt_data_type := v\<rparr>, bs')))
      else if field = 4 then
        bindE (repeated_field 5 wire_fixed32 read_packed_floats wire ''TensorProto.float_data'' bs (pt_float_data t))
          (\<lambda>(v, bs'). Inr (t\<lparr>pt_float_data := v\<rparr>, bs'))
      else if field = 5 then
        bindE (repeated_field 0 wire_int32 read_packed_int32 wire ''TensorProto.int32_data'' bs (pt_int32_data t))
          (\<lambda>(v, bs'). Inr (t\<lparr>pt_int32_data := v\<rparr>, bs'))
      else if field = 8 then
        bindE (string_field wire ''TensorProto.name'' bs) (\<lambda>(v, bs'). Inr (t\<lparr>pt_name := v\<rparr>, bs'))
      else if field = 9 then
        bindE (bytes_field wire ''TensorProto.raw_data'' bs) (\<lambda>(v, bs'). Inr (t\<lparr>pt_raw_data := v\<rparr>, bs'))
      else if field = 13 then
        bindE (bytes_field wire ''TensorProto.external_data'' bs) (\<lambda>(v, bs'). Inr (t\<lparr>pt_external := True\<rparr>, bs'))
      else if field = 14 then
        bindE (require_wire wire 0 ''TensorProto.data_location'') (\<lambda>_. bindE (wire_varint bs) (\<lambda>(v, bs'). Inr (t\<lparr>pt_external := v \<noteq> 0\<rparr>, bs')))
      else skip_field wire bs t)"

definition parse_tensor :: "reader \<Rightarrow> parsed_tensor import" where
  "parse_tensor bs = parse_fields tensor_field bs empty_parsed_tensor"

text \<open>The bytes of a number in memory, and the store \<open>tensor.data<T>()[i] = v\<close>.\<close>

definition word16_bytes :: "16 word \<Rightarrow> byte list" where
  "word16_bytes w = [ucast w, ucast (drop_bit 8 w)]"

definition word32_bytes :: "32 word \<Rightarrow> byte list" where
  "word32_bytes w = [ucast w, ucast (drop_bit 8 w), ucast (drop_bit 16 w), ucast (drop_bit 24 w)]"

definition store_element :: "tensor \<Rightarrow> nat \<Rightarrow> byte list \<Rightarrow> heap \<Rightarrow> heap result" where
  "store_element t i bs h = bindE (index_data (tn_dtype t) t h i) (\<lambda>p. write_bytes p bs h)"

definition raw_element :: "data_type \<Rightarrow> byte list \<Rightarrow> nat \<Rightarrow> byte list result" where
  "raw_element dtype raw i =
     (if dtype = Float16 then bindE (load_bytes 2 (drop (i * 2) raw)) (\<lambda>p. Inr (word16_bytes (bytes_to_half p)))
      else bindE (load_bytes 4 (drop (i * 4) raw)) (\<lambda>p. Inr (word32_bytes (bytes_to_word32 p))))"

definition decode_raw :: "byte list \<Rightarrow> tensor \<Rightarrow> heap \<Rightarrow> (tensor \<times> heap) result" where
  "decode_raw raw t h =
     bindE (size_bytes (tn_layout t) (tn_dtype t)) (\<lambda>bytes.
       if length raw \<noteq> bytes then Inl (Invalid_argument ''TensorProto raw_data size is inconsistent'')
       else if tn_dtype t = Int8
       then bindE (index_data Int8 t h 0) (\<lambda>p. bindE (load_bytes (tn_numel t) raw) (\<lambda>src.
         bindE (write_bytes p src h) (\<lambda>h'. Inr (t, h'))))
       else bindE (foldE (\<lambda>i h. bindE (raw_element (tn_dtype t) raw i) (\<lambda>bs. store_element t i bs h)) [0..<tn_numel t] h) (\<lambda>h'. Inr (t, h')))"

text \<open>Reading element \<open>i\<close> of a vector of the message.\<close>

definition load_item :: "'a list \<Rightarrow> nat \<Rightarrow> 'a result" where
  "load_item xs i = (if i < length xs then Inr (xs ! i) else Inl (Undefined_behaviour ''read past the end''))"

definition int32_element :: "data_type \<Rightarrow> 32 word \<Rightarrow> byte list result" where
  "int32_element dtype v =
     (case dtype of
        Float16 \<Rightarrow> if sint v < 0 \<or> sint v > 65535 then Inl (Invalid_argument ''Float16 TensorProto value is out of range'')
          else Inr (word16_bytes (ucast v))
      | Int8 \<Rightarrow> if sint v < - 128 \<or> sint v > 127 then Inl (Invalid_argument ''Int8 TensorProto value is out of range'')
          else Inr [ucast v]
      | Int32 \<Rightarrow> Inr (word32_bytes v)
      | Float32 \<Rightarrow> Inr [])"

definition decode_typed :: "parsed_tensor \<Rightarrow> tensor \<Rightarrow> heap \<Rightarrow> (tensor \<times> heap) result" where
  "decode_typed source t h =
     (if tn_dtype t = Float32
      then if length (pt_float_data source) \<noteq> tn_numel t then Inl (Invalid_argument ''TensorProto float_data size is inconsistent'')
        else bindE (foldE (\<lambda>i h. bindE (load_item (pt_float_data source) i) (\<lambda>v. store_element t i (word32_bytes v) h)) [0..<tn_numel t] h)
          (\<lambda>h'. Inr (t, h'))
      else if length (pt_int32_data source) \<noteq> tn_numel t then Inl (Invalid_argument ''TensorProto int32_data size is inconsistent'')
      else bindE (foldE (\<lambda>i h. bindE (load_item (pt_int32_data source) i) (\<lambda>v. bindE (int32_element (tn_dtype t) v) (\<lambda>bs. store_element t i bs h)))
             [0..<tn_numel t] h) (\<lambda>h'. Inr (t, h')))"

definition decode_tensor :: "parsed_tensor \<Rightarrow> heap \<Rightarrow> (tensor \<times> heap) result" where
  "decode_tensor source h =
     (if pt_external source then Inl (Invalid_argument ''external ONNX tensor data is not supported'')
      else bindE (onnx_data_type (sint (pt_data_type source))) (\<lambda>dtype.
           bindE (mk_tensor (pt_shape source) dtype True h) (\<lambda>(t, h1).
           if pt_raw_data source \<noteq> [] then decode_raw (pt_raw_data source) t h1 else decode_typed source t h1)))"

section \<open>Types of values\<close>

definition dimension_field :: "nat \<Rightarrow> nat \<Rightarrow> reader \<Rightarrow> int option \<times> bool \<Rightarrow> ((int option \<times> bool) \<times> reader) import" where
  "dimension_field field wire bs s =
     (if field = 1 then bindE (require_wire wire 0 ''Dimension.dim_value'') (\<lambda>_. bindE (wire_int64 bs) (\<lambda>(v, bs'). Inr ((Some v, snd s), bs')))
      else if field = 2 then bindE (bytes_field wire ''Dimension.dim_param'' bs) (\<lambda>(_, bs'). Inr ((fst s, True), bs'))
      else skip_field wire bs s)"

definition shape_field :: "nat \<Rightarrow> nat \<Rightarrow> reader \<Rightarrow> shape \<Rightarrow> (shape \<times> reader) import" where
  "shape_field field wire bs sh =
     (if field \<noteq> 1 then skip_field wire bs sh
      else bindE (bytes_field wire ''TensorShapeProto.dim'' bs) (\<lambda>(d, bs').
           bindE (parse_fields dimension_field d (None, False)) (\<lambda>(dim, symbolic).
           if symbolic \<or> dim = None then invalid ''dynamic ONNX dimensions are not supported''
           else Inr (sh @ [the dim], bs'))))"

definition parse_shape :: "reader \<Rightarrow> shape import" where
  "parse_shape bs = parse_fields shape_field bs []"

definition tensor_type_field :: "nat \<Rightarrow> nat \<Rightarrow> reader \<Rightarrow> data_type option \<times> shape option \<Rightarrow>
    ((data_type option \<times> shape option) \<times> reader) import" where
  "tensor_type_field field wire bs s =
     (if field = 1 then bindE (require_wire wire 0 ''TypeProto.Tensor.elem_type'') (\<lambda>_. bindE (wire_int32 bs) (\<lambda>(v, bs').
        bindE (lift (onnx_data_type (sint v))) (\<lambda>d. Inr ((Some d, snd s), bs'))))
      else if field = 2 then bindE (bytes_field wire ''TypeProto.Tensor.shape'' bs) (\<lambda>(b, bs').
        bindE (parse_shape b) (\<lambda>sh. Inr ((fst s, Some sh), bs')))
      else skip_field wire bs s)"

definition type_field :: "nat \<Rightarrow> nat \<Rightarrow> reader \<Rightarrow> tensor_spec option \<Rightarrow> (tensor_spec option \<times> reader) import" where
  "type_field field wire bs s =
     (if field \<noteq> 1 then skip_field wire bs s
      else bindE (bytes_field wire ''TypeProto.tensor_type'' bs) (\<lambda>(b, bs').
           bindE (parse_fields tensor_type_field b (None, None)) (\<lambda>(dtype, sh).
           case (dtype, sh) of (Some d, Some x) \<Rightarrow> Inr (Some \<lparr>spec_shape = x, spec_dtype = d\<rparr>, bs')
           | _ \<Rightarrow> invalid ''incomplete ONNX tensor type'')))"

definition parse_type :: "reader \<Rightarrow> tensor_spec import" where
  "parse_type bs = bindE (parse_fields type_field bs None) (\<lambda>s.
     case s of None \<Rightarrow> invalid ''ONNX value is not a tensor type'' | Some x \<Rightarrow> Inr x)"

definition value_info_field :: "nat \<Rightarrow> nat \<Rightarrow> reader \<Rightarrow> string \<times> tensor_spec option \<Rightarrow> ((string \<times> tensor_spec option) \<times> reader) import" where
  "value_info_field field wire bs s =
     (if field = 1 then bindE (string_field wire ''ValueInfoProto.name'' bs) (\<lambda>(n, bs'). Inr ((n, snd s), bs'))
      else if field = 2 then bindE (bytes_field wire ''ValueInfoProto.type'' bs) (\<lambda>(b, bs').
        bindE (parse_type b) (\<lambda>t. Inr ((fst s, Some t), bs')))
      else skip_field wire bs s)"

definition parse_value_info :: "reader \<Rightarrow> value_info import" where
  "parse_value_info bs = bindE (parse_fields value_info_field bs ([], None)) (\<lambda>(name, spec).
     case spec of Some s \<Rightarrow> if name = [] then invalid ''incomplete ONNX ValueInfoProto'' else Inr \<lparr>vi_name = name, vi_spec = s\<rparr>
     | None \<Rightarrow> invalid ''incomplete ONNX ValueInfoProto'')"

section \<open>Attributes and nodes\<close>

record attribute_fields =
  af_name :: string
  af_integer :: "int option"
  af_floating :: "float32 option"
  af_string :: "string option"
  af_integers :: "int list"
  af_type :: "32 word"

definition empty_attribute_fields :: attribute_fields where
  "empty_attribute_fields = \<lparr>af_name = [], af_integer = None, af_floating = None, af_string = None, af_integers = [], af_type = 0\<rparr>"

definition attribute_field :: "nat \<Rightarrow> nat \<Rightarrow> reader \<Rightarrow> attribute_fields \<Rightarrow> (attribute_fields \<times> reader) import" where
  "attribute_field field wire bs a =
     (if field = 1 then bindE (string_field wire ''AttributeProto.name'' bs) (\<lambda>(v, bs'). Inr (a\<lparr>af_name := v\<rparr>, bs'))
      else if field = 2 then bindE (require_wire wire 5 ''AttributeProto.f'') (\<lambda>_. bindE (wire_fixed32 bs) (\<lambda>(v, bs'). Inr (a\<lparr>af_floating := Some v\<rparr>, bs')))
      else if field = 3 then bindE (require_wire wire 0 ''AttributeProto.i'') (\<lambda>_. bindE (wire_int64 bs) (\<lambda>(v, bs'). Inr (a\<lparr>af_integer := Some v\<rparr>, bs')))
      else if field = 4 then bindE (string_field wire ''AttributeProto.s'' bs) (\<lambda>(v, bs'). Inr (a\<lparr>af_string := Some v\<rparr>, bs'))
      else if field = 8 then bindE (repeated_field 0 wire_int64 read_packed_varints wire ''AttributeProto.ints'' bs (af_integers a))
        (\<lambda>(v, bs'). Inr (a\<lparr>af_integers := v\<rparr>, bs'))
      else if field = 20 then bindE (require_wire wire 0 ''AttributeProto.type'') (\<lambda>_. bindE (wire_int32 bs) (\<lambda>(v, bs'). Inr (a\<lparr>af_type := v\<rparr>, bs')))
      else skip_field wire bs a)"

text \<open>\<open>*optional\<close>: dereferencing an empty \<open>std::optional\<close> is undefined behaviour.\<close>

definition deref :: "'a option \<Rightarrow> 'a import" where
  "deref x = (case x of None \<Rightarrow> undefined_ub ''empty optional'' | Some v \<Rightarrow> Inr v)"

definition attribute_result :: "attribute_fields \<Rightarrow> (string \<times> attribute_value) import" where
  "attribute_result a =
     (if af_name a = [] then invalid ''ONNX attribute has no name''
      else if af_type a = 1 \<or> (af_type a = 0 \<and> af_floating a \<noteq> None)
      then bindE (deref (af_floating a)) (\<lambda>v. Inr (af_name a, Attr_float v))
      else if af_type a = 2 \<or> (af_type a = 0 \<and> af_integer a \<noteq> None)
      then bindE (deref (af_integer a)) (\<lambda>v. Inr (af_name a, Attr_integer v))
      else if af_type a = 3 \<or> (af_type a = 0 \<and> af_string a \<noteq> None)
      then bindE (deref (af_string a)) (\<lambda>v. Inr (af_name a, Attr_string v))
      else if af_type a = 7 \<or> (af_type a = 0 \<and> af_integers a \<noteq> [])
      then Inr (af_name a, Attr_integers (af_integers a))
      else invalid ''unsupported ONNX attribute type'')"

definition parse_attribute :: "reader \<Rightarrow> (string \<times> attribute_value) import" where
  "parse_attribute bs = bindE (parse_fields attribute_field bs empty_attribute_fields) attribute_result"

text \<open>\<open>std::map::emplace\<close> keeps the keys in ascending order and fails on a key that is present.\<close>

definition emplace_attribute :: "string \<times> attribute_value \<Rightarrow> node_attributes \<Rightarrow> node_attributes import" where
  "emplace_attribute a attrs =
     (if map_of attrs (fst a) \<noteq> None then invalid ''duplicate ONNX node attribute'' else Inr (insort_key fst a attrs))"

definition node_field :: "nat \<Rightarrow> nat \<Rightarrow> reader \<Rightarrow> node_proto \<Rightarrow> (node_proto \<times> reader) import" where
  "node_field field wire bs n =
     (if field = 1 then bindE (string_field wire ''NodeProto.input'' bs) (\<lambda>(v, bs'). Inr (n\<lparr>np_inputs := np_inputs n @ [v]\<rparr>, bs'))
      else if field = 2 then bindE (string_field wire ''NodeProto.output'' bs) (\<lambda>(v, bs'). Inr (n\<lparr>np_outputs := np_outputs n @ [v]\<rparr>, bs'))
      else if field = 3 then bindE (string_field wire ''NodeProto.name'' bs) (\<lambda>(v, bs'). Inr (n\<lparr>np_name := v\<rparr>, bs'))
      else if field = 4 then bindE (string_field wire ''NodeProto.op_type'' bs) (\<lambda>(v, bs'). Inr (n\<lparr>np_op_type := v\<rparr>, bs'))
      else if field = 5 then bindE (bytes_field wire ''NodeProto.attribute'' bs) (\<lambda>(b, bs').
        bindE (parse_attribute b) (\<lambda>a. bindE (emplace_attribute a (np_attributes n)) (\<lambda>attrs. Inr (n\<lparr>np_attributes := attrs\<rparr>, bs'))))
      else if field = 7 then bindE (string_field wire ''NodeProto.domain'' bs) (\<lambda>(v, bs'). Inr (n\<lparr>np_domain := v\<rparr>, bs'))
      else skip_field wire bs n)"

definition empty_node_proto :: node_proto where
  "empty_node_proto = \<lparr>np_name = [], np_op_type = [], np_inputs = [], np_outputs = [], np_attributes = [], np_domain = []\<rparr>"

definition parse_node :: "reader \<Rightarrow> node_proto import" where
  "parse_node bs = bindE (parse_fields node_field bs empty_node_proto) (\<lambda>n.
     if np_op_type n = [] then invalid ''ONNX node has no op_type'' else Inr n)"

section \<open>Graphs and models\<close>

text \<open>\<open>catch (const std::exception&)\<close>: what the handler sees; undefined behaviour is not an exception.\<close>

definition catch_exception :: "'a import \<Rightarrow> (import_exn \<Rightarrow> 'a import) \<Rightarrow> 'a import" where
  "catch_exception m handler = (case m of
     Inl (Std (Undefined_behaviour u)) \<Rightarrow> undefined_ub u
   | Inl e \<Rightarrow> handler e
   | Inr x \<Rightarrow> Inr x)"

definition initializer_field :: "byte list \<Rightarrow> graph_proto \<Rightarrow> heap \<Rightarrow> (graph_proto \<times> heap) import" where
  "initializer_field b g h =
     bindE (parse_tensor b) (\<lambda>parsed.
       if pt_name parsed = [] then invalid ''ONNX initializer has no name''
       else catch_exception
         (bindE (lift (decode_tensor parsed h)) (\<lambda>(t, h').
            Inr (g\<lparr>gp_initializers := gp_initializers g @ [\<lparr>in_name = pt_name parsed, in_value = t\<rparr>]\<rparr>, h')))
         (\<lambda>e. Inl (Import_error (default_diagnostic\<lparr>dg_stage := Stage_TensorDecode, dg_graph_name := gp_name g,
            dg_value_name := pt_name parsed, dg_message := import_what e\<rparr>))))"

definition graph_field :: "nat \<Rightarrow> nat \<Rightarrow> reader \<Rightarrow> graph_proto \<times> heap \<Rightarrow> ((graph_proto \<times> heap) \<times> reader) import" where
  "graph_field field wire bs s = (case s of (g, h) \<Rightarrow>
     if field = 1 then bindE (bytes_field wire ''GraphProto.node'' bs) (\<lambda>(b, bs').
       bindE (parse_node b) (\<lambda>n. Inr ((g\<lparr>gp_nodes := gp_nodes g @ [n]\<rparr>, h), bs')))
     else if field = 2 then bindE (string_field wire ''GraphProto.name'' bs) (\<lambda>(v, bs'). Inr ((g\<lparr>gp_name := v\<rparr>, h), bs'))
     else if field = 5 then bindE (bytes_field wire ''GraphProto.initializer'' bs) (\<lambda>(b, bs').
       bindE (initializer_field b g h) (\<lambda>s'. Inr (s', bs')))
     else if field = 11 then bindE (bytes_field wire ''GraphProto.input'' bs) (\<lambda>(b, bs').
       bindE (parse_value_info b) (\<lambda>v. Inr ((g\<lparr>gp_inputs := gp_inputs g @ [v]\<rparr>, h), bs')))
     else if field = 12 then bindE (bytes_field wire ''GraphProto.output'' bs) (\<lambda>(b, bs').
       bindE (parse_value_info b) (\<lambda>v. Inr ((g\<lparr>gp_outputs := gp_outputs g @ [v]\<rparr>, h), bs')))
     else skip_field wire bs s)"

definition parse_graph :: "reader \<Rightarrow> heap \<Rightarrow> (graph_proto \<times> heap) import" where
  "parse_graph bs h = parse_fields graph_field bs (empty_graph_proto, h)"

definition opset_field :: "nat \<Rightarrow> nat \<Rightarrow> reader \<Rightarrow> string \<times> int \<Rightarrow> ((string \<times> int) \<times> reader) import" where
  "opset_field field wire bs s =
     (if field = 1 then bindE (string_field wire ''OperatorSetIdProto.domain'' bs) (\<lambda>(v, bs'). Inr ((v, snd s), bs'))
      else if field = 2 then bindE (require_wire wire 0 ''OperatorSetIdProto.version'') (\<lambda>_. bindE (wire_int64 bs) (\<lambda>(v, bs'). Inr ((fst s, v), bs')))
      else skip_field wire bs s)"

definition parse_opset :: "reader \<Rightarrow> (string \<times> int) import" where
  "parse_opset bs = parse_fields opset_field bs ([], 0)"

text \<open>The state of the loop of \<open>parse_model\<close>: the model, whether it has a graph, and the heap.\<close>

definition model_field :: "nat \<Rightarrow> nat \<Rightarrow> reader \<Rightarrow> (model_proto \<times> bool) \<times> heap \<Rightarrow> (((model_proto \<times> bool) \<times> heap) \<times> reader) import" where
  "model_field field wire bs s = (case s of ((m, has_graph), h) \<Rightarrow>
     if field = 7 then bindE (bytes_field wire ''ModelProto.graph'' bs) (\<lambda>(b, bs').
       bindE (parse_graph b h) (\<lambda>(g, h'). Inr (((m\<lparr>mp_graph := g\<rparr>, True), h'), bs')))
     else if field = 8 then bindE (bytes_field wire ''ModelProto.opset_import'' bs) (\<lambda>(b, bs').
       bindE (parse_opset b) (\<lambda>(domain, version).
         Inr (((if domain = [] \<or> domain = ''ai.onnx'' then m\<lparr>mp_opset_version := version\<rparr> else m, has_graph), h), bs')))
     else skip_field wire bs s)"

definition parse_model :: "reader \<Rightarrow> heap \<Rightarrow> (model_proto \<times> heap) import" where
  "parse_model bs h =
     bindE (parse_fields model_field bs ((\<lparr>mp_opset_version = 0, mp_graph = empty_graph_proto\<rparr>, False), h)) (\<lambda>((m, has_graph), h').
       if \<not> has_graph then invalid ''ONNX model has no graph''
       else if mp_opset_version m = 0 then invalid ''ONNX model has no default-domain opset''
       else Inr (m, h'))"

section \<open>The parser interface\<close>

datatype file_read = Cannot_open | Read_failed | File_contents "byte list"

definition parser_parse :: "string \<Rightarrow> file_read \<Rightarrow> heap \<Rightarrow> (model_proto \<times> heap) import" where
  "parser_parse path file h =
     (case file of
        Cannot_open \<Rightarrow> Inl (Import_error (default_diagnostic\<lparr>dg_stage := Stage_FileRead, dg_model_path := path,
          dg_message := ''failed to open ONNX model''\<rparr>))
      | Read_failed \<Rightarrow> Inl (Import_error (default_diagnostic\<lparr>dg_stage := Stage_FileRead, dg_model_path := path,
          dg_message := ''failed to read ONNX model''\<rparr>))
      | File_contents bytes \<Rightarrow> catch_exception (parse_model bytes h) (\<lambda>e. case e of
          Import_error d \<Rightarrow> Inl (Import_error (d\<lparr>dg_model_path := path\<rparr>))
        | Std _ \<Rightarrow> Inl (Import_error (default_diagnostic\<lparr>dg_stage := Stage_ProtobufParse, dg_model_path := path,
            dg_message := import_what e\<rparr>))))"

definition decode_tensor_proto :: "reader \<Rightarrow> heap \<Rightarrow> (tensor \<times> heap) import" where
  "decode_tensor_proto serialized h =
     (let fail = (\<lambda>name e. case e of Import_error d \<Rightarrow> Inl (Import_error d)
          | Std _ \<Rightarrow> Inl (Import_error (default_diagnostic\<lparr>dg_stage := Stage_TensorDecode, dg_value_name := name,
              dg_message := import_what e\<rparr>))) in
      case parse_tensor serialized of
        Inl e \<Rightarrow> catch_exception (Inl e) (fail [])
      | Inr parsed \<Rightarrow> catch_exception (lift (decode_tensor parsed h)) (fail (pt_name parsed)))"

end
