(* ===== verification/Onnx_Decode.thy ===== *)
theory Onnx_Decode
  imports Onnx_Parser
begin

text \<open>
  Decoding the tensors of a model: which failures can happen, and what ends up in memory. \<open>defined U m\<close>
  says that the only undefined behaviour \<open>m\<close> can show is named in \<open>U\<close>, and that an import error of \<open>m\<close> comes
  from decoding a tensor.
\<close>

named_theorems defined_intros

definition defined :: "string set \<Rightarrow> 'a import \<Rightarrow> bool" where
  "defined U m \<longleftrightarrow> (case m of
     Inl (Std (Undefined_behaviour u)) \<Rightarrow> u \<in> U
   | Inl (Import_error d) \<Rightarrow> dg_stage d = Stage_TensorDecode
   | _ \<Rightarrow> True)"

definition regular :: "'a result \<Rightarrow> bool" where
  "regular m \<longleftrightarrow> (\<forall>u. m \<noteq> Inl (Undefined_behaviour u))"

lemma defined_simps [simp]:
  "defined U (Inr x)" "defined U (invalid m)" "defined U (Inl (Import_error d)) \<longleftrightarrow> dg_stage d = Stage_TensorDecode" "defined U (undefined_ub u) \<longleftrightarrow> u \<in> U"
  by (simp_all add: defined_def)

lemma regular_simps [simp]:
  "regular (Inr x)" "regular (Inl (Invalid_argument m))" "regular (Inl (Out_of_range m))" "regular (Inl (Overflow_error m))"
  "regular (Inl (Logic_error m))" "regular (Inl Bad_alloc)"
  by (simp_all add: regular_def)

lemma defined_bind [defined_intros]:
  "defined U m \<Longrightarrow> (\<And>x. m = Inr x \<Longrightarrow> defined U (f x)) \<Longrightarrow> defined U (bindE m f)"
  by (cases m) (auto simp: defined_def split: sum.splits)

lemma regular_bind: "regular m \<Longrightarrow> (\<And>x. m = Inr x \<Longrightarrow> regular (f x)) \<Longrightarrow> regular (bindE m f)"
  by (cases m) (auto simp: regular_def)

lemma regular_unless: "regular m \<Longrightarrow> regular (if b then Inl (Invalid_argument e) else m)"
  by simp

lemma defined_lift [defined_intros]: "regular m \<Longrightarrow> defined U (lift m)"
  by (auto simp: regular_def defined_def lift_def split: sum.splits exn.splits)

lemma regular_foldE:
  assumes "\<And>x s. x \<in> set xs \<Longrightarrow> P s \<Longrightarrow> regular (f x s) \<and> (\<forall>s'. f x s = Inr s' \<longrightarrow> P s')" and "P s"
  shows "regular (foldE f xs s)"
  using assms
proof (induction xs arbitrary: s)
  case (Cons x xs)
  have x: "regular (f x s)" "\<And>s'. f x s = Inr s' \<Longrightarrow> P s'" using Cons.prems(1)[of x s] Cons.prems(2) by auto
  show ?case unfolding foldE.simps by (rule regular_bind[OF x(1)], rule Cons.IH) (use x(2) Cons.prems(1) in auto)
qed simp

section \<open>Making a tensor\<close>

lemma regular_layout: "regular (mk_layout sh)"
proof -
  have m: "regular (checked_multiply a b e)" for a b e by (simp add: checked_multiply_def)
  have v: "regular (validate_shape sh)" by (auto simp: validate_shape_def)
  have n: "regular (checked_numel sh)"
    unfolding checked_numel_def by (auto intro!: regular_bind regular_foldE[where P = "\<lambda>_. True"] m)
  have "regular (contiguous_loop ds acc out)" for ds acc out
    by (induction ds acc out rule: contiguous_loop.induct) (auto intro!: regular_bind m)
  then have c: "regular (make_contiguous_strides sh)" unfolding make_contiguous_strides_def by (auto intro!: regular_bind)
  show ?thesis unfolding mk_layout_def by (auto intro!: regular_bind v n c simp: Let_def)
qed

lemma regular_write: "b < length (hp_buffers h) \<Longrightarrow> pos + length bs \<le> buf_size h b \<Longrightarrow> regular (write_bytes (b, pos) bs h)"
  using write_bytes_total by fastforce

lemma regular_mk_tensor: "regular (mk_tensor sh dtype a h)"
proof -
  have b: "regular (size_bytes l dtype)" for l by (auto simp: size_bytes_def checked_multiply_def)
  have s: "regular (mk_storage n a default_alignment h)" for n
    unfolding mk_storage_def by (rule regular_bind) (auto simp: mk_buffer_def)
  have z: "regular (if n > 0 then bindE (storage_ptr h1 s) (\<lambda>p. write_bytes p (replicate n 0) h1) else Inr h1)"
    if m: "mk_storage n a default_alignment h = Inr (s, h1)" for n s h1
  proof (cases "n > 0")
    case True
    with mk_storage_ok[OF m] obtain b where "storage_ptr h1 s = Inr (b, sto_byte_offset s)" "b < length (hp_buffers h1)"
      "sto_byte_offset s + n \<le> buf_size h1 b" using storage_ptr_ok[of h1 s] by auto
    then show ?thesis using True regular_write by simp
  qed simp
  show ?thesis unfolding mk_tensor_def by (auto intro!: regular_bind regular_layout b s z)
qed

section \<open>Storing the elements\<close>

lemma dense_element:
  assumes "tensor_ok h t" and "lay_contiguous (tn_layout t)" and "i < tn_numel t"
  obtains b where "index_data (tn_dtype t) t h i = Inr (b, sto_byte_offset (tn_storage t) + i * size_of (tn_dtype t))"
    "b < length (hp_buffers h)" "sto_byte_offset (tn_storage t) + i * size_of (tn_dtype t) + size_of (tn_dtype t) \<le> buf_size h b"
    "sto_buffer (tn_storage t) = Some b"
    "tensor_element h t i = read_bytes h (b, sto_byte_offset (tn_storage t) + i * size_of (tn_dtype t)) (size_of (tn_dtype t))"
proof -
  from assms(1,3) obtain off b where l: "storage_offset (tn_layout t) i = Inr off" "sto_buffer (tn_storage t) = Some b"
    "b < length (hp_buffers h)" "storage_ptr h (tn_storage t) = Inr (b, sto_byte_offset (tn_storage t))"
    "storage_data h (tn_storage t) = Some (b, sto_byte_offset (tn_storage t))"
    "sto_byte_offset (tn_storage t) + off * size_of (tn_dtype t) + size_of (tn_dtype t) \<le>
       sto_byte_offset (tn_storage t) + sto_size_bytes (tn_storage t)"
    "sto_byte_offset (tn_storage t) + sto_size_bytes (tn_storage t) \<le> buf_size h b"
    by (rule element_location)
  have off: "off = i" using assms contiguous_offset[of "tn_layout t" i] l(1) by (simp add: tensor_ok_def)
  show ?thesis
    by (rule that[of b]) (use l off in \<open>auto simp: index_data_def typed_data_def tensor_element_def\<close>)
qed

lemma store_element_ok:
  assumes ok: "tensor_ok h t" "lay_contiguous (tn_layout t)" and i: "i < tn_numel t" and bs: "length bs = size_of (tn_dtype t)"
  obtains h' where "store_element t i bs h = Inr h'" "tensor_ok h' t" "tensor_element h' t i = Inr bs"
    "\<And>j. j < tn_numel t \<Longrightarrow> j \<noteq> i \<Longrightarrow> tensor_element h' t j = tensor_element h t j"
    "same_but (the (sto_buffer (tn_storage t))) h h'"
proof -
  let ?p = "\<lambda>j. sto_byte_offset (tn_storage t) + j * size_of (tn_dtype t)" and ?n = "size_of (tn_dtype t)"
  from dense_element[OF ok i] obtain b where b: "index_data (tn_dtype t) t h i = Inr (b, ?p i)" "b < length (hp_buffers h)"
    "?p i + ?n \<le> buf_size h b" "sto_buffer (tn_storage t) = Some b" by metis
  from write_bytes_total[of b h "?p i" bs] b(2,3) bs obtain h' where w: "write_bytes (b, ?p i) bs h = Inr h'" by auto
  have ok': "tensor_ok h' t" by (rule write_keeps_ok[OF w ok(1)])
  have el: "tensor_element h' t j = read_bytes h' (b, ?p j) ?n" if "j < tn_numel t" for j
    using dense_element[OF ok' ok(2) that] b(4) by (metis option.inject)
  have el0: "tensor_element h t j = read_bytes h (b, ?p j) ?n" if "j < tn_numel t" for j
    using dense_element[OF ok that] b(4) by (metis option.inject)
  have same: "read_bytes h' (b, ?p j) ?n = read_bytes h (b, ?p j) ?n" if "j \<noteq> i" for j
  proof -
    have "j + 1 \<le> i \<or> i + 1 \<le> j" using that by linarith
    then have "(j + 1) * ?n \<le> i * ?n \<or> (i + 1) * ?n \<le> j * ?n" using mult_le_mono1 by blast
    then show ?thesis by (intro write_bytes_Inr(4)[OF w]) (auto simp: bs)
  qed
  show ?thesis
  proof (rule that[OF _ ok'])
    show "store_element t i bs h = Inr h'" using b(1) w by (simp add: store_element_def)
    show "tensor_element h' t i = Inr bs" using el[OF i] write_bytes_Inr(3)[OF w] bs by simp
    show "same_but (the (sto_buffer (tn_storage t))) h h'" using same_but_write[OF w] b(4) by simp
  qed (use el el0 same in simp)
qed

text \<open>The store loop writes every element, and can only fail where a value is rejected.\<close>

lemma store_loop:
  assumes "tensor_ok h t" and "lay_contiguous (tn_layout t)" and "n \<le> tn_numel t"
    and "\<forall>i < n. f i = Inr (val i) \<and> length (val i) = size_of (tn_dtype t)"
  shows "\<exists>h'. foldE (\<lambda>i h. bindE (f i) (\<lambda>bs. store_element t i bs h)) [0..<n] h = Inr h' \<and> tensor_ok h' t \<and>
    same_but (the (sto_buffer (tn_storage t))) h h' \<and> (\<forall>i < n. tensor_element h' t i = Inr (val i))"
  using assms(3,4)
proof (induction n)
  case 0
  then show ?case using assms(1) by (simp add: same_but_def)
next
  case (Suc n)
  then obtain h1 where h1: "foldE (\<lambda>i h. bindE (f i) (\<lambda>bs. store_element t i bs h)) [0..<n] h = Inr h1" "tensor_ok h1 t"
    "same_but (the (sto_buffer (tn_storage t))) h h1" "\<forall>i < n. tensor_element h1 t i = Inr (val i)" by auto
  have v: "f n = Inr (val n)" "length (val n) = size_of (tn_dtype t)" and n: "n < tn_numel t" using Suc.prems by auto
  from store_element_ok[OF h1(2) assms(2) n v(2)] obtain h2 where h2: "store_element t n (val n) h1 = Inr h2" "tensor_ok h2 t"
    "tensor_element h2 t n = Inr (val n)" "\<And>j. j < tn_numel t \<Longrightarrow> j \<noteq> n \<Longrightarrow> tensor_element h2 t j = tensor_element h1 t j"
    "same_but (the (sto_buffer (tn_storage t))) h1 h2" by metis
  have "foldE (\<lambda>i h. bindE (f i) (\<lambda>bs. store_element t i bs h)) [0..<Suc n] h = Inr h2"
    using h1(1) h2(1) v(1) by (simp add: foldE_append)
  moreover have "tensor_element h2 t i = Inr (val i)" if "i < Suc n" for i
    using that h2(3) h2(4)[of i] h1(4) n by (cases "i = n") auto
  ultimately show ?case using h2(2,5) h1(3) by (auto simp: same_but_def)
qed

lemma store_loop_regular:
  assumes "tensor_ok h t" and "lay_contiguous (tn_layout t)" and "n \<le> tn_numel t"
    and f: "\<forall>i < n. regular (f i) \<and> (\<forall>bs. f i = Inr bs \<longrightarrow> length bs = size_of (tn_dtype t))"
  shows "regular (foldE (\<lambda>i h. bindE (f i) (\<lambda>bs. store_element t i bs h)) [0..<n] h)"
proof (rule regular_foldE[where P = "\<lambda>h. tensor_ok h t"])
  fix i s assume i: "i \<in> set [0..<n]" and s: "tensor_ok s t"
  then have i': "i < tn_numel t" "i < n" using assms(3) by auto
  have st: "\<exists>s'. store_element t i bs s = Inr s' \<and> tensor_ok s' t" if "length bs = size_of (tn_dtype t)" for bs
    using store_element_ok[OF s assms(2) i'(1) that] by metis
  show "regular (bindE (f i) (\<lambda>bs. store_element t i bs s)) \<and>
      (\<forall>s'. bindE (f i) (\<lambda>bs. store_element t i bs s) = Inr s' \<longrightarrow> tensor_ok s' t)"
  proof (cases "f i")
    case (Inl e)
    then show ?thesis using f i' by (auto simp: regular_def)
  next
    case (Inr bs)
    then obtain s' where "store_element t i bs s = Inr s'" "tensor_ok s' t" using st f i' by blast
    then show ?thesis using Inr by simp
  qed
qed (rule assms(1))

section \<open>Decoding\<close>

lemma bytes_of_word32 [simp]: "4 \<le> length bs \<Longrightarrow> word32_bytes (bytes_to_word32 bs) = take 4 bs"
proof -
  assume len: "4 \<le> length bs"
  obtain a b c d rest where bs: "bs = a # b # c # d # rest"
    using len by (auto simp: numeral_eq_Suc Suc_le_length_iff)
  have "ucast (bytes_to_word32 bs) = a" "ucast (drop_bit 8 (bytes_to_word32 bs)) = b" "ucast (drop_bit 16 (bytes_to_word32 bs)) = c"
    "ucast (drop_bit 24 (bytes_to_word32 bs)) = d"
    by (rule bit_word_eqI; auto simp: bytes_to_word32_def bs bit_simps dest: bit_imp_le_length)+
  then show ?thesis by (simp add: word32_bytes_def bs)
qed

lemma bytes_of_word16 [simp]: "2 \<le> length bs \<Longrightarrow> word16_bytes (bytes_to_half bs) = take 2 bs"
proof -
  assume len: "2 \<le> length bs"
  obtain a b rest where bs: "bs = a # b # rest"
    using len by (auto simp: numeral_eq_Suc Suc_le_length_iff)
  have "ucast (bytes_to_half bs) = a" "ucast (drop_bit 8 (bytes_to_half bs)) = b"
    by (rule bit_word_eqI; auto simp: bytes_to_half_def bs bit_simps dest: bit_imp_le_length)+
  then show ?thesis by (simp add: word16_bytes_def bs)
qed

lemma length_word_bytes [simp]: "length (word32_bytes w) = 4" "length (word16_bytes v) = 2"
  by (simp_all add: word32_bytes_def word16_bytes_def)

lemma raw_element_eq:
  assumes "length raw = n * size_of d" and "i < n" and "d \<noteq> Int8"
  shows "raw_element d raw i = Inr (take (size_of d) (drop (i * size_of d) raw))"
proof -
  have "(i + 1) * size_of d \<le> length raw" using assms by (metis Suc_eq_plus1 Suc_leI mult_le_mono1)
  then show ?thesis using assms(3) by (cases d) (auto simp: raw_element_def)
qed

lemma same_but_fresh: "heap_ext h h1 \<Longrightarrow> same_but (length (hp_buffers h)) h1 h2 \<Longrightarrow> heap_ext h h2"
  by (auto simp: heap_ext_def same_but_def)

text \<open>The element a source promises at an index, in the two encodings of the message.\<close>

definition source_element :: "parsed_tensor \<Rightarrow> data_type \<Rightarrow> nat \<Rightarrow> byte list result" where
  "source_element src d i =
     (if pt_raw_data src \<noteq> [] then Inr (take (size_of d) (drop (i * size_of d) (pt_raw_data src)))
      else if d = Float32 then Inr (word32_bytes (pt_float_data src ! i)) else int32_element d (pt_int32_data src ! i))"

lemma int32_element_regular: "d \<noteq> Float32 \<Longrightarrow> regular (int32_element d v) \<and> (\<forall>bs. int32_element d v = Inr bs \<longrightarrow> length bs = size_of d)"
  by (cases d) (auto simp: int32_element_def)

text \<open>Filling a dense tensor from a source: the loop over the elements, whatever way it reads them.\<close>

lemma raw_int8:
  assumes ok: "tensor_ok h t" "lay_contiguous (tn_layout t)" and d: "tn_dtype t = Int8" and len: "length raw = tn_numel t" and pos: "0 < tn_numel t"
  obtains p h' where "index_data Int8 t h 0 = Inr p" "write_bytes p raw h = Inr h'" "tensor_ok h' t"
    "same_but (the (sto_buffer (tn_storage t))) h h'" "\<forall>i < tn_numel t. tensor_element h' t i = Inr [raw ! i]"
proof -
  from dense_element[OF ok pos] d obtain b where b: "index_data Int8 t h 0 = Inr (b, sto_byte_offset (tn_storage t))"
    "b < length (hp_buffers h)" "sto_buffer (tn_storage t) = Some b" by auto
  from dense_element[OF ok, of "tn_numel t - 1"] pos d b(3) have fits: "sto_byte_offset (tn_storage t) + length raw \<le> buf_size h b"
    by (auto simp: len)
  from write_bytes_total[OF b(2) fits] obtain h' where w: "write_bytes (b, sto_byte_offset (tn_storage t)) raw h = Inr h'" by blast
  have ok': "tensor_ok h' t" by (rule write_keeps_ok[OF w ok(1)])
  have "tensor_element h' t i = Inr [raw ! i]" if i: "i < tn_numel t" for i
  proof -
    have e: "tensor_element h' t i = read_bytes h' (b, sto_byte_offset (tn_storage t) + i) 1"
      using dense_element[OF ok' ok(2) i] b(3) d by (metis mult.right_neutral option.inject size_of.simps(3))
    have "read_bytes h' (b, sto_byte_offset (tn_storage t)) (length raw) = Inr raw" by (rule write_bytes_Inr(3)[OF w])
    then have r: "b < length (hp_buffers h')" "sto_byte_offset (tn_storage t) + length raw \<le> buf_size h' b"
      "take (length raw) (drop (sto_byte_offset (tn_storage t)) (buf_bytes (hp_buffers h' ! b))) = raw"
      by (auto simp: read_bytes_def split: if_splits)
    have "buf_bytes (hp_buffers h' ! b) ! (sto_byte_offset (tn_storage t) + i) = raw ! i"
      using i len r(2) arg_cong[OF r(3), of "\<lambda>x. x ! i"] by (simp add: buf_size_def)
    then show ?thesis using e r(1,2) i len by (simp add: read_bytes_def buf_size_def take_Suc_conv_app_nth)
  qed
  then show ?thesis using that[OF b(1) w ok'] same_but_write[OF w] b(3) by simp
qed

lemma decode_raw_ok:
  assumes ok: "tensor_ok h t" "lay_contiguous (tn_layout t)" and raw: "raw \<noteq> []"
  shows "regular (decode_raw raw t h)"
    and "decode_raw raw t h = Inr (t', h') \<Longrightarrow> t' = t \<and> tensor_ok h' t \<and> same_but (the (sto_buffer (tn_storage t))) h h' \<and>
      (\<forall>i < tn_numel t. tensor_element h' t i = Inr (take (size_of (tn_dtype t)) (drop (i * size_of (tn_dtype t)) raw)))"
proof -
  let ?d = "tn_dtype t" and ?n = "tn_numel t"
  have sz: "regular (size_bytes (tn_layout t) ?d)" by (auto simp: size_bytes_def checked_multiply_def)
  have bytes: "bytes = ?n * size_of ?d" if "size_bytes (tn_layout t) ?d = Inr bytes" for bytes
    using that by (simp add: size_bytes_def checked_multiply_Inr)
  consider (wrong) "length raw \<noteq> ?n * size_of ?d" | (byte) "length raw = ?n * size_of ?d" "?d = Int8"
    | (other) "length raw = ?n * size_of ?d" "?d \<noteq> Int8" by blast
  then have "regular (decode_raw raw t h) \<and> (decode_raw raw t h = Inr (t', h') \<longrightarrow> t' = t \<and> tensor_ok h' t \<and>
      same_but (the (sto_buffer (tn_storage t))) h h' \<and>
      (\<forall>i < ?n. tensor_element h' t i = Inr (take (size_of ?d) (drop (i * size_of ?d) raw))))"
  proof cases
    case wrong
    then show ?thesis using sz bytes by (auto simp: decode_raw_def intro!: regular_bind)
  next
    case byte
    then have "0 < ?n" "length raw = ?n" using raw by (cases ?n; simp)+
    from raw_int8[OF ok byte(2) this(2,1)] obtain p h2 where p: "index_data Int8 t h 0 = Inr p" "write_bytes p raw h = Inr h2"
      "tensor_ok h2 t" "same_but (the (sto_buffer (tn_storage t))) h h2" "\<forall>i < ?n. tensor_element h2 t i = Inr [raw ! i]" by metis
    have "take 1 (drop i raw) = [raw ! i]" if "i < ?n" for i using that byte by (simp add: take_Suc_conv_app_nth)
    then show ?thesis using sz bytes byte p by (auto simp: decode_raw_def intro!: regular_bind)
  next
    case other
    let ?v = "\<lambda>i. take (size_of ?d) (drop (i * size_of ?d) raw)"
    have v: "\<forall>i < ?n. raw_element ?d raw i = Inr (?v i) \<and> length (?v i) = size_of ?d"
    proof (intro allI impI)
      fix i assume i: "i < ?n"
      then have "(i + 1) * size_of ?d \<le> length raw" using other(1) by (metis Suc_eq_plus1 Suc_leI mult_le_mono1)
      then show "raw_element ?d raw i = Inr (?v i) \<and> length (?v i) = size_of ?d"
        using raw_element_eq[OF other(1) i other(2)] by simp
    qed
    from store_loop[OF ok le_refl v] obtain h2 where h2: "foldE (\<lambda>i h. bindE (raw_element ?d raw i) (\<lambda>bs. store_element t i bs h)) [0..<?n] h = Inr h2"
      "tensor_ok h2 t" "same_but (the (sto_buffer (tn_storage t))) h h2" "\<forall>i < ?n. tensor_element h2 t i = Inr (?v i)" by auto
    show ?thesis using sz bytes other h2 by (auto simp: decode_raw_def intro!: regular_bind)
  qed
  then show "regular (decode_raw raw t h)" and "decode_raw raw t h = Inr (t', h') \<Longrightarrow> t' = t \<and> tensor_ok h' t \<and>
      same_but (the (sto_buffer (tn_storage t))) h h' \<and>
      (\<forall>i < tn_numel t. tensor_element h' t i = Inr (take (size_of (tn_dtype t)) (drop (i * size_of (tn_dtype t)) raw)))" by blast+
qed

lemma foldE_cong:
  assumes "\<And>x s. x \<in> set xs \<Longrightarrow> f x s = g x s"
  shows "foldE f xs s = foldE g xs s"
  using assms by (induction xs arbitrary: s) (auto intro!: bindE_cong)

lemma foldE_Inr_cases:
  assumes "foldE (\<lambda>i h. bindE (f i) (\<lambda>bs. g i bs h)) [0..<n] h = Inr h'"
  shows "\<forall>i < n. \<exists>bs. f i = Inr bs"
  using assms
proof (induction n arbitrary: h')
  case (Suc n)
  then show ?case by (auto simp: foldE_append less_Suc_eq)
qed simp

lemma typed_loop:
  assumes ok: "tensor_ok h t" "lay_contiguous (tn_layout t)"
    and f: "\<forall>i < tn_numel t. regular (f i) \<and> (\<forall>bs. f i = Inr bs \<longrightarrow> length bs = size_of (tn_dtype t))"
    and run: "foldE (\<lambda>i h. bindE (f i) (\<lambda>bs. store_element t i bs h)) [0..<tn_numel t] h = Inr h'"
  shows "tensor_ok h' t \<and> same_but (the (sto_buffer (tn_storage t))) h h' \<and> (\<forall>i < tn_numel t. tensor_element h' t i = f i)"
proof -
  have v: "\<forall>i < tn_numel t. f i = Inr (projr (f i)) \<and> length (projr (f i)) = size_of (tn_dtype t)"
    using foldE_Inr_cases[OF run] f by auto
  from store_loop[OF ok le_refl v] run show ?thesis using v by auto
qed

lemma decode_typed_ok:
  assumes ok: "tensor_ok h t" "lay_contiguous (tn_layout t)" and raw: "pt_raw_data src = []"
  shows "regular (decode_typed src t h)"
    and "decode_typed src t h = Inr (t', h') \<Longrightarrow> t' = t \<and> tensor_ok h' t \<and> same_but (the (sto_buffer (tn_storage t))) h h' \<and>
      (\<forall>i < tn_numel t. tensor_element h' t i = source_element src (tn_dtype t) i)"
proof -
  let ?d = "tn_dtype t" and ?n = "tn_numel t" and ?f = "\<lambda>i. source_element src (tn_dtype t) i"
  have f: "\<forall>i < ?n. regular (?f i) \<and> (\<forall>bs. ?f i = Inr bs \<longrightarrow> length bs = size_of ?d)"
    using int32_element_regular by (simp add: source_element_def raw)
  have loop: "regular (foldE (\<lambda>i h. bindE (?f i) (\<lambda>bs. store_element t i bs h)) [0..<?n] h)"
    by (rule store_loop_regular[OF ok le_refl f])
  have items: "length xs = ?n \<Longrightarrow>
      foldE (\<lambda>i h. bindE (load_item xs i) (\<lambda>v. g i v h)) [0..<?n] h = foldE (\<lambda>i. g i (xs ! i)) [0..<?n] h"
    for xs :: "32 word list" and g :: "nat \<Rightarrow> 32 word \<Rightarrow> heap \<Rightarrow> heap result"
    by (rule foldE_cong) (simp_all add: load_item_def)
  have eq: "decode_typed src t h =
      (if length (if ?d = Float32 then map word32_bytes (pt_float_data src) else map word32_bytes (pt_int32_data src)) \<noteq> ?n
       then Inl (Invalid_argument (if ?d = Float32 then ''TensorProto float_data size is inconsistent'' else ''TensorProto int32_data size is inconsistent''))
       else bindE (foldE (\<lambda>i h. bindE (?f i) (\<lambda>bs. store_element t i bs h)) [0..<?n] h) (\<lambda>h'. Inr (t, h')))"
    using items[where g = "\<lambda>i v. store_element t i (word32_bytes v)" and xs = "pt_float_data src"]
      items[where g = "\<lambda>i v h. bindE (int32_element (tn_dtype t) v) (\<lambda>bs. store_element t i bs h)" and xs = "pt_int32_data src"]
    by (simp add: decode_typed_def source_element_def raw)
  show "regular (decode_typed src t h)" unfolding eq by (rule regular_unless, rule regular_bind[OF loop]) simp
  assume "decode_typed src t h = Inr (t', h')"
  then have run: "foldE (\<lambda>i h. bindE (?f i) (\<lambda>bs. store_element t i bs h)) [0..<?n] h = Inr h'" and "t' = t"
    unfolding eq by (auto split: if_splits)
  then show "t' = t \<and> tensor_ok h' t \<and> same_but (the (sto_buffer (tn_storage t))) h h' \<and>
      (\<forall>i < ?n. tensor_element h' t i = source_element src ?d i)" using typed_loop[OF ok f run] by blast
qed

lemma decode_tensor_regular: "regular (decode_tensor src h)"
  unfolding decode_tensor_def
  by (auto intro!: regular_bind regular_mk_tensor decode_raw_ok(1) decode_typed_ok(1) simp: onnx_data_type_def dest: mk_tensor_ok)

lemma decode_tensor_ok:
  assumes dec: "decode_tensor src h = Inr (t, h')"
  shows "tensor_ok h' t" "heap_ext h h'" "tn_shape t = pt_shape src" "onnx_data_type (sint (pt_data_type src)) = Inr (tn_dtype t)"
    "\<forall>i < tn_numel t. tensor_element h' t i = source_element src (tn_dtype t) i"
proof -
  from dec obtain dtype t0 h1 where d: "onnx_data_type (sint (pt_data_type src)) = Inr dtype"
    and t0: "mk_tensor (pt_shape src) dtype True h = Inr (t0, h1)"
    and run: "(if pt_raw_data src \<noteq> [] then decode_raw (pt_raw_data src) t0 h1 else decode_typed src t0 h1) = Inr (t, h')"
    by (auto simp: decode_tensor_def split: if_splits)
  note mk = mk_tensor_ok[OF t0] and fresh = mk_tensor_fresh[OF t0]
  have *: "t = t0 \<and> tensor_ok h' t0 \<and> same_but (length (hp_buffers h)) h1 h' \<and>
      (\<forall>i < tn_numel t0. tensor_element h' t0 i = source_element src (tn_dtype t0) i)"
    using run decode_raw_ok(2)[OF mk(1,5)] decode_typed_ok(2)[OF mk(1,5)] fresh
    by (auto simp: source_element_def split: if_splits)
  show "heap_ext h h'" using same_but_fresh[OF mk(2)] * by blast
  show "tensor_ok h' t" "tn_shape t = pt_shape src" "onnx_data_type (sint (pt_data_type src)) = Inr (tn_dtype t)"
    "\<forall>i < tn_numel t. tensor_element h' t i = source_element src (tn_dtype t) i"
    using * mk(3,4) d by auto
qed

text \<open>
  C38: decoding is faithful. A tensor that \<open>decode_tensor\<close> returns has the announced shape and data type, is well
  formed, and holds at every index exactly the bytes the message gives for it, from \<open>raw_data\<close> or from the typed
  list; every tensor that existed before keeps all its elements; and no source, however malformed, makes the
  decoder read or write out of bounds.
\<close>

theorem decoded_tensor_holds_source:
  "regular (decode_tensor src h) \<and>
   (\<forall>t h'. decode_tensor src h = Inr (t, h') \<longrightarrow>
      tensor_ok h' t \<and> tn_shape t = pt_shape src \<and> onnx_data_type (sint (pt_data_type src)) = Inr (tn_dtype t) \<and>
      (\<forall>i < tn_numel t. tensor_element h' t i = source_element src (tn_dtype t) i) \<and>
      (\<forall>u. tensor_ok h u \<longrightarrow> tensor_ok h' u \<and> (\<forall>i. tensor_element h' u i = tensor_element h u i)))"
proof (intro conjI allI impI decode_tensor_regular)
  fix t h' assume dec: "decode_tensor src h = Inr (t, h')"
  note D = decode_tensor_ok[OF dec]
  show "tensor_ok h' t" "tn_shape t = pt_shape src" "onnx_data_type (sint (pt_data_type src)) = Inr (tn_dtype t)" by (fact D)+
  show "tensor_element h' t i = source_element src (tn_dtype t) i" if "i < tn_numel t" for i using D(5) that by blast
  show "tensor_ok h' u" "tensor_element h' u i = tensor_element h u i" if "tensor_ok h u" for u i
    using heap_ext_tensor[OF D(2) that] heap_ext_element[OF D(2) that] by blast+
qed

definition demo_source :: parsed_tensor where
  "demo_source = empty_parsed_tensor\<lparr>pt_shape := [2], pt_data_type := 3, pt_name := ''w'', pt_raw_data := [5, 9]\<rparr>"

lemma demo_decode: "\<exists>h'. decode_tensor demo_source demo_heap = Inr (demo_tensor, h')"
proof -
  have "sint (3 :: 32 word) = 3" by simp
  then show ?thesis
    by (simp add: decode_tensor_def demo_source_def empty_parsed_tensor_def onnx_data_type_def demo_tensor decode_raw_def)
      (simp add: demo_tensor_def demo_heap1_def size_bytes_def checked_multiply_def size_max_def index_data_def typed_data_def
        storage_data_def buf_size_def write_bytes_def)
qed

theorem decoded_tensor_holds_source_witness:
  "\<exists>h'. decode_tensor demo_source demo_heap = Inr (demo_tensor, h') \<and> tensor_element h' demo_tensor 1 = Inr [9]"
proof -
  from demo_decode obtain h' where d: "decode_tensor demo_source demo_heap = Inr (demo_tensor, h')" by blast
  then have "tensor_element h' demo_tensor 1 = source_element demo_source Int8 1"
    using decoded_tensor_holds_source[of demo_source demo_heap] by (auto simp: demo_tensor_def)
  then show ?thesis using d by (simp add: source_element_def demo_source_def)
qed

end
