(* ===== verification/Onnx_Safety.thy ===== *)
theory Onnx_Safety
  imports Onnx_Decode
begin

text \<open>
  The parser on arbitrary bytes: every read consumes input, so every loop ends, no read leaves the input,
  and the only undefined behaviour left is an attribute whose declared type has no value.
\<close>

section \<open>Reads consume input\<close>

definition advances :: "(reader \<Rightarrow> ('a \<times> reader) import) \<Rightarrow> bool" where
  "advances read \<longleftrightarrow> (\<forall>bs x bs'. read bs = Inr (x, bs') \<longrightarrow> length bs' < length bs)"

lemma varint_loop_length: "varint_loop shift r bs = Inr (v, bs') \<Longrightarrow> length bs' < length bs"
proof (induction shift r bs rule: varint_induct)
  case (Cons shift r b bs)
  then show ?case by (cases "b AND 0x80 = 0") (auto simp: Let_def less_Suc_eq split: if_splits)
qed (simp split: if_splits)

lemma reads_advance [simp]:
  "advances wire_varint" "advances wire_key" "advances wire_int64" "advances wire_int32" "advances wire_fixed32"
  by (auto simp: advances_def wire_varint_def wire_key_def wire_int64_def wire_int32_def wire_fixed32_checked Let_def
      split: if_splits dest: varint_loop_length)

lemma advancesD: "advances read \<Longrightarrow> read bs = Inr (x, bs') \<Longrightarrow> length bs' \<le> length bs"
  unfolding advances_def using less_imp_le by blast

lemmas wire_length = reads_advance[THEN advancesD]

lemma wire_bytes_length: "wire_bytes bs = Inr (s, bs') \<Longrightarrow> length s + length bs' < length bs"
  by (auto simp: wire_bytes_checked wire_varint_def split: if_splits dest!: varint_loop_length)

lemma bytes_field_length: "bytes_field w n bs = Inr (s, bs') \<Longrightarrow> length bs' \<le> length bs"
  by (auto simp: bytes_field_def dest: wire_bytes_length)

lemma string_field_length: "string_field w n bs = Inr (s, bs') \<Longrightarrow> length bs' \<le> length bs"
  by (auto simp: string_field_def dest: bytes_field_length)

lemma skip_field_length: "skip_field w bs s = Inr (s', bs') \<Longrightarrow> length bs' \<le> length bs"
  by (auto simp: skip_field_def wire_skip_def wire_fixed64_checked dest: wire_length wire_bytes_length split: if_splits)

lemma repeated_field_length: "advances read \<Longrightarrow> repeated_field w read packed wire n bs out = Inr (out', bs') \<Longrightarrow> length bs' \<le> length bs"
  by (auto simp: repeated_field_def dest: advancesD wire_bytes_length split: if_splits)

lemmas field_length = wire_length wire_bytes_length bytes_field_length string_field_length skip_field_length
  repeated_field_length[OF reads_advance(3)] repeated_field_length[OF reads_advance(4)] repeated_field_length[OF reads_advance(5)]

text \<open>A handler never gives back more than it was given.\<close>

definition consumes :: "(nat \<Rightarrow> nat \<Rightarrow> reader \<Rightarrow> 's \<Rightarrow> ('s \<times> reader) import) \<Rightarrow> bool" where
  "consumes handle \<longleftrightarrow> (\<forall>field wire bs s s' bs'. handle field wire bs s = Inr (s', bs') \<longrightarrow> length bs' \<le> length bs)"

lemma handlers_consume [simp]:
  "consumes tensor_field" "consumes dimension_field" "consumes shape_field" "consumes tensor_type_field" "consumes type_field"
  "consumes value_info_field" "consumes attribute_field" "consumes node_field" "consumes graph_field" "consumes opset_field"
  "consumes model_field"
  unfolding consumes_def
  by (auto simp: tensor_field_def dimension_field_def shape_field_def tensor_type_field_def type_field_def value_info_field_def
      attribute_field_def node_field_def graph_field_def opset_field_def model_field_def
      split: if_splits option.splits prod.splits dest!: field_length)

section \<open>Loops over consuming bodies\<close>

text \<open>For a consuming body the loop is exactly the \<open>while\<close> loop of the code.\<close>

lemma reader_loop_unfold:
  assumes "\<And>bs s s' bs'. body bs s = Inr (s', bs') \<Longrightarrow> length bs' < length bs"
  shows "reader_loop body bs s = (if bs = [] then Inr s else bindE (body bs s) (\<lambda>(s', bs'). reader_loop body bs' s'))"
  using assms by (subst reader_loop.simps) (auto intro!: bindE_cong split: prod.splits)

lemma field_step_length: "consumes handle \<Longrightarrow> field_step handle bs s = Inr (s', bs') \<Longrightarrow> length bs' < length bs"
  using reads_advance(2) unfolding field_step_def consumes_def advances_def by (fastforce dest: order.strict_trans1)

lemma parse_fields_unfold:
  assumes "consumes handle"
  shows "parse_fields handle bs s = (if bs = [] then Inr s
    else bindE (wire_key bs) (\<lambda>((field, wire), bs1). bindE (handle field wire bs1 s) (\<lambda>(s', bs2). parse_fields handle bs2 s')))"
proof -
  have "parse_fields handle bs s = (if bs = [] then Inr s else bindE (field_step handle bs s) (\<lambda>(s', bs'). parse_fields handle bs' s'))"
    unfolding parse_fields_def by (rule reader_loop_unfold) (rule field_step_length[OF assms])
  then show ?thesis by (cases "wire_key bs") (auto simp: field_step_def)
qed

lemma parse_fields_Nil [simp]: "parse_fields handle [] s = Inr s"
  by (simp add: parse_fields_def reader_loop.simps)

lemma parse_fields_step:
  assumes "consumes handle" and "bs \<noteq> []" and "wire_key bs = Inr ((field, wire), bs1)" and "handle field wire bs1 s = Inr (s', bs2)"
  shows "parse_fields handle bs s = parse_fields handle bs2 s'"
  using assms by (subst parse_fields_unfold) simp_all

lemma packed_step_length: "advances read \<Longrightarrow> packed_step read bs out = Inr (out', bs') \<Longrightarrow> length bs' < length bs"
  by (auto simp: packed_step_def advances_def)

lemma reader_loop_defined:
  assumes "\<And>bs s. defined U (body bs s)" and len: "\<And>bs s s' bs'. body bs s = Inr (s', bs') \<Longrightarrow> length bs' < length bs"
  shows "defined U (reader_loop body bs s)"
proof (induction "length bs" arbitrary: bs s rule: less_induct)
  case less
  show ?case
    by (subst reader_loop_unfold[OF len], assumption) (auto intro!: defined_intros assms(1) less dest: len)
qed

lemma parse_fields_defined [defined_intros]:
  assumes "consumes handle" and "\<And>field wire bs s. defined U (handle field wire bs s)"
  shows "defined U (parse_fields handle bs s)"
  unfolding parse_fields_def
proof (rule reader_loop_defined)
  have v: "defined U (varint_loop shift r bs)" for shift r bs
    by (induction shift r bs rule: varint_induct) (auto simp: Let_def)
  then have "defined U (wire_key bs)" for bs unfolding wire_key_def wire_varint_def by (auto intro!: defined_intros simp: Let_def)
  then show "defined U (field_step handle bs s)" for bs s
    unfolding field_step_def by (auto intro!: defined_bind assms(2) split: prod.splits)
qed (rule field_step_length[OF assms(1)])

section \<open>What can be undefined\<close>

lemma varint_defined [defined_intros]: "defined U (wire_varint bs)"
proof -
  have "defined U (varint_loop shift r bs)" for shift r bs
    by (induction shift r bs rule: varint_induct) (auto simp: Let_def)
  then show ?thesis by (simp add: wire_varint_def)
qed

lemma reads_defined [defined_intros]:
  "defined U (wire_int64 bs)" "defined U (wire_int32 bs)" "defined U (wire_fixed32 bs)" "defined U (wire_fixed64 bs)"
  "defined U (wire_bytes bs)" "defined U (require_wire w e n)" "defined U (require_bytes k bs)"
  by (auto simp: wire_int64_def wire_int32_def wire_fixed32_checked wire_fixed64_checked wire_bytes_checked require_wire_def require_bytes_def
      intro!: defined_intros)

lemma wire_skip_defined [defined_intros]: "defined U (wire_skip w bs)"
  by (auto simp: wire_skip_def intro!: defined_intros)

lemma packed_defined [defined_intros]:
  "defined U (read_packed_varints bs xs)" "defined U (read_packed_int32 bs ys)" "defined U (read_packed_floats bs zs)"
  unfolding read_packed_varints_def read_packed_int32_def read_packed_floats_def
  by (rule reader_loop_defined, (auto simp: packed_step_def intro!: defined_intros)[1], erule packed_step_length[rotated], simp)+

lemma fields_defined [defined_intros]:
  "defined U (bytes_field w n bs)" "defined U (string_field w n bs)" "defined U (skip_field w bs s)"
  by (auto simp: bytes_field_def string_field_def skip_field_def intro!: defined_intros)

lemma repeated_defined [defined_intros]:
  "(\<And>bs. defined U (read bs)) \<Longrightarrow> (\<And>p out. defined U (packed p out)) \<Longrightarrow> defined U (repeated_field k read packed w n bs out)"
  by (auto simp: repeated_field_def intro!: defined_intros)

lemma parse_tensor_defined [defined_intros]: "defined U (parse_tensor bs)"
  unfolding parse_tensor_def by (rule parse_fields_defined) (auto simp: tensor_field_def intro!: defined_intros)

lemma parse_shape_defined [defined_intros]: "defined U (parse_shape bs)"
proof -
  have "defined U (dimension_field f w bs s)" for f w bs s by (auto simp: dimension_field_def intro!: defined_intros)
  then show ?thesis unfolding parse_shape_def
    by (intro parse_fields_defined) (auto simp: shape_field_def intro!: defined_intros)
qed

lemma data_type_regular: "regular (onnx_data_type v)"
  by (simp add: onnx_data_type_def)

lemma parse_type_defined [defined_intros]: "defined U (parse_type bs)"
proof -
  have "defined U (tensor_type_field f w bs s)" for f w bs s
    by (auto simp: tensor_type_field_def intro!: defined_intros data_type_regular)
  then have "defined U (type_field f w bs s)" for f w bs s
    by (auto simp: type_field_def intro!: defined_intros split: option.splits)
  then show ?thesis unfolding parse_type_def by (auto intro!: defined_intros split: option.splits)
qed

lemma parse_value_info_defined [defined_intros]: "defined U (parse_value_info bs)"
proof -
  have "defined U (value_info_field f w bs s)" for f w bs s by (auto simp: value_info_field_def intro!: defined_intros)
  then show ?thesis unfolding parse_value_info_def by (auto intro!: defined_intros split: option.splits)
qed

lemma parse_attribute_defined [defined_intros]:
  assumes "''empty optional'' \<in> U"
  shows "defined U (parse_attribute bs)"
proof -
  have "defined U (attribute_field f w bs s)" for f w bs s by (auto simp: attribute_field_def intro!: defined_intros)
  then show ?thesis unfolding parse_attribute_def
    using assms by (auto simp: attribute_result_def deref_def intro!: defined_intros split: option.splits)
qed

lemma parse_node_defined [defined_intros]:
  assumes "''empty optional'' \<in> U"
  shows "defined U (parse_node bs)"
proof -
  have "defined U (emplace_attribute a attrs)" for a attrs by (auto simp: emplace_attribute_def)
  then have "defined U (node_field f w bs s)" for f w bs s using assms by (auto simp: node_field_def intro!: defined_intros)
  then show ?thesis unfolding parse_node_def by (auto intro!: defined_intros)
qed

lemma catch_defined [defined_intros]: "defined U m \<Longrightarrow> (\<And>e. defined U (handler e)) \<Longrightarrow> defined U (catch_exception m handler)"
  by (auto simp: catch_exception_def split: sum.splits import_exn.splits exn.splits)

lemma parse_graph_defined [defined_intros]:
  assumes "''empty optional'' \<in> U"
  shows "defined U (parse_graph bs h)"
proof -
  have "defined U (initializer_field b g h)" for b g h
    by (auto simp: initializer_field_def intro!: defined_intros decode_tensor_regular)
  then have "defined U (graph_field f w bs s)" for f w bs s using assms by (cases s) (auto simp: graph_field_def intro!: defined_intros)
  then show ?thesis unfolding parse_graph_def by (auto intro!: defined_intros)
qed

lemma parse_opset_defined [defined_intros]: "defined U (parse_opset bs)"
  unfolding parse_opset_def by (rule parse_fields_defined) (auto simp: opset_field_def intro!: defined_intros)

lemma parse_model_defined [defined_intros]:
  assumes "''empty optional'' \<in> U"
  shows "defined U (parse_model bs h)"
proof -
  have "defined U (model_field f w bs s)" for f w bs s using assms by (cases s) (auto simp: model_field_def intro!: defined_intros split: prod.splits)
  then show ?thesis unfolding parse_model_def by (auto intro!: defined_intros)
qed

section \<open>Properties\<close>

text \<open>
  C37: parsing is total and memory safe. Every load of the parser from the bytes of the message, from the raw data
  of a tensor and from its typed lists is a checked load of the model, undefined outside its input. On every sequence
  of bytes every loop ends, no load is outside its input, and every element is stored inside the decoded tensor:
  parsing a model can only show the undefined behaviour of an empty optional (an attribute without its value), and
  parsing a tensor, a value or an opset none at all; the only import errors raised come from decoding a tensor.
\<close>

theorem parsing_is_safe:
  "defined {''empty optional''} (parse_model bs h) \<and> defined {} (parse_tensor bs) \<and> defined {} (parse_value_info bs) \<and>
   defined {} (parse_opset bs) \<and> defined {} (lift (decode_tensor src h))"
  by (auto intro!: defined_intros decode_tensor_regular)

text \<open>
  The undefined behaviour is reached: an attribute that declares the type INT, FLOAT or STRING without a value is
  not rejected, the parser dereferences the empty optional. Here the attribute \<open>a\<close> of type INT.
\<close>

lemma attribute_without_value:
  "parse_attribute [0x0A, 0x01, 0x61, 0xA0, 0x01, 0x02] = undefined_ub ''empty optional''"
proof -
  have k: "wire_key [0x0A, 0x01, 0x61, 0xA0, 0x01, 0x02] = Inr ((1, 2), [0x01, 0x61, 0xA0, 0x01, 0x02])"
    "wire_key [0xA0, 0x01, 0x02] = Inr ((20, 0), [0x02])" by code_simp+
  have f: "attribute_field 1 2 [0x01, 0x61, 0xA0, 0x01, 0x02] empty_attribute_fields = Inr (empty_attribute_fields\<lparr>af_name := ''a''\<rparr>, [0xA0, 0x01, 0x02])"
    by code_simp
  have g: "attribute_field 20 0 [0x02] (empty_attribute_fields\<lparr>af_name := ''a''\<rparr>) = Inr (empty_attribute_fields\<lparr>af_name := ''a'', af_type := 2\<rparr>, [])"
    by code_simp
  have "parse_fields attribute_field [0x0A, 0x01, 0x61, 0xA0, 0x01, 0x02] empty_attribute_fields =
      Inr (empty_attribute_fields\<lparr>af_name := ''a'', af_type := 2\<rparr>)"
    by (simp add: parse_fields_step[OF handlers_consume(7) _ k(1) f] parse_fields_step[OF handlers_consume(7) _ k(2) g])
  then show ?thesis by (simp add: parse_attribute_def attribute_result_def empty_attribute_fields_def deref_def)
qed

text \<open>
  Errors of the parser carry the model path. Every failure of \<open>parse\<close> other than the empty optional above is an
  import error with the path of the model, raised in the file, parse or tensor stage; a file that cannot be
  opened or read fails in the file stage.
\<close>

lemma parser_errors_carry_path:
  assumes "parser_parse path stream h = Inl e" and "e \<noteq> Std (Undefined_behaviour ''empty optional'')"
  shows "\<exists>d. e = Import_error d \<and> dg_model_path d = path \<and>
    (case stream of File_contents _ \<Rightarrow> dg_stage d = Stage_ProtobufParse \<or> dg_stage d = Stage_TensorDecode | _ \<Rightarrow> dg_stage d = Stage_FileRead)"
proof (cases stream)
  case (File_contents bs)
  have "defined {''empty optional''} (parse_model bs h)" by (rule parse_model_defined) simp
  then show ?thesis using assms File_contents
    by (auto simp: parser_parse_def catch_exception_def defined_def split: sum.splits import_exn.splits exn.splits)
qed (use assms in \<open>auto simp: parser_parse_def\<close>)

end
