(* ===== verification/Onnx_Roundtrip.thy ===== *)
theory Onnx_Roundtrip
  imports Onnx_Safety
begin

text \<open>
  A reference writer of the protocol buffer format, and the proof that the parser reads back what it
  writes: numbers, fields, tensors and whole models.
\<close>

section \<open>Writing\<close>

function encode_varint :: "64 word \<Rightarrow> byte list" where
  "encode_varint v = (if drop_bit 7 v = 0 then [ucast v] else (ucast v OR 0x80) # encode_varint (drop_bit 7 v))"
  by pat_completeness auto
termination
proof (relation "measure unat")
  fix v :: "64 word" assume "drop_bit 7 v \<noteq> 0"
  then have "unat (drop_bit 7 v) \<noteq> 0" by (simp only: unat_eq_0 not_False_eq_True)
  moreover have d: "unat (drop_bit 7 v) = unat v div 128" unfolding unat_drop_bit_eq by (simp add: drop_bit_eq_div)
  ultimately have "unat v div 128 \<noteq> 0" by (simp only: not_False_eq_True)
  then have "unat v div 128 < unat v" by simp
  then show "(drop_bit 7 v, v) \<in> measure unat" by (simp only: d in_measure)
qed simp

declare encode_varint.simps [simp del]

definition put_key :: "nat \<Rightarrow> nat \<Rightarrow> byte list" where
  "put_key field wire = encode_varint (word_of_nat (field * 8 + wire))"

definition put_int :: "nat \<Rightarrow> int \<Rightarrow> byte list" where
  "put_int field v = put_key field 0 @ encode_varint (word_of_int v)"

definition put_length :: "byte list \<Rightarrow> byte list" where
  "put_length p = encode_varint (word_of_nat (length p)) @ p"

definition put_bytes :: "nat \<Rightarrow> byte list \<Rightarrow> byte list" where
  "put_bytes field p = put_key field 2 @ put_length p"

definition bytes_of_string :: "string \<Rightarrow> byte list" where
  "bytes_of_string = map (\<lambda>c. word_of_nat (of_char c))"

section \<open>Reading back\<close>

lemma varint_loop_encode:
  assumes "\<forall>n. bit v n \<longrightarrow> n + shift < 64" and "shift < 64"
  shows "varint_loop shift r (encode_varint v @ rest) = Inr (r OR push_bit shift v, rest)"
  using assms
proof (induction v arbitrary: shift r rule: encode_varint.induct)
  case (1 v)
  have m: "bit (0x7F :: byte) n \<longleftrightarrow> n < 7" "bit (0x7F :: 64 word) n \<longleftrightarrow> n < 7" "bit (0x80 :: byte) n \<longleftrightarrow> n = 7"
    "bit (0x7F :: int) n \<longleftrightarrow> n < 7" "bit (0x80 :: int) n \<longleftrightarrow> n = 7" for n
    using bit_mask_iff[of 7 n, where 'a = int] bit_exp_iff[of 7 n, where 'a = int] bit_mask_iff[of 7 n, where 'a = byte] bit_mask_iff[of 7 n, where 'a = "64 word"] bit_exp_iff[of 7 n, where 'a = byte]
    by (auto simp: mask_eq_exp_minus_1)
  have low: "ucast ((ucast v :: byte) AND 0x7F) = v AND 0x7F"
    by (rule bit_word_eqI) (auto simp: m bit_simps dest: bit_imp_le_length)
  show ?case
  proof (cases "drop_bit 7 v = 0")
    case True
    have shifted: "bit (drop_bit 7 v) n = bit v (7 + n)" for n by (simp add: bit_drop_bit_eq)
    have small: "\<not> bit v (7 + n)" for n using shifted[of n] unfolding True by simp
    then have b: "\<not> bit v n" if "7 \<le> n" for n using small[of "n - 7"] that by simp
    have "(ucast v :: byte) AND 0x80 = 0"
    proof (rule bit_word_eqI)
      fix n show "bit ((ucast v :: byte) AND 0x80) n = bit 0 n" using b[of n] by (cases "n = 7") (simp_all add: m bit_simps)
    qed
    moreover have "v AND 0x7F = v"
    proof (rule bit_word_eqI)
      fix n show "bit (v AND 0x7F) n = bit v n" using b[of n] by (cases "7 \<le> n") (simp_all add: m bit_simps)
    qed
    ultimately show ?thesis using True 1(3) low by (subst encode_varint.simps) (simp add: Let_def)
  next
    case False
    then obtain n where n: "bit v (7 + n)" by (auto simp: bit_eq_iff[of "drop_bit 7 v"] bit_drop_bit_eq)
    have s: "shift + 7 < 64" using 1(2) n by fastforce
    have hi: "(ucast v OR 0x80 :: byte) AND 0x80 \<noteq> 0" 
    proof
      assume "(ucast v OR 0x80 :: byte) AND 0x80 = 0"
      then have "bit ((ucast v OR 0x80 :: byte) AND 0x80) 7 = bit (0 :: byte) 7" by simp
      then show False unfolding bit_and_iff bit_or_iff m by simp
    qed
    have "(ucast v OR 0x80 :: byte) AND 0x7F = ucast v AND 0x7F" by (rule bit_word_eqI) (auto simp: m bit_simps)
    then have r': "ucast ((ucast v OR 0x80 :: byte) AND 0x7F) = v AND 0x7F" using low by simp
    have d: "\<forall>n. bit (drop_bit 7 v) n \<longrightarrow> n + (shift + 7) < 64" using 1(2) by (auto simp: bit_simps)
    have "varint_loop shift r (encode_varint v @ rest) =
        varint_loop (shift + 7) (r OR push_bit shift (v AND 0x7F)) (encode_varint (drop_bit 7 v) @ rest)"
      using False 1(3) hi r' by (subst encode_varint.simps) (simp add: Let_def)
    also have "\<dots> = Inr (r OR push_bit shift (v AND 0x7F) OR push_bit (shift + 7) (drop_bit 7 v), rest)"
      using 1(1)[OF False d s] by (simp add: or.assoc)
    also have "r OR push_bit shift (v AND 0x7F) OR push_bit (shift + 7) (drop_bit 7 v) = r OR push_bit shift v"
    proof (rule bit_word_eqI)
      fix n
      have e: "7 + (n - (shift + 7)) = n - shift" if "shift + 7 \<le> n" using that by simp
      show "bit (r OR push_bit shift (v AND 0x7F) OR push_bit (shift + 7) (drop_bit 7 v)) n = bit (r OR push_bit shift v) n"
        by (cases "shift + 7 \<le> n") (auto simp: m bit_simps e)
    qed
    finally show ?thesis .
  qed
qed

lemma varint_encode [simp]: "wire_varint (encode_varint v @ rest) = Inr (v, rest)"
  unfolding wire_varint_def by (subst varint_loop_encode) (auto dest: bit_imp_le_length)

section \<open>Fields\<close>

lemma put_key_read [simp]:
  assumes "0 < field" and "field < 2 ^ 20" and "wire < 8"
  shows "wire_key (put_key field wire @ rest) = Inr ((field, wire), rest)"
proof -
  let ?n = "field * 8 + wire"
  have n: "?n < 2 ^ 24" using assms by simp
  have u: "unat (word_of_nat ?n :: 64 word) = ?n" unfolding unat_of_nat using n by simp
  have w: "unat (word_of_nat ?n AND (7 :: 64 word)) = wire"
  proof -
    have m: "(7 :: 64 word) = mask 3" by (simp add: mask_eq_exp_minus_1)
    have "unat (word_of_nat ?n AND (7 :: 64 word)) = take_bit 3 ?n" unfolding m take_bit_eq_mask[symmetric] unsigned_take_bit_eq u ..
    then show ?thesis using assms(3) by (simp add: take_bit_eq_mod)
  qed
  have "unat (drop_bit 3 (word_of_nat ?n :: 64 word)) = field" using u assms(3) unfolding unat_drop_bit_eq by (simp add: drop_bit_eq_div)
  then have "unat (ucast (drop_bit 3 (word_of_nat ?n :: 64 word)) :: 32 word) = field"
    using assms(2) by (simp add: unsigned_ucast_eq take_bit_eq_mod)
  then show ?thesis using w assms(1) by (simp add: wire_key_def put_key_def)
qed

lemma put_length_read [simp]: "length p < 2 ^ 64 \<Longrightarrow> wire_bytes (put_length p @ rest) = Inr (p, rest)"
  by (simp add: wire_bytes_checked put_length_def unat_of_nat)

lemma int64_read [simp]:
  assumes "- (2 ^ 63) \<le> v" and "v < 2 ^ 63"
  shows "wire_int64 (encode_varint (word_of_int v) @ rest) = Inr (v, rest)"
proof -
  have "sint (word_of_int v :: 64 word) = v" using assms by (simp add: sint_sbintrunc' signed_take_bit_int_eq_self)
  then show ?thesis by (simp add: wire_int64_def signed_varint_def)
qed

lemma int64_read_nil [simp]:
  "- (2 ^ 63) \<le> v \<Longrightarrow> v < 2 ^ 63 \<Longrightarrow> wire_int64 (encode_varint (word_of_int v)) = Inr (v, [])"
  using int64_read[of v "[]"] by simp

lemma varint_read_nil [simp]: "wire_varint (encode_varint v) = Inr (v, [])"
  using varint_encode[of v "[]"] by simp

lemma key_not_empty [simp]: "put_key f w \<noteq> []"
  by (simp add: put_key_def) (subst encode_varint.simps, simp)

text \<open>One field of a message: the handler reads the rest of it.\<close>

lemma parse_put_bytes:
  assumes "consumes handle" and "0 < f" and "f < 2 ^ 20" and "handle f 2 (put_length p @ rest) s = Inr (s', rest)"
  shows "parse_fields handle (put_bytes f p @ rest) s = parse_fields handle rest s'"
proof -
  have k: "wire_key (put_bytes f p @ rest) = Inr ((f, 2), put_length p @ rest)" using assms(2,3) by (simp add: put_bytes_def)
  show ?thesis by (rule parse_fields_step[OF assms(1) _ k assms(4)]) (simp add: put_bytes_def)
qed

lemma parse_put_int:
  assumes "consumes handle" and "0 < f" and "f < 2 ^ 20" and "handle f 0 (encode_varint (word_of_int v) @ rest) s = Inr (s', rest)"
  shows "parse_fields handle (put_int f v @ rest) s = parse_fields handle rest s'"
proof -
  have k: "wire_key (put_int f v @ rest) = Inr ((f, 0), encode_varint (word_of_int v) @ rest)" using assms(2,3) by (simp add: put_int_def)
  show ?thesis by (rule parse_fields_step[OF assms(1) _ k assms(4)]) (simp add: put_int_def)
qed

lemma bytes_length [simp]: "length (bytes_of_string s) = length s"
  by (simp add: bytes_of_string_def)

lemma string_bytes [simp]: "string_of_bytes (bytes_of_string s) = s"
  by (induction s) (simp_all add: string_of_bytes_def bytes_of_string_def unat_of_nat)

lemma parse_put_list:
  assumes "\<And>x s rest. x \<in> set xs \<Longrightarrow> parse_fields handle (wr x @ rest) s = parse_fields handle rest (upd x s)"
  shows "parse_fields handle (concat (map wr xs) @ rest) s = parse_fields handle rest (foldl (\<lambda>s x. upd x s) s xs)"
  using assms by (induction xs arbitrary: s) simp_all

text \<open>What is nested in a message is not longer than the message.\<close>

lemma put_bytes_length: "length p \<le> length (put_bytes f p)"
  by (simp add: put_bytes_def put_length_def)

lemma part_length: "x \<in> set xs \<Longrightarrow> length (wr x) \<le> length (concat (map wr xs))"
  by (induction xs) auto

lemma part_bytes: "x \<in> set xs \<Longrightarrow> length (wr x) \<le> length (concat (map (\<lambda>x. put_bytes f (wr x)) xs))"
  using part_length[of x xs "\<lambda>x. put_bytes f (wr x)"] put_bytes_length[of "wr x" f] by linarith

lemma foldl_append: "foldl (\<lambda>s x. s @ [g x]) out xs = out @ map g xs"
  by (induction xs arbitrary: out) simp_all

section \<open>Value types\<close>

definition int64_range :: "int \<Rightarrow> bool" where "int64_range v \<longleftrightarrow> - (2 ^ 63) \<le> v \<and> v < 2 ^ 63"

definition put_shape :: "shape \<Rightarrow> byte list" where
  "put_shape sh = concat (map (\<lambda>d. put_bytes 1 (put_int 1 d)) sh)"

fun dtype_code :: "data_type \<Rightarrow> int" where
  "dtype_code Float32 = 1" | "dtype_code Int8 = 3" | "dtype_code Int32 = 6" | "dtype_code Float16 = 10"

definition put_type :: "tensor_spec \<Rightarrow> byte list" where
  "put_type s = put_bytes 1 (put_int 1 (dtype_code (spec_dtype s)) @ put_bytes 2 (put_shape (spec_shape s)))"

definition put_value_info :: "value_info \<Rightarrow> byte list" where
  "put_value_info v = put_bytes 1 (bytes_of_string (vi_name v)) @ put_bytes 2 (put_type (vi_spec v))"

lemma fields_read [simp]:
  "length p < 2 ^ 64 \<Longrightarrow> bytes_field 2 n (put_length p @ rest) = Inr (p, rest)"
  "length s < 2 ^ 64 \<Longrightarrow> string_field 2 n (put_length (bytes_of_string s) @ rest) = Inr (s, rest)"
  "require_wire w w n = Inr ()"
  by (simp_all add: bytes_field_def string_field_def require_wire_def)

lemma shape_roundtrip:
  assumes "\<forall>d \<in> set sh. int64_range d" and "length (put_shape sh) < 2 ^ 64"
  shows "parse_shape (put_shape sh) = Inr sh"
proof -
  have dim: "parse_fields dimension_field (put_int 1 d) (None, False) = Inr (Some d, False)" if "int64_range d" for d
    using parse_put_int[of dimension_field 1 d "[]" "(None, False)" "(Some d, False)"] that
    by (simp add: dimension_field_def int64_range_def)
  have "parse_fields shape_field (put_bytes 1 (put_int 1 d) @ rest) s = parse_fields shape_field rest (s @ [d])"
    if d: "d \<in> set sh" for d s rest
  proof (rule parse_put_bytes)
    have "length (put_int 1 d) < 2 ^ 64" using part_bytes[OF d, of "put_int 1" 1] assms(2) by (simp add: put_shape_def)
    then show "shape_field 1 2 (put_length (put_int 1 d) @ rest) s = Inr (s @ [d], rest)"
      using dim[of d] d assms(1) by (simp add: shape_field_def)
  qed simp_all
  from parse_put_list[where xs = sh and handle = shape_field and rest = "[]" and s = "[]", OF this] show ?thesis
    by (simp add: parse_shape_def put_shape_def foldl_append[of "\<lambda>x. x", simplified])
qed

text \<open>Two and three fields in a row, and the last field of a message.\<close>

lemma parse_last_bytes:
  assumes "consumes handle" and "0 < f" and "f < 2 ^ 20" and "handle f 2 (put_length p) s = Inr (s', [])"
  shows "parse_fields handle (put_bytes f p) s = Inr s'"
  using parse_put_bytes[of handle f p "[]" s s'] assms by simp

lemma parse_last_int:
  assumes "consumes handle" and "0 < f" and "f < 2 ^ 20" and "handle f 0 (encode_varint (word_of_int v)) s = Inr (s', [])"
  shows "parse_fields handle (put_int f v) s = Inr s'"
  using parse_put_int[of handle f v "[]" s s'] assms by simp

lemma put_length_last [simp]: "length p < 2 ^ 64 \<Longrightarrow> wire_bytes (put_length p) = Inr (p, [])"
  using put_length_read[of p "[]"] by simp

lemma fields_last [simp]:
  "length p < 2 ^ 64 \<Longrightarrow> bytes_field 2 n (put_length p) = Inr (p, [])"
  "length s < 2 ^ 64 \<Longrightarrow> string_field 2 n (put_length (bytes_of_string s)) = Inr (s, [])"
  using fields_read(1)[of p n "[]"] fields_read(2)[of s n "[]"] by simp_all

lemma int32_read [simp]:
  assumes "0 \<le> v" and "v < 2 ^ 31"
  shows "wire_int32 (encode_varint (word_of_int v) @ rest) = Inr (word_of_int v, rest)" "sint (word_of_int v :: 32 word) = v"
proof -
  show "sint (word_of_int v :: 32 word) = v" using assms by (simp add: sint_sbintrunc' signed_take_bit_int_eq_self)
  have "ucast (word_of_int v :: 64 word) = (word_of_int v :: 32 word)"
    by (rule bit_word_eqI) (simp add: bit_simps)
  then show "wire_int32 (encode_varint (word_of_int v) @ rest) = Inr (word_of_int v, rest)" by (simp add: wire_int32_def)
qed

lemma dtype_code_range: "0 \<le> dtype_code d \<and> dtype_code d < 2 ^ 31"
  by (cases d) simp_all

lemma dtype_code_read [simp]: "onnx_data_type (dtype_code d) = Inr d"
  by (cases d) (simp_all add: onnx_data_type_def)

lemma type_roundtrip:
  assumes sh: "\<forall>d \<in> set (spec_shape s). int64_range d" and len: "length (put_type s) < 2 ^ 64"
  shows "parse_type (put_type s) = Inr s"
proof -
  let ?t = "put_int 1 (dtype_code (spec_dtype s)) @ put_bytes 2 (put_shape (spec_shape s))"
  have t: "length ?t < 2 ^ 64" using len put_bytes_length[of ?t 1] by (simp add: put_type_def)
  then have p: "length (put_shape (spec_shape s)) < 2 ^ 64" using put_bytes_length[of "put_shape (spec_shape s)" 2] by simp
  have "parse_fields tensor_type_field ?t (None, None) =
      parse_fields tensor_type_field (put_bytes 2 (put_shape (spec_shape s))) (Some (spec_dtype s), None)"
    by (rule parse_put_int) (use dtype_code_range[of "spec_dtype s"] in \<open>simp_all add: tensor_type_field_def lift_def\<close>)
  also have "\<dots> = Inr (Some (spec_dtype s), Some (spec_shape s))"
    by (rule parse_last_bytes) (use p shape_roundtrip[OF sh p] in \<open>simp_all add: tensor_type_field_def\<close>)
  finally have "parse_fields type_field (put_bytes 1 ?t) None = Inr (Some s)"
    by (intro parse_last_bytes) (use t in \<open>simp_all add: type_field_def\<close>)
  then show ?thesis by (simp add: parse_type_def put_type_def)
qed

definition value_info_ok :: "value_info \<Rightarrow> bool" where
  "value_info_ok v \<longleftrightarrow> vi_name v \<noteq> [] \<and> (\<forall>d \<in> set (spec_shape (vi_spec v)). int64_range d)"

lemma value_info_roundtrip:
  assumes ok: "value_info_ok v" and len: "length (put_value_info v) < 2 ^ 64"
  shows "parse_value_info (put_value_info v) = Inr v"
proof -
  have l: "length (vi_name v) < 2 ^ 64" "length (put_type (vi_spec v)) < 2 ^ 64"
    using len put_bytes_length[of "bytes_of_string (vi_name v)" 1] put_bytes_length[of "put_type (vi_spec v)" 2]
    by (simp_all add: put_value_info_def)
  have "parse_fields value_info_field (put_value_info v) ([], None) =
      parse_fields value_info_field (put_bytes 2 (put_type (vi_spec v))) (vi_name v, None)"
    unfolding put_value_info_def by (rule parse_put_bytes) (use l in \<open>simp_all add: value_info_field_def\<close>)
  also have "\<dots> = Inr (vi_name v, Some (vi_spec v))"
    by (rule parse_last_bytes) (use l type_roundtrip[of "vi_spec v"] ok in \<open>simp_all add: value_info_field_def value_info_ok_def\<close>)
  finally show ?thesis using ok by (simp add: parse_value_info_def value_info_ok_def)
qed

section \<open>Attributes and nodes\<close>

fun put_value :: "attribute_value \<Rightarrow> byte list" where
  "put_value (Attr_float x) = put_key 2 5 @ word32_bytes x @ put_int 20 1"
| "put_value (Attr_integer i) = put_int 3 i @ put_int 20 2"
| "put_value (Attr_string s) = put_bytes 4 (bytes_of_string s) @ put_int 20 3"
| "put_value (Attr_integers xs) = put_bytes 8 (concat (map (\<lambda>i. encode_varint (word_of_int i)) xs)) @ put_int 20 7"
| "put_value (Attr_boolean b) = []"

definition put_attribute :: "string \<times> attribute_value \<Rightarrow> byte list" where
  "put_attribute a = put_bytes 1 (bytes_of_string (fst a)) @ put_value (snd a)"

fun attribute_ok :: "string \<times> attribute_value \<Rightarrow> bool" where
  "attribute_ok (name, Attr_float x) = (name \<noteq> [])"
| "attribute_ok (name, Attr_integer i) = (name \<noteq> [] \<and> int64_range i)"
| "attribute_ok (name, Attr_string s) = (name \<noteq> [])"
| "attribute_ok (name, Attr_integers xs) = (name \<noteq> [] \<and> (\<forall>x \<in> set xs. int64_range x))"
| "attribute_ok (name, Attr_boolean b) = False"

lemma packed_loop:
  assumes "\<And>x rest. x \<in> set xs \<Longrightarrow> read (enc x @ rest) = Inr (x, rest)" and "advances read" and "\<And>x. enc x \<noteq> []"
  shows "reader_loop (packed_step read) (concat (map enc xs)) out = Inr (out @ xs)"
  using assms(1)
proof (induction xs arbitrary: out)
  case Nil
  then show ?case by (simp add: reader_loop.simps)
next
  case (Cons x xs)
  have "packed_step read (enc x @ concat (map enc xs)) out = Inr (out @ [x], concat (map enc xs))"
    using Cons.prems[of x] by (simp add: packed_step_def)
  moreover have "reader_loop (packed_step read) (concat (map enc xs)) (out @ [x]) = Inr ((out @ [x]) @ xs)"
    by (rule Cons.IH) (use Cons.prems in simp)
  ultimately show ?case by (subst reader_loop_unfold[OF packed_step_length[OF assms(2)]]) (simp_all add: assms(3))
qed

lemma encode_not_empty [simp]: "encode_varint v \<noteq> []"
  by (subst encode_varint.simps) simp

lemma packed_varints [simp]:
  "\<forall>x \<in> set xs. int64_range x \<Longrightarrow> read_packed_varints (concat (map (\<lambda>i. encode_varint (word_of_int i)) xs)) out = Inr (out @ xs)"
  unfolding read_packed_varints_def by (rule packed_loop) (auto simp: int64_range_def)

lemma word32_of_bytes [simp]: "bytes_to_word32 (word32_bytes w @ rest) = w"
proof (rule bit_word_eqI)
  fix n assume "n < LENGTH(32)"
  then consider "n < 8" | "8 \<le> n \<and> n < 16" | "16 \<le> n \<and> n < 24" | "24 \<le> n \<and> n < 32" by fastforce
  then show "bit (bytes_to_word32 (word32_bytes w @ rest)) n = bit w n"
    by cases (auto simp: bytes_to_word32_def word32_bytes_def bit_simps)
qed

lemma attribute_roundtrip:
  assumes ok: "attribute_ok a" and len: "length (put_attribute a) < 2 ^ 64"
  shows "parse_attribute (put_attribute a) = Inr a"
proof -
  obtain name v where a: "a = (name, v)" by force
  have l: "length name < 2 ^ 64" using len put_bytes_length[of "bytes_of_string name" 1] by (simp add: put_attribute_def a)
  have named: "parse_fields attribute_field (put_attribute a) empty_attribute_fields =
      parse_fields attribute_field (put_value v) (empty_attribute_fields\<lparr>af_name := name\<rparr>)"
    unfolding put_attribute_def a fst_conv snd_conv by (rule parse_put_bytes) (use l in \<open>simp_all add: attribute_field_def\<close>)
  have tag: "parse_fields attribute_field (put_int 20 k) s = Inr (s\<lparr>af_type := word_of_int k\<rparr>)" if "0 \<le> k" "k < 2 ^ 31" for k s
    by (rule parse_last_int) (use int32_read(1)[OF that, of "[]"] in \<open>simp_all add: attribute_field_def\<close>)
  have n: "name \<noteq> []" using ok a by (cases v) simp_all
  show ?thesis
  proof (cases v)
    case (Attr_float x)
    have k: "wire_key (put_key 2 5 @ word32_bytes x @ put_int 20 1) = Inr ((2, 5), word32_bytes x @ put_int 20 1)" by simp
    have "attribute_field 2 5 (word32_bytes x @ put_int 20 1) s = Inr (s\<lparr>af_floating := Some x\<rparr>, put_int 20 1)" for s
      by (simp add: attribute_field_def wire_fixed32_checked)
    from parse_fields_step[OF handlers_consume(7) _ k this] show ?thesis using named tag[of 1] n Attr_float a
      by (simp add: parse_attribute_def attribute_result_def empty_attribute_fields_def deref_def)
  next
    case (Attr_integer i)
    have "parse_fields attribute_field (put_int 3 i @ put_int 20 2) s = parse_fields attribute_field (put_int 20 2) (s\<lparr>af_integer := Some i\<rparr>)" for s
      by (rule parse_put_int) (use ok a Attr_integer in \<open>simp_all add: attribute_field_def int64_range_def\<close>)
    then show ?thesis using named tag[of 2] n Attr_integer a
      by (simp add: parse_attribute_def attribute_result_def empty_attribute_fields_def deref_def)
  next
    case (Attr_string s0)
    then have "length s0 < 2 ^ 64"
      using len put_bytes_length[of "bytes_of_string s0" 4] by (simp add: put_attribute_def a)
    then have "parse_fields attribute_field (put_bytes 4 (bytes_of_string s0) @ put_int 20 3) s =
        parse_fields attribute_field (put_int 20 3) (s\<lparr>af_string := Some s0\<rparr>)" for s
      by (intro parse_put_bytes) (simp_all add: attribute_field_def)
    then show ?thesis using named tag[of 3] n Attr_string a
      by (simp add: parse_attribute_def attribute_result_def empty_attribute_fields_def deref_def)
  next
    case (Attr_integers xs)
    let ?p = "concat (map (\<lambda>i. encode_varint (word_of_int i)) xs)"
    have "length ?p < 2 ^ 64" using Attr_integers len put_bytes_length[of ?p 8] by (simp add: put_attribute_def a)
    then have "parse_fields attribute_field (put_bytes 8 ?p @ put_int 20 7) (s\<lparr>af_integers := []\<rparr>) =
        parse_fields attribute_field (put_int 20 7) (s\<lparr>af_integers := xs\<rparr>)" for s
      using ok a Attr_integers by (intro parse_put_bytes) (simp_all add: attribute_field_def repeated_field_def)
    from this[of "empty_attribute_fields\<lparr>af_name := name\<rparr>"] show ?thesis using named tag[of 7] n Attr_integers a
      by (simp add: parse_attribute_def attribute_result_def empty_attribute_fields_def deref_def)
  next
    case (Attr_boolean b)
    then show ?thesis using ok a by simp
  qed
qed

definition put_node :: "node_proto \<Rightarrow> byte list" where
  "put_node n = concat (map (\<lambda>s. put_bytes 1 (bytes_of_string s)) (np_inputs n)) @
     concat (map (\<lambda>s. put_bytes 2 (bytes_of_string s)) (np_outputs n)) @
     put_bytes 3 (bytes_of_string (np_name n)) @ put_bytes 4 (bytes_of_string (np_op_type n)) @
     concat (map (\<lambda>a. put_bytes 5 (put_attribute a)) (np_attributes n)) @ put_bytes 7 (bytes_of_string (np_domain n))"

definition node_proto_ok :: "node_proto \<Rightarrow> bool" where
  "node_proto_ok n \<longleftrightarrow> np_op_type n \<noteq> [] \<and> (\<forall>a \<in> set (np_attributes n). attribute_ok a) \<and> sorted_wrt (<) (map fst (np_attributes n))"

lemma insort_last: "\<forall>b \<in> set xs. fst b < fst a \<Longrightarrow> insort_key fst a xs = xs @ [a]"
  by (induction xs) (auto dest: leD)

lemma emplace_last:
  assumes "\<forall>b \<in> set attrs. fst b < fst a"
  shows "emplace_attribute a attrs = Inr (attrs @ [a])"
proof -
  have "map_of attrs (fst a) = None" using assms by (fastforce simp: map_of_eq_None_iff)
  then show ?thesis by (simp add: emplace_attribute_def insort_last[OF assms])
qed

lemma attributes_read:
  assumes "sorted_wrt (<) (map fst (np_attributes n @ xs))" and "\<forall>a \<in> set xs. attribute_ok a \<and> length (put_attribute a) < 2 ^ 64"
  shows "parse_fields node_field (concat (map (\<lambda>a. put_bytes 5 (put_attribute a)) xs) @ rest) n =
    parse_fields node_field rest (n\<lparr>np_attributes := np_attributes n @ xs\<rparr>)"
  using assms
proof (induction xs arbitrary: n)
  case (Cons a xs)
  have a: "\<forall>b \<in> set (np_attributes n). fst b < fst a" using Cons.prems(1) by (auto simp: sorted_wrt_append)
  have "parse_fields node_field (put_bytes 5 (put_attribute a) @ concat (map (\<lambda>a. put_bytes 5 (put_attribute a)) xs) @ rest) n =
      parse_fields node_field (concat (map (\<lambda>a. put_bytes 5 (put_attribute a)) xs) @ rest) (n\<lparr>np_attributes := np_attributes n @ [a]\<rparr>)"
    by (rule parse_put_bytes) (use Cons.prems(2) attribute_roundtrip[of a] emplace_last[OF a] in \<open>simp_all add: node_field_def\<close>)
  then show ?case using Cons.IH[of "n\<lparr>np_attributes := np_attributes n @ [a]\<rparr>"] Cons.prems by simp
qed simp

lemma foldl_inputs: "foldl (\<lambda>n x. n\<lparr>np_inputs := np_inputs n @ [x]\<rparr>) n xs = n\<lparr>np_inputs := np_inputs n @ xs\<rparr>" for n :: node_proto
  by (induction xs arbitrary: n) simp_all

lemma foldl_outputs: "foldl (\<lambda>n x. n\<lparr>np_outputs := np_outputs n @ [x]\<rparr>) n xs = n\<lparr>np_outputs := np_outputs n @ xs\<rparr>" for n :: node_proto
  by (induction xs arbitrary: n) simp_all

lemma strings_read:
  assumes "consumes handle" and "0 < f" and "f < 2 ^ 20" and "length (concat (map (\<lambda>s. put_bytes f (bytes_of_string s)) xs)) < 2 ^ 64"
    and "\<And>x s rest. handle f 2 (put_length (bytes_of_string x) @ rest) s =
      bindE (string_field 2 name (put_length (bytes_of_string x) @ rest)) (\<lambda>(v, bs'). Inr (upd v s, bs'))"
  shows "parse_fields handle (concat (map (\<lambda>s. put_bytes f (bytes_of_string s)) xs) @ rest) s =
    parse_fields handle rest (foldl (\<lambda>s x. upd x s) s xs)"
proof (rule parse_put_list)
  fix x s rest assume x: "x \<in> set xs"
  have "length x < 2 ^ 64" using part_bytes[OF x, of bytes_of_string f] assms(4) by simp
  then show "parse_fields handle (put_bytes f (bytes_of_string x) @ rest) s = parse_fields handle rest (upd x s)"
    by (intro parse_put_bytes assms(1,2,3)) (simp add: assms(5))
qed

lemma node_roundtrip:
  assumes ok: "node_proto_ok n" and len: "length (put_node n) < 2 ^ 64"
  shows "parse_node (put_node n) = Inr n"
proof -
  let ?ins = "concat (map (\<lambda>s. put_bytes 1 (bytes_of_string s)) (np_inputs n))" and ?outs = "concat (map (\<lambda>s. put_bytes 2 (bytes_of_string s)) (np_outputs n))"
  let ?at = "concat (map (\<lambda>a. put_bytes 5 (put_attribute a)) (np_attributes n))" and ?dom = "put_bytes 7 (bytes_of_string (np_domain n))"
  let ?op = "put_bytes 4 (bytes_of_string (np_op_type n)) @ ?at @ ?dom"
  let ?e = "empty_node_proto\<lparr>np_inputs := np_inputs n\<rparr>"
  have l: "length ?ins < 2 ^ 64" "length ?outs < 2 ^ 64" "length (np_name n) < 2 ^ 64" "length (np_op_type n) < 2 ^ 64"
    "length ?at < 2 ^ 64" "length (np_domain n) < 2 ^ 64"
    using len put_bytes_length[of "bytes_of_string (np_name n)" 3] put_bytes_length[of "bytes_of_string (np_op_type n)" 4]
      put_bytes_length[of "bytes_of_string (np_domain n)" 7] by (simp_all add: put_node_def)
  have "parse_fields node_field (put_node n) empty_node_proto =
      parse_fields node_field (?outs @ put_bytes 3 (bytes_of_string (np_name n)) @ ?op) ?e"
    unfolding put_node_def
    by (subst strings_read[where name = "''NodeProto.input''" and upd = "\<lambda>x n. n\<lparr>np_inputs := np_inputs n @ [x]\<rparr>"])
      (use l(1) in \<open>simp_all add: node_field_def foldl_inputs empty_node_proto_def\<close>)
  also have "\<dots> = parse_fields node_field (put_bytes 3 (bytes_of_string (np_name n)) @ ?op) (?e\<lparr>np_outputs := np_outputs n\<rparr>)"
    by (subst strings_read[where name = "''NodeProto.output''" and upd = "\<lambda>x n. n\<lparr>np_outputs := np_outputs n @ [x]\<rparr>"])
      (use l(2) in \<open>simp_all add: node_field_def foldl_outputs empty_node_proto_def\<close>)
  also have "\<dots> = parse_fields node_field ?op (?e\<lparr>np_outputs := np_outputs n, np_name := np_name n\<rparr>)"
    by (rule parse_put_bytes) (use l(3) in \<open>simp_all add: node_field_def\<close>)
  also have "\<dots> = parse_fields node_field (?at @ ?dom) (?e\<lparr>np_outputs := np_outputs n, np_name := np_name n, np_op_type := np_op_type n\<rparr>)"
    by (rule parse_put_bytes) (use l(4) in \<open>simp_all add: node_field_def\<close>)
  also have "\<dots> = parse_fields node_field ?dom (?e\<lparr>np_outputs := np_outputs n, np_name := np_name n, np_op_type := np_op_type n,
      np_attributes := np_attributes n\<rparr>)"
  proof -
    have "length (put_attribute a) < 2 ^ 64" if "a \<in> set (np_attributes n)" for a
      using part_bytes[OF that, of put_attribute 5] l(5) by simp
    then show ?thesis using ok by (subst attributes_read) (simp_all add: node_proto_ok_def empty_node_proto_def)
  qed
  also have "\<dots> = Inr n" by (rule parse_last_bytes) (use l(6) in \<open>simp_all add: node_field_def empty_node_proto_def\<close>)
  finally show ?thesis using ok by (simp add: parse_node_def node_proto_ok_def)
qed

section \<open>Tensors\<close>

text \<open>An \<^verbatim>\<open>int32\<close> field is written as the sign-extended 64-bit varint, as the format demands.\<close>

definition put_word :: "nat \<Rightarrow> 32 word \<Rightarrow> byte list" where
  "put_word field w = put_key field 0 @ encode_varint (scast w)"

definition put_tensor :: "parsed_tensor \<Rightarrow> byte list" where
  "put_tensor t = put_bytes 1 (concat (map (\<lambda>d. encode_varint (word_of_int d)) (pt_shape t))) @ put_word 2 (pt_data_type t) @
     put_bytes 4 (concat (map word32_bytes (pt_float_data t))) @ put_bytes 5 (concat (map (\<lambda>w. encode_varint (scast w)) (pt_int32_data t))) @
     put_bytes 8 (bytes_of_string (pt_name t)) @ put_bytes 9 (pt_raw_data t) @ put_int 14 (of_bool (pt_external t))"

lemma int32_word_read [simp]: "wire_int32 (encode_varint (scast w) @ rest) = Inr (w, rest)"
proof -
  have "ucast (scast w :: 64 word) = w" by (rule bit_word_eqI) (auto simp: bit_simps)
  then show ?thesis by (simp add: wire_int32_def)
qed

lemma packed_floats [simp]: "read_packed_floats (concat (map word32_bytes xs)) out = Inr (out @ xs)"
proof -
  have "word32_bytes x \<noteq> []" for x using length_word_bytes(1)[of x] by fastforce
  then show ?thesis unfolding read_packed_floats_def
    by (intro packed_loop) (simp_all add: wire_fixed32_checked)
qed

lemma packed_int32 [simp]: "read_packed_int32 (concat (map (\<lambda>w. encode_varint (scast w)) xs)) out = Inr (out @ xs)"
  unfolding read_packed_int32_def by (rule packed_loop) simp_all

lemma parse_put_word:
  assumes "consumes handle" and "0 < f" and "f < 2 ^ 20" and "handle f 0 (encode_varint (scast w) @ rest) s = Inr (s', rest)"
  shows "parse_fields handle (put_word f w @ rest) s = parse_fields handle rest s'"
proof -
  have k: "wire_key (put_word f w @ rest) = Inr ((f, 0), encode_varint (scast w) @ rest)" using assms(2,3) by (simp add: put_word_def)
  show ?thesis by (rule parse_fields_step[OF assms(1) _ k assms(4)]) (simp add: put_word_def)
qed

lemma tensor_roundtrip:
  assumes dims: "\<forall>d \<in> set (pt_shape t). int64_range d" and len: "length (put_tensor t) < 2 ^ 64"
  shows "parse_tensor (put_tensor t) = Inr t"
proof -
  let ?d = "concat (map (\<lambda>d. encode_varint (word_of_int d)) (pt_shape t))" and ?f = "concat (map word32_bytes (pt_float_data t))"
  let ?i = "concat (map (\<lambda>w. encode_varint (scast w) :: byte list) (pt_int32_data t))" and ?e = "put_int 14 (of_bool (pt_external t))"
  let ?r9 = "put_bytes 9 (pt_raw_data t) @ ?e" let ?r8 = "put_bytes 8 (bytes_of_string (pt_name t)) @ ?r9"
  let ?r5 = "put_bytes 5 ?i @ ?r8" let ?r4 = "put_bytes 4 ?f @ ?r5" let ?r2 = "put_word 2 (pt_data_type t) @ ?r4"
  let ?z = "empty_parsed_tensor\<lparr>pt_shape := pt_shape t\<rparr>"
  have l: "length ?d < 2 ^ 64" "length ?f < 2 ^ 64" "length ?i < 2 ^ 64" "length (pt_name t) < 2 ^ 64" "length (pt_raw_data t) < 2 ^ 64"
    using len put_bytes_length[of ?d 1] put_bytes_length[of ?f 4] put_bytes_length[of ?i 5]
      put_bytes_length[of "bytes_of_string (pt_name t)" 8] put_bytes_length[of "pt_raw_data t" 9] by (simp_all add: put_tensor_def)
  have ext: "wire_varint (encode_varint (of_bool b)) = Inr (of_bool b, [])" for b using varint_read_nil[of "of_bool b"] by simp
  have "parse_fields tensor_field (put_tensor t) empty_parsed_tensor = parse_fields tensor_field ?r2 ?z"
    unfolding put_tensor_def
    by (rule parse_put_bytes) (use l(1) dims in \<open>simp_all add: tensor_field_def repeated_field_def empty_parsed_tensor_def\<close>)
  also have "\<dots> = parse_fields tensor_field ?r4 (?z\<lparr>pt_data_type := pt_data_type t\<rparr>)"
    by (rule parse_put_word) (simp_all add: tensor_field_def)
  also have "\<dots> = parse_fields tensor_field ?r5 (?z\<lparr>pt_data_type := pt_data_type t, pt_float_data := pt_float_data t\<rparr>)"
    by (rule parse_put_bytes) (use l(2) in \<open>simp_all add: tensor_field_def repeated_field_def empty_parsed_tensor_def\<close>)
  also have "\<dots> = parse_fields tensor_field ?r8 (?z\<lparr>pt_data_type := pt_data_type t, pt_float_data := pt_float_data t,
      pt_int32_data := pt_int32_data t\<rparr>)"
    by (rule parse_put_bytes) (use l(3) in \<open>simp_all add: tensor_field_def repeated_field_def empty_parsed_tensor_def\<close>)
  also have "\<dots> = parse_fields tensor_field ?r9 (?z\<lparr>pt_data_type := pt_data_type t, pt_float_data := pt_float_data t,
      pt_int32_data := pt_int32_data t, pt_name := pt_name t\<rparr>)"
    by (rule parse_put_bytes) (use l(4) in \<open>simp_all add: tensor_field_def\<close>)
  also have "\<dots> = parse_fields tensor_field ?e (?z\<lparr>pt_data_type := pt_data_type t, pt_float_data := pt_float_data t,
      pt_int32_data := pt_int32_data t, pt_name := pt_name t, pt_raw_data := pt_raw_data t\<rparr>)"
    by (rule parse_put_bytes) (use l(5) in \<open>simp_all add: tensor_field_def\<close>)
  also have "\<dots> = Inr t"
    by (rule parse_last_int) (simp_all add: tensor_field_def ext empty_parsed_tensor_def)
  finally show ?thesis by (simp add: parse_tensor_def)
qed

section \<open>Graphs and models\<close>

text \<open>A model file: the initializers are given as messages, all else as the parsed model.\<close>

definition put_graph :: "graph_proto \<Rightarrow> parsed_tensor list \<Rightarrow> byte list" where
  "put_graph g inits = put_bytes 2 (bytes_of_string (gp_name g)) @ concat (map (\<lambda>n. put_bytes 1 (put_node n)) (gp_nodes g)) @
     concat (map (\<lambda>t. put_bytes 5 (put_tensor t)) inits) @ concat (map (\<lambda>v. put_bytes 11 (put_value_info v)) (gp_inputs g)) @
     concat (map (\<lambda>v. put_bytes 12 (put_value_info v)) (gp_outputs g))"

definition put_model :: "model_proto \<Rightarrow> parsed_tensor list \<Rightarrow> byte list" where
  "put_model m inits = put_bytes 8 (put_bytes 1 [] @ put_int 2 (mp_opset_version m)) @ put_bytes 7 (put_graph (mp_graph m) inits)"

definition graph_proto_ok :: "graph_proto \<Rightarrow> bool" where
  "graph_proto_ok g \<longleftrightarrow> (\<forall>n \<in> set (gp_nodes g). node_proto_ok n) \<and> (\<forall>v \<in> set (gp_inputs g) \<union> set (gp_outputs g). value_info_ok v)"

definition source_ok :: "parsed_tensor \<Rightarrow> bool" where
  "source_ok t \<longleftrightarrow> pt_name t \<noteq> [] \<and> (\<forall>d \<in> set (pt_shape t). int64_range d)"

text \<open>Decoding the initializers one after the other.\<close>

fun decode_all :: "parsed_tensor list \<Rightarrow> heap \<Rightarrow> (initializer list \<times> heap) result" where
  "decode_all [] h = Inr ([], h)"
| "decode_all (t # ts) h = bindE (decode_tensor t h) (\<lambda>(v, h1). bindE (decode_all ts h1) (\<lambda>(vs, h2).
     Inr (\<lparr>in_name = pt_name t, in_value = v\<rparr> # vs, h2)))"

lemma initializers_read:
  assumes "\<forall>t \<in> set ts. source_ok t \<and> length (put_tensor t) < 2 ^ 64" and "decode_all ts h = Inr (vs, h')"
  shows "parse_fields graph_field (concat (map (\<lambda>t. put_bytes 5 (put_tensor t)) ts) @ rest) (g, h) =
    parse_fields graph_field rest (g\<lparr>gp_initializers := gp_initializers g @ vs\<rparr>, h')"
  using assms
proof (induction ts arbitrary: g h vs)
  case (Cons t ts)
  then obtain v h1 vs' where d: "decode_tensor t h = Inr (v, h1)" "decode_all ts h1 = Inr (vs', h')"
    and vs: "vs = \<lparr>in_name = pt_name t, in_value = v\<rparr> # vs'" by auto
  let ?g = "g\<lparr>gp_initializers := gp_initializers g @ [\<lparr>in_name = pt_name t, in_value = v\<rparr>]\<rparr>"
  have "parse_tensor (put_tensor t) = Inr t" using Cons.prems(1) by (intro tensor_roundtrip) (simp_all add: source_ok_def)
  then have i: "initializer_field (put_tensor t) g h = Inr (?g, h1)"
    using Cons.prems(1) d(1) by (simp add: initializer_field_def catch_exception_def lift_def source_ok_def)
  have "parse_fields graph_field (put_bytes 5 (put_tensor t) @ concat (map (\<lambda>t. put_bytes 5 (put_tensor t)) ts) @ rest) (g, h) =
      parse_fields graph_field (concat (map (\<lambda>t. put_bytes 5 (put_tensor t)) ts) @ rest) (?g, h1)"
    by (rule parse_put_bytes) (use Cons.prems(1) i in \<open>simp_all add: graph_field_def\<close>)
  then show ?case using Cons.IH[OF _ d(2), of ?g] Cons.prems(1) vs by simp
qed simp

lemma foldl_graph_nodes: "foldl (\<lambda>s x. case s of (g, h) \<Rightarrow> (g\<lparr>gp_nodes := gp_nodes g @ [x]\<rparr>, h)) (g, h) xs =
    (g\<lparr>gp_nodes := gp_nodes g @ xs\<rparr>, h)" for g :: graph_proto and h :: heap
  by (induction xs arbitrary: g) simp_all

lemma foldl_graph_inputs: "foldl (\<lambda>s x. case s of (g, h) \<Rightarrow> (g\<lparr>gp_inputs := gp_inputs g @ [x]\<rparr>, h)) (g, h) xs =
    (g\<lparr>gp_inputs := gp_inputs g @ xs\<rparr>, h)" for g :: graph_proto and h :: heap
  by (induction xs arbitrary: g) simp_all

lemma foldl_graph_outputs: "foldl (\<lambda>s x. case s of (g, h) \<Rightarrow> (g\<lparr>gp_outputs := gp_outputs g @ [x]\<rparr>, h)) (g, h) xs =
    (g\<lparr>gp_outputs := gp_outputs g @ xs\<rparr>, h)" for g :: graph_proto and h :: heap
  by (induction xs arbitrary: g) simp_all

lemmas foldl_graph = foldl_graph_nodes foldl_graph_inputs foldl_graph_outputs

lemma graph_roundtrip:
  assumes ok: "graph_proto_ok g" "\<forall>t \<in> set ts. source_ok t" and len: "length (put_graph g ts) < 2 ^ 64"
    and dec: "decode_all ts h = Inr (gp_initializers g, h')"
  shows "parse_graph (put_graph g ts) h = Inr (g, h')"
proof -
  let ?ns = "concat (map (\<lambda>n. put_bytes 1 (put_node n)) (gp_nodes g))" and ?ts = "concat (map (\<lambda>t. put_bytes 5 (put_tensor t)) ts)"
  let ?is = "concat (map (\<lambda>v. put_bytes 11 (put_value_info v)) (gp_inputs g))" and ?os = "concat (map (\<lambda>v. put_bytes 12 (put_value_info v)) (gp_outputs g))"
  let ?g0 = "empty_graph_proto\<lparr>gp_name := gp_name g\<rparr>"
  have l: "length (gp_name g) < 2 ^ 64" "length ?ns < 2 ^ 64" "length ?ts < 2 ^ 64" "length ?is < 2 ^ 64" "length ?os < 2 ^ 64"
    using len put_bytes_length[of "bytes_of_string (gp_name g)" 2] by (simp_all add: put_graph_def)
  have n: "parse_fields graph_field (put_bytes 1 (put_node x) @ rest) s =
      parse_fields graph_field rest (case s of (g, h) \<Rightarrow> (g\<lparr>gp_nodes := gp_nodes g @ [x]\<rparr>, h))" if "x \<in> set (gp_nodes g)" for x s rest
    by (rule parse_put_bytes) (use part_bytes[OF that, of put_node 1] l(2) node_roundtrip[of x] ok(1) that in
        \<open>simp_all add: graph_field_def graph_proto_ok_def split: prod.splits\<close>)
  have i: "parse_fields graph_field (put_bytes 11 (put_value_info x) @ rest) s =
      parse_fields graph_field rest (case s of (g, h) \<Rightarrow> (g\<lparr>gp_inputs := gp_inputs g @ [x]\<rparr>, h))" if "x \<in> set (gp_inputs g)" for x s rest
    by (rule parse_put_bytes) (use part_bytes[OF that, of put_value_info 11] l(4) value_info_roundtrip[of x] ok(1) that in
        \<open>simp_all add: graph_field_def graph_proto_ok_def split: prod.splits\<close>)
  have o: "parse_fields graph_field (put_bytes 12 (put_value_info x) @ rest) s =
      parse_fields graph_field rest (case s of (g, h) \<Rightarrow> (g\<lparr>gp_outputs := gp_outputs g @ [x]\<rparr>, h))" if "x \<in> set (gp_outputs g)" for x s rest
    by (rule parse_put_bytes) (use part_bytes[OF that, of put_value_info 12] l(5) value_info_roundtrip[of x] ok(1) that in
        \<open>simp_all add: graph_field_def graph_proto_ok_def split: prod.splits\<close>)
  have t: "\<forall>t \<in> set ts. source_ok t \<and> length (put_tensor t) < 2 ^ 64"
    using part_bytes[of _ ts put_tensor 5] l(3) ok(2) by fastforce
  have "parse_fields graph_field (put_graph g ts) (empty_graph_proto, h) = parse_fields graph_field (?ns @ ?ts @ ?is @ ?os) (?g0, h)"
    unfolding put_graph_def by (rule parse_put_bytes) (use l(1) in \<open>simp_all add: graph_field_def\<close>)
  also have "\<dots> = parse_fields graph_field (?ts @ ?is @ ?os) (?g0\<lparr>gp_nodes := gp_nodes g\<rparr>, h)"
    by (subst parse_put_list[OF n]) (simp_all add: foldl_graph empty_graph_proto_def)
  also have "\<dots> = parse_fields graph_field (?is @ ?os) (?g0\<lparr>gp_nodes := gp_nodes g, gp_initializers := gp_initializers g\<rparr>, h')"
    by (subst initializers_read[OF t dec]) (simp add: empty_graph_proto_def)
  also have "\<dots> = parse_fields graph_field (?os @ []) (?g0\<lparr>gp_nodes := gp_nodes g, gp_initializers := gp_initializers g, gp_inputs := gp_inputs g\<rparr>, h')"
    by (subst parse_put_list[OF i]) (simp_all add: foldl_graph empty_graph_proto_def)
  also have "\<dots> = Inr (g, h')"
    by (subst parse_put_list[OF o]) (simp_all add: foldl_graph empty_graph_proto_def)
  finally show ?thesis by (simp add: parse_graph_def)
qed

lemma opset_roundtrip:
  assumes "int64_range v"
  shows "parse_opset (put_bytes 1 [] @ put_int 2 v) = Inr ([], v)"
proof -
  have "parse_fields opset_field (put_bytes 1 [] @ put_int 2 v) ([], 0) = parse_fields opset_field (put_int 2 v) ([], 0)"
    by (rule parse_put_bytes) (simp_all add: opset_field_def string_field_def string_of_bytes_def)
  also have "\<dots> = Inr ([], v)" by (rule parse_last_int) (use assms in \<open>simp_all add: opset_field_def int64_range_def\<close>)
  finally show ?thesis by (simp add: parse_opset_def)
qed

lemma model_fields_read:
  assumes "graph_proto_ok (mp_graph m)" and "\<forall>t \<in> set ts. source_ok t" and "int64_range (mp_opset_version m)"
    and len: "length (put_model m ts) < 2 ^ 64" and dec: "decode_all ts h = Inr (gp_initializers (mp_graph m), h')"
  shows "parse_fields model_field (put_model m ts) ((\<lparr>mp_opset_version = 0, mp_graph = empty_graph_proto\<rparr>, False), h) = Inr ((m, True), h')"
proof -
  let ?o = "put_bytes 1 [] @ put_int 2 (mp_opset_version m)" and ?g = "put_graph (mp_graph m) ts"
  let ?z = "\<lparr>mp_opset_version = 0, mp_graph = empty_graph_proto\<rparr>"
  have l: "length ?o < 2 ^ 64" "length ?g < 2 ^ 64"
    using len put_bytes_length[of ?o 8] put_bytes_length[of ?g 7] by (simp_all add: put_model_def)
  have "parse_fields model_field (put_model m ts) ((?z, False), h) =
      parse_fields model_field (put_bytes 7 ?g) ((?z\<lparr>mp_opset_version := mp_opset_version m\<rparr>, False), h)"
    unfolding put_model_def
    by (rule parse_put_bytes) (use l(1) opset_roundtrip[OF assms(3)] in \<open>simp_all add: model_field_def\<close>)
  also have "\<dots> = Inr ((m, True), h')"
    by (rule parse_last_bytes) (use l(2) graph_roundtrip[OF assms(1,2) l(2) dec] in \<open>simp_all add: model_field_def\<close>)
  finally show ?thesis .
qed

text \<open>
  C36: models survive writing and parsing. Any model whose names, shapes and attributes the format can carry is read
  back exactly from the bytes the reference writer makes of it: names, nodes with their attributes, inputs, outputs,
  opset version, and the initializers decoded into memory.
\<close>

theorem model_roundtrip:
  assumes "graph_proto_ok (mp_graph m)" and "\<forall>t \<in> set ts. source_ok t" and "int64_range (mp_opset_version m)" and "mp_opset_version m \<noteq> 0"
    and "length (put_model m ts) < 2 ^ 64" and "decode_all ts h = Inr (gp_initializers (mp_graph m), h')"
  shows "parse_model (put_model m ts) h = Inr (m, h')"
  using model_fields_read[OF assms(1-3,5,6)] assms(4) by (simp add: parse_model_def)

definition demo_model :: model_proto where
  "demo_model = \<lparr>mp_opset_version = 13, mp_graph = \<lparr>gp_name = ''g'', gp_inputs = [],
     gp_initializers = [\<lparr>in_name = ''w'', in_value = demo_tensor\<rparr>],
     gp_nodes = [\<lparr>np_name = ''r'', np_op_type = ''Relu'', np_inputs = [''w''], np_outputs = [''y''],
       np_attributes = [(''a'', Attr_integer 1)], np_domain = []\<rparr>], gp_outputs = []\<rparr>\<rparr>"

theorem model_roundtrip_witness:
  "\<exists>h'. parse_model (put_model demo_model [demo_source]) demo_heap = Inr (demo_model, h')"
proof -
  have len: "length (put_model demo_model [demo_source]) < 1000" by code_simp
  obtain h' where d: "decode_tensor demo_source demo_heap = Inr (demo_tensor, h')" using demo_decode by blast
  have "parse_model (put_model demo_model [demo_source]) demo_heap = Inr (demo_model, h')"
  proof (rule model_roundtrip)
    show "graph_proto_ok (mp_graph demo_model)" "int64_range (mp_opset_version demo_model)" "mp_opset_version demo_model \<noteq> 0"
      by (simp_all add: demo_model_def graph_proto_ok_def node_proto_ok_def int64_range_def)
    show "\<forall>t \<in> set [demo_source]. source_ok t"
      by (simp add: source_ok_def demo_source_def empty_parsed_tensor_def int64_range_def)
    show "decode_all [demo_source] demo_heap = Inr (gp_initializers (mp_graph demo_model), h')"
      using d by (simp add: demo_model_def) (simp add: demo_source_def empty_parsed_tensor_def)
    show "length (put_model demo_model [demo_source]) < 2 ^ 64" using len by simp
  qed
  then show ?thesis by blast
qed

end
