(* ===== verification/Onnx_Registry.thy ===== *)
theory Onnx_Registry
  imports Onnx_Parser "HOL-Library.Product_Lexorder" "HOL-Library.Multiset"
begin

text \<open>
  The operator registry of the importer, \<^verbatim>\<open>src/model/onnx/operator_registry.cpp\<close>: which ONNX operators, in which
  versions of the operator set, become which operators of the graph. The main lemma is the contract of the table:
  the ranges of one operator are disjoint and ascending, so at most one translator answers.
\<close>

section \<open>Translators\<close>

type_synonym translated_operator = "op_type \<times> node_attributes"

type_synonym operator_translator = "node_proto \<Rightarrow> translated_operator result"

definition direct :: "op_type \<Rightarrow> operator_translator" where
  "direct op source = Inr (op, np_attributes source)"

text \<open>\<open>std::map::erase\<close> and \<open>std::map::emplace\<close> of a key that is absent.\<close>

definition erase_attribute :: "string \<Rightarrow> node_attributes \<Rightarrow> node_attributes" where
  "erase_attribute key = filter (\<lambda>a. fst a \<noteq> key)"

definition translate_gelu :: operator_translator where
  "translate_gelu source =
     (case map_of (np_attributes source) ''approximate'' of
        None \<Rightarrow> Inr (Op_GELU, insort_key fst (''approximate'', Attr_string ''none'') (np_attributes source))
      | Some v \<Rightarrow>
          if v \<noteq> Attr_string ''none'' \<and> v \<noteq> Attr_string ''tanh''
          then Inl (Invalid_argument (''ONNX Gelu approximate must be '' @ [CHR 0x27] @ ''none'' @ [CHR 0x27] @ '' or '' @ [CHR 0x27] @ ''tanh'' @ [CHR 0x27]))
          else Inr (Op_GELU, np_attributes source))"

text \<open>An attribute that may only have one value, which is then dropped.\<close>

definition drop_fixed :: "string \<Rightarrow> int \<Rightarrow> string \<Rightarrow> node_attributes \<Rightarrow> node_attributes result" where
  "drop_fixed key expected message attrs =
     (case map_of attrs key of
        None \<Rightarrow> Inr attrs
      | Some v \<Rightarrow> if v \<noteq> Attr_integer expected then Inl (Invalid_argument message) else Inr (erase_attribute key attrs))"

definition translate_layer_norm :: operator_translator where
  "translate_layer_norm source =
     (if length (np_inputs source) < 2 \<or> length (np_inputs source) > 3
      then Inl (Invalid_argument ''ONNX LayerNormalization requires X and Scale, with optional Bias'')
      else bindE (drop_fixed ''axis'' (-1) ''ONNX LayerNormalization currently supports axis=-1 only'' (np_attributes source)) (\<lambda>attrs.
           bindE (drop_fixed ''stash_type'' 1 ''ONNX LayerNormalization currently supports stash_type=1 only'' attrs) (\<lambda>attrs'.
             Inr (Op_LayerNorm, attrs'))))"

definition canonical_domain :: "string \<Rightarrow> string" where
  "canonical_domain domain = (if domain = ''ai.onnx'' then [] else domain)"

section \<open>The table\<close>

record versioned_translator =
  vt_first_opset :: int
  vt_last_opset :: int
  vt_translate :: operator_translator

text \<open>
  \<open>std::map\<close> from an operator to its versions: an association list in ascending key order. An empty
  \<open>std::function\<close> is \<open>None\<close>. The ranges of the sorted versions do not overlap, so the first opsets differ and the order
  \<open>std::sort\<close> leaves is unique.
\<close>

type_synonym operator_registry = "((string \<times> string) \<times> versioned_translator list) list"

definition versions_of :: "operator_registry \<Rightarrow> string \<times> string \<Rightarrow> versioned_translator list" where
  "versions_of reg key = (case map_of reg key of None \<Rightarrow> [] | Some vs \<Rightarrow> vs)"

definition overlaps :: "int \<Rightarrow> int \<Rightarrow> versioned_translator \<Rightarrow> bool" where
  "overlaps first_opset last_opset v \<longleftrightarrow> first_opset \<le> vt_last_opset v \<and> vt_first_opset v \<le> last_opset"

definition store_versions :: "string \<times> string \<Rightarrow> versioned_translator list \<Rightarrow> operator_registry \<Rightarrow> operator_registry" where
  "store_versions key vs reg = insort_key fst (key, vs) (filter (\<lambda>e. fst e \<noteq> key) reg)"

definition register_translator ::
    "string \<Rightarrow> string \<Rightarrow> int \<Rightarrow> int \<Rightarrow> operator_translator option \<Rightarrow> operator_registry \<Rightarrow> operator_registry result" where
  "register_translator domain op_name first_opset last_opset translator reg =
     (if op_name = [] \<or> translator = None \<or> first_opset \<le> 0 \<or> last_opset < first_opset
      then Inl (Invalid_argument ''ONNX translator requires an operator, callable, and valid opset range'')
      else let key = (canonical_domain domain, op_name); versions = versions_of reg key in
        if \<exists>v \<in> set versions. overlaps first_opset last_opset v then Inl (Invalid_argument ''ONNX operator translator opset ranges overlap'')
        else Inr (store_versions key (sort_key vt_first_opset (versions @
               [\<lparr>vt_first_opset = first_opset, vt_last_opset = last_opset, vt_translate = the translator\<rparr>])) reg))"

definition mk_operator_registry :: "operator_registry result" where
  "mk_operator_registry =
     foldE (\<lambda>(op_name, first_opset, translator). register_translator [] op_name first_opset int64_max (Some translator))
       [(''Add'', 13, direct Op_Add), (''Sub'', 13, direct Op_Subtract), (''Mul'', 13, direct Op_Multiply),
        (''MatMul'', 13, direct Op_MatMul), (''Gemm'', 13, direct Op_Gemm), (''Relu'', 13, direct Op_ReLU),
        (''Tanh'', 13, direct Op_Tanh), (''Softmax'', 13, direct Op_Softmax),
        (''LayerNormalization'', 17, translate_layer_norm), (''Gelu'', 20, translate_gelu)] []"

definition in_range :: "int \<Rightarrow> versioned_translator \<Rightarrow> bool" where
  "in_range opset v \<longleftrightarrow> vt_first_opset v \<le> opset \<and> opset \<le> vt_last_opset v"

definition supports :: "operator_registry \<Rightarrow> string \<Rightarrow> string \<Rightarrow> int \<Rightarrow> bool" where
  "supports reg domain op_name opset \<longleftrightarrow> 0 < opset \<and> (\<exists>v \<in> set (versions_of reg (canonical_domain domain, op_name)). in_range opset v)"

definition int_string :: "int \<Rightarrow> string" where
  "int_string i = (if i < 0 then CHR ''-'' # nat_string (nat (- i)) else nat_string (nat i))"

definition unsupported_operator :: "node_proto \<Rightarrow> int \<Rightarrow> exn" where
  "unsupported_operator source opset = Invalid_argument (''unsupported ONNX operator or opset: domain='' @ [CHR 0x27] @
     canonical_domain (np_domain source) @ [CHR 0x27] @ '', op='' @ [CHR 0x27] @ np_op_type source @ [CHR 0x27] @ '', opset='' @ int_string opset)"

definition translate_operator :: "operator_registry \<Rightarrow> node_proto \<Rightarrow> int \<Rightarrow> translated_operator result" where
  "translate_operator reg source opset =
     (case List.find (in_range opset) (versions_of reg (canonical_domain (np_domain source), np_op_type source)) of
        None \<Rightarrow> Inl (unsupported_operator source opset)
      | Some v \<Rightarrow> vt_translate v source)"

record registration =
  rg_domain :: string
  rg_op_type :: string
  rg_first_opset :: int
  rg_last_opset :: int

definition registrations :: "operator_registry \<Rightarrow> registration list" where
  "registrations reg = concat (map (\<lambda>((domain, op_name), vs).
     map (\<lambda>v. \<lparr>rg_domain = domain, rg_op_type = op_name, rg_first_opset = vt_first_opset v, rg_last_opset = vt_last_opset v\<rparr>) vs) reg)"

section \<open>The contract of the table\<close>

definition versions_ok :: "versioned_translator list \<Rightarrow> bool" where
  "versions_ok vs \<longleftrightarrow> sorted_wrt (\<lambda>a b. vt_last_opset a < vt_first_opset b) vs \<and>
     (\<forall>v \<in> set vs. 0 < vt_first_opset v \<and> vt_first_opset v \<le> vt_last_opset v)"

definition registry_ok :: "operator_registry \<Rightarrow> bool" where
  "registry_ok reg \<longleftrightarrow> distinct (map fst reg) \<and> sorted (map fst reg) \<and> (\<forall>key. versions_ok (versions_of reg key))"

text \<open>Registries as the program builds them.\<close>

inductive registry_built :: "operator_registry \<Rightarrow> bool" where
  empty: "registry_built []"
| register: "registry_built reg \<Longrightarrow> register_translator domain op_name first_opset last_opset translator reg = Inr reg' \<Longrightarrow> registry_built reg'"

lemma map_of_insort: "k \<notin> fst ` set xs \<Longrightarrow> map_of (insort_key fst (k, v) xs) = (map_of xs)(k \<mapsto> v)"
  by (induction xs) (auto simp: fun_eq_iff)

lemma versions_of_store:
  "versions_of (store_versions key vs reg) k = (if k = key then vs else versions_of reg k)"
proof -
  have "map_of (filter (\<lambda>e. fst e \<noteq> key) reg) k = map_of reg k" if "k \<noteq> key" using that by (induction reg) auto
  moreover have "key \<notin> fst ` set (filter (\<lambda>e. fst e \<noteq> key) reg)" by auto
  ultimately show ?thesis by (simp add: versions_of_def store_versions_def map_of_insort)
qed

lemma store_keys: "map fst (store_versions key vs reg) = insort key (filter (\<lambda>k. k \<noteq> key) (map fst reg))"
proof -
  have "map fst (insort_key fst (key, vs) xs) = insort key (map fst xs)" for xs :: operator_registry by (induction xs) auto
  moreover have "map fst (filter (\<lambda>e. fst e \<noteq> key) reg) = filter (\<lambda>k. k \<noteq> key) (map fst reg)" by (induction reg) auto
  ultimately show ?thesis by (simp add: store_versions_def)
qed

lemma sorted_filter_neq: "sorted ks \<Longrightarrow> sorted (filter (\<lambda>k. k \<noteq> key) ks)" for ks :: "(string \<times> string) list"
  by (induction ks) auto

lemma find_version:
  assumes "versions_ok vs"
  shows "List.find (in_range opset) vs = Some v \<longleftrightarrow> v \<in> set vs \<and> in_range opset v"
  using assms
proof (induction vs)
  case (Cons a vs)
  then have "\<not> (in_range opset a \<and> in_range opset v)" if "v \<in> set vs" using that by (auto simp: versions_ok_def in_range_def)
  moreover have "versions_ok vs" using Cons.prems by (simp add: versions_ok_def)
  ultimately show ?case using Cons.IH by auto
qed simp

lemma insort_versions:
  assumes "versions_ok vs" and "0 < vt_first_opset v" and "vt_first_opset v \<le> vt_last_opset v"
    and "\<forall>w \<in> set vs. \<not> overlaps (vt_first_opset v) (vt_last_opset v) w"
  shows "versions_ok (insort_key vt_first_opset v vs)" and "sort_key vt_first_opset (vs @ [v]) = insort_key vt_first_opset v vs"
proof -
  show ok: "versions_ok (insort_key vt_first_opset v vs)"
    using assms
  proof (induction vs)
    case (Cons a vs)
    have vs: "versions_ok vs" using Cons.prems(1) by (simp add: versions_ok_def)
    have "\<forall>w \<in> set vs. vt_last_opset a < vt_first_opset w" using Cons.prems(1) by (simp add: versions_ok_def)
    then show ?case using Cons.IH[OF vs] Cons.prems by (auto simp: versions_ok_def overlaps_def set_insort_key)
  qed (simp add: versions_ok_def)
  have m: "sorted_wrt (\<lambda>a b. vt_first_opset a < vt_first_opset b) ws" if "versions_ok ws" for ws
    using that by (induction ws) (force simp: versions_ok_def)+
  have d: "distinct (map vt_first_opset (insort_key vt_first_opset v vs))"
    using m[OF ok] strict_sorted_iff[of "map vt_first_opset (insort_key vt_first_opset v vs)"] by (simp add: sorted_wrt_map)
  show "sort_key vt_first_opset (vs @ [v]) = insort_key vt_first_opset v vs"
  proof (rule sort_key_inj_key_eq)
    show "mset (vs @ [v]) = mset (insort_key vt_first_opset v vs)" by simp
    show "inj_on vt_first_opset (set (vs @ [v]))" using d by (simp add: distinct_map set_insort_key)
    show "sorted (map vt_first_opset (insort_key vt_first_opset v vs))"
      using m[OF ok] strict_sorted_iff[of "map vt_first_opset (insort_key vt_first_opset v vs)"] by (simp add: sorted_wrt_map)
  qed
qed

lemma register_Inr:
  assumes ok: "registry_ok reg" and r: "register_translator domain op_name first_opset last_opset translator reg = Inr reg'"
  obtains t where "translator = Some t" "op_name \<noteq> []" "0 < first_opset" "first_opset \<le> last_opset"
    "\<forall>v \<in> set (versions_of reg (canonical_domain domain, op_name)). \<not> overlaps first_opset last_opset v"
    "reg' = store_versions (canonical_domain domain, op_name)
       (insort_key vt_first_opset \<lparr>vt_first_opset = first_opset, vt_last_opset = last_opset, vt_translate = t\<rparr>
          (versions_of reg (canonical_domain domain, op_name))) reg" "registry_ok reg'"
proof -
  let ?key = "(canonical_domain domain, op_name)"
  obtain t where t: "translator = Some t" "op_name \<noteq> []" "0 < first_opset" "first_opset \<le> last_opset"
    and free: "\<forall>v \<in> set (versions_of reg ?key). \<not> overlaps first_opset last_opset v"
    and reg': "reg' = store_versions ?key (sort_key vt_first_opset (versions_of reg ?key @
       [\<lparr>vt_first_opset = first_opset, vt_last_opset = last_opset, vt_translate = t\<rparr>])) reg"
    using r by (cases translator) (auto simp: register_translator_def Let_def split: if_splits)
  let ?v = "\<lparr>vt_first_opset = first_opset, vt_last_opset = last_opset, vt_translate = t\<rparr>"
  have vs: "versions_ok (versions_of reg ?key)" using ok by (simp add: registry_ok_def)
  note I = insort_versions[OF vs, of ?v, simplified, OF t(3,4) free]
  have s: "reg' = store_versions ?key (insort_key vt_first_opset ?v (versions_of reg ?key)) reg" using reg' I(2) by simp
  have "registry_ok reg'"
    using ok I(1) unfolding registry_ok_def s versions_of_store store_keys
    by (auto simp: distinct_insort sorted_insort sorted_filter_neq)
  then show ?thesis using that[OF t free s] by blast
qed

lemma registry_built_ok: "registry_built reg \<Longrightarrow> registry_ok reg"
proof (induction rule: registry_built.induct)
  case empty
  then show ?case by (simp add: registry_ok_def versions_of_def versions_ok_def)
next
  case (register reg domain op_name first_opset last_opset translator reg')
  then show ?case using register_Inr by metis
qed

lemma mk_registry_built: "\<exists>reg. mk_operator_registry = Inr reg \<and> registry_built reg"
proof -
  have ok: "\<exists>reg. mk_operator_registry = Inr reg"
    by (simp add: mk_operator_registry_def register_translator_def versions_of_def store_versions_def canonical_domain_def
        Let_def int64_max_def)
  have "foldE (\<lambda>(op_name, first_opset, translator). register_translator [] op_name first_opset int64_max (Some translator)) xs r = Inr reg \<Longrightarrow>
      registry_built r \<Longrightarrow> registry_built reg" for xs r reg
    by (induction xs arbitrary: r) (auto intro: registry_built.register)
  then show ?thesis using ok registry_built.empty unfolding mk_operator_registry_def by blast
qed

lemma supports_iff:
  assumes "registry_ok reg"
  shows "supports reg domain op_name opset \<longleftrightarrow> (\<exists>v \<in> set (versions_of reg (canonical_domain domain, op_name)). in_range opset v)"
  using assms unfolding supports_def registry_ok_def versions_ok_def in_range_def by fastforce

text \<open>
  C13: the registry is a partial function from versioned operators to translators. On every registry built by
  registrations, a new registration succeeds exactly when it names an operator, has a translator and a non-empty positive
  range, and none of the versions in its range is supported yet; afterwards its translator answers on its range, and
  everything else is translated as before.
\<close>

theorem registry_contract:
  assumes "registry_built reg"
  shows "case register_translator domain op_name first_opset last_opset translator reg of
     Inl e \<Rightarrow> op_name = [] \<or> translator = None \<or> first_opset \<le> 0 \<or> last_opset < first_opset \<or>
       (\<exists>k. first_opset \<le> k \<and> k \<le> last_opset \<and> supports reg domain op_name k)
   | Inr reg' \<Rightarrow> op_name \<noteq> [] \<and> 0 < first_opset \<and> first_opset \<le> last_opset \<and>
       (\<forall>k. first_opset \<le> k \<and> k \<le> last_opset \<longrightarrow> \<not> supports reg domain op_name k) \<and>
       (\<forall>source k. translate_operator reg' source k =
          (if canonical_domain (np_domain source) = canonical_domain domain \<and> np_op_type source = op_name \<and> first_opset \<le> k \<and> k \<le> last_opset
           then the translator source else translate_operator reg source k))"
proof (cases "register_translator domain op_name first_opset last_opset translator reg")
  case (Inl e)
  have ok: "registry_ok reg" by (rule registry_built_ok[OF assms])
  have "\<exists>k. first_opset \<le> k \<and> k \<le> last_opset \<and> supports reg domain op_name k"
    if v: "v \<in> set (versions_of reg (canonical_domain domain, op_name))" "overlaps first_opset last_opset v" "first_opset \<le> last_opset" for v
  proof (intro exI conjI)
    have "vt_first_opset v \<le> vt_last_opset v" using ok v(1) unfolding registry_ok_def versions_ok_def by blast
    then have "in_range (max first_opset (vt_first_opset v)) v" using v(2) by (auto simp: overlaps_def in_range_def)
    then show "supports reg domain op_name (max first_opset (vt_first_opset v))" using supports_iff[OF ok] v(1) by blast
  qed (use v(2,3) in \<open>auto simp: overlaps_def\<close>)
  then show ?thesis using Inl by (auto simp: register_translator_def Let_def split: if_splits)
next
  case (Inr reg')
  have ok: "registry_ok reg" by (rule registry_built_ok[OF assms])
  let ?key = "(canonical_domain domain, op_name)"
  from ok Inr obtain t where t: "translator = Some t" "op_name \<noteq> []" "0 < first_opset" "first_opset \<le> last_opset"
    and free: "\<forall>v \<in> set (versions_of reg ?key). \<not> overlaps first_opset last_opset v"
    and reg': "reg' = store_versions ?key
       (insort_key vt_first_opset \<lparr>vt_first_opset = first_opset, vt_last_opset = last_opset, vt_translate = t\<rparr> (versions_of reg ?key)) reg"
    and ok': "registry_ok reg'" by (rule register_Inr)
  let ?v = "\<lparr>vt_first_opset = first_opset, vt_last_opset = last_opset, vt_translate = t\<rparr>"
  have new: "set (versions_of reg' ?key) = insert ?v (set (versions_of reg ?key))" "\<And>k. k \<noteq> ?key \<Longrightarrow> versions_of reg' k = versions_of reg k"
    by (simp_all add: reg' versions_of_store set_insort_key)
  have vs: "versions_ok (versions_of reg ?key)" "versions_ok (versions_of reg' ?key)" using ok ok' by (simp_all add: registry_ok_def)
  have f: "List.find (in_range k) (versions_of reg' ?key) = (if first_opset \<le> k \<and> k \<le> last_opset then Some ?v else List.find (in_range k) (versions_of reg ?key))" for k
  proof (cases "first_opset \<le> k \<and> k \<le> last_opset")
    case True
    then show ?thesis using find_version[OF vs(2)] by (simp add: new(1) in_range_def)
  next
    case False
    then have "List.find (in_range k) (versions_of reg' ?key) = Some v \<longleftrightarrow> List.find (in_range k) (versions_of reg ?key) = Some v" for v
      unfolding find_version[OF vs(1)] find_version[OF vs(2)] new(1) by (auto simp: in_range_def)
    then have "List.find (in_range k) (versions_of reg' ?key) = List.find (in_range k) (versions_of reg ?key)"
      by (metis option.exhaust)
    then show ?thesis by (simp only: False if_False)
  qed
  have "\<forall>k. first_opset \<le> k \<and> k \<le> last_opset \<longrightarrow> \<not> supports reg domain op_name k"
    using free by (auto simp: supports_def in_range_def overlaps_def)
  moreover have "translate_operator reg' source k =
      (if canonical_domain (np_domain source) = canonical_domain domain \<and> np_op_type source = op_name \<and> first_opset \<le> k \<and> k \<le> last_opset
       then the translator source else translate_operator reg source k)" for source k
    by (cases "(canonical_domain (np_domain source), np_op_type source) = ?key") (auto simp: translate_operator_def f new(2) t(1))
  ultimately show ?thesis using Inr t by simp
qed

theorem registry_contract_witness:
  "\<exists>reg. register_translator ''ai.onnx'' ''Relu'' 13 20 (Some (direct Op_ReLU)) [] = Inr reg \<and>
     translate_operator reg (empty_node_proto\<lparr>np_op_type := ''Relu''\<rparr>) 14 = Inr (Op_ReLU, [])"
  using registry_contract[OF registry_built.empty, where domain = "''ai.onnx''" and op_name = "''Relu''" and first_opset = 13 and
      last_opset = 20 and translator = "Some (direct Op_ReLU)"]
  by (simp add: register_translator_def versions_of_def canonical_domain_def empty_node_proto_def direct_def Let_def)

end
