(* ===== verification/Graph_Order.thy ===== *)
theory Graph_Order
  imports Graph
begin

text \<open>
  Correctness of the sorting loop and of the graph analysis. The loop is first verified over an
  abstract dependency relation, then connected to the tables the validation pass builds.
\<close>

section \<open>Kahn's loop over a dependency relation\<close>

definition consumer_table :: "(nat \<Rightarrow> nat set) \<Rightarrow> nat \<Rightarrow> nat list list" where
  "consumer_table deps n = map (\<lambda>d. filter (\<lambda>j. d \<in> deps j) [0..<n]) [0..<n]"

definition kahn_inv :: "(nat \<Rightarrow> nat set) \<Rightarrow> nat \<Rightarrow> nat list \<Rightarrow> nat list \<Rightarrow> nat list \<Rightarrow> bool" where
  "kahn_inv deps n indegree ready order \<longleftrightarrow>
     distinct (order @ ready) \<and> sorted ready \<and> length indegree = n \<and> set (order @ ready) \<subseteq> {..<n} \<and>
     (\<forall>v < n. indegree ! v = card (deps v - set order)) \<and>
     (\<forall>v < n. v \<in> set (order @ ready) \<longleftrightarrow> deps v \<subseteq> set order) \<and>
     (\<forall>i < length order. deps (order ! i) \<subseteq> set (take i order))"

lemma release_step: "0 < indegree ! c \<Longrightarrow> release_consumer (indegree, ready) c =
    (indegree[c := indegree ! c - 1], if indegree ! c - 1 = 0 then insort c ready else ready)"
  by (simp add: release_consumer_def Let_def)

lemma card_one_mem: "r \<in> A \<Longrightarrow> card A = 1 \<longleftrightarrow> A = {r}"
  by (auto simp: card_1_singleton_iff)

lemma release_consumers:
  "distinct cs \<Longrightarrow> \<forall>c \<in> set cs. c < length indegree \<and> 0 < indegree ! c \<Longrightarrow> sorted ready \<Longrightarrow>
   foldl release_consumer (indegree, ready) cs = (indegree', ready') \<Longrightarrow>
   length indegree' = length indegree \<and> sorted ready' \<and>
   (\<forall>v < length indegree. indegree' ! v = (if v \<in> set cs then indegree ! v - 1 else indegree ! v)) \<and>
   mset ready' = mset ready + mset (filter (\<lambda>c. indegree ! c = 1) cs)"
proof (induction cs arbitrary: indegree ready)
  case (Cons c cs)
  let ?ind = "indegree[c := indegree ! c - 1]" and ?rdy = "if indegree ! c - 1 = 0 then insort c ready else ready"
  have c: "c < length indegree" "0 < indegree ! c" "c \<notin> set cs" using Cons.prems(1,2) by auto
  have step: "foldl release_consumer (?ind, ?rdy) cs = (indegree', ready')"
    using Cons.prems(4) unfolding foldl_Cons release_step[OF c(2)] .
  have "x < length ?ind \<and> 0 < ?ind ! x" if "x \<in> set cs" for x
  proof -
    have "c \<noteq> x" using that c(3) by auto
    then show ?thesis using Cons.prems(2) that by simp
  qed
  then have "\<forall>x \<in> set cs. x < length ?ind \<and> 0 < ?ind ! x" by blast
  from Cons.IH[OF _ this _ step] have IH: "length indegree' = length ?ind \<and> sorted ready' \<and>
      (\<forall>v < length ?ind. indegree' ! v = (if v \<in> set cs then ?ind ! v - 1 else ?ind ! v)) \<and>
      mset ready' = mset ?rdy + mset (filter (\<lambda>x. ?ind ! x = 1) cs)"
    using Cons.prems(1,3) by (simp add: sorted_insort)
  have "filter (\<lambda>x. ?ind ! x = 1) cs = filter (\<lambda>x. indegree ! x = 1) cs"
  proof (rule filter_cong)
    fix x assume "x \<in> set cs"
    then have "c \<noteq> x" using c(3) by auto
    then show "(?ind ! x = 1) = (indegree ! x = 1)" by simp
  qed simp
  then have "mset ready' = mset ready + mset (filter (\<lambda>x. indegree ! x = 1) (c # cs))" using IH c(2) by auto
  moreover have "\<forall>v < length indegree. indegree' ! v = (if v \<in> set (c # cs) then indegree ! v - 1 else indegree ! v)"
    using IH c by (auto simp: nth_list_update)
  ultimately show ?case using IH by simp
qed simp

lemma kahn_step:
  assumes fin: "\<And>v. v < n \<Longrightarrow> finite (deps v)" and sub: "\<And>v. v < n \<Longrightarrow> deps v \<subseteq> {..<n}"
    and inv: "kahn_inv deps n indegree (r # ready) order"
    and rel: "foldl release_consumer (indegree, ready) (consumer_table deps n ! r) = (indegree', ready')"
  shows "kahn_inv deps n indegree' ready' (order @ [r])"
proof -
  note I = inv[unfolded kahn_inv_def]
  have r: "r < n" "r \<notin> set order" "r \<notin> set ready" using I by auto
  have cs: "consumer_table deps n ! r = filter (\<lambda>j. r \<in> deps j) [0..<n]" using r(1) by (simp add: consumer_table_def)
  have deg: "indegree ! v = card (deps v - set order)" if "v < n" for v using I that by blast
  have pos: "0 < indegree ! v" if "v < n" "r \<in> deps v" for v
    using deg[OF that(1)] fin[OF that(1)] that(2) r(2) by (auto simp: card_gt_0_iff)
  have R: "length indegree' = n \<and> sorted ready' \<and>
      (\<forall>v < n. indegree' ! v = (if r \<in> deps v then indegree ! v - 1 else indegree ! v)) \<and>
      mset ready' = mset ready + mset (filter (\<lambda>c. indegree ! c = 1) (filter (\<lambda>j. r \<in> deps j) [0..<n]))"
    using release_consumers[OF _ _ _ rel[unfolded cs]] I pos by auto
  have deg': "indegree' ! v = card (deps v - set (order @ [r]))" if v: "v < n" for v
  proof (cases "r \<in> deps v")
    case True
    have "deps v - set (order @ [r]) = deps v - set order - {r}" by auto
    then show ?thesis using R v True deg[OF v] fin[OF v] r(2) by simp
  next
    case False
    then have "deps v - set (order @ [r]) = deps v - set order" by auto
    then show ?thesis using R v False deg[OF v] by simp
  qed
  have one: "indegree ! v = 1 \<and> r \<in> deps v \<longleftrightarrow> r \<in> deps v \<and> deps v \<subseteq> set (order @ [r])" if v: "v < n" for v
  proof -
    have "card (deps v - set order) = 1 \<longleftrightarrow> deps v - set order = {r}" if "r \<in> deps v"
      using that r(2) by (intro card_one_mem) simp
    then show ?thesis using deg[OF v] r(2) by auto
  qed
  have ready_set: "set ready' = set ready \<union> {v. v < n \<and> indegree ! v = 1 \<and> r \<in> deps v}"
  proof -
    have "mset ready' = mset ready + mset (filter (\<lambda>c. indegree ! c = 1) (filter (\<lambda>j. r \<in> deps j) [0..<n]))" using R by blast
    from arg_cong[OF this, of set_mset]
    have "set ready' = set ready \<union> set (filter (\<lambda>c. indegree ! c = 1) (filter (\<lambda>j. r \<in> deps j) [0..<n]))"
      by (simp only: set_mset_union set_mset_mset)
    then show ?thesis by auto
  qed
  have not_ready: "v \<notin> set (order @ r # ready)" if "v < n" "r \<in> deps v" for v
  proof
    assume "v \<in> set (order @ r # ready)"
    then have "deps v \<subseteq> set order" using I that(1) by blast
    then show False using that(2) r(2) by blast
  qed
  have "distinct ready'"
  proof -
    have "mset ready' = mset (ready @ filter (\<lambda>c. indegree ! c = 1) (filter (\<lambda>j. r \<in> deps j) [0..<n]))" using R by simp
    moreover have "distinct (ready @ filter (\<lambda>c. indegree ! c = 1) (filter (\<lambda>j. r \<in> deps j) [0..<n]))"
      using I not_ready by (auto simp: distinct_append)
    ultimately show ?thesis by (metis mset_eq_imp_distinct_iff)
  qed
  moreover have "set (order @ [r]) \<inter> set ready' = {}" using I not_ready by (auto simp: ready_set)
  ultimately have dist: "distinct ((order @ [r]) @ ready')" using I by auto
  have mem: "v \<in> set ((order @ [r]) @ ready') \<longleftrightarrow> deps v \<subseteq> set (order @ [r])" if v: "v < n" for v
  proof -
    have "v \<in> set (order @ r # ready) \<longleftrightarrow> deps v \<subseteq> set order" using I v by blast
    moreover have "deps v \<subseteq> set (order @ [r]) \<longleftrightarrow> deps v \<subseteq> set order \<or> r \<in> deps v \<and> deps v \<subseteq> set (order @ [r])" by auto
    ultimately show ?thesis using one[OF v] v by (auto simp: ready_set)
  qed
  have "r \<in> set (order @ r # ready)" by simp
  then have "deps r \<subseteq> set order" using I r(1) by blast
  then have closed: "\<forall>i < length (order @ [r]). deps ((order @ [r]) ! i) \<subseteq> set (take i (order @ [r]))"
    using I by (auto simp: nth_append less_Suc_eq)
  have "set ((order @ [r]) @ ready') \<subseteq> {..<n}" using I r(1) by (auto simp: ready_set)
  then show ?thesis using R dist deg' mem closed by (simp add: kahn_inv_def)
qed

lemma kahn_correct:
  assumes fin: "\<And>v. v < n \<Longrightarrow> finite (deps v)" and sub: "\<And>v. v < n \<Longrightarrow> deps v \<subseteq> {..<n}"
  shows "kahn_inv deps n indegree ready order \<Longrightarrow> n - length order \<le> fuel \<Longrightarrow>
    \<exists>result indegree'. kahn fuel (consumer_table deps n) indegree ready order = Some result \<and>
      kahn_inv deps n indegree' [] result \<and> (\<exists>rest. result = order @ rest)"
proof (induction fuel arbitrary: indegree ready order)
  case 0
  have "length (order @ ready) \<le> n"
    using 0(1) card_mono[of "{..<n}" "set (order @ ready)"] by (auto simp: kahn_inv_def distinct_card simp flip: set_append)
  then have "length ready = 0" using 0(2) unfolding length_append by linarith
  then have "ready = []" by simp
  then show ?case using 0(1) by auto
next
  case (Suc fuel)
  show ?case
  proof (cases ready)
    case Nil
    then show ?thesis using Suc.prems(1) by auto
  next
    case (Cons r rs)
    obtain indegree' ready' where rel: "foldl release_consumer (indegree, rs) (consumer_table deps n ! r) = (indegree', ready')"
      by fastforce
    have "kahn_inv deps n indegree' ready' (order @ [r])" by (rule kahn_step[OF fin sub _ rel]) (use Suc.prems(1) Cons in simp_all)
    moreover have "n - length (order @ [r]) \<le> fuel" using Suc.prems(2) unfolding length_append list.size by linarith
    ultimately obtain result indegree'' rest where
      "kahn fuel (consumer_table deps n) indegree' ready' (order @ [r]) = Some result" "kahn_inv deps n indegree'' [] result"
      "result = (order @ [r]) @ rest" using Suc.IH by blast
    then show ?thesis using Cons rel by auto
  qed
qed

text \<open>When every dependency has a smaller number the loop returns the numbers in order.\<close>

lemma kahn_creation_order:
  assumes fin: "\<And>v. v < n \<Longrightarrow> finite (deps v)" and low: "\<And>v. v < n \<Longrightarrow> deps v \<subseteq> {..<v}"
  shows "kahn_inv deps n indegree ready [0..<k] \<Longrightarrow> k \<le> n \<Longrightarrow> n - k \<le> fuel \<Longrightarrow>
    kahn fuel (consumer_table deps n) indegree ready [0..<k] = Some [0..<n]"
proof (induction fuel arbitrary: indegree ready k)
  case 0
  then have "k = n" by simp
  have "ready = []" using 0(1) unfolding \<open>k = n\<close> kahn_inv_def by (cases ready) auto
  then show ?case using \<open>k = n\<close> by simp
next
  case (Suc fuel)
  note I = Suc.prems(1)[unfolded kahn_inv_def]
  show ?case
  proof (cases "k = n")
    case True
    have "ready = []" using I unfolding True by (cases ready) auto
    then show ?thesis using True by simp
  next
    case False
    then have k: "k < n" using Suc.prems(2) by simp
    have "deps k \<subseteq> set [0..<k]" using low[OF k] by auto
    then have "k \<in> set ready" using I k by auto
    moreover have "\<forall>x \<in> set ready. k \<le> x" using I by (auto simp: not_less[symmetric])
    ultimately obtain rs where rs: "ready = k # rs" using I by (cases ready) force+
    obtain indegree' ready' where rel: "foldl release_consumer (indegree, rs) (consumer_table deps n ! k) = (indegree', ready')"
      by fastforce
    have "deps v \<subseteq> {..<n}" if "v < n" for v using low[OF that] that by auto
    from kahn_step[OF fin this _ rel] Suc.prems(1) rs have "kahn_inv deps n indegree' ready' [0..<Suc k]" by simp
    from Suc.IH[OF this] k Suc.prems(3) show ?thesis using rs rel by simp
  qed
qed

lemma kahn_inv_start:
  assumes "\<And>v. v < n \<Longrightarrow> finite (deps v)"
  shows "kahn_inv deps n (map (\<lambda>v. card (deps v)) [0..<n]) (filter (\<lambda>v. map (\<lambda>v. card (deps v)) [0..<n] ! v = 0) [0..<n]) []"
  using assms by (auto simp: kahn_inv_def sorted_wrt_filter)

section \<open>What the validation pass builds\<close>

definition node_deps :: "graph \<Rightarrow> nat \<Rightarrow> nat set" where
  "node_deps g k = set (dependencies g (g_nodes g ! k))"

lemma dependencies_facts [simp]: "distinct (dependencies g n)" "finite (node_deps g k)"
  "length (dependencies g (g_nodes g ! k)) = card (node_deps g k)"
  by (simp_all add: dependencies_def node_deps_def)

lemma set_map_filter: "set (List.map_filter f xs) = {y. \<exists>x \<in> set xs. f x = Some y}"
  by (induction xs) (auto simp: List.map_filter_def split: option.splits)

lemma node_deps_iff: "p \<in> node_deps g k \<longleftrightarrow> (\<exists>i \<in> set (nd_inputs (g_nodes g ! k)). gv_producer (g_values g ! i) = Some p)"
proof -
  have "node_deps g k = set (List.map_filter (\<lambda>i. gv_producer (g_values g ! i)) (nd_inputs (g_nodes g ! k)))"
    by (simp add: node_deps_def dependencies_def)
  then show ?thesis by (simp add: set_map_filter)
qed

lemma foldE_upt_Suc: "foldE f [0..<Suc k] s = bindE (foldE f [0..<k] s) (f k)"
proof (cases "foldE f [0..<k] s")
  case (Inr t)
  then show ?thesis by (cases "f k t") (simp_all add: foldE_append)
qed (simp add: foldE_append)

lemma add_consumers_Inr:
  "foldE (add_consumer n j) ds cs = Inr cs' \<Longrightarrow> distinct ds \<Longrightarrow> length cs = n \<Longrightarrow>
   (\<forall>d \<in> set ds. d < n) \<and> length cs' = n \<and> (\<forall>d < n. cs' ! d = (if d \<in> set ds then cs ! d @ [j] else cs ! d))"
proof (induction ds arbitrary: cs)
  case (Cons d ds)
  then obtain t where t: "add_consumer n j d cs = Inr t" "foldE (add_consumer n j) ds t = Inr cs'" by auto
  then have d: "d < n" "foldE (add_consumer n j) ds (cs[d := cs ! d @ [j]]) = Inr cs'"
    by (auto simp: add_consumer_def[of n j d] split: if_splits)
  from Cons.IH[OF d(2)] Cons.prems(2,3) show ?case using d(1) by (auto simp: nth_list_update)
qed simp

lemma check_node_Inr:
  assumes "check_node g k s = Inr s'"
  shows "nd_id (g_nodes g ! k) = k" "\<forall>i \<in> set (nd_inputs (g_nodes g ! k)). i < length (g_values g)"
    "np_indegree s' = (np_indegree s)[k := card (node_deps g k)]"
    "foldE (add_consumer (length (g_nodes g)) k) (dependencies g (g_nodes g ! k)) (np_consumers s) = Inr (np_consumers s')"
proof -
  obtain specs where specs: "mapE (node_spec g) (nd_inputs (g_nodes g ! k)) = Inr specs"
    using assms by (auto simp: check_node_def Let_def split: if_splits)
  show "\<forall>i \<in> set (nd_inputs (g_nodes g ! k)). i < length (g_values g)"
  proof
    fix i assume "i \<in> set (nd_inputs (g_nodes g ! k))"
    then obtain j where "j < length (nd_inputs (g_nodes g ! k))" "i = nd_inputs (g_nodes g ! k) ! j" by (auto simp: in_set_conv_nth)
    then show "i < length (g_values g)" using mapE_nth[OF specs, of j] by (auto simp: node_spec_def split: if_splits)
  qed
qed (use assms in \<open>auto simp: check_node_def Let_def split: if_splits\<close>)

definition pass_inv :: "graph \<Rightarrow> nat \<Rightarrow> node_pass \<Rightarrow> bool" where
  "pass_inv g k s \<longleftrightarrow> (let n = length (g_nodes g) in
     length (np_indegree s) = n \<and> length (np_consumers s) = n \<and>
     (\<forall>j < n. np_indegree s ! j = (if j < k then card (node_deps g j) else 0)) \<and>
     (\<forall>d < n. np_consumers s ! d = filter (\<lambda>j. d \<in> node_deps g j) [0..<k]) \<and>
     (\<forall>j < k. nd_id (g_nodes g ! j) = j \<and> node_deps g j \<subseteq> {..<n} \<and> (\<forall>i \<in> set (nd_inputs (g_nodes g ! j)). i < length (g_values g))))"

lemma pass_inv_fold:
  "foldE (check_node g) [0..<k] s0 = Inr s \<Longrightarrow> k \<le> length (g_nodes g) \<Longrightarrow> pass_inv g 0 s0 \<Longrightarrow> pass_inv g k s"
proof (induction k arbitrary: s)
  case (Suc k)
  from Suc.prems(1) obtain t where t: "foldE (check_node g) [0..<k] s0 = Inr t" "check_node g k t = Inr s"
    unfolding foldE_upt_Suc by auto
  have k: "k < length (g_nodes g)" using Suc.prems(2) by simp
  have I: "pass_inv g k t" using Suc.IH[OF t(1)] Suc.prems(2,3) by simp
  note C = check_node_Inr[OF t(2)]
  note A = add_consumers_Inr[OF C(4) dependencies_facts(1)]
  show ?case using I A C k by (auto simp: pass_inv_def Let_def nth_list_update less_Suc_eq node_deps_def)
qed simp

lemma check_tables_Inr:
  assumes "check_tables g = Inr s"
  shows "pass_inv g (length (g_nodes g)) s" "g_outputs g \<noteq> []" "length (g_constants g) = length (g_values g)"
proof -
  obtain names where f: "foldE (check_node g) [0..<length (g_nodes g)] \<lparr>np_names = names, np_indegree = replicate (length (g_nodes g)) 0,
      np_consumers = replicate (length (g_nodes g)) [], np_produced = replicate (length (g_values g)) False\<rparr> = Inr s"
    using assms by (auto simp: check_tables_def Let_def split: if_splits)
  show "pass_inv g (length (g_nodes g)) s" by (rule pass_inv_fold[OF f order_refl]) (simp add: pass_inv_def)
qed (use assms in \<open>auto simp: check_tables_def Let_def split: if_splits\<close>)

text \<open>After a successful pass the sort runs over the dependencies of the graph.\<close>

lemma kahn_on_tables:
  assumes "check_tables g = Inr s"
  defines "n \<equiv> length (g_nodes g)"
  shows "np_consumers s = consumer_table (node_deps g) n" "np_indegree s = map (\<lambda>v. card (node_deps g v)) [0..<n]"
    "\<And>v. v < n \<Longrightarrow> node_deps g v \<subseteq> {..<n}"
    "\<exists>order indegree. kahn n (np_consumers s) (np_indegree s) (filter (\<lambda>v. np_indegree s ! v = 0) [0..<n]) [] = Some order \<and>
       kahn_inv (node_deps g) n indegree [] order"
proof -
  note I = check_tables_Inr(1)[OF assms(1), folded n_def, unfolded pass_inv_def Let_def, folded n_def]
  show c: "np_consumers s = consumer_table (node_deps g) n"
    using I by (intro nth_equalityI) (simp_all add: consumer_table_def)
  show d: "np_indegree s = map (\<lambda>v. card (node_deps g v)) [0..<n]" using I by (intro nth_equalityI) simp_all
  show sub: "\<And>v. v < n \<Longrightarrow> node_deps g v \<subseteq> {..<n}" using I by blast
  show "\<exists>order indegree. kahn n (np_consumers s) (np_indegree s) (filter (\<lambda>v. np_indegree s ! v = 0) [0..<n]) [] = Some order \<and>
       kahn_inv (node_deps g) n indegree [] order"
    using kahn_correct[OF dependencies_facts(2) sub kahn_inv_start[OF dependencies_facts(2)], where fuel = n] unfolding c d by auto
qed

text \<open>A ranking of the nodes witnesses that the dependencies have no cycle.\<close>

definition ranking :: "graph \<Rightarrow> (nat \<Rightarrow> nat) \<Rightarrow> bool" where
  "ranking g rank \<longleftrightarrow> (\<forall>k < length (g_nodes g). \<forall>p \<in> node_deps g k. rank p < rank k)"

lemma takeWhile_position: "distinct xs \<Longrightarrow> k < length xs \<Longrightarrow> length (takeWhile (\<lambda>x. x \<noteq> xs ! k) xs) = k"
  by (induction xs arbitrary: k) (auto simp: nth_Cons split: nat.split)

lemma position_less:
  assumes "distinct xs" and "j < length xs" and "p \<in> set (take j xs)"
  shows "length (takeWhile (\<lambda>x. x \<noteq> p) xs) < length (takeWhile (\<lambda>x. x \<noteq> xs ! j) xs)"
proof -
  obtain i where i: "i < j" "xs ! i = p" using assms(2,3) by (auto simp: in_set_conv_nth)
  have pos: "length (takeWhile (\<lambda>x. x \<noteq> xs ! k) xs) = k" if "k < length xs" for k
    using takeWhile_position[OF assms(1)] that by simp
  show ?thesis using pos[OF assms(2)] pos[of i] i assms(2) by simp
qed

lemma topological_order_cases:
  assumes "check_tables g = Inr t"
  obtains order where "distinct order" "set order \<subseteq> {..<length (g_nodes g)}"
    "\<And>k p. k < length order \<Longrightarrow> p \<in> node_deps g (order ! k) \<Longrightarrow> p \<in> set (take k order)"
    "length order = length (g_nodes g) \<longleftrightarrow> (\<exists>rank. ranking g rank)"
    "topological_order g = (if length order = length (g_nodes g) then Inr order else Inl (Invalid_argument ''graph contains a cycle''))"
proof -
  let ?n = "length (g_nodes g)"
  note K = kahn_on_tables[OF assms]
  obtain order indegree where k: "kahn ?n (np_consumers t) (np_indegree t) (filter (\<lambda>v. np_indegree t ! v = 0) [0..<?n]) [] = Some order"
    and inv: "kahn_inv (node_deps g) ?n indegree [] order" using K(4) by blast
  have top: "topological_order g = (if length order = ?n then Inr order else Inl (Invalid_argument ''graph contains a cycle''))"
    using assms k by (simp add: topological_order_def)
  have sub: "set order \<subseteq> {..<?n}" and dist: "distinct order" using inv by (simp_all add: kahn_inv_def)
  have before: "p \<in> set (take k order)" if "k < length order" "p \<in> node_deps g (order ! k)" for k p
    using inv that unfolding kahn_inv_def by blast
  have "length order = ?n" if r: "ranking g rank" for rank
  proof -
    have "v < ?n \<Longrightarrow> v \<in> set order" for v
    proof (induction "rank v" arbitrary: v rule: less_induct)
      case less
      have "p \<in> set order" if "p \<in> node_deps g v" for p
      proof -
        have "rank p < rank v" using r less.prems that by (simp add: ranking_def)
        moreover have "p < ?n" using K(3)[OF less.prems] that by auto
        ultimately show ?thesis using less.hyps by blast
      qed
      then show ?case using inv less.prems by (auto simp: kahn_inv_def)
    qed
    then have "set order = {..<?n}" using sub by auto
    then show ?thesis using distinct_card[OF dist] by simp
  qed
  moreover have "ranking g (\<lambda>v. length (takeWhile (\<lambda>x. x \<noteq> v) order))" if "length order = ?n"
  proof -
    have all: "set order = {..<?n}" using sub dist that by (metis card_lessThan card_subset_eq distinct_card finite_lessThan)
    show ?thesis unfolding ranking_def
    proof (intro allI impI ballI)
      fix k p assume "k < ?n" and p: "p \<in> node_deps g k"
      then obtain j where j: "j < length order" "order ! j = k" using all by (metis in_set_conv_nth lessThan_iff)
      from position_less[OF dist j(1) before[OF j(1)]] p j(2)
      show "length (takeWhile (\<lambda>x. x \<noteq> p) order) < length (takeWhile (\<lambda>x. x \<noteq> k) order)" by simp
    qed
  qed
  ultimately have iff: "length order = ?n \<longleftrightarrow> (\<exists>rank. ranking g rank)" by blast
  have "topological_order g = (if length order = ?n then Inr order else Inl (Invalid_argument ''graph contains a cycle''))"
    using top by simp
  from that[OF dist sub before iff this] show ?thesis .
qed

end
