(* ===== verification/Graph_Build.thy ===== *)
theory Graph_Build
  imports Graph_Order
begin

text \<open>
  Graphs built through the public operations. Their tables always pass the validation, they have no
  cycle, and their topological order is the order in which the nodes were added.
\<close>

section \<open>The invariant of built graphs\<close>

definition value_ok :: "graph \<Rightarrow> nat \<Rightarrow> bool" where
  "value_ok g i \<longleftrightarrow> (let v = g_values g ! i; c = g_constants g ! i in
     gv_id v = i \<and> validate_spec (gv_spec v) = Inr () \<and>
     (case gv_kind v of
        Kind_input \<Rightarrow> i \<in> set (g_inputs g) \<and> gv_producer v = None \<and> c = None
      | Kind_constant \<Rightarrow> i \<notin> set (g_inputs g) \<and> gv_producer v = None \<and> (\<exists>t. c = Some t \<and> gv_spec v = tensor_spec_of t)
      | Kind_intermediate \<Rightarrow> i \<notin> set (g_inputs g) \<and> c = None \<and>
          (\<exists>p < length (g_nodes g). gv_producer v = Some p \<and> i \<in> set (nd_outputs (g_nodes g ! p)))))"

definition node_ok :: "graph \<Rightarrow> nat \<Rightarrow> bool" where
  "node_ok g k \<longleftrightarrow> (let n = g_nodes g ! k in
     nd_id n = k \<and>
     (\<forall>i \<in> set (nd_inputs n). i < length (g_values g) \<and> (\<forall>p. gv_producer (g_values g ! i) = Some p \<longrightarrow> p < k)) \<and>
     (\<exists>out v. infer_output_specs (nd_op n) (map (\<lambda>i. gv_spec (g_values g ! i)) (nd_inputs n)) (nd_attributes n) = Inr [out] \<and>
        nd_outputs n = [v] \<and> v < length (g_values g) \<and> gv_kind (g_values g ! v) = Kind_intermediate \<and>
        gv_producer (g_values g ! v) = Some k \<and> gv_spec (g_values g ! v) = out))"

definition graph_ok :: "graph \<Rightarrow> bool" where
  "graph_ok g \<longleftrightarrow> length (g_constants g) = length (g_values g) \<and>
     distinct (map gv_name (g_values g) @ map nd_name (g_nodes g)) \<and>
     distinct (g_inputs g) \<and> (\<forall>i \<in> set (g_inputs g). i < length (g_values g)) \<and>
     distinct (g_outputs g) \<and> (\<forall>i \<in> set (g_outputs g). i < length (g_values g)) \<and>
     (\<forall>i < length (g_values g). value_ok g i) \<and> (\<forall>k < length (g_nodes g). node_ok g k)"

inductive graph_run :: "graph \<Rightarrow> bool" where
  empty: "graph_run empty_graph"
| new_input: "graph_run g \<Longrightarrow> add_input name spec g = Inr (i, g') \<Longrightarrow> graph_run g'"
| new_constant: "graph_run g \<Longrightarrow> add_constant name t g = Inr (i, g') \<Longrightarrow> graph_run g'"
| new_node: "graph_run g \<Longrightarrow> add_node name op ins attrs g = Inr (i, g') \<Longrightarrow> graph_run g'"
| new_output: "graph_run g \<Longrightarrow> mark_output i g = Inr g' \<Longrightarrow> graph_run g'"

lemma require_unique_name_Inr:
  "require_unique_name g name = Inr u \<longleftrightarrow> name \<noteq> [] \<and> name \<notin> set (map gv_name (g_values g) @ map nd_name (g_nodes g))"
  by (auto simp: require_unique_name_def)

text \<open>Adding a value that no old table entry refers to keeps the old entries well formed.\<close>

definition extends :: "graph \<Rightarrow> graph \<Rightarrow> bool" where
  "extends g g' \<longleftrightarrow> length (g_values g) \<le> length (g_values g') \<and> length (g_nodes g) \<le> length (g_nodes g') \<and>
     (\<forall>i < length (g_values g). g_values g' ! i = g_values g ! i \<and> g_constants g' ! i = g_constants g ! i \<and>
        (i \<in> set (g_inputs g') \<longleftrightarrow> i \<in> set (g_inputs g))) \<and>
     (\<forall>k < length (g_nodes g). g_nodes g' ! k = g_nodes g ! k)"

lemma extends_value: "extends g g' \<Longrightarrow> i < length (g_values g) \<Longrightarrow> value_ok g i \<Longrightarrow> value_ok g' i"
  by (auto simp: extends_def value_ok_def Let_def split: value_kind.splits)

lemma extends_node:
  assumes e: "extends g g'" and ok: "node_ok g k" and k: "k < length (g_nodes g)"
  shows "node_ok g' k"
proof -
  have n: "g_nodes g' ! k = g_nodes g ! k" using e k by (simp add: extends_def)
  have v: "g_values g' ! i = g_values g ! i" "i < length (g_values g')" if "i < length (g_values g)" for i
    using e that by (simp_all add: extends_def)
  have specs: "map (\<lambda>i. gv_spec (g_values g' ! i)) (nd_inputs (g_nodes g ! k)) = map (\<lambda>i. gv_spec (g_values g ! i)) (nd_inputs (g_nodes g ! k))"
    by (rule map_cong[OF refl]) (use ok v in \<open>simp add: node_ok_def Let_def\<close>)
  show ?thesis using ok v unfolding node_ok_def Let_def n specs by auto
qed

lemma graph_ok_extend:
  assumes ok: "graph_ok g" and e: "extends g g'"
    and "length (g_constants g') = length (g_values g')"
    and "distinct (map gv_name (g_values g') @ map nd_name (g_nodes g'))"
    and "distinct (g_inputs g')" and "\<forall>i \<in> set (g_inputs g'). i < length (g_values g')"
    and "g_outputs g' = g_outputs g"
    and "\<And>i. length (g_values g) \<le> i \<Longrightarrow> i < length (g_values g') \<Longrightarrow> value_ok g' i"
    and "\<And>k. length (g_nodes g) \<le> k \<Longrightarrow> k < length (g_nodes g') \<Longrightarrow> node_ok g' k"
  shows "graph_ok g'"
proof -
  have "value_ok g' i" if "i < length (g_values g')" for i
    using extends_value[OF e] ok assms(8) that by (cases "i < length (g_values g)") (auto simp: graph_ok_def)
  moreover have "node_ok g' k" if "k < length (g_nodes g')" for k
    using extends_node[OF e] ok assms(9) that by (cases "k < length (g_nodes g)") (auto simp: graph_ok_def)
  moreover have "\<forall>i \<in> set (g_outputs g). i < length (g_values g')"
    using ok e by (fastforce simp: graph_ok_def extends_def)
  ultimately show ?thesis using assms(3-7) ok by (simp add: graph_ok_def)
qed

lemma add_input_ok:
  assumes ok: "graph_ok g" and a: "add_input name spec g = Inr (i, g')"
  shows "graph_ok g' \<and> extends g g'"
proof -
  let ?n = "length (g_values g)"
  have u: "name \<notin> set (map gv_name (g_values g) @ map nd_name (g_nodes g))" and spec: "validate_spec spec = Inr ()"
    and g': "g' = g\<lparr>g_values := g_values g @ [\<lparr>gv_id = ?n, gv_name = name, gv_spec = spec, gv_kind = Kind_input, gv_producer = None\<rparr>],
                  g_constants := g_constants g @ [None], g_inputs := g_inputs g @ [?n]\<rparr>"
    using a by (auto simp: add_input_def require_unique_name_Inr Let_def)
  have lens: "length (g_constants g) = ?n" "\<forall>i \<in> set (g_inputs g). i < ?n" using ok by (simp_all add: graph_ok_def)
  have e: "extends g g'" using lens by (simp add: extends_def g' nth_append)
  have "graph_ok g'"
  proof (rule graph_ok_extend[OF ok e])
    show "distinct (map gv_name (g_values g') @ map nd_name (g_nodes g'))" using ok u by (auto simp: g' graph_ok_def)
    show "distinct (g_inputs g')" using ok lens(2) by (auto simp: g' graph_ok_def)
    show "value_ok g' i" if "?n \<le> i" "i < length (g_values g')" for i
      using that lens spec by (auto simp: g' value_ok_def Let_def nth_append)
  qed (use lens in \<open>auto simp: g'\<close>)
  then show ?thesis using e by simp
qed

lemma add_constant_ok:
  assumes ok: "graph_ok g" and a: "add_constant name t g = Inr (i, g')"
  shows "graph_ok g' \<and> extends g g'"
proof -
  let ?n = "length (g_values g)"
  have u: "name \<notin> set (map gv_name (g_values g) @ map nd_name (g_nodes g))" and spec: "validate_spec (tensor_spec_of t) = Inr ()"
    and g': "g' = g\<lparr>g_values := g_values g @ [\<lparr>gv_id = ?n, gv_name = name, gv_spec = tensor_spec_of t, gv_kind = Kind_constant,
                    gv_producer = None\<rparr>], g_constants := g_constants g @ [Some t]\<rparr>"
    using a by (auto simp: add_constant_def require_unique_name_Inr Let_def)
  have lens: "length (g_constants g) = ?n" "\<forall>i \<in> set (g_inputs g). i < ?n" using ok by (simp_all add: graph_ok_def)
  have e: "extends g g'" using lens by (simp add: extends_def g' nth_append)
  have "graph_ok g'"
  proof (rule graph_ok_extend[OF ok e])
    show "distinct (map gv_name (g_values g') @ map nd_name (g_nodes g'))" using ok u by (auto simp: g' graph_ok_def)
    show "distinct (g_inputs g')" using ok by (simp add: g' graph_ok_def)
    show "value_ok g' i" if "?n \<le> i" "i < length (g_values g')" for i
    proof -
      have "i = ?n" "?n \<notin> set (g_inputs g)" using that lens(2) by (auto simp: g')
      then show ?thesis using lens spec by (simp add: g' value_ok_def Let_def nth_append)
    qed
  qed (use lens in \<open>auto simp: g' less_Suc_eq\<close>)
  then show ?thesis using e by simp
qed

lemma add_node_Inr:
  assumes a: "add_node name op ins attrs g = Inr (i, g')"
  obtains out where "infer_output_specs op (map (\<lambda>i. gv_spec (g_values g ! i)) ins) attrs = Inr [out]" "validate_spec out = Inr ()"
    "\<forall>i \<in> set ins. i < length (g_values g)" "i = length (g_nodes g)"
    "name \<notin> set (map gv_name (g_values g) @ map nd_name (g_nodes g))"
    "output_name name 0 \<notin> set (map gv_name (g_values g) @ map nd_name (g_nodes g))"
    "g' = g\<lparr>g_values := g_values g @ [\<lparr>gv_id = length (g_values g), gv_name = output_name name 0, gv_spec = out,
                    gv_kind = Kind_intermediate, gv_producer = Some (length (g_nodes g))\<rparr>],
            g_constants := g_constants g @ [None],
            g_nodes := g_nodes g @ [\<lparr>nd_id = length (g_nodes g), nd_name = name, nd_op = op, nd_inputs = ins,
                    nd_outputs = [length (g_values g)], nd_attributes = attrs\<rparr>]\<rparr>"
proof -
  obtain specs outs where u: "require_unique_name g name = Inr ()" and specs: "mapE (node_input_spec g) ins = Inr specs"
    and inf: "infer_output_specs op specs attrs = Inr outs" and v: "\<forall>s \<in> set outs. validate_spec s = Inr ()"
    and un: "foldE (\<lambda>i _. require_unique_name g (output_name name i)) [0..<length outs] () = Inr ()"
    and g': "i = length (g_nodes g)"
      "g' = g\<lparr>g_values := g_values g @ map (\<lambda>i. \<lparr>gv_id = length (g_values g) + i, gv_name = output_name name i, gv_spec = outs ! i,
                    gv_kind = Kind_intermediate, gv_producer = Some (length (g_nodes g))\<rparr>) [0..<length outs],
                  g_constants := g_constants g @ replicate (length outs) None,
                  g_nodes := g_nodes g @ [\<lparr>nd_id = length (g_nodes g), nd_name = name, nd_op = op, nd_inputs = ins,
                    nd_outputs = [length (g_values g)..<length (g_values g) + length outs], nd_attributes = attrs\<rparr>]\<rparr>"
    using a by (auto simp: add_node_def Let_def foldE_unit)
  obtain s out where out: "outs = [out]" using inf by (rule infer_output_Inr)
  have "specs = map (\<lambda>i. gv_spec (g_values g ! i)) ins \<and> (\<forall>i \<in> set ins. i < length (g_values g))"
    using specs by (induction ins arbitrary: specs) (auto simp: node_input_spec_def split: if_splits)
  then show ?thesis
    using that[of out] inf v u un g' out by (simp add: require_unique_name_Inr foldE_unit)
qed

lemma output_name_neq: "output_name name k \<noteq> name"
  by (simp add: output_name_def)

lemma producer_range:
  assumes "graph_ok g" and "i < length (g_values g)" and "gv_producer (g_values g ! i) = Some p"
  shows "p < length (g_nodes g)"
proof -
  have "value_ok g i" using assms(1,2) by (simp add: graph_ok_def)
  then show ?thesis using assms(3) by (cases "gv_kind (g_values g ! i)") (auto simp: value_ok_def Let_def)
qed

lemma graph_add_node_ok:
  assumes ok: "graph_ok g" and a: "add_node name op ins attrs g = Inr (i, g')"
  shows "graph_ok g' \<and> extends g g'"
proof -
  let ?n = "length (g_values g)" and ?k = "length (g_nodes g)"
  from a obtain out where inf: "infer_output_specs op (map (\<lambda>i. gv_spec (g_values g ! i)) ins) attrs = Inr [out]"
    and spec: "validate_spec out = Inr ()" and ins: "\<forall>i \<in> set ins. i < ?n"
    and u: "name \<notin> set (map gv_name (g_values g) @ map nd_name (g_nodes g))"
    "output_name name 0 \<notin> set (map gv_name (g_values g) @ map nd_name (g_nodes g))"
    and g': "g' = g\<lparr>g_values := g_values g @ [\<lparr>gv_id = ?n, gv_name = output_name name 0, gv_spec = out,
                    gv_kind = Kind_intermediate, gv_producer = Some ?k\<rparr>],
            g_constants := g_constants g @ [None],
            g_nodes := g_nodes g @ [\<lparr>nd_id = ?k, nd_name = name, nd_op = op, nd_inputs = ins,
                    nd_outputs = [?n], nd_attributes = attrs\<rparr>]\<rparr>"
    by (rule add_node_Inr)
  have lens: "length (g_constants g) = ?n" "\<forall>i \<in> set (g_inputs g). i < ?n" using ok by (simp_all add: graph_ok_def)
  have e: "extends g g'" using lens by (simp add: extends_def g' nth_append)
  have "graph_ok g'"
  proof (rule graph_ok_extend[OF ok e])
    show "distinct (map gv_name (g_values g') @ map nd_name (g_nodes g'))"
      using ok u output_name_neq[of name 0] by (auto simp: g' graph_ok_def)
    show "distinct (g_inputs g')" using ok by (simp add: g' graph_ok_def)
    show "value_ok g' i" if "?n \<le> i" "i < length (g_values g')" for i
    proof -
      have "i = ?n" "?n \<notin> set (g_inputs g)" using that lens(2) by (auto simp: g')
      then show ?thesis using lens spec by (simp add: g' value_ok_def Let_def nth_append)
    qed
    show "node_ok g' k" if "?k \<le> k" "k < length (g_nodes g')" for k
    proof -
      have k: "k = ?k" using that by (simp add: g')
      have old: "g_values g' ! i = g_values g ! i" if "i \<in> set ins" for i using ins that by (simp add: g' nth_append)
      have specs: "map (\<lambda>i. gv_spec (g_values g' ! i)) ins = map (\<lambda>i. gv_spec (g_values g ! i)) ins" using old by simp
      have prod: "p < ?k" if "i \<in> set ins" "gv_producer (g_values g ! i) = Some p" for i p
        using producer_range[OF ok _ that(2)] ins that(1) by blast
      have nd: "g_nodes g' ! k = \<lparr>nd_id = ?k, nd_name = name, nd_op = op, nd_inputs = ins, nd_outputs = [?n], nd_attributes = attrs\<rparr>"
        "g_values g' ! ?n = \<lparr>gv_id = ?n, gv_name = output_name name 0, gv_spec = out, gv_kind = Kind_intermediate, gv_producer = Some ?k\<rparr>"
        "length (g_values g') = Suc ?n" using k by (simp_all add: g')
      show ?thesis unfolding node_ok_def Let_def nd(1) node.simps specs using inf nd(2,3) prod old ins k
        by (auto simp: less_Suc_eq)
    qed
  qed (use lens in \<open>auto simp: g' less_Suc_eq\<close>)
  then show ?thesis using e by simp
qed

lemma outputs_irrelevant: "value_ok (g\<lparr>g_outputs := x\<rparr>) i = value_ok g i" "node_ok (g\<lparr>g_outputs := x\<rparr>) k = node_ok g k"
  by (cases "gv_kind (g_values g ! i)"; simp add: value_ok_def Let_def) (simp add: node_ok_def)

lemma mark_output_ok:
  assumes ok: "graph_ok g" and a: "mark_output i g = Inr g'"
  shows "graph_ok g'"
proof -
  have g': "g' = g\<lparr>g_outputs := g_outputs g @ [i]\<rparr>" "i < length (g_values g)" "i \<notin> set (g_outputs g)"
    using a by (auto simp: mark_output_def graph_value_at_def split: if_splits)
  then show ?thesis using ok by (auto simp: graph_ok_def outputs_irrelevant)
qed

lemma graph_run_ok: "graph_run g \<Longrightarrow> graph_ok g"
proof (induction rule: graph_run.induct)
  case empty
  then show ?case by (simp add: graph_ok_def empty_graph_def)
qed (use add_input_ok add_constant_ok graph_add_node_ok mark_output_ok in blast)+

section \<open>Built graphs pass the checks\<close>

lemma foldE_upt_total:
  assumes "P 0 s" and "\<And>k s. k < n \<Longrightarrow> P k s \<Longrightarrow> \<exists>s'. f k s = Inr s' \<and> P (Suc k) s'"
  shows "k \<le> n \<Longrightarrow> \<exists>s'. foldE f [0..<k] s = Inr s' \<and> P k s'"
proof (induction k)
  case (Suc k)
  then obtain s' where s': "foldE f [0..<k] s = Inr s'" "P k s'" by auto
  from assms(2)[OF _ s'(2)] Suc.prems obtain s'' where "f k s' = Inr s''" "P (Suc k) s''" by auto
  then show ?case using s'(1) unfolding foldE_upt_Suc by auto
qed (use assms(1) in simp)

lemma register_ids_total:
  assumes "distinct ids" and "\<forall>i \<in> set ids. i < n"
  shows "\<exists>flags. register_ids m m' n ids = Inr flags \<and> length flags = n \<and> (\<forall>i < n. flags ! i \<longleftrightarrow> i \<in> set ids)"
proof -
  have "distinct xs \<Longrightarrow> \<forall>i \<in> set xs. i < n \<Longrightarrow> length fs = n \<Longrightarrow> \<forall>i \<in> set xs. \<not> fs ! i \<Longrightarrow>
    \<exists>flags. foldE (\<lambda>i flags. if i \<ge> n then Inl (Logic_error m) else if flags ! i then Inl (Logic_error m') else Inr (flags[i := True])) xs fs =
      Inr flags \<and> length flags = n \<and> (\<forall>i < n. flags ! i \<longleftrightarrow> fs ! i \<or> i \<in> set xs)" for xs fs
  proof (induction xs arbitrary: fs)
    case (Cons x xs)
    have "\<forall>i \<in> set xs. \<not> fs[x := True] ! i" using Cons.prems by (metis distinct.simps(2) list.set_intros(2) nth_list_update_neq)
    with Cons.IH[of "fs[x := True]"] Cons.prems obtain flags where
      "foldE (\<lambda>i flags. if i \<ge> n then Inl (Logic_error m) else if flags ! i then Inl (Logic_error m') else Inr (flags[i := True])) xs (fs[x := True]) =
        Inr flags" "length flags = n" "\<forall>i < n. flags ! i \<longleftrightarrow> fs[x := True] ! i \<or> i \<in> set xs" by auto
    then show ?case using Cons.prems by (auto simp: nth_list_update)
  qed simp
  from this[OF assms, of "replicate n False"] show ?thesis using assms(2) by (simp add: register_ids_def)
qed

lemma check_kind_ok:
  assumes "graph_ok g" and i: "i < length (g_values g)" and flags: "\<forall>i < length (g_values g). flags ! i \<longleftrightarrow> i \<in> set (g_inputs g)"
  shows "check_kind g flags i = Inr ()"
proof -
  have "value_ok g i" using assms(1) i by (simp add: graph_ok_def)
  then show ?thesis using i flags
    by (cases "gv_kind (g_values g ! i)") (auto simp: value_ok_def check_kind_def Let_def)
qed

lemma check_values_ok:
  assumes ok: "graph_ok g" and flags: "\<forall>i < length (g_values g). flags ! i \<longleftrightarrow> i \<in> set (g_inputs g)"
  shows "\<exists>names. foldE (check_value g flags) [0..<length (g_values g)] [] = Inr names \<and> set names = set (map gv_name (g_values g))"
proof -
  let ?n = "length (g_values g)" and ?nm = "\<lambda>k. gv_name (g_values g ! k)"
  have dist: "distinct (map gv_name (g_values g))" using ok by (simp add: graph_ok_def)
  have "\<exists>names. foldE (check_value g flags) [0..<?n] [] = Inr names \<and> set names = ?nm ` {..<?n}"
  proof (rule foldE_upt_total[where P = "\<lambda>k names. set names = ?nm ` {..<k}" and n = ?n])
    fix k names assume k: "k < ?n" and names: "set names = ?nm ` {..<k}"
    have v: "value_ok g k" using ok k by (simp add: graph_ok_def)
    have "?nm k \<notin> set names"
    proof
      assume "?nm k \<in> set names"
      then obtain j where "j < k" "?nm j = ?nm k" using names by auto
      then show False using dist k by (simp add: distinct_conv_nth)
    qed
    then show "\<exists>s'. check_value g flags k names = Inr s' \<and> set s' = ?nm ` {..<Suc k}"
      using v check_kind_ok[OF ok k flags] names by (auto simp: check_value_def value_ok_def Let_def insert_name_def lessThan_Suc)
  qed simp_all
  moreover have "?nm ` {..<?n} = set (map gv_name (g_values g))"
  proof -
    have "set (g_values g) = (!) (g_values g) ` {..<?n}" by (auto simp: set_conv_nth)
    then show ?thesis by (simp add: image_image)
  qed
  ultimately show ?thesis by simp
qed

text \<open>The producer of an input is an earlier node.\<close>

lemma built_deps: "graph_ok g \<Longrightarrow> k < length (g_nodes g) \<Longrightarrow> node_deps g k \<subseteq> {..<k}"
  unfolding node_deps_iff subset_iff by (auto simp: graph_ok_def node_ok_def Let_def node_deps_iff)

lemma add_consumers_total: "\<forall>d \<in> set ds. d < n \<Longrightarrow> \<exists>cs'. foldE (add_consumer n j) ds cs = Inr cs'"
  by (induction ds arbitrary: cs) (auto simp: add_consumer_def[of n j])

lemma node_specs_ok:
  "\<forall>i \<in> set ins. i < length (g_values g) \<Longrightarrow> mapE (node_spec g) ins = Inr (map (\<lambda>i. gv_spec (g_values g ! i)) ins)"
  by (induction ins) (auto simp: node_spec_def)

definition built_pass :: "graph \<Rightarrow> nat \<Rightarrow> node_pass \<Rightarrow> bool" where
  "built_pass g k s \<longleftrightarrow> set (np_names s) = set (map gv_name (g_values g)) \<union> (\<lambda>j. nd_name (g_nodes g ! j)) ` {..<k} \<and>
     (\<forall>v < length (g_values g). np_produced s ! v \<longleftrightarrow> (\<exists>p < k. gv_producer (g_values g ! v) = Some p)) \<and>
     length (np_produced s) = length (g_values g)"

lemma check_node_ok:
  assumes ok: "graph_ok g" and k: "k < length (g_nodes g)" and s: "built_pass g k s"
  shows "\<exists>s'. check_node g k s = Inr s' \<and> built_pass g (Suc k) s'"
proof -
  let ?n = "g_nodes g ! k" and ?nv = "length (g_values g)"
  obtain out v where n: "nd_id ?n = k" "\<forall>i \<in> set (nd_inputs ?n). i < ?nv"
    "infer_output_specs (nd_op ?n) (map (\<lambda>i. gv_spec (g_values g ! i)) (nd_inputs ?n)) (nd_attributes ?n) = Inr [out]"
    and v: "nd_outputs ?n = [v]" "v < ?nv" "gv_kind (g_values g ! v) = Kind_intermediate" "gv_producer (g_values g ! v) = Some k"
      "gv_spec (g_values g ! v) = out"
    using ok k by (auto simp: graph_ok_def node_ok_def Let_def)
  have dist: "distinct (map gv_name (g_values g) @ map nd_name (g_nodes g))" using ok by (simp add: graph_ok_def)
  have fresh: "nd_name ?n \<notin> set (np_names s)"
  proof
    assume "nd_name ?n \<in> set (np_names s)"
    then consider (val) "nd_name ?n \<in> set (map gv_name (g_values g))" | (nd) j where "j < k" "nd_name (g_nodes g ! j) = nd_name ?n"
      using s by (auto simp: built_pass_def)
    then show False
    proof cases
      case val
      moreover have "nd_name ?n \<in> set (map nd_name (g_nodes g))" using k by simp
      ultimately show False using dist by auto
    next
      case nd
      have "distinct (map nd_name (g_nodes g))" using dist by simp
      then show False using nd k by (auto simp: distinct_conv_nth)
    qed
  qed
  have "\<not> np_produced s ! v" using s v(2,4) by (simp add: built_pass_def)
  then have out: "foldE (check_output g ?n [out]) [0..<length (nd_outputs ?n)] (np_produced s) = Inr ((np_produced s)[v := True])"
    using n(1) v by (simp add: check_output_def)
  have "\<forall>d \<in> set (dependencies g ?n). d < length (g_nodes g)" using built_deps[OF ok k] k by (force simp: node_deps_def)
  from add_consumers_total[OF this] obtain cs where
    "foldE (add_consumer (length (g_nodes g)) k) (dependencies g ?n) (np_consumers s) = Inr cs" by blast
  then have step: "check_node g k s = Inr \<lparr>np_names = nd_name ?n # np_names s, np_indegree = (np_indegree s)[k := length (dependencies g ?n)],
      np_consumers = cs, np_produced = (np_produced s)[v := True]\<rparr>"
    using n v(1) fresh node_specs_ok[OF n(2)] out by (simp add: check_node_def insert_name_def Let_def)
  have "(np_produced s)[v := True] ! w \<longleftrightarrow> (\<exists>p < Suc k. gv_producer (g_values g ! w) = Some p)" if w: "w < ?nv" for w
  proof (cases "w = v")
    case True
    then show ?thesis using v s by (auto simp: built_pass_def)
  next
    case False
    have "gv_producer (g_values g ! w) \<noteq> Some k"
    proof
      assume p: "gv_producer (g_values g ! w) = Some k"
      have "value_ok g w" using ok w by (simp add: graph_ok_def)
      then have "w \<in> set (nd_outputs ?n)" using p by (cases "gv_kind (g_values g ! w)") (auto simp: value_ok_def Let_def)
      then show False using v(1) False by simp
    qed
    then show ?thesis using False s w by (auto simp: built_pass_def less_Suc_eq)
  qed
  then have "built_pass g (Suc k) \<lparr>np_names = nd_name ?n # np_names s, np_indegree = (np_indegree s)[k := length (dependencies g ?n)],
      np_consumers = cs, np_produced = (np_produced s)[v := True]\<rparr>"
    using s by (auto simp: built_pass_def lessThan_Suc)
  then show ?thesis using step by blast
qed

lemma check_tables_built:
  assumes ok: "graph_ok g" and out: "g_outputs g \<noteq> []"
  shows "\<exists>s. check_tables g = Inr s"
proof -
  let ?nv = "length (g_values g)" and ?nn = "length (g_nodes g)"
  have ids: "distinct (g_inputs g)" "\<forall>i \<in> set (g_inputs g). i < ?nv" "distinct (g_outputs g)" "\<forall>i \<in> set (g_outputs g). i < ?nv"
    using ok by (simp_all add: graph_ok_def)
  obtain flags where flags: "register_ids ''graph input id is out of range'' ''graph input is registered more than once'' ?nv (g_inputs g) = Inr flags"
    "\<forall>i < ?nv. flags ! i \<longleftrightarrow> i \<in> set (g_inputs g)"
    using register_ids_total[OF ids(1,2)] by blast
  obtain oflags where oflags: "register_ids ''graph output id is out of range'' ''graph output is registered more than once'' ?nv (g_outputs g) = Inr oflags"
    using register_ids_total[OF ids(3,4)] by blast
  obtain names where names: "foldE (check_value g flags) [0..<?nv] [] = Inr names" "set names = set (map gv_name (g_values g))"
    using check_values_ok[OF ok flags(2)] by blast
  let ?s0 = "\<lparr>np_names = names, np_indegree = replicate ?nn 0, np_consumers = replicate ?nn [], np_produced = replicate ?nv False\<rparr>"
  have "\<exists>s. foldE (check_node g) [0..<?nn] ?s0 = Inr s \<and> built_pass g ?nn s"
    by (rule foldE_upt_total[where P = "built_pass g" and n = ?nn]) (use names check_node_ok[OF ok] in \<open>auto simp: built_pass_def\<close>)
  then obtain s where s: "foldE (check_node g) [0..<?nn] ?s0 = Inr s" "built_pass g ?nn s" by blast
  have "np_produced s ! i" if i: "i < ?nv" and kd: "gv_kind (g_values g ! i) = Kind_intermediate" for i
  proof -
    have "value_ok g i" using ok i by (simp add: graph_ok_def)
    then obtain p where "p < ?nn" "gv_producer (g_values g ! i) = Some p" using kd by (auto simp: value_ok_def Let_def)
    then show ?thesis using i s(2) unfolding built_pass_def by blast
  qed
  then have "\<not> (\<exists>i \<in> set [0..<?nv]. gv_kind (g_values g ! i) = Kind_intermediate \<and> \<not> np_produced s ! i)" by auto
  then have "check_tables g = Inr s"
    using ok out flags(1) oflags names(1) s(1) unfolding check_tables_def Let_def by (simp add: graph_ok_def)
  then show ?thesis by blast
qed

lemma built_order:
  assumes ok: "graph_ok g" and out: "g_outputs g \<noteq> []"
  shows "topological_order g = Inr [0..<length (g_nodes g)]"
proof -
  let ?n = "length (g_nodes g)"
  obtain s where s: "check_tables g = Inr s" using check_tables_built[OF assms] by blast
  note K = kahn_on_tables[OF s]
  have "kahn ?n (np_consumers s) (np_indegree s) (filter (\<lambda>v. np_indegree s ! v = 0) [0..<?n]) [0..<0] = Some [0..<?n]"
    unfolding K(1,2)
    by (rule kahn_creation_order[OF dependencies_facts(2) built_deps[OF ok]])
      (use kahn_inv_start[of ?n "node_deps g"] in simp_all)
  then show ?thesis using s by (simp add: topological_order_def)
qed

text \<open>
  C32: a graph built through the interface is always valid. After any sequence of \<open>add_input\<close>, \<open>add_constant\<close>,
  \<open>add_node\<close> and \<open>mark_output\<close>, and with at least one output, the validation accepts the graph, and the
  topological order is exactly the order in which its nodes were added.
\<close>

theorem built_graphs_are_valid:
  assumes "graph_run g" and "g_outputs g \<noteq> []"
  shows "validate_graph g = Inr () \<and> topological_order g = Inr [0..<length (g_nodes g)]"
  using built_order[OF graph_run_ok[OF assms(1)] assms(2)] by (simp add: validate_graph_def)

definition demo_spec :: tensor_spec where
  "demo_spec = \<lparr>spec_shape = [2], spec_dtype = Float32\<rparr>"

definition demo_value :: "nat \<Rightarrow> string \<Rightarrow> value_kind \<Rightarrow> nat option \<Rightarrow> graph_value" where
  "demo_value i name kind p = \<lparr>gv_id = i, gv_name = name, gv_spec = demo_spec, gv_kind = kind, gv_producer = p\<rparr>"

definition demo_graph :: "nat list \<Rightarrow> graph" where
  "demo_graph outs = \<lparr>g_nodes = [\<lparr>nd_id = 0, nd_name = ''r'', nd_op = Op_ReLU, nd_inputs = [0], nd_outputs = [1], nd_attributes = []\<rparr>],
     g_values = [demo_value 0 ''x'' Kind_input None, demo_value 1 ''r:0'' Kind_intermediate (Some 0)], g_constants = [None, None],
     g_inputs = [0], g_outputs = outs\<rparr>"

lemma demo_graph_run: "graph_run (demo_graph [1])"
proof -
  let ?g1 = "empty_graph\<lparr>g_values := [demo_value 0 ''x'' Kind_input None], g_constants := [None], g_inputs := [0]\<rparr>"
  have v: "validate_spec demo_spec = Inr ()"
    by (simp add: validate_spec_def demo_spec_def mk_layout_def validate_shape_def checked_numel_def make_contiguous_strides_def
        checked_multiply_def size_max_def int64_max_def size_bytes_def)
  have i: "infer_output_specs Op_ReLU [demo_spec] [] = Inr [demo_spec]"
    using v by (simp add: infer_output_specs_def validate_attributes_def require_float32_def) (simp add: demo_spec_def)
  have "nat_string 0 = ''0''" by code_simp
  then have n: "output_name ''r'' 0 = ''r:0''" by (simp add: output_name_def)
  have "add_input ''x'' demo_spec empty_graph = Inr (0, ?g1)"
    using v by (simp add: add_input_def require_unique_name_def empty_graph_def demo_value_def)
  then have 1: "graph_run ?g1" by (rule graph_run.new_input[OF graph_run.empty])
  have "mapE (node_input_spec ?g1) [0] = Inr [demo_spec]" by (simp add: node_input_spec_def empty_graph_def demo_value_def)
  then have "add_node ''r'' Op_ReLU [0] [] ?g1 = Inr (0, demo_graph [])"
    using v i n by (simp add: add_node_def require_unique_name_def empty_graph_def demo_value_def demo_graph_def)
  then have 2: "graph_run (demo_graph [])" by (rule graph_run.new_node[OF 1])
  have "mark_output 1 (demo_graph []) = Inr (demo_graph [1])" by (simp add: mark_output_def graph_value_at_def demo_graph_def)
  then show ?thesis by (rule graph_run.new_output[OF 2])
qed

theorem built_graphs_are_valid_witness: "topological_order (demo_graph [1]) = Inr [0]"
  using built_graphs_are_valid[OF demo_graph_run] by (simp add: demo_graph_def)

text \<open>
  C33: the order is topological, and a cycle is reported only when there is one. Whatever the tables of a
  graph contain: if \<open>topological_order\<close> returns an order, it lists every node exactly once and every
  dependency of a node stands before it; and once the tables pass the checks, it returns an order if and
  only if the dependencies can be ranked, and otherwise throws the cycle error. The bound of the
  loop in the model (one round per node) is never hit.
\<close>

theorem topological_order_sound:
  "(\<forall>order. topological_order g = Inr order \<longrightarrow> distinct order \<and> set order = {..<length (g_nodes g)} \<and>
      (\<forall>k < length order. node_deps g (order ! k) \<subseteq> set (take k order))) \<and>
   (is_ok (check_tables g) \<longrightarrow> is_ok (topological_order g) = (\<exists>rank. ranking g rank) \<and>
      (\<not> is_ok (topological_order g) \<longrightarrow> topological_order g = Inl (Invalid_argument ''graph contains a cycle'')))"
proof (cases "check_tables g")
  case (Inl e)
  then show ?thesis by (simp add: topological_order_def)
next
  case (Inr t)
  from topological_order_cases[OF this] obtain order where o: "distinct order" "set order \<subseteq> {..<length (g_nodes g)}"
    "\<And>k p. k < length order \<Longrightarrow> p \<in> node_deps g (order ! k) \<Longrightarrow> p \<in> set (take k order)"
    "length order = length (g_nodes g) \<longleftrightarrow> (\<exists>rank. ranking g rank)"
    "topological_order g = (if length order = length (g_nodes g) then Inr order else Inl (Invalid_argument ''graph contains a cycle''))"
    by blast
  have "set order = {..<length (g_nodes g)}" if "length order = length (g_nodes g)"
    using o(1,2) that by (metis card_lessThan card_subset_eq distinct_card finite_lessThan)
  then show ?thesis using o Inr by auto
qed

theorem topological_order_sound_witness:
  "topological_order (demo_graph [1]) = Inr [0] \<and> node_deps (demo_graph [1]) ([0] ! 0) \<subseteq> set (take 0 [0])"
proof -
  have o: "topological_order (demo_graph [1]) = Inr [0]"
    using built_order[OF graph_run_ok[OF demo_graph_run]] by (simp add: demo_graph_def)
  then show ?thesis using topological_order_sound[of "demo_graph [1]"] by (auto dest: spec[of _ "[0]"])
qed

section \<open>The analysis\<close>

lemma count_uses:
  assumes "\<forall>i \<in> set ins. i < length cons" and "length uses = length cons"
    and "foldl (count_use nid) (cons, uses) ins = (cons', uses')"
  shows "length cons' = length cons \<and> length uses' = length uses \<and>
    (\<forall>v < length cons. uses' ! v = uses ! v + count_list ins v \<and>
       cons' ! v = (if v \<in> set ins \<and> (cons ! v = [] \<or> last (cons ! v) \<noteq> nid) then cons ! v @ [nid] else cons ! v))"
  using assms
proof (induction ins arbitrary: cons uses)
  case (Cons i ins)
  obtain c u where cu: "count_use nid (cons, uses) i = (c, u)" by fastforce
  have c: "c = (if cons ! i = [] \<or> last (cons ! i) \<noteq> nid then cons[i := cons ! i @ [nid]] else cons)" "u = uses[i := Suc (uses ! i)]"
    using cu by (auto simp: count_use_def)
  have len: "length c = length cons" "length u = length uses" by (simp_all add: c)
  have i: "i < length cons" using Cons.prems(1) by simp
  have "foldl (count_use nid) (c, u) ins = (cons', uses')" using Cons.prems(3) cu by simp
  from Cons.IH[OF _ _ this] Cons.prems(1,2) len
  have IH: "length cons' = length cons \<and> length uses' = length uses \<and>
    (\<forall>v < length cons. uses' ! v = u ! v + count_list ins v \<and>
       cons' ! v = (if v \<in> set ins \<and> (c ! v = [] \<or> last (c ! v) \<noteq> nid) then c ! v @ [nid] else c ! v))" by simp
  have "u ! v + count_list ins v = uses ! v + count_list (i # ins) v" if "v < length cons" for v
    using that i Cons.prems(2) by (simp add: c nth_list_update)
  moreover have "(if v \<in> set ins \<and> (c ! v = [] \<or> last (c ! v) \<noteq> nid) then c ! v @ [nid] else c ! v) =
      (if v \<in> set (i # ins) \<and> (cons ! v = [] \<or> last (cons ! v) \<noteq> nid) then cons ! v @ [nid] else cons ! v)" if "v < length cons" for v
    using that i by (cases "v = i") (auto simp: c)
  ultimately show ?case using IH by simp
qed simp

lemma analyse_nodes:
  assumes ids: "\<forall>j < length (g_nodes g). nd_id (g_nodes g ! j) = j \<and> (\<forall>i \<in> set (nd_inputs (g_nodes g ! j)). i < length (g_values g))"
  shows "k \<le> length (g_nodes g) \<Longrightarrow>
    foldl analyse_node ((replicate (length (g_values g)) [], replicate (length (g_values g)) 0), replicate (length (g_nodes g)) [])
      (take k (g_nodes g)) = ((cs, us), outs) \<Longrightarrow>
    length cs = length (g_values g) \<and> length us = length (g_values g) \<and> length outs = length (g_nodes g) \<and>
    (\<forall>v < length (g_values g). cs ! v = filter (\<lambda>j. v \<in> set (nd_inputs (g_nodes g ! j))) [0..<k] \<and>
       us ! v = (\<Sum>j < k. count_list (nd_inputs (g_nodes g ! j)) v)) \<and>
    (\<forall>j < k. outs ! j = nd_outputs (g_nodes g ! j))"
proof (induction k arbitrary: cs us outs)
  case (Suc k)
  let ?n = "g_nodes g ! k"
  have k: "k < length (g_nodes g)" using Suc.prems(1) by simp
  obtain cs0 us0 outs0 where f: "foldl analyse_node ((replicate (length (g_values g)) [], replicate (length (g_values g)) 0),
      replicate (length (g_nodes g)) []) (take k (g_nodes g)) = ((cs0, us0), outs0)" by (metis surj_pair)
  note IH = Suc.IH[OF _ f]
  have step: "foldl (count_use k) (cs0, us0) (nd_inputs ?n) = (cs, us)" "outs = outs0[k := nd_outputs ?n]"
  proof -
    have "analyse_node ((cs0, us0), outs0) ?n = ((cs, us), outs)"
      using Suc.prems(2) f k by (simp add: take_Suc_conv_app_nth)
    then show "foldl (count_use k) (cs0, us0) (nd_inputs ?n) = (cs, us)" "outs = outs0[k := nd_outputs ?n]"
      using ids k by (auto simp: analyse_node_def)
  qed
  have "\<forall>i \<in> set (nd_inputs ?n). i < length cs0" "length us0 = length cs0" using IH ids k by simp_all
  note C = count_uses[OF this step(1)]
  have fresh: "cs0 ! v = [] \<or> last (cs0 ! v) \<noteq> k" if "v < length (g_values g)" for v
  proof (cases "cs0 ! v = []")
    case False
    then have "last (cs0 ! v) \<in> set (cs0 ! v)" by simp
    then show ?thesis using IH that k by auto
  qed simp
  show ?case using C IH fresh step(2) k by (auto simp: less_Suc_eq)
qed simp

lemma flags_foldl:
  "\<forall>i \<in> set is. i < length fs \<Longrightarrow> v < length fs \<Longrightarrow>
   length (foldl (\<lambda>flags out. flags[out := True]) fs is) = length fs \<and>
   (foldl (\<lambda>flags out. flags[out := True]) fs is ! v \<longleftrightarrow> fs ! v \<or> v \<in> set is)"
  by (induction "is" arbitrary: fs) (auto simp: nth_list_update)

lemma analysis_tables:
  assumes ok: "graph_ok g" and out: "g_outputs g \<noteq> []"
  shows "\<exists>ga. mk_analysis g = Inr ga \<and>
    (\<forall>v. value_consumers ga v = (if v < length (g_values g)
        then Inr (filter (\<lambda>j. v \<in> set (nd_inputs (g_nodes g ! j))) [0..<length (g_nodes g)]) else Inl analysis_value_error)) \<and>
    (\<forall>v < length (g_values g). use_count ga v = Inr (\<Sum>j < length (g_nodes g). count_list (nd_inputs (g_nodes g ! j)) v)) \<and>
    (\<forall>v < length (g_values g). is_graph_output ga v = Inr (v \<in> set (g_outputs g))) \<and>
    (\<forall>k < length (g_nodes g). analysis_outputs ga k = Inr (nd_outputs (g_nodes g ! k)))"
proof -
  let ?nv = "length (g_values g)" and ?nn = "length (g_nodes g)"
  obtain cs us outs where f: "foldl analyse_node ((replicate ?nv [], replicate ?nv 0), replicate ?nn []) (g_nodes g) = ((cs, us), outs)"
    by (metis surj_pair)
  have ids: "\<forall>j < ?nn. nd_id (g_nodes g ! j) = j \<and> (\<forall>i \<in> set (nd_inputs (g_nodes g ! j)). i < ?nv)"
    using ok by (auto simp: graph_ok_def node_ok_def Let_def)
  have A: "length cs = ?nv \<and> length us = ?nv \<and> length outs = ?nn \<and>
    (\<forall>v < ?nv. cs ! v = filter (\<lambda>j. v \<in> set (nd_inputs (g_nodes g ! j))) [0..<?nn] \<and>
       us ! v = (\<Sum>j < ?nn. count_list (nd_inputs (g_nodes g ! j)) v)) \<and>
    (\<forall>j < ?nn. outs ! j = nd_outputs (g_nodes g ! j))"
    using analyse_nodes[OF ids order_refl, of cs us outs] f by simp
  let ?flags = "foldl (\<lambda>flags out. flags[out := True]) (replicate ?nv False) (g_outputs g)"
  have F: "length ?flags = ?nv \<and> (?flags ! v \<longleftrightarrow> v \<in> set (g_outputs g))" if "v < ?nv" for v
    using flags_foldl[of "g_outputs g" "replicate ?nv False" v] ok that by (simp add: graph_ok_def)
  have "validate_graph g = Inr ()" using built_order[OF ok out] by (simp add: validate_graph_def)
  then have mk: "mk_analysis g = Inr \<lparr>ga_consumers = cs, ga_use_counts = us, ga_output_flags = ?flags, ga_node_outputs = outs,
      ga_graph_outputs = g_outputs g\<rparr>" by (simp add: mk_analysis_def f)
  show ?thesis
    by (rule exI, rule conjI[OF mk])
      (use A F in \<open>auto simp: value_consumers_def use_count_def is_graph_output_def analysis_outputs_def\<close>)
qed

text \<open>
  C34: the analysis answers the questions it is asked. For a built graph with an output, the consumers of a
  value are the nodes that read it, once each and in ascending order; its use count is the number of input
  positions that name it; the output flag says whether it is a graph output; and the outputs of a node are
  the declared ones. Identifiers out of range throw.
\<close>

theorem analysis_correct:
  assumes "graph_run g" and "g_outputs g \<noteq> []"
  shows "\<exists>ga. mk_analysis g = Inr ga \<and>
    (\<forall>v. value_consumers ga v = (if v < length (g_values g)
        then Inr (filter (\<lambda>j. v \<in> set (nd_inputs (g_nodes g ! j))) [0..<length (g_nodes g)]) else Inl analysis_value_error)) \<and>
    (\<forall>v < length (g_values g). use_count ga v = Inr (\<Sum>j < length (g_nodes g). count_list (nd_inputs (g_nodes g ! j)) v)) \<and>
    (\<forall>v < length (g_values g). is_graph_output ga v = Inr (v \<in> set (g_outputs g))) \<and>
    (\<forall>k < length (g_nodes g). analysis_outputs ga k = Inr (nd_outputs (g_nodes g ! k)))"
  by (rule analysis_tables[OF graph_run_ok[OF assms(1)] assms(2)])

theorem analysis_correct_witness:
  "\<exists>ga. mk_analysis (demo_graph [1]) = Inr ga \<and> value_consumers ga 0 = Inr [0] \<and> is_graph_output ga 1 = Inr True"
  using analysis_correct[OF demo_graph_run] by (auto simp: demo_graph_def)

end
