(* ===== verification/Graph_Rewriter.thy ===== *)
theory Graph_Rewriter
  imports Graph_Build
begin

text \<open>
  Models (\<^verbatim>\<open>src/model/model.cpp\<close>), the rewriter that rebuilds a graph and records where every value went
  (\<^verbatim>\<open>src/graph/optimizer/graph_rewriter.cpp\<close>), and the passes that use it. \<open>kInvalidValueId\<close> in a mapping is \<open>None\<close>. Passing a tensor by value copies it, so the rewriter
  works over the heap of buffers.
\<close>

section \<open>Models\<close>

record model =
  m_graph :: graph
  m_inputs :: "(string \<times> nat) list"
  m_outputs :: "(string \<times> nat) list"

definition find_named_value :: "(string \<times> nat) list \<Rightarrow> string \<Rightarrow> string \<Rightarrow> nat result" where
  "find_named_value values name kind = (case map_of values name of
     None \<Rightarrow> Inl (Out_of_range (''model '' @ kind @ '' does not exist: '' @ name)) | Some v \<Rightarrow> Inr v)"

definition require_unique_names :: "(string \<times> nat) list \<Rightarrow> string \<Rightarrow> unit result" where
  "require_unique_names values kind =
     bindE (foldE (\<lambda>v names. if fst v = [] \<or> fst v \<in> set names
              then Inl (Invalid_argument (''model '' @ kind @ '' names must be non-empty and unique'')) else Inr (fst v # names)) values [])
       (\<lambda>_. Inr ())"

definition bind_input :: "graph \<Rightarrow> string \<times> nat \<Rightarrow> nat list \<Rightarrow> nat list result" where
  "bind_input g input bound = bindE (graph_value_at g (snd input)) (\<lambda>v.
     if gv_kind v \<noteq> Kind_input \<or> snd input \<in> set bound
     then Inl (Invalid_argument ''model input does not reference a graph input'') else Inr (snd input # bound))"

definition bind_output :: "graph \<Rightarrow> string \<times> nat \<Rightarrow> nat list \<Rightarrow> nat list result" where
  "bind_output g out bound = (if snd out \<notin> set (g_outputs g) \<or> snd out \<in> set bound
     then Inl (Invalid_argument ''model output does not reference a registered graph output'') else Inr (snd out # bound))"

definition mk_model :: "graph \<Rightarrow> (string \<times> nat) list \<Rightarrow> (string \<times> nat) list \<Rightarrow> model result" where
  "mk_model g inputs outputs =
     bindE (validate_graph g) (\<lambda>_. bindE (require_unique_names inputs ''input'') (\<lambda>_. bindE (require_unique_names outputs ''output'') (\<lambda>_.
     if length inputs \<noteq> length (g_inputs g) \<or> length outputs \<noteq> length (g_outputs g)
     then Inl (Invalid_argument ''model input/output bindings must cover the complete graph interface'')
     else bindE (foldE (bind_input g) inputs []) (\<lambda>_. bindE (foldE (bind_output g) outputs []) (\<lambda>_.
       Inr \<lparr>m_graph = g, m_inputs = inputs, m_outputs = outputs\<rparr>)))))"

definition input_id :: "model \<Rightarrow> string \<Rightarrow> nat result" where
  "input_id m name = find_named_value (m_inputs m) name ''input''"

definition output_id :: "model \<Rightarrow> string \<Rightarrow> nat result" where
  "output_id m name = find_named_value (m_outputs m) name ''output''"

section \<open>The rewriter\<close>

type_synonym value_mapping = "nat option list"

record rewriter =
  rw_source :: model
  rw_graph :: graph
  rw_mapping :: value_mapping
  rw_finished :: bool
  rw_heap :: heap

definition map_input :: "graph \<Rightarrow> nat \<Rightarrow> graph \<times> value_mapping \<Rightarrow> (graph \<times> value_mapping) result" where
  "map_input source i s = bindE (graph_value_at source i) (\<lambda>v. bindE (add_input (gv_name v) (gv_spec v) (fst s)) (\<lambda>(k, g).
     Inr (g, (snd s)[i := Some k])))"

definition mk_rewriter :: "model \<Rightarrow> heap \<Rightarrow> rewriter result" where
  "mk_rewriter m h =
     bindE (foldE (map_input (m_graph m)) (g_inputs (m_graph m)) (empty_graph, replicate (length (g_values (m_graph m))) None))
       (\<lambda>(g, mapping). Inr \<lparr>rw_source = m, rw_graph = g, rw_mapping = mapping, rw_finished = False, rw_heap = h\<rparr>)"

definition copy_value :: "nat \<Rightarrow> rewriter \<Rightarrow> (nat \<times> rewriter) result" where
  "copy_value i rw =
     (if rw_finished rw then Inl (Logic_error ''cannot modify a finished graph rewrite'')
      else bindE (graph_value_at (m_graph (rw_source rw)) i) (\<lambda>v.
        case rw_mapping rw ! i of
          Some k \<Rightarrow> Inr (k, rw)
        | None \<Rightarrow>
          if gv_kind v = Kind_constant
          then bindE (graph_constant (m_graph (rw_source rw)) i) (\<lambda>t. bindE (tensor_copy t (rw_heap rw)) (\<lambda>(t', h).
               bindE (add_constant (gv_name v) t' (rw_graph rw)) (\<lambda>(k, g).
                 Inr (k, rw\<lparr>rw_graph := g, rw_mapping := (rw_mapping rw)[i := Some k], rw_heap := h\<rparr>))))
          else if gv_kind v = Kind_input then Inl (Logic_error ''graph input was not initialized by GraphRewriter'')
          else Inl (Logic_error ''cannot copy an intermediate before copying its producer'')))"

fun copy_values :: "nat list \<Rightarrow> rewriter \<Rightarrow> (nat list \<times> rewriter) result" where
  "copy_values [] rw = Inr ([], rw)"
| "copy_values (i # is) rw = bindE (copy_value i rw) (\<lambda>(k, rw1). bindE (copy_values is rw1) (\<lambda>(ks, rw2). Inr (k # ks, rw2)))"

definition map_output :: "graph \<Rightarrow> graph \<Rightarrow> nat \<times> nat \<Rightarrow> value_mapping \<Rightarrow> value_mapping result" where
  "map_output source target io mapping =
     bindE (graph_value_at target (snd io)) (\<lambda>v. bindE (graph_value_at source (fst io)) (\<lambda>u.
       if gv_spec v \<noteq> gv_spec u then Inl (Logic_error ''rewritten node output TensorSpec changed'')
       else Inr (mapping[fst io := Some (snd io)])))"

definition replace_node :: "nat \<Rightarrow> op_type \<Rightarrow> nat list \<Rightarrow> node_attributes \<Rightarrow> rewriter \<Rightarrow> (nat \<times> rewriter) result" where
  "replace_node nid op inputs attrs rw =
     (if rw_finished rw then Inl (Logic_error ''cannot modify a finished graph rewrite'')
      else bindE (graph_node (m_graph (rw_source rw)) nid) (\<lambda>n.
        if \<exists>out \<in> set (nd_outputs n). rw_mapping rw ! out \<noteq> None then Inl (Logic_error ''source value was rewritten more than once'')
        else bindE (copy_values inputs rw) (\<lambda>(ks, rw1). bindE (add_node (nd_name n) op ks attrs (rw_graph rw1)) (\<lambda>(k, g).
          bindE (graph_node g k) (\<lambda>mapped.
          if length (nd_outputs mapped) \<noteq> length (nd_outputs n) then Inl (Logic_error ''rewritten node output count changed'')
          else bindE (foldE (map_output (m_graph (rw_source rw)) g) (zip (nd_outputs n) (nd_outputs mapped)) (rw_mapping rw1)) (\<lambda>mapping.
            Inr (k, rw1\<lparr>rw_graph := g, rw_mapping := mapping\<rparr>)))))))"

definition copy_node :: "nat \<Rightarrow> rewriter \<Rightarrow> (nat \<times> rewriter) result" where
  "copy_node nid rw = bindE (graph_node (m_graph (rw_source rw)) nid) (\<lambda>n. replace_node nid (nd_op n) (nd_inputs n) (nd_attributes n) rw)"

definition replace_with_constant :: "nat \<Rightarrow> tensor \<Rightarrow> rewriter \<Rightarrow> (nat \<times> rewriter) result" where
  "replace_with_constant i t rw =
     (if rw_finished rw then Inl (Logic_error ''cannot modify a finished graph rewrite'')
      else bindE (graph_value_at (m_graph (rw_source rw)) i) (\<lambda>v.
        if rw_mapping rw ! i \<noteq> None then Inl (Logic_error ''source value was rewritten more than once'')
        else if tensor_spec_of t \<noteq> gv_spec v then Inl (Invalid_argument ''replacement constant does not match the source TensorSpec'')
        else bindE (add_constant (gv_name v) t (rw_graph rw)) (\<lambda>(k, g).
          Inr (k, rw\<lparr>rw_graph := g, rw_mapping := (rw_mapping rw)[i := Some k]\<rparr>))))"

text \<open>\<open>value_mapping_.at(id)\<close> of a bound value.\<close>

definition mapped_binding :: "string \<Rightarrow> value_mapping \<Rightarrow> string \<times> nat \<Rightarrow> (string \<times> nat) result" where
  "mapped_binding message mapping binding =
     (if snd binding \<ge> length mapping then Inl (Out_of_range ''vector::at'')
      else case mapping ! snd binding of None \<Rightarrow> Inl (Logic_error message) | Some k \<Rightarrow> Inr (fst binding, k))"

definition finish_output :: "value_mapping \<Rightarrow> string \<times> nat \<Rightarrow> graph \<times> (string \<times> nat) list \<Rightarrow> (graph \<times> (string \<times> nat) list) result" where
  "finish_output mapping binding s = bindE (mapped_binding ''rewritten model output is missing'' mapping binding) (\<lambda>b.
     bindE (mark_output (snd b) (fst s)) (\<lambda>g. Inr (g, snd s @ [b])))"

definition finish_rewrite :: "rewriter \<Rightarrow> (model \<times> rewriter) result" where
  "finish_rewrite rw =
     (if rw_finished rw then Inl (Logic_error ''graph rewrite was already finished'')
      else bindE (mapE (mapped_binding ''rewritten model input is missing'' (rw_mapping rw)) (m_inputs (rw_source rw))) (\<lambda>inputs.
        bindE (foldE (finish_output (rw_mapping rw)) (m_outputs (rw_source rw)) (rw_graph rw, [])) (\<lambda>(g, outputs).
        bindE (mk_model g inputs outputs) (\<lambda>m. Inr (m, rw\<lparr>rw_graph := g, rw_finished := True\<rparr>)))))"

end
