(* ===== verification/Onnx_Importer.thy ===== *)
theory Onnx_Importer
  imports Onnx_Registry Graph_Rewriter
begin

text \<open>
  The importer of \<^verbatim>\<open>src/model/onnx/onnx_importer.cpp\<close>: it turns a parsed message into a model of the graph. Constants and
  inputs come first; then the nodes are visited in rounds, each adding every node whose inputs are known, until
  all are there or a round adds nothing. Every failure becomes an import error that says where it happened.
\<close>

section \<open>Diagnostics\<close>

definition model_diagnostic :: "model_proto \<Rightarrow> onnx_import_stage \<Rightarrow> string \<Rightarrow> diagnostic" where
  "model_diagnostic mp stage message =
     default_diagnostic\<lparr>dg_stage := stage, dg_graph_name := gp_name (mp_graph mp), dg_message := message\<rparr>"

definition node_diagnostic :: "model_proto \<Rightarrow> node_proto \<Rightarrow> nat \<Rightarrow> onnx_import_stage \<Rightarrow> string \<Rightarrow> diagnostic" where
  "node_diagnostic mp source index stage message =
     (model_diagnostic mp stage message)\<lparr>dg_node_index := Some index, dg_node_name := np_name source,
        dg_op_type := np_op_type source, dg_domain := np_domain source\<rparr>"

definition throw_model_error :: "model_proto \<Rightarrow> onnx_import_stage \<Rightarrow> string \<Rightarrow> 'a import" where
  "throw_model_error mp stage message = Inl (Import_error (model_diagnostic mp stage message))"

text \<open>The diagnostics the importer builds in place: those of the model with the name of a value.\<close>

definition throw_value_error :: "model_proto \<Rightarrow> onnx_import_stage \<Rightarrow> string \<Rightarrow> string \<Rightarrow> 'a import" where
  "throw_value_error mp stage message value_name =
     Inl (Import_error ((model_diagnostic mp stage message)\<lparr>dg_value_name := value_name\<rparr>))"

definition throw_node_error :: "model_proto \<Rightarrow> node_proto \<Rightarrow> nat \<Rightarrow> onnx_import_stage \<Rightarrow> string \<Rightarrow> string \<Rightarrow> 'a import" where
  "throw_node_error mp source index stage message value_name =
     Inl (Import_error ((node_diagnostic mp source index stage message)\<lparr>dg_value_name := value_name\<rparr>))"

section \<open>Constants and inputs\<close>

record import_state =
  im_graph :: graph
  im_symbols :: "string \<rightharpoonup> nat"
  im_initializer_names :: "string list"
  im_reserved_names :: "string list"
  im_model_inputs :: "(string \<times> nat) list"
  im_heap :: heap

definition empty_import :: "heap \<Rightarrow> import_state" where
  "empty_import h = \<lparr>im_graph = empty_graph, im_symbols = Map.empty, im_initializer_names = [], im_reserved_names = [],
     im_model_inputs = [], im_heap = h\<rparr>"

text \<open>\<open>emplace\<close> leaves an entry that is present.\<close>

definition emplace_symbol :: "string \<Rightarrow> nat \<Rightarrow> (string \<rightharpoonup> nat) \<Rightarrow> (string \<rightharpoonup> nat)" where
  "emplace_symbol name i symbols = (if symbols name = None then symbols(name \<mapsto> i) else symbols)"

definition add_initializer :: "initializer \<Rightarrow> import_state \<Rightarrow> import_state result" where
  "add_initializer t s =
     bindE (tensor_copy (in_value t) (im_heap s)) (\<lambda>(copy, h). bindE (add_constant (in_name t) copy (im_graph s)) (\<lambda>(i, g).
       Inr (s\<lparr>im_graph := g, im_symbols := emplace_symbol (in_name t) i (im_symbols s), im_heap := h,
         im_initializer_names := in_name t # im_initializer_names s, im_reserved_names := in_name t # im_reserved_names s\<rparr>)))"

definition import_initializer :: "model_proto \<Rightarrow> initializer \<Rightarrow> import_state \<Rightarrow> import_state import" where
  "import_initializer mp t s =
     (if in_name t = [] \<or> in_name t \<in> set (im_initializer_names s)
      then throw_value_error mp Stage_GraphImport ''ONNX initializer names must be non-empty and unique'' (in_name t)
      else catch_exception (lift (add_initializer t s)) (\<lambda>e. throw_value_error mp Stage_GraphImport (import_what e) (in_name t)))"

definition import_input :: "model_proto \<Rightarrow> value_info \<Rightarrow> import_state \<Rightarrow> import_state import" where
  "import_input mp v s =
     (if vi_name v \<in> set (im_initializer_names s)
      then case im_symbols s (vi_name v) of
          None \<Rightarrow> Inl (Std (Out_of_range ''_Map_base::at''))
        | Some i \<Rightarrow> bindE (lift (graph_value_at (im_graph s) i)) (\<lambda>gv.
            if gv_spec gv \<noteq> vi_spec v
            then throw_value_error mp Stage_GraphImport ''ONNX initializer metadata does not match graph input'' (vi_name v)
            else Inr s)
      else if vi_name v = [] \<or> im_symbols s (vi_name v) \<noteq> None
      then throw_value_error mp Stage_GraphImport ''ONNX graph input names must be non-empty and unique'' (vi_name v)
      else bindE (catch_exception (lift (add_input (vi_name v) (vi_spec v) (im_graph s)))
             (\<lambda>e. throw_value_error mp Stage_GraphImport (import_what e) (vi_name v))) (\<lambda>(i, g).
           Inr (s\<lparr>im_graph := g, im_symbols := emplace_symbol (vi_name v) i (im_symbols s),
             im_reserved_names := vi_name v # im_reserved_names s, im_model_inputs := im_model_inputs s @ [(vi_name v, i)]\<rparr>)))"

section \<open>Nodes\<close>

text \<open>The loop pushes underscores until the name is free; a reserved name is not longer than the longest one.\<close>

function free_name :: "string list \<Rightarrow> string \<Rightarrow> string" where
  "free_name reserved name = (if name \<in> set reserved then free_name reserved (name @ ''_'') else name)"
  by pat_completeness auto
termination
proof (relation "measure (\<lambda>(reserved, name). Suc (Max (length ` set reserved)) - length name)")
  fix reserved :: "string list" and name assume a: "name \<in> set reserved"
  then have "length name \<le> Max (length ` set reserved)" by simp
  then show "((reserved, name @ ''_''), (reserved, name)) \<in> measure (\<lambda>(reserved, name). Suc (Max (length ` set reserved)) - length name)"
    by simp
qed simp

declare free_name.simps [simp del]

definition imported_node_name :: "nat \<Rightarrow> string list \<Rightarrow> string" where
  "imported_node_name index reserved = free_name reserved (''__onnx_node_'' @ nat_string index)"

fun resolve_inputs :: "(string \<rightharpoonup> nat) \<Rightarrow> string list \<Rightarrow> nat list option" where
  "resolve_inputs symbols [] = Some []"
| "resolve_inputs symbols (name # names) =
     (if name = [] then None else case symbols name of None \<Rightarrow> None | Some i \<Rightarrow> map_option ((#) i) (resolve_inputs symbols names))"

text \<open>Adding one node whose inputs are known, under the name of its only output.\<close>

definition add_source_node ::
    "operator_registry \<Rightarrow> model_proto \<Rightarrow> node_proto \<Rightarrow> nat \<Rightarrow> nat list \<Rightarrow> import_state \<Rightarrow> import_state import" where
  "add_source_node ops mp source index inputs s =
     (if length (np_outputs source) \<noteq> 1 \<or> hd (np_outputs source) = []
      then throw_node_error mp source index Stage_GraphImport ''TinyInfer currently imports one non-empty output per ONNX node'' []
      else if im_symbols s (hd (np_outputs source)) \<noteq> None
      then throw_node_error mp source index Stage_GraphImport ''ONNX value name is defined more than once'' (hd (np_outputs source))
      else bindE (catch_exception (lift (translate_operator ops source (mp_opset_version mp)))
             (\<lambda>e. throw_node_error mp source index Stage_OperatorTranslation (import_what e) [])) (\<lambda>(op, attrs).
           bindE (catch_exception (lift (add_node (imported_node_name index (im_reserved_names s)) op inputs attrs (im_graph s)))
             (\<lambda>e. throw_node_error mp source index Stage_ShapeInference (import_what e) [])) (\<lambda>(nid, g).
           bindE (lift (graph_node g nid)) (\<lambda>n. case nd_outputs n of
               [] \<Rightarrow> undefined_ub ''front of an empty vector''
             | out # _ \<Rightarrow> Inr (s\<lparr>im_graph := g, im_symbols := emplace_symbol (hd (np_outputs source)) out (im_symbols s)\<rparr>)))))"

text \<open>A round: the flags of the imported nodes, how many remain, and whether the round made progress.\<close>

type_synonym round_state = "import_state \<times> bool list \<times> nat \<times> bool"

definition visit_node :: "operator_registry \<Rightarrow> model_proto \<Rightarrow> nat \<Rightarrow> round_state \<Rightarrow> round_state import" where
  "visit_node ops mp index r = (case r of (s, imported, remaining, progress) \<Rightarrow>
     if imported ! index then Inr r
     else let source = gp_nodes (mp_graph mp) ! index in
       if np_domain source \<noteq> [] \<and> np_domain source \<noteq> ''ai.onnx''
       then throw_node_error mp source index Stage_OperatorTranslation (''unsupported ONNX operator domain: '' @ np_domain source) []
       else case resolve_inputs (im_symbols s) (np_inputs source) of
           None \<Rightarrow> Inr r
         | Some inputs \<Rightarrow> bindE (add_source_node ops mp source index inputs s) (\<lambda>s'.
             Inr (s', imported[index := True], dec64 remaining, True)))"

definition no_progress_error :: "model_proto \<Rightarrow> (string \<rightharpoonup> nat) \<Rightarrow> bool list \<Rightarrow> 'a import" where
  "no_progress_error mp symbols imported =
     (case List.find (\<lambda>index. \<not> imported ! index) [0..<length (gp_nodes (mp_graph mp))] of
        None \<Rightarrow> throw_model_error mp Stage_GraphImport ''ONNX graph import made no progress''
      | Some index \<Rightarrow> let source = gp_nodes (mp_graph mp) ! index in
          (case List.find (\<lambda>name. name = [] \<or> symbols name = None) (np_inputs source) of
             Some name \<Rightarrow> throw_node_error mp source index Stage_GraphImport
               (if name = [] then ''optional or empty ONNX inputs are not supported'' else ''ONNX node input is not defined'') name
           | None \<Rightarrow> throw_node_error mp source index Stage_GraphImport ''ONNX graph dependencies contain a cycle'' []))"

text \<open>
  The loop \<open>while (remaining != 0)\<close>. A round with progress leaves fewer nodes, which is proved below; the
  alternative that it does not is marked as undefined.
\<close>

function import_rounds :: "operator_registry \<Rightarrow> model_proto \<Rightarrow> import_state \<Rightarrow> bool list \<Rightarrow> nat \<Rightarrow> import_state import" where
  "import_rounds ops mp s imported remaining =
     (if remaining = 0 then Inr s
      else bindE (foldE (visit_node ops mp) [0..<length (gp_nodes (mp_graph mp))] (s, imported, remaining, False))
        (\<lambda>(s', imported', remaining', progress).
          if \<not> progress then no_progress_error mp (im_symbols s') imported'
          else if remaining' < remaining then import_rounds ops mp s' imported' remaining'
          else undefined_ub ''loop''))"
  by pat_completeness auto
termination by (relation "measure (\<lambda>(ops, mp, s, imported, remaining). remaining)") auto

declare import_rounds.simps [simp del]

section \<open>Outputs and the model\<close>

definition import_output :: "model_proto \<Rightarrow> (string \<rightharpoonup> nat) \<Rightarrow> value_info \<Rightarrow> graph \<times> (string \<times> nat) list \<Rightarrow> (graph \<times> (string \<times> nat) list) import" where
  "import_output mp symbols v s =
     (case symbols (vi_name v) of
        None \<Rightarrow> throw_value_error mp Stage_GraphValidation ''ONNX graph output is not defined'' (vi_name v)
      | Some i \<Rightarrow> bindE (lift (graph_value_at (fst s) i)) (\<lambda>gv.
          if gv_spec gv \<noteq> vi_spec v
          then throw_value_error mp Stage_GraphValidation ''ONNX graph output metadata does not match inferred TensorSpec'' (vi_name v)
          else bindE (catch_exception (lift (mark_output i (fst s)))
                 (\<lambda>e. throw_value_error mp Stage_GraphValidation (import_what e) (vi_name v))) (\<lambda>g.
               Inr (g, snd s @ [(vi_name v, i)]))))"

definition import_model :: "operator_registry \<Rightarrow> model_proto \<Rightarrow> heap \<Rightarrow> (model \<times> heap) import" where
  "import_model ops mp h =
     (if mp_opset_version mp < 13 then throw_model_error mp Stage_ModelValidation ''TinyInfer ONNX importer requires opset >= 13''
      else let g = mp_graph mp; n = length (gp_nodes g) in
        bindE (foldE (import_initializer mp) (gp_initializers g) (empty_import h)) (\<lambda>s1.
        bindE (foldE (import_input mp) (gp_inputs g) s1) (\<lambda>s2.
        bindE (import_rounds ops mp s2 (replicate n False) n) (\<lambda>s3.
        bindE (foldE (import_output mp (im_symbols s3)) (gp_outputs g) (im_graph s3, [])) (\<lambda>(graph, outputs).
        bindE (catch_exception (lift (mk_model graph (im_model_inputs s3) outputs))
          (\<lambda>e. throw_model_error mp Stage_GraphValidation (import_what e))) (\<lambda>m. Inr (m, im_heap s3)))))))"

text \<open>\<open>load\<close>; the parser is an interface, its implementation in the repository is \<open>parser_parse\<close>.\<close>

definition importer_load ::
    "(string \<Rightarrow> heap \<Rightarrow> (model_proto \<times> heap) import) \<Rightarrow> operator_registry \<Rightarrow> string \<Rightarrow> heap \<Rightarrow> (model \<times> heap) import" where
  "importer_load parse ops path h =
     catch_exception (bindE (parse path h) (\<lambda>(mp, h'). import_model ops mp h')) (\<lambda>e. case e of
         Import_error d \<Rightarrow> if dg_model_path d \<noteq> [] then Inl (Import_error d) else Inl (Import_error (d\<lparr>dg_model_path := path\<rparr>))
       | Std _ \<Rightarrow> Inl (Import_error (default_diagnostic\<lparr>dg_stage := Stage_ProtobufParse, dg_model_path := path,
           dg_message := import_what e\<rparr>)))"

end
