(* ===== verification/Graph_Meaning.thy ===== *)
theory Graph_Meaning
  imports Graph_Rewriter
begin

text \<open>
  What a graph computes, for an arbitrary meaning of its operators, and the proof that the rewriter preserves it:
  every value of the source that the rewriter has mapped has the same meaning in the graph it builds.
\<close>

section \<open>The meaning of a value\<close>

type_synonym contents = "shape \<times> data_type \<times> byte list result list"

definition tensor_contents :: "heap \<Rightarrow> tensor \<Rightarrow> contents" where
  "tensor_contents h t = (tn_shape t, tn_dtype t, map (tensor_element h t) [0..<tn_numel t])"

record 'v meaning =
  mn_op :: "op_type \<Rightarrow> node_attributes \<Rightarrow> 'v list \<Rightarrow> 'v"
  mn_constant :: "contents \<Rightarrow> 'v"
  mn_input :: "string \<Rightarrow> 'v"

inductive denotes :: "'v meaning \<Rightarrow> heap \<Rightarrow> graph \<Rightarrow> nat \<Rightarrow> 'v \<Rightarrow> bool" for M h g where
  of_input: "i < length (g_values g) \<Longrightarrow> gv_kind (g_values g ! i) = Kind_input \<Longrightarrow>
    denotes M h g i (mn_input M (gv_name (g_values g ! i)))"
| of_constant: "i < length (g_values g) \<Longrightarrow> gv_kind (g_values g ! i) = Kind_constant \<Longrightarrow> g_constants g ! i = Some t \<Longrightarrow>
    denotes M h g i (mn_constant M (tensor_contents h t))"
| of_node: "i < length (g_values g) \<Longrightarrow> gv_kind (g_values g ! i) = Kind_intermediate \<Longrightarrow> gv_producer (g_values g ! i) = Some p \<Longrightarrow>
    p < length (g_nodes g) \<Longrightarrow> length vs = length (nd_inputs (g_nodes g ! p)) \<Longrightarrow>
    \<forall>k < length vs. denotes M h g (nd_inputs (g_nodes g ! p) ! k) (vs ! k) \<Longrightarrow>
    denotes M h g i (mn_op M (nd_op (g_nodes g ! p)) (nd_attributes (g_nodes g ! p)) vs)"

lemma denotes_nodeE:
  assumes "denotes M h g i w" and "gv_kind (g_values g ! i) = Kind_intermediate" and "gv_producer (g_values g ! i) = Some p"
  obtains ws where "length ws = length (nd_inputs (g_nodes g ! p))"
    "\<forall>k < length ws. denotes M h g (nd_inputs (g_nodes g ! p) ! k) (ws ! k)"
    "w = mn_op M (nd_op (g_nodes g ! p)) (nd_attributes (g_nodes g ! p)) ws"
  using assms(1) by cases (use assms in auto)

lemma denotes_unique: "denotes M h g i v \<Longrightarrow> denotes M h g i w \<Longrightarrow> v = w"
proof (induction arbitrary: w rule: denotes.induct)
  case (of_input i)
  from of_input(3) show ?case by cases (use of_input in auto)
next
  case (of_constant i t)
  from of_constant(4) show ?case by cases (use of_constant in auto)
next
  case (of_node i p vs)
  from of_node.prems of_node.hyps(2,3) obtain ws where ws: "length ws = length (nd_inputs (g_nodes g ! p))"
    "\<forall>k < length ws. denotes M h g (nd_inputs (g_nodes g ! p) ! k) (ws ! k)"
    "w = mn_op M (nd_op (g_nodes g ! p)) (nd_attributes (g_nodes g ! p)) ws" by (rule denotes_nodeE)
  have "vs ! k = ws ! k" if "k < length vs" for k
    using of_node.IH that ws(1,2) of_node.hyps(5) by simp
  then have "vs = ws" using ws(1) of_node.hyps(5) by (intro nth_equalityI) simp_all
  then show ?case by (simp add: ws(3))
qed

lemma denotes_total:
  assumes ok: "graph_ok g" and "i < length (g_values g)"
  shows "\<exists>v. denotes M h g i v"
proof -
  have "\<exists>v. denotes M h g i v" if "i < length (g_values g)" "k = (case gv_producer (g_values g ! i) of None \<Rightarrow> 0 | Some p \<Rightarrow> Suc p)" for i k
    using that
  proof (induction k arbitrary: i rule: less_induct)
    case (less k)
    have vo: "value_ok g i" using ok less.prems(1) by (simp add: graph_ok_def)
    show ?case
    proof (cases "gv_kind (g_values g ! i)")
      case Kind_input
      then show ?thesis using denotes.of_input[OF less.prems(1)] by blast
    next
      case Kind_constant
      then obtain t where "g_constants g ! i = Some t" using vo by (auto simp: value_ok_def Let_def)
      then show ?thesis using denotes.of_constant[OF less.prems(1) Kind_constant] by blast
    next
      case Kind_intermediate
      then obtain p where p: "p < length (g_nodes g)" "gv_producer (g_values g ! i) = Some p" using vo by (auto simp: value_ok_def Let_def)
      let ?ins = "nd_inputs (g_nodes g ! p)"
      have no: "node_ok g p" using ok p(1) by (simp add: graph_ok_def)
      have "\<exists>v. denotes M h g j v" if j: "j \<in> set ?ins" for j
      proof (rule less.IH[OF _ _ refl])
        show "j < length (g_values g)" using no j unfolding node_ok_def Let_def by blast
        have "q < p" if "gv_producer (g_values g ! j) = Some q" for q using no j that unfolding node_ok_def Let_def by blast
        then show "(case gv_producer (g_values g ! j) of None \<Rightarrow> 0 | Some p \<Rightarrow> Suc p) < k"
          using less.prems(2) p(2) by (auto split: option.splits)
      qed
      then obtain f where "\<forall>j \<in> set ?ins. denotes M h g j (f j)" by metis
      then have "\<forall>k < length (map f ?ins). denotes M h g (?ins ! k) (map f ?ins ! k)" by simp
      from denotes.of_node[OF less.prems(1) Kind_intermediate p(2,1) _ this] show ?thesis by auto
    qed
  qed
  then show ?thesis using assms(2) by blast
qed

text \<open>Constants live in the heap.\<close>

definition constants_ok :: "heap \<Rightarrow> graph \<Rightarrow> bool" where
  "constants_ok h g \<longleftrightarrow> (\<forall>i < length (g_values g). \<forall>t. g_constants g ! i = Some t \<longrightarrow> tensor_ok h t)"

lemma contents_ext: "heap_ext h h' \<Longrightarrow> tensor_ok h t \<Longrightarrow> tensor_contents h' t = tensor_contents h t"
  by (simp add: tensor_contents_def heap_ext_element)

lemma denotes_ext:
  assumes "denotes M h g i v" and "extends g g'" and "heap_ext h h'" and "constants_ok h g"
  shows "denotes M h' g' i v"
  using assms(1)
proof (induction rule: denotes.induct)
  case (of_input i)
  then show ?case using denotes.of_input[of i g' M h'] assms(2) by (simp add: extends_def)
next
  case (of_constant i t)
  then have "tensor_contents h' t = tensor_contents h t" using contents_ext[OF assms(3)] assms(4) by (simp add: constants_ok_def)
  then show ?case using denotes.of_constant[of i g' t M h'] of_constant assms(2) by (simp add: extends_def)
next
  case (of_node i p vs)
  then show ?case using denotes.of_node[of i g' p vs M h'] assms(2) by (auto simp: extends_def)
qed

lemma extends_refl [simp]: "extends g g"
  by (simp add: extends_def)

lemma extends_trans: "extends g g' \<Longrightarrow> extends g' g'' \<Longrightarrow> extends g g''"
  by (simp add: extends_def)

section \<open>Names of built graphs\<close>

text \<open>An intermediate value is named after the node that produces it.\<close>

definition names_ok :: "graph \<Rightarrow> bool" where
  "names_ok g \<longleftrightarrow> (\<forall>k < length (g_nodes g). nd_name (g_nodes g ! k) \<noteq> [] \<and>
     (\<forall>v \<in> set (nd_outputs (g_nodes g ! k)). gv_name (g_values g ! v) = output_name (nd_name (g_nodes g ! k)) 0)) \<and>
   (\<forall>i < length (g_values g). gv_name (g_values g ! i) \<noteq> [])"

lemma names_ok_run: "graph_run g \<Longrightarrow> names_ok g"
proof (induction rule: graph_run.induct)
  case empty
  then show ?case by (simp add: names_ok_def empty_graph_def)
next
  case (new_input g name spec i g')
  note ok = graph_run_ok[OF new_input.hyps(1)]
  have g': "g_nodes g' = g_nodes g" "\<exists>v. g_values g' = g_values g @ [v] \<and> gv_name v \<noteq> []"
    using new_input.hyps(2) by (auto simp: add_input_def require_unique_name_Inr Let_def)
  have "v < length (g_values g)" if "k < length (g_nodes g)" "v \<in> set (nd_outputs (g_nodes g ! k))" for k v
    using ok that unfolding graph_ok_def node_ok_def Let_def by fastforce
  then show ?case using g' new_input.IH by (auto simp: names_ok_def nth_append less_Suc_eq)
next
  case (new_constant g name t i g')
  note ok = graph_run_ok[OF new_constant.hyps(1)]
  have g': "g_nodes g' = g_nodes g" "\<exists>v. g_values g' = g_values g @ [v] \<and> gv_name v \<noteq> []"
    using new_constant.hyps(2) by (auto simp: add_constant_def require_unique_name_Inr Let_def)
  have "v < length (g_values g)" if "k < length (g_nodes g)" "v \<in> set (nd_outputs (g_nodes g ! k))" for k v
    using ok that unfolding graph_ok_def node_ok_def Let_def by fastforce
  then show ?case using g' new_constant.IH by (auto simp: names_ok_def nth_append less_Suc_eq)
next
  case (new_node g name op ins attrs i g')
  note ok = graph_run_ok[OF new_node.hyps(1)]
  have n: "name \<noteq> []" using new_node.hyps(2) by (auto simp: add_node_def require_unique_name_Inr)
  obtain out where g': "g' = g\<lparr>g_values := g_values g @ [\<lparr>gv_id = length (g_values g), gv_name = output_name name 0, gv_spec = out,
                    gv_kind = Kind_intermediate, gv_producer = Some (length (g_nodes g))\<rparr>],
            g_constants := g_constants g @ [None],
            g_nodes := g_nodes g @ [\<lparr>nd_id = length (g_nodes g), nd_name = name, nd_op = op, nd_inputs = ins,
                    nd_outputs = [length (g_values g)], nd_attributes = attrs\<rparr>]\<rparr>"
    using add_node_Inr[OF new_node.hyps(2)] by metis
  have "v < length (g_values g)" if "k < length (g_nodes g)" "v \<in> set (nd_outputs (g_nodes g ! k))" for k v
    using ok that unfolding graph_ok_def node_ok_def Let_def by fastforce
  then show ?case using g' n new_node.IH by (auto simp: names_ok_def nth_append less_Suc_eq output_name_def)
next
  case (new_output g i g')
  then have "g_nodes g' = g_nodes g" "g_values g' = g_values g" by (auto simp: mark_output_def split: if_splits)
  then show ?case using new_output.IH by (simp add: names_ok_def)
qed

section \<open>The invariant of a rewrite\<close>

text \<open>What it means that source value \<open>i\<close> is carried over as value \<open>k\<close>.\<close>

definition carried :: "'v meaning \<Rightarrow> heap \<Rightarrow> graph \<Rightarrow> heap \<Rightarrow> graph \<Rightarrow> nat \<Rightarrow> nat \<Rightarrow> bool" where
  "carried M h0 src h g i k \<longleftrightarrow> k < length (g_values g) \<and> gv_name (g_values g ! k) = gv_name (g_values src ! i) \<and>
     gv_spec (g_values g ! k) = gv_spec (g_values src ! i) \<and>
     (gv_kind (g_values src ! i) = Kind_input \<longrightarrow> gv_kind (g_values g ! k) = Kind_input) \<and>
     (\<forall>v. denotes M h0 src i v \<longrightarrow> denotes M h g k v)"

definition rewrite_inv :: "'v meaning \<Rightarrow> heap \<Rightarrow> graph \<Rightarrow> heap \<Rightarrow> graph \<Rightarrow> value_mapping \<Rightarrow> bool" where
  "rewrite_inv M h0 src h g m \<longleftrightarrow> graph_run g \<and> g_outputs g = [] \<and> length m = length (g_values src) \<and> heap_ext h0 h \<and> constants_ok h g \<and>
     (\<forall>i < length (g_values src). \<forall>k. m ! i = Some k \<longrightarrow> carried M h0 src h g i k) \<and>
     (\<forall>k < length (g_values g). \<exists>i < length (g_values src). m ! i = Some k) \<and>
     (\<forall>k < length (g_nodes g). \<exists>j < length (g_nodes src). nd_name (g_nodes g ! k) = nd_name (g_nodes src ! j) \<and>
        (\<forall>out \<in> set (nd_outputs (g_nodes src ! j)). m ! out \<noteq> None))"

lemma carried_ext:
  assumes "carried M h0 src h g i k" and "extends g g'" and "heap_ext h h'" and "constants_ok h g"
  shows "carried M h0 src h' g' i k"
proof -
  have "denotes M h' g' k v" if "denotes M h0 src i v" for v
    by (rule denotes_ext[OF _ assms(2-4)]) (use assms(1) that in \<open>simp add: carried_def\<close>)
  then show ?thesis using assms(1,2) by (simp add: carried_def extends_def)
qed

lemma rewrite_step:
  assumes inv: "rewrite_inv M h0 src h g m" and e: "extends g g'" "graph_run g'" "g_outputs g' = []" "heap_ext h h'" "constants_ok h' g'"
    and len: "length (g_values g') = Suc (length (g_values g))" and i: "i < length (g_values src)" "m ! i = None"
    and new: "carried M h0 src h' g' i (length (g_values g))"
    and node: "length (g_nodes g') = length (g_nodes g) \<or> (length (g_nodes g') = Suc (length (g_nodes g)) \<and>
      (\<exists>j < length (g_nodes src). nd_name (g_nodes g' ! length (g_nodes g)) = nd_name (g_nodes src ! j) \<and> nd_outputs (g_nodes src ! j) = [i]))"
  shows "rewrite_inv M h0 src h' g' (m[i := Some (length (g_values g))])"
proof -
  let ?m = "m[i := Some (length (g_values g))]"
  have I: "length m = length (g_values src)" "heap_ext h0 h" "constants_ok h g"
    "\<And>i k. i < length (g_values src) \<Longrightarrow> m ! i = Some k \<Longrightarrow> carried M h0 src h g i k"
    "\<And>k. k < length (g_values g) \<Longrightarrow> \<exists>i < length (g_values src). m ! i = Some k"
    "\<And>k. k < length (g_nodes g) \<Longrightarrow> \<exists>j < length (g_nodes src). nd_name (g_nodes g ! k) = nd_name (g_nodes src ! j) \<and>
        (\<forall>out \<in> set (nd_outputs (g_nodes src ! j)). m ! out \<noteq> None)"
    using inv unfolding rewrite_inv_def by blast+
  have old: "?m ! j = m ! j" if "m ! j \<noteq> None" for j using that i(2) by (metis nth_list_update_neq)
  have ii: "?m ! i = Some (length (g_values g))" using i I(1) by simp
  have "carried M h0 src h' g' j k" if "j < length (g_values src)" "?m ! j = Some k" for j k
  proof (cases "j = i")
    case True
    then show ?thesis using that(2) ii new by simp
  next
    case False
    then have "m ! j = Some k" using that(2) by (metis nth_list_update_neq)
    then show ?thesis using carried_ext[OF I(4)[OF that(1)] e(1,4) I(3)] by blast
  qed
  moreover have "\<exists>j < length (g_values src). ?m ! j = Some k" if k: "k < length (g_values g')" for k
  proof (cases "k < length (g_values g)")
    case True
    then obtain j where "j < length (g_values src)" "m ! j = Some k" using I(5) by blast
    then show ?thesis using old[of j] by auto
  next
    case False
    then show ?thesis using k len i(1) ii by (intro exI[of _ i]) simp
  qed
  moreover have "\<exists>j < length (g_nodes src). nd_name (g_nodes g' ! k) = nd_name (g_nodes src ! j) \<and> (\<forall>out \<in> set (nd_outputs (g_nodes src ! j)). ?m ! out \<noteq> None)"
    if k: "k < length (g_nodes g')" for k
  proof (cases "k < length (g_nodes g)")
    case True
    then obtain j where j: "j < length (g_nodes src)" "nd_name (g_nodes g ! k) = nd_name (g_nodes src ! j)" "\<forall>out \<in> set (nd_outputs (g_nodes src ! j)). m ! out \<noteq> None"
      using I(6) by blast
    then show ?thesis using e(1) True old by (intro exI[of _ j]) (simp add: extends_def)
  next
    case False
    then obtain j where j: "j < length (g_nodes src)" "nd_name (g_nodes g' ! k) = nd_name (g_nodes src ! j)" "nd_outputs (g_nodes src ! j) = [i]"
      using node k by (metis less_Suc_eq)
    then show ?thesis using ii by (intro exI[of _ j]) simp
  qed
  moreover have "heap_ext h0 h'" by (rule heap_ext_trans[OF I(2) e(4)])
  ultimately show ?thesis using e(2,3,5) I(1) unfolding rewrite_inv_def by simp
qed

text \<open>Names that have not been carried over are free in the new graph.\<close>

lemma src_names:
  assumes "graph_ok src"
  shows "i < length (g_values src) \<Longrightarrow> j < length (g_values src) \<Longrightarrow> gv_name (g_values src ! i) = gv_name (g_values src ! j) \<Longrightarrow> i = j"
    and "a < length (g_nodes src) \<Longrightarrow> b < length (g_nodes src) \<Longrightarrow> nd_name (g_nodes src ! a) = nd_name (g_nodes src ! b) \<Longrightarrow> a = b"
    and "i < length (g_values src) \<Longrightarrow> a < length (g_nodes src) \<Longrightarrow> gv_name (g_values src ! i) \<noteq> nd_name (g_nodes src ! a)"
proof -
  have d: "distinct (map gv_name (g_values src))" "distinct (map nd_name (g_nodes src))"
    "set (map gv_name (g_values src)) \<inter> set (map nd_name (g_nodes src)) = {}" using assms by (simp_all add: graph_ok_def)
  show "i < length (g_values src) \<Longrightarrow> j < length (g_values src) \<Longrightarrow> gv_name (g_values src ! i) = gv_name (g_values src ! j) \<Longrightarrow> i = j"
    using d(1) by (simp add: distinct_conv_nth) blast
  show "a < length (g_nodes src) \<Longrightarrow> b < length (g_nodes src) \<Longrightarrow> nd_name (g_nodes src ! a) = nd_name (g_nodes src ! b) \<Longrightarrow> a = b"
    using d(2) by (simp add: distinct_conv_nth) blast
  show "i < length (g_values src) \<Longrightarrow> a < length (g_nodes src) \<Longrightarrow> gv_name (g_values src ! i) \<noteq> nd_name (g_nodes src ! a)"
    using d(3) by (metis (no_types, lifting) disjoint_iff in_set_conv_nth length_map nth_map)
qed

lemma fresh_value_name:
  assumes inv: "rewrite_inv M h0 src h g m" and ok: "graph_ok src" and i: "i < length (g_values src)" "m ! i = None"
  shows "gv_name (g_values src ! i) \<notin> set (map gv_name (g_values g) @ map nd_name (g_nodes g))"
proof
  assume "gv_name (g_values src ! i) \<in> set (map gv_name (g_values g) @ map nd_name (g_nodes g))"
  then consider (val) k where "k < length (g_values g)" "gv_name (g_values src ! i) = gv_name (g_values g ! k)"
    | (nod) k where "k < length (g_nodes g)" "gv_name (g_values src ! i) = nd_name (g_nodes g ! k)"
    by (auto simp: in_set_conv_nth)
  then show False
  proof cases
    case val
    then obtain j where j: "j < length (g_values src)" "m ! j = Some k" using inv unfolding rewrite_inv_def by blast
    then have "carried M h0 src h g j k" using inv unfolding rewrite_inv_def by blast
    then have "i = j" using src_names(1)[OF ok i(1) j(1)] val(2) by (simp add: carried_def)
    then show False using j(2) i(2) by simp
  next
    case nod
    then obtain j where "j < length (g_nodes src)" "nd_name (g_nodes g ! k) = nd_name (g_nodes src ! j)" using inv unfolding rewrite_inv_def by blast
    then show False using src_names(3)[OF ok i(1)] nod(2) by metis
  qed
qed

lemma fresh_node_name:
  assumes inv: "rewrite_inv M h0 src h g m" and ok: "graph_ok src" and j: "j < length (g_nodes src)" "out \<in> set (nd_outputs (g_nodes src ! j))" "m ! out = None"
  shows "nd_name (g_nodes src ! j) \<notin> set (map gv_name (g_values g) @ map nd_name (g_nodes g))"
proof
  assume "nd_name (g_nodes src ! j) \<in> set (map gv_name (g_values g) @ map nd_name (g_nodes g))"
  then consider (val) k where "k < length (g_values g)" "nd_name (g_nodes src ! j) = gv_name (g_values g ! k)"
    | (nod) k where "k < length (g_nodes g)" "nd_name (g_nodes src ! j) = nd_name (g_nodes g ! k)"
    by (auto simp: in_set_conv_nth)
  then show False
  proof cases
    case val
    then obtain i where i: "i < length (g_values src)" "m ! i = Some k" using inv unfolding rewrite_inv_def by blast
    then have "carried M h0 src h g i k" using inv unfolding rewrite_inv_def by blast
    then show False using src_names(3)[OF ok i(1) j(1)] val(2) by (simp add: carried_def)
  next
    case nod
    then obtain a where a: "a < length (g_nodes src)" "nd_name (g_nodes g ! k) = nd_name (g_nodes src ! a)"
      "\<forall>out \<in> set (nd_outputs (g_nodes src ! a)). m ! out \<noteq> None" using inv unfolding rewrite_inv_def by blast
    then have "a = j" using src_names(2)[OF ok j(1) a(1)] nod(2) by simp
    then show False using a(3) j(2,3) by blast
  qed
qed

end
