(* ===== verification/Rewrite_Sound.thy ===== *)
theory Rewrite_Sound
  imports Graph_Meaning
begin

text \<open>
  The operations of the rewriter keep its invariant: whatever a pass asks it to carry over keeps its name, its
  specification and its meaning, and the only way an operation can fail is the copy of a constant's buffer.
\<close>

section \<open>Outcomes\<close>

definition outcome :: "(exn \<Rightarrow> bool) \<Rightarrow> ('a \<Rightarrow> bool) \<Rightarrow> 'a result \<Rightarrow> bool" where
  "outcome Q P r = (case r of Inl e \<Rightarrow> Q e | Inr x \<Rightarrow> P x)"

lemma outcome_simps [simp]: "outcome Q P (Inl e) = Q e" "outcome Q P (Inr x) = P x"
  by (simp_all add: outcome_def)

lemma outcome_bindE: "outcome Q P r \<Longrightarrow> (\<And>x. r = Inr x \<Longrightarrow> P x \<Longrightarrow> outcome Q R (f x)) \<Longrightarrow> outcome Q R (bindE r f)"
  by (cases r) auto

lemma outcome_mono: "outcome Q P r \<Longrightarrow> (\<And>x. P x \<Longrightarrow> R x) \<Longrightarrow> outcome Q R r"
  by (cases r) auto

lemma outcome_foldE:
  assumes "\<And>k s. k < length xs \<Longrightarrow> P k s \<Longrightarrow> outcome Q (P (Suc k)) (f (xs ! k) s)" and "P 0 s"
  shows "outcome Q (P (length xs)) (foldE f xs s)"
  using assms
proof (induction xs arbitrary: s P)
  case Nil
  then show ?case by simp
next
  case (Cons x xs)
  have "outcome Q (P (Suc 0)) (f x s)" using Cons.prems(1)[of 0 s] Cons.prems(2) by simp
  moreover have "outcome Q (P (length (x # xs))) (foldE f xs t)" if "P (Suc 0) t" for t
    using Cons.IH[of "\<lambda>k. P (Suc k)" t] Cons.prems(1)[of "Suc k" for k] that by simp
  ultimately show ?case by (auto intro: outcome_bindE)
qed

text \<open>The one failure of a rewrite: copying the buffer of a well-formed constant throws.\<close>

definition copy_failure :: "exn \<Rightarrow> bool" where
  "copy_failure e \<longleftrightarrow> (\<exists>t h. tensor_ok h t \<and> tensor_copy t h = Inl e)"

section \<open>The invariant\<close>

definition mapped :: "rewriter \<Rightarrow> nat set" where
  "mapped rw = {i. i < length (rw_mapping rw) \<and> rw_mapping rw ! i \<noteq> None}"

definition grows :: "rewriter \<Rightarrow> rewriter \<Rightarrow> bool" where
  "grows rw rw' \<longleftrightarrow> (\<forall>i k. rw_mapping rw ! i = Some k \<longrightarrow> rw_mapping rw' ! i = Some k)"

lemma grows_refl [simp]: "grows rw rw"
  by (simp add: grows_def)

lemma grows_trans: "grows a b \<Longrightarrow> grows b c \<Longrightarrow> grows a c"
  by (simp add: grows_def)

definition rw_ok :: "'v meaning \<Rightarrow> heap \<Rightarrow> model \<Rightarrow> rewriter \<Rightarrow> bool" where
  "rw_ok M h0 sm rw \<longleftrightarrow> rw_source rw = sm \<and> \<not> rw_finished rw \<and>
     rewrite_inv M h0 (m_graph sm) (rw_heap rw) (rw_graph rw) (rw_mapping rw) \<and>
     (\<forall>i \<in> set (g_inputs (m_graph sm)). rw_mapping rw ! i \<noteq> None) \<and>
     g_inputs (rw_graph rw) = map (\<lambda>i. the (rw_mapping rw ! i)) (g_inputs (m_graph sm))"

lemma rewrite_invD:
  assumes "rewrite_inv M h0 src h g m"
  shows "graph_run g" "graph_ok g" "g_outputs g = []" "length m = length (g_values src)" "heap_ext h0 h" "constants_ok h g"
    "i < length (g_values src) \<Longrightarrow> m ! i = Some k \<Longrightarrow> carried M h0 src h g i k"
  using assms graph_run_ok unfolding rewrite_inv_def by blast+

lemma rw_okD:
  assumes "rw_ok M h0 sm rw"
  shows "rw_source rw = sm" "\<not> rw_finished rw" "rewrite_inv M h0 (m_graph sm) (rw_heap rw) (rw_graph rw) (rw_mapping rw)"
    "length (rw_mapping rw) = length (g_values (m_graph sm))"
  using assms rewrite_invD(4) unfolding rw_ok_def by blast+

lemma constants_ok_add_constant:
  assumes "constants_ok h g" and "length (g_constants g) = length (g_values g)" and "add_constant name t g = Inr (i, g')"
    and "heap_ext h h'" and "tensor_ok h' t"
  shows "constants_ok h' g'"
proof -
  have g': "length (g_values g') = Suc (length (g_values g))" "g_constants g' = g_constants g @ [Some t]"
    using assms(3) by (auto simp: add_constant_def Let_def)
  have "tensor_ok h' u" if "i < length (g_values g')" "g_constants g' ! i = Some u" for i u
  proof (cases "i < length (g_values g)")
    case True
    then have "tensor_ok h u" using assms(1,2) that(2) by (simp add: constants_ok_def g'(2) nth_append)
    then show ?thesis using heap_ext_tensor[OF assms(4)] by simp
  next
    case False
    then show ?thesis using that assms(2,5) by (simp add: g' nth_append)
  qed
  then show ?thesis unfolding constants_ok_def by blast
qed

lemma constants_ok_add_node:
  assumes "constants_ok h g" and "length (g_constants g) = length (g_values g)" and "add_node name op ins attrs g = Inr (i, g')"
  shows "constants_ok h g'"
proof -
  obtain x where g': "g_values g' = g_values g @ [x]" "g_constants g' = g_constants g @ [None]"
    by (rule add_node_Inr[OF assms(3)]) simp
  have "tensor_ok h u" if "i < length (g_values g')" "g_constants g' ! i = Some u" for i u
  proof (cases "i < length (g_values g)")
    case True
    then show ?thesis using assms(1,2) that(2) by (simp add: constants_ok_def g'(2) nth_append)
  next
    case False
    then show ?thesis using that assms(2) by (simp add: g' nth_append)
  qed
  then show ?thesis unfolding constants_ok_def by blast
qed

lemma denotes_constant:
  assumes "denotes M h g i v" and "gv_kind (g_values g ! i) = Kind_constant" and "g_constants g ! i = Some t"
  shows "v = mn_constant M (tensor_contents h t)"
  using assms(1) by cases (use assms in auto)

lemma tensor_copy_contents:
  assumes "tensor_ok h t" and "tensor_copy t h = Inr (t', h')"
  shows "tensor_contents h' t' = tensor_contents h t" "tensor_ok h' t'" "heap_ext h h'" "tensor_spec_of t' = tensor_spec_of t"
  using tensor_copy_ok[OF assms] by (simp_all add: tensor_contents_def tensor_spec_of_def)

text \<open>Mapping one more value in a graph that has grown.\<close>

lemma rw_ok_step:
  assumes rw: "rw_ok M h0 sm rw" and i: "i < length (g_values (m_graph sm))" "rw_mapping rw ! i = None" and ins: "g_inputs g' = g_inputs (rw_graph rw)"
    and inv: "rewrite_inv M h0 (m_graph sm) h' g' ((rw_mapping rw)[i := Some k])"
  shows "rw_ok M h0 sm (rw\<lparr>rw_graph := g', rw_mapping := (rw_mapping rw)[i := Some k], rw_heap := h'\<rparr>) \<and>
    grows rw (rw\<lparr>rw_graph := g', rw_mapping := (rw_mapping rw)[i := Some k], rw_heap := h'\<rparr>) \<and>
    mapped (rw\<lparr>rw_graph := g', rw_mapping := (rw_mapping rw)[i := Some k], rw_heap := h'\<rparr>) = insert i (mapped rw)"
proof -
  let ?m = "(rw_mapping rw)[i := Some k]"
  note R = rw_okD[OF rw]
  have old: "?m ! j = rw_mapping rw ! j" if "rw_mapping rw ! j \<noteq> None" for j using that i(2) by (metis nth_list_update_neq)
  have ne: "\<forall>j \<in> set (g_inputs (m_graph sm)). rw_mapping rw ! j \<noteq> None" using rw by (simp add: rw_ok_def)
  have "map (\<lambda>j. the (?m ! j)) (g_inputs (m_graph sm)) = map (\<lambda>j. the (rw_mapping rw ! j)) (g_inputs (m_graph sm))"
    using ne old by simp
  moreover have "\<forall>j \<in> set (g_inputs (m_graph sm)). ?m ! j \<noteq> None" using ne old by metis
  moreover have "grows rw (rw\<lparr>rw_graph := g', rw_mapping := ?m, rw_heap := h'\<rparr>)" using old by (simp add: grows_def)
  moreover have "mapped (rw\<lparr>rw_graph := g', rw_mapping := ?m, rw_heap := h'\<rparr>) = insert i (mapped rw)"
    using i(1) R(4) by (auto simp: mapped_def nth_list_update)
  ultimately show ?thesis using rw inv ins by (simp add: rw_ok_def)
qed

section \<open>Copying values\<close>

definition copyable :: "rewriter \<Rightarrow> nat \<Rightarrow> bool" where
  "copyable rw i \<longleftrightarrow> i < length (g_values (m_graph (rw_source rw))) \<and>
     (rw_mapping rw ! i \<noteq> None \<or> gv_kind (g_values (m_graph (rw_source rw)) ! i) = Kind_constant)"

definition copied :: "'v meaning \<Rightarrow> heap \<Rightarrow> model \<Rightarrow> rewriter \<Rightarrow> rewriter \<Rightarrow> nat set \<Rightarrow> nat \<Rightarrow> bool" where
  "copied M h0 sm rw rw' A n \<longleftrightarrow> rw_ok M h0 sm rw' \<and> grows rw rw' \<and> mapped rw' = A \<union> mapped rw \<and>
     length (g_nodes (rw_graph rw')) = length (g_nodes (rw_graph rw)) + n"

lemma copied_trans: "copied M h0 sm a b A n \<Longrightarrow> copied M h0 sm b c B m \<Longrightarrow> copied M h0 sm a c (A \<union> B) (n + m)"
  using grows_trans by (auto simp: copied_def)

lemma copy_value_ok:
  assumes rw: "rw_ok M h0 sm rw" and src: "graph_ok (m_graph sm)" "names_ok (m_graph sm)" "constants_ok h0 (m_graph sm)" and i: "copyable rw i"
  shows "outcome copy_failure (\<lambda>(k, rw'). copied M h0 sm rw rw' {i} 0 \<and> rw_mapping rw' ! i = Some k) (copy_value i rw)"
proof (cases "rw_mapping rw ! i")
  case (Some k)
  have "i \<in> mapped rw" using i Some rw_okD[OF rw] by (simp add: mapped_def copyable_def)
  then show ?thesis using Some i rw_okD[OF rw] rw
    by (auto simp: copy_value_def graph_value_at_def copyable_def copied_def)
next
  case None
  let ?src = "m_graph sm" and ?h = "rw_heap rw" and ?g = "rw_graph rw"
  let ?v = "g_values ?src ! i" and ?k = "length (g_values (rw_graph rw))"
  note R = rw_okD[OF rw] and I = rewrite_invD[OF rw_okD(3)[OF rw]]
  have il: "i < length (g_values ?src)" and kind: "gv_kind ?v = Kind_constant" using i None R(1) by (auto simp: copyable_def)
  have vo: "value_ok ?src i" using src(1) il by (simp add: graph_ok_def)
  obtain t where t: "g_constants ?src ! i = Some t" "gv_spec ?v = tensor_spec_of t" "validate_spec (gv_spec ?v) = Inr ()"
    using vo kind by (auto simp: value_ok_def Let_def)
  have tok: "tensor_ok h0 t" using src(3) t(1) il by (simp add: constants_ok_def)
  then have tok': "tensor_ok ?h t" "tensor_contents ?h t = tensor_contents h0 t" using heap_ext_tensor contents_ext I(5) by auto
  show ?thesis
  proof (cases "tensor_copy t ?h")
    case (Inl e)
    then have "copy_failure e" using tok'(1) by (auto simp: copy_failure_def)
    then show ?thesis using None il R(1,2) kind t(1) Inl by (simp add: copy_value_def graph_value_at_def graph_constant_def)
  next
    case (Inr r)
    obtain t' h' where r: "tensor_copy t ?h = Inr (t', h')" using Inr by (cases r) auto
    note T = tensor_copy_contents[OF tok'(1) r]
    have name: "gv_name ?v \<noteq> []" "gv_name ?v \<notin> set (map gv_name (g_values ?g) @ map nd_name (g_nodes ?g))"
      using src(2) il fresh_value_name[OF R(3) src(1) il None] by (auto simp: names_ok_def)
    define g' where "g' = ?g\<lparr>g_values := g_values ?g @ [\<lparr>gv_id = ?k, gv_name = gv_name ?v, gv_spec = tensor_spec_of t', gv_kind = Kind_constant,
                    gv_producer = None\<rparr>], g_constants := g_constants ?g @ [Some t']\<rparr>"
    have add: "add_constant (gv_name ?v) t' ?g = Inr (?k, g')"
      using name t(2,3) T(4) by (simp add: add_constant_def require_unique_name_def g'_def Let_def)
    have lens: "length (g_constants ?g) = ?k" using I(2) by (simp add: graph_ok_def)
    have new: "carried M h0 ?src h' g' i ?k"
    proof -
      have "denotes M h' g' ?k v" if "denotes M h0 ?src i v" for v
      proof -
        have "v = mn_constant M (tensor_contents h' t')" using denotes_constant[OF that kind t(1)] T(1) tok'(2) by simp
        then show ?thesis using denotes.of_constant[of ?k g' t' M h'] lens by (simp add: g'_def nth_append)
      qed
      then show ?thesis using kind t(2) T(4) by (simp add: carried_def g'_def nth_append)
    qed
    have inv: "rewrite_inv M h0 ?src h' g' ((rw_mapping rw)[i := Some ?k])"
    proof (rule rewrite_step[OF R(3) _ _ _ T(3) _ _ il None new])
      show "extends ?g g'" using add_constant_ok[OF I(2) add] by simp
      show "graph_run g'" by (rule graph_run.new_constant[OF I(1) add])
      show "constants_ok h' g'" by (rule constants_ok_add_constant[OF I(6) lens add T(3,2)])
    qed (use I(3) in \<open>simp_all add: g'_def\<close>)
    have "g_inputs g' = g_inputs ?g" by (simp add: g'_def)
    from rw_ok_step[OF rw il None this inv] show ?thesis
      using None il R(1,2,4) kind t(1) r add by (simp add: copy_value_def graph_value_at_def graph_constant_def copied_def) (simp add: g'_def)
  qed
qed

lemma copyable_grows: "grows rw rw' \<Longrightarrow> rw_source rw' = rw_source rw \<Longrightarrow> copyable rw i \<Longrightarrow> copyable rw' i"
  by (auto simp: copyable_def grows_def)

lemma copy_values_ok:
  assumes "rw_ok M h0 sm rw" and src: "graph_ok (m_graph sm)" "names_ok (m_graph sm)" "constants_ok h0 (m_graph sm)"
    and "\<forall>i \<in> set is. copyable rw i"
  shows "outcome copy_failure (\<lambda>(ks, rw'). copied M h0 sm rw rw' (set is) 0 \<and> map Some ks = map ((!) (rw_mapping rw')) is) (copy_values is rw)"
  using assms(1,5)
proof (induction "is" arbitrary: rw)
  case Nil
  then show ?case by (simp add: copied_def)
next
  case (Cons i js)
  have first: "outcome copy_failure (\<lambda>(k, rw'). copied M h0 sm rw rw' {i} 0 \<and> rw_mapping rw' ! i = Some k) (copy_value i rw)"
    using copy_value_ok[OF Cons.prems(1) src] Cons.prems(2) by simp
  show ?case unfolding copy_values.simps
  proof (rule outcome_bindE[OF first])
    fix x assume x: "case x of (k, rw') \<Rightarrow> copied M h0 sm rw rw' {i} 0 \<and> rw_mapping rw' ! i = Some k"
    obtain k rw1 where k: "x = (k, rw1)" by (cases x)
    have c: "copied M h0 sm rw rw1 {i} 0" "rw_mapping rw1 ! i = Some k" using x k by simp_all
    then have ok1: "rw_ok M h0 sm rw1" "grows rw rw1" by (simp_all add: copied_def)
    have "\<forall>j \<in> set js. copyable rw1 j"
      using Cons.prems copyable_grows[OF ok1(2)] rw_okD(1) ok1(1) by (metis list.set_intros(2))
    from Cons.IH[OF ok1(1) this]
    have "outcome copy_failure (\<lambda>(ks, rw'). copied M h0 sm rw rw' (set (i # js)) 0 \<and> map Some ks = map ((!) (rw_mapping rw')) (i # js))
      (bindE (copy_values js rw1) (\<lambda>(ks, rw2). Inr (k # ks, rw2)))"
    proof (rule outcome_bindE)
      fix y assume y: "case y of (ks, rw') \<Rightarrow> copied M h0 sm rw1 rw' (set js) 0 \<and> map Some ks = map ((!) (rw_mapping rw')) js"
      obtain ks rw2 where ks: "y = (ks, rw2)" by (cases y)
      have "copied M h0 sm rw rw2 ({i} \<union> set js) (0 + 0)" using copied_trans[OF c(1)] y ks by blast
      moreover have "rw_mapping rw2 ! i = Some k" using y ks c(2) by (simp add: copied_def grows_def)
      ultimately show "outcome copy_failure (\<lambda>(ks, rw'). copied M h0 sm rw rw' (set (i # js)) 0 \<and> map Some ks = map ((!) (rw_mapping rw')) (i # js))
        (case y of (ks, rw2) \<Rightarrow> Inr (k # ks, rw2))" using y ks by simp
    qed
    then show "outcome copy_failure (\<lambda>(ks, rw'). copied M h0 sm rw rw' (set (i # js)) 0 \<and> map Some ks = map ((!) (rw_mapping rw')) (i # js))
      (case x of (k, rw1) \<Rightarrow> bindE (copy_values js rw1) (\<lambda>(ks, rw2). Inr (k # ks, rw2)))" by (simp add: k)
  qed
qed

section \<open>Copying and replacing nodes\<close>

text \<open>
  A node may be replaced by any node of the same specification whose meaning on the carried inputs is the meaning of
  the value it stands for.
\<close>

lemma carried_inputs:
  assumes inv: "rewrite_inv M h0 src h g m" and ins: "\<forall>i \<in> set is. i < length (g_values src)" and ks: "map Some ks = map ((!) m) is"
  shows "\<forall>k \<in> set ks. k < length (g_values g)"
    and "map (\<lambda>k. gv_spec (g_values g ! k)) ks = map (\<lambda>i. gv_spec (g_values src ! i)) is"
    and "length ws = length is \<Longrightarrow> \<forall>k < length ws. denotes M h0 src (is ! k) (ws ! k) \<Longrightarrow> \<forall>k < length ws. denotes M h g (ks ! k) (ws ! k)"
proof -
  have len: "length ks = length is" using ks by (metis length_map)
  have c: "carried M h0 src h g (is ! k) (ks ! k)" if "k < length is" for k
  proof (rule rewrite_invD(7)[OF inv])
    show "is ! k < length (g_values src)" using ins that by simp
    show "m ! (is ! k) = Some (ks ! k)" using ks that len by (metis nth_map)
  qed
  show "\<forall>k \<in> set ks. k < length (g_values g)" using c len by (auto simp: in_set_conv_nth carried_def)
  show "map (\<lambda>k. gv_spec (g_values g ! k)) ks = map (\<lambda>i. gv_spec (g_values src ! i)) is"
    using c len by (intro nth_equalityI) (simp_all add: carried_def)
  show "\<forall>k < length ws. denotes M h g (ks ! k) (ws ! k)"
    if "length ws = length is" "\<forall>k < length ws. denotes M h0 src (is ! k) (ws ! k)" using that c by (simp add: carried_def)
qed

lemma add_node_succeeds:
  assumes "name \<noteq> []" and "name \<notin> set (map gv_name (g_values g) @ map nd_name (g_nodes g))"
    and "output_name name 0 \<notin> set (map gv_name (g_values g) @ map nd_name (g_nodes g))"
    and "\<forall>k \<in> set ks. k < length (g_values g)"
    and "infer_output_specs op (map (\<lambda>k. gv_spec (g_values g ! k)) ks) attrs = Inr [out]" and "validate_spec out = Inr ()"
  shows "add_node name op ks attrs g = Inr (length (g_nodes g),
     g\<lparr>g_values := g_values g @ [\<lparr>gv_id = length (g_values g), gv_name = output_name name 0, gv_spec = out,
                    gv_kind = Kind_intermediate, gv_producer = Some (length (g_nodes g))\<rparr>],
            g_constants := g_constants g @ [None],
            g_nodes := g_nodes g @ [\<lparr>nd_id = length (g_nodes g), nd_name = name, nd_op = op, nd_inputs = ks,
                    nd_outputs = [length (g_values g)], nd_attributes = attrs\<rparr>]\<rparr>)"
proof -
  have "mapE (node_input_spec g) ks = Inr (map (\<lambda>k. gv_spec (g_values g ! k)) ks)"
    using assms(4) by (induction ks) (simp_all add: node_input_spec_def)
  moreover have "require_unique_name g name = Inr ()" "require_unique_name g (output_name name 0) = Inr ()"
    using assms(1-3) by (simp_all add: require_unique_name_def output_name_def)
  ultimately show ?thesis using assms(5,6) by (simp add: add_node_def Let_def)
qed

lemma replace_node_ok:
  assumes rw: "rw_ok M h0 sm rw" and src: "graph_ok (m_graph sm)" "names_ok (m_graph sm)" "constants_ok h0 (m_graph sm)"
    and j: "j < length (g_nodes (m_graph sm))" "nd_outputs (g_nodes (m_graph sm) ! j) = [out]" "rw_mapping rw ! out = None"
    and ins: "\<forall>i \<in> set is. copyable rw i"
    and spec: "infer_output_specs op (map (\<lambda>i. gv_spec (g_values (m_graph sm) ! i)) is) attrs = Inr [gv_spec (g_values (m_graph sm) ! out)]"
    and fresh: "out \<notin> set is"
    and sem: "\<And>v. denotes M h0 (m_graph sm) out v \<Longrightarrow>
      \<exists>ws. length ws = length is \<and> (\<forall>k < length ws. denotes M h0 (m_graph sm) (is ! k) (ws ! k)) \<and> v = mn_op M op attrs ws"
  shows "outcome copy_failure (\<lambda>(k, rw'). copied M h0 sm rw rw' (insert out (set is)) 1) (replace_node j op is attrs rw)"
proof -
  let ?src = "m_graph sm" and ?n = "g_nodes (m_graph sm) ! j"
  note R = rw_okD[OF rw]
  have no: "node_ok ?src j" using src(1) j(1) by (simp add: graph_ok_def)
  then have out: "out < length (g_values ?src)" "gv_kind (g_values ?src ! out) = Kind_intermediate" "gv_producer (g_values ?src ! out) = Some j"
    using j(2) unfolding node_ok_def Let_def by auto
  have valid: "validate_spec (gv_spec (g_values ?src ! out)) = Inr ()" using src(1) out(1) by (simp add: graph_ok_def value_ok_def Let_def)
  have oname: "nd_name ?n \<noteq> []" "gv_name (g_values ?src ! out) = output_name (nd_name ?n) 0" using src(2) j(1,2) by (auto simp: names_ok_def)
  have prefix: "outcome copy_failure (\<lambda>(ks, rw'). copied M h0 sm rw rw' (set is) 0 \<and> map Some ks = map ((!) (rw_mapping rw')) is) (copy_values is rw)"
    by (rule copy_values_ok[OF rw src ins])
  have step: "outcome copy_failure (\<lambda>(k, rw'). copied M h0 sm rw rw' (insert out (set is)) 1)
      (bindE (add_node (nd_name ?n) op ks attrs (rw_graph rw1)) (\<lambda>(k, g). bindE (graph_node g k) (\<lambda>new.
          if length (nd_outputs new) \<noteq> length (nd_outputs ?n) then Inl (Logic_error ''rewritten node output count changed'')
          else bindE (foldE (map_output ?src g) (zip (nd_outputs ?n) (nd_outputs new)) (rw_mapping rw1)) (\<lambda>mapping.
            Inr (k, rw1\<lparr>rw_graph := g, rw_mapping := mapping\<rparr>)))))"
    if c: "copied M h0 sm rw rw1 (set is) 0" and ks: "map Some ks = map ((!) (rw_mapping rw1)) is" for ks rw1
  proof -
    let ?g = "rw_graph rw1" and ?h = "rw_heap rw1" and ?m = "rw_mapping rw1"
    let ?k = "length (g_values (rw_graph rw1))"
    have ok1: "rw_ok M h0 sm rw1" and map1: "mapped rw1 = set is \<union> mapped rw" using c by (simp_all add: copied_def)
    note R1 = rw_okD[OF ok1] and I = rewrite_invD[OF rw_okD(3)[OF ok1]]
    have "out \<notin> mapped rw1" using map1 fresh j(3) by (simp add: mapped_def)
    then have none: "?m ! out = None" using out(1) R1(4) by (simp add: mapped_def)
    have il: "\<forall>i \<in> set is. i < length (g_values ?src)" using ins R(1) by (simp add: copyable_def)
    note C = carried_inputs[OF R1(3) il ks]
    define g' where "g' = ?g\<lparr>g_values := g_values ?g @ [\<lparr>gv_id = ?k, gv_name = output_name (nd_name ?n) 0, gv_spec = gv_spec (g_values ?src ! out),
                    gv_kind = Kind_intermediate, gv_producer = Some (length (g_nodes ?g))\<rparr>],
            g_constants := g_constants ?g @ [None],
            g_nodes := g_nodes ?g @ [\<lparr>nd_id = length (g_nodes ?g), nd_name = nd_name ?n, nd_op = op, nd_inputs = ks,
                    nd_outputs = [?k], nd_attributes = attrs\<rparr>]\<rparr>"
    have add: "add_node (nd_name ?n) op ks attrs ?g = Inr (length (g_nodes ?g), g')"
      unfolding g'_def
    proof (rule add_node_succeeds[OF oname(1) _ _ C(1) _ valid])
      show "nd_name ?n \<notin> set (map gv_name (g_values ?g) @ map nd_name (g_nodes ?g))"
        by (rule fresh_node_name[OF R1(3) src(1) j(1) _ none]) (simp add: j(2))
      show "output_name (nd_name ?n) 0 \<notin> set (map gv_name (g_values ?g) @ map nd_name (g_nodes ?g))"
        using fresh_value_name[OF R1(3) src(1) out(1) none] oname(2) by simp
      show "infer_output_specs op (map (\<lambda>k. gv_spec (g_values ?g ! k)) ks) attrs = Inr [gv_spec (g_values ?src ! out)]"
        using spec C(2) by simp
    qed
    have lens: "length (g_constants ?g) = ?k" using I(2) by (simp add: graph_ok_def)
    have e: "extends ?g g'" using graph_add_node_ok[OF I(2) add] by simp
    have new: "carried M h0 ?src ?h g' out ?k"
    proof -
      have "denotes M ?h g' ?k v" if v: "denotes M h0 ?src out v" for v
      proof -
        obtain ws where ws: "length ws = length is" "\<forall>k < length ws. denotes M h0 ?src (is ! k) (ws ! k)" "v = mn_op M op attrs ws"
          using sem[OF v] by blast
        have "denotes M ?h g' (ks ! k) (ws ! k)" if "k < length ws" for k
          by (rule denotes_ext[OF _ e heap_ext_refl I(6)]) (rule C(3)[OF ws(1,2), rule_format, OF that])
        then have "\<forall>k < length ws. denotes M ?h g' (ks ! k) (ws ! k)" by blast
        moreover have "length ks = length is" using ks by (metis length_map)
        ultimately show ?thesis using denotes.of_node[of ?k g' "length (g_nodes ?g)" ws M ?h] ws(1,3) by (simp add: g'_def)
      qed
      then show ?thesis using oname(2) out(2) by (simp add: carried_def g'_def)
    qed
    have inv: "rewrite_inv M h0 ?src ?h g' (?m[out := Some ?k])"
    proof (rule rewrite_step[OF R1(3) e _ _ heap_ext_refl _ _ out(1) none new])
      show "graph_run g'" by (rule graph_run.new_node[OF I(1) add])
      show "constants_ok ?h g'" by (rule constants_ok_add_node[OF I(6) lens add])
      show "length (g_nodes g') = length (g_nodes ?g) \<or> (length (g_nodes g') = Suc (length (g_nodes ?g)) \<and>
        (\<exists>j < length (g_nodes ?src). nd_name (g_nodes g' ! length (g_nodes ?g)) = nd_name (g_nodes ?src ! j) \<and> nd_outputs (g_nodes ?src ! j) = [out]))"
        using j by (auto simp: g'_def)
    qed (use I(3) in \<open>simp_all add: g'_def\<close>)
    have gi: "g_inputs g' = g_inputs ?g" by (simp add: g'_def)
    let ?rw = "rw1\<lparr>rw_graph := g', rw_mapping := ?m[out := Some ?k]\<rparr>"
    have last: "graph_node g' (length (g_nodes ?g)) = Inr \<lparr>nd_id = length (g_nodes ?g), nd_name = nd_name ?n, nd_op = op, nd_inputs = ks,
                    nd_outputs = [?k], nd_attributes = attrs\<rparr>"
      by (simp add: graph_node_def g'_def)
    have map: "foldE (map_output ?src g') (zip [out] [?k]) ?m = Inr (?m[out := Some ?k])"
      using out(1) by (simp add: map_output_def graph_value_at_def g'_def)
    have "rw1\<lparr>rw_graph := g', rw_mapping := ?m[out := Some ?k], rw_heap := ?h\<rparr> = ?rw" by (cases rw1) simp
    then have "copied M h0 sm rw1 ?rw {out} 1" using rw_ok_step[OF ok1 out(1) none gi inv] by (simp add: copied_def) (simp add: g'_def)
    then have "copied M h0 sm rw ?rw (insert out (set is)) 1" using copied_trans[OF c] by fastforce
    then show ?thesis unfolding add bindE_Inr prod.case last node.simps j(2) map by simp
  qed
  have unfold: "replace_node j op is attrs rw = bindE (copy_values is rw) (\<lambda>(ks, rw1).
      bindE (add_node (nd_name ?n) op ks attrs (rw_graph rw1)) (\<lambda>(k, g). bindE (graph_node g k) (\<lambda>new.
          if length (nd_outputs new) \<noteq> length (nd_outputs ?n) then Inl (Logic_error ''rewritten node output count changed'')
          else bindE (foldE (map_output ?src g) (zip (nd_outputs ?n) (nd_outputs new)) (rw_mapping rw1)) (\<lambda>mapping.
            Inr (k, rw1\<lparr>rw_graph := g, rw_mapping := mapping\<rparr>)))))"
    unfolding replace_node_def R(1) using R(2) j by (simp add: graph_node_def)
  show ?thesis unfolding unfold by (rule outcome_bindE[OF prefix]) (use step in auto)
qed

end
