(* ===== verification/Graph_Passes.thy ===== *)
theory Graph_Passes
  imports Graph_Rewriter
begin

text \<open>
  The optimizer's passes (\<^verbatim>\<open>src/graph/optimizer/\<close>): the pass that changes nothing, dead code elimination,
  the fusion of MatMul and Add into Gemm, the fusion of Gemm and ReLU, and the manager that runs them in a row
  and checks each result. A pass maps a model to its result; copies of constants are made in the heap.
\<close>

section \<open>Results\<close>

record pass_statistics =
  ps_pass_name :: string
  ps_nodes_before :: nat
  ps_nodes_after :: nat
  ps_values_before :: nat
  ps_values_after :: nat
  ps_nodes_rewritten :: nat
  ps_changed :: bool

record optimization_result =
  or_model :: model
  or_mapping :: value_mapping
  or_statistics :: "pass_statistics list"

definition mapped_value :: "optimization_result \<Rightarrow> nat \<Rightarrow> nat option result" where
  "mapped_value r original =
     (if original \<ge> length (or_mapping r) then Inl (Out_of_range ''optimization source ValueId is out of range'')
      else Inr (or_mapping r ! original))"

definition result_changed :: "optimization_result \<Rightarrow> bool" where
  "result_changed r \<longleftrightarrow> (\<exists>s \<in> set (or_statistics r). ps_changed s)"

type_synonym pass_run = "model \<Rightarrow> heap \<Rightarrow> (optimization_result \<times> heap) result"

record graph_pass =
  gp_name :: string
  gp_run :: pass_run

text \<open>Passing a model by value copies its graph, and with it every constant, in the order of the value table.\<close>

fun copy_constants :: "tensor option list \<Rightarrow> heap \<Rightarrow> (tensor option list \<times> heap) result" where
  "copy_constants [] h = Inr ([], h)"
| "copy_constants (None # ts) h = bindE (copy_constants ts h) (\<lambda>(us, h'). Inr (None # us, h'))"
| "copy_constants (Some t # ts) h = bindE (tensor_copy t h) (\<lambda>(u, h1). bindE (copy_constants ts h1) (\<lambda>(us, h2). Inr (Some u # us, h2)))"

definition copy_model :: "model \<Rightarrow> heap \<Rightarrow> (model \<times> heap) result" where
  "copy_model m h = bindE (copy_constants (g_constants (m_graph m)) h) (\<lambda>(cs, h').
     Inr (m\<lparr>m_graph := (m_graph m)\<lparr>g_constants := cs\<rparr>\<rparr>, h'))"

definition identity_mapping :: "nat \<Rightarrow> value_mapping" where
  "identity_mapping n = map Some [0..<n]"

text \<open>What a pass reports when it has nothing to do.\<close>

definition unchanged_result :: "string \<Rightarrow> model \<Rightarrow> heap \<Rightarrow> (optimization_result \<times> heap) result" where
  "unchanged_result name m h =
     (let n = length (g_nodes (m_graph m)); v = length (g_values (m_graph m)) in
      bindE (copy_model m h) (\<lambda>(m', h'). Inr (\<lparr>or_model = m', or_mapping = identity_mapping v,
        or_statistics = [\<lparr>ps_pass_name = name, ps_nodes_before = n, ps_nodes_after = n, ps_values_before = v, ps_values_after = v,
          ps_nodes_rewritten = 0, ps_changed = False\<rparr>]\<rparr>, h')))"

definition no_op_run :: pass_run where
  "no_op_run m h = unchanged_result ''NoOpPass'' m h"

definition no_op_pass :: graph_pass where
  "no_op_pass = \<lparr>gp_name = ''NoOpPass'', gp_run = no_op_run\<rparr>"

section \<open>Dead code elimination\<close>

lemma unset_flag_less: "i < length fs \<Longrightarrow> \<not> fs ! i \<Longrightarrow> length (filter Not (fs[i := True])) < length (filter Not fs)"
  by (induction fs arbitrary: i) (auto simp: nth_Cons split: nat.splits)

text \<open>The work list is a stack with its top first. An index outside the flag vectors would be undefined behaviour.\<close>

function live_loop :: "graph \<Rightarrow> nat list \<Rightarrow> bool list \<Rightarrow> bool list \<Rightarrow> (bool list \<times> bool list) result" where
  "live_loop g [] live_values live_nodes = Inr (live_values, live_nodes)"
| "live_loop g (i # pending) live_values live_nodes =
     (if i \<ge> length live_values then Inl (Undefined_behaviour ''vector index'')
      else if live_values ! i then live_loop g pending live_values live_nodes
      else bindE (graph_value_at g i) (\<lambda>v. case gv_producer v of
          None \<Rightarrow> live_loop g pending (live_values[i := True]) live_nodes
        | Some p \<Rightarrow>
          if p \<ge> length live_nodes then Inl (Undefined_behaviour ''vector index'')
          else if live_nodes ! p then live_loop g pending (live_values[i := True]) live_nodes
          else bindE (graph_node g p) (\<lambda>n.
            live_loop g (rev (nd_inputs n) @ pending) (live_values[i := True]) (live_nodes[p := True]))))"
  by pat_completeness auto

termination
  by (relation "measures [\<lambda>(_, _, live_values, _). length (filter Not live_values), \<lambda>(_, pending, _, _). length pending]")
    (auto intro: unset_flag_less)

definition copy_live :: "bool list \<Rightarrow> nat \<Rightarrow> rewriter \<Rightarrow> rewriter result" where
  "copy_live live_nodes nid rw = (if live_nodes ! nid then bindE (copy_node nid rw) (\<lambda>(_, rw'). Inr rw') else Inr rw)"

definition copy_missing :: "nat \<Rightarrow> rewriter \<Rightarrow> rewriter result" where
  "copy_missing i rw = (if rw_mapping rw ! i = None then bindE (copy_value i rw) (\<lambda>(_, rw'). Inr rw') else Inr rw)"

definition dead_code_run :: pass_run where
  "dead_code_run m h =
     (let source = m_graph m in
      bindE (live_loop source (rev (g_outputs source)) (replicate (length (g_values source)) False) (replicate (length (g_nodes source)) False))
        (\<lambda>(_, live_nodes).
      bindE (mk_rewriter m h) (\<lambda>rw. bindE (topological_order source) (\<lambda>order.
      bindE (foldE (copy_live live_nodes) order rw) (\<lambda>rw1. bindE (foldE copy_missing (g_outputs source) rw1) (\<lambda>rw2.
      bindE (finish_rewrite rw2) (\<lambda>(optimized, rw3).
        let nodes = length (g_nodes source); values_before = length (g_values source);
            nodes_after = length (g_nodes (m_graph optimized)); values_after = length (g_values (m_graph optimized)) in
        Inr (\<lparr>or_model = optimized, or_mapping = rw_mapping rw2,
          or_statistics = [\<lparr>ps_pass_name = ''DeadCodeEliminationPass'', ps_nodes_before = nodes, ps_nodes_after = nodes_after,
            ps_values_before = values_before, ps_values_after = values_after, ps_nodes_rewritten = nodes - nodes_after,
            ps_changed = (nodes \<noteq> nodes_after \<or> values_before \<noteq> values_after)\<rparr>]\<rparr>, rw_heap rw3))))))))"

definition dead_code_pass :: graph_pass where
  "dead_code_pass = \<lparr>gp_name = ''DeadCodeEliminationPass'', gp_run = dead_code_run\<rparr>"

section \<open>The fusion of MatMul and Add\<close>

text \<open>\<open>1.0F\<close> has the bits \<open>0x3F800000\<close>.\<close>

definition canonical_attributes :: node_attributes where
  "canonical_attributes = [(''alpha'', Attr_float 0x3F800000), (''beta'', Attr_float 0x3F800000),
     (''transA'', Attr_integer 0), (''transB'', Attr_integer 0)]"

record matmul_candidate =
  mc_matmul :: nat
  mc_inputs :: "nat list"

text \<open>
  The loop over the inputs of the addition: the index and the producer of the only input that is a product;
  \<open>None\<close> when it returns early because both are.
\<close>

fun find_product :: "graph \<Rightarrow> nat list \<Rightarrow> nat \<Rightarrow> (nat \<times> nat) option \<Rightarrow> (nat \<times> nat) option option result" where
  "find_product g [] index found = Inr (Some found)"
| "find_product g (i # is) index found = bindE (graph_value_at g i) (\<lambda>v. case gv_producer v of
     None \<Rightarrow> find_product g is (Suc index) found
   | Some p \<Rightarrow> bindE (graph_node g p) (\<lambda>n.
       if nd_op n \<noteq> Op_MatMul then find_product g is (Suc index) found
       else if found \<noteq> None then Inr None
       else find_product g is (Suc index) (Some (index, p))))"

text \<open>The three handlers: these exceptions mean that the pattern does not apply.\<close>

fun no_match :: "exn \<Rightarrow> bool" where
  "no_match (Invalid_argument _) = True"
| "no_match (Out_of_range _) = True"
| "no_match (Overflow_error _) = True"
| "no_match _ = False"

definition value_spec :: "graph \<Rightarrow> nat \<Rightarrow> tensor_spec result" where
  "value_spec g i = bindE (graph_value_at g i) (\<lambda>v. Inr (gv_spec v))"

definition match_product :: "graph \<Rightarrow> graph_analysis \<Rightarrow> node \<Rightarrow> nat \<Rightarrow> nat \<Rightarrow> matmul_candidate option result" where
  "match_product g ga add index matmul_id =
     (let product = nd_inputs add ! index in
      bindE (graph_node g matmul_id) (\<lambda>matmul.
      if length (nd_inputs matmul) \<noteq> 2 \<or> length (nd_outputs matmul) \<noteq> 1 \<or> hd (nd_outputs matmul) \<noteq> product then Inr None
      else bindE (use_count ga product) (\<lambda>uses. if uses \<noteq> 1 then Inr None
      else bindE (is_graph_output ga product) (\<lambda>out. if out then Inr None
      else bindE (value_consumers ga product) (\<lambda>consumers. if length consumers \<noteq> 1 \<or> hd consumers \<noteq> nd_id add then Inr None
      else let bias = nd_inputs add ! (1 - index); inputs = [nd_inputs matmul ! 0, nd_inputs matmul ! 1, bias] in
        bindE (mapE (value_spec g) inputs) (\<lambda>specs.
        case bindE (infer_output_specs Op_Gemm specs canonical_attributes) (\<lambda>inferred.
               bindE (value_spec g (hd (nd_outputs add))) (\<lambda>expected. Inr (length inferred = 1 \<and> hd inferred = expected))) of
          Inl e \<Rightarrow> if no_match e then Inr None else Inl e
        | Inr fits \<Rightarrow> Inr (if fits then Some \<lparr>mc_matmul = matmul_id, mc_inputs = inputs\<rparr> else None)))))))"

definition match_matmul_add :: "graph \<Rightarrow> graph_analysis \<Rightarrow> node \<Rightarrow> matmul_candidate option result" where
  "match_matmul_add g ga add =
     (if nd_op add \<noteq> Op_Add \<or> length (nd_inputs add) \<noteq> 2 \<or> length (nd_outputs add) \<noteq> 1 then Inr None
      else bindE (find_product g (nd_inputs add) 0 None) (\<lambda>found. case found of
          None \<Rightarrow> Inr None
        | Some None \<Rightarrow> Inr None
        | Some (Some (index, matmul_id)) \<Rightarrow> match_product g ga add index matmul_id))"

definition match_node :: "graph \<Rightarrow> graph_analysis \<Rightarrow> node \<Rightarrow> matmul_candidate option list \<times> bool list \<times> nat \<Rightarrow>
    (matmul_candidate option list \<times> bool list \<times> nat) result" where
  "match_node g ga n s = (case s of (candidates, removed_matmul, found) \<Rightarrow>
     bindE (match_matmul_add g ga n) (\<lambda>candidate. case candidate of
         None \<Rightarrow> Inr s
       | Some c \<Rightarrow> Inr (candidates[nd_id n := Some c], removed_matmul[mc_matmul c := True], Suc found)))"

definition fuse_node :: "bool list \<Rightarrow> matmul_candidate option list \<Rightarrow> nat \<Rightarrow> rewriter \<times> nat \<Rightarrow> (rewriter \<times> nat) result" where
  "fuse_node removed_matmul candidates nid s =
     (if removed_matmul ! nid then Inr s
      else case candidates ! nid of
        Some c \<Rightarrow> bindE (replace_node nid Op_Gemm (mc_inputs c) canonical_attributes (fst s)) (\<lambda>(_, rw). Inr (rw, Suc (snd s)))
      | None \<Rightarrow> bindE (copy_node nid (fst s)) (\<lambda>(_, rw). Inr (rw, snd s)))"

definition copy_constant :: "graph \<Rightarrow> graph_value \<Rightarrow> rewriter \<Rightarrow> rewriter result" where
  "copy_constant g v rw = (if gv_kind v = Kind_constant \<and> rw_mapping rw ! gv_id v = None
     then bindE (copy_value (gv_id v) rw) (\<lambda>(_, rw'). Inr rw') else Inr rw)"

definition fusion_statistics :: "string \<Rightarrow> graph \<Rightarrow> graph \<Rightarrow> nat \<Rightarrow> pass_statistics" where
  "fusion_statistics name source optimized fused =
     \<lparr>ps_pass_name = name, ps_nodes_before = length (g_nodes source), ps_nodes_after = length (g_nodes optimized),
      ps_values_before = length (g_values source), ps_values_after = length (g_values optimized),
      ps_nodes_rewritten = fused, ps_changed = (fused \<noteq> 0)\<rparr>"

definition matmul_add_run :: pass_run where
  "matmul_add_run m h =
     (let source = m_graph m; n = length (g_nodes source) in
      bindE (mk_analysis source) (\<lambda>ga.
      bindE (foldE (match_node source ga) (g_nodes source) (replicate n None, replicate n False, 0)) (\<lambda>(candidates, removed_matmul, found).
      if found = 0 then unchanged_result ''MatMulAddCanonicalizationPass'' m h
      else bindE (mk_rewriter m h) (\<lambda>rw. bindE (topological_order source) (\<lambda>order.
        bindE (foldE (fuse_node removed_matmul candidates) order (rw, 0)) (\<lambda>(rw1, fused).
        bindE (foldE (copy_constant source) (g_values source) rw1) (\<lambda>rw2.
        bindE (foldE copy_missing (g_outputs source) rw2) (\<lambda>rw3.
        bindE (finish_rewrite rw3) (\<lambda>(optimized, rw4).
          Inr (\<lparr>or_model = optimized, or_mapping = rw_mapping rw3,
            or_statistics = [fusion_statistics ''MatMulAddCanonicalizationPass'' source (m_graph optimized) fused]\<rparr>, rw_heap rw4))))))))))"

definition matmul_add_pass :: graph_pass where
  "matmul_add_pass = \<lparr>gp_name = ''MatMulAddCanonicalizationPass'', gp_run = matmul_add_run\<rparr>"

section \<open>The fusion of Gemm and ReLU\<close>

record gemm_candidate =
  gc_gemm :: nat
  gc_inputs :: "nat list"
  gc_attributes :: node_attributes

text \<open>\<open>attributes[key] = value\<close> on the ordered map.\<close>

fun set_attribute :: "string \<Rightarrow> attribute_value \<Rightarrow> node_attributes \<Rightarrow> node_attributes" where
  "set_attribute key x [] = [(key, x)]"
| "set_attribute key x ((k, y) # rest) =
     (if k = key then (key, x) # rest else if key < k then (key, x) # (k, y) # rest else (k, y) # set_attribute key x rest)"

definition match_gemm :: "graph \<Rightarrow> graph_analysis \<Rightarrow> node \<Rightarrow> nat \<Rightarrow> nat \<Rightarrow> gemm_candidate option result" where
  "match_gemm g ga activation gemm_output producer =
     bindE (graph_node g producer) (\<lambda>gemm. if nd_op gemm \<noteq> Op_Gemm then Inr None
     else bindE (use_count ga gemm_output) (\<lambda>uses. if uses \<noteq> 1 then Inr None
     else bindE (is_graph_output ga gemm_output) (\<lambda>out. if out then Inr None
     else bindE (value_consumers ga gemm_output) (\<lambda>consumers. if length consumers \<noteq> 1 \<or> hd consumers \<noteq> nd_id activation then Inr None
     else if length (nd_outputs gemm) \<noteq> 1 \<or> hd (nd_outputs gemm) \<noteq> gemm_output then Inr None
     else let attributes = set_attribute ''activation'' (Attr_string ''relu'') (nd_attributes gemm) in
       bindE (mapE (value_spec g) (nd_inputs gemm)) (\<lambda>specs.
       case bindE (infer_output_specs Op_FusedGemmActivation specs attributes) (\<lambda>inferred.
              bindE (value_spec g (hd (nd_outputs activation))) (\<lambda>expected. Inr (length inferred = 1 \<and> hd inferred = expected))) of
         Inl e \<Rightarrow> if no_match e then Inr None else Inl e
       | Inr fits \<Rightarrow> Inr (if fits then Some \<lparr>gc_gemm = producer, gc_inputs = nd_inputs gemm, gc_attributes = attributes\<rparr> else None))))))"

definition match_gemm_relu :: "graph \<Rightarrow> graph_analysis \<Rightarrow> node \<Rightarrow> gemm_candidate option result" where
  "match_gemm_relu g ga activation =
     (if nd_op activation \<noteq> Op_ReLU \<or> length (nd_inputs activation) \<noteq> 1 \<or> length (nd_outputs activation) \<noteq> 1 then Inr None
      else let gemm_output = hd (nd_inputs activation) in
        bindE (graph_value_at g gemm_output) (\<lambda>v. case gv_producer v of
            None \<Rightarrow> Inr None
          | Some producer \<Rightarrow> match_gemm g ga activation gemm_output producer))"

definition match_activation :: "graph \<Rightarrow> graph_analysis \<Rightarrow> node \<Rightarrow> gemm_candidate option list \<times> bool list \<times> nat \<Rightarrow>
    (gemm_candidate option list \<times> bool list \<times> nat) result" where
  "match_activation g ga n s = (case s of (candidates, removed_gemm, found) \<Rightarrow>
     bindE (match_gemm_relu g ga n) (\<lambda>candidate. case candidate of
         None \<Rightarrow> Inr s
       | Some c \<Rightarrow> Inr (candidates[nd_id n := Some c], removed_gemm[gc_gemm c := True], Suc found)))"

definition fuse_activation :: "bool list \<Rightarrow> gemm_candidate option list \<Rightarrow> nat \<Rightarrow> rewriter \<times> nat \<Rightarrow> (rewriter \<times> nat) result" where
  "fuse_activation removed_gemm candidates nid s =
     (if removed_gemm ! nid then Inr s
      else case candidates ! nid of
        Some c \<Rightarrow> bindE (replace_node nid Op_FusedGemmActivation (gc_inputs c) (gc_attributes c) (fst s)) (\<lambda>(_, rw). Inr (rw, Suc (snd s)))
      | None \<Rightarrow> bindE (copy_node nid (fst s)) (\<lambda>(_, rw). Inr (rw, snd s)))"

definition gemm_activation_run :: pass_run where
  "gemm_activation_run m h =
     (let source = m_graph m; n = length (g_nodes source) in
      bindE (mk_analysis source) (\<lambda>ga.
      bindE (foldE (match_activation source ga) (g_nodes source) (replicate n None, replicate n False, 0)) (\<lambda>(candidates, removed_gemm, found).
      if found = 0 then unchanged_result ''GemmActivationFusionPass'' m h
      else bindE (mk_rewriter m h) (\<lambda>rw. bindE (topological_order source) (\<lambda>order.
        bindE (foldE (fuse_activation removed_gemm candidates) order (rw, 0)) (\<lambda>(rw1, fused).
        bindE (foldE (copy_constant source) (g_values source) rw1) (\<lambda>rw2.
        bindE (foldE copy_missing (g_outputs source) rw2) (\<lambda>rw3.
        bindE (finish_rewrite rw3) (\<lambda>(optimized, rw4).
          Inr (\<lparr>or_model = optimized, or_mapping = rw_mapping rw3,
            or_statistics = [fusion_statistics ''GemmActivationFusionPass'' source (m_graph optimized) fused]\<rparr>, rw_heap rw4))))))))))"

definition gemm_activation_pass :: graph_pass where
  "gemm_activation_pass = \<lparr>gp_name = ''GemmActivationFusionPass'', gp_run = gemm_activation_run\<rparr>"

section \<open>The pass manager\<close>

definition pass_error :: "string \<Rightarrow> string \<Rightarrow> exn" where
  "pass_error pass_name message = Logic_error (pass_name @ message)"

definition check_bindings :: "exn \<Rightarrow> value_mapping \<Rightarrow> (string \<times> nat) list \<Rightarrow> (string \<times> nat) list \<Rightarrow> unit result" where
  "check_bindings e mapping sources targets =
     foldE (\<lambda>(source, target) _. if fst source \<noteq> fst target \<or> mapping ! snd source \<noteq> Some (snd target) then Inl e else Inr ())
       (zip sources targets) ()"

definition validate_interface :: "model \<Rightarrow> model \<Rightarrow> value_mapping \<Rightarrow> string \<Rightarrow> unit result" where
  "validate_interface before after mapping pass_name =
     (if length mapping \<noteq> length (g_values (m_graph before))
      then Inl (pass_error pass_name '' returned a ValueId mapping with the wrong size'')
      else if \<exists>mapped \<in> set mapping. case mapped of None \<Rightarrow> False | Some k \<Rightarrow> k \<ge> length (g_values (m_graph after))
      then Inl (pass_error pass_name '' returned an out-of-range mapped ValueId'')
      else if length (m_inputs before) \<noteq> length (m_inputs after) \<or> length (m_outputs before) \<noteq> length (m_outputs after)
      then Inl (pass_error pass_name '' changed the model interface size'')
      else bindE (check_bindings (pass_error pass_name '' did not preserve a model input binding'') mapping (m_inputs before) (m_inputs after)) (\<lambda>_.
        check_bindings (pass_error pass_name '' did not preserve a model output binding'') mapping (m_outputs before) (m_outputs after)))"

definition validate_statistics :: "model \<Rightarrow> model \<Rightarrow> optimization_result \<Rightarrow> string \<Rightarrow> unit result" where
  "validate_statistics before after r pass_name =
     (if length (or_statistics r) \<noteq> 1 then Inl (pass_error pass_name '' must return exactly one statistics record'')
      else let s = hd (or_statistics r) in
        if ps_pass_name s \<noteq> pass_name \<or> ps_nodes_before s \<noteq> length (g_nodes (m_graph before)) \<or>
           ps_nodes_after s \<noteq> length (g_nodes (m_graph after)) \<or> ps_values_before s \<noteq> length (g_values (m_graph before)) \<or>
           ps_values_after s \<noteq> length (g_values (m_graph after))
        then Inl (pass_error pass_name '' returned inconsistent pass statistics'') else Inr ())"

definition compose_mapping :: "value_mapping \<Rightarrow> value_mapping \<Rightarrow> value_mapping" where
  "compose_mapping pipeline result = map (\<lambda>mapped. case mapped of None \<Rightarrow> None | Some k \<Rightarrow> result ! k) pipeline"

definition add_pass :: "graph_pass option \<Rightarrow> graph_pass list \<Rightarrow> graph_pass list result" where
  "add_pass p passes = (case p of None \<Rightarrow> Inl (Invalid_argument ''graph pass must not be null'') | Some q \<Rightarrow> Inr (passes @ [q]))"

record pipeline =
  pl_mapping :: value_mapping
  pl_statistics :: "pass_statistics list"
  pl_current :: "model option"
  pl_heap :: heap

definition run_pass :: "model \<Rightarrow> graph_pass \<Rightarrow> pipeline \<Rightarrow> pipeline result" where
  "run_pass m p s =
     (let pass_input = (case pl_current s of None \<Rightarrow> m | Some m' \<Rightarrow> m') in
      bindE (gp_run p pass_input (pl_heap s)) (\<lambda>(r, h').
      bindE (validate_interface pass_input (or_model r) (or_mapping r) (gp_name p)) (\<lambda>_.
      bindE (validate_statistics pass_input (or_model r) r (gp_name p)) (\<lambda>_.
        Inr \<lparr>pl_mapping = compose_mapping (pl_mapping s) (or_mapping r), pl_statistics = pl_statistics s @ [hd (or_statistics r)],
             pl_current = Some (or_model r), pl_heap = h'\<rparr>))))"

definition run_passes :: "graph_pass list \<Rightarrow> model \<Rightarrow> heap \<Rightarrow> (optimization_result \<times> heap) result" where
  "run_passes passes m h =
     bindE (foldE (run_pass m) passes \<lparr>pl_mapping = identity_mapping (length (g_values (m_graph m))), pl_statistics = [],
         pl_current = None, pl_heap = h\<rparr>) (\<lambda>s.
       case pl_current s of
         None \<Rightarrow> bindE (copy_model m (pl_heap s)) (\<lambda>(m', h'). Inr (\<lparr>or_model = m', or_mapping = pl_mapping s, or_statistics = []\<rparr>, h'))
       | Some m' \<Rightarrow> Inr (\<lparr>or_model = m', or_mapping = pl_mapping s, or_statistics = pl_statistics s\<rparr>, pl_heap s))"

end
