(* ===== verification/Passes_Sound.thy ===== *)
theory Passes_Sound
  imports Rewrite_Sound Graph_Passes
begin

text \<open>
  What a pass may do to a model: the relation between a model and its rewritten form, the proof that rebuilding a
  graph along a plan (keep, drop or replace each node) establishes it, and the composition of passes.
\<close>

section \<open>Models\<close>

definition model_ok :: "heap \<Rightarrow> model \<Rightarrow> bool" where
  "model_ok h m \<longleftrightarrow> graph_ok (m_graph m) \<and> names_ok (m_graph m) \<and> constants_ok h (m_graph m) \<and>
     mk_model (m_graph m) (m_inputs m) (m_outputs m) = Inr m"

text \<open>The names are well formed, and the identifiers are distinct elements of a set.\<close>

definition bindings_ok :: "(string \<times> nat) list \<Rightarrow> nat set \<Rightarrow> nat \<Rightarrow> bool" where
  "bindings_ok bs A n \<longleftrightarrow> [] \<notin> set (map fst bs) \<and> distinct (map fst bs) \<and> length bs = n \<and> distinct (map snd bs) \<and> set (map snd bs) \<subseteq> A"

lemma require_unique_names_iff: "require_unique_names bs kind = Inr u \<longleftrightarrow> [] \<notin> set (map fst bs) \<and> distinct (map fst bs)"
proof -
  let ?f = "\<lambda>v names. if fst v = [] \<or> fst v \<in> set names
     then Inl (Invalid_argument (''model '' @ kind @ '' names must be non-empty and unique'')) else Inr (fst v # names)"
  have "is_ok (foldE ?f bs names) \<longleftrightarrow> [] \<notin> set (map fst bs) \<and> distinct (map fst bs) \<and> set (map fst bs) \<inter> set names = {}" for names
    by (induction bs arbitrary: names) auto
  from this[of "[]"] show ?thesis by (auto simp: require_unique_names_def is_ok_iff)
qed

lemma bind_inputs_iff:
  "is_ok (foldE (bind_input g) bs bound) \<longleftrightarrow> distinct (map snd bs) \<and> set (map snd bs) \<inter> set bound = {} \<and>
     (\<forall>i \<in> set (map snd bs). i < length (g_values g) \<and> gv_kind (g_values g ! i) = Kind_input)"
  by (induction bs arbitrary: bound) (auto simp: bind_input_def graph_value_at_def)

lemma bind_outputs_iff:
  "is_ok (foldE (bind_output g) bs bound) \<longleftrightarrow> distinct (map snd bs) \<and> set (map snd bs) \<inter> set bound = {} \<and> set (map snd bs) \<subseteq> set (g_outputs g)"
  by (induction bs arbitrary: bound) (auto simp: bind_output_def)

lemma validate_graph_outputs: "validate_graph g = Inr u \<Longrightarrow> g_outputs g \<noteq> []"
  by (auto simp: validate_graph_def topological_order_def check_tables_def split: if_splits)

lemma mk_model_iff:
  assumes ok: "graph_ok g"
  shows "mk_model g ins outs = Inr m \<longleftrightarrow> m = \<lparr>m_graph = g, m_inputs = ins, m_outputs = outs\<rparr> \<and> g_outputs g \<noteq> [] \<and>
    bindings_ok ins {i. i < length (g_values g) \<and> gv_kind (g_values g ! i) = Kind_input} (length (g_inputs g)) \<and>
    bindings_ok outs (set (g_outputs g)) (length (g_outputs g))"
proof -
  have "validate_graph g = Inr () \<longleftrightarrow> g_outputs g \<noteq> []"
    using validate_graph_outputs built_order[OF ok] by (auto simp: validate_graph_def)
  then show ?thesis
    using bind_inputs_iff[of g ins "[]"] bind_outputs_iff[of g outs "[]"]
    by (auto simp: mk_model_def require_unique_names_iff is_ok_iff bindings_ok_def)
qed

lemma model_okD:
  assumes "model_ok h m"
  shows "graph_ok (m_graph m)" "names_ok (m_graph m)" "constants_ok h (m_graph m)" "g_outputs (m_graph m) \<noteq> []"
    "bindings_ok (m_inputs m) {i. i < length (g_values (m_graph m)) \<and> gv_kind (g_values (m_graph m) ! i) = Kind_input} (length (g_inputs (m_graph m)))"
    "bindings_ok (m_outputs m) (set (g_outputs (m_graph m))) (length (g_outputs (m_graph m)))"
    "topological_order (m_graph m) = Inr [0..<length (g_nodes (m_graph m))]"
proof -
  show g: "graph_ok (m_graph m)" "names_ok (m_graph m)" "constants_ok h (m_graph m)" using assms by (simp_all add: model_ok_def)
  have "mk_model (m_graph m) (m_inputs m) (m_outputs m) = Inr m" using assms by (simp add: model_ok_def)
  note M = this[unfolded mk_model_iff[OF g(1)]]
  then show "g_outputs (m_graph m) \<noteq> []"
    "bindings_ok (m_inputs m) {i. i < length (g_values (m_graph m)) \<and> gv_kind (g_values (m_graph m) ! i) = Kind_input} (length (g_inputs (m_graph m)))"
    "bindings_ok (m_outputs m) (set (g_outputs (m_graph m))) (length (g_outputs (m_graph m)))" by blast+
  then show "topological_order (m_graph m) = Inr [0..<length (g_nodes (m_graph m))]" using built_order[OF g(1)] by blast
qed

lemma model_okI:
  assumes "graph_ok g" and "names_ok g" and "constants_ok h g" and "g_outputs g \<noteq> []"
    and "bindings_ok ins {i. i < length (g_values g) \<and> gv_kind (g_values g ! i) = Kind_input} (length (g_inputs g))"
    and "bindings_ok outs (set (g_outputs g)) (length (g_outputs g))"
  shows "model_ok h \<lparr>m_graph = g, m_inputs = ins, m_outputs = outs\<rparr>"
  using assms mk_model_iff[OF assms(1)] by (simp add: model_ok_def)

section \<open>What a pass preserves\<close>

definition preserved :: "'v meaning \<Rightarrow> heap \<Rightarrow> model \<Rightarrow> heap \<Rightarrow> model \<Rightarrow> value_mapping \<Rightarrow> bool" where
  "preserved M h m h' m' mapping \<longleftrightarrow> model_ok h' m' \<and> length mapping = length (g_values (m_graph m)) \<and>
     (\<forall>i < length mapping. \<forall>k. mapping ! i = Some k \<longrightarrow> carried M h (m_graph m) h' (m_graph m') i k) \<and>
     map fst (m_inputs m') = map fst (m_inputs m) \<and> map fst (m_outputs m') = map fst (m_outputs m) \<and>
     map (Some \<circ> snd) (m_inputs m') = map ((!) mapping \<circ> snd) (m_inputs m) \<and>
     map (Some \<circ> snd) (m_outputs m') = map ((!) mapping \<circ> snd) (m_outputs m)"

lemma preservedD:
  assumes "preserved M h m h' m' mapping"
  shows "model_ok h' m'" "length mapping = length (g_values (m_graph m))"
    "\<forall>i < length mapping. \<forall>k. mapping ! i = Some k \<longrightarrow> carried M h (m_graph m) h' (m_graph m') i k"
    "map fst (m_inputs m') = map fst (m_inputs m)" "map fst (m_outputs m') = map fst (m_outputs m)"
    "map (Some \<circ> snd) (m_inputs m') = map ((!) mapping \<circ> snd) (m_inputs m)"
    "map (Some \<circ> snd) (m_outputs m') = map ((!) mapping \<circ> snd) (m_outputs m)"
  using assms unfolding preserved_def by blast+

lemma binding_ranges:
  assumes "model_ok h m"
  shows "set (map snd (m_inputs m)) \<subseteq> {..<length (g_values (m_graph m))}" "set (map snd (m_outputs m)) \<subseteq> {..<length (g_values (m_graph m))}"
    "set (map snd (m_outputs m)) = set (g_outputs (m_graph m))"
proof -
  note D = model_okD[OF assms]
  have o: "distinct (g_outputs (m_graph m))" "set (g_outputs (m_graph m)) \<subseteq> {..<length (g_values (m_graph m))}" using D(1) by (auto simp: graph_ok_def)
  have b: "set (map snd (m_outputs m)) \<subseteq> set (g_outputs (m_graph m))" "distinct (map snd (m_outputs m))"
    "length (map snd (m_outputs m)) = length (g_outputs (m_graph m))" using D(6) by (simp_all add: bindings_ok_def)
  then show eq: "set (map snd (m_outputs m)) = set (g_outputs (m_graph m))"
    using o(1) by (metis card_subset_eq distinct_card finite_set)
  then show "set (map snd (m_outputs m)) \<subseteq> {..<length (g_values (m_graph m))}" using o(2) by simp
  show "set (map snd (m_inputs m)) \<subseteq> {..<length (g_values (m_graph m))}" using D(5) by (auto simp: bindings_ok_def)
qed

lemma carried_trans: "carried M h1 g1 h2 g2 i k \<Longrightarrow> carried M h2 g2 h3 g3 k l \<Longrightarrow> carried M h1 g1 h3 g3 i l"
  by (simp add: carried_def)

lemma preserved_trans:
  assumes "preserved M h1 m1 h2 m2 f" and "preserved M h2 m2 h3 m3 g" and src: "model_ok h1 m1"
  shows "preserved M h1 m1 h3 m3 (compose_mapping f g)"
proof -
  let ?fg = "compose_mapping f g"
  have l: "length f = length (g_values (m_graph m1))" "length g = length (g_values (m_graph m2))" "length ?fg = length f"
    using assms by (simp_all add: preserved_def compose_mapping_def)
  have at: "?fg ! i = (case f ! i of None \<Rightarrow> None | Some k \<Rightarrow> g ! k)" if "i < length f" for i using that by (simp add: compose_mapping_def)
  have "carried M h1 (m_graph m1) h3 (m_graph m3) i k" if i: "i < length f" and k: "?fg ! i = Some k" for i k
  proof -
    obtain j where j: "f ! i = Some j" "g ! j = Some k" using k at[OF i] by (auto split: option.splits)
    have c: "carried M h1 (m_graph m1) h2 (m_graph m2) i j" using assms(1) i j(1) by (simp add: preserved_def)
    then have "j < length g" using l(2) by (simp add: carried_def)
    then have "carried M h2 (m_graph m2) h3 (m_graph m3) j k" using assms(2) j(2) by (simp add: preserved_def)
    then show ?thesis using c carried_trans by blast
  qed
  then have C: "\<forall>i < length ?fg. \<forall>k. ?fg ! i = Some k \<longrightarrow> carried M h1 (m_graph m1) h3 (m_graph m3) i k" using l(3) by simp
  have bind: "map (Some \<circ> snd) cs = map ((!) ?fg \<circ> snd) as"
    if "map (Some \<circ> snd) bs = map ((!) f \<circ> snd) as" "map (Some \<circ> snd) cs = map ((!) g \<circ> snd) bs" "set (map snd as) \<subseteq> {..<length f}"
    for as bs cs :: "(string \<times> nat) list"
  proof (rule nth_equalityI)
    have len: "length as = length bs" "length bs = length cs" using that(1,2) by (metis length_map)+
    then show "length (map (Some \<circ> snd) cs) = length (map ((!) ?fg \<circ> snd) as)" by simp
    fix i assume "i < length (map (Some \<circ> snd) cs)"
    then have i: "i < length cs" by simp
    have "f ! snd (as ! i) = Some (snd (bs ! i))" using arg_cong[OF that(1), of "\<lambda>xs. xs ! i"] i len by simp
    moreover have "g ! snd (bs ! i) = Some (snd (cs ! i))" using arg_cong[OF that(2), of "\<lambda>xs. xs ! i"] i len by simp
    moreover have "map snd as ! i \<in> {..<length f}" by (rule subsetD[OF that(3) nth_mem]) (simp add: i len)
    then have "snd (as ! i) < length f" using i len by simp
    ultimately show "map (Some \<circ> snd) cs ! i = map ((!) ?fg \<circ> snd) as ! i" using i len at by simp
  qed
  have r: "set (map snd (m_inputs m1)) \<subseteq> {..<length f}" "set (map snd (m_outputs m1)) \<subseteq> {..<length f}"
    using binding_ranges(1,2)[OF src] l(1) by simp_all
  note A = preservedD[OF assms(1)] and B = preservedD[OF assms(2)]
  show ?thesis unfolding preserved_def
    using A(4,5) B(1,4,5) l C bind[OF A(6) B(6) r(1)] bind[OF A(7) B(7) r(2)] by presburger
qed

section \<open>Copies of a model\<close>

definition same_constant :: "heap \<Rightarrow> heap \<Rightarrow> tensor option \<Rightarrow> tensor option \<Rightarrow> bool" where
  "same_constant h h' a b \<longleftrightarrow> (case a of None \<Rightarrow> b = None | Some t \<Rightarrow> \<exists>u. b = Some u \<and> tensor_ok h' u \<and>
     tensor_contents h' u = tensor_contents h t \<and> tensor_spec_of u = tensor_spec_of t)"

lemma same_constant_ext: "same_constant h h' a b \<Longrightarrow> heap_ext h' h'' \<Longrightarrow> same_constant h h'' a b"
  using heap_ext_tensor contents_ext by (fastforce simp: same_constant_def split: option.splits)

lemma same_constant_source:
  assumes "same_constant h1 h' a b" and "heap_ext h h1" and "\<forall>t. a = Some t \<longrightarrow> tensor_ok h t"
  shows "same_constant h h' a b"
  using assms contents_ext by (cases a) (auto simp: same_constant_def)

lemma copy_constants_ok:
  "\<forall>t. Some t \<in> set ts \<longrightarrow> tensor_ok h t \<Longrightarrow>
   outcome copy_failure (\<lambda>(us, h'). heap_ext h h' \<and> list_all2 (same_constant h h') ts us) (copy_constants ts h)"
proof (induction ts arbitrary: h)
  case Nil
  then show ?case by simp
next
  case (Cons a ts)
  show ?case
  proof (cases a)
    case None
    have "outcome copy_failure (\<lambda>(us, h'). heap_ext h h' \<and> list_all2 (same_constant h h') ts us) (copy_constants ts h)"
      using Cons by simp
    moreover have "same_constant h h' None None" for h' by (simp add: same_constant_def)
    ultimately show ?thesis by (cases "copy_constants ts h") (auto simp: None)
  next
    case (Some t)
    have t: "tensor_ok h t" using Cons.prems Some by simp
    show ?thesis
    proof (cases "tensor_copy t h")
      case (Inl e)
      then show ?thesis using t by (auto simp: Some copy_failure_def)
    next
      case (Inr r)
      obtain u h1 where r: "tensor_copy t h = Inr (u, h1)" using Inr by (cases r) auto
      note T = tensor_copy_contents[OF t r]
      have prem: "\<forall>t. Some t \<in> set ts \<longrightarrow> tensor_ok h1 t" using Cons.prems heap_ext_tensor[OF T(3)] by simp
      have "heap_ext h h' \<and> list_all2 (same_constant h h') (a # ts) (Some u # us)"
        if "heap_ext h1 h'" "list_all2 (same_constant h1 h') ts us" for h' us
      proof -
        have "same_constant h h1 a (Some u)" using T by (simp add: Some same_constant_def)
        moreover have "list_all2 (same_constant h h') ts us"
          unfolding list_all2_conv_all_nth
        proof (intro conjI allI impI)
          fix i assume i: "i < length ts"
          show "same_constant h h' (ts ! i) (us ! i)"
          proof (rule same_constant_source[OF list_all2_nthD[OF that(2) i] T(3)])
            show "\<forall>t. ts ! i = Some t \<longrightarrow> tensor_ok h t" using Cons.prems nth_mem[OF i] by (metis list.set_intros(2))
          qed
        qed (rule list_all2_lengthD[OF that(2)])
        ultimately show ?thesis using heap_ext_trans[OF T(3) that(1)] same_constant_ext[OF _ that(1)] by simp
      qed
      then show ?thesis using Cons.IH[OF prem] r by (cases "copy_constants ts h1") (auto simp: Some)
    qed
  qed
qed

lemma replaced_constants:
  assumes ok: "model_ok h m" and cs: "list_all2 (same_constant h h') (g_constants (m_graph m)) cs"
  shows "preserved M h m h' (m\<lparr>m_graph := (m_graph m)\<lparr>g_constants := cs\<rparr>\<rparr>) (identity_mapping (length (g_values (m_graph m))))"
proof -
  let ?g = "m_graph m" and ?g' = "(m_graph m)\<lparr>g_constants := cs\<rparr>" and ?id = "identity_mapping (length (g_values (m_graph m)))"
  note D = model_okD[OF ok]
  have len: "length (g_constants ?g) = length (g_values ?g)" "length cs = length (g_values ?g)"
    using D(1) list_all2_lengthD[OF cs] by (simp_all add: graph_ok_def)
  have at: "same_constant h h' (g_constants ?g ! i) (cs ! i)" if "i < length (g_values ?g)" for i
    using list_all2_nthD[OF cs] that len by simp
  have v: "value_ok ?g' i" if "i < length (g_values ?g)" for i
  proof -
    have "value_ok ?g i" using D(1) that by (simp add: graph_ok_def)
    then show ?thesis using at[OF that]
      by (cases "gv_kind (g_values ?g ! i)") (auto simp: value_ok_def Let_def same_constant_def)
  qed
  have n: "node_ok ?g' k = node_ok ?g k" for k by (simp add: node_ok_def)
  have "graph_ok ?g'" using D(1) v n len by (simp add: graph_ok_def)
  moreover have "names_ok ?g'" using D(2) by (simp add: names_ok_def)
  moreover have "constants_ok h' ?g'"
    unfolding constants_ok_def
  proof (intro allI impI)
    fix i t assume i: "i < length (g_values ?g')" and t: "g_constants ?g' ! i = Some t"
    then show "tensor_ok h' t" using at[of i] by (auto simp: same_constant_def split: option.splits)
  qed
  ultimately have "model_ok h' (m\<lparr>m_graph := ?g'\<rparr>)"
    using model_okI[of ?g' h' "m_inputs m" "m_outputs m"] D(4-6) by (cases m) simp
  moreover have "denotes M h' ?g' i v" if "denotes M h ?g i v" for i v
    using that
  proof (induction rule: denotes.induct)
    case (of_input i)
    then show ?case using denotes.of_input[of i ?g' M h'] by simp
  next
    case (of_constant i t)
    obtain u where u: "cs ! i = Some u" "tensor_contents h' u = tensor_contents h t"
      using at[OF of_constant(1)] of_constant(3) by (auto simp: same_constant_def)
    then show ?case using denotes.of_constant[of i ?g' u M h'] of_constant(1,2) by simp
  next
    case (of_node i p vs)
    then show ?case using denotes.of_node[of i ?g' p vs M h'] by simp
  qed
  moreover have "map (Some \<circ> snd) bs = map ((!) ?id \<circ> snd) bs" if "set (map snd bs) \<subseteq> {..<length (g_values ?g)}" for bs :: "(string \<times> nat) list"
    using that by (auto simp: identity_mapping_def)
  ultimately show ?thesis
    using binding_ranges(1,2)[OF ok] by (simp add: preserved_def carried_def identity_mapping_def)
qed

text \<open>The contract of a pass, with the counts it reports.\<close>

definition pass_result :: "'v meaning \<Rightarrow> heap \<Rightarrow> model \<Rightarrow> string \<Rightarrow> optimization_result \<times> heap \<Rightarrow> bool" where
  "pass_result M h m name rh \<longleftrightarrow> (case rh of (r, h') \<Rightarrow>
     preserved M h m h' (or_model r) (or_mapping r) \<and>
     (\<exists>s. or_statistics r = [s] \<and> ps_pass_name s = name \<and> ps_nodes_before s = length (g_nodes (m_graph m)) \<and>
       ps_nodes_after s = length (g_nodes (m_graph (or_model r))) \<and> ps_values_before s = length (g_values (m_graph m)) \<and>
       ps_values_after s = length (g_values (m_graph (or_model r)))))"

lemma copy_model_ok:
  assumes ok: "model_ok h m"
  shows "outcome copy_failure (\<lambda>(m', h'). preserved M h m h' m' (identity_mapping (length (g_values (m_graph m)))) \<and>
    length (g_nodes (m_graph m')) = length (g_nodes (m_graph m)) \<and> length (g_values (m_graph m')) = length (g_values (m_graph m)))
    (copy_model m h)"
proof -
  note D = model_okD[OF ok]
  have "tensor_ok h t" if "Some t \<in> set (g_constants (m_graph m))" for t
    using that D(1,3) by (auto simp: in_set_conv_nth graph_ok_def constants_ok_def)
  then have "outcome copy_failure (\<lambda>(us, h'). heap_ext h h' \<and> list_all2 (same_constant h h') (g_constants (m_graph m)) us)
      (copy_constants (g_constants (m_graph m)) h)" by (intro copy_constants_ok) simp
  then show ?thesis unfolding copy_model_def
    by (rule outcome_bindE) (auto simp: replaced_constants[OF ok] split: prod.splits)
qed

lemma unchanged_ok: "model_ok h m \<Longrightarrow> outcome copy_failure (pass_result M h m name) (unchanged_result name m h)"
  unfolding unchanged_result_def Let_def by (rule outcome_bindE[OF copy_model_ok]) (auto simp: pass_result_def)

section \<open>Rebuilding a graph along a plan\<close>

text \<open>
  A plan says for each node whether it is kept, and with which operator, inputs and attributes. It must keep the
  producers of whatever it reads, the specification and the meaning of every kept output.
\<close>

type_synonym node_plan = "nat \<Rightarrow> (op_type \<times> nat list \<times> node_attributes) option"

definition out_of :: "graph \<Rightarrow> nat \<Rightarrow> nat" where
  "out_of g k = hd (nd_outputs (g_nodes g ! k))"

definition plan_ok :: "'v meaning \<Rightarrow> heap \<Rightarrow> graph \<Rightarrow> node_plan \<Rightarrow> bool" where
  "plan_ok M h g plan \<longleftrightarrow> (\<forall>j < length (g_nodes g). \<forall>op is attrs. plan j = Some (op, is, attrs) \<longrightarrow>
     (\<forall>i \<in> set is. i < length (g_values g) \<and> (\<forall>p. gv_producer (g_values g ! i) = Some p \<longrightarrow> p < j \<and> plan p \<noteq> None)) \<and>
     infer_output_specs op (map (\<lambda>i. gv_spec (g_values g ! i)) is) attrs = Inr [gv_spec (g_values g ! out_of g j)] \<and>
     (\<forall>v. denotes M h g (out_of g j) v \<longrightarrow>
        (\<exists>ws. length ws = length is \<and> (\<forall>k < length ws. denotes M h g (is ! k) (ws ! k)) \<and> v = mn_op M op attrs ws)))"

definition reached :: "graph \<Rightarrow> node_plan \<Rightarrow> nat \<Rightarrow> nat set" where
  "reached g plan k = set (g_inputs g) \<union> {i. \<exists>j < k. \<exists>op is attrs. plan j = Some (op, is, attrs) \<and> (i = out_of g j \<or> i \<in> set is)}"

definition plan_inv :: "'v meaning \<Rightarrow> heap \<Rightarrow> model \<Rightarrow> node_plan \<Rightarrow> nat \<Rightarrow> rewriter \<Rightarrow> bool" where
  "plan_inv M h m plan k rw \<longleftrightarrow> rw_ok M h m rw \<and> mapped rw = reached (m_graph m) plan k \<and>
     length (g_nodes (rw_graph rw)) = card {j. j < k \<and> plan j \<noteq> None}"

lemma node_output:
  assumes "graph_ok g" and "k < length (g_nodes g)"
  shows "nd_outputs (g_nodes g ! k) = [out_of g k]" "out_of g k < length (g_values g)" "gv_kind (g_values g ! out_of g k) = Kind_intermediate"
    "gv_producer (g_values g ! out_of g k) = Some k"
  using assms unfolding graph_ok_def node_ok_def Let_def out_of_def by force+

lemma intermediate_producer:
  assumes "graph_ok g" and "i < length (g_values g)" and "gv_producer (g_values g ! i) = Some p"
  shows "p < length (g_nodes g)" "i = out_of g p" "gv_kind (g_values g ! i) = Kind_intermediate"
proof -
  have v: "value_ok g i" using assms(1,2) by (simp add: graph_ok_def)
  then show k: "gv_kind (g_values g ! i) = Kind_intermediate" using assms(3) by (cases "gv_kind (g_values g ! i)") (auto simp: value_ok_def Let_def)
  then show p: "p < length (g_nodes g)" using v assms(3) by (simp add: value_ok_def Let_def)
  show "i = out_of g p" using v k assms(3) node_output(1)[OF assms(1) p] by (simp add: value_ok_def Let_def)
qed

lemma no_producer:
  assumes "graph_ok g" and "i < length (g_values g)" and "gv_producer (g_values g ! i) = None"
  shows "gv_kind (g_values g ! i) = Kind_constant \<or> i \<in> set (g_inputs g)"
proof -
  have "value_ok g i" using assms(1,2) by (simp add: graph_ok_def)
  then show ?thesis using assms(3) by (cases "gv_kind (g_values g ! i)") (auto simp: value_ok_def Let_def)
qed

lemma input_no_producer: "graph_ok g \<Longrightarrow> i \<in> set (g_inputs g) \<Longrightarrow> gv_producer (g_values g ! i) = None \<and> i < length (g_values g)"
  by (cases "gv_kind (g_values g ! i)") (auto simp: graph_ok_def value_ok_def Let_def)

lemma plan_step:
  assumes ok: "model_ok h m" and plan: "plan_ok M h (m_graph m) plan" and inv: "plan_inv M h m plan k rw" and k: "k < length (g_nodes (m_graph m))"
    and p: "plan k = Some (op, is, attrs)"
  shows "outcome copy_failure (\<lambda>(_, rw'). plan_inv M h m plan (Suc k) rw') (replace_node k op is attrs rw)"
proof -
  let ?g = "m_graph m" and ?o = "out_of (m_graph m) k"
  note D = model_okD[OF ok] and O = node_output[OF model_okD(1)[OF ok] k]
  have rw: "rw_ok M h m rw" and mp: "mapped rw = reached ?g plan k" and cnt: "length (g_nodes (rw_graph rw)) = card {j. j < k \<and> plan j \<noteq> None}"
    using inv by (simp_all add: plan_inv_def)
  note P = plan[unfolded plan_ok_def, rule_format]
  have ins: "i < length (g_values ?g)" "gv_producer (g_values ?g ! i) = Some q \<Longrightarrow> q < k \<and> plan q \<noteq> None" if "i \<in> set is" for i q
    using P[OF k p] that by blast+
  have "?o \<notin> mapped rw"
  proof
    assume "?o \<in> mapped rw"
    then consider "?o \<in> set (g_inputs ?g)" | j op' is' attrs' where "j < k" "plan j = Some (op', is', attrs')" "?o = out_of ?g j \<or> ?o \<in> set is'"
      unfolding mp reached_def by blast
    then show False
    proof cases
      case 1
      then show False using input_no_producer[OF D(1)] O(4) by simp
    next
      case (2 j)
      then have j: "j < length (g_nodes ?g)" using k by simp
      from 2(3) show False
      proof
        assume "?o = out_of ?g j"
        then show False using node_output(4)[OF D(1) j] O(4) 2(1) by simp
      next
        assume "?o \<in> set is'"
        then show False using P[OF j 2(2)] O(4) 2(1) by fastforce
      qed
    qed
  qed
  then have none: "rw_mapping rw ! ?o = None" using O(2) rw_okD(4)[OF rw] by (simp add: mapped_def)
  have copyable: "\<forall>i \<in> set is. copyable rw i"
  proof
    fix i assume i: "i \<in> set is"
    show "copyable rw i"
    proof (cases "gv_producer (g_values ?g ! i)")
      case None
      then have "gv_kind (g_values ?g ! i) = Kind_constant \<or> i \<in> mapped rw"
        using no_producer[OF D(1) ins(1)[OF i]] mp by (auto simp: reached_def)
      then show ?thesis using ins(1)[OF i] rw_okD(1)[OF rw] by (auto simp: copyable_def mapped_def)
    next
      case (Some q)
      then have "i \<in> mapped rw" using ins(2)[OF i Some] intermediate_producer(2)[OF D(1) ins(1)[OF i] Some] mp by (auto simp: reached_def)
      then show ?thesis using ins(1)[OF i] rw_okD(1)[OF rw] by (simp add: copyable_def mapped_def)
    qed
  qed
  have fresh: "?o \<notin> set is" using ins(2)[of ?o k] O(4) by blast
  have "outcome copy_failure (\<lambda>(k', rw'). copied M h m rw rw' (insert ?o (set is)) 1) (replace_node k op is attrs rw)"
    by (rule replace_node_ok[OF rw D(1-3) k O(1) none copyable _ fresh]) (use P[OF k p] in blast)+
  moreover have "plan_inv M h m plan (Suc k) rw'" if "copied M h m rw rw' (insert ?o (set is)) 1" for rw'
  proof -
    have "reached ?g plan (Suc k) = insert ?o (set is) \<union> reached ?g plan k" using p by (auto simp: reached_def less_Suc_eq)
    moreover have "{j. j < Suc k \<and> plan j \<noteq> None} = insert k {j. j < k \<and> plan j \<noteq> None}" using p by (auto simp: less_Suc_eq)
    ultimately show ?thesis using that mp cnt by (simp add: plan_inv_def copied_def)
  qed
  ultimately show ?thesis by (auto elim!: outcome_mono)
qed

lemma plan_skip: "plan_inv M h m plan k rw \<Longrightarrow> plan k = None \<Longrightarrow> plan_inv M h m plan (Suc k) rw"
proof -
  assume a: "plan_inv M h m plan k rw" and n: "plan k = None"
  have "{j. j < Suc k \<and> plan j \<noteq> None} = {j. j < k \<and> plan j \<noteq> None}" "reached (m_graph m) plan (Suc k) = reached (m_graph m) plan k"
    using n by (auto simp: reached_def less_Suc_eq)
  then show ?thesis using a by (simp add: plan_inv_def)
qed

section \<open>Beginning and finishing a rewrite\<close>

lemma add_input_succeeds:
  assumes "name \<noteq> []" and "name \<notin> set (map gv_name (g_values g) @ map nd_name (g_nodes g))" and "validate_spec spec = Inr ()"
  shows "add_input name spec g = Inr (length (g_values g),
     g\<lparr>g_values := g_values g @ [\<lparr>gv_id = length (g_values g), gv_name = name, gv_spec = spec, gv_kind = Kind_input, gv_producer = None\<rparr>],
       g_constants := g_constants g @ [None], g_inputs := g_inputs g @ [length (g_values g)]\<rparr>)"
  using assms by (simp add: add_input_def require_unique_name_def Let_def)

lemma nth_notin_take: "distinct xs \<Longrightarrow> k < length xs \<Longrightarrow> xs ! k \<notin> set (take k xs)"
proof -
  assume "distinct xs" "k < length xs"
  then have "distinct (take k xs @ xs ! k # drop (Suc k) xs)" by (metis id_take_nth_drop)
  then show ?thesis by simp
qed

text \<open>Mapping the inputs: \<open>k\<close> of them are done.\<close>

definition inputs_inv :: "'v meaning \<Rightarrow> heap \<Rightarrow> graph \<Rightarrow> nat \<Rightarrow> graph \<times> value_mapping \<Rightarrow> bool" where
  "inputs_inv M h src k s \<longleftrightarrow> rewrite_inv M h src h (fst s) (snd s) \<and> g_nodes (fst s) = [] \<and>
     {i. i < length (snd s) \<and> snd s ! i \<noteq> None} = set (take k (g_inputs src)) \<and>
     g_inputs (fst s) = map (\<lambda>i. the (snd s ! i)) (take k (g_inputs src))"

lemma map_input_ok:
  assumes src: "graph_ok src" "names_ok src" and k: "k < length (g_inputs src)" and inv: "inputs_inv M h src k s"
  shows "outcome copy_failure (inputs_inv M h src (Suc k)) (map_input src (g_inputs src ! k) s)"
proof -
  let ?i = "g_inputs src ! k" and ?g = "fst s" and ?m = "snd s"
  let ?n = "length (g_values (fst s))"
  have R: "rewrite_inv M h src h ?g ?m" and nodes: "g_nodes ?g = []"
    and seen: "{i. i < length ?m \<and> ?m ! i \<noteq> None} = set (take k (g_inputs src))"
    and gi: "g_inputs ?g = map (\<lambda>i. the (?m ! i)) (take k (g_inputs src))" using inv by (simp_all add: inputs_inv_def)
  note I = rewrite_invD[OF R]
  have d: "distinct (g_inputs src)" using src(1) by (simp add: graph_ok_def)
  have il: "?i < length (g_values src)" using input_no_producer[OF src(1) nth_mem[OF k]] by simp
  have "?i \<notin> set (take k (g_inputs src))" by (rule nth_notin_take[OF d k])
  then have "?i \<notin> {i. i < length ?m \<and> ?m ! i \<noteq> None}" unfolding seen .
  then have none: "?m ! ?i = None" using il I(4) by simp
  have vo: "value_ok src ?i" using src(1) il by (simp add: graph_ok_def)
  then have kind: "gv_kind (g_values src ! ?i) = Kind_input" and spec: "validate_spec (gv_spec (g_values src ! ?i)) = Inr ()"
    using k by (cases "gv_kind (g_values src ! ?i)"; simp add: value_ok_def Let_def)+
  have name: "gv_name (g_values src ! ?i) \<noteq> []" using src(2) il by (simp add: names_ok_def)
  define g' where "g' = ?g\<lparr>g_values := g_values ?g @ [\<lparr>gv_id = ?n, gv_name = gv_name (g_values src ! ?i), gv_spec = gv_spec (g_values src ! ?i),
       gv_kind = Kind_input, gv_producer = None\<rparr>], g_constants := g_constants ?g @ [None], g_inputs := g_inputs ?g @ [?n]\<rparr>"
  have add: "add_input (gv_name (g_values src ! ?i)) (gv_spec (g_values src ! ?i)) ?g = Inr (?n, g')"
    unfolding g'_def by (rule add_input_succeeds[OF name fresh_value_name[OF R src(1) il none] spec])
  have lens: "length (g_constants ?g) = ?n" using I(2) by (simp add: graph_ok_def)
  have e: "extends ?g g'" using add_input_ok[OF I(2) add] by simp
  have new: "carried M h src h g' ?i ?n"
  proof -
    have "denotes M h g' ?n v" if "denotes M h src ?i v" for v
    proof -
      have "v = mn_input M (gv_name (g_values src ! ?i))" using that by cases (use kind in auto)
      then show ?thesis using denotes.of_input[of ?n g' M h] by (simp add: g'_def)
    qed
    then show ?thesis by (simp add: carried_def g'_def)
  qed
  have cs: "constants_ok h g'" using I(6) lens unfolding constants_ok_def g'_def by (auto simp: nth_append less_Suc_eq)
  have R': "rewrite_inv M h src h g' (?m[?i := Some ?n])"
    by (rule rewrite_step[OF R e _ _ heap_ext_refl cs _ il none new])
      (use graph_run.new_input[OF I(1) add] I(3) in \<open>simp_all add: g'_def\<close>)
  have "{i. i < length (?m[?i := Some ?n]) \<and> ?m[?i := Some ?n] ! i \<noteq> None} = insert ?i {i. i < length ?m \<and> ?m ! i \<noteq> None}"
    using il I(4) by (auto simp: nth_list_update)
  then have "{i. i < length (?m[?i := Some ?n]) \<and> ?m[?i := Some ?n] ! i \<noteq> None} = set (take (Suc k) (g_inputs src))"
    using seen k by (simp add: take_Suc_conv_app_nth)
  moreover have "map (\<lambda>i. the (?m[?i := Some ?n] ! i)) (take k (g_inputs src)) = map (\<lambda>i. the (?m ! i)) (take k (g_inputs src))"
    using \<open>?i \<notin> set (take k (g_inputs src))\<close> by (intro map_cong[OF refl] arg_cong[where f = the]) (metis nth_list_update_neq)
  ultimately have "inputs_inv M h src (Suc k) (g', ?m[?i := Some ?n])"
    using R' nodes gi k il I(4) by (simp add: inputs_inv_def take_Suc_conv_app_nth) (simp add: g'_def)
  then show ?thesis using add il by (simp add: map_input_def graph_value_at_def)
qed

lemma mk_rewriter_ok:
  assumes ok: "model_ok h m"
  shows "outcome copy_failure (plan_inv M h m plan 0) (mk_rewriter m h)"
proof -
  let ?g = "m_graph m"
  note D = model_okD[OF ok]
  let ?none = "replicate (length (g_values ?g)) None :: value_mapping"
  have "rewrite_inv M h ?g h empty_graph ?none"
    using graph_run.empty by (simp add: rewrite_inv_def empty_graph_def constants_ok_def)
  then have "inputs_inv M h ?g 0 (empty_graph, ?none)" by (auto simp: inputs_inv_def empty_graph_def)
  then have start: "outcome copy_failure (inputs_inv M h ?g (length (g_inputs ?g))) (foldE (map_input ?g) (g_inputs ?g) (empty_graph, ?none))"
    by (rule outcome_foldE[rotated]) (rule map_input_ok[OF D(1,2)])
  have good: "plan_inv M h m plan 0 \<lparr>rw_source = m, rw_graph = g, rw_mapping = f, rw_finished = False, rw_heap = h\<rparr>"
    if a: "inputs_inv M h ?g (length (g_inputs ?g)) (g, f)" for g f
  proof -
    have f: "{i. i < length f \<and> f ! i \<noteq> None} = set (g_inputs ?g)" using a by (simp add: inputs_inv_def)
    then have "\<forall>i \<in> set (g_inputs ?g). f ! i \<noteq> None" by blast
    then show ?thesis using a f by (simp add: plan_inv_def rw_ok_def inputs_inv_def mapped_def reached_def)
  qed
  show ?thesis unfolding mk_rewriter_def by (rule outcome_bindE[OF start]) (auto simp: good)
qed

lemma mapped_bindings:
  "\<forall>b \<in> set bs. snd b < length f \<and> f ! snd b \<noteq> None \<Longrightarrow>
   mapE (mapped_binding msg f) bs = Inr (map (\<lambda>b. (fst b, the (f ! snd b))) bs)"
  by (induction bs) (auto simp: mapped_binding_def)

lemma finish_outputs:
  assumes "\<forall>b \<in> set bs. snd b < length f \<and> (\<exists>k. f ! snd b = Some k \<and> k < length (g_values g))"
    and "distinct (map (\<lambda>b. the (f ! snd b)) bs)" and "set (map (\<lambda>b. the (f ! snd b)) bs) \<inter> set (g_outputs g) = {}"
  shows "foldE (finish_output f) bs (g, acc) =
    Inr (g\<lparr>g_outputs := g_outputs g @ map (\<lambda>b. the (f ! snd b)) bs\<rparr>, acc @ map (\<lambda>b. (fst b, the (f ! snd b))) bs)"
  using assms
proof (induction bs arbitrary: g acc)
  case Nil
  then show ?case by simp
next
  case (Cons b bs)
  obtain k where k: "snd b < length f" "f ! snd b = Some k" "k < length (g_values g)" using Cons.prems(1) by auto
  let ?g = "g\<lparr>g_outputs := g_outputs g @ [k]\<rparr>"
  have "mark_output k g = Inr ?g" using k Cons.prems(3) by (simp add: mark_output_def graph_value_at_def)
  then have "finish_output f b (g, acc) = Inr (?g, acc @ [(fst b, k)])" using k by (simp add: finish_output_def mapped_binding_def)
  moreover have "foldE (finish_output f) bs (?g, acc @ [(fst b, k)]) = Inr (?g\<lparr>g_outputs := g_outputs ?g @ map (\<lambda>b. the (f ! snd b)) bs\<rparr>,
      (acc @ [(fst b, k)]) @ map (\<lambda>b. (fst b, the (f ! snd b))) bs)"
    by (rule Cons.IH) (use Cons.prems k in auto)
  ultimately show ?case using k by simp
qed

lemma rewrite_injective:
  assumes inv: "rewrite_inv M h0 src h g f" and src: "graph_ok src"
    and "i < length (g_values src)" "j < length (g_values src)" "f ! i = Some k" "f ! j = Some k"
  shows "i = j"
proof -
  have "carried M h0 src h g i k" "carried M h0 src h g j k" using rewrite_invD(7)[OF inv] assms(3-6) by blast+
  then show ?thesis using src_names(1)[OF src assms(3,4)] by (simp add: carried_def)
qed

lemma graph_ok_outputs:
  assumes "graph_ok g" and "distinct os" and "\<forall>i \<in> set os. i < length (g_values g)"
  shows "graph_ok (g\<lparr>g_outputs := os\<rparr>)"
  using assms by (simp add: graph_ok_def outputs_irrelevant)

lemma denotes_outputs: "denotes M h g i v \<Longrightarrow> denotes M h (g\<lparr>g_outputs := os\<rparr>) i v"
proof (induction rule: denotes.induct)
  case (of_input i)
  then show ?case using denotes.of_input[of i "g\<lparr>g_outputs := os\<rparr>" M h] by simp
next
  case (of_constant i t)
  then show ?case using denotes.of_constant[of i "g\<lparr>g_outputs := os\<rparr>" t M h] by simp
next
  case (of_node i p vs)
  then show ?case using denotes.of_node[of i "g\<lparr>g_outputs := os\<rparr>" p vs M h] by simp
qed

lemma finish_ok:
  assumes ok: "model_ok h0 m" and rw: "rw_ok M h0 m rw" and outs: "\<forall>i \<in> set (g_outputs (m_graph m)). rw_mapping rw ! i \<noteq> None"
  shows "\<exists>m'. finish_rewrite rw = Inr (m', rw\<lparr>rw_graph := m_graph m', rw_finished := True\<rparr>) \<and>
    preserved M h0 m (rw_heap rw) m' (rw_mapping rw) \<and> g_nodes (m_graph m') = g_nodes (rw_graph rw)"
proof -
  let ?src = "m_graph m" and ?g = "rw_graph rw" and ?f = "rw_mapping rw" and ?h = "rw_heap rw"
  note D = model_okD[OF ok] and R = rw_okD[OF rw] and B = binding_ranges[OF ok]
  note I = rewrite_invD[OF R(3)]
  have gi: "\<forall>i \<in> set (g_inputs ?src). ?f ! i \<noteq> None" "g_inputs ?g = map (\<lambda>i. the (?f ! i)) (g_inputs ?src)"
    using rw by (simp_all add: rw_ok_def)
  let ?tr = "\<lambda>b :: string \<times> nat. (fst b, the (?f ! snd b))"
  have ins: "snd b < length ?f \<and> ?f ! snd b \<noteq> None" if "b \<in> set (m_inputs m)" for b
  proof -
    have b: "snd b < length (g_values ?src)" "gv_kind (g_values ?src ! snd b) = Kind_input" using D(5) that by (auto simp: bindings_ok_def)
    then have "value_ok ?src (snd b)" using D(1) by (simp add: graph_ok_def)
    then have "snd b \<in> set (g_inputs ?src)" using b(2) by (simp add: value_ok_def Let_def)
    then show ?thesis using gi(1) b(1) I(4) by simp
  qed
  have os: "snd b < length ?f \<and> ?f ! snd b \<noteq> None" if "b \<in> set (m_outputs m)" for b
  proof -
    have "snd b \<in> set (map snd (m_outputs m))" using that by simp
    then show ?thesis using outs B(2,3) I(4) by auto
  qed
  have car: "carried M h0 ?src ?h ?g i k" if "i < length ?f" "?f ! i = Some k" for i k using I(7)[OF _ that(2)] that(1) I(4) by simp
  have dist: "distinct (map (\<lambda>b. the (?f ! snd b)) bs)"
    if "distinct (map snd bs)" "\<forall>b \<in> set bs. snd b < length ?f \<and> ?f ! snd b \<noteq> None" for bs :: "(string \<times> nat) list"
  proof -
    have "inj_on (\<lambda>i. the (?f ! i)) (set (map snd bs))"
    proof (rule inj_onI)
      fix i j assume i: "i \<in> set (map snd bs)" and j: "j \<in> set (map snd bs)" and eq: "the (?f ! i) = the (?f ! j)"
      have in_f: "x < length (g_values ?src) \<and> ?f ! x = Some (the (?f ! x))" if x: "x \<in> set (map snd bs)" for x
      proof -
        obtain b where "b \<in> set bs" "x = snd b" using x by auto
        then show ?thesis using \<open>\<forall>b \<in> set bs. snd b < length ?f \<and> ?f ! snd b \<noteq> None\<close> I(4) by fastforce
      qed
      show "i = j" by (rule rewrite_injective[OF R(3) D(1), of i j "the (?f ! j)"]) (use in_f[OF i] in_f[OF j] eq in simp_all)
    qed
    then have "distinct (map (\<lambda>i. the (?f ! i)) (map snd bs))" using that(1) by (simp only: distinct_map)
    then show ?thesis by (simp add: o_def)
  qed
  let ?ks = "map (\<lambda>b. the (?f ! snd b)) (m_outputs m)" and ?ins = "map ?tr (m_inputs m)" and ?outs = "map ?tr (m_outputs m)"
  have d: "distinct (map snd (m_inputs m))" "distinct (map snd (m_outputs m))" using D(5,6) by (simp_all add: bindings_ok_def)
  have in_range: "\<exists>k. ?f ! snd b = Some k \<and> k < length (g_values ?g)" if "b \<in> set (m_outputs m)" for b
    using os[OF that] car by (auto simp: carried_def)
  let ?g' = "?g\<lparr>g_outputs := ?ks\<rparr>"
  let ?m' = "\<lparr>m_graph = ?g', m_inputs = ?ins, m_outputs = ?outs\<rparr>"
  have fo: "foldE (finish_output ?f) (m_outputs m) (?g, []) = Inr (?g', ?outs)"
    using finish_outputs[of "m_outputs m" ?f ?g "[]"] os in_range dist[OF d(2)] I(3) by simp
  have ks: "\<forall>k \<in> set ?ks. k < length (g_values ?g)" using in_range by fastforce
  have g': "graph_ok ?g'" by (rule graph_ok_outputs[OF I(2) dist[OF d(2)] ks]) (use os in blast)
  have "length (m_outputs m) = length (g_outputs ?src)" "g_outputs ?src \<noteq> []" using D(4,6) by (simp_all add: bindings_ok_def)
  then have ne: "?ks \<noteq> []" by auto
  have mok: "model_ok ?h ?m'"
  proof (rule model_okI[OF g'])
    show "names_ok ?g'" using names_ok_run[OF I(1)] by (simp add: names_ok_def)
    show "constants_ok ?h ?g'" using I(6) by (simp add: constants_ok_def)
    show "g_outputs ?g' \<noteq> []" using ne by simp
    have "the (?f ! snd b) < length (g_values ?g) \<and> gv_kind (g_values ?g ! the (?f ! snd b)) = Kind_input" if b: "b \<in> set (m_inputs m)" for b
    proof -
      obtain k where k: "?f ! snd b = Some k" using ins[OF b] by auto
      have "gv_kind (g_values ?src ! snd b) = Kind_input" using D(5) b by (auto simp: bindings_ok_def)
      then show ?thesis using car[OF _ k] ins[OF b] k by (simp add: carried_def)
    qed
    moreover have "distinct (map (snd \<circ> ?tr) (m_inputs m))" using dist[OF d(1)] ins by (simp add: o_def)
    moreover have "length (g_inputs ?g) = length (g_inputs ?src)" by (simp add: gi(2))
    ultimately show "bindings_ok ?ins {i. i < length (g_values ?g') \<and> gv_kind (g_values ?g' ! i) = Kind_input} (length (g_inputs ?g'))"
      using D(5) by (auto simp: bindings_ok_def o_def)
    show "bindings_ok ?outs (set (g_outputs ?g')) (length (g_outputs ?g'))"
      using D(6) dist[OF d(2)] os by (auto simp: bindings_ok_def o_def)
  qed
  then have mk: "mk_model ?g' ?ins ?outs = Inr ?m'" by (simp add: model_ok_def)
  have "map (Some \<circ> snd \<circ> ?tr) bs = map ((!) ?f \<circ> snd) bs" if "\<forall>b \<in> set bs. ?f ! snd b \<noteq> None" for bs
    using that by auto
  then have "preserved M h0 m ?h ?m' ?f"
    using mok I(4) car denotes_outputs[of M ?h ?g] ins os by (simp add: preserved_def carried_def o_assoc[symmetric])
  moreover have "finish_rewrite rw = Inr (?m', rw\<lparr>rw_graph := ?g', rw_finished := True\<rparr>)"
    using R(1,2) mapped_bindings[of "m_inputs m" ?f] ins fo mk by (simp add: finish_rewrite_def)
  ultimately show ?thesis by (intro exI[of _ ?m']) simp
qed

text \<open>Loops that copy what is still missing.\<close>

lemma copies_fold:
  assumes "\<And>x rw'. x \<in> set xs \<Longrightarrow> rw_ok M h m rw' \<Longrightarrow> grows rw rw' \<Longrightarrow> outcome copy_failure (\<lambda>rw''. copied M h m rw' rw'' (A x) 0) (f x rw')"
    and "rw_ok M h m rw"
  shows "outcome copy_failure (\<lambda>rw'. copied M h m rw rw' (\<Union>x \<in> set xs. A x) 0) (foldE f xs rw)"
  using assms
proof (induction xs arbitrary: rw)
  case Nil
  then show ?case by (simp add: copied_def)
next
  case (Cons x xs)
  have first: "outcome copy_failure (\<lambda>rw''. copied M h m rw rw'' (A x) 0) (f x rw)" using Cons.prems by simp
  show ?case unfolding foldE.simps
  proof (rule outcome_bindE[OF first])
    fix rw1 assume c: "copied M h m rw rw1 (A x) 0"
    then have ok1: "rw_ok M h m rw1" "grows rw rw1" by (simp_all add: copied_def)
    have "outcome copy_failure (\<lambda>rw'. copied M h m rw1 rw' (\<Union>x \<in> set xs. A x) 0) (foldE f xs rw1)"
      by (rule Cons.IH[OF _ ok1(1)]) (use Cons.prems(1) grows_trans[OF ok1(2)] in simp)
    then show "outcome copy_failure (\<lambda>rw'. copied M h m rw rw' (\<Union>x \<in> set (x # xs). A x) 0) (foldE f xs rw1)"
      by (rule outcome_mono) (use copied_trans[OF c] in fastforce)
  qed
qed

lemma copy_missing_ok:
  assumes ok: "model_ok h m" and rw: "rw_ok M h m rw" and "copyable rw i"
  shows "outcome copy_failure (\<lambda>rw'. copied M h m rw rw' {i} 0) (copy_missing i rw)"
proof (cases "rw_mapping rw ! i")
  case None
  have "outcome copy_failure (\<lambda>(k, rw'). copied M h m rw rw' {i} 0 \<and> rw_mapping rw' ! i = Some k) (copy_value i rw)"
    by (rule copy_value_ok[OF rw model_okD(1-3)[OF ok] assms(3)])
  then show ?thesis by (cases "copy_value i rw") (auto simp: copy_missing_def None)
next
  case (Some k)
  then have "i \<in> mapped rw" using assms(3) rw_okD[OF rw] by (simp add: mapped_def copyable_def)
  then show ?thesis using rw Some by (auto simp: copy_missing_def copied_def)
qed

lemma copy_outputs_ok:
  assumes ok: "model_ok h m" and rw: "rw_ok M h m rw" and "\<forall>i \<in> set is. copyable rw i"
  shows "outcome copy_failure (\<lambda>rw'. copied M h m rw rw' (set is) 0) (foldE copy_missing is rw)"
proof -
  have "outcome copy_failure (\<lambda>rw'. copied M h m rw rw' (\<Union>x \<in> set is. {x}) 0) (foldE copy_missing is rw)"
  proof (rule copies_fold[OF _ rw])
    fix i rw' assume i: "i \<in> set is" and rw': "rw_ok M h m rw'" and g: "grows rw rw'"
    have "copyable rw' i" by (rule copyable_grows[OF g]) (use rw_okD(1)[OF rw] rw_okD(1)[OF rw'] assms(3) i in simp_all)
    then show "outcome copy_failure (\<lambda>rw''. copied M h m rw' rw'' {i} 0) (copy_missing i rw')" by (rule copy_missing_ok[OF ok rw'])
  qed
  then show ?thesis by simp
qed

end
