(* ===== verification/Onnx_Outcome.thy ===== *)
theory Onnx_Outcome
  imports Onnx_Importer Onnx_Safety Passes_Sound
begin

text \<open>
  What the steps of the importer can end in. No operation they call has undefined behaviour, so each step either
  succeeds or throws an import error; \<open>import_outcome Q P\<close> says that the error satisfies \<open>Q\<close> and the result \<open>P\<close>.
\<close>

section \<open>No undefined behaviour\<close>

named_theorems regular_intros

lemmas [regular_intros] = regular_bind regular_layout

lemma regular_variant [simp]: "regular (Inl Bad_variant_access)"
  by (simp add: regular_def)

lemma regular_fold [regular_intros]: "(\<And>x s. x \<in> set xs \<Longrightarrow> regular (f x s)) \<Longrightarrow> regular (foldE f xs s)"
  by (rule regular_foldE[where P = "\<lambda>_. True"]) auto

lemma regular_mapE [regular_intros]: "(\<And>x. x \<in> set xs \<Longrightarrow> regular (f x)) \<Longrightarrow> regular (mapE f xs)"
  by (induction xs) (auto intro!: regular_bind)

lemma regular_get [simp]: "regular (get_integer v)" "regular (get_float v)" "regular (get_string v)"
  by (cases v; simp)+

lemma regular_checked [simp]: "regular (checked_multiply a b m)" "regular (checked_add a b m)"
  by (simp_all add: checked_multiply_def checked_add_def)

lemma regular_iterator [regular_intros]: "regular (mk_iterator ls)"
proof -
  have "regular (broadcast_shape ls)"
    by (auto simp: broadcast_shape_def Let_def broadcast_operand_def broadcast_extent_def intro!: regular_intros)
  moreover have "regular (broadcast_strides sh l)" for sh l
    by (auto simp: broadcast_strides_def broadcast_stride_def Let_def intro!: regular_intros)
  ultimately show ?thesis unfolding mk_iterator_def by (auto intro!: regular_intros split: prod.splits)
qed

lemma regular_validate_spec [regular_intros]: "regular (validate_spec s)"
  by (auto simp: validate_spec_def size_bytes_def intro!: regular_intros)

lemma regular_shape [regular_intros]: "regular (iterator_shape xs)"
  by (auto simp: iterator_shape_def intro!: regular_intros)

lemma regular_attributes [regular_intros]: "regular (validate_attributes s attrs)"
  by (auto simp: validate_attributes_def validate_attribute_def intro!: regular_intros split: option.splits)

lemma regular_branch [regular_intros]:
  "(\<not> b \<Longrightarrow> regular m) \<Longrightarrow> regular (if b then Inl (Invalid_argument e) else m)"
  "(\<not> b \<Longrightarrow> regular m) \<Longrightarrow> regular (if b then Inl (Out_of_range e) else m)"
  by simp_all

lemma regular_option [regular_intros]: "regular m \<Longrightarrow> (\<And>v. regular (f v)) \<Longrightarrow> regular (case x of None \<Rightarrow> m | Some v \<Rightarrow> f v)"
  by (cases x) simp_all

lemma regular_if: "regular a \<Longrightarrow> regular b \<Longrightarrow> regular (if c then a else b)"
  by simp

lemma regular_gemm: "regular (infer_gemm op specs attrs)"
  unfolding infer_gemm_def Let_def integer_attribute_def
  by (intro regular_intros regular_if regular_get regular_simps)

lemma regular_layer_norm: "regular (infer_layer_norm specs attrs)"
  unfolding infer_layer_norm_def Let_def
  by (intro regular_intros regular_get regular_simps)

lemma regular_inference:
  "regular (infer_binary specs)" "regular (infer_matmul specs)" "regular (infer_gelu specs attrs)" "regular (normalized_axis s attrs)"
  unfolding infer_binary_def infer_elementwise_def infer_matmul_def infer_gelu_def normalized_axis_def Let_def
  by (intro regular_intros regular_get regular_simps)+

lemma regular_infer [regular_intros]: "regular (infer_output_specs op specs attrs)"
proof -
  have "regular (operator_schema op)" by (cases op) simp_all
  moreover have "regular (infer_dispatch op specs attrs)"
    by (cases op) (auto simp: Let_def intro!: regular_intros regular_inference regular_gemm regular_layer_norm)
  ultimately show ?thesis
    unfolding infer_output_specs_def require_float32_def by (auto intro!: regular_intros)
qed

lemma regular_unique_name [regular_intros]: "regular (require_unique_name g name)"
  by (simp add: require_unique_name_def)

lemma regular_value_at [simp]: "regular (graph_value_at g i)" "regular (graph_node g i)"
  by (simp_all add: graph_value_at_def graph_node_def)

lemma regular_build:
  "regular (add_input name spec g)" "regular (add_constant name t g)" "regular (add_node name op is attrs g)" "regular (mark_output i g)"
  by (auto simp: add_input_def add_constant_def add_node_def mark_output_def node_input_spec_def Let_def intro!: regular_intros)

lemma regular_mk_model:
  assumes "graph_ok g"
  shows "regular (mk_model g ins outs)"
proof -
  have "topological_order g = Inr [0..<length (g_nodes g)] \<or> topological_order g = Inl (Invalid_argument ''graph must register at least one output'')"
    using built_order[OF assms] assms by (auto simp: topological_order_def check_tables_def graph_ok_def)
  then have "regular (validate_graph g)" by (auto simp: validate_graph_def)
  then show ?thesis
    by (auto simp: mk_model_def require_unique_names_def bind_input_def bind_output_def intro!: regular_intros)
qed

lemma regular_tensor_copy:
  assumes ok: "tensor_ok h t"
  shows "regular (tensor_copy t h)"
proof -
  have body: "regular (if 0 < bytes
        then bindE (storage_ptr h1 s) (\<lambda>dst. case storage_data h1 (tn_storage t) of
             None \<Rightarrow> write_bytes dst (replicate bytes 0) h1
           | Some src \<Rightarrow> foldE (copy_element (tn_layout t) (size_of (tn_dtype t)) src dst) [0..<lay_numel l] h1)
        else Inr h1)"
    if l: "mk_layout (tn_shape t) = Inr l" and b: "size_bytes l (tn_dtype t) = Inr bytes"
      and s: "mk_storage bytes True default_alignment h = Inr (s, h1)" for l bytes s h1
  proof (cases "0 < bytes")
    case True
    note S = mk_storage_ok[OF s]
    have numel: "lay_numel l = tn_numel t"
      using layout_okD(3)[OF mk_layout_ok(1)[OF l]] layout_okD(3)[of "tn_layout t"] mk_layout_ok(2)[OF l] ok by (simp add: tensor_ok_def)
    have ext1: "heap_ext h h1" using S by (auto simp: heap_ext_def nth_append)
    have "0 < tn_numel t" using True b numel by (cases "tn_numel t") (auto simp: size_bytes_def checked_multiply_Inr)
    note pos = positive_bytes[OF ok this]
    have "storage_ok h1 (tn_storage t)" using heap_ext_storage[OF ext1] ok by (simp add: tensor_ok_def)
    from this pos obtain src where src: "storage_data h1 (tn_storage t) = Some src" by (rule storage_ptr_ok) blast
    have "storage_ok h1 s" "0 < sto_size_bytes s" using S True by simp_all
    then obtain dst where dst: "storage_ptr h1 s = Inr dst" by (rule storage_ptr_ok) blast
    from dense_copy[OF ok l b s True src dst] show ?thesis using True src dst numel by auto
  qed simp
  have st: "regular (mk_storage n a default_alignment h)" for n a
    unfolding mk_storage_def by (rule regular_bind) (auto simp: mk_buffer_def)
  show ?thesis
    unfolding tensor_copy_def by (auto simp: size_bytes_def intro!: regular_intros body st)
qed

section \<open>The registry of the importer\<close>

definition regular_translators :: "operator_registry \<Rightarrow> bool" where
  "regular_translators reg \<longleftrightarrow> (\<forall>source k. regular (translate_operator reg source k))"

lemma regular_translator [simp]: "regular (direct op source)" "regular (translate_gelu source)" "regular (translate_layer_norm source)"
  by (auto simp: direct_def translate_gelu_def translate_layer_norm_def drop_fixed_def intro!: regular_intros split: option.splits)

lemma default_translators:
  assumes "mk_operator_registry = Inr reg"
  shows "regular_translators reg"
proof -
  let ?P = "\<lambda>r. registry_ok r \<and> (\<forall>key. \<forall>v \<in> set (versions_of r key). \<forall>source. regular (vt_translate v source))"
  have step: "?P r'" if r: "?P r" "register_translator domain op_name first_opset last_opset (Some t) r = Inr r'" and t: "\<forall>source. regular (t source)"
    for r r' domain op_name first_opset last_opset t
  proof -
    from r obtain t' where "t' = t"
      "r' = store_versions (canonical_domain domain, op_name) (insort_key vt_first_opset
         \<lparr>vt_first_opset = first_opset, vt_last_opset = last_opset, vt_translate = t'\<rparr> (versions_of r (canonical_domain domain, op_name))) r"
      "registry_ok r'" using register_Inr[OF conjunct1[OF r(1)] r(2)] by (metis option.inject)
    then show ?thesis using r(1) t by (auto simp: versions_of_store set_insort_key split: if_splits)
  qed
  have fold: "?P r" if "foldE (\<lambda>(op_name, first_opset, translator). register_translator [] op_name first_opset int64_max (Some translator)) xs r0 = Inr r"
      "\<forall>x \<in> set xs. \<forall>source. regular (snd (snd x) source)" "?P r0" for xs r0 r
    using that
  proof (induction xs arbitrary: r0)
    case (Cons x xs)
    obtain n f t where x: "x = (n, f, t)" by (cases x)
    then obtain r1 where r1: "register_translator [] n f int64_max (Some t) r0 = Inr r1"
      "foldE (\<lambda>(op_name, first_opset, translator). register_translator [] op_name first_opset int64_max (Some translator)) xs r1 = Inr r"
      using Cons.prems(1) by auto
    have "\<forall>source. regular (t source)" using Cons.prems(2) x by (metis list.set_intros(1) snd_conv)
    from step[OF Cons.prems(3) r1(1) this] have "?P r1" .
    moreover have "\<forall>x \<in> set xs. \<forall>source. regular (snd (snd x) source)" using Cons.prems(2) by (meson list.set_intros(2))
    ultimately show ?case using Cons.IH[OF r1(2)] by blast
  qed simp
  have "?P reg"
    by (rule fold[OF assms[unfolded mk_operator_registry_def]]) (auto simp: registry_ok_def versions_of_def versions_ok_def)
  then have "regular (vt_translate v source)" if "List.find p (versions_of reg key) = Some v" for p key v source
    using that by (metis find_Some_iff nth_mem)
  then show ?thesis
    unfolding regular_translators_def translate_operator_def unsupported_operator_def by (auto split: option.splits)
qed

section \<open>Outcomes\<close>

definition import_outcome :: "(diagnostic \<Rightarrow> bool) \<Rightarrow> ('a \<Rightarrow> bool) \<Rightarrow> 'a import \<Rightarrow> bool" where
  "import_outcome Q P r = (case r of Inl (Import_error d) \<Rightarrow> Q d | Inl (Std _) \<Rightarrow> False | Inr x \<Rightarrow> P x)"

lemma import_outcome_simps [simp]:
  "import_outcome Q P (Inl (Import_error d)) = Q d" "import_outcome Q P (Inl (Std e)) = False" "import_outcome Q P (Inr x) = P x"
  by (simp_all add: import_outcome_def)

lemma import_outcome_bind: "import_outcome Q P r \<Longrightarrow> (\<And>x. r = Inr x \<Longrightarrow> P x \<Longrightarrow> import_outcome Q R (f x)) \<Longrightarrow> import_outcome Q R (bindE r f)"
  by (cases r) (auto simp: import_outcome_def)

lemma import_outcome_mono: "import_outcome Q P r \<Longrightarrow> (\<And>x. P x \<Longrightarrow> R x) \<Longrightarrow> import_outcome Q R r"
  by (auto simp: import_outcome_def split: sum.splits import_exn.splits)

lemma import_outcome_fold:
  assumes "\<And>k s. k < length xs \<Longrightarrow> P k s \<Longrightarrow> import_outcome Q (P (Suc k)) (f (xs ! k) s)" and "P 0 s"
  shows "import_outcome Q (P (length xs)) (foldE f xs s)"
  using assms
proof (induction xs arbitrary: s P)
  case Nil
  then show ?case by simp
next
  case (Cons x xs)
  have "import_outcome Q (P (Suc 0)) (f x s)" using Cons.prems(1)[of 0 s] Cons.prems(2) by simp
  moreover have "import_outcome Q (P (length (x # xs))) (foldE f xs t)" if "P (Suc 0) t" for t
    using Cons.IH[of "\<lambda>k. P (Suc k)" t] Cons.prems(1)[of "Suc k" for k] that by simp
  ultimately show ?case by (auto intro: import_outcome_bind)
qed

text \<open>The pattern of the importer: call an operation and rethrow its exception as an import error.\<close>

lemma import_outcome_catch:
  assumes "regular m" and "\<And>x. m = Inr x \<Longrightarrow> P x" and "\<And>e. import_outcome Q P (handler e)"
  shows "import_outcome Q P (catch_exception (lift m) handler)"
proof (cases m)
  case (Inl e)
  then show ?thesis using assms(1,3) by (cases e) (auto simp: catch_exception_def lift_def regular_def)
next
  case (Inr x)
  then show ?thesis using assms(2) by (simp add: catch_exception_def lift_def)
qed

end
