(* ===== verification/Onnx_Meaning.thy ===== *)
theory Onnx_Meaning
  imports Onnx_Outcome
begin

text \<open>
  The meaning of an ONNX graph by the names of its values, and the invariant of the importer: every symbol has been
  given a graph value with the meaning its name has in the source, whatever the order of the nodes in the file.
\<close>

section \<open>The meaning of the source\<close>

abbreviation source_initializers :: "model_proto \<Rightarrow> initializer list" where
  "source_initializers mp \<equiv> gp_initializers (mp_graph mp)"

abbreviation source_inputs :: "model_proto \<Rightarrow> value_info list" where
  "source_inputs mp \<equiv> gp_inputs (mp_graph mp)"

abbreviation source_nodes :: "model_proto \<Rightarrow> node_proto list" where
  "source_nodes mp \<equiv> gp_nodes (mp_graph mp)"

definition initializer_names :: "model_proto \<Rightarrow> string set" where
  "initializer_names mp = in_name ` set (source_initializers mp)"

text \<open>The inputs that are not initializers have to be supplied when the model runs.\<close>

definition free_inputs :: "model_proto \<Rightarrow> value_info list \<Rightarrow> value_info list" where
  "free_inputs mp = filter (\<lambda>v. vi_name v \<notin> initializer_names mp)"

inductive onnx_denotes :: "'v meaning \<Rightarrow> operator_registry \<Rightarrow> heap \<Rightarrow> model_proto \<Rightarrow> string \<Rightarrow> 'v \<Rightarrow> bool" for M ops h mp where
  of_initializer: "k < length (source_initializers mp) \<Longrightarrow>
    onnx_denotes M ops h mp (in_name (source_initializers mp ! k)) (mn_constant M (tensor_contents h (in_value (source_initializers mp ! k))))"
| of_graph_input: "k < length (source_inputs mp) \<Longrightarrow> vi_name (source_inputs mp ! k) \<notin> initializer_names mp \<Longrightarrow>
    onnx_denotes M ops h mp (vi_name (source_inputs mp ! k)) (mn_input M (vi_name (source_inputs mp ! k)))"
| of_source_node: "j < length (source_nodes mp) \<Longrightarrow> np_outputs (source_nodes mp ! j) = [name] \<Longrightarrow>
    translate_operator ops (source_nodes mp ! j) (mp_opset_version mp) = Inr (op, attrs) \<Longrightarrow>
    length vs = length (np_inputs (source_nodes mp ! j)) \<Longrightarrow>
    \<forall>k < length vs. onnx_denotes M ops h mp (np_inputs (source_nodes mp ! j) ! k) (vs ! k) \<Longrightarrow>
    onnx_denotes M ops h mp name (mn_op M op attrs vs)"

section \<open>Where an import error points\<close>

definition located :: "model_proto \<Rightarrow> diagnostic \<Rightarrow> bool" where
  "located mp d \<longleftrightarrow> dg_model_path d = [] \<and> dg_graph_name d = graph_proto.gp_name (mp_graph mp) \<and>
     (case dg_node_index d of
        None \<Rightarrow> dg_node_name d = [] \<and> dg_op_type d = [] \<and> dg_domain d = [] \<and>
          dg_stage d \<in> {Stage_ModelValidation, Stage_GraphImport, Stage_GraphValidation} \<and>
          (dg_stage d = Stage_GraphImport \<longrightarrow> dg_value_name d \<in> initializer_names mp \<union> vi_name ` set (source_inputs mp))
      | Some j \<Rightarrow> j < length (source_nodes mp) \<and> dg_node_name d = np_name (source_nodes mp ! j) \<and>
          dg_op_type d = np_op_type (source_nodes mp ! j) \<and> dg_domain d = np_domain (source_nodes mp ! j) \<and>
          dg_stage d \<in> {Stage_GraphImport, Stage_OperatorTranslation, Stage_ShapeInference} \<and>
          (dg_stage d = Stage_GraphImport \<longrightarrow> dg_message d \<in>
             {''TinyInfer currently imports one non-empty output per ONNX node'', ''ONNX value name is defined more than once'',
              ''optional or empty ONNX inputs are not supported'', ''ONNX node input is not defined''}))"

lemma located_node:
  assumes "j < length (source_nodes mp)" and "stage \<in> {Stage_OperatorTranslation, Stage_ShapeInference} \<or> stage = Stage_GraphImport \<and>
    message \<in> {''TinyInfer currently imports one non-empty output per ONNX node'', ''ONNX value name is defined more than once'',
      ''optional or empty ONNX inputs are not supported'', ''ONNX node input is not defined''}"
  shows "import_outcome (located mp) P (throw_node_error mp (source_nodes mp ! j) j stage message name)"
  using assms by (auto simp: throw_node_error_def located_def node_diagnostic_def model_diagnostic_def default_diagnostic_def)

lemma located_value:
  assumes "stage = Stage_GraphValidation \<or> stage = Stage_GraphImport \<and> name \<in> initializer_names mp \<union> vi_name ` set (source_inputs mp)"
  shows "import_outcome (located mp) P (throw_value_error mp stage message name)"
  using assms by (auto simp: throw_value_error_def located_def model_diagnostic_def default_diagnostic_def)

section \<open>The invariant\<close>

definition knows :: "'v meaning \<Rightarrow> import_state \<Rightarrow> string \<Rightarrow> 'v \<Rightarrow> bool" where
  "knows M s name v \<longleftrightarrow> (\<exists>i. im_symbols s name = Some i \<and> denotes M (im_heap s) (im_graph s) i v)"

lemma knows_unique: "knows M s name v \<Longrightarrow> knows M s name w \<Longrightarrow> v = w"
  using denotes_unique by (fastforce simp: knows_def)

definition state_ok :: "heap \<Rightarrow> import_state \<Rightarrow> bool" where
  "state_ok h0 s \<longleftrightarrow> graph_run (im_graph s) \<and> g_outputs (im_graph s) = [] \<and> heap_ext h0 (im_heap s) \<and>
     constants_ok (im_heap s) (im_graph s) \<and> map snd (im_model_inputs s) = g_inputs (im_graph s)"

definition node_known :: "'v meaning \<Rightarrow> operator_registry \<Rightarrow> model_proto \<Rightarrow> import_state \<Rightarrow> nat \<Rightarrow> bool" where
  "node_known M ops mp s j \<longleftrightarrow> (\<exists>out op attrs vs. np_outputs (source_nodes mp ! j) = [out] \<and>
     translate_operator ops (source_nodes mp ! j) (mp_opset_version mp) = Inr (op, attrs) \<and>
     length vs = length (np_inputs (source_nodes mp ! j)) \<and> (\<forall>k < length vs. knows M s (np_inputs (source_nodes mp ! j) ! k) (vs ! k)) \<and>
     knows M s out (mn_op M op attrs vs))"

text \<open>\<open>a\<close> initializers, \<open>b\<close> inputs and the nodes \<open>js\<close> are done.\<close>

definition facts :: "'v meaning \<Rightarrow> operator_registry \<Rightarrow> heap \<Rightarrow> model_proto \<Rightarrow> nat \<Rightarrow> nat \<Rightarrow> nat set \<Rightarrow> import_state \<Rightarrow> bool" where
  "facts M ops h0 mp a b js s \<longleftrightarrow>
     (\<forall>name. im_symbols s name \<noteq> None \<longrightarrow> (\<exists>v. onnx_denotes M ops h0 mp name v \<and> knows M s name v)) \<and>
     (\<forall>k < a. knows M s (in_name (source_initializers mp ! k)) (mn_constant M (tensor_contents h0 (in_value (source_initializers mp ! k))))) \<and>
     (\<forall>k < b. vi_name (source_inputs mp ! k) \<notin> initializer_names mp \<longrightarrow>
        knows M s (vi_name (source_inputs mp ! k)) (mn_input M (vi_name (source_inputs mp ! k)))) \<and>
     (\<forall>j \<in> js. node_known M ops mp s j)"

text \<open>When everything is done, a symbol knows exactly what its name means.\<close>

lemma facts_complete:
  assumes f: "facts M ops h0 mp (length (source_initializers mp)) (length (source_inputs mp)) {..<length (source_nodes mp)} s"
    and "onnx_denotes M ops h0 mp name v"
  shows "knows M s name v"
  using assms(2)
proof (induction rule: onnx_denotes.induct)
  case (of_initializer k)
  then show ?case using f by (simp add: facts_def)
next
  case (of_graph_input k)
  then show ?case using f by (simp add: facts_def)
next
  case (of_source_node j name op attrs vs)
  have "node_known M ops mp s j" using f of_source_node.hyps(1) by (simp add: facts_def)
  then obtain vs' where vs': "length vs' = length (np_inputs (source_nodes mp ! j))"
    "\<forall>k < length vs'. knows M s (np_inputs (source_nodes mp ! j) ! k) (vs' ! k)" "knows M s name (mn_op M op attrs vs')"
    using of_source_node.hyps(2,3) by (auto simp: node_known_def)
  have "vs = vs'"
  proof (rule nth_equalityI)
    show "vs ! k = vs' ! k" if "k < length vs" for k
      using of_source_node.IH that vs'(1,2) of_source_node.hyps(4) knows_unique by (metis (no_types, lifting))
  qed (simp add: vs'(1) of_source_node.hyps(4))
  then show ?case using vs'(3) by simp
qed

lemma knows_grow:
  assumes "knows M s name v" and "state_ok h0 s" and "extends (im_graph s) (im_graph s')" and "heap_ext (im_heap s) (im_heap s')"
    and "im_symbols s' name = im_symbols s name"
  shows "knows M s' name v"
  using assms denotes_ext unfolding knows_def state_ok_def by metis

text \<open>One more symbol, for a name that has none.\<close>

lemma facts_grow:
  assumes f: "facts M ops h0 mp a b js s" and ok: "state_ok h0 s" and e: "extends (im_graph s) (im_graph s')" "heap_ext (im_heap s) (im_heap s')"
    and sym: "im_symbols s name = None" "im_symbols s' = (im_symbols s)(name \<mapsto> i)"
    and v: "denotes M (im_heap s') (im_graph s') i v" "onnx_denotes M ops h0 mp name v"
  shows "facts M ops h0 mp a b js s'" and "knows M s' name v" and "knows M s n w \<Longrightarrow> knows M s' n w"
proof -
  show new: "knows M s' name v" using sym(2) v(1) by (simp add: knows_def)
  show old: "knows M s' n w" if "knows M s n w" for n w
  proof (rule knows_grow[OF that ok e])
    show "im_symbols s' n = im_symbols s n" using that sym by (auto simp: knows_def)
  qed
  have nodes: "node_known M ops mp s' j" if "node_known M ops mp s j" for j
    using that old unfolding node_known_def by blast
  have "\<exists>v. onnx_denotes M ops h0 mp n v \<and> knows M s' n v" if "im_symbols s' n \<noteq> None" for n
  proof (cases "n = name")
    case True
    then show ?thesis using new v(2) by blast
  next
    case False
    then have "im_symbols s n \<noteq> None" using that sym(2) by simp
    then show ?thesis using f old unfolding facts_def by blast
  qed
  then show "facts M ops h0 mp a b js s'" using f old nodes unfolding facts_def by blast
qed

end
