(* ===== verification/Onnx_Import_Sound.thy ===== *)
theory Onnx_Import_Sound
  imports Onnx_Meaning
begin

text \<open>
  The importer is correct: each step keeps the invariant or throws an error that points to its cause, and the model it
  returns computes what the source says.
\<close>

section \<open>What the graph operations add\<close>

lemma add_input_result:
  assumes ok: "graph_ok g" and a: "add_input name spec g = Inr (i, g')"
  shows "denotes M h g' i (mn_input M name)" "g_outputs g' = g_outputs g" "g_inputs g' = g_inputs g @ [i]"
    "constants_ok h g \<Longrightarrow> constants_ok h g'" "gv_spec (g_values g' ! i) = spec"
proof -
  let ?n = "length (g_values g)"
  have i: "i = ?n" and g': "g' = g\<lparr>g_values := g_values g @ [\<lparr>gv_id = ?n, gv_name = name, gv_spec = spec, gv_kind = Kind_input, gv_producer = None\<rparr>],
                  g_constants := g_constants g @ [None], g_inputs := g_inputs g @ [?n]\<rparr>"
    using a by (auto simp: add_input_def Let_def)
  show "denotes M h g' i (mn_input M name)" using denotes.of_input[of i g' M h] by (simp add: i g')
  show "g_outputs g' = g_outputs g" "g_inputs g' = g_inputs g @ [i]" "gv_spec (g_values g' ! i) = spec" by (simp_all add: g' i)
  have "length (g_constants g) = ?n" using ok by (simp add: graph_ok_def)
  then show "constants_ok h g'" if "constants_ok h g"
    using that by (auto simp: constants_ok_def g' nth_append split: if_splits)
qed

lemma add_constant_result:
  assumes ok: "graph_ok g" and a: "add_constant name t g = Inr (i, g')"
  shows "denotes M h g' i (mn_constant M (tensor_contents h t))" "g_outputs g' = g_outputs g" "g_inputs g' = g_inputs g"
proof -
  let ?n = "length (g_values g)"
  have i: "i = ?n" and g': "g' = g\<lparr>g_values := g_values g @ [\<lparr>gv_id = ?n, gv_name = name, gv_spec = tensor_spec_of t, gv_kind = Kind_constant,
                    gv_producer = None\<rparr>], g_constants := g_constants g @ [Some t]\<rparr>"
    using a by (auto simp: add_constant_def Let_def)
  have "length (g_constants g) = ?n" using ok by (simp add: graph_ok_def)
  then show "denotes M h g' i (mn_constant M (tensor_contents h t))" using denotes.of_constant[of i g' t M h] by (simp add: i g' nth_append)
  show "g_outputs g' = g_outputs g" "g_inputs g' = g_inputs g" by (simp_all add: g')
qed

lemma add_node_result:
  assumes ok: "graph_ok g" and a: "add_node name op ins attrs g = Inr (k, g')"
    and vs: "length vs = length ins" "\<forall>j < length vs. denotes M h g (ins ! j) (vs ! j)" and c: "constants_ok h g"
  obtains i n where "graph_node g' k = Inr n" "nd_outputs n = [i]" "denotes M h g' i (mn_op M op attrs vs)"
    "g_outputs g' = g_outputs g" "g_inputs g' = g_inputs g" "constants_ok h g'"
proof -
  let ?n = "length (g_values g)" and ?k = "length (g_nodes g)"
  from a obtain out where k: "k = ?k" and g': "g' = g\<lparr>g_values := g_values g @ [\<lparr>gv_id = ?n, gv_name = output_name name 0, gv_spec = out,
                    gv_kind = Kind_intermediate, gv_producer = Some ?k\<rparr>],
            g_constants := g_constants g @ [None],
            g_nodes := g_nodes g @ [\<lparr>nd_id = ?k, nd_name = name, nd_op = op, nd_inputs = ins,
                    nd_outputs = [?n], nd_attributes = attrs\<rparr>]\<rparr>"
    by (rule add_node_Inr)
  have e: "extends g g'" using graph_add_node_ok[OF ok a] by blast
  have old: "denotes M h g' (ins ! j) (vs ! j)" if "j < length vs" for j
    by (rule denotes_ext[OF _ e heap_ext_refl c]) (rule vs(2)[rule_format, OF that])
  have d: "denotes M h g' ?n (mn_op M op attrs vs)"
    using denotes.of_node[of ?n g' ?k vs M h] old vs(1) by (simp add: g')
  have len: "length (g_constants g) = length (g_values g)" using ok by (simp add: graph_ok_def)
  show ?thesis
    by (rule that[of "g_nodes g' ! ?k", OF _ _ d]) (use constants_ok_add_node[OF c len a] in \<open>simp_all add: g' k graph_node_def\<close>)
qed

lemma resolve_inputs_Some:
  "resolve_inputs symbols names = Some is \<Longrightarrow> length is = length names \<and> (\<forall>k < length names. names ! k \<noteq> [] \<and> symbols (names ! k) = Some (is ! k))"
proof (induction names arbitrary: "is")
  case (Cons name names)
  then obtain i js where "name \<noteq> []" "symbols name = Some i" "resolve_inputs symbols names = Some js" "is = i # js"
    by (auto split: if_splits option.splits)
  then show ?case using Cons.IH by (auto simp: nth_Cons split: nat.splits)
qed simp

lemma resolve_inputs_None: "resolve_inputs symbols names = None \<longleftrightarrow> (\<exists>name \<in> set names. name = [] \<or> symbols name = None)"
  by (induction names) (auto split: option.splits)

section \<open>Initializers\<close>

definition initializers_inv :: "'v meaning \<Rightarrow> operator_registry \<Rightarrow> heap \<Rightarrow> model_proto \<Rightarrow> nat \<Rightarrow> import_state \<Rightarrow> bool" where
  "initializers_inv M ops h0 mp k s \<longleftrightarrow> state_ok h0 s \<and> facts M ops h0 mp k 0 {} s \<and> im_model_inputs s = [] \<and>
     dom (im_symbols s) = set (im_initializer_names s) \<and> set (im_initializer_names s) = in_name ` set (take k (source_initializers mp))"

lemma state_okD:
  assumes "state_ok h0 s"
  shows "graph_run (im_graph s)" "graph_ok (im_graph s)" "g_outputs (im_graph s) = []" "heap_ext h0 (im_heap s)"
    "constants_ok (im_heap s) (im_graph s)" "map snd (im_model_inputs s) = g_inputs (im_graph s)"
  using assms graph_run_ok by (auto simp: state_ok_def)

lemma import_initializer_ok:
  assumes inv: "initializers_inv M ops h0 mp k s" and k: "k < length (source_initializers mp)"
    and t: "tensor_ok h0 (in_value (source_initializers mp ! k))"
  shows "import_outcome (located mp) (initializers_inv M ops h0 mp (Suc k)) (import_initializer mp (source_initializers mp ! k) s)"
proof -
  let ?t = "source_initializers mp ! k"
  have ok: "state_ok h0 s" and f: "facts M ops h0 mp k 0 {} s" and dom: "dom (im_symbols s) = set (im_initializer_names s)"
    and names: "set (im_initializer_names s) = in_name ` set (take k (source_initializers mp))" and noin: "im_model_inputs s = []"
    using inv by (simp_all add: initializers_inv_def)
  note S = state_okD[OF ok]
  have tok: "tensor_ok (im_heap s) (in_value ?t)" by (rule heap_ext_tensor[OF S(4) t])
  have member: "in_name ?t \<in> initializer_names mp" using k by (simp add: initializer_names_def)
  have err: "import_outcome (located mp) P (throw_value_error mp Stage_GraphImport message (in_name ?t))" for P and message
    by (rule located_value) (use member in simp)
  show ?thesis
  proof (cases "in_name ?t = [] \<or> in_name ?t \<in> set (im_initializer_names s)")
    case True
    then show ?thesis using err by (simp add: import_initializer_def)
  next
    case False
    then have free: "im_symbols s (in_name ?t) = None" using dom by (metis domIff)
    have step: "initializers_inv M ops h0 mp (Suc k) s'" if a: "add_initializer ?t s = Inr s'" for s'
    proof -
      obtain c h i g where c: "tensor_copy (in_value ?t) (im_heap s) = Inr (c, h)" and g: "add_constant (in_name ?t) c (im_graph s) = Inr (i, g)"
        and s': "s' = s\<lparr>im_graph := g, im_symbols := (im_symbols s)(in_name ?t \<mapsto> i), im_heap := h,
          im_initializer_names := in_name ?t # im_initializer_names s, im_reserved_names := in_name ?t # im_reserved_names s\<rparr>"
        using a free by (auto simp: add_initializer_def emplace_symbol_def)
      note C = tensor_copy_contents[OF tok c] and G = add_constant_ok[OF S(2) g] and R = add_constant_result[OF S(2) g]
      have contents: "tensor_contents (im_heap s) (in_value ?t) = tensor_contents h0 (in_value ?t)" by (rule contents_ext[OF S(4) t])
      have e: "extends (im_graph s) (im_graph s')" "heap_ext (im_heap s) (im_heap s')" using G C(3) by (simp_all add: s')
      have d: "denotes M (im_heap s') (im_graph s') i (mn_constant M (tensor_contents h0 (in_value ?t)))"
        using R(1)[of M h] C(1) contents by (simp add: s')
      have sym: "im_symbols s' = (im_symbols s)(in_name ?t \<mapsto> i)" by (simp add: s')
      note F = facts_grow[OF f ok e free sym d onnx_denotes.of_initializer[OF k]]
      have "facts M ops h0 mp (Suc k) 0 {} s'" using F(1,2) by (auto simp: facts_def less_Suc_eq)
      moreover have "state_ok h0 s'"
      proof -
        have len: "length (g_constants (im_graph s)) = length (g_values (im_graph s))" using S(2) by (simp add: graph_ok_def)
        show ?thesis using graph_run.new_constant[OF S(1) g] R(2,3) S(3,6) heap_ext_trans[OF S(4) C(3)]
            constants_ok_add_constant[OF S(5) len g C(3,2)] by (simp add: state_ok_def s')
      qed
      moreover have "set (im_initializer_names s') = in_name ` set (take (Suc k) (source_initializers mp))"
        using k names by (simp add: s' take_Suc_conv_app_nth)
      moreover have "dom (im_symbols s') = set (im_initializer_names s')" using dom by (simp add: s')
      ultimately show ?thesis using noin by (simp add: initializers_inv_def s')
    qed
    have "regular (add_initializer ?t s)"
      unfolding add_initializer_def by (auto intro!: regular_bind regular_tensor_copy[OF tok] regular_build)
    then show ?thesis using False step err
      by (auto simp: import_initializer_def intro!: import_outcome_catch)
  qed
qed

lemma import_initializers_ok:
  assumes "\<forall>t \<in> set (source_initializers mp). tensor_ok h0 (in_value t)"
  shows "import_outcome (located mp) (initializers_inv M ops h0 mp (length (source_initializers mp)))
    (foldE (import_initializer mp) (source_initializers mp) (empty_import h0))"
proof (rule import_outcome_fold)
  show "import_outcome (located mp) (initializers_inv M ops h0 mp (Suc k)) (import_initializer mp (source_initializers mp ! k) s)"
    if "k < length (source_initializers mp)" "initializers_inv M ops h0 mp k s" for k s
    by (rule import_initializer_ok[OF that(2,1)]) (use assms that(1) in simp)
  show "initializers_inv M ops h0 mp 0 (empty_import h0)"
    using graph_run.empty by (simp add: initializers_inv_def state_ok_def facts_def empty_import_def constants_ok_def empty_graph_def)
qed

section \<open>Inputs\<close>

definition source_inputs_inv :: "'v meaning \<Rightarrow> operator_registry \<Rightarrow> heap \<Rightarrow> model_proto \<Rightarrow> nat \<Rightarrow> import_state \<Rightarrow> bool" where
  "source_inputs_inv M ops h0 mp k s \<longleftrightarrow> state_ok h0 s \<and> facts M ops h0 mp (length (source_initializers mp)) k {} s \<and>
     set (im_initializer_names s) = initializer_names mp \<and> initializer_names mp \<subseteq> dom (im_symbols s) \<and>
     map fst (im_model_inputs s) = map vi_name (free_inputs mp (take k (source_inputs mp)))"

lemma source_inputs_inv_start: "initializers_inv M ops h0 mp (length (source_initializers mp)) s \<Longrightarrow> source_inputs_inv M ops h0 mp 0 s"
  by (simp add: initializers_inv_def source_inputs_inv_def initializer_names_def free_inputs_def)

lemma import_input_ok:
  assumes inv: "source_inputs_inv M ops h0 mp k s" and k: "k < length (source_inputs mp)"
  shows "import_outcome (located mp) (source_inputs_inv M ops h0 mp (Suc k)) (import_input mp (source_inputs mp ! k) s)"
proof -
  let ?v = "source_inputs mp ! k"
  have ok: "state_ok h0 s" and f: "facts M ops h0 mp (length (source_initializers mp)) k {} s"
    and names: "set (im_initializer_names s) = initializer_names mp" "initializer_names mp \<subseteq> dom (im_symbols s)"
    and ins: "map fst (im_model_inputs s) = map vi_name (free_inputs mp (take k (source_inputs mp)))"
    using inv by (simp_all add: source_inputs_inv_def)
  note S = state_okD[OF ok]
  have err: "import_outcome (located mp) P (throw_value_error mp Stage_GraphImport message (vi_name ?v))" for P and message
    by (rule located_value) (use k in simp)
  have take: "take (Suc k) (source_inputs mp) = take k (source_inputs mp) @ [?v]" using k by (simp add: take_Suc_conv_app_nth)
  show ?thesis
  proof (cases "vi_name ?v \<in> initializer_names mp")
    case True
    then obtain i where i: "im_symbols s (vi_name ?v) = Some i" using names(2) by blast
    then obtain w where "knows M s (vi_name ?v) w" using f unfolding facts_def by blast
    then have "denotes M (im_heap s) (im_graph s) i w" using i by (simp add: knows_def)
    then have il: "i < length (g_values (im_graph s))" by cases simp_all
    have "source_inputs_inv M ops h0 mp (Suc k) s"
      using inv True take by (auto simp: source_inputs_inv_def facts_def free_inputs_def less_Suc_eq)
    then show ?thesis using True names(1) i il by (simp add: import_input_def graph_value_at_def lift_def err)
  next
    case False
    show ?thesis
    proof (cases "vi_name ?v = [] \<or> im_symbols s (vi_name ?v) \<noteq> None")
      case True
      then show ?thesis using False names(1) by (simp add: import_input_def err)
    next
      case free: False
      define next_state where "next_state = (\<lambda>(i, g). s\<lparr>im_graph := g, im_symbols := emplace_symbol (vi_name ?v) i (im_symbols s),
             im_reserved_names := vi_name ?v # im_reserved_names s, im_model_inputs := im_model_inputs s @ [(vi_name ?v, i)]\<rparr>)"
      have step: "source_inputs_inv M ops h0 mp (Suc k) (next_state (i, g))" if a: "add_input (vi_name ?v) (vi_spec ?v) (im_graph s) = Inr (i, g)" for i g
      proof -
        let ?s = "next_state (i, g)"
        note G = add_input_ok[OF S(2) a] and R = add_input_result[OF S(2) a]
        have e: "extends (im_graph s) (im_graph ?s)" "heap_ext (im_heap s) (im_heap ?s)" using G heap_ext_refl by (simp_all add: next_state_def)
        have d: "denotes M (im_heap ?s) (im_graph ?s) i (mn_input M (vi_name ?v))" using R(1)[of M "im_heap s"] by (simp add: next_state_def)
        have sym: "im_symbols s (vi_name ?v) = None" "im_symbols ?s = (im_symbols s)(vi_name ?v \<mapsto> i)"
          using free by (auto simp: next_state_def emplace_symbol_def)
        note F = facts_grow[OF f ok e sym d onnx_denotes.of_graph_input[OF k False]]
        have "facts M ops h0 mp (length (source_initializers mp)) (Suc k) {} ?s" using F(1,2) by (auto simp: facts_def less_Suc_eq)
        moreover have "state_ok h0 ?s"
          using graph_run.new_input[OF S(1) a] R(2,3) S(3,4,6) R(4)[OF S(5)] by (simp add: state_ok_def next_state_def)
        moreover have "initializer_names mp \<subseteq> dom (im_symbols ?s)" using names(2) sym(2) by auto
        moreover have "map fst (im_model_inputs ?s) = map vi_name (free_inputs mp (take (Suc k) (source_inputs mp)))"
          using ins False take by (simp add: free_inputs_def next_state_def)
        ultimately show ?thesis using names(1) by (simp add: source_inputs_inv_def next_state_def)
      qed
      have "import_outcome (located mp) (\<lambda>x. add_input (vi_name ?v) (vi_spec ?v) (im_graph s) = Inr x)
          (catch_exception (lift (add_input (vi_name ?v) (vi_spec ?v) (im_graph s)))
            (\<lambda>e. throw_value_error mp Stage_GraphImport (import_what e) (vi_name ?v)))"
        by (rule import_outcome_catch[OF regular_build(1)]) (simp_all add: err)
      then have "import_outcome (located mp) (source_inputs_inv M ops h0 mp (Suc k))
          (bindE (catch_exception (lift (add_input (vi_name ?v) (vi_spec ?v) (im_graph s)))
            (\<lambda>e. throw_value_error mp Stage_GraphImport (import_what e) (vi_name ?v))) (\<lambda>x. Inr (next_state x)))"
        by (rule import_outcome_bind) (use step in auto)
      moreover have "import_input mp ?v s = bindE (catch_exception (lift (add_input (vi_name ?v) (vi_spec ?v) (im_graph s)))
            (\<lambda>e. throw_value_error mp Stage_GraphImport (import_what e) (vi_name ?v))) (\<lambda>x. Inr (next_state x))"
        using False free names(1) by (auto simp: import_input_def next_state_def intro!: bindE_cong)
      ultimately show ?thesis by simp
    qed
  qed
qed

lemma import_inputs_ok:
  assumes "source_inputs_inv M ops h0 mp 0 s"
  shows "import_outcome (located mp) (source_inputs_inv M ops h0 mp (length (source_inputs mp))) (foldE (import_input mp) (source_inputs mp) s)"
  by (rule import_outcome_fold[OF import_input_ok assms])

section \<open>Nodes\<close>

lemma known_inputs:
  assumes f: "facts M ops h0 mp a b js s" and r: "resolve_inputs (im_symbols s) names = Some is"
  obtains vs where "length vs = length names" "\<forall>k < length vs. onnx_denotes M ops h0 mp (names ! k) (vs ! k)"
    "\<forall>k < length vs. knows M s (names ! k) (vs ! k)" "\<forall>k < length vs. denotes M (im_heap s) (im_graph s) (is ! k) (vs ! k)"
proof -
  note R = resolve_inputs_Some[OF r]
  have "\<exists>v. onnx_denotes M ops h0 mp (names ! k) v \<and> knows M s (names ! k) v" if "k < length names" for k
  proof -
    have "im_symbols s (names ! k) \<noteq> None" using R that by simp
    then show ?thesis using f unfolding facts_def by blast
  qed
  then obtain v where v: "\<And>k. k < length names \<Longrightarrow> onnx_denotes M ops h0 mp (names ! k) (v k) \<and> knows M s (names ! k) (v k)" by metis
  have "denotes M (im_heap s) (im_graph s) (is ! k) (v k)" if "k < length names" for k
    using v[OF that] R that by (auto simp: knows_def)
  then show ?thesis using v by (intro that[of "map v [0..<length names]"]) simp_all
qed

lemma add_source_node_ok:
  assumes ok: "state_ok h0 s" and f: "facts M ops h0 mp a b js s" and j: "j < length (source_nodes mp)" and reg: "regular_translators ops"
    and r: "resolve_inputs (im_symbols s) (np_inputs (source_nodes mp ! j)) = Some is"
  shows "import_outcome (located mp) (\<lambda>s'. state_ok h0 s' \<and> facts M ops h0 mp a b (insert j js) s' \<and> im_model_inputs s' = im_model_inputs s)
    (add_source_node ops mp (source_nodes mp ! j) j is s)"
proof -
  let ?n = "source_nodes mp ! j"
  note S = state_okD[OF ok]
  have err: "import_outcome (located mp) P (throw_node_error mp ?n j stage message name)"
    if "stage \<in> {Stage_OperatorTranslation, Stage_ShapeInference} \<or> stage = Stage_GraphImport \<and> message \<in>
      {''TinyInfer currently imports one non-empty output per ONNX node'', ''ONNX value name is defined more than once'',
      ''optional or empty ONNX inputs are not supported'', ''ONNX node input is not defined''}" for P stage and message and name
    by (rule located_node[OF j that])
  show ?thesis
  proof (cases "(length (np_outputs ?n) \<noteq> 1 \<or> hd (np_outputs ?n) = []) \<or> im_symbols s (hd (np_outputs ?n)) \<noteq> None")
    case True
    then show ?thesis by (auto simp: add_source_node_def err)
  next
    case False
    then obtain out where out: "np_outputs ?n = [out]" "im_symbols s out = None" by (cases "np_outputs ?n") auto
    from f r obtain vs where vs: "length vs = length (np_inputs ?n)" "\<forall>k < length vs. onnx_denotes M ops h0 mp (np_inputs ?n ! k) (vs ! k)"
      "\<forall>k < length vs. knows M s (np_inputs ?n ! k) (vs ! k)" "\<forall>k < length vs. denotes M (im_heap s) (im_graph s) (is ! k) (vs ! k)"
      by (rule known_inputs)
    have step: "import_outcome (located mp) (\<lambda>s'. state_ok h0 s' \<and> facts M ops h0 mp a b (insert j js) s' \<and> im_model_inputs s' = im_model_inputs s)
        (bindE (lift (graph_node g nid)) (\<lambda>n. case nd_outputs n of
               [] \<Rightarrow> undefined_ub ''front of an empty vector''
             | x # _ \<Rightarrow> Inr (s\<lparr>im_graph := g, im_symbols := emplace_symbol (hd (np_outputs ?n)) x (im_symbols s)\<rparr>)))"
      if t: "translate_operator ops ?n (mp_opset_version mp) = Inr (op, attrs)"
        and a: "add_node name op is attrs (im_graph s) = Inr (nid, g)" for op attrs name nid g
    proof -
      have len: "length vs = length is" using vs(1) resolve_inputs_Some[OF r] by simp
      from S(2) a len vs(4) S(5) obtain i n where R: "graph_node g nid = Inr n" "nd_outputs n = [i]"
        "denotes M (im_heap s) g i (mn_op M op attrs vs)" "g_outputs g = g_outputs (im_graph s)" "g_inputs g = g_inputs (im_graph s)"
        "constants_ok (im_heap s) g" by (rule add_node_result)
      let ?s = "s\<lparr>im_graph := g, im_symbols := (im_symbols s)(out \<mapsto> i)\<rparr>"
      have e: "extends (im_graph s) (im_graph ?s)" "heap_ext (im_heap s) (im_heap ?s)"
        using graph_add_node_ok[OF S(2) a] heap_ext_refl by simp_all
      have d: "denotes M (im_heap ?s) (im_graph ?s) i (mn_op M op attrs vs)" using R(3) by simp
      have od: "onnx_denotes M ops h0 mp out (mn_op M op attrs vs)"
        by (rule onnx_denotes.of_source_node[OF j out(1) t vs(1,2)])
      have sym: "im_symbols ?s = (im_symbols s)(out \<mapsto> i)" by simp
      note F = facts_grow[OF f ok e out(2) sym d od]
      have "node_known M ops mp ?s j"
        unfolding node_known_def using out(1) t vs(1,3) F(2,3) by blast
      then have "facts M ops h0 mp a b (insert j js) ?s" using F(1) by (simp add: facts_def)
      moreover have "state_ok h0 ?s"
        using graph_run.new_node[OF S(1) a] R(4,5,6) S(3,4,6) by (simp add: state_ok_def)
      ultimately show ?thesis using R(1,2) out by (simp add: lift_def emplace_symbol_def)
    qed
    have tr: "import_outcome (located mp) (\<lambda>x. translate_operator ops ?n (mp_opset_version mp) = Inr x)
        (catch_exception (lift (translate_operator ops ?n (mp_opset_version mp))) (\<lambda>e. throw_node_error mp ?n j Stage_OperatorTranslation (import_what e) []))"
      by (rule import_outcome_catch) (use reg in \<open>simp_all add: regular_translators_def err\<close>)
    have ad: "import_outcome (located mp) (\<lambda>x. add_node name op is attrs (im_graph s) = Inr x)
        (catch_exception (lift (add_node name op is attrs (im_graph s))) (\<lambda>e. throw_node_error mp ?n j Stage_ShapeInference (import_what e) []))"
      for name op attrs by (rule import_outcome_catch[OF regular_build(3)]) (simp_all add: err)
    show ?thesis
      unfolding add_source_node_def using False
      by (auto intro!: import_outcome_bind[OF tr] import_outcome_bind[OF ad] step)
  qed
qed

section \<open>Rounds\<close>

definition nodes_inv ::
    "'v meaning \<Rightarrow> operator_registry \<Rightarrow> heap \<Rightarrow> model_proto \<Rightarrow> (string \<times> nat) list \<Rightarrow> import_state \<Rightarrow> bool list \<Rightarrow> nat \<Rightarrow> bool" where
  "nodes_inv M ops h0 mp ins s imported remaining \<longleftrightarrow> state_ok h0 s \<and>
     facts M ops h0 mp (length (source_initializers mp)) (length (source_inputs mp)) {j. j < length (source_nodes mp) \<and> imported ! j} s \<and>
     im_model_inputs s = ins \<and> length imported = length (source_nodes mp) \<and> remaining = length (filter Not imported)"

text \<open>The round that started in \<open>s0\<close> has visited \<open>k\<close> nodes; without progress nothing has changed and none was ready.\<close>

definition round_inv ::
    "'v meaning \<Rightarrow> operator_registry \<Rightarrow> heap \<Rightarrow> model_proto \<Rightarrow> import_state \<Rightarrow> bool list \<Rightarrow> nat \<Rightarrow> nat \<Rightarrow> round_state \<Rightarrow> bool" where
  "round_inv M ops h0 mp s0 imported0 remaining0 k r \<longleftrightarrow> (case r of (s, imported, remaining, progress) \<Rightarrow>
     nodes_inv M ops h0 mp (im_model_inputs s0) s imported remaining \<and>
     (if progress then remaining < remaining0
      else s = s0 \<and> imported = imported0 \<and> remaining = remaining0 \<and>
        (\<forall>j < k. \<not> imported ! j \<longrightarrow> resolve_inputs (im_symbols s) (np_inputs (source_nodes mp ! j)) = None)))"

lemma set_flag: "i < length fs \<Longrightarrow> \<not> fs ! i \<Longrightarrow> length (filter Not fs) = Suc (length (filter Not (fs[i := True])))"
  by (induction fs arbitrary: i) (auto simp: nth_Cons split: nat.splits)

lemma visit_node_ok:
  assumes inv: "round_inv M ops h0 mp s0 imported0 remaining0 k r" and k: "k < length (source_nodes mp)" and reg: "regular_translators ops"
  shows "import_outcome (located mp) (round_inv M ops h0 mp s0 imported0 remaining0 (Suc k)) (visit_node ops mp k r)"
proof -
  obtain s imported remaining progress where r: "r = (s, imported, remaining, progress)" by (metis prod_cases4)
  have ni: "nodes_inv M ops h0 mp (im_model_inputs s0) s imported remaining" using inv by (simp add: round_inv_def r)
  then have ok: "state_ok h0 s" and f: "facts M ops h0 mp (length (source_initializers mp)) (length (source_inputs mp)) {j. j < length (source_nodes mp) \<and> imported ! j} s"
    and len: "length imported = length (source_nodes mp)" "remaining = length (filter Not imported)" by (simp_all add: nodes_inv_def)
  show ?thesis
  proof (cases "imported ! k")
    case True
    then show ?thesis using inv by (auto simp: visit_node_def r round_inv_def less_Suc_eq)
  next
    case False
    show ?thesis
    proof (cases "np_domain (source_nodes mp ! k) \<noteq> [] \<and> np_domain (source_nodes mp ! k) \<noteq> ''ai.onnx''")
      case True
      then show ?thesis using False by (simp add: visit_node_def r Let_def located_node[OF k])
    next
      case dom: False
      show ?thesis
      proof (cases "resolve_inputs (im_symbols s) (np_inputs (source_nodes mp ! k))")
        case None
        then show ?thesis using inv False dom by (auto simp: visit_node_def r round_inv_def Let_def less_Suc_eq)
      next
        case (Some ins)
        have flag: "length (filter Not imported) = Suc (length (filter Not (imported[k := True])))"
          by (rule set_flag) (use k len(1) False in simp_all)
        have js: "insert k {j. j < length (source_nodes mp) \<and> imported ! j} = {j. j < length (source_nodes mp) \<and> imported[k := True] ! j}"
          using k len(1) by (auto simp: nth_list_update)
        have "round_inv M ops h0 mp s0 imported0 remaining0 (Suc k) (s', imported[k := True], dec64 remaining, True)"
          if "state_ok h0 s'" "facts M ops h0 mp (length (source_initializers mp)) (length (source_inputs mp)) (insert k {j. j < length (source_nodes mp) \<and> imported ! j}) s'"
            "im_model_inputs s' = im_model_inputs s" for s'
          using that ni inv flag len unfolding js by (auto simp: round_inv_def nodes_inv_def r split: if_splits)
        then show ?thesis using False dom Some
          by (auto simp: visit_node_def r Let_def intro!: import_outcome_bind[OF add_source_node_ok[OF ok f k reg Some]])
      qed
    qed
  qed
qed

text \<open>Without progress there is a node with an input that has no value: the cycle is reported as such an input.\<close>

lemma no_progress_located:
  assumes k: "k < length (source_nodes mp)" "\<not> imported ! k"
    and none: "\<forall>j < length (source_nodes mp). \<not> imported ! j \<longrightarrow> resolve_inputs symbols (np_inputs (source_nodes mp ! j)) = None"
  shows "import_outcome (located mp) P (no_progress_error mp symbols imported)"
proof -
  have "List.find (\<lambda>index. \<not> imported ! index) [0..<length (source_nodes mp)] \<noteq> None" using k by (auto simp: find_None_iff)
  then obtain j where j: "List.find (\<lambda>index. \<not> imported ! index) [0..<length (source_nodes mp)] = Some j" by blast
  then have jl: "j < length (source_nodes mp)" "\<not> imported ! j" by (auto simp: find_Some_iff)
  have "resolve_inputs symbols (np_inputs (source_nodes mp ! j)) = None" using none jl by blast
  then have "List.find (\<lambda>name. name = [] \<or> symbols name = None) (np_inputs (source_nodes mp ! j)) \<noteq> None"
    by (auto simp: resolve_inputs_None find_None_iff)
  then obtain name where n: "List.find (\<lambda>name. name = [] \<or> symbols name = None) (np_inputs (source_nodes mp ! j)) = Some name" by blast
  show ?thesis by (simp add: no_progress_error_def j n Let_def located_node[OF jl(1)])
qed

lemma import_rounds_ok:
  assumes "nodes_inv M ops h0 mp ins s imported remaining" and reg: "regular_translators ops"
  shows "import_outcome (located mp) (\<lambda>s'. nodes_inv M ops h0 mp ins s' (replicate (length (source_nodes mp)) True) 0) (import_rounds ops mp s imported remaining)"
  using assms(1)
proof (induction remaining arbitrary: s imported rule: less_induct)
  case (less remaining)
  note ni = less.prems
  show ?case
  proof (cases "remaining = 0")
    case True
    then have "filter Not imported = []" "length imported = length (source_nodes mp)" using ni by (simp_all add: nodes_inv_def)
    then have "imported = replicate (length (source_nodes mp)) True"
      by (metis (full_types) filter_empty_conv replicate_eqI)
    moreover have "import_rounds ops mp s imported remaining = Inr s"
      unfolding import_rounds.simps[of ops mp s imported remaining] using True by simp
    ultimately show ?thesis using ni True by simp
  next
    case False
    have round: "import_outcome (located mp) (round_inv M ops h0 mp s imported remaining (length [0..<length (source_nodes mp)]))
        (foldE (visit_node ops mp) [0..<length (source_nodes mp)] (s, imported, remaining, False))"
    proof (rule import_outcome_fold)
      show "round_inv M ops h0 mp s imported remaining 0 (s, imported, remaining, False)" using ni by (simp add: round_inv_def nodes_inv_def)
    qed (use visit_node_ok[OF _ _ reg] in simp)
    have fin: "import_outcome (located mp) (\<lambda>s'. nodes_inv M ops h0 mp ins s' (replicate (length (source_nodes mp)) True) 0)
        (if \<not> progress then no_progress_error mp (im_symbols s') imported'
          else if remaining' < remaining then import_rounds ops mp s' imported' remaining'
          else undefined_ub ''loop'')"
      if r: "round_inv M ops h0 mp s imported remaining (length [0..<length (source_nodes mp)]) (s', imported', remaining', progress)"
      for s' imported' remaining' progress
    proof (cases progress)
      case True
      have "im_model_inputs s = ins" using ni by (simp add: nodes_inv_def)
      then have "nodes_inv M ops h0 mp ins s' imported' remaining'" "remaining' < remaining" using r True by (simp_all add: round_inv_def)
      then show ?thesis using less.IH True by simp
    next
      case no: False
      have n: "length imported' = length (source_nodes mp)" "length (filter Not imported') \<noteq> 0"
        using r no ni False by (auto simp: round_inv_def nodes_inv_def)
      then have "\<exists>x \<in> set imported'. \<not> x" by (metis (full_types) filter_False length_0_conv)
      then obtain k where "k < length (source_nodes mp)" "\<not> imported' ! k" using n(1) by (metis in_set_conv_nth)
      moreover have "\<forall>j < length (source_nodes mp). \<not> imported' ! j \<longrightarrow> resolve_inputs (im_symbols s') (np_inputs (source_nodes mp ! j)) = None"
        using r no by (auto simp: round_inv_def)
      ultimately have "import_outcome (located mp) P (no_progress_error mp (im_symbols s') imported')" for P :: "import_state \<Rightarrow> bool"
        by (rule no_progress_located)
      then show ?thesis using no by simp
    qed
    show ?thesis unfolding import_rounds.simps[of ops mp s imported remaining] using False fin
      by (auto intro!: import_outcome_bind[OF round])
  qed
qed

section \<open>Outputs and the model\<close>

definition outputs_inv :: "model_proto \<Rightarrow> import_state \<Rightarrow> nat \<Rightarrow> graph \<times> (string \<times> nat) list \<Rightarrow> bool" where
  "outputs_inv mp s k r \<longleftrightarrow> fst r = (im_graph s)\<lparr>g_outputs := map snd (snd r)\<rparr> \<and> graph_run (fst r) \<and> length (snd r) = k \<and>
     (\<forall>j < k. fst (snd r ! j) = vi_name (gp_outputs (mp_graph mp) ! j) \<and>
        im_symbols s (vi_name (gp_outputs (mp_graph mp) ! j)) = Some (snd (snd r ! j)) \<and>
        gv_spec (g_values (im_graph s) ! snd (snd r ! j)) = vi_spec (gp_outputs (mp_graph mp) ! j))"

lemma import_output_ok:
  assumes inv: "outputs_inv mp s k r" and symbols: "\<forall>name i. im_symbols s name = Some i \<longrightarrow> i < length (g_values (im_graph s))"
  shows "import_outcome (located mp) (outputs_inv mp s (Suc k)) (import_output mp (im_symbols s) (gp_outputs (mp_graph mp) ! k) r)"
proof -
  let ?v = "gp_outputs (mp_graph mp) ! k"
  have err: "import_outcome (located mp) P (throw_value_error mp Stage_GraphValidation message (vi_name ?v))" for P and message
    by (rule located_value) simp
  show ?thesis
  proof (cases "im_symbols s (vi_name ?v)")
    case None
    then show ?thesis by (simp add: import_output_def err)
  next
    case (Some i)
    have G: "fst r = (im_graph s)\<lparr>g_outputs := map snd (snd r)\<rparr>" "graph_run (fst r)" "length (snd r) = k"
      using inv unfolding outputs_inv_def by blast+
    have at: "import_outcome (located mp) (\<lambda>gv. gv = g_values (im_graph s) ! i) (lift (graph_value_at (fst r) i))" if "i < length (g_values (im_graph s))"
      using that by (simp add: graph_value_at_def lift_def G(1))
    have mark: "import_outcome (located mp) (\<lambda>g. mark_output i (fst r) = Inr g)
        (catch_exception (lift (mark_output i (fst r))) (\<lambda>e. throw_value_error mp Stage_GraphValidation (import_what e) (vi_name ?v)))"
      by (rule import_outcome_catch[OF regular_build(4)]) (simp_all add: err)
    have new: "outputs_inv mp s (Suc k) (g, snd r @ [(vi_name ?v, i)])"
      if m: "mark_output i (fst r) = Inr g" and spec: "gv_spec (g_values (im_graph s) ! i) = vi_spec ?v" for g
    proof -
      have "g = (im_graph s)\<lparr>g_outputs := map snd (snd r @ [(vi_name ?v, i)])\<rparr>"
        using m by (auto simp: mark_output_def G(1) split: if_splits)
      moreover have "graph_run g" by (rule graph_run.new_output[OF G(2) m])
      ultimately show ?thesis using inv Some spec by (auto simp: outputs_inv_def nth_append less_Suc_eq)
    qed
    have "import_outcome (located mp) (outputs_inv mp s (Suc k))
        (bindE (lift (graph_value_at (fst r) i)) (\<lambda>gv.
          if gv_spec gv \<noteq> vi_spec ?v
          then throw_value_error mp Stage_GraphValidation ''ONNX graph output metadata does not match inferred TensorSpec'' (vi_name ?v)
          else bindE (catch_exception (lift (mark_output i (fst r)))
                 (\<lambda>e. throw_value_error mp Stage_GraphValidation (import_what e) (vi_name ?v))) (\<lambda>g. Inr (g, snd r @ [(vi_name ?v, i)]))))"
      if "i < length (g_values (im_graph s))"
      by (rule import_outcome_bind[OF at[OF that]]) (auto simp: err intro!: import_outcome_bind[OF mark] new)
    then show ?thesis using symbols Some by (simp add: import_output_def)
  qed
qed

lemma symbol_range:
  assumes "facts M ops h0 mp a b js s"
  shows "\<forall>name i. im_symbols s name = Some i \<longrightarrow> i < length (g_values (im_graph s))"
proof (intro allI impI)
  fix name i assume i: "im_symbols s name = Some i"
  then obtain v where "knows M s name v" using assms unfolding facts_def by blast
  then have "denotes M (im_heap s) (im_graph s) i v" using i by (simp add: knows_def)
  then show "i < length (g_values (im_graph s))" by cases simp_all
qed

text \<open>
  What the importer promises: a well-formed model with the free inputs and the outputs of the source, each output with its
  declared specification and with exactly the meaning of its name.
\<close>

definition imports_as :: "'v meaning \<Rightarrow> operator_registry \<Rightarrow> heap \<Rightarrow> model_proto \<Rightarrow> model \<times> heap \<Rightarrow> bool" where
  "imports_as M ops h0 mp r \<longleftrightarrow> (case r of (m, h) \<Rightarrow> model_ok h m \<and> heap_ext h0 h \<and>
     map fst (m_inputs m) = map vi_name (free_inputs mp (source_inputs mp)) \<and>
     length (m_outputs m) = length (gp_outputs (mp_graph mp)) \<and>
     (\<forall>j < length (m_outputs m). let v = gp_outputs (mp_graph mp) ! j; i = snd (m_outputs m ! j) in
        fst (m_outputs m ! j) = vi_name v \<and> gv_spec (g_values (m_graph m) ! i) = vi_spec v \<and>
        (\<forall>x. denotes M h (m_graph m) i x \<longleftrightarrow> onnx_denotes M ops h0 mp (vi_name v) x)))"

lemma mk_model_Inr: "mk_model g ins outs = Inr m \<Longrightarrow> m = \<lparr>m_graph = g, m_inputs = ins, m_outputs = outs\<rparr>"
  by (auto simp: mk_model_def split: if_splits)

lemma finished_import:
  assumes ok: "state_ok h0 s" and f: "facts M ops h0 mp (length (source_initializers mp)) (length (source_inputs mp)) {..<length (source_nodes mp)} s"
    and ins: "map fst (im_model_inputs s) = map vi_name (free_inputs mp (source_inputs mp))"
    and out: "outputs_inv mp s (length (gp_outputs (mp_graph mp))) (g, outs)" and m: "mk_model g (im_model_inputs s) outs = Inr m"
  shows "imports_as M ops h0 mp (m, im_heap s)"
proof -
  note S = state_okD[OF ok]
  have g: "g = (im_graph s)\<lparr>g_outputs := map snd outs\<rparr>" and run: "graph_run g" and len: "length outs = length (gp_outputs (mp_graph mp))"
    and outs: "\<forall>j < length outs. fst (outs ! j) = vi_name (gp_outputs (mp_graph mp) ! j) \<and>
        im_symbols s (vi_name (gp_outputs (mp_graph mp) ! j)) = Some (snd (outs ! j)) \<and>
        gv_spec (g_values (im_graph s) ! snd (outs ! j)) = vi_spec (gp_outputs (mp_graph mp) ! j)"
    using out unfolding outputs_inv_def by auto
  note m' = mk_model_Inr[OF m]
  have "constants_ok (im_heap s) g" using S(5) by (simp add: constants_ok_def g)
  then have mok: "model_ok (im_heap s) m" using graph_run_ok[OF run] names_ok_run[OF run] m by (simp add: model_ok_def m')
  have restore: "im_graph s = g\<lparr>g_outputs := g_outputs (im_graph s)\<rparr>" by (simp add: g)
  have den: "denotes M (im_heap s) g i x \<longleftrightarrow> denotes M (im_heap s) (im_graph s) i x" for i x
    using denotes_outputs[of M "im_heap s" "im_graph s" i x "map snd outs"] denotes_outputs[of M "im_heap s" g i x "g_outputs (im_graph s)"]
    unfolding restore[symmetric] g[symmetric] by blast
  have "denotes M (im_heap s) g (snd (outs ! j)) x \<longleftrightarrow> onnx_denotes M ops h0 mp (vi_name (gp_outputs (mp_graph mp) ! j)) x"
    if j: "j < length outs" for j x
  proof -
    let ?name = "vi_name (gp_outputs (mp_graph mp) ! j)"
    have sym: "im_symbols s ?name = Some (snd (outs ! j))" using outs j by blast
    then obtain v where v: "onnx_denotes M ops h0 mp ?name v" "knows M s ?name v" using f unfolding facts_def by blast
    have "knows M s ?name x \<longleftrightarrow> denotes M (im_heap s) (im_graph s) (snd (outs ! j)) x" by (simp add: knows_def sym)
    then show ?thesis using v facts_complete[OF f] knows_unique den by metis
  qed
  then show ?thesis using mok ins len outs S(4) by (simp add: imports_as_def m' g Let_def)
qed

theorem import_model_outcome:
  assumes t: "\<forall>t \<in> set (source_initializers mp). tensor_ok h0 (in_value t)" and reg: "regular_translators ops"
  shows "import_outcome (located mp) (imports_as M ops h0 mp) (import_model ops mp h0)"
proof -
  have err: "import_outcome (located mp) P (throw_model_error mp stage message)" if "stage \<in> {Stage_ModelValidation, Stage_GraphValidation}"
    for P stage and message
    using that by (auto simp: throw_model_error_def located_def model_diagnostic_def default_diagnostic_def)
  let ?n = "length (source_nodes mp)"
  have outs: "import_outcome (located mp) (outputs_inv mp s (length (gp_outputs (mp_graph mp))))
      (foldE (import_output mp (im_symbols s)) (gp_outputs (mp_graph mp)) (im_graph s, []))"
    if "state_ok h0 s" "facts M ops h0 mp a b js s" for s a b js
  proof (rule import_outcome_fold)
    have "im_graph s = (im_graph s)\<lparr>g_outputs := []\<rparr>" using state_okD(3)[OF that(1)] by simp
    then show "outputs_inv mp s 0 (im_graph s, [])" using state_okD(1)[OF that(1)] by (simp add: outputs_inv_def)
  qed (rule import_output_ok[OF _ symbol_range[OF that(2)]])
  have last: "import_outcome (located mp) (imports_as M ops h0 mp)
      (bindE (foldE (import_output mp (im_symbols s)) (gp_outputs (mp_graph mp)) (im_graph s, [])) (\<lambda>(graph, outputs).
        bindE (catch_exception (lift (mk_model graph (im_model_inputs s) outputs))
          (\<lambda>e. throw_model_error mp Stage_GraphValidation (import_what e))) (\<lambda>m. Inr (m, im_heap s))))"
    if ni: "nodes_inv M ops h0 mp ins s (replicate ?n True) 0" and ins: "map fst ins = map vi_name (free_inputs mp (source_inputs mp))" for s ins
  proof -
    have js: "{j. j < ?n \<and> replicate ?n True ! j} = {..<?n}" by auto
    have S: "state_ok h0 s" "facts M ops h0 mp (length (source_initializers mp)) (length (source_inputs mp)) {..<?n} s" "im_model_inputs s = ins"
      using ni unfolding nodes_inv_def js by simp_all
    have "import_outcome (located mp) (imports_as M ops h0 mp) (bindE (catch_exception (lift (mk_model g (im_model_inputs s) os))
          (\<lambda>e. throw_model_error mp Stage_GraphValidation (import_what e))) (\<lambda>m. Inr (m, im_heap s)))"
      if o: "outputs_inv mp s (length (gp_outputs (mp_graph mp))) (g, os)" for g os
    proof (rule import_outcome_bind)
      have "graph_ok g" using o graph_run_ok unfolding outputs_inv_def by auto
      then show "import_outcome (located mp) (\<lambda>m. mk_model g (im_model_inputs s) os = Inr m) (catch_exception (lift (mk_model g (im_model_inputs s) os))
          (\<lambda>e. throw_model_error mp Stage_GraphValidation (import_what e)))"
        by (intro import_outcome_catch regular_mk_model) (simp_all add: err)
    qed (use finished_import[OF S(1,2) _ o] S(3) ins in simp)
    then show ?thesis by (intro import_outcome_bind[OF outs[OF S(1,2)]]) (auto split: prod.splits)
  qed
  have rounds: "import_outcome (located mp) (\<lambda>s'. nodes_inv M ops h0 mp (im_model_inputs s) s' (replicate ?n True) 0) (import_rounds ops mp s (replicate ?n False) ?n)"
    if "source_inputs_inv M ops h0 mp (length (source_inputs mp)) s" for s
  proof (rule import_rounds_ok[OF _ reg])
    have js: "{j. j < ?n \<and> replicate ?n False ! j} = {}" by auto
    show "nodes_inv M ops h0 mp (im_model_inputs s) s (replicate ?n False) ?n"
      using that unfolding nodes_inv_def source_inputs_inv_def js by simp
  qed
  show ?thesis
  proof (cases "mp_opset_version mp < 13")
    case True
    then show ?thesis by (simp add: import_model_def err)
  next
    case False
    have "import_model ops mp h0 =
        bindE (foldE (import_initializer mp) (source_initializers mp) (empty_import h0)) (\<lambda>s1.
        bindE (foldE (import_input mp) (source_inputs mp) s1) (\<lambda>s2.
        bindE (import_rounds ops mp s2 (replicate ?n False) ?n) (\<lambda>s.
        bindE (foldE (import_output mp (im_symbols s)) (gp_outputs (mp_graph mp)) (im_graph s, [])) (\<lambda>(graph, outputs).
        bindE (catch_exception (lift (mk_model graph (im_model_inputs s) outputs))
          (\<lambda>e. throw_model_error mp Stage_GraphValidation (import_what e))) (\<lambda>m. Inr (m, im_heap s))))))"
      using False by (simp add: import_model_def Let_def)
    also have "import_outcome (located mp) (imports_as M ops h0 mp) \<dots>"
    proof (rule import_outcome_bind[OF import_initializers_ok[OF t]], rule import_outcome_bind[OF import_inputs_ok],
        rule source_inputs_inv_start, assumption, rule import_outcome_bind[OF rounds], assumption, rule last, assumption)
      fix s assume "source_inputs_inv M ops h0 mp (length (source_inputs mp)) s"
      then show "map fst (im_model_inputs s) = map vi_name (free_inputs mp (source_inputs mp))" by (simp add: source_inputs_inv_def)
    qed
    finally show ?thesis .
  qed
qed

end
