(* ===== verification/Onnx_Load.thy ===== *)
theory Onnx_Load
  imports Onnx_Import_Sound Onnx_Roundtrip
begin

text \<open>
  Loading a model file: the parser and the importer together. The parser hands over tensors the importer may copy, so
  every file ends in a correct model or in an error that names the file and its cause.
\<close>

section \<open>The tensors of a parsed model\<close>

lemma parse_fields_invariant:
  assumes step: "\<And>f w bs s s' bs'. P s \<Longrightarrow> handle f w bs s = Inr (s', bs') \<Longrightarrow> P s'"
    and "parse_fields handle bs s = Inr s'" and "P s"
  shows "P s'"
proof -
  have "reader_loop (field_step handle) bs s = Inr s' \<Longrightarrow> P s \<Longrightarrow> P s'"
  proof (induction "field_step handle" bs s rule: reader_loop.induct)
    case (1 bs s)
    show ?case
    proof (cases "bs = []")
      case True
      then show ?thesis using 1(2,3) unfolding reader_loop.simps[of _ bs s] by simp
    next
      case False
      then obtain s1 bs1 where b: "field_step handle bs s = Inr (s1, bs1)" "length bs1 < length bs" "reader_loop (field_step handle) bs1 s1 = Inr s'"
        using 1(2) unfolding reader_loop.simps[of _ bs s] by (auto split: if_splits)
      have "P s1" using b(1) step 1(3) by (auto simp: field_step_def)
      then show ?thesis using 1(1)[OF False b(1) refl b(2,3)] by blast
    qed
  qed
  then show ?thesis using assms(2,3) by (simp add: parse_fields_def)
qed

definition tensors_ok :: "heap \<Rightarrow> graph_proto \<times> heap \<Rightarrow> bool" where
  "tensors_ok h0 r \<longleftrightarrow> heap_ext h0 (snd r) \<and> (\<forall>t \<in> set (gp_initializers (fst r)). tensor_ok (snd r) (in_value t))"

lemma initializer_field_ok:
  assumes ok: "tensors_ok h0 (g, h)" and i: "initializer_field b g h = Inr (g', h')"
  shows "tensors_ok h0 (g', h')"
proof -
  obtain parsed t where t: "decode_tensor parsed h = Inr (t, h')"
    and g': "g' = g\<lparr>gp_initializers := gp_initializers g @ [\<lparr>in_name = pt_name parsed, in_value = t\<rparr>]\<rparr>"
    using i by (auto simp: initializer_field_def catch_exception_def lift_def split: if_splits sum.splits import_exn.splits exn.splits)
  note D = decode_tensor_ok(1,2)[OF t]
  show ?thesis using ok D heap_ext_trans[OF _ D(2)] heap_ext_tensor[OF D(2)] by (auto simp: tensors_ok_def g')
qed

lemma graph_field_ok:
  assumes "tensors_ok h0 s" and "graph_field f w bs s = Inr (s', bs')"
  shows "tensors_ok h0 s'"
proof -
  obtain g h where s: "s = (g, h)" by (cases s)
  show ?thesis
    using assms initializer_field_ok[of h0 g h] unfolding s graph_field_def
    by (auto simp: tensors_ok_def skip_field_def split: if_splits)
qed

lemma parse_graph_ok: "parse_graph bs h = Inr r \<Longrightarrow> tensors_ok h r"
  unfolding parse_graph_def
  by (rule parse_fields_invariant[where P = "tensors_ok h", OF graph_field_ok]) (auto simp: tensors_ok_def empty_graph_proto_def)

lemma parse_model_ok:
  assumes "parse_model bs h = Inr (mp, h')"
  shows "tensors_ok h (mp_graph mp, h')"
proof -
  obtain has where r: "parse_fields model_field bs ((\<lparr>mp_opset_version = 0, mp_graph = empty_graph_proto\<rparr>, False), h) = Inr ((mp, has), h')"
    using assms by (auto simp: parse_model_def split: if_splits)
  have "(\<lambda>((m, _), h'). tensors_ok h (mp_graph m, h')) ((mp, has), h')"
  proof (rule parse_fields_invariant[OF _ r])
    fix f w bs s s' bs'
    assume ok: "(\<lambda>((m, _), h'). tensors_ok h (mp_graph m, h')) s" and m: "model_field f w bs s = Inr (s', bs')"
    obtain m has h1 where s: "s = ((m, has), h1)" by (metis surj_pair)
    have ext: "tensors_ok h r" if "tensors_ok h1 r" for r
      using that ok heap_ext_trans by (auto simp: tensors_ok_def s)
    show "(\<lambda>((m, _), h'). tensors_ok h (mp_graph m, h')) s'"
      using m ok ext parse_graph_ok unfolding s model_field_def by (auto simp: skip_field_def split: if_splits)
  qed (simp add: tensors_ok_def empty_graph_proto_def)
  then show ?thesis by simp
qed

lemma parser_parse_ok: "parser_parse path stream h = Inr (mp, h') \<Longrightarrow> tensors_ok h (mp_graph mp, h')"
  by (auto simp: parser_parse_def catch_exception_def intro: parse_model_ok split: file_read.splits sum.splits import_exn.splits exn.splits)

section \<open>Properties\<close>

text \<open>
  C11: the importer is correct. A model imported from a message whose tensors live in memory is well formed, takes exactly
  the graph inputs that are no initializers and has exactly the graph outputs, in their order; each output has its
  declared specification and, for every meaning of the operators, exactly the value that the names of the message define,
  whatever the order of the nodes in the message.
\<close>

theorem imported_model_computes_source:
  assumes "mk_operator_registry = Inr ops" and "\<forall>t \<in> set (gp_initializers (mp_graph mp)). tensor_ok h0 (in_value t)"
    and "import_model ops mp h0 = Inr (m, h)"
  shows "model_ok h m \<and> map fst (m_inputs m) = map vi_name (filter (\<lambda>v. vi_name v \<notin> initializer_names mp) (gp_inputs (mp_graph mp))) \<and>
    map fst (m_outputs m) = map vi_name (gp_outputs (mp_graph mp)) \<and>
    (\<forall>j < length (m_outputs m). gv_spec (g_values (m_graph m) ! snd (m_outputs m ! j)) = vi_spec (gp_outputs (mp_graph mp) ! j) \<and>
       (\<forall>x. denotes M h (m_graph m) (snd (m_outputs m ! j)) x \<longleftrightarrow>
          onnx_denotes M ops h0 mp (vi_name (gp_outputs (mp_graph mp) ! j)) x))"
proof -
  have i: "imports_as M ops h0 mp (m, h)"
    using import_model_outcome[OF assms(2) default_translators[OF assms(1)], of M] assms(3) by simp
  then have "map fst (m_outputs m) = map vi_name (gp_outputs (mp_graph mp))"
    by (intro nth_equalityI) (simp_all add: imports_as_def Let_def)
  then show ?thesis using i by (simp add: imports_as_def free_inputs_def Let_def)
qed

text \<open>Two nodes in the wrong order: \<open>y = Relu(h)\<close> stands before \<open>h = Relu(x)\<close>.\<close>

definition relu_node :: "string \<Rightarrow> string \<Rightarrow> node_proto" where
  "relu_node x y = \<lparr>np_name = [], np_op_type = ''Relu'', np_inputs = [x], np_outputs = [y], np_attributes = [], np_domain = []\<rparr>"

definition demo_proto :: model_proto where
  "demo_proto = \<lparr>mp_opset_version = 13, mp_graph = empty_graph_proto\<lparr>gp_inputs := [\<lparr>vi_name = ''x'', vi_spec = demo_spec\<rparr>],
     gp_nodes := [relu_node ''h'' ''y'', relu_node ''x'' ''h''], gp_outputs := [\<lparr>vi_name = ''y'', vi_spec = demo_spec\<rparr>]\<rparr>\<rparr>"

definition demo_chain :: "nat \<Rightarrow> graph" where
  "demo_chain k = \<lparr>g_nodes = take k [\<lparr>nd_id = 0, nd_name = ''__onnx_node_1'', nd_op = Op_ReLU, nd_inputs = [0], nd_outputs = [1], nd_attributes = []\<rparr>,
       \<lparr>nd_id = 1, nd_name = ''__onnx_node_0'', nd_op = Op_ReLU, nd_inputs = [1], nd_outputs = [2], nd_attributes = []\<rparr>],
     g_values = take (Suc k) [demo_value 0 ''x'' Kind_input None, demo_value 1 ''__onnx_node_1:0'' Kind_intermediate (Some 0),
       demo_value 2 ''__onnx_node_0:0'' Kind_intermediate (Some 1)],
     g_constants = replicate (Suc k) None, g_inputs = [0], g_outputs = []\<rparr>"

lemma demo_relu:
  "validate_spec demo_spec = Inr ()" "infer_output_specs Op_ReLU [demo_spec] [] = Inr [demo_spec]"
proof -
  show v: "validate_spec demo_spec = Inr ()"
    by (simp add: validate_spec_def demo_spec_def mk_layout_def validate_shape_def checked_numel_def make_contiguous_strides_def
        checked_multiply_def size_max_def int64_max_def size_bytes_def)
  show "infer_output_specs Op_ReLU [demo_spec] [] = Inr [demo_spec]"
    using v by (simp add: infer_output_specs_def validate_attributes_def require_float32_def) (simp add: demo_spec_def)
qed

lemma demo_names:
  "imported_node_name 0 [''x''] = ''__onnx_node_0''" "imported_node_name 1 [''x''] = ''__onnx_node_1''"
  "output_name ''__onnx_node_0'' 0 = ''__onnx_node_0:0''" "output_name ''__onnx_node_1'' 0 = ''__onnx_node_1:0''"
  by code_simp+

lemma demo_build:
  "add_input ''x'' demo_spec empty_graph = Inr (0, demo_chain 0)"
  "add_node ''__onnx_node_1'' Op_ReLU [0] [] (demo_chain 0) = Inr (0, demo_chain 1)"
  "add_node ''__onnx_node_0'' Op_ReLU [1] [] (demo_chain 1) = Inr (1, demo_chain 2)"
  using demo_relu demo_names(3,4)
  by (simp_all add: add_input_def add_node_def require_unique_name_def node_input_spec_def empty_graph_def demo_chain_def demo_value_def
      numeral_3_eq_3)

lemma demo_translate:
  assumes "mk_operator_registry = Inr ops"
  shows "translate_operator ops (relu_node x y) 13 = Inr (Op_ReLU, [])"
  using assms by (auto simp: mk_operator_registry_def register_translator_def versions_of_def store_versions_def canonical_domain_def
      int64_max_def Let_def translate_operator_def relu_node_def in_range_def direct_def)

definition demo_symbols :: "nat \<Rightarrow> string \<rightharpoonup> nat" where
  "demo_symbols k = map_of (rev (take (Suc k) [(''x'', 0), (''h'', Suc 0), (''y'', 2)]))"

lemma demo_symbols:
  "demo_symbols 0 ''x'' = Some 0" "demo_symbols 0 ''h'' = None" "demo_symbols (Suc 0) ''h'' = Some (Suc 0)"
  "demo_symbols (Suc 0) ''y'' = None" "demo_symbols 2 ''y'' = Some 2"
  "[''x'' \<mapsto> 0] = demo_symbols 0" "(demo_symbols 0)(''h'' \<mapsto> Suc 0) = demo_symbols (Suc 0)" "(demo_symbols (Suc 0))(''y'' \<mapsto> 2) = demo_symbols 2"
  by (simp_all add: demo_symbols_def numeral_2_eq_2)

definition demo_import :: "nat \<Rightarrow> heap \<Rightarrow> import_state" where
  "demo_import k h = \<lparr>im_graph = demo_chain k, im_symbols = demo_symbols k, im_initializer_names = [], im_reserved_names = [''x''],
     im_model_inputs = [(''x'', 0)], im_heap = h\<rparr>"

lemma demo_inputs:
  "import_input demo_proto \<lparr>vi_name = ''x'', vi_spec = demo_spec\<rparr> (empty_import h) = Inr (demo_import 0 h)"
  using demo_build(1)
  by (simp add: import_input_def empty_import_def demo_import_def catch_exception_def lift_def emplace_symbol_def demo_symbols)

lemma demo_node:
  assumes "mk_operator_registry = Inr ops"
  shows "add_source_node ops demo_proto (relu_node ''x'' ''h'') (Suc 0) [0] (demo_import 0 h) = Inr (demo_import (Suc 0) h)"
    and "add_source_node ops demo_proto (relu_node ''h'' ''y'') 0 [Suc 0] (demo_import (Suc 0) h) =
      Inr (demo_import 2 h)"
proof -
  have "graph_node (demo_chain (Suc 0)) 0 = Inr \<lparr>nd_id = 0, nd_name = ''__onnx_node_1'', nd_op = Op_ReLU, nd_inputs = [0], nd_outputs = [Suc 0], nd_attributes = []\<rparr>"
    "graph_node (demo_chain 2) (Suc 0) = Inr \<lparr>nd_id = Suc 0, nd_name = ''__onnx_node_0'', nd_op = Op_ReLU, nd_inputs = [Suc 0], nd_outputs = [2], nd_attributes = []\<rparr>"
    by (simp_all add: graph_node_def demo_chain_def)
  note n = this demo_translate[OF assms] demo_names(1,2)[unfolded One_nat_def] demo_build(2,3)[unfolded One_nat_def]
  show "add_source_node ops demo_proto (relu_node ''x'' ''h'') (Suc 0) [0] (demo_import 0 h) = Inr (demo_import (Suc 0) h)"
    using n by (simp add: add_source_node_def demo_import_def catch_exception_def lift_def emplace_symbol_def demo_proto_def) (simp add: relu_node_def demo_symbols)
  show "add_source_node ops demo_proto (relu_node ''h'' ''y'') 0 [Suc 0] (demo_import (Suc 0) h) =
      Inr (demo_import 2 h)"
    using n by (simp add: add_source_node_def demo_import_def catch_exception_def lift_def emplace_symbol_def demo_proto_def) (simp add: relu_node_def demo_symbols)
qed

lemma demo_rounds:
  assumes "mk_operator_registry = Inr ops"
  shows "import_rounds ops demo_proto (demo_import 0 h) [False, False] 2 = Inr (demo_import 2 h)"
proof -
  have nodes: "gp_nodes (mp_graph demo_proto) = [relu_node ''h'' ''y'', relu_node ''x'' ''h'']" by (simp add: demo_proto_def)
  have fields: "np_domain (relu_node a b) = []" "np_inputs (relu_node a b) = [a]" for a b by (simp_all add: relu_node_def)
  have syms: "im_symbols (demo_import k h) = demo_symbols k" for k by (simp add: demo_import_def)
  note D = demo_node[OF assms, of h]
  have upt: "[0..<2] = [0, Suc 0]" by (simp add: numeral_2_eq_2)
  have 1: "foldE (visit_node ops demo_proto) [0..<2] (demo_import 0 h, [False, False], 2, False) =
      Inr (demo_import (Suc 0) h, [False, True], Suc 0, True)"
    using D(1) unfolding upt by (simp add: visit_node_def nodes fields syms demo_symbols)
  have 2: "foldE (visit_node ops demo_proto) [0..<2] (demo_import (Suc 0) h, [False, True], Suc 0, False) =
      Inr (demo_import 2 h, [True, True], 0, True)"
    using D(2) unfolding upt by (simp add: visit_node_def nodes fields syms demo_symbols)
  have len: "length (gp_nodes (mp_graph demo_proto)) = 2" by (simp add: nodes)
  show ?thesis
    unfolding import_rounds.simps[of ops demo_proto "demo_import 0 h"] len 1
    unfolding import_rounds.simps[of ops demo_proto "demo_import (Suc 0) h"] bindE_Inr prod.case len
    by (simp add: 2 import_rounds.simps[of ops demo_proto "demo_import 2 h"])
qed

lemma demo_model:
  assumes ops: "mk_operator_registry = Inr ops"
  shows "\<exists>m. import_model ops demo_proto h = Inr (m, h) \<and> m_outputs m = [(''y'', 2)]"
proof -
  let ?s = "demo_import 2 h" and ?g = "(demo_chain 2)\<lparr>g_outputs := [2]\<rparr>"
  have "graph_run (demo_chain 0)" by (rule graph_run.new_input[OF graph_run.empty demo_build(1)])
  from graph_run.new_node[OF graph_run.new_node[OF this demo_build(2)] demo_build(3)] have run: "graph_run (demo_chain 2)" .
  have vals: "length (g_values (demo_chain 2)) = 3" "gv_spec (g_values (demo_chain 2) ! 2) = demo_spec" "g_outputs (demo_chain 2) = []"
    "gv_kind (g_values (demo_chain 2) ! 0) = Kind_input" "g_inputs (demo_chain 2) = [0]"
    by (simp_all add: demo_chain_def demo_value_def numeral_2_eq_2)
  have mark: "mark_output 2 (demo_chain 2) = Inr ?g" by (simp add: mark_output_def graph_value_at_def vals)
  have "graph_ok ?g" by (rule graph_run_ok[OF graph_run.new_output[OF run mark]])
  from mk_model_iff[OF this, of "[(''x'', 0)]" "[(''y'', 2)]" "\<lparr>m_graph = ?g, m_inputs = [(''x'', 0)], m_outputs = [(''y'', 2)]\<rparr>"]
  have m: "mk_model ?g [(''x'', 0)] [(''y'', 2)] = Inr \<lparr>m_graph = ?g, m_inputs = [(''x'', 0)], m_outputs = [(''y'', 2)]\<rparr>"
    by (simp add: bindings_ok_def vals)
  have fs: "gp_initializers (mp_graph demo_proto) = []" "gp_inputs (mp_graph demo_proto) = [\<lparr>vi_name = ''x'', vi_spec = demo_spec\<rparr>]"
    "gp_outputs (mp_graph demo_proto) = [\<lparr>vi_name = ''y'', vi_spec = demo_spec\<rparr>]" "mp_opset_version demo_proto = 13"
    "length (gp_nodes (mp_graph demo_proto)) = 2" by (simp_all add: demo_proto_def empty_graph_proto_def)
  have flags: "replicate 2 False = [False, False]" by (simp add: numeral_2_eq_2)
  have st: "im_symbols ?s ''y'' = Some 2" "im_graph ?s = demo_chain 2" "im_model_inputs ?s = [(''x'', 0)]" "im_heap ?s = h" by (simp_all add: demo_import_def demo_symbols)
  have out: "import_output demo_proto (im_symbols ?s) \<lparr>vi_name = ''y'', vi_spec = demo_spec\<rparr> (demo_chain 2, []) = Inr (?g, [(''y'', 2)])"
    using mark by (simp add: import_output_def st(1) graph_value_at_def vals lift_def catch_exception_def)
  show ?thesis
    using m out unfolding import_model_def Let_def fs flags by (simp add: demo_inputs demo_rounds[OF ops] st lift_def catch_exception_def)
qed

text \<open>
  C12: every file is loaded or diagnosed. With the parser of the repository, \<open>load\<close> ends for every file and heap, in one
  of three ways. It returns a model, and then the file parses, the model is well formed, and each of its outputs denotes
  what the message says. Or it throws an import error that carries the path of the file: the error of the parser, or one
  of importing the parsed message, which names the node it is about, if any, by its index, its name and its operator and
  never says that the dependencies contain a cycle, so that the branch of the importer with that message is dead code. Or
  the parser dereferences the empty optional of an attribute without value, which is undefined behaviour.
\<close>

theorem loading_is_sound:
  assumes "mk_operator_registry = Inr ops"
  shows "case importer_load (\<lambda>p. parser_parse p stream) ops path h of
     Inl e \<Rightarrow> e = Std (Undefined_behaviour ''empty optional'') \<or> (\<exists>d. e = Import_error d \<and> dg_model_path d = path \<and>
       (parser_parse path stream h = Inl e \<or> (\<exists>mp h1. parser_parse path stream h = Inr (mp, h1) \<and>
          (\<forall>j. dg_node_index d = Some j \<longrightarrow> j < length (gp_nodes (mp_graph mp)) \<and> dg_node_name d = np_name (gp_nodes (mp_graph mp) ! j) \<and>
             dg_op_type d = np_op_type (gp_nodes (mp_graph mp) ! j) \<and>
             (dg_stage d = Stage_GraphImport \<longrightarrow> dg_message d \<noteq> ''ONNX graph dependencies contain a cycle'')))))
   | Inr (m, h') \<Rightarrow> \<exists>mp h1. parser_parse path stream h = Inr (mp, h1) \<and> model_ok h' m \<and>
       (\<forall>j < length (m_outputs m). \<forall>x. denotes M h' (m_graph m) (snd (m_outputs m ! j)) x \<longleftrightarrow>
          onnx_denotes M ops h1 mp (fst (m_outputs m ! j)) x)"
proof (cases "parser_parse path stream h")
  case (Inl e)
  show ?thesis
  proof (cases "e = Std (Undefined_behaviour ''empty optional'')")
    case True
    then show ?thesis using Inl by (simp add: importer_load_def catch_exception_def)
  next
    case False
    from parser_errors_carry_path[OF Inl this] obtain d where d: "e = Import_error d" "dg_model_path d = path" by blast
    have "d\<lparr>dg_model_path := []\<rparr> = d" if "path = []" using d(2) that by (cases d) simp
    then have "importer_load (\<lambda>p. parser_parse p stream) ops path h = Inl e"
      using Inl d by (cases "path = []") (simp_all add: importer_load_def catch_exception_def)
    then show ?thesis using Inl d by simp
  qed
next
  case (Inr r)
  obtain mp h1 where r: "r = (mp, h1)" by (cases r)
  have t: "\<forall>t \<in> set (source_initializers mp). tensor_ok h1 (in_value t)"
    using parser_parse_ok[of path stream h mp h1] Inr r by (simp add: tensors_ok_def)
  note O = import_model_outcome[OF t default_translators[OF assms], of M]
  show ?thesis
  proof (cases "import_model ops mp h1")
    case (Inl e)
    then obtain d where d: "e = Import_error d" "located mp d" using O by (cases e) auto
    then show ?thesis using Inl \<open>parser_parse path stream h = Inr r\<close> r
      by (auto simp: importer_load_def catch_exception_def located_def)
  next
    case (Inr q)
    then obtain m h' where q: "import_model ops mp h1 = Inr (m, h')" by (cases q) auto
    then have "imports_as M ops h1 mp (m, h')" using O by simp
    then show ?thesis using q \<open>parser_parse path stream h = Inr r\<close> r
      by (auto simp: importer_load_def catch_exception_def imports_as_def Let_def)
  qed
qed

text \<open>
  A limit of the generated names: they avoid the reserved names for the node, but not for its output. A
  graph that has a value with the name of that output takes no node under the generated name.
\<close>

lemma reserved_output_name:
  assumes "''__onnx_node_0:0'' \<in> set (map gv_name (g_values g))"
  shows "imported_node_name 0 [''__onnx_node_0:0''] = ''__onnx_node_0''"
    and "\<not> is_ok (add_node (imported_node_name 0 [''__onnx_node_0:0'']) op ins attrs g)"
proof -
  show n: "imported_node_name 0 [''__onnx_node_0:0''] = ''__onnx_node_0''" by code_simp
  show "\<not> is_ok (add_node (imported_node_name 0 [''__onnx_node_0:0'']) op ins attrs g)"
  proof
    assume "is_ok (add_node (imported_node_name 0 [''__onnx_node_0:0'']) op ins attrs g)"
    then obtain i g' where "add_node ''__onnx_node_0'' op ins attrs g = Inr (i, g')" unfolding n is_ok_iff by auto
    then have "output_name ''__onnx_node_0'' 0 \<notin> set (map gv_name (g_values g) @ map nd_name (g_nodes g))" by (rule add_node_Inr)
    then show False using assms demo_names(3) by simp
  qed
qed

section \<open>Witnesses\<close>

text \<open>The bytes of the demonstration message are a file that loads; a file that cannot be opened is diagnosed.\<close>

lemma demo_file: "parser_parse path (File_contents (put_model demo_proto [])) h = Inr (demo_proto, h)"
proof -
  have len: "length (put_model demo_proto []) < 1000" by code_simp
  have "parse_fields model_field (put_model demo_proto []) ((\<lparr>mp_opset_version = 0, mp_graph = empty_graph_proto\<rparr>, False), h) =
      Inr ((demo_proto, True), h)"
    by (rule model_fields_read) (use len in \<open>simp_all add: demo_proto_def graph_proto_ok_def node_proto_ok_def value_info_ok_def
        int64_range_def relu_node_def demo_spec_def empty_graph_proto_def\<close>)
  then show ?thesis by (simp add: parser_parse_def parse_model_def catch_exception_def) (simp add: demo_proto_def)
qed

theorem loading_is_sound_witness:
  "\<exists>ops m d. mk_operator_registry = Inr ops \<and>
     importer_load (\<lambda>p. parser_parse p (File_contents (put_model demo_proto []))) ops ''m.onnx'' demo_heap = Inr (m, demo_heap) \<and>
     (\<forall>M :: nat meaning. \<forall>x. denotes M demo_heap (m_graph m) 2 x \<longleftrightarrow> onnx_denotes M ops demo_heap demo_proto ''y'' x) \<and>
     importer_load (\<lambda>p. parser_parse p Cannot_open) ops ''m.onnx'' demo_heap = Inl (Import_error d) \<and> dg_model_path d = ''m.onnx''"
proof -
  obtain ops where ops: "mk_operator_registry = Inr ops" using mk_registry_built by blast
  obtain m where m: "import_model ops demo_proto demo_heap = Inr (m, demo_heap)" "m_outputs m = [(''y'', 2)]" using demo_model[OF ops] by blast
  have load: "importer_load (\<lambda>p. parser_parse p (File_contents (put_model demo_proto []))) ops ''m.onnx'' demo_heap = Inr (m, demo_heap)"
    by (simp add: importer_load_def demo_file m(1) catch_exception_def)
  have "denotes M demo_heap (m_graph m) 2 x \<longleftrightarrow> onnx_denotes M ops demo_heap demo_proto ''y'' x" for M :: "nat meaning" and x
    using loading_is_sound[OF ops, where stream = "File_contents (put_model demo_proto [])" and path = "''m.onnx''" and h = demo_heap and M = M]
    unfolding load demo_file by (simp add: m(2))
  moreover have "\<exists>d. importer_load (\<lambda>p. parser_parse p Cannot_open) ops ''m.onnx'' demo_heap = Inl (Import_error d) \<and> dg_model_path d = ''m.onnx''"
    by (simp add: importer_load_def parser_parse_def catch_exception_def)
  ultimately show ?thesis using ops load by blast
qed

theorem imported_model_computes_source_witness:
  "\<exists>ops m. mk_operator_registry = Inr ops \<and> import_model ops demo_proto demo_heap = Inr (m, demo_heap) \<and>
     (\<forall>M :: nat meaning. \<forall>x. denotes M demo_heap (m_graph m) 2 x \<longleftrightarrow> onnx_denotes M ops demo_heap demo_proto ''y'' x)"
proof -
  obtain ops where ops: "mk_operator_registry = Inr ops" using mk_registry_built by blast
  obtain m where m: "import_model ops demo_proto demo_heap = Inr (m, demo_heap)" "m_outputs m = [(''y'', 2)]" using demo_model[OF ops] by blast
  have fs: "gp_initializers (mp_graph demo_proto) = []" "gp_outputs (mp_graph demo_proto) = [\<lparr>vi_name = ''y'', vi_spec = demo_spec\<rparr>]"
    by (simp_all add: demo_proto_def empty_graph_proto_def)
  have "denotes M demo_heap (m_graph m) 2 x \<longleftrightarrow> onnx_denotes M ops demo_heap demo_proto ''y'' x" for M :: "nat meaning" and x
    using imported_model_computes_source[OF ops _ m(1), of M] by (simp add: fs m(2))
  then show ?thesis using ops m(1) by blast
qed

end
