(* ===== verification/Memory_Plan.thy ===== *)
theory Memory_Plan
  imports Graph_Build "HOL-Library.Product_Lexorder"
begin

text \<open>
  The static memory plan of \<^verbatim>\<open>src/runtime/memory_plan.cpp\<close>: lifetimes of the intermediate values along the
  topological order, the greedy assignment of slots and the layout of the slots in one buffer. Values that are alive
  at the same step never share memory.
\<close>

section \<open>The plan\<close>

record value_lifetime =
  vl_value :: nat
  vl_first :: nat
  vl_last :: nat
  vl_size :: nat

record buffer_allocation =
  ba_slot :: nat
  ba_byte_offset :: nat
  ba_size :: nat

record memory_plan =
  mpl_graph :: nat
  mpl_node_count :: nat
  mpl_buffer_size :: nat
  mpl_naive_bytes :: nat
  mpl_lifetimes :: "value_lifetime option list"
  mpl_allocations :: "buffer_allocation option list"
  mpl_slot_capacities :: "nat list"
  mpl_releases :: "nat list list"

definition plan_align_up :: "nat \<Rightarrow> nat \<Rightarrow> nat result" where
  "plan_align_up value alignment =
     (if value > size_max - (alignment - 1) then Inl (Overflow_error ''memory plan size overflow'') else Inr (align_up value alignment))"

definition node_steps :: "nat \<Rightarrow> nat list \<Rightarrow> nat list" where
  "node_steps n order = foldl (\<lambda>steps step. steps[order ! step := step]) (replicate n 0) [0..<length order]"

definition start_lifetime :: "nat list \<Rightarrow> graph_value \<Rightarrow> value_lifetime option list \<times> nat \<Rightarrow> (value_lifetime option list \<times> nat) result" where
  "start_lifetime steps v s =
     (if gv_kind v \<noteq> Kind_intermediate then Inr s
      else case gv_producer v of None \<Rightarrow> Inl (Undefined_behaviour ''empty optional'') | Some p \<Rightarrow>
        if p \<ge> length steps then Inl (Out_of_range ''vector::at'')
        else bindE (mk_layout (spec_shape (gv_spec v))) (\<lambda>l. bindE (size_bytes l (spec_dtype (gv_spec v))) (\<lambda>bytes.
          if bytes > size_max - snd s then Inl (Overflow_error ''intermediate memory size overflow'')
          else Inr ((fst s)[gv_id v := Some \<lparr>vl_value = gv_id v, vl_first = steps ! p, vl_last = steps ! p, vl_size = bytes\<rparr>],
                    snd s + bytes))))"

definition extend_use :: "nat \<Rightarrow> value_lifetime option list \<Rightarrow> nat \<Rightarrow> value_lifetime option list" where
  "extend_use step ls input = (case ls ! input of None \<Rightarrow> ls
     | Some l \<Rightarrow> ls[input := Some (l\<lparr>vl_last := max (vl_last l) step\<rparr>)])"

definition extend_node :: "graph \<Rightarrow> nat list \<Rightarrow> nat \<Rightarrow> value_lifetime option list \<Rightarrow> value_lifetime option list result" where
  "extend_node g order step ls = bindE (graph_node g (order ! step)) (\<lambda>n. Inr (foldl (extend_use step) ls (nd_inputs n)))"

definition extend_output :: "nat \<Rightarrow> value_lifetime option list \<Rightarrow> nat \<Rightarrow> value_lifetime option list" where
  "extend_output n ls out = (case ls ! out of None \<Rightarrow> ls | Some l \<Rightarrow> ls[out := Some (l\<lparr>vl_last := n\<rparr>)])"

definition plan_releases :: "nat \<Rightarrow> nat \<Rightarrow> value_lifetime option list \<Rightarrow> nat list list" where
  "plan_releases n steps ls =
     foldl (\<lambda>rs l. case l of None \<Rightarrow> rs | Some x \<Rightarrow>
        if vl_last x < steps then rs[vl_last x := rs ! vl_last x @ [vl_value x]] else rs) (replicate n []) ls"

definition plan_intervals :: "value_lifetime option list \<Rightarrow> value_lifetime list" where
  "plan_intervals ls = sort_key (\<lambda>l. (vl_first l, vl_value l)) (List.map_filter (\<lambda>l. l) ls)"

text \<open>The slot loop: the free slot that has to grow least; none selected means a new slot.\<close>

definition choose_slot :: "nat list \<Rightarrow> nat list \<Rightarrow> value_lifetime \<Rightarrow> nat" where
  "choose_slot capacities available_after interval =
     fst (foldl (\<lambda>(selected, selected_growth) slot.
       if available_after ! slot \<ge> vl_first interval then (selected, selected_growth)
       else let growth = (if vl_size interval > capacities ! slot then vl_size interval - capacities ! slot else 0) in
         if growth < selected_growth then (slot, growth) else (selected, selected_growth))
       (length capacities, size_max) [0..<length capacities])"

type_synonym slot_state = "nat list \<times> nat list \<times> nat list"

definition assign_slot :: "slot_state \<Rightarrow> value_lifetime \<Rightarrow> slot_state" where
  "assign_slot s interval = (case s of (capacities, available_after, value_slots) \<Rightarrow>
     let selected = choose_slot capacities available_after interval in
     if selected = length capacities
     then (capacities @ [vl_size interval], available_after @ [vl_last interval], value_slots[vl_value interval := selected])
     else (capacities[selected := max (capacities ! selected) (vl_size interval)], available_after[selected := vl_last interval],
           value_slots[vl_value interval := selected]))"

definition place_slot :: "nat \<Rightarrow> nat \<times> nat list \<Rightarrow> (nat \<times> nat list) result" where
  "place_slot capacity s = bindE (plan_align_up (fst s) default_alignment) (\<lambda>start.
     if capacity > size_max - start then Inl (Overflow_error ''memory plan buffer size overflow'')
     else Inr (start + capacity, snd s @ [start]))"

definition mk_memory_plan :: "nat \<Rightarrow> graph \<Rightarrow> memory_plan result" where
  "mk_memory_plan address g =
     bindE (validate_graph g) (\<lambda>_. bindE (topological_order g) (\<lambda>order.
     let n = length (g_nodes g); nv = length (g_values g); steps = node_steps n order in
     bindE (foldE (start_lifetime steps) (g_values g) (replicate nv None, 0)) (\<lambda>(started, naive).
     bindE (foldE (extend_node g order) [0..<length order] started) (\<lambda>used.
     let lifetimes = foldl (extend_output (length order)) used (g_outputs g); intervals = plan_intervals lifetimes;
         (capacities, available_after, value_slots) = foldl assign_slot ([], [], replicate nv 0) intervals in
     bindE (foldE place_slot capacities (0, [])) (\<lambda>(buffer_size, slot_offsets).
     Inr \<lparr>mpl_graph = address, mpl_node_count = n, mpl_buffer_size = buffer_size, mpl_naive_bytes = naive,
       mpl_lifetimes = lifetimes,
       mpl_allocations = foldl (\<lambda>as i. as[vl_value i := Some \<lparr>ba_slot = value_slots ! vl_value i,
           ba_byte_offset = slot_offsets ! (value_slots ! vl_value i), ba_size = vl_size i\<rparr>]) (replicate nv None) intervals,
       mpl_slot_capacities = capacities, mpl_releases = plan_releases n (length order) lifetimes\<rparr>)))))"

definition has_allocation :: "memory_plan \<Rightarrow> nat \<Rightarrow> bool result" where
  "has_allocation p v = (if v \<ge> length (mpl_allocations p) then Inl (Out_of_range ''memory plan ValueId is out of range'')
     else Inr (mpl_allocations p ! v \<noteq> None))"

definition plan_allocation :: "memory_plan \<Rightarrow> nat \<Rightarrow> buffer_allocation result" where
  "plan_allocation p v = bindE (has_allocation p v) (\<lambda>present.
     if \<not> present then Inl (Invalid_argument ''graph value has no planned allocation'') else Inr (the (mpl_allocations p ! v)))"

definition plan_lifetime :: "memory_plan \<Rightarrow> nat \<Rightarrow> value_lifetime result" where
  "plan_lifetime p v = (if v \<ge> length (mpl_lifetimes p) then Inl (Out_of_range ''memory plan ValueId is out of range'')
     else case mpl_lifetimes p ! v of None \<Rightarrow> Inl (Invalid_argument ''graph value has no intermediate lifetime'') | Some l \<Rightarrow> Inr l)"

definition values_released_after_step :: "memory_plan \<Rightarrow> nat \<Rightarrow> nat list result" where
  "values_released_after_step p step = (if step \<ge> length (mpl_releases p) then Inl (Out_of_range ''execution step is out of range'')
     else Inr (mpl_releases p ! step))"

definition plan_matches :: "memory_plan \<Rightarrow> nat \<Rightarrow> graph \<Rightarrow> bool" where
  "plan_matches p address g \<longleftrightarrow> mpl_graph p = address \<and> length (mpl_allocations p) = length (g_values g) \<and>
     mpl_node_count p = length (g_nodes g)"

text \<open>
  The check does not look at the outputs: a plan made before a value was marked as an output is still accepted, although
  it may give the memory of that value away after its last use.
\<close>

lemma plan_ignores_outputs: "plan_matches p address (g\<lparr>g_outputs := outs\<rparr>) = plan_matches p address g"
  by (simp add: plan_matches_def)

section \<open>Slots\<close>

lemma choose_slot_free:
  "choose_slot caps avail x = length caps \<or> (choose_slot caps avail x < length caps \<and> avail ! choose_slot caps avail x < vl_first x)"
proof -
  let ?f = "\<lambda>(selected, selected_growth) slot. if avail ! slot \<ge> vl_first x then (selected, selected_growth)
       else let growth = (if vl_size x > caps ! slot then vl_size x - caps ! slot else 0) in
         if growth < selected_growth then (slot, growth) else (selected, selected_growth)"
  have "\<forall>slot \<in> set xs. slot < length caps \<Longrightarrow> fst s = length caps \<or> (fst s < length caps \<and> avail ! fst s < vl_first x) \<Longrightarrow>
      fst (foldl ?f s xs) = length caps \<or> (fst (foldl ?f s xs) < length caps \<and> avail ! fst (foldl ?f s xs) < vl_first x)" for xs s
    by (induction xs arbitrary: s) (auto simp: Let_def split: prod.splits)
  from this[of "[0..<length caps]" "(length caps, size_max)"] show ?thesis by (simp add: choose_slot_def)
qed

text \<open>The slots after the intervals \<open>done\<close>: room for each, and no two that overlap in time share one.\<close>

definition slots_ok :: "value_lifetime list \<Rightarrow> slot_state \<Rightarrow> bool" where
  "slots_ok processed s \<longleftrightarrow> (case s of (caps, avail, slots) \<Rightarrow>
     length avail = length caps \<and>
     (\<forall>d \<in> set processed. vl_value d < length slots \<and> slots ! vl_value d < length caps \<and>
        vl_size d \<le> caps ! (slots ! vl_value d) \<and> vl_last d \<le> avail ! (slots ! vl_value d)) \<and>
     (\<forall>d \<in> set processed. \<forall>e \<in> set processed. d \<noteq> e \<longrightarrow> slots ! vl_value d = slots ! vl_value e \<longrightarrow>
        vl_last d < vl_first e \<or> vl_last e < vl_first d))"

lemma assign_slot_ok:
  assumes ok: "slots_ok processed s" and fresh: "\<forall>d \<in> set processed. vl_value d \<noteq> vl_value x \<and> vl_first d \<le> vl_first x"
    and x: "vl_first x \<le> vl_last x" "vl_value x < length (snd (snd s))"
  shows "slots_ok (processed @ [x]) (assign_slot s x) \<and> length (snd (snd (assign_slot s x))) = length (snd (snd s))"
proof -
  obtain caps avail slots where s: "s = (caps, avail, slots)" by (cases s)
  define k where "k = choose_slot caps avail x"
  have I: "length avail = length caps" "\<And>d. d \<in> set processed \<Longrightarrow> vl_value d < length slots \<and> slots ! vl_value d < length caps \<and>
      vl_size d \<le> caps ! (slots ! vl_value d) \<and> vl_last d \<le> avail ! (slots ! vl_value d)"
    "\<And>d e. d \<in> set processed \<Longrightarrow> e \<in> set processed \<Longrightarrow> d \<noteq> e \<Longrightarrow> slots ! vl_value d = slots ! vl_value e \<Longrightarrow>
      vl_last d < vl_first e \<or> vl_last e < vl_first d" using ok by (auto simp: slots_ok_def s)
  have same: "slots[vl_value x := k] ! vl_value d = slots ! vl_value d" if "d \<in> set processed" for d using fresh that by (metis nth_list_update_neq)
  have new: "slots[vl_value x := k] ! vl_value x = k" using x(2) s by simp
  consider (grow) "k = length caps" | (reuse) "k < length caps" "avail ! k < vl_first x" using choose_slot_free[of caps avail x] k_def by blast
  then show ?thesis
  proof cases
    case grow
    then have a: "assign_slot s x = (caps @ [vl_size x], avail @ [vl_last x], slots[vl_value x := k])"
      by (simp add: assign_slot_def s k_def Let_def)
    have apart: "\<forall>d \<in> set (processed @ [x]). \<forall>e \<in> set (processed @ [x]). d \<noteq> e \<longrightarrow>
        slots[vl_value x := k] ! vl_value d = slots[vl_value x := k] ! vl_value e \<longrightarrow> vl_last d < vl_first e \<or> vl_last e < vl_first d"
      using I(2,3) same new grow by fastforce
    have room: "vl_value d < length slots \<and> slots ! vl_value d < Suc (length caps) \<and>
        vl_size d \<le> (caps @ [vl_size x]) ! (slots ! vl_value d) \<and> vl_last d \<le> (avail @ [vl_last x]) ! (slots ! vl_value d)"
      if "d \<in> set processed" for d using I(1) I(2)[OF that] by (simp add: nth_append)
    have "\<forall>d \<in> set (processed @ [x]). vl_value d < length (slots[vl_value x := k]) \<and>
        slots[vl_value x := k] ! vl_value d < length (caps @ [vl_size x]) \<and>
        vl_size d \<le> (caps @ [vl_size x]) ! (slots[vl_value x := k] ! vl_value d) \<and>
        vl_last d \<le> (avail @ [vl_last x]) ! (slots[vl_value x := k] ! vl_value d)"
    proof
      fix d assume "d \<in> set (processed @ [x])"
      then consider "d = x" | "d \<in> set processed" by auto
      then show "vl_value d < length (slots[vl_value x := k]) \<and> slots[vl_value x := k] ! vl_value d < length (caps @ [vl_size x]) \<and>
          vl_size d \<le> (caps @ [vl_size x]) ! (slots[vl_value x := k] ! vl_value d) \<and>
          vl_last d \<le> (avail @ [vl_last x]) ! (slots[vl_value x := k] ! vl_value d)"
      proof cases
        case 1
        then show ?thesis using new grow I(1) s x(2) by (simp add: nth_append)
      next
        case 2
        then show ?thesis using room[OF 2] same[OF 2] by simp
      qed
    qed
    then show ?thesis unfolding slots_ok_def a prod.case using apart
      by (intro conjI) (assumption | simp add: I(1) s)+
  next
    case reuse
    then have a: "assign_slot s x = (caps[k := max (caps ! k) (vl_size x)], avail[k := vl_last x], slots[vl_value x := k])"
      by (simp add: assign_slot_def s k_def[symmetric] Let_def)
    have before: "vl_last d < vl_first x" if "d \<in> set processed" "slots ! vl_value d = k" for d
      using I(2)[OF that(1)] that(2) reuse(2) by simp
    have apart: "\<forall>d \<in> set (processed @ [x]). \<forall>e \<in> set (processed @ [x]). d \<noteq> e \<longrightarrow>
        slots[vl_value x := k] ! vl_value d = slots[vl_value x := k] ! vl_value e \<longrightarrow> vl_last d < vl_first e \<or> vl_last e < vl_first d"
    proof (intro ballI impI)
      fix d e assume d: "d \<in> set (processed @ [x])" "e \<in> set (processed @ [x])" "d \<noteq> e"
        "slots[vl_value x := k] ! vl_value d = slots[vl_value x := k] ! vl_value e"
      then consider "d = x" "e \<in> set processed" | "e = x" "d \<in> set processed" | "d \<in> set processed" "e \<in> set processed" by auto
      then show "vl_last d < vl_first e \<or> vl_last e < vl_first d"
      proof cases
        case 1
        then show ?thesis using d(4) new same[OF 1(2)] before[OF 1(2)] by simp
      next
        case 2
        then show ?thesis using d(4) new same[OF 2(2)] before[OF 2(2)] by simp
      next
        case 3
        have "slots ! vl_value d = slots ! vl_value e" using d(4) unfolding same[OF 3(1)] same[OF 3(2)] .
        then show ?thesis by (rule I(3)[OF 3 d(3)])
      qed
    qed
    have room: "vl_last d \<le> avail[k := vl_last x] ! (slots ! vl_value d)" "vl_size d \<le> caps[k := max (caps ! k) (vl_size x)] ! (slots ! vl_value d)"
      if "d \<in> set processed" for d
    proof -
      have l: "vl_last d \<le> avail ! (slots ! vl_value d)" "vl_size d \<le> caps ! (slots ! vl_value d)" using I(2)[OF that] by blast+
      have "slots ! vl_value d = k \<Longrightarrow> vl_last d \<le> vl_last x" using before[OF that] x(1) by linarith
      then show "vl_last d \<le> avail[k := vl_last x] ! (slots ! vl_value d)"
        using l(1) reuse(1) I(1)
        by (cases "k = slots ! vl_value d") (simp, metis nth_list_update_neq)
      show "vl_size d \<le> caps[k := max (caps ! k) (vl_size x)] ! (slots ! vl_value d)"
        using l(2) reuse(1) by (cases "k = slots ! vl_value d") (simp add: le_max_iff_disj, metis nth_list_update_neq)
    qed
    have "\<forall>d \<in> set (processed @ [x]). vl_value d < length (slots[vl_value x := k]) \<and>
        slots[vl_value x := k] ! vl_value d < length (caps[k := max (caps ! k) (vl_size x)]) \<and>
        vl_size d \<le> caps[k := max (caps ! k) (vl_size x)] ! (slots[vl_value x := k] ! vl_value d) \<and>
        vl_last d \<le> avail[k := vl_last x] ! (slots[vl_value x := k] ! vl_value d)"
    proof
      fix d assume "d \<in> set (processed @ [x])"
      then consider "d = x" | "d \<in> set processed" by auto
      then show "vl_value d < length (slots[vl_value x := k]) \<and>
        slots[vl_value x := k] ! vl_value d < length (caps[k := max (caps ! k) (vl_size x)]) \<and>
        vl_size d \<le> caps[k := max (caps ! k) (vl_size x)] ! (slots[vl_value x := k] ! vl_value d) \<and>
        vl_last d \<le> avail[k := vl_last x] ! (slots[vl_value x := k] ! vl_value d)"
      proof cases
        case 1
        then show ?thesis using new reuse(1) I(1) s x(2) by simp
      next
        case 2
        then show ?thesis using room[OF 2] I(2)[OF 2] same[OF 2] by simp
      qed
    qed
    then show ?thesis unfolding slots_ok_def a prod.case using apart
      by (intro conjI) (assumption | simp add: I(1) s)+
  qed
qed

lemma assign_slots_ok:
  assumes "sorted_wrt (\<lambda>d e. vl_value d \<noteq> vl_value e \<and> vl_first d \<le> vl_first e) (processed @ xs)" and "slots_ok processed s"
    and "\<forall>x \<in> set xs. vl_first x \<le> vl_last x \<and> vl_value x < length (snd (snd s))"
  shows "slots_ok (processed @ xs) (foldl assign_slot s xs)"
  using assms
proof (induction xs arbitrary: processed s)
  case (Cons x xs)
  have "slots_ok (processed @ [x]) (assign_slot s x) \<and> length (snd (snd (assign_slot s x))) = length (snd (snd s))"
    by (rule assign_slot_ok) (use Cons.prems in \<open>auto simp: sorted_wrt_append\<close>)
  then show ?case using Cons.IH[of "processed @ [x]" "assign_slot s x"] Cons.prems by simp
qed simp

section \<open>Offsets\<close>

lemma plan_align_up_Inr:
  assumes "plan_align_up v default_alignment = Inr s"
  shows "default_alignment dvd s" "v \<le> s"
proof -
  have p: "is_power_of_two default_alignment" unfolding is_power_of_two_iff default_alignment_def by (rule exI[of _ 4]) simp
  have v: "v \<le> size_max - (default_alignment - 1)" "s = align_up v default_alignment"
    using assms by (auto simp: plan_align_up_def split: if_splits)
  have "default_alignment \<le> size_max" by (simp add: default_alignment_def size_max_def)
  from align_up[OF p v(1) this] show "default_alignment dvd s" "v \<le> s" using v(2) by simp_all
qed

lemma place_slots:
  assumes "foldE place_slot caps (start, offs) = Inr (used, offs')"
  shows "\<exists>os. offs' = offs @ os \<and> length os = length caps \<and> start \<le> used \<and>
    (\<forall>i < length caps. default_alignment dvd os ! i \<and> start \<le> os ! i \<and> os ! i + caps ! i \<le> used \<and>
       (\<forall>j < length caps. i < j \<longrightarrow> os ! i + caps ! i \<le> os ! j))"
  using assms
proof (induction caps arbitrary: start offs)
  case (Cons c caps)
  obtain s where s: "plan_align_up start default_alignment = Inr s" "foldE place_slot caps (s + c, offs @ [s]) = Inr (used, offs')"
    using Cons.prems by (auto simp: place_slot_def[of c] split: if_splits)
  note a = plan_align_up_Inr[OF s(1)]
  from Cons.IH[OF s(2)] obtain os where os: "offs' = (offs @ [s]) @ os" "length os = length caps" "s + c \<le> used"
    "\<forall>i < length caps. default_alignment dvd os ! i \<and> s + c \<le> os ! i \<and> os ! i + caps ! i \<le> used \<and>
       (\<forall>j < length caps. i < j \<longrightarrow> os ! i + caps ! i \<le> os ! j)" by blast
  have "default_alignment dvd (s # os) ! i \<and> start \<le> (s # os) ! i \<and> (s # os) ! i + (c # caps) ! i \<le> used \<and>
      (\<forall>j < length (c # caps). i < j \<longrightarrow> (s # os) ! i + (c # caps) ! i \<le> (s # os) ! j)" if "i < length (c # caps)" for i
  proof (cases i)
    case 0
    have "s + c \<le> (s # os) ! j" if "j < length (c # caps)" "0 < j" for j using that os(4) by (cases j) auto
    then show ?thesis using 0 a os(3) by auto
  next
    case (Suc k)
    then have k: "k < length caps" using that by simp
    have "(s # os) ! i + (c # caps) ! i \<le> (s # os) ! j" if "j < length (c # caps)" "i < j" for j
      using that os(4) k Suc by (cases j) auto
    then show ?thesis using Suc os(4) k a(2) by fastforce
  qed
  then show ?case using os(1,2,3) a(2) by (intro exI[of _ "s # os"]) auto
qed simp

section \<open>Lifetimes\<close>

text \<open>In a built graph the steps are the node numbers.\<close>

lemma node_steps_id: "node_steps n [0..<n] = [0..<n]"
proof -
  have "k \<le> n \<Longrightarrow> foldl (\<lambda>steps step. steps[[0..<n] ! step := step]) (replicate n 0) [0..<k] = [0..<k] @ replicate (n - k) 0" for k
    by (induction k) (auto simp: nth_append list_update_append list_update_same_conv Suc_diff_Suc intro!: nth_equalityI
        simp: nth_list_update)
  from this[of n] show ?thesis by (simp add: node_steps_def)
qed

text \<open>What the lifetimes say during the construction: \<open>last_of i\<close> is the last step seen so far.\<close>

abbreviation intermediate :: "graph \<Rightarrow> nat \<Rightarrow> bool" where
  "intermediate g i \<equiv> gv_kind (g_values g ! i) = Kind_intermediate"

definition producer_step :: "graph \<Rightarrow> nat \<Rightarrow> nat" where
  "producer_step g i = the (gv_producer (g_values g ! i))"

definition value_bytes :: "graph \<Rightarrow> nat \<Rightarrow> nat" where
  "value_bytes g i = projr (bindE (mk_layout (spec_shape (gv_spec (g_values g ! i)))) (\<lambda>l. size_bytes l (spec_dtype (gv_spec (g_values g ! i)))))"

definition lifetime_of :: "graph \<Rightarrow> (nat \<Rightarrow> nat) \<Rightarrow> nat \<Rightarrow> value_lifetime" where
  "lifetime_of g last_of i = \<lparr>vl_value = i, vl_first = producer_step g i, vl_last = last_of i, vl_size = value_bytes g i\<rparr>"

definition lifetime_table :: "graph \<Rightarrow> nat \<Rightarrow> (nat \<Rightarrow> nat) \<Rightarrow> value_lifetime option list" where
  "lifetime_table g k last_of = map (\<lambda>i. if i < k \<and> intermediate g i then Some (lifetime_of g last_of i) else None) [0..<length (g_values g)]"

lemma table_facts [simp]: "length (lifetime_table g k f) = length (g_values g)"
  "i < length (g_values g) \<Longrightarrow> lifetime_table g k f ! i = (if i < k \<and> intermediate g i then Some (lifetime_of g f i) else None)"
  by (simp_all add: lifetime_table_def)

lemma started_table:
  assumes ok: "graph_ok g" and k: "k \<le> length (g_values g)"
    and run: "foldE (start_lifetime [0..<length (g_nodes g)]) (take k (g_values g)) (replicate (length (g_values g)) None, 0) = Inr s"
  shows "fst s = lifetime_table g k (producer_step g)"
  using k run
proof (induction k arbitrary: s)
  case 0
  then show ?case by (auto intro!: nth_equalityI)
next
  case (Suc k)
  let ?v = "g_values g ! k"
  have k: "k < length (g_values g)" using Suc.prems(1) by simp
  from Suc.prems(2) obtain s1 where s1: "foldE (start_lifetime [0..<length (g_nodes g)]) (take k (g_values g)) (replicate (length (g_values g)) None, 0) = Inr s1"
    and s: "start_lifetime [0..<length (g_nodes g)] ?v s1 = Inr s"
    unfolding take_Suc_conv_app_nth[OF k] foldE_append by auto
  have f1: "fst s1 = lifetime_table g k (producer_step g)" using Suc.IH[OF _ s1] k by simp
  have vo: "value_ok g k" using ok k by (simp add: graph_ok_def)
  show ?case
  proof (cases "intermediate g k")
    case True
    then obtain p where p: "gv_producer ?v = Some p" "p < length (g_nodes g)" "gv_id ?v = k" using vo by (auto simp: value_ok_def Let_def)
    then obtain l bytes where l: "mk_layout (spec_shape (gv_spec ?v)) = Inr l" "size_bytes l (spec_dtype (gv_spec ?v)) = Inr bytes"
      and fs: "fst s = (fst s1)[k := Some \<lparr>vl_value = k, vl_first = p, vl_last = p, vl_size = bytes\<rparr>]"
      using s True by (auto simp: start_lifetime_def split: if_splits)
    have "Some \<lparr>vl_value = k, vl_first = p, vl_last = p, vl_size = bytes\<rparr> = Some (lifetime_of g (producer_step g) k)"
      using p(1) l by (simp add: lifetime_of_def producer_step_def value_bytes_def)
    then show ?thesis using fs f1 True k by (auto intro!: nth_equalityI simp: nth_list_update less_Suc_eq)
  next
    case False
    then have "s = s1" using s by (simp add: start_lifetime_def)
    then show ?thesis using f1 False k by (auto intro!: nth_equalityI simp: less_Suc_eq)
  qed
qed

lemma extend_use_table:
  assumes "i < length (g_values g)"
  shows "extend_use step (lifetime_table g (length (g_values g)) f) i = lifetime_table g (length (g_values g)) (f(i := max (f i) step))"
  using assms by (auto intro!: nth_equalityI simp: extend_use_def nth_list_update lifetime_of_def)

lemma extend_inputs_table:
  assumes "\<forall>i \<in> set xs. i < length (g_values g)"
  shows "foldl (extend_use step) (lifetime_table g (length (g_values g)) f) xs =
    lifetime_table g (length (g_values g)) (\<lambda>i. if i \<in> set xs then max (f i) step else f i)"
  using assms
proof (induction xs arbitrary: f)
  case (Cons x xs)
  then have "foldl (extend_use step) (lifetime_table g (length (g_values g)) f) (x # xs) =
      lifetime_table g (length (g_values g)) (\<lambda>i. if i \<in> set xs then max ((f(x := max (f x) step)) i) step else (f(x := max (f x) step)) i)"
    by (simp add: extend_use_table)
  also have "(\<lambda>i. if i \<in> set xs then max ((f(x := max (f x) step)) i) step else (f(x := max (f x) step)) i) =
      (\<lambda>i. if i \<in> set (x # xs) then max (f i) step else f i)" by auto
  finally show ?case .
qed simp

text \<open>The last step that uses a value, and the last step at which it must be kept.\<close>

definition last_use :: "graph \<Rightarrow> nat \<Rightarrow> nat \<Rightarrow> nat" where
  "last_use g k i = Max (insert (producer_step g i) {j. j < k \<and> i \<in> set (nd_inputs (g_nodes g ! j))})"

definition last_step_of :: "graph \<Rightarrow> nat \<Rightarrow> nat" where
  "last_step_of g i = (if i \<in> set (g_outputs g) then length (g_nodes g) else last_use g (length (g_nodes g)) i)"

lemma last_use_Suc: "last_use g (Suc k) i = (if i \<in> set (nd_inputs (g_nodes g ! k)) then max (last_use g k i) k else last_use g k i)"
proof (cases "i \<in> set (nd_inputs (g_nodes g ! k))")
  case True
  then have "insert (producer_step g i) {j. j < Suc k \<and> i \<in> set (nd_inputs (g_nodes g ! j))} =
      insert k (insert (producer_step g i) {j. j < k \<and> i \<in> set (nd_inputs (g_nodes g ! j))})" by (auto simp: less_Suc_eq)
  then show ?thesis using True by (simp add: last_use_def max.commute)
next
  case False
  then have "{j. j < Suc k \<and> i \<in> set (nd_inputs (g_nodes g ! j))} = {j. j < k \<and> i \<in> set (nd_inputs (g_nodes g ! j))}"
    by (auto simp: less_Suc_eq)
  then show ?thesis using False by (simp add: last_use_def)
qed

lemma node_inputs:
  assumes "graph_ok g" and "k < length (g_nodes g)" and "i \<in> set (nd_inputs (g_nodes g ! k))"
  shows "i < length (g_values g)" "gv_producer (g_values g ! i) = Some p \<Longrightarrow> p < k"
proof -
  have "node_ok g k" using assms(1,2) by (simp add: graph_ok_def)
  then show "i < length (g_values g)" "gv_producer (g_values g ! i) = Some p \<Longrightarrow> p < k"
    using assms(3) unfolding node_ok_def Let_def by blast+
qed

lemma used_table:
  assumes ok: "graph_ok g" and "k \<le> length (g_nodes g)"
  shows "foldE (extend_node g [0..<length (g_nodes g)]) [0..<k] (lifetime_table g (length (g_values g)) (producer_step g)) =
    Inr (lifetime_table g (length (g_values g)) (last_use g k))"
  using assms(2)
proof (induction k)
  case 0
  then show ?case by (simp add: last_use_def lifetime_table_def lifetime_of_def)
next
  case (Suc k)
  have ins: "\<forall>i \<in> set (nd_inputs (g_nodes g ! k)). i < length (g_values g)" using node_inputs(1)[OF ok, of k] Suc.prems by simp
  have "extend_node g [0..<length (g_nodes g)] k (lifetime_table g (length (g_values g)) (last_use g k)) =
      Inr (lifetime_table g (length (g_values g)) (last_use g (Suc k)))"
    using Suc.prems by (simp add: extend_node_def graph_node_def extend_inputs_table[OF ins] last_use_Suc[abs_def])
  then show ?case using Suc by (simp add: foldE_append)
qed

lemma output_table:
  assumes "\<forall>i \<in> set xs. i < length (g_values g)"
  shows "foldl (extend_output n) (lifetime_table g (length (g_values g)) f) xs =
    lifetime_table g (length (g_values g)) (\<lambda>i. if i \<in> set xs then n else f i)"
  using assms
proof (induction xs arbitrary: f)
  case (Cons x xs)
  have "extend_output n (lifetime_table g (length (g_values g)) f) x = lifetime_table g (length (g_values g)) (f(x := n))"
    using Cons.prems by (auto intro!: nth_equalityI simp: extend_output_def nth_list_update lifetime_of_def)
  moreover have "(\<lambda>i. if i \<in> set xs then n else (f(x := n)) i) = (\<lambda>i. if i \<in> set (x # xs) then n else f i)" by auto
  ultimately show ?case using Cons.IH[of "f(x := n)"] Cons.prems by (simp del: fun_upd_apply)
qed simp

section \<open>Correctness of the plan\<close>

definition final_lifetimes :: "graph \<Rightarrow> value_lifetime option list" where
  "final_lifetimes g = lifetime_table g (length (g_values g)) (last_step_of g)"

lemma last_step_bounds:
  assumes "graph_ok g" and "i < length (g_values g)" and "intermediate g i"
  shows "producer_step g i \<le> last_step_of g i" "producer_step g i < length (g_nodes g)" "last_step_of g i \<le> length (g_nodes g)"
proof -
  have "value_ok g i" using assms(1,2) by (simp add: graph_ok_def)
  then show p: "producer_step g i < length (g_nodes g)" using assms(3) by (auto simp: value_ok_def Let_def producer_step_def)
  then show "producer_step g i \<le> last_step_of g i" "last_step_of g i \<le> length (g_nodes g)"
    by (auto simp: last_step_of_def last_use_def)
qed

lemma mk_memory_plan_Inr:
  assumes ok: "graph_ok g" and plan: "mk_memory_plan a g = Inr p"
  obtains caps avail slots offs where
    "foldl assign_slot ([], [], replicate (length (g_values g)) 0) (plan_intervals (final_lifetimes g)) = (caps, avail, slots)"
    "foldE place_slot caps (0, []) = Inr (mpl_buffer_size p, offs)"
    "mpl_allocations p = foldl (\<lambda>as i. as[vl_value i := Some \<lparr>ba_slot = slots ! vl_value i, ba_byte_offset = offs ! (slots ! vl_value i),
       ba_size = vl_size i\<rparr>]) (replicate (length (g_values g)) None) (plan_intervals (final_lifetimes g))"
    "mpl_lifetimes p = final_lifetimes g" "mpl_slot_capacities p = caps"
    "mpl_releases p = plan_releases (length (g_nodes g)) (length (g_nodes g)) (final_lifetimes g)"
proof -
  let ?nv = "length (g_values g)" and ?n = "length (g_nodes g)"
  obtain order where "topological_order g = Inr order" using plan by (auto simp: mk_memory_plan_def)
  then obtain t where "check_tables g = Inr t" by (auto simp: topological_order_def)
  then have "g_outputs g \<noteq> []" by (rule check_tables_Inr(2))
  then have order: "topological_order g = Inr [0..<?n]" using built_order[OF ok] by simp
  have outs: "\<forall>i \<in> set (g_outputs g). i < ?nv" using ok by (simp add: graph_ok_def)
  obtain s where s: "foldE (start_lifetime [0..<?n]) (g_values g) (replicate ?nv None, 0) = Inr s"
    using plan order by (auto simp: mk_memory_plan_def node_steps_id Let_def)
  then have start: "fst s = lifetime_table g ?nv (producer_step g)" using started_table[OF ok le_refl] by simp
  have used: "foldE (extend_node g [0..<?n]) [0..<?n] (fst s) = Inr (lifetime_table g ?nv (last_use g ?n))"
    unfolding start by (rule used_table[OF ok le_refl])
  have final: "foldl (extend_output ?n) (lifetime_table g ?nv (last_use g ?n)) (g_outputs g) = final_lifetimes g"
    unfolding output_table[OF outs] final_lifetimes_def by (simp add: last_step_of_def[abs_def])
  obtain caps avail slots where a: "foldl assign_slot ([], [], replicate ?nv 0) (plan_intervals (final_lifetimes g)) = (caps, avail, slots)"
    using prod_cases3 by blast
  obtain bs offs where b: "foldE place_slot caps (0, []) = Inr (bs, offs)"
    using plan order s used final a by (cases s) (auto simp: mk_memory_plan_def node_steps_id Let_def)
  show ?thesis
    by (rule that[OF a]) (use plan order s used final a b in \<open>cases s, auto simp: mk_memory_plan_def node_steps_id Let_def\<close>)+
qed

lemma map_filter_table:
  "List.map_filter (\<lambda>l. l) (final_lifetimes g) = map (lifetime_of g (last_step_of g)) (filter (intermediate g) [0..<length (g_values g)])"
proof -
  have "List.map_filter (\<lambda>l. l) (map (\<lambda>i. if i < n \<and> P i then Some (h i) else None) xs) = map h (filter P xs)"
    if "\<forall>i \<in> set xs. i < n" for n P h and xs :: "nat list"
    using that by (induction xs) (auto simp: List.map_filter_def)
  from this[of "[0..<length (g_values g)]" "length (g_values g)" "intermediate g"] show ?thesis
    by (simp add: final_lifetimes_def lifetime_table_def)
qed

lemma intervals_facts:
  shows "set (plan_intervals (final_lifetimes g)) = lifetime_of g (last_step_of g) ` {i. i < length (g_values g) \<and> intermediate g i}"
    and "sorted_wrt (\<lambda>d e. vl_value d \<noteq> vl_value e \<and> vl_first d \<le> vl_first e) (plan_intervals (final_lifetimes g))"
    and "distinct (map vl_value (plan_intervals (final_lifetimes g)))"
proof -
  let ?is = "plan_intervals (final_lifetimes g)"
  show "set ?is = lifetime_of g (last_step_of g) ` {i. i < length (g_values g) \<and> intermediate g i}"
    by (auto simp: plan_intervals_def map_filter_table)
  have "mset (map vl_value ?is) = mset (map vl_value (map (lifetime_of g (last_step_of g)) (filter (intermediate g) [0..<length (g_values g)])))"
    unfolding plan_intervals_def map_filter_table mset_map mset_sort ..
  also have "map vl_value (map (lifetime_of g (last_step_of g)) (filter (intermediate g) [0..<length (g_values g)])) =
      filter (intermediate g) [0..<length (g_values g)]" by (simp add: comp_def lifetime_of_def)
  finally show d: "distinct (map vl_value ?is)" by (metis distinct_filter distinct_upt mset_eq_imp_distinct_iff)
  have "sorted (map (\<lambda>l. (vl_first l, vl_value l)) ?is)" by (simp add: plan_intervals_def)
  then have "sorted_wrt (\<lambda>d e. vl_first d \<le> vl_first e) ?is"
    unfolding sorted_map by (rule sorted_wrt_mono_rel[rotated]) auto
  then show "sorted_wrt (\<lambda>d e. vl_value d \<noteq> vl_value e \<and> vl_first d \<le> vl_first e) ?is"
    using d by (simp add: sorted_wrt_iff_nth_less distinct_conv_nth)
qed

lemma allocations_facts:
  assumes "distinct (map vl_value xs)" and "\<forall>x \<in> set xs. vl_value x < length as"
  shows "x \<in> set xs \<Longrightarrow> foldl (\<lambda>as i. as[vl_value i := Some (h i)]) as xs ! vl_value x = Some (h x)"
    and "i \<notin> vl_value ` set xs \<Longrightarrow> foldl (\<lambda>as i. as[vl_value i := Some (h i)]) as xs ! i = as ! i"
    and "length (foldl (\<lambda>as i. as[vl_value i := Some (h i)]) as xs) = length as"
  using assms
proof (induction xs arbitrary: as x i)
  case (Cons y xs)
  { case 1
    then show ?case using Cons.IH(1)[where as = "as[vl_value y := Some (h y)]" and x = x] Cons.IH(2)[where as = "as[vl_value y := Some (h y)]" and i = "vl_value x"]
      by (cases "x = y") auto
  next
    case 2
    then show ?case using Cons.IH(2)[where as = "as[vl_value y := Some (h y)]" and i = i] by auto
  next
    case 3
    then show ?case using Cons.IH(3)[where as = "as[vl_value y := Some (h y)]"] by auto
  }
qed simp_all

lemma releases_facts:
  assumes "k < n"
  shows "plan_releases n n ls ! k = map vl_value (filter (\<lambda>x. vl_last x = k) (List.map_filter (\<lambda>l. l) ls))"
proof -
  have "k < length rs \<Longrightarrow> foldl (\<lambda>rs l. case l of None \<Rightarrow> rs | Some x \<Rightarrow>
        if vl_last x < n then rs[vl_last x := rs ! vl_last x @ [vl_value x]] else rs) rs ls ! k =
      rs ! k @ map vl_value (filter (\<lambda>x. vl_last x = k) (List.map_filter (\<lambda>l. l) ls))" for rs
    using assms by (induction ls arbitrary: rs) (auto simp: List.map_filter_def nth_list_update split: option.splits)
  from this[of "replicate n []"] show ?thesis using assms by (simp add: plan_releases_def)
qed

text \<open>A value is alive at a step from its production to the last step that still needs it.\<close>

definition alive :: "graph \<Rightarrow> nat \<Rightarrow> nat \<Rightarrow> bool" where
  "alive g step i \<longleftrightarrow> i < length (g_values g) \<and> intermediate g i \<and> producer_step g i \<le> step \<and> step \<le> last_step_of g i"

definition disjoint_ranges :: "buffer_allocation \<Rightarrow> buffer_allocation \<Rightarrow> bool" where
  "disjoint_ranges a b \<longleftrightarrow> ba_byte_offset a + ba_size a \<le> ba_byte_offset b \<or> ba_byte_offset b + ba_size b \<le> ba_byte_offset a"

lemma plan_allocations:
  assumes ok: "graph_ok g" and plan: "mk_memory_plan a g = Inr p"
  shows "\<exists>alloc. (\<forall>i < length (g_values g). intermediate g i \<longrightarrow> plan_allocation p i = Inr (alloc i) \<and>
      ba_size (alloc i) = value_bytes g i \<and> default_alignment dvd ba_byte_offset (alloc i) \<and>
      ba_byte_offset (alloc i) + ba_size (alloc i) \<le> mpl_buffer_size p) \<and>
    (\<forall>step i j. alive g step i \<longrightarrow> alive g step j \<longrightarrow> i \<noteq> j \<longrightarrow> disjoint_ranges (alloc i) (alloc j))"
proof -
  obtain caps avail slots offs where S: "foldl assign_slot ([], [], replicate (length (g_values g)) 0) (plan_intervals (final_lifetimes g)) = (caps, avail, slots)"
    and O: "foldE place_slot caps (0, []) = Inr (mpl_buffer_size p, offs)"
    and A: "mpl_allocations p = foldl (\<lambda>as i. as[vl_value i := Some \<lparr>ba_slot = slots ! vl_value i, ba_byte_offset = offs ! (slots ! vl_value i),
       ba_size = vl_size i\<rparr>]) (replicate (length (g_values g)) None) (plan_intervals (final_lifetimes g))"
    and "mpl_lifetimes p = final_lifetimes g" "mpl_slot_capacities p = caps"
    and "mpl_releases p = plan_releases (length (g_nodes g)) (length (g_nodes g)) (final_lifetimes g)"
    using mk_memory_plan_Inr[OF ok plan] .
  let ?is = "plan_intervals (final_lifetimes g)" and ?l = "lifetime_of g (last_step_of g)"
  note F = intervals_facts[of g]
  have mem: "?l i \<in> set ?is" if "i < length (g_values g)" "intermediate g i" for i using that F(1) by blast
  have vals: "\<forall>x \<in> set ?is. vl_first x \<le> vl_last x \<and> vl_value x < length (g_values g)"
    using F(1) last_step_bounds(1)[OF ok] by (auto simp: lifetime_of_def)
  have slots: "slots_ok ?is (caps, avail, slots)"
    using assign_slots_ok[of "[]" ?is "([], [], replicate (length (g_values g)) 0)"] F(2) vals by (simp add: S) (simp add: slots_ok_def)
  obtain offs' where offs: "offs = offs'" "length offs' = length caps" "\<forall>i < length caps. default_alignment dvd offs' ! i \<and>
      offs' ! i + caps ! i \<le> mpl_buffer_size p \<and> (\<forall>j < length caps. i < j \<longrightarrow> offs' ! i + caps ! i \<le> offs' ! j)"
    using place_slots[OF O] by auto
  define alloc where "alloc i = \<lparr>ba_slot = slots ! i, ba_byte_offset = offs ! (slots ! i), ba_size = value_bytes g i\<rparr>" for i
  have slot: "slots ! i < length caps \<and> value_bytes g i \<le> caps ! (slots ! i)" if "i < length (g_values g)" "intermediate g i" for i
    using slots mem[OF that] by (fastforce simp: slots_ok_def lifetime_of_def)
  have apart: "slots ! i = slots ! j \<Longrightarrow> last_step_of g i < producer_step g j \<or> last_step_of g j < producer_step g i"
    if "i < length (g_values g)" "intermediate g i" "j < length (g_values g)" "intermediate g j" "i \<noteq> j" for i j
  proof -
    assume e: "slots ! i = slots ! j"
    have ne: "?l i \<noteq> ?l j" using that(5) by (simp add: lifetime_of_def)
    have "\<forall>d \<in> set ?is. \<forall>e \<in> set ?is. d \<noteq> e \<longrightarrow> slots ! vl_value d = slots ! vl_value e \<longrightarrow> vl_last d < vl_first e \<or> vl_last e < vl_first d"
      using slots by (simp add: slots_ok_def)
    from this[rule_format, OF mem[OF that(1,2)] mem[OF that(3,4)] ne] e show ?thesis by (simp add: lifetime_of_def)
  qed
  show ?thesis
  proof (intro exI[of _ alloc] conjI[of "\<forall>i < length (g_values g). _ i"] allI impI)
    fix i assume i: "i < length (g_values g)" "intermediate g i"
    have "mpl_allocations p ! vl_value (?l i) = Some \<lparr>ba_slot = slots ! vl_value (?l i), ba_byte_offset = offs ! (slots ! vl_value (?l i)), ba_size = vl_size (?l i)\<rparr>"
      unfolding A by (rule allocations_facts(1)[OF F(3) _ mem[OF i]]) (use vals in simp)
    then have "mpl_allocations p ! i = Some (alloc i)" by (simp add: lifetime_of_def alloc_def)
    moreover have "length (mpl_allocations p) = length (g_values g)"
      unfolding A by (subst allocations_facts(3)[OF F(3)]) (use vals in simp_all)
    ultimately show "plan_allocation p i = Inr (alloc i) \<and> ba_size (alloc i) = value_bytes g i \<and>
        default_alignment dvd ba_byte_offset (alloc i) \<and> ba_byte_offset (alloc i) + ba_size (alloc i) \<le> mpl_buffer_size p"
      using slot[OF i] offs(1) offs(3)[rule_format, of "slots ! i"] i(1)
      by (simp add: plan_allocation_def has_allocation_def alloc_def)
  next
    fix step i j assume al: "alive g step i" "alive g step j" "i \<noteq> j"
    then have i: "i < length (g_values g)" "intermediate g i" and j: "j < length (g_values g)" "intermediate g j" by (simp_all add: alive_def)
    have "slots ! i \<noteq> slots ! j" using apart[OF i j al(3)] al(1,2) by (fastforce simp: alive_def)
    then consider "slots ! i < slots ! j" | "slots ! j < slots ! i" by linarith
    then show "disjoint_ranges (alloc i) (alloc j)"
    proof cases
      case 1
      then have "offs' ! (slots ! i) + caps ! (slots ! i) \<le> offs' ! (slots ! j)" using offs(3) slot[OF i] slot[OF j] by blast
      then show ?thesis using slot[OF i] offs(1) by (simp add: disjoint_ranges_def alloc_def)
    next
      case 2
      then have "offs' ! (slots ! j) + caps ! (slots ! j) \<le> offs' ! (slots ! i)" using offs(3) slot[OF i] slot[OF j] by blast
      then show ?thesis using slot[OF j] offs(1) by (simp add: disjoint_ranges_def alloc_def)
    qed
  qed
qed

lemma used_alive:
  assumes ok: "graph_ok g" and k: "k < length (g_nodes g)" and i: "i \<in> set (nd_inputs (g_nodes g ! k)) \<union> set (nd_outputs (g_nodes g ! k))"
    and m: "intermediate g i"
  shows "alive g k i"
proof -
  have no: "node_ok g k" using ok k by (simp add: graph_ok_def)
  from i consider (ins) "i \<in> set (nd_inputs (g_nodes g ! k))" | (outs) "i \<in> set (nd_outputs (g_nodes g ! k))" by blast
  then show ?thesis
  proof cases
    case ins
    note n = node_inputs[OF ok k ins]
    have "value_ok g i" using ok n(1) by (simp add: graph_ok_def)
    then obtain p where "gv_producer (g_values g ! i) = Some p" using m by (auto simp: value_ok_def Let_def)
    then have "producer_step g i \<le> k" using n(2) by (simp add: producer_step_def less_imp_le)
    moreover have "k \<le> last_use g (length (g_nodes g)) i" unfolding last_use_def by (rule Max_ge) (use k ins in auto)
    ultimately show ?thesis using n(1) m k by (simp add: alive_def last_step_of_def)
  next
    case outs
    then have v: "i < length (g_values g)" "gv_producer (g_values g ! i) = Some k" using no unfolding node_ok_def Let_def by auto
    then show ?thesis using m last_step_bounds(1)[OF ok v(1) m] by (simp add: alive_def producer_step_def)
  qed
qed

lemma not_used_later:
  assumes "last_step_of g i < j" and "j < length (g_nodes g)"
  shows "i \<notin> set (nd_inputs (g_nodes g ! j))" "i \<notin> set (g_outputs g)"
proof -
  show o: "i \<notin> set (g_outputs g)" using assms by (auto simp: last_step_of_def)
  have "j \<le> last_use g (length (g_nodes g)) i" if "i \<in> set (nd_inputs (g_nodes g ! j))"
    unfolding last_use_def by (rule Max_ge) (use that assms(2) in auto)
  then show "i \<notin> set (nd_inputs (g_nodes g ! j))" using assms(1) o by (force simp: last_step_of_def)
qed

text \<open>What the executor drops after a step: the intermediate values whose last step it is.\<close>

lemma plan_released:
  assumes ok: "graph_ok g" and plan: "mk_memory_plan a g = Inr p" and k: "k < length (g_nodes g)"
  shows "values_released_after_step p k =
    Inr (filter (\<lambda>i. last_step_of g i = k) (filter (intermediate g) [0..<length (g_values g)]))"
proof -
  have rel: "mpl_releases p = plan_releases (length (g_nodes g)) (length (g_nodes g)) (final_lifetimes g)"
    by (rule mk_memory_plan_Inr[OF ok plan])
  have "mpl_releases p ! k = filter (\<lambda>i. last_step_of g i = k) (filter (intermediate g) [0..<length (g_values g)])"
    unfolding rel releases_facts[OF k] map_filter_table by (simp add: filter_map comp_def lifetime_of_def)
  moreover have "length (foldl (\<lambda>rs l. case l of None \<Rightarrow> rs | Some x \<Rightarrow>
      if vl_last x < n then rs[vl_last x := rs ! vl_last x @ [vl_value x]] else rs) rs ls) = length rs" for n rs and ls :: "value_lifetime option list"
    by (induction ls arbitrary: rs) (auto split: option.splits)
  then have "length (mpl_releases p) = length (g_nodes g)" by (simp add: rel plan_releases_def)
  ultimately show ?thesis using k by (simp add: values_released_after_step_def)
qed

text \<open>
  C39: the memory plan is sound. For every graph built through the interface and every plan the constructor returns:
  each intermediate value has an aligned range of its own size inside the buffer; the inputs and outputs of a node
  are alive while it runs; two values alive at the same step have disjoint ranges; and a value released after a step
  is an input of no later node and no graph output.
\<close>

theorem memory_plan_sound:
  assumes "graph_run g" and "mk_memory_plan a g = Inr p"
  shows "(\<forall>i < length (g_values g). intermediate g i \<longrightarrow> (\<exists>x. plan_allocation p i = Inr x \<and> ba_size x = value_bytes g i \<and>
      16 dvd ba_byte_offset x \<and> ba_byte_offset x + ba_size x \<le> mpl_buffer_size p)) \<and>
    (\<forall>k < length (g_nodes g). \<forall>i \<in> set (nd_inputs (g_nodes g ! k)) \<union> set (nd_outputs (g_nodes g ! k)). intermediate g i \<longrightarrow> alive g k i) \<and>
    (\<forall>step i j x y. alive g step i \<longrightarrow> alive g step j \<longrightarrow> i \<noteq> j \<longrightarrow> plan_allocation p i = Inr x \<longrightarrow> plan_allocation p j = Inr y \<longrightarrow>
      disjoint_ranges x y) \<and>
    (\<forall>k < length (g_nodes g). \<exists>vs. values_released_after_step p k = Inr vs \<and>
      (\<forall>i \<in> set vs. i \<notin> set (g_outputs g) \<and> (\<forall>j < length (g_nodes g). k < j \<longrightarrow> i \<notin> set (nd_inputs (g_nodes g ! j)))))"
    (is "?alloc \<and> ?alive \<and> ?apart \<and> ?release")
proof (intro conjI)
  note ok = graph_run_ok[OF assms(1)]
  from plan_allocations[OF ok assms(2)] obtain alloc where
    al: "\<And>i. i < length (g_values g) \<Longrightarrow> intermediate g i \<Longrightarrow> plan_allocation p i = Inr (alloc i) \<and>
      ba_size (alloc i) = value_bytes g i \<and> default_alignment dvd ba_byte_offset (alloc i) \<and>
      ba_byte_offset (alloc i) + ba_size (alloc i) \<le> mpl_buffer_size p"
    and ap: "\<And>step i j. alive g step i \<Longrightarrow> alive g step j \<Longrightarrow> i \<noteq> j \<Longrightarrow> disjoint_ranges (alloc i) (alloc j)" by blast
  show ?alloc using al by (fastforce simp: default_alignment_def)
  show ?alive using used_alive[OF ok] by blast
  show ?apart
  proof (intro allI impI)
    fix step i j x y
    assume h: "alive g step i" "alive g step j" "i \<noteq> j" "plan_allocation p i = Inr x" "plan_allocation p j = Inr y"
    then have "x = alloc i" "y = alloc j" using al[of i] al[of j] by (simp_all add: alive_def)
    then show "disjoint_ranges x y" using ap[OF h(1,2,3)] by simp
  qed
  show ?release
  proof (intro allI impI)
    fix k assume k: "k < length (g_nodes g)"
    let ?vs = "filter (\<lambda>i. last_step_of g i = k) (filter (intermediate g) [0..<length (g_values g)])"
    have "\<forall>i \<in> set ?vs. i \<notin> set (g_outputs g) \<and> (\<forall>j < length (g_nodes g). k < j \<longrightarrow> i \<notin> set (nd_inputs (g_nodes g ! j)))"
    proof
      fix i assume "i \<in> set ?vs"
      then have l: "last_step_of g i = k" by simp
      then have "i \<notin> set (g_outputs g)" using k by (auto simp: last_step_of_def)
      moreover have "i \<notin> set (nd_inputs (g_nodes g ! j))" if "j < length (g_nodes g)" "k < j" for j
        using not_used_later(1)[of g i j] that l by simp
      ultimately show "i \<notin> set (g_outputs g) \<and> (\<forall>j < length (g_nodes g). k < j \<longrightarrow> i \<notin> set (nd_inputs (g_nodes g ! j)))" by blast
    qed
    then show "\<exists>vs. values_released_after_step p k = Inr vs \<and>
        (\<forall>i \<in> set vs. i \<notin> set (g_outputs g) \<and> (\<forall>j < length (g_nodes g). k < j \<longrightarrow> i \<notin> set (nd_inputs (g_nodes g ! j))))"
      using plan_released[OF ok assms(2) k] by blast
  qed
qed

definition demo_plan :: memory_plan where
  "demo_plan = \<lparr>mpl_graph = 7, mpl_node_count = 1, mpl_buffer_size = 8, mpl_naive_bytes = 8,
     mpl_lifetimes = [None, Some \<lparr>vl_value = 1, vl_first = 0, vl_last = 1, vl_size = 8\<rparr>],
     mpl_allocations = [None, Some \<lparr>ba_slot = 0, ba_byte_offset = 0, ba_size = 8\<rparr>], mpl_slot_capacities = [8], mpl_releases = [[]]\<rparr>"

lemma demo_plan: "mk_memory_plan 7 (demo_graph [Suc 0]) = Inr demo_plan"
proof -
  let ?g = "demo_graph [Suc 0]"
  have o: "topological_order ?g = Inr [0]" using built_order[OF graph_run_ok[OF demo_graph_run]] by (simp add: demo_graph_def)
  have l: "bindE (mk_layout [2]) (\<lambda>l. bindE (size_bytes l Float32) f) = f 8" for f :: "nat \<Rightarrow> 'b result"
    by (simp add: mk_layout_def validate_shape_def checked_numel_def make_contiguous_strides_def checked_multiply_def
        size_max_def int64_max_def size_bytes_def)
  have s: "foldE (start_lifetime [0]) (g_values ?g) ([None, None], 0) =
      Inr ([None, Some \<lparr>vl_value = Suc 0, vl_first = 0, vl_last = 0, vl_size = 8\<rparr>], 8)"
    by (simp add: demo_graph_def demo_value_def demo_spec_def start_lifetime_def l size_max_def)
  have e: "extend_node ?g [0] 0 ls = Inr ls" if "ls ! 0 = None" for ls
    using that by (simp add: extend_node_def graph_node_def demo_graph_def extend_use_def)
  have i: "plan_intervals [None, Some x] = [x]" for x by (simp add: plan_intervals_def List.map_filter_def)
  have a: "plan_align_up 0 default_alignment = Inr 0"
    by (simp add: plan_align_up_def default_alignment_def size_max_def align_up_def)
  have n: "node_steps (Suc 0) [0] = [0]" by (simp add: node_steps_def)
  have g: "length (g_nodes ?g) = Suc 0" "length (g_values ?g) = Suc (Suc 0)" "g_outputs ?g = [Suc 0]" by (simp_all add: demo_graph_def)
  show ?thesis
    by (simp add: mk_memory_plan_def validate_graph_def o g n Let_def s e i extend_output_def assign_slot_def choose_slot_def
        place_slot_def a size_max_def plan_releases_def demo_plan_def)
qed

theorem memory_plan_sound_witness:
  "\<exists>x. plan_allocation demo_plan 1 = Inr x \<and> 16 dvd ba_byte_offset x \<and> ba_byte_offset x + ba_size x \<le> 8 \<and> alive (demo_graph [1]) 0 1"
proof -
  note s = memory_plan_sound[OF demo_graph_run demo_plan[folded One_nat_def]]
  have v: "1 < length (g_values (demo_graph [1]))" "intermediate (demo_graph [1]) 1" by (simp_all add: demo_graph_def demo_value_def)
  from s v obtain x where x: "plan_allocation demo_plan 1 = Inr x" "16 dvd ba_byte_offset x" "ba_byte_offset x + ba_size x \<le> mpl_buffer_size demo_plan"
    by blast
  have "alive (demo_graph [1]) 0 1" using s v by (auto simp: demo_graph_def)
  then show ?thesis using x by (auto simp: demo_plan_def)
qed

end
