(* ===== verification/Dead_Code.thy ===== *)
theory Dead_Code
  imports Passes_Sound
begin

text \<open>
  Dead code elimination: the work list marks exactly the nodes some output needs, and the rebuilt model has exactly
  those nodes and the same outputs.
\<close>

section \<open>Finishing a planned rewrite\<close>

definition keep :: "graph \<Rightarrow> nat \<Rightarrow> op_type \<times> nat list \<times> node_attributes" where
  "keep g k = (nd_op (g_nodes g ! k), nd_inputs (g_nodes g ! k), nd_attributes (g_nodes g ! k))"

text \<open>A node may always be kept as it is.\<close>

lemma keep_meaning:
  assumes ok: "graph_ok g" and k: "k < length (g_nodes g)"
  shows "infer_output_specs (nd_op (g_nodes g ! k)) (map (\<lambda>i. gv_spec (g_values g ! i)) (nd_inputs (g_nodes g ! k))) (nd_attributes (g_nodes g ! k)) =
      Inr [gv_spec (g_values g ! out_of g k)]"
    and "i \<in> set (nd_inputs (g_nodes g ! k)) \<Longrightarrow> i < length (g_values g) \<and> (\<forall>p. gv_producer (g_values g ! i) = Some p \<longrightarrow> p < k)"
    and "denotes M h g (out_of g k) v \<Longrightarrow> \<exists>ws. length ws = length (nd_inputs (g_nodes g ! k)) \<and>
      (\<forall>j < length ws. denotes M h g (nd_inputs (g_nodes g ! k) ! j) (ws ! j)) \<and>
      v = mn_op M (nd_op (g_nodes g ! k)) (nd_attributes (g_nodes g ! k)) ws"
proof -
  note O = node_output[OF ok k]
  have no: "node_ok g k" using ok k by (simp add: graph_ok_def)
  then show "infer_output_specs (nd_op (g_nodes g ! k)) (map (\<lambda>i. gv_spec (g_values g ! i)) (nd_inputs (g_nodes g ! k))) (nd_attributes (g_nodes g ! k)) =
      Inr [gv_spec (g_values g ! out_of g k)]"
    unfolding node_ok_def Let_def out_of_def by force
  show "i < length (g_values g) \<and> (\<forall>p. gv_producer (g_values g ! i) = Some p \<longrightarrow> p < k)" if "i \<in> set (nd_inputs (g_nodes g ! k))"
    using no that unfolding node_ok_def Let_def by blast
  show "\<exists>ws. length ws = length (nd_inputs (g_nodes g ! k)) \<and>
      (\<forall>j < length ws. denotes M h g (nd_inputs (g_nodes g ! k) ! j) (ws ! j)) \<and>
      v = mn_op M (nd_op (g_nodes g ! k)) (nd_attributes (g_nodes g ! k)) ws" if "denotes M h g (out_of g k) v"
    using denotes_nodeE[OF that O(3,4)] by metis
qed

lemma copy_node_keep:
  "\<lbrakk>rw_ok M h m rw; k < length (g_nodes (m_graph m)); keep (m_graph m) k = (op, is, attrs)\<rbrakk> \<Longrightarrow> copy_node k rw = replace_node k op is attrs rw"
  using rw_okD(1) by (auto simp: copy_node_def graph_node_def keep_def)

lemma plan_outputs:
  assumes ok: "model_ok h m" and inv: "plan_inv M h m plan (length (g_nodes (m_graph m))) rw"
    and outs: "\<forall>i \<in> set (g_outputs (m_graph m)). \<forall>p. gv_producer (g_values (m_graph m) ! i) = Some p \<longrightarrow> plan p \<noteq> None"
  shows "\<forall>i \<in> set (g_outputs (m_graph m)). copyable rw i"
proof
  let ?g = "m_graph m"
  note D = model_okD[OF ok]
  have rw: "rw_ok M h m rw" "mapped rw = reached ?g plan (length (g_nodes ?g))" using inv by (simp_all add: plan_inv_def)
  fix i assume i: "i \<in> set (g_outputs ?g)"
  then have il: "i < length (g_values ?g)" using D(1) by (simp add: graph_ok_def)
  show "copyable rw i"
  proof (cases "gv_producer (g_values ?g ! i)")
    case None
    then have "gv_kind (g_values ?g ! i) = Kind_constant \<or> i \<in> mapped rw" using no_producer[OF D(1) il] rw(2) by (auto simp: reached_def)
    then show ?thesis using il rw_okD(1)[OF rw(1)] by (auto simp: copyable_def mapped_def)
  next
    case (Some p)
    then have "i \<in> mapped rw"
      using outs i intermediate_producer(1,2)[OF D(1) il Some] rw(2) by (fastforce simp: reached_def)
    then show ?thesis using il rw_okD(1)[OF rw(1)] by (simp add: copyable_def mapped_def)
  qed
qed

text \<open>The end of every pass: copy the outputs that are still missing and build the model.\<close>

definition finished :: "'v meaning \<Rightarrow> heap \<Rightarrow> model \<Rightarrow> rewriter \<Rightarrow> rewriter \<Rightarrow> model \<times> rewriter \<Rightarrow> bool" where
  "finished M h m rw rw2 mr \<longleftrightarrow> preserved M h m (rw_heap (snd mr)) (fst mr) (rw_mapping rw2) \<and>
     mapped rw2 = set (g_outputs (m_graph m)) \<union> mapped rw \<and> length (g_nodes (m_graph (fst mr))) = length (g_nodes (rw_graph rw))"

lemma finish_plan:
  assumes ok: "model_ok h m" and rw: "rw_ok M h m rw" and outs: "\<forall>i \<in> set (g_outputs (m_graph m)). copyable rw i"
    and k: "\<And>rw2 m' rw3. finished M h m rw rw2 (m', rw3) \<Longrightarrow> outcome copy_failure P (k rw2 (m', rw3))"
  shows "outcome copy_failure P (bindE (foldE copy_missing (g_outputs (m_graph m)) rw) (\<lambda>rw2. bindE (finish_rewrite rw2) (k rw2)))"
proof (rule outcome_bindE[OF copy_outputs_ok[OF ok rw outs]])
  fix rw2 assume c: "copied M h m rw rw2 (set (g_outputs (m_graph m))) 0"
  then have rw2: "rw_ok M h m rw2" by (simp add: copied_def)
  have "\<forall>i \<in> set (g_outputs (m_graph m)). rw_mapping rw2 ! i \<noteq> None" using c by (auto simp: copied_def mapped_def)
  from finish_ok[OF ok rw2 this] obtain m' where f: "finish_rewrite rw2 = Inr (m', rw2\<lparr>rw_graph := m_graph m', rw_finished := True\<rparr>)"
    "preserved M h m (rw_heap rw2) m' (rw_mapping rw2)" "g_nodes (m_graph m') = g_nodes (rw_graph rw2)" by blast
  then have "finished M h m rw rw2 (m', rw2\<lparr>rw_graph := m_graph m', rw_finished := True\<rparr>)" using c by (simp add: finished_def copied_def)
  from k[OF this] show "outcome copy_failure P (bindE (finish_rewrite rw2) (k rw2))" by (simp add: f(1))
qed

section \<open>The work list\<close>

inductive needed :: "graph \<Rightarrow> nat \<Rightarrow> bool" for g where
  needed_output: "i \<in> set (g_outputs g) \<Longrightarrow> needed g i"
| needed_input: "needed g v \<Longrightarrow> gv_producer (g_values g ! v) = Some p \<Longrightarrow> i \<in> set (nd_inputs (g_nodes g ! p)) \<Longrightarrow> needed g i"

definition live_inv :: "graph \<Rightarrow> nat list \<Rightarrow> bool list \<Rightarrow> bool list \<Rightarrow> bool" where
  "live_inv g pending lv ln \<longleftrightarrow> length lv = length (g_values g) \<and> length ln = length (g_nodes g) \<and>
     (\<forall>i \<in> set pending. i < length (g_values g) \<and> needed g i) \<and>
     (\<forall>p < length ln. ln ! p \<longrightarrow> (\<exists>v < length lv. needed g v \<and> gv_producer (g_values g ! v) = Some p)) \<and>
     (\<forall>i < length lv. lv ! i \<longrightarrow> (\<forall>p. gv_producer (g_values g ! i) = Some p \<longrightarrow> ln ! p)) \<and>
     (\<forall>p < length ln. ln ! p \<longrightarrow> (\<forall>i \<in> set (nd_inputs (g_nodes g ! p)). lv ! i \<or> i \<in> set pending)) \<and>
     (\<forall>i \<in> set (g_outputs g). lv ! i \<or> i \<in> set pending)"

lemma live_invD:
  assumes "live_inv g pending lv ln"
  shows "length lv = length (g_values g)" "length ln = length (g_nodes g)"
    "i \<in> set pending \<Longrightarrow> i < length (g_values g)" "i \<in> set pending \<Longrightarrow> needed g i"
    "p < length ln \<Longrightarrow> ln ! p \<Longrightarrow> \<exists>v < length lv. needed g v \<and> gv_producer (g_values g ! v) = Some p"
    "i < length lv \<Longrightarrow> lv ! i \<Longrightarrow> gv_producer (g_values g ! i) = Some p \<Longrightarrow> ln ! p"
    "p < length ln \<Longrightarrow> ln ! p \<Longrightarrow> j \<in> set (nd_inputs (g_nodes g ! p)) \<Longrightarrow> lv ! j \<or> j \<in> set pending"
    "j \<in> set (g_outputs g) \<Longrightarrow> lv ! j \<or> j \<in> set pending"
  using assms unfolding live_inv_def by blast+

lemma live_inv_pop:
  assumes inv: "live_inv g (i # pending) lv ln" and "lv' = lv[i := True]" and "\<forall>p. gv_producer (g_values g ! i) = Some p \<longrightarrow> ln ! p"
  shows "live_inv g pending lv' ln"
proof -
  note I = live_invD[OF inv]
  have i: "i < length lv" using I(1) I(3)[of i] by simp
  have at: "lv' ! j \<longleftrightarrow> j = i \<or> lv ! j" for j using i by (cases "j = i") (simp_all add: assms(2))
  show ?thesis unfolding live_inv_def
  proof (intro conjI allI impI ballI)
    show "length lv' = length (g_values g)" "length ln = length (g_nodes g)" using I(1,2) by (simp_all add: assms(2))
    show "j < length (g_values g)" "needed g j" if "j \<in> set pending" for j using I(3,4)[of j] that by simp_all
    show "\<exists>v < length lv'. needed g v \<and> gv_producer (g_values g ! v) = Some p" if "p < length ln" "ln ! p" for p
      using I(5)[OF that] by (simp add: assms(2))
    show "ln ! p" if "j < length lv'" "lv' ! j" "gv_producer (g_values g ! j) = Some p" for j p
      using that I(6)[of j p] assms(3) at[of j] by (auto simp: assms(2))
    show "lv' ! j \<or> j \<in> set pending" if "p < length ln" "ln ! p" "j \<in> set (nd_inputs (g_nodes g ! p))" for p j
      using I(7)[OF that] at[of j] by auto
    show "lv' ! j \<or> j \<in> set pending" if "j \<in> set (g_outputs g)" for j using I(8)[OF that] at[of j] by auto
  qed
qed

lemma live_inv_push:
  assumes ok: "graph_ok g" and inv: "live_inv g (i # pending) lv ln" and p: "gv_producer (g_values g ! i) = Some p"
  shows "live_inv g (rev (nd_inputs (g_nodes g ! p)) @ pending) (lv[i := True]) (ln[p := True])"
proof -
  note I = live_invD[OF inv]
  have i: "i < length (g_values g)" "needed g i" using I(3,4)[of i] by simp_all
  have pn: "p < length (g_nodes g)" using intermediate_producer(1)[OF ok i(1) p] .
  have at: "lv[i := True] ! j \<longleftrightarrow> j = i \<or> lv ! j" for j using i(1) I(1) by (cases "j = i") simp_all
  have an: "ln[p := True] ! q \<longleftrightarrow> q = p \<or> ln ! q" for q using pn I(2) by (cases "q = p") simp_all
  show ?thesis unfolding live_inv_def
  proof (intro conjI allI impI ballI)
    show "length (lv[i := True]) = length (g_values g)" "length (ln[p := True]) = length (g_nodes g)" using I(1,2) by simp_all
    show "j < length (g_values g)" "needed g j" if "j \<in> set (rev (nd_inputs (g_nodes g ! p)) @ pending)" for j
      using that I(3,4)[of j] keep_meaning(2)[OF ok pn, of j] needed_input[OF i(2) p, of j] by auto
    show "\<exists>v < length (lv[i := True]). needed g v \<and> gv_producer (g_values g ! v) = Some q"
      if "q < length (ln[p := True])" "ln[p := True] ! q" for q
      using that I(5)[of q] I(1) i p by (cases "q = p") auto
    show "ln[p := True] ! q" if "j < length (lv[i := True])" "lv[i := True] ! j" "gv_producer (g_values g ! j) = Some q" for j q
      using that I(6)[of j q] p at[of j] an[of q] by auto
    show "lv[i := True] ! j \<or> j \<in> set (rev (nd_inputs (g_nodes g ! p)) @ pending)"
      if "q < length (ln[p := True])" "ln[p := True] ! q" "j \<in> set (nd_inputs (g_nodes g ! q))" for q j
      using that I(7)[of q j] at[of j] an[of q] by auto
    show "lv[i := True] ! j \<or> j \<in> set (rev (nd_inputs (g_nodes g ! p)) @ pending)" if "j \<in> set (g_outputs g)" for j
      using I(8)[OF that] at[of j] by auto
  qed
qed

lemma live_loop_ok:
  "graph_ok g \<Longrightarrow> live_inv g pending lv ln \<Longrightarrow> \<exists>lv' ln'. live_loop g pending lv ln = Inr (lv', ln') \<and> live_inv g [] lv' ln'"
proof (induction g pending lv ln rule: live_loop.induct)
  case (1 g lv ln)
  then show ?case by simp
next
  case (2 g i pending lv ln)
  note I = live_invD[OF 2(6)]
  have i: "i < length lv" "i < length (g_values g)" using I(1) I(3)[of i] by simp_all
  show ?case
  proof (cases "lv ! i")
    case True
    have "live_inv g pending lv ln"
      by (rule live_inv_pop[OF 2(6)]) (use list_update_id[of lv i] True i(1) I(6)[of i] in simp_all)
    then show ?thesis using 2(1)[OF _ True 2(5)] i True by simp
  next
    case False
    show ?thesis
    proof (cases "gv_producer (g_values g ! i)")
      case None
      have "live_inv g pending (lv[i := True]) ln" by (rule live_inv_pop[OF 2(6) refl]) (simp add: None)
      then show ?thesis using 2(2)[OF _ False _ None 2(5)] i False None by (simp add: graph_value_at_def)
    next
      case (Some p)
      have p: "p < length ln" using intermediate_producer(1)[OF 2(5) i(2) Some] I(2) by simp
      show ?thesis
      proof (cases "ln ! p")
        case True
        have "live_inv g pending (lv[i := True]) ln" by (rule live_inv_pop[OF 2(6) refl]) (simp add: Some True)
        then show ?thesis using 2(3)[OF _ False _ Some _ True 2(5)] i False p True Some by (simp add: graph_value_at_def)
      next
        case nl: False
        have v: "graph_value_at g i = Inr (g_values g ! i)" "graph_node g p = Inr (g_nodes g ! p)"
          using i p I(2) by (simp_all add: graph_value_at_def graph_node_def)
        have "live_inv g (rev (nd_inputs (g_nodes g ! p)) @ pending) (lv[i := True]) (ln[p := True])"
          by (rule live_inv_push[OF 2(5,6) Some])
        then show ?thesis using 2(4)[OF _ False v(1) Some _ nl v(2) 2(5)] i False p nl Some v by simp
      qed
    qed
  qed
qed

lemma live_nodes_needed:
  assumes ok: "graph_ok g"
  shows "\<exists>lv ln. live_loop g (rev (g_outputs g)) (replicate (length (g_values g)) False) (replicate (length (g_nodes g)) False) = Inr (lv, ln) \<and>
    length ln = length (g_nodes g) \<and> (\<forall>p < length ln. ln ! p \<longleftrightarrow> needed g (out_of g p))"
proof -
  have "live_inv g (rev (g_outputs g)) (replicate (length (g_values g)) False) (replicate (length (g_nodes g)) False)"
    using ok by (auto simp: live_inv_def graph_ok_def intro: needed.intros)
  from live_loop_ok[OF ok this] obtain lv ln where r: "live_loop g (rev (g_outputs g)) (replicate (length (g_values g)) False)
      (replicate (length (g_nodes g)) False) = Inr (lv, ln)" and inv: "live_inv g [] lv ln" by blast
  note I = live_invD[OF inv]
  have live: "i < length (g_values g) \<and> lv ! i" if "needed g i" for i
    using that
  proof (induction rule: needed.induct)
    case (needed_output i)
    then show ?case using I(8) ok by (simp add: graph_ok_def)
  next
    case (needed_input v p i)
    have p: "p < length ln" using intermediate_producer(1)[OF ok _ needed_input(2)] needed_input(4) I(2) by simp
    have "ln ! p" using I(6)[OF _ _ needed_input(2)] needed_input(4) I(1) by simp
    then have "lv ! i" using I(7)[OF p _ needed_input(3)] by simp
    then show ?case using keep_meaning(2)[OF ok _ needed_input(3)] p I(2) by simp
  qed
  have "ln ! p \<longleftrightarrow> needed g (out_of g p)" if p: "p < length ln" for p
  proof
    assume "ln ! p"
    then obtain v where "v < length (g_values g)" "needed g v" "gv_producer (g_values g ! v) = Some p" using I(5)[OF p] I(1) by auto
    then show "needed g (out_of g p)" using intermediate_producer(2)[OF ok] by metis
  next
    assume n: "needed g (out_of g p)"
    show "ln ! p" using I(6)[of "out_of g p" p] live[OF n] node_output(4)[OF ok] p I(1,2) by simp
  qed
  then show ?thesis using r I(2) by blast
qed

section \<open>The pass\<close>

definition live_plan :: "graph \<Rightarrow> bool list \<Rightarrow> node_plan" where
  "live_plan g ln k = (if ln ! k then Some (keep g k) else None)"

lemma live_plan_ok:
  assumes ok: "graph_ok g" and ln: "length ln = length (g_nodes g)" "\<forall>p < length ln. ln ! p \<longleftrightarrow> needed g (out_of g p)"
  shows "plan_ok M h g (live_plan g ln)"
  unfolding plan_ok_def
proof (intro allI impI)
  fix j op "is" attrs assume j: "j < length (g_nodes g)" and p: "live_plan g ln j = Some (op, is, attrs)"
  have own: "op = nd_op (g_nodes g ! j)" "is = nd_inputs (g_nodes g ! j)" "attrs = nd_attributes (g_nodes g ! j)" "ln ! j"
    using p by (auto simp: live_plan_def keep_def split: if_splits)
  note K = keep_meaning[OF ok j]
  have "i < length (g_values g) \<and> (\<forall>q. gv_producer (g_values g ! i) = Some q \<longrightarrow> q < j \<and> live_plan g ln q \<noteq> None)" if i: "i \<in> set is" for i
  proof (intro conjI allI impI)
    show il: "i < length (g_values g)" using K(2) i own(2) by blast
    fix q assume q: "gv_producer (g_values g ! i) = Some q"
    then show "q < j" using K(2) i own(2) by blast
    have "needed g (out_of g j)" using own(4) ln j by simp
    then have "needed g i" using needed_input[OF _ node_output(4)[OF ok j]] i own(2) by simp
    then have "needed g (out_of g q)" using intermediate_producer(2)[OF ok il q] by simp
    then show "live_plan g ln q \<noteq> None" using ln \<open>q < j\<close> j by (simp add: live_plan_def)
  qed
  then have "\<forall>i \<in> set is. i < length (g_values g) \<and> (\<forall>q. gv_producer (g_values g ! i) = Some q \<longrightarrow> q < j \<and> live_plan g ln q \<noteq> None)" ..
  moreover have "infer_output_specs op (map (\<lambda>i. gv_spec (g_values g ! i)) is) attrs = Inr [gv_spec (g_values g ! out_of g j)]"
    unfolding own(1-3) by (rule K(1))
  moreover have "\<forall>v. denotes M h g (out_of g j) v \<longrightarrow>
        (\<exists>ws. length ws = length is \<and> (\<forall>k < length ws. denotes M h g (is ! k) (ws ! k)) \<and> v = mn_op M op attrs ws)"
    unfolding own(1-3) by (intro allI impI K(3))
  ultimately show "(\<forall>i \<in> set is. i < length (g_values g) \<and> (\<forall>q. gv_producer (g_values g ! i) = Some q \<longrightarrow> q < j \<and> live_plan g ln q \<noteq> None)) \<and>
     infer_output_specs op (map (\<lambda>i. gv_spec (g_values g ! i)) is) attrs = Inr [gv_spec (g_values g ! out_of g j)] \<and>
     (\<forall>v. denotes M h g (out_of g j) v \<longrightarrow>
        (\<exists>ws. length ws = length is \<and> (\<forall>k < length ws. denotes M h g (is ! k) (ws ! k)) \<and> v = mn_op M op attrs ws))"
    by (intro conjI)
qed

lemma needed_in_range:
  assumes ok: "graph_ok g" and n: "needed g i"
  shows "i < length (g_values g)"
  using n
proof (induction rule: needed.induct)
  case (needed_output i)
  then show ?case using ok by (simp add: graph_ok_def)
next
  case (needed_input v p i)
  have "p < length (g_nodes g)" by (rule intermediate_producer(1)[OF ok needed_input(4,2)])
  then show ?case using keep_meaning(2)[OF ok _ needed_input(3)] by simp
qed

lemma live_reached:
  assumes ok: "graph_ok g" and ln: "length ln = length (g_nodes g)" "\<forall>p < length ln. ln ! p \<longleftrightarrow> needed g (out_of g p)"
    and i: "i < length (g_values g)"
  shows "i \<in> set (g_outputs g) \<union> reached g (live_plan g ln) (length (g_nodes g)) \<longleftrightarrow> i \<in> set (g_inputs g) \<or> needed g i"
proof
  assume "i \<in> set (g_outputs g) \<union> reached g (live_plan g ln) (length (g_nodes g))"
  then consider "i \<in> set (g_outputs g)" | "i \<in> set (g_inputs g)"
    | j where "j < length (g_nodes g)" "ln ! j" "i = out_of g j \<or> i \<in> set (nd_inputs (g_nodes g ! j))"
    by (auto simp: reached_def live_plan_def keep_def split: if_splits)
  then show "i \<in> set (g_inputs g) \<or> needed g i"
  proof cases
    case (3 j)
    then have n: "needed g (out_of g j)" using ln by simp
    from 3(3) show ?thesis using n needed_input[OF n node_output(4)[OF ok 3(1)]] by blast
  qed (auto intro: needed_output)
next
  assume "i \<in> set (g_inputs g) \<or> needed g i"
  then show "i \<in> set (g_outputs g) \<union> reached g (live_plan g ln) (length (g_nodes g))"
  proof
    assume "needed g i"
    then show ?thesis
    proof cases
      case (needed_input v p)
      have "v < length (g_values g)" by (rule needed_in_range[OF ok needed_input(1)])
      then have "p < length (g_nodes g)" "ln ! p" using intermediate_producer(1,2)[OF ok _ needed_input(2)] needed_input(1) ln by auto
      then show ?thesis using needed_input(3) by (auto simp: reached_def live_plan_def keep_def)
    qed (simp add: needed_output)
  qed (simp add: reached_def)
qed

lemma copy_live_ok:
  assumes ok: "model_ok h m" and ln: "length ln = length (g_nodes (m_graph m))" "\<forall>p < length ln. ln ! p \<longleftrightarrow> needed (m_graph m) (out_of (m_graph m) p)"
    and k: "k < length (g_nodes (m_graph m))" and inv: "plan_inv M h m (live_plan (m_graph m) ln) k rw"
  shows "outcome copy_failure (plan_inv M h m (live_plan (m_graph m) ln) (Suc k)) (copy_live ln k rw)"
proof (cases "ln ! k")
  case True
  obtain op "is" attrs where kp: "keep (m_graph m) k = (op, is, attrs)" by (metis surj_pair)
  have "live_plan (m_graph m) ln k = Some (op, is, attrs)" using True kp by (simp add: live_plan_def)
  note step = plan_step[OF ok live_plan_ok[OF model_okD(1)[OF ok] ln] inv k this]
  have rw: "rw_ok M h m rw" using inv by (simp add: plan_inv_def)
  have "outcome copy_failure (\<lambda>(_, rw'). plan_inv M h m (live_plan (m_graph m) ln) (Suc k) rw') (copy_node k rw)"
    unfolding copy_node_keep[OF rw k kp] by (rule step)
  then show ?thesis by (cases "copy_node k rw") (auto simp: copy_live_def True)
next
  case False
  then show ?thesis using plan_skip[OF inv] by (simp add: copy_live_def live_plan_def)
qed

lemma dead_code_ok:
  assumes ok: "model_ok h m"
  shows "outcome copy_failure (\<lambda>(r, h'). pass_result M h m ''DeadCodeEliminationPass'' (r, h') \<and>
         (\<forall>i < length (g_values (m_graph m)). or_mapping r ! i \<noteq> None \<longleftrightarrow> i \<in> set (g_inputs (m_graph m)) \<or> needed (m_graph m) i) \<and>
         length (g_nodes (m_graph (or_model r))) = card {p. p < length (g_nodes (m_graph m)) \<and> needed (m_graph m) (out_of (m_graph m) p)})
    (dead_code_run m h)" (is "outcome _ ?P _")
proof -
  let ?g = "m_graph m" and ?n = "length (g_nodes (m_graph m))"
  note D = model_okD[OF ok]
  obtain lv ln where live: "live_loop ?g (rev (g_outputs ?g)) (replicate (length (g_values ?g)) False) (replicate ?n False) = Inr (lv, ln)"
    and ln: "length ln = ?n" "\<forall>p < length ln. ln ! p \<longleftrightarrow> needed ?g (out_of ?g p)" using live_nodes_needed[OF D(1)] by blast
  let ?plan = "live_plan ?g ln"
  have count: "{p. p < ?n \<and> ?plan p \<noteq> None} = {p. p < ?n \<and> needed ?g (out_of ?g p)}" using ln by (intro Collect_cong) (simp add: live_plan_def del: not_None_eq, blast)
  have outs: "\<forall>i \<in> set (g_outputs ?g). \<forall>p. gv_producer (g_values ?g ! i) = Some p \<longrightarrow> ?plan p \<noteq> None"
  proof (intro ballI allI impI)
    fix i p assume i: "i \<in> set (g_outputs ?g)" and p: "gv_producer (g_values ?g ! i) = Some p"
    have "i < length (g_values ?g)" using D(1) i by (simp add: graph_ok_def)
    then show "?plan p \<noteq> None" using intermediate_producer(1,2)[OF D(1) _ p] needed_output[OF i] ln by (auto simp: live_plan_def)
  qed
  have loop: "outcome copy_failure (plan_inv M h m ?plan ?n) (foldE (copy_live ln) [0..<?n] rw)" if "plan_inv M h m ?plan 0 rw" for rw
  proof -
    have "outcome copy_failure (plan_inv M h m ?plan (length [0..<?n])) (foldE (copy_live ln) [0..<?n] rw)"
      by (rule outcome_foldE[where P = "plan_inv M h m ?plan", OF _ that]) (simp add: copy_live_ok[OF ok ln])
    then show ?thesis by simp
  qed
  show ?thesis unfolding dead_code_run_def Let_def live bindE_Inr prod.case D(7)
  proof (rule outcome_bindE[OF mk_rewriter_ok[OF ok, of M ?plan]], rule outcome_bindE[OF loop])
    fix rw rw1 assume inv: "plan_inv M h m ?plan ?n rw1"
    then have rw1: "rw_ok M h m rw1" by (simp add: plan_inv_def)
    have exact: "rw_mapping rw2 ! i \<noteq> None \<longleftrightarrow> i \<in> set (g_inputs ?g) \<or> needed ?g i"
      if "finished M h m rw1 rw2 (m', rw3)" "i < length (g_values ?g)" for rw2 m' rw3 i
    proof -
      have "length (rw_mapping rw2) = length (g_values ?g)" using that(1) by (simp add: finished_def preserved_def)
      then have "rw_mapping rw2 ! i \<noteq> None \<longleftrightarrow> i \<in> set (g_outputs ?g) \<union> reached ?g ?plan ?n"
        using that inv by (auto simp: finished_def plan_inv_def mapped_def)
      then show ?thesis using live_reached[OF D(1) ln that(2)] by simp
    qed
    show "outcome copy_failure ?P (bindE (foldE copy_missing (g_outputs ?g) rw1) (\<lambda>rw2. bindE (finish_rewrite rw2) (\<lambda>(optimized, rw3).
        Inr (\<lparr>or_model = optimized, or_mapping = rw_mapping rw2,
          or_statistics = [\<lparr>ps_pass_name = ''DeadCodeEliminationPass'', ps_nodes_before = ?n, ps_nodes_after = length (g_nodes (m_graph optimized)),
            ps_values_before = length (g_values ?g), ps_values_after = length (g_values (m_graph optimized)),
            ps_nodes_rewritten = ?n - length (g_nodes (m_graph optimized)),
            ps_changed = (?n \<noteq> length (g_nodes (m_graph optimized)) \<or> length (g_values ?g) \<noteq> length (g_values (m_graph optimized)))\<rparr>]\<rparr>, rw_heap rw3))))"
    proof (rule finish_plan[OF ok rw1 plan_outputs[OF ok inv outs]])
      fix rw2 m' rw3 assume f: "finished M h m rw1 rw2 (m', rw3)"
      have "length (g_nodes (m_graph m')) = card {p. p < ?n \<and> needed ?g (out_of ?g p)}"
        using f inv count by (simp add: finished_def plan_inv_def del: not_None_eq)
      moreover have "preserved M h m (rw_heap rw3) m' (rw_mapping rw2)" using f by (simp add: finished_def)
      moreover have "\<forall>i < length (g_values ?g). rw_mapping rw2 ! i \<noteq> None \<longleftrightarrow> i \<in> set (g_inputs ?g) \<or> needed ?g i" using exact[OF f] by blast
      ultimately show "outcome copy_failure ?P (case (m', rw3) of (optimized, rw3) \<Rightarrow>
        Inr (\<lparr>or_model = optimized, or_mapping = rw_mapping rw2,
          or_statistics = [\<lparr>ps_pass_name = ''DeadCodeEliminationPass'', ps_nodes_before = ?n, ps_nodes_after = length (g_nodes (m_graph optimized)),
            ps_values_before = length (g_values ?g), ps_values_after = length (g_values (m_graph optimized)),
            ps_nodes_rewritten = ?n - length (g_nodes (m_graph optimized)),
            ps_changed = (?n \<noteq> length (g_nodes (m_graph optimized)) \<or> length (g_values ?g) \<noteq> length (g_values (m_graph optimized)))\<rparr>]\<rparr>, rw_heap rw3))"
        by (simp add: pass_result_def del: not_None_eq)
    qed
  qed
qed

section \<open>An example\<close>

text \<open>Two nodes on one input, of which only the first feeds the output.\<close>

definition two_graph :: "nat list \<Rightarrow> graph" where
  "two_graph outs = \<lparr>g_nodes = [\<lparr>nd_id = 0, nd_name = ''r'', nd_op = Op_ReLU, nd_inputs = [0], nd_outputs = [1], nd_attributes = []\<rparr>,
       \<lparr>nd_id = 1, nd_name = ''s'', nd_op = Op_Tanh, nd_inputs = [0], nd_outputs = [2], nd_attributes = []\<rparr>],
     g_values = [demo_value 0 ''x'' Kind_input None, demo_value 1 ''r:0'' Kind_intermediate (Some 0), demo_value 2 ''s:0'' Kind_intermediate (Some 1)],
     g_constants = [None, None, None], g_inputs = [0], g_outputs = outs\<rparr>"

definition two_model :: model where
  "two_model = \<lparr>m_graph = two_graph [1], m_inputs = [(''x'', 0)], m_outputs = [(''y'', 1)]\<rparr>"

abbreviation no_heap :: heap where
  "no_heap \<equiv> \<lparr>hp_buffers = [], hp_junk = (\<lambda>_. 0), hp_available = 0\<rparr>"

lemma demo_inference:
  "validate_spec demo_spec = Inr ()" "infer_output_specs Op_ReLU [demo_spec] [] = Inr [demo_spec]" "infer_output_specs Op_Tanh [demo_spec] [] = Inr [demo_spec]"
  "output_name ''r'' 0 = ''r:0''" "output_name ''s'' 0 = ''s:0''"
proof -
  show v: "validate_spec demo_spec = Inr ()"
    by (simp add: validate_spec_def demo_spec_def mk_layout_def validate_shape_def checked_numel_def make_contiguous_strides_def
        checked_multiply_def size_max_def int64_max_def size_bytes_def)
  show "infer_output_specs Op_ReLU [demo_spec] [] = Inr [demo_spec]" "infer_output_specs Op_Tanh [demo_spec] [] = Inr [demo_spec]"
    using v by (simp add: infer_output_specs_def validate_attributes_def require_float32_def; simp add: demo_spec_def)+
  have "nat_string 0 = ''0''" by code_simp
  then show "output_name ''r'' 0 = ''r:0''" "output_name ''s'' 0 = ''s:0''" by (simp_all add: output_name_def)
qed

lemma two_graph_run: "graph_run (two_graph [1])"
proof -
  let ?g1 = "empty_graph\<lparr>g_values := [demo_value 0 ''x'' Kind_input None], g_constants := [None], g_inputs := [0]\<rparr>"
  have "add_input ''x'' demo_spec empty_graph = Inr (0, ?g1)"
    using demo_inference(1) by (simp add: add_input_def require_unique_name_def empty_graph_def demo_value_def)
  then have 1: "graph_run ?g1" by (rule graph_run.new_input[OF graph_run.empty])
  have "mapE (node_input_spec ?g1) [0] = Inr [demo_spec]" by (simp add: node_input_spec_def empty_graph_def demo_value_def)
  then have "add_node ''r'' Op_ReLU [0] [] ?g1 = Inr (0, demo_graph [])"
    using demo_inference by (simp add: add_node_def require_unique_name_def empty_graph_def demo_value_def demo_graph_def)
  then have 2: "graph_run (demo_graph [])" by (rule graph_run.new_node[OF 1])
  have "mapE (node_input_spec (demo_graph [])) [0] = Inr [demo_spec]" by (simp add: node_input_spec_def demo_graph_def demo_value_def)
  then have "add_node ''s'' Op_Tanh [0] [] (demo_graph []) = Inr (1, two_graph [])"
    using demo_inference by (simp add: add_node_def require_unique_name_def demo_value_def demo_graph_def two_graph_def)
  then have 3: "graph_run (two_graph [])" by (rule graph_run.new_node[OF 2])
  have "mark_output 1 (two_graph []) = Inr (two_graph [1])" by (simp add: mark_output_def graph_value_at_def two_graph_def)
  then show ?thesis by (rule graph_run.new_output[OF 3])
qed

lemma two_model_ok: "model_ok no_heap two_model"
  unfolding two_model_def
  by (rule model_okI[OF graph_run_ok[OF two_graph_run] names_ok_run[OF two_graph_run]])
    (auto simp: two_graph_def constants_ok_def bindings_ok_def demo_value_def nth_Cons split: nat.splits)

text \<open>The pass on it, step by step.\<close>

abbreviation two_started :: rewriter where
  "two_started \<equiv> \<lparr>rw_source = two_model, rw_graph = empty_graph\<lparr>g_values := [demo_value 0 ''x'' Kind_input None],
      g_constants := [None], g_inputs := [0]\<rparr>, rw_mapping = [Some 0, None, None], rw_finished = False, rw_heap = no_heap\<rparr>"

abbreviation two_copied :: "nat list \<Rightarrow> bool \<Rightarrow> rewriter" where
  "two_copied outs b \<equiv> \<lparr>rw_source = two_model, rw_graph = demo_graph outs, rw_mapping = [Some 0, Some 1, None], rw_finished = b, rw_heap = no_heap\<rparr>"

definition one_model :: model where
  "one_model = \<lparr>m_graph = demo_graph [1], m_inputs = [(''x'', 0)], m_outputs = [(''y'', 1)]\<rparr>"

lemma two_model_optimized:
  "dead_code_run two_model no_heap = Inr (\<lparr>or_model = one_model, or_mapping = [Some 0, Some 1, None],
     or_statistics = [\<lparr>ps_pass_name = ''DeadCodeEliminationPass'', ps_nodes_before = 2, ps_nodes_after = 1, ps_values_before = 3, ps_values_after = 2,
       ps_nodes_rewritten = 1, ps_changed = True\<rparr>]\<rparr>, no_heap)"
proof -
  have g: "m_graph two_model = two_graph [1]" "g_outputs (two_graph [1]) = [1]" "length (g_values (two_graph [1])) = 3" "length (g_nodes (two_graph [1])) = 2"
    "m_graph one_model = demo_graph [1]" "length (g_values (demo_graph [1])) = 2" "length (g_nodes (demo_graph [1])) = 1"
    "rev [1::nat] = [1]" "replicate 3 False = [False, False, False]" "replicate 2 False = [False, False]"
    by (simp_all add: two_model_def one_model_def two_graph_def demo_graph_def numeral_3_eq_3 numeral_2_eq_2)
  have order: "topological_order (two_graph [1]) = Inr [0, 1]" using model_okD(7)[OF two_model_ok] by (simp add: two_model_def two_graph_def upt_rec)
  have valid: "validate_graph (demo_graph [1]) = Inr ()"
    using built_order[OF graph_run_ok[OF demo_graph_run]] by (simp add: validate_graph_def demo_graph_def)
  have live: "live_loop (two_graph [1]) [1] [False, False, False] [False, False] = Inr ([True, True, False], [True, False])"
    by (simp add: two_graph_def graph_value_at_def graph_node_def demo_value_def)
  have rw: "mk_rewriter two_model no_heap = Inr two_started"
    using demo_inference(1) by (simp add: mk_rewriter_def two_model_def two_graph_def map_input_def graph_value_at_def add_input_def
      require_unique_name_def empty_graph_def demo_value_def numeral_3_eq_3)
  have "copy_node 0 two_started = Inr (0, two_copied [] False)"
    using demo_inference by (simp add: copy_node_def replace_node_def graph_node_def two_model_def two_graph_def copy_value_def graph_value_at_def
      add_node_def require_unique_name_def empty_graph_def demo_value_def demo_graph_def node_input_spec_def map_output_def)
  then have loop: "foldE (copy_live [True, False]) [0, 1] two_started = Inr (two_copied [] False)" by (simp add: copy_live_def)
  have missing: "foldE copy_missing [1] (two_copied [] False) = Inr (two_copied [] False)" by (simp add: copy_missing_def)
  have fin: "finish_rewrite (two_copied [] False) = Inr (one_model, two_copied [1] True)"
    using valid by (simp add: finish_rewrite_def one_model_def two_model_def mapped_binding_def finish_output_def mark_output_def demo_graph_def graph_value_at_def
      mk_model_def require_unique_names_def bind_input_def bind_output_def demo_value_def)
  show ?thesis unfolding dead_code_run_def Let_def g(1-4,8-10) live bindE_Inr prod.case rw order loop missing fin using g(5-7) by simp
qed

definition demo_meaning :: "int meaning" where
  "demo_meaning = \<lparr>mn_op = (\<lambda>op _ vs. case op of Op_Add \<Rightarrow> sum_list vs | Op_MatMul \<Rightarrow> prod_list vs
      | Op_Gemm \<Rightarrow> (if length vs = 3 then vs ! 0 * vs ! 1 + vs ! 2 else 0) | Op_ReLU \<Rightarrow> max 0 (hd vs)
      | Op_FusedGemmActivation \<Rightarrow> max 0 (if length vs = 3 then vs ! 0 * vs ! 1 + vs ! 2 else 0) | _ \<Rightarrow> 0),
     mn_constant = (\<lambda>_. 0), mn_input = (\<lambda>_. 5)\<rparr>"

text \<open>
  C10: dead code elimination keeps what the outputs need and nothing else. On a well-formed model the pass either
  fails because a constant could not be copied, or returns a well-formed model with the same named inputs and
  outputs in which every kept value has the name, the specification and, for any meaning of the operators, the
  value it had. A value is kept exactly when it is a graph input or some output depends on it, and the nodes
  left are exactly those that compute such a value.
\<close>

theorem dead_code_eliminated:
  assumes "model_ok h m"
  shows "case dead_code_run m h of Inl e \<Rightarrow> copy_failure e
     | Inr (r, h') \<Rightarrow> pass_result M h m ''DeadCodeEliminationPass'' (r, h') \<and>
         (\<forall>i < length (g_values (m_graph m)). or_mapping r ! i \<noteq> None \<longleftrightarrow> i \<in> set (g_inputs (m_graph m)) \<or> needed (m_graph m) i) \<and>
         length (g_nodes (m_graph (or_model r))) = card {p. p < length (g_nodes (m_graph m)) \<and> needed (m_graph m) (out_of (m_graph m) p)}"
  using dead_code_ok[OF assms, of M] by (auto simp: outcome_def split: sum.splits)

theorem dead_code_eliminated_witness:
  "\<exists>r h'. dead_code_run two_model no_heap = Inr (r, h') \<and> or_mapping r = [Some 0, Some 1, None] \<and>
     pass_result demo_meaning no_heap two_model ''DeadCodeEliminationPass'' (r, h') \<and> \<not> needed (two_graph [1]) 2 \<and>
     card {p. p < 2 \<and> needed (two_graph [1]) (out_of (two_graph [1]) p)} = 1"
proof -
  have g: "m_graph two_model = two_graph [1]" "length (g_values (two_graph [1])) = 3" "length (g_nodes (two_graph [1])) = 2" "g_inputs (two_graph [1]) = [0]"
    "length (g_nodes (m_graph one_model)) = 1"
    by (simp_all add: two_model_def two_graph_def one_model_def demo_graph_def)
  have "pass_result demo_meaning no_heap two_model ''DeadCodeEliminationPass'' (r, no_heap) \<and>
     (\<forall>i < 3. or_mapping r ! i \<noteq> None \<longleftrightarrow> i \<in> {0} \<or> needed (two_graph [1]) i) \<and>
     1 = card {p. p < 2 \<and> needed (two_graph [1]) (out_of (two_graph [1]) p)}"
    if "dead_code_run two_model no_heap = Inr (r, no_heap)" "or_model r = one_model" for r
    using dead_code_eliminated[OF two_model_ok, of demo_meaning] that g by simp
  then show ?thesis by (auto simp: two_model_optimized dest: spec[of _ 2])
qed

end
