(* ===== verification/Fusion.thy ===== *)
theory Fusion
  imports Dead_Code
begin

text \<open>
  Fusing two nodes into one: a node whose output has one consumer and is no graph output is dropped, and its consumer is
  replaced by a node that computes both. The lemmas hold for any such fusion; the two passes of the optimizer are
  instances, and sound for every meaning of the operators that makes the fused operator what its name says.
\<close>

section \<open>Plans that fuse\<close>

text \<open>What replaces a node: the producer that is dropped, and the fused node.\<close>

type_synonym fusion = "nat \<times> op_type \<times> nat list \<times> node_attributes"

definition fusion_ok :: "'v meaning \<Rightarrow> heap \<Rightarrow> graph \<Rightarrow> (nat \<Rightarrow> fusion option) \<Rightarrow> bool" where
  "fusion_ok M h g cand \<longleftrightarrow> (\<forall>j < length (g_nodes g). \<forall>p op is attrs. cand j = Some (p, op, is, attrs) \<longrightarrow>
     p < j \<and> cand p = None \<and> out_of g p \<notin> set (g_outputs g) \<and>
     (\<forall>k < length (g_nodes g). out_of g p \<in> set (nd_inputs (g_nodes g ! k)) \<longrightarrow> k = j) \<and>
     (\<forall>i \<in> set is. (i \<in> set (nd_inputs (g_nodes g ! p)) \<or> i \<in> set (nd_inputs (g_nodes g ! j))) \<and> i \<noteq> out_of g p) \<and>
     infer_output_specs op (map (\<lambda>i. gv_spec (g_values g ! i)) is) attrs = Inr [gv_spec (g_values g ! out_of g j)] \<and>
     (\<forall>v. denotes M h g (out_of g j) v \<longrightarrow>
        (\<exists>ws. length ws = length is \<and> (\<forall>k < length ws. denotes M h g (is ! k) (ws ! k)) \<and> v = mn_op M op attrs ws)))"

lemma fusion_okD:
  assumes "fusion_ok M h g cand" and "j < length (g_nodes g)" and "cand j = Some (p, op, is, attrs)"
  shows "p < j" "cand p = None" "out_of g p \<notin> set (g_outputs g)"
    "k < length (g_nodes g) \<Longrightarrow> out_of g p \<in> set (nd_inputs (g_nodes g ! k)) \<Longrightarrow> k = j"
    "i \<in> set is \<Longrightarrow> i \<in> set (nd_inputs (g_nodes g ! p)) \<or> i \<in> set (nd_inputs (g_nodes g ! j))" "i \<in> set is \<Longrightarrow> i \<noteq> out_of g p"
    "infer_output_specs op (map (\<lambda>i. gv_spec (g_values g ! i)) is) attrs = Inr [gv_spec (g_values g ! out_of g j)]"
    "denotes M h g (out_of g j) v \<Longrightarrow> \<exists>ws. length ws = length is \<and> (\<forall>k < length ws. denotes M h g (is ! k) (ws ! k)) \<and> v = mn_op M op attrs ws"
  using assms unfolding fusion_ok_def by blast+

definition dropped :: "graph \<Rightarrow> (nat \<Rightarrow> fusion option) \<Rightarrow> nat \<Rightarrow> bool" where
  "dropped g cand p \<longleftrightarrow> (\<exists>j < length (g_nodes g). \<exists>op is attrs. cand j = Some (p, op, is, attrs))"

definition fusion_plan :: "graph \<Rightarrow> (nat \<Rightarrow> fusion option) \<Rightarrow> node_plan" where
  "fusion_plan g cand k = (if dropped g cand k then None else case cand k of None \<Rightarrow> Some (keep g k) | Some (_, fused) \<Rightarrow> Some fused)"

lemma fusion_plan_kept: "\<not> dropped g cand q \<Longrightarrow> fusion_plan g cand q \<noteq> None"
  by (simp add: fusion_plan_def del: not_None_eq split: option.split prod.split)

lemma fusion_plan_ok:
  assumes ok: "graph_ok g" and F: "fusion_ok M h g cand"
  shows "plan_ok M h g (fusion_plan g cand)"
  unfolding plan_ok_def
proof (intro allI impI)
  fix j op "is" attrs assume j: "j < length (g_nodes g)" and plan: "fusion_plan g cand j = Some (op, is, attrs)"
  have nd: "\<not> dropped g cand j" using plan by (auto simp: fusion_plan_def)
  show "(\<forall>i \<in> set is. i < length (g_values g) \<and> (\<forall>q. gv_producer (g_values g ! i) = Some q \<longrightarrow> q < j \<and> fusion_plan g cand q \<noteq> None)) \<and>
     infer_output_specs op (map (\<lambda>i. gv_spec (g_values g ! i)) is) attrs = Inr [gv_spec (g_values g ! out_of g j)] \<and>
     (\<forall>v. denotes M h g (out_of g j) v \<longrightarrow>
        (\<exists>ws. length ws = length is \<and> (\<forall>k < length ws. denotes M h g (is ! k) (ws ! k)) \<and> v = mn_op M op attrs ws))"
  proof (cases "cand j")
    case None
    have own: "op = nd_op (g_nodes g ! j)" "is = nd_inputs (g_nodes g ! j)" "attrs = nd_attributes (g_nodes g ! j)"
      using plan nd None by (simp_all add: fusion_plan_def keep_def)
    note K = keep_meaning[OF ok j]
    have A: "\<forall>i \<in> set is. i < length (g_values g) \<and> (\<forall>q. gv_producer (g_values g ! i) = Some q \<longrightarrow> q < j \<and> fusion_plan g cand q \<noteq> None)"
    proof (intro ballI conjI allI impI)
      fix i assume i: "i \<in> set is"
      then show il: "i < length (g_values g)" using K(2) own(2) by blast
      fix q assume q: "gv_producer (g_values g ! i) = Some q"
      then show "q < j" using K(2) own(2) i by blast
      show "fusion_plan g cand q \<noteq> None"
      proof (rule fusion_plan_kept, rule notI)
        assume "dropped g cand q"
        then obtain k op' is' attrs' where k: "k < length (g_nodes g)" "cand k = Some (q, op', is', attrs')" unfolding dropped_def by blast
        have "j = k" by (rule fusion_okD(4)[OF F k j]) (use i own(2) intermediate_producer(2)[OF ok il q] in simp)
        then show False using k(2) None by simp
      qed
    qed
    have B: "infer_output_specs op (map (\<lambda>i. gv_spec (g_values g ! i)) is) attrs = Inr [gv_spec (g_values g ! out_of g j)]"
      unfolding own by (rule K(1))
    have C: "\<forall>v. denotes M h g (out_of g j) v \<longrightarrow>
        (\<exists>ws. length ws = length is \<and> (\<forall>k < length ws. denotes M h g (is ! k) (ws ! k)) \<and> v = mn_op M op attrs ws)"
      unfolding own by (intro allI impI K(3))
    show ?thesis by (intro conjI A B C)
  next
    case (Some f)
    obtain p where c: "cand j = Some (p, op, is, attrs)" using plan nd Some by (cases f) (auto simp: fusion_plan_def)
    note C = fusion_okD[OF F j c]
    have pj: "p < length (g_nodes g)" using C(1) j by simp
    have A: "\<forall>i \<in> set is. i < length (g_values g) \<and> (\<forall>q. gv_producer (g_values g ! i) = Some q \<longrightarrow> q < j \<and> fusion_plan g cand q \<noteq> None)"
    proof (intro ballI conjI allI impI)
      fix i assume i: "i \<in> set is"
      have from_p: "i < length (g_values g) \<and> (\<forall>q. gv_producer (g_values g ! i) = Some q \<longrightarrow> q < j)"
        using C(5)[OF i] keep_meaning(2)[OF ok pj, of i] keep_meaning(2)[OF ok j, of i] C(1) by fastforce
      then show il: "i < length (g_values g)" by simp
      fix q assume q: "gv_producer (g_values g ! i) = Some q"
      then show "q < j" using from_p by simp
      have iq: "i = out_of g q" by (rule intermediate_producer(2)[OF ok il q])
      show "fusion_plan g cand q \<noteq> None"
      proof (rule fusion_plan_kept, rule notI)
        assume "dropped g cand q"
        then obtain k op' is' attrs' where k: "k < length (g_nodes g)" "cand k = Some (q, op', is', attrs')" unfolding dropped_def by blast
        from C(5)[OF i] show False
        proof
          assume "i \<in> set (nd_inputs (g_nodes g ! p))"
          then have "p = k" using fusion_okD(4)[OF F k pj] iq by simp
          then show False using C(2) k(2) by simp
        next
          assume "i \<in> set (nd_inputs (g_nodes g ! j))"
          then have "j = k" using fusion_okD(4)[OF F k j] iq by simp
          then show False using c k(2) C(6)[OF i] iq by simp
        qed
      qed
    qed
    show ?thesis by (intro conjI A C(7) allI impI C(8))
  qed
qed

lemma fusion_outputs:
  assumes ok: "graph_ok g" and F: "fusion_ok M h g cand"
  shows "\<forall>i \<in> set (g_outputs g). \<forall>p. gv_producer (g_values g ! i) = Some p \<longrightarrow> fusion_plan g cand p \<noteq> None"
proof (intro ballI allI impI)
  fix i p assume i: "i \<in> set (g_outputs g)" and p: "gv_producer (g_values g ! i) = Some p"
  have "i < length (g_values g)" using ok i by (simp add: graph_ok_def)
  then have "i = out_of g p" using intermediate_producer(2)[OF ok _ p] by simp
  then have "\<not> dropped g cand p" using fusion_okD(3)[OF F] i unfolding dropped_def by blast
  then show "fusion_plan g cand p \<noteq> None" by (rule fusion_plan_kept)
qed

section \<open>Inference throws only what the passes catch\<close>

definition handled :: "'a result \<Rightarrow> bool" where
  "handled r \<longleftrightarrow> (case r of Inl e \<Rightarrow> no_match e | Inr _ \<Rightarrow> True)"

lemma handled_simps [simp]: "handled (Inl e) = no_match e" "handled (Inr x)"
  by (simp_all add: handled_def)

lemma handled_bindE: "handled m \<Longrightarrow> (\<And>x. m = Inr x \<Longrightarrow> handled (f x)) \<Longrightarrow> handled (bindE m f)"
  by (cases m) simp_all

lemma handled_foldE: "(\<And>x s. x \<in> set xs \<Longrightarrow> handled (f x s)) \<Longrightarrow> handled (foldE f xs s)"
  by (induction xs arbitrary: s) (auto intro: handled_bindE)

lemma handled_mapE: "(\<And>x. x \<in> set xs \<Longrightarrow> handled (f x)) \<Longrightarrow> handled (mapE f xs)"
  by (induction xs) (auto intro!: handled_bindE)

lemma handled_checked: "handled (checked_multiply a b m)" "handled (checked_add a b m)"
  by (simp_all add: checked_multiply_def checked_add_def)

lemma handled_contiguous: "handled (contiguous_loop ds r acc)"
  by (induction ds r acc rule: contiguous_loop.induct) (auto intro!: handled_bindE handled_checked)

lemma handled_layout: "handled (mk_layout s)"
  unfolding mk_layout_def
  by (intro handled_bindE)
    (auto simp: validate_shape_def checked_numel_def make_contiguous_strides_def intro!: handled_foldE handled_checked handled_contiguous)

lemma handled_iterator: "handled (mk_iterator ls)"
proof -
  have "handled (broadcast_shape ls)"
    by (auto simp: broadcast_shape_def Let_def broadcast_operand_def broadcast_extent_def intro!: handled_foldE handled_bindE handled_mapE)
  moreover have "handled (broadcast_strides sh l)" for sh l
    by (auto simp: broadcast_strides_def broadcast_stride_def Let_def intro!: handled_bindE handled_mapE)
  ultimately show ?thesis unfolding mk_iterator_def
    by (auto intro!: handled_bindE handled_layout handled_mapE split: prod.splits)
qed

text \<open>A validated attribute has the type its schema gives it.\<close>

lemma validated_type:
  assumes "validate_attributes s attrs = Inr u" and "map_of attrs name = Some v" and "find (\<lambda>a. as_name a = name) (os_attributes s) = Some a"
  shows "attribute_type_of v = as_type a"
proof -
  have "(name, v) \<in> set attrs" using assms(2) by (rule map_of_SomeD)
  moreover have "\<forall>e \<in> set attrs. validate_attribute s e = Inr ()" using assms(1) by (auto simp: validate_attributes_def foldE_unit)
  ultimately have "validate_attribute s (name, v) = Inr ()" by blast
  then show ?thesis using assms(3) by (auto simp: validate_attribute_def split: if_splits)
qed

lemma handled_attributes: "handled (validate_attributes s attrs)"
  by (auto simp: validate_attributes_def validate_attribute_def intro!: handled_bindE handled_foldE split: option.splits)

lemma gemm_integer:
  assumes s: "operator_schema op = Inr s" "op \<in> {Op_Gemm, Op_FusedGemmActivation}" and v: "validate_attributes s attrs = Inr u"
    and n: "name \<in> {''transA'', ''transB''}"
  shows "handled (integer_attribute attrs name)"
proof (cases "map_of attrs name")
  case None
  then show ?thesis by (simp add: integer_attribute_def)
next
  case (Some x)
  have "find (\<lambda>a. as_name a = name) (os_attributes s) = Some (optional_attr name Type_integer)"
    using s n by (auto simp: gemm_attributes_def)
  from validated_type[OF v Some this] have "attribute_type_of x = Type_integer" by simp
  then show ?thesis using Some by (cases x) (simp_all add: integer_attribute_def)
qed

lemma gemm_activation_attribute:
  assumes v: "validate_attributes s attrs = Inr u" and s: "operator_schema Op_FusedGemmActivation = Inr s"
  shows "handled (case map_of attrs ''activation'' of None \<Rightarrow> Inl (Out_of_range ''map::at'') | Some v \<Rightarrow> get_string v)"
proof (cases "map_of attrs ''activation''")
  case (Some x)
  have "find (\<lambda>a. as_name a = ''activation'') (os_attributes s) = Some \<lparr>as_name = ''activation'', as_type = Type_string, as_required = True\<rparr>"
    using s by (auto simp: gemm_attributes_def)
  from validated_type[OF v Some this] have "attribute_type_of x = Type_string" by simp
  then show ?thesis using Some by (cases x) simp_all
qed simp

lemma handled_gemm:
  assumes "op \<in> {Op_Gemm, Op_FusedGemmActivation}"
  shows "handled (infer_output_specs op specs attrs)"
proof -
  obtain s where s: "operator_schema op = Inr s" using assms by auto
  have validate: "handled (validate_spec x)" for x
    by (auto simp: validate_spec_def size_bytes_def intro!: handled_bindE handled_layout handled_checked)
  have shape: "handled (iterator_shape xs)" for xs
    by (auto simp: iterator_shape_def intro!: handled_bindE handled_mapE handled_layout handled_iterator)
  have gemm: "handled (infer_gemm op specs attrs)" if v: "validate_attributes s attrs = Inr u" for u
  proof -
    have act: "handled (if op = Op_FusedGemmActivation
            then bindE (case map_of attrs ''activation'' of None \<Rightarrow> Inl (Out_of_range ''map::at'') | Some v \<Rightarrow> get_string v)
                   (\<lambda>s. if s \<noteq> ''relu'' then Inl (Invalid_argument ''FusedGemmActivation currently supports only relu'') else Inr ())
            else Inr ())"
      using gemm_activation_attribute[OF v] s by (auto intro!: handled_bindE)
    show ?thesis unfolding infer_gemm_def Let_def
      by (rule handled_bindE[OF act]) (auto intro!: handled_bindE shape gemm_integer[OF s assms v])
  qed
  have "infer_dispatch op specs attrs = infer_gemm op specs attrs" using assms by auto
  then show ?thesis unfolding infer_output_specs_def s bindE_Inr
    by (auto simp: require_float32_def intro!: handled_bindE handled_foldE validate handled_attributes gemm)
qed

end
