(* ===== verification/Fusion_Passes.thy ===== *)
theory Fusion_Passes
  imports Fusion
begin

text \<open>
  The two fusion passes: their matching loops collect well-formed fusions, so each rebuilds an equivalent model.
\<close>

section \<open>The loops both passes share\<close>

definition match_step :: "(node \<Rightarrow> 'c option result) \<Rightarrow> ('c \<Rightarrow> nat) \<Rightarrow> node \<Rightarrow> 'c option list \<times> bool list \<times> nat \<Rightarrow> ('c option list \<times> bool list \<times> nat) result" where
  "match_step mt producer n s = (case s of (candidates, removed, found) \<Rightarrow>
     bindE (mt n) (\<lambda>candidate. case candidate of None \<Rightarrow> Inr s
       | Some c \<Rightarrow> Inr (candidates[nd_id n := Some c], removed[producer c := True], Suc found)))"

lemma match_steps: "match_node g ga = match_step (match_matmul_add g ga) mc_matmul" "match_activation g ga = match_step (match_gemm_relu g ga) gc_gemm"
  by (rule ext, rule ext, simp add: match_node_def match_step_def) (rule ext, rule ext, simp add: match_activation_def match_step_def)

definition matched :: "(node \<Rightarrow> 'c option result) \<Rightarrow> ('c \<Rightarrow> nat) \<Rightarrow> node list \<Rightarrow> nat \<Rightarrow> 'c option list \<times> bool list \<times> nat \<Rightarrow> bool" where
  "matched mt producer ns k s \<longleftrightarrow> (case s of (candidates, removed, found) \<Rightarrow>
     length candidates = length ns \<and> length removed = length ns \<and>
     (\<forall>j < length ns. if j < k then mt (ns ! j) = Inr (candidates ! j) else candidates ! j = None) \<and>
     (\<forall>p < length ns. removed ! p \<longleftrightarrow> (\<exists>j < k. \<exists>c. candidates ! j = Some c \<and> producer c = p)))"

lemma matched_step:
  assumes k: "k < length ns" and id: "nd_id (ns ! k) = k" and r: "mt (ns ! k) = Inr r" "\<forall>c. r = Some c \<longrightarrow> producer c < length ns"
    and s: "matched mt producer ns k s"
  shows "outcome Q (matched mt producer ns (Suc k)) (match_step mt producer (ns ! k) s)"
proof -
  obtain cs rs found where [simp]: "s = (cs, rs, found)" by (cases s)
  have M: "length cs = length ns" "length rs = length ns" "cs ! k = None"
    "\<And>j. j < k \<Longrightarrow> mt (ns ! j) = Inr (cs ! j)" "\<And>j. j < length ns \<Longrightarrow> k \<le> j \<Longrightarrow> cs ! j = None"
    "\<And>p. p < length ns \<Longrightarrow> rs ! p \<longleftrightarrow> (\<exists>j < k. \<exists>c. cs ! j = Some c \<and> producer c = p)"
    using s k by (auto simp: matched_def split: if_splits)
  show ?thesis
  proof (cases r)
    case None
    then show ?thesis using M r(1) by (auto simp: match_step_def matched_def less_Suc_eq)
  next
    case (Some c)
    have p: "producer c < length ns" using r(2) Some by simp
    have "if j < Suc k then mt (ns ! j) = Inr (cs[k := Some c] ! j) else cs[k := Some c] ! j = None" if "j < length ns" for j
      using M(4)[of j] M(5)[of j] that r(1) Some M(1) by (cases "j = k") (auto simp: less_Suc_eq)
    moreover have "rs[producer c := True] ! q \<longleftrightarrow> (\<exists>j < Suc k. \<exists>d. cs[k := Some c] ! j = Some d \<and> producer d = q)" if q: "q < length ns" for q
    proof -
      have "(\<exists>j < Suc k. \<exists>d. cs[k := Some c] ! j = Some d \<and> producer d = q) \<longleftrightarrow> producer c = q \<or> (\<exists>j < k. \<exists>d. cs ! j = Some d \<and> producer d = q)"
        using k M(1) by (auto simp: less_Suc_eq)
      then show ?thesis using M(2) M(6)[OF q] p q by (cases "q = producer c") auto
    qed
    ultimately show ?thesis using M(1,2,5) r(1) id Some by (simp add: match_step_def matched_def)
  qed
qed

lemma match_loop:
  assumes "\<And>k. k < length ns \<Longrightarrow> nd_id (ns ! k) = k" and "\<And>k. k < length ns \<Longrightarrow> \<exists>r. mt (ns ! k) = Inr r \<and> (\<forall>c. r = Some c \<longrightarrow> producer c < length ns)"
  shows "\<exists>cs rs found. foldE (match_step mt producer) ns (replicate (length ns) None, replicate (length ns) False, 0) = Inr (cs, rs, found) \<and>
    length cs = length ns \<and> (\<forall>j < length ns. mt (ns ! j) = Inr (cs ! j)) \<and>
    (\<forall>p < length ns. rs ! p \<longleftrightarrow> (\<exists>j < length ns. \<exists>c. cs ! j = Some c \<and> producer c = p))"
proof -
  have "matched mt producer ns 0 (replicate (length ns) None, replicate (length ns) False, 0)" by (simp add: matched_def)
  then have "outcome (\<lambda>_. False) (matched mt producer ns (length ns))
      (foldE (match_step mt producer) ns (replicate (length ns) None, replicate (length ns) False, 0))"
    by (rule outcome_foldE[where P = "matched mt producer ns", rotated]) (use assms matched_step in blast)
  then show ?thesis by (auto simp: outcome_def matched_def split: sum.splits)
qed

text \<open>The loop over the nodes, for a step that acts as the fusion says.\<close>

definition acts_as :: "(nat \<Rightarrow> rewriter \<times> nat \<Rightarrow> (rewriter \<times> nat) result) \<Rightarrow> graph \<Rightarrow> (nat \<Rightarrow> fusion option) \<Rightarrow> bool" where
  "acts_as f g cand \<longleftrightarrow> (\<forall>k < length (g_nodes g). \<forall>rw c. f k (rw, c) =
     (if dropped g cand k then Inr (rw, c)
      else case cand k of
        Some (p, op, is, attrs) \<Rightarrow> bindE (replace_node k op is attrs rw) (\<lambda>(_, rw'). Inr (rw', Suc c))
      | None \<Rightarrow> bindE (copy_node k rw) (\<lambda>(_, rw'). Inr (rw', c))))"

lemma fusion_step:
  assumes ok: "model_ok h m" and F: "fusion_ok M h (m_graph m) cand" and f: "acts_as f (m_graph m) cand"
    and k: "k < length (g_nodes (m_graph m))" and inv: "plan_inv M h m (fusion_plan (m_graph m) cand) k (fst s)"
  shows "outcome copy_failure (\<lambda>s'. plan_inv M h m (fusion_plan (m_graph m) cand) (Suc k) (fst s')) (f k s)"
proof -
  let ?g = "m_graph m"
  obtain rw c where s: "s = (rw, c)" by (cases s)
  have f': "f k (rw, c) = (if dropped ?g cand k then Inr (rw, c)
      else case cand k of
        Some (p, op, is, attrs) \<Rightarrow> bindE (replace_node k op is attrs rw) (\<lambda>(_, rw'). Inr (rw', Suc c))
      | None \<Rightarrow> bindE (copy_node k rw) (\<lambda>(_, rw'). Inr (rw', c)))" using f k by (simp add: acts_as_def)
  note step = plan_step[OF ok fusion_plan_ok[OF model_okD(1)[OF ok] F] inv k]
  show ?thesis
  proof (cases "dropped ?g cand k")
    case True
    then show ?thesis using plan_skip[OF inv] by (simp add: s f' fusion_plan_def)
  next
    case False
    show ?thesis
    proof (cases "cand k")
      case None
      obtain op "is" attrs where kp: "keep ?g k = (op, is, attrs)" by (metis surj_pair)
      have rw: "rw_ok M h m rw" using inv s by (simp add: plan_inv_def)
      have "fusion_plan ?g cand k = Some (op, is, attrs)" using False None kp by (simp add: fusion_plan_def)
      from step[OF this] show ?thesis
        using False None copy_node_keep[OF rw k kp] by (cases "replace_node k op is attrs rw") (auto simp: s f')
    next
      case (Some x)
      obtain p op "is" attrs where c: "cand k = Some (p, op, is, attrs)" using Some by (cases x) auto
      have "fusion_plan ?g cand k = Some (op, is, attrs)" using False c by (simp add: fusion_plan_def)
      from step[OF this] show ?thesis using False c by (cases "replace_node k op is attrs rw") (auto simp: s f')
    qed
  qed
qed

lemma copy_constant_ok:
  assumes ok: "model_ok h m" and rw: "rw_ok M h m rw" and i: "i < length (g_values (m_graph m))"
  shows "outcome copy_failure (\<lambda>rw'. \<exists>A. copied M h m rw rw' A 0) (copy_constant (m_graph m) (g_values (m_graph m) ! i) rw)"
proof -
  have id: "gv_id (g_values (m_graph m) ! i) = i" using model_okD(1)[OF ok] i by (simp add: graph_ok_def value_ok_def Let_def)
  show ?thesis
  proof (cases "gv_kind (g_values (m_graph m) ! i) = Kind_constant \<and> rw_mapping rw ! i = None")
    case True
    have "copyable rw i" using True i rw_okD(1)[OF rw] by (simp add: copyable_def)
    from copy_missing_ok[OF ok rw this] True show ?thesis
      by (cases "copy_value i rw") (auto simp: copy_missing_def copy_constant_def id)
  next
    case False
    have "copied M h m rw rw {} 0" using rw by (simp add: copied_def)
    then show ?thesis using False by (auto simp: copy_constant_def id)
  qed
qed

lemma copy_constants_fold:
  assumes ok: "model_ok h m" and rw: "rw_ok M h m rw" and vs: "\<forall>v \<in> set vs. \<exists>i < length (g_values (m_graph m)). v = g_values (m_graph m) ! i"
  shows "outcome copy_failure (\<lambda>rw'. \<exists>A. copied M h m rw rw' A 0) (foldE (copy_constant (m_graph m)) vs rw)"
  using rw vs
proof (induction vs arbitrary: rw)
  case Nil
  then show ?case by (auto simp: copied_def)
next
  case (Cons v vs)
  obtain i where i: "i < length (g_values (m_graph m))" "v = g_values (m_graph m) ! i" using Cons.prems(2) by auto
  show ?case unfolding foldE.simps
  proof (rule outcome_bindE[OF copy_constant_ok[OF ok Cons.prems(1) i(1), folded i(2)]])
    fix rw1 assume "\<exists>A. copied M h m rw rw1 A 0"
    then obtain A where A: "copied M h m rw rw1 A 0" ..
    then have "rw_ok M h m rw1" by (simp add: copied_def)
    from Cons.IH[OF this] Cons.prems(2)
    have "outcome copy_failure (\<lambda>rw'. \<exists>A. copied M h m rw1 rw' A 0) (foldE (copy_constant (m_graph m)) vs rw1)" by simp
    then show "outcome copy_failure (\<lambda>rw'. \<exists>A. copied M h m rw rw' A 0) (foldE (copy_constant (m_graph m)) vs rw1)"
      by (rule outcome_mono) (use copied_trans[OF A] in fastforce)
  qed
qed

lemma fusion_run:
  assumes ok: "model_ok h m" and F: "fusion_ok M h (m_graph m) cand" and f: "acts_as f (m_graph m) cand"
  shows "outcome copy_failure (pass_result M h m name)
    (bindE (mk_rewriter m h) (\<lambda>rw. bindE (topological_order (m_graph m)) (\<lambda>order.
        bindE (foldE f order (rw, 0)) (\<lambda>(rw1, fused).
        bindE (foldE (copy_constant (m_graph m)) (g_values (m_graph m)) rw1) (\<lambda>rw2.
        bindE (foldE copy_missing (g_outputs (m_graph m)) rw2) (\<lambda>rw3.
        bindE (finish_rewrite rw3) (\<lambda>(optimized, rw4).
          Inr (\<lparr>or_model = optimized, or_mapping = rw_mapping rw3,
            or_statistics = [fusion_statistics name (m_graph m) (m_graph optimized) fused]\<rparr>, rw_heap rw4))))))))"
proof -
  let ?g = "m_graph m" and ?n = "length (g_nodes (m_graph m))"
  let ?plan = "fusion_plan ?g cand"
  note D = model_okD[OF ok]
  have loop: "outcome copy_failure (\<lambda>s. plan_inv M h m ?plan ?n (fst s)) (foldE f [0..<?n] (rw, 0))" if "plan_inv M h m ?plan 0 rw" for rw
  proof -
    have "outcome copy_failure (\<lambda>s. plan_inv M h m ?plan (length [0..<?n]) (fst s)) (foldE f [0..<?n] (rw, 0))"
      by (rule outcome_foldE[where P = "\<lambda>k s. plan_inv M h m ?plan k (fst s)"]) (use fusion_step[OF ok F f] that in simp_all)
    then show ?thesis by simp
  qed
  show ?thesis unfolding D(7) bindE_Inr
  proof (rule outcome_bindE[OF mk_rewriter_ok[OF ok, of M ?plan]], rule outcome_bindE[OF loop], assumption)
    fix rw and x :: "rewriter \<times> nat" assume "plan_inv M h m ?plan ?n (fst x)"
    then obtain rw1 fused where x: "x = (rw1, fused)" and inv: "plan_inv M h m ?plan ?n rw1" by (cases x) auto
    have rw1: "rw_ok M h m rw1" using inv by (simp add: plan_inv_def)
    note outs = plan_outputs[OF ok inv fusion_outputs[OF D(1) F]]
    have "\<forall>v \<in> set (g_values ?g). \<exists>i < length (g_values ?g). v = g_values ?g ! i" by (metis in_set_conv_nth)
    note constants = copy_constants_fold[OF ok rw1 this]
    have "outcome copy_failure (pass_result M h m name) (bindE (foldE (copy_constant ?g) (g_values ?g) rw1) (\<lambda>rw2.
        bindE (foldE copy_missing (g_outputs ?g) rw2) (\<lambda>rw3.
        bindE (finish_rewrite rw3) (\<lambda>(optimized, rw4).
          Inr (\<lparr>or_model = optimized, or_mapping = rw_mapping rw3,
            or_statistics = [fusion_statistics name ?g (m_graph optimized) fused]\<rparr>, rw_heap rw4)))))"
    proof (rule outcome_bindE[OF constants])
      fix rw2 assume "\<exists>A. copied M h m rw1 rw2 A 0"
      then have rw2: "rw_ok M h m rw2" and g: "grows rw1 rw2" by (auto simp: copied_def)
      have "\<forall>i \<in> set (g_outputs ?g). copyable rw2 i"
        using outs copyable_grows[OF g] rw_okD(1)[OF rw1] rw_okD(1)[OF rw2] by simp
      then show "outcome copy_failure (pass_result M h m name) (bindE (foldE copy_missing (g_outputs ?g) rw2) (\<lambda>rw3.
        bindE (finish_rewrite rw3) (\<lambda>(optimized, rw4).
          Inr (\<lparr>or_model = optimized, or_mapping = rw_mapping rw3,
            or_statistics = [fusion_statistics name ?g (m_graph optimized) fused]\<rparr>, rw_heap rw4))))"
        by (rule finish_plan[OF ok rw2]) (simp add: finished_def pass_result_def fusion_statistics_def)
    qed
    then show "outcome copy_failure (pass_result M h m name) (case x of (rw1, fused) \<Rightarrow>
        bindE (foldE (copy_constant ?g) (g_values ?g) rw1) (\<lambda>rw2.
        bindE (foldE copy_missing (g_outputs ?g) rw2) (\<lambda>rw3.
        bindE (finish_rewrite rw3) (\<lambda>(optimized, rw4).
          Inr (\<lparr>or_model = optimized, or_mapping = rw_mapping rw3,
            or_statistics = [fusion_statistics name ?g (m_graph optimized) fused]\<rparr>, rw_heap rw4)))))" by (simp add: x)
  qed
qed

section \<open>MatMul followed by Add\<close>

text \<open>What makes the first fusion correct: Gemm with unit factors is a product plus a bias.\<close>

definition matmul_add_law :: "'v meaning \<Rightarrow> bool" where
  "matmul_add_law M \<longleftrightarrow> (\<forall>a a' x y b. mn_op M Op_Add a [mn_op M Op_MatMul a' [x, y], b] = mn_op M Op_Gemm canonical_attributes [x, y, b] \<and>
     mn_op M Op_Add a [b, mn_op M Op_MatMul a' [x, y]] = mn_op M Op_Gemm canonical_attributes [x, y, b])"

lemma value_specs: "\<forall>i \<in> set is. i < length (g_values g) \<Longrightarrow> mapE (value_spec g) is = Inr (map (\<lambda>i. gv_spec (g_values g ! i)) is)"
  by (induction "is") (simp_all add: value_spec_def graph_value_at_def)

text \<open>Both passes ask the inference whether the fused node would have the specification of the node it replaces.\<close>

lemma inference_answer:
  assumes "op \<in> {Op_Gemm, Op_FusedGemmActivation}" and "i < length (g_values g)"
  shows "(case bindE (infer_output_specs op specs attrs) (\<lambda>inferred. bindE (value_spec g i) (\<lambda>expected. Inr (length inferred = 1 \<and> hd inferred = expected))) of
      Inl e \<Rightarrow> if no_match e then Inr None else Inl e | Inr fits \<Rightarrow> Inr (if fits then Some x else None)) =
    (Inr (if infer_output_specs op specs attrs = Inr [gv_spec (g_values g ! i)] then Some x else None) :: 'c option result)"
proof (cases "infer_output_specs op specs attrs")
  case (Inl e)
  then have "no_match e" using handled_gemm[OF assms(1), of specs attrs] by simp
  then show ?thesis using Inl by simp
next
  case (Inr outs)
  then obtain out where "outs = [out]" using infer_output_Inr by metis
  then show ?thesis using Inr assms(2) by (simp add: value_spec_def graph_value_at_def)
qed

lemma analysis_single_use:
  assumes k: "k < length (g_nodes g)" and f: "filter (\<lambda>j. v \<in> set (nd_inputs (g_nodes g ! j))) [0..<length (g_nodes g)] = [j]"
    and v: "v \<in> set (nd_inputs (g_nodes g ! k))"
  shows "k = j"
proof -
  have "k \<in> set (filter (\<lambda>j. v \<in> set (nd_inputs (g_nodes g ! j))) [0..<length (g_nodes g)])" using k v by simp
  then show ?thesis unfolding f by simp
qed

lemma length_one: "length xs = 1 \<and> hd xs = y \<longleftrightarrow> xs = [y]"
  by (cases xs) auto

text \<open>What a match of the first pattern means.\<close>

definition product_match :: "graph \<Rightarrow> nat \<Rightarrow> nat \<Rightarrow> nat list \<Rightarrow> bool" where
  "product_match g j p is \<longleftrightarrow> (\<exists>a b bias. is = [a, b, bias] \<and> p < length (g_nodes g) \<and> nd_op (g_nodes g ! j) = Op_Add \<and> nd_op (g_nodes g ! p) = Op_MatMul \<and>
     nd_inputs (g_nodes g ! p) = [a, b] \<and> nd_inputs (g_nodes g ! j) \<in> {[out_of g p, bias], [bias, out_of g p]} \<and> bias \<noteq> out_of g p \<and>
     out_of g p \<notin> set (g_outputs g) \<and> filter (\<lambda>j. out_of g p \<in> set (nd_inputs (g_nodes g ! j))) [0..<length (g_nodes g)] = [j] \<and>
     infer_output_specs Op_Gemm (map (\<lambda>i. gv_spec (g_values g ! i)) is) canonical_attributes = Inr [gv_spec (g_values g ! out_of g j)])"

definition analysed :: "graph \<Rightarrow> graph_analysis \<Rightarrow> bool" where
  "analysed g ga \<longleftrightarrow> (\<forall>v < length (g_values g).
     value_consumers ga v = Inr (filter (\<lambda>j. v \<in> set (nd_inputs (g_nodes g ! j))) [0..<length (g_nodes g)]) \<and>
     (\<exists>n. use_count ga v = Inr n) \<and> is_graph_output ga v = Inr (v \<in> set (g_outputs g)))"

lemma analysedD:
  assumes "analysed g ga" and "v < length (g_values g)"
  obtains n where "value_consumers ga v = Inr (filter (\<lambda>j. v \<in> set (nd_inputs (g_nodes g ! j))) [0..<length (g_nodes g)])"
    "use_count ga v = Inr n" "is_graph_output ga v = Inr (v \<in> set (g_outputs g))"
  using assms unfolding analysed_def by blast

lemma analysis_runs: "model_ok h m \<Longrightarrow> \<exists>ga. mk_analysis (m_graph m) = Inr ga \<and> analysed (m_graph m) ga"
  using analysis_tables[OF model_okD(1,4)] unfolding analysed_def by fastforce

lemma match_product_ok:
  assumes ok: "graph_ok g" and A: "analysed g ga" and j: "j < length (g_nodes g)" "nd_op (g_nodes g ! j) = Op_Add"
    and ins: "nd_inputs (g_nodes g ! j) = [x0, x1]" and index: "index < 2" and p: "gv_producer (g_values g ! ([x0, x1] ! index)) = Some p"
    and op: "nd_op (g_nodes g ! p) = Op_MatMul"
    and other: "\<forall>q. gv_producer (g_values g ! ([x0, x1] ! (1 - index))) = Some q \<longrightarrow> nd_op (g_nodes g ! q) \<noteq> Op_MatMul"
  shows "\<exists>r. match_product g ga (g_nodes g ! j) index p = Inr r \<and> (\<forall>c. r = Some c \<longrightarrow> mc_matmul c = p \<and> product_match g j p (mc_inputs c))"
proof -
  let ?x = "[x0, x1] ! index" and ?b = "[x0, x1] ! (1 - index)"
  have mem: "?x \<in> set (nd_inputs (g_nodes g ! j))" "?b \<in> set (nd_inputs (g_nodes g ! j))"
    using index by (simp_all add: ins less_2_cases_iff) auto
  note K = keep_meaning(2)[OF ok j(1)]
  have xl: "?x < length (g_values g)" and bl: "?b < length (g_values g)" using K mem by blast+
  have px: "p < length (g_nodes g)" "?x = out_of g p" using intermediate_producer(1,2)[OF ok xl p] by blast+
  have outp: "nd_outputs (g_nodes g ! p) = [out_of g p]" by (rule node_output(1)[OF ok px(1)])
  have outj: "nd_outputs (g_nodes g ! j) = [out_of g j]" "out_of g j < length (g_values g)" using node_output(1,2)[OF ok j(1)] by blast+
  have id: "nd_id (g_nodes g ! j) = j" using ok j(1) by (simp add: graph_ok_def node_ok_def Let_def)
  have bp: "?b \<noteq> out_of g p" using other node_output(4)[OF ok px(1)] op by auto
  have pair: "nd_inputs (g_nodes g ! j) \<in> {[out_of g p, ?b], [?b, out_of g p]}"
    using index px(2) by (auto simp: ins less_2_cases_iff)
  obtain n where N: "value_consumers ga ?x = Inr (filter (\<lambda>j. ?x \<in> set (nd_inputs (g_nodes g ! j))) [0..<length (g_nodes g)])"
    "use_count ga ?x = Inr n" "is_graph_output ga ?x = Inr (?x \<in> set (g_outputs g))" by (rule analysedD[OF A xl])
  let ?cs = "filter (\<lambda>j. ?x \<in> set (nd_inputs (g_nodes g ! j))) [0..<length (g_nodes g)]"
  have inp: "nd_inputs (g_nodes g ! j) ! index = ?x" "nd_inputs (g_nodes g ! j) ! (1 - index) = ?b" by (simp_all add: ins)
  have gp: "graph_node g p = Inr (g_nodes g ! p)" using px(1) by (simp add: graph_node_def)
  show ?thesis
  proof (cases "length (nd_inputs (g_nodes g ! p)) = 2 \<and> n = 1 \<and> ?x \<notin> set (g_outputs g) \<and> length ?cs = 1 \<and> hd ?cs = j")
    case False
    then have "match_product g ga (g_nodes g ! j) index p = Inr None"
      unfolding match_product_def Let_def gp inp bindE_Inr N id by (auto simp: outp px(2))
    then show ?thesis by simp
  next
    case True
    obtain a b where ab: "nd_inputs (g_nodes g ! p) = [a, b]" using True by (auto simp: length_Suc_conv numeral_2_eq_2)
    have abl: "a < length (g_values g)" "b < length (g_values g)" using keep_meaning(2)[OF ok px(1)] ab by simp_all
    let ?is = "[a, b, ?b]"
    have specs: "mapE (value_spec g) ?is = Inr (map (\<lambda>i. gv_spec (g_values g ! i)) ?is)" by (rule value_specs) (use abl bl in simp)
    let ?c = "\<lparr>mc_matmul = p, mc_inputs = ?is\<rparr>"
    let ?fits = "infer_output_specs Op_Gemm (map (\<lambda>i. gv_spec (g_values g ! i)) ?is) canonical_attributes = Inr [gv_spec (g_values g ! out_of g j)]"
    have tests: "(length (nd_inputs (g_nodes g ! p)) \<noteq> 2 \<or> length (nd_outputs (g_nodes g ! p)) \<noteq> 1 \<or> hd (nd_outputs (g_nodes g ! p)) \<noteq> ?x) = False"
      "(n \<noteq> 1) = False" "(?x \<in> set (g_outputs g)) = False" "(length ?cs \<noteq> 1 \<or> hd ?cs \<noteq> j) = False"
      "nd_inputs (g_nodes g ! p) ! 0 = a" "nd_inputs (g_nodes g ! p) ! 1 = b" "hd (nd_outputs (g_nodes g ! j)) = out_of g j"
      using True outp outj(1) px(2) by (simp_all add: ab)
    have "match_product g ga (g_nodes g ! j) index p = Inr (if ?fits then Some ?c else None)"
      unfolding match_product_def Let_def gp inp bindE_Inr tests(1) N id tests(2-) if_False specs
      by (rule inference_answer[OF _ outj(2)]) simp
    moreover have "product_match g j p ?is" if "?fits"
    proof -
      have "?cs = [j]" using True length_one by metis
      then show ?thesis unfolding product_match_def using that px j(2) op ab pair bp True by simp
    qed
    ultimately show ?thesis by simp
  qed
qed

lemma match_matmul_add_ok:
  assumes ok: "graph_ok g" and A: "analysed g ga" and j: "j < length (g_nodes g)"
  shows "\<exists>r. match_matmul_add g ga (g_nodes g ! j) = Inr r \<and> (\<forall>c. r = Some c \<longrightarrow> product_match g j (mc_matmul c) (mc_inputs c))"
proof (cases "nd_op (g_nodes g ! j) = Op_Add \<and> length (nd_inputs (g_nodes g ! j)) = 2")
  case False
  then show ?thesis by (auto simp: match_matmul_add_def)
next
  case True
  obtain x0 x1 where ins: "nd_inputs (g_nodes g ! j) = [x0, x1]" using True by (auto simp: length_Suc_conv numeral_2_eq_2)
  have xs: "x0 < length (g_values g)" "x1 < length (g_values g)" using keep_meaning(2)[OF ok j] ins by simp_all
  have gv: "graph_value_at g x0 = Inr (g_values g ! x0)" "graph_value_at g x1 = Inr (g_values g ! x1)" using xs by (simp_all add: graph_value_at_def)
  have gn: "graph_node g p = Inr (g_nodes g ! p)" if "gv_producer (g_values g ! x) = Some p" "x < length (g_values g)" for x p
    using intermediate_producer(1)[OF ok that(2,1)] by (simp add: graph_node_def)
  define prod where "prod x = (case gv_producer (g_values g ! x) of Some p \<Rightarrow> nd_op (g_nodes g ! p) = Op_MatMul | None \<Rightarrow> False)" for x
  have found: "find_product g [x0, x1] 0 None =
     Inr (if prod x0 \<and> prod x1 then None
          else Some (if prod x0 then Some (0, the (gv_producer (g_values g ! x0)))
                     else if prod x1 then Some (1, the (gv_producer (g_values g ! x1))) else None))"
    using gn[OF _ xs(1)] gn[OF _ xs(2)] by (simp add: gv prod_def split: option.splits)
  have out1: "length (nd_outputs (g_nodes g ! j)) = 1" using node_output(1)[OF ok j] by simp
  have start: "match_matmul_add g ga (g_nodes g ! j) = bindE (find_product g [x0, x1] 0 None) (\<lambda>found. case found of
          None \<Rightarrow> Inr None
        | Some None \<Rightarrow> Inr None
        | Some (Some (index, matmul_id)) \<Rightarrow> match_product g ga (g_nodes g ! j) index matmul_id)"
    using True out1 by (simp add: match_matmul_add_def ins)
  have use: "\<exists>r. match_product g ga (g_nodes g ! j) i p = Inr r \<and> (\<forall>c. r = Some c \<longrightarrow> product_match g j (mc_matmul c) (mc_inputs c))"
    if "i < 2" "gv_producer (g_values g ! ([x0, x1] ! i)) = Some p" "prod ([x0, x1] ! i)" "\<not> prod ([x0, x1] ! (1 - i))" for i p
  proof -
    have "nd_op (g_nodes g ! p) = Op_MatMul" using that(2,3) by (simp add: prod_def)
    moreover have "\<forall>q. gv_producer (g_values g ! ([x0, x1] ! (1 - i))) = Some q \<longrightarrow> nd_op (g_nodes g ! q) \<noteq> Op_MatMul"
      using that(4) by (auto simp: prod_def)
    ultimately show ?thesis using match_product_ok[OF ok A j conjunct1[OF True] ins that(1,2)] by metis
  qed
  show ?thesis
  proof (cases "prod x0 = prod x1")
    case eq: True
    then show ?thesis unfolding start found by (cases "prod x0") simp_all
  next
    case ne: False
    show ?thesis
    proof (cases "prod x0")
      case True
      then obtain p where p: "gv_producer (g_values g ! x0) = Some p" by (auto simp: prod_def split: option.splits)
      then show ?thesis unfolding start found using use[of 0 p] True ne by simp
    next
      case False
      then obtain p where p: "gv_producer (g_values g ! x1) = Some p" using ne by (auto simp: prod_def split: option.splits)
      then show ?thesis unfolding start found using use[of 1 p] False ne by simp
    qed
  qed
qed

lemma product_match_meaning:
  assumes ok: "graph_ok g" and law: "matmul_add_law M" and j: "j < length (g_nodes g)" and m: "product_match g j p is" and d: "denotes M h g (out_of g j) v"
  shows "\<exists>ws. length ws = length is \<and> (\<forall>k < length ws. denotes M h g (is ! k) (ws ! k)) \<and> v = mn_op M Op_Gemm canonical_attributes ws"
proof -
  obtain a b bias where m: "is = [a, b, bias]" "p < length (g_nodes g)" "nd_op (g_nodes g ! j) = Op_Add" "nd_op (g_nodes g ! p) = Op_MatMul"
    "nd_inputs (g_nodes g ! p) = [a, b]" "nd_inputs (g_nodes g ! j) \<in> {[out_of g p, bias], [bias, out_of g p]}"
    using m unfolding product_match_def by blast
  have "\<exists>x0 x1. nd_inputs (g_nodes g ! j) = [x0, x1]" using m(6) by blast
  then obtain x0 x1 where x: "nd_inputs (g_nodes g ! j) = [x0, x1]" by blast
  obtain ws where ws: "length ws = 2" "\<forall>k < length ws. denotes M h g ([x0, x1] ! k) (ws ! k)" "v = mn_op M Op_Add (nd_attributes (g_nodes g ! j)) ws"
    using keep_meaning(3)[OF ok j d] by (auto simp: x m(3) numeral_2_eq_2)
  then obtain w0 w1 where w: "ws = [w0, w1]" "denotes M h g x0 w0" "denotes M h g x1 w1"
    by (auto simp: length_Suc_conv numeral_2_eq_2 less_Suc_eq)
  have product: "\<exists>y z. denotes M h g a y \<and> denotes M h g b z \<and> w = mn_op M Op_MatMul (nd_attributes (g_nodes g ! p)) [y, z]"
    if dw: "denotes M h g (out_of g p) w" for w
  proof -
    obtain us where us: "length us = 2" "\<forall>k < length us. denotes M h g ([a, b] ! k) (us ! k)"
      "w = mn_op M Op_MatMul (nd_attributes (g_nodes g ! p)) us" using keep_meaning(3)[OF ok m(2) dw] by (auto simp: m(4,5) numeral_2_eq_2)
    obtain y z where "us = [y, z]" using us(1) by (auto simp: length_Suc_conv numeral_2_eq_2)
    then show ?thesis using us(2,3) by (intro exI[of _ y] exI[of _ z]) (auto simp: less_Suc_eq)
  qed
  have gemm: "mn_op M Op_Add at [mn_op M Op_MatMul at' [y, z], c] = mn_op M Op_Gemm canonical_attributes [y, z, c]"
    "mn_op M Op_Add at [c, mn_op M Op_MatMul at' [y, z]] = mn_op M Op_Gemm canonical_attributes [y, z, c]" for at at' y z c
    using law unfolding matmul_add_law_def by blast+
  have fused: "\<exists>ws. length ws = length is \<and> (\<forall>k < length ws. denotes M h g (is ! k) (ws ! k)) \<and> v = mn_op M Op_Gemm canonical_attributes ws"
    if "denotes M h g a y" "denotes M h g b z" "denotes M h g bias c" "v = mn_op M Op_Gemm canonical_attributes [y, z, c]" for y z c
    by (rule exI[of _ "[y, z, c]"]) (use that m(1) in \<open>simp add: less_Suc_eq numeral_3_eq_3 nth_Cons split: nat.splits\<close>)
  from m(6) have "x0 = out_of g p \<and> x1 = bias \<or> x0 = bias \<and> x1 = out_of g p" by (auto simp: x)
  then show ?thesis
  proof
    assume "x0 = out_of g p \<and> x1 = bias"
    then show ?thesis using product[of w0] w ws(3) fused gemm(1) by metis
  next
    assume "x0 = bias \<and> x1 = out_of g p"
    then show ?thesis using product[of w1] w ws(3) fused gemm(2) by metis
  qed
qed

definition product_fusion :: "matmul_candidate option list \<Rightarrow> nat \<Rightarrow> fusion option" where
  "product_fusion cs k = map_option (\<lambda>c. (mc_matmul c, Op_Gemm, mc_inputs c, canonical_attributes)) (cs ! k)"

lemma product_fusion_ok:
  assumes ok: "graph_ok g" and law: "matmul_add_law M"
    and cs: "\<And>j c. j < length (g_nodes g) \<Longrightarrow> cs ! j = Some c \<Longrightarrow> product_match g j (mc_matmul c) (mc_inputs c)"
  shows "fusion_ok M h g (product_fusion cs)"
  unfolding fusion_ok_def
proof (intro allI impI)
  fix j p op "is" attrs assume j: "j < length (g_nodes g)" and c: "product_fusion cs j = Some (p, op, is, attrs)"
  then have eq: "op = Op_Gemm" "attrs = canonical_attributes" and m: "product_match g j p is" using cs by (auto simp: product_fusion_def)
  obtain a b bias where M: "is = [a, b, bias]" "p < length (g_nodes g)" "nd_op (g_nodes g ! j) = Op_Add" "nd_op (g_nodes g ! p) = Op_MatMul"
     "nd_inputs (g_nodes g ! p) = [a, b]" "nd_inputs (g_nodes g ! j) \<in> {[out_of g p, bias], [bias, out_of g p]}" "bias \<noteq> out_of g p"
     "out_of g p \<notin> set (g_outputs g)" "filter (\<lambda>j. out_of g p \<in> set (nd_inputs (g_nodes g ! j))) [0..<length (g_nodes g)] = [j]"
     "infer_output_specs Op_Gemm (map (\<lambda>i. gv_spec (g_values g ! i)) is) canonical_attributes = Inr [gv_spec (g_values g ! out_of g j)]"
    using m unfolding product_match_def by blast
  have "out_of g p \<in> set (nd_inputs (g_nodes g ! j))" using M(6) by auto
  then have pj: "p < j" using keep_meaning(2)[OF ok j] node_output(4)[OF ok M(2)] by blast
  have none: "product_fusion cs p = None"
  proof (cases "cs ! p")
    case (Some d)
    then have "nd_op (g_nodes g ! p) = Op_Add" using cs[OF M(2) Some] unfolding product_match_def by blast
    then show ?thesis using M(4) by simp
  qed (simp add: product_fusion_def)
  have self: "i \<noteq> out_of g p" if "i \<in> set [a, b]" for i
    using keep_meaning(2)[OF ok M(2), of i] node_output(4)[OF ok M(2)] M(5) that by fastforce
  have ins: "(i \<in> set (nd_inputs (g_nodes g ! p)) \<or> i \<in> set (nd_inputs (g_nodes g ! j))) \<and> i \<noteq> out_of g p" if "i \<in> set is" for i
    using that self M(1,5,6,7) by auto
  show "p < j \<and> product_fusion cs p = None \<and> out_of g p \<notin> set (g_outputs g) \<and>
     (\<forall>k < length (g_nodes g). out_of g p \<in> set (nd_inputs (g_nodes g ! k)) \<longrightarrow> k = j) \<and>
     (\<forall>i \<in> set is. (i \<in> set (nd_inputs (g_nodes g ! p)) \<or> i \<in> set (nd_inputs (g_nodes g ! j))) \<and> i \<noteq> out_of g p) \<and>
     infer_output_specs op (map (\<lambda>i. gv_spec (g_values g ! i)) is) attrs = Inr [gv_spec (g_values g ! out_of g j)] \<and>
     (\<forall>v. denotes M h g (out_of g j) v \<longrightarrow>
        (\<exists>ws. length ws = length is \<and> (\<forall>k < length ws. denotes M h g (is ! k) (ws ! k)) \<and> v = mn_op M op attrs ws))"
    unfolding eq
    using pj none M(8,10) analysis_single_use[OF _ M(9)] ins product_match_meaning[OF ok law j m] by (intro conjI allI impI ballI) blast+
qed

lemma node_ids: "graph_ok g \<Longrightarrow> k < length (g_nodes g) \<Longrightarrow> nd_id (g_nodes g ! k) = k"
  by (simp add: graph_ok_def node_ok_def Let_def)

lemma matmul_add_ok:
  assumes ok: "model_ok h m" and law: "matmul_add_law M"
  shows "outcome copy_failure (pass_result M h m ''MatMulAddCanonicalizationPass'') (matmul_add_run m h)"
proof -
  let ?g = "m_graph m"
  note D = model_okD[OF ok]
  obtain ga where ga: "mk_analysis ?g = Inr ga" "analysed ?g ga" using analysis_runs[OF ok] by blast
  have total: "\<exists>r. match_matmul_add ?g ga (g_nodes ?g ! k) = Inr r \<and> (\<forall>c. r = Some c \<longrightarrow> mc_matmul c < length (g_nodes ?g))"
    if k: "k < length (g_nodes ?g)" for k
    using match_matmul_add_ok[OF D(1) ga(2) k] unfolding product_match_def by blast
  obtain cs rs found where L: "foldE (match_step (match_matmul_add ?g ga) mc_matmul) (g_nodes ?g)
      (replicate (length (g_nodes ?g)) None, replicate (length (g_nodes ?g)) False, 0) = Inr (cs, rs, found)"
    "\<forall>j < length (g_nodes ?g). match_matmul_add ?g ga (g_nodes ?g ! j) = Inr (cs ! j)"
    "\<forall>p < length (g_nodes ?g). rs ! p \<longleftrightarrow> (\<exists>j < length (g_nodes ?g). \<exists>c. cs ! j = Some c \<and> mc_matmul c = p)"
    using match_loop[of "g_nodes ?g" "match_matmul_add ?g ga" mc_matmul, OF node_ids[OF D(1)] total] by blast
  have cs: "product_match ?g j (mc_matmul c) (mc_inputs c)" if "j < length (g_nodes ?g)" "cs ! j = Some c" for j c
    using match_matmul_add_ok[OF D(1) ga(2) that(1)] L(2) that by fastforce
  have F: "fusion_ok M h ?g (product_fusion cs)" by (rule product_fusion_ok[OF D(1) law cs])
  have "rs ! k \<longleftrightarrow> dropped ?g (product_fusion cs) k" if "k < length (g_nodes ?g)" for k
    using L(3) that by (auto simp: dropped_def product_fusion_def)
  then have A: "acts_as (fuse_node rs cs) ?g (product_fusion cs)"
    by (auto simp: acts_as_def fuse_node_def product_fusion_def split: option.splits)
  show ?thesis
    unfolding matmul_add_run_def Let_def ga(1) bindE_Inr match_steps(1) L(1) prod.case
    using unchanged_ok[OF ok, of M] fusion_run[OF ok F A] by simp
qed

section \<open>Gemm followed by ReLU\<close>

definition gemm_relu_law :: "'v meaning \<Rightarrow> bool" where
  "gemm_relu_law M \<longleftrightarrow> (\<forall>a attrs xs. mn_op M Op_ReLU a [mn_op M Op_Gemm attrs xs] =
     mn_op M Op_FusedGemmActivation (set_attribute ''activation'' (Attr_string ''relu'') attrs) xs)"

definition relu_match :: "graph \<Rightarrow> nat \<Rightarrow> gemm_candidate \<Rightarrow> bool" where
  "relu_match g j c \<longleftrightarrow> gc_gemm c < length (g_nodes g) \<and> nd_op (g_nodes g ! j) = Op_ReLU \<and> nd_op (g_nodes g ! gc_gemm c) = Op_Gemm \<and>
     nd_inputs (g_nodes g ! j) = [out_of g (gc_gemm c)] \<and> gc_inputs c = nd_inputs (g_nodes g ! gc_gemm c) \<and>
     gc_attributes c = set_attribute ''activation'' (Attr_string ''relu'') (nd_attributes (g_nodes g ! gc_gemm c)) \<and>
     out_of g (gc_gemm c) \<notin> set (g_outputs g) \<and>
     filter (\<lambda>j. out_of g (gc_gemm c) \<in> set (nd_inputs (g_nodes g ! j))) [0..<length (g_nodes g)] = [j] \<and>
     infer_output_specs Op_FusedGemmActivation (map (\<lambda>i. gv_spec (g_values g ! i)) (gc_inputs c)) (gc_attributes c) = Inr [gv_spec (g_values g ! out_of g j)]"

lemma match_gemm_relu_ok:
  assumes ok: "graph_ok g" and A: "analysed g ga" and j: "j < length (g_nodes g)"
  shows "\<exists>r. match_gemm_relu g ga (g_nodes g ! j) = Inr r \<and> (\<forall>c. r = Some c \<longrightarrow> relu_match g j c)"
proof (cases "nd_op (g_nodes g ! j) = Op_ReLU \<and> length (nd_inputs (g_nodes g ! j)) = 1")
  case False
  then show ?thesis by (auto simp: match_gemm_relu_def)
next
  case True
  obtain x where x: "nd_inputs (g_nodes g ! j) = [x]" using True by (auto simp: length_Suc_conv)
  have xl: "x < length (g_values g)" using keep_meaning(2)[OF ok j] x by simp
  have outj: "nd_outputs (g_nodes g ! j) = [out_of g j]" "out_of g j < length (g_values g)" using node_output(1,2)[OF ok j] by blast+
  have start: "match_gemm_relu g ga (g_nodes g ! j) = (case gv_producer (g_values g ! x) of None \<Rightarrow> Inr None
      | Some producer \<Rightarrow> match_gemm g ga (g_nodes g ! j) x producer)"
    using True xl by (simp add: match_gemm_relu_def x outj(1) graph_value_at_def)
  show ?thesis
  proof (cases "gv_producer (g_values g ! x)")
    case None
    then show ?thesis by (simp add: start)
  next
    case (Some p)
    have px: "p < length (g_nodes g)" "x = out_of g p" using intermediate_producer(1,2)[OF ok xl Some] by blast+
    have outp: "nd_outputs (g_nodes g ! p) = [x]" using node_output(1)[OF ok px(1)] px(2) by simp
    have gp: "graph_node g p = Inr (g_nodes g ! p)" using px(1) by (simp add: graph_node_def)
    have id: "nd_id (g_nodes g ! j) = j" by (rule node_ids[OF ok j])
    obtain n where N: "value_consumers ga x = Inr (filter (\<lambda>j. x \<in> set (nd_inputs (g_nodes g ! j))) [0..<length (g_nodes g)])"
      "use_count ga x = Inr n" "is_graph_output ga x = Inr (x \<in> set (g_outputs g))" by (rule analysedD[OF A xl])
    let ?cs = "filter (\<lambda>j. x \<in> set (nd_inputs (g_nodes g ! j))) [0..<length (g_nodes g)]"
    let ?ins = "nd_inputs (g_nodes g ! p)" and ?attrs = "set_attribute ''activation'' (Attr_string ''relu'') (nd_attributes (g_nodes g ! p))"
    show ?thesis
    proof (cases "nd_op (g_nodes g ! p) = Op_Gemm \<and> n = 1 \<and> x \<notin> set (g_outputs g) \<and> length ?cs = 1 \<and> hd ?cs = j")
      case False
      then have "match_gemm g ga (g_nodes g ! j) x p = Inr None"
        unfolding match_gemm_def Let_def gp bindE_Inr N id by auto
      then show ?thesis by (simp add: start Some)
    next
      case t: True
      have specs: "mapE (value_spec g) ?ins = Inr (map (\<lambda>i. gv_spec (g_values g ! i)) ?ins)"
        by (rule value_specs) (use keep_meaning(2)[OF ok px(1)] in blast)
      have tests: "(nd_op (g_nodes g ! p) \<noteq> Op_Gemm) = False" "(n \<noteq> 1) = False" "(x \<in> set (g_outputs g)) = False" "(length ?cs \<noteq> 1 \<or> hd ?cs \<noteq> j) = False"
        "(length (nd_outputs (g_nodes g ! p)) \<noteq> 1 \<or> hd (nd_outputs (g_nodes g ! p)) \<noteq> x) = False" "hd (nd_outputs (g_nodes g ! j)) = out_of g j"
        using t outp outj(1) by simp_all
      let ?c = "\<lparr>gc_gemm = p, gc_inputs = ?ins, gc_attributes = ?attrs\<rparr>"
      let ?fits = "infer_output_specs Op_FusedGemmActivation (map (\<lambda>i. gv_spec (g_values g ! i)) ?ins) ?attrs = Inr [gv_spec (g_values g ! out_of g j)]"
      have "match_gemm g ga (g_nodes g ! j) x p = Inr (if ?fits then Some ?c else None)"
        unfolding match_gemm_def Let_def gp bindE_Inr tests(1) N id tests(2-) if_False specs
        by (rule inference_answer[OF _ outj(2)]) simp
      moreover have "relu_match g j ?c" if "?fits"
      proof -
        have "?cs = [j]" using t length_one by metis
        then show ?thesis unfolding relu_match_def using that px t True x by simp
      qed
      ultimately show ?thesis by (simp add: start Some)
    qed
  qed
qed

definition relu_fusion :: "gemm_candidate option list \<Rightarrow> nat \<Rightarrow> fusion option" where
  "relu_fusion cs k = map_option (\<lambda>c. (gc_gemm c, Op_FusedGemmActivation, gc_inputs c, gc_attributes c)) (cs ! k)"

lemma relu_match_meaning:
  assumes ok: "graph_ok g" and law: "gemm_relu_law M" and j: "j < length (g_nodes g)" and m: "relu_match g j c" and d: "denotes M h g (out_of g j) v"
  shows "\<exists>ws. length ws = length (gc_inputs c) \<and> (\<forall>k < length ws. denotes M h g (gc_inputs c ! k) (ws ! k)) \<and>
    v = mn_op M Op_FusedGemmActivation (gc_attributes c) ws"
proof -
  let ?p = "gc_gemm c"
  have m: "?p < length (g_nodes g)" "nd_op (g_nodes g ! j) = Op_ReLU" "nd_op (g_nodes g ! ?p) = Op_Gemm" "nd_inputs (g_nodes g ! j) = [out_of g ?p]"
    "gc_inputs c = nd_inputs (g_nodes g ! ?p)" "gc_attributes c = set_attribute ''activation'' (Attr_string ''relu'') (nd_attributes (g_nodes g ! ?p))"
    using m unfolding relu_match_def by blast+
  obtain ws where "length ws = 1" "\<forall>k < length ws. denotes M h g ([out_of g ?p] ! k) (ws ! k)" "v = mn_op M Op_ReLU (nd_attributes (g_nodes g ! j)) ws"
    using keep_meaning(3)[OF ok j d] by (auto simp: m(2,4))
  then obtain w where w: "denotes M h g (out_of g ?p) w" "v = mn_op M Op_ReLU (nd_attributes (g_nodes g ! j)) [w]" by (auto simp: length_Suc_conv)
  obtain us where us: "length us = length (gc_inputs c)" "\<forall>k < length us. denotes M h g (gc_inputs c ! k) (us ! k)"
    "w = mn_op M Op_Gemm (nd_attributes (g_nodes g ! ?p)) us" using keep_meaning(3)[OF ok m(1) w(1)] by (auto simp: m(3,5))
  have "v = mn_op M Op_FusedGemmActivation (gc_attributes c) us" using law unfolding w(2) us(3) m(6) gemm_relu_law_def by blast
  then show ?thesis using us(1,2) by blast
qed

lemma relu_fusion_ok:
  assumes ok: "graph_ok g" and law: "gemm_relu_law M"
    and cs: "\<And>j c. j < length (g_nodes g) \<Longrightarrow> cs ! j = Some c \<Longrightarrow> relu_match g j c"
  shows "fusion_ok M h g (relu_fusion cs)"
  unfolding fusion_ok_def
proof (intro allI impI)
  fix j p op "is" attrs assume j: "j < length (g_nodes g)" and r: "relu_fusion cs j = Some (p, op, is, attrs)"
  then obtain c where c: "cs ! j = Some c" "p = gc_gemm c" "op = Op_FusedGemmActivation" "is = gc_inputs c" "attrs = gc_attributes c"
    by (auto simp: relu_fusion_def)
  note m = cs[OF j c(1)]
  have M: "p < length (g_nodes g)" "nd_op (g_nodes g ! p) = Op_Gemm" "nd_inputs (g_nodes g ! j) = [out_of g p]" "is = nd_inputs (g_nodes g ! p)"
    "out_of g p \<notin> set (g_outputs g)" "filter (\<lambda>j. out_of g p \<in> set (nd_inputs (g_nodes g ! j))) [0..<length (g_nodes g)] = [j]"
    "infer_output_specs op (map (\<lambda>i. gv_spec (g_values g ! i)) is) attrs = Inr [gv_spec (g_values g ! out_of g j)]"
    using m unfolding relu_match_def c(2-5) by blast+
  have "out_of g p \<in> set (nd_inputs (g_nodes g ! j))" using M(3) by simp
  then have pj: "p < j" using keep_meaning(2)[OF ok j] node_output(4)[OF ok M(1)] by blast
  have none: "relu_fusion cs p = None"
  proof (cases "cs ! p")
    case (Some d)
    then have "nd_op (g_nodes g ! p) = Op_ReLU" using cs[OF M(1) Some] unfolding relu_match_def by blast
    then show ?thesis using M(2) by simp
  qed (simp add: relu_fusion_def)
  have ins: "(i \<in> set (nd_inputs (g_nodes g ! p)) \<or> i \<in> set (nd_inputs (g_nodes g ! j))) \<and> i \<noteq> out_of g p" if "i \<in> set is" for i
    using that keep_meaning(2)[OF ok M(1), of i] node_output(4)[OF ok M(1)] M(4) by fastforce
  show "p < j \<and> relu_fusion cs p = None \<and> out_of g p \<notin> set (g_outputs g) \<and>
     (\<forall>k < length (g_nodes g). out_of g p \<in> set (nd_inputs (g_nodes g ! k)) \<longrightarrow> k = j) \<and>
     (\<forall>i \<in> set is. (i \<in> set (nd_inputs (g_nodes g ! p)) \<or> i \<in> set (nd_inputs (g_nodes g ! j))) \<and> i \<noteq> out_of g p) \<and>
     infer_output_specs op (map (\<lambda>i. gv_spec (g_values g ! i)) is) attrs = Inr [gv_spec (g_values g ! out_of g j)] \<and>
     (\<forall>v. denotes M h g (out_of g j) v \<longrightarrow>
        (\<exists>ws. length ws = length is \<and> (\<forall>k < length ws. denotes M h g (is ! k) (ws ! k)) \<and> v = mn_op M op attrs ws))"
    using pj none M(5,7) analysis_single_use[OF _ M(6)] ins relu_match_meaning[OF ok law j m, folded c(2-5)] by (intro conjI allI impI ballI) blast+
qed

lemma gemm_activation_ok:
  assumes ok: "model_ok h m" and law: "gemm_relu_law M"
  shows "outcome copy_failure (pass_result M h m ''GemmActivationFusionPass'') (gemm_activation_run m h)"
proof -
  let ?g = "m_graph m"
  note D = model_okD[OF ok]
  obtain ga where ga: "mk_analysis ?g = Inr ga" "analysed ?g ga" using analysis_runs[OF ok] by blast
  have total: "\<exists>r. match_gemm_relu ?g ga (g_nodes ?g ! k) = Inr r \<and> (\<forall>c. r = Some c \<longrightarrow> gc_gemm c < length (g_nodes ?g))"
    if k: "k < length (g_nodes ?g)" for k
    using match_gemm_relu_ok[OF D(1) ga(2) k] unfolding relu_match_def by blast
  obtain cs rs found where L: "foldE (match_step (match_gemm_relu ?g ga) gc_gemm) (g_nodes ?g)
      (replicate (length (g_nodes ?g)) None, replicate (length (g_nodes ?g)) False, 0) = Inr (cs, rs, found)"
    "\<forall>j < length (g_nodes ?g). match_gemm_relu ?g ga (g_nodes ?g ! j) = Inr (cs ! j)"
    "\<forall>p < length (g_nodes ?g). rs ! p \<longleftrightarrow> (\<exists>j < length (g_nodes ?g). \<exists>c. cs ! j = Some c \<and> gc_gemm c = p)"
    using match_loop[of "g_nodes ?g" "match_gemm_relu ?g ga" gc_gemm, OF node_ids[OF D(1)] total] by blast
  have cs: "relu_match ?g j c" if "j < length (g_nodes ?g)" "cs ! j = Some c" for j c
    using match_gemm_relu_ok[OF D(1) ga(2) that(1)] L(2) that by fastforce
  have F: "fusion_ok M h ?g (relu_fusion cs)" by (rule relu_fusion_ok[OF D(1) law cs])
  have "rs ! k \<longleftrightarrow> dropped ?g (relu_fusion cs) k" if "k < length (g_nodes ?g)" for k
    using L(3) that by (auto simp: dropped_def relu_fusion_def)
  then have A: "acts_as (fuse_activation rs cs) ?g (relu_fusion cs)"
    by (auto simp: acts_as_def fuse_activation_def relu_fusion_def split: option.splits)
  show ?thesis
    unfolding gemm_activation_run_def Let_def ga(1) bindE_Inr match_steps(2) L(1) prod.case
    using unchanged_ok[OF ok, of M] fusion_run[OF ok F A] by simp
qed

end
