(* ===== verification/Pass_Pipeline.thy ===== *)
theory Pass_Pipeline
  imports Fusion_Passes
begin

text \<open>
  The contract of a pass and the manager that relies on it: the checks of the manager never reject a sound pass, the
  composed mapping is the mapping of the composition, and a pipeline of sound passes preserves every output.
\<close>

section \<open>The manager's checks accept sound results\<close>

lemma check_bindings_ok:
  assumes "map fst bs = map fst as" and "map (Some \<circ> snd) bs = map ((!) f \<circ> snd) as"
  shows "check_bindings e f as bs = Inr ()"
  using assms
proof (induction as arbitrary: bs)
  case Nil
  then show ?case by (simp add: check_bindings_def)
next
  case (Cons a as)
  then obtain b cs where "bs = b # cs" by (cases bs) auto
  then show ?case using Cons by (simp add: check_bindings_def split: prod.splits)
qed

lemma interface_accepted:
  assumes "preserved M h m h' m' f"
  shows "validate_interface m m' f name = Inr ()"
proof -
  note P = preservedD[OF assms]
  have range: "k < length (g_values (m_graph m'))" if k: "Some k \<in> set f" for k
  proof -
    obtain i where "i < length f" "f ! i = Some k" using k by (metis in_set_conv_nth)
    then show ?thesis using P(3) by (simp add: carried_def)
  qed
  have "\<not> (\<exists>x \<in> set f. case x of None \<Rightarrow> False | Some k \<Rightarrow> k \<ge> length (g_values (m_graph m')))"
    using range by (auto split: option.splits simp: not_le)
  moreover have "length (m_inputs m') = length (m_inputs m)" "length (m_outputs m') = length (m_outputs m)"
    using arg_cong[OF P(4), of length] arg_cong[OF P(5), of length] by simp_all
  ultimately show ?thesis
    unfolding validate_interface_def using P(2) check_bindings_ok[OF P(4,6)] check_bindings_ok[OF P(5,7)] by simp
qed

definition pipeline_inv :: "'v meaning \<Rightarrow> heap \<Rightarrow> model \<Rightarrow> pipeline \<Rightarrow> bool" where
  "pipeline_inv M h m s \<longleftrightarrow> (case pl_current s of
     None \<Rightarrow> pl_heap s = h \<and> pl_mapping s = identity_mapping (length (g_values (m_graph m)))
   | Some m' \<Rightarrow> preserved M h m (pl_heap s) m' (pl_mapping s))"

lemma compose_identity: "length f = n \<Longrightarrow> compose_mapping (identity_mapping n) f = f"
  by (auto simp: compose_mapping_def identity_mapping_def o_def intro: nth_equalityI)

section \<open>The contract of a pass\<close>

locale sound_pass =
  fixes p :: graph_pass and law :: "'v meaning \<Rightarrow> bool"
  assumes sound: "law M \<Longrightarrow> model_ok h m \<Longrightarrow> outcome copy_failure (pass_result M h m (gp_name p)) (gp_run p m h)"
begin

lemma step:
  assumes law: "law M" and ok: "model_ok h m" and inv: "pipeline_inv M h m s"
  shows "outcome copy_failure (pipeline_inv M h m) (run_pass m p s)"
proof -
  let ?m = "case pl_current s of None \<Rightarrow> m | Some m' \<Rightarrow> m'"
  have ok': "model_ok (pl_heap s) ?m" using ok inv preservedD(1) by (auto simp: pipeline_inv_def split: option.splits)
  show ?thesis unfolding run_pass_def Let_def
  proof (rule outcome_bindE[OF sound[OF law ok']])
    fix x assume x: "pass_result M (pl_heap s) ?m (gp_name p) x"
    obtain r h' where rh: "x = (r, h')" by (cases x)
    have P: "preserved M (pl_heap s) ?m h' (or_model r) (or_mapping r)" using x rh by (simp add: pass_result_def)
    have "validate_statistics ?m (or_model r) r (gp_name p) = Inr ()" using x rh by (auto simp: pass_result_def validate_statistics_def Let_def)
    moreover have "preserved M h m h' (or_model r) (compose_mapping (pl_mapping s) (or_mapping r))"
    proof (cases "pl_current s")
      case None
      then show ?thesis using P inv preservedD(2)[OF P] by (simp add: pipeline_inv_def compose_identity)
    next
      case (Some m')
      then show ?thesis using preserved_trans[OF _ _ ok] P inv by (simp add: pipeline_inv_def)
    qed
    ultimately show "outcome copy_failure (pipeline_inv M h m) (case x of (r, h') \<Rightarrow>
      bindE (validate_interface ?m (or_model r) (or_mapping r) (gp_name p)) (\<lambda>_.
      bindE (validate_statistics ?m (or_model r) r (gp_name p)) (\<lambda>_.
        Inr \<lparr>pl_mapping = compose_mapping (pl_mapping s) (or_mapping r), pl_statistics = pl_statistics s @ [hd (or_statistics r)],
             pl_current = Some (or_model r), pl_heap = h'\<rparr>)))"
      using interface_accepted[OF P] by (simp add: rh pipeline_inv_def)
  qed
qed

end

interpretation no_op: sound_pass no_op_pass "\<lambda>_. True"
  by unfold_locales (simp add: no_op_pass_def no_op_run_def unchanged_ok)

interpretation dead_code: sound_pass dead_code_pass "\<lambda>_. True"
  by unfold_locales (auto simp: dead_code_pass_def intro: outcome_mono[OF dead_code_ok])

interpretation matmul_add: sound_pass matmul_add_pass matmul_add_law
  by unfold_locales (simp add: matmul_add_pass_def matmul_add_ok)

interpretation gemm_activation: sound_pass gemm_activation_pass gemm_relu_law
  by unfold_locales (simp add: gemm_activation_pass_def gemm_activation_ok)

lemmas pass_steps = no_op.step dead_code.step matmul_add.step gemm_activation.step

section \<open>Pipelines\<close>

lemma pipeline_ok:
  assumes ok: "model_ok h m" and laws: "matmul_add_law M" "gemm_relu_law M"
    and ps: "set passes \<subseteq> {no_op_pass, dead_code_pass, matmul_add_pass, gemm_activation_pass}"
  shows "outcome copy_failure (\<lambda>(r, h'). preserved M h m h' (or_model r) (or_mapping r)) (run_passes passes m h)"
proof -
  let ?s = "\<lparr>pl_mapping = identity_mapping (length (g_values (m_graph m))), pl_statistics = [], pl_current = None, pl_heap = h\<rparr>"
  have "outcome copy_failure (pipeline_inv M h m) (run_pass m p s)" if "p \<in> set passes" "pipeline_inv M h m s" for p s
    using that ps pass_steps[OF _ ok that(2)] laws by blast
  then have "outcome copy_failure (pipeline_inv M h m) (foldE (run_pass m) passes ?s)"
    by (intro outcome_foldE[where P = "\<lambda>_. pipeline_inv M h m"]) (simp_all add: pipeline_inv_def)
  then show ?thesis unfolding run_passes_def
  proof (rule outcome_bindE)
    fix s assume inv: "pipeline_inv M h m s"
    show "outcome copy_failure (\<lambda>(r, h'). preserved M h m h' (or_model r) (or_mapping r)) (case pl_current s of
         None \<Rightarrow> bindE (copy_model m (pl_heap s)) (\<lambda>(m', h'). Inr (\<lparr>or_model = m', or_mapping = pl_mapping s, or_statistics = []\<rparr>, h'))
       | Some m' \<Rightarrow> Inr (\<lparr>or_model = m', or_mapping = pl_mapping s, or_statistics = pl_statistics s\<rparr>, pl_heap s))"
    proof (cases "pl_current s")
      case None
      then have s: "pl_heap s = h" "pl_mapping s = identity_mapping (length (g_values (m_graph m)))" using inv by (simp_all add: pipeline_inv_def)
      show ?thesis unfolding None option.case s by (rule outcome_bindE[OF copy_model_ok[OF ok, of M]]) auto
    next
      case (Some m')
      then show ?thesis using inv by (simp add: pipeline_inv_def)
    qed
  qed
qed

definition output_value :: "'v meaning \<Rightarrow> heap \<Rightarrow> model \<Rightarrow> string \<Rightarrow> 'v \<Rightarrow> bool" where
  "output_value M h m name v \<longleftrightarrow> (\<exists>i. output_id m name = Inr i \<and> denotes M h (m_graph m) i v)"

lemma preserved_outputs:
  assumes ok: "model_ok h m" and P: "preserved M h m h' m' f"
  shows "output_value M h m name v \<longleftrightarrow> output_value M h' m' name v"
proof -
  note D = preservedD[OF P]
  have lookup: "map_of bs name = (case map_of as name of None \<Rightarrow> None | Some i \<Rightarrow> f ! i)"
    if "map fst bs = map fst as" "map (Some \<circ> snd) bs = map ((!) f \<circ> snd) as" for as bs :: "(string \<times> nat) list"
    using that
  proof (induction as arbitrary: bs)
    case (Cons a as)
    then obtain b cs where "bs = b # cs" by (cases bs) auto
    then show ?case using Cons by (cases a; cases b) auto
  qed simp
  have id: "output_id x name = Inr i \<longleftrightarrow> map_of (m_outputs x) name = Some i" for x i
    by (simp add: output_id_def find_named_value_def split: option.splits)
  show ?thesis
  proof (cases "map_of (m_outputs m) name")
    case None
    then show ?thesis using lookup[OF D(5,7)] by (simp add: output_value_def id)
  next
    case (Some i)
    then have "i \<in> set (map snd (m_outputs m))" by (force dest: map_of_SomeD)
    then have i: "i < length (g_values (m_graph m))" using binding_ranges(2)[OF ok] by auto
    obtain n where n: "(n, i) \<in> set (m_outputs m)" using map_of_SomeD[OF Some] by blast
    have "\<exists>k. f ! i = Some k"
    proof -
      have "f ! i \<in> set (map ((!) f \<circ> snd) (m_outputs m))" using n by force
      then show ?thesis unfolding D(7)[symmetric] by auto
    qed
    then obtain k where k: "f ! i = Some k" by blast
    have c: "carried M h (m_graph m) h' (m_graph m') i k" using D(2,3) i k by simp
    obtain u where u: "denotes M h (m_graph m) i u" using denotes_total[OF model_okD(1)[OF ok] i, of M h] by blast
    then have "denotes M h' (m_graph m') k u" using c by (simp add: carried_def)
    then have "denotes M h (m_graph m) i v \<longleftrightarrow> denotes M h' (m_graph m') k v"
      using u denotes_unique by metis
    then show ?thesis using lookup[OF D(5,7)] Some k by (simp add: output_value_def id)
  qed
qed

text \<open>
  C9: optimising does not change what a model computes. For every meaning of the operators in which Gemm with unit
  factors is a product plus a bias and the fused operator is Gemm followed by ReLU, and for every list of the
  pass that changes nothing, dead code elimination and the two fusions, in any order and number, the manager
  fails only when a constant cannot be copied; otherwise the optimised model is well formed, has the same named
  inputs and outputs, and each output has the same value.
\<close>

theorem optimizer_preserves_outputs:
  assumes "model_ok h m" and "matmul_add_law M" and "gemm_relu_law M"
    and "set passes \<subseteq> {no_op_pass, dead_code_pass, matmul_add_pass, gemm_activation_pass}"
  shows "case run_passes passes m h of Inl e \<Rightarrow> copy_failure e
     | Inr (r, h') \<Rightarrow> model_ok h' (or_model r) \<and> map fst (m_inputs (or_model r)) = map fst (m_inputs m) \<and>
         map fst (m_outputs (or_model r)) = map fst (m_outputs m) \<and>
         (\<forall>name v. output_value M h m name v \<longleftrightarrow> output_value M h' (or_model r) name v)"
proof (cases "run_passes passes m h")
  case (Inl e)
  then show ?thesis using pipeline_ok[OF assms] by simp
next
  case (Inr x)
  obtain r h' where x: "x = (r, h')" by (cases x)
  have P: "preserved M h m h' (or_model r) (or_mapping r)" using pipeline_ok[OF assms] Inr x by simp
  show ?thesis using preservedD(1,4,5)[OF P] preserved_outputs[OF assms(1) P] by (simp add: Inr x)
qed

theorem optimizer_preserves_outputs_witness:
  "\<exists>r h'. run_passes [dead_code_pass] two_model no_heap = Inr (r, h') \<and> or_model r = one_model \<and> output_value demo_meaning h' (or_model r) ''y'' 5"
proof -
  have laws: "matmul_add_law demo_meaning" "gemm_relu_law demo_meaning"
    by (simp_all add: matmul_add_law_def gemm_relu_law_def demo_meaning_def)
  have "denotes demo_meaning no_heap (two_graph [1]) 0 5"
    using denotes.of_input[of 0 "two_graph [1]" demo_meaning no_heap] by (simp add: two_graph_def demo_value_def demo_meaning_def)
  then have "denotes demo_meaning no_heap (two_graph [1]) 1 5"
    using denotes.of_node[of 1 "two_graph [1]" 0 "[5]" demo_meaning no_heap] by (simp add: two_graph_def demo_value_def demo_meaning_def)
  then have y: "output_value demo_meaning no_heap two_model ''y'' 5"
    by (simp add: output_value_def output_id_def find_named_value_def two_model_def)
  have "\<exists>r. run_passes [dead_code_pass] two_model no_heap = Inr (r, no_heap) \<and> or_model r = one_model"
    by (simp add: run_passes_def run_pass_def dead_code_pass_def two_model_optimized validate_interface_def validate_statistics_def check_bindings_def)
      (simp add: two_model_def one_model_def two_graph_def demo_graph_def)
  then obtain r where r: "run_passes [dead_code_pass] two_model no_heap = Inr (r, no_heap)" "or_model r = one_model" by blast
  have "output_value demo_meaning no_heap (or_model r) ''y'' 5"
    using optimizer_preserves_outputs[OF two_model_ok laws, of "[dead_code_pass]"] r y by simp
  then show ?thesis using r by blast
qed

end
