(* ===== verification/Execution.thy ===== *)
theory Execution
  imports Memory_Plan Graph_Meaning
begin

text \<open>
  The execution context of \<^verbatim>\<open>src/runtime/execution_context.cpp\<close> and the loop of \<^verbatim>\<open>src/runtime/executor.cpp\<close>. The
  context holds one optional tensor per graph value and, with a memory plan, the buffer the plan lays out. It keeps a
  reference to its graph: \<open>ec_graph\<close> is the address, and every operation takes the graph found there. An operation that
  throws has no result state here. A backend is an interface of the source; here it is a record of its operations.
\<close>

section \<open>The context\<close>

record execution_context =
  ec_graph :: nat
  ec_value_count :: nat
  ec_values :: "tensor option list"
  ec_plan :: "memory_plan option"
  ec_buffer :: "nat option"

definition emplace_constant :: "graph \<Rightarrow> graph_value \<Rightarrow> tensor option list \<times> heap \<Rightarrow> (tensor option list \<times> heap) result" where
  "emplace_constant g v s = bindE (graph_constant g (gv_id v)) (\<lambda>t. bindE (tensor_copy t (snd s)) (\<lambda>(t', h').
     Inr ((fst s)[gv_id v := Some t'], h')))"

definition start_value :: "graph \<Rightarrow> graph_value \<Rightarrow> tensor option list \<times> heap \<Rightarrow> (tensor option list \<times> heap) result" where
  "start_value g v s = (if gv_kind v = Kind_constant then emplace_constant g v s else Inr s)"

definition mk_context :: "nat \<Rightarrow> graph \<Rightarrow> heap \<Rightarrow> (execution_context \<times> heap) result" where
  "mk_context address g h =
     bindE (validate_graph g) (\<lambda>_. bindE (foldE (start_value g) (g_values g) (replicate (length (g_values g)) None, h)) (\<lambda>(values, h').
     Inr (\<lparr>ec_graph = address, ec_value_count = length (g_values g), ec_values = values, ec_plan = None, ec_buffer = None\<rparr>, h')))"

definition check_planned :: "memory_plan \<Rightarrow> graph_value \<Rightarrow> unit result" where
  "check_planned p v =
     bindE (has_allocation p (gv_id v)) (\<lambda>present.
     if \<not> present then Inl (Invalid_argument ''memory plan does not cover every intermediate value'')
     else bindE (mk_layout (spec_shape (gv_spec v))) (\<lambda>l. bindE (size_bytes l (spec_dtype (gv_spec v))) (\<lambda>expected.
       bindE (plan_allocation p (gv_id v)) (\<lambda>a.
       if ba_size a \<noteq> expected then Inl (Invalid_argument ''memory plan does not match graph value metadata'')
       else bindE (plan_lifetime p (gv_id v)) (\<lambda>life.
         if vl_value life \<noteq> gv_id v then Inl (Invalid_argument ''memory plan does not match graph value metadata'') else Inr ())))))"

definition start_planned_value :: "graph \<Rightarrow> memory_plan \<Rightarrow> graph_value \<Rightarrow> tensor option list \<times> heap \<Rightarrow> (tensor option list \<times> heap) result" where
  "start_planned_value g p v s = (case gv_kind v of
     Kind_constant \<Rightarrow> emplace_constant g v s
   | Kind_intermediate \<Rightarrow> bindE (check_planned p v) (\<lambda>_. Inr s)
   | Kind_input \<Rightarrow> Inr s)"

definition mk_planned_context :: "nat \<Rightarrow> graph \<Rightarrow> memory_plan \<Rightarrow> heap \<Rightarrow> (execution_context \<times> heap) result" where
  "mk_planned_context address g p h =
     bindE (validate_graph g) (\<lambda>_.
     if \<not> plan_matches p address g then Inl (Invalid_argument ''memory plan belongs to another graph'')
     else bindE (mk_buffer (mpl_buffer_size p) True default_alignment h) (\<lambda>(buffer, h1).
       bindE (foldE (start_planned_value g p) (g_values g) (replicate (length (g_values g)) None, h1)) (\<lambda>(values, h2).
       Inr (\<lparr>ec_graph = address, ec_value_count = length (g_values g), ec_values = values, ec_plan = Some p,
             ec_buffer = Some buffer\<rparr>, h2))))"

definition require_current_graph :: "graph \<Rightarrow> execution_context \<Rightarrow> unit result" where
  "require_current_graph g c =
     (if length (g_values g) \<noteq> ec_value_count c
      then Inl (Logic_error ''graph structure changed after ExecutionContext construction'') else Inr ())"

definition require_matching_spec :: "graph \<Rightarrow> nat \<Rightarrow> tensor \<Rightarrow> unit result" where
  "require_matching_spec g i t = bindE (graph_value_at g i) (\<lambda>v.
     if tn_shape t \<noteq> spec_shape (gv_spec v) \<or> tn_dtype t \<noteq> spec_dtype (gv_spec v)
     then Inl (Invalid_argument ''tensor does not match graph value spec'') else Inr ())"

definition bind_input :: "graph \<Rightarrow> nat \<Rightarrow> tensor \<Rightarrow> execution_context \<Rightarrow> execution_context result" where
  "bind_input g i t c =
     bindE (require_current_graph g c) (\<lambda>_. bindE (graph_value_at g i) (\<lambda>v.
     if gv_kind v \<noteq> Kind_input then Inl (Invalid_argument ''only graph inputs can be bound as inputs'')
     else bindE (require_matching_spec g i t) (\<lambda>_. Inr (c\<lparr>ec_values := (ec_values c)[i := Some t]\<rparr>))))"

definition set_value :: "graph \<Rightarrow> nat \<Rightarrow> tensor \<Rightarrow> execution_context \<Rightarrow> execution_context result" where
  "set_value g i t c =
     bindE (require_current_graph g c) (\<lambda>_. bindE (graph_value_at g i) (\<lambda>v.
     if gv_kind v \<noteq> Kind_intermediate then Inl (Invalid_argument ''only intermediate graph values can be written'')
     else bindE (require_matching_spec g i t) (\<lambda>_. Inr (c\<lparr>ec_values := (ec_values c)[i := Some t]\<rparr>))))"

text \<open>The reference that \<open>prepare_output\<close> returns is the tensor in the slot.\<close>

definition prepare_output :: "graph \<Rightarrow> nat \<Rightarrow> execution_context \<Rightarrow> heap \<Rightarrow> (tensor \<times> execution_context \<times> heap) result" where
  "prepare_output g i c h =
     bindE (require_current_graph g c) (\<lambda>_. bindE (graph_value_at g i) (\<lambda>v.
     if gv_kind v \<noteq> Kind_intermediate then Inl (Invalid_argument ''only intermediate outputs can be prepared'')
     else case ec_plan c of
       None \<Rightarrow> bindE (mk_tensor (spec_shape (gv_spec v)) (spec_dtype (gv_spec v)) True h) (\<lambda>(t, h').
         Inr (t, c\<lparr>ec_values := (ec_values c)[i := Some t]\<rparr>, h'))
     | Some p \<Rightarrow> bindE (plan_allocation p i) (\<lambda>a. bindE (storage_view (ec_buffer c) (ba_byte_offset a) (ba_size a) h) (\<lambda>s.
         bindE (from_storage (spec_shape (gv_spec v)) (spec_dtype (gv_spec v)) s) (\<lambda>t.
         Inr (t, c\<lparr>ec_values := (ec_values c)[i := Some t]\<rparr>, h))))))"

definition context_slot :: "graph \<Rightarrow> nat \<Rightarrow> execution_context \<Rightarrow> tensor option result" where
  "context_slot g i c = bindE (require_current_graph g c) (\<lambda>_.
     if i \<ge> length (ec_values c) then Inl (Out_of_range ''graph value id is out of range'') else Inr (ec_values c ! i))"

definition has_value :: "graph \<Rightarrow> nat \<Rightarrow> execution_context \<Rightarrow> bool result" where
  "has_value g i c = bindE (context_slot g i c) (\<lambda>s. Inr (s \<noteq> None))"

definition context_value :: "graph \<Rightarrow> nat \<Rightarrow> execution_context \<Rightarrow> tensor result" where
  "context_value g i c = bindE (context_slot g i c) (\<lambda>s. case s of
     None \<Rightarrow> Inl (Logic_error ''graph value is not materialized'') | Some t \<Rightarrow> Inr t)"

definition all_inputs_bound :: "graph \<Rightarrow> execution_context \<Rightarrow> bool result" where
  "all_inputs_bound g c = bindE (require_current_graph g c) (\<lambda>_. Inr (list_all (\<lambda>i. ec_values c ! i \<noteq> None) (g_inputs g)))"

definition require_all_inputs_bound :: "graph \<Rightarrow> execution_context \<Rightarrow> unit result" where
  "require_all_inputs_bound g c = bindE (all_inputs_bound g c) (\<lambda>bound.
     if \<not> bound then Inl (Logic_error ''not all graph inputs have been bound'') else Inr ())"

definition context_output :: "graph \<Rightarrow> nat \<Rightarrow> execution_context \<Rightarrow> tensor result" where
  "context_output g i c = bindE (require_current_graph g c) (\<lambda>_.
     if i \<notin> set (g_outputs g) then Inl (Invalid_argument ''value is not a registered graph output'') else context_value g i c)"

definition clear_slot :: "tensor option list \<Rightarrow> nat \<Rightarrow> tensor option list" where
  "clear_slot values i = values[i := None]"

definition clear_intermediates :: "graph \<Rightarrow> execution_context \<Rightarrow> execution_context result" where
  "clear_intermediates g c = bindE (require_current_graph g c) (\<lambda>_. Inr (c\<lparr>ec_values :=
     foldl (\<lambda>values v. if gv_kind v = Kind_intermediate then clear_slot values (gv_id v) else values) (ec_values c) (g_values g)\<rparr>))"

definition release_after_step :: "graph \<Rightarrow> nat \<Rightarrow> execution_context \<Rightarrow> execution_context result" where
  "release_after_step g step c =
     bindE (require_current_graph g c) (\<lambda>_. case ec_plan c of
       None \<Rightarrow> Inr c
     | Some p \<Rightarrow> if step \<ge> length (g_nodes g) then Inl (Out_of_range ''execution step is out of range'')
         else bindE (values_released_after_step p step) (\<lambda>released. Inr (c\<lparr>ec_values := foldl clear_slot (ec_values c) released\<rparr>)))"

section \<open>The executor\<close>

record backend =
  be_supports :: "op_type \<Rightarrow> bool"
  be_execute :: "graph \<Rightarrow> node \<Rightarrow> execution_context \<Rightarrow> heap \<Rightarrow> (execution_context \<times> heap) result"

definition executor_step :: "backend \<Rightarrow> graph \<Rightarrow> nat list \<Rightarrow> nat \<Rightarrow> execution_context \<times> heap \<Rightarrow> (execution_context \<times> heap) result" where
  "executor_step be g order step s =
     bindE (graph_node g (order ! step)) (\<lambda>n.
     if \<not> be_supports be (nd_op n) then Inl (Runtime_error ''operator is not supported by the selected backend'')
     else bindE (be_execute be g n (fst s) (snd s)) (\<lambda>(c, h). bindE (release_after_step g step c) (\<lambda>c'. Inr (c', h))))"

definition executor_run :: "backend \<Rightarrow> nat \<Rightarrow> graph \<Rightarrow> execution_context \<Rightarrow> heap \<Rightarrow> (execution_context \<times> heap) result" where
  "executor_run be address g c h =
     (if ec_graph c \<noteq> address then Inl (Invalid_argument ''ExecutionContext belongs to another graph'')
      else bindE (require_all_inputs_bound g c) (\<lambda>_. bindE (clear_intermediates g c) (\<lambda>c1.
           bindE (topological_order g) (\<lambda>order. foldE (executor_step be g order) [0..<length order] (c1, h)))))"

end
