(* ===== verification/Kernel_Runner.thy ===== *)
theory Kernel_Runner
  imports Op_Schema Tensor
begin

text \<open>
  The elementwise kernels: the loops of \<^verbatim>\<open>include/tinyinfer/ops/kernel_runner.h\<close> over a broadcasting iterator and the
  operators of \<^verbatim>\<open>src/ops/basic_ops.cpp\<close> that are built from them. A \<open>float\<close> is its 32-bit pattern; the arithmetic on
  patterns and the functions of the C library are a parameter, the record \<open>float_ops\<close>.
\<close>

section \<open>Floats in memory\<close>

record float_ops =
  fl_add :: "float32 \<Rightarrow> float32 \<Rightarrow> float32"
  fl_sub :: "float32 \<Rightarrow> float32 \<Rightarrow> float32"
  fl_mul :: "float32 \<Rightarrow> float32 \<Rightarrow> float32"
  fl_div :: "float32 \<Rightarrow> float32 \<Rightarrow> float32"
  fl_less :: "float32 \<Rightarrow> float32 \<Rightarrow> bool"
  fl_exp :: "float32 \<Rightarrow> float32"
  fl_tanh :: "float32 \<Rightarrow> float32"
  fl_erf :: "float32 \<Rightarrow> float32"
  fl_sqrt :: "float32 \<Rightarrow> float32"
  fl_of_nat :: "nat \<Rightarrow> float32"

definition float_bytes :: "float32 \<Rightarrow> byte list" where
  "float_bytes x = [ucast x, ucast (drop_bit 8 x), ucast (drop_bit 16 x), ucast (drop_bit 24 x)]"

definition bytes_float :: "byte list \<Rightarrow> float32" where
  "bytes_float bs = ucast (bs ! 0) OR push_bit 8 (ucast (bs ! 1)) OR push_bit 16 (ucast (bs ! 2)) OR push_bit 24 (ucast (bs ! 3))"

text \<open>\<open>p[i]\<close> and \<open>p[i] = x\<close> for a \<open>float*\<close>.\<close>

type_synonym pointer = "(nat \<times> nat) option"

definition load_float :: "heap \<Rightarrow> pointer \<Rightarrow> nat \<Rightarrow> float32 result" where
  "load_float h p i = (case p of None \<Rightarrow> Inl (Undefined_behaviour ''null storage'')
     | Some (b, pos) \<Rightarrow> bindE (read_bytes h (b, pos + i * 4) 4) (\<lambda>bs. Inr (bytes_float bs)))"

definition store_float :: "pointer \<Rightarrow> nat \<Rightarrow> float32 \<Rightarrow> heap \<Rightarrow> heap result" where
  "store_float p i x h = (case p of None \<Rightarrow> Inl (Undefined_behaviour ''null storage'')
     | Some (b, pos) \<Rightarrow> write_bytes (b, pos + i * 4) (float_bytes x) h)"

text \<open>A loop that computes one value per round and stores it; \<open>std::max(0.0F, x)\<close>.\<close>

definition store_each :: "pointer \<Rightarrow> (nat \<Rightarrow> nat result) \<Rightarrow> (nat \<Rightarrow> heap \<Rightarrow> float32 result) \<Rightarrow> nat list \<Rightarrow> heap \<Rightarrow> heap result" where
  "store_each dst position value rounds =
     foldE (\<lambda>i h. bindE (value i h) (\<lambda>x. bindE (position i) (\<lambda>j. store_float dst j x h))) rounds"

definition max_zero :: "float_ops \<Rightarrow> float32 \<Rightarrow> float32" where
  "max_zero fo x = (if fl_less fo 0 x then x else 0)"

section \<open>The loops\<close>

definition require_kernel_dtype :: "tensor \<Rightarrow> unit result" where
  "require_kernel_dtype t = (if tn_dtype t \<noteq> Float32
     then Inl (Invalid_argument ''kernel storage type does not match tensor dtype'') else Inr ())"

definition kernel_offset :: "tensor_iterator \<Rightarrow> nat \<Rightarrow> nat \<Rightarrow> nat result" where
  "kernel_offset it k i = (if has_contiguous_fast_path it then Inr i else operand_offset it k i)"

definition run_unary_kernel_into :: "(float32 \<Rightarrow> float32) \<Rightarrow> tensor \<Rightarrow> tensor \<Rightarrow> heap \<Rightarrow> heap result" where
  "run_unary_kernel_into operation output inp h =
     bindE (require_kernel_dtype inp) (\<lambda>_. bindE (require_kernel_dtype output) (\<lambda>_.
     bindE (mk_iterator [tn_layout inp]) (\<lambda>it.
     if tn_shape output \<noteq> it_shape it \<or> \<not> lay_contiguous (tn_layout output)
     then Inl (Invalid_argument ''unary kernel output must be contiguous and match its input shape'')
     else bindE (typed_data Float32 inp h) (\<lambda>src. bindE (typed_data Float32 output h) (\<lambda>dst.
       store_each dst Inr (\<lambda>i h. bindE (kernel_offset it 0 i) (\<lambda>off. bindE (load_float h src off) (\<lambda>x. Inr (operation x))))
         [0..<it_numel it] h)))))"

definition run_binary_kernel_into :: "(float32 \<Rightarrow> float32 \<Rightarrow> float32) \<Rightarrow> tensor \<Rightarrow> tensor \<Rightarrow> tensor \<Rightarrow> heap \<Rightarrow> heap result" where
  "run_binary_kernel_into operation output lhs rhs h =
     bindE (require_kernel_dtype lhs) (\<lambda>_. bindE (require_kernel_dtype rhs) (\<lambda>_. bindE (require_kernel_dtype output) (\<lambda>_.
     bindE (mk_iterator [tn_layout lhs, tn_layout rhs]) (\<lambda>it.
     if tn_shape output \<noteq> it_shape it \<or> \<not> lay_contiguous (tn_layout output)
     then Inl (Invalid_argument ''binary kernel output must be contiguous and match broadcast shape'')
     else bindE (typed_data Float32 lhs h) (\<lambda>lhs_data. bindE (typed_data Float32 rhs h) (\<lambda>rhs_data.
       bindE (typed_data Float32 output h) (\<lambda>dst.
       store_each dst Inr (\<lambda>i h. bindE (kernel_offset it 0 i) (\<lambda>a. bindE (load_float h lhs_data a) (\<lambda>x.
           bindE (kernel_offset it 1 i) (\<lambda>b. bindE (load_float h rhs_data b) (\<lambda>y. Inr (operation x y))))))
         [0..<it_numel it] h)))))))"

section \<open>The operators\<close>

definition add_out :: "float_ops \<Rightarrow> tensor \<Rightarrow> tensor \<Rightarrow> tensor \<Rightarrow> heap \<Rightarrow> heap result" where
  "add_out fo = run_binary_kernel_into (fl_add fo)"

definition sub_out :: "float_ops \<Rightarrow> tensor \<Rightarrow> tensor \<Rightarrow> tensor \<Rightarrow> heap \<Rightarrow> heap result" where
  "sub_out fo = run_binary_kernel_into (fl_sub fo)"

definition mul_out :: "float_ops \<Rightarrow> tensor \<Rightarrow> tensor \<Rightarrow> tensor \<Rightarrow> heap \<Rightarrow> heap result" where
  "mul_out fo = run_binary_kernel_into (fl_mul fo)"

definition relu_out :: "float_ops \<Rightarrow> tensor \<Rightarrow> tensor \<Rightarrow> heap \<Rightarrow> heap result" where
  "relu_out fo = run_unary_kernel_into (max_zero fo)"

definition tanh_out :: "float_ops \<Rightarrow> tensor \<Rightarrow> tensor \<Rightarrow> heap \<Rightarrow> heap result" where
  "tanh_out fo = run_unary_kernel_into (fl_tanh fo)"

text \<open>The literals: \<open>0.5F\<close>, \<open>1.0F\<close>, \<open>0.7071067811865475F\<close>, \<open>0.7978845608028654F\<close> and \<open>0.044715F\<close>.\<close>

definition gelu_none :: "float_ops \<Rightarrow> float32 \<Rightarrow> float32" where
  "gelu_none fo x = fl_mul fo (fl_mul fo 0x3F000000 x) (fl_add fo 0x3F800000 (fl_erf fo (fl_mul fo x 0x3F3504F3)))"

definition gelu_tanh :: "float_ops \<Rightarrow> float32 \<Rightarrow> float32" where
  "gelu_tanh fo x =
     (let cubic = fl_mul fo (fl_mul fo x x) x in
      fl_mul fo (fl_mul fo 0x3F000000 x)
        (fl_add fo 0x3F800000 (fl_tanh fo (fl_mul fo 0x3F4C422A (fl_add fo x (fl_mul fo 0x3D372713 cubic))))))"

definition gelu_out :: "float_ops \<Rightarrow> tensor \<Rightarrow> tensor \<Rightarrow> string \<Rightarrow> heap \<Rightarrow> heap result" where
  "gelu_out fo output inp approximate h =
     (if approximate = ''none'' then run_unary_kernel_into (gelu_none fo) output inp h
      else if approximate \<noteq> ''tanh''
      then Inl (Invalid_argument (''gelu approximate must be '' @ [CHR 0x27] @ ''none'' @ [CHR 0x27] @ '' or '' @ [CHR 0x27] @ ''tanh'' @ [CHR 0x27]))
      else run_unary_kernel_into (gelu_tanh fo) output inp h)"

text \<open>The forms that allocate their result.\<close>

definition fresh_binary :: "(tensor \<Rightarrow> tensor \<Rightarrow> tensor \<Rightarrow> heap \<Rightarrow> heap result) \<Rightarrow> tensor \<Rightarrow> tensor \<Rightarrow> heap \<Rightarrow> (tensor \<times> heap) result" where
  "fresh_binary run lhs rhs h =
     bindE (mk_iterator [tn_layout lhs, tn_layout rhs]) (\<lambda>it. bindE (mk_tensor (it_shape it) Float32 True h) (\<lambda>(output, h1).
     bindE (run output lhs rhs h1) (\<lambda>h2. Inr (output, h2))))"

definition fresh_unary :: "(tensor \<Rightarrow> tensor \<Rightarrow> heap \<Rightarrow> heap result) \<Rightarrow> tensor \<Rightarrow> heap \<Rightarrow> (tensor \<times> heap) result" where
  "fresh_unary run inp h = bindE (mk_tensor (tn_shape inp) Float32 True h) (\<lambda>(output, h1).
     bindE (run output inp h1) (\<lambda>h2. Inr (output, h2)))"

definition ops_add :: "float_ops \<Rightarrow> tensor \<Rightarrow> tensor \<Rightarrow> heap \<Rightarrow> (tensor \<times> heap) result" where "ops_add fo = fresh_binary (add_out fo)"
definition ops_sub :: "float_ops \<Rightarrow> tensor \<Rightarrow> tensor \<Rightarrow> heap \<Rightarrow> (tensor \<times> heap) result" where "ops_sub fo = fresh_binary (sub_out fo)"
definition ops_mul :: "float_ops \<Rightarrow> tensor \<Rightarrow> tensor \<Rightarrow> heap \<Rightarrow> (tensor \<times> heap) result" where "ops_mul fo = fresh_binary (mul_out fo)"
definition ops_relu :: "float_ops \<Rightarrow> tensor \<Rightarrow> heap \<Rightarrow> (tensor \<times> heap) result" where "ops_relu fo = fresh_unary (relu_out fo)"
definition ops_tanh :: "float_ops \<Rightarrow> tensor \<Rightarrow> heap \<Rightarrow> (tensor \<times> heap) result" where "ops_tanh fo = fresh_unary (tanh_out fo)"
definition ops_gelu :: "float_ops \<Rightarrow> tensor \<Rightarrow> heap \<Rightarrow> (tensor \<times> heap) result" where
  "ops_gelu fo = fresh_unary (\<lambda>output inp. gelu_out fo output inp ''tanh'')"

end
