(* ===== verification/Matmul.thy ===== *)
theory Matmul
  imports Kernel_Runner
begin

text \<open>
  Matrix products: the kernels of \<^verbatim>\<open>src/backend/cpu/matmul_kernel.cpp\<close> (the reference, the strided, the blocked and the
  packed one), \<^verbatim>\<open>src/ops/matmul.cpp\<close> and \<^verbatim>\<open>src/ops/gemm.cpp\<close>. The micro-kernel of the packed product works on as many
  columns at once as a vector register of the target has lanes; \<open>simd_target\<close> gives this width and the operation of a
  lane, a multiplication followed by an addition or one fused operation. The width is one where there are no vectors.
\<close>

section \<open>Targets\<close>

record simd_target =
  st_width :: nat
  st_madd :: "float32 \<Rightarrow> float32 \<Rightarrow> float32 \<Rightarrow> float32"

text \<open>\<open>sum += a * b\<close> in scalar code.\<close>

definition scalar_madd :: "float_ops \<Rightarrow> float32 \<Rightarrow> float32 \<Rightarrow> float32 \<Rightarrow> float32" where
  "scalar_madd fo acc a b = fl_add fo acc (fl_mul fo a b)"

record block_size =
  bk_rows :: nat
  bk_columns :: nat
  bk_inner :: nat

definition default_blocks :: block_size where
  "default_blocks = \<lparr>bk_rows = 32, bk_columns = 32, bk_inner = 32\<rparr>"

text \<open>The starts of the blocks of a loop \<open>for (b = 0; b < n; b += size)\<close>, and the indices of one block.\<close>

definition block_starts :: "nat \<Rightarrow> nat \<Rightarrow> nat list" where
  "block_starts n bs = map (\<lambda>i. i * bs) [0..<(n + bs - 1) div bs]"

definition block_range :: "nat \<Rightarrow> nat \<Rightarrow> nat \<Rightarrow> nat list" where
  "block_range n bs start = [start..<min (start + bs) n]"

section \<open>Validation\<close>

definition validate_matmul :: "tensor \<Rightarrow> tensor \<Rightarrow> tensor \<Rightarrow> unit result" where
  "validate_matmul lhs rhs output =
     (if tn_dtype lhs \<noteq> Float32 \<or> tn_dtype rhs \<noteq> Float32 \<or> tn_dtype output \<noteq> Float32
      then Inl (Invalid_argument ''CPU MatMul currently supports only float32 tensors'')
      else if tn_rank lhs \<noteq> 2 \<or> tn_rank rhs \<noteq> 2 \<or> tn_rank output \<noteq> 2 then Inl (Invalid_argument ''CPU MatMul expects rank-2 tensors'')
      else if tn_shape lhs ! 1 \<noteq> tn_shape rhs ! 0 then Inl (Invalid_argument ''CPU MatMul inner dimensions must match'')
      else if tn_shape output ! 0 \<noteq> tn_shape lhs ! 0 \<or> tn_shape output ! 1 \<noteq> tn_shape rhs ! 1
      then Inl (Invalid_argument ''CPU MatMul output shape is incorrect'')
      else if \<not> lay_contiguous (tn_layout output) then Inl (Invalid_argument ''CPU MatMul output must be contiguous'')
      else Inr ())"

record packed_rhs =
  pr_inner :: nat
  pr_columns :: nat
  pr_data :: "float32 list"

definition validate_packed_matmul :: "tensor \<Rightarrow> packed_rhs \<Rightarrow> tensor \<Rightarrow> unit result" where
  "validate_packed_matmul lhs rhs output =
     (if tn_dtype lhs \<noteq> Float32 \<or> tn_dtype output \<noteq> Float32 then Inl (Invalid_argument ''CPU packed MatMul supports only float32 tensors'')
      else if tn_rank lhs \<noteq> 2 \<or> tn_rank output \<noteq> 2 then Inl (Invalid_argument ''CPU packed MatMul expects rank-2 tensors'')
      else if nat (tn_shape lhs ! 1) \<noteq> pr_inner rhs then Inl (Invalid_argument ''CPU packed MatMul inner dimensions must match'')
      else if tn_shape output ! 0 \<noteq> tn_shape lhs ! 0 \<or> nat (tn_shape output ! 1) \<noteq> pr_columns rhs
      then Inl (Invalid_argument ''CPU packed MatMul output shape is incorrect'')
      else if \<not> lay_contiguous (tn_layout output) then Inl (Invalid_argument ''CPU packed MatMul output must be contiguous'')
      else Inr ())"

definition require_positive_blocks :: "block_size \<Rightarrow> unit result" where
  "require_positive_blocks bs = (if bk_rows bs = 0 \<or> bk_columns bs = 0 \<or> bk_inner bs = 0
     then Inl (Invalid_argument ''CPU MatMul block dimensions must be positive'') else Inr ())"

section \<open>Packing\<close>

definition pack_row :: "heap \<Rightarrow> pointer \<Rightarrow> nat \<Rightarrow> nat \<Rightarrow> nat \<Rightarrow> nat \<Rightarrow> float32 list \<Rightarrow> float32 list result" where
  "pack_row h src columns inner_stride column_stride k data =
     foldE (\<lambda>c data. bindE (load_float h src (k * inner_stride + c * column_stride)) (\<lambda>x. Inr (data[k * columns + c := x]))) [0..<columns] data"

definition pack_rhs :: "tensor \<Rightarrow> bool \<Rightarrow> heap \<Rightarrow> packed_rhs result" where
  "pack_rhs rhs swapped h =
     (if tn_dtype rhs \<noteq> Float32 \<or> tn_rank rhs \<noteq> 2 then Inl (Invalid_argument ''PackedMatMulRhs expects a rank-2 float32 tensor'')
      else let k = (if swapped then 1 else 0); c = (if swapped then 0 else 1);
               inner = nat (tn_shape rhs ! k); columns = nat (tn_shape rhs ! c) in
        bindE (typed_data Float32 rhs h) (\<lambda>src.
        bindE (foldE (pack_row h src columns (nat (tn_strides rhs ! k)) (nat (tn_strides rhs ! c))) [0..<inner] (replicate (inner * columns) 0))
          (\<lambda>data. Inr \<lparr>pr_inner = inner, pr_columns = columns, pr_data = data\<rparr>)))"

section \<open>The kernels\<close>

text \<open>The correctness oracle goes through the indexed interface of tensors.\<close>

definition load_at :: "heap \<Rightarrow> tensor \<Rightarrow> shape \<Rightarrow> float32 result" where
  "load_at h t idx = bindE (at_indices Float32 t h idx) (\<lambda>p. load_float h (Some p) 0)"

definition reference_sum :: "float_ops \<Rightarrow> tensor \<Rightarrow> tensor \<Rightarrow> nat \<Rightarrow> nat \<Rightarrow> nat \<Rightarrow> heap \<Rightarrow> float32 result" where
  "reference_sum fo lhs rhs inner row column h =
     foldE (\<lambda>k sum. bindE (load_at h lhs [int row, int k]) (\<lambda>a. bindE (load_at h rhs [int k, int column]) (\<lambda>b.
       Inr (scalar_madd fo sum a b)))) [0..<inner] 0"

definition matmul_reference :: "float_ops \<Rightarrow> tensor \<Rightarrow> tensor \<Rightarrow> tensor \<Rightarrow> heap \<Rightarrow> heap result" where
  "matmul_reference fo lhs rhs output h =
     bindE (validate_matmul lhs rhs output) (\<lambda>_.
       let rows = nat (tn_shape lhs ! 0); inner = nat (tn_shape lhs ! 1); columns = nat (tn_shape rhs ! 1) in
       foldE (\<lambda>row. foldE (\<lambda>column h. bindE (reference_sum fo lhs rhs inner row column h) (\<lambda>sum.
           bindE (at_flat Float32 output h (row * columns + column)) (\<lambda>p. store_float (Some p) 0 sum h)))
         [0..<columns]) [0..<rows] h)"

definition strided_sum :: "float_ops \<Rightarrow> tensor \<Rightarrow> tensor \<Rightarrow> pointer \<Rightarrow> pointer \<Rightarrow> nat \<Rightarrow> nat \<Rightarrow> nat \<Rightarrow> heap \<Rightarrow> float32 result" where
  "strided_sum fo lhs rhs lhs_data rhs_data inner row column h =
     foldE (\<lambda>k sum. bindE (load_float h lhs_data (row * nat (tn_strides lhs ! 0) + k * nat (tn_strides lhs ! 1))) (\<lambda>a.
       bindE (load_float h rhs_data (k * nat (tn_strides rhs ! 0) + column * nat (tn_strides rhs ! 1))) (\<lambda>b.
       Inr (scalar_madd fo sum a b)))) [0..<inner] 0"

definition matmul_strided :: "float_ops \<Rightarrow> tensor \<Rightarrow> tensor \<Rightarrow> tensor \<Rightarrow> heap \<Rightarrow> heap result" where
  "matmul_strided fo lhs rhs output h =
     bindE (validate_matmul lhs rhs output) (\<lambda>_.
       let rows = nat (tn_shape lhs ! 0); inner = nat (tn_shape lhs ! 1); columns = nat (tn_shape rhs ! 1) in
       bindE (typed_data Float32 lhs h) (\<lambda>lhs_data. bindE (typed_data Float32 rhs h) (\<lambda>rhs_data. bindE (typed_data Float32 output h) (\<lambda>dst.
       foldE (\<lambda>row. foldE (\<lambda>column h. bindE (strided_sum fo lhs rhs lhs_data rhs_data inner row column h) (\<lambda>sum.
         store_float dst (row * columns + column) sum h)) [0..<columns]) [0..<rows] h))))"

text \<open>\<open>std::fill\<close> with zero.\<close>

definition fill_zero :: "tensor \<Rightarrow> pointer \<Rightarrow> heap \<Rightarrow> heap result" where
  "fill_zero output dst h = (if tn_numel output > 0 then store_each dst Inr (\<lambda>i h. Inr 0) [0..<tn_numel output] h else Inr h)"

definition accumulate :: "float_ops \<Rightarrow> pointer \<Rightarrow> nat \<Rightarrow> float32 \<Rightarrow> float32 \<Rightarrow> heap \<Rightarrow> heap result" where
  "accumulate fo dst j a b h = bindE (load_float h dst j) (\<lambda>sum. store_float dst j (scalar_madd fo sum a b) h)"

definition blocked_row :: "float_ops \<Rightarrow> tensor \<Rightarrow> tensor \<Rightarrow> pointer \<Rightarrow> pointer \<Rightarrow> pointer \<Rightarrow> nat \<Rightarrow> nat list \<Rightarrow> nat list \<Rightarrow> nat \<Rightarrow> heap \<Rightarrow> heap result" where
  "blocked_row fo lhs rhs lhs_data rhs_data dst columns ks cs row =
     foldE (\<lambda>k h. bindE (load_float h lhs_data (row * nat (tn_strides lhs ! 0) + k * nat (tn_strides lhs ! 1))) (\<lambda>a.
       foldE (\<lambda>column h. bindE (load_float h rhs_data (k * nat (tn_strides rhs ! 0) + column * nat (tn_strides rhs ! 1))) (\<lambda>b.
         accumulate fo dst (row * columns + column) a b h)) cs h)) ks"

definition matmul_blocked :: "float_ops \<Rightarrow> tensor \<Rightarrow> tensor \<Rightarrow> tensor \<Rightarrow> block_size \<Rightarrow> heap \<Rightarrow> heap result" where
  "matmul_blocked fo lhs rhs output bs h =
     bindE (validate_matmul lhs rhs output) (\<lambda>_. bindE (require_positive_blocks bs) (\<lambda>_.
       let rows = nat (tn_shape lhs ! 0); inner = nat (tn_shape lhs ! 1); columns = nat (tn_shape rhs ! 1) in
       bindE (typed_data Float32 lhs h) (\<lambda>lhs_data. bindE (typed_data Float32 rhs h) (\<lambda>rhs_data. bindE (typed_data Float32 output h) (\<lambda>dst.
       bindE (fill_zero output dst h) (\<lambda>h1.
       foldE (\<lambda>rb. foldE (\<lambda>cb. foldE (\<lambda>ib. foldE (blocked_row fo lhs rhs lhs_data rhs_data dst columns (block_range inner (bk_inner bs) ib)
             (block_range columns (bk_columns bs) cb)) (block_range rows (bk_rows bs) rb))
           (block_starts inner (bk_inner bs))) (block_starts columns (bk_columns bs))) (block_starts rows (bk_rows bs)) h1))))))"

text \<open>
  One tile row of the packed product. The micro-kernel holds the lanes in a register; the columns left over after the
  last full register are done one by one. \<open>pr_data rhs ! i\<close> stays inside the packed data.
\<close>

definition simd_dot :: "simd_target \<Rightarrow> pointer \<Rightarrow> pointer \<Rightarrow> nat \<Rightarrow> nat \<Rightarrow> packed_rhs \<Rightarrow> nat \<Rightarrow> nat list \<Rightarrow> nat \<Rightarrow> heap \<Rightarrow> heap result" where
  "simd_dot st lhs_data dst lhs_row inner_stride rhs output_row ks column h =
     bindE (mapE (\<lambda>l. load_float h dst (output_row + column + l)) [0..<st_width st]) (\<lambda>lanes.
     bindE (foldE (\<lambda>k lanes. bindE (load_float h lhs_data (lhs_row + k * inner_stride)) (\<lambda>a.
         Inr (map2 (\<lambda>l x. st_madd st x a (pr_data rhs ! (k * pr_columns rhs + column + l))) [0..<st_width st] lanes))) ks lanes) (\<lambda>lanes.
     foldE (\<lambda>l. store_float dst (output_row + column + l) (lanes ! l)) [0..<st_width st] h))"

definition scalar_dot :: "float_ops \<Rightarrow> pointer \<Rightarrow> pointer \<Rightarrow> nat \<Rightarrow> nat \<Rightarrow> packed_rhs \<Rightarrow> nat \<Rightarrow> nat list \<Rightarrow> nat \<Rightarrow> heap \<Rightarrow> heap result" where
  "scalar_dot fo lhs_data dst lhs_row inner_stride rhs output_row ks column h =
     bindE (load_float h dst (output_row + column)) (\<lambda>sum.
     bindE (foldE (\<lambda>k sum. bindE (load_float h lhs_data (lhs_row + k * inner_stride)) (\<lambda>a.
         Inr (scalar_madd fo sum a (pr_data rhs ! (k * pr_columns rhs + column))))) ks sum) (\<lambda>sum.
     store_float dst (output_row + column) sum h))"

text \<open>The columns of the block \<open>[cb, ce)\<close> that go through the micro-kernel, in groups.\<close>

definition vector_groups :: "simd_target \<Rightarrow> nat \<Rightarrow> nat \<Rightarrow> nat" where
  "vector_groups st cb ce = (if st_width st > 1 then (ce - cb) div st_width st else 0)"

definition packed_row :: "float_ops \<Rightarrow> simd_target \<Rightarrow> tensor \<Rightarrow> packed_rhs \<Rightarrow> pointer \<Rightarrow> pointer \<Rightarrow> nat list \<Rightarrow> nat \<Rightarrow> nat \<Rightarrow> nat \<Rightarrow> heap \<Rightarrow> heap result" where
  "packed_row fo st lhs rhs lhs_data dst ks cb ce row h =
     (let lhs_row = row * nat (tn_strides lhs ! 0); inner_stride = nat (tn_strides lhs ! 1); output_row = row * pr_columns rhs;
          groups = vector_groups st cb ce in
      bindE (foldE (\<lambda>g. simd_dot st lhs_data dst lhs_row inner_stride rhs output_row ks (cb + g * st_width st)) [0..<groups] h)
        (foldE (scalar_dot fo lhs_data dst lhs_row inner_stride rhs output_row ks) [cb + groups * st_width st..<ce]))"

definition matmul_packed_simd :: "float_ops \<Rightarrow> simd_target \<Rightarrow> tensor \<Rightarrow> packed_rhs \<Rightarrow> tensor \<Rightarrow> block_size \<Rightarrow> heap \<Rightarrow> heap result" where
  "matmul_packed_simd fo st lhs rhs output bs h =
     bindE (validate_packed_matmul lhs rhs output) (\<lambda>_. bindE (require_positive_blocks bs) (\<lambda>_.
       let rows = nat (tn_shape lhs ! 0); inner = pr_inner rhs; columns = pr_columns rhs in
       bindE (typed_data Float32 lhs h) (\<lambda>lhs_data. bindE (typed_data Float32 output h) (\<lambda>dst. bindE (fill_zero output dst h) (\<lambda>h1.
       if rows = 0 \<or> inner = 0 \<or> columns = 0 then Inr h1
       else foldE (\<lambda>rb. foldE (\<lambda>cb. foldE (\<lambda>ib. foldE (packed_row fo st lhs rhs lhs_data dst (block_range inner (bk_inner bs) ib)
             cb (min (cb + bk_columns bs) columns)) (block_range rows (bk_rows bs) rb))
           (block_starts inner (bk_inner bs))) (block_starts columns (bk_columns bs))) (block_starts rows (bk_rows bs)) h1)))))"

section \<open>The operators\<close>

definition matmul_checks :: "tensor \<Rightarrow> tensor \<Rightarrow> unit result" where
  "matmul_checks lhs rhs =
     (if tn_dtype lhs \<noteq> Float32 \<or> tn_dtype rhs \<noteq> Float32 then Inl (Invalid_argument ''matmul currently supports only float32 tensors'')
      else if tn_rank lhs \<noteq> 2 \<or> tn_rank rhs \<noteq> 2 then Inl (Invalid_argument ''matmul expects two rank-2 tensors'')
      else if tn_shape lhs ! 1 \<noteq> tn_shape rhs ! 0 then Inl (Invalid_argument ''matmul inner dimensions must match'') else Inr ())"

definition matmul_out :: "float_ops \<Rightarrow> simd_target \<Rightarrow> tensor \<Rightarrow> tensor \<Rightarrow> tensor \<Rightarrow> heap \<Rightarrow> heap result" where
  "matmul_out fo st output lhs rhs h =
     bindE (matmul_checks lhs rhs) (\<lambda>_. bindE (pack_rhs rhs False h) (\<lambda>packed.
     matmul_packed_simd fo st lhs packed output default_blocks h))"

definition ops_matmul :: "float_ops \<Rightarrow> simd_target \<Rightarrow> tensor \<Rightarrow> tensor \<Rightarrow> heap \<Rightarrow> (tensor \<times> heap) result" where
  "ops_matmul fo st lhs rhs h =
     bindE (matmul_checks lhs rhs) (\<lambda>_. bindE (mk_tensor [tn_shape lhs ! 0, tn_shape rhs ! 1] Float32 True h) (\<lambda>(output, h1).
     bindE (matmul_out fo st output lhs rhs h1) (\<lambda>h2. Inr (output, h2))))"

definition ops_linear :: "float_ops \<Rightarrow> simd_target \<Rightarrow> tensor \<Rightarrow> tensor \<Rightarrow> tensor \<Rightarrow> heap \<Rightarrow> (tensor \<times> heap) result" where
  "ops_linear fo st inp weight bias h = bindE (ops_matmul fo st inp weight h) (\<lambda>(t, h1). ops_add fo t bias h1)"

text \<open>The epilogue \<open>alpha * x + beta * bias\<close> with an optional ReLU, over the finished product.\<close>

abbreviation float_one :: float32 where "float_one \<equiv> 0x3F800000"

text \<open>\<open>x != 1.0F\<close>: a NaN differs too, and no other pattern than that of one equals it.\<close>

definition apply_gemm_epilogue :: "float_ops \<Rightarrow> tensor \<Rightarrow> tensor option \<Rightarrow> float32 \<Rightarrow> float32 \<Rightarrow> bool \<Rightarrow> heap \<Rightarrow> heap result" where
  "apply_gemm_epilogue fo output bias alpha beta apply_relu h =
     bindE (typed_data Float32 output h) (\<lambda>dst. let finish = (\<lambda>x. if apply_relu then max_zero fo x else x) in
     case bias of
       Some b \<Rightarrow> bindE (mk_iterator [tn_layout output, tn_layout b]) (\<lambda>it.
         if it_shape it \<noteq> tn_shape output then Inl (Invalid_argument ''Gemm bias must broadcast to the output shape'')
         else bindE (typed_data Float32 b h) (\<lambda>bias_data.
           store_each dst Inr (\<lambda>i h. bindE (load_float h dst i) (\<lambda>x. bindE (operand_offset it 1 i) (\<lambda>off. bindE (load_float h bias_data off) (\<lambda>y.
             Inr (finish (fl_add fo (fl_mul fo alpha x) (fl_mul fo beta y))))))) [0..<it_numel it] h))
     | None \<Rightarrow> if alpha \<noteq> float_one \<or> apply_relu
         then store_each dst Inr (\<lambda>i h. bindE (load_float h dst i) (\<lambda>x. Inr (finish (fl_mul fo alpha x)))) [0..<tn_numel output] h
         else Inr h)"

definition validate_transpose :: "int \<Rightarrow> string \<Rightarrow> unit result" where
  "validate_transpose v name = (if v \<noteq> 0 \<and> v \<noteq> 1 then Inl (Invalid_argument (''Gemm '' @ name @ '' must be 0 or 1'')) else Inr ())"

text \<open>A transposed operand is a copy of the tensor (a deep one) whose dimensions are then swapped.\<close>

definition gemm_operand :: "int \<Rightarrow> tensor \<Rightarrow> heap \<Rightarrow> (tensor \<times> heap) result" where
  "gemm_operand tr t h = (if tr \<noteq> 0 then bindE (tensor_copy t h) (\<lambda>(t', h'). bindE (tensor_transpose 0 1 t') (\<lambda>u. Inr (u, h'))) else Inr (t, h))"

definition run_gemm :: "float_ops \<Rightarrow> simd_target \<Rightarrow> tensor \<Rightarrow> tensor \<Rightarrow> tensor \<Rightarrow> tensor option \<Rightarrow> float32 \<Rightarrow> float32 \<Rightarrow> int \<Rightarrow> int \<Rightarrow> bool \<Rightarrow> heap \<Rightarrow> heap result" where
  "run_gemm fo st output lhs rhs bias alpha beta trans_a trans_b relu h =
     bindE (validate_transpose trans_a ''transA'') (\<lambda>_. bindE (validate_transpose trans_b ''transB'') (\<lambda>_.
     bindE (gemm_operand trans_a lhs h) (\<lambda>(a, h1). bindE (gemm_operand trans_b rhs h1) (\<lambda>(b, h2).
     bindE (matmul_out fo st output a b h2) (\<lambda>h3. apply_gemm_epilogue fo output bias alpha beta relu h3)))))"

end
