(* ===== verification/Reduction_Kernels.thy ===== *)
theory Reduction_Kernels
  imports Kernel_Runner Reduction_Iterator
begin

text \<open>
  The reducing operators of \<^verbatim>\<open>src/ops/basic_ops.cpp\<close>: sums and maxima over axes, softmax and layer normalisation. They
  walk the groups of a reduction iterator and read each group in order, through consecutive positions where the
  iterator allows it and through its offsets otherwise.
\<close>

definition require_f32 :: "tensor \<Rightarrow> string \<Rightarrow> unit result" where
  "require_f32 t operation = (if tn_dtype t \<noteq> Float32
     then Inl (Invalid_argument (operation @ '' currently supports only float32 tensors'')) else Inr ())"

text \<open>Where element \<open>i\<close> of a group is read, and the logical index it has.\<close>

definition reduction_position :: "reduction_iterator \<Rightarrow> nat \<Rightarrow> nat \<Rightarrow> nat result" where
  "reduction_position ri grp i =
     (if ri_contiguous_reduction ri then Inr (grp * ri_reduction_numel ri + i) else input_offset ri grp i)"

definition reduction_index :: "reduction_iterator \<Rightarrow> nat \<Rightarrow> nat \<Rightarrow> nat result" where
  "reduction_index ri grp i =
     (if ri_contiguous_reduction ri then Inr (grp * ri_reduction_numel ri + i) else input_logical_index ri grp i)"

definition load_reduced :: "heap \<Rightarrow> pointer \<Rightarrow> reduction_iterator \<Rightarrow> nat \<Rightarrow> nat \<Rightarrow> float32 result" where
  "load_reduced h src ri grp i = bindE (reduction_position ri grp i) (load_float h src)"

text \<open>\<open>std::max(a, b)\<close>.\<close>

definition float_max :: "float_ops \<Rightarrow> float32 \<Rightarrow> float32 \<Rightarrow> float32" where
  "float_max fo a b = (if fl_less fo a b then b else a)"

section \<open>Reductions\<close>

definition group_sum :: "float_ops \<Rightarrow> pointer \<Rightarrow> reduction_iterator \<Rightarrow> nat \<Rightarrow> heap \<Rightarrow> float32 result" where
  "group_sum fo src ri grp h =
     foldE (\<lambda>i acc. bindE (load_reduced h src ri grp i) (\<lambda>x. Inr (fl_add fo acc x))) [0..<ri_reduction_numel ri] 0"

definition group_max :: "float_ops \<Rightarrow> pointer \<Rightarrow> reduction_iterator \<Rightarrow> nat \<Rightarrow> heap \<Rightarrow> float32 result" where
  "group_max fo src ri grp h =
     bindE (load_reduced h src ri grp 0) (\<lambda>first.
     foldE (\<lambda>i acc. bindE (load_reduced h src ri grp i) (\<lambda>x. Inr (float_max fo acc x))) [1..<ri_reduction_numel ri] first)"

definition ops_reduce_sum :: "float_ops \<Rightarrow> tensor \<Rightarrow> int list \<Rightarrow> bool \<Rightarrow> heap \<Rightarrow> (tensor \<times> heap) result" where
  "ops_reduce_sum fo inp axes keepdim h =
     bindE (require_f32 inp ''reduce_sum'') (\<lambda>_. bindE (mk_reduction (tn_layout inp) axes keepdim) (\<lambda>ri.
     bindE (mk_tensor (ri_output_shape ri) Float32 True h) (\<lambda>(output, h1).
     bindE (typed_data Float32 inp h1) (\<lambda>src. bindE (typed_data Float32 output h1) (\<lambda>dst.
     bindE (store_each dst Inr (group_sum fo src ri) [0..<ri_output_numel ri] h1) (\<lambda>h2. Inr (output, h2)))))))"

definition ops_reduce_max :: "float_ops \<Rightarrow> tensor \<Rightarrow> int list \<Rightarrow> bool \<Rightarrow> heap \<Rightarrow> (tensor \<times> heap) result" where
  "ops_reduce_max fo inp axes keepdim h =
     bindE (require_f32 inp ''reduce_max'') (\<lambda>_. bindE (mk_reduction (tn_layout inp) axes keepdim) (\<lambda>ri.
     if ri_reduction_numel ri = 0 then Inl (Invalid_argument ''reduce_max cannot reduce an empty dimension'')
     else bindE (mk_tensor (ri_output_shape ri) Float32 True h) (\<lambda>(output, h1).
     bindE (typed_data Float32 inp h1) (\<lambda>src. bindE (typed_data Float32 output h1) (\<lambda>dst.
     bindE (store_each dst Inr (group_max fo src ri) [0..<ri_output_numel ri] h1) (\<lambda>h2. Inr (output, h2)))))))"

section \<open>Softmax\<close>

text \<open>The exponentials are stored, and what is added to the denominator is read back from the output.\<close>

definition softmax_exponential :: "float_ops \<Rightarrow> pointer \<Rightarrow> pointer \<Rightarrow> reduction_iterator \<Rightarrow> nat \<Rightarrow> float32 \<Rightarrow> nat \<Rightarrow> heap \<times> float32 \<Rightarrow> (heap \<times> float32) result" where
  "softmax_exponential fo src dst ri grp maximum i s =
     bindE (load_reduced (fst s) src ri grp i) (\<lambda>x. bindE (reduction_index ri grp i) (\<lambda>j.
     bindE (store_float dst j (fl_exp fo (fl_sub fo x maximum)) (fst s)) (\<lambda>h.
     bindE (load_float h dst j) (\<lambda>y. Inr (h, fl_add fo (snd s) y)))))"

definition softmax_divide :: "float_ops \<Rightarrow> pointer \<Rightarrow> reduction_iterator \<Rightarrow> nat \<Rightarrow> float32 \<Rightarrow> nat \<Rightarrow> heap \<Rightarrow> heap result" where
  "softmax_divide fo dst ri grp denominator i h =
     bindE (reduction_index ri grp i) (\<lambda>j. bindE (load_float h dst j) (\<lambda>y. store_float dst j (fl_div fo y denominator) h))"

definition softmax_group :: "float_ops \<Rightarrow> pointer \<Rightarrow> pointer \<Rightarrow> reduction_iterator \<Rightarrow> nat \<Rightarrow> heap \<Rightarrow> heap result" where
  "softmax_group fo src dst ri grp h =
     bindE (group_max fo src ri grp h) (\<lambda>maximum.
     bindE (foldE (softmax_exponential fo src dst ri grp maximum) [0..<ri_reduction_numel ri] (h, 0)) (\<lambda>(h', denominator).
     foldE (softmax_divide fo dst ri grp denominator) [0..<ri_reduction_numel ri] h'))"

definition softmax_out :: "float_ops \<Rightarrow> tensor \<Rightarrow> tensor \<Rightarrow> int \<Rightarrow> heap \<Rightarrow> heap result" where
  "softmax_out fo output inp axis h =
     bindE (require_f32 inp ''softmax'') (\<lambda>_. bindE (mk_reduction (tn_layout inp) [axis] False) (\<lambda>ri.
     if ri_reduction_numel ri = 0 then Inl (Invalid_argument ''softmax cannot normalize an empty dimension'')
     else if tn_shape output \<noteq> tn_shape inp \<or> tn_dtype output \<noteq> Float32 \<or> \<not> lay_contiguous (tn_layout output)
     then Inl (Invalid_argument ''softmax output must be contiguous and match the input'')
     else bindE (typed_data Float32 inp h) (\<lambda>src. bindE (typed_data Float32 output h) (\<lambda>dst.
       foldE (softmax_group fo src dst ri) [0..<ri_output_numel ri] h))))"

section \<open>Layer normalisation\<close>

text \<open>\<open>weight\<close> and \<open>bias\<close> are null or have the shape of the last dimension.\<close>

definition check_parameter :: "int \<Rightarrow> tensor option \<Rightarrow> unit result" where
  "check_parameter width parameter = (case parameter of None \<Rightarrow> Inr ()
     | Some p \<Rightarrow> bindE (require_f32 p ''layer_norm'') (\<lambda>_. if tn_shape p \<noteq> [width]
         then Inl (Invalid_argument ''layer_norm weight and bias must match the final dimension'') else Inr ()))"

definition parameter_data :: "tensor option \<Rightarrow> heap \<Rightarrow> pointer result" where
  "parameter_data parameter h = (case parameter of None \<Rightarrow> Inr None | Some p \<Rightarrow> typed_data Float32 p h)"

definition group_mean :: "float_ops \<Rightarrow> pointer \<Rightarrow> reduction_iterator \<Rightarrow> nat \<Rightarrow> heap \<Rightarrow> float32 result" where
  "group_mean fo src ri grp h =
     bindE (group_sum fo src ri grp h) (\<lambda>total. Inr (fl_div fo total (fl_of_nat fo (ri_reduction_numel ri))))"

definition group_variance :: "float_ops \<Rightarrow> pointer \<Rightarrow> reduction_iterator \<Rightarrow> nat \<Rightarrow> float32 \<Rightarrow> heap \<Rightarrow> float32 result" where
  "group_variance fo src ri grp mean h =
     bindE (foldE (\<lambda>i acc. bindE (load_reduced h src ri grp i) (\<lambda>x.
         let centered = fl_sub fo x mean in Inr (fl_add fo acc (fl_mul fo centered centered)))) [0..<ri_reduction_numel ri] 0)
       (\<lambda>total. Inr (fl_div fo total (fl_of_nat fo (ri_reduction_numel ri))))"

text \<open>\<open>if (data) value = op(value, data[parameter.layout().storage_offset(i)])\<close>: the pointer is tested, not the parameter.\<close>

definition affine :: "(float32 \<Rightarrow> float32 \<Rightarrow> float32) \<Rightarrow> tensor option \<Rightarrow> pointer \<Rightarrow> nat \<Rightarrow> heap \<Rightarrow> float32 \<Rightarrow> float32 result" where
  "affine operation parameter data i h x = (case data of None \<Rightarrow> Inr x
     | Some _ \<Rightarrow> bindE (storage_offset (tn_layout (the parameter)) i) (\<lambda>off. bindE (load_float h data off) (\<lambda>w. Inr (operation x w))))"

definition layer_norm_value :: "float_ops \<Rightarrow> pointer \<Rightarrow> tensor option \<Rightarrow> pointer \<Rightarrow> tensor option \<Rightarrow> pointer \<Rightarrow> reduction_iterator \<Rightarrow> nat \<Rightarrow> float32 \<Rightarrow> float32 \<Rightarrow> nat \<Rightarrow> heap \<Rightarrow> float32 result" where
  "layer_norm_value fo src weight weight_data bias bias_data ri grp mean inverse_stddev i h =
     bindE (load_reduced h src ri grp i) (\<lambda>x.
     bindE (affine (fl_mul fo) weight weight_data i h (fl_mul fo (fl_sub fo x mean) inverse_stddev))
       (affine (fl_add fo) bias bias_data i h))"

definition layer_norm_group :: "float_ops \<Rightarrow> pointer \<Rightarrow> pointer \<Rightarrow> tensor option \<Rightarrow> pointer \<Rightarrow> tensor option \<Rightarrow> pointer \<Rightarrow> reduction_iterator \<Rightarrow> float32 \<Rightarrow> nat \<Rightarrow> heap \<Rightarrow> heap result" where
  "layer_norm_group fo src dst weight weight_data bias bias_data ri epsilon grp h =
     bindE (group_mean fo src ri grp h) (\<lambda>mean. bindE (group_variance fo src ri grp mean h) (\<lambda>variance.
     let inverse_stddev = fl_div fo 0x3F800000 (fl_sqrt fo (fl_add fo variance epsilon)) in
     store_each dst (reduction_index ri grp)
       (layer_norm_value fo src weight weight_data bias bias_data ri grp mean inverse_stddev) [0..<ri_reduction_numel ri] h))"

definition layer_norm_impl :: "float_ops \<Rightarrow> tensor \<Rightarrow> tensor \<Rightarrow> tensor option \<Rightarrow> tensor option \<Rightarrow> float32 \<Rightarrow> heap \<Rightarrow> heap result" where
  "layer_norm_impl fo output inp weight bias epsilon h =
     bindE (require_f32 inp ''layer_norm'') (\<lambda>_.
     if tn_rank inp = 0 \<or> last (tn_shape inp) \<le> 0 then Inl (Invalid_argument ''layer_norm expects a non-empty final dimension'')
     else if \<not> float_is_finite epsilon \<or> float_is_negative epsilon
     then Inl (Invalid_argument ''layer_norm epsilon must be finite and non-negative'')
     else bindE (check_parameter (last (tn_shape inp)) weight) (\<lambda>_. bindE (check_parameter (last (tn_shape inp)) bias) (\<lambda>_.
       if tn_shape output \<noteq> tn_shape inp \<or> tn_dtype output \<noteq> Float32 \<or> \<not> lay_contiguous (tn_layout output)
       then Inl (Invalid_argument ''layer_norm output must be contiguous and match the input'')
       else bindE (mk_reduction (tn_layout inp) [- 1] False) (\<lambda>ri.
         bindE (typed_data Float32 inp h) (\<lambda>src. bindE (typed_data Float32 output h) (\<lambda>dst.
         bindE (parameter_data weight h) (\<lambda>weight_data. bindE (parameter_data bias h) (\<lambda>bias_data.
         foldE (layer_norm_group fo src dst weight weight_data bias bias_data ri epsilon) [0..<ri_output_numel ri] h))))))))"

text \<open>The forms that allocate their result.\<close>

definition ops_softmax :: "float_ops \<Rightarrow> tensor \<Rightarrow> int \<Rightarrow> heap \<Rightarrow> (tensor \<times> heap) result" where
  "ops_softmax fo inp axis = fresh_unary (\<lambda>output inp. softmax_out fo output inp axis) inp"

definition ops_layer_norm :: "float_ops \<Rightarrow> tensor \<Rightarrow> tensor option \<Rightarrow> tensor option \<Rightarrow> float32 \<Rightarrow> heap \<Rightarrow> (tensor \<times> heap) result" where
  "ops_layer_norm fo inp weight bias epsilon = fresh_unary (\<lambda>output inp. layer_norm_impl fo output inp weight bias epsilon) inp"

end
