(* ===== verification/Cpu_Registry.thy ===== *)
theory Cpu_Registry
  imports Execution Matmul Reduction_Kernels
begin

text \<open>
  The CPU backend: the operator registry of \<^verbatim>\<open>src/backend/cpu/operator_registry.cpp\<close>, its kernel wrappers and
  \<^verbatim>\<open>src/backend/cpu/cpu_backend.cpp\<close>. A kernel prepares the output of its node, reads the inputs from the context and calls
  an operator. C++ leaves the order in which the arguments of that call are evaluated open; here it is left to right,
  and it only matters for which of two errors is thrown.
\<close>

type_synonym kernel_fun = "graph \<Rightarrow> node \<Rightarrow> execution_context \<Rightarrow> heap \<Rightarrow> (execution_context \<times> heap) result"

definition kernel_input :: "graph \<Rightarrow> node \<Rightarrow> execution_context \<Rightarrow> nat \<Rightarrow> tensor result" where
  "kernel_input g n c index =
     (if index \<ge> length (nd_inputs n) then Inl (Out_of_range ''vector::at'') else context_value g (nd_inputs n ! index) c)"

definition kernel_output :: "graph \<Rightarrow> node \<Rightarrow> execution_context \<Rightarrow> heap \<Rightarrow> (tensor \<times> execution_context \<times> heap) result" where
  "kernel_output g n c h =
     (if length (nd_outputs n) \<noteq> 1 then Inl (Logic_error ''CPU kernel expects exactly one output'')
      else prepare_output g (hd (nd_outputs n)) c h)"

definition node_integer :: "node \<Rightarrow> string \<Rightarrow> int \<Rightarrow> int result" where
  "node_integer n name default_value = (case map_of (nd_attributes n) name of None \<Rightarrow> Inr default_value | Some v \<Rightarrow> get_integer v)"

definition node_float :: "node \<Rightarrow> string \<Rightarrow> float32 \<Rightarrow> float32 result" where
  "node_float n name default_value = (case map_of (nd_attributes n) name of None \<Rightarrow> Inr default_value | Some v \<Rightarrow> get_float v)"

section \<open>The wrappers\<close>

definition unary_kernel :: "(tensor \<Rightarrow> tensor \<Rightarrow> heap \<Rightarrow> heap result) \<Rightarrow> kernel_fun" where
  "unary_kernel run g n c h =
     bindE (kernel_output g n c h) (\<lambda>(t, c1, h1). bindE (kernel_input g n c1 0) (\<lambda>x.
     bindE (run t x h1) (\<lambda>h2. Inr (c1, h2))))"

definition binary_kernel :: "(tensor \<Rightarrow> tensor \<Rightarrow> tensor \<Rightarrow> heap \<Rightarrow> heap result) \<Rightarrow> kernel_fun" where
  "binary_kernel run g n c h =
     bindE (kernel_output g n c h) (\<lambda>(t, c1, h1). bindE (kernel_input g n c1 0) (\<lambda>x. bindE (kernel_input g n c1 1) (\<lambda>y.
     bindE (run t x y h1) (\<lambda>h2. Inr (c1, h2)))))"

definition execute_gemm :: "float_ops \<Rightarrow> simd_target \<Rightarrow> bool \<Rightarrow> kernel_fun" where
  "execute_gemm fo st apply_relu g n c h =
     bindE (node_integer n ''transA'' 0) (\<lambda>trans_a. bindE (node_integer n ''transB'' 0) (\<lambda>trans_b.
     bindE (node_float n ''alpha'' float_one) (\<lambda>alpha. bindE (node_float n ''beta'' float_one) (\<lambda>beta.
     bindE (if length (nd_inputs n) = 3 then bindE (kernel_input g n c 2) (\<lambda>b. Inr (Some b)) else Inr None) (\<lambda>bias.
     binary_kernel (\<lambda>t x y. run_gemm fo st t x y bias alpha beta trans_a trans_b apply_relu) g n c h)))))"

definition fused_kernel :: "float_ops \<Rightarrow> simd_target \<Rightarrow> kernel_fun" where
  "fused_kernel fo st g n c h =
     bindE (case map_of (nd_attributes n) ''activation'' of None \<Rightarrow> Inl (Out_of_range ''node attribute does not exist'') | Some v \<Rightarrow> get_string v) (\<lambda>activation.
     if activation \<noteq> ''relu'' then Inl (Invalid_argument ''FusedGemmActivation currently supports only relu'')
     else execute_gemm fo st True g n c h)"

definition gelu_kernel :: "float_ops \<Rightarrow> kernel_fun" where
  "gelu_kernel fo g n c h =
     bindE (case map_of (nd_attributes n) ''approximate'' of None \<Rightarrow> Inr ''tanh'' | Some v \<Rightarrow> get_string v) (\<lambda>approximate.
     unary_kernel (\<lambda>t x. gelu_out fo t x approximate) g n c h)"

definition softmax_kernel :: "float_ops \<Rightarrow> kernel_fun" where
  "softmax_kernel fo g n c h = bindE (node_integer n ''axis'' (- 1)) (\<lambda>axis. unary_kernel (\<lambda>t x. softmax_out fo t x axis) g n c h)"

text \<open>The default of \<open>epsilon\<close> is \<open>1e-5F\<close>.\<close>

definition layer_norm_kernel :: "float_ops \<Rightarrow> kernel_fun" where
  "layer_norm_kernel fo g n c h =
     bindE (node_float n ''epsilon'' 0x3727C5AC) (\<lambda>epsilon.
     if length (nd_inputs n) = 1 then unary_kernel (\<lambda>t x. layer_norm_impl fo t x None None epsilon) g n c h
     else if length (nd_inputs n) = 2 then binary_kernel (\<lambda>t x w. layer_norm_impl fo t x (Some w) None epsilon) g n c h
     else bindE (kernel_output g n c h) (\<lambda>(t, c1, h1). bindE (kernel_input g n c1 0) (\<lambda>x. bindE (kernel_input g n c1 1) (\<lambda>w.
       bindE (kernel_input g n c1 2) (\<lambda>b. bindE (layer_norm_impl fo t x (Some w) (Some b) epsilon h1) (\<lambda>h2. Inr (c1, h2)))))))"

section \<open>The registry\<close>

type_synonym registry = "op_type \<Rightarrow> kernel_fun option"

text \<open>An empty \<open>std::function\<close> is \<open>None\<close>.\<close>

definition register_kernel :: "op_type \<Rightarrow> kernel_fun option \<Rightarrow> registry \<Rightarrow> registry result" where
  "register_kernel op k r = (case k of
     None \<Rightarrow> Inl (Invalid_argument ''CPU operator kernel must be callable'')
   | Some f \<Rightarrow> if r op \<noteq> None then Inl (Invalid_argument ''CPU operator kernel is already registered'') else Inr (r(op \<mapsto> f)))"

definition cpu_kernels :: "float_ops \<Rightarrow> simd_target \<Rightarrow> (op_type \<times> kernel_fun) list" where
  "cpu_kernels fo st =
     [(Op_Add, binary_kernel (add_out fo)), (Op_Subtract, binary_kernel (sub_out fo)), (Op_Multiply, binary_kernel (mul_out fo)),
      (Op_MatMul, binary_kernel (matmul_out fo st)), (Op_Gemm, execute_gemm fo st False), (Op_FusedGemmActivation, fused_kernel fo st),
      (Op_ReLU, unary_kernel (relu_out fo)), (Op_Tanh, unary_kernel (tanh_out fo)), (Op_GELU, gelu_kernel fo),
      (Op_Softmax, softmax_kernel fo), (Op_LayerNorm, layer_norm_kernel fo)]"

definition mk_cpu_registry :: "float_ops \<Rightarrow> simd_target \<Rightarrow> registry result" where
  "mk_cpu_registry fo st = foldE (\<lambda>(op, k). register_kernel op (Some k)) (cpu_kernels fo st) (\<lambda>_. None)"

definition registry_supports :: "registry \<Rightarrow> op_type \<Rightarrow> bool" where
  "registry_supports r op \<longleftrightarrow> r op \<noteq> None"

definition registry_execute :: "registry \<Rightarrow> kernel_fun" where
  "registry_execute r g n c h = (case r (nd_op n) of
     None \<Rightarrow> Inl (Runtime_error ''operator is not registered for the CPU backend'') | Some k \<Rightarrow> k g n c h)"

definition cpu_backend :: "registry \<Rightarrow> backend" where
  "cpu_backend r = \<lparr>be_supports = registry_supports r, be_execute = registry_execute r\<rparr>"

end
