(* ===== verification/Execution_Sound.thy ===== *)
theory Execution_Sound
  imports Execution
begin

text \<open>
  Running a graph computes it: with a backend whose kernels compute one node each, the executor leaves in every output
  of the graph the value the graph denotes, with and without a memory plan. The memory plan matters because a kernel
  may write its output into memory of a value that is no longer needed.
\<close>

section \<open>Separate tensors\<close>

definition separate :: "tensor \<Rightarrow> tensor \<Rightarrow> bool" where
  "separate t u \<longleftrightarrow> sto_buffer (tn_storage t) \<noteq> sto_buffer (tn_storage u) \<or>
     sto_byte_offset (tn_storage t) + sto_size_bytes (tn_storage t) \<le> sto_byte_offset (tn_storage u) \<or>
     sto_byte_offset (tn_storage u) + sto_size_bytes (tn_storage u) \<le> sto_byte_offset (tn_storage t)"

text \<open>A kernel may allocate, and it may write inside the storage of its output; all other bytes stay.\<close>

definition writes_only :: "tensor \<Rightarrow> heap \<Rightarrow> heap \<Rightarrow> bool" where
  "writes_only t h h' \<longleftrightarrow> length (hp_buffers h) \<le> length (hp_buffers h') \<and>
     (\<forall>b < length (hp_buffers h). buf_size h' b = buf_size h b \<and>
       (\<forall>q m. (sto_buffer (tn_storage t) = Some b \<longrightarrow>
             q + m \<le> sto_byte_offset (tn_storage t) \<or> sto_byte_offset (tn_storage t) + sto_size_bytes (tn_storage t) \<le> q) \<longrightarrow>
          read_bytes h' (b, q) m = read_bytes h (b, q) m))"

lemma writes_only_storage: "writes_only t h h' \<Longrightarrow> storage_ok h s \<Longrightarrow> storage_ok h' s"
  unfolding writes_only_def storage_ok_def by fastforce

lemma writes_only_tensor: "writes_only t h h' \<Longrightarrow> tensor_ok h u \<Longrightarrow> tensor_ok h' u"
  by (simp add: tensor_ok_def writes_only_storage)

lemma writes_only_contents:
  assumes w: "writes_only t h h'" and ok: "tensor_ok h u" and s: "separate t u"
  shows "tensor_contents h' u = tensor_contents h u"
proof -
  have "tensor_element h' u i = tensor_element h u i" if i: "i < tn_numel u" for i
  proof -
    obtain off b where l: "storage_offset (tn_layout u) i = Inr off" "sto_buffer (tn_storage u) = Some b" "b < length (hp_buffers h)"
      "storage_ptr h (tn_storage u) = Inr (b, sto_byte_offset (tn_storage u))"
      "sto_byte_offset (tn_storage u) + off * size_of (tn_dtype u) + size_of (tn_dtype u) \<le>
         sto_byte_offset (tn_storage u) + sto_size_bytes (tn_storage u)"
      by (rule element_location[OF ok i])
    have b: "buf_size h' b = buf_size h b" using w l(3) by (simp add: writes_only_def)
    have ptr: "storage_ptr h' (tn_storage u) = storage_ptr h (tn_storage u)"
      using l(2) b by (simp add: storage_ptr_def storage_data_def)
    have "read_bytes h' (b, sto_byte_offset (tn_storage u) + off * size_of (tn_dtype u)) (size_of (tn_dtype u)) =
        read_bytes h (b, sto_byte_offset (tn_storage u) + off * size_of (tn_dtype u)) (size_of (tn_dtype u))"
    proof -
      let ?p = "sto_byte_offset (tn_storage u) + off * size_of (tn_dtype u)"
      have "?p + size_of (tn_dtype u) \<le> sto_byte_offset (tn_storage t) \<or> sto_byte_offset (tn_storage t) + sto_size_bytes (tn_storage t) \<le> ?p"
        if "sto_buffer (tn_storage t) = Some b"
      proof -
        have "sto_byte_offset (tn_storage t) + sto_size_bytes (tn_storage t) \<le> sto_byte_offset (tn_storage u) \<or>
            sto_byte_offset (tn_storage u) + sto_size_bytes (tn_storage u) \<le> sto_byte_offset (tn_storage t)"
          using s l(2) that by (simp add: separate_def)
        then show ?thesis using l(5) by linarith
      qed
      then show ?thesis using w l(3) unfolding writes_only_def by blast
    qed
    then show ?thesis by (simp add: tensor_element_def l(1,4) ptr)
  qed
  then show ?thesis by (simp add: tensor_contents_def)
qed

lemma heap_ext_contents: "heap_ext h h' \<Longrightarrow> tensor_ok h u \<Longrightarrow> tensor_contents h' u = tensor_contents h u"
  by (rule contents_ext)

lemma fresh_separate: "tensor_ok h u \<Longrightarrow> sto_buffer (tn_storage t) = Some b \<Longrightarrow> length (hp_buffers h) \<le> b \<Longrightarrow> separate t u"
  by (auto simp: separate_def tensor_ok_def storage_ok_def)

section \<open>Allocation\<close>

lemma validate_specD:
  assumes "validate_spec s = Inr u"
  obtains l bytes where "mk_layout (spec_shape s) = Inr l" "size_bytes l (spec_dtype s) = Inr bytes"
  using assms by (auto simp: validate_spec_def)

lemma default_alignment_ok: "default_alignment AND (default_alignment - 1) = 0" "default_alignment \<noteq> 0"
  by (simp_all add: default_alignment_def)

lemma mk_buffer_default: "mk_buffer n True default_alignment h =
    (if n > hp_available h then Inl Bad_alloc else Inr (length (hp_buffers h),
        h\<lparr>hp_buffers := hp_buffers h @ [\<lparr>buf_bytes = map (hp_junk h) [0..<n], buf_alignment = default_alignment\<rparr>],
          hp_available := hp_available h - n\<rparr>))"
  using default_alignment_ok by (simp add: mk_buffer_def)

text \<open>A new tensor of a valid specification fails only for want of memory; its storage is a new buffer.\<close>

lemma mk_tensor_outcome:
  assumes "validate_spec s = Inr u"
  shows "mk_tensor (spec_shape s) (spec_dtype s) True h = Inl Bad_alloc \<or>
    (\<exists>t h'. mk_tensor (spec_shape s) (spec_dtype s) True h = Inr (t, h') \<and> sto_buffer (tn_storage t) = Some (length (hp_buffers h)))"
proof -
  obtain l bytes where l: "mk_layout (spec_shape s) = Inr l" "size_bytes l (spec_dtype s) = Inr bytes" by (rule validate_specD[OF assms])
  show ?thesis
  proof (cases "bytes > hp_available h")
    case True
    then show ?thesis by (simp add: mk_tensor_def l mk_storage_def mk_buffer_default)
  next
    case False
    let ?b = "length (hp_buffers h)"
    let ?h1 = "h\<lparr>hp_buffers := hp_buffers h @ [\<lparr>buf_bytes = map (hp_junk h) [0..<bytes], buf_alignment = default_alignment\<rparr>],
          hp_available := hp_available h - bytes\<rparr>"
    have size: "buf_size ?h1 ?b = bytes" by (simp add: buf_size_def)
    have "\<exists>h'. write_bytes (?b, 0) (replicate bytes 0) ?h1 = Inr h'"
      by (rule write_bytes_total) (simp_all add: size)
    then show ?thesis using False size by (auto simp: mk_tensor_def l mk_storage_def mk_buffer_default storage_ptr_def storage_data_def)
  qed
qed

lemma from_storage_outcome:
  assumes v: "validate_spec s = Inr u" and b: "sto_buffer st = Some b" "sto_size_bytes st = bytes"
    and bytes: "mk_layout (spec_shape s) = Inr l" "size_bytes l (spec_dtype s) = Inr bytes" and ok: "storage_ok h st"
  shows "\<exists>t. from_storage (spec_shape s) (spec_dtype s) st = Inr t \<and> tensor_ok h t \<and> tn_storage t = st \<and> tensor_spec_of t = s \<and>
    lay_contiguous (tn_layout t)"
proof -
  note L = mk_layout_ok[OF bytes(1)]
  have "tensor_ok h \<lparr>tn_layout = l, tn_dtype = spec_dtype s, tn_storage = st\<rparr>"
    using L ok contiguous_span[OF L(1,3)] bytes(2) b(2) by (simp add: tensor_ok_def size_bytes_def checked_multiply_Inr)
  then show ?thesis using bytes b L by (simp add: from_storage_def tensor_spec_of_def)
qed

section \<open>The contract of a backend\<close>

text \<open>
  A backend computes the meaning \<open>ops\<close> of the operators on a graph if for each node: it supports the operator; when the inputs are
  materialised it fails only where preparing the output fails or, on the nodes that \<open>copies\<close> names, where there is no
  memory to copy an operand; and where the prepared output is separate from the inputs, it leaves the context as
  prepared, writes only the output and leaves the meaning of the node in it.
\<close>

definition materialised :: "graph \<Rightarrow> node \<Rightarrow> execution_context \<Rightarrow> heap \<Rightarrow> tensor list \<Rightarrow> bool" where
  "materialised g n c h ts \<longleftrightarrow> ec_value_count c = length (g_values g) \<and> length (ec_values c) = length (g_values g) \<and>
     length ts = length (nd_inputs n) \<and>
     (\<forall>j < length ts. ec_values c ! (nd_inputs n ! j) = Some (ts ! j) \<and> tensor_ok h (ts ! j) \<and>
        tensor_spec_of (ts ! j) = gv_spec (g_values g ! (nd_inputs n ! j)))"

type_synonym operator_meaning = "op_type \<Rightarrow> node_attributes \<Rightarrow> contents list \<Rightarrow> contents"

definition computes_node :: "operator_meaning \<Rightarrow> (node \<Rightarrow> bool) \<Rightarrow> backend \<Rightarrow> graph \<Rightarrow> node \<Rightarrow> bool" where
  "computes_node ops copies be g n \<longleftrightarrow> be_supports be (nd_op n) \<and> (\<forall>c h ts. materialised g n c h ts \<longrightarrow>
     (case prepare_output g (hd (nd_outputs n)) c h of
        Inl e \<Rightarrow> be_execute be g n c h = Inl e
      | Inr (t, c1, h1) \<Rightarrow> tensor_ok h1 t \<longrightarrow> tensor_spec_of t = gv_spec (g_values g ! hd (nd_outputs n)) \<longrightarrow>
          lay_contiguous (tn_layout t) \<longrightarrow> heap_ext h h1 \<longrightarrow> list_all (separate t) ts \<longrightarrow>
          (copies n \<and> be_execute be g n c h = Inl Bad_alloc) \<or>
          (\<exists>h2. be_execute be g n c h = Inr (c1, h2) \<and> writes_only t h1 h2 \<and>
             tensor_contents h2 t = ops (nd_op n) (nd_attributes n) (map (tensor_contents h) ts))))"

definition backend_computes :: "operator_meaning \<Rightarrow> (node \<Rightarrow> bool) \<Rightarrow> backend \<Rightarrow> graph \<Rightarrow> bool" where
  "backend_computes ops copies be g \<longleftrightarrow> (\<forall>k < length (g_nodes g). computes_node ops copies be g (g_nodes g ! k))"

text \<open>A run may fail for lack of memory where nothing is planned or an operand is copied.\<close>

definition may_run_out :: "(node \<Rightarrow> bool) \<Rightarrow> graph \<Rightarrow> execution_context \<Rightarrow> bool" where
  "may_run_out copies g c \<longleftrightarrow> ec_plan c = None \<or> (\<exists>n \<in> set (g_nodes g). copies n)"

section \<open>The invariant\<close>

text \<open>The bound inputs and the copied constants survive a run: none of them lies in the planned buffer.\<close>

definition context_ok :: "nat \<Rightarrow> graph \<Rightarrow> execution_context \<Rightarrow> heap \<Rightarrow> bool" where
  "context_ok a g c h \<longleftrightarrow> ec_graph c = a \<and> ec_value_count c = length (g_values g) \<and> length (ec_values c) = length (g_values g) \<and>
     (\<forall>p. ec_plan c = Some p \<longrightarrow> mk_memory_plan a g = Inr p \<and>
        (\<exists>b. ec_buffer c = Some b \<and> b < length (hp_buffers h) \<and> buf_size h b = mpl_buffer_size p)) \<and>
     (\<forall>i < length (g_values g). \<forall>t. \<not> intermediate g i \<longrightarrow> ec_values c ! i = Some t \<longrightarrow>
        tensor_ok h t \<and> tensor_spec_of t = gv_spec (g_values g ! i) \<and> sto_buffer (tn_storage t) \<noteq> ec_buffer c) \<and>
     (\<forall>i < length (g_values g). \<forall>ct. g_constants g ! i = Some ct \<longrightarrow>
        tensor_ok h ct \<and> sto_buffer (tn_storage ct) \<noteq> ec_buffer c \<and>
        (\<exists>t. ec_values c ! i = Some t \<and> tensor_contents h t = tensor_contents h ct))"

lemma context_okD:
  assumes "context_ok a g c h"
  shows "ec_graph c = a" "ec_value_count c = length (g_values g)" "length (ec_values c) = length (g_values g)"
    "ec_plan c = Some p \<Longrightarrow> mk_memory_plan a g = Inr p \<and>
        (\<exists>b. ec_buffer c = Some b \<and> b < length (hp_buffers h) \<and> buf_size h b = mpl_buffer_size p)"
    "i < length (g_values g) \<Longrightarrow> \<not> intermediate g i \<Longrightarrow> ec_values c ! i = Some t \<Longrightarrow>
        tensor_ok h t \<and> tensor_spec_of t = gv_spec (g_values g ! i) \<and> sto_buffer (tn_storage t) \<noteq> ec_buffer c"
    "i < length (g_values g) \<Longrightarrow> g_constants g ! i = Some ct \<Longrightarrow> tensor_ok h ct \<and> sto_buffer (tn_storage ct) \<noteq> ec_buffer c \<and>
        (\<exists>t. ec_values c ! i = Some t \<and> tensor_contents h t = tensor_contents h ct)"
  using assms unfolding context_ok_def by blast+

text \<open>The values step \<open>k\<close> and later steps may still read. Without a plan nothing is released.\<close>

definition needed :: "graph \<Rightarrow> bool \<Rightarrow> nat \<Rightarrow> nat \<Rightarrow> bool" where
  "needed g planned k i \<longleftrightarrow> i < length (g_values g) \<and> intermediate g i \<and> producer_step g i < k \<and> (planned \<longrightarrow> k \<le> last_step_of g i)"

definition in_place :: "execution_context \<Rightarrow> nat \<Rightarrow> tensor \<Rightarrow> bool" where
  "in_place c i t \<longleftrightarrow> (\<forall>p. ec_plan c = Some p \<longrightarrow> sto_buffer (tn_storage t) = ec_buffer c \<and>
     (\<exists>al. plan_allocation p i = Inr al \<and> sto_byte_offset (tn_storage t) = ba_byte_offset al \<and> sto_size_bytes (tn_storage t) = ba_size al))"

definition computed :: "contents meaning \<Rightarrow> graph \<Rightarrow> nat \<Rightarrow> execution_context \<Rightarrow> heap \<Rightarrow> bool" where
  "computed M g k c h \<longleftrightarrow> (\<forall>i. needed g (ec_plan c \<noteq> None) k i \<longrightarrow> (\<exists>t. ec_values c ! i = Some t \<and> tensor_ok h t \<and>
     tensor_spec_of t = gv_spec (g_values g ! i) \<and> denotes M h g i (tensor_contents h t) \<and> in_place c i t))"

definition inputs_hold :: "contents meaning \<Rightarrow> graph \<Rightarrow> execution_context \<Rightarrow> heap \<Rightarrow> bool" where
  "inputs_hold M g c h \<longleftrightarrow> (\<forall>i < length (g_values g). gv_kind (g_values g ! i) = Kind_input \<longrightarrow>
     (\<exists>t. ec_values c ! i = Some t \<and> mn_input M (gv_name (g_values g ! i)) = tensor_contents h t))"

lemma denotes_heap:
  assumes "denotes M h g i v" and "\<And>j t. j < length (g_values g) \<Longrightarrow> g_constants g ! j = Some t \<Longrightarrow> tensor_contents h' t = tensor_contents h t"
  shows "denotes M h' g i v"
  using assms(1)
proof (induction rule: denotes.induct)
  case (of_input i)
  then show ?case by (rule denotes.of_input)
next
  case (of_constant i t)
  then show ?case using denotes.of_constant[of i g t M h'] assms(2)[of i t] by simp
next
  case (of_node i p vs)
  then show ?case by (intro denotes.of_node) auto
qed

lemma value_bytes_spec:
  assumes ok: "graph_ok g" and i: "i < length (g_values g)"
  obtains l where "mk_layout (spec_shape (gv_spec (g_values g ! i))) = Inr l"
    "size_bytes l (spec_dtype (gv_spec (g_values g ! i))) = Inr (value_bytes g i)"
proof -
  have "validate_spec (gv_spec (g_values g ! i)) = Inr ()" using ok i by (simp add: graph_ok_def value_ok_def Let_def)
  then show ?thesis using that by (auto simp: validate_spec_def value_bytes_def)
qed

section \<open>Preparing an output\<close>

lemma prepare_outcome:
  assumes ok: "graph_ok g" and c: "context_ok a g c h" and v: "v < length (g_values g)" "intermediate g v"
  shows "(ec_plan c = None \<and> prepare_output g v c h = Inl Bad_alloc) \<or>
    (\<exists>t h1. prepare_output g v c h = Inr (t, c\<lparr>ec_values := (ec_values c)[v := Some t]\<rparr>, h1) \<and> tensor_ok h1 t \<and>
       tensor_spec_of t = gv_spec (g_values g ! v) \<and> lay_contiguous (tn_layout t) \<and> heap_ext h h1 \<and> in_place c v t \<and>
       (ec_plan c = None \<longrightarrow> sto_buffer (tn_storage t) = Some (length (hp_buffers h))))"
proof -
  let ?s = "gv_spec (g_values g ! v)"
  have valid: "validate_spec ?s = Inr ()" using ok v by (simp add: graph_ok_def value_ok_def Let_def)
  have cur: "require_current_graph g c = Inr ()" "graph_value_at g v = Inr (g_values g ! v)"
    using c v by (simp_all add: require_current_graph_def context_ok_def graph_value_at_def)
  show ?thesis
  proof (cases "ec_plan c")
    case None
    from mk_tensor_outcome[OF valid, of h] consider (alloc) "mk_tensor (spec_shape ?s) (spec_dtype ?s) True h = Inl Bad_alloc"
      | (made) t h1 where "mk_tensor (spec_shape ?s) (spec_dtype ?s) True h = Inr (t, h1)" "sto_buffer (tn_storage t) = Some (length (hp_buffers h))"
      by blast
    then show ?thesis
    proof cases
      case alloc
      then show ?thesis using None cur v(2) by (simp add: prepare_output_def)
    next
      case made
      note T = mk_tensor_ok[OF made(1)]
      have "prepare_output g v c h = Inr (t, c\<lparr>ec_values := (ec_values c)[v := Some t]\<rparr>, h1)"
        using None cur v(2) made(1) by (simp add: prepare_output_def)
      then show ?thesis using T made(2) None by (auto simp: tensor_spec_of_def in_place_def)
    qed
  next
    case (Some p)
    obtain b where p: "mk_memory_plan a g = Inr p" "ec_buffer c = Some b" "b < length (hp_buffers h)" "buf_size h b = mpl_buffer_size p"
      using c Some by (auto simp: context_ok_def)
    from plan_allocations[OF ok p(1)] v obtain al where al: "plan_allocation p v = Inr al" "ba_size al = value_bytes g v"
      "ba_byte_offset al + ba_size al \<le> mpl_buffer_size p" by blast
    obtain l where l: "mk_layout (spec_shape ?s) = Inr l" "size_bytes l (spec_dtype ?s) = Inr (ba_size al)"
      by (rule value_bytes_spec[OF ok v(1)]) (simp add: al(2))
    let ?st = "\<lparr>sto_buffer = Some b, sto_byte_offset = ba_byte_offset al, sto_size_bytes = ba_size al\<rparr>"
    have st: "storage_view (ec_buffer c) (ba_byte_offset al) (ba_size al) h = Inr ?st"
      using p al(3) by (auto simp: storage_view_def)
    have "storage_ok h ?st" using p(3,4) al(3) by (simp add: storage_ok_def)
    from from_storage_outcome[OF valid _ _ l this] obtain t where
      t: "from_storage (spec_shape ?s) (spec_dtype ?s) ?st = Inr t" "tensor_ok h t" "tn_storage t = ?st" "tensor_spec_of t = ?s"
        "lay_contiguous (tn_layout t)" by auto
    have "prepare_output g v c h = Inr (t, c\<lparr>ec_values := (ec_values c)[v := Some t]\<rparr>, h)"
      using Some cur v(2) al(1) st t(1) by (simp add: prepare_output_def)
    then show ?thesis using t Some al(1) p(2) by (auto simp: in_place_def)
  qed
qed

section \<open>One step\<close>

lemma foldl_clear: "length (foldl clear_slot vals ids) = length vals"
  "i < length vals \<Longrightarrow> foldl clear_slot vals ids ! i = (if i \<in> set ids then None else vals ! i)"
  by (induction ids arbitrary: vals) (auto simp: clear_slot_def nth_list_update)

definition released :: "graph \<Rightarrow> bool \<Rightarrow> nat \<Rightarrow> nat \<Rightarrow> bool" where
  "released g planned k i \<longleftrightarrow> planned \<and> intermediate g i \<and> last_step_of g i = k"

lemma release_outcome:
  assumes ok: "graph_ok g" and c: "context_ok a g c h" and k: "k < length (g_nodes g)" and len: "length vals = length (g_values g)"
  obtains vals' where "release_after_step g k (c\<lparr>ec_values := vals\<rparr>) = Inr (c\<lparr>ec_values := vals'\<rparr>)" "length vals' = length (g_values g)"
    "\<forall>i < length (g_values g). vals' ! i = (if released g (ec_plan c \<noteq> None) k i then None else vals ! i)"
proof (cases "ec_plan c")
  case None
  show ?thesis
    by (rule that[of "vals"]) (use c None len in \<open>simp_all add: release_after_step_def require_current_graph_def context_ok_def released_def\<close>)
next
  case (Some p)
  let ?rs = "filter (\<lambda>i. last_step_of g i = k) (filter (intermediate g) [0..<length (g_values g)])"
  have p: "mk_memory_plan a g = Inr p" using c Some by (simp add: context_ok_def)
  show ?thesis
  proof (rule that[of "foldl clear_slot vals ?rs"])
    show "release_after_step g k (c\<lparr>ec_values := vals\<rparr>) = Inr (c\<lparr>ec_values := foldl clear_slot vals ?rs\<rparr>)"
      using c k Some plan_released[OF ok p k] by (simp add: release_after_step_def require_current_graph_def context_ok_def)
  qed (use len Some foldl_clear in \<open>auto simp: released_def\<close>)
qed

text \<open>A value that the step may read is in its slot and holds what it denotes.\<close>

lemma slot_ready:
  assumes ok: "graph_ok g" and M: "mn_constant M = (\<lambda>x. x)" and c: "context_ok a g c h" and "computed M g k c h" and "inputs_hold M g c h"
    and i: "i < length (g_values g)" "intermediate g i \<Longrightarrow> needed g (ec_plan c \<noteq> None) k i"
  shows "\<exists>t. ec_values c ! i = Some t \<and> tensor_ok h t \<and> tensor_spec_of t = gv_spec (g_values g ! i) \<and>
    denotes M h g i (tensor_contents h t) \<and> (intermediate g i \<longrightarrow> in_place c i t) \<and>
    (\<not> intermediate g i \<longrightarrow> sto_buffer (tn_storage t) \<noteq> ec_buffer c)"
proof -
  have vo: "value_ok g i" using ok i(1) by (simp add: graph_ok_def)
  show ?thesis
  proof (cases "gv_kind (g_values g ! i)")
    case Kind_input
    then obtain t where t: "ec_values c ! i = Some t" "mn_input M (gv_name (g_values g ! i)) = tensor_contents h t"
      using assms(5) i(1) by (auto simp: inputs_hold_def)
    have "denotes M h g i (tensor_contents h t)" using denotes.of_input[OF i(1) Kind_input, of M h] t(2) by simp
    then show ?thesis using t(1) context_okD(5)[OF c i(1) _ t(1)] Kind_input by simp
  next
    case Kind_constant
    then obtain ct where ct: "g_constants g ! i = Some ct" using vo by (auto simp: value_ok_def Let_def)
    then obtain t where t: "ec_values c ! i = Some t" "tensor_contents h t = tensor_contents h ct"
      using context_okD(6)[OF c i(1) ct] by blast
    have "denotes M h g i (tensor_contents h t)" using denotes.of_constant[OF i(1) Kind_constant ct, of M h] t(2) M by simp
    then show ?thesis using t(1) context_okD(5)[OF c i(1) _ t(1)] Kind_constant by simp
  next
    case Kind_intermediate
    then show ?thesis using assms(4) i(2) by (auto simp: computed_def)
  qed
qed

lemma slot_separate:
  assumes ok: "graph_ok g" and c: "context_ok a g c h" and v: "alive g k v" and t: "in_place c v t"
    "ec_plan c = None \<longrightarrow> sto_buffer (tn_storage t) = Some (length (hp_buffers h))"
    and u: "tensor_ok h u" "i \<noteq> v" "intermediate g i \<longrightarrow> in_place c i u \<and> (ec_plan c \<noteq> None \<longrightarrow> alive g k i)"
      "\<not> intermediate g i \<longrightarrow> sto_buffer (tn_storage u) \<noteq> ec_buffer c"
  shows "separate t u"
proof (cases "ec_plan c")
  case None
  then show ?thesis using fresh_separate[OF u(1)] t(2) by simp
next
  case (Some p)
  then have p: "mk_memory_plan a g = Inr p" using c by (simp add: context_ok_def)
  from plan_allocations[OF ok p] obtain alloc where
    al: "\<forall>i < length (g_values g). intermediate g i \<longrightarrow> plan_allocation p i = Inr (alloc i)"
    and ap: "\<forall>step i j. alive g step i \<longrightarrow> alive g step j \<longrightarrow> i \<noteq> j \<longrightarrow> disjoint_ranges (alloc i) (alloc j)" by blast
  show ?thesis
  proof (cases "intermediate g i")
    case False
    then show ?thesis using u(4) t(1) Some by (auto simp: separate_def in_place_def)
  next
    case True
    then have i: "alive g k i" "in_place c i u" using u(3) Some by simp_all
    have "disjoint_ranges (alloc v) (alloc i)" using ap v i(1) u(2) by metis
    moreover have "plan_allocation p v = Inr (alloc v)" "plan_allocation p i = Inr (alloc i)" using al v i(1) by (simp_all add: alive_def)
    ultimately show ?thesis using t(1) i(2) Some by (auto simp: separate_def in_place_def disjoint_ranges_def)
  qed
qed

lemma node_output_slot:
  assumes "graph_ok g" and "k < length (g_nodes g)"
  obtains v where "nd_outputs (g_nodes g ! k) = [v]" "v < length (g_values g)" "intermediate g v" "gv_producer (g_values g ! v) = Some k"
  using assms that unfolding graph_ok_def node_ok_def Let_def by blast

lemma node_input:
  assumes "graph_ok g" and "k < length (g_nodes g)" and i: "i \<in> set (nd_inputs (g_nodes g ! k))"
  shows "i < length (g_values g)" "intermediate g i \<Longrightarrow> producer_step g i < k"
proof -
  have "node_ok g k" using assms by (simp add: graph_ok_def)
  then have r: "i < length (g_values g)" "\<And>p. gv_producer (g_values g ! i) = Some p \<Longrightarrow> p < k" using i unfolding node_ok_def Let_def by blast+
  then show "i < length (g_values g)" by blast
  have "value_ok g i" using assms(1) r(1) by (simp add: graph_ok_def)
  then show "intermediate g i \<Longrightarrow> producer_step g i < k" using r(2) by (auto simp: value_ok_def Let_def producer_step_def)
qed

lemma node_inputs_ready:
  assumes ok: "graph_ok g" and M: "mn_constant M = (\<lambda>x. x)" and c: "context_ok a g c h" and "computed M g k c h" and "inputs_hold M g c h"
    and k: "k < length (g_nodes g)"
  obtains ts where "materialised g (g_nodes g ! k) c h ts"
    "\<forall>j < length ts. denotes M h g (nd_inputs (g_nodes g ! k) ! j) (map (tensor_contents h) ts ! j)"
    "\<And>t v. alive g k v \<Longrightarrow> v \<notin> set (nd_inputs (g_nodes g ! k)) \<Longrightarrow> in_place c v t \<Longrightarrow>
       ec_plan c = None \<longrightarrow> sto_buffer (tn_storage t) = Some (length (hp_buffers h)) \<Longrightarrow> list_all (separate t) ts"
proof -
  let ?ins = "nd_inputs (g_nodes g ! k)"
  have al: "intermediate g i \<Longrightarrow> alive g k i" if "i \<in> set ?ins" for i using used_alive[OF ok k] that by blast
  have ready: "\<exists>t. ec_values c ! i = Some t \<and> tensor_ok h t \<and> tensor_spec_of t = gv_spec (g_values g ! i) \<and>
      denotes M h g i (tensor_contents h t) \<and> (intermediate g i \<longrightarrow> in_place c i t) \<and>
      (\<not> intermediate g i \<longrightarrow> sto_buffer (tn_storage t) \<noteq> ec_buffer c)" if "i \<in> set ?ins" for i
    by (rule slot_ready[OF ok M c assms(4,5)]) (use node_input[OF ok k that] al[OF that] in \<open>auto simp: needed_def alive_def\<close>)
  then obtain f where f: "\<And>i. i \<in> set ?ins \<Longrightarrow> ec_values c ! i = Some (f i) \<and> tensor_ok h (f i) \<and> tensor_spec_of (f i) = gv_spec (g_values g ! i) \<and>
      denotes M h g i (tensor_contents h (f i)) \<and> (intermediate g i \<longrightarrow> in_place c i (f i)) \<and>
      (\<not> intermediate g i \<longrightarrow> sto_buffer (tn_storage (f i)) \<noteq> ec_buffer c)" by metis
  show ?thesis
  proof (rule that[of "map f ?ins"])
    show "materialised g (g_nodes g ! k) c h (map f ?ins)" using f context_okD(2,3)[OF c] by (simp add: materialised_def)
    show "\<forall>j < length (map f ?ins). denotes M h g (?ins ! j) (map (tensor_contents h) (map f ?ins) ! j)" using f by simp
    fix t v assume t: "alive g k v" "v \<notin> set ?ins" "in_place c v t" "ec_plan c = None \<longrightarrow> sto_buffer (tn_storage t) = Some (length (hp_buffers h))"
    have "separate t (f i)" if "i \<in> set ?ins" for i
      by (rule slot_separate[OF ok c t(1,3,4), of "f i" i]) (use f[OF that] al[OF that] t(2) that in auto)
    then show "list_all (separate t) (map f ?ins)" by (simp add: list_all_iff)
  qed
qed

lemma kept_slots:
  assumes ok: "graph_ok g" and c: "context_ok a g c h" and k: "k < length (g_nodes g)"
    and v: "nd_outputs (g_nodes g ! k) = [v]" and i: "needed g (ec_plan c \<noteq> None) (Suc k) i" "i \<noteq> v"
  shows "needed g (ec_plan c \<noteq> None) k i" "ec_plan c \<noteq> None \<Longrightarrow> alive g k i" "\<not> released g (ec_plan c \<noteq> None) k i"
proof -
  have r: "i < length (g_values g)" "intermediate g i" using i(1) by (simp_all add: needed_def)
  then have "value_ok g i" using ok by (simp add: graph_ok_def)
  then obtain p where p: "gv_producer (g_values g ! i) = Some p" "i \<in> set (nd_outputs (g_nodes g ! p))" using r(2) by (auto simp: value_ok_def Let_def)
  then have "p \<noteq> k" using v i(2) by auto
  then show n: "needed g (ec_plan c \<noteq> None) k i" using i(1) p(1) by (auto simp: needed_def producer_step_def)
  show "ec_plan c \<noteq> None \<Longrightarrow> alive g k i" using n by (simp add: needed_def alive_def less_imp_le)
  show "\<not> released g (ec_plan c \<noteq> None) k i" using i(1) by (auto simp: needed_def released_def)
qed

text \<open>The state after a step: the prepared output is stored, the kernel has run and the dead values are gone.\<close>

definition stepped :: "graph \<Rightarrow> nat \<Rightarrow> nat \<Rightarrow> tensor \<Rightarrow> execution_context \<Rightarrow> execution_context \<Rightarrow> bool" where
  "stepped g k v t c c' \<longleftrightarrow> (\<exists>vals. c' = c\<lparr>ec_values := vals\<rparr> \<and> length vals = length (g_values g) \<and> (\<forall>i < length (g_values g).
     vals ! i = (if released g (ec_plan c \<noteq> None) k i then None else if i = v then Some t else ec_values c ! i)))"

definition constants_kept :: "graph \<Rightarrow> heap \<Rightarrow> heap \<Rightarrow> bool" where
  "constants_kept g h h' \<longleftrightarrow> (\<forall>i < length (g_values g). \<forall>t. g_constants g ! i = Some t \<longrightarrow> tensor_contents h' t = tensor_contents h t)"

lemma step_invariant:
  assumes ok: "graph_ok g" and c: "context_ok a g c h" and done_before: "computed M g k c h" and "inputs_hold M g c h"
    and k: "k < length (g_nodes g)" and v: "nd_outputs (g_nodes g ! k) = [v]" "intermediate g v"
    and t: "tensor_ok h' t" "tensor_spec_of t = gv_spec (g_values g ! v)" "in_place c v t" "denotes M h' g v (tensor_contents h' t)"
    and st: "stepped g k v t c c'"
    and mem: "length (hp_buffers h) \<le> length (hp_buffers h')" "\<And>b. b < length (hp_buffers h) \<Longrightarrow> buf_size h' b = buf_size h b"
    and kept: "\<And>u i. tensor_ok h u \<Longrightarrow> i \<noteq> v \<Longrightarrow> intermediate g i \<longrightarrow> in_place c i u \<and> (ec_plan c \<noteq> None \<longrightarrow> alive g k i) \<Longrightarrow>
      \<not> intermediate g i \<longrightarrow> sto_buffer (tn_storage u) \<noteq> ec_buffer c \<Longrightarrow> tensor_ok h' u \<and> tensor_contents h' u = tensor_contents h u"
  shows "context_ok a g c' h'" "computed M g (Suc k) c' h'" "inputs_hold M g c' h'" "constants_kept g h h'"
proof -
  obtain vals where c': "c' = c\<lparr>ec_values := vals\<rparr>" and len: "length vals = length (g_values g)"
    and vals: "\<And>i. i < length (g_values g) \<Longrightarrow> vals ! i = (if released g (ec_plan c \<noteq> None) k i then None else if i = v then Some t else ec_values c ! i)"
    using st unfolding stepped_def by blast
  have other: "vals ! i = ec_values c ! i" if "i < length (g_values g)" "\<not> intermediate g i" for i
    using vals[OF that(1)] that(2) v(2) by (auto simp: released_def)
  have const_ok: "tensor_ok h' ct \<and> tensor_contents h' ct = tensor_contents h ct" if "i < length (g_values g)" "g_constants g ! i = Some ct" for i ct
  proof -
    have "\<not> intermediate g i" using ok that by (auto simp: graph_ok_def value_ok_def Let_def)
    then have "i \<noteq> v" using v(2) by auto
    then show ?thesis using kept[of ct i] context_okD(6)[OF c that] \<open>\<not> intermediate g i\<close> by blast
  qed
  have slots: "tensor_ok h' u \<and> tensor_contents h' u = tensor_contents h u"
    if "i < length (g_values g)" "\<not> intermediate g i" "ec_values c ! i = Some u" for i u
    using kept[of u i] context_okD(5)[OF c that] that(2) v(2) by blast
  show "context_ok a g c' h'"
    unfolding context_ok_def
  proof (intro conjI allI impI)
    fix p assume "ec_plan c' = Some p"
    then show "mk_memory_plan a g = Inr p" "\<exists>b. ec_buffer c' = Some b \<and> b < length (hp_buffers h') \<and> buf_size h' b = mpl_buffer_size p"
      using context_okD(4)[OF c, of p] mem c' by auto
  next
    fix i u assume "i < length (g_values g)" "\<not> intermediate g i" "ec_values c' ! i = Some u"
    then show "tensor_ok h' u" "tensor_spec_of u = gv_spec (g_values g ! i)" "sto_buffer (tn_storage u) \<noteq> ec_buffer c'"
      using slots[of i u] context_okD(5)[OF c, of i u] other[of i] c' by simp_all
  next
    fix i ct assume i: "i < length (g_values g)" "g_constants g ! i = Some ct"
    have ni: "\<not> intermediate g i" using ok i by (auto simp: graph_ok_def value_ok_def Let_def)
    from context_okD(6)[OF c i] obtain u where u: "ec_values c ! i = Some u" "tensor_contents h u = tensor_contents h ct"
      "tensor_ok h ct" "sto_buffer (tn_storage ct) \<noteq> ec_buffer c" by blast
    show "tensor_ok h' ct" "sto_buffer (tn_storage ct) \<noteq> ec_buffer c'" using const_ok[OF i] u(4) c' by simp_all
    show "\<exists>t. ec_values c' ! i = Some t \<and> tensor_contents h' t = tensor_contents h' ct"
      using u slots[OF i(1) ni u(1)] const_ok[OF i] other[OF i(1) ni] c' by simp
  qed (use context_okD(1,2,3)[OF c] c' len in simp_all)
  show "constants_kept g h h'" using const_ok by (simp add: constants_kept_def)
  show "inputs_hold M g c' h'"
    unfolding inputs_hold_def
  proof (intro allI impI)
    fix i assume i: "i < length (g_values g)" "gv_kind (g_values g ! i) = Kind_input"
    then obtain u where "ec_values c ! i = Some u" "mn_input M (gv_name (g_values g ! i)) = tensor_contents h u"
      using assms(4) by (auto simp: inputs_hold_def)
    then show "\<exists>t. ec_values c' ! i = Some t \<and> mn_input M (gv_name (g_values g ! i)) = tensor_contents h' t"
      using slots[of i u] other[of i] i c' by simp
  qed
  show "computed M g (Suc k) c' h'"
    unfolding computed_def
  proof (intro allI impI)
    fix i assume "needed g (ec_plan c' \<noteq> None) (Suc k) i"
    then have n: "needed g (ec_plan c \<noteq> None) (Suc k) i" using c' by simp
    then have i: "i < length (g_values g)" by (simp add: needed_def)
    show "\<exists>t. ec_values c' ! i = Some t \<and> tensor_ok h' t \<and> tensor_spec_of t = gv_spec (g_values g ! i) \<and>
        denotes M h' g i (tensor_contents h' t) \<and> in_place c' i t"
    proof (cases "i = v")
      case True
      then have "\<not> released g (ec_plan c \<noteq> None) k i" using n by (auto simp: needed_def released_def)
      then show ?thesis using t vals[OF i] True c' by (simp add: in_place_def)
    next
      case False
      note K = kept_slots[OF ok c k v(1) n False]
      obtain u where u: "ec_values c ! i = Some u" "tensor_ok h u" "tensor_spec_of u = gv_spec (g_values g ! i)"
        "denotes M h g i (tensor_contents h u)" "in_place c i u" using done_before K(1) by (auto simp: computed_def)
      have "tensor_ok h' u \<and> tensor_contents h' u = tensor_contents h u"
        by (rule kept[OF u(2) False]) (use u(5) K(2) n in \<open>auto simp: needed_def\<close>)
      moreover have "denotes M h' g i (tensor_contents h u)" by (rule denotes_heap[OF u(4)]) (use const_ok in blast)
      ultimately show ?thesis using u vals[OF i] K(3) False c' by (simp add: in_place_def)
    qed
  qed
qed

lemma executor_step_outcome:
  assumes ok: "graph_ok g" and M: "mn_constant M = (\<lambda>x. x)" and be: "backend_computes (mn_op M) copies be g"
    and c: "context_ok a g c h" and done_before: "computed M g k c h" and ins: "inputs_hold M g c h" and k: "k < length (g_nodes g)"
  shows "(may_run_out copies g c \<and> executor_step be g [0..<length (g_nodes g)] k (c, h) = Inl Bad_alloc) \<or>
    (\<exists>c' h'. executor_step be g [0..<length (g_nodes g)] k (c, h) = Inr (c', h') \<and> context_ok a g c' h' \<and>
       computed M g (Suc k) c' h' \<and> inputs_hold M g c' h' \<and> ec_plan c' = ec_plan c \<and> constants_kept g h h')"
proof -
  let ?n = "g_nodes g ! k"
  obtain v where v: "nd_outputs ?n = [v]" "v < length (g_values g)" "intermediate g v" "gv_producer (g_values g ! v) = Some k"
    by (rule node_output_slot[OF ok k])
  have av: "alive g k v" using used_alive[OF ok k] v by simp
  have fresh: "v \<notin> set (nd_inputs ?n)"
    using node_input(2)[OF ok k, of v] v(3,4) by (auto simp: producer_step_def)
  obtain ts where ts: "materialised g ?n c h ts"
    "\<forall>j < length ts. denotes M h g (nd_inputs ?n ! j) (map (tensor_contents h) ts ! j)"
    and apart: "\<And>t. in_place c v t \<Longrightarrow> ec_plan c = None \<longrightarrow> sto_buffer (tn_storage t) = Some (length (hp_buffers h)) \<Longrightarrow> list_all (separate t) ts"
    using node_inputs_ready[OF ok M c done_before ins k] av fresh by metis
  have cn: "computes_node (mn_op M) copies be g ?n" using be k by (simp add: backend_computes_def)
  then have sup: "be_supports be (nd_op ?n)" by (simp add: computes_node_def)
  note node = conjunct2[OF cn[unfolded computes_node_def], rule_format, OF ts(1), unfolded v(1) list.sel]
  have step: "executor_step be g [0..<length (g_nodes g)] k (c, h) =
      bindE (be_execute be g ?n c h) (\<lambda>(c, h). bindE (release_after_step g k c) (\<lambda>c'. Inr (c', h)))"
    using k sup by (simp add: executor_step_def graph_node_def)
  from prepare_outcome[OF ok c v(2,3)] show ?thesis
  proof (elim disjE exE conjE)
    assume "ec_plan c = None" "prepare_output g v c h = Inl Bad_alloc"
    then have "be_execute be g ?n c h = Inl Bad_alloc" using node by simp
    then show ?thesis using \<open>ec_plan c = None\<close> step by (simp add: may_run_out_def)
  next
    fix t h1
    assume ready: "prepare_output g v c h = Inr (t, c\<lparr>ec_values := (ec_values c)[v := Some t]\<rparr>, h1)" "tensor_ok h1 t"
       "tensor_spec_of t = gv_spec (g_values g ! v)" "lay_contiguous (tn_layout t)" "heap_ext h h1" "in_place c v t"
       "ec_plan c = None \<longrightarrow> sto_buffer (tn_storage t) = Some (length (hp_buffers h))"
    consider "copies ?n \<and> be_execute be g ?n c h = Inl Bad_alloc" | h2 where
      "be_execute be g ?n c h = Inr (c\<lparr>ec_values := (ec_values c)[v := Some t]\<rparr>, h2)" "writes_only t h1 h2"
      "tensor_contents h2 t = mn_op M (nd_op ?n) (nd_attributes ?n) (map (tensor_contents h) ts)"
      using node ready apart[OF ready(6,7)] by auto
    then show ?thesis
    proof cases
      case 1
      then show ?thesis using step k by (auto simp: may_run_out_def)
    next
      case h2: 2
      obtain vals where rel: "release_after_step g k (c\<lparr>ec_values := (ec_values c)[v := Some t]\<rparr>) = Inr (c\<lparr>ec_values := vals\<rparr>)"
        "length vals = length (g_values g)" "\<forall>i < length (g_values g).
          vals ! i = (if released g (ec_plan c \<noteq> None) k i then None else (ec_values c)[v := Some t] ! i)"
        by (rule release_outcome[OF ok c k, of "(ec_values c)[v := Some t]"]) (use context_okD(3)[OF c] in simp)
      let ?c = "c\<lparr>ec_values := vals\<rparr>"
      have st: "stepped g k v t c ?c" unfolding stepped_def
        by (rule exI[of _ vals]) (use rel context_okD(3)[OF c] in \<open>auto simp: nth_list_update\<close>)
      have kept: "tensor_ok h2 u \<and> tensor_contents h2 u = tensor_contents h u"
        if "tensor_ok h u" "i \<noteq> v" "intermediate g i \<longrightarrow> in_place c i u \<and> (ec_plan c \<noteq> None \<longrightarrow> alive g k i)"
          "\<not> intermediate g i \<longrightarrow> sto_buffer (tn_storage u) \<noteq> ec_buffer c" for u i
      proof -
        have "separate t u" by (rule slot_separate[OF ok c av ready(6,7) that])
        then show ?thesis using heap_ext_tensor[OF ready(5) that(1)] heap_ext_contents[OF ready(5) that(1)]
            writes_only_tensor[OF h2(2)] writes_only_contents[OF h2(2)] by metis
      qed
      have here: "denotes M h2 g v (tensor_contents h2 t)"
        unfolding h2(3)
      proof (rule denotes.of_node[OF v(2,3,4) k])
        show "length (map (tensor_contents h) ts) = length (nd_inputs ?n)" using ts(1) by (simp add: materialised_def)
        have "tensor_contents h2 ct = tensor_contents h ct" if j: "j < length (g_values g)" "g_constants g ! j = Some ct" for j ct
        proof -
          have "\<not> intermediate g j" using ok j by (auto simp: graph_ok_def value_ok_def Let_def)
          moreover from this have "j \<noteq> v" using v(3) by auto
          ultimately show ?thesis using kept[of ct j] context_okD(6)[OF c j] by blast
        qed
        then show "\<forall>j < length (map (tensor_contents h) ts). denotes M h2 g (nd_inputs ?n ! j) (map (tensor_contents h) ts ! j)"
          using ts(2) denotes_heap by (metis length_map)
      qed
      have mem: "length (hp_buffers h) \<le> length (hp_buffers h2)" "\<And>b. b < length (hp_buffers h) \<Longrightarrow> buf_size h2 b = buf_size h b"
        using ready(5) h2(2) heap_ext_size[OF ready(5)] by (fastforce simp: heap_ext_def writes_only_def)+
      note S = step_invariant[OF ok c done_before ins k v(1,3) writes_only_tensor[OF h2(2) ready(2)] ready(3,6) here st mem kept]
      have "executor_step be g [0..<length (g_nodes g)] k (c, h) = Inr (?c, h2)" using step h2(1) rel(1) by simp
      then show ?thesis using S by auto
    qed
  qed
qed

lemma executor_steps_outcome:
  assumes ok: "graph_ok g" and M: "mn_constant M = (\<lambda>x. x)" and be: "backend_computes (mn_op M) copies be g"
    and c: "context_ok a g c h" "computed M g 0 c h" "inputs_hold M g c h" and k: "k \<le> length (g_nodes g)"
  shows "(may_run_out copies g c \<and> foldE (executor_step be g [0..<length (g_nodes g)]) [0..<k] (c, h) = Inl Bad_alloc) \<or>
    (\<exists>c' h'. foldE (executor_step be g [0..<length (g_nodes g)]) [0..<k] (c, h) = Inr (c', h') \<and> context_ok a g c' h' \<and>
       computed M g k c' h' \<and> inputs_hold M g c' h' \<and> ec_plan c' = ec_plan c \<and> constants_kept g h h')"
  using k
proof (induction k)
  case 0
  then show ?case using c by (simp add: constants_kept_def)
next
  case (Suc k)
  then have k: "k < length (g_nodes g)" "k \<le> length (g_nodes g)" by simp_all
  from Suc.IH[OF k(2)] show ?case
  proof (elim disjE exE conjE)
    assume "may_run_out copies g c" "foldE (executor_step be g [0..<length (g_nodes g)]) [0..<k] (c, h) = Inl Bad_alloc"
    then show ?thesis by (simp add: foldE_upt_Suc del: upt_Suc)
  next
    fix c' h'
    assume ran: "foldE (executor_step be g [0..<length (g_nodes g)]) [0..<k] (c, h) = Inr (c', h')" "context_ok a g c' h'"
       "computed M g k c' h'" "inputs_hold M g c' h'" "ec_plan c' = ec_plan c" "constants_kept g h h'"
    have trans: "constants_kept g h' h'' \<Longrightarrow> constants_kept g h h''" for h'' using ran(6) by (simp add: constants_kept_def)
    have "may_run_out copies g c' = may_run_out copies g c" using ran(5) by (simp add: may_run_out_def)
    with executor_step_outcome[OF ok M be ran(2,3,4) k(1)] ran(1,5) show ?thesis
      by (auto simp: foldE_upt_Suc simp del: upt_Suc intro: trans)
  qed
qed

end
