(* ===== verification/Execution_Run.thy ===== *)
theory Execution_Run
  imports Execution_Sound
begin

text \<open>
  Whole runs: the contexts a program can reach by constructing one, binding inputs, storing values and running, and
  the outputs after a run.
\<close>

section \<open>Clearing\<close>

lemma clear_outcome:
  assumes ok: "graph_ok g" and c: "context_ok a g c h"
  obtains vals where "clear_intermediates g c = Inr (c\<lparr>ec_values := vals\<rparr>)" "length vals = length (g_values g)"
    "\<forall>i < length (g_values g). vals ! i = (if intermediate g i then None else ec_values c ! i)"
proof -
  let ?f = "\<lambda>vals v. if gv_kind v = Kind_intermediate then clear_slot vals (gv_id v) else vals"
  have f: "foldl ?f vals vs = foldl clear_slot vals (map gv_id (filter (\<lambda>v. gv_kind v = Kind_intermediate) vs))" for vals vs
    by (induction vs arbitrary: vals) auto
  have ids: "gv_id (g_values g ! i) = i" if "i < length (g_values g)" for i using ok that by (simp add: graph_ok_def value_ok_def Let_def)
  have mem: "i \<in> set (map gv_id (filter (\<lambda>v. gv_kind v = Kind_intermediate) (g_values g))) \<longleftrightarrow> intermediate g i" if "i < length (g_values g)" for i
    using ids that by (auto simp: in_set_conv_nth image_iff)
  show ?thesis
    by (rule that[of "foldl ?f (ec_values c) (g_values g)"])
      (use context_okD(2,3)[OF c] mem in \<open>simp_all add: clear_intermediates_def require_current_graph_def f foldl_clear\<close>)
qed

text \<open>The intermediate slots are free.\<close>

lemma context_ok_intermediates:
  assumes ok: "graph_ok g" and c: "context_ok a g c h"
    and vals: "length vals = length (g_values g)" "\<forall>i < length (g_values g). \<not> intermediate g i \<longrightarrow> vals ! i = ec_values c ! i"
  shows "context_ok a g (c\<lparr>ec_values := vals\<rparr>) h"
proof -
  have "\<not> intermediate g i" if "i < length (g_values g)" "g_constants g ! i = Some ct" for i ct
    using ok that by (auto simp: graph_ok_def value_ok_def Let_def)
  then show ?thesis using c vals by (simp add: context_ok_def)
qed

lemma cleared_ok:
  assumes ok: "graph_ok g" and c: "context_ok a g c h"
    and vals: "length vals = length (g_values g)" "\<forall>i < length (g_values g). vals ! i = (if intermediate g i then None else ec_values c ! i)"
  shows "context_ok a g (c\<lparr>ec_values := vals\<rparr>) h" "computed M g 0 (c\<lparr>ec_values := vals\<rparr>) h"
    "inputs_hold M g c h \<Longrightarrow> inputs_hold M g (c\<lparr>ec_values := vals\<rparr>) h"
proof -
  show "context_ok a g (c\<lparr>ec_values := vals\<rparr>) h" using context_ok_intermediates[OF ok c vals(1)] vals(2) by simp
  show "computed M g 0 (c\<lparr>ec_values := vals\<rparr>) h" by (simp add: computed_def needed_def)
  show "inputs_hold M g c h \<Longrightarrow> inputs_hold M g (c\<lparr>ec_values := vals\<rparr>) h" using vals by (simp add: inputs_hold_def)
qed

section \<open>A run\<close>

lemma run_outcome:
  assumes ok: "graph_ok g" and out: "g_outputs g \<noteq> []" and M: "mn_constant M = (\<lambda>x. x)" and be: "backend_computes (mn_op M) copies be g"
    and c: "context_ok a g c h" and bound: "all_inputs_bound g c = Inr True" and ins: "inputs_hold M g c h"
  shows "(may_run_out copies g c \<and> executor_run be a g c h = Inl Bad_alloc) \<or>
    (\<exists>c' h'. executor_run be a g c h = Inr (c', h') \<and> context_ok a g c' h' \<and>
       (\<forall>i \<in> set (g_outputs g). \<exists>t. context_output g i c' = Inr t \<and> tensor_ok h' t \<and>
          tensor_spec_of t = gv_spec (g_values g ! i) \<and> denotes M h g i (tensor_contents h' t)))"
proof -
  obtain vals where vals: "clear_intermediates g c = Inr (c\<lparr>ec_values := vals\<rparr>)" "length vals = length (g_values g)"
    "\<forall>i < length (g_values g). vals ! i = (if intermediate g i then None else ec_values c ! i)" by (rule clear_outcome[OF ok c])
  let ?c = "c\<lparr>ec_values := vals\<rparr>" and ?n = "length (g_nodes g)"
  note C = cleared_ok[OF ok c vals(2,3)]
  have run: "executor_run be a g c h = foldE (executor_step be g [0..<?n]) [0..<?n] (?c, h)"
    using context_okD(1)[OF c] bound vals(1) built_order[OF ok out] by (simp add: executor_run_def require_all_inputs_bound_def)
  from executor_steps_outcome[OF ok M be C(1,2) C(3)[OF ins] le_refl] show ?thesis
  proof (elim disjE exE conjE)
    assume "may_run_out copies g ?c" "foldE (executor_step be g [0..<?n]) [0..<?n] (?c, h) = Inl Bad_alloc"
    then show ?thesis using run by (simp add: may_run_out_def)
  next
    fix c' h' assume r: "foldE (executor_step be g [0..<?n]) [0..<?n] (?c, h) = Inr (c', h')" "context_ok a g c' h'"
      "computed M g ?n c' h'" "inputs_hold M g c' h'" "ec_plan c' = ec_plan ?c" "constants_kept g h h'"
    have "\<exists>t. context_output g i c' = Inr t \<and> tensor_ok h' t \<and> tensor_spec_of t = gv_spec (g_values g ! i) \<and>
        denotes M h g i (tensor_contents h' t)" if i: "i \<in> set (g_outputs g)" for i
    proof -
      have iv: "i < length (g_values g)" using ok i by (simp add: graph_ok_def)
      have "value_ok g i" using ok iv by (simp add: graph_ok_def)
      then have nd: "needed g (ec_plan c' \<noteq> None) ?n i" if "intermediate g i"
        using iv i that by (auto simp: needed_def last_step_of_def value_ok_def producer_step_def Let_def)
      obtain t where t: "ec_values c' ! i = Some t" "tensor_ok h' t" "tensor_spec_of t = gv_spec (g_values g ! i)"
        "denotes M h' g i (tensor_contents h' t)" using slot_ready[OF ok M r(2,3,4) iv nd] by blast
      have "denotes M h g i (tensor_contents h' t)" by (rule denotes_heap[OF t(4)]) (use r(6) in \<open>simp add: constants_kept_def\<close>)
      then show ?thesis using t i iv context_okD(2,3)[OF r(2)]
        by (simp add: context_output_def context_value_def context_slot_def require_current_graph_def)
    qed
    then show ?thesis using run r(1,2) by auto
  qed
qed

section \<open>Construction\<close>

text \<open>The loops that copy the constants. \<open>h0\<close> is the heap in which the constants of the graph live.\<close>

definition copies_ok :: "graph \<Rightarrow> heap \<Rightarrow> tensor option list \<times> heap \<Rightarrow> bool" where
  "copies_ok g h0 s \<longleftrightarrow> length (fst s) = length (g_values g) \<and> heap_ext h0 (snd s) \<and>
     (\<forall>i < length (g_values g). \<forall>t. fst s ! i = Some t \<longrightarrow> (\<exists>ct. g_constants g ! i = Some ct \<and> tensor_ok (snd s) t \<and>
        tensor_spec_of t = gv_spec (g_values g ! i) \<and> tensor_contents (snd s) t = tensor_contents h0 ct \<and>
        (\<exists>b. sto_buffer (tn_storage t) = Some b \<and> length (hp_buffers h0) \<le> b)))"

lemma emplace_constant_ok:
  assumes ok: "graph_ok g" and co: "constants_ok h0 g" and v: "v \<in> set (g_values g)" and k: "gv_kind v = Kind_constant"
    and P: "copies_ok g h0 s" and e: "emplace_constant g v s = Inr s'"
  shows "copies_ok g h0 s'" "fst s' ! gv_id v \<noteq> None" "fst s ! i \<noteq> None \<Longrightarrow> fst s' ! i \<noteq> None"
proof -
  obtain k where k: "k < length (g_values g)" "v = g_values g ! k" using v by (auto simp: in_set_conv_nth)
  then have vo: "gv_id v = k" "value_ok g k" using ok by (auto simp: graph_ok_def value_ok_def Let_def)
  obtain ct t h' where ct: "g_constants g ! k = Some ct" and t: "tensor_copy ct (snd s) = Inr (t, h')" and s': "s' = ((fst s)[k := Some t], h')"
    using e vo(1) k(1) by (auto simp: emplace_constant_def graph_constant_def graph_value_at_def split: option.splits)
  have cok: "tensor_ok h0 ct" using co k(1) ct by (simp add: constants_ok_def)
  have ext: "heap_ext h0 (snd s)" using P by (simp add: copies_ok_def)
  note C = tensor_copy_ok[OF heap_ext_tensor[OF ext cok] t]
  have kind: "\<exists>t. g_constants g ! k = Some t \<and> gv_spec (g_values g ! k) = tensor_spec_of t"
    using vo(2) k(2) assms(4) by (auto simp: value_ok_def Let_def)
  have cont: "tensor_contents h' t = tensor_contents h0 ct"
    using C(3,4,7,8) contents_ext[OF ext cok] by (simp add: tensor_contents_def)
  have len: "length (hp_buffers h0) \<le> length (hp_buffers (snd s))" using ext by (simp add: heap_ext_def)
  have old: "tensor_ok h' u \<and> tensor_contents h' u = tensor_contents (snd s) u" if "tensor_ok (snd s) u" for u
    using heap_ext_tensor[OF C(2) that] contents_ext[OF C(2) that] by simp
  show "copies_ok g h0 s'"
    unfolding copies_ok_def
  proof (intro conjI allI impI)
    show "length (fst s') = length (g_values g)" "heap_ext h0 (snd s')"
      using P s' heap_ext_trans[OF ext C(2)] by (simp_all add: copies_ok_def)
    fix i u assume u: "i < length (g_values g)" "fst s' ! i = Some u"
    show "\<exists>ct. g_constants g ! i = Some ct \<and> tensor_ok (snd s') u \<and> tensor_spec_of u = gv_spec (g_values g ! i) \<and>
        tensor_contents (snd s') u = tensor_contents h0 ct \<and> (\<exists>b. sto_buffer (tn_storage u) = Some b \<and> length (hp_buffers h0) \<le> b)"
    proof (cases "i = k")
      case True
      then have "u = t" using u s' P by (simp add: copies_ok_def)
      then show ?thesis using True ct C(1,3,4,6) kind cont len s' by (auto simp: tensor_spec_of_def)
    next
      case False
      then have "fst s ! i = Some u" using u(2) s' by simp
      then show ?thesis using P u(1) old s' by (fastforce simp: copies_ok_def)
    qed
  qed
  show "fst s' ! gv_id v \<noteq> None" using s' vo(1) k(1) P by (simp add: copies_ok_def)
  show "fst s ! i \<noteq> None \<Longrightarrow> fst s' ! i \<noteq> None"
    using s' by (cases "k < length (fst s)") (auto simp: nth_list_update not_less list_update_beyond)
qed

lemma start_values_ok:
  assumes ok: "graph_ok g" and co: "constants_ok h0 g"
    and f: "\<And>v s s'. f v s = Inr s' \<Longrightarrow> (gv_kind v = Kind_constant \<and> emplace_constant g v s = Inr s') \<or> (gv_kind v \<noteq> Kind_constant \<and> s' = s)"
    and P: "copies_ok g h0 s" and vs: "set vs \<subseteq> set (g_values g)" and run: "foldE f vs s = Inr s'"
  shows "copies_ok g h0 s' \<and> (\<forall>i. fst s ! i \<noteq> None \<longrightarrow> fst s' ! i \<noteq> None) \<and>
    (\<forall>v \<in> set vs. gv_kind v = Kind_constant \<longrightarrow> fst s' ! gv_id v \<noteq> None)"
  using P vs run
proof (induction vs arbitrary: s)
  case (Cons v vs)
  obtain s1 where s1: "f v s = Inr s1" "foldE f vs s1 = Inr s'" using Cons.prems(3) by auto
  from f[OF s1(1)] show ?case
  proof (elim disjE conjE)
    assume k: "gv_kind v = Kind_constant" "emplace_constant g v s = Inr s1"
    have "v \<in> set (g_values g)" using Cons.prems(2) by simp
    note E = emplace_constant_ok[OF ok co this k(1) Cons.prems(1) k(2)]
    from Cons.IH[OF E(1) _ s1(2)] Cons.prems(2) E(2,3) show ?thesis by auto
  next
    assume k: "gv_kind v \<noteq> Kind_constant" "s1 = s"
    from Cons.IH[of s] Cons.prems(1,2) s1(2) k show ?thesis by auto
  qed
qed simp

text \<open>A finished copying loop: exactly the constants are there.\<close>

lemma copied_slots:
  assumes ok: "graph_ok g" and r: "copies_ok g h0 s" and all: "\<forall>v \<in> set (g_values g). gv_kind v = Kind_constant \<longrightarrow> fst s ! gv_id v \<noteq> None"
    and i: "i < length (g_values g)" "g_constants g ! i = Some ct"
  shows "\<exists>t. fst s ! i = Some t \<and> tensor_contents (snd s) t = tensor_contents h0 ct"
proof -
  have vo: "value_ok g i" using ok i(1) by (simp add: graph_ok_def)
  then have "gv_kind (g_values g ! i) = Kind_constant" "gv_id (g_values g ! i) = i"
    using i(2) by (auto simp: value_ok_def Let_def split: value_kind.splits)
  moreover have "g_values g ! i \<in> set (g_values g)" using i(1) by simp
  ultimately obtain t where "fst s ! i = Some t" using all by fastforce
  then show ?thesis using r i by (fastforce simp: copies_ok_def)
qed

lemma mk_context_ok:
  assumes ok: "graph_ok g" and co: "constants_ok h g" and mk: "mk_context a g h = Inr (c, h')"
  shows "context_ok a g c h'" "g_outputs g \<noteq> []"
proof -
  let ?s = "(replicate (length (g_values g)) None, h)"
  obtain vals where v: "validate_graph g = Inr ()" "foldE (start_value g) (g_values g) ?s = Inr (vals, h')"
    and c: "c = \<lparr>ec_graph = a, ec_value_count = length (g_values g), ec_values = vals, ec_plan = None, ec_buffer = None\<rparr>"
    using mk by (auto simp: mk_context_def)
  show "g_outputs g \<noteq> []" using v(1) check_tables_Inr(2) by (auto simp: validate_graph_def topological_order_def)
  have "copies_ok g h ?s" by (simp add: copies_ok_def)
  moreover have "start_value g v s = Inr s' \<Longrightarrow> (gv_kind v = Kind_constant \<and> emplace_constant g v s = Inr s') \<or> (gv_kind v \<noteq> Kind_constant \<and> s' = s)"
    for v s s' by (simp add: start_value_def split: if_splits)
  ultimately have r: "copies_ok g h (vals, h')" "\<forall>v \<in> set (g_values g). gv_kind v = Kind_constant \<longrightarrow> vals ! gv_id v \<noteq> None"
    using start_values_ok[OF ok co _ _ order_refl v(2)] by auto
  have ext: "heap_ext h h'" using r(1) by (simp add: copies_ok_def)
  have const: "tensor_ok h ct" if "i < length (g_values g)" "g_constants g ! i = Some ct" for i ct using co that by (simp add: constants_ok_def)
  show "context_ok a g c h'"
    unfolding context_ok_def
  proof (intro conjI allI impI)
    fix i t assume i: "i < length (g_values g)" "\<not> intermediate g i" "ec_values c ! i = Some t"
    then have "vals ! i = Some t" using c by simp
    then show "tensor_ok h' t" "tensor_spec_of t = gv_spec (g_values g ! i)" "sto_buffer (tn_storage t) \<noteq> ec_buffer c"
      using r(1) i(1) c by (fastforce simp: copies_ok_def)+
  next
    fix i ct assume i: "i < length (g_values g)" "g_constants g ! i = Some ct"
    show "tensor_ok h' ct" "sto_buffer (tn_storage ct) \<noteq> ec_buffer c"
      using heap_ext_tensor[OF ext const[OF i]] c by (auto simp: tensor_ok_def storage_ok_def)
    show "\<exists>t. ec_values c ! i = Some t \<and> tensor_contents h' t = tensor_contents h' ct"
      using copied_slots[OF ok r(1) _ i] r(2) c contents_ext[OF ext const[OF i]] by auto
  qed (use c r(1) in \<open>simp_all add: copies_ok_def\<close>)
qed

lemma mk_planned_context_ok:
  assumes ok: "graph_ok g" and co: "constants_ok h g" and plan: "mk_memory_plan a g = Inr p" and mk: "mk_planned_context a g p h = Inr (c, h')"
  shows "context_ok a g c h'" "g_outputs g \<noteq> []"
proof -
  obtain b h1 vals where v: "validate_graph g = Inr ()" and b: "mk_buffer (mpl_buffer_size p) True default_alignment h = Inr (b, h1)"
    and f: "foldE (start_planned_value g p) (g_values g) (replicate (length (g_values g)) None, h1) = Inr (vals, h')"
    and c: "c = \<lparr>ec_graph = a, ec_value_count = length (g_values g), ec_values = vals, ec_plan = Some p, ec_buffer = Some b\<rparr>"
    using mk by (auto simp: mk_planned_context_def split: if_splits)
  let ?s = "(replicate (length (g_values g)) None, h1)"
  show "g_outputs g \<noteq> []" using v check_tables_Inr(2) by (auto simp: validate_graph_def topological_order_def)
  have b': "b = length (hp_buffers h)" "b < length (hp_buffers h1)" "buf_size h1 b = mpl_buffer_size p" and ext1: "heap_ext h h1"
    using b by (auto simp: mk_buffer_default buf_size_def heap_ext_def nth_append split: if_splits)
  have const0: "tensor_ok h ct" if "i < length (g_values g)" "g_constants g ! i = Some ct" for i ct using co that by (simp add: constants_ok_def)
  have co1: "constants_ok h1 g" using const0 heap_ext_tensor[OF ext1] by (simp add: constants_ok_def)
  have "copies_ok g h1 ?s" by (simp add: copies_ok_def)
  moreover have "start_planned_value g p v s = Inr s' \<Longrightarrow> (gv_kind v = Kind_constant \<and> emplace_constant g v s = Inr s') \<or> (gv_kind v \<noteq> Kind_constant \<and> s' = s)"
    for v s s' by (auto simp: start_planned_value_def split: value_kind.splits)
  ultimately have r: "copies_ok g h1 (vals, h')" "\<forall>v \<in> set (g_values g). gv_kind v = Kind_constant \<longrightarrow> vals ! gv_id v \<noteq> None"
    using start_values_ok[OF ok co1 _ _ order_refl f] by auto
  have ext: "heap_ext h1 h'" using r(1) by (simp add: copies_ok_def)
  have const: "tensor_ok h1 ct" if "i < length (g_values g)" "g_constants g ! i = Some ct" for i ct using co1 that by (simp add: constants_ok_def)
  show "context_ok a g c h'"
    unfolding context_ok_def
  proof (intro conjI allI impI)
    fix q assume "ec_plan c = Some q"
    then show "mk_memory_plan a g = Inr q" "\<exists>b. ec_buffer c = Some b \<and> b < length (hp_buffers h') \<and> buf_size h' b = mpl_buffer_size q"
      using c plan b' heap_ext_size[OF ext b'(2)] ext by (auto simp: heap_ext_def)
  next
    fix i t assume i: "i < length (g_values g)" "\<not> intermediate g i" "ec_values c ! i = Some t"
    then have "vals ! i = Some t" using c by simp
    then show "tensor_ok h' t" "tensor_spec_of t = gv_spec (g_values g ! i)" "sto_buffer (tn_storage t) \<noteq> ec_buffer c"
      using r(1) i(1) c b'(2) by (fastforce simp: copies_ok_def)+
  next
    fix i ct assume i: "i < length (g_values g)" "g_constants g ! i = Some ct"
    show "tensor_ok h' ct" by (rule heap_ext_tensor[OF ext const[OF i]])
    show "sto_buffer (tn_storage ct) \<noteq> ec_buffer c" using const0[OF i] b'(1) c by (auto simp: tensor_ok_def storage_ok_def)
    show "\<exists>t. ec_values c ! i = Some t \<and> tensor_contents h' t = tensor_contents h' ct"
      using copied_slots[OF ok r(1) _ i] r(2) c contents_ext[OF ext const[OF i]] by auto
  qed (use c r(1) in \<open>simp_all add: copies_ok_def\<close>)
qed

section \<open>Reachable contexts\<close>

text \<open>
  The contexts of a graph: made with or without a memory plan, inputs bound between runs from tensors outside the planned
  buffer (possibly made in the meantime), intermediate values stored by hand, and any number of runs that succeed.
\<close>

inductive context_run :: "backend \<Rightarrow> nat \<Rightarrow> graph \<Rightarrow> execution_context \<Rightarrow> heap \<Rightarrow> bool" for be a g where
  plain: "constants_ok h g \<Longrightarrow> mk_context a g h = Inr (c, h') \<Longrightarrow> context_run be a g c h'"
| planned: "constants_ok h g \<Longrightarrow> mk_memory_plan a g = Inr p \<Longrightarrow> mk_planned_context a g p h = Inr (c, h') \<Longrightarrow> context_run be a g c h'"
| bound: "context_run be a g c h \<Longrightarrow> heap_ext h h' \<Longrightarrow> tensor_ok h' t \<Longrightarrow> sto_buffer (tn_storage t) \<noteq> ec_buffer c \<Longrightarrow>
    bind_input g i t c = Inr c' \<Longrightarrow> context_run be a g c' h'"
| stored: "context_run be a g c h \<Longrightarrow> set_value g i t c = Inr c' \<Longrightarrow> context_run be a g c' h"
| ran: "context_run be a g c h \<Longrightarrow> all_inputs_bound g c = Inr True \<Longrightarrow> executor_run be a g c h = Inr (c', h') \<Longrightarrow> context_run be a g c' h'"

text \<open>What the bound inputs hold, by name.\<close>

definition bound_contents :: "graph \<Rightarrow> execution_context \<Rightarrow> heap \<Rightarrow> string \<Rightarrow> contents" where
  "bound_contents g c h name = (case find (\<lambda>v. gv_kind v = Kind_input \<and> gv_name v = name) (g_values g) of
     None \<Rightarrow> ([], Float32, [])
   | Some v \<Rightarrow> (case ec_values c ! gv_id v of None \<Rightarrow> ([], Float32, []) | Some t \<Rightarrow> tensor_contents h t))"

definition run_meaning :: "operator_meaning \<Rightarrow> graph \<Rightarrow> execution_context \<Rightarrow> heap \<Rightarrow> contents meaning" where
  "run_meaning ops g c h = \<lparr>mn_op = ops, mn_constant = (\<lambda>x. x), mn_input = bound_contents g c h\<rparr>"

lemma bound_inputs_hold:
  assumes ok: "graph_ok g" and bound: "all_inputs_bound g c = Inr True"
  shows "inputs_hold (run_meaning ops g c h) g c h"
  unfolding inputs_hold_def
proof (intro allI impI)
  fix i assume i: "i < length (g_values g)" "gv_kind (g_values g ! i) = Kind_input"
  have vo: "value_ok g i" using ok i(1) by (simp add: graph_ok_def)
  then have "i \<in> set (g_inputs g)" using i(2) by (simp add: value_ok_def Let_def)
  then obtain t where t: "ec_values c ! i = Some t" using bound by (auto simp: all_inputs_bound_def list_all_iff)
  let ?P = "\<lambda>v. gv_kind v = Kind_input \<and> gv_name v = gv_name (g_values g ! i)"
  have "find ?P (g_values g) = Some (g_values g ! i)"
    unfolding find_Some_iff
  proof (intro exI[of _ i] conjI allI impI)
    fix j assume j: "j < i"
    have "distinct (map gv_name (g_values g))" using ok by (simp add: graph_ok_def)
    then have "map gv_name (g_values g) ! j \<noteq> map gv_name (g_values g) ! i"
      using j i(1) nth_eq_iff_index_eq[of "map gv_name (g_values g)" j i] by simp
    then show "\<not> ?P (g_values g ! j)" using j i(1) by simp
  qed (use i in simp_all)
  then show "\<exists>t. ec_values c ! i = Some t \<and> mn_input (run_meaning ops g c h) (gv_name (g_values g ! i)) = tensor_contents h t"
    using t vo by (simp add: run_meaning_def bound_contents_def value_ok_def Let_def)
qed

lemma context_run_ok:
  assumes ok: "graph_ok g" and be: "backend_computes ops copies be g" and "context_run be a g c h"
  shows "context_ok a g c h \<and> g_outputs g \<noteq> []"
  using assms(3)
proof (induction rule: context_run.induct)
  case (plain h c h')
  then show ?case using mk_context_ok[OF ok] by blast
next
  case (planned h p c h')
  then show ?case using mk_planned_context_ok[OF ok] by blast
next
  case (bound c h h' t i c')
  then have c: "context_ok a g c h" "g_outputs g \<noteq> []" by simp_all
  have b: "i < length (g_values g)" "gv_kind (g_values g ! i) = Kind_input" "tensor_spec_of t = gv_spec (g_values g ! i)"
    "c' = c\<lparr>ec_values := (ec_values c)[i := Some t]\<rparr>"
    using bound.hyps(5) by (auto simp: bind_input_def graph_value_at_def require_matching_spec_def tensor_spec_of_def split: if_splits)
  have ci: "g_constants g ! i = None" using ok b(1,2) by (auto simp: graph_ok_def value_ok_def Let_def)
  have old: "tensor_ok h' u \<and> tensor_contents h' u = tensor_contents h u" if "tensor_ok h u" for u
    using heap_ext_tensor[OF bound.hyps(2) that] contents_ext[OF bound.hyps(2) that] by simp
  have "context_ok a g c' h'"
    unfolding context_ok_def
  proof (intro conjI allI impI)
    fix p assume "ec_plan c' = Some p"
    then show "mk_memory_plan a g = Inr p" "\<exists>b. ec_buffer c' = Some b \<and> b < length (hp_buffers h') \<and> buf_size h' b = mpl_buffer_size p"
      using context_okD(4)[OF c(1), of p] b(4) heap_ext_size[OF bound.hyps(2)] bound.hyps(2) by (auto simp: heap_ext_def)
  next
    fix j u assume j: "j < length (g_values g)" "\<not> intermediate g j" "ec_values c' ! j = Some u"
    show "tensor_ok h' u" "tensor_spec_of u = gv_spec (g_values g ! j)" "sto_buffer (tn_storage u) \<noteq> ec_buffer c'"
      using j b context_okD(3)[OF c(1)] context_okD(5)[OF c(1) j(1,2), of u] old[of u] bound.hyps(3,4)
      by (cases "j = i"; simp)+
  next
    fix j ct assume j: "j < length (g_values g)" "g_constants g ! j = Some ct"
    then have ne: "j \<noteq> i" using ci by auto
    from context_okD(6)[OF c(1) j] obtain u where u: "tensor_ok h ct" "sto_buffer (tn_storage ct) \<noteq> ec_buffer c"
      "ec_values c ! j = Some u" "tensor_contents h u = tensor_contents h ct" by blast
    have nj: "\<not> intermediate g j" using ok j by (auto simp: graph_ok_def value_ok_def Let_def)
    have uok: "tensor_ok h u" using context_okD(5)[OF c(1) j(1) nj u(3)] by blast
    show "tensor_ok h' ct" "sto_buffer (tn_storage ct) \<noteq> ec_buffer c'" using old[OF u(1)] u(2) b(4) by simp_all
    show "\<exists>t. ec_values c' ! j = Some t \<and> tensor_contents h' t = tensor_contents h' ct"
      using u old[OF u(1)] old[OF uok] ne b(4) by simp
  qed (use context_okD(1,2,3)[OF c(1)] b(4) in simp_all)
  then show ?case using c(2) by simp
next
  case (stored c h i t c')
  then have c: "context_ok a g c h" "g_outputs g \<noteq> []" by simp_all
  have b: "i < length (g_values g)" "intermediate g i" "c' = c\<lparr>ec_values := (ec_values c)[i := Some t]\<rparr>"
    using stored.hyps(2) by (auto simp: set_value_def graph_value_at_def split: if_splits)
  have "context_ok a g c' h"
    unfolding b(3) by (rule context_ok_intermediates[OF ok c(1)]) (use context_okD(3)[OF c(1)] b(2) in \<open>auto, metis nth_list_update_neq\<close>)
  then show ?case using c(2) by simp
next
  case (ran c h c' h')
  then have c: "context_ok a g c h" "g_outputs g \<noteq> []" by simp_all
  have M: "mn_constant (run_meaning ops g c h) = (\<lambda>x. x)" "backend_computes (mn_op (run_meaning ops g c h)) copies be g"
    using be by (simp_all add: run_meaning_def)
  from run_outcome[OF ok c(2) M c(1) ran.hyps(2) bound_inputs_hold[OF ok ran.hyps(2)]] ran.hyps(3) c(2) show ?case by auto
qed

section \<open>The backend interface\<close>

text \<open>
  A backend that keeps its contract on the graphs it accepts. Whatever executes through it computes the graph: the client's
  theorem needs only the contract.
\<close>

locale backend_contract =
  fixes be :: backend
    and ops :: operator_meaning
    and copies :: "node \<Rightarrow> bool"
    and accepts :: "graph \<Rightarrow> bool"
  assumes computes: "graph_ok g \<Longrightarrow> accepts g \<Longrightarrow> backend_computes ops copies be g"
begin

lemma run_computes_graph:
  assumes "graph_ok g" and "accepts g" and "context_run be a g c h" and "all_inputs_bound g c = Inr True"
  shows "case executor_run be a g c h of
     Inl e \<Rightarrow> e = Bad_alloc \<and> may_run_out copies g c
   | Inr (c', h') \<Rightarrow> \<forall>i \<in> set (g_outputs g). \<exists>t. context_output g i c' = Inr t \<and> tensor_ok h' t \<and>
       tensor_spec_of t = gv_spec (g_values g ! i) \<and> denotes (run_meaning ops g c h) h g i (tensor_contents h' t)"
proof -
  note be = computes[OF assms(1,2)]
  have M: "mn_constant (run_meaning ops g c h) = (\<lambda>x. x)" "backend_computes (mn_op (run_meaning ops g c h)) copies be g"
    using be by (simp_all add: run_meaning_def)
  have c: "context_ok a g c h" "g_outputs g \<noteq> []" using context_run_ok[OF assms(1) be assms(3)] by simp_all
  from run_outcome[OF assms(1) c(2) M c(1) assms(4) bound_inputs_hold[OF assms(1,4)]] show ?thesis by auto
qed

end

end
