(* ===== verification/Kernel_Sound.thy ===== *)
theory Kernel_Sound
  imports Kernel_Runner Execution_Sound
begin

text \<open>
  The elementwise kernels compute what the broadcasting rule says: every element of the output is the operation
  applied to the elements of the inputs at the broadcast coordinates, whatever the layouts of the inputs are and
  whichever of the two loops runs.
\<close>

section \<open>Floats as bytes\<close>

lemma bytes_float_bytes [simp]: "bytes_float (float_bytes x) = x"
proof (rule bit_word_eqI)
  fix n assume "n < LENGTH(32)"
  then consider "n < 8" | "8 \<le> n \<and> n < 16" | "16 \<le> n \<and> n < 24" | "24 \<le> n \<and> n < 32" by fastforce
  then show "bit (bytes_float (float_bytes x)) n = bit x n"
    by cases (auto simp: bytes_float_def float_bytes_def bit_simps)
qed

lemma length_float_bytes [simp]: "length (float_bytes x) = 4"
  by (simp add: float_bytes_def)

lemma size_of_Float32 [simp]: "size_of Float32 = 4"
  by simp

text \<open>The number at a logical index of a tensor.\<close>

definition float_at :: "contents \<Rightarrow> nat \<Rightarrow> float32" where
  "float_at x i = (case snd (snd x) ! i of Inl _ \<Rightarrow> 0 | Inr bs \<Rightarrow> bytes_float bs)"

definition float_contents :: "shape \<Rightarrow> (nat \<Rightarrow> float32) \<Rightarrow> contents" where
  "float_contents sh f = (sh, Float32, map (\<lambda>i. Inr (float_bytes (f i))) [0..<prodn sh])"

lemma float_at_contents [simp]: "i < prodn sh \<Longrightarrow> float_at (float_contents sh f) i = f i"
  by (simp add: float_at_def float_contents_def)

section \<open>Reading an input\<close>

text \<open>A loaded element is the element of the tensor at the logical index the offset belongs to.\<close>

lemma load_element:
  assumes ok: "tensor_ok h t" and d: "tn_dtype t = Float32" and i: "i < tn_numel t"
    and off: "storage_offset (tn_layout t) i = Inr off" and src: "typed_data Float32 t h = Inr src"
  shows "load_float h src off = Inr (float_at (tensor_contents h t) i)"
proof -
  obtain off' b where l: "storage_offset (tn_layout t) i = Inr off'" "storage_ptr h (tn_storage t) = Inr (b, sto_byte_offset (tn_storage t))"
    "storage_data h (tn_storage t) = Some (b, sto_byte_offset (tn_storage t))" by (rule element_location[OF ok i])
  obtain bs where bs: "tensor_element h t i = Inr bs" using element_total[OF ok i] by blast
  have "read_bytes h (b, sto_byte_offset (tn_storage t) + off * 4) 4 = Inr bs"
    using bs l off d by (simp add: tensor_element_def)
  then show ?thesis using src l(3) d bs i by (auto simp: typed_data_def load_float_def float_at_def tensor_contents_def)
qed

text \<open>A kernel that only writes its output leaves the data of a separate input as it was.\<close>

lemma writes_only_data:
  assumes w: "writes_only t h h'" and ok: "tensor_ok h u" and src: "typed_data Float32 u h = Inr src"
  shows "typed_data Float32 u h' = Inr src"
proof -
  have "storage_data h' (tn_storage u) = storage_data h (tn_storage u)"
    using w ok by (auto simp: writes_only_def tensor_ok_def storage_ok_def storage_data_def)
  then show ?thesis using src by (simp add: typed_data_def split: if_splits)
qed

lemma load_separate:
  assumes w: "writes_only out h h'" and ok: "tensor_ok h t" and s: "separate out t" and d: "tn_dtype t = Float32" and i: "i < tn_numel t"
    and off: "storage_offset (tn_layout t) i = Inr off" and src: "typed_data Float32 t h = Inr src"
  shows "load_float h' src off = Inr (float_at (tensor_contents h t) i)"
  using load_element[OF writes_only_tensor[OF w ok] d i off writes_only_data[OF w ok src]] writes_only_contents[OF w ok s] by simp

section \<open>Storing the output\<close>

lemma writes_only_refl [simp]: "writes_only t h h"
  by (simp add: writes_only_def)

lemma writes_only_trans: "writes_only t h h' \<Longrightarrow> writes_only t h' h'' \<Longrightarrow> writes_only t h h''"
  unfolding writes_only_def by fastforce

lemma store_output:
  assumes ok: "tensor_ok h t" and c: "lay_contiguous (tn_layout t)" and d: "tn_dtype t = Float32" and i: "i < tn_numel t"
    and dst: "typed_data Float32 t h = Inr dst"
  shows "\<exists>h'. store_float dst i x h = Inr h' \<and> writes_only t h h' \<and> tensor_element h' t i = Inr (float_bytes x) \<and>
    (\<forall>j < tn_numel t. j \<noteq> i \<longrightarrow> tensor_element h' t j = tensor_element h t j)"
proof -
  have lok: "layout_ok (tn_layout t)" using ok by (simp add: tensor_ok_def)
  note off = contiguous_offset[OF lok c]
  let ?s = "tn_storage t"
  obtain b where l: "sto_buffer ?s = Some b" "b < length (hp_buffers h)" "storage_ptr h ?s = Inr (b, sto_byte_offset ?s)"
    "storage_data h ?s = Some (b, sto_byte_offset ?s)" "sto_byte_offset ?s + sto_size_bytes ?s \<le> buf_size h b"
    by (rule element_location[OF ok i]) blast
  have fits: "sto_byte_offset ?s + j * 4 + 4 \<le> sto_byte_offset ?s + sto_size_bytes ?s" if j: "j < tn_numel t" for j
    by (rule element_location[OF ok j]) (use off[OF j] d in simp)
  have "sto_byte_offset ?s + i * 4 + length (float_bytes x) \<le> buf_size h b" using fits[OF i] l(5) by simp
  from write_bytes_total[OF l(2) this] obtain h' where w: "write_bytes (b, sto_byte_offset ?s + i * 4) (float_bytes x) h = Inr h'" by blast
  note W = write_bytes_Inr[OF w]
  have st: "store_float dst i x h = Inr h'" using dst l(4) d w by (auto simp: typed_data_def store_float_def)
  have wo: "writes_only t h h'" unfolding writes_only_def
  proof (intro conjI allI impI)
    fix b' q m assume h: "sto_buffer ?s = Some b' \<longrightarrow> q + m \<le> sto_byte_offset ?s \<or> sto_byte_offset ?s + sto_size_bytes ?s \<le> q"
    show "read_bytes h' (b', q) m = read_bytes h (b', q) m"
      by (rule W(4)) (use h l(1) fits[OF i] in auto)
  qed (simp_all add: W(1,2))
  have ptr: "storage_ptr h' ?s = Inr (b, sto_byte_offset ?s)" using l(1,3) W(2)[of b] by (simp add: storage_ptr_def storage_data_def)
  have el: "tensor_element g t j = read_bytes g (b, sto_byte_offset ?s + j * 4) 4" if "j < tn_numel t" "storage_ptr g ?s = Inr (b, sto_byte_offset ?s)" for g j
    using off[OF that(1)] that(2) d by (simp add: tensor_element_def)
  have "tensor_element h' t i = Inr (float_bytes x)" using el[OF i ptr] W(3) by simp
  moreover have "tensor_element h' t j = tensor_element h t j" if j: "j < tn_numel t" "j \<noteq> i" for j
  proof -
    have "sto_byte_offset ?s + j * 4 + 4 \<le> sto_byte_offset ?s + i * 4 \<or> sto_byte_offset ?s + i * 4 + length (float_bytes x) \<le> sto_byte_offset ?s + j * 4"
      using j(2) by (cases "j < i") auto
    then show ?thesis using W(4) el[OF j(1) ptr] el[OF j(1) l(3)] by simp
  qed
  ultimately show ?thesis using st wo by blast
qed

text \<open>
  A loop that stores one value per round: when the positions differ and each value, computed while the position still
  holds its old element, is \<open>w i\<close>, the loop ends with exactly these values at these positions.
\<close>

lemma store_each_outcome:
  assumes ok: "tensor_ok h t" and c: "lay_contiguous (tn_layout t)" and d: "tn_dtype t = Float32"
    and dst: "typed_data Float32 t h = Inr dst"
    and pos: "\<forall>i < n. position i = Inr (f i) \<and> f i < tn_numel t" and inj: "inj_on f {..<n}"
    and val: "\<And>i h'. i < n \<Longrightarrow> writes_only t h h' \<Longrightarrow> tensor_element h' t (f i) = tensor_element h t (f i) \<Longrightarrow> v i h' = Inr (w i)"
  shows "\<exists>h'. store_each dst position v [0..<n] h = Inr h' \<and> writes_only t h h' \<and>
    (\<forall>i < n. tensor_element h' t (f i) = Inr (float_bytes (w i))) \<and>
    (\<forall>j < tn_numel t. j \<notin> f ` {..<n} \<longrightarrow> tensor_element h' t j = tensor_element h t j)"
proof -
  let ?body = "\<lambda>i h. bindE (v i h) (\<lambda>x. bindE (position i) (\<lambda>j. store_float dst j x h))"
  have "k \<le> n \<Longrightarrow> \<exists>h'. foldE ?body [0..<k] h = Inr h' \<and> writes_only t h h' \<and>
    (\<forall>i < k. tensor_element h' t (f i) = Inr (float_bytes (w i))) \<and>
    (\<forall>j < tn_numel t. j \<notin> f ` {..<k} \<longrightarrow> tensor_element h' t j = tensor_element h t j)" for k
  proof (induction k)
    case 0
    then show ?case by simp
  next
    case (Suc k)
    then have k: "k < n" by simp
    from Suc obtain g where g: "foldE ?body [0..<k] h = Inr g" "writes_only t h g"
      "\<forall>i < k. tensor_element g t (f i) = Inr (float_bytes (w i))"
      "\<forall>j < tn_numel t. j \<notin> f ` {..<k} \<longrightarrow> tensor_element g t j = tensor_element h t j" by auto
    have fk: "f k < tn_numel t" "position k = Inr (f k)" using pos k by auto
    have new: "f k \<noteq> f i" if "i < k" for i using inj_onD[OF inj, of k i] k that by auto
    then have "f k \<notin> f ` {..<k}" by auto
    then have vk: "v k g = Inr (w k)" using val[OF k g(2)] g(4) fk(1) by simp
    obtain h' where h': "store_float dst (f k) (w k) g = Inr h'" "writes_only t g h'"
      "tensor_element h' t (f k) = Inr (float_bytes (w k))"
      "\<forall>j < tn_numel t. j \<noteq> f k \<longrightarrow> tensor_element h' t j = tensor_element g t j"
      using store_output[OF writes_only_tensor[OF g(2) ok] c d fk(1) writes_only_data[OF g(2) ok dst]] by blast
    have "foldE ?body [0..<Suc k] h = Inr h'" using g(1) vk fk(2) h'(1) by (simp add: foldE_upt_Suc del: upt_Suc)
    moreover have "\<forall>i < Suc k. tensor_element h' t (f i) = Inr (float_bytes (w i))"
    proof (intro allI impI)
      fix i assume "i < Suc k"
      then consider "i = k" | "i < k" by linarith
      then show "tensor_element h' t (f i) = Inr (float_bytes (w i))"
      proof cases
        case 1
        then show ?thesis using h'(3) by simp
      next
        case 2
        then have "f i < tn_numel t" "f i \<noteq> f k" using pos new[OF 2] k by simp_all
        then show ?thesis using h'(4) g(3) 2 by simp
      qed
    qed
    moreover have "\<forall>j < tn_numel t. j \<notin> f ` {..<Suc k} \<longrightarrow> tensor_element h' t j = tensor_element h t j"
      using h'(4) g(4) by (auto simp: lessThan_Suc)
    ultimately show ?case using writes_only_trans[OF g(2) h'(2)] by blast
  qed
  from this[of n] show ?thesis by (simp add: store_each_def)
qed

text \<open>The case of a kernel that fills its output in order.\<close>

lemma fill_output:
  assumes ok: "tensor_ok h t" and c: "lay_contiguous (tn_layout t)" and d: "tn_dtype t = Float32"
    and dst: "typed_data Float32 t h = Inr dst" and n: "n = tn_numel t"
    and val: "\<And>i h'. i < n \<Longrightarrow> writes_only t h h' \<Longrightarrow> tensor_element h' t i = tensor_element h t i \<Longrightarrow> v i h' = Inr (w i)"
  shows "\<exists>h'. store_each dst Inr v [0..<n] h = Inr h' \<and> writes_only t h h' \<and> tensor_contents h' t = float_contents (tn_shape t) w"
proof -
  from store_each_outcome[OF ok c d dst, of n Inr "\<lambda>i. i" v w] val n obtain h' where
    h': "store_each dst Inr v [0..<n] h = Inr h'" "writes_only t h h'" "\<forall>i < n. tensor_element h' t i = Inr (float_bytes (w i))" by auto
  have "prodn (tn_shape t) = tn_numel t" using ok layout_okD(3) by (simp add: tensor_ok_def)
  then have "tensor_contents h' t = float_contents (tn_shape t) w" using h'(3) n d by (simp add: tensor_contents_def float_contents_def)
  then show ?thesis using h'(1,2) by blast
qed

section \<open>Coordinates\<close>

fun ravel_rev :: "int list \<Rightarrow> int list \<Rightarrow> nat" where
  "ravel_rev (d # ds) (i # ks) = nat i + nat d * ravel_rev ds ks"
| "ravel_rev _ _ = 0"

definition ravel :: "shape \<Rightarrow> shape \<Rightarrow> nat" where
  "ravel sh c = ravel_rev (rev sh) (rev c)"

lemma ravel_rev_lin:
  "list_all2 (\<lambda>i (d, t). 0 \<le> i \<and> i < d) ks xs \<Longrightarrow> lin xs (ravel_rev (map fst xs) ks) = dot ks xs \<and> ravel_rev (map fst xs) ks < prodn (map fst xs)"
proof (induction ks xs rule: list_all2_induct)
  case (Cons i ks x xs)
  obtain d t where x: "x = (d, t)" by (cases x)
  let ?r = "ravel_rev (map fst xs) ks"
  have i: "nat i < nat d" using Cons.hyps x by auto
  have "(nat i + nat d * ?r) div nat d = ?r" "(nat i + nat d * ?r) mod nat d = nat i" using i by simp_all
  moreover have "nat i + nat d * ?r < nat d * prodn (map fst xs)"
  proof -
    have "Suc ?r \<le> prodn (map fst xs)" using Cons.IH by simp
    then have "nat d * Suc ?r \<le> nat d * prodn (map fst xs)" by (rule mult_le_mono2)
    then show ?thesis using i unfolding mult_Suc_right by linarith
  qed
  ultimately show ?case using Cons.IH x by (simp add: dot_def)
qed (simp add: dot_def)

lemma ravel_dot:
  assumes "list_all2 (\<lambda>i (d, t). 0 \<le> i \<and> i < d) c (zip sh st)" and "length st = length sh"
  shows "lin (rev (zip sh st)) (ravel sh c) = dot c (zip sh st)" "ravel sh c < prodn sh"
proof -
  have r: "list_all2 (\<lambda>i (d, t). 0 \<le> i \<and> i < d) (rev c) (rev (zip sh st))" using assms(1) by (simp add: list_all2_rev)
  have fst: "map fst (rev (zip sh st)) = rev sh" using assms(2) by (simp add: rev_map[symmetric])
  have len: "length c = length (zip sh st)" using assms(1) by (rule list_all2_lengthD)
  note R = ravel_rev_lin[OF r, unfolded fst]
  show "lin (rev (zip sh st)) (ravel sh c) = dot c (zip sh st)" using R dot_rev[OF len] by (simp add: ravel_def)
  show "ravel sh c < prodn sh" using R by (simp add: ravel_def prodn_def rev_map[symmetric])
qed

lemma ravel_unravel_rev: "i < prodn ds \<Longrightarrow> ravel_rev ds (unravel_rev ds i) = i"
proof (induction ds arbitrary: i)
  case (Cons d ds)
  then have "0 < nat d" by (cases "nat d") auto
  then have "i div nat d < prodn ds" using Cons.prems by (simp add: div_less_iff_less_mult mult.commute)
  then show ?case using Cons.IH by simp
qed simp

lemma ravel_unravel: "i < prodn sh \<Longrightarrow> ravel sh (unravel sh i) = i"
  using ravel_unravel_rev[of i "rev sh"] by (simp add: ravel_def unravel_def prodn_def rev_map[symmetric])

text \<open>The logical index in an operand of shape \<open>s\<close> that meets index \<open>i\<close> of the broadcast shape \<open>sh\<close>.\<close>

definition source_index :: "shape \<Rightarrow> shape \<Rightarrow> nat \<Rightarrow> nat" where
  "source_index s sh i = ravel s (map2 (\<lambda>d x. if d = 1 then 0 else x) s (drop (length sh - length s) (unravel sh i)))"

lemma unravel_unit: "\<forall>d \<in> set sh. 0 < d \<Longrightarrow> map2 (\<lambda>d x. if d = 1 then 0 else x) sh (unravel sh i) = unravel sh i"
proof -
  assume "\<forall>d \<in> set sh. 0 < d"
  from unravel_range[OF this, of i] have "list_all2 (\<lambda>i d. 0 \<le> i \<and> i < d) (unravel sh i) sh" .
  then show ?thesis by (induction rule: list_all2_induct) auto
qed

lemma source_index_same:
  assumes "i < prodn sh" and "\<forall>d \<in> set sh. 0 \<le> d"
  shows "source_index sh sh i = i"
proof -
  have "0 \<notin> set sh" using assms prodn_0[of sh] by auto
  then have "\<forall>d \<in> set sh. 0 < d" using assms(2) by (metis less_le)
  then show ?thesis using unravel_unit ravel_unravel[OF assms(1)] by (simp add: source_index_def)
qed

lemma operand_offset_outcome:
  assumes it: "mk_iterator ops = Inr it" and ok: "\<forall>l \<in> set ops. layout_ok l" and k: "k < length ops" and i: "i < it_numel it"
  shows "source_index (lay_shape (ops ! k)) (it_shape it) i < lay_numel (ops ! k)"
    "\<exists>off. operand_offset it k i = Inr off \<and> storage_offset (ops ! k) (source_index (lay_shape (ops ! k)) (it_shape it) i) = Inr off"
proof -
  let ?l = "ops ! k"
  have lok: "layout_ok ?l" using ok k by simp
  note L = operand_offset_linear[OF it ok k i]
  let ?c = "broadcast_index ?l (unravel (it_shape it) i)" and ?j = "source_index (lay_shape ?l) (it_shape it) i"
  have j: "?j = ravel (lay_shape ?l) ?c" by (simp add: source_index_def broadcast_index_def)
  note R = ravel_dot[OF L(3) layout_okD(1)[OF lok]]
  show less: "?j < lay_numel ?l" using R(2) j layout_okD(3)[OF lok] by simp
  show "\<exists>off. operand_offset it k i = Inr off \<and> storage_offset ?l ?j = Inr off"
    using storage_offset_Inr(1)[OF lok less] R(1) j L(1,2) by simp
qed

lemma kernel_offset_outcome:
  assumes it: "mk_iterator ops = Inr it" and ok: "\<forall>l \<in> set ops. layout_ok l" and k: "k < length ops" and i: "i < it_numel it"
  shows "source_index (lay_shape (ops ! k)) (it_shape it) i < lay_numel (ops ! k)"
    "\<exists>off. kernel_offset it k i = Inr off \<and> storage_offset (ops ! k) (source_index (lay_shape (ops ! k)) (it_shape it) i) = Inr off"
proof -
  have "kernel_offset it k i = operand_offset it k i"
  proof (cases "has_contiguous_fast_path it")
    case True
    have len: "length (it_contiguous it) = length ops" "length (it_operand_strides it) = length ops"
      by (rule mk_iterator_Inr[OF it], simp add: detect_contiguous_def mapE_length)+
    then have "\<forall>x \<in> set (it_contiguous it). x"
      using True length_filter_less[of _ "it_contiguous it" id] by (fastforce simp: has_contiguous_fast_path_def)
    then have "it_contiguous it ! k" using nth_mem[of k "it_contiguous it"] k len(1) by metis
    then have "operand_is_contiguous it k = Inr True" using k len by (simp add: operand_is_contiguous_def)
    from contiguous_flag_is_dense[OF it ok this i] show ?thesis using True by (simp add: kernel_offset_def)
  qed (simp add: kernel_offset_def)
  then show "source_index (lay_shape (ops ! k)) (it_shape it) i < lay_numel (ops ! k)"
    "\<exists>off. kernel_offset it k i = Inr off \<and> storage_offset (ops ! k) (source_index (lay_shape (ops ! k)) (it_shape it) i) = Inr off"
    using operand_offset_outcome[OF it ok k i] by simp_all
qed

section \<open>The kernels\<close>

lemma iterator_numel:
  assumes "mk_iterator ops = Inr it"
  shows "it_numel it = prodn (it_shape it)"
proof -
  obtain l where "mk_layout (it_shape it) = Inr l" "it_numel it = lay_numel l" by (rule mk_iterator_Inr[OF assms]) blast
  then show ?thesis using mk_layout_ok(1,2) layout_okD(3) by metis
qed

lemma run_unary_outcome:
  assumes x: "tensor_ok h x" "tn_dtype x = Float32" "separate t x"
    and t: "tensor_ok h t" "tn_dtype t = Float32" "lay_contiguous (tn_layout t)"
    and it: "mk_iterator [tn_layout x] = Inr it" "it_shape it = tn_shape t"
  shows "\<exists>h'. run_unary_kernel_into f t x h = Inr h' \<and> writes_only t h h' \<and>
    tensor_contents h' t = float_contents (tn_shape t) (\<lambda>i. f (float_at (tensor_contents h x) (source_index (tn_shape x) (tn_shape t) i)))"
proof -
  obtain src where src: "typed_data Float32 x h = Inr src" using x(2) by (simp add: typed_data_def)
  obtain dst where dst: "typed_data Float32 t h = Inr dst" using t(2) by (simp add: typed_data_def)
  have lok: "\<forall>l \<in> set [tn_layout x]. layout_ok l" using x(1) by (simp add: tensor_ok_def)
  have n: "it_numel it = tn_numel t" using iterator_numel[OF it(1)] it(2) t(1) layout_okD(3) by (simp add: tensor_ok_def)
  have "\<exists>h'. store_each dst Inr (\<lambda>i h. bindE (kernel_offset it 0 i) (\<lambda>off. bindE (load_float h src off) (\<lambda>x. Inr (f x)))) [0..<it_numel it] h = Inr h' \<and>
      writes_only t h h' \<and> tensor_contents h' t =
        float_contents (tn_shape t) (\<lambda>i. f (float_at (tensor_contents h x) (source_index (tn_shape x) (tn_shape t) i)))"
  proof (rule fill_output[OF t(1,3,2) dst n])
    fix i h' assume i: "i < it_numel it" and w: "writes_only t h h'"
    note K = kernel_offset_outcome[OF it(1) lok _ i, of 0]
    obtain off where off: "kernel_offset it 0 i = Inr off"
      "storage_offset (tn_layout x) (source_index (tn_shape x) (it_shape it) i) = Inr off" using K(2) by auto
    show "bindE (kernel_offset it 0 i) (\<lambda>off. bindE (load_float h' src off) (\<lambda>x. Inr (f x))) =
        Inr (f (float_at (tensor_contents h x) (source_index (tn_shape x) (tn_shape t) i)))"
      using off load_separate[OF w x(1,3,2) _ off(2) src] K(1) it(2) by simp
  qed
  then show ?thesis using x(2) t(2,3) it src dst by (simp add: run_unary_kernel_into_def require_kernel_dtype_def)
qed

lemma run_binary_outcome:
  assumes x: "tensor_ok h x" "tn_dtype x = Float32" "separate t x" and y: "tensor_ok h y" "tn_dtype y = Float32" "separate t y"
    and t: "tensor_ok h t" "tn_dtype t = Float32" "lay_contiguous (tn_layout t)"
    and it: "mk_iterator [tn_layout x, tn_layout y] = Inr it" "it_shape it = tn_shape t"
  shows "\<exists>h'. run_binary_kernel_into f t x y h = Inr h' \<and> writes_only t h h' \<and>
    tensor_contents h' t = float_contents (tn_shape t) (\<lambda>i. f (float_at (tensor_contents h x) (source_index (tn_shape x) (tn_shape t) i))
      (float_at (tensor_contents h y) (source_index (tn_shape y) (tn_shape t) i)))"
proof -
  obtain xs where xs: "typed_data Float32 x h = Inr xs" using x(2) by (simp add: typed_data_def)
  obtain ys where ys: "typed_data Float32 y h = Inr ys" using y(2) by (simp add: typed_data_def)
  obtain dst where dst: "typed_data Float32 t h = Inr dst" using t(2) by (simp add: typed_data_def)
  have lok: "\<forall>l \<in> set [tn_layout x, tn_layout y]. layout_ok l" using x(1) y(1) by (simp add: tensor_ok_def)
  have n: "it_numel it = tn_numel t" using iterator_numel[OF it(1)] it(2) t(1) layout_okD(3) by (simp add: tensor_ok_def)
  let ?v = "\<lambda>i h. bindE (kernel_offset it 0 i) (\<lambda>a. bindE (load_float h xs a) (\<lambda>x.
           bindE (kernel_offset it 1 i) (\<lambda>b. bindE (load_float h ys b) (\<lambda>y. Inr (f x y)))))"
  let ?w = "\<lambda>i. f (float_at (tensor_contents h x) (source_index (tn_shape x) (tn_shape t) i))
      (float_at (tensor_contents h y) (source_index (tn_shape y) (tn_shape t) i))"
  have "\<exists>h'. store_each dst Inr ?v [0..<it_numel it] h = Inr h' \<and> writes_only t h h' \<and> tensor_contents h' t = float_contents (tn_shape t) ?w"
  proof (rule fill_output[OF t(1,3,2) dst n])
    fix i h' assume i: "i < it_numel it" and w: "writes_only t h h'"
    note K = kernel_offset_outcome[OF it(1) lok _ i, of 0] and K1 = kernel_offset_outcome[OF it(1) lok _ i, of 1]
    obtain a where a: "kernel_offset it 0 i = Inr a"
      "storage_offset (tn_layout x) (source_index (tn_shape x) (it_shape it) i) = Inr a" using K(2) by auto
    obtain b where b: "kernel_offset it 1 i = Inr b"
      "storage_offset (tn_layout y) (source_index (tn_shape y) (it_shape it) i) = Inr b" using K1(2) by auto
    show "?v i h' = Inr (?w i)"
      using a b load_separate[OF w x(1,3,2) _ a(2) xs] load_separate[OF w y(1,3,2) _ b(2) ys] K(1) K1(1) it(2) by simp
  qed
  then show ?thesis using x(2) y(2) t(2,3) it xs ys dst by (simp add: run_binary_kernel_into_def require_kernel_dtype_def)
qed

section \<open>The iterator over given shapes\<close>

text \<open>Whether operands broadcast, and to what, depends on their shapes only.\<close>

lemma broadcast_operand_shape: "lay_shape a = lay_shape b \<Longrightarrow> broadcast_operand a = broadcast_operand b"
  by (simp add: broadcast_operand_def fun_eq_iff)

lemma broadcast_shape_shapes:
  assumes e: "list_all2 (\<lambda>a b. lay_shape a = lay_shape b) ls ls'"
  shows "broadcast_shape ls = broadcast_shape ls'"
proof -
  have rank: "foldl (\<lambda>r l. if lay_rank l > r then lay_rank l else r) n ls = foldl (\<lambda>r l. if lay_rank l > r then lay_rank l else r) n ls'" for n
    using e by (induction arbitrary: n rule: list_all2_induct) auto
  have "foldE broadcast_operand ls s = foldE broadcast_operand ls' s" for s
    using e
  proof (induction arbitrary: s rule: list_all2_induct)
    case (Cons a as b bs)
    show ?case unfolding foldE.simps broadcast_operand_shape[OF Cons.hyps(1)] Cons.IH ..
  qed simp
  then show ?thesis by (simp add: broadcast_shape_def rank)
qed

lemma broadcast_strides_total:
  assumes "lay_shape a = lay_shape b" and "length (lay_strides a) = lay_rank a" and "length (lay_strides b) = lay_rank b"
    and "broadcast_strides sh a = Inr st"
  shows "\<exists>st'. broadcast_strides sh b = Inr st'"
proof -
  have "\<exists>ys. mapE broadcast_stride (zip os (zip ds ts)) = Inr ys \<Longrightarrow> length ts' = length ts \<Longrightarrow>
      \<exists>ys. mapE broadcast_stride (zip os (zip ds ts')) = Inr ys" for os ds ts ts'
  proof (induction ds arbitrary: os ts ts')
    case (Cons d ds)
    show ?case
    proof (cases os)
      case (Cons x xs)
      show ?thesis
      proof (cases ts)
        case (Cons t tt)
        then obtain t' tt' where t': "ts' = t' # tt'" using Cons.prems(2) by (cases ts') auto
        obtain y ys where y: "broadcast_stride (x, d, t) = Inr y" "mapE broadcast_stride (zip xs (zip ds tt)) = Inr ys"
          using Cons.prems(1) \<open>os = x # xs\<close> \<open>ts = t # tt\<close> by auto
        have "\<exists>ys. mapE broadcast_stride (zip xs (zip ds tt')) = Inr ys"
          by (rule Cons.IH[of xs tt]) (use y(2) Cons.prems(2) t' \<open>ts = t # tt\<close> in auto)
        moreover have "\<exists>y'. broadcast_stride (x, d, t') = Inr y'" using y(1) by (auto simp: broadcast_stride_def split: if_splits)
        ultimately show ?thesis using \<open>os = x # xs\<close> t' by auto
      qed (use Cons.prems in simp)
    qed simp
  qed simp
  then show ?thesis using assms by (fastforce simp: broadcast_strides_def Let_def)
qed

lemma mk_iteratorI:
  assumes "broadcast_shape ls = Inr sh" and "mk_layout sh = Inr l" and "mapE (broadcast_strides sh) ls = Inr sts" and "ls \<noteq> []"
  shows "\<exists>it. mk_iterator ls = Inr it \<and> it_shape it = sh"
proof -
  obtain ish ists where "coalesce_dimensions sh sts = (ish, ists)" by fastforce
  then show ?thesis using assms by (simp add: mk_iterator_def)
qed

lemma mk_iterator_shapes:
  assumes e: "list_all2 (\<lambda>a b. lay_shape a = lay_shape b \<and> layout_ok a \<and> layout_ok b) ls ls'" and it: "mk_iterator ls = Inr it"
  shows "\<exists>it'. mk_iterator ls' = Inr it' \<and> it_shape it' = it_shape it"
proof -
  obtain l where l: "broadcast_shape ls = Inr (it_shape it)" "mk_layout (it_shape it) = Inr l"
    "mapE (broadcast_strides (it_shape it)) ls = Inr (it_operand_strides it)" by (rule mk_iterator_Inr[OF it]) blast
  have "broadcast_shape ls' = Inr (it_shape it)"
    using broadcast_shape_shapes[of ls ls'] l(1) e by (simp add: list_all2_mono)
  moreover have "\<exists>sts. mapE (broadcast_strides (it_shape it)) ls' = Inr sts"
  proof -
    have "list_all2 (\<lambda>a b. lay_shape a = lay_shape b \<and> layout_ok a \<and> layout_ok b) xs ys \<Longrightarrow>
        mapE (broadcast_strides sh) xs = Inr sts \<Longrightarrow> \<exists>sts. mapE (broadcast_strides sh) ys = Inr sts" for xs ys sh sts
    proof (induction arbitrary: sts rule: list_all2_induct)
      case (Cons a as b bs)
      obtain s1 s2 where s: "broadcast_strides sh a = Inr s1" "mapE (broadcast_strides sh) as = Inr s2" using Cons.prems by auto
      have "\<exists>st'. broadcast_strides sh b = Inr st'"
        by (rule broadcast_strides_total[OF _ _ _ s(1)]) (use Cons.hyps(1) layout_okD(1) in auto)
      then show ?case using Cons.IH[OF s(2)] by auto
    qed simp
    then show ?thesis using e l(3) by blast
  qed
  moreover have "ls' \<noteq> []" using it e by (auto simp: mk_iterator_def)
  ultimately show ?thesis using mk_iteratorI[OF _ l(2)] by blast
qed

lemma mk_iterator_single:
  assumes ok: "layout_ok l" and l: "mk_layout (lay_shape l) = Inr l0"
  shows "\<exists>it. mk_iterator [l] = Inr it \<and> it_shape it = lay_shape l"
proof -
  have "mapE (\<lambda>(r, d). broadcast_extent r d) (zip (replicate (length ds) 1) ds) = Inr ds" for ds
    by (induction ds) (simp_all add: broadcast_extent_def)
  then have "broadcast_shape [l] = Inr (lay_shape l)" by (simp add: broadcast_shape_def broadcast_operand_def)
  moreover have "\<exists>sts. mapE broadcast_stride (zip ds (zip ds ts)) = Inr sts" for ds ts
  proof (induction ds arbitrary: ts)
    case (Cons d ds)
    then show ?case by (cases ts) (auto simp: broadcast_stride_def)
  qed simp
  then obtain st where "broadcast_strides (lay_shape l) l = Inr st" by (auto simp: broadcast_strides_def)
  ultimately show ?thesis using mk_iteratorI[of "[l]" "lay_shape l" l0 "[st]"] l by simp
qed

end
