(* ===== verification/Matmul_Sound.thy ===== *)
theory Matmul_Sound
  imports Matmul Kernel_Sound
begin

text \<open>
  All four matrix kernels compute the same sums: each element of the output is the sum over the inner dimension in
  ascending order, whatever the blocks and the width of the vectors are. Only the operation of one lane can differ
  from scalar code, where the target fuses the multiplication with the addition.
\<close>

section \<open>The output as an array\<close>

definition array_is :: "tensor \<Rightarrow> heap \<Rightarrow> heap \<Rightarrow> (nat \<Rightarrow> float32) \<Rightarrow> bool" where
  "array_is t h0 h F \<longleftrightarrow> writes_only t h0 h \<and> (\<forall>j < tn_numel t. tensor_element h t j = Inr (float_bytes (F j)))"

definition output_array :: "tensor \<Rightarrow> heap \<Rightarrow> pointer \<Rightarrow> bool" where
  "output_array t h dst \<longleftrightarrow> tensor_ok h t \<and> lay_contiguous (tn_layout t) \<and> tn_dtype t = Float32 \<and> typed_data Float32 t h = Inr dst"

lemma array_is_trans: "writes_only t h0 h1 \<Longrightarrow> array_is t h1 h F \<Longrightarrow> array_is t h0 h F"
  unfolding array_is_def using writes_only_trans by blast

lemma load_array:
  assumes o: "output_array t h0 dst" and a: "array_is t h0 h F" and j: "j < tn_numel t"
  shows "load_float h dst j = Inr (F j)"
proof -
  have ok: "tensor_ok h0 t" and d: "tn_dtype t = Float32" and c: "lay_contiguous (tn_layout t)" and dst: "typed_data Float32 t h0 = Inr dst"
    using o by (simp_all add: output_array_def)
  have w: "writes_only t h0 h" and el: "tensor_element h t j = Inr (float_bytes (F j))" using a j by (simp_all add: array_is_def)
  have "storage_offset (tn_layout t) j = Inr j" using contiguous_offset[OF _ c j] ok by (simp add: tensor_ok_def)
  from load_element[OF writes_only_tensor[OF w ok] d j this writes_only_data[OF w ok dst]]
  show ?thesis using el j by (simp add: float_at_def tensor_contents_def)
qed

lemma store_array:
  assumes o: "output_array t h0 dst" and a: "array_is t h0 h F" and j: "j < tn_numel t"
  shows "\<exists>h'. store_float dst j x h = Inr h' \<and> array_is t h0 h' (F(j := x))"
proof -
  have ok: "tensor_ok h0 t" and d: "tn_dtype t = Float32" and c: "lay_contiguous (tn_layout t)" and dst: "typed_data Float32 t h0 = Inr dst"
    using o by (simp_all add: output_array_def)
  have w: "writes_only t h0 h" using a by (simp add: array_is_def)
  from store_output[OF writes_only_tensor[OF w ok] c d j writes_only_data[OF w ok dst], of x] obtain h' where
    h': "store_float dst j x h = Inr h'" "writes_only t h h'" "tensor_element h' t j = Inr (float_bytes x)"
      "\<forall>i < tn_numel t. i \<noteq> j \<longrightarrow> tensor_element h' t i = tensor_element h t i" by blast
  have "array_is t h0 h' (F(j := x))" using a h'(3,4) writes_only_trans[OF w h'(2)] by (simp add: array_is_def)
  then show ?thesis using h'(1) by blast
qed

section \<open>Cell updates\<close>

text \<open>What a nest of loops does to the array: a list of updates of single cells.\<close>

type_synonym cell_update = "nat \<times> (float32 \<Rightarrow> float32)"

definition update_cell :: "(nat \<Rightarrow> float32) \<Rightarrow> cell_update \<Rightarrow> nat \<Rightarrow> float32" where
  "update_cell F u = F(fst u := snd u (F (fst u)))"

lemma update_cell_pair [simp]: "update_cell F (j, g) = F(j := g (F j))"
  by (simp add: update_cell_def)

lemma foldl_update: "foldl update_cell F us j = foldl (\<lambda>x u. snd u x) (F j) (filter (\<lambda>u. fst u = j) us)"
  by (induction us arbitrary: F) (auto simp: update_cell_def)

lemma foldE_cells:
  assumes "\<And>x h F. x \<in> set xs \<Longrightarrow> array_is t h0 h F \<Longrightarrow> \<exists>h'. body x h = Inr h' \<and> array_is t h0 h' (foldl update_cell F (us x))"
    and "array_is t h0 h F"
  shows "\<exists>h'. foldE body xs h = Inr h' \<and> array_is t h0 h' (foldl update_cell F (concat (map us xs)))"
  using assms
proof (induction xs arbitrary: h F)
  case (Cons x xs)
  from Cons.prems(1)[of x h F] Cons.prems(2) obtain g where g: "body x h = Inr g" "array_is t h0 g (foldl update_cell F (us x))" by auto
  have "\<exists>h'. foldE body xs g = Inr h' \<and> array_is t h0 h' (foldl update_cell (foldl update_cell F (us x)) (concat (map us xs)))"
    by (rule Cons.IH[OF _ g(2)]) (use Cons.prems(1) in auto)
  then show ?case using g(1) by simp
qed simp

text \<open>A loop over a value that does not write.\<close>

lemma foldE_pure:
  assumes "\<And>x s. x \<in> set xs \<Longrightarrow> f x s = Inr (g s x)"
  shows "foldE f xs s = Inr (foldl g s xs)"
  using assms by (induction xs arbitrary: s) auto

section \<open>Blocks\<close>

lemma block_index: "0 < b \<Longrightarrow> r < n \<Longrightarrow> i < (n + b - 1) div b \<Longrightarrow> r \<in> set (block_range n b (i * b)) \<longleftrightarrow> i = r div b"
  for b n :: nat
proof
  assume b: "0 < b" and "r \<in> set (block_range n b (i * b))"
  then have "b * i \<le> r" "r < b * Suc i" by (auto simp: block_range_def mult.commute)
  then show "i = r div b" using b by (metis div_nat_eqI)
next
  assume b: "0 < b" "r < n" and i: "i = r div b"
  have "i * b \<le> r" "r < i * b + b" using i dividend_less_div_times[OF b(1), of r] by (simp_all add: add.commute)
  then show "r \<in> set (block_range n b (i * b))" using b by (simp add: block_range_def)
qed

lemma block_only:
  assumes "0 < b" and "r \<in> set (block_range n b (i * b))"
  shows "i = r div b"
proof -
  have "b * i \<le> r" "r < b * Suc i" using assms(2) by (auto simp: block_range_def mult.commute)
  then show ?thesis by (metis div_nat_eqI)
qed

lemma block_count: "0 < b \<Longrightarrow> r < n \<Longrightarrow> r div b < (n + b - 1) div b" for b n :: nat
proof -
  assume b: "0 < b" "r < n"
  have "r div b \<le> (n - 1) div b" using b by (intro div_le_mono) simp
  moreover have "(n + b - 1) div b = Suc ((n - 1) div b)" 
  proof -
    have "(n - 1 + b) div b = (n - 1) div b + 1" by (rule div_add_self2) (use b in simp)
    moreover have "n + b - 1 = n - 1 + b" using b by simp
    ultimately show ?thesis by (metis Suc_eq_plus1)
  qed
  ultimately show ?thesis by simp
qed

lemma concat_blocks:
  assumes b: "0 < b"
  shows "concat (map (block_range n b) (block_starts n b)) = [0..<n]"
proof -
  have "concat (map (\<lambda>i. block_range n b (i * b)) [0..<k]) = [0..<min (k * b) n]" for k
  proof (induction k)
    case (Suc k)
    have "[0..<min (k * b) n] @ [k * b..<min (k * b + b) n] = [0..<min (k * b + b) n]"
    proof (cases "k * b \<le> n")
      case True
      then show ?thesis using upt_add_eq_append[of 0 "k * b" "min (k * b + b) n - k * b"] by (simp add: min_def)
    qed (simp add: min_def)
    then show ?case using Suc by (simp add: block_range_def add.commute)
  qed simp
  moreover have "n \<le> (n + b - 1) div b * b"
  proof -
    have "(n + b - 1) mod b < b" using b by simp
    then have "n + b - 1 < (n + b - 1) div b * b + b" using div_mult_mod_eq[of "n + b - 1" b] by linarith
    then show ?thesis using b by linarith
  qed
  ultimately show ?thesis by (simp add: block_starts_def comp_def min_absorb2)
qed

text \<open>The one member of a list for which \<open>f\<close> is not empty.\<close>

lemma concat_single:
  "distinct xs \<Longrightarrow> x \<in> set xs \<Longrightarrow> (\<And>y. y \<in> set xs \<Longrightarrow> y \<noteq> x \<Longrightarrow> f y = []) \<Longrightarrow> concat (map f xs) = f x"
proof (induction xs)
  case (Cons a xs)
  have none: "concat (map f ys) = []" if "\<forall>y \<in> set ys. f y = []" for ys using that by simp
  show ?case
  proof (cases "a = x")
    case True
    then have "\<forall>y \<in> set xs. f y = []" using Cons.prems by auto
    then show ?thesis using True none by simp
  next
    case False
    then show ?thesis using Cons by auto
  qed
qed simp

lemma filter_concat_map: "filter P (concat (map f xs)) = concat (map (\<lambda>x. filter P (f x)) xs)"
  by (induction xs) auto

lemma blocks_single:
  assumes b: "0 < b" and r: "r < n" and none: "\<And>i. i \<noteq> r div b \<Longrightarrow> f (i * b) = []"
  shows "concat (map f (block_starts n b)) = f (r div b * b)"
proof -
  have "concat (map (\<lambda>i. f (i * b)) [0..<(n + b - 1) div b]) = f (r div b * b)"
    by (rule concat_single) (use block_count[OF b r] none in auto)
  then show ?thesis by (simp add: block_starts_def comp_def)
qed

section \<open>Matrices\<close>

text \<open>An operand of rank two, read through its strides, is a matrix.\<close>

definition matrix_at :: "contents \<Rightarrow> nat \<Rightarrow> nat \<Rightarrow> float32" where
  "matrix_at x r c = float_at x (r * nat (fst x ! 1) + c)"

lemma shape2: "length sh = 2 \<Longrightarrow> sh = [sh ! 0, sh ! 1]"
  by (cases sh; cases "tl sh") auto

lemma matrix_offset:
  assumes ok: "layout_ok l" and rank: "lay_rank l = 2" and r: "r < nat (lay_shape l ! 0)" and c: "c < nat (lay_shape l ! 1)"
  shows "storage_offset l (r * nat (lay_shape l ! 1) + c) = Inr (r * nat (lay_strides l ! 0) + c * nat (lay_strides l ! 1))"
    "r * nat (lay_shape l ! 1) + c < lay_numel l"
proof -
  let ?C = "nat (lay_shape l ! 1)"
  note sh = shape2[OF rank] and st = shape2[of "lay_strides l"]
  have len: "length (lay_strides l) = 2" using layout_okD(1)[OF ok] rank by simp
  have "lay_numel l = nat (lay_shape l ! 0) * ?C" using layout_okD(3)[OF ok] by (subst (asm) sh) simp
  moreover have "Suc r * ?C \<le> nat (lay_shape l ! 0) * ?C" using r by (intro mult_le_mono1) simp
  ultimately show less: "r * ?C + c < lay_numel l" using c by simp
  have z: "rev (zip (lay_shape l) (lay_strides l)) = [(lay_shape l ! 1, lay_strides l ! 1), (lay_shape l ! 0, lay_strides l ! 0)]"
    by (subst sh, subst st[OF len]) simp
  have "(r * ?C + c) mod ?C = c" "(r * ?C + c) div ?C = r" using c by simp_all
  then show "storage_offset l (r * ?C + c) = Inr (r * nat (lay_strides l ! 0) + c * nat (lay_strides l ! 1))"
    using storage_offset_Inr(1)[OF ok less] r unfolding z by (simp add: add.commute)
qed

text \<open>An input matrix that is separate from the output stays readable while the output is written.\<close>

definition input_matrix :: "tensor \<Rightarrow> heap \<Rightarrow> tensor \<Rightarrow> pointer \<Rightarrow> bool" where
  "input_matrix t h x src \<longleftrightarrow> tensor_ok h x \<and> tn_dtype x = Float32 \<and> tn_rank x = 2 \<and> separate t x \<and> typed_data Float32 x h = Inr src"

lemma load_matrix:
  assumes x: "input_matrix t h0 x src" and w: "writes_only t h0 h" and r: "r < nat (tn_shape x ! 0)" and c: "c < nat (tn_shape x ! 1)"
  shows "load_float h src (r * nat (tn_strides x ! 0) + c * nat (tn_strides x ! 1)) = Inr (matrix_at (tensor_contents h0 x) r c)"
proof -
  have p: "tensor_ok h0 x" "tn_dtype x = Float32" "tn_rank x = 2" "separate t x" "typed_data Float32 x h0 = Inr src"
    using x by (simp_all add: input_matrix_def)
  have ok: "layout_ok (tn_layout x)" using p(1) by (simp add: tensor_ok_def)
  note M = matrix_offset[OF ok p(3) r c]
  from load_separate[OF w p(1,4,2) M(2,1) p(5)] show ?thesis by (simp add: matrix_at_def tensor_contents_def)
qed

lemma array_is_writes: "array_is t h0 h F \<Longrightarrow> writes_only t h0 h"
  by (simp add: array_is_def)

lemma fill_zero_outcome:
  assumes o: "output_array t h dst"
  shows "\<exists>h'. fill_zero t dst h = Inr h' \<and> array_is t h h' (\<lambda>_. 0)"
proof (cases "tn_numel t > 0")
  case True
  have p: "tensor_ok h t" "lay_contiguous (tn_layout t)" "tn_dtype t = Float32" "typed_data Float32 t h = Inr dst"
    using o by (simp_all add: output_array_def)
  from store_each_outcome[OF p, of "tn_numel t" Inr "\<lambda>i. i" "\<lambda>i h. Inr 0" "\<lambda>_. 0"] True
  show ?thesis by (auto simp: fill_zero_def array_is_def)
qed (simp add: fill_zero_def array_is_def)

section \<open>The packed product\<close>

text \<open>The packed columns of the right operand.\<close>

definition packed_is :: "packed_rhs \<Rightarrow> nat \<Rightarrow> nat \<Rightarrow> (nat \<Rightarrow> nat \<Rightarrow> float32) \<Rightarrow> bool" where
  "packed_is p K C B \<longleftrightarrow> pr_inner p = K \<and> pr_columns p = C \<and> (\<forall>k < K. \<forall>c < C. pr_data p ! (k * C + c) = B k c)"

lemma cell_inj: "c < C \<Longrightarrow> c' < C \<Longrightarrow> r * C + c = r' * C + c' \<longleftrightarrow> r = r' \<and> c = c'" for c C :: nat
proof
  assume h: "c < C" "c' < C" "r * C + c = r' * C + c'"
  have "(r * C + c) div C = r" "(r' * C + c') div C = r'" "(r * C + c) mod C = c" "(r' * C + c') mod C = c'" using h(1,2) by simp_all
  then show "r = r' \<and> c = c'" using h(3) by metis
qed simp

lemma cell_bound: "r < R \<Longrightarrow> c < C \<Longrightarrow> r * C + c < R * C" for c C :: nat
proof -
  assume "r < R" "c < C"
  then have "Suc r * C \<le> R * C" by (intro mult_le_mono1) simp
  then show ?thesis using \<open>c < C\<close> by simp
qed

lemma pack_row_outcome:
  assumes load: "\<And>c. c < C \<Longrightarrow> load_float h src (k * s0 + c * s1) = Inr (B c)" and k: "k < K" and len: "length data = K * C"
  shows "\<exists>data'. pack_row h src C s0 s1 k data = Inr data' \<and> length data' = K * C \<and>
    (\<forall>c < C. data' ! (k * C + c) = B c) \<and> (\<forall>j. (\<forall>c < C. j \<noteq> k * C + c) \<longrightarrow> data' ! j = data ! j)"
proof -
  let ?f = "\<lambda>c data. bindE (load_float h src (k * s0 + c * s1)) (\<lambda>x. Inr (data[k * C + c := x]))"
  have "n \<le> C \<Longrightarrow> \<exists>data'. foldE ?f [0..<n] data = Inr data' \<and> length data' = K * C \<and>
      (\<forall>c < n. data' ! (k * C + c) = B c) \<and> (\<forall>j. (\<forall>c < n. j \<noteq> k * C + c) \<longrightarrow> data' ! j = data ! j)" for n
  proof (induction n)
    case (Suc n)
    then obtain d where d: "foldE ?f [0..<n] data = Inr d" "length d = K * C" "\<forall>c < n. d ! (k * C + c) = B c"
      "\<forall>j. (\<forall>c < n. j \<noteq> k * C + c) \<longrightarrow> d ! j = data ! j" by auto
    have n: "n < C" using Suc.prems by simp
    have "k * C + n < length d" using cell_bound[OF k n] d(2) by simp
    then show ?case using d load[OF n] by (auto simp: foldE_upt_Suc nth_list_update less_Suc_eq simp del: upt_Suc)
  qed (simp add: len)
  from this[of C] show ?thesis by (simp add: pack_row_def)
qed

lemma pack_rhs_outcome:
  assumes x: "tensor_ok h x" "tn_dtype x = Float32" "tn_rank x = 2"
    and K: "K = nat (tn_shape x ! 0)" and C: "C = nat (tn_shape x ! 1)"
  shows "\<exists>p. pack_rhs x False h = Inr p \<and> packed_is p K C (matrix_at (tensor_contents h x))"
proof -
  obtain src where src: "typed_data Float32 x h = Inr src" using x(2) by (simp add: typed_data_def)
  have "layout_ok (tn_layout x)" using x(1) by (simp add: tensor_ok_def)
  note M = matrix_offset[OF this x(3)]
  let ?B = "matrix_at (tensor_contents h x)" and ?s0 = "nat (tn_strides x ! 0)" and ?s1 = "nat (tn_strides x ! 1)"
  have load: "load_float h src (k * ?s0 + c * ?s1) = Inr (?B k c)" if "k < K" "c < C" for k c
    using load_element[OF x(1,2) M(2) M(1) src, of k c] that K C by (simp add: matrix_at_def tensor_contents_def)
  have "n \<le> K \<Longrightarrow> \<exists>data. foldE (pack_row h src C ?s0 ?s1) [0..<n] (replicate (K * C) 0) = Inr data \<and> length data = K * C \<and>
      (\<forall>k < n. \<forall>c < C. data ! (k * C + c) = ?B k c)" for n
  proof (induction n)
    case (Suc n)
    then obtain d where d: "foldE (pack_row h src C ?s0 ?s1) [0..<n] (replicate (K * C) 0) = Inr d" "length d = K * C"
      "\<forall>k < n. \<forall>c < C. d ! (k * C + c) = ?B k c" by auto
    have n: "n < K" using Suc.prems by simp
    from pack_row_outcome[of C h src n ?s0 ?s1 "?B n", OF load[OF n] n d(2)] obtain d' where
      d': "pack_row h src C ?s0 ?s1 n d = Inr d'" "length d' = K * C" "\<forall>c < C. d' ! (n * C + c) = ?B n c"
        "\<forall>j. (\<forall>c < C. j \<noteq> n * C + c) \<longrightarrow> d' ! j = d ! j" by blast
    have "d' ! (k * C + c) = ?B k c" if "k < Suc n" "c < C" for k c
    proof (cases "k = n")
      case False
      then have "\<forall>c' < C. k * C + c \<noteq> n * C + c'" using cell_inj[OF that(2)] by simp
      then show ?thesis using d'(4) d(3) that False by simp
    qed (use d'(3) that in simp)
    then show ?case using d(1) d'(1,2) by (simp add: foldE_upt_Suc del: upt_Suc)
  qed simp
  from this[of K] show ?thesis using x(2,3) src K C by (auto simp: pack_rhs_def packed_is_def Let_def)
qed

lemma mapE_pure: "(\<And>x. x \<in> set xs \<Longrightarrow> f x = Inr (g x)) \<Longrightarrow> mapE f xs = Inr (map g xs)"
  by (induction xs) auto

lemma update_outside: "j \<notin> fst ` set us \<Longrightarrow> foldl update_cell F us j = F j"
proof -
  assume "j \<notin> fst ` set us"
  then have "filter (\<lambda>u. fst u = j) us = []" by (auto simp: filter_empty_conv image_iff)
  then show ?thesis by (simp add: foldl_update)
qed

text \<open>Storing precomputed results in different cells is updating these cells.\<close>

lemma precomputed_updates:
  "foldl update_cell F (map (\<lambda>l. (p + l, \<lambda>_. f l (F (p + l)))) [0..<w]) = foldl update_cell F (map (\<lambda>l. (p + l, f l)) [0..<w])"
proof (induction w)
  case (Suc w)
  have "foldl update_cell F (map (\<lambda>l. (p + l, f l)) [0..<w]) (p + w) = F (p + w)" by (rule update_outside) auto
  then show ?case using Suc by simp
qed simp

definition dot_from :: "(float32 \<Rightarrow> float32 \<Rightarrow> float32 \<Rightarrow> float32) \<Rightarrow> (nat \<Rightarrow> float32) \<Rightarrow> (nat \<Rightarrow> float32) \<Rightarrow> nat list \<Rightarrow> float32 \<Rightarrow> float32" where
  "dot_from madd a b ks x = foldl (\<lambda>x k. madd x (a k) (b k)) x ks"

text \<open>The premises the tile loops share.\<close>

definition tile :: "tensor \<Rightarrow> heap \<Rightarrow> tensor \<Rightarrow> pointer \<Rightarrow> pointer \<Rightarrow> packed_rhs \<Rightarrow> nat \<Rightarrow> nat \<Rightarrow> nat \<Rightarrow> (nat \<Rightarrow> nat \<Rightarrow> float32) \<Rightarrow> bool" where
  "tile t h0 lhs src dst p R K C B \<longleftrightarrow> output_array t h0 dst \<and> tn_numel t = R * C \<and> input_matrix t h0 lhs src \<and>
     nat (tn_shape lhs ! 0) = R \<and> nat (tn_shape lhs ! 1) = K \<and> packed_is p K C B"

lemma tile_lhs:
  assumes "tile t h0 lhs src dst p R K C B" and "array_is t h0 h F" and "r < R" and "k < K"
  shows "load_float h src (r * nat (tn_strides lhs ! 0) + k * nat (tn_strides lhs ! 1)) = Inr (matrix_at (tensor_contents h0 lhs) r k)"
  using assms load_matrix array_is_writes by (auto simp: tile_def)

lemma simd_dot_outcome:
  assumes T: "tile t h0 lhs src dst p R K C B" and a: "array_is t h0 h F" and r: "r < R" and ks: "set ks \<subseteq> {..<K}" and cw: "column + st_width st \<le> C"
  shows "\<exists>h'. simd_dot st src dst (r * nat (tn_strides lhs ! 0)) (nat (tn_strides lhs ! 1)) p (r * C) ks column h = Inr h' \<and>
    array_is t h0 h' (foldl update_cell F (map (\<lambda>c. (r * C + c, dot_from (st_madd st) (matrix_at (tensor_contents h0 lhs) r) (\<lambda>k. B k c) ks))
      [column..<column + st_width st]))"
proof -
  let ?w = "st_width st" and ?A = "matrix_at (tensor_contents h0 lhs) r" and ?p = "r * C + column"
  have o: "output_array t h0 dst" and n: "tn_numel t = R * C" and p: "pr_columns p = C" "\<And>k c. k < K \<Longrightarrow> c < C \<Longrightarrow> pr_data p ! (k * C + c) = B k c"
    using T by (auto simp: tile_def packed_is_def)
  have cell: "?p + l < tn_numel t" if "l < ?w" for l using cell_bound[OF r, of "column + l" C] that cw n by (simp add: add.assoc)
  have lanes: "mapE (\<lambda>l. load_float h dst (?p + l)) [0..<?w] = Inr (map (\<lambda>l. F (?p + l)) [0..<?w])"
    by (rule mapE_pure) (use load_array[OF o a cell] in simp)
  let ?step = "\<lambda>k lanes. bindE (load_float h src (r * nat (tn_strides lhs ! 0) + k * nat (tn_strides lhs ! 1))) (\<lambda>a.
         Inr (map2 (\<lambda>l x. st_madd st x a (pr_data p ! (k * pr_columns p + column + l))) [0..<?w] lanes))"
  have acc: "foldE ?step ks (map G [0..<?w]) = Inr (map (\<lambda>l. dot_from (st_madd st) ?A (\<lambda>k. B k (column + l)) ks (G l)) [0..<?w])" for G
    using ks
  proof (induction ks arbitrary: G)
    case (Cons k ks)
    then have k: "k < K" by simp
    have "map2 (\<lambda>l x. st_madd st x (?A k) (pr_data p ! (k * pr_columns p + column + l))) [0..<?w] (map G [0..<?w]) =
        map (\<lambda>l. st_madd st (G l) (?A k) (B k (column + l))) [0..<?w]"
      by (rule nth_equalityI) (use p k cw in \<open>auto simp: add.assoc\<close>)
    then show ?case using Cons.IH tile_lhs[OF T a r k] Cons.prems by (simp add: dot_from_def)
  qed (simp add: dot_from_def)
  let ?v = "map (\<lambda>l. dot_from (st_madd st) ?A (\<lambda>k. B k (column + l)) ks (F (?p + l))) [0..<?w]"
  have "\<exists>h'. foldE (\<lambda>l. store_float dst (?p + l) (?v ! l)) [0..<?w] h = Inr h' \<and>
      array_is t h0 h' (foldl update_cell F (concat (map (\<lambda>l. [(?p + l, \<lambda>_. ?v ! l)]) [0..<?w])))"
  proof (rule foldE_cells[OF _ a])
    fix l h F assume "l \<in> set [0..<?w]" "array_is t h0 h F"
    then show "\<exists>h'. store_float dst (?p + l) (?v ! l) h = Inr h' \<and> array_is t h0 h' (foldl update_cell F [(?p + l, \<lambda>_. ?v ! l)])"
      using store_array[OF o _ cell] by (simp add: update_cell_def)
  qed
  then obtain h' where h': "foldE (\<lambda>l. store_float dst (?p + l) (?v ! l)) [0..<?w] h = Inr h'"
    "array_is t h0 h' (foldl update_cell F (concat (map (\<lambda>l. [(?p + l, \<lambda>_. ?v ! l)]) [0..<?w])))" by blast
  have c1: "concat (map (\<lambda>l. [(?p + l, \<lambda>_. ?v ! l)]) [0..<?w]) =
      map (\<lambda>l. (?p + l, \<lambda>_. dot_from (st_madd st) ?A (\<lambda>k. B k (column + l)) ks (F (?p + l)))) [0..<?w]"
    by (simp add: concat_map_singleton cong: map_cong)
  have c2: "map (\<lambda>l. (?p + l, dot_from (st_madd st) ?A (\<lambda>k. B k (column + l)) ks)) [0..<?w] =
      map (\<lambda>c. (r * C + c, dot_from (st_madd st) ?A (\<lambda>k. B k c) ks)) [column..<column + ?w]"
    by (rule nth_equalityI) (auto simp: add.assoc)
  note h'(2)[unfolded c1 precomputed_updates[of F ?p "\<lambda>l. dot_from (st_madd st) ?A (\<lambda>k. B k (column + l)) ks" ?w] c2]
  moreover have "simd_dot st src dst (r * nat (tn_strides lhs ! 0)) (nat (tn_strides lhs ! 1)) p (r * C) ks column h = Inr h'"
    unfolding simd_dot_def lanes bindE_Inr acc by (rule h'(1))
  ultimately show ?thesis by blast
qed

lemma scalar_dot_outcome:
  assumes T: "tile t h0 lhs src dst p R K C B" and a: "array_is t h0 h F" and r: "r < R" and ks: "set ks \<subseteq> {..<K}" and c: "c < C"
  shows "\<exists>h'. scalar_dot fo src dst (r * nat (tn_strides lhs ! 0)) (nat (tn_strides lhs ! 1)) p (r * C) ks c h = Inr h' \<and>
    array_is t h0 h' (foldl update_cell F [(r * C + c, dot_from (scalar_madd fo) (matrix_at (tensor_contents h0 lhs) r) (\<lambda>k. B k c) ks)])"
proof -
  let ?A = "matrix_at (tensor_contents h0 lhs) r"
  have o: "output_array t h0 dst" and n: "tn_numel t = R * C" and p: "pr_columns p = C" "\<And>k c. k < K \<Longrightarrow> c < C \<Longrightarrow> pr_data p ! (k * C + c) = B k c"
    using T by (auto simp: tile_def packed_is_def)
  have cell: "r * C + c < tn_numel t" using cell_bound[OF r c] n by simp
  have "foldE (\<lambda>k acc. bindE (load_float h src (r * nat (tn_strides lhs ! 0) + k * nat (tn_strides lhs ! 1))) (\<lambda>a.
         Inr (scalar_madd fo acc a (pr_data p ! (k * pr_columns p + c))))) ks x = Inr (dot_from (scalar_madd fo) ?A (\<lambda>k. B k c) ks x)" for x
    unfolding dot_from_def
    by (rule foldE_pure) (use tile_lhs[OF T a r] ks p c in auto)
  then show ?thesis using load_array[OF o a cell] store_array[OF o a cell] by (simp add: scalar_dot_def update_cell_def)
qed

text \<open>The operation a column goes through: the one of a lane in the full registers of its block, else scalar code.\<close>

definition column_madd :: "float_ops \<Rightarrow> simd_target \<Rightarrow> nat \<Rightarrow> nat \<Rightarrow> nat \<Rightarrow> float32 \<Rightarrow> float32 \<Rightarrow> float32 \<Rightarrow> float32" where
  "column_madd fo st cb ce c = (if c < cb + vector_groups st cb ce * st_width st then st_madd st else scalar_madd fo)"

lemma vector_groups_bound:
  assumes "cb \<le> ce"
  shows "cb + vector_groups st cb ce * st_width st \<le> ce"
proof -
  have "vector_groups st cb ce * st_width st \<le> ce - cb" by (simp add: vector_groups_def)
  then show ?thesis using assms by linarith
qed

lemma upt_groups: "concat (map (\<lambda>g. [cb + g * w..<cb + g * w + w]) [0..<n]) = [cb..<cb + n * w]" for cb w n :: nat
proof (induction n)
  case (Suc n)
  then show ?case using upt_add_eq_append[of cb "cb + n * w" w] by (simp add: add.assoc add.commute[of w])
qed simp

lemma packed_row_outcome:
  assumes T: "tile t h0 lhs src dst p R K C B" and a: "array_is t h0 h F" and r: "r < R" and ks: "set ks \<subseteq> {..<K}" and c: "cb \<le> ce" "ce \<le> C"
  shows "\<exists>h'. packed_row fo st lhs p src dst ks cb ce r h = Inr h' \<and> array_is t h0 h' (foldl update_cell F
    (map (\<lambda>c. (r * C + c, dot_from (column_madd fo st cb ce c) (matrix_at (tensor_contents h0 lhs) r) (\<lambda>k. B k c) ks)) [cb..<ce]))"
proof -
  let ?w = "st_width st" and ?g = "vector_groups st cb ce" and ?A = "matrix_at (tensor_contents h0 lhs) r"
  let ?s = "cb + ?g * ?w" and ?cell = "\<lambda>c. (r * C + c, dot_from (column_madd fo st cb ce c) ?A (\<lambda>k. B k c) ks)"
  have pc: "pr_columns p = C" using T by (simp add: tile_def packed_is_def)
  have s: "?s \<le> ce" using vector_groups_bound[OF c(1)] .
  have in_vec: "map (\<lambda>c. (r * C + c, dot_from (st_madd st) ?A (\<lambda>k. B k c) ks)) [cb + g * ?w..<cb + g * ?w + ?w] = map ?cell [cb + g * ?w..<cb + g * ?w + ?w]"
    if "g < ?g" for g
  proof -
    have "Suc g * ?w \<le> ?g * ?w" using that by (intro mult_le_mono1) simp
    then show ?thesis by (auto simp: column_madd_def)
  qed
  have "\<exists>h'. foldE (\<lambda>g. simd_dot st src dst (r * nat (tn_strides lhs ! 0)) (nat (tn_strides lhs ! 1)) p (r * C) ks (cb + g * ?w)) [0..<?g] h = Inr h' \<and>
      array_is t h0 h' (foldl update_cell F (concat (map (\<lambda>g. map ?cell [cb + g * ?w..<cb + g * ?w + ?w]) [0..<?g])))"
  proof (rule foldE_cells[OF _ a])
    fix g h F assume g: "g \<in> set [0..<?g]" and a: "array_is t h0 h F"
    have "Suc g * ?w \<le> ?g * ?w" using g by (intro mult_le_mono1) simp
    then have "cb + g * ?w + ?w \<le> C" using s c(2) by simp
    from simd_dot_outcome[OF T a r ks this]
    show "\<exists>h'. simd_dot st src dst (r * nat (tn_strides lhs ! 0)) (nat (tn_strides lhs ! 1)) p (r * C) ks (cb + g * ?w) h = Inr h' \<and>
        array_is t h0 h' (foldl update_cell F (map ?cell [cb + g * ?w..<cb + g * ?w + ?w]))" using in_vec[of g] g by (simp only: set_upt atLeastLessThan_iff)
  qed
  moreover have "concat (map (\<lambda>g. map ?cell [cb + g * ?w..<cb + g * ?w + ?w]) [0..<?g]) = map ?cell [cb..<?s]"
    using arg_cong[OF upt_groups[of cb ?w ?g], of "map ?cell"] by (simp add: map_concat comp_def)
  ultimately obtain h1 where h1: "foldE (\<lambda>g. simd_dot st src dst (r * nat (tn_strides lhs ! 0)) (nat (tn_strides lhs ! 1)) p (r * C) ks (cb + g * ?w)) [0..<?g] h = Inr h1"
    "array_is t h0 h1 (foldl update_cell F (map ?cell [cb..<?s]))" by auto
  have "\<exists>h'. foldE (scalar_dot fo src dst (r * nat (tn_strides lhs ! 0)) (nat (tn_strides lhs ! 1)) p (r * C) ks) [?s..<ce] h1 = Inr h' \<and>
      array_is t h0 h' (foldl update_cell (foldl update_cell F (map ?cell [cb..<?s])) (concat (map (\<lambda>c. [?cell c]) [?s..<ce])))"
  proof (rule foldE_cells[OF _ h1(2)])
    fix x h F assume x: "x \<in> set [?s..<ce]" and a: "array_is t h0 h F"
    have "column_madd fo st cb ce x = scalar_madd fo" using x by (simp add: column_madd_def)
    then show "\<exists>h'. scalar_dot fo src dst (r * nat (tn_strides lhs ! 0)) (nat (tn_strides lhs ! 1)) p (r * C) ks x h = Inr h' \<and>
        array_is t h0 h' (foldl update_cell F [?cell x])" using scalar_dot_outcome[OF T a r ks, of x fo] x c(2) by simp
  qed
  moreover have "[cb..<ce] = [cb..<?s] @ [?s..<ce]" using upt_add_eq_append[of cb ?s "ce - ?s"] s by simp
  ultimately show ?thesis using h1(1) by (auto simp: packed_row_def Let_def pc concat_map_singleton)
qed

section \<open>The loop nest\<close>

lemma filter_one: "distinct xs \<Longrightarrow> filter (\<lambda>x. x = a) xs = (if a \<in> set xs then [a] else [])"
  by (induction xs) auto

text \<open>The columns of one row that meet a given cell.\<close>

lemma cell_columns:
  fixes c C :: nat
  assumes "c < C" and "set cs \<subseteq> {..<C}" and "distinct cs"
  shows "filter (\<lambda>c'. row * C + c' = r * C + c) cs = (if row = r \<and> c \<in> set cs then [c] else [])"
proof -
  have "filter (\<lambda>c'. row * C + c' = r * C + c) cs = filter (\<lambda>c'. row = r \<and> c' = c) cs"
  proof (rule filter_cong[OF refl])
    fix x assume "x \<in> set cs"
    then have "x < C" using assms(2) by blast
    then show "(row * C + x = r * C + c) = (row = r \<and> x = c)" by (rule cell_inj[OF _ assms(1)])
  qed
  also have "\<dots> = (if row = r \<and> c \<in> set cs then [c] else [])" using filter_one[OF assms(3), of c] by (cases "row = r") simp_all
  finally show ?thesis .
qed

lemma block_range_bound: "set (block_range n b s) \<subseteq> {..<n}"
  by (auto simp: block_range_def)

lemma block_range_distinct: "distinct (block_range n b s)"
  by (simp add: block_range_def)

lemma concat_nothing: "(\<And>x. x \<in> set xs \<Longrightarrow> f x = []) \<Longrightarrow> concat (map f xs) = []"
  by simp

definition nest :: "nat \<Rightarrow> nat \<Rightarrow> nat \<Rightarrow> block_size \<Rightarrow> (nat \<Rightarrow> nat \<Rightarrow> nat \<Rightarrow> cell_update list) \<Rightarrow> cell_update list" where
  "nest R K C bs cells = concat (map (\<lambda>rb. concat (map (\<lambda>cb. concat (map (\<lambda>ib. concat (map (cells cb ib) (block_range R (bk_rows bs) rb)))
     (block_starts K (bk_inner bs)))) (block_starts C (bk_columns bs)))) (block_starts R (bk_rows bs)))"

text \<open>The updates of one cell, in order: those of its own row and column block, one inner block after the other.\<close>

lemma nest_cell:
  assumes bs: "require_positive_blocks bs = Inr ()" and r: "r < R" and c: "c < C"
    and cells: "\<And>cb ib row. filter P (cells cb ib row) = (if row = r \<and> c \<in> set (block_range C (bk_columns bs) cb) then one cb ib else [])"
  shows "filter P (nest R K C bs cells) = concat (map (one (c div bk_columns bs * bk_columns bs)) (block_starts K (bk_inner bs)))"
proof -
  have pos: "0 < bk_rows bs" "0 < bk_columns bs" using bs by (auto simp: require_positive_blocks_def split: if_splits)
  let ?cols = "\<lambda>cb. c \<in> set (block_range C (bk_columns bs) cb)"
  have rows: "concat (map (\<lambda>row. filter P (cells cb ib row)) (block_range R (bk_rows bs) rb)) =
      (if r \<in> set (block_range R (bk_rows bs) rb) \<and> ?cols cb then one cb ib else [])" for cb ib rb
  proof (cases "r \<in> set (block_range R (bk_rows bs) rb)")
    case True
    have "concat (map (\<lambda>row. filter P (cells cb ib row)) (block_range R (bk_rows bs) rb)) = filter P (cells cb ib r)"
      by (rule concat_single[OF _ True]) (simp_all add: block_range_def cells)
    then show ?thesis using True cells by simp
  next
    case False
    then show ?thesis by (auto simp: cells intro!: concat_nothing)
  qed
  have inner: "concat (map (\<lambda>ib. concat (map (\<lambda>row. filter P (cells cb ib row)) (block_range R (bk_rows bs) rb))) (block_starts K (bk_inner bs))) =
      (if r \<in> set (block_range R (bk_rows bs) rb) \<and> ?cols cb then concat (map (one cb) (block_starts K (bk_inner bs))) else [])" for cb rb
    unfolding rows by (auto intro!: concat_nothing)
  have cols: "concat (map (\<lambda>cb. if r \<in> set (block_range R (bk_rows bs) rb) \<and> ?cols cb then f cb else []) (block_starts C (bk_columns bs))) =
      (if r \<in> set (block_range R (bk_rows bs) rb) then f (c div bk_columns bs * bk_columns bs) else [])" for f :: "nat \<Rightarrow> cell_update list" and rb
  proof (cases "r \<in> set (block_range R (bk_rows bs) rb)")
    case True
    have "concat (map (\<lambda>cb. if ?cols cb then f cb else []) (block_starts C (bk_columns bs))) =
        (if ?cols (c div bk_columns bs * bk_columns bs) then f (c div bk_columns bs * bk_columns bs) else [])"
    proof (rule blocks_single[OF pos(2) c])
      fix i assume i: "i \<noteq> c div bk_columns bs"
      show "(if ?cols (i * bk_columns bs) then f (i * bk_columns bs) else []) = []"
        using i block_only[OF pos(2)] by auto
    qed
    then show ?thesis using True block_index[OF pos(2) c block_count[OF pos(2) c]] by simp
  qed simp
  have "concat (map (\<lambda>rb. if r \<in> set (block_range R (bk_rows bs) rb) then f else []) (block_starts R (bk_rows bs))) = f" for f :: "cell_update list"
  proof -
    have "concat (map (\<lambda>rb. if r \<in> set (block_range R (bk_rows bs) rb) then f else []) (block_starts R (bk_rows bs))) =
        (if r \<in> set (block_range R (bk_rows bs) (r div bk_rows bs * bk_rows bs)) then f else [])"
    proof (rule blocks_single[OF pos(1) r])
      fix i assume i: "i \<noteq> r div bk_rows bs"
      show "(if r \<in> set (block_range R (bk_rows bs) (i * bk_rows bs)) then f else []) = []"
        using i block_only[OF pos(1)] by auto
    qed
    then show ?thesis using block_index[OF pos(1) r block_count[OF pos(1) r]] by simp
  qed
  then show ?thesis by (simp only: nest_def filter_concat_map inner cols)
qed

lemma nest_outcome:
  assumes "array_is t h0 h F" and R: "\<And>b. set (block_range R (bk_rows bs) b) \<subseteq> {..<R}"
    and row: "\<And>cb ib row h F. cb \<in> set (block_starts C (bk_columns bs)) \<Longrightarrow> row < R \<Longrightarrow> array_is t h0 h F \<Longrightarrow>
      \<exists>h'. body cb ib row h = Inr h' \<and> array_is t h0 h' (foldl update_cell F (cells cb ib row))"
  shows "\<exists>h'. foldE (\<lambda>rb. foldE (\<lambda>cb. foldE (\<lambda>ib. foldE (body cb ib) (block_range R (bk_rows bs) rb)) (block_starts K (bk_inner bs)))
      (block_starts C (bk_columns bs))) (block_starts R (bk_rows bs)) h = Inr h' \<and> array_is t h0 h' (foldl update_cell F (nest R K C bs cells))"
  unfolding nest_def
proof (rule foldE_cells[OF _ assms(1)], rule foldE_cells, rule foldE_cells, rule foldE_cells)
  fix rb cb ib row h F
  assume "cb \<in> set (block_starts C (bk_columns bs))" "row \<in> set (block_range R (bk_rows bs) rb)" "array_is t h0 h F"
  then show "\<exists>h'. body cb ib row h = Inr h' \<and> array_is t h0 h' (foldl update_cell F (cells cb ib row))" using row R by blast
qed

lemma block_start_bound: "0 < b \<Longrightarrow> s \<in> set (block_starts n b) \<Longrightarrow> s < n" for b n :: nat
proof -
  assume b: "0 < b" and "s \<in> set (block_starts n b)"
  then obtain i where i: "i < (n + b - 1) div b" "s = i * b" by (auto simp: block_starts_def)
  then have "Suc i * b \<le> (n + b - 1) div b * b" by (intro mult_le_mono1) simp
  also have "\<dots> \<le> n + b - 1" by simp
  finally show ?thesis using i(2) b by simp
qed

lemma dot_blocks:
  assumes "0 < b"
  shows "foldl (\<lambda>x u. snd u x) y (concat (map (\<lambda>ib. [(j, dot_from madd a d (block_range K b ib))]) (block_starts K b))) = dot_from madd a d [0..<K] y"
proof -
  have "foldl (\<lambda>x u. snd u x) y (concat (map (\<lambda>ib. [(j, dot_from madd a d (f ib))]) xs)) = dot_from madd a d (concat (map f xs)) y" for f and xs :: "nat list"
    by (induction xs arbitrary: y) (simp_all add: dot_from_def)
  from this[of "block_range K b" "block_starts K b"] show ?thesis by (simp only: concat_blocks[OF assms])
qed

text \<open>The value of one element of the packed product.\<close>

definition product_element :: "float_ops \<Rightarrow> simd_target \<Rightarrow> block_size \<Rightarrow> nat \<Rightarrow> nat \<Rightarrow> contents \<Rightarrow> (nat \<Rightarrow> nat \<Rightarrow> float32) \<Rightarrow> nat \<Rightarrow> nat \<Rightarrow> float32" where
  "product_element fo st bs K C x B r c =
     (let cb = c div bk_columns bs * bk_columns bs in
      dot_from (column_madd fo st cb (min (cb + bk_columns bs) C) c) (matrix_at x r) (\<lambda>k. B k c) [0..<K] 0)"

definition product_contents :: "nat \<Rightarrow> nat \<Rightarrow> shape \<Rightarrow> (nat \<Rightarrow> nat \<Rightarrow> float32) \<Rightarrow> contents" where
  "product_contents R C sh f = float_contents sh (\<lambda>j. f (j div C) (j mod C))"

lemma product_contentsI:
  assumes o: "output_array t h0 dst" and a: "array_is t h0 h F" and n: "tn_numel t = R * C"
    and F: "\<And>r c. r < R \<Longrightarrow> c < C \<Longrightarrow> F (r * C + c) = f r c"
  shows "tensor_contents h t = product_contents R C (tn_shape t) f"
proof -
  have "F j = f (j div C) (j mod C)" if "j < R * C" for j
  proof -
    have "0 < C" using that by (cases C) auto
    then have "j div C < R" "j mod C < C" using that by (simp_all add: div_less_iff_less_mult)
    from F[OF this] show ?thesis by simp
  qed
  moreover have "prodn (tn_shape t) = R * C" using o n layout_okD(3) by (simp add: output_array_def tensor_ok_def)
  ultimately show ?thesis using a o n
    by (simp add: product_contents_def float_contents_def tensor_contents_def array_is_def output_array_def)
qed

lemma packed_product:
  assumes T: "tile t h lhs src dst p R K C B" and bs: "require_positive_blocks bs = Inr ()"
    and checks: "validate_packed_matmul lhs p t = Inr ()"
  shows "\<exists>h'. matmul_packed_simd fo st lhs p t bs h = Inr h' \<and> writes_only t h h' \<and>
    tensor_contents h' t = product_contents R C (tn_shape t) (product_element fo st bs K C (tensor_contents h lhs) B)"
proof -
  have o: "output_array t h dst" and n: "tn_numel t = R * C" and x: "input_matrix t h lhs src"
    and dims: "nat (tn_shape lhs ! 0) = R" "nat (tn_shape lhs ! 1) = K" and p: "pr_inner p = K" "pr_columns p = C"
    using T by (auto simp: tile_def packed_is_def)
  have pos: "0 < bk_rows bs" "0 < bk_columns bs" "0 < bk_inner bs" using bs by (auto simp: require_positive_blocks_def split: if_splits)
  have data: "typed_data Float32 lhs h = Inr src" "typed_data Float32 t h = Inr dst" using x o by (simp_all add: input_matrix_def output_array_def)
  obtain h1 where h1: "fill_zero t dst h = Inr h1" "array_is t h h1 (\<lambda>_. 0)" using fill_zero_outcome[OF o] by blast
  note w1 = array_is_writes[OF h1(2)]
  let ?f = "product_element fo st bs K C (tensor_contents h lhs) B"
  show ?thesis
  proof (cases "R = 0 \<or> K = 0 \<or> C = 0")
    case True
    have "tensor_contents h1 t = product_contents R C (tn_shape t) ?f"
      by (rule product_contentsI[OF o h1(2) n]) (use True in \<open>auto simp: product_element_def dot_from_def Let_def\<close>)
    then show ?thesis using True h1(1) w1 checks bs data dims p by (simp add: matmul_packed_simd_def)
  next
    case False
    let ?A = "matrix_at (tensor_contents h lhs)" and ?ce = "\<lambda>cb. min (cb + bk_columns bs) C"
    let ?cells = "\<lambda>cb ib row. map (\<lambda>c. (row * C + c, dot_from (column_madd fo st cb (?ce cb) c) (?A row) (\<lambda>k. B k c) (block_range K (bk_inner bs) ib))) [cb..<?ce cb]"
    have "\<exists>h'. foldE (\<lambda>rb. foldE (\<lambda>cb. foldE (\<lambda>ib. foldE (packed_row fo st lhs p src dst (block_range K (bk_inner bs) ib) cb (?ce cb))
          (block_range R (bk_rows bs) rb)) (block_starts K (bk_inner bs))) (block_starts C (bk_columns bs))) (block_starts R (bk_rows bs)) h1 = Inr h' \<and>
        array_is t h h' (foldl update_cell (\<lambda>_. 0) (nest R K C bs ?cells))"
    proof (rule nest_outcome[OF h1(2) block_range_bound])
      fix cb ib row h' F assume cb: "cb \<in> set (block_starts C (bk_columns bs))" and row: "row < R" and a: "array_is t h h' F"
      have "cb \<le> ?ce cb" "?ce cb \<le> C" using block_start_bound[OF pos(2) cb] by simp_all
      from packed_row_outcome[OF T a row block_range_bound this]
      show "\<exists>h''. packed_row fo st lhs p src dst (block_range K (bk_inner bs) ib) cb (?ce cb) row h' = Inr h'' \<and>
          array_is t h h'' (foldl update_cell F (?cells cb ib row))" .
    qed
    then obtain h' where h': "foldE (\<lambda>rb. foldE (\<lambda>cb. foldE (\<lambda>ib. foldE (packed_row fo st lhs p src dst (block_range K (bk_inner bs) ib) cb (?ce cb))
          (block_range R (bk_rows bs) rb)) (block_starts K (bk_inner bs))) (block_starts C (bk_columns bs))) (block_starts R (bk_rows bs)) h1 = Inr h'"
      "array_is t h h' (foldl update_cell (\<lambda>_. 0) (nest R K C bs ?cells))" by blast
    have run: "matmul_packed_simd fo st lhs p t bs h = Inr h'"
      using False h1(1) h'(1) checks bs data dims p by (simp add: matmul_packed_simd_def)
    have "tensor_contents h' t = product_contents R C (tn_shape t) ?f"
    proof (rule product_contentsI[OF o h'(2) n])
      fix r c assume rc: "r < R" "c < C"
      let ?cb = "c div bk_columns bs * bk_columns bs"
      let ?one = "\<lambda>cb ib. [(r * C + c, dot_from (column_madd fo st cb (?ce cb) c) (?A r) (\<lambda>k. B k c) (block_range K (bk_inner bs) ib))]"
      have row: "filter (\<lambda>u. fst u = r * C + c) (?cells cb ib row) = (if row = r \<and> c \<in> set (block_range C (bk_columns bs) cb) then ?one cb ib else [])" for cb ib row
      proof -
        have "filter (\<lambda>c'. row * C + c' = r * C + c) (block_range C (bk_columns bs) cb) = (if row = r \<and> c \<in> set (block_range C (bk_columns bs) cb) then [c] else [])"
          by (rule cell_columns[OF rc(2) block_range_bound block_range_distinct])
        then show ?thesis by (simp add: filter_map comp_def block_range_def)
      qed
      show "foldl update_cell (\<lambda>_. 0) (nest R K C bs ?cells) (r * C + c) = ?f r c"
        unfolding foldl_update nest_cell[OF bs rc row] dot_blocks[OF pos(3)] by (simp add: product_element_def Let_def)
    qed
    then show ?thesis using run array_is_writes[OF h'(2)] by blast
  qed
qed

section \<open>The blocked product\<close>

lemma dot_single_blocks:
  assumes "0 < b"
  shows "foldl (\<lambda>x u. snd u x) y (concat (map (\<lambda>ib. map (\<lambda>k. (j, \<lambda>x. madd x (a k) (d k))) (block_range K b ib)) (block_starts K b))) = dot_from madd a d [0..<K] y"
proof -
  have "foldl (\<lambda>x u. snd u x) y (concat (map (\<lambda>ib. map (\<lambda>k. (j, \<lambda>x. madd x (a k) (d k))) (f ib)) xs)) = dot_from madd a d (concat (map f xs)) y" for f and xs :: "nat list"
  proof (induction xs arbitrary: y)
    case (Cons x xs)
    have "foldl (\<lambda>x u. snd u x) y (map (\<lambda>k. (j, \<lambda>x. madd x (a k) (d k))) ks) = dot_from madd a d ks y" for ks
      by (induction ks arbitrary: y) (simp_all add: dot_from_def)
    then show ?case using Cons by (simp add: dot_from_def)
  qed (simp add: dot_from_def)
  from this[of "block_range K b" "block_starts K b"] show ?thesis by (simp only: concat_blocks[OF assms])
qed

text \<open>The premises of the kernels that read both operands in place.\<close>

definition operands :: "tensor \<Rightarrow> heap \<Rightarrow> tensor \<Rightarrow> tensor \<Rightarrow> pointer \<Rightarrow> pointer \<Rightarrow> pointer \<Rightarrow> nat \<Rightarrow> nat \<Rightarrow> nat \<Rightarrow> bool" where
  "operands t h lhs rhs a b dst R K C \<longleftrightarrow> output_array t h dst \<and> tn_numel t = R * C \<and> input_matrix t h lhs a \<and> input_matrix t h rhs b \<and>
     nat (tn_shape lhs ! 0) = R \<and> nat (tn_shape lhs ! 1) = K \<and> nat (tn_shape rhs ! 0) = K \<and> nat (tn_shape rhs ! 1) = C"

lemma operands_load:
  assumes "operands t h0 lhs rhs a b dst R K C" and "array_is t h0 h F" and "k < K"
  shows "r < R \<Longrightarrow> load_float h a (r * nat (tn_strides lhs ! 0) + k * nat (tn_strides lhs ! 1)) = Inr (matrix_at (tensor_contents h0 lhs) r k)"
    "c < C \<Longrightarrow> load_float h b (k * nat (tn_strides rhs ! 0) + c * nat (tn_strides rhs ! 1)) = Inr (matrix_at (tensor_contents h0 rhs) k c)"
  using assms load_matrix array_is_writes by (auto simp: operands_def)

lemma operands_data:
  assumes "operands t h lhs rhs a b dst R K C"
  shows "typed_data Float32 lhs h = Inr a" "typed_data Float32 rhs h = Inr b" "typed_data Float32 t h = Inr dst" "output_array t h dst" "tn_numel t = R * C"
  using assms by (simp_all add: operands_def input_matrix_def output_array_def)

lemma accumulate_outcome:
  assumes o: "output_array t h0 dst" and a: "array_is t h0 h F" and j: "j < tn_numel t"
  shows "\<exists>h'. accumulate fo dst j x y h = Inr h' \<and> array_is t h0 h' (foldl update_cell F [(j, \<lambda>s. scalar_madd fo s x y)])"
  using load_array[OF o a j] store_array[OF o a j] by (simp add: accumulate_def)

lemma blocked_row_outcome:
  assumes T: "operands t h0 lhs rhs a b dst R K C" and arr: "array_is t h0 h F" and r: "r < R" and ks: "set ks \<subseteq> {..<K}" and cs: "set cs \<subseteq> {..<C}"
  shows "\<exists>h'. blocked_row fo lhs rhs a b dst C ks cs r h = Inr h' \<and> array_is t h0 h' (foldl update_cell F
    (concat (map (\<lambda>k. map (\<lambda>c. (r * C + c, \<lambda>s. scalar_madd fo s (matrix_at (tensor_contents h0 lhs) r k) (matrix_at (tensor_contents h0 rhs) k c))) cs) ks)))"
  unfolding blocked_row_def
proof (rule foldE_cells[OF _ arr])
  fix k h F assume k: "k \<in> set ks" and arr: "array_is t h0 h F"
  have kK: "k < K" using k ks by auto
  let ?A = "matrix_at (tensor_contents h0 lhs) r k" and ?B = "matrix_at (tensor_contents h0 rhs) k"
  have "\<exists>h'. foldE (\<lambda>column h. bindE (load_float h b (k * nat (tn_strides rhs ! 0) + column * nat (tn_strides rhs ! 1)))
        (\<lambda>y. accumulate fo dst (r * C + column) ?A y h)) cs h = Inr h' \<and>
      array_is t h0 h' (foldl update_cell F (concat (map (\<lambda>c. [(r * C + c, \<lambda>s. scalar_madd fo s ?A (?B c))]) cs)))"
  proof (rule foldE_cells[OF _ arr])
    fix c h F assume c: "c \<in> set cs" and arr: "array_is t h0 h F"
    have cC: "c < C" using c cs by auto
    have "r * C + c < tn_numel t" using cell_bound[OF r cC] operands_data(5)[OF T] by simp
    from accumulate_outcome[OF operands_data(4)[OF T] arr this] operands_load(2)[OF T arr kK cC]
    show "\<exists>h'. bindE (load_float h b (k * nat (tn_strides rhs ! 0) + c * nat (tn_strides rhs ! 1))) (\<lambda>y. accumulate fo dst (r * C + c) ?A y h) = Inr h' \<and>
        array_is t h0 h' (foldl update_cell F [(r * C + c, \<lambda>s. scalar_madd fo s ?A (?B c))])" by simp
  qed
  then show "\<exists>h'. bindE (load_float h a (r * nat (tn_strides lhs ! 0) + k * nat (tn_strides lhs ! 1))) (\<lambda>x.
        foldE (\<lambda>column h. bindE (load_float h b (k * nat (tn_strides rhs ! 0) + column * nat (tn_strides rhs ! 1)))
          (\<lambda>y. accumulate fo dst (r * C + column) x y h)) cs h) = Inr h' \<and>
      array_is t h0 h' (foldl update_cell F (map (\<lambda>c. (r * C + c, \<lambda>s. scalar_madd fo s ?A (?B c))) cs))"
    using operands_load(1)[OF T arr kK r] by (simp add: concat_map_singleton)
qed

lemma blocked_product:
  assumes T: "operands t h lhs rhs a b dst R K C" and bs: "require_positive_blocks bs = Inr ()" and checks: "validate_matmul lhs rhs t = Inr ()"
  shows "\<exists>h'. matmul_blocked fo lhs rhs t bs h = Inr h' \<and> writes_only t h h' \<and> tensor_contents h' t = product_contents R C (tn_shape t)
    (\<lambda>r c. dot_from (scalar_madd fo) (matrix_at (tensor_contents h lhs) r) (\<lambda>k. matrix_at (tensor_contents h rhs) k c) [0..<K] 0)"
proof -
  note D = operands_data[OF T]
  have dims: "nat (tn_shape lhs ! 0) = R" "nat (tn_shape lhs ! 1) = K" "nat (tn_shape rhs ! 1) = C" using T by (simp_all add: operands_def)
  have pos: "0 < bk_rows bs" "0 < bk_columns bs" "0 < bk_inner bs" using bs by (auto simp: require_positive_blocks_def split: if_splits)
  let ?A = "matrix_at (tensor_contents h lhs)" and ?B = "matrix_at (tensor_contents h rhs)"
  let ?cells = "\<lambda>cb ib row. concat (map (\<lambda>k. map (\<lambda>c. (row * C + c, \<lambda>s. scalar_madd fo s (?A row k) (?B k c))) (block_range C (bk_columns bs) cb)) (block_range K (bk_inner bs) ib))"
  obtain h1 where h1: "fill_zero t dst h = Inr h1" "array_is t h h1 (\<lambda>_. 0)" using fill_zero_outcome[OF D(4)] by blast
  have "\<exists>h'. foldE (\<lambda>rb. foldE (\<lambda>cb. foldE (\<lambda>ib. foldE (blocked_row fo lhs rhs a b dst C (block_range K (bk_inner bs) ib) (block_range C (bk_columns bs) cb))
        (block_range R (bk_rows bs) rb)) (block_starts K (bk_inner bs))) (block_starts C (bk_columns bs))) (block_starts R (bk_rows bs)) h1 = Inr h' \<and>
      array_is t h h' (foldl update_cell (\<lambda>_. 0) (nest R K C bs ?cells))"
    by (rule nest_outcome[OF h1(2) block_range_bound], rule blocked_row_outcome[OF T]) (simp_all add: block_range_bound)
  then obtain h' where h': "foldE (\<lambda>rb. foldE (\<lambda>cb. foldE (\<lambda>ib. foldE (blocked_row fo lhs rhs a b dst C (block_range K (bk_inner bs) ib) (block_range C (bk_columns bs) cb))
        (block_range R (bk_rows bs) rb)) (block_starts K (bk_inner bs))) (block_starts C (bk_columns bs))) (block_starts R (bk_rows bs)) h1 = Inr h'"
      "array_is t h h' (foldl update_cell (\<lambda>_. 0) (nest R K C bs ?cells))" by blast
  have run: "matmul_blocked fo lhs rhs t bs h = Inr h'" using checks bs D(1,2,3) dims h1(1) h'(1) by (simp add: matmul_blocked_def)
  let ?f = "\<lambda>r c. dot_from (scalar_madd fo) (?A r) (\<lambda>k. ?B k c) [0..<K] 0"
  have "tensor_contents h' t = product_contents R C (tn_shape t) ?f"
  proof (rule product_contentsI[OF D(4) h'(2) D(5)])
    fix r c assume rc: "r < R" "c < C"
    let ?one = "\<lambda>cb ib. map (\<lambda>k. (r * C + c, \<lambda>s. scalar_madd fo s (?A r k) (?B k c))) (block_range K (bk_inner bs) ib)"
    have row: "filter (\<lambda>u. fst u = r * C + c) (?cells cb ib row) = (if row = r \<and> c \<in> set (block_range C (bk_columns bs) cb) then ?one cb ib else [])" for cb ib row
    proof -
      let ?cs = "block_range C (bk_columns bs) cb"
      have "filter (\<lambda>c'. row * C + c' = r * C + c) ?cs = (if row = r \<and> c \<in> set ?cs then [c] else [])"
        by (rule cell_columns[OF rc(2) block_range_bound block_range_distinct])
      then show ?thesis by (simp add: filter_concat_map filter_map comp_def concat_map_singleton)
    qed
    show "foldl update_cell (\<lambda>_. 0) (nest R K C bs ?cells) (r * C + c) = ?f r c"
      unfolding foldl_update nest_cell[OF bs rc row]
        dot_single_blocks[OF pos(3), where j = "r * C + c" and madd = "scalar_madd fo" and a = "?A r" and d = "\<lambda>k. ?B k c"] by simp
  qed
  then show ?thesis using run array_is_writes[OF h'(2)] by blast
qed

section \<open>The strided product and the oracle\<close>

lemma float_bytes_bytes: "length bs = 4 \<Longrightarrow> float_bytes (bytes_float bs) = bs"
proof -
  assume "length bs = 4"
  then obtain a b c d where bs: "bs = [a, b, c, d]" by (auto simp: numeral_eq_Suc length_Suc_conv)
  have "ucast (bytes_float bs) = a" "ucast (drop_bit 8 (bytes_float bs)) = b" "ucast (drop_bit 16 (bytes_float bs)) = c"
    "ucast (drop_bit 24 (bytes_float bs)) = d"
    by (rule bit_word_eqI; auto simp: bytes_float_def bs bit_simps dest: bit_imp_le_length)+
  then show ?thesis by (simp add: float_bytes_def bs)
qed

lemma array_start:
  assumes o: "output_array t h dst"
  shows "array_is t h h (float_at (tensor_contents h t))"
proof -
  have "tensor_element h t j = Inr (float_bytes (float_at (tensor_contents h t) j))" if j: "j < tn_numel t" for j
  proof -
    from o obtain bs where "tensor_element h t j = Inr bs" "length bs = 4"
      using element_total[of h t j] j by (auto simp: output_array_def)
    then show ?thesis using j by (simp add: float_at_def tensor_contents_def float_bytes_bytes)
  qed
  then show ?thesis by (simp add: array_is_def)
qed

text \<open>Two plain loops that store one value per cell.\<close>

lemma cell_loops:
  assumes o: "output_array t h dst" and n: "tn_numel t = R * C"
    and body: "\<And>r c h' F. r < R \<Longrightarrow> c < C \<Longrightarrow> array_is t h h' F \<Longrightarrow> body r c h' = store_float dst (r * C + c) (f r c) h'"
  shows "\<exists>h'. foldE (\<lambda>r. foldE (body r) [0..<C]) [0..<R] h = Inr h' \<and> writes_only t h h' \<and> tensor_contents h' t = product_contents R C (tn_shape t) f"
proof -
  let ?cells = "\<lambda>r. concat (map (\<lambda>c. [(r * C + c, \<lambda>_::float32. f r c)]) [0..<C])"
  have "\<exists>h'. foldE (\<lambda>r. foldE (body r) [0..<C]) [0..<R] h = Inr h' \<and>
      array_is t h h' (foldl update_cell (float_at (tensor_contents h t)) (concat (map ?cells [0..<R])))"
  proof (rule foldE_cells[OF _ array_start[OF o]], rule foldE_cells)
    fix r h' F c h'' F' assume r: "r \<in> set [0..<R]" and c: "c \<in> set [0..<C]" and a: "array_is t h h'' F'"
    have "r * C + c < tn_numel t" using cell_bound[of r R c C] r c n by simp
    from store_array[OF o a this, of "f r c"] body[OF _ _ a, of r c] r c
    show "\<exists>h'. body r c h'' = Inr h' \<and> array_is t h h' (foldl update_cell F' [(r * C + c, \<lambda>_::float32. f r c)])" by simp
  qed
  then obtain h' where h': "foldE (\<lambda>r. foldE (body r) [0..<C]) [0..<R] h = Inr h'"
    "array_is t h h' (foldl update_cell (float_at (tensor_contents h t)) (concat (map ?cells [0..<R])))" by blast
  have "tensor_contents h' t = product_contents R C (tn_shape t) f"
  proof (rule product_contentsI[OF o h'(2) n])
    fix r c assume rc: "r < R" "c < C"
    have row: "filter (\<lambda>u. fst u = r * C + c) (?cells row) = (if row = r then [(r * C + c, \<lambda>_::float32. f r c)] else [])" for row
    proof -
      have "filter (\<lambda>c'. row * C + c' = r * C + c) [0..<C] = (if row = r \<and> c \<in> set [0..<C] then [c] else [])"
        by (rule cell_columns[OF rc(2)]) auto
      then show ?thesis using rc(2) by (simp add: concat_map_singleton filter_map comp_def)
    qed
    have "filter (\<lambda>u. fst u = r * C + c) (concat (map ?cells [0..<R])) = concat (map (\<lambda>row. filter (\<lambda>u. fst u = r * C + c) (?cells row)) [0..<R])"
      by (rule filter_concat_map)
    also have "\<dots> = filter (\<lambda>u. fst u = r * C + c) (?cells r)"
    proof (rule concat_single)
      show "filter (\<lambda>u. fst u = r * C + c) (?cells y) = []" if "y \<noteq> r" for y unfolding row using that by simp
    qed (use rc(1) in simp_all)
    also have "\<dots> = [(r * C + c, \<lambda>_::float32. f r c)]" unfolding row by simp
    finally have "filter (\<lambda>u. fst u = r * C + c) (concat (map ?cells [0..<R])) = [(r * C + c, \<lambda>_::float32. f r c)]" .
    then show "foldl update_cell (float_at (tensor_contents h t)) (concat (map ?cells [0..<R])) (r * C + c) = f r c"
      by (simp only: foldl_update) simp
  qed
  then show ?thesis using h'(1) array_is_writes[OF h'(2)] by blast
qed

lemma strided_product:
  assumes T: "operands t h lhs rhs a b dst R K C" and checks: "validate_matmul lhs rhs t = Inr ()"
  shows "\<exists>h'. matmul_strided fo lhs rhs t h = Inr h' \<and> writes_only t h h' \<and> tensor_contents h' t = product_contents R C (tn_shape t)
    (\<lambda>r c. dot_from (scalar_madd fo) (matrix_at (tensor_contents h lhs) r) (\<lambda>k. matrix_at (tensor_contents h rhs) k c) [0..<K] 0)"
proof -
  note D = operands_data[OF T]
  let ?f = "\<lambda>r c. dot_from (scalar_madd fo) (matrix_at (tensor_contents h lhs) r) (\<lambda>k. matrix_at (tensor_contents h rhs) k c) [0..<K] 0"
  have sum: "strided_sum fo lhs rhs a b K r c h' = Inr (?f r c)" if "r < R" "c < C" "array_is t h h' F" for r c h' F
    unfolding strided_sum_def dot_from_def
    by (rule foldE_pure) (use operands_load[OF T that(3)] that(1,2) in simp)
  have "\<exists>h'. foldE (\<lambda>r. foldE (\<lambda>c h'. bindE (strided_sum fo lhs rhs a b K r c h') (\<lambda>s. store_float dst (r * C + c) s h')) [0..<C]) [0..<R] h = Inr h' \<and>
      writes_only t h h' \<and> tensor_contents h' t = product_contents R C (tn_shape t) ?f"
    by (rule cell_loops[OF D(4,5)]) (simp add: sum)
  then show ?thesis using checks D(1,2,3) T by (simp add: matmul_strided_def operands_def)
qed

text \<open>The oracle reads through the checked interface of tensors, which finds the same elements.\<close>

lemma load_at_offset:
  assumes "tn_dtype x = Float32" and "layout_offset (tn_layout x) idx = Inr v" and "typed_data Float32 x h = Inr src"
  shows "load_at h x idx = load_float h src v"
  using assms by (cases src) (auto simp: load_at_def at_indices_def tensor_offset_def index_data_def load_float_def)

lemma matrix_layout_offset:
  assumes ok: "layout_ok l" and rank: "lay_rank l = 2" and r: "r < nat (lay_shape l ! 0)" and c: "c < nat (lay_shape l ! 1)"
  shows "layout_offset l [int r, int c] = Inr (r * nat (lay_strides l ! 0) + c * nat (lay_strides l ! 1))"
proof -
  have len: "length (lay_strides l) = 2" using layout_okD(1)[OF ok] rank by simp
  note sh = shape2[OF rank] and st = shape2[OF len]
  have z: "zip (lay_shape l) (lay_strides l) = [(lay_shape l ! 0, lay_strides l ! 0), (lay_shape l ! 1, lay_strides l ! 1)]"
    by (subst sh, subst st) simp
  have "set (lay_shape l) = {lay_shape l ! 0, lay_shape l ! 1}" by (subst sh) simp
  then have "0 \<notin> set (lay_shape l)" using r c by auto
  moreover have "list_all2 (\<lambda>i (d, t). 0 \<le> i \<and> i < d) [int r, int c] (zip (lay_shape l) (lay_strides l))"
    unfolding z using r c by (simp add: zless_nat_eq_int_zless)
  ultimately show ?thesis using layout_offset_total[OF ok] unfolding z by (simp add: dot_def)
qed

lemma load_at_matrix:
  assumes x: "input_matrix t h0 x src" and w: "writes_only t h0 h" and r: "r < nat (tn_shape x ! 0)" and c: "c < nat (tn_shape x ! 1)"
  shows "load_at h x [int r, int c] = Inr (matrix_at (tensor_contents h0 x) r c)"
proof -
  have p: "tensor_ok h0 x" "tn_dtype x = Float32" "tn_rank x = 2" "typed_data Float32 x h0 = Inr src" using x by (simp_all add: input_matrix_def)
  have ok: "layout_ok (tn_layout x)" using p(1) by (simp add: tensor_ok_def)
  from load_at_offset[OF p(2) matrix_layout_offset[OF ok p(3) r c] writes_only_data[OF w p(1,4)]] load_matrix[OF x w r c]
  show ?thesis by simp
qed

lemma at_flat_store:
  assumes o: "output_array t h0 dst" and w: "writes_only t h0 h" and j: "j < tn_numel t"
  shows "bindE (at_flat Float32 t h j) (\<lambda>p. store_float (Some p) 0 x h) = store_float dst j x h"
proof -
  have ok: "tensor_ok h0 t" and d: "tn_dtype t = Float32" and dst: "typed_data Float32 t h0 = Inr dst" using o by (simp_all add: output_array_def)
  obtain b where "storage_data h0 (tn_storage t) = Some (b, sto_byte_offset (tn_storage t))" using element_location[OF ok j] by metis
  then have "dst = Some (b, sto_byte_offset (tn_storage t))" using dst d by (simp add: typed_data_def)
  then show ?thesis using writes_only_data[OF w ok dst] j d by (simp add: at_flat_def index_data_def store_float_def)
qed

lemma reference_product:
  assumes T: "operands t h lhs rhs a b dst R K C" and checks: "validate_matmul lhs rhs t = Inr ()"
  shows "\<exists>h'. matmul_reference fo lhs rhs t h = Inr h' \<and> writes_only t h h' \<and> tensor_contents h' t = product_contents R C (tn_shape t)
    (\<lambda>r c. dot_from (scalar_madd fo) (matrix_at (tensor_contents h lhs) r) (\<lambda>k. matrix_at (tensor_contents h rhs) k c) [0..<K] 0)"
proof -
  note D = operands_data[OF T]
  have dims: "nat (tn_shape lhs ! 0) = R" "nat (tn_shape lhs ! 1) = K" "nat (tn_shape rhs ! 0) = K" "nat (tn_shape rhs ! 1) = C"
    and x: "input_matrix t h lhs a" "input_matrix t h rhs b" using T by (simp_all add: operands_def)
  let ?f = "\<lambda>r c. dot_from (scalar_madd fo) (matrix_at (tensor_contents h lhs) r) (\<lambda>k. matrix_at (tensor_contents h rhs) k c) [0..<K] 0"
  have sum: "reference_sum fo lhs rhs K r c h' = Inr (?f r c)" if "r < R" "c < C" "writes_only t h h'" for r c h'
    unfolding reference_sum_def dot_from_def
    by (rule foldE_pure) (use load_at_matrix[OF x(1) that(3)] load_at_matrix[OF x(2) that(3)] dims that(1,2) in simp)
  have "\<exists>h'. foldE (\<lambda>r. foldE (\<lambda>c h'. bindE (reference_sum fo lhs rhs K r c h') (\<lambda>s.
        bindE (at_flat Float32 t h' (r * C + c)) (\<lambda>p. store_float (Some p) 0 s h'))) [0..<C]) [0..<R] h = Inr h' \<and>
      writes_only t h h' \<and> tensor_contents h' t = product_contents R C (tn_shape t) ?f"
  proof (rule cell_loops[OF D(4,5)])
    fix r c h' F assume rc: "r < R" "c < C" and a: "array_is t h h' F"
    have "r * C + c < tn_numel t" using cell_bound[OF rc] D(5) by simp
    from at_flat_store[OF D(4) array_is_writes[OF a] this] sum[OF rc array_is_writes[OF a]]
    show "bindE (reference_sum fo lhs rhs K r c h') (\<lambda>s. bindE (at_flat Float32 t h' (r * C + c)) (\<lambda>p. store_float (Some p) 0 s h')) =
      store_float dst (r * C + c) (?f r c) h'" by simp
  qed
  then show ?thesis using checks dims by (simp add: matmul_reference_def)
qed

section \<open>The kernels agree\<close>

definition computes_contents :: "tensor \<Rightarrow> heap \<Rightarrow> heap result \<Rightarrow> contents \<Rightarrow> bool" where
  "computes_contents t h r x \<longleftrightarrow> (\<exists>h'. r = Inr h' \<and> writes_only t h h' \<and> tensor_contents h' t = x)"

definition matrix_product :: "nat \<Rightarrow> nat \<Rightarrow> nat \<Rightarrow> shape \<Rightarrow> (nat \<Rightarrow> float32 \<Rightarrow> float32 \<Rightarrow> float32 \<Rightarrow> float32) \<Rightarrow> contents \<Rightarrow> contents \<Rightarrow> contents" where
  "matrix_product R K C sh madd x y = product_contents R C sh (\<lambda>r c. dot_from (madd c) (matrix_at x r) (\<lambda>k. matrix_at y k c) [0..<K] 0)"

lemma validated_operands:
  assumes checks: "validate_matmul lhs rhs t = Inr ()" and ok: "tensor_ok h lhs" "tensor_ok h rhs" "tensor_ok h t" and sep: "separate t lhs" "separate t rhs"
  shows "\<exists>a b dst. operands t h lhs rhs a b dst (nat (tn_shape lhs ! 0)) (nat (tn_shape lhs ! 1)) (nat (tn_shape rhs ! 1))"
proof -
  have v: "tn_dtype lhs = Float32" "tn_dtype rhs = Float32" "tn_dtype t = Float32" "tn_rank lhs = 2" "tn_rank rhs = 2" "tn_rank t = 2"
    "tn_shape lhs ! 1 = tn_shape rhs ! 0" "tn_shape t ! 0 = tn_shape lhs ! 0" "tn_shape t ! 1 = tn_shape rhs ! 1" "lay_contiguous (tn_layout t)"
    using checks by (auto simp: validate_matmul_def split: if_splits)
  have "layout_ok (tn_layout t)" using ok(3) by (simp add: tensor_ok_def)
  then have "tn_numel t = prodn (tn_shape t)" by (rule layout_okD(3))
  also have "tn_shape t = [tn_shape lhs ! 0, tn_shape rhs ! 1]" using shape2[OF v(6)] v(8,9) by simp
  finally have "tn_numel t = nat (tn_shape lhs ! 0) * nat (tn_shape rhs ! 1)" by simp
  moreover obtain a b dst where "typed_data Float32 lhs h = Inr a" "typed_data Float32 rhs h = Inr b" "typed_data Float32 t h = Inr dst"
    using v(1,2,3) by (simp add: typed_data_def)
  ultimately have "operands t h lhs rhs a b dst (nat (tn_shape lhs ! 0)) (nat (tn_shape lhs ! 1)) (nat (tn_shape rhs ! 1))"
    using v ok sep by (simp add: operands_def output_array_def input_matrix_def)
  then show ?thesis by blast
qed

text \<open>The operation each column of the packed product goes through.\<close>

definition packed_madd :: "float_ops \<Rightarrow> simd_target \<Rightarrow> block_size \<Rightarrow> nat \<Rightarrow> nat \<Rightarrow> float32 \<Rightarrow> float32 \<Rightarrow> float32 \<Rightarrow> float32" where
  "packed_madd fo st bs C c = (let cb = c div bk_columns bs * bk_columns bs in column_madd fo st cb (min (cb + bk_columns bs) C) c)"

lemma packed_matmul:
  assumes T: "operands t h lhs rhs a b dst R K C" and bs: "require_positive_blocks bs = Inr ()" and checks: "validate_matmul lhs rhs t = Inr ()"
  shows "computes_contents t h (bindE (pack_rhs rhs False h) (\<lambda>p. matmul_packed_simd fo st lhs p t bs h))
    (matrix_product R K C (tn_shape t) (packed_madd fo st bs C) (tensor_contents h lhs) (tensor_contents h rhs))"
proof -
  have x: "input_matrix t h lhs a" "input_matrix t h rhs b" and o: "output_array t h dst" "tn_numel t = R * C"
    and dims: "nat (tn_shape lhs ! 0) = R" "nat (tn_shape lhs ! 1) = K" "K = nat (tn_shape rhs ! 0)" "C = nat (tn_shape rhs ! 1)"
    using T by (simp_all add: operands_def)
  have rhs: "tensor_ok h rhs" "tn_dtype rhs = Float32" "tn_rank rhs = 2" using x(2) by (simp_all add: input_matrix_def)
  from pack_rhs_outcome[OF rhs dims(3,4)] obtain p where p: "pack_rhs rhs False h = Inr p" "packed_is p K C (matrix_at (tensor_contents h rhs))" by blast
  have tile: "tile t h lhs a dst p R K C (matrix_at (tensor_contents h rhs))" using x o dims p(2) by (simp add: tile_def)
  have "validate_packed_matmul lhs p t = Inr ()"
    using checks p(2) dims(2,4) by (auto simp: validate_matmul_def validate_packed_matmul_def packed_is_def split: if_splits)
  from packed_product[OF tile bs this, of fo st] show ?thesis using p(1)
    by (simp add: computes_contents_def matrix_product_def packed_madd_def product_element_def[abs_def] Let_def)
qed

text \<open>
  C40: the four matrix kernels compute the same product. For valid operands in any layout, with an output that
  shares no bytes with them, every kernel succeeds, writes nothing but the output and leaves in it the sums over the
  inner dimension in ascending order, whatever the block sizes are: the oracle, the strided and the blocked kernel with
  scalar arithmetic, the packed one with the arithmetic of a vector lane in the columns that fill a register. On a
  target whose lanes round like scalar code all four results are the same bits.
\<close>

theorem matmul_kernels_agree:
  assumes "validate_matmul lhs rhs t = Inr ()" and "tensor_ok h lhs" "tensor_ok h rhs" "tensor_ok h t"
    and "separate t lhs" "separate t rhs" and "require_positive_blocks bs = Inr ()"
  shows "let R = nat (tn_shape lhs ! 0); K = nat (tn_shape lhs ! 1); C = nat (tn_shape rhs ! 1);
      product = (\<lambda>madd. matrix_product R K C (tn_shape t) madd (tensor_contents h lhs) (tensor_contents h rhs));
      scalar = product (\<lambda>c. scalar_madd fo) in
    computes_contents t h (matmul_reference fo lhs rhs t h) scalar \<and>
    computes_contents t h (matmul_strided fo lhs rhs t h) scalar \<and>
    computes_contents t h (matmul_blocked fo lhs rhs t bs h) scalar \<and>
    computes_contents t h (bindE (pack_rhs rhs False h) (\<lambda>p. matmul_packed_simd fo st lhs p t bs h)) (product (packed_madd fo st bs C)) \<and>
    (st_madd st = scalar_madd fo \<longrightarrow> product (packed_madd fo st bs C) = scalar)"
proof -
  from validated_operands[OF assms(1-6)] obtain a b dst where
    T: "operands t h lhs rhs a b dst (nat (tn_shape lhs ! 0)) (nat (tn_shape lhs ! 1)) (nat (tn_shape rhs ! 1))" by blast
  have "packed_madd fo st bs C = (\<lambda>c. scalar_madd fo)" if "st_madd st = scalar_madd fo" for C
    using that by (simp add: packed_madd_def column_madd_def Let_def fun_eq_iff)
  then show ?thesis
    using reference_product[OF T assms(1), of fo] strided_product[OF T assms(1), of fo] blocked_product[OF T assms(7,1), of fo]
      packed_matmul[OF T assms(7,1), of fo st]
    by (simp add: Let_def computes_contents_def matrix_product_def)
qed

text \<open>A row \<open>[3, 5]\<close>, a column \<open>[7, 11]\<close> and the output in one buffer, with the arithmetic of words for that of floats.\<close>

definition demo_floats :: float_ops where
  "demo_floats = \<lparr>fl_add = (+), fl_sub = (-), fl_mul = (*), fl_div = (div), fl_less = (<), fl_exp = id, fl_tanh = id, fl_erf = id,
     fl_sqrt = id, fl_of_nat = of_nat\<rparr>"

definition demo_matrix :: "int \<Rightarrow> int \<Rightarrow> nat \<Rightarrow> tensor" where
  "demo_matrix r c pos = \<lparr>tn_layout = \<lparr>lay_shape = [r, c], lay_strides = [c, 1], lay_numel = nat (r * c), lay_storage_span = nat (r * c),
     lay_contiguous = True\<rparr>, tn_dtype = Float32, tn_storage = \<lparr>sto_buffer = Some 0, sto_byte_offset = pos, sto_size_bytes = nat (r * c) * 4\<rparr>\<rparr>"

definition demo_matrices :: heap where
  "demo_matrices = \<lparr>hp_buffers = [\<lparr>buf_bytes = [3, 0, 0, 0, 5, 0, 0, 0, 7, 0, 0, 0, 11, 0, 0, 0, 1, 1, 1, 1], buf_alignment = 16\<rparr>], hp_junk = (\<lambda>_. 7), hp_available = 0\<rparr>"

lemma demo_matrix_ok:
  "tensor_ok demo_matrices (demo_matrix 1 2 0)" "tensor_ok demo_matrices (demo_matrix 2 1 8)" "tensor_ok demo_matrices (demo_matrix 1 1 16)"
  by (simp_all add: tensor_ok_def storage_ok_def layout_ok_def demo_matrix_def demo_matrices_def buf_size_def size_max_def reach_def)

lemma demo_matrix_element:
  "tensor_element demo_matrices (demo_matrix 1 2 0) 0 = Inr [3, 0, 0, 0]" "tensor_element demo_matrices (demo_matrix 1 2 0) 1 = Inr [5, 0, 0, 0]"
  "tensor_element demo_matrices (demo_matrix 2 1 8) 0 = Inr [7, 0, 0, 0]" "tensor_element demo_matrices (demo_matrix 2 1 8) 1 = Inr [11, 0, 0, 0]"
  by (simp_all add: tensor_element_def storage_offset_def storage_ptr_def storage_data_def buf_size_def demo_matrix_def demo_matrices_def read_bytes_def
      checked_multiply_def checked_add_def size_max_def)

lemma demo_matrix_at:
  "matrix_at (tensor_contents demo_matrices (demo_matrix 1 2 0)) 0 0 = 3" "matrix_at (tensor_contents demo_matrices (demo_matrix 1 2 0)) 0 1 = 5"
  "matrix_at (tensor_contents demo_matrices (demo_matrix 2 1 8)) 0 0 = 7" "matrix_at (tensor_contents demo_matrices (demo_matrix 2 1 8)) 1 0 = 11"
proof -
  have at: "matrix_at (tensor_contents demo_matrices (demo_matrix r c pos)) i j =
      (case tensor_element demo_matrices (demo_matrix r c pos) (i * nat c + j) of Inl _ \<Rightarrow> 0 | Inr bs \<Rightarrow> bytes_float bs)"
    if "i * nat c + j < nat (r * c)" for r c pos i j
    using that by (simp add: matrix_at_def float_at_def tensor_contents_def demo_matrix_def)
  show "matrix_at (tensor_contents demo_matrices (demo_matrix 1 2 0)) 0 0 = 3" "matrix_at (tensor_contents demo_matrices (demo_matrix 1 2 0)) 0 1 = 5"
    "matrix_at (tensor_contents demo_matrices (demo_matrix 2 1 8)) 0 0 = 7" "matrix_at (tensor_contents demo_matrices (demo_matrix 2 1 8)) 1 0 = 11"
    by (simp_all add: at demo_matrix_element[simplified] bytes_float_def)
qed

theorem matmul_kernels_agree_witness:
  "\<exists>h'. matmul_blocked demo_floats (demo_matrix 1 2 0) (demo_matrix 2 1 8) (demo_matrix 1 1 16) default_blocks demo_matrices = Inr h' \<and>
     tensor_element h' (demo_matrix 1 1 16) 0 = Inr [76, 0, 0, 0]"
proof -
  let ?L = "demo_matrix 1 2 0" and ?R = "demo_matrix 2 1 8" and ?T = "demo_matrix 1 1 16"
  have checks: "validate_matmul ?L ?R ?T = Inr ()" by (simp add: validate_matmul_def demo_matrix_def)
  have sep: "separate ?T ?L" "separate ?T ?R" by (simp_all add: separate_def demo_matrix_def)
  have bs: "require_positive_blocks default_blocks = Inr ()" by (simp add: require_positive_blocks_def default_blocks_def)
  from matmul_kernels_agree[OF checks demo_matrix_ok sep bs, of demo_floats] obtain h' where
    h': "matmul_blocked demo_floats ?L ?R ?T default_blocks demo_matrices = Inr h'"
      "tensor_contents h' ?T = matrix_product 1 2 1 (tn_shape ?T) (\<lambda>c. scalar_madd demo_floats) (tensor_contents demo_matrices ?L) (tensor_contents demo_matrices ?R)"
    by (auto simp: Let_def computes_contents_def demo_matrix_def)
  have two: "[0..<2] = [0, 1]" by (simp add: upt_rec)
  have one: "[0..<prodn (tn_shape ?T)] = [0]" by (simp add: demo_matrix_def)
  have "matrix_product 1 2 1 (tn_shape ?T) (\<lambda>c. scalar_madd demo_floats) (tensor_contents demo_matrices ?L) (tensor_contents demo_matrices ?R) =
      (tn_shape ?T, Float32, [Inr (float_bytes 76)])"
    unfolding matrix_product_def product_contents_def float_contents_def dot_from_def two one
    by (simp add: demo_matrix_at demo_matrix_at[unfolded One_nat_def] scalar_madd_def demo_floats_def)
  then have "snd (snd (tensor_contents h' ?T)) = [Inr (float_bytes 76)]" unfolding h'(2) by simp
  then have "tensor_element h' ?T 0 = Inr (float_bytes 76)" by (simp add: tensor_contents_def demo_matrix_def)
  moreover have "float_bytes 76 = [76, 0, 0, 0]" by (simp add: float_bytes_def)
  ultimately show ?thesis using h'(1) by auto
qed

end
