(* ===== verification/Reduction_Sound.thy ===== *)
theory Reduction_Sound
  imports Reduction_Kernels Matmul_Sound
begin

text \<open>
  Softmax and layer normalisation compute their row functions along the reduced dimensions: every element of the output
  is the function of the row of the input it belongs to, whatever the layout of the input is and whichever of the two
  traversals runs.
\<close>

section \<open>The pair an index stands for\<close>

fun pair_of :: "(bool \<times> int) list \<Rightarrow> nat \<Rightarrow> nat \<times> nat" where
  "pair_of [] j = (0, 0)"
| "pair_of ((b, d) # xs) j = (let (p, r) = pair_of xs (j div nat d) in
     if b then (p, j mod nat d + nat d * r) else (j mod nat d + nat d * p, r))"

lemma digit_bound: "a < m \<Longrightarrow> b < n \<Longrightarrow> a + m * b < m * n" for a b m n :: nat
proof -
  assume "a < m" "b < n"
  then have "a + m * b < m * Suc b" "m * Suc b \<le> m * n" by (simp, intro mult_le_mono2, simp)
  then show ?thesis by linarith
qed

lemma pair_of_inverse:
  "j < prodn (map snd xs) \<Longrightarrow> pair_of xs j = (p, r) \<Longrightarrow>
   p < prodn (kept_dims xs) \<and> r < prodn (reduced_dims xs) \<and> pair_index xs p r = j"
proof (induction xs arbitrary: j p r)
  case (Cons x xs)
  obtain b d where x: "x = (b, d)" by (cases x)
  have d: "0 < nat d" using Cons.prems(1) x by (cases "nat d") auto
  obtain p' r' where pr: "pair_of xs (j div nat d) = (p', r')" by fastforce
  have "j div nat d < prodn (map snd xs)" using Cons.prems(1) x d by (simp add: div_less_iff_less_mult mult.commute)
  note IH = Cons.IH[OF this pr]
  have m: "j mod nat d < nat d" using d by simp
  have dig: "(j mod nat d + nat d * q) mod nat d = j mod nat d" "(j mod nat d + nat d * q) div nat d = q" for q using m d by simp_all
  show ?case using Cons.prems(2) x pr IH digit_bound[OF m] dig by (cases b) (auto simp: Let_def)
qed simp

lemma pair_of_index:
  assumes "\<forall>(b, d) \<in> set xs. 0 < d" and "p < prodn (kept_dims xs)" and "r < prodn (reduced_dims xs)"
  shows "pair_of xs (pair_index xs p r) = (p, r)"
proof -
  obtain p' r' where pr: "pair_of xs (pair_index xs p r) = (p', r')" by fastforce
  from pair_of_inverse[OF pair_index_bound[OF assms(1)] pr] have "p' < prodn (kept_dims xs)" "r' < prodn (reduced_dims xs)"
    "pair_index xs p' r' = pair_index xs p r" by simp_all
  from pair_index_inj[OF assms(1) this(1) assms(2) this(2) assms(3) this(3)] show ?thesis using pr by simp
qed

section \<open>Rows\<close>

definition row_max :: "float_ops \<Rightarrow> nat \<Rightarrow> (nat \<Rightarrow> float32) \<Rightarrow> float32" where
  "row_max fo n e = foldl (\<lambda>m i. float_max fo m (e i)) (e 0) [1..<n]"

definition row_sum :: "float_ops \<Rightarrow> nat \<Rightarrow> (nat \<Rightarrow> float32) \<Rightarrow> float32" where
  "row_sum fo n e = foldl (\<lambda>s i. fl_add fo s (e i)) 0 [0..<n]"

definition softmax_row :: "float_ops \<Rightarrow> nat \<Rightarrow> (nat \<Rightarrow> float32) \<Rightarrow> nat \<Rightarrow> float32" where
  "softmax_row fo n e r = (let m = row_max fo n e; E = (\<lambda>i. fl_exp fo (fl_sub fo (e i) m)) in fl_div fo (E r) (row_sum fo n E))"

definition apply_parameter :: "(float32 \<Rightarrow> float32 \<Rightarrow> float32) \<Rightarrow> contents option \<Rightarrow> nat \<Rightarrow> float32 \<Rightarrow> float32" where
  "apply_parameter operation p r x = (case p of None \<Rightarrow> x | Some c \<Rightarrow> operation x (float_at c r))"

definition layer_norm_row :: "float_ops \<Rightarrow> float32 \<Rightarrow> contents option \<Rightarrow> contents option \<Rightarrow> nat \<Rightarrow> (nat \<Rightarrow> float32) \<Rightarrow> nat \<Rightarrow> float32" where
  "layer_norm_row fo epsilon weight bias n e r =
     (let mean = fl_div fo (row_sum fo n e) (fl_of_nat fo n);
          variance = fl_div fo (row_sum fo n (\<lambda>i. fl_mul fo (fl_sub fo (e i) mean) (fl_sub fo (e i) mean))) (fl_of_nat fo n);
          inverse_stddev = fl_div fo 0x3F800000 (fl_sqrt fo (fl_add fo variance epsilon)) in
      apply_parameter (fl_add fo) bias r (apply_parameter (fl_mul fo) weight r (fl_mul fo (fl_sub fo (e r) mean) inverse_stddev)))"

text \<open>\<open>f\<close> applied along the dimensions that \<open>red\<close> marks.\<close>

definition along :: "bool list \<Rightarrow> (nat \<Rightarrow> (nat \<Rightarrow> float32) \<Rightarrow> nat \<Rightarrow> float32) \<Rightarrow> contents \<Rightarrow> contents" where
  "along red f x = (let xs = rev (zip red (fst x)) in
     float_contents (fst x) (\<lambda>j. case pair_of xs j of (p, r) \<Rightarrow> f (prodn (reduced_dims xs)) (\<lambda>i. float_at x (pair_index xs p i)) r))"

section \<open>Reading a group\<close>

lemma reduction_position_offset:
  assumes ri: "mk_reduction l axes keepdim = Inr ri" and ok: "layout_ok l" and p: "p < ri_output_numel ri" and r: "r < ri_reduction_numel ri"
  defines "i \<equiv> pair_index (rev (zip (ri_reduced ri) (lay_shape l))) p r"
  shows "reduction_position ri p r = storage_offset l i" "reduction_index ri p r = Inr i" "i < lay_numel l"
  using reduction_offsets[OF ri ok p r] contiguous_reduction_is_dense[OF ri ok _ p r]
  unfolding i_def by (simp_all add: reduction_position_def reduction_index_def)

text \<open>The input of a reducing kernel, and its iterator.\<close>

definition reduces :: "tensor \<Rightarrow> heap \<Rightarrow> tensor \<Rightarrow> pointer \<Rightarrow> int list \<Rightarrow> bool \<Rightarrow> reduction_iterator \<Rightarrow> bool" where
  "reduces t h x src axes keepdim ri \<longleftrightarrow> tensor_ok h x \<and> tn_dtype x = Float32 \<and> separate t x \<and> typed_data Float32 x h = Inr src \<and>
     mk_reduction (tn_layout x) axes keepdim = Inr ri"

definition group_index :: "reduction_iterator \<Rightarrow> nat \<Rightarrow> nat \<Rightarrow> nat" where
  "group_index ri p r = pair_index (rev (zip (ri_reduced ri) (lay_shape (ri_input_layout ri)))) p r"

definition group_row :: "heap \<Rightarrow> tensor \<Rightarrow> reduction_iterator \<Rightarrow> nat \<Rightarrow> nat \<Rightarrow> float32" where
  "group_row h x ri p i = float_at (tensor_contents h x) (group_index ri p i)"

lemma reduces_offset:
  assumes R: "reduces t h0 x src axes keepdim ri" and p: "p < ri_output_numel ri" and r: "r < ri_reduction_numel ri"
  shows "reduction_position ri p r = storage_offset (tn_layout x) (group_index ri p r)" "reduction_index ri p r = Inr (group_index ri p r)"
    "group_index ri p r < tn_numel x"
proof -
  have ri: "mk_reduction (tn_layout x) axes keepdim = Inr ri" and ok: "layout_ok (tn_layout x)" using R by (simp_all add: reduces_def tensor_ok_def)
  show "reduction_position ri p r = storage_offset (tn_layout x) (group_index ri p r)" "reduction_index ri p r = Inr (group_index ri p r)"
    "group_index ri p r < tn_numel x"
    using reduction_position_offset[OF ri ok p r] mk_reduction_Inr(1)[OF ri] by (simp_all add: group_index_def)
qed

lemma load_reduced_outcome:
  assumes R: "reduces t h0 x src axes keepdim ri" and w: "writes_only t h0 h" and p: "p < ri_output_numel ri" and r: "r < ri_reduction_numel ri"
  shows "load_reduced h src ri p r = Inr (group_row h0 x ri p r)"
proof -
  note O = reduces_offset[OF R p r]
  have x: "tensor_ok h0 x" "tn_dtype x = Float32" "separate t x" "typed_data Float32 x h0 = Inr src" using R by (simp_all add: reduces_def)
  have "layout_ok (tn_layout x)" using x(1) by (simp add: tensor_ok_def)
  then obtain off where off: "storage_offset (tn_layout x) (group_index ri p r) = Inr off" using storage_offset_Inr(1)[OF _ O(3)] by blast
  from load_separate[OF w x(1,3,2) O(3) off x(4)] show ?thesis using O(1) off by (simp add: load_reduced_def group_row_def)
qed

lemma group_sum_outcome:
  assumes "reduces t h0 x src axes keepdim ri" and "writes_only t h0 h" and "p < ri_output_numel ri"
  shows "group_sum fo src ri p h = Inr (row_sum fo (ri_reduction_numel ri) (group_row h0 x ri p))"
  unfolding group_sum_def row_sum_def by (rule foldE_pure) (use load_reduced_outcome[OF assms] in simp)

lemma group_max_outcome:
  assumes "reduces t h0 x src axes keepdim ri" and "writes_only t h0 h" and "p < ri_output_numel ri" and "0 < ri_reduction_numel ri"
  shows "group_max fo src ri p h = Inr (row_max fo (ri_reduction_numel ri) (group_row h0 x ri p))"
proof -
  have "foldE (\<lambda>i acc. bindE (load_reduced h src ri p i) (\<lambda>x. Inr (float_max fo acc x))) [1..<ri_reduction_numel ri] m =
      Inr (foldl (\<lambda>m i. float_max fo m (group_row h0 x ri p i)) m [1..<ri_reduction_numel ri])" for m
    by (rule foldE_pure) (use load_reduced_outcome[OF assms(1-3)] in simp)
  then show ?thesis using load_reduced_outcome[OF assms(1-4)] by (simp add: group_max_def row_max_def)
qed

section \<open>Writing the groups\<close>

lemma group_index_inj:
  assumes R: "reduces t h0 x src axes keepdim ri" and "p < ri_output_numel ri" "q < ri_output_numel ri" "r < ri_reduction_numel ri" "i < ri_reduction_numel ri"
  shows "group_index ri q i = group_index ri p r \<longleftrightarrow> q = p \<and> i = r"
proof -
  have ri: "mk_reduction (tn_layout x) axes keepdim = Inr ri" and ok: "layout_ok (tn_layout x)" using R by (simp_all add: reduces_def tensor_ok_def)
  note S = reduction_spaces[OF ri ok] and l = mk_reduction_Inr(1)[OF ri]
  have pos: "\<forall>(b, d) \<in> set (rev (zip (ri_reduced ri) (tn_shape x))). 0 < d" using S(4)[OF assms(2,4)] by (auto dest: set_zip_rightD)
  show ?thesis
    using pair_index_inj[OF pos, of q p i r] assms(2-5) S(1,2) l by (auto simp: group_index_def)
qed

lemma row_updates:
  assumes R: "reduces t h0 x src axes keepdim ri" and p: "p < ri_output_numel ri" "q < ri_output_numel ri" "r < ri_reduction_numel ri"
  shows "filter (\<lambda>u. fst u = group_index ri p r) (map (\<lambda>i. (group_index ri q i, G i)) [0..<ri_reduction_numel ri]) =
    (if q = p then [(group_index ri p r, G r)] else [])"
proof -
  have "filter (\<lambda>i. group_index ri q i = group_index ri p r) [0..<ri_reduction_numel ri] = filter (\<lambda>i. q = p \<and> i = r) [0..<ri_reduction_numel ri]"
    by (rule filter_cong) (use group_index_inj[OF R p(1,2,3)] in simp_all)
  also have "\<dots> = (if q = p then [r] else [])" using filter_one[of "[0..<ri_reduction_numel ri]" r] p(3) by (cases "q = p") simp_all
  finally show ?thesis by (simp add: filter_map comp_def)
qed

text \<open>A loop over the groups that updates every cell through the updates of its own group.\<close>

lemma along_contents:
  assumes R: "reduces t h0 x src axes keepdim ri" and o: "output_array t h0 dst" and sh: "tn_shape t = tn_shape x"
    and a: "array_is t h0 h' (foldl update_cell F (concat (map us [0..<ri_output_numel ri])))"
    and cell: "\<And>p q r. p < ri_output_numel ri \<Longrightarrow> q < ri_output_numel ri \<Longrightarrow> r < ri_reduction_numel ri \<Longrightarrow>
      filter (\<lambda>u. fst u = group_index ri p r) (us q) = (if q = p then one p r else [])"
    and val: "\<And>p r y. p < ri_output_numel ri \<Longrightarrow> r < ri_reduction_numel ri \<Longrightarrow>
      foldl (\<lambda>x u. snd u x) y (one p r) = f (ri_reduction_numel ri) (group_row h0 x ri p) r"
  shows "tensor_contents h' t = along (ri_reduced ri) f (tensor_contents h0 x)"
proof -
  have ri: "mk_reduction (tn_layout x) axes keepdim = Inr ri" and ok: "layout_ok (tn_layout x)" and tok: "layout_ok (tn_layout t)" and d: "tn_dtype t = Float32"
    using R o by (simp_all add: reduces_def output_array_def tensor_ok_def)
  note S = reduction_spaces[OF ri ok] and l = mk_reduction_Inr(1)[OF ri]
  let ?xs = "rev (zip (ri_reduced ri) (tn_shape x))" and ?F = "foldl update_cell F (concat (map us [0..<ri_output_numel ri]))"
  have numel: "tn_numel t = prodn (tn_shape t)" "tn_numel x = prodn (tn_shape x)" using layout_okD(3)[OF tok] layout_okD(3)[OF ok] by simp_all
  have "tensor_element h' t j = Inr (float_bytes (case pair_of ?xs j of (p, r) \<Rightarrow>
      f (prodn (reduced_dims ?xs)) (\<lambda>i. float_at (tensor_contents h0 x) (pair_index ?xs p i)) r))" if j: "j < tn_numel t" for j
  proof -
    obtain p r where pr: "pair_of ?xs j = (p, r)" by fastforce
    have "j < prodn (map snd ?xs)" using j numel sh S(3) by simp
    from pair_of_inverse[OF this pr] have b: "p < ri_output_numel ri" "r < ri_reduction_numel ri" and i: "group_index ri p r = j"
      using S(1,2) l by (simp_all add: group_index_def)
    have "filter (\<lambda>u. fst u = j) (concat (map us [0..<ri_output_numel ri])) = concat (map (\<lambda>q. filter (\<lambda>u. fst u = j) (us q)) [0..<ri_output_numel ri])"
      by (rule filter_concat_map)
    also have "\<dots> = filter (\<lambda>u. fst u = j) (us p)"
      by (rule concat_single) (use cell[OF b(1) _ b(2)] b(1) i in simp_all)
    also have "\<dots> = one p r" using cell[OF b(1) b(1) b(2)] i by simp
    finally have "?F j = f (ri_reduction_numel ri) (group_row h0 x ri p) r" using val[OF b] by (simp add: foldl_update)
    moreover have "group_row h0 x ri p = (\<lambda>i. float_at (tensor_contents h0 x) (pair_index ?xs p i))" using l by (simp add: group_row_def group_index_def fun_eq_iff)
    ultimately show ?thesis using a j pr S(2) by (simp add: array_is_def)
  qed
  then show ?thesis using sh d numel by (simp add: tensor_contents_def along_def Let_def float_contents_def)
qed

lemma group_cell:
  assumes "reduces t h0 x src axes keepdim ri" and "output_array t h0 dst" and "tn_shape t = tn_shape x"
    and "p < ri_output_numel ri" and "r < ri_reduction_numel ri"
  shows "group_index ri p r < tn_numel t"
  using reduces_offset(3)[OF assms(1,4,5)] assms(1-3) layout_okD(3) by (simp add: reduces_def output_array_def tensor_ok_def)

section \<open>Softmax\<close>

lemma exponential_pass:
  fixes m :: float32 and fo :: float_ops
  assumes R: "reduces t h0 x src axes keepdim ri" and o: "output_array t h0 dst" and sh: "tn_shape t = tn_shape x"
    and p: "p < ri_output_numel ri" and a: "array_is t h0 h F" and xs: "set xs \<subseteq> {..<ri_reduction_numel ri}"
  defines "E \<equiv> \<lambda>i. fl_exp fo (fl_sub fo (group_row h0 x ri p i) m)"
  shows "\<exists>h'. foldE (softmax_exponential fo src dst ri p m) xs (h, d) = Inr (h', foldl (\<lambda>s i. fl_add fo s (E i)) d xs) \<and>
    array_is t h0 h' (foldl update_cell F (map (\<lambda>i. (group_index ri p i, \<lambda>_. E i)) xs))"
  using a xs
proof (induction xs arbitrary: h d F)
  case (Cons i xs)
  have i: "i < ri_reduction_numel ri" using Cons.prems(2) by simp
  note cell = group_cell[OF R o sh p i]
  obtain h1 where h1: "store_float dst (group_index ri p i) (E i) h = Inr h1" "array_is t h0 h1 (F(group_index ri p i := E i))"
    using store_array[OF o Cons.prems(1) cell] by blast
  have "softmax_exponential fo src dst ri p m i (h, d) = Inr (h1, fl_add fo d (E i))"
    using load_reduced_outcome[OF R array_is_writes[OF Cons.prems(1)] p i] reduces_offset(2)[OF R p i] h1(1) load_array[OF o h1(2) cell]
    by (simp add: softmax_exponential_def E_def)
  then show ?case using Cons.IH[OF h1(2), of "fl_add fo d (E i)"] Cons.prems(2) by (simp add: fun_upd_def)
qed simp

lemma softmax_group_outcome:
  fixes fo :: float_ops
  assumes R: "reduces t h0 x src axes keepdim ri" and o: "output_array t h0 dst" and sh: "tn_shape t = tn_shape x"
    and p: "p < ri_output_numel ri" and n: "0 < ri_reduction_numel ri" and a: "array_is t h0 h F"
  defines "m \<equiv> row_max fo (ri_reduction_numel ri) (group_row h0 x ri p)"
  defines "E \<equiv> \<lambda>i. fl_exp fo (fl_sub fo (group_row h0 x ri p i) m)"
  shows "\<exists>h'. softmax_group fo src dst ri p h = Inr h' \<and> array_is t h0 h' (foldl update_cell F
    (map (\<lambda>i. (group_index ri p i, \<lambda>_. E i)) [0..<ri_reduction_numel ri] @
     map (\<lambda>i. (group_index ri p i, \<lambda>y. fl_div fo y (row_sum fo (ri_reduction_numel ri) E))) [0..<ri_reduction_numel ri]))"
proof -
  let ?n = "ri_reduction_numel ri" and ?D = "row_sum fo (ri_reduction_numel ri) E"
  have "set [0..<?n] \<subseteq> {..<?n}" by auto
  from exponential_pass[OF R o sh p a this, of fo m 0] obtain h1 where
    h1: "foldE (softmax_exponential fo src dst ri p m) [0..<?n] (h, 0) = Inr (h1, ?D)"
      "array_is t h0 h1 (foldl update_cell F (map (\<lambda>i. (group_index ri p i, \<lambda>_. E i)) [0..<?n]))"
    by (auto simp: E_def row_sum_def)
  have "\<exists>h'. foldE (softmax_divide fo dst ri p ?D) [0..<?n] h1 = Inr h' \<and>
      array_is t h0 h' (foldl update_cell (foldl update_cell F (map (\<lambda>i. (group_index ri p i, \<lambda>_. E i)) [0..<?n]))
        (concat (map (\<lambda>i. [(group_index ri p i, \<lambda>y. fl_div fo y ?D)]) [0..<?n])))"
  proof (rule foldE_cells[OF _ h1(2)])
    fix i h F assume i: "i \<in> set [0..<?n]" and a: "array_is t h0 h F"
    have i': "i < ?n" using i by simp
    note cell = group_cell[OF R o sh p i']
    show "\<exists>h'. softmax_divide fo dst ri p ?D i h = Inr h' \<and> array_is t h0 h' (foldl update_cell F [(group_index ri p i, \<lambda>y. fl_div fo y ?D)])"
      using reduces_offset(2)[OF R p i'] load_array[OF o a cell] store_array[OF o a cell] by (simp add: softmax_divide_def)
  qed
  then show ?thesis
    using group_max_outcome[OF R array_is_writes[OF a] p n, of fo] h1(1) by (simp add: softmax_group_def m_def concat_map_singleton)
qed

lemma softmax_outcome:
  assumes R: "reduces t h x src [axis] False ri" and o: "output_array t h dst" and sh: "tn_shape t = tn_shape x" and n: "0 < ri_reduction_numel ri"
  shows "computes_contents t h (softmax_out fo t x axis h) (along (ri_reduced ri) (softmax_row fo) (tensor_contents h x))"
proof -
  let ?m = "\<lambda>p. row_max fo (ri_reduction_numel ri) (group_row h x ri p)"
  let ?E = "\<lambda>p i. fl_exp fo (fl_sub fo (group_row h x ri p i) (?m p))"
  let ?us = "\<lambda>p. map (\<lambda>i. (group_index ri p i, \<lambda>_. ?E p i)) [0..<ri_reduction_numel ri] @
     map (\<lambda>i. (group_index ri p i, \<lambda>y. fl_div fo y (row_sum fo (ri_reduction_numel ri) (?E p)))) [0..<ri_reduction_numel ri]"
  have "\<exists>h'. foldE (softmax_group fo src dst ri) [0..<ri_output_numel ri] h = Inr h' \<and>
      array_is t h h' (foldl update_cell (float_at (tensor_contents h t)) (concat (map ?us [0..<ri_output_numel ri])))"
    by (rule foldE_cells[OF _ array_start[OF o]], rule softmax_group_outcome[OF R o sh _ n]) simp_all
  then obtain h' where h': "foldE (softmax_group fo src dst ri) [0..<ri_output_numel ri] h = Inr h'"
    "array_is t h h' (foldl update_cell (float_at (tensor_contents h t)) (concat (map ?us [0..<ri_output_numel ri])))" by blast
  have "tensor_contents h' t = along (ri_reduced ri) (softmax_row fo) (tensor_contents h x)"
    by (rule along_contents[OF R o sh h'(2), where one = "\<lambda>p r. [(group_index ri p r, \<lambda>_. ?E p r),
        (group_index ri p r, \<lambda>y. fl_div fo y (row_sum fo (ri_reduction_numel ri) (?E p)))]"])
      (simp_all add: row_updates[OF R] softmax_row_def Let_def)
  moreover have "softmax_out fo t x axis h = Inr h'"
    using R o n sh h'(1) by (simp add: softmax_out_def require_f32_def reduces_def output_array_def)
  ultimately show ?thesis using array_is_writes[OF h'(2)] by (simp add: computes_contents_def)
qed

section \<open>Layer normalisation\<close>

definition parameter_ok :: "tensor \<Rightarrow> heap \<Rightarrow> nat \<Rightarrow> tensor option \<Rightarrow> bool" where
  "parameter_ok t h n w \<longleftrightarrow> (case w of None \<Rightarrow> True
     | Some u \<Rightarrow> tensor_ok h u \<and> tn_dtype u = Float32 \<and> separate t u \<and> tn_shape u = [int n])"

lemma parameter_outcome:
  assumes w: "parameter_ok t h0 n w" and n: "0 < n"
  obtains d where "parameter_data w h0 = Inr d" "check_parameter (int n) w = Inr ()"
    "\<And>h r x operation. writes_only t h0 h \<Longrightarrow> r < n \<Longrightarrow> affine operation w d r h x = Inr (apply_parameter operation (map_option (tensor_contents h0) w) r x)"
proof (cases w)
  case None
  then show ?thesis using that[of None] by (simp add: parameter_data_def check_parameter_def affine_def apply_parameter_def)
next
  case (Some u)
  then have u: "tensor_ok h0 u" "tn_dtype u = Float32" "separate t u" "tn_shape u = [int n]" using w by (simp_all add: parameter_ok_def)
  have lok: "layout_ok (tn_layout u)" using u(1) by (simp add: tensor_ok_def)
  have numel: "tn_numel u = n" using layout_okD(3)[OF lok] u(4) by simp
  obtain b where src: "storage_data h0 (tn_storage u) = Some b" using element_location[OF u(1), of 0] numel n by metis
  have data: "typed_data Float32 u h0 = Inr (Some b)" using src u(2) by (simp add: typed_data_def)
  show ?thesis
  proof (rule that[of "Some b"])
    show "parameter_data w h0 = Inr (Some b)" "check_parameter (int n) w = Inr ()"
      using Some data u by (simp_all add: parameter_data_def check_parameter_def require_f32_def)
    fix h r x and operation :: "float32 \<Rightarrow> float32 \<Rightarrow> float32" assume wr: "writes_only t h0 h" and r: "r < n"
    have r': "r < tn_numel u" using r numel by simp
    obtain off where off: "storage_offset (tn_layout u) r = Inr off" using storage_offset_Inr(1)[OF lok r'] by blast
    show "affine operation w (Some b) r h x = Inr (apply_parameter operation (map_option (tensor_contents h0) w) r x)"
      using load_separate[OF wr u(1,3,2) r' off data] off Some by (simp add: affine_def apply_parameter_def)
  qed
qed

text \<open>The values of one group are stored at its cells, which are different.\<close>

lemma store_group:
  assumes R: "reduces t h0 x src axes keepdim ri" and o: "output_array t h0 dst" and sh: "tn_shape t = tn_shape x"
    and p: "p < ri_output_numel ri" and a: "array_is t h0 h F"
    and v: "\<And>i h. i < ri_reduction_numel ri \<Longrightarrow> writes_only t h0 h \<Longrightarrow> v i h = Inr (V i)"
  shows "\<exists>h'. store_each dst (reduction_index ri p) v [0..<ri_reduction_numel ri] h = Inr h' \<and>
    array_is t h0 h' (foldl update_cell F (map (\<lambda>i. (group_index ri p i, \<lambda>_. V i)) [0..<ri_reduction_numel ri]))"
proof -
  have "\<exists>h'. foldE (\<lambda>i h. bindE (v i h) (\<lambda>x. bindE (reduction_index ri p i) (\<lambda>j. store_float dst j x h))) [0..<ri_reduction_numel ri] h = Inr h' \<and>
      array_is t h0 h' (foldl update_cell F (concat (map (\<lambda>i. [(group_index ri p i, \<lambda>_. V i)]) [0..<ri_reduction_numel ri])))"
  proof (rule foldE_cells[OF _ a])
    fix i h F assume i: "i \<in> set [0..<ri_reduction_numel ri]" and a: "array_is t h0 h F"
    have i': "i < ri_reduction_numel ri" using i by simp
    show "\<exists>h'. bindE (v i h) (\<lambda>x. bindE (reduction_index ri p i) (\<lambda>j. store_float dst j x h)) = Inr h' \<and>
        array_is t h0 h' (foldl update_cell F [(group_index ri p i, \<lambda>_. V i)])"
      using v[OF i' array_is_writes[OF a]] reduces_offset(2)[OF R p i'] store_array[OF o a group_cell[OF R o sh p i']] by simp
  qed
  then show ?thesis by (simp add: store_each_def concat_map_singleton)
qed

lemma layer_norm_outcome:
  assumes R: "reduces t h x src [- 1] False ri" and o: "output_array t h dst" and sh: "tn_shape t = tn_shape x"
    and width: "tn_shape x \<noteq> []" "last (tn_shape x) = int (ri_reduction_numel ri)" "0 < ri_reduction_numel ri"
    and eps: "float_is_finite epsilon" "\<not> float_is_negative epsilon"
    and w: "parameter_ok t h (ri_reduction_numel ri) weight" and b: "parameter_ok t h (ri_reduction_numel ri) bias"
  shows "computes_contents t h (layer_norm_impl fo t x weight bias epsilon h)
    (along (ri_reduced ri) (layer_norm_row fo epsilon (map_option (tensor_contents h) weight) (map_option (tensor_contents h) bias)) (tensor_contents h x))"
proof -
  let ?n = "ri_reduction_numel ri" and ?cw = "map_option (tensor_contents h) weight" and ?cb = "map_option (tensor_contents h) bias"
  obtain wd where wd: "parameter_data weight h = Inr wd" "check_parameter (int ?n) weight = Inr ()"
    "\<And>h' r x operation. writes_only t h h' \<Longrightarrow> r < ?n \<Longrightarrow> affine operation weight wd r h' x = Inr (apply_parameter operation ?cw r x)"
    by (rule parameter_outcome[OF w width(3)]) blast
  obtain bd where bd: "parameter_data bias h = Inr bd" "check_parameter (int ?n) bias = Inr ()"
    "\<And>h' r x operation. writes_only t h h' \<Longrightarrow> r < ?n \<Longrightarrow> affine operation bias bd r h' x = Inr (apply_parameter operation ?cb r x)"
    by (rule parameter_outcome[OF b width(3)]) blast
  let ?V = "\<lambda>p. layer_norm_row fo epsilon ?cw ?cb ?n (group_row h x ri p)"
  let ?us = "\<lambda>p. map (\<lambda>i. (group_index ri p i, \<lambda>_. ?V p i)) [0..<?n]"
  have "\<exists>h'. foldE (layer_norm_group fo src dst weight wd bias bd ri epsilon) [0..<ri_output_numel ri] h = Inr h' \<and>
      array_is t h h' (foldl update_cell (float_at (tensor_contents h t)) (concat (map ?us [0..<ri_output_numel ri])))"
  proof (rule foldE_cells[OF _ array_start[OF o]])
    fix p h' F assume "p \<in> set [0..<ri_output_numel ri]" and a: "array_is t h h' F"
    then have p: "p < ri_output_numel ri" by simp
    note wr = array_is_writes[OF a]
    let ?e = "group_row h x ri p"
    let ?mean = "fl_div fo (row_sum fo ?n ?e) (fl_of_nat fo ?n)"
    let ?var = "fl_div fo (row_sum fo ?n (\<lambda>i. fl_mul fo (fl_sub fo (?e i) ?mean) (fl_sub fo (?e i) ?mean))) (fl_of_nat fo ?n)"
    let ?inv = "fl_div fo 0x3F800000 (fl_sqrt fo (fl_add fo ?var epsilon))"
    have mean: "group_mean fo src ri p h' = Inr ?mean" using group_sum_outcome[OF R wr p, of fo] by (simp add: group_mean_def)
    have "foldE (\<lambda>i acc. bindE (load_reduced h' src ri p i) (\<lambda>x.
         let centered = fl_sub fo x ?mean in Inr (fl_add fo acc (fl_mul fo centered centered)))) [0..<?n] 0 =
        Inr (row_sum fo ?n (\<lambda>i. fl_mul fo (fl_sub fo (?e i) ?mean) (fl_sub fo (?e i) ?mean)))"
      unfolding row_sum_def by (rule foldE_pure) (use load_reduced_outcome[OF R wr p] in \<open>simp add: Let_def\<close>)
    then have var: "group_variance fo src ri p ?mean h' = Inr ?var" by (simp add: group_variance_def)
    have "layer_norm_value fo src weight wd bias bd ri p ?mean ?inv i h'' = Inr (?V p i)" if "i < ?n" "writes_only t h h''" for i h''
      using load_reduced_outcome[OF R that(2) p that(1)] wd(3)[OF that(2,1)] bd(3)[OF that(2,1)]
      by (simp add: layer_norm_value_def layer_norm_row_def Let_def)
    from store_group[OF R o sh p a this] show "\<exists>h''. layer_norm_group fo src dst weight wd bias bd ri epsilon p h' = Inr h'' \<and>
        array_is t h h'' (foldl update_cell F (?us p))"
      by (simp add: layer_norm_group_def mean var Let_def)
  qed
  then obtain h' where h': "foldE (layer_norm_group fo src dst weight wd bias bd ri epsilon) [0..<ri_output_numel ri] h = Inr h'"
    "array_is t h h' (foldl update_cell (float_at (tensor_contents h t)) (concat (map ?us [0..<ri_output_numel ri])))" by blast
  have "tensor_contents h' t = along (ri_reduced ri) (layer_norm_row fo epsilon ?cw ?cb) (tensor_contents h x)"
    by (rule along_contents[OF R o sh h'(2), where one = "\<lambda>p r. [(group_index ri p r, \<lambda>_. ?V p r)]"]) (simp_all add: row_updates[OF R])
  moreover have "layer_norm_impl fo t x weight bias epsilon h = Inr h'"
    using R o sh h'(1) wd(1,2) bd(1,2) width eps by (simp add: layer_norm_impl_def require_f32_def reduces_def output_array_def)
  ultimately show ?thesis using array_is_writes[OF h'(2)] by (simp add: computes_contents_def)
qed

section \<open>The iterator along one dimension\<close>

lemma contiguous_loop_smaller:
  "contiguous_loop ds r acc = Inr st \<Longrightarrow> r' \<le> r \<Longrightarrow> \<exists>st'. contiguous_loop ds r' acc' = Inr st'"
proof (induction ds arbitrary: r r' acc acc')
  case (Cons d ds)
  have le: "r' * nat d \<le> r * nat d" using Cons.prems(2) by (rule mult_le_mono1)
  show ?case
  proof (cases "ds = []")
    case False
    then have r: "\<not> nat int64_max < r" "r * nat d \<le> size_max" "contiguous_loop ds (r * nat d) (int r # acc) = Inr st"
      using Cons.prems(1) by (auto simp: checked_multiply_Inr split: if_splits)
    note small = order_trans[OF le r(2)]
    from Cons.IH[OF r(3) le] small r(1) Cons.prems(2) False show ?thesis by (auto simp: checked_multiply_cases)
  qed (use Cons.prems in \<open>simp split: if_splits\<close>)
qed simp

lemma contiguous_loop_without:
  "contiguous_loop (xs @ d # ys) r acc = Inr st \<Longrightarrow> 0 < d \<Longrightarrow> \<exists>st'. contiguous_loop (xs @ ys) r acc' = Inr st'"
proof (induction xs arbitrary: r acc acc')
  case Nil
  have "r * 1 \<le> r * nat d" using Nil(2) by (intro mult_le_mono2) simp
  then show ?case using Nil contiguous_loop_smaller[of ys "r * nat d" "int r # acc" st r acc']
    by (cases "ys = []") (auto simp: checked_multiply_Inr split: if_splits)
next
  case (Cons x xs)
  then show ?case by (cases "xs @ ys = []") (auto simp: checked_multiply_Inr split: if_splits)
qed

lemma mk_layout_without:
  assumes "mk_layout (xs @ d # ys) = Inr l" and "0 < d"
  shows "\<exists>l'. mk_layout (xs @ ys) = Inr l'"
proof -
  have dims: "\<forall>d \<in> set (xs @ d # ys). 0 \<le> d" and st: "\<exists>st. contiguous_loop (rev ys @ d # rev xs) 1 [] = Inr st"
    using assms(1) by (auto simp: mk_layout_def validate_shape_Inr make_contiguous_strides_def)
  have "prodn (xs @ ys) * 1 \<le> prodn (xs @ ys) * nat d" using assms(2) by (intro mult_le_mono2) simp
  then have "prodn (xs @ ys) \<le> prodn (xs @ d # ys)" by (simp add: algebra_simps)
  also have "\<dots> \<le> size_max" using mk_layout_ok(1,2)[OF assms(1)] layout_okD(3,4) by metis
  finally have "checked_numel (xs @ ys) = Inr (prodn (xs @ ys))" using checked_numel_total[of "xs @ ys"] dims by simp
  moreover obtain st' where "contiguous_loop (rev ys @ rev xs) 1 [] = Inr st'" using contiguous_loop_without[OF _ assms(2)] st by blast
  ultimately show ?thesis using dims by (simp add: mk_layout_def validate_shape_def make_contiguous_strides_def not_less)
qed

lemma reduced_shape_one:
  assumes "k < length sh"
  shows "reduced_shape sh ((replicate (length sh) False)[k := True]) False = take k sh @ drop (Suc k) sh"
proof -
  have none: "reduced_shape s (replicate (length s) False) False = s" for s by (induction s) (simp_all add: reduced_shape_def)
  have sh: "sh = take k sh @ sh ! k # drop (Suc k) sh" using assms by (rule id_take_nth_drop)
  have "(replicate (length sh) False)[k := True] = replicate k False @ True # replicate (length sh - Suc k) False"
  proof (rule nth_equalityI)
    fix i assume "i < length ((replicate (length sh) False)[k := True])"
    then show "(replicate (length sh) False)[k := True] ! i = (replicate k False @ True # replicate (length sh - Suc k) False) ! i"
      using assms by (cases "i = k"; cases "i < k") (auto simp: nth_append nth_Cons' nth_list_update)
  qed (use assms in simp)
  then have "reduced_shape sh ((replicate (length sh) False)[k := True]) False =
      reduced_shape (take k sh @ sh ! k # drop (Suc k) sh) (replicate k False @ True # replicate (length sh - Suc k) False) False" using sh by metis
  also have "\<dots> = reduced_shape (take k sh) (replicate k False) False @ reduced_shape (sh ! k # drop (Suc k) sh) (True # replicate (length sh - Suc k) False) False"
    by (rule reduced_shape_append) (use assms in simp)
  also have "\<dots> = take k sh @ drop (Suc k) sh"
    using none[of "take k sh"] none[of "drop (Suc k) sh"] assms by (simp add: reduced_shape_def)
  finally show ?thesis .
qed

lemma mk_layout_line: "0 \<le> d \<Longrightarrow> d \<le> int64_max \<Longrightarrow> \<exists>l. mk_layout [d] = Inr l \<and> lay_numel l = nat d"
  using checked_numel_total[of "[d]"]
  by (auto simp: mk_layout_def validate_shape_def make_contiguous_strides_def int64_max_def size_max_def)

lemma mk_reduction_axis:
  assumes l0: "mk_layout (lay_shape l) = Inr l0" and k: "k < lay_rank l" and axis: "axis = int k \<or> axis = int k - int (lay_rank l)"
    and dim: "lay_shape l ! k \<noteq> 0" "lay_shape l ! k \<le> int64_max"
  shows "\<exists>ri. mk_reduction l [axis] False = Inr ri \<and> ri_reduced ri = (replicate (lay_rank l) False)[k := True] \<and>
    ri_reduction_numel ri = nat (lay_shape l ! k)"
proof -
  let ?sh = "lay_shape l" and ?red = "(replicate (lay_rank l) False)[k := True]"
  have step: "axis_step (lay_rank l) axis (replicate (lay_rank l) False, []) = Inr (?red, [k])"
    using axis k by (auto simp: axis_step_def Let_def)
  have nonneg: "0 \<le> ?sh ! k" using mk_layout_ok(1,2)[OF l0] layout_okD(2) nth_mem[OF k] by metis
  have "mk_layout (take k ?sh @ ?sh ! k # drop (Suc k) ?sh) = Inr l0" using l0 id_take_nth_drop[OF k] by metis
  from mk_layout_without[OF this] obtain lo where "mk_layout (reduced_shape ?sh ?red False) = Inr lo"
    using nonneg dim(1) reduced_shape_one[OF k] by (metis less_le)
  moreover obtain lr where "mk_layout [?sh ! k] = Inr lr" "lay_numel lr = nat (?sh ! k)" using mk_layout_line[OF nonneg dim(2)] by blast
  ultimately show ?thesis using step l0 by (simp add: mk_reduction_def Let_def)
qed

end
