(* ===== verification/Gemm_Sound.thy ===== *)
theory Gemm_Sound
  imports Reduction_Sound
begin

text \<open>
  Gemm computes \<open>alpha * op(A) * op(B) + beta * C\<close> with the product of the matrix kernels: a transposed operand is read
  as the transposed matrix, and the epilogue is applied to the finished product. A transposed operand is copied, which
  is the one allocation a kernel makes, and the only way it can fail.
\<close>

section \<open>Transposed operands\<close>

lemma tensor_copy_outcome:
  assumes s: "validate_spec (tensor_spec_of t) = Inr u" and ok: "tensor_ok h t"
  shows "tensor_copy t h = Inl Bad_alloc \<or> (\<exists>t' h'. tensor_copy t h = Inr (t', h'))"
proof -
  obtain l bytes where l: "mk_layout (tn_shape t) = Inr l" "size_bytes l (tn_dtype t) = Inr bytes"
    by (rule validate_specD[OF s]) (simp add: tensor_spec_of_def)
  show ?thesis
  proof (cases "bytes > hp_available h")
    case True
    then show ?thesis by (simp add: tensor_copy_def l mk_storage_def mk_buffer_default)
  next
    case False
    then obtain st h1 where st: "mk_storage bytes True default_alignment h = Inr (st, h1)" by (auto simp: mk_storage_def mk_buffer_default)
    note S = mk_storage_ok[OF st]
    have numel: "lay_numel l = tn_numel t"
      using layout_okD(3)[OF mk_layout_ok(1)[OF l(1)]] layout_okD(3)[of "tn_layout t"] mk_layout_ok(2)[OF l(1)] ok by (simp add: tensor_ok_def)
    show ?thesis
    proof (cases "bytes > 0")
      case True
      have "heap_ext h h1" using S by (auto simp: heap_ext_def nth_append)
      then have sto: "storage_ok h1 (tn_storage t)" using heap_ext_storage ok by (simp add: tensor_ok_def)
      have "0 < tn_numel t" using True l(2) numel by (cases "tn_numel t") (auto simp: size_bytes_def checked_multiply_Inr)
      from storage_ptr_ok[OF sto positive_bytes[OF ok this]] obtain src where src: "storage_data h1 (tn_storage t) = Some src" by metis
      have "storage_ok h1 st" "0 < sto_size_bytes st" using S True by simp_all
      from storage_ptr_ok[OF this] obtain dst where dst: "storage_ptr h1 st = Inr dst" by metis
      from dense_copy[OF ok l st True src dst] show ?thesis using True src dst by (auto simp: tensor_copy_def l st numel)
    qed (use st in \<open>auto simp: tensor_copy_def l\<close>)
  qed
qed

lemma swap_pair: "swap_at 0 1 [x, y] = [y, x]"
  by (simp add: swap_at_def)

lemma transpose_dense:
  assumes ok: "tensor_ok h t" and c: "lay_contiguous (tn_layout t)" and sh: "tn_shape t = [a, b]" and fit: "a \<le> int64_max" "b \<le> int64_max"
  shows "\<exists>l. tensor_transpose 0 1 t = Inr (t\<lparr>tn_layout := l\<rparr>) \<and> layout_ok l \<and> lay_shape l = [b, a] \<and> lay_strides l = [1, b] \<and>
    tn_strides t = [b, 1]"
proof -
  have lok: "layout_ok (tn_layout t)" using ok by (simp add: tensor_ok_def)
  have nonneg: "0 \<le> a" "0 \<le> b" using layout_okD(2)[OF lok] sh by auto
  have st: "tn_strides t = [b, 1]" using layout_okD(7)[OF lok] c sh nonneg by simp
  have prod: "nat a * nat b \<le> size_max" using layout_okD(3,4)[OF lok] sh by simp
  have numel: "checked_numel [b, a] = Inr (nat b * nat a)" using checked_numel_total[of "[b, a]"] nonneg prod by (simp add: mult.commute)
  have bound: "nat a \<le> size_max" "nat b \<le> size_max" "nat a \<le> nat int64_max" using fit by (auto simp: size_max_def int64_max_def)
  have strides: "\<exists>x. make_contiguous_strides [b, a] = Inr x"
    using bound by (simp add: make_contiguous_strides_def checked_multiply_cases not_less) (use fit(1) in \<open>simp add: int64_max_def\<close>)
  have span: "\<exists>x. checked_storage_span [b, a] [1, b] = Inr x"
  proof (cases "a = 0 \<or> b = 0")
    case False
    then have pos: "0 < a" "0 < b" using nonneg by simp_all
    have "nat (b - 1) + nat (a - 1) * nat b + 1 = nat a * nat b"
    proof -
      obtain n m where "nat a = Suc n" "nat b = Suc m" using pos by (metis gr0_implies_Suc zero_less_nat_eq)
      then have "nat (a - 1) = n" "nat (b - 1) = m" by simp_all
      then show ?thesis using \<open>nat a = Suc n\<close> \<open>nat b = Suc m\<close> by simp
    qed
    then have "nat (b - 1) + nat (a - 1) * nat b + 1 \<le> size_max" using prod by simp
    then have "nat (b - 1) \<le> size_max" "nat (a - 1) * nat b \<le> size_max" "nat (b - 1) + nat (a - 1) * nat b \<le> size_max"
      "nat (b - 1) + nat (a - 1) * nat b + 1 \<le> size_max" by linarith+
    then show ?thesis using False by (simp add: checked_storage_span_def checked_multiply_cases checked_add_cases size_max_def)
  qed (auto simp: checked_storage_span_def)
  have "\<exists>l. mk_strided_layout [b, a] [1, b] = Inr l" using nonneg numel strides span by (auto simp: mk_strided_layout_def validate_shape_def not_less)
  then obtain l where l: "mk_strided_layout [b, a] [1, b] = Inr l" by blast
  have "tensor_transpose 0 1 t = Inr (t\<lparr>tn_layout := l\<rparr>)" using l sh st by (simp add: tensor_transpose_def transposed_def swap_at_def)
  then show ?thesis using mk_strided_layout_ok[OF l] st by blast
qed

definition transposed_if :: "int \<Rightarrow> (nat \<Rightarrow> nat \<Rightarrow> float32) \<Rightarrow> nat \<Rightarrow> nat \<Rightarrow> float32" where
  "transposed_if tr A r c = (if tr \<noteq> 0 then A c r else A r c)"

lemma matrix_at_element:
  assumes "r * nat (tn_shape x ! 1) + c < tn_numel x"
  shows "matrix_at (tensor_contents h x) r c =
    (case tensor_element h x (r * nat (tn_shape x ! 1) + c) of Inl _ \<Rightarrow> 0 | Inr bs \<Rightarrow> bytes_float bs)"
  using assms by (simp add: matrix_at_def float_at_def tensor_contents_def)

lemma transposed_matrix:
  assumes ok: "tensor_ok h t" and c: "lay_contiguous (tn_layout t)" and sh: "tn_shape t = [a, b]" and fit: "a \<le> int64_max" "b \<le> int64_max"
  obtains u where "tensor_transpose 0 1 t = Inr u" "tensor_ok h u" "tn_shape u = [b, a]" "tn_dtype u = tn_dtype t" "tn_storage u = tn_storage t"
    "\<And>r k. r < nat b \<Longrightarrow> k < nat a \<Longrightarrow> matrix_at (tensor_contents h u) r k = matrix_at (tensor_contents h t) k r"
proof -
  obtain l where l: "tensor_transpose 0 1 t = Inr (t\<lparr>tn_layout := l\<rparr>)" "layout_ok l" "lay_shape l = [b, a]" "lay_strides l = [1, b]"
    and st: "tn_strides t = [b, 1]" using transpose_dense[OF assms] by blast
  have lok: "layout_ok (tn_layout t)" using ok by (simp add: tensor_ok_def)
  show ?thesis
  proof (rule that[of "t\<lparr>tn_layout := l\<rparr>"])
    fix r k assume rk: "r < nat b" "k < nat a"
    have u: "storage_offset l (r * nat a + k) = Inr (r + k * nat b)" "r * nat a + k < lay_numel l"
      using matrix_offset[OF l(2), of r k] l(3,4) rk by simp_all
    have t: "storage_offset (tn_layout t) (k * nat b + r) = Inr (k * nat b + r)" "k * nat b + r < tn_numel t"
      using matrix_offset[OF lok, of k r] sh st rk by simp_all
    have "tensor_element h (t\<lparr>tn_layout := l\<rparr>) (r * nat a + k) = tensor_element h t (k * nat b + r)"
      using u(1) t(1) by (simp add: tensor_element_def add.commute)
    then show "matrix_at (tensor_contents h (t\<lparr>tn_layout := l\<rparr>)) r k = matrix_at (tensor_contents h t) k r"
      using matrix_at_element[of r "t\<lparr>tn_layout := l\<rparr>" k h] matrix_at_element[of k t r h] u(2) t(2) l(3) sh by simp
  qed (use l tensor_transpose_ok[OF ok l(1)] in simp_all)
qed

text \<open>The operand a matrix kernel gets, and the copies it may have needed.\<close>

lemma contents_separate: "sto_buffer (tn_storage t) \<noteq> sto_buffer (tn_storage u) \<Longrightarrow> separate t u"
  by (simp add: separate_def)

lemma gemm_operand_outcome:
  assumes ok: "tensor_ok h x" and t: "tensor_ok h t" "separate t x" and f: "tn_dtype x = Float32"
    and sh: "tn_shape x = [a, b]" and fit: "a \<le> int64_max" "b \<le> int64_max" and s: "validate_spec (tensor_spec_of x) = Inr u"
  shows "(tr \<noteq> 0 \<and> gemm_operand tr x h = Inl Bad_alloc) \<or>
    (\<exists>y h'. gemm_operand tr x h = Inr (y, h') \<and> heap_ext h h' \<and> tensor_ok h' y \<and> separate t y \<and> tn_dtype y = Float32 \<and>
       tn_shape y = (if tr \<noteq> 0 then [b, a] else [a, b]) \<and>
       (\<forall>r < nat (tn_shape y ! 0). \<forall>k < nat (tn_shape y ! 1).
          matrix_at (tensor_contents h' y) r k = transposed_if tr (matrix_at (tensor_contents h x)) r k))"
proof (cases "tr = 0")
  case True
  then show ?thesis using ok t f sh by (simp add: gemm_operand_def transposed_if_def)
next
  case False
  from tensor_copy_outcome[OF s ok] show ?thesis
  proof (elim disjE exE)
    fix c h' assume c: "tensor_copy x h = Inr (c, h')"
    note C = tensor_copy_ok[OF ok c]
    have csh: "tn_shape c = [a, b]" using C(3) sh by simp
    obtain y where y: "tensor_transpose 0 1 c = Inr y" "tensor_ok h' y" "tn_shape y = [b, a]" "tn_dtype y = tn_dtype c" "tn_storage y = tn_storage c"
      "\<And>r k. r < nat b \<Longrightarrow> k < nat a \<Longrightarrow> matrix_at (tensor_contents h' y) r k = matrix_at (tensor_contents h' c) k r"
      by (rule transposed_matrix[OF C(1,5) csh fit]) blast
    obtain q where "sto_buffer (tn_storage t) = Some q" "q < length (hp_buffers h)" using t(1) by (auto simp: tensor_ok_def storage_ok_def)
    then have "separate t y" using C(6) y(5) by (intro contents_separate) simp
    moreover have "tensor_contents h' c = tensor_contents h x" using C(3,4,7,8) by (simp add: tensor_contents_def)
    ultimately show ?thesis using False c C(2,4) y f by (simp add: gemm_operand_def transposed_if_def)
  qed (use False in \<open>simp add: gemm_operand_def\<close>)
qed

section \<open>The product of the operands\<close>

definition product_of :: "nat \<Rightarrow> nat \<Rightarrow> nat \<Rightarrow> (nat \<Rightarrow> float32 \<Rightarrow> float32 \<Rightarrow> float32 \<Rightarrow> float32) \<Rightarrow> (nat \<Rightarrow> nat \<Rightarrow> float32) \<Rightarrow> (nat \<Rightarrow> nat \<Rightarrow> float32) \<Rightarrow> contents" where
  "product_of R K C madd A B = product_contents R C [int R, int C] (\<lambda>r c. dot_from (madd c) (A r) (\<lambda>k. B k c) [0..<K] 0)"

lemma product_of_cong:
  assumes "\<And>r k. r < R \<Longrightarrow> k < K \<Longrightarrow> A r k = A' r k" and "\<And>k c. k < K \<Longrightarrow> c < C \<Longrightarrow> B k c = B' k c"
  shows "product_of R K C madd A B = product_of R K C madd A' B'"
proof -
  have dot: "dot_from m f g ks x = dot_from m f' g' ks x" if "\<forall>k \<in> set ks. f k = f' k \<and> g k = g' k" for m f f' g g' ks x
    using that by (induction ks arbitrary: x) (simp_all add: dot_from_def)
  have "j div C < R \<and> j mod C < C" if "j < R * C" for j
    using that by (metis less_mult_imp_div_less mod_less_divisor mult_0_right not_less_zero gr0I)
  then show ?thesis
    by (auto simp: product_of_def product_contents_def float_contents_def assms intro!: arg_cong[where f = float_bytes] dot)
qed

lemma heap_ext_writes: "heap_ext h h' \<Longrightarrow> writes_only t h h'"
  using heap_ext_size heap_ext_read by (auto simp: writes_only_def heap_ext_def)

lemma matmul_out_outcome:
  assumes v: "validate_matmul x y t = Inr ()" and ok: "tensor_ok h x" "tensor_ok h y" "tensor_ok h t" and sep: "separate t x" "separate t y"
  shows "computes_contents t h (matmul_out fo st t x y h) (product_of (nat (tn_shape x ! 0)) (nat (tn_shape x ! 1)) (nat (tn_shape y ! 1))
    (packed_madd fo st default_blocks (nat (tn_shape y ! 1))) (matrix_at (tensor_contents h x)) (matrix_at (tensor_contents h y)))"
proof -
  from validated_operands[OF v ok sep] obtain a b dst where
    T: "operands t h x y a b dst (nat (tn_shape x ! 0)) (nat (tn_shape x ! 1)) (nat (tn_shape y ! 1))" by blast
  have bs: "require_positive_blocks default_blocks = Inr ()" by (simp add: require_positive_blocks_def default_blocks_def)
  have rank: "tn_rank t = 2" and dims: "tn_shape t ! 0 = tn_shape x ! 0" "tn_shape t ! 1 = tn_shape y ! 1"
    using v by (auto simp: validate_matmul_def split: if_splits)
  have "0 \<le> d" if "d \<in> set (tn_shape t)" for d using layout_okD(2)[of "tn_layout t"] ok(3) that by (simp add: tensor_ok_def)
  then have "0 \<le> tn_shape t ! 0" "0 \<le> tn_shape t ! 1" using rank by simp_all
  then have "tn_shape t = [int (nat (tn_shape x ! 0)), int (nat (tn_shape y ! 1))]" using shape2[OF rank] dims by simp
  moreover have "matmul_checks x y = Inr ()" using v by (auto simp: validate_matmul_def matmul_checks_def split: if_splits)
  ultimately show ?thesis using packed_matmul[OF T bs v, of fo st] by (simp add: matmul_out_def product_of_def matrix_product_def)
qed

section \<open>The epilogue\<close>

lemma fst_contents [simp]: "fst (tensor_contents h t) = tn_shape t"
  by (simp add: tensor_contents_def)

definition epilogue_contents :: "float_ops \<Rightarrow> float32 \<Rightarrow> float32 \<Rightarrow> bool \<Rightarrow> contents option \<Rightarrow> contents \<Rightarrow> contents" where
  "epilogue_contents fo alpha beta relu bias p = (let finish = (\<lambda>x. if relu then max_zero fo x else x) in
     case bias of
       Some b \<Rightarrow> float_contents (fst p) (\<lambda>i. finish (fl_add fo (fl_mul fo alpha (float_at p i)) (fl_mul fo beta (float_at b (source_index (fst b) (fst p) i)))))
     | None \<Rightarrow> if alpha \<noteq> float_one \<or> relu then float_contents (fst p) (\<lambda>i. finish (fl_mul fo alpha (float_at p i))) else p)"

definition bias_ok :: "tensor \<Rightarrow> heap \<Rightarrow> tensor option \<Rightarrow> bool" where
  "bias_ok t h bias \<longleftrightarrow> (case bias of None \<Rightarrow> True | Some b \<Rightarrow> tensor_ok h b \<and> tn_dtype b = Float32 \<and> separate t b \<and>
     (\<exists>it. mk_iterator [tn_layout t, tn_layout b] = Inr it \<and> it_shape it = tn_shape t))"

lemma epilogue_outcome:
  assumes t: "tensor_ok h t" "tn_dtype t = Float32" "lay_contiguous (tn_layout t)" and b: "bias_ok t h bias"
  shows "computes_contents t h (apply_gemm_epilogue fo t bias alpha beta relu h)
    (epilogue_contents fo alpha beta relu (map_option (tensor_contents h) bias) (tensor_contents h t))"
proof -
  obtain dst where dst: "typed_data Float32 t h = Inr dst" using t(2) by (simp add: typed_data_def)
  let ?fin = "\<lambda>x. if relu then max_zero fo x else x"
  have here: "load_float h' dst i = Inr (float_at (tensor_contents h t) i)"
    if "i < tn_numel t" "writes_only t h h'" "tensor_element h' t i = tensor_element h t i" for i h'
  proof -
    have "storage_offset (tn_layout t) i = Inr i" using contiguous_offset[OF _ t(3) that(1)] t(1) by (simp add: tensor_ok_def)
    from load_element[OF writes_only_tensor[OF that(2) t(1)] t(2) that(1) this writes_only_data[OF that(2) t(1) dst]]
    show ?thesis using that(1,3) by (simp add: float_at_def tensor_contents_def)
  qed
  show ?thesis
  proof (cases bias)
    case None
    have "\<exists>h'. store_each dst Inr (\<lambda>i h. bindE (load_float h dst i) (\<lambda>x. Inr (?fin (fl_mul fo alpha x)))) [0..<tn_numel t] h = Inr h' \<and>
        writes_only t h h' \<and> tensor_contents h' t = float_contents (tn_shape t) (\<lambda>i. ?fin (fl_mul fo alpha (float_at (tensor_contents h t) i)))"
      by (rule fill_output[OF t(1,3,2) dst refl]) (simp add: here)
    then show ?thesis using None dst
      by (simp add: computes_contents_def apply_gemm_epilogue_def epilogue_contents_def Let_def)
  next
    case (Some u)
    then obtain it where u: "tensor_ok h u" "tn_dtype u = Float32" "separate t u"
      and it: "mk_iterator [tn_layout t, tn_layout u] = Inr it" "it_shape it = tn_shape t" using b by (auto simp: bias_ok_def)
    obtain src where src: "typed_data Float32 u h = Inr src" using u(2) by (simp add: typed_data_def)
    have lok: "\<forall>l \<in> set [tn_layout t, tn_layout u]. layout_ok l" using t(1) u(1) by (simp add: tensor_ok_def)
    have n: "it_numel it = tn_numel t" using iterator_numel[OF it(1)] it(2) t(1) layout_okD(3) by (simp add: tensor_ok_def)
    have "\<exists>h'. store_each dst Inr (\<lambda>i h. bindE (load_float h dst i) (\<lambda>x. bindE (operand_offset it 1 i) (\<lambda>off. bindE (load_float h src off) (\<lambda>y.
          Inr (?fin (fl_add fo (fl_mul fo alpha x) (fl_mul fo beta y))))))) [0..<it_numel it] h = Inr h' \<and> writes_only t h h' \<and>
        tensor_contents h' t = float_contents (tn_shape t) (\<lambda>i. ?fin (fl_add fo (fl_mul fo alpha (float_at (tensor_contents h t) i))
          (fl_mul fo beta (float_at (tensor_contents h u) (source_index (tn_shape u) (tn_shape t) i)))))"
    proof (rule fill_output[OF t(1,3,2) dst n])
      fix i h' assume i: "i < it_numel it" and w: "writes_only t h h'" and e: "tensor_element h' t i = tensor_element h t i"
      note K = operand_offset_outcome[OF it(1) lok _ i, of 1]
      obtain off where off: "operand_offset it 1 i = Inr off" "storage_offset (tn_layout u) (source_index (tn_shape u) (tn_shape t) i) = Inr off"
        using K(2) it(2) by auto
      show "bindE (load_float h' dst i) (\<lambda>x. bindE (operand_offset it 1 i) (\<lambda>off. bindE (load_float h' src off) (\<lambda>y.
          Inr (?fin (fl_add fo (fl_mul fo alpha x) (fl_mul fo beta y)))))) = Inr (?fin (fl_add fo (fl_mul fo alpha (float_at (tensor_contents h t) i))
            (fl_mul fo beta (float_at (tensor_contents h u) (source_index (tn_shape u) (tn_shape t) i)))))"
        using here[OF _ w e] i n off load_separate[OF w u(1,3,2) _ off(2) src] K(1) it(2) by simp
    qed
    then show ?thesis using Some dst src it n
      by (simp add: computes_contents_def apply_gemm_epilogue_def epilogue_contents_def Let_def)
  qed
qed

section \<open>Gemm\<close>

text \<open>The operands of one call, and the sizes of the product.\<close>

definition gemm_ready :: "tensor \<Rightarrow> heap \<Rightarrow> tensor \<Rightarrow> tensor \<Rightarrow> tensor option \<Rightarrow> int \<Rightarrow> int \<Rightarrow> nat \<Rightarrow> nat \<Rightarrow> nat \<Rightarrow> bool" where
  "gemm_ready t h x y bias ta tb R K C \<longleftrightarrow>
     tensor_ok h t \<and> tn_dtype t = Float32 \<and> lay_contiguous (tn_layout t) \<and> tn_shape t = [int R, int C] \<and>
     tensor_ok h x \<and> tn_dtype x = Float32 \<and> separate t x \<and> validate_spec (tensor_spec_of x) = Inr () \<and>
     tn_shape x = (if ta \<noteq> 0 then [int K, int R] else [int R, int K]) \<and>
     tensor_ok h y \<and> tn_dtype y = Float32 \<and> separate t y \<and> validate_spec (tensor_spec_of y) = Inr () \<and>
     tn_shape y = (if tb \<noteq> 0 then [int C, int K] else [int K, int C]) \<and>
     int R \<le> int64_max \<and> int K \<le> int64_max \<and> int C \<le> int64_max \<and> bias_ok t h bias \<and> ta \<in> {0, 1} \<and> tb \<in> {0, 1}"

definition gemm_contents :: "float_ops \<Rightarrow> simd_target \<Rightarrow> bool \<Rightarrow> float32 \<Rightarrow> float32 \<Rightarrow> int \<Rightarrow> int \<Rightarrow> nat \<Rightarrow> nat \<Rightarrow> nat \<Rightarrow> contents \<Rightarrow> contents \<Rightarrow> contents option \<Rightarrow> contents" where
  "gemm_contents fo st relu alpha beta ta tb R K C x y bias = epilogue_contents fo alpha beta relu bias
     (product_of R K C (packed_madd fo st default_blocks C) (transposed_if ta (matrix_at x)) (transposed_if tb (matrix_at y)))"

lemma bias_ok_heap:
  assumes "heap_ext h h'" and "bias_ok t h bias"
  shows "bias_ok t h' bias" "map_option (tensor_contents h') bias = map_option (tensor_contents h) bias"
  using assms heap_ext_tensor heap_ext_contents by (cases bias; fastforce simp: bias_ok_def)+

lemma bias_ok_writes:
  assumes "writes_only t h h'" and "bias_ok t h bias"
  shows "bias_ok t h' bias" "map_option (tensor_contents h') bias = map_option (tensor_contents h) bias"
  using assms writes_only_tensor writes_only_contents by (cases bias; fastforce simp: bias_ok_def)+

lemma run_gemm_outcome:
  assumes G: "gemm_ready t h x y bias ta tb R K C"
  shows "((ta \<noteq> 0 \<or> tb \<noteq> 0) \<and> run_gemm fo st t x y bias alpha beta ta tb relu h = Inl Bad_alloc) \<or>
    computes_contents t h (run_gemm fo st t x y bias alpha beta ta tb relu h)
      (gemm_contents fo st relu alpha beta ta tb R K C (tensor_contents h x) (tensor_contents h y) (map_option (tensor_contents h) bias))"
proof -
  have t: "tensor_ok h t" "tn_dtype t = Float32" "lay_contiguous (tn_layout t)" "tn_shape t = [int R, int C]"
    and x: "tensor_ok h x" "tn_dtype x = Float32" "separate t x" "validate_spec (tensor_spec_of x) = Inr ()"
    and y: "tensor_ok h y" "tn_dtype y = Float32" "separate t y" "validate_spec (tensor_spec_of y) = Inr ()"
    and shx: "tn_shape x = [int (if ta \<noteq> 0 then K else R), int (if ta \<noteq> 0 then R else K)]"
    and shy: "tn_shape y = [int (if tb \<noteq> 0 then C else K), int (if tb \<noteq> 0 then K else C)]"
    and fit: "int R \<le> int64_max" "int K \<le> int64_max" "int C \<le> int64_max" and b: "bias_ok t h bias" and tr: "ta \<in> {0, 1}" "tb \<in> {0, 1}"
    using G by (simp_all add: gemm_ready_def)
  have valid: "validate_transpose ta ''transA'' = Inr ()" "validate_transpose tb ''transB'' = Inr ()" using tr by (auto simp: validate_transpose_def)
  have run: "run_gemm fo st t x y bias alpha beta ta tb relu h = bindE (gemm_operand ta x h) (\<lambda>(a, h1). bindE (gemm_operand tb y h1) (\<lambda>(b, h2).
     bindE (matmul_out fo st t a b h2) (\<lambda>h3. apply_gemm_epilogue fo t bias alpha beta relu h3)))" by (simp add: run_gemm_def valid)
  have "int (if ta \<noteq> 0 then K else R) \<le> int64_max" "int (if ta \<noteq> 0 then R else K) \<le> int64_max" using fit by simp_all
  from gemm_operand_outcome[OF x(1) t(1) x(3,2) shx this x(4), of ta] show ?thesis
  proof (elim disjE exE conjE)
    fix a h1 assume a: "gemm_operand ta x h = Inr (a, h1)" "heap_ext h h1" "tensor_ok h1 a" "separate t a" "tn_dtype a = Float32"
      "tn_shape a = (if ta \<noteq> 0 then [int (if ta \<noteq> 0 then R else K), int (if ta \<noteq> 0 then K else R)] else [int (if ta \<noteq> 0 then K else R), int (if ta \<noteq> 0 then R else K)])"
      "\<forall>r < nat (tn_shape a ! 0). \<forall>k < nat (tn_shape a ! 1). matrix_at (tensor_contents h1 a) r k = transposed_if ta (matrix_at (tensor_contents h x)) r k"
    have sha: "tn_shape a = [int R, int K]" using a(6) by auto
    have fit2: "int (if tb \<noteq> 0 then C else K) \<le> int64_max" "int (if tb \<noteq> 0 then K else C) \<le> int64_max" using fit by simp_all
    from gemm_operand_outcome[OF heap_ext_tensor[OF a(2) y(1)] heap_ext_tensor[OF a(2) t(1)] y(3,2) shy fit2 y(4), of tb] show ?thesis
    proof (elim disjE exE conjE)
      assume "tb \<noteq> 0" "gemm_operand tb y h1 = Inl Bad_alloc"
      then show ?thesis using run a(1) by simp
    next
      fix c h2 assume c: "gemm_operand tb y h1 = Inr (c, h2)" "heap_ext h1 h2" "tensor_ok h2 c" "separate t c" "tn_dtype c = Float32"
        "tn_shape c = (if tb \<noteq> 0 then [int (if tb \<noteq> 0 then K else C), int (if tb \<noteq> 0 then C else K)] else [int (if tb \<noteq> 0 then C else K), int (if tb \<noteq> 0 then K else C)])"
        "\<forall>r < nat (tn_shape c ! 0). \<forall>k < nat (tn_shape c ! 1). matrix_at (tensor_contents h2 c) r k = transposed_if tb (matrix_at (tensor_contents h1 y)) r k"
      have shc: "tn_shape c = [int K, int C]" using c(6) by auto
      note ext = heap_ext_trans[OF a(2) c(2)]
      have v: "validate_matmul a c t = Inr ()" using a(5) c(5) t sha shc by (simp add: validate_matmul_def)
      from matmul_out_outcome[OF v heap_ext_tensor[OF c(2) a(3)] c(3) heap_ext_tensor[OF ext t(1)] a(4) c(4), of fo st] obtain h3 where
        h3: "matmul_out fo st t a c h2 = Inr h3" "writes_only t h2 h3" "tensor_contents h3 t = product_of R K C (packed_madd fo st default_blocks C)
            (matrix_at (tensor_contents h2 a)) (matrix_at (tensor_contents h2 c))" using sha shc by (auto simp: computes_contents_def)
      have "tensor_contents h2 a = tensor_contents h1 a" "tensor_contents h1 y = tensor_contents h y"
        using heap_ext_contents[OF c(2) a(3)] heap_ext_contents[OF a(2) y(1)] by simp_all
      then have prod: "tensor_contents h3 t = product_of R K C (packed_madd fo st default_blocks C)
          (transposed_if ta (matrix_at (tensor_contents h x))) (transposed_if tb (matrix_at (tensor_contents h y)))"
        unfolding h3(3) using a(7) c(7) sha shc by (intro product_of_cong) simp_all
      note b2 = bias_ok_heap[OF ext b] and w = writes_only_trans[OF heap_ext_writes[OF ext] h3(2)]
      note b3 = bias_ok_writes[OF h3(2) b2(1)]
      from epilogue_outcome[OF writes_only_tensor[OF w t(1)] t(2,3) b3(1), of fo alpha beta relu] obtain h4 where
        h4: "apply_gemm_epilogue fo t bias alpha beta relu h3 = Inr h4" "writes_only t h3 h4"
          "tensor_contents h4 t = epilogue_contents fo alpha beta relu (map_option (tensor_contents h3) bias) (tensor_contents h3 t)"
        by (auto simp: computes_contents_def)
      have "run_gemm fo st t x y bias alpha beta ta tb relu h = Inr h4" using run a(1) c(1) h3(1) h4(1) by simp
      then show ?thesis using writes_only_trans[OF w h4(2)] h4(3) prod b2(2) b3(2) by (simp add: computes_contents_def gemm_contents_def)
    qed
  qed (simp add: run)
qed

end
