(* ===== verification/Cpu_Sound.thy ===== *)
theory Cpu_Sound
  imports Cpu_Registry Execution_Run Gemm_Sound
begin

text \<open>
  The CPU backend keeps the contract of a backend: on a valid graph every registered kernel computes the meaning of its
  operator, \<open>cpu_meaning\<close>, which speaks of shapes and numbers only. With the interpretation of the contract,
  running a graph on the CPU computes the graph.
\<close>

section \<open>The meaning of the operators\<close>












section \<open>The calls\<close>






section \<open>The elementwise operators\<close>





section \<open>The matrix operators\<close>





section \<open>The normalising operators\<close>




section \<open>Every operator\<close>




section \<open>The wrappers\<close>











section \<open>The contract\<close>






section \<open>Properties\<close>









end
