(* ===== verification/Spec2Isabelle.thy ===== *)
theory Spec2Isabelle
  imports Engine_Greedy Reduction_Iterator Onnx_Roundtrip Onnx_Load Memory_Plan Pass_Pipeline Cpu_Sound
begin

text \<open>
  TinyInfer is an inference runtime for small neural networks; MiniPrefix, in the same repository, is a serving engine for
  Llama models with a paged key-value cache. This library models the core of both and proves what their users rely on. Every
  definition is a translation of the C++ it names; paths are relative to the root of the repository.

  The parts and how they interact.

  \<^item> MiniPrefix. The engine (\<^verbatim>\<open>miniprefix/src/engine\<close>) takes requests, asks the scheduler
    (\<^verbatim>\<open>miniprefix/src/scheduler\<close>) for a plan of each iteration, and drives a runner
    (\<^verbatim>\<open>miniprefix/src/backend/cpu\<close>). The runner keeps the keys and values of every sequence in pages; the KV
    manager (\<^verbatim>\<open>miniprefix/src/kv\<close>) reserves pages, runs append transactions with copy-on-write, and shares pages
    between requests through the prefix cache, which takes pages from the same pool.
  \<^item> TinyInfer. A file goes through the parser and the importer (\<^verbatim>\<open>src/model/onnx\<close>) into a model, a graph with named
    inputs and outputs (\<^verbatim>\<open>src/graph\<close>, \<^verbatim>\<open>src/model\<close>); the optimizer (\<^verbatim>\<open>src/graph/optimizer\<close>) rewrites the
    model; the memory plan (\<^verbatim>\<open>src/runtime\<close>) places its intermediate values in one buffer; the executor runs the
    nodes in order on an execution context, through the kernels the CPU backend (\<^verbatim>\<open>src/backend/cpu\<close>, \<^verbatim>\<open>src/ops\<close>)
    has registered. Tensors (\<^verbatim>\<open>src/core\<close>) are views of buffers with a strided layout; the iterators walk over them.

  The theories, bottom up. \<open>Prelude\<close> holds results and exceptions, sequencing, machine limits and list lemmas.

  MiniPrefix:

  \<^item> \<open>Block_Pool\<close>: \<^verbatim>\<open>kv/paged_kv.cpp\<close>. The record \<open>block_pool\<close> has the reference counts, the free list and the
    counters of \<open>KvBlockPool\<close>; \<open>reserve\<close> is all or nothing.
  \<^item> \<open>Prefix_Cache\<close>: \<^verbatim>\<open>kv/prefix_cache.cpp\<close>. A node of the trie is its path from the root. \<open>Prefix_Inv\<close> has its
    invariant, \<open>Prefix_Lookup\<close> that a lookup finds the longest cached prefix, \<open>Prefix_Publish\<close> publication.
  \<^item> \<open>KV_Manager\<close>: \<^verbatim>\<open>kv/kv_manager.cpp\<close>, every operation. \<open>KV_Inv\<close> states the invariant (page accounting, shapes,
    one transaction, the reservation ledger), \<open>KV_Ops\<close>, \<open>KV_Share\<close> and \<open>KV_Append\<close> that each operation keeps it
    and what it returns, \<open>KV_Guarantee\<close> the promise of admission control, \<open>KV_Payload\<close> what the pages hold.
  \<^item> \<open>Model_Runner\<close> and \<open>KV_Runner\<close>: \<^verbatim>\<open>backend/cpu/llama_runner.cpp\<close>, the part that touches the cache. The
    arithmetic of the transformer is a parameter, one function of the rows before a position. \<open>KV_Machine\<close> has the reachable
    states of manager and runner together and the refinement of a contiguous computation.
  \<^item> \<open>Scheduler\<close> and \<open>Engine\<close>: \<^verbatim>\<open>scheduler/scheduler.cpp\<close>, \<^verbatim>\<open>engine/engine.cpp\<close>. The engine is modelled over
    an arbitrary runner. \<open>Engine_Events\<close> proves the event contract for every runner, \<open>Engine_Greedy\<close> what is generated.

  TinyInfer:

  \<^item> \<open>Tensor_Layout\<close>, \<open>Tensor_Iterator\<close>, \<open>Reduction_Iterator\<close>: \<^verbatim>\<open>src/core/tensor_layout.cpp\<close>,
    \<^verbatim>\<open>tensor_iterator.cpp\<close>, \<^verbatim>\<open>reduction_iterator.cpp\<close>. Dimensions and strides are integers in the range of 64 bits, with every
    overflow check of the code and the wrap-around where the code has none. No layout the tensor interface can make has
    fewer positions than elements (\<open>separated\<close>).
  \<^item> \<open>Memory\<close>, \<open>Tensor\<close>: \<^verbatim>\<open>src/core/memory\<close>, \<^verbatim>\<open>src/core/tensor.cpp\<close>. A heap is a list of byte buffers; a tensor is
    a layout, a data type and a view of a buffer. Reading or writing outside a buffer is an error of its own.
  \<^item> \<open>Op_Schema\<close>, \<open>Graph\<close>: \<^verbatim>\<open>src/ops/operator_schema.cpp\<close>, \<^verbatim>\<open>src/graph/graph.cpp\<close>, \<^verbatim>\<open>graph_analysis.cpp\<close>.
    \<open>Graph_Order\<close> verifies the sorting loop, \<open>Graph_Build\<close> the graphs that the interface can build, \<open>Graph_Meaning\<close> what a
    graph computes for an arbitrary meaning of its operators.
  \<^item> \<open>Graph_Rewriter\<close>, \<open>Graph_Passes\<close>: \<^verbatim>\<open>src/model/model.cpp\<close> and \<^verbatim>\<open>src/graph/optimizer\<close>. \<open>Rewrite_Sound\<close>,
    \<open>Passes_Sound\<close>, \<open>Dead_Code\<close>, \<open>Fusion\<close> and \<open>Fusion_Passes\<close> verify the rewriter and each pass;
    \<open>Pass_Pipeline\<close> has the contract of a pass as a locale and the pass manager over it.
  \<^item> \<open>Wire\<close>, \<open>Onnx_Parser\<close>: \<^verbatim>\<open>src/model/onnx/protobuf_model_parser.cpp\<close> and \<^verbatim>\<open>import_diagnostic.cpp\<close>.
    \<open>Onnx_Decode\<close> and \<open>Onnx_Safety\<close> treat arbitrary bytes, \<open>Onnx_Roundtrip\<close> a reference writer. Every load from
    the message is a checked load (\<open>load_bytes\<close>, \<open>load_item\<close>), undefined outside its input, so that the bounds checks
    of the code are what the safety proof rests on.
  \<^item> \<open>Onnx_Registry\<close>, \<open>Onnx_Importer\<close>: \<^verbatim>\<open>src/model/onnx/operator_registry.cpp\<close>, \<^verbatim>\<open>onnx_importer.cpp\<close>.
    \<open>Onnx_Outcome\<close>, \<open>Onnx_Meaning\<close>, \<open>Onnx_Import_Sound\<close> and \<open>Onnx_Load\<close> prove that the imported model computes what
    the names of the file say, and that every other file is diagnosed.
  \<^item> \<open>Memory_Plan\<close>: \<^verbatim>\<open>src/runtime/memory_plan.cpp\<close>, with the lifetimes it is sound for.
  \<^item> \<open>Execution\<close>: \<^verbatim>\<open>src/runtime/execution_context.cpp\<close> and \<^verbatim>\<open>executor.cpp\<close> over a backend, a record of its
    operations. \<open>Execution_Sound\<close> has the invariant of a run (which values are materialised, which are still needed, where
    planned tensors lie), \<open>Execution_Run\<close> the reachable contexts and the contract of a backend as a locale.
  \<^item> \<open>Kernel_Runner\<close>, \<open>Reduction_Kernels\<close>, \<open>Matmul\<close>: the kernels of \<^verbatim>\<open>ops/kernel_runner.h\<close>,
    \<^verbatim>\<open>src/ops/basic_ops.cpp\<close>, \<^verbatim>\<open>matmul.cpp\<close>, \<^verbatim>\<open>gemm.cpp\<close> and \<^verbatim>\<open>src/backend/cpu/matmul_kernel.cpp\<close>, as loops of
    loads and stores on the heap over an arbitrary arithmetic \<open>float_ops\<close> and vector unit \<open>simd_target\<close>.
    \<open>Kernel_Sound\<close>, \<open>Reduction_Sound\<close>, \<open>Matmul_Sound\<close> and \<open>Gemm_Sound\<close> prove what each leaves in its output
    and that it writes nothing else.
  \<^item> \<open>Cpu_Registry\<close>: \<^verbatim>\<open>src/backend/cpu/operator_registry.cpp\<close>, \<^verbatim>\<open>cpu_backend.cpp\<close>. \<open>Cpu_Sound\<close> says what each
    operator means (\<open>cpu_meaning\<close>) and interprets the contract of a backend with the registered kernels.

  Conventions. An operation that may throw returns \<open>exn + 'a\<close>, with one constructor per exception class; what C++ leaves
  undefined is the constructor \<open>Undefined_behaviour\<close>, so that a theorem about every outcome also says where it cannot
  happen; no handler of TinyInfer catches it. The fatal handler of the engine takes every failure of a runner alike, so a
  runner with undefined behaviour is outside of what its theorems describe. A state is a record that is passed and returned; an exception in the middle of
  an operation returns the state it leaves where the caller can see it. \<open>std::size_t\<close> values are natural numbers with
  the checks of the code, and \<open>wrap64\<close> or \<open>dec64\<close> where the code computes modulo \<open>2 ^ 64\<close>. A float is its bit pattern.
  An ordered map is an association list in key order, an unordered map or set a function, a list or a set. A shared
  pointer to a buffer is its index in the heap. The host stores numbers with the low byte first.

  Loops. Most are structural. The work list of dead code elimination ends by the lexicographic order on unset flags and
  pending entries. Kahn's loop gets one unit of fuel per node, which is proved to be enough. The loops of the wire reader and
  the rounds of the importer carry a guard that their progress is real, and it is proved that the guard never fires.

  Hypotheses. The theorems on the optimizer hold for every meaning of the operators in which Gemm with unit factors is a
  product plus a bias and the fused operator is Gemm followed by ReLU. The theorems on generation hold for every row
  function and comparison of logits. The engine theorems on events assume nothing about the runner. The theorems on the kernels hold for
  every arithmetic; the order of the operations is the one of the code, so that equal results are equal bits.

  Not modelled. The fused packed product with its epilogue descriptor (\<^verbatim>\<open>src/backend/cpu/gemm_epilogue.cpp\<close>) and the
  prepared execution plan of the CPU (\<^verbatim>\<open>execution_plan.cpp\<close>), which call the kernels with packed weights; constant folding,
  which runs the kernels inside the optimizer; the selection of a device. The numbers inside the Llama runner stay a
  parameter. The CUDA and Metal backends drive devices through foreign runtimes. Releasing memory is not modelled, nor are
  cost counters, timers and printed statistics. The command-line workers, the examples, the benchmarks and the tests are
  clients of what is modelled.
\<close>

end
